(* ===== verification/Prelude.thy ===== *)
theory Prelude
  imports Main "HOL-Library.AList"
begin

text \<open>
  Shared material of the development: the model of the standard containers the C++ sources use,
  the interface every name-indexed table of the program offers, and the generic lemmas the
  component theories share.

  A \<open>std::unordered_map\<close> (or a \<open>std::map\<close> whose order is not observed) is an association list
  with distinct keys, \<open>umap_wf\<close>.  The list order stands for the iteration order, which the
  standard leaves open: every theorem is stated for an arbitrary list, hence for every order.
  \<open>operator[]\<close> on the left of an assignment is \<^const>\<open>AList.update\<close>, \<open>find\<close> is \<^const>\<open>map_of\<close>,
  \<open>erase\<close> is \<^const>\<open>AList.delete\<close>; \<open>emplace\<close> and \<open>operator==\<close> are defined here.
\<close>

named_theorems umap_simps \<open>rewriting of table operations to the map they denote\<close>

type_synonym ('k, 'v) umap = "('k \<times> 'v) list"

definition umap_wf :: "('k, 'v) umap \<Rightarrow> bool" where
  "umap_wf m \<longleftrightarrow> distinct (map fst m)"

text \<open>\<open>emplace\<close> keeps an existing entry; its second component tells whether it inserted.\<close>

definition umap_emplace :: "'k \<Rightarrow> 'v \<Rightarrow> ('k, 'v) umap \<Rightarrow> ('k, 'v) umap \<times> bool" where
  "umap_emplace k v m = (case map_of m k of None \<Rightarrow> (m @ [(k, v)], True) | Some _ \<Rightarrow> (m, False))"

text \<open>\<open>operator==\<close>: equal sizes, and every element of the left one found in the right one.\<close>

definition umap_eq :: "('k, 'v) umap \<Rightarrow> ('k, 'v) umap \<Rightarrow> bool" where
  "umap_eq a b \<longleftrightarrow> length a = length b \<and> list_all (\<lambda>(k, v). map_of b k = Some v) a"

text \<open>Filling a table from a list of pairs, later pairs overwriting earlier ones.\<close>

definition umap_of_pairs :: "('k \<times> 'v) list \<Rightarrow> ('k, 'v) umap" where
  "umap_of_pairs ps = fold (\<lambda>(k, v) m. AList.update k v m) ps []"

text \<open>Elements pushed at the back of a vector, as an option of the caller: \<open>nullptr\<close> is \<^const>\<open>None\<close>.\<close>

definition push_opt :: "'a list option \<Rightarrow> 'a \<Rightarrow> 'a list option" where
  "push_opt v x = map_option (\<lambda>xs. xs @ [x]) v"

section \<open>Lemmas on tables\<close>

lemma umap_wf_Nil [simp]: "umap_wf []"
  by (simp add: umap_wf_def)

lemma umap_wf_update [simp]: "umap_wf m \<Longrightarrow> umap_wf (AList.update k v m)"
  by (simp add: umap_wf_def distinct_update)

lemma umap_wf_delete [simp]: "umap_wf m \<Longrightarrow> umap_wf (AList.delete k m)"
  by (simp add: umap_wf_def AList.delete_keys distinct_removeAll)

lemma map_of_update [umap_simps]: "map_of (AList.update k v m) = (map_of m)(k \<mapsto> v)"
  by (rule update_conv')

lemma map_of_delete [umap_simps]: "map_of (AList.delete k m) = (map_of m)(k := None)"
  by (rule AList.delete_conv')

lemma map_of_emplace [umap_simps]:
  "map_of (fst (umap_emplace k v m)) = (map_of m)(k := (case map_of m k of None \<Rightarrow> Some v | Some w \<Rightarrow> Some w))"
  by (auto simp: umap_emplace_def fun_eq_iff map_add_def split: option.splits)

lemma emplace_fresh: "map_of m k = None \<Longrightarrow> umap_emplace k v m = (m @ [(k, v)], True)"
  by (simp add: umap_emplace_def)

lemma emplace_present: "map_of m k = Some w \<Longrightarrow> umap_emplace k v m = (m, False)"
  by (simp add: umap_emplace_def)

lemma umap_wf_emplace [simp]: "umap_wf m \<Longrightarrow> umap_wf (fst (umap_emplace k v m))"
  by (auto simp: umap_emplace_def umap_wf_def map_of_eq_None_iff split: option.splits)

lemma umap_of_pairs_snoc:
  "umap_of_pairs (ps @ [p]) = AList.update (fst p) (snd p) (umap_of_pairs ps)"
  by (cases p) (simp add: umap_of_pairs_def)

lemma umap_of_pairs_wf [simp]: "umap_wf (umap_of_pairs ps)"
proof (induction ps rule: rev_induct)
  case Nil
  show ?case by (simp add: umap_of_pairs_def)
next
  case (snoc p ps)
  then show ?case by (simp add: umap_of_pairs_snoc)
qed

lemma map_of_umap_of_pairs [umap_simps]: "map_of (umap_of_pairs ps) = map_of (rev ps)"
proof (induction ps rule: rev_induct)
  case Nil
  show ?case by (simp add: umap_of_pairs_def)
next
  case (snoc p ps)
  then show ?case by (cases p) (simp add: umap_of_pairs_snoc umap_simps)
qed

lemma umap_eq_refl [simp]: "umap_wf m \<Longrightarrow> umap_eq m m"
  by (auto simp: umap_eq_def umap_wf_def list_all_iff)

lemma umap_card: "umap_wf m \<Longrightarrow> card (dom (map_of m)) = length m"
  by (metis distinct_card dom_map_of_conv_image_fst length_map set_map umap_wf_def)

text \<open>On well-formed tables \<open>operator==\<close> is equality of the maps they denote.\<close>

lemma umap_eq_iff:
  assumes "umap_wf a" and "umap_wf b"
  shows "umap_eq a b \<longleftrightarrow> map_of a = map_of b"
proof
  assume eq: "umap_eq a b"
  have le: "map_of a \<subseteq>\<^sub>m map_of b"
    using eq assms(1) by (fastforce simp: map_le_def umap_eq_def list_all_iff umap_wf_def)
  have "card (dom (map_of a)) = card (dom (map_of b))"
    using eq umap_card [OF assms(1)] umap_card [OF assms(2)] by (simp add: umap_eq_def)
  moreover have "dom (map_of a) \<subseteq> dom (map_of b)" using le by (rule map_le_implies_dom_le)
  ultimately have "dom (map_of a) = dom (map_of b)"
    by (simp add: card_subset_eq finite_dom_map_of)
  then show "map_of a = map_of b"
    using le by (metis map_le_antisym map_le_def)
next
  assume eq: "map_of a = map_of b"
  have "\<And>k v. (k, v) \<in> set a \<Longrightarrow> map_of b k = Some v"
    using eq assms(1) by (metis map_of_is_SomeI umap_wf_def)
  then show "umap_eq a b"
    using eq umap_card [OF assms(1)] umap_card [OF assms(2)] by (auto simp: umap_eq_def list_all_iff)
qed

text \<open>Emplacing the entries of a second table: existing entries win, then the first of the new ones.\<close>

lemma map_of_fold_emplace [umap_simps]:
  "map_of (fold (\<lambda>(k, v) m. fst (umap_emplace k (f v) m)) ps m) n =
     (case map_of m n of None \<Rightarrow> map_option f (map_of ps n) | Some v \<Rightarrow> Some v)"
proof (induction ps arbitrary: m)
  case Nil
  show ?case by (simp split: option.splits)
next
  case (Cons p ps)
  then show ?case by (cases p) (auto simp: umap_simps split: option.splits)
qed

lemma map_of_map_pairs: "map_of (map (\<lambda>x. (f x, g x)) xs) n = map_option g (find (\<lambda>x. f x = n) xs)"
  by (induction xs) auto

section \<open>The interface of a name-indexed table\<close>

text \<open>
  Several components of the program keep a table indexed by names and rely on one law only: what
  a lookup returns after a registration.  The client lemma says what a whole sequence of
  registrations leaves behind: the last one for each name.
\<close>

locale name_table =
  fixes put :: "string \<Rightarrow> 'v \<Rightarrow> 't \<Rightarrow> 't"
    and look :: "'t \<Rightarrow> string \<Rightarrow> 'v option"
  assumes look_put: "look (put k v t) k' = (if k' = k then Some v else look t k')"
begin

lemma look_put_same: "look (put k v t) k = Some v"
  by (simp add: look_put)

lemma look_put_other: "k' \<noteq> k \<Longrightarrow> look (put k v t) k' = look t k'"
  by (simp add: look_put)

lemma look_fold_put:
  "look (fold (\<lambda>(k, v). put k v) ps t) k = (case map_of (rev ps) k of None \<Rightarrow> look t k | Some v \<Rightarrow> Some v)"
proof (induction ps rule: rev_induct)
  case Nil
  show ?case by simp
next
  case (snoc p ps)
  then show ?case by (cases p) (simp add: look_put)
qed

end

interpretation umap_table: name_table "AList.update" "map_of"
  by unfold_locales (simp add: update_conv)

section \<open>Simulation of a partial machine by a total specification\<close>

text \<open>
  A component whose operations may crash (\<^const>\<open>None\<close>: a null or dangling pointer, an empty container) implements a
  specification when every legal step from related states returns, with the same answer and related states.  The runs of
  both are shared by all components; the law of one step is what each of them proves.
\<close>

fun run_machine :: "('op \<Rightarrow> 'c \<Rightarrow> ('o \<times> 'c) option) \<Rightarrow> 'op list \<Rightarrow> 'c \<Rightarrow> ('o list \<times> 'c) option" where
  "run_machine step [] c = Some ([], c)"
| "run_machine step (x # xs) c =
     (case step x c of
        None \<Rightarrow> None
      | Some (r, c1) \<Rightarrow> (case run_machine step xs c1 of None \<Rightarrow> None | Some (rs, c2) \<Rightarrow> Some (r # rs, c2)))"

fun run_spec :: "('op \<Rightarrow> 'a \<Rightarrow> 'o \<times> 'a) \<Rightarrow> 'op list \<Rightarrow> 'a \<Rightarrow> 'o list \<times> 'a" where
  "run_spec step [] a = ([], a)"
| "run_spec step (x # xs) a =
     (case step x a of (r, a1) \<Rightarrow> (case run_spec step xs a1 of (rs, a2) \<Rightarrow> (r # rs, a2)))"

text \<open>Every operation of a run is legal where the specification has come to.\<close>

fun run_legal :: "('op \<Rightarrow> 'a \<Rightarrow> 'o \<times> 'a) \<Rightarrow> ('op \<Rightarrow> 'a \<Rightarrow> bool) \<Rightarrow> 'op list \<Rightarrow> 'a \<Rightarrow> bool" where
  "run_legal step legal [] a \<longleftrightarrow> True"
| "run_legal step legal (x # xs) a \<longleftrightarrow> legal x a \<and> run_legal step legal xs (snd (step x a))"

locale op_simulation =
  fixes rel :: "'c \<Rightarrow> 'a \<Rightarrow> bool"
    and cstep :: "'op \<Rightarrow> 'c \<Rightarrow> ('o \<times> 'c) option"
    and astep :: "'op \<Rightarrow> 'a \<Rightarrow> 'o \<times> 'a"
    and legal :: "'op \<Rightarrow> 'a \<Rightarrow> bool"
  assumes step_sim: "legal x a \<Longrightarrow> rel c a \<Longrightarrow> \<exists>c'. cstep x c = Some (fst (astep x a), c') \<and> rel c' (snd (astep x a))"
begin

lemma run_sim:
  assumes "run_legal astep legal xs a" and "rel c a"
  shows "\<exists>c'. run_machine cstep xs c = Some (fst (run_spec astep xs a), c') \<and> rel c' (snd (run_spec astep xs a))"
  using assms
proof (induction xs arbitrary: c a)
  case Nil
  then show ?case by simp
next
  case (Cons x xs)
  obtain c1 where 1: "cstep x c = Some (fst (astep x a), c1)" "rel c1 (snd (astep x a))"
    using step_sim [of x] Cons.prems by auto
  obtain c2 where 2: "run_machine cstep xs c1 = Some (fst (run_spec astep xs (snd (astep x a))), c2)"
      "rel c2 (snd (run_spec astep xs (snd (astep x a))))"
    using Cons.IH [OF _ 1(2)] Cons.prems(1) by auto
  show ?case using 1 2 by (simp add: split_beta)
qed

lemma run_sim_all:
  assumes "\<And>x a. x \<in> set xs \<Longrightarrow> legal x a" and "rel c a"
  shows "\<exists>c'. run_machine cstep xs c = Some (fst (run_spec astep xs a), c') \<and> rel c' (snd (run_spec astep xs a))"
proof -
  have "run_legal astep legal xs a" using assms(1) by (induction xs arbitrary: a) auto
  then show ?thesis by (rule run_sim [OF _ assms(2)])
qed

end

section \<open>Lists\<close>

lemma fold_invariant_list:
  assumes "P s" and "\<And>x s. x \<in> set xs \<Longrightarrow> P s \<Longrightarrow> P (f x s)"
  shows "P (fold f xs s)"
  using assms by (induction xs arbitrary: s) auto

lemma nth_before_split:
  "j < i \<Longrightarrow> i < length xs \<Longrightarrow> xs ! j \<in> set (take i xs)"
  by (auto simp: in_set_conv_nth)

lemma push_opt_simps [simp]:
  "push_opt None x = None" "push_opt (Some xs) x = Some (xs @ [x])"
  by (simp_all add: push_opt_def)

section \<open>Signed 32-bit arithmetic\<close>

text \<open>The result of an operation on \<open>int\<close>; outside 32 bits it is undefined behaviour, \<^const>\<open>None\<close>.\<close>

definition i32 :: "int \<Rightarrow> int option" where
  "i32 v = (if - (2 ^ 31) \<le> v \<and> v < 2 ^ 31 then Some v else None)"

definition fits_i32 :: "int \<Rightarrow> bool" where
  "fits_i32 v \<longleftrightarrow> - (2 ^ 31) \<le> v \<and> v < 2 ^ 31"

lemma i32_Some_iff: "i32 v = Some w \<longleftrightarrow> w = v \<and> fits_i32 v"
  by (auto simp: i32_def fits_i32_def)

lemma i32_fits [simp]: "fits_i32 v \<Longrightarrow> i32 v = Some v"
  by (simp add: i32_Some_iff)

lemma i32_overflow [simp]: "\<not> fits_i32 v \<Longrightarrow> i32 v = None"
  by (auto simp: i32_def fits_i32_def)

lemma fits_i32_abs: "\<bar>v\<bar> < 2 ^ 31 \<Longrightarrow> fits_i32 v"
  by (auto simp: fits_i32_def)

end
