(* ===== verification/TopoSort.thy ===== *)
theory TopoSort
  imports Prelude "HOL-Library.Multiset"
begin

text \<open>
  The dependency sort of \<open>DAG/sw/server/ModuleTopologyManager.cpp\<close>: \<open>topology_sort\<close> orders the
  modules of a topology so that every module runs after its dependencies, rejects cyclic
  descriptions, and, when asked, collects the synchronous modules that may run in parallel.

  \<open>sort_node\<close> is the body of the \<open>for\<close> loop over the elements, \<open>sort_pass\<close> one round of the outer
  \<open>while\<close> and \<open>sort_loop\<close> the \<open>while\<close> itself, a total function: the measure is the number of names
  not removed yet.  Null output pointers are \<^const>\<open>None\<close>.  \<open>is_sync\<close> stands for the virtual query
  \<open>is_sync_module\<close> and \<open>check_allow\<close> for the flag \<open>enable_check_allow_parallel_field\<close>.
  \<open>topology_element\<close> holds the fields the source reads of the protobuf message
  \<open>RunnableTopology_Element\<close>.
\<close>

section \<open>Data\<close>

record runnable_element =
  re_name :: string
  re_factory_name :: string
  re_dependencies :: "string list"
  re_module_params :: "(string, string) umap"

record topology_element =
  el_name :: string
  el_dependency :: "string list"
  el_allow_parallel :: bool
  el_custom_params :: "(string \<times> string) list"

record sort_state =
  removed :: "string set"
  sync_modules :: "string list"
  async_modules :: "string list"
  sync_modules_allow_parallel :: "string list"
  sorted_topology :: "runnable_element list option"
  parallel_modules :: "string set option"
  zero_upstream_node_found :: bool

section \<open>The sort\<close>

definition factory_of :: "(string, string) umap \<Rightarrow> string \<Rightarrow> string" where
  "factory_of factories n = (case map_of factories n of Some f \<Rightarrow> f | None \<Rightarrow> [])"

definition to_runnable :: "(string, string) umap \<Rightarrow> topology_element \<Rightarrow> runnable_element" where
  "to_runnable factories e =
     \<lparr>re_name = el_name e, re_factory_name = factory_of factories (el_name e),
      re_dependencies = el_dependency e, re_module_params = []\<rparr>"

definition sort_node ::
  "(string \<Rightarrow> bool) \<Rightarrow> bool \<Rightarrow> (string, string) umap \<Rightarrow> topology_element \<Rightarrow> sort_state \<Rightarrow> sort_state" where
  "sort_node is_sync check_allow factories e s =
     (if el_name e \<in> removed s then s
      else if \<not> list_all (\<lambda>d. d \<in> removed s) (el_dependency e) then s
      else
        let s1 = s\<lparr>zero_upstream_node_found := True\<rparr>;
            factory_name = factory_of factories (el_name e);
            s2 = (case parallel_modules s1 of
                    None \<Rightarrow> s1\<lparr>removed := insert (el_name e) (removed s1)\<rparr>
                  | Some _ \<Rightarrow>
                      if is_sync factory_name then
                        s1\<lparr>sync_modules := sync_modules s1 @ [el_name e],
                           sync_modules_allow_parallel :=
                             (if check_allow \<and> el_allow_parallel e
                              then sync_modules_allow_parallel s1 @ [el_name e]
                              else sync_modules_allow_parallel s1)\<rparr>
                      else s1\<lparr>async_modules := async_modules s1 @ [el_name e]\<rparr>)
        in s2\<lparr>sorted_topology := push_opt (sorted_topology s2) (to_runnable factories e)\<rparr>)"

definition sort_flush :: "bool \<Rightarrow> sort_state \<Rightarrow> sort_state" where
  "sort_flush check_allow s =
     (case parallel_modules s of
        None \<Rightarrow> s
      | Some P \<Rightarrow>
          s\<lparr>parallel_modules :=
              Some (if check_allow then P \<union> set (sync_modules_allow_parallel s)
                    else if 1 < length (sync_modules s) then P \<union> set (sync_modules s)
                    else P),
            removed := removed s \<union> set (sync_modules s) \<union> set (async_modules s),
            sync_modules := [], async_modules := [], sync_modules_allow_parallel := []\<rparr>)"

definition sort_pass ::
  "(string \<Rightarrow> bool) \<Rightarrow> bool \<Rightarrow> (string, string) umap \<Rightarrow> topology_element list \<Rightarrow> sort_state \<Rightarrow> sort_state" where
  "sort_pass is_sync check_allow factories topology s =
     sort_flush check_allow
       (fold (sort_node is_sync check_allow factories) topology (s\<lparr>zero_upstream_node_found := False\<rparr>))"

section \<open>Progress of one pass\<close>

text \<open>\<open>pend\<close>: the names removed already or waiting for the end of the pass to be removed.\<close>

definition pend :: "sort_state \<Rightarrow> string set" where
  "pend s = (case parallel_modules s of None \<Rightarrow> removed s
             | Some _ \<Rightarrow> removed s \<union> set (sync_modules s) \<union> set (async_modules s))"

abbreviation enabled :: "topology_element \<Rightarrow> sort_state \<Rightarrow> bool" where
  "enabled e s \<equiv> el_name e \<notin> removed s \<and> list_all (\<lambda>d. d \<in> removed s) (el_dependency e)"

named_theorems sort_simps \<open>what one step of the sort does to each part of its state\<close>

lemma sort_node_disabled [sort_simps]: "\<not> enabled e s \<Longrightarrow> sort_node is_sync ca fs e s = s"
  by (auto simp: sort_node_def)

lemma sort_node_found [sort_simps]: "enabled e s \<Longrightarrow> zero_upstream_node_found (sort_node is_sync ca fs e s)"
  by (simp add: sort_node_def Let_def split: option.splits)

lemma sort_node_pend [sort_simps]: "enabled e s \<Longrightarrow> pend (sort_node is_sync ca fs e s) = insert (el_name e) (pend s)"
  by (auto simp: sort_node_def Let_def pend_def split: option.splits)

lemma sort_node_removed [sort_simps]:
  "removed (sort_node is_sync ca fs e s) =
     (if enabled e s \<and> parallel_modules s = None then insert (el_name e) (removed s) else removed s)"
  by (auto simp: sort_node_def Let_def split: option.splits)

lemma sort_node_parallel [sort_simps]: "parallel_modules (sort_node is_sync ca fs e s) = parallel_modules s"
  by (auto simp: sort_node_def Let_def split: option.splits)

lemma sort_node_sorted [sort_simps]:
  "sorted_topology (sort_node is_sync ca fs e s) =
     (if enabled e s then push_opt (sorted_topology s) (to_runnable fs e) else sorted_topology s)"
  by (auto simp: sort_node_def Let_def split: option.splits)

lemma pend_found [sort_simps]: "pend (s\<lparr>zero_upstream_node_found := b\<rparr>) = pend s"
  by (simp add: pend_def split: option.splits)

lemma removed_sort_flush [sort_simps]: "removed (sort_flush ca s) = pend s"
  by (auto simp: sort_flush_def pend_def split: option.splits)

lemma sort_flush_found [sort_simps]: "zero_upstream_node_found (sort_flush ca s) = zero_upstream_node_found s"
  by (simp add: sort_flush_def split: option.splits)

lemma sort_flush_sorted [sort_simps]: "sorted_topology (sort_flush ca s) = sorted_topology s"
  by (simp add: sort_flush_def split: option.splits)

lemma removed_subset_pend: "removed s \<subseteq> pend s"
  by (auto simp: pend_def split: option.splits)

lemma fold_node_mono:
  "pend s \<subseteq> pend (fold (sort_node is_sync ca fs) xs s)
   \<and> removed s \<subseteq> removed (fold (sort_node is_sync ca fs) xs s)
   \<and> pend (fold (sort_node is_sync ca fs) xs s) \<subseteq> pend s \<union> el_name ` set xs"
proof (induction xs arbitrary: s)
  case (Cons x xs)
  show ?case
    using Cons.IH [of "sort_node is_sync ca fs x s"]
    by (cases "enabled x s") (auto simp: sort_simps)
qed simp

lemma fold_node_found:
  assumes "zero_upstream_node_found (fold (sort_node is_sync ca fs) xs s)"
    and "\<not> zero_upstream_node_found s"
  shows "\<exists>x \<in> set xs. el_name x \<notin> removed s \<and> el_name x \<in> pend (fold (sort_node is_sync ca fs) xs s)"
  using assms
proof (induction xs arbitrary: s)
  case (Cons x xs)
  show ?case
  proof (cases "enabled x s")
    case True
    then have "el_name x \<in> pend (sort_node is_sync ca fs x s)" by (simp add: sort_simps)
    then show ?thesis
      using True fold_node_mono [of "sort_node is_sync ca fs x s" is_sync ca fs xs] by auto
  next
    case False
    then show ?thesis using Cons by (simp add: sort_simps)
  qed
qed simp

lemma sort_pass_progress:
  assumes "zero_upstream_node_found (sort_pass is_sync ca fs topology s)"
  shows "\<exists>n \<in> el_name ` set topology. n \<notin> removed s \<and> n \<in> removed (sort_pass is_sync ca fs topology s)"
  using assms fold_node_found [of is_sync ca fs topology "s\<lparr>zero_upstream_node_found := False\<rparr>"]
  by (auto simp: sort_pass_def sort_simps)

lemma sort_pass_removed_mono: "removed s \<subseteq> removed (sort_pass is_sync ca fs topology s)"
proof -
  let ?s = "s\<lparr>zero_upstream_node_found := False\<rparr>"
  have "removed ?s \<subseteq> pend (fold (sort_node is_sync ca fs) topology ?s)"
    using fold_node_mono [of ?s is_sync ca fs topology] removed_subset_pend by blast
  then show ?thesis by (simp add: sort_pass_def sort_simps)
qed

lemma sort_pass_decreases:
  assumes "zero_upstream_node_found (sort_pass is_sync ca fs topology s)"
  shows "card (el_name ` set topology - removed (sort_pass is_sync ca fs topology s))
         < card (el_name ` set topology - removed s)"
proof (rule psubset_card_mono)
  show "el_name ` set topology - removed (sort_pass is_sync ca fs topology s)
        \<subset> el_name ` set topology - removed s"
    using sort_pass_progress [OF assms] sort_pass_removed_mono [of s is_sync ca fs topology] by blast
qed simp

section \<open>The outer loop\<close>

function sort_loop ::
  "(string \<Rightarrow> bool) \<Rightarrow> bool \<Rightarrow> (string, string) umap \<Rightarrow> topology_element list \<Rightarrow> sort_state \<Rightarrow> bool \<times> sort_state" where
  "sort_loop is_sync check_allow factories topology s =
     (if card (removed s) = length topology then (True, s)
      else let s' = sort_pass is_sync check_allow factories topology s
           in if zero_upstream_node_found s'
              then sort_loop is_sync check_allow factories topology s'
              else (False, s'))"
  by pat_completeness auto
termination
proof (relation "measure (\<lambda>(is_sync, ca, fs, topology, s). card (el_name ` set topology - removed s))", goal_cases)
  case 1
  show ?case by (rule wf_measure)
next
  case (2 is_sync ca fs topology s s')
  then show ?case by (simp add: sort_pass_decreases)
qed

declare sort_loop.simps [simp del]

definition sort_init :: "runnable_element list option \<Rightarrow> string set option \<Rightarrow> sort_state" where
  "sort_init out parallel =
     \<lparr>removed = {}, sync_modules = [], async_modules = [], sync_modules_allow_parallel = [],
      sorted_topology = out, parallel_modules = parallel, zero_upstream_node_found = False\<rparr>"

definition topology_sort ::
  "(string \<Rightarrow> bool) \<Rightarrow> bool \<Rightarrow> topology_element list \<Rightarrow> runnable_element list option \<Rightarrow> (string, string) umap
   \<Rightarrow> string set option \<Rightarrow> bool \<times> sort_state" where
  "topology_sort is_sync check_allow topology out factories parallel =
     sort_loop is_sync check_allow factories topology (sort_init out parallel)"

text \<open>The overload on vectors of \<open>RunnableElement\<close> converts names and dependencies only.\<close>

definition converted_element :: "runnable_element \<Rightarrow> topology_element" where
  "converted_element e =
     \<lparr>el_name = re_name e, el_dependency = re_dependencies e, el_allow_parallel = False, el_custom_params = []\<rparr>"

definition topology_sort_vec ::
  "(string \<Rightarrow> bool) \<Rightarrow> bool \<Rightarrow> runnable_element list \<Rightarrow> runnable_element list option \<Rightarrow> (string, string) umap
   \<Rightarrow> string set option \<Rightarrow> bool \<times> sort_state" where
  "topology_sort_vec is_sync check_allow topology out factories parallel =
     topology_sort is_sync check_allow (map converted_element topology) out factories parallel"

text \<open>A description used in the witnesses: two independent synchronous modules, then a join.\<close>

definition demo_topology :: "topology_element list" where
  "demo_topology =
     [\<lparr>el_name = ''m4'', el_dependency = [''m2'', ''m3''], el_allow_parallel = False, el_custom_params = []\<rparr>,
      \<lparr>el_name = ''m2'', el_dependency = [], el_allow_parallel = False, el_custom_params = []\<rparr>,
      \<lparr>el_name = ''m3'', el_dependency = [], el_allow_parallel = False, el_custom_params = []\<rparr>]"

definition demo_factories :: "(string, string) umap" where
  "demo_factories = [(''m2'', ''sync''), (''m3'', ''sync''), (''m4'', ''async'')]"

section \<open>Specification\<close>

text \<open>\<open>deps\<close> relates a dependency to the module that needs it.\<close>

definition names :: "topology_element list \<Rightarrow> string set" where
  "names topology = el_name ` set topology"

definition deps :: "topology_element list \<Rightarrow> (string \<times> string) set" where
  "deps topology = (\<Union>e \<in> set topology. set (el_dependency e) \<times> {el_name e})"

definition good_order :: "topology_element list \<Rightarrow> string list \<Rightarrow> bool" where
  "good_order topology ord \<longleftrightarrow> distinct ord \<and> set ord \<subseteq> names topology \<and>
     (\<forall>i < length ord. \<forall>d. (d, ord ! i) \<in> deps topology \<longrightarrow> d \<in> set (take i ord))"

lemma deps_iff: "(d, n) \<in> deps topology \<longleftrightarrow> (\<exists>e \<in> set topology. el_name e = n \<and> d \<in> set (el_dependency e))"
  by (auto simp: deps_def)

lemma finite_deps: "finite (deps topology)"
  by (simp add: deps_def)

lemma deps_unique:
  "distinct (map el_name topology) \<Longrightarrow> e \<in> set topology \<Longrightarrow> (d, el_name e) \<in> deps topology \<longleftrightarrow> d \<in> set (el_dependency e)"
  by (auto simp: deps_iff distinct_map inj_on_def)

lemma good_order_Nil [simp]: "good_order topology []"
  by (simp add: good_order_def)

lemma good_order_snoc:
  assumes "good_order topology ord" "n \<in> names topology" "n \<notin> set ord"
    and "\<And>d. (d, n) \<in> deps topology \<Longrightarrow> d \<in> set ord"
  shows "good_order topology (ord @ [n])"
  using assms by (auto simp: good_order_def nth_append less_Suc_eq)

lemma good_order_closed:
  assumes "good_order topology ord" "n \<in> set ord" "(d, n) \<in> deps topology"
  shows "d \<in> set ord"
proof -
  obtain i where "i < length ord" "ord ! i = n" using assms(2) by (auto simp: in_set_conv_nth)
  with assms(1,3) have "d \<in> set (take i ord)" by (auto simp: good_order_def)
  then show ?thesis by (rule in_set_takeD)
qed

text \<open>A complete order exists only if the dependencies are closed and acyclic.\<close>

lemma good_order_rank:
  assumes g: "good_order topology ord" and n: "n \<in> set ord" and m: "(m, n) \<in> (deps topology)\<^sup>+"
  shows "\<exists>i j. i < j \<and> j < length ord \<and> ord ! i = m \<and> ord ! j = n"
  using m n
proof (induction rule: trancl_induct)
  case (base y)
  then obtain j where j: "j < length ord" "ord ! j = y" by (auto simp: in_set_conv_nth)
  with base g have "m \<in> set (take j ord)" by (auto simp: good_order_def)
  then obtain i where "i < j" "ord ! i = m" by (auto simp: in_set_conv_nth)
  with j show ?case by blast
next
  case (step y z)
  then obtain j where j: "j < length ord" "ord ! j = z" by (auto simp: in_set_conv_nth)
  with step g have "y \<in> set (take j ord)" by (auto simp: good_order_def)
  then obtain k where k: "k < j" "ord ! k = y" by (auto simp: in_set_conv_nth)
  with j have "y \<in> set ord" by (metis less_trans nth_mem)
  with step.IH obtain i l where il: "i < l" "l < length ord" "ord ! i = m" "ord ! l = y" by blast
  have "l = k" using g il k j by (auto simp: good_order_def nth_eq_iff_index_eq)
  with il k j have "i < j" by simp
  with il j show ?case by blast
qed

lemma good_order_acyclic:
  assumes g: "good_order topology ord" and all: "set ord = names topology"
  shows "acyclic (deps topology)"
proof (rule acyclicI, rule allI, rule notI)
  fix n assume c: "(n, n) \<in> (deps topology)\<^sup>+"
  then obtain m where "(m, n) \<in> deps topology" by (auto elim: tranclE)
  then have "n \<in> names topology" by (auto simp: deps_iff names_def)
  with good_order_rank [OF g _ c] all
  obtain i j where "i < j" "j < length ord" "ord ! i = n" "ord ! j = n" by auto
  with g show False by (auto simp: good_order_def nth_eq_iff_index_eq)
qed

section \<open>Invariant of the sort\<close>

text \<open>
  \<open>sort_inv\<close>: the removed and pending names can be listed in a good order, which is the order in
  which the elements were pushed to the output, if there is one.  \<open>base\<close> is what the caller's
  output vector held before.
\<close>

definition sort_inv :: "(string, string) umap \<Rightarrow> topology_element list \<Rightarrow> runnable_element list option \<Rightarrow> sort_state \<Rightarrow> bool" where
  "sort_inv fs topology base s \<longleftrightarrow>
     (\<exists>els. set els \<subseteq> set topology \<and> good_order topology (map el_name els) \<and> set (map el_name els) = pend s
        \<and> sorted_topology s = map_option (\<lambda>b. b @ map (to_runnable fs) els) base)"

definition between_passes :: "sort_state \<Rightarrow> bool" where
  "between_passes s \<longleftrightarrow> sync_modules s = [] \<and> async_modules s = [] \<and> sync_modules_allow_parallel s = []"

lemma between_passes_pend: "between_passes s \<Longrightarrow> pend s = removed s"
  by (auto simp: between_passes_def pend_def split: option.splits)

lemma between_passes_flush: "between_passes s \<or> parallel_modules s \<noteq> None \<Longrightarrow> between_passes (sort_flush ca s)"
  by (auto simp: sort_flush_def between_passes_def split: option.splits)

lemma sort_node_lists:
  "parallel_modules s = None \<Longrightarrow> between_passes (sort_node is_sync ca fs e s) = between_passes s"
  by (auto simp: sort_node_def between_passes_def Let_def)

lemma sort_node_inv:
  assumes inv: "sort_inv fs topology base s" and e: "e \<in> set topology" and d: "distinct (map el_name topology)"
    and fresh: "el_name e \<in> pend s \<Longrightarrow> el_name e \<in> removed s"
  shows "sort_inv fs topology base (sort_node is_sync ca fs e s)"
proof (cases "enabled e s")
  case True
  from inv obtain els where els: "set els \<subseteq> set topology" "good_order topology (map el_name els)"
    "set (map el_name els) = pend s" "sorted_topology s = map_option (\<lambda>b. b @ map (to_runnable fs) els) base"
    unfolding sort_inv_def by blast
  have "good_order topology (map el_name els @ [el_name e])"
  proof (rule good_order_snoc [OF els(2)])
    show "el_name e \<in> names topology" using e by (simp add: names_def)
    show "el_name e \<notin> set (map el_name els)" using True fresh els(3) by blast
    fix m assume "(m, el_name e) \<in> deps topology"
    then have "m \<in> removed s" using True d e by (simp add: deps_unique list_all_iff)
    then show "m \<in> set (map el_name els)" using els(3) removed_subset_pend by blast
  qed
  then show ?thesis
    using els e True unfolding sort_inv_def
    by (intro exI [of _ "els @ [e]"]) (cases base; auto simp: sort_simps)
next
  case False
  then show ?thesis using inv by (simp add: sort_simps)
qed

lemma fold_node_inv:
  assumes "sort_inv fs topology base s" "set xs \<subseteq> set topology" "distinct (map el_name topology)"
    and "distinct (map el_name xs)" "\<And>x. x \<in> set xs \<Longrightarrow> el_name x \<in> pend s \<Longrightarrow> el_name x \<in> removed s"
  shows "sort_inv fs topology base (fold (sort_node is_sync ca fs) xs s)"
  using assms
proof (induction xs arbitrary: s)
  case (Cons x xs)
  let ?s = "sort_node is_sync ca fs x s"
  have "sort_inv fs topology base ?s"
    by (rule sort_node_inv) (use Cons.prems in auto)
  moreover have "el_name y \<in> removed ?s" if "y \<in> set xs" "el_name y \<in> pend ?s" for y
  proof -
    have "el_name x \<notin> el_name ` set xs" using Cons.prems(4) by simp
    then have "el_name y \<noteq> el_name x" using that(1) by (metis image_eqI)
    then have "el_name y \<in> pend s" using that(2) by (cases "enabled x s") (auto simp: sort_simps)
    then show ?thesis using Cons.prems(5) [of y] that(1) by (simp add: sort_simps)
  qed
  ultimately show ?case using Cons by simp
qed simp

lemma sort_inv_flush: "sort_inv fs topology base s \<Longrightarrow> between_passes (sort_flush ca s) \<Longrightarrow> sort_inv fs topology base (sort_flush ca s)"
  by (simp add: sort_inv_def sort_simps between_passes_pend)

lemma fold_node_parallel: "parallel_modules (fold (sort_node is_sync ca fs) xs s) = parallel_modules s"
  by (induction xs arbitrary: s) (simp_all add: sort_simps)

lemma fold_node_between:
  "parallel_modules s = None \<Longrightarrow> between_passes s \<Longrightarrow> between_passes (fold (sort_node is_sync ca fs) xs s)"
  by (induction xs arbitrary: s) (simp_all add: sort_simps sort_node_lists)

lemma sort_pass_between: "between_passes s \<Longrightarrow> between_passes (sort_pass is_sync ca fs topology s)"
  unfolding sort_pass_def
  by (rule between_passes_flush)
     (use fold_node_between [of "s\<lparr>zero_upstream_node_found := False\<rparr>"] in
       \<open>auto simp: between_passes_def fold_node_parallel\<close>)

lemma sort_pass_inv:
  assumes "sort_inv fs topology base s" "between_passes s" "distinct (map el_name topology)"
  shows "sort_inv fs topology base (sort_pass is_sync ca fs topology s)"
proof -
  have "sort_inv fs topology base (fold (sort_node is_sync ca fs) topology (s\<lparr>zero_upstream_node_found := False\<rparr>))"
    by (rule fold_node_inv) (use assms in \<open>auto simp: sort_inv_def pend_def between_passes_def split: option.splits\<close>)
  then show ?thesis
    using sort_pass_between [OF assms(2)] unfolding sort_pass_def by (rule sort_inv_flush)
qed

lemma sort_pass_stuck:
  assumes "\<not> zero_upstream_node_found (sort_pass is_sync ca fs topology s)" and "e \<in> set topology"
  shows "\<not> enabled e s"
proof
  assume en: "enabled e s"
  have found_mono: "zero_upstream_node_found t \<Longrightarrow> zero_upstream_node_found (fold (sort_node is_sync ca fs) xs t)" for xs t
    by (induction xs arbitrary: t) (auto simp: sort_node_def Let_def split: option.splits)
  have "zero_upstream_node_found (fold (sort_node is_sync ca fs) xs t)"
    if "e \<in> set xs" "enabled e t" for xs t
    using that
  proof (induction xs arbitrary: t)
    case (Cons x xs)
    show ?case
    proof (cases "enabled x t")
      case True
      then show ?thesis using found_mono by (simp add: sort_node_found)
    next
      case False
      then show ?thesis using Cons by (auto simp: sort_node_disabled)
    qed
  qed simp
  then have "zero_upstream_node_found (sort_pass is_sync ca fs topology s)"
    using en assms(2) by (simp add: sort_pass_def sort_simps)
  with assms(1) show False by simp
qed

text \<open>A stuck pass exhibits a missing dependency or a cycle.\<close>

lemma stuck_not_acyclic:
  assumes cl: "fst ` deps topology \<subseteq> names topology" and sub: "R \<subset> names topology"
    and stuck: "\<And>e. e \<in> set topology \<Longrightarrow> el_name e \<notin> R \<Longrightarrow> \<exists>d \<in> set (el_dependency e). d \<notin> R"
  shows "\<not> acyclic (deps topology)"
proof
  assume "acyclic (deps topology)"
  then have wf: "wf (deps topology)" by (simp add: finite_acyclic_wf finite_deps)
  obtain n0 where "n0 \<in> names topology - R" using sub by blast
  then obtain n where n: "n \<in> names topology - R"
    and min: "\<And>m. (m, n) \<in> deps topology \<Longrightarrow> m \<notin> names topology - R"
    using wf by (metis wfE_min)
  then obtain e where e: "e \<in> set topology" "el_name e = n" by (auto simp: names_def)
  with n stuck obtain d where d: "d \<in> set (el_dependency e)" "d \<notin> R" by auto
  then have dn: "(d, n) \<in> deps topology" using e by (auto simp: deps_iff)
  then have "d \<in> names topology" using cl by force
  with d(2) dn min show False by blast
qed

lemma sort_inv_pend_subset:
  assumes "sort_inv fs topology base s"
  shows "pend s \<subseteq> names topology"
proof -
  from assms obtain els where "set els \<subseteq> set topology" "set (map el_name els) = pend s"
    unfolding sort_inv_def by blast
  then show ?thesis unfolding names_def by (metis image_mono list.set_map)
qed

lemma card_names: "distinct (map el_name topology) \<Longrightarrow> card (names topology) = length topology"
  by (metis distinct_card length_map list.set_map names_def)

definition stuck_at :: "topology_element list \<Rightarrow> string set \<Rightarrow> bool" where
  "stuck_at topology R \<longleftrightarrow> R \<subset> names topology \<and>
     (\<forall>e \<in> set topology. el_name e \<notin> R \<longrightarrow> (\<exists>d \<in> set (el_dependency e). d \<notin> R))"

lemma sort_pass_stuck_at:
  assumes "\<not> zero_upstream_node_found (sort_pass is_sync ca fs topology s)"
    and "sort_inv fs topology base s" "between_passes s" "distinct (map el_name topology)"
    and "card (removed s) \<noteq> length topology"
  shows "stuck_at topology (removed s)"
proof -
  have "removed s \<subseteq> names topology"
    using sort_inv_pend_subset [OF assms(2)] between_passes_pend [OF assms(3)] by simp
  moreover have "card (names topology) = length topology"
    using assms(4) by (rule card_names)
  ultimately have "removed s \<subset> names topology" using assms(5) by auto
  moreover have "\<exists>d \<in> set (el_dependency e). d \<notin> removed s"
    if "e \<in> set topology" "el_name e \<notin> removed s" for e
    using sort_pass_stuck [OF assms(1) that(1)] that(2) by (auto simp: list_all_iff)
  ultimately show ?thesis by (simp add: stuck_at_def)
qed

lemma sort_loop_result:
  assumes "sort_loop is_sync ca fs topology s = (b, s')" "sort_inv fs topology base s" "between_passes s"
    and "distinct (map el_name topology)"
  shows "sort_inv fs topology base s' \<and> between_passes s' \<and>
         (if b then card (removed s') = length topology else (\<exists>R. stuck_at topology R))"
  using assms
proof (induction is_sync ca fs topology s rule: sort_loop.induct)
  case (1 is_sync ca fs topology s)
  let ?p = "sort_pass is_sync ca fs topology s"
  note p = sort_pass_inv [OF 1(3,4,5)] sort_pass_between [OF 1(4)]
  consider "card (removed s) = length topology"
    | "card (removed s) \<noteq> length topology" "zero_upstream_node_found ?p"
    | "card (removed s) \<noteq> length topology" "\<not> zero_upstream_node_found ?p" by blast
  then show ?case
  proof cases
    case 1
    then show ?thesis using "1.prems" by (auto simp: sort_loop.simps [of is_sync ca fs topology s])
  next
    case 2
    then have "sort_loop is_sync ca fs topology ?p = (b, s')"
      using "1.prems"(1) by (simp add: sort_loop.simps [of is_sync ca fs topology s])
    then show ?thesis using "1.IH" [OF 2(1) refl 2(2)] p "1.prems"(4) by blast
  next
    case 3
    then have "b = False" "s' = ?p"
      using "1.prems"(1) by (auto simp: sort_loop.simps [of is_sync ca fs topology s])
    then show ?thesis using sort_pass_stuck_at [OF 3(2) "1.prems"(2-4) 3(1)] p by auto
  qed
qed

lemma sort_init_inv: "sort_inv fs topology base (sort_init base par)" and sort_init_between: "between_passes (sort_init base par)"
  by (auto simp: sort_inv_def sort_init_def pend_def between_passes_def option.map_ident split: option.splits)

text \<open>Duplicate names: the set of removed names can never reach the number of elements.\<close>

lemma sort_loop_removed_names:
  "sort_loop is_sync ca fs topology s = (b, s') \<Longrightarrow> pend s \<subseteq> names topology \<Longrightarrow> between_passes s \<Longrightarrow> removed s' \<subseteq> names topology
   \<and> (b \<longrightarrow> card (removed s') = length topology)"
proof (induction is_sync ca fs topology s rule: sort_loop.induct)
  case (1 is_sync ca fs topology s)
  let ?z = "s\<lparr>zero_upstream_node_found := False\<rparr>"
  let ?p = "sort_pass is_sync ca fs topology s"
  have "pend ?z \<subseteq> names topology" using "1.prems"(2) by (simp add: pend_found)
  then have "pend (fold (sort_node is_sync ca fs) topology ?z) \<subseteq> names topology"
    using fold_node_mono [of ?z is_sync ca fs topology] by (auto simp: names_def)
  then have p: "removed ?p \<subseteq> names topology" by (simp add: sort_pass_def sort_simps)
  have bp: "between_passes ?p" using "1.prems"(3) by (rule sort_pass_between)
  show ?case
  proof (cases "card (removed s) = length topology")
    case True
    then show ?thesis
      using "1.prems" by (auto simp: sort_loop.simps [of is_sync ca fs topology s] between_passes_pend)
  next
    case False
    then show ?thesis
      using "1.prems"(1) "1.IH" [OF False refl] p bp between_passes_pend [OF bp]
      by (auto simp: sort_loop.simps [of is_sync ca fs topology s] Let_def split: if_splits)
  qed
qed

lemma topology_sort_distinct:
  assumes "topology_sort is_sync ca topology base fs par = (True, s)"
  shows "distinct (map el_name topology)"
proof (rule card_distinct)
  have "removed s \<subseteq> names topology \<and> card (removed s) = length topology"
    using sort_loop_removed_names [of is_sync ca fs topology "sort_init base par" True s] assms
    by (simp add: topology_sort_def sort_init_between) (simp add: sort_init_def pend_def split: option.splits)
  then have "length topology \<le> card (names topology)"
    by (metis card_mono finite_imageI finite_set names_def)
  moreover have "card (names topology) \<le> length topology"
    by (metis card_length length_map list.set_map names_def)
  ultimately show "card (set (map el_name topology)) = length (map el_name topology)"
    by (simp add: names_def)
qed

lemma topology_sort_complete_order:
  assumes "topology_sort is_sync ca topology base fs par = (True, s)"
  shows "\<exists>els. set els = set topology \<and> distinct els \<and> good_order topology (map el_name els) \<and>
    set (map el_name els) = names topology \<and>
    sorted_topology s = map_option (\<lambda>b. b @ map (to_runnable fs) els) base"
proof -
  note d = topology_sort_distinct [OF assms]
  have r: "sort_inv fs topology base s" "between_passes s" "card (removed s) = length topology"
    using sort_loop_result [OF _ sort_init_inv sort_init_between d] assms
    by (auto simp: topology_sort_def)
  have "card (names topology) = length topology"
    using d by (rule card_names)
  then have all: "pend s = names topology"
    using r sort_inv_pend_subset [OF r(1)] between_passes_pend [OF r(2)]
    by (metis card_subset_eq finite_imageI finite_set names_def)
  from r(1) obtain els where els: "set els \<subseteq> set topology" "good_order topology (map el_name els)"
    "set (map el_name els) = pend s" "sorted_topology s = map_option (\<lambda>b. b @ map (to_runnable fs) els) base"
    unfolding sort_inv_def by blast
  have "e \<in> set els" if "e \<in> set topology" for e
  proof -
    have "el_name e \<in> el_name ` set els" using that els(3) all by (auto simp: names_def)
    then obtain e' where "e' \<in> set els" "el_name e' = el_name e" by auto
    then show ?thesis using d els(1) that by (metis distinct_map inj_onD subsetD)
  qed
  then have "set els = set topology" using els(1) by auto
  moreover have "distinct els" using els(2) by (simp add: good_order_def distinct_map)
  ultimately show ?thesis using els all by (intro exI [of _ els]) simp
qed

section \<open>Parallel modules\<close>

text \<open>Names selected in one pass do not depend on each other, directly or indirectly.\<close>

definition closed_under_deps :: "topology_element list \<Rightarrow> string set \<Rightarrow> bool" where
  "closed_under_deps topology R \<longleftrightarrow> (\<forall>n \<in> R. \<forall>d. (d, n) \<in> deps topology \<longrightarrow> d \<in> R)"

definition independent :: "topology_element list \<Rightarrow> string \<Rightarrow> string \<Rightarrow> bool" where
  "independent topology a b \<longleftrightarrow> (a, b) \<notin> (deps topology)\<^sup>+ \<and> (b, a) \<notin> (deps topology)\<^sup>+"

lemma closed_rtrancl:
  "(a, b) \<in> (deps topology)\<^sup>* \<Longrightarrow> closed_under_deps topology R \<Longrightarrow> b \<in> R \<Longrightarrow> a \<in> R"
  by (induction rule: converse_rtrancl_induct) (auto simp: closed_under_deps_def)

lemma enabled_not_after:
  assumes cl: "closed_under_deps topology R" and a: "a \<notin> R"
    and b: "\<And>d. (d, b) \<in> deps topology \<Longrightarrow> d \<in> R"
  shows "(a, b) \<notin> (deps topology)\<^sup>+"
proof
  assume "(a, b) \<in> (deps topology)\<^sup>+"
  then obtain p where "(a, p) \<in> (deps topology)\<^sup>*" "(p, b) \<in> deps topology" by (auto dest: tranclD2)
  then have "a \<in> R" using closed_rtrancl [OF _ cl] b by blast
  with a show False by simp
qed

lemma sort_inv_closed:
  assumes "sort_inv fs topology base s" "between_passes s"
  shows "closed_under_deps topology (removed s)"
  using assms good_order_closed unfolding sort_inv_def closed_under_deps_def
  by (metis between_passes_pend)

definition ready :: "topology_element list \<Rightarrow> string set \<Rightarrow> string \<Rightarrow> bool" where
  "ready topology R n \<longleftrightarrow> n \<notin> R \<and> (\<forall>d. (d, n) \<in> deps topology \<longrightarrow> d \<in> R)"

lemma ready_independent:
  "closed_under_deps topology R \<Longrightarrow> ready topology R a \<Longrightarrow> ready topology R b \<Longrightarrow> independent topology a b"
  by (simp add: independent_def ready_def enabled_not_after)

text \<open>What the vectors of one pass hold, for a caller that asked for parallel modules.\<close>

definition level_inv ::
  "(string \<Rightarrow> bool) \<Rightarrow> bool \<Rightarrow> (string, string) umap \<Rightarrow> topology_element list \<Rightarrow> string set \<Rightarrow> sort_state \<Rightarrow> bool" where
  "level_inv is_sync ca fs topology R s \<longleftrightarrow> removed s = R \<and> distinct (sync_modules s) \<and>
     (\<forall>n \<in> set (sync_modules s). ready topology R n \<and> is_sync (factory_of fs n)) \<and>
     (\<forall>n \<in> set (sync_modules_allow_parallel s).
        is_sync (factory_of fs n) \<and> (\<exists>e \<in> set topology. el_name e = n \<and> el_allow_parallel e))"

lemma sort_node_level:
  assumes "level_inv is_sync ca fs topology R s" "parallel_modules s = Some P" "e \<in> set topology"
    and "distinct (map el_name topology)" "el_name e \<notin> set (sync_modules s)"
  shows "level_inv is_sync ca fs topology R (sort_node is_sync ca fs e s)"
proof (cases "enabled e s")
  case True
  then have "ready topology R (el_name e)"
    using assms(1,3,4) by (auto simp: ready_def level_inv_def deps_unique list_all_iff)
  then show ?thesis using assms True by (auto simp: level_inv_def sort_node_def Let_def)
next
  case False
  then show ?thesis using assms(1) by (simp add: sort_node_disabled)
qed

lemma sort_node_sync_subset:
  "set (sync_modules (sort_node is_sync ca fs e s)) \<subseteq> insert (el_name e) (set (sync_modules s))"
  by (auto simp: sort_node_def Let_def split: option.splits)

lemma fold_node_level:
  assumes "level_inv is_sync ca fs topology R s" "parallel_modules s = Some P" "set xs \<subseteq> set topology"
    and "distinct (map el_name topology)" "distinct (map el_name xs)"
    and "\<And>x. x \<in> set xs \<Longrightarrow> el_name x \<notin> set (sync_modules s)"
  shows "level_inv is_sync ca fs topology R (fold (sort_node is_sync ca fs) xs s)"
  using assms
proof (induction xs arbitrary: s)
  case (Cons x xs)
  let ?s = "sort_node is_sync ca fs x s"
  have "el_name x \<notin> el_name ` set xs" using Cons.prems(5) by simp
  then have "el_name y \<notin> set (sync_modules ?s)" if "y \<in> set xs" for y
    using sort_node_sync_subset [of is_sync ca fs x s] Cons.prems(6) [of y] that
    by (metis image_eqI insertE list.set_intros(2) subsetD)
  moreover have "level_inv is_sync ca fs topology R ?s"
    using Cons.prems by (intro sort_node_level) auto
  ultimately show ?case using Cons by (simp add: sort_node_parallel)
qed simp

definition parallel_ok ::
  "(string \<Rightarrow> bool) \<Rightarrow> bool \<Rightarrow> (string, string) umap \<Rightarrow> topology_element list \<Rightarrow> string set \<Rightarrow> bool" where
  "parallel_ok is_sync ca fs topology P \<longleftrightarrow>
     (\<forall>m \<in> P. is_sync (factory_of fs m) \<and>
        (if ca then \<exists>e \<in> set topology. el_name e = m \<and> el_allow_parallel e
         else \<exists>m' \<in> P. m' \<noteq> m \<and> independent topology m m'))"

lemma two_in_list: "distinct xs \<Longrightarrow> 1 < length xs \<Longrightarrow> x \<in> set xs \<Longrightarrow> \<exists>y \<in> set xs. y \<noteq> x"
  by (metis One_nat_def card.empty card_insert_disjoint distinct_card equals0D finite.emptyI less_not_refl
      singletonI subset_singletonD subsetI)

lemma parallel_ok_union:
  assumes "parallel_ok is_sync False fs topology P" "level_inv is_sync False fs topology R s"
    and "closed_under_deps topology R" "1 < length (sync_modules s)"
  shows "parallel_ok is_sync False fs topology (P \<union> set (sync_modules s))"
proof -
  have "\<exists>m' \<in> P \<union> set (sync_modules s). m' \<noteq> m \<and> independent topology m m'" if m: "m \<in> set (sync_modules s)" for m
  proof -
    obtain m' where m': "m' \<in> set (sync_modules s)" "m' \<noteq> m"
      using two_in_list [OF _ assms(4) m] assms(2) by (auto simp: level_inv_def)
    then have "independent topology m m'"
      using assms(2) m ready_independent [OF assms(3)] by (auto simp: level_inv_def)
    with m' show ?thesis by blast
  qed
  moreover have "is_sync (factory_of fs m)" if "m \<in> set (sync_modules s)" for m
    using assms(2) that by (auto simp: level_inv_def)
  ultimately show ?thesis using assms(1) unfolding parallel_ok_def by auto
qed

lemma sort_pass_parallel_ok:
  assumes "sort_inv fs topology base s" "between_passes s" "distinct (map el_name topology)"
    and "parallel_modules s = Some P" "parallel_ok is_sync ca fs topology P"
  shows "\<exists>P'. parallel_modules (sort_pass is_sync ca fs topology s) = Some P' \<and> parallel_ok is_sync ca fs topology P'"
proof -
  let ?t = "fold (sort_node is_sync ca fs) topology (s\<lparr>zero_upstream_node_found := False\<rparr>)"
  have lv: "level_inv is_sync ca fs topology (removed s) ?t"
    by (rule fold_node_level) (use assms(2,3,4) in \<open>auto simp: level_inv_def between_passes_def\<close>)
  have cl: "closed_under_deps topology (removed s)" using assms(1,2) by (rule sort_inv_closed)
  have pm: "parallel_modules ?t = Some P" using assms(4) by (simp add: fold_node_parallel)
  show ?thesis
  proof (cases ca)
    case True
    then have "parallel_ok is_sync ca fs topology (P \<union> set (sync_modules_allow_parallel ?t))"
      using assms(5) lv by (auto simp: parallel_ok_def level_inv_def)
    then show ?thesis using True pm by (simp add: sort_pass_def sort_flush_def)
  next
    case False
    then have "1 < length (sync_modules ?t) \<Longrightarrow> parallel_ok is_sync ca fs topology (P \<union> set (sync_modules ?t))"
      using parallel_ok_union assms(5) lv cl by simp
    then show ?thesis using False pm assms(5) by (simp add: sort_pass_def sort_flush_def)
  qed
qed

lemma sort_loop_parallel_ok:
  assumes "sort_loop is_sync ca fs topology s = (b, s')" "sort_inv fs topology base s" "between_passes s"
    "distinct (map el_name topology)" "parallel_modules s = Some P" "parallel_ok is_sync ca fs topology P"
  shows "\<exists>P'. parallel_modules s' = Some P' \<and> parallel_ok is_sync ca fs topology P'"
  using assms
proof (induction is_sync ca fs topology s arbitrary: P rule: sort_loop.induct)
  case (1 is_sync ca fs topology s)
  let ?p = "sort_pass is_sync ca fs topology s"
  obtain P' where P': "parallel_modules ?p = Some P'" "parallel_ok is_sync ca fs topology P'"
    using sort_pass_parallel_ok [OF "1.prems"(2-6)] by blast
  note p = sort_pass_inv [OF "1.prems"(2-4)] sort_pass_between [OF "1.prems"(3)]
  show ?case
  proof (cases "card (removed s) \<noteq> length topology \<and> zero_upstream_node_found ?p")
    case True
    then have "sort_loop is_sync ca fs topology ?p = (b, s')"
      using "1.prems"(1) by (simp add: sort_loop.simps [of is_sync ca fs topology s])
    then show ?thesis using "1.IH" [OF _ refl _ _ p "1.prems"(4) P'] True by blast
  next
    case False
    then show ?thesis
      using "1.prems"(1,5,6) P' by (auto simp: sort_loop.simps [of is_sync ca fs topology s] Let_def split: if_splits)
  qed
qed

section \<open>Theorems\<close>

lemma sort_accepts_iff:
  "fst (topology_sort is_sync ca topology base fs par) \<longleftrightarrow>
     distinct (map el_name topology) \<and> fst ` deps topology \<subseteq> names topology \<and> acyclic (deps topology)"
proof -
  obtain b s where bs: "topology_sort is_sync ca topology base fs par = (b, s)" by fastforce
  show ?thesis
  proof (cases b)
    case True
    with bs have t: "topology_sort is_sync ca topology base fs par = (True, s)" by simp
    obtain els :: "topology_element list" where els: "good_order topology (map el_name els)" "set (map el_name els) = names topology"
      using topology_sort_complete_order [OF t] by auto
    have "fst ` deps topology \<subseteq> names topology"
    proof
      fix d assume "d \<in> fst ` deps topology"
      then obtain n where n: "(d, n) \<in> deps topology" by auto
      then have "n \<in> names topology" by (auto simp: deps_iff names_def)
      then show "d \<in> names topology" using good_order_closed [OF els(1) _ n] els(2) by simp
    qed
    moreover have "fst (topology_sort is_sync ca topology base fs par)" by (simp only: t fst_conv)
    ultimately show ?thesis
      using topology_sort_distinct [OF t] good_order_acyclic [OF els] by blast
  next
    case False
    have "\<not> acyclic (deps topology)" if d: "distinct (map el_name topology)" and c: "fst ` deps topology \<subseteq> names topology"
    proof -
      obtain R where "stuck_at topology R"
        using sort_loop_result [OF _ sort_init_inv sort_init_between d, of is_sync ca fs base par b s] bs False
        by (auto simp: topology_sort_def)
      then show ?thesis using stuck_not_acyclic [OF c] by (auto simp: stuck_at_def)
    qed
    then show ?thesis using bs False by auto
  qed
qed

text \<open>
  C2: The sort accepts a description exactly when its names are pairwise different, every dependency
  is a module of the topology, and the dependencies are acyclic; this holds whatever outputs the
  caller asks for.
\<close>

theorem topology_sort_accepts:
  "fst (topology_sort is_sync ca topology base fs par) \<longleftrightarrow>
     distinct (map el_name topology) \<and> fst ` deps topology \<subseteq> names topology \<and> acyclic (deps topology)"
  by (rule sort_accepts_iff)

lemma sort_orders_perm:
  assumes "topology_sort is_sync ca topology (Some []) fs par = (True, s)"
  shows "\<exists>out. sorted_topology s = Some out \<and> mset out = mset (map (to_runnable fs) topology) \<and>
           (\<forall>i < length out. \<forall>d \<in> set (re_dependencies (out ! i)). \<exists>j < i. re_name (out ! j) = d)"
proof -
  obtain els where els: "set els = set topology" "distinct els" "good_order topology (map el_name els)"
    "sorted_topology s = map_option (\<lambda>b. b @ map (to_runnable fs) els) (Some [])"
    using topology_sort_complete_order [OF assms] by auto
  have "distinct topology" using topology_sort_distinct [OF assms] by (simp add: distinct_map)
  then have "mset els = mset topology" using els(1,2) by (simp add: set_eq_iff_mset_eq_distinct)
  then have "mset (map (to_runnable fs) els) = mset (map (to_runnable fs) topology)" by simp
  moreover have "\<exists>j < i. re_name (map (to_runnable fs) els ! j) = d"
    if "i < length els" "d \<in> set (re_dependencies (map (to_runnable fs) els ! i))" for i d
  proof -
    have "(d, map el_name els ! i) \<in> deps topology"
      using that els(1) by (auto simp: to_runnable_def deps_iff)
    then have "d \<in> set (take i (map el_name els))" using els(3) that(1) by (simp add: good_order_def)
    then obtain j where "j < i" "el_name (els ! j) = d" using that(1) by (auto simp: in_set_conv_nth)
    then show ?thesis using that(1) by (auto simp: to_runnable_def)
  qed
  ultimately show ?thesis using els(4) by auto
qed

text \<open>
  C3: On success the output vector is a permutation of the described elements, each with the factory
  registered for its name, and every element comes after all of its dependencies.
\<close>

theorem topology_sort_orders:
  assumes "topology_sort is_sync ca topology (Some []) fs par = (True, s)"
  shows "\<exists>out. sorted_topology s = Some out \<and> mset out = mset (map (to_runnable fs) topology) \<and>
           (\<forall>i < length out. \<forall>d \<in> set (re_dependencies (out ! i)). \<exists>j < i. re_name (out ! j) = d)"
  using assms by (rule sort_orders_perm)

theorem topology_sort_orders_witness:
  "fst (topology_sort (\<lambda>f. f = ''sync'') False demo_topology (Some []) demo_factories None) \<and>
   (\<exists>out. sorted_topology (snd (topology_sort (\<lambda>f. f = ''sync'') False demo_topology (Some []) demo_factories None)) = Some out \<and>
      mset out = mset (map (to_runnable demo_factories) demo_topology) \<and>
      (\<forall>i < length out. \<forall>d \<in> set (re_dependencies (out ! i)). \<exists>j < i. re_name (out ! j) = d))"
proof -
  have r: "fst (topology_sort (\<lambda>f. f = ''sync'') False demo_topology (Some []) demo_factories None)"
    by code_simp
  then have "topology_sort (\<lambda>f. f = ''sync'') False demo_topology (Some []) demo_factories None =
    (True, snd (topology_sort (\<lambda>f. f = ''sync'') False demo_topology (Some []) demo_factories None))"
    by (simp add: prod_eq_iff)
  with r topology_sort_orders show ?thesis by blast
qed

text \<open>
  C26: Without the field check, every module reported as parallel is a synchronous module and has a
  companion in the result that neither depends on it nor is needed by it; with the check, it is a
  synchronous module whose description allows parallel running.
\<close>

theorem topology_sort_parallel:
  assumes "topology_sort is_sync ca topology base fs (Some {}) = (True, s)"
  shows "\<exists>P. parallel_modules s = Some P \<and> parallel_ok is_sync ca fs topology P"
  using assms sort_loop_parallel_ok [OF _ sort_init_inv sort_init_between topology_sort_distinct [OF assms], of is_sync ca fs base "Some {}" True s "{}"]
  by (auto simp: topology_sort_def sort_init_def parallel_ok_def)

theorem topology_sort_parallel_witness:
  "topology_sort (\<lambda>f. f = ''sync'') False demo_topology None demo_factories (Some {}) =
     (True, snd (topology_sort (\<lambda>f. f = ''sync'') False demo_topology None demo_factories (Some {}))) \<and>
   (\<exists>P. parallel_modules (snd (topology_sort (\<lambda>f. f = ''sync'') False demo_topology None demo_factories (Some {}))) = Some P \<and>
      parallel_ok (\<lambda>f. f = ''sync'') False demo_factories demo_topology P)"
proof -
  have "fst (topology_sort (\<lambda>f. f = ''sync'') False demo_topology None demo_factories (Some {}))"
    by code_simp
  then have r: "topology_sort (\<lambda>f. f = ''sync'') False demo_topology None demo_factories (Some {}) =
    (True, snd (topology_sort (\<lambda>f. f = ''sync'') False demo_topology None demo_factories (Some {})))"
    by (simp add: prod_eq_iff)
  then show ?thesis using topology_sort_parallel [OF r] by blast
qed

end
