(* ===== verification/Registry.thy ===== *)
theory Registry
  imports Prelude
begin

text \<open>
  The registries of \<open>DAG/registry\<close>: type traits (\<open>registry.h\<close>, \<open>registry_inl.h\<close>), factories
  (\<open>factory_registry.h\<close>) and elements (\<open>element_registry.h\<close>), the two singletons built on them
  (\<open>app_sdk/ModuleRegistry.h\<close>, \<open>sw/common/ComponentRegistry.h\<close>) and the query
  \<open>ModuleTopologyManager::is_sync_module\<close>, which reads the traits.

  Objects created by factories live in an explicit heap that maps addresses to the class of the
  object; address 0 is \<open>nullptr\<close>.  A creator or destroyer is a function on that heap.  \<open>tr2\<close> tells
  whether the code was compiled with \<open>__RED_ENABLE_TR2__\<close>; the list of base classes that
  \<open>std::tr2::bases\<close> computes is a field of the class description.
\<close>

section \<open>Type traits\<close>

type_synonym type_id = string

record class_info =
  class_name :: type_id
  class_bases :: "type_id list"

record type_traits_registry =
  tt_mapping :: "(string, type_id) umap"
  tt_base_type_mapping :: "(string, type_id list) umap"

datatype registry_error = RuntimeError string

fun iterate_bases :: "type_id list \<Rightarrow> type_id list \<Rightarrow> type_id list" where
  "iterate_bases v [] = v"
| "iterate_bases v (b # rest) = iterate_bases (v @ [b]) rest"

definition register_type_traits ::
  "bool \<Rightarrow> class_info \<Rightarrow> string \<Rightarrow> type_traits_registry \<Rightarrow> type_traits_registry" where
  "register_type_traits tr2 c name r =
     (let base_types = (if tr2 then iterate_bases [] (class_bases c) else [])
      in r\<lparr>tt_mapping := fst (umap_emplace name (class_name c) (tt_mapping r)),
           tt_base_type_mapping := fst (umap_emplace name base_types (tt_base_type_mapping r))\<rparr>)"

definition base_type_index :: "bool \<Rightarrow> type_traits_registry \<Rightarrow> string \<Rightarrow> registry_error + type_id list" where
  "base_type_index tr2 r name =
     (if \<not> tr2 then Inl (RuntimeError ''TR2 support required'')
      else case map_of (tt_base_type_mapping r) name of None \<Rightarrow> Inr [] | Some bs \<Rightarrow> Inr bs)"

definition type_index :: "type_traits_registry \<Rightarrow> string \<Rightarrow> type_id option" where
  "type_index r name = map_of (tt_mapping r) name"

definition is_sync_module :: "bool \<Rightarrow> type_traits_registry \<Rightarrow> string \<Rightarrow> bool" where
  "is_sync_module tr2 r factory_name =
     (case base_type_index tr2 r factory_name of
        Inl _ \<Rightarrow> False
      | Inr bases \<Rightarrow> List.member bases ''SyncModule'')"

section \<open>Objects\<close>

record obj_heap =
  objects :: "(nat, type_id) umap"
  next_object :: nat
  heap_exhausted :: bool

abbreviation (input) nullptr :: nat where
  "nullptr \<equiv> 0"

definition create_object :: "class_info \<Rightarrow> obj_heap \<Rightarrow> nat \<times> obj_heap" where
  "create_object c h =
     (if heap_exhausted h then (nullptr, h)
      else (next_object h,
            h\<lparr>objects := (next_object h, class_name c) # objects h, next_object := Suc (next_object h)\<rparr>))"

definition destroy_object :: "nat \<Rightarrow> obj_heap \<Rightarrow> obj_heap" where
  "destroy_object p h = (if p \<noteq> nullptr then h\<lparr>objects := AList.delete p (objects h)\<rparr> else h)"

section \<open>Factories\<close>

record factory_registry =
  creator_list :: "(string, obj_heap \<Rightarrow> nat \<times> obj_heap) umap"
  destroyer_list :: "(string, nat \<Rightarrow> obj_heap \<Rightarrow> obj_heap) umap"
  factory_traits :: type_traits_registry

definition register_factory ::
  "string \<Rightarrow> (obj_heap \<Rightarrow> nat \<times> obj_heap) \<Rightarrow> (nat \<Rightarrow> obj_heap \<Rightarrow> obj_heap) \<Rightarrow> factory_registry \<Rightarrow> factory_registry" where
  "register_factory name ctor dtor r =
     r\<lparr>creator_list := AList.update name ctor (creator_list r),
       destroyer_list := AList.update name dtor (destroyer_list r)\<rparr>"

definition create_element :: "factory_registry \<Rightarrow> string \<Rightarrow> obj_heap \<Rightarrow> nat \<times> obj_heap" where
  "create_element r name h =
     (case map_of (creator_list r) name of None \<Rightarrow> (nullptr, h) | Some ctor \<Rightarrow> ctor h)"

definition destroy_element :: "factory_registry \<Rightarrow> string \<Rightarrow> nat \<Rightarrow> obj_heap \<Rightarrow> obj_heap" where
  "destroy_element r name p h =
     (case map_of (destroyer_list r) name of None \<Rightarrow> h | Some dtor \<Rightarrow> dtor p h)"

definition contain_factory :: "factory_registry \<Rightarrow> string \<Rightarrow> bool" where
  "contain_factory r name \<longleftrightarrow> map_of (creator_list r) name \<noteq> None"

definition get_factory_names :: "factory_registry \<Rightarrow> string set" where
  "get_factory_names r = fold (\<lambda>p keys. insert (fst p) keys) (creator_list r) {}"

text \<open>\<open>FactoryRegisterer<C>\<close>: what the static object made by \<open>REGISTER_FACTORY\<close> does.\<close>

definition factory_registerer :: "bool \<Rightarrow> class_info \<Rightarrow> string \<Rightarrow> factory_registry \<Rightarrow> factory_registry" where
  "factory_registerer tr2 c name r =
     (let r1 = register_factory name (create_object c) destroy_object r
      in r1\<lparr>factory_traits := register_type_traits tr2 c name (factory_traits r1)\<rparr>)"

section \<open>Elements\<close>

record 'e element_registry =
  element_list :: "(string, 'e) umap"
  element_traits :: type_traits_registry

definition register_element :: "string \<Rightarrow> 'e \<Rightarrow> 'e element_registry \<Rightarrow> 'e element_registry" where
  "register_element name p r = r\<lparr>element_list := AList.update name p (element_list r)\<rparr>"

definition find_element :: "'e element_registry \<Rightarrow> string \<Rightarrow> 'e option" where
  "find_element r name = map_of (element_list r) name"

fun visit_items :: "(string \<Rightarrow> 'e \<Rightarrow> 's \<Rightarrow> bool \<times> 's) \<Rightarrow> (string, 'e) umap \<Rightarrow> 's \<Rightarrow> 's" where
  "visit_items visitor [] s = s"
| "visit_items visitor ((name, p) # items) s =
     (case visitor name p s of (go, s') \<Rightarrow> if go then visit_items visitor items s' else s')"

definition visit :: "(string \<Rightarrow> 'e \<Rightarrow> 's \<Rightarrow> bool \<times> 's) \<Rightarrow> 'e element_registry \<Rightarrow> 's \<Rightarrow> 's" where
  "visit visitor r s = visit_items visitor (element_list r) s"

definition element_registerer ::
  "bool \<Rightarrow> class_info \<Rightarrow> 'e \<Rightarrow> string \<Rightarrow> 'e element_registry \<Rightarrow> 'e element_registry" where
  "element_registerer tr2 c inst name r =
     (let r1 = register_element name inst r
      in r1\<lparr>element_traits := register_type_traits tr2 c name (element_traits r1)\<rparr>)"

section \<open>Singletons\<close>

definition empty_traits :: type_traits_registry where
  "empty_traits = \<lparr>tt_mapping = [], tt_base_type_mapping = []\<rparr>"

definition empty_factory_registry :: factory_registry where
  "empty_factory_registry = \<lparr>creator_list = [], destroyer_list = [], factory_traits = empty_traits\<rparr>"

definition empty_element_registry :: "'e element_registry" where
  "empty_element_registry = \<lparr>element_list = [], element_traits = empty_traits\<rparr>"

record 'e module_registry =
  runnable_module_factory_registry :: factory_registry
  reloadable_module_registry :: "'e element_registry"

text \<open>\<open>instance()\<close> creates the object on its first call only; the second component is the static
  pointer afterwards.\<close>

definition module_registry_instance :: "'e module_registry option \<Rightarrow> 'e module_registry \<times> 'e module_registry option" where
  "module_registry_instance inst =
     (case inst of
        None \<Rightarrow> let r = \<lparr>runnable_module_factory_registry = empty_factory_registry,
                        reloadable_module_registry = empty_element_registry\<rparr> in (r, Some r)
      | Some r \<Rightarrow> (r, Some r))"

definition component_registry_instance :: "'e element_registry option \<Rightarrow> 'e element_registry \<times> 'e element_registry option" where
  "component_registry_instance inst =
     (case inst of None \<Rightarrow> (empty_element_registry, Some empty_element_registry) | Some r \<Rightarrow> (r, Some r))"

definition get_inner_map :: "'e element_registry \<Rightarrow> (string, 'e) umap" where
  "get_inner_map r = element_list r"

section \<open>Lemmas\<close>

lemma iterate_bases_append [simp]: "iterate_bases v bs = v @ bs"
  by (induction v bs rule: iterate_bases.induct) simp_all

interpretation creators: name_table
  "\<lambda>name (c, d). register_factory name c d"
  "\<lambda>r name. case (map_of (creator_list r) name, map_of (destroyer_list r) name) of
      (Some c, Some d) \<Rightarrow> Some (c, d) | _ \<Rightarrow> None"
  by unfold_locales (auto simp: register_factory_def umap_simps split: prod.splits cong: option.case_cong)

interpretation elements: name_table register_element find_element
  by unfold_locales (simp add: register_element_def find_element_def umap_simps)

lemma register_factory_contain [simp]:
  "contain_factory (register_factory name c d r) n \<longleftrightarrow> n = name \<or> contain_factory r n"
  by (auto simp: contain_factory_def register_factory_def umap_simps)

lemma get_factory_names_eq: "get_factory_names r = {n. contain_factory r n}"
proof -
  have "fold (\<lambda>p keys. insert (fst p) keys) xs S = S \<union> fst ` set xs" for xs :: "(string, 'a) umap" and S
    by (induction xs arbitrary: S) auto
  then show ?thesis
    by (auto simp: get_factory_names_def contain_factory_def map_of_eq_None_iff)
qed

lemma factory_registerer_contain [simp]:
  "contain_factory (factory_registerer tr2 c name r) n \<longleftrightarrow> n = name \<or> contain_factory r n"
  by (auto simp: factory_registerer_def contain_factory_def register_factory_def umap_simps Let_def)

text \<open>\<open>REGISTER_ELEMENT\<close> stores the instance under its name, over an earlier one, and keeps the rest.\<close>

lemma element_registerer_find:
  "find_element (element_registerer tr2 c p name r) n = (if n = name then Some p else find_element r n)"
  using elements.look_put [of name p r n]
  by (simp add: element_registerer_def find_element_def Let_def)

text \<open>A visitor that never stops sees every element, in the iteration order.\<close>

lemma visit_all:
  "(\<And>n e s. fst (visitor n e s)) \<Longrightarrow>
     visit visitor r s = fold (\<lambda>(n, e) s. snd (visitor n e s)) (element_list r) s"
proof -
  assume go: "\<And>n e s. fst (visitor n e s)"
  have "visit_items visitor xs s = fold (\<lambda>(n, e) s. snd (visitor n e s)) xs s" for xs
    using go by (induction xs arbitrary: s) (auto simp: split_beta)
  then show ?thesis by (simp add: visit_def)
qed

section \<open>Theorems\<close>

definition heap_wf :: "obj_heap \<Rightarrow> bool" where
  "heap_wf h \<longleftrightarrow> 0 < next_object h \<and> (\<forall>p. map_of (objects h) p \<noteq> None \<longrightarrow> p < next_object h)"

lemma create_object_wf: "heap_wf h \<Longrightarrow> heap_wf (snd (create_object c h))"
  by (auto simp: heap_wf_def create_object_def less_Suc_eq)

lemma destroy_object_wf: "heap_wf h \<Longrightarrow> heap_wf (destroy_object p h)"
  by (auto simp: heap_wf_def destroy_object_def umap_simps)

text \<open>
  Round trip through a registered factory: the created object is live, has the registered
  class, sits at an address no live object uses, and destroying it through the same name gives
  back the heap contents of before.
\<close>

theorem factory_roundtrip:
  assumes "heap_wf h" and "\<not> heap_exhausted h"
    and "create_element (factory_registerer tr2 c name r) name h = (p, h1)"
  shows "p \<noteq> nullptr \<and> map_of (objects h) p = None \<and> map_of (objects h1) p = Some (class_name c) \<and>
         map_of (objects (destroy_element (factory_registerer tr2 c name r) name p h1)) = map_of (objects h) \<and>
         heap_wf h1"
proof -
  have e: "create_element (factory_registerer tr2 c name r) name h = create_object c h"
    by (simp add: create_element_def factory_registerer_def register_factory_def umap_simps Let_def)
  have d: "destroy_element (factory_registerer tr2 c name r) name p h1 = destroy_object p h1"
    by (simp add: destroy_element_def factory_registerer_def register_factory_def umap_simps Let_def)
  have p: "p = next_object h" "objects h1 = (p, class_name c) # objects h"
    using assms(2,3) e by (auto simp: create_object_def)
  moreover have "map_of (objects h) p = None" using assms(1) p(1) by (auto simp: heap_wf_def)
  moreover have "p \<noteq> nullptr" using assms(1) p(1) by (simp add: heap_wf_def)
  moreover have "heap_wf h1" using create_object_wf [OF assms(1), of c] assms(3) e by simp
  ultimately show ?thesis using d by (auto simp: destroy_object_def umap_simps fun_eq_iff)
qed

definition demo_class :: class_info where
  "demo_class = \<lparr>class_name = ''EchoModule'', class_bases = [''SyncModule'']\<rparr>"

definition demo_heap :: obj_heap where
  "demo_heap = \<lparr>objects = [], next_object = 1, heap_exhausted = False\<rparr>"

theorem factory_roundtrip_witness:
  "heap_wf demo_heap \<and> \<not> heap_exhausted demo_heap \<and>
   create_element (factory_registerer True demo_class ''echo_module'' empty_factory_registry) ''echo_module'' demo_heap
     = (1, \<lparr>objects = [(1, ''EchoModule'')], next_object = 2, heap_exhausted = False\<rparr>) \<and>
   map_of (objects (destroy_element (factory_registerer True demo_class ''echo_module'' empty_factory_registry) ''echo_module'' 1
     \<lparr>objects = [(1, ''EchoModule'')], next_object = 2, heap_exhausted = False\<rparr>)) = map_of (objects demo_heap)"
proof -
  have h: "heap_wf demo_heap" "\<not> heap_exhausted demo_heap" by (simp_all add: heap_wf_def demo_heap_def)
  have c: "create_element (factory_registerer True demo_class ''echo_module'' empty_factory_registry) ''echo_module'' demo_heap
     = (1, \<lparr>objects = [(1, ''EchoModule'')], next_object = 2, heap_exhausted = False\<rparr>)"
    by (simp add: create_element_def factory_registerer_def register_factory_def empty_factory_registry_def
        empty_traits_def create_object_def demo_class_def demo_heap_def Let_def)
  show ?thesis using h c factory_roundtrip [OF h c] by blast
qed

text \<open>
  Registering a second class under a taken name replaces the creator but not the traits:
  \<open>register_factory\<close> assigns through \<open>operator[]\<close> while \<open>register_type_traits\<close> emplaces, so objects
  of the new class are created while \<open>type_index\<close> and the list of base classes keep describing the
  class registered first.
\<close>

theorem reregistration_keeps_traits:
  assumes "\<not> contain_factory r name" and "type_index (factory_traits r) name = None"
    and "map_of (tt_base_type_mapping (factory_traits r)) name = None"
    and "r2 = factory_registerer True c2 name (factory_registerer True c1 name r)"
  shows "create_element r2 name h = create_object c2 h \<and>
         type_index (factory_traits r2) name = Some (class_name c1) \<and>
         base_type_index True (factory_traits r2) name = Inr (class_bases c1)"
  using assms
  by (simp add: factory_registerer_def register_factory_def create_element_def register_type_traits_def
      type_index_def base_type_index_def umap_simps Let_def)

theorem reregistration_keeps_traits_witness:
  "\<not> contain_factory empty_factory_registry ''m'' \<and>
   base_type_index True (factory_traits
     (factory_registerer True \<lparr>class_name = ''B'', class_bases = []\<rparr> ''m''
       (factory_registerer True demo_class ''m'' empty_factory_registry))) ''m'' = Inr [''SyncModule'']"
  using reregistration_keeps_traits [of empty_factory_registry "''m''" _ "\<lparr>class_name = ''B'', class_bases = []\<rparr>" demo_class, OF _ _ _ refl]
  by (simp add: contain_factory_def empty_factory_registry_def empty_traits_def type_index_def demo_class_def)

end
