(* ===== verification/TopologyManager.thy ===== *)
theory TopologyManager
  imports TopoSort Registry
begin

text \<open>
  \<open>DAG/sw/server/ModuleTopologyManager.cpp\<close> without the sort: the topology index, the storage that owns the
  topologies, the global modules, \<open>add_topology\<close> with all its checks, removal and deletion.

  \<open>ModuleTopology\<close> objects live in a heap (\<open>mg_heap\<close>) and are named by addresses, as the pointers
  of the index and of the storage name them.  Code that is not part of the repository is a parameter:
  \<open>butil::DoublyBufferedData\<close> (\<open>dbd_ops\<close>, with its documented behaviour in \<open>dbd_laws\<close>), the bvar
  monitor, and the session-local data pools (\<open>sw_env\<close>).  A modifier passed to \<open>Modify\<close> is a
  function of the instance and of the set it captures by reference.  Spinning on a reference count that is
  positive is the outcome \<open>Blocked\<close>: in the sequential view nobody will lower it.  Allocation of
  a \<open>ModuleTopology\<close> is taken to succeed.
\<close>

section \<open>Messages and objects\<close>

record proto_module =
  pm_name :: string
  pm_factory_name :: string
  pm_custom_params :: "(string \<times> string) list"

record runnable_topology =
  rt_name :: string
  rt_element :: "topology_element list"
  rt_custom_params :: "(string \<times> string) list"

record topology_config =
  tc_module :: "proto_module list"
  tc_topology :: runnable_topology

type_synonym params = "(string, string) umap"

record 'p module_topology =
  mt_name :: string
  mt_desc :: "runnable_element list"
  mt_parallel_modules :: "string set"
  mt_custom_params :: params
  mt_pool :: "'p option"
  mt_reference_count :: int

type_synonym index = "(string, nat) umap"
type_synonym 'p topology_heap = "(nat, 'p module_topology) umap"

record 'd dbd_ops =
  op_read :: "'d \<Rightarrow> index option"
  op_modify :: "(index \<Rightarrow> nat set \<Rightarrow> nat \<times> index \<times> nat set) \<Rightarrow> nat set \<Rightarrow> 'd \<Rightarrow> nat \<times> 'd \<times> nat set"

record 'p sw_env =
  enable_parallel_module_scheduling :: bool
  enable_check_allow_parallel_field :: bool
  red_enable_tr2 :: bool
  expose_monitor :: "string \<Rightarrow> int"
  new_pool :: "string \<Rightarrow> 'p module_topology \<Rightarrow> 'p option"
  pool_test :: "'p \<Rightarrow> bool \<times> 'p"
  pool_reserve :: "'p \<Rightarrow> 'p"

record ('d, 'p) manager =
  mg_app_initialized :: bool
  mg_app_registry :: factory_registry
  mg_global_modules :: "(string, proto_module) umap"
  mg_dbd :: 'd
  mg_heap :: "'p topology_heap"
  mg_next :: nat
  mg_storage :: "nat list"
  mg_monitors :: "(string, bool) umap"

text \<open>
  The documented behaviour of \<open>butil::DoublyBufferedData\<close>: \<open>Read\<close> gives the foreground instance; \<open>Modify\<close>
  calls the function on both instances, the second call with what the first left in the captured variables, and
  publishes; it stops after the first call when that returns 0.  Both instances stay equal as long as
  the function does the same to equal instances.
\<close>

definition dbd_laws :: "'d dbd_ops \<Rightarrow> ('d \<Rightarrow> bool) \<Rightarrow> bool" where
  "dbd_laws ops ok \<longleftrightarrow>
     (\<forall>d. ok d \<longrightarrow> op_read ops d \<noteq> None) \<and>
     (\<forall>d x fn c n x1 c1 m c2. ok d \<longrightarrow> op_read ops d = Some x \<longrightarrow> fn x c = (n, x1, c1) \<longrightarrow> n \<noteq> 0 \<longrightarrow>
        fn x c1 = (m, x1, c2) \<longrightarrow>
        (\<exists>d'. op_modify ops fn c d = (m, d', c2) \<and> ok d' \<and> op_read ops d' = Some x1)) \<and>
     (\<forall>d x fn c c1. ok d \<longrightarrow> op_read ops d = Some x \<longrightarrow> fn x c = (0, x, c1) \<longrightarrow>
        (\<exists>d'. op_modify ops fn c d = (0, d', c1) \<and> ok d' \<and> op_read ops d' = Some x))"

section \<open>Module definitions\<close>

definition module_equal :: "proto_module \<Rightarrow> proto_module \<Rightarrow> bool" where
  "module_equal m1 m2 =
     (if pm_name m1 \<noteq> pm_name m2 then False
      else if pm_factory_name m1 \<noteq> pm_factory_name m2 then False
      else if length (pm_custom_params m1) \<noteq> length (pm_custom_params m2) then False
      else umap_eq (umap_of_pairs (pm_custom_params m1)) (umap_of_pairs (pm_custom_params m2)))"

definition has_exactly_global_module :: "('d, 'p) manager \<Rightarrow> string \<Rightarrow> string \<Rightarrow> params \<Rightarrow> bool" where
  "has_exactly_global_module g name factory_name module_params =
     (case map_of (mg_global_modules g) name of
        None \<Rightarrow> False
      | Some m \<Rightarrow>
          if pm_factory_name m \<noteq> factory_name then False
          else if length module_params \<noteq> length (pm_custom_params m) then False
          else umap_eq (umap_of_pairs (pm_custom_params m)) module_params)"

definition add_module :: "proto_module \<Rightarrow> ('d, 'p) manager \<Rightarrow> bool \<times> ('d, 'p) manager" where
  "add_module m g =
     (if mg_app_initialized g then (False, g)
      else if \<not> contain_factory (mg_app_registry g) (pm_factory_name m) then (False, g)
      else case umap_emplace (pm_name m) m (mg_global_modules g) of
        (gm, inserted) \<Rightarrow> (inserted, g\<lparr>mg_global_modules := gm\<rparr>))"

definition add_module_if_not_exist :: "string \<Rightarrow> string \<Rightarrow> ('d, 'p) manager \<Rightarrow> bool \<times> ('d, 'p) manager" where
  "add_module_if_not_exist name factory g =
     (if has_exactly_global_module g name factory [] then (True, g)
      else add_module \<lparr>pm_name = name, pm_factory_name = factory, pm_custom_params = []\<rparr> g)"

section \<open>The index\<close>

definition index_seek :: "index \<Rightarrow> string \<Rightarrow> nat option" where
  "index_seek idx name = map_of idx name"

definition index_add :: "string \<Rightarrow> nat \<Rightarrow> index \<Rightarrow> nat \<times> index" where
  "index_add name t idx = (case umap_emplace name t idx of (idx', ins) \<Rightarrow> (if ins then 1 else 0, idx'))"

definition index_replace :: "string \<Rightarrow> nat \<Rightarrow> index \<Rightarrow> nat set \<Rightarrow> nat \<times> index \<times> nat set" where
  "index_replace name t idx replaced =
     (1, AList.update name t idx,
      (case map_of idx name of None \<Rightarrow> replaced | Some p \<Rightarrow> if p \<noteq> nullptr then insert p replaced else replaced))"

definition index_remove :: "string \<Rightarrow> index \<Rightarrow> nat set \<Rightarrow> nat \<times> index \<times> nat set" where
  "index_remove name idx rem =
     (case map_of idx name of
        None \<Rightarrow> (0, idx, rem)
      | Some p \<Rightarrow> (1, AList.delete name idx, insert p rem))"

definition index_clear :: "index \<Rightarrow> nat set \<Rightarrow> index \<times> nat set" where
  "index_clear idx rem = ([], rem \<union> set (map snd idx))"

text \<open>The copies follow the pointers of the index; a pointer to no object ends the copy with \<open>False\<close>
  (it would be undefined behaviour; the manager's invariant excludes it).\<close>

fun copy_descs :: "'p topology_heap \<Rightarrow> index \<Rightarrow> (string, runnable_element list) umap \<Rightarrow> bool \<times> (string, runnable_element list) umap" where
  "copy_descs h [] output = (True, output)"
| "copy_descs h ((n, p) # rest) output =
     (case map_of h p of
        None \<Rightarrow> (False, output)
      | Some t \<Rightarrow> copy_descs h rest (fst (umap_emplace n (mt_desc t) output)))"

definition deep_copy_all_topology_desc ::
  "'p topology_heap \<Rightarrow> index \<Rightarrow> (string, runnable_element list) umap \<Rightarrow> bool \<times> (string, runnable_element list) umap" where
  "deep_copy_all_topology_desc h idx output = copy_descs h idx output"

definition deep_copy_topology_desc ::
  "'p topology_heap \<Rightarrow> index \<Rightarrow> string \<Rightarrow> runnable_element list \<Rightarrow> bool \<times> runnable_element list" where
  "deep_copy_topology_desc h idx name output =
     (case map_of idx name of
        None \<Rightarrow> (False, output)
      | Some p \<Rightarrow> (case map_of h p of None \<Rightarrow> (False, output) | Some t \<Rightarrow> (True, mt_desc t)))"

definition deep_copy_topology_params ::
  "'p topology_heap \<Rightarrow> index \<Rightarrow> string \<Rightarrow> params \<Rightarrow> bool \<times> params" where
  "deep_copy_topology_params h idx name output =
     (case map_of idx name of
        None \<Rightarrow> (False, output)
      | Some p \<Rightarrow> (case map_of h p of None \<Rightarrow> (False, output) | Some t \<Rightarrow> (True, mt_custom_params t)))"

text \<open>The shallow copies hand out pointers into the topologies: the address stands for them.\<close>

definition shallow_copy_all :: "index \<Rightarrow> (string, nat) umap \<Rightarrow> bool \<times> (string, nat) umap" where
  "shallow_copy_all idx output = (True, fold (\<lambda>(n, p) out. fst (umap_emplace n p out)) idx output)"

section \<open>Queries of the manager\<close>

definition contain :: "'d dbd_ops \<Rightarrow> ('d, 'p) manager \<Rightarrow> string \<Rightarrow> bool" where
  "contain ops g name = (case op_read ops (mg_dbd g) of None \<Rightarrow> False | Some idx \<Rightarrow> index_seek idx name \<noteq> None)"

definition topology_using_count :: "'d dbd_ops \<Rightarrow> ('d, 'p) manager \<Rightarrow> string \<Rightarrow> int" where
  "topology_using_count ops g name =
     (case op_read ops (mg_dbd g) of
        None \<Rightarrow> 0
      | Some idx \<Rightarrow>
          (case index_seek idx name of
             None \<Rightarrow> 0
           | Some p \<Rightarrow> (case map_of (mg_heap g) p of None \<Rightarrow> 0 | Some t \<Rightarrow> mt_reference_count t)))"

definition copy_topology_desc ::
  "'d dbd_ops \<Rightarrow> ('d, 'p) manager \<Rightarrow> string \<Rightarrow> runnable_element list \<Rightarrow> bool \<times> runnable_element list" where
  "copy_topology_desc ops g name output =
     (case op_read ops (mg_dbd g) of None \<Rightarrow> (False, output)
      | Some idx \<Rightarrow> deep_copy_topology_desc (mg_heap g) idx name output)"

definition copy_topology_params :: "'d dbd_ops \<Rightarrow> ('d, 'p) manager \<Rightarrow> string \<Rightarrow> params \<Rightarrow> bool \<times> params" where
  "copy_topology_params ops g name output =
     (case op_read ops (mg_dbd g) of None \<Rightarrow> (False, output)
      | Some idx \<Rightarrow> deep_copy_topology_params (mg_heap g) idx name output)"

definition copy_all_topology_desc ::
  "'d dbd_ops \<Rightarrow> ('d, 'p) manager \<Rightarrow> (string, runnable_element list) umap \<Rightarrow> bool \<times> (string, runnable_element list) umap" where
  "copy_all_topology_desc ops g output =
     (case op_read ops (mg_dbd g) of None \<Rightarrow> (False, output)
      | Some idx \<Rightarrow> deep_copy_all_topology_desc (mg_heap g) idx output)"

definition read_topology_list :: "'d dbd_ops \<Rightarrow> ('d, 'p) manager \<Rightarrow> (index \<Rightarrow> 's \<Rightarrow> 's) \<Rightarrow> 's \<Rightarrow> bool \<times> 's" where
  "read_topology_list ops g fn s =
     (case op_read ops (mg_dbd g) of None \<Rightarrow> (False, s) | Some idx \<Rightarrow> (True, fn idx s))"

text \<open>Start-up validation: every pool is tested; when all pass, every pool is filled.\<close>

fun test_pools :: "'p sw_env \<Rightarrow> index \<Rightarrow> 'p topology_heap \<Rightarrow> bool \<times> 'p topology_heap" where
  "test_pools env [] h = (True, h)"
| "test_pools env ((n, p) # rest) h =
     (case map_of h p of
        None \<Rightarrow> (False, h)
      | Some t \<Rightarrow>
          (case mt_pool t of
             None \<Rightarrow> (False, h)
           | Some pool \<Rightarrow>
               (case pool_test env pool of
                  (ok, pool') \<Rightarrow>
                    let h' = AList.update p (t\<lparr>mt_pool := Some pool'\<rparr>) h
                    in if ok then test_pools env rest h' else (False, h'))))"

fun reserve_pools :: "'p sw_env \<Rightarrow> index \<Rightarrow> 'p topology_heap \<Rightarrow> 'p topology_heap" where
  "reserve_pools env [] h = h"
| "reserve_pools env ((n, p) # rest) h =
     reserve_pools env rest
       (case map_of h p of
          None \<Rightarrow> h
        | Some t \<Rightarrow> AList.update p (t\<lparr>mt_pool := map_option (pool_reserve env) (mt_pool t)\<rparr>) h)"

definition validate_and_reserve :: "'d dbd_ops \<Rightarrow> 'p sw_env \<Rightarrow> ('d, 'p) manager \<Rightarrow> bool \<times> ('d, 'p) manager" where
  "validate_and_reserve ops env g =
     (if \<not> mg_app_initialized g then (False, g)
      else case op_read ops (mg_dbd g) of
        None \<Rightarrow> (False, g)
      | Some idx \<Rightarrow>
          (case test_pools env idx (mg_heap g) of
             (ok, h) \<Rightarrow>
               if ok then (True, g\<lparr>mg_heap := reserve_pools env idx h\<rparr>) else (False, g\<lparr>mg_heap := h\<rparr>)))"

section \<open>Storage\<close>

definition emplace_topology_monitor :: "'p sw_env \<Rightarrow> string \<Rightarrow> ('d, 'p) manager \<Rightarrow> bool \<times> ('d, 'p) manager" where
  "emplace_topology_monitor env name g =
     (if map_of (mg_monitors g) name = Some True then (True, g)
      else
        let g1 = g\<lparr>mg_monitors := AList.update name False (mg_monitors g)\<rparr>
        in if expose_monitor env name \<noteq> 0 then (False, g1)
           else (True, g1\<lparr>mg_monitors := AList.update name True (mg_monitors g1)\<rparr>))"

definition storage_add :: "nat \<Rightarrow> ('d, 'p) manager \<Rightarrow> ('d, 'p) manager" where
  "storage_add p g = g\<lparr>mg_storage := mg_storage g @ [p]\<rparr>"

fun storage_delete_loop :: "nat \<Rightarrow> nat list \<Rightarrow> 'p topology_heap \<Rightarrow> nat list \<times> 'p topology_heap" where
  "storage_delete_loop p [] h = ([], h)"
| "storage_delete_loop p (q # qs) h =
     (if p = q then storage_delete_loop p qs (AList.delete p h)
      else case storage_delete_loop p qs h of (rest, h') \<Rightarrow> (q # rest, h'))"

definition storage_delete :: "nat \<Rightarrow> ('d, 'p) manager \<Rightarrow> ('d, 'p) manager" where
  "storage_delete p g =
     (case storage_delete_loop p (mg_storage g) (mg_heap g) of
        (st, h) \<Rightarrow> g\<lparr>mg_storage := st, mg_heap := h\<rparr>)"

definition num_topologies :: "('d, 'p) manager \<Rightarrow> nat" where
  "num_topologies g = length (mg_storage g)"

text \<open>The iteration order over the \<open>unordered_set\<close> is the order of the list passed.  The flag tells whether
  the loop ended (\<open>True\<close>) or spins on a positive reference count (or would follow a dangling pointer).\<close>

fun wait_and_delete :: "nat list \<Rightarrow> ('d, 'p) manager \<Rightarrow> bool \<times> ('d, 'p) manager" where
  "wait_and_delete [] g = (True, g)"
| "wait_and_delete (p # ps) g =
     (case map_of (mg_heap g) p of
        None \<Rightarrow> (False, g)
      | Some t \<Rightarrow> if 0 < mt_reference_count t then (False, g) else wait_and_delete ps (storage_delete p g))"

section \<open>Adding a topology\<close>

datatype add_error =
    RedefinitionInGlobal string
  | RedefinitionInTopology string
  | NoElements
  | ElementNotDefined string
  | DuplicatedElement string
  | DependencyNotFound string string
  | LoopFound
  | MonitorFailed
  | PoolFailed

datatype outcome = Failed add_error | Blocked | Done

definition redefined_globally :: "(string, proto_module) umap \<Rightarrow> proto_module \<Rightarrow> bool" where
  "redefined_globally globals m =
     (case map_of globals (pm_name m) of None \<Rightarrow> False | Some g \<Rightarrow> \<not> module_equal g m)"

definition check_redefinitions :: "(string, proto_module) umap \<Rightarrow> proto_module list \<Rightarrow> add_error + unit" where
  "check_redefinitions globals ms =
     (case find (redefined_globally globals) ms of
        None \<Rightarrow> Inr () | Some m \<Rightarrow> Inl (RedefinitionInGlobal (pm_name m)))"

fun local_factories :: "proto_module list \<Rightarrow> (string, string) umap \<Rightarrow> add_error + (string, string) umap" where
  "local_factories [] fs = Inr fs"
| "local_factories (m # ms) fs =
     (if map_of fs (pm_name m) \<noteq> None then Inl (RedefinitionInTopology (pm_name m))
      else local_factories ms (AList.update (pm_name m) (pm_factory_name m) fs))"

definition emplace_globals :: "(string, proto_module) umap \<Rightarrow> (string, string) umap \<Rightarrow> (string, string) umap" where
  "emplace_globals globals fs =
     fold (\<lambda>(n, m) fs. fst (umap_emplace n (pm_factory_name m) fs)) globals fs"

text \<open>\<open>module_params[n][k] = v\<close>\<close>

definition put_param :: "string \<Rightarrow> string \<times> string \<Rightarrow> (string, params) umap \<Rightarrow> (string, params) umap" where
  "put_param n kv mp =
     AList.update n (AList.update (fst kv) (snd kv) (case map_of mp n of None \<Rightarrow> [] | Some ps \<Rightarrow> ps)) mp"

definition local_params :: "proto_module list \<Rightarrow> (string, params) umap" where
  "local_params ms = fold (\<lambda>m mp. fold (put_param (pm_name m)) (pm_custom_params m) mp) ms []"

definition emplace_global_params :: "(string, proto_module) umap \<Rightarrow> (string, params) umap \<Rightarrow> (string, params) umap" where
  "emplace_global_params globals mp =
     fold (\<lambda>(n, m) mp. fst (umap_emplace n (umap_of_pairs (pm_custom_params m)) mp)) globals mp"

definition element_params :: "topology_element list \<Rightarrow> (string, params) umap \<Rightarrow> (string, params) umap" where
  "element_params els mp = fold (\<lambda>e mp. fold (put_param (el_name e)) (el_custom_params e) mp) els mp"

fun check_elements :: "(string, string) umap \<Rightarrow> topology_element list \<Rightarrow> (string, nat) umap \<Rightarrow> add_error + (string, nat) umap" where
  "check_elements fs [] seen = Inr seen"
| "check_elements fs (e # es) seen =
     (if map_of fs (el_name e) = None then Inl (ElementNotDefined (el_name e))
      else
        let n = (case map_of seen (el_name e) of None \<Rightarrow> 0 | Some n \<Rightarrow> n) + 1;
            seen' = AList.update (el_name e) n seen
        in if 1 < n then Inl (DuplicatedElement (el_name e)) else check_elements fs es seen')"

definition missing_dependency :: "(string, nat) umap \<Rightarrow> topology_element \<Rightarrow> string option" where
  "missing_dependency seen e = find (\<lambda>d. map_of seen d = None) (el_dependency e)"

definition check_dependencies :: "(string, nat) umap \<Rightarrow> topology_element list \<Rightarrow> add_error + unit" where
  "check_dependencies seen es =
     (case find (\<lambda>e. missing_dependency seen e \<noteq> None) es of
        None \<Rightarrow> Inr ()
      | Some e \<Rightarrow> Inl (DependencyNotFound (the (missing_dependency seen e)) (el_name e)))"

definition assign_params :: "(string, params) umap \<Rightarrow> runnable_element list \<Rightarrow> runnable_element list" where
  "assign_params mp =
     map (\<lambda>e. case map_of mp (re_name e) of None \<Rightarrow> e | Some ps \<Rightarrow> e\<lparr>re_module_params := ps\<rparr>)"

text \<open>Everything \<open>add_topology\<close> computes before it touches the manager.\<close>

definition plan_topology ::
  "'p sw_env \<Rightarrow> factory_registry \<Rightarrow> (string, proto_module) umap \<Rightarrow> topology_config \<Rightarrow> add_error + 'p module_topology" where
  "plan_topology env reg globals packed =
     (let top = tc_topology packed; els = rt_element top; ms = tc_module packed in
      case check_redefinitions globals ms of Inl e \<Rightarrow> Inl e | Inr _ \<Rightarrow>
      (case local_factories ms [] of Inl e \<Rightarrow> Inl e | Inr lf \<Rightarrow>
       let module_factories = emplace_globals globals lf;
           module_params = emplace_global_params globals (local_params ms)
       in if els = [] then Inl NoElements
          else case check_elements module_factories els [] of Inl e \<Rightarrow> Inl e | Inr seen \<Rightarrow>
          (case check_dependencies seen els of Inl e \<Rightarrow> Inl e | Inr _ \<Rightarrow>
           let module_params = element_params els module_params;
               (ok, s) = topology_sort (is_sync_module (red_enable_tr2 env) (factory_traits reg))
                           (enable_check_allow_parallel_field env) els (Some []) module_factories
                           (if enable_parallel_module_scheduling env then Some {} else None)
           in if \<not> ok then Inl LoopFound
              else Inr \<lparr>mt_name = rt_name top,
                        mt_desc = assign_params module_params (case sorted_topology s of None \<Rightarrow> [] | Some out \<Rightarrow> out),
                        mt_parallel_modules = (case parallel_modules s of None \<Rightarrow> {} | Some P \<Rightarrow> P),
                        mt_custom_params = umap_of_pairs (rt_custom_params top),
                        mt_pool = None, mt_reference_count = 0\<rparr>)))"

definition create_session_local_data_pool ::
  "'p sw_env \<Rightarrow> string \<Rightarrow> 'p module_topology \<Rightarrow> bool \<Rightarrow> 'p option" where
  "create_session_local_data_pool env name t test_and_reserve =
     (case new_pool env name t of
        None \<Rightarrow> None
      | Some pool \<Rightarrow>
          if test_and_reserve then
            (case pool_test env pool of (ok, pool') \<Rightarrow> if ok then Some (pool_reserve env pool') else None)
          else Some pool)"

definition publish_topology ::
  "'d dbd_ops \<Rightarrow> string \<Rightarrow> 'p module_topology \<Rightarrow> ('d, 'p) manager \<Rightarrow> outcome \<times> ('d, 'p) manager" where
  "publish_topology ops name t g =
     (let p = mg_next g;
          g1 = g\<lparr>mg_heap := (p, t) # mg_heap g, mg_next := Suc p\<rparr>;
          (n, d, replaced) = op_modify ops (index_replace name p) {} (mg_dbd g1);
          g2 = storage_add p (g1\<lparr>mg_dbd := d\<rparr>);
          (ended, g3) = wait_and_delete (sorted_list_of_set replaced) g2
      in (if ended then Done else Blocked, g3))"

definition add_topology ::
  "'d dbd_ops \<Rightarrow> 'p sw_env \<Rightarrow> topology_config \<Rightarrow> ('d, 'p) manager \<Rightarrow> outcome \<times> ('d, 'p) manager" where
  "add_topology ops env packed g =
     (case plan_topology env (mg_app_registry g) (mg_global_modules g) packed of
        Inl e \<Rightarrow> (Failed e, g)
      | Inr t \<Rightarrow>
          (case emplace_topology_monitor env (mt_name t) g of
             (False, g1) \<Rightarrow> (Failed MonitorFailed, g1)
           | (True, g1) \<Rightarrow>
               (case create_session_local_data_pool env (mt_name t) t (mg_app_initialized g1) of
                  None \<Rightarrow> (Failed PoolFailed, g1)
                | Some pool \<Rightarrow> publish_topology ops (mt_name t) (t\<lparr>mt_pool := Some pool\<rparr>) g1)))"

text \<open>The overload that packs a list of runnable elements into a configuration first.\<close>

definition pack_desc :: "string \<Rightarrow> runnable_element list \<Rightarrow> params \<Rightarrow> topology_config" where
  "pack_desc name desc topology_params =
     \<lparr>tc_module = map (\<lambda>e. \<lparr>pm_name = re_name e, pm_factory_name = re_factory_name e,
                            pm_custom_params = re_module_params e\<rparr>) desc,
      tc_topology = \<lparr>rt_name = name,
        rt_element = map (\<lambda>e. \<lparr>el_name = re_name e, el_dependency = re_dependencies e,
                              el_allow_parallel = False, el_custom_params = []\<rparr>) desc,
        rt_custom_params = topology_params\<rparr>\<rparr>"

definition add_topology_desc ::
  "'d dbd_ops \<Rightarrow> 'p sw_env \<Rightarrow> string \<Rightarrow> runnable_element list \<Rightarrow> params \<Rightarrow> ('d, 'p) manager \<Rightarrow> outcome \<times> ('d, 'p) manager" where
  "add_topology_desc ops env name desc topology_params g =
     add_topology ops env (pack_desc name desc topology_params) g"

section \<open>Removing topologies\<close>

definition remove_topology :: "'d dbd_ops \<Rightarrow> string \<Rightarrow> ('d, 'p) manager \<Rightarrow> outcome \<times> ('d, 'p) manager" where
  "remove_topology ops name g =
     (let (n, d, rem) = op_modify ops (index_remove name) {} (mg_dbd g);
          (ended, g1) = wait_and_delete (sorted_list_of_set rem) (g\<lparr>mg_dbd := d\<rparr>)
      in (if ended then Done else Blocked, g1))"

text \<open>The call of \<open>Modify\<close> in \<open>clear\<close> is commented out: the set of removed topologies stays empty.  The second
  component tells whether the final assertion holds.\<close>

definition manager_clear :: "('d, 'p) manager \<Rightarrow> outcome \<times> bool \<times> ('d, 'p) manager" where
  "manager_clear g =
     (let (ended, g1) = wait_and_delete [] g
      in (if ended then Done else Blocked, num_topologies g1 = 0, g1))"

definition manager_init :: "'d \<Rightarrow> factory_registry \<Rightarrow> ('d, 'p) manager" where
  "manager_init d reg =
     \<lparr>mg_app_initialized = False, mg_app_registry = reg, mg_global_modules = [], mg_dbd = d,
      mg_heap = [], mg_next = 1, mg_storage = [], mg_monitors = []\<rparr>"

definition set_app_initialized :: "('d, 'p) manager \<Rightarrow> ('d, 'p) manager" where
  "set_app_initialized g = g\<lparr>mg_app_initialized := True\<rparr>"

definition modify_refcount :: "(int \<Rightarrow> int) \<Rightarrow> nat \<Rightarrow> ('d, 'p) manager \<Rightarrow> ('d, 'p) manager" where
  "modify_refcount f p g =
     (case map_of (mg_heap g) p of
        None \<Rightarrow> g
      | Some t \<Rightarrow> g\<lparr>mg_heap := AList.update p (t\<lparr>mt_reference_count := f (mt_reference_count t)\<rparr>) (mg_heap g)\<rparr>)"

definition increase_reference :: "nat \<Rightarrow> ('d, 'p) manager \<Rightarrow> ('d, 'p) manager" where
  "increase_reference = modify_refcount (\<lambda>n. n + 1)"

definition decrease_reference :: "nat \<Rightarrow> ('d, 'p) manager \<Rightarrow> ('d, 'p) manager" where
  "decrease_reference = modify_refcount (\<lambda>n. n - 1)"

section \<open>Lemmas on the checks\<close>

lemma module_equal_iff:
  "module_equal m1 m2 \<longleftrightarrow> pm_name m1 = pm_name m2 \<and> pm_factory_name m1 = pm_factory_name m2 \<and>
     length (pm_custom_params m1) = length (pm_custom_params m2) \<and>
     map_of (rev (pm_custom_params m1)) = map_of (rev (pm_custom_params m2))"
  by (simp add: module_equal_def umap_eq_iff umap_simps)

lemma find_None_iff_ball: "find P xs = None \<longleftrightarrow> (\<forall>x \<in> set xs. \<not> P x)"
  by (auto simp: find_None_iff)

lemma check_redefinitions_ok:
  "check_redefinitions globals ms = Inr () \<longleftrightarrow> (\<forall>m \<in> set ms. \<not> redefined_globally globals m)"
  by (auto simp: check_redefinitions_def find_None_iff_ball split: option.splits)
     (metis find_Some_iff nth_mem option.distinct(1) find_None_iff_ball)

lemma local_factories_result:
  "distinct (map pm_name ms) \<Longrightarrow> (\<forall>m \<in> set ms. map_of fs (pm_name m) = None) \<Longrightarrow>
     local_factories ms fs = Inr (fold (\<lambda>m. AList.update (pm_name m) (pm_factory_name m)) ms fs)"
proof (induction ms arbitrary: fs)
  case Nil
  then show ?case by simp
next
  case (Cons m ms)
  have "pm_name x \<noteq> pm_name m" if "x \<in> set ms" for x
    using Cons.prems(1) that by (metis distinct.simps(2) image_eqI list.map(2) set_map)
  then have "\<forall>x \<in> set ms. map_of (AList.update (pm_name m) (pm_factory_name m) fs) (pm_name x) = None"
    using Cons.prems(2) by (simp add: umap_simps)
  then show ?case using Cons by simp
qed

lemma local_factories_Inr:
  "local_factories ms fs = Inr lf \<Longrightarrow>
     distinct (map pm_name ms) \<and> (\<forall>m \<in> set ms. map_of fs (pm_name m) = None) \<and>
     map_of lf n = (case find (\<lambda>m. pm_name m = n) ms of None \<Rightarrow> map_of fs n | Some m \<Rightarrow> Some (pm_factory_name m))"
proof (induction ms arbitrary: fs)
  case Nil
  then show ?case by simp
next
  case (Cons m ms)
  then have none: "map_of fs (pm_name m) = None" by (simp split: if_splits)
  have "local_factories ms (AList.update (pm_name m) (pm_factory_name m) fs) = Inr lf"
    using Cons.prems none by simp
  note IH = Cons.IH [OF this]
  have "\<forall>x \<in> set ms. pm_name x \<noteq> pm_name m \<and> map_of fs (pm_name x) = None"
    using IH by (auto simp: umap_simps split: if_splits)
  moreover have "find (\<lambda>x. pm_name x = pm_name m) ms = None"
    using calculation by (auto simp: find_None_iff)
  ultimately show ?case
    using IH none by (auto simp: umap_simps split: option.splits)
qed

lemma local_factories_ok:
  "(\<exists>lf. local_factories ms [] = Inr lf) \<longleftrightarrow> distinct (map pm_name ms)"
  using local_factories_Inr [of ms "[]"] local_factories_result [of ms "[]"] by auto

definition definition_of :: "(string, proto_module) umap \<Rightarrow> proto_module list \<Rightarrow> string \<Rightarrow> proto_module option" where
  "definition_of globals ms n =
     (case find (\<lambda>m. pm_name m = n) ms of None \<Rightarrow> map_of globals n | Some m \<Rightarrow> Some m)"

lemma module_factories_lookup:
  assumes "local_factories ms [] = Inr lf"
  shows "map_of (emplace_globals globals lf) n = map_option pm_factory_name (definition_of globals ms n)"
  using local_factories_Inr [OF assms, of n]
  by (simp add: emplace_globals_def umap_simps definition_of_def split: option.splits)

lemma definition_of_None:
  "definition_of globals ms n = None \<longleftrightarrow> n \<notin> pm_name ` set ms \<and> map_of globals n = None"
  by (auto simp: definition_of_def find_None_iff find_Some_iff split: option.splits)

text \<open>Parameters of one module, as a table of its own.\<close>

definition pget :: "(string, params) umap \<Rightarrow> string \<Rightarrow> string \<Rightarrow> string option" where
  "pget mp n k = (case map_of mp n of None \<Rightarrow> None | Some ps \<Rightarrow> map_of ps k)"

lemma pget_Nil [simp]: "pget [] n k = None"
  by (simp add: pget_def)

interpretation module_table: name_table "\<lambda>k v. put_param n (k, v)" "\<lambda>mp. pget mp n" for n
  by unfold_locales (auto simp: pget_def put_param_def umap_simps split: option.splits)

lemma put_param_other: "n' \<noteq> n \<Longrightarrow> map_of (put_param n kv mp) n' = map_of mp n'"
  by (simp add: put_param_def umap_simps)

lemma fold_put_other: "n' \<noteq> n \<Longrightarrow> map_of (fold (put_param n) kvs mp) n' = map_of mp n'"
  by (induction kvs arbitrary: mp) (auto simp: put_param_other)

lemma fold_put_same:
  "pget (fold (put_param n) kvs mp) n k = (case map_of (rev kvs) k of None \<Rightarrow> pget mp n k | Some v \<Rightarrow> Some v)"
proof -
  have "put_param n = (\<lambda>(k, v). put_param n (k, v))" by auto
  then show ?thesis using module_table.look_fold_put [of n kvs mp k] by simp
qed

lemma fold_params_lookup:
  assumes "distinct (map nm xs)"
  shows "(\<forall>x \<in> set xs. pget (fold (\<lambda>x. fold (put_param (nm x)) (ps x)) xs mp) (nm x) k =
            (case map_of (rev (ps x)) k of None \<Rightarrow> pget mp (nm x) k | Some v \<Rightarrow> Some v)) \<and>
         (\<forall>n. n \<notin> nm ` set xs \<longrightarrow> map_of (fold (\<lambda>x. fold (put_param (nm x)) (ps x)) xs mp) n = map_of mp n)"
  using assms
proof (induction xs arbitrary: mp)
  case Nil
  then show ?case by simp
next
  case (Cons y ys)
  let ?mp = "fold (put_param (nm y)) (ps y) mp"
  have IH: "\<forall>x \<in> set ys. pget (fold (\<lambda>x. fold (put_param (nm x)) (ps x)) ys ?mp) (nm x) k =
            (case map_of (rev (ps x)) k of None \<Rightarrow> pget ?mp (nm x) k | Some v \<Rightarrow> Some v)"
    "\<forall>n. n \<notin> nm ` set ys \<longrightarrow> map_of (fold (\<lambda>x. fold (put_param (nm x)) (ps x)) ys ?mp) n = map_of ?mp n"
    using Cons.IH [of ?mp] Cons.prems by auto
  have y: "nm y \<notin> nm ` set ys" using Cons.prems by auto
  then have "pget (fold (\<lambda>x. fold (put_param (nm x)) (ps x)) ys ?mp) (nm y) k = pget ?mp (nm y) k"
    using IH(2) by (simp add: pget_def)
  moreover have "pget ?mp (nm x) k = pget mp (nm x) k" if "x \<in> set ys" for x
  proof -
    have "nm x \<noteq> nm y" using that y by (metis imageI)
    then show ?thesis by (simp add: pget_def fold_put_other)
  qed
  ultimately show ?case
    using IH by (auto simp: fold_put_same fold_put_other split: option.splits)
qed

lemma resolved_params:
  assumes "distinct (map pm_name ms)" and "\<forall>m \<in> set ms. \<not> redefined_globally globals m"
  shows "pget (emplace_global_params globals (local_params ms)) n k =
    (case definition_of globals ms n of None \<Rightarrow> None | Some m \<Rightarrow> map_of (rev (pm_custom_params m)) k)"
proof -
  note L = fold_params_lookup [OF assms(1), of pm_custom_params "[]" k, folded local_params_def]
  have E: "map_of (emplace_global_params globals mp) n =
      (case map_of mp n of None \<Rightarrow> map_option (\<lambda>m. umap_of_pairs (pm_custom_params m)) (map_of globals n) | Some v \<Rightarrow> Some v)" for mp
    unfolding emplace_global_params_def by (rule map_of_fold_emplace)
  show ?thesis
  proof (cases "find (\<lambda>m. pm_name m = n) ms")
    case None
    then have "n \<notin> pm_name ` set ms" by (auto simp: find_None_iff)
    then have "map_of (local_params ms) n = None" using L by simp
    then show ?thesis using None E by (simp add: pget_def definition_of_def umap_simps split: option.splits)
  next
    case (Some m)
    then have m: "m \<in> set ms" "pm_name m = n" by (auto simp: find_Some_iff)
    then have p: "pget (local_params ms) n k = map_of (rev (pm_custom_params m)) k"
      using L pget_Nil [of n k] by (cases "map_of (rev (pm_custom_params m)) k") auto
    show ?thesis
    proof (cases "map_of (local_params ms) n")
      case None
      have "map_of globals n = None \<or> (\<exists>g. map_of globals n = Some g \<and> module_equal g m)"
        using assms(2) m by (auto simp: redefined_globally_def split: option.splits)
      then show ?thesis
        using Some None p E by (auto simp: pget_def definition_of_def umap_simps module_equal_iff)
    next
      case (Some ps)
      then show ?thesis using \<open>find _ ms = Some m\<close> p E by (simp add: pget_def definition_of_def)
    qed
  qed
qed

lemma check_elements_result:
  assumes "\<forall>n c. map_of seen n = Some c \<longrightarrow> c = 1"
  shows "(\<exists>seen'. check_elements fs es seen = Inr seen') \<longleftrightarrow>
     (\<forall>e \<in> set es. map_of fs (el_name e) \<noteq> None \<and> map_of seen (el_name e) = None) \<and> distinct (map el_name es)"
    and "check_elements fs es seen = Inr seen' \<Longrightarrow> map_of seen' n = None \<longleftrightarrow> map_of seen n = None \<and> n \<notin> el_name ` set es"
proof -
  have *: "((\<exists>seen'. check_elements fs es seen = Inr seen') \<longleftrightarrow>
     (\<forall>e \<in> set es. map_of fs (el_name e) \<noteq> None \<and> map_of seen (el_name e) = None) \<and> distinct (map el_name es)) \<and>
     (\<forall>seen' n. check_elements fs es seen = Inr seen' \<longrightarrow>
        (map_of seen' n = None \<longleftrightarrow> map_of seen n = None \<and> n \<notin> el_name ` set es))"
    using assms
  proof (induction es arbitrary: seen)
    case Nil
    then show ?case by simp
  next
    case (Cons e es)
    show ?case
    proof (cases "map_of fs (el_name e) = None \<or> map_of seen (el_name e) \<noteq> None")
      case True
      then show ?thesis using Cons.prems by (force simp: Let_def)
    next
      case False
      let ?s = "AList.update (el_name e) (Suc 0) seen"
      have "\<forall>n c. map_of ?s n = Some c \<longrightarrow> c = 1" using Cons.prems by (auto simp: umap_simps split: if_splits)
      note IH = Cons.IH [OF this]
      have eq: "check_elements fs (e # es) seen = check_elements fs es ?s" using False by (auto simp: Let_def)
      have IH1: "(\<exists>seen'. check_elements fs es ?s = Inr seen') \<longleftrightarrow>
         (\<forall>x \<in> set es. map_of fs (el_name x) \<noteq> None \<and> map_of ?s (el_name x) = None) \<and> distinct (map el_name es)"
        using IH by (rule conjunct1)
      have "(\<exists>seen'. check_elements fs (e # es) seen = Inr seen') \<longleftrightarrow>
         (\<forall>x \<in> set (e # es). map_of fs (el_name x) \<noteq> None \<and> map_of seen (el_name x) = None) \<and> distinct (map el_name (e # es))"
        unfolding eq IH1 using False by (auto simp: umap_simps) (metis imageI)
      moreover have "map_of seen' n = None \<longleftrightarrow> map_of seen n = None \<and> n \<notin> el_name ` set (e # es)"
        if "check_elements fs (e # es) seen = Inr seen'" for seen' n
        using that IH unfolding eq by (auto simp: umap_simps)
      ultimately show ?thesis by blast
    qed
  qed
  show "(\<exists>seen'. check_elements fs es seen = Inr seen') \<longleftrightarrow>
     (\<forall>e \<in> set es. map_of fs (el_name e) \<noteq> None \<and> map_of seen (el_name e) = None) \<and> distinct (map el_name es)"
    using * by blast
  show "check_elements fs es seen = Inr seen' \<Longrightarrow> map_of seen' n = None \<longleftrightarrow> map_of seen n = None \<and> n \<notin> el_name ` set es"
    using * by blast
qed

lemma check_dependencies_ok:
  "check_dependencies seen es = Inr () \<longleftrightarrow> (\<forall>e \<in> set es. \<forall>d \<in> set (el_dependency e). map_of seen d \<noteq> None)"
proof -
  have "check_dependencies seen es = Inr () \<longleftrightarrow> find (\<lambda>e. missing_dependency seen e \<noteq> None) es = None"
    by (simp add: check_dependencies_def split: option.splits)
  also have "\<dots> \<longleftrightarrow> (\<forall>e \<in> set es. missing_dependency seen e = None)"
    by (simp add: find_None_iff_ball)
  also have "\<dots> \<longleftrightarrow> (\<forall>e \<in> set es. \<forall>d \<in> set (el_dependency e). map_of seen d \<noteq> None)"
    unfolding missing_dependency_def find_None_iff_ball by blast
  finally show ?thesis .
qed

text \<open>What \<open>add_topology\<close> accepts, said without the code.\<close>

definition config_ok :: "(string, proto_module) umap \<Rightarrow> topology_config \<Rightarrow> bool" where
  "config_ok globals packed \<longleftrightarrow>
     (let ms = tc_module packed; els = rt_element (tc_topology packed) in
      (\<forall>m \<in> set ms. \<forall>g. map_of globals (pm_name m) = Some g \<longrightarrow> module_equal g m) \<and>
      distinct (map pm_name ms) \<and> els \<noteq> [] \<and>
      (\<forall>e \<in> set els. definition_of globals ms (el_name e) \<noteq> None) \<and>
      distinct (map el_name els) \<and> fst ` deps els \<subseteq> names els \<and> acyclic (deps els))"

lemma not_redefined: "\<not> redefined_globally globals m \<longleftrightarrow> (\<forall>g. map_of globals (pm_name m) = Some g \<longrightarrow> module_equal g m)"
  by (auto simp: redefined_globally_def split: option.splits)

lemma deps_names: "fst ` deps els \<subseteq> names els \<longleftrightarrow> (\<forall>e \<in> set els. \<forall>d \<in> set (el_dependency e). d \<in> el_name ` set els)"
proof -
  have "fst ` deps els = (\<Union>e \<in> set els. set (el_dependency e))"
    by (simp add: deps_def image_UN)
  then show ?thesis by (simp add: names_def) blast
qed

lemma element_checks:
  assumes "local_factories ms [] = Inr lf"
  shows "(\<exists>seen. check_elements (emplace_globals globals lf) els [] = Inr seen \<and> check_dependencies seen els = Inr ()) \<longleftrightarrow>
    (\<forall>e \<in> set els. definition_of globals ms (el_name e) \<noteq> None) \<and> distinct (map el_name els) \<and>
    fst ` deps els \<subseteq> names els"
proof -
  let ?f = "emplace_globals globals lf"
  have f: "map_of ?f n \<noteq> None \<longleftrightarrow> definition_of globals ms n \<noteq> None" for n
    using module_factories_lookup [OF assms, of globals n] by simp
  have r: "(\<exists>seen. check_elements ?f els [] = Inr seen) \<longleftrightarrow>
     (\<forall>e \<in> set els. definition_of globals ms (el_name e) \<noteq> None) \<and> distinct (map el_name els)"
    using check_elements_result(1) [of "[]" ?f els] f by auto
  have d: "check_dependencies seen els = Inr () \<longleftrightarrow> fst ` deps els \<subseteq> names els"
    if "check_elements ?f els [] = Inr seen" for seen
    using check_elements_result(2) [OF _ that] by (auto simp: check_dependencies_ok deps_names)
  show ?thesis using r d by blast
qed

lemma plan_topology_iff:
  "(\<exists>t. plan_topology env reg globals packed = Inr t) \<longleftrightarrow> config_ok globals packed"
proof -
  let ?ms = "tc_module packed" and ?els = "rt_element (tc_topology packed)"
  let ?sort = "\<lambda>fs. topology_sort (is_sync_module (red_enable_tr2 env) (factory_traits reg))
     (enable_check_allow_parallel_field env) ?els (Some []) fs
     (if enable_parallel_module_scheduling env then Some {} else None)"
  have "(\<exists>t. plan_topology env reg globals packed = Inr t) \<longleftrightarrow>
      check_redefinitions globals ?ms = Inr () \<and>
      (\<exists>lf. local_factories ?ms [] = Inr lf \<and> ?els \<noteq> [] \<and>
        (\<exists>seen. check_elements (emplace_globals globals lf) ?els [] = Inr seen \<and> check_dependencies seen ?els = Inr ()) \<and>
        fst (?sort (emplace_globals globals lf)))"
    by (auto simp: plan_topology_def Let_def split: sum.splits prod.splits if_splits)
  also have "\<dots> \<longleftrightarrow> config_ok globals packed"
  proof (cases "\<exists>lf. local_factories ?ms [] = Inr lf")
    case True
    then obtain lf where lf: "local_factories ?ms [] = Inr lf" by blast
    show ?thesis
      using local_factories_ok [of ?ms] lf
      by (simp add: config_ok_def Let_def check_redefinitions_ok not_redefined element_checks [OF lf] sort_accepts_iff) blast
  next
    case False
    then show ?thesis using local_factories_ok [of ?ms] by (auto simp: config_ok_def Let_def)
  qed
  finally show ?thesis .
qed

text \<open>The parameter a module of a topology sees: the element's own, else the module definition's; the last one for
  a key wins.\<close>

definition effective_param ::
  "(string, proto_module) umap \<Rightarrow> topology_config \<Rightarrow> topology_element \<Rightarrow> string \<Rightarrow> string option" where
  "effective_param globals packed e k =
     (case map_of (rev (el_custom_params e)) k of
        Some v \<Rightarrow> Some v
      | None \<Rightarrow> (case definition_of globals (tc_module packed) (el_name e) of
                  None \<Rightarrow> None | Some m \<Rightarrow> map_of (rev (pm_custom_params m)) k))"

text \<open>What a published description has to be: the elements in dependency order, each with its
  factory and its parameters.\<close>

definition runnable_of :: "(string, proto_module) umap \<Rightarrow> topology_config \<Rightarrow> topology_element \<Rightarrow> runnable_element \<Rightarrow> bool" where
  "runnable_of globals packed e r \<longleftrightarrow>
     re_name r = el_name e \<and> re_dependencies r = el_dependency e \<and>
     (\<exists>m. definition_of globals (tc_module packed) (el_name e) = Some m \<and> re_factory_name r = pm_factory_name m) \<and>
     map_of (re_module_params r) = effective_param globals packed e"

definition desc_ok :: "(string, proto_module) umap \<Rightarrow> topology_config \<Rightarrow> runnable_element list \<Rightarrow> bool" where
  "desc_ok globals packed desc \<longleftrightarrow>
     (\<exists>ord. mset ord = mset (rt_element (tc_topology packed)) \<and> list_all2 (runnable_of globals packed) ord desc) \<and>
     (\<forall>i < length desc. \<forall>d \<in> set (re_dependencies (desc ! i)). \<exists>j < i. re_name (desc ! j) = d)"

lemma assign_params_nth:
  "i < length out \<Longrightarrow> re_name (assign_params mp out ! i) = re_name (out ! i) \<and>
     re_dependencies (assign_params mp out ! i) = re_dependencies (out ! i) \<and>
     re_factory_name (assign_params mp out ! i) = re_factory_name (out ! i)"
  by (simp add: assign_params_def split: option.splits)

lemma assign_params_runnable:
  assumes "re_module_params r = []"
  shows "map_of (re_module_params (case map_of mp (re_name r) of None \<Rightarrow> r | Some ps \<Rightarrow> r\<lparr>re_module_params := ps\<rparr>))
    = pget mp (re_name r)"
  using assms by (auto simp: pget_def fun_eq_iff split: option.splits)

lemma plan_topology_desc:
  assumes "plan_topology env reg globals packed = Inr t"
  shows "mt_name t = rt_name (tc_topology packed) \<and> mt_reference_count t = 0 \<and>
    map_of (mt_custom_params t) = map_of (rev (rt_custom_params (tc_topology packed))) \<and> desc_ok globals packed (mt_desc t)"
proof -
  let ?ms = "tc_module packed" and ?els = "rt_element (tc_topology packed)"
  have ok: "config_ok globals packed" using assms plan_topology_iff by blast
  obtain lf s where lf: "local_factories ?ms [] = Inr lf"
    and s: "topology_sort (is_sync_module (red_enable_tr2 env) (factory_traits reg))
      (enable_check_allow_parallel_field env) ?els (Some []) (emplace_globals globals lf)
      (if enable_parallel_module_scheduling env then Some {} else None) = (True, s)"
    and t: "mt_name t = rt_name (tc_topology packed)" "mt_reference_count t = 0"
      "mt_custom_params t = umap_of_pairs (rt_custom_params (tc_topology packed))"
      "mt_desc t = assign_params (element_params ?els (emplace_global_params globals (local_params ?ms)))
         (case sorted_topology s of None \<Rightarrow> [] | Some out \<Rightarrow> out)"
    using assms by (auto simp: plan_topology_def Let_def split: sum.splits prod.splits if_splits)
  let ?fs = "emplace_globals globals lf"
  let ?mp = "element_params ?els (emplace_global_params globals (local_params ?ms))"
  obtain ord where ord: "set ord = set ?els" "distinct ord" "sorted_topology s = Some (map (to_runnable ?fs) ord)"
    using topology_sort_complete_order [OF s] by auto
  have "distinct ?els" "distinct (map el_name ?els)" "distinct (map pm_name ?ms)"
    using ok by (auto simp: config_ok_def Let_def distinct_map)
  then have "mset ord = mset ?els" using ord(1,2) by (simp add: set_eq_iff_mset_eq_distinct)
  have red: "\<forall>m \<in> set ?ms. \<not> redefined_globally globals m" using ok by (simp add: config_ok_def Let_def not_redefined)
  have pg: "pget ?mp (el_name e) = effective_param globals packed e" if "e \<in> set ?els" for e
    using that fold_params_lookup [OF \<open>distinct (map el_name ?els)\<close>, of el_custom_params "emplace_global_params globals (local_params ?ms)"]
      resolved_params [OF \<open>distinct (map pm_name ?ms)\<close> red]
    by (simp add: fun_eq_iff effective_param_def element_params_def cong: option.case_cong)
  have fac: "\<exists>m. definition_of globals ?ms (el_name e) = Some m \<and> factory_of ?fs (el_name e) = pm_factory_name m" if "e \<in> set ?els" for e
    using that ok module_factories_lookup [OF lf, of globals "el_name e"]
    by (auto simp: config_ok_def Let_def factory_of_def)
  have "list_all2 (runnable_of globals packed) ord (mt_desc t)"
  proof (rule list_all2_all_nthI)
    show "length ord = length (mt_desc t)" by (simp add: t(4) ord(3) assign_params_def)
  next
    fix i assume i: "i < length ord"
    then have e: "ord ! i \<in> set ?els" using ord(1) nth_mem by blast
    show "runnable_of globals packed (ord ! i) (mt_desc t ! i)"
      using i pg [OF e] fac [OF e] assign_params_nth [of i "map (to_runnable ?fs) ord" ?mp]
        assign_params_runnable [of "to_runnable ?fs (ord ! i)" ?mp]
      by (simp add: t(4) ord(3) runnable_of_def to_runnable_def assign_params_def)
  qed
  moreover have "\<exists>j < i. re_name (mt_desc t ! j) = d"
    if i: "i < length (mt_desc t)" and d: "d \<in> set (re_dependencies (mt_desc t ! i))" for i d
  proof -
    have l: "length (mt_desc t) = length ord" by (simp add: t(4) ord(3) assign_params_def)
    have nth: "re_name (mt_desc t ! j) = re_name (map (to_runnable ?fs) ord ! j) \<and>
        re_dependencies (mt_desc t ! j) = re_dependencies (map (to_runnable ?fs) ord ! j)" if "j < length ord" for j
      using assign_params_nth [of j "map (to_runnable ?fs) ord" ?mp] that by (simp add: t(4) ord(3))
    have "\<forall>i < length (map (to_runnable ?fs) ord). \<forall>d \<in> set (re_dependencies (map (to_runnable ?fs) ord ! i)).
        \<exists>j < i. re_name (map (to_runnable ?fs) ord ! j) = d"
      using sort_orders_perm [OF s] ord(3) by auto
    then obtain j where "j < i" "re_name (map (to_runnable ?fs) ord ! j) = d"
      using i d nth [of i] l by (metis length_map)
    then show ?thesis using nth [of j] i l by auto
  qed
  ultimately have "desc_ok globals packed (mt_desc t)"
    using \<open>mset ord = mset ?els\<close> by (auto simp: desc_ok_def)
  then show ?thesis using t(1-3) by (simp add: umap_simps)
qed

text \<open>
  An environment that works for the registered modules: the monitor can be exposed, and session-local data is created and passes its test for a
  topology all of whose modules have a registered factory.
\<close>

definition env_ready :: "factory_registry \<Rightarrow> 'p sw_env \<Rightarrow> bool" where
  "env_ready reg env \<longleftrightarrow> (\<forall>n. expose_monitor env n = 0) \<and>
     (\<forall>n t. (\<forall>r \<in> set (mt_desc t). contain_factory reg (re_factory_name r)) \<longrightarrow> (\<exists>pool. new_pool env n t = Some pool \<and> fst (pool_test env pool)))"

lemma definition_registered:
  assumes "definition_of globals ms n = Some m"
    and "\<And>m. m \<in> set ms \<or> m \<in> ran (map_of globals) \<Longrightarrow> contain_factory reg (pm_factory_name m)"
  shows "contain_factory reg (pm_factory_name m)"
proof (cases "find (\<lambda>m. pm_name m = n) ms")
  case None
  then have "map_of globals n = Some m" using assms(1) by (simp add: definition_of_def)
  then show ?thesis using assms(2) [of m] ranI by fast
next
  case (Some m')
  then have "m' = m" using assms(1) by (simp add: definition_of_def)
  then have "m \<in> set ms" using Some by (auto simp: find_Some_iff)
  then show ?thesis using assms(2) by blast
qed

lemma plan_registered:
  assumes plan: "plan_topology env reg globals packed = Inr t"
    and reg: "\<And>m. m \<in> set (tc_module packed) \<or> m \<in> ran (map_of globals) \<Longrightarrow> contain_factory reg (pm_factory_name m)"
  shows "\<forall>r \<in> set (mt_desc t). contain_factory reg (re_factory_name r)"
proof
  fix r assume "r \<in> set (mt_desc t)"
  moreover obtain ord where "list_all2 (runnable_of globals packed) ord (mt_desc t)"
    using plan_topology_desc [OF plan] unfolding desc_ok_def by blast
  ultimately obtain e where "runnable_of globals packed e r" by (metis in_set_conv_nth list_all2_conv_all_nth)
  then show "contain_factory reg (re_factory_name r)" using definition_registered reg unfolding runnable_of_def by metis
qed

lemma planned_pool:
  assumes "env_ready reg env" and "plan_topology env reg globals packed = Inr t"
    and "\<And>m. m \<in> set (tc_module packed) \<or> m \<in> ran (map_of globals) \<Longrightarrow> contain_factory reg (pm_factory_name m)"
  obtains pool where "new_pool env n t = Some pool" "fst (pool_test env pool)"
  using assms(1) plan_registered [OF assms(2,3)] unfolding env_ready_def by blast

section \<open>Invariant of the manager\<close>

text \<open>
  The index holds exactly the live topologies, each under its own name; the storage owns exactly
  these, each once; addresses are never reused.
\<close>

definition index_ok :: "index \<Rightarrow> ('d, 'p) manager \<Rightarrow> bool" where
  "index_ok idx g \<longleftrightarrow>
     (\<forall>n p. map_of idx n = Some p \<longrightarrow> (\<exists>t. map_of (mg_heap g) p = Some t \<and> mt_name t = n)) \<and>
     ran (map_of idx) = dom (map_of (mg_heap g)) \<and>
     (\<forall>p \<in> dom (map_of (mg_heap g)). 0 < p \<and> p < mg_next g) \<and>
     set (mg_storage g) = dom (map_of (mg_heap g)) \<and> distinct (mg_storage g) \<and> 0 < mg_next g"

definition mgr_inv :: "'d dbd_ops \<Rightarrow> ('d \<Rightarrow> bool) \<Rightarrow> ('d, 'p) manager \<Rightarrow> bool" where
  "mgr_inv ops ok g \<longleftrightarrow> ok (mg_dbd g) \<and> (\<exists>idx. op_read ops (mg_dbd g) = Some idx \<and> index_ok idx g)"

text \<open>The topology a name leads to.\<close>

definition topology_of :: "'d dbd_ops \<Rightarrow> ('d, 'p) manager \<Rightarrow> string \<Rightarrow> 'p module_topology option" where
  "topology_of ops g n =
     (case op_read ops (mg_dbd g) of None \<Rightarrow> None
      | Some idx \<Rightarrow> (case map_of idx n of None \<Rightarrow> None | Some p \<Rightarrow> map_of (mg_heap g) p))"

lemma storage_delete_loop_eq:
  "storage_delete_loop p st h = (removeAll p st, if p \<in> set st then (AList.delete p ^^ count_list st p) h else h)"
  by (induction st arbitrary: h) (auto simp: funpow_swap1)

lemma delete_funpow: "0 < k \<Longrightarrow> (AList.delete p ^^ k) h = AList.delete p h"
  by (induction k) (auto simp: AList.delete_idem, metis AList.delete_idem funpow_0 neq0_conv)

lemma storage_delete_eq:
  "storage_delete p g = g\<lparr>mg_storage := removeAll p (mg_storage g),
     mg_heap := (if p \<in> set (mg_storage g) then AList.delete p (mg_heap g) else mg_heap g)\<rparr>"
  by (simp add: storage_delete_def storage_delete_loop_eq delete_funpow count_list_0_iff split: if_splits)
     (metis count_list_0_iff delete_funpow neq0_conv)

lemma dbd_replace:
  assumes "dbd_laws ops ok" and "ok d" and "op_read ops d = Some idx" and "\<forall>q. map_of idx n = Some q \<longrightarrow> q \<noteq> 0"
  shows "\<exists>d'. op_modify ops (index_replace n p) {} d = (1, d', set_option (map_of idx n)) \<and> ok d' \<and>
    op_read ops d' = Some (AList.update n p idx)"
proof -
  have "index_replace n p idx {} = (1, AList.update n p idx, set_option (map_of idx n))"
    "index_replace n p idx (set_option (map_of idx n)) = (1, AList.update n p idx, set_option (map_of idx n))"
    using assms(4) by (auto simp: index_replace_def split: option.splits)
  then show ?thesis using assms(1-3) unfolding dbd_laws_def by (metis one_neq_zero)
qed

lemma dbd_remove:
  assumes "dbd_laws ops ok" and "ok d" and "op_read ops d = Some idx"
  shows "\<exists>d' m. op_modify ops (index_remove n) {} d = (m, d', set_option (map_of idx n)) \<and> ok d' \<and>
    (\<exists>idx'. op_read ops d' = Some idx' \<and> map_of idx' = (map_of idx)(n := None))"
proof (cases "map_of idx n")
  case None
  then have "index_remove n idx {} = (0, idx, {})" by (simp add: index_remove_def)
  then obtain d' where "op_modify ops (index_remove n) {} d = (0, d', {})" "ok d'" "op_read ops d' = Some idx"
    using assms unfolding dbd_laws_def by metis
  then show ?thesis using None by (auto simp: fun_eq_iff)
next
  case (Some q)
  then have "index_remove n idx {} = (1, AList.delete n idx, {q})"
    "index_remove n idx {q} = (1, AList.delete n idx, {q})" by (auto simp: index_remove_def)
  then obtain d' where "op_modify ops (index_remove n) {} d = (1, d', {q})" "ok d'" "op_read ops d' = Some (AList.delete n idx)"
    using assms unfolding dbd_laws_def by (metis one_neq_zero)
  then show ?thesis using Some by (auto simp: umap_simps)
qed

lemma index_inj:
  assumes "index_ok idx g" and "map_of idx n = Some p" and "map_of idx m = Some p"
  shows "n = m"
  using assms unfolding index_ok_def by (metis option.inject)

lemma mgr_inv_init:
  "dbd_laws ops ok \<Longrightarrow> ok d \<Longrightarrow> op_read ops d = Some [] \<Longrightarrow> mgr_inv ops ok (manager_init d reg)"
  by (simp add: mgr_inv_def index_ok_def manager_init_def)

lemma index_ok_frame:
  "index_ok idx g \<Longrightarrow> mg_heap g' = mg_heap g \<Longrightarrow> mg_storage g' = mg_storage g \<Longrightarrow> mg_next g' = mg_next g \<Longrightarrow> index_ok idx g'"
  by (simp add: index_ok_def)

lemma index_ok_cong: "index_ok idx g \<Longrightarrow> map_of idx' = map_of idx \<Longrightarrow> index_ok idx' g"
  by (simp add: index_ok_def)

lemma index_ok_insert:
  assumes ok: "index_ok idx g" and none: "map_of idx n = None" and idx': "map_of idx' = (map_of idx)(n \<mapsto> mg_next g)"
    and t: "mt_name t = n"
    and g': "map_of (mg_heap g') = (map_of (mg_heap g))(mg_next g \<mapsto> t)" "mg_storage g' = mg_storage g @ [mg_next g]"
      "mg_next g' = Suc (mg_next g)"
  shows "index_ok idx' g'"
proof -
  have fresh: "mg_next g \<notin> dom (map_of (mg_heap g))" using ok by (auto simp: index_ok_def)
  have "ran ((map_of idx)(n \<mapsto> mg_next g)) = insert (mg_next g) (ran (map_of idx))" using none by auto
  moreover have "map_of idx m = Some p \<Longrightarrow> p \<noteq> mg_next g" for m p
    using fresh ok by (force simp: index_ok_def dom_def)
  ultimately show ?thesis
    using ok fresh t unfolding index_ok_def idx' g' by (auto simp: less_Suc_eq)
qed

lemma index_ok_delete:
  assumes ok: "index_ok idx g" and some: "map_of idx n = Some q" and idx': "map_of idx' = (map_of idx)(n := None)"
    and g': "map_of (mg_heap g') = (map_of (mg_heap g))(q := None)" "mg_storage g' = removeAll q (mg_storage g)"
      "mg_next g' = mg_next g"
  shows "index_ok idx' g'"
proof -
  have other: "map_of idx m = Some q \<longleftrightarrow> m = n" for m using index_inj [OF ok some, of m] some by auto
  then have "v \<in> ran ((map_of idx)(n := None)) \<longleftrightarrow> v \<in> ran (map_of idx) - {q}" for v
    unfolding ran_def by (cases "v = q") (auto, metis option.inject)
  then have "ran ((map_of idx)(n := None)) = ran (map_of idx) - {q}" by blast
  then show ?thesis
    using ok other unfolding index_ok_def idx' g' by (auto simp: distinct_removeAll)
qed

lemma topology_of_eq:
  "op_read ops (mg_dbd g) = Some idx \<Longrightarrow>
     topology_of ops g n = (case map_of idx n of None \<Rightarrow> None | Some p \<Rightarrow> map_of (mg_heap g) p)"
  by (simp add: topology_of_def)

lemma remove_inv:
  assumes laws: "dbd_laws ops ok" and inv: "mgr_inv ops ok g" and r: "remove_topology ops n g = (r, g')"
  shows "(r = Done \<longleftrightarrow> (\<forall>t. topology_of ops g n = Some t \<longrightarrow> mt_reference_count t \<le> 0)) \<and> r \<in> {Done, Blocked} \<and>
    (r = Done \<longrightarrow> mgr_inv ops ok g') \<and> topology_of ops g' = (topology_of ops g)(n := None)"
proof -
  obtain idx where idx: "op_read ops (mg_dbd g) = Some idx" "index_ok idx g" and d: "ok (mg_dbd g)"
    using inv by (auto simp: mgr_inv_def)
  obtain d' m idx' where m: "op_modify ops (index_remove n) {} (mg_dbd g) = (m, d', set_option (map_of idx n))" "ok d'"
      "op_read ops d' = Some idx'" "map_of idx' = (map_of idx)(n := None)"
    using dbd_remove [OF laws d idx(1), of n] by blast
  show ?thesis
  proof (cases "map_of idx n")
    case None
    then have "r = Done" "g' = g\<lparr>mg_dbd := d'\<rparr>" using r m(1) by (auto simp: remove_topology_def)
    moreover have "map_of idx' = map_of idx" using None m(4) by auto
    moreover have "index_ok idx' (g\<lparr>mg_dbd := d'\<rparr>)"
      using idx(2) calculation(3) by (simp add: index_ok_def)
    ultimately show ?thesis
      using None idx m by (auto simp: mgr_inv_def topology_of_def fun_eq_iff split: option.splits)
  next
    case (Some q)
    obtain t where t: "map_of (mg_heap g) q = Some t" "q \<in> set (mg_storage g)"
      using idx(2) Some by (auto simp: index_ok_def ran_def) blast
    have told: "topology_of ops g n = Some t" using idx(1) Some t by (simp add: topology_of_def)
    have other: "map_of idx k = Some p \<Longrightarrow> k \<noteq> n \<Longrightarrow> p \<noteq> q" for k p using index_inj [OF idx(2) Some] by auto
    show ?thesis
    proof (cases "0 < mt_reference_count t")
      case True
      then have "r = Blocked" "g' = g\<lparr>mg_dbd := d'\<rparr>" using r m(1) Some t by (auto simp: remove_topology_def)
      then show ?thesis using True told idx m by (auto simp: topology_of_def fun_eq_iff split: option.splits)
    next
      case False
      then have g': "r = Done" "g' = storage_delete q (g\<lparr>mg_dbd := d'\<rparr>)"
        using r m(1) Some t by (auto simp: remove_topology_def)
      have "index_ok idx' g'"
        using idx(2) Some m(4) by (rule index_ok_delete) (use t in \<open>auto simp: g' storage_delete_eq umap_simps\<close>)
      moreover have "topology_of ops g' = (topology_of ops g)(n := None)"
        using idx m(3,4) t other by (auto simp: g' storage_delete_eq topology_of_def umap_simps fun_eq_iff split: option.splits)
      ultimately show ?thesis
        using g'(1) False told m by (auto simp: mgr_inv_def g'(2) storage_delete_eq)
    qed
  qed
qed

lemma publish_inv:
  assumes laws: "dbd_laws ops ok" and inv: "mgr_inv ops ok g" and t: "mt_name t = n"
    and r: "publish_topology ops n t g = (r, g')"
  shows "(r = Done \<longleftrightarrow> (\<forall>u. topology_of ops g n = Some u \<longrightarrow> mt_reference_count u \<le> 0)) \<and> r \<in> {Done, Blocked} \<and>
    (r = Done \<longrightarrow> mgr_inv ops ok g') \<and> topology_of ops g' = (topology_of ops g)(n \<mapsto> t)"
proof -
  let ?p = "mg_next g"
  obtain idx where idx: "op_read ops (mg_dbd g) = Some idx" "index_ok idx g" and d: "ok (mg_dbd g)"
    using inv by (auto simp: mgr_inv_def)
  have live: "map_of idx k = Some p \<Longrightarrow> p \<noteq> 0 \<and> p \<noteq> ?p" for k p
    using idx(2) unfolding index_ok_def by (metis domI less_irrefl)
  then obtain d' where m: "op_modify ops (index_replace n ?p) {} (mg_dbd g) = (1, d', set_option (map_of idx n))" "ok d'"
      "op_read ops d' = Some (AList.update n ?p idx)"
    using dbd_replace [OF laws d idx(1), of n ?p] by blast
  let ?g2 = "storage_add ?p (g\<lparr>mg_heap := (?p, t) # mg_heap g, mg_next := Suc ?p, mg_dbd := d'\<rparr>)"
  have pub: "publish_topology ops n t g =
    (case wait_and_delete (sorted_list_of_set (set_option (map_of idx n))) ?g2 of (ended, g3) \<Rightarrow> (if ended then Done else Blocked, g3))"
    using m(1) by (simp add: publish_topology_def Let_def)
  have top2: "topology_of ops ?g2 = (topology_of ops g)(n \<mapsto> t)"
    using idx m(3) live by (auto simp: topology_of_def storage_add_def umap_simps fun_eq_iff split: option.splits)
  show ?thesis
  proof (cases "map_of idx n")
    case None
    then have g': "r = Done" "g' = ?g2" using r pub by auto
    have "index_ok (AList.update n ?p idx) ?g2"
      using idx(2) None by (rule index_ok_insert) (auto simp: umap_simps storage_add_def t)
    then show ?thesis
      using g' None idx m top2 by (auto simp: mgr_inv_def storage_add_def topology_of_def split: option.splits)
  next
    case (Some q)
    obtain u where u: "map_of (mg_heap g) q = Some u" "q \<in> set (mg_storage g)"
      using idx(2) Some by (auto simp: index_ok_def ran_def) blast
    have old: "topology_of ops g n = Some u" using idx(1) Some u by (simp add: topology_of_def)
    have q: "q \<noteq> ?p" using live [OF Some] by simp
    have w: "(r, g') = (if 0 < mt_reference_count u then (Blocked, ?g2) else (Done, storage_delete q ?g2))"
      using r pub Some u q by (auto simp: storage_add_def)
    show ?thesis
    proof (cases "0 < mt_reference_count u")
      case True
      then show ?thesis using w old top2 by auto
    next
      case False
      then have g': "r = Done" "g' = storage_delete q ?g2" using w by auto
      let ?h = "g\<lparr>mg_heap := AList.delete q (mg_heap g), mg_storage := removeAll q (mg_storage g)\<rparr>"
      have h: "index_ok (AList.delete n idx) ?h"
        using idx(2) Some by (rule index_ok_delete) (auto simp: umap_simps)
      have "index_ok (AList.update n ?p idx) g'"
        using h by (rule index_ok_insert [where n = n and t = t])
          (use q u in \<open>auto simp: g' umap_simps storage_delete_eq storage_add_def t fun_eq_iff\<close>)
      moreover have "topology_of ops g' = topology_of ops ?g2"
      proof
        fix k
        have "map_of (AList.update n ?p idx) k = Some p \<Longrightarrow> p \<noteq> q" for p
          using index_inj [OF idx(2) Some, of k] q by (auto simp: umap_simps split: if_splits)
        then show "topology_of ops g' k = topology_of ops ?g2 k"
          using m(3) by (auto simp: g'(2) storage_delete_eq storage_add_def topology_of_def map_of_delete split: option.splits)
      qed
      ultimately show ?thesis
        using g' False old m top2 by (auto simp: mgr_inv_def storage_delete_eq storage_add_def)
    qed
  qed
qed

lemma monitor_frame:
  assumes "emplace_topology_monitor env n g = (b, g1)"
  shows "mg_dbd g1 = mg_dbd g \<and> mg_heap g1 = mg_heap g \<and> mg_next g1 = mg_next g \<and> mg_storage g1 = mg_storage g \<and>
    mg_app_initialized g1 = mg_app_initialized g \<and> mg_global_modules g1 = mg_global_modules g \<and>
    mg_app_registry g1 = mg_app_registry g"
  using assms by (auto simp: emplace_topology_monitor_def Let_def split: if_splits)

lemma mgr_inv_frame:
  assumes "mgr_inv ops ok g" and "mg_dbd g1 = mg_dbd g" "mg_heap g1 = mg_heap g" "mg_next g1 = mg_next g" "mg_storage g1 = mg_storage g"
  shows "mgr_inv ops ok g1"
  using assms by (simp add: mgr_inv_def index_ok_def)

lemma topology_of_frame: "mg_dbd g1 = mg_dbd g \<Longrightarrow> mg_heap g1 = mg_heap g \<Longrightarrow> topology_of ops g1 = topology_of ops g"
  by (simp add: topology_of_def fun_eq_iff split: option.splits)

lemma plan_topology_error: "plan_topology env reg globals packed = Inl e \<Longrightarrow> e \<noteq> MonitorFailed \<and> e \<noteq> PoolFailed"
proof -
  have 1: "check_redefinitions globals ms = Inl e \<Longrightarrow> e \<noteq> MonitorFailed \<and> e \<noteq> PoolFailed" for ms e
    by (auto simp: check_redefinitions_def split: option.splits)
  have 2: "local_factories ms fs = Inl e \<Longrightarrow> e \<noteq> MonitorFailed \<and> e \<noteq> PoolFailed" for ms fs e
    by (induction ms fs rule: local_factories.induct) (auto split: if_splits)
  have 3: "check_elements fs es seen = Inl e \<Longrightarrow> e \<noteq> MonitorFailed \<and> e \<noteq> PoolFailed" for fs es seen e
    by (induction fs es seen rule: check_elements.induct) (auto simp: Let_def split: if_splits)
  have 4: "check_dependencies seen es = Inl e \<Longrightarrow> e \<noteq> MonitorFailed \<and> e \<noteq> PoolFailed" for seen es e
    by (auto simp: check_dependencies_def split: option.splits)
  assume "plan_topology env reg globals packed = Inl e"
  then show ?thesis
    by (auto simp: plan_topology_def Let_def split: sum.splits prod.splits if_splits dest!: 1 2 3 4)
qed

lemma publish_not_failed: "fst (publish_topology ops n t g) \<in> {Done, Blocked}"
  by (auto simp: publish_topology_def Let_def split: prod.splits)

lemma add_topology_cases:
  assumes "add_topology ops env packed g = (r, g')"
  obtains (rejected) e where "plan_topology env (mg_app_registry g) (mg_global_modules g) packed = Inl e" "r = Failed e" "g' = g"
    | (late) t b where "plan_topology env (mg_app_registry g) (mg_global_modules g) packed = Inr t"
        "emplace_topology_monitor env (mt_name t) g = (b, g')" "r = Failed MonitorFailed \<or> r = Failed PoolFailed"
    | (published) t g1 pool where "plan_topology env (mg_app_registry g) (mg_global_modules g) packed = Inr t"
        "emplace_topology_monitor env (mt_name t) g = (True, g1)"
        "publish_topology ops (mt_name t) (t\<lparr>mt_pool := Some pool\<rparr>) g1 = (r, g')"
  using assms unfolding add_topology_def
  by (auto split: sum.splits prod.splits option.splits bool.splits if_splits)

lemma contain_iff: "mgr_inv ops ok g \<Longrightarrow> contain ops g n \<longleftrightarrow> topology_of ops g n \<noteq> None"
  unfolding mgr_inv_def index_ok_def contain_def index_seek_def topology_of_def
  by (auto split: option.splits) blast

lemma copy_desc_eq: "topology_of ops g n = Some t \<Longrightarrow> copy_topology_desc ops g n out = (True, mt_desc t)"
  by (auto simp: topology_of_def copy_topology_desc_def deep_copy_topology_desc_def split: option.splits)

lemma copy_params_eq: "topology_of ops g n = Some t \<Longrightarrow> copy_topology_params ops g n out = (True, mt_custom_params t)"
  by (auto simp: topology_of_def copy_topology_params_def deep_copy_topology_params_def split: option.splits)

lemma num_topologies_0: "mgr_inv ops ok g \<Longrightarrow> num_topologies g = 0 \<longleftrightarrow> topology_of ops g = Map.empty"
proof -
  assume "mgr_inv ops ok g"
  then obtain idx where "op_read ops (mg_dbd g) = Some idx" "index_ok idx g" by (auto simp: mgr_inv_def)
  then have "topology_of ops g = Map.empty \<longleftrightarrow> ran (map_of idx) = {}" "set (mg_storage g) = ran (map_of idx)"
    by (auto simp: topology_of_def index_ok_def fun_eq_iff ran_def split: option.splits)
  then show ?thesis by (auto simp: num_topologies_def)
qed

lemma add_topology_failure_inv:
  assumes "dbd_laws ops ok" and "mgr_inv ops ok g" and "add_topology ops env packed g = (Failed e, g')"
  shows "topology_of ops g' = topology_of ops g \<and> mgr_inv ops ok g'"
  using assms(3)
proof (cases rule: add_topology_cases)
  case (rejected e)
  then show ?thesis using assms(2) by simp
next
  case (late t b)
  then show ?thesis
    using monitor_frame [OF late(2)] topology_of_frame [of g' g ops] mgr_inv_frame [OF assms(2), of g'] by simp
next
  case (published t g1 pool)
  then show ?thesis using publish_not_failed [of ops "mt_name t" "t\<lparr>mt_pool := Some pool\<rparr>" g1] by simp
qed

lemma add_topology_done_inv:
  assumes laws: "dbd_laws ops ok" and inv: "mgr_inv ops ok g" and r: "add_topology ops env packed g = (Done, g')"
  shows "mgr_inv ops ok g' \<and>
    (\<exists>t. topology_of ops g' = (topology_of ops g)(rt_name (tc_topology packed) \<mapsto> t) \<and>
       desc_ok (mg_global_modules g) packed (mt_desc t) \<and> mt_pool t \<noteq> None \<and> mt_reference_count t = 0 \<and>
       contain ops g' (rt_name (tc_topology packed)) \<and>
       copy_topology_desc ops g' (rt_name (tc_topology packed)) out = (True, mt_desc t) \<and>
       (\<exists>ps. copy_topology_params ops g' (rt_name (tc_topology packed)) out2 = (True, ps) \<and>
             map_of ps = map_of (rev (rt_custom_params (tc_topology packed)))))"
  using r
proof (cases rule: add_topology_cases)
  case (published t g1 pool)
  let ?t = "t\<lparr>mt_pool := Some pool\<rparr>"
  note d = plan_topology_desc [OF published(1)] and f = monitor_frame [OF published(2)]
  have "mgr_inv ops ok g1" using mgr_inv_frame [OF inv, of g1] f by simp
  from publish_inv [OF laws this _ published(3)]
  have p: "mgr_inv ops ok g'" "topology_of ops g' = (topology_of ops g1)(mt_name t \<mapsto> ?t)" by auto
  moreover have "topology_of ops g1 = topology_of ops g" using topology_of_frame [of g1 g] f by simp
  moreover have n: "topology_of ops g' (rt_name (tc_topology packed)) = Some ?t" using p(2) d by simp
  ultimately show ?thesis
    using d contain_iff [OF p(1)] copy_desc_eq [OF n] copy_params_eq [OF n] by (intro conjI exI [of _ ?t]) auto
qed auto

section \<open>A concrete instance for the witnesses\<close>

text \<open>Two instances of the index: \<open>Modify\<close> changes the second, swaps, then changes the other.\<close>

definition pair_ops :: "(index \<times> index) dbd_ops" where
  "pair_ops = \<lparr>op_read = (\<lambda>d. Some (fst d)),
     op_modify = (\<lambda>fn c d. case fn (snd d) c of (n, x, c1) \<Rightarrow>
       if n = 0 then (0, (fst d, x), c1)
       else case fn (fst d) c1 of (m, y, c2) \<Rightarrow> (m, (x, y), c2))\<rparr>"

definition pair_ok :: "index \<times> index \<Rightarrow> bool" where
  "pair_ok d \<longleftrightarrow> fst d = snd d"

lemma pair_laws: "dbd_laws pair_ops pair_ok"
  by (auto simp: dbd_laws_def pair_ops_def pair_ok_def)

definition demo_env :: "nat sw_env" where
  "demo_env = \<lparr>enable_parallel_module_scheduling = False, enable_check_allow_parallel_field = False, red_enable_tr2 = True,
     expose_monitor = (\<lambda>_. 0), new_pool = (\<lambda>_ _. Some 0), pool_test = (\<lambda>p. (True, p)), pool_reserve = Suc\<rparr>"

definition demo_config :: topology_config where
  "demo_config = \<lparr>tc_module = [\<lparr>pm_name = ''m'', pm_factory_name = ''echo_module'', pm_custom_params = [(''k'', ''v'')]\<rparr>],
     tc_topology = \<lparr>rt_name = ''t'',
       rt_element = [\<lparr>el_name = ''m'', el_dependency = [], el_allow_parallel = False, el_custom_params = []\<rparr>],
       rt_custom_params = []\<rparr>\<rparr>"

definition demo_manager :: "(index \<times> index, nat) manager" where
  "demo_manager = manager_init ([], []) empty_factory_registry"

definition demo_topology_obj :: "nat module_topology" where
  "demo_topology_obj = \<lparr>mt_name = ''t'',
     mt_desc = [\<lparr>re_name = ''m'', re_factory_name = ''echo_module'', re_dependencies = [], re_module_params = [(''k'', ''v'')]\<rparr>],
     mt_parallel_modules = {}, mt_custom_params = [], mt_pool = Some 0, mt_reference_count = 0\<rparr>"

definition demo_manager2 :: "(index \<times> index, nat) manager" where
  "demo_manager2 = \<lparr>mg_app_initialized = False, mg_app_registry = empty_factory_registry, mg_global_modules = [],
     mg_dbd = ([(''t'', 1)], [(''t'', 1)]), mg_heap = [(1, demo_topology_obj)], mg_next = 2, mg_storage = [1],
     mg_monitors = [(''t'', True)]\<rparr>"

lemma demo_manager_inv: "mgr_inv pair_ops pair_ok demo_manager" "mgr_inv pair_ops pair_ok demo_manager2"
proof -
  show "mgr_inv pair_ops pair_ok demo_manager"
    unfolding demo_manager_def by (rule mgr_inv_init [OF pair_laws]) (simp_all add: pair_ok_def pair_ops_def)
  show "mgr_inv pair_ops pair_ok demo_manager2"
    by (auto simp: mgr_inv_def demo_manager2_def pair_ops_def pair_ok_def index_ok_def demo_topology_obj_def)
qed

section \<open>Theorems\<close>

text \<open>
  C5: Which configurations \<open>add_topology\<close> turns down: exactly those that redefine a global module differently, define a
  module twice, have no element, use an undefined or repeated element, name a dependency outside the topology,
  or contain a dependency cycle.  The remaining errors come from the monitor or the data pool.
\<close>

theorem add_topology_rejects:
  "(\<exists>e. fst (add_topology ops env packed g) = Failed e \<and> e \<noteq> MonitorFailed \<and> e \<noteq> PoolFailed) \<longleftrightarrow>
     \<not> config_ok (mg_global_modules g) packed"
proof (rule add_topology_cases [of ops env packed g "fst (add_topology ops env packed g)" "snd (add_topology ops env packed g)"])
  fix e assume "plan_topology env (mg_app_registry g) (mg_global_modules g) packed = Inl e" "fst (add_topology ops env packed g) = Failed e"
  then show ?thesis
    using plan_topology_iff [of env "mg_app_registry g" "mg_global_modules g" packed] plan_topology_error by fastforce
next
  fix t b assume "plan_topology env (mg_app_registry g) (mg_global_modules g) packed = Inr t"
    "fst (add_topology ops env packed g) = Failed MonitorFailed \<or> fst (add_topology ops env packed g) = Failed PoolFailed"
  then show ?thesis
    using plan_topology_iff [of env "mg_app_registry g" "mg_global_modules g" packed] by auto
next
  fix t g1 pool assume "plan_topology env (mg_app_registry g) (mg_global_modules g) packed = Inr t"
    "publish_topology ops (mt_name t) (t\<lparr>mt_pool := Some pool\<rparr>) g1 = (fst (add_topology ops env packed g), snd (add_topology ops env packed g))"
  then show ?thesis
    using plan_topology_iff [of env "mg_app_registry g" "mg_global_modules g" packed]
      publish_not_failed [of ops "mt_name t" "t\<lparr>mt_pool := Some pool\<rparr>" g1] by auto
qed simp

text \<open>
  C6: A failed \<open>add_topology\<close> leaves every topology as it was and keeps the manager's invariant.
\<close>

theorem add_topology_failure:
  assumes "dbd_laws ops ok" and "mgr_inv ops ok g" and "add_topology ops env packed g = (Failed e, g')"
  shows "topology_of ops g' = topology_of ops g \<and> mgr_inv ops ok g'"
  using assms by (rule add_topology_failure_inv)

theorem add_topology_failure_witness:
  "fst (add_topology pair_ops demo_env (demo_config\<lparr>tc_module := []\<rparr>) demo_manager2) = Failed (ElementNotDefined ''m'') \<and>
   topology_of pair_ops (snd (add_topology pair_ops demo_env (demo_config\<lparr>tc_module := []\<rparr>) demo_manager2)) ''t'' = Some demo_topology_obj"
proof -
  let ?r = "add_topology pair_ops demo_env (demo_config\<lparr>tc_module := []\<rparr>) demo_manager2"
  have f: "fst ?r = Failed (ElementNotDefined ''m'')" by code_simp
  then have "?r = (Failed (ElementNotDefined ''m''), snd ?r)" by (simp add: prod_eq_iff)
  from add_topology_failure [OF pair_laws demo_manager_inv(2) this]
  have "topology_of pair_ops (snd ?r) = topology_of pair_ops demo_manager2" by simp
  moreover have "topology_of pair_ops demo_manager2 ''t'' = Some demo_topology_obj"
    by (simp add: topology_of_def pair_ops_def demo_manager2_def)
  ultimately show ?thesis using f by simp
qed

text \<open>
  C4: A successful \<open>add_topology\<close> makes the new topology, and nothing else, visible: the invariant holds, every
  other name leads to the same topology as before, and the queries return the description of the configuration
  in dependency order with factories and parameters resolved.  The topology it replaced is
  gone from the heap and from the storage.
\<close>

theorem add_topology_success:
  assumes laws: "dbd_laws ops ok" and inv: "mgr_inv ops ok g" and r: "add_topology ops env packed g = (Done, g')"
  shows "mgr_inv ops ok g' \<and>
    (\<exists>t. topology_of ops g' = (topology_of ops g)(rt_name (tc_topology packed) \<mapsto> t) \<and>
       desc_ok (mg_global_modules g) packed (mt_desc t) \<and> mt_pool t \<noteq> None \<and> mt_reference_count t = 0 \<and>
       contain ops g' (rt_name (tc_topology packed)) \<and>
       copy_topology_desc ops g' (rt_name (tc_topology packed)) out = (True, mt_desc t) \<and>
       (\<exists>ps. copy_topology_params ops g' (rt_name (tc_topology packed)) out2 = (True, ps) \<and>
             map_of ps = map_of (rev (rt_custom_params (tc_topology packed)))))"
  using assms by (rule add_topology_done_inv)

theorem add_topology_success_witness:
  "fst (add_topology pair_ops demo_env demo_config demo_manager) = Done \<and>
   mgr_inv pair_ops pair_ok (snd (add_topology pair_ops demo_env demo_config demo_manager)) \<and>
   contain pair_ops (snd (add_topology pair_ops demo_env demo_config demo_manager)) ''t''"
proof -
  let ?r = "add_topology pair_ops demo_env demo_config demo_manager"
  have f: "fst ?r = Done" by code_simp
  then have "?r = (Done, snd ?r)" by (simp add: prod_eq_iff)
  from add_topology_success [OF pair_laws demo_manager_inv(1) this] f show ?thesis
    by (auto simp: demo_config_def)
qed

text \<open>
  C7: \<open>remove_topology\<close> returns exactly when the topology is not in use; then the name is gone, every other
  name is untouched and the invariant holds.
\<close>

theorem remove_topology_effect:
  assumes "dbd_laws ops ok" and "mgr_inv ops ok g" and "remove_topology ops n g = (r, g')"
  shows "(r = Done \<longleftrightarrow> (\<forall>t. topology_of ops g n = Some t \<longrightarrow> mt_reference_count t \<le> 0)) \<and> r \<in> {Done, Blocked} \<and>
    (r = Done \<longrightarrow> mgr_inv ops ok g') \<and> topology_of ops g' = (topology_of ops g)(n := None)"
  using assms by (rule remove_inv)

theorem remove_topology_effect_witness:
  "fst (remove_topology pair_ops ''t'' demo_manager2) = Done \<and>
   topology_of pair_ops (snd (remove_topology pair_ops ''t'' demo_manager2)) ''t'' = None \<and>
   fst (remove_topology pair_ops ''t'' (increase_reference 1 demo_manager2)) = Blocked"
proof -
  let ?r = "remove_topology pair_ops ''t'' demo_manager2"
  have "fst ?r = Done" "fst (remove_topology pair_ops ''t'' (increase_reference 1 demo_manager2)) = Blocked" by code_simp+
  moreover have "?r = (fst ?r, snd ?r)" by simp
  ultimately show ?thesis
    using remove_topology_effect [OF pair_laws demo_manager_inv(2) \<open>?r = (fst ?r, snd ?r)\<close>] by simp
qed

text \<open>
  \<open>clear\<close> removes nothing: with its call of \<open>Modify\<close> commented out it returns with every topology in place,
  and its final assertion fails whenever there is one.
\<close>

theorem clear_keeps_topologies:
  assumes "dbd_laws ops ok" and "mgr_inv ops ok g" and "topology_of ops g n = Some t"
  shows "manager_clear g = (Done, False, g)"
proof -
  have "topology_of ops g \<noteq> Map.empty" using assms(3) by auto
  then show ?thesis using num_topologies_0 [OF assms(2)] by (simp add: manager_clear_def)
qed

theorem clear_keeps_topologies_witness:
  "topology_of pair_ops demo_manager2 ''t'' = Some demo_topology_obj \<and> manager_clear demo_manager2 = (Done, False, demo_manager2)"
proof -
  have t: "topology_of pair_ops demo_manager2 ''t'' = Some demo_topology_obj"
    by (simp add: topology_of_def pair_ops_def demo_manager2_def)
  from clear_keeps_topologies [OF pair_laws demo_manager_inv(2) t] t show ?thesis by simp
qed

text \<open>
  \<open>add_module_if_not_exist\<close> succeeds exactly when the module is already defined without parameters by the same factory,
  or when the application is not initialised yet, the factory is registered and the name is free; after a success
  the module is defined, and repeating the call changes nothing.
\<close>

theorem add_module_if_not_exist_idempotent:
  assumes "add_module_if_not_exist name factory g = (b, g')"
  shows "(b \<longleftrightarrow> has_exactly_global_module g name factory [] \<or>
            \<not> mg_app_initialized g \<and> contain_factory (mg_app_registry g) factory \<and> map_of (mg_global_modules g) name = None) \<and>
         (b \<longrightarrow> has_exactly_global_module g' name factory [] \<and> add_module_if_not_exist name factory g' = (True, g')) \<and>
         (\<not> b \<longrightarrow> g' = g)"
  using assms
  by (auto simp: add_module_if_not_exist_def add_module_def has_exactly_global_module_def umap_emplace_def
      umap_of_pairs_def umap_eq_def map_add_def split: if_splits option.splits)

theorem add_module_if_not_exist_idempotent_witness:
  "\<not> fst (add_module_if_not_exist ''m'' ''f'' demo_manager) \<and>
   fst (add_module_if_not_exist ''m'' ''f'' (demo_manager\<lparr>mg_global_modules := [(''m'', \<lparr>pm_name = ''m'', pm_factory_name = ''f'', pm_custom_params = []\<rparr>)]\<rparr>))"
proof -
  let ?g = "demo_manager\<lparr>mg_global_modules := [(''m'', \<lparr>pm_name = ''m'', pm_factory_name = ''f'', pm_custom_params = []\<rparr>)]\<rparr>"
  have 1: "fst (add_module_if_not_exist ''m'' ''f'' g) \<longleftrightarrow> has_exactly_global_module g ''m'' ''f'' [] \<or>
      \<not> mg_app_initialized g \<and> contain_factory (mg_app_registry g) ''f'' \<and> map_of (mg_global_modules g) ''m'' = None"
    for g :: "(index \<times> index, nat) manager"
    using add_module_if_not_exist_idempotent [of "''m''" "''f''" g] by (metis prod.collapse)
  have "\<not> has_exactly_global_module demo_manager ''m'' ''f'' []" "\<not> contain_factory (mg_app_registry demo_manager) ''f''"
    "has_exactly_global_module ?g ''m'' ''f'' []" by code_simp+
  then show ?thesis using 1 [of demo_manager] 1 [of ?g] by simp
qed

end
