(* ===== verification/DoublyBuffered.thy ===== *)
theory DoublyBuffered
  imports Prelude
begin

text \<open>
  \<open>double_buffer/brpc_double.cpp\<close>: \<open>DoublyBufferedData\<close> with its thread-local wrappers, and
  \<open>TestDoubleBuffer\<close>, the client of that file.

  The first part gives every operation as a function on the state of the object.  A wrapper is
  named by a number (its address), \<open>db_tls\<close> is what \<open>pthread_getspecific(_wrapper_key)\<close> returns in
  each thread, \<open>db_locked\<close> the wrappers whose mutex is held.  Locking a held mutex does not return,
  which the functions report as \<open>None\<close> or \<open>ReadBlocked\<close>.

  The second part splits the same operations at their synchronisation points and interleaves them:
  \<open>dbd_step\<close> is the step relation of one modifier (the holder of \<open>_modify_mutex\<close>) and any
  number of reader threads.  A call of the user function is a phase of its own, so that a
  reader may run while it is in progress.
\<close>

section \<open>State\<close>

record 't dbd =
  db_data0 :: 't
  db_data1 :: 't
  db_index :: nat
  db_created_key :: bool
  db_tls :: "(nat, nat) umap"
  db_wrappers :: "nat list"
  db_locked :: "nat list"
  db_next :: nat

text \<open>\<open>!i\<close> on an index of the two-element array.\<close>

definition bang :: "nat \<Rightarrow> nat" where
  "bang i = (if i = 0 then 1 else 0)"

definition db_buf :: "nat \<Rightarrow> 't dbd \<Rightarrow> 't" where
  "db_buf i s = (if i = 0 then db_data0 s else db_data1 s)"

definition db_set_buf :: "nat \<Rightarrow> 't \<Rightarrow> 't dbd \<Rightarrow> 't dbd" where
  "db_set_buf i v s = (if i = 0 then s\<lparr>db_data0 := v\<rparr> else s\<lparr>db_data1 := v\<rparr>)"

definition dbd_construct :: "'t \<Rightarrow> int \<Rightarrow> 't dbd" where
  "dbd_construct init rc =
     \<lparr>db_data0 = init, db_data1 = init, db_index = 0, db_created_key = (rc = 0),
      db_tls = [], db_wrappers = [], db_locked = [], db_next = 1\<rparr>"

section \<open>Wrappers\<close>

definition add_wrapper :: "bool \<Rightarrow> bool \<Rightarrow> 't dbd \<Rightarrow> nat option \<times> 't dbd" where
  "add_wrapper alloc_ok push_ok s =
     (if \<not> alloc_ok then (None, s)
      else let w = db_next s; s1 = s\<lparr>db_next := Suc w\<rparr> in
        if push_ok then (Some w, s1\<lparr>db_wrappers := db_wrappers s1 @ [w]\<rparr>) else (None, s1))"

text \<open>The loop of \<open>RemoveWrapper\<close>: the first match is overwritten by the last element.\<close>

function remove_wrapper_from :: "nat \<Rightarrow> nat list \<Rightarrow> nat \<Rightarrow> nat list" where
  "remove_wrapper_from i ws w =
     (if i < length ws
      then if ws ! i = w then butlast (ws[i := last ws]) else remove_wrapper_from (Suc i) ws w
      else ws)"
  by pat_completeness auto

termination
  by (relation "measure (\<lambda>(i, ws, w). length ws - i)") auto

declare remove_wrapper_from.simps [simp del]

definition remove_wrapper :: "nat option \<Rightarrow> 't dbd \<Rightarrow> 't dbd" where
  "remove_wrapper w s =
     (case w of None \<Rightarrow> s | Some w \<Rightarrow> s\<lparr>db_wrappers := remove_wrapper_from 0 (db_wrappers s) w\<rparr>)"

definition dbd_destroy :: "'t dbd \<Rightarrow> 't dbd" where
  "dbd_destroy s =
     (let s1 = (if db_created_key s then s\<lparr>db_tls := []\<rparr> else s) in s1\<lparr>db_wrappers := []\<rparr>)"

definition begin_read :: "nat \<Rightarrow> 't dbd \<Rightarrow> 't dbd option" where
  "begin_read w s = (if w \<in> set (db_locked s) then None else Some (s\<lparr>db_locked := w # db_locked s\<rparr>))"

definition end_read :: "nat \<Rightarrow> 't dbd \<Rightarrow> 't dbd" where
  "end_read w s = s\<lparr>db_locked := removeAll w (db_locked s)\<rparr>"

definition wait_read_done :: "nat \<Rightarrow> 't dbd \<Rightarrow> bool" where
  "wait_read_done w s \<longleftrightarrow> w \<notin> set (db_locked s)"

section \<open>Read\<close>

datatype read_result = ReadFailed | ReadBlocked | ReadPtr nat nat

text \<open>\<open>ReadPtr i w\<close>: the scoped pointer refers to \<open>_data + i\<close> and will unlock wrapper \<open>w\<close>.\<close>

definition locked_read :: "nat \<Rightarrow> 't dbd \<Rightarrow> read_result \<times> 't dbd" where
  "locked_read w s =
     (case begin_read w s of None \<Rightarrow> (ReadBlocked, s) | Some s1 \<Rightarrow> (ReadPtr (db_index s1) w, s1))"

definition dbd_read :: "bool \<Rightarrow> bool \<Rightarrow> int \<Rightarrow> nat \<Rightarrow> 't dbd \<Rightarrow> read_result \<times> 't dbd" where
  "dbd_read alloc_ok push_ok set_rc tid s =
     (if \<not> db_created_key s then (ReadFailed, s)
      else case map_of (db_tls s) tid of
        Some w \<Rightarrow> locked_read w s
      | None \<Rightarrow>
          (case add_wrapper alloc_ok push_ok s of
             (None, s1) \<Rightarrow> (ReadFailed, s1)
           | (Some w, s1) \<Rightarrow>
               if set_rc = 0 then locked_read w (s1\<lparr>db_tls := AList.update tid w (db_tls s1)\<rparr>)
               else (ReadFailed, s1)))"

definition scoped_ptr_destroy :: "read_result \<Rightarrow> 't dbd \<Rightarrow> 't dbd" where
  "scoped_ptr_destroy p s = (case p of ReadPtr i w \<Rightarrow> end_read w s | _ \<Rightarrow> s)"

section \<open>Modify\<close>

text \<open>
  The user function receives the object and the index of the instance it may change, because the
  closures \<open>WithFG0\<close>, \<open>WithFG1\<close>, \<open>WithFG2\<close> also read the other instance; it returns the
  \<open>size_t\<close> result and the new contents.
\<close>

definition modify_with :: "('t dbd \<Rightarrow> nat \<Rightarrow> nat \<times> 't) \<Rightarrow> 't dbd \<Rightarrow> (nat \<times> 't dbd) option" where
  "modify_with fn s =
     (let bg_index = bang (db_index s);
          (ret, v) = fn s bg_index;
          s1 = db_set_buf bg_index v s
      in if ret \<noteq> 0 then Some (0, s1)
         else
           let s2 = s1\<lparr>db_index := bg_index\<rparr>;
               bg_index = bang bg_index
           in if list_all (\<lambda>w. wait_read_done w s2) (db_wrappers s2)
              then let (ret2, v2) = fn s2 bg_index in Some (ret2, db_set_buf bg_index v2 s2)
              else None)"

definition dbd_modify :: "('t \<Rightarrow> nat \<times> 't) \<Rightarrow> 't dbd \<Rightarrow> (nat \<times> 't dbd) option" where
  "dbd_modify fn = modify_with (\<lambda>s i. fn (db_buf i s))"

definition closure1 :: "('t \<Rightarrow> 'a \<Rightarrow> nat \<times> 't) \<Rightarrow> 'a \<Rightarrow> 't \<Rightarrow> nat \<times> 't" where
  "closure1 fn arg1 bg = fn bg arg1"

definition closure2 :: "('t \<Rightarrow> 'a \<Rightarrow> 'b \<Rightarrow> nat \<times> 't) \<Rightarrow> 'a \<Rightarrow> 'b \<Rightarrow> 't \<Rightarrow> nat \<times> 't" where
  "closure2 fn arg1 arg2 bg = fn bg arg1 arg2"

definition dbd_modify1 :: "('t \<Rightarrow> 'a \<Rightarrow> nat \<times> 't) \<Rightarrow> 'a \<Rightarrow> 't dbd \<Rightarrow> (nat \<times> 't dbd) option" where
  "dbd_modify1 fn arg1 = dbd_modify (closure1 fn arg1)"

definition dbd_modify2 :: "('t \<Rightarrow> 'a \<Rightarrow> 'b \<Rightarrow> nat \<times> 't) \<Rightarrow> 'a \<Rightarrow> 'b \<Rightarrow> 't dbd \<Rightarrow> (nat \<times> 't dbd) option" where
  "dbd_modify2 fn arg1 arg2 = dbd_modify (closure2 fn arg1 arg2)"

text \<open>\<open>_data[&bg == _data]\<close>: instance 1 when the background is instance 0, else instance 0.\<close>

definition with_fg0 :: "('t \<Rightarrow> 't \<Rightarrow> nat \<times> 't) \<Rightarrow> 't dbd \<Rightarrow> nat \<Rightarrow> nat \<times> 't" where
  "with_fg0 fn s i = fn (db_buf i s) (db_buf (if i = 0 then 1 else 0) s)"

definition with_fg1 :: "('t \<Rightarrow> 't \<Rightarrow> 'a \<Rightarrow> nat \<times> 't) \<Rightarrow> 'a \<Rightarrow> 't dbd \<Rightarrow> nat \<Rightarrow> nat \<times> 't" where
  "with_fg1 fn arg1 s i = fn (db_buf i s) (db_buf (if i = 0 then 1 else 0) s) arg1"

definition with_fg2 :: "('t \<Rightarrow> 't \<Rightarrow> 'a \<Rightarrow> 'b \<Rightarrow> nat \<times> 't) \<Rightarrow> 'a \<Rightarrow> 'b \<Rightarrow> 't dbd \<Rightarrow> nat \<Rightarrow> nat \<times> 't" where
  "with_fg2 fn arg1 arg2 s i = fn (db_buf i s) (db_buf (if i = 0 then 1 else 0) s) arg1 arg2"

definition modify_with_foreground :: "('t \<Rightarrow> 't \<Rightarrow> nat \<times> 't) \<Rightarrow> 't dbd \<Rightarrow> (nat \<times> 't dbd) option" where
  "modify_with_foreground fn = modify_with (with_fg0 fn)"

definition modify_with_foreground1 ::
  "('t \<Rightarrow> 't \<Rightarrow> 'a \<Rightarrow> nat \<times> 't) \<Rightarrow> 'a \<Rightarrow> 't dbd \<Rightarrow> (nat \<times> 't dbd) option" where
  "modify_with_foreground1 fn arg1 = modify_with (with_fg1 fn arg1)"

definition modify_with_foreground2 ::
  "('t \<Rightarrow> 't \<Rightarrow> 'a \<Rightarrow> 'b \<Rightarrow> nat \<times> 't) \<Rightarrow> 'a \<Rightarrow> 'b \<Rightarrow> 't dbd \<Rightarrow> (nat \<times> 't dbd) option" where
  "modify_with_foreground2 fn arg1 arg2 = modify_with (with_fg2 fn arg1 arg2)"

section \<open>TestDoubleBuffer\<close>

type_synonym test_data = "int set"

definition add_data :: "test_data \<Rightarrow> int \<Rightarrow> nat \<times> test_data" where
  "add_data data num = (if num \<in> data then (1, data) else (1, insert num data))"

definition remove_data :: "test_data \<Rightarrow> int \<Rightarrow> nat \<times> test_data" where
  "remove_data data num = (1, if num \<in> data then data - {num} else data)"

definition reset_data :: "test_data \<Rightarrow> int set \<Rightarrow> nat \<times> test_data" where
  "reset_data data num_set = (1, num_set)"

definition clear_data :: "test_data \<Rightarrow> nat \<times> test_data" where
  "clear_data data = (1, {})"

datatype test_op = OpAdd int | OpRemove int | OpReset "int set" | OpClear

text \<open>The result of \<open>Modify\<close> converted to \<open>bool\<close>.\<close>

definition test_apply :: "test_op \<Rightarrow> test_data dbd \<Rightarrow> (bool \<times> test_data dbd) option" where
  "test_apply op s =
     map_option (\<lambda>(n, s'). (n \<noteq> 0, s'))
       (case op of
          OpAdd num \<Rightarrow> dbd_modify1 add_data num s
        | OpRemove num \<Rightarrow> dbd_modify1 remove_data num s
        | OpReset num_set \<Rightarrow> dbd_modify1 reset_data num_set s
        | OpClear \<Rightarrow> dbd_modify clear_data s)"

text \<open>\<open>Read\<close> prints the elements of the foreground instance; the pointer is released on return.\<close>

definition test_read :: "nat \<Rightarrow> test_data dbd \<Rightarrow> (bool \<times> test_data \<times> test_data dbd) option" where
  "test_read tid s =
     (case dbd_read True True 0 tid s of
        (ReadFailed, s1) \<Rightarrow> Some (False, {}, s1)
      | (ReadBlocked, s1) \<Rightarrow> None
      | (ReadPtr i w, s1) \<Rightarrow> Some (True, db_buf i s1, scoped_ptr_destroy (ReadPtr i w) s1))"

fun test_run :: "test_op list \<Rightarrow> test_data dbd \<Rightarrow> (bool list \<times> test_data dbd) option" where
  "test_run [] s = Some ([], s)"
| "test_run (op # ops) s =
     (case test_apply op s of
        None \<Rightarrow> None
      | Some (b, s1) \<Rightarrow> (case test_run ops s1 of None \<Rightarrow> None | Some (bs, s2) \<Rightarrow> Some (b # bs, s2)))"

section \<open>Interleaved execution\<close>

text \<open>
  Where the holder of \<open>_modify_mutex\<close> stands: \<open>MFirst fn b\<close> and \<open>MSecond fn b\<close> are the calls of
  the user function on instance \<open>b\<close>; \<open>MWait fn b i\<close> holds \<open>_wrappers_mutex\<close> and is about to
  lock the mutex of wrapper \<open>i\<close>.
\<close>

datatype 't mod_pc =
    MIdle
  | MFirst "'t \<Rightarrow> nat \<times> 't" nat
  | MPublish "'t \<Rightarrow> nat \<times> 't" nat
  | MLock "'t \<Rightarrow> nat \<times> 't" nat
  | MWait "'t \<Rightarrow> nat \<times> 't" nat nat
  | MSecond "'t \<Rightarrow> nat \<times> 't" nat

datatype rd_pc = RIdle | RGot nat | RReading nat nat

record 't cstate =
  cs_db :: "'t dbd"
  cs_pc :: "'t mod_pc"
  cs_reader :: "nat \<Rightarrow> rd_pc"

definition holds_wrappers_mutex :: "'t mod_pc \<Rightarrow> bool" where
  "holds_wrappers_mutex pc = (case pc of MWait fn b i \<Rightarrow> True | _ \<Rightarrow> False)"

text \<open>\<open>P\<close> restricts the user functions that are passed to \<open>Modify\<close>.\<close>

inductive dbd_step :: "(('t \<Rightarrow> nat \<times> 't) \<Rightarrow> bool) \<Rightarrow> 't cstate \<Rightarrow> 't cstate \<Rightarrow> bool" for P where
  start: "cs_pc c = MIdle \<Longrightarrow> P fn \<Longrightarrow>
     dbd_step P c (c\<lparr>cs_pc := MFirst fn (bang (db_index (cs_db c)))\<rparr>)"
| first: "cs_pc c = MFirst fn b \<Longrightarrow> fn (db_buf b (cs_db c)) = (ret, v) \<Longrightarrow>
     dbd_step P c (c\<lparr>cs_db := db_set_buf b v (cs_db c), cs_pc := (if ret \<noteq> 0 then MIdle else MPublish fn b)\<rparr>)"
| publish: "cs_pc c = MPublish fn b \<Longrightarrow>
     dbd_step P c (c\<lparr>cs_db := (cs_db c)\<lparr>db_index := b\<rparr>, cs_pc := MLock fn (bang b)\<rparr>)"
| lock: "cs_pc c = MLock fn b \<Longrightarrow> dbd_step P c (c\<lparr>cs_pc := MWait fn b 0\<rparr>)"
| wait: "cs_pc c = MWait fn b i \<Longrightarrow> i < length (db_wrappers (cs_db c)) \<Longrightarrow>
     wait_read_done (db_wrappers (cs_db c) ! i) (cs_db c) \<Longrightarrow>
     dbd_step P c (c\<lparr>cs_pc := MWait fn b (Suc i)\<rparr>)"
| waited: "cs_pc c = MWait fn b i \<Longrightarrow> length (db_wrappers (cs_db c)) \<le> i \<Longrightarrow>
     dbd_step P c (c\<lparr>cs_pc := MSecond fn b\<rparr>)"
| second: "cs_pc c = MSecond fn b \<Longrightarrow> fn (db_buf b (cs_db c)) = (ret, v) \<Longrightarrow>
     dbd_step P c (c\<lparr>cs_db := db_set_buf b v (cs_db c), cs_pc := MIdle\<rparr>)"
| attach: "cs_reader c t = RIdle \<Longrightarrow> map_of (db_tls (cs_db c)) t = None \<Longrightarrow>
     \<not> holds_wrappers_mutex (cs_pc c) \<Longrightarrow> add_wrapper a p (cs_db c) = (r, d) \<Longrightarrow>
     dbd_step P c (c\<lparr>cs_db := (case r of Some w \<Rightarrow> if (s::int) = 0 then d\<lparr>db_tls := AList.update t w (db_tls d)\<rparr> else d
                                       | None \<Rightarrow> d)\<rparr>)"
| begin_rd: "cs_reader c t = RIdle \<Longrightarrow> map_of (db_tls (cs_db c)) t = Some w \<Longrightarrow>
     begin_read w (cs_db c) = Some d \<Longrightarrow>
     dbd_step P c (c\<lparr>cs_db := d, cs_reader := (cs_reader c)(t := RGot w)\<rparr>)"
| unsafe_read: "cs_reader c t = RGot w \<Longrightarrow>
     dbd_step P c (c\<lparr>cs_reader := (cs_reader c)(t := RReading w (db_index (cs_db c)))\<rparr>)"
| end_rd: "cs_reader c t = RReading w i \<Longrightarrow>
     dbd_step P c (c\<lparr>cs_db := end_read w (cs_db c), cs_reader := (cs_reader c)(t := RIdle)\<rparr>)"
| exit: "cs_reader c t = RIdle \<Longrightarrow> map_of (db_tls (cs_db c)) t = Some w \<Longrightarrow>
     \<not> holds_wrappers_mutex (cs_pc c) \<Longrightarrow>
     dbd_step P c (c\<lparr>cs_db := (remove_wrapper (Some w) (cs_db c))\<lparr>db_tls := AList.delete t (db_tls (cs_db c))\<rparr>\<rparr>)"

definition c_init :: "'t \<Rightarrow> 't cstate" where
  "c_init d = \<lparr>cs_db = dbd_construct d 0, cs_pc = MIdle, cs_reader = (\<lambda>_. RIdle)\<rparr>"

text \<open>The instance the user function is changing right now.\<close>

definition modifying :: "'t cstate \<Rightarrow> nat option" where
  "modifying c = (case cs_pc c of MFirst fn b \<Rightarrow> Some b | MSecond fn b \<Rightarrow> Some b | _ \<Rightarrow> None)"

section \<open>Lemmas on the operations\<close>

lemma bang_bang [simp]: "i < 2 \<Longrightarrow> bang (bang i) = i"
  by (auto simp: bang_def)

lemma bang_less [simp]: "bang i < 2" and bang_neq [simp]: "bang i \<noteq> i" "i \<noteq> bang i"
  by (auto simp: bang_def)

lemma bang_other: "i < 2 \<Longrightarrow> j < 2 \<Longrightarrow> j \<noteq> i \<longleftrightarrow> j = bang i"
  by (auto simp: bang_def)

lemma buf_set_buf: "i < 2 \<Longrightarrow> j < 2 \<Longrightarrow> db_buf i (db_set_buf j v s) = (if i = j then v else db_buf i s)"
  by (auto simp: db_buf_def db_set_buf_def)

lemma set_buf_frame [simp]:
  "db_index (db_set_buf j v s) = db_index s" "db_wrappers (db_set_buf j v s) = db_wrappers s"
  "db_locked (db_set_buf j v s) = db_locked s" "db_tls (db_set_buf j v s) = db_tls s"
  "db_next (db_set_buf j v s) = db_next s" "db_created_key (db_set_buf j v s) = db_created_key s"
  by (simp_all add: db_set_buf_def)

lemma buf_frame [simp]:
  "db_buf i (s\<lparr>db_index := x\<rparr>) = db_buf i s" "db_buf i (s\<lparr>db_wrappers := ws\<rparr>) = db_buf i s"
  "db_buf i (s\<lparr>db_locked := ws\<rparr>) = db_buf i s" "db_buf i (s\<lparr>db_tls := m\<rparr>) = db_buf i s"
  "db_buf i (s\<lparr>db_next := n\<rparr>) = db_buf i s"
  by (simp_all add: db_buf_def)

lemma remove_from_absent:
  "w \<notin> set (drop i ws) \<Longrightarrow> remove_wrapper_from i ws w = ws"
proof (induction i ws w rule: remove_wrapper_from.induct)
  case (1 i ws w)
  show ?case
  proof (cases "i < length ws")
    case True
    then have "drop i ws = ws ! i # drop (Suc i) ws" by (simp add: Cons_nth_drop_Suc)
    then show ?thesis using 1 True by (subst remove_wrapper_from.simps) auto
  next
    case False
    then show ?thesis by (subst remove_wrapper_from.simps) simp
  qed
qed

lemma remove_from_split:
  "w \<notin> set xs \<Longrightarrow> i \<le> length xs \<Longrightarrow>
     remove_wrapper_from i (xs @ w # ys) w = butlast ((xs @ w # ys)[length xs := last (w # ys)])"
proof (induction "length xs - i" arbitrary: i)
  case 0
  then show ?case by (subst remove_wrapper_from.simps) auto
next
  case (Suc n)
  then have "xs ! i \<noteq> w" by (metis Suc_leI Suc_le_lessD less_le_not_le nth_mem zero_less_diff zero_less_Suc)
  moreover have "i < length xs" using Suc by simp
  ultimately show ?case using Suc by (subst remove_wrapper_from.simps) (auto simp: nth_append)
qed

text \<open>Swapping with the last element removes exactly the wrapper, whatever its position.\<close>

lemma remove_from_set:
  assumes "distinct ws"
  shows "set (remove_wrapper_from 0 ws w) = set ws - {w}" and "distinct (remove_wrapper_from 0 ws w)"
proof -
  have *: "set (remove_wrapper_from 0 ws w) = set ws - {w} \<and> distinct (remove_wrapper_from 0 ws w)"
  proof (cases "w \<in> set ws")
    case True
    then obtain xs ys where ws: "ws = xs @ w # ys" "w \<notin> set xs" by (meson split_list_first)
    then have r: "remove_wrapper_from 0 ws w = butlast ((xs @ w # ys)[length xs := last (w # ys)])"
      by (simp add: remove_from_split)
    show ?thesis
    proof (cases ys rule: rev_cases)
      case Nil
      then show ?thesis using r ws assms by (simp add: butlast_append)
    next
      case (snoc zs z)
      then show ?thesis using r ws assms by (auto simp: butlast_append list_update_append)
    qed
  next
    case False
    then show ?thesis using remove_from_absent [of w 0 ws] assms by simp
  qed
  show "set (remove_wrapper_from 0 ws w) = set ws - {w}" using * by simp
  show "distinct (remove_wrapper_from 0 ws w)" using * by simp
qed

lemma modify_rejected:
  assumes "fn s (bang (db_index s)) = (Suc n, v)"
  shows "modify_with fn s = Some (0, db_set_buf (bang (db_index s)) v s)"
  using assms by (simp add: modify_with_def)

text \<open>Every operation of the client reports 1, so none of them publishes its change.\<close>

lemma test_apply_rejected:
  "\<exists>v. test_apply op s = Some (False, db_set_buf (bang (db_index s)) v s)"
  by (cases op)
     (auto simp: test_apply_def dbd_modify1_def dbd_modify_def closure1_def add_data_def remove_data_def
        reset_data_def clear_data_def modify_with_def Let_def)

section \<open>Invariant of the interleaved execution\<close>

definition reading :: "'t cstate \<Rightarrow> nat \<Rightarrow> nat \<Rightarrow> bool" where
  "reading c w i \<longleftrightarrow> (\<exists>t. cs_reader c t = RReading w i)"

definition wrappers_inv :: "'t cstate \<Rightarrow> bool" where
  "wrappers_inv c \<longleftrightarrow>
     db_index (cs_db c) < 2 \<and> distinct (db_wrappers (cs_db c)) \<and>
     (\<forall>w \<in> set (db_wrappers (cs_db c)). w < db_next (cs_db c)) \<and>
     ran (map_of (db_tls (cs_db c))) \<subseteq> set (db_wrappers (cs_db c)) \<and>
     inj_on (map_of (db_tls (cs_db c))) (dom (map_of (db_tls (cs_db c))))"

text \<open>Thread \<open>t\<close> holds the mutex of wrapper \<open>w\<close>.\<close>

definition holds :: "'t cstate \<Rightarrow> nat \<Rightarrow> nat \<Rightarrow> bool" where
  "holds c t w \<longleftrightarrow> (case cs_reader c t of RIdle \<Rightarrow> False | RGot w' \<Rightarrow> w' = w | RReading w' i \<Rightarrow> w' = w)"

definition readers_inv :: "'t cstate \<Rightarrow> bool" where
  "readers_inv c \<longleftrightarrow>
     (\<forall>t w. holds c t w \<longrightarrow> map_of (db_tls (cs_db c)) t = Some w) \<and>
     (\<forall>w. w \<in> set (db_locked (cs_db c)) \<longleftrightarrow> (\<exists>t. holds c t w)) \<and>
     (\<forall>w i. reading c w i \<longrightarrow> i < 2)"

fun pc_inv :: "'t mod_pc \<Rightarrow> 't cstate \<Rightarrow> bool" where
  "pc_inv MIdle c \<longleftrightarrow> (\<forall>w i. reading c w i \<longrightarrow> i = db_index (cs_db c))"
| "pc_inv (MFirst fn b) c \<longleftrightarrow> b = bang (db_index (cs_db c)) \<and> (\<forall>w i. reading c w i \<longrightarrow> i = db_index (cs_db c))"
| "pc_inv (MPublish fn b) c \<longleftrightarrow> b = bang (db_index (cs_db c)) \<and> (\<forall>w i. reading c w i \<longrightarrow> i = db_index (cs_db c))"
| "pc_inv (MLock fn b) c \<longleftrightarrow> b = bang (db_index (cs_db c))"
| "pc_inv (MWait fn b i) c \<longleftrightarrow> b = bang (db_index (cs_db c)) \<and>
     (\<forall>w. reading c w b \<longrightarrow> w \<in> set (drop i (db_wrappers (cs_db c))))"
| "pc_inv (MSecond fn b) c \<longleftrightarrow> b = bang (db_index (cs_db c)) \<and> (\<forall>w. \<not> reading c w b)"

definition c_inv :: "'t cstate \<Rightarrow> bool" where
  "c_inv c \<longleftrightarrow> wrappers_inv c \<and> readers_inv c \<and> pc_inv (cs_pc c) c"

lemma reading_pc [simp]: "reading (c\<lparr>cs_pc := x\<rparr>) = reading c" "reading (c\<lparr>cs_db := d\<rparr>) = reading c"
  by (simp_all add: reading_def fun_eq_iff)

lemma holds_frame [simp]: "holds (c\<lparr>cs_pc := x\<rparr>) = holds c" "holds (c\<lparr>cs_db := d\<rparr>) = holds c"
  by (simp_all add: holds_def fun_eq_iff)

lemma reading_holds: "reading c w i \<Longrightarrow> \<exists>t. holds c t w"
proof -
  assume "reading c w i"
  then obtain t where "cs_reader c t = RReading w i" by (auto simp: reading_def)
  then have "holds c t w" by (simp add: holds_def)
  then show ?thesis ..
qed

lemma pc_inv_mono:
  assumes "pc_inv pc c" and "db_index (cs_db c') = db_index (cs_db c)"
    and "db_wrappers (cs_db c') = db_wrappers (cs_db c)"
    and sub: "\<And>w i. reading c' w i \<Longrightarrow> reading c w i \<or> i = db_index (cs_db c)"
  shows "pc_inv pc c'"
  using assms(1-3) by (cases pc) (auto dest: sub)

lemma c_inv_init: "c_inv (c_init d)"
  by (simp add: c_inv_def c_init_def wrappers_inv_def readers_inv_def reading_def holds_def dbd_construct_def)

lemmas c_inv_defs = c_inv_def wrappers_inv_def readers_inv_def

lemma inv_wait:
  assumes inv: "c_inv c" and pc: "cs_pc c = MWait fn b i"
    and i: "i < length (db_wrappers (cs_db c))" and done_: "wait_read_done (db_wrappers (cs_db c) ! i) (cs_db c)"
  shows "c_inv (c\<lparr>cs_pc := MWait fn b (Suc i)\<rparr>)"
proof -
  have "drop i (db_wrappers (cs_db c)) = db_wrappers (cs_db c) ! i # drop (Suc i) (db_wrappers (cs_db c))"
    using i by (simp add: Cons_nth_drop_Suc)
  moreover have "\<not> reading c (db_wrappers (cs_db c) ! i) b"
    using inv done_ reading_holds by (metis c_inv_def readers_inv_def wait_read_done_def)
  ultimately have "pc_inv (MWait fn b (Suc i)) c" using inv pc by (auto simp: c_inv_def)
  then show ?thesis using inv by (simp add: c_inv_defs)
qed

lemma inv_db:
  assumes inv: "c_inv c" and "\<not> holds_wrappers_mutex (cs_pc c)"
    and eq: "db_index d = db_index (cs_db c)" "db_locked d = db_locked (cs_db c)"
    and w: "distinct (db_wrappers d)" "\<forall>w \<in> set (db_wrappers d). w < db_next d"
      "ran (map_of (db_tls d)) \<subseteq> set (db_wrappers d)"
      "inj_on (map_of (db_tls d)) (dom (map_of (db_tls d)))"
    and tls: "\<And>t w. cs_reader c t \<noteq> RIdle \<Longrightarrow> map_of (db_tls d) t = map_of (db_tls (cs_db c)) t"
  shows "c_inv (c\<lparr>cs_db := d\<rparr>)"
proof -
  have pc: "pc_inv (cs_pc c) (c\<lparr>cs_db := d\<rparr>)"
    using inv assms(2) eq(1) by (cases "cs_pc c") (auto simp: c_inv_def holds_wrappers_mutex_def)
  have wi: "wrappers_inv (c\<lparr>cs_db := d\<rparr>)"
    using inv w eq(1) by (simp add: c_inv_defs)
  have t: "map_of (db_tls d) t = Some w" if "holds c t w" for t w
  proof -
    have "cs_reader c t \<noteq> RIdle" using that by (auto simp: holds_def)
    then show ?thesis using that tls [of t] inv by (auto simp: c_inv_def readers_inv_def)
  qed
  have "readers_inv (c\<lparr>cs_db := d\<rparr>)"
    using inv t eq(2) unfolding c_inv_def readers_inv_def by simp
  then show ?thesis using pc wi by (simp add: c_inv_def)
qed

lemma inv_attach:
  assumes inv: "c_inv c" and idle: "cs_reader c t = RIdle" and none: "map_of (db_tls (cs_db c)) t = None"
    and m: "\<not> holds_wrappers_mutex (cs_pc c)" and add: "add_wrapper a p (cs_db c) = (r, d)"
  shows "c_inv (c\<lparr>cs_db := (case r of Some w \<Rightarrow> if (s::int) = 0 then d\<lparr>db_tls := AList.update t w (db_tls d)\<rparr> else d
                                       | None \<Rightarrow> d)\<rparr>)"
proof -
  define w where "w = db_next (cs_db c)"
  have old: "distinct (db_wrappers (cs_db c))" "\<forall>w \<in> set (db_wrappers (cs_db c)). w < db_next (cs_db c)"
      "ran (map_of (db_tls (cs_db c))) \<subseteq> set (db_wrappers (cs_db c))"
      "inj_on (map_of (db_tls (cs_db c))) (dom (map_of (db_tls (cs_db c))))"
    using inv by (auto simp: c_inv_def wrappers_inv_def)
  then have fresh: "w \<notin> set (db_wrappers (cs_db c))" "w \<notin> ran (map_of (db_tls (cs_db c)))"
    by (auto simp: w_def)
  have inj: "inj_on ((map_of (db_tls (cs_db c)))(t \<mapsto> w)) (insert t (dom (map_of (db_tls (cs_db c)))))"
    using old(4) fresh(2) none by (auto simp: inj_on_def ran_def dest: sym)
  have ran': "ran ((map_of (db_tls (cs_db c)))(t \<mapsto> w)) \<subseteq> insert w (set (db_wrappers (cs_db c)))"
    using old(3) none by auto
  have "r = None \<and> d = cs_db c \<or> r = None \<and> d = (cs_db c)\<lparr>db_next := Suc w\<rparr> \<or>
    r = Some w \<and> d = (cs_db c)\<lparr>db_next := Suc w, db_wrappers := db_wrappers (cs_db c) @ [w]\<rparr>"
    using add [symmetric] by (simp add: add_wrapper_def Let_def w_def split: if_splits)
  then consider "r = None" "d = cs_db c" | "r = None" "d = (cs_db c)\<lparr>db_next := Suc w\<rparr>"
    | "r = Some w" "d = (cs_db c)\<lparr>db_next := Suc w, db_wrappers := db_wrappers (cs_db c) @ [w]\<rparr>"
    by blast
  then show ?thesis
  proof cases
    case 1
    then show ?thesis using inv by simp
  next
    case 2
    have "c_inv (c\<lparr>cs_db := (cs_db c)\<lparr>db_next := Suc w\<rparr>\<rparr>)"
      by (rule inv_db [OF inv m]) (use old in \<open>auto simp: w_def less_Suc_eq\<close>)
    then show ?thesis using 2 by simp
  next
    case 3
    have "c_inv (c\<lparr>cs_db := d\<rparr>)"
    proof (rule inv_db [OF inv m])
      show "distinct (db_wrappers d)" using old(1) fresh(1) by (simp add: 3(2))
      show "\<forall>w \<in> set (db_wrappers d). w < db_next d" using old(2) by (auto simp: 3(2) w_def)
    qed (use old(3,4) in \<open>auto simp: 3(2)\<close>)
    moreover have "c_inv (c\<lparr>cs_db := d\<lparr>db_tls := AList.update t w (db_tls d)\<rparr>\<rparr>)"
    proof (rule inv_db [OF inv m])
      let ?d = "d\<lparr>db_tls := AList.update t w (db_tls d)\<rparr>"
      show "ran (map_of (db_tls ?d)) \<subseteq> set (db_wrappers ?d)" using ran' by (simp add: 3(2) umap_simps)
      show "inj_on (map_of (db_tls ?d)) (dom (map_of (db_tls ?d)))" using inj by (simp add: 3(2) umap_simps)
      show "distinct (db_wrappers ?d)" using old(1) fresh(1) by (simp add: 3(2))
      show "\<forall>w \<in> set (db_wrappers ?d). w < db_next ?d" using old(2) by (auto simp: 3(2) w_def)
    qed (use idle in \<open>auto simp: 3(2) umap_simps\<close>)
    ultimately show ?thesis using 3(1) by simp
  qed
qed

lemma inv_exit:
  assumes inv: "c_inv c" and idle: "cs_reader c t = RIdle" and some: "map_of (db_tls (cs_db c)) t = Some w"
    and m: "\<not> holds_wrappers_mutex (cs_pc c)"
  shows "c_inv (c\<lparr>cs_db := (remove_wrapper (Some w) (cs_db c))\<lparr>db_tls := AList.delete t (db_tls (cs_db c))\<rparr>\<rparr>)"
proof -
  have old: "distinct (db_wrappers (cs_db c))" "\<forall>w \<in> set (db_wrappers (cs_db c)). w < db_next (cs_db c)"
      "ran (map_of (db_tls (cs_db c))) \<subseteq> set (db_wrappers (cs_db c))"
      "inj_on (map_of (db_tls (cs_db c))) (dom (map_of (db_tls (cs_db c))))"
    using inv by (auto simp: c_inv_def wrappers_inv_def)
  have "w \<notin> ran ((map_of (db_tls (cs_db c)))(t := None))"
    using old(4) some by (auto simp: ran_def inj_on_def dom_def split: if_splits)
  moreover have "ran ((map_of (db_tls (cs_db c)))(t := None)) \<subseteq> ran (map_of (db_tls (cs_db c)))"
    by (auto simp: ran_def)
  moreover have "inj_on ((map_of (db_tls (cs_db c)))(t := None)) (dom (map_of (db_tls (cs_db c))) - {t})"
    using old(4) by (auto simp: inj_on_def)
  ultimately show ?thesis
    using old idle
    by (intro inv_db [OF inv m]) (auto simp: remove_wrapper_def umap_simps remove_from_set)
qed

lemma tls_inj:
  assumes "wrappers_inv c" and "map_of (db_tls (cs_db c)) t = Some w" and "map_of (db_tls (cs_db c)) u = Some w"
  shows "t = u"
  using assms by (auto simp: wrappers_inv_def inj_on_def dom_def)

lemma inv_begin:
  assumes inv: "c_inv c" and idle: "cs_reader c t = RIdle" and some: "map_of (db_tls (cs_db c)) t = Some w"
    and b: "begin_read w (cs_db c) = Some d"
  shows "c_inv (c\<lparr>cs_db := d, cs_reader := (cs_reader c)(t := RGot w)\<rparr>)" (is "c_inv ?c")
proof -
  have d: "d = (cs_db c)\<lparr>db_locked := w # db_locked (cs_db c)\<rparr>" "w \<notin> set (db_locked (cs_db c))"
    using b by (auto simp: begin_read_def split: if_splits)
  have r: "reading ?c = reading c"
    using idle by (auto simp: reading_def fun_eq_iff) (metis rd_pc.distinct(3))
  have h: "holds ?c u w' \<longleftrightarrow> holds c u w' \<or> u = t \<and> w' = w" for u w'
    using idle by (auto simp: holds_def)
  have "pc_inv (cs_pc c) ?c" by (rule pc_inv_mono [of _ c]) (use inv d r in \<open>auto simp: c_inv_def\<close>)
  moreover have "wrappers_inv ?c" using inv d by (simp add: c_inv_defs)
  moreover have "readers_inv ?c"
    using inv some unfolding c_inv_def readers_inv_def h r by (auto simp: d)
  ultimately show ?thesis by (simp add: c_inv_def)
qed

lemma inv_unsafe_read:
  assumes inv: "c_inv c" and got: "cs_reader c t = RGot w"
  shows "c_inv (c\<lparr>cs_reader := (cs_reader c)(t := RReading w (db_index (cs_db c)))\<rparr>)" (is "c_inv ?c")
proof -
  have r: "reading ?c w' i \<longleftrightarrow> reading c w' i \<or> w' = w \<and> i = db_index (cs_db c)" for w' i
    using got by (auto simp: reading_def fun_eq_iff) (metis rd_pc.distinct(5))
  have h: "holds ?c = holds c" using got by (auto simp: holds_def fun_eq_iff)
  have "pc_inv (cs_pc c) ?c" by (rule pc_inv_mono [of _ c]) (use inv r in \<open>auto simp: c_inv_def\<close>)
  moreover have "wrappers_inv ?c" using inv by (simp add: c_inv_defs)
  moreover have "readers_inv ?c"
    using inv unfolding c_inv_def readers_inv_def h r by (auto simp: wrappers_inv_def)
  ultimately show ?thesis by (simp add: c_inv_def)
qed

lemma inv_end:
  assumes inv: "c_inv c" and got: "cs_reader c t = RReading w i"
  shows "c_inv (c\<lparr>cs_db := end_read w (cs_db c), cs_reader := (cs_reader c)(t := RIdle)\<rparr>)" (is "c_inv ?c")
proof -
  have r: "reading ?c w' j \<Longrightarrow> reading c w' j" for w' j
    using got by (auto simp: reading_def fun_eq_iff split: if_splits)
  have e: "db_index (end_read w d) = db_index d" "db_wrappers (end_read w d) = db_wrappers d"
      "db_tls (end_read w d) = db_tls d" "db_next (end_read w d) = db_next d" for d :: "'a dbd"
    by (simp_all add: end_read_def)
  have h: "holds ?c u w' \<longleftrightarrow> holds c u w' \<and> u \<noteq> t" for u w' by (auto simp: holds_def)
  have own: "holds c t w" using got by (simp add: holds_def)
  have ri: "readers_inv c" and wi: "wrappers_inv c" using inv by (auto simp: c_inv_def)
  have uniq: "w' = w \<longleftrightarrow> u = t" if "holds c u w'" for u w'
    using that own ri tls_inj [OF wi] unfolding readers_inv_def by (metis option.inject)
  have "pc_inv (cs_pc c) ?c" by (rule pc_inv_mono [of _ c]) (use inv r e in \<open>auto simp: c_inv_def\<close>)
  moreover have "wrappers_inv ?c" using inv e by (simp add: c_inv_defs)
  moreover have "readers_inv ?c"
  proof -
    have "w' \<in> set (db_locked (end_read w (cs_db c))) \<longleftrightarrow> (\<exists>u. holds ?c u w')" for w'
      using ri uniq own unfolding readers_inv_def h by (auto simp: end_read_def)
    moreover have "\<forall>u w'. holds ?c u w' \<longrightarrow> map_of (db_tls (cs_db c)) u = Some w'"
      using ri unfolding readers_inv_def h by blast
    moreover have "\<forall>w' j. reading ?c w' j \<longrightarrow> j < 2" using ri r unfolding readers_inv_def by blast
    ultimately show ?thesis by (simp add: readers_inv_def e)
  qed
  ultimately show ?thesis by (simp add: c_inv_def)
qed

lemma c_inv_step: "dbd_step P c c' \<Longrightarrow> c_inv c \<Longrightarrow> c_inv c'"
proof (induction rule: dbd_step.induct)
  case (wait c fn b i)
  then show ?case by (intro inv_wait)
next
  case (attach c t a p r d s)
  then show ?case by (intro inv_attach)
next
  case (exit c t w)
  then show ?case by (intro inv_exit)
next
  case (begin_rd c t w d)
  then show ?case by (intro inv_begin)
next
  case (unsafe_read c t w)
  then show ?case by (intro inv_unsafe_read)
next
  case (end_rd c t w i)
  then show ?case by (intro inv_end)
next
  case (publish c fn b)
  then show ?case by (auto simp: c_inv_defs)
next
  case (lock c fn b)
  then have "w \<in> set (db_wrappers (cs_db c))" if "reading c w b" for w
    using lock(2) reading_holds [OF that] unfolding c_inv_defs by (metis ranI subsetD)
  then show ?case using lock by (auto simp: c_inv_defs)
next
  case (first c fn b ret v)
  then show ?case by (auto simp: c_inv_defs)
next
  case (second c fn b ret v)
  then have "i = db_index (cs_db c)" if "reading c w i" for w i
    using that bang_other [of "db_index (cs_db c)" i] unfolding c_inv_defs by (metis pc_inv.simps(6))
  then show ?case using second by (auto simp: c_inv_defs)
qed (auto simp: c_inv_defs)

lemma c_inv_reachable: "(dbd_step P)\<^sup>*\<^sup>* (c_init d) c \<Longrightarrow> c_inv c"
  by (induction rule: rtranclp_induct) (auto simp: c_inv_init c_inv_step)

section \<open>Contents of the two instances\<close>

fun data_inv :: "'t mod_pc \<Rightarrow> 't dbd \<Rightarrow> bool" where
  "data_inv MIdle s \<longleftrightarrow> db_buf 0 s = db_buf 1 s"
| "data_inv (MFirst fn b) s \<longleftrightarrow> db_buf 0 s = db_buf 1 s"
| "data_inv (MPublish fn b) s \<longleftrightarrow> db_buf b s = snd (fn (db_buf (bang b) s))"
| "data_inv (MLock fn b) s \<longleftrightarrow> db_buf (bang b) s = snd (fn (db_buf b s))"
| "data_inv (MWait fn b i) s \<longleftrightarrow> db_buf (bang b) s = snd (fn (db_buf b s))"
| "data_inv (MSecond fn b) s \<longleftrightarrow> db_buf (bang b) s = snd (fn (db_buf b s))"

fun pc_fn :: "'t mod_pc \<Rightarrow> ('t \<Rightarrow> nat \<times> 't) option" where
  "pc_fn MIdle = None"
| "pc_fn (MFirst fn b) = Some fn"
| "pc_fn (MPublish fn b) = Some fn"
| "pc_fn (MLock fn b) = Some fn"
| "pc_fn (MWait fn b i) = Some fn"
| "pc_fn (MSecond fn b) = Some fn"

definition data_ok :: "(('t \<Rightarrow> nat \<times> 't) \<Rightarrow> bool) \<Rightarrow> 't cstate \<Rightarrow> bool" where
  "data_ok P c \<longleftrightarrow> data_inv (cs_pc c) (cs_db c) \<and> (\<forall>fn. pc_fn (cs_pc c) = Some fn \<longrightarrow> P fn)"

lemma data_inv_cong:
  "db_buf 0 s = db_buf 0 s' \<Longrightarrow> db_buf 1 s = db_buf 1 s' \<Longrightarrow> data_inv pc s = data_inv pc s'"
proof -
  assume "db_buf 0 s = db_buf 0 s'" "db_buf 1 s = db_buf 1 s'"
  then have "db_buf i s = db_buf i s'" for i by (cases "i = 0") (auto simp: db_buf_def)
  then show ?thesis by (cases pc) simp_all
qed

lemma reader_ops_buf [simp]:
  "begin_read w s = Some d \<Longrightarrow> db_buf i d = db_buf i s"
  "db_buf i (end_read w s) = db_buf i s" "db_buf i (remove_wrapper v s) = db_buf i s"
  "add_wrapper a p s = (r, d) \<Longrightarrow> db_buf i d = db_buf i s"
  by (auto simp: begin_read_def end_read_def remove_wrapper_def add_wrapper_def Let_def
      split: if_splits option.splits)

lemma data_ok_same_buf:
  "data_ok P c \<Longrightarrow> cs_pc c' = cs_pc c \<Longrightarrow> (\<And>i. db_buf i (cs_db c') = db_buf i (cs_db c)) \<Longrightarrow> data_ok P c'"
  using data_inv_cong [of "cs_db c'" "cs_db c"] by (auto simp: data_ok_def)

lemma data_ok_step:
  assumes "dbd_step P c c'" and "c_inv c" and "data_ok P c" and zero: "\<And>fn x. P fn \<Longrightarrow> fst (fn x) = 0"
  shows "data_ok P c'"
  using assms(1-3)
proof (cases rule: dbd_step.cases)
  case (first fn b ret v)
  have "ret = 0" using zero [of fn "db_buf b (cs_db c)"] first assms(3) by (simp add: data_ok_def)
  moreover have "b < 2" "db_buf b (cs_db c) = db_buf (bang b) (cs_db c)"
    using first assms(2,3) by (auto simp: c_inv_def data_ok_def bang_def db_buf_def)
  ultimately show ?thesis using first assms(3) by (auto simp: data_ok_def buf_set_buf)
next
  case (publish fn b)
  moreover have "b < 2" using publish assms(2) by (auto simp: c_inv_def)
  ultimately show ?thesis using assms(3) by (auto simp: data_ok_def)
next
  case (second fn b ret v)
  moreover have "b < 2" using second assms(2) by (auto simp: c_inv_def)
  ultimately show ?thesis using assms(3)
    by (auto simp: data_ok_def buf_set_buf bang_def split: if_splits)
next
  case (attach t a p r d s)
  have "db_buf i (cs_db c') = db_buf i (cs_db c)" for i
    using reader_ops_buf(4) [OF attach(5)] attach(1) by (auto split: option.splits)
  then show ?thesis using attach(1) by (intro data_ok_same_buf [OF assms(3)]) simp_all
next
  case (begin_rd t w d)
  then show ?thesis by (intro data_ok_same_buf [OF assms(3)]) simp_all
next
  case (unsafe_read t w)
  then show ?thesis by (intro data_ok_same_buf [OF assms(3)]) simp_all
next
  case (end_rd t w i)
  then show ?thesis by (intro data_ok_same_buf [OF assms(3)]) simp_all
next
  case (exit t w)
  then show ?thesis by (intro data_ok_same_buf [OF assms(3)]) simp_all
qed (auto simp: data_ok_def)

lemma data_ok_reachable:
  assumes "(dbd_step P)\<^sup>*\<^sup>* (c_init d) c" and "\<And>fn x. P fn \<Longrightarrow> fst (fn x) = 0"
  shows "data_ok P c"
  using assms(1)
proof (induction rule: rtranclp_induct)
  case base
  show ?case by (simp add: data_ok_def c_init_def dbd_construct_def db_buf_def)
next
  case (step c1 c2)
  then show ?case using data_ok_step c_inv_reachable assms(2) by metis
qed

section \<open>Liveness\<close>

text \<open>
  An infinite run of the object: at each moment either one of the threads takes a step or nothing happens to the object.  The modifier is ready
  unless it waits for a wrapper whose mutex a reader holds.  The run is fair to the modifier if a modifier that is ready again and again
  moves again and again, and the readers leave if none of them stays between \<open>BeginRead\<close> and \<open>EndRead\<close> forever.
\<close>

definition dbd_run :: "(('t \<Rightarrow> nat \<times> 't) \<Rightarrow> bool) \<Rightarrow> (nat \<Rightarrow> 't cstate) \<Rightarrow> bool" where
  "dbd_run P r \<longleftrightarrow> (\<forall>n. r (Suc n) = r n \<or> dbd_step P (r n) (r (Suc n)))"

definition modifier_ready :: "'t cstate \<Rightarrow> bool" where
  "modifier_ready c = (case cs_pc c of
     MIdle \<Rightarrow> False
   | MWait fn b i \<Rightarrow> i < length (db_wrappers (cs_db c)) \<longrightarrow> wait_read_done (db_wrappers (cs_db c) ! i) (cs_db c)
   | _ \<Rightarrow> True)"

definition modifier_fair :: "(nat \<Rightarrow> 't cstate) \<Rightarrow> bool" where
  "modifier_fair r \<longleftrightarrow> ((\<forall>n. \<exists>m\<ge>n. modifier_ready (r m)) \<longrightarrow> (\<forall>n. \<exists>m\<ge>n. cs_pc (r (Suc m)) \<noteq> cs_pc (r m)))"

definition readers_leave :: "(nat \<Rightarrow> 't cstate) \<Rightarrow> bool" where
  "readers_leave r \<longleftrightarrow> (\<forall>n t. \<exists>m\<ge>n. cs_reader (r m) t = RIdle)"

text \<open>What is left to do: the phases, and the wrappers still to be waited for.  The wrappers do not change while the modifier holds their mutex.\<close>

fun work_left :: "'t mod_pc \<Rightarrow> nat \<Rightarrow> nat \<times> nat" where
  "work_left MIdle n = (0, 0)"
| "work_left (MSecond fn b) n = (1, 0)"
| "work_left (MWait fn b i) n = (2, n - i)"
| "work_left (MLock fn b) n = (3, 0)"
| "work_left (MPublish fn b) n = (4, 0)"
| "work_left (MFirst fn b) n = (5, 0)"

definition rank :: "'t cstate \<Rightarrow> nat \<times> nat" where
  "rank c = work_left (cs_pc c) (length (db_wrappers (cs_db c)))"

abbreviation rank_less :: "((nat \<times> nat) \<times> (nat \<times> nat)) set" where
  "rank_less \<equiv> less_than <*lex*> less_than"

lemma trans_rank: "trans rank_less"
  by (simp add: trans_lex_prod)

lemma rank_free: "\<not> holds_wrappers_mutex pc \<Longrightarrow> work_left pc m = work_left pc n"
  by (cases pc) (auto simp: holds_wrappers_mutex_def)

lemma rank_step:
  assumes "dbd_step P c c'" and "cs_pc c \<noteq> MIdle"
  shows "if cs_pc c' = cs_pc c then rank c' = rank c else (rank c', rank c) \<in> rank_less"
  using assms(1)
proof (cases rule: dbd_step.cases)
  case (attach t a p r d s)
  then show ?thesis using rank_free [OF attach(4)] by (simp add: rank_def)
next
  case (exit t w)
  then show ?thesis using rank_free [OF exit(4)] by (simp add: rank_def)
qed (use assms(2) in \<open>auto simp: rank_def begin_read_def end_read_def split: if_splits\<close>)

lemma run_inv:
  assumes "dbd_run P r" and "r 0 = c_init d"
  shows "c_inv (r n)"
proof (induction n)
  case 0
  show ?case using assms(2) c_inv_init by simp
next
  case (Suc n)
  then show ?case using assms(1) c_inv_step unfolding dbd_run_def by metis
qed

text \<open>While thread \<open>t\<close> holds the wrapper the modifier waits for, the modifier stays, and it is ready once \<open>t\<close> has released the wrapper.\<close>

lemma waits_for_holder:
  assumes "dbd_step P c c'" and "c_inv c" and pc: "cs_pc c = MWait fn b i" and i: "i < length (db_wrappers (cs_db c))"
    and h: "holds c t (db_wrappers (cs_db c) ! i)"
  shows "cs_pc c' = MWait fn b i \<and> db_wrappers (cs_db c') = db_wrappers (cs_db c) \<and>
    (holds c' t (db_wrappers (cs_db c) ! i) \<or> modifier_ready c')"
proof -
  have locked: "db_wrappers (cs_db c) ! i \<in> set (db_locked (cs_db c))"
    using assms(2) h by (auto simp: c_inv_def readers_inv_def)
  from assms(1) show ?thesis
  proof (cases rule: dbd_step.cases)
    case (end_rd u w j)
    show ?thesis
    proof (cases "u = t")
      case True
      then have "w = db_wrappers (cs_db c) ! i" using h end_rd(2) by (simp add: holds_def)
      then show ?thesis using end_rd(1) pc by (simp add: modifier_ready_def wait_read_done_def end_read_def)
    next
      case False
      then show ?thesis using end_rd(1) pc h by (simp add: holds_def end_read_def)
    qed
  next
    case (begin_rd u w d)
    then show ?thesis using pc h by (auto simp: holds_def begin_read_def split: if_splits)
  qed (use pc i h locked in \<open>auto simp: holds_wrappers_mutex_def wait_read_done_def holds_def\<close>)
qed

lemma ready_again:
  assumes run: "dbd_run P r" and init: "r 0 = c_init d" and leave: "readers_leave r" and busy: "cs_pc (r k) \<noteq> MIdle"
  shows "\<exists>m\<ge>k. modifier_ready (r m)"
proof (rule ccontr)
  assume never: "\<not> (\<exists>m\<ge>k. modifier_ready (r m))"
  then have "\<not> modifier_ready (r k)" by blast
  then obtain fn b i where pc: "cs_pc (r k) = MWait fn b i" and i: "i < length (db_wrappers (cs_db (r k)))"
      and "db_wrappers (cs_db (r k)) ! i \<in> set (db_locked (cs_db (r k)))"
    using busy by (auto simp: modifier_ready_def wait_read_done_def split: mod_pc.splits)
  then obtain t where t: "holds (r k) t (db_wrappers (cs_db (r k)) ! i)"
    using run_inv [OF run init, of k] by (auto simp: c_inv_def readers_inv_def)
  have "cs_pc (r (k + j)) = MWait fn b i \<and> db_wrappers (cs_db (r (k + j))) = db_wrappers (cs_db (r k)) \<and>
      holds (r (k + j)) t (db_wrappers (cs_db (r k)) ! i)" for j
  proof (induction j)
    case 0
    show ?case using pc t by simp
  next
    case (Suc j)
    show ?case
    proof (cases "r (Suc (k + j)) = r (k + j)")
      case True
      then show ?thesis using Suc by simp
    next
      case False
      then have "dbd_step P (r (k + j)) (r (Suc (k + j)))" using run unfolding dbd_run_def by blast
      from waits_for_holder [OF this run_inv [OF run init], of fn b i t] Suc i never show ?thesis by fastforce
    qed
  qed
  then have "holds (r (k + j)) t (db_wrappers (cs_db (r k)) ! i)" for j by blast
  moreover have "cs_reader c t \<noteq> RIdle" if "holds c t w" for c :: "'a cstate" and w using that by (auto simp: holds_def)
  ultimately have "cs_reader (r (k + j)) t \<noteq> RIdle" for j by blast
  moreover obtain m where "m \<ge> k" "cs_reader (r m) t = RIdle" using leave unfolding readers_leave_def by blast
  ultimately show False by (metis le_add_diff_inverse)
qed

section \<open>Theorems\<close>

text \<open>
  C1: No torn reads.  In every interleaving of one modifier and any number of reader threads,
  threads that attach and exit included, the instance a reader holds is never the one the user function
  is changing, and no step changes its contents before the reader releases it.
\<close>

theorem dbd_no_torn_read:
  assumes "(dbd_step P)\<^sup>*\<^sup>* (c_init d) c" and "cs_reader c t = RReading w b"
  shows "modifying c \<noteq> Some b \<and>
    (\<forall>c'. dbd_step P c c' \<longrightarrow> db_buf b (cs_db c') = db_buf b (cs_db c))"
proof -
  have inv: "c_inv c" using assms(1) by (rule c_inv_reachable)
  have r: "reading c w b" using assms(2) by (auto simp: reading_def)
  have b: "b < 2" using inv r by (auto simp: c_inv_def readers_inv_def)
  have m: "modifying c \<noteq> Some b" using inv r by (cases "cs_pc c") (auto simp: modifying_def c_inv_def)
  have "db_buf b (cs_db c') = db_buf b (cs_db c)" if "dbd_step P c c'" for c'
    using that
  proof (cases rule: dbd_step.cases)
    case (first fn b' ret v)
    then have "b' \<noteq> b" "b' < 2" using m inv by (auto simp: modifying_def c_inv_def)
    then show ?thesis using first b by (simp add: buf_set_buf)
  next
    case (second fn b' ret v)
    then have "b' \<noteq> b" "b' < 2" using m inv by (auto simp: modifying_def c_inv_def)
    then show ?thesis using second b by (simp add: buf_set_buf)
  next
    case (attach t a p r d s)
    then show ?thesis using reader_ops_buf(4) [OF attach(5)] by (auto split: option.splits)
  qed auto
  then show ?thesis using m by blast
qed

definition inc_fn :: "nat \<Rightarrow> nat \<times> nat" where
  "inc_fn n = (0, Suc n)"

text \<open>A reader holds instance 0 while a modifier changes instance 1.\<close>

definition demo_run :: "nat cstate" where
  "demo_run = \<lparr>cs_db = \<lparr>db_data0 = 7, db_data1 = 7, db_index = 0, db_created_key = True, db_tls = [(5, 1)],
     db_wrappers = [1], db_locked = [1], db_next = 2\<rparr>, cs_pc = MFirst inc_fn 1,
     cs_reader = (\<lambda>_. RIdle)(5 := RReading 1 0)\<rparr>"

lemma demo_run_reachable: "(dbd_step (\<lambda>fn. fn = inc_fn))\<^sup>*\<^sup>* (c_init 7) demo_run"
proof -
  let ?S = "dbd_step (\<lambda>fn. fn = inc_fn)"
  let ?d = "(dbd_construct 7 0)\<lparr>db_wrappers := [1], db_next := 2, db_tls := [(5, 1)]\<rparr> :: nat dbd"
  let ?c1 = "(c_init 7)\<lparr>cs_db := ?d\<rparr>"
  let ?c2 = "?c1\<lparr>cs_db := ?d\<lparr>db_locked := [1]\<rparr>, cs_reader := (\<lambda>_. RIdle)(5 := RGot 1)\<rparr>"
  let ?c3 = "?c2\<lparr>cs_reader := (\<lambda>_. RIdle)(5 := RReading 1 0)\<rparr>"
  have 1: "?S (c_init 7) ?c1"
    using dbd_step.attach [of "c_init 7" 5 True True "Some 1" "(dbd_construct 7 0)\<lparr>db_wrappers := [1], db_next := 2\<rparr>" _ 0]
    by (simp add: c_init_def dbd_construct_def add_wrapper_def holds_wrappers_mutex_def)
  have 2: "?S ?c1 ?c2"
    using dbd_step.begin_rd [of ?c1 5 1 "?d\<lparr>db_locked := [1]\<rparr>"]
    by (simp add: c_init_def dbd_construct_def begin_read_def)
  have 3: "?S ?c2 ?c3"
    using dbd_step.unsafe_read [of ?c2 5 1] by (simp add: c_init_def dbd_construct_def)
  have 4: "?S ?c3 demo_run"
    using dbd_step.start [of ?c3 "\<lambda>fn. fn = inc_fn" inc_fn]
    by (simp add: c_init_def dbd_construct_def demo_run_def bang_def)
  show ?thesis using 1 2 3 4 by (meson r_into_rtranclp rtranclp_trans)
qed

theorem dbd_no_torn_read_witness:
  "(dbd_step (\<lambda>fn. fn = inc_fn))\<^sup>*\<^sup>* (c_init 7) demo_run \<and> cs_reader demo_run 5 = RReading 1 0 \<and>
   modifying demo_run = Some 1 \<and> modifying demo_run \<noteq> Some 0"
  using dbd_no_torn_read [OF demo_run_reachable, of 5 1 0] demo_run_reachable
  by (simp add: demo_run_def modifying_def)

text \<open>
  C23: When every function passed to \<open>Modify\<close> returns 0, the two instances are equal whenever no
  modification is in progress, in every interleaving with readers.
\<close>

theorem dbd_instances_agree:
  assumes "\<And>fn x. P fn \<Longrightarrow> fst (fn x) = 0"
    and "(dbd_step P)\<^sup>*\<^sup>* (c_init d) c" and "cs_pc c = MIdle"
  shows "db_buf 0 (cs_db c) = db_buf 1 (cs_db c)"
proof -
  have "data_ok P c" using assms(2) by (rule data_ok_reachable) (rule assms(1))
  then show ?thesis using assms(3) by (simp add: data_ok_def)
qed

text \<open>
  A whole modification: the reader holds instance 0 while the modifier changes and publishes instance 1 and waits for the reader's wrapper, the reader
  leaves, and the modifier goes on to its end.
\<close>

definition demo_at :: "nat \<Rightarrow> nat \<Rightarrow> nat \<Rightarrow> nat list \<Rightarrow> nat mod_pc \<Rightarrow> rd_pc \<Rightarrow> nat cstate" where
  "demo_at d0 d1 index locked pc rd =
     \<lparr>cs_db = \<lparr>db_data0 = d0, db_data1 = d1, db_index = index, db_created_key = True, db_tls = [(5, 1)],
        db_wrappers = [1], db_locked = locked, db_next = 2\<rparr>, cs_pc = pc, cs_reader = (\<lambda>_. RIdle)(5 := rd)\<rparr>"

definition demo_states :: "nat cstate list" where
  "demo_states =
     [c_init 7, demo_at 7 7 0 [] MIdle RIdle, demo_at 7 7 0 [1] MIdle (RGot 1), demo_at 7 7 0 [1] MIdle (RReading 1 0),
      demo_at 7 7 0 [1] (MFirst inc_fn 1) (RReading 1 0), demo_at 7 8 0 [1] (MPublish inc_fn 1) (RReading 1 0),
      demo_at 7 8 1 [1] (MLock inc_fn 0) (RReading 1 0), demo_at 7 8 1 [1] (MWait inc_fn 0 0) (RReading 1 0),
      demo_at 7 8 1 [] (MWait inc_fn 0 0) RIdle, demo_at 7 8 1 [] (MWait inc_fn 0 1) RIdle, demo_at 7 8 1 [] (MSecond inc_fn 0) RIdle,
      demo_at 8 8 1 [] MIdle RIdle]"

definition demo_trace :: "nat \<Rightarrow> nat cstate" where
  "demo_trace n = demo_states ! min n 11"

lemma demo_steps:
  fixes S defines "S \<equiv> dbd_step (\<lambda>fn. fn = inc_fn)"
  shows "S (c_init 7) (demo_at 7 7 0 [] MIdle RIdle)"
    and "S (demo_at 7 7 0 [] MIdle RIdle) (demo_at 7 7 0 [1] MIdle (RGot 1))"
    and "S (demo_at 7 7 0 [1] MIdle (RGot 1)) (demo_at 7 7 0 [1] MIdle (RReading 1 0))"
    and "S (demo_at 7 7 0 [1] MIdle (RReading 1 0)) (demo_at 7 7 0 [1] (MFirst inc_fn 1) (RReading 1 0))"
    and "S (demo_at 7 7 0 [1] (MFirst inc_fn 1) (RReading 1 0)) (demo_at 7 8 0 [1] (MPublish inc_fn 1) (RReading 1 0))"
    and "S (demo_at 7 8 0 [1] (MPublish inc_fn 1) (RReading 1 0)) (demo_at 7 8 1 [1] (MLock inc_fn 0) (RReading 1 0))"
    and "S (demo_at 7 8 1 [1] (MLock inc_fn 0) (RReading 1 0)) (demo_at 7 8 1 [1] (MWait inc_fn 0 0) (RReading 1 0))"
    and "S (demo_at 7 8 1 [1] (MWait inc_fn 0 0) (RReading 1 0)) (demo_at 7 8 1 [] (MWait inc_fn 0 0) RIdle)"
    and "S (demo_at 7 8 1 [] (MWait inc_fn 0 0) RIdle) (demo_at 7 8 1 [] (MWait inc_fn 0 1) RIdle)"
    and "S (demo_at 7 8 1 [] (MWait inc_fn 0 1) RIdle) (demo_at 7 8 1 [] (MSecond inc_fn 0) RIdle)"
    and "S (demo_at 7 8 1 [] (MSecond inc_fn 0) RIdle) (demo_at 8 8 1 [] MIdle RIdle)"
  unfolding S_def
  subgoal using dbd_step.attach [of "c_init (7 :: nat)" 5 True True "Some 1" "(dbd_construct 7 0)\<lparr>db_wrappers := [1], db_next := 2\<rparr>" _ 0]
    by (simp add: c_init_def dbd_construct_def add_wrapper_def holds_wrappers_mutex_def demo_at_def fun_upd_idem)
  subgoal using dbd_step.begin_rd [of "demo_at 7 7 0 [] MIdle RIdle" 5 1 "cs_db (demo_at 7 7 0 [1] MIdle RIdle)"]
    by (simp add: demo_at_def begin_read_def)
  subgoal using dbd_step.unsafe_read [of "demo_at 7 7 0 [1] MIdle (RGot 1)" 5 1] by (simp add: demo_at_def)
  subgoal using dbd_step.start [of "demo_at 7 7 0 [1] MIdle (RReading 1 0)" "\<lambda>fn. fn = inc_fn" inc_fn] by (simp add: demo_at_def bang_def)
  subgoal using dbd_step.first [of "demo_at 7 7 0 [1] (MFirst inc_fn 1) (RReading 1 0)" inc_fn 1 0 8]
    by (simp add: demo_at_def inc_fn_def db_buf_def db_set_buf_def)
  subgoal using dbd_step.publish [of "demo_at 7 8 0 [1] (MPublish inc_fn 1) (RReading 1 0)" inc_fn 1] by (simp add: demo_at_def bang_def)
  subgoal using dbd_step.lock [of "demo_at 7 8 1 [1] (MLock inc_fn 0) (RReading 1 0)" inc_fn 0] by (simp add: demo_at_def)
  subgoal using dbd_step.end_rd [of "demo_at 7 8 1 [1] (MWait inc_fn 0 0) (RReading 1 0)" 5 1 0] by (simp add: demo_at_def end_read_def)
  subgoal using dbd_step.wait [of "demo_at 7 8 1 [] (MWait inc_fn 0 0) RIdle" inc_fn 0 0] by (simp add: demo_at_def wait_read_done_def)
  subgoal using dbd_step.waited [of "demo_at 7 8 1 [] (MWait inc_fn 0 1) RIdle" inc_fn 0 1] by (simp add: demo_at_def)
  subgoal using dbd_step.second [of "demo_at 7 8 1 [] (MSecond inc_fn 0) RIdle" inc_fn 0 0 8]
    by (simp add: demo_at_def inc_fn_def db_buf_def db_set_buf_def)
  done

lemma demo_trace_run: "dbd_run (\<lambda>fn. fn = inc_fn) demo_trace"
proof -
  have "demo_trace (Suc n) = demo_trace n \<or> dbd_step (\<lambda>fn. fn = inc_fn) (demo_trace n) (demo_trace (Suc n))" for n
  proof (cases "n < 11")
    case True
    then have "n \<in> {0, 1, 2, 3, 4, 5, 6, 7, 8, 9, 10}" by (simp, presburger)
    then show ?thesis using demo_steps by (elim insertE emptyE) (simp_all add: demo_trace_def demo_states_def)
  next
    case False
    then show ?thesis by (simp add: demo_trace_def)
  qed
  then show ?thesis by (simp add: dbd_run_def)
qed

lemma demo_trace_late: "11 \<le> n \<Longrightarrow> demo_trace n = demo_at 8 8 1 [] MIdle RIdle"
  by (simp add: demo_trace_def demo_states_def min_absorb2)

lemma demo_trace_fair: "readers_leave demo_trace" "modifier_fair demo_trace"
proof -
  have "cs_reader (demo_trace (max n 11)) t = RIdle" for n t by (subst demo_trace_late) (simp_all add: demo_at_def)
  then show "readers_leave demo_trace" unfolding readers_leave_def by (meson max.cobounded1)
  have "\<not> modifier_ready (demo_trace m)" if "11 \<le> m" for m
    using demo_trace_late [OF that] by (simp add: demo_at_def modifier_ready_def)
  then show "modifier_fair demo_trace" unfolding modifier_fair_def by blast
qed

lemma run_reachable:
  assumes "dbd_run P r"
  shows "(dbd_step P)\<^sup>*\<^sup>* (r 0) (r n)"
proof (induction n)
  case (Suc n)
  then show ?case using assms unfolding dbd_run_def by (metis rtranclp.rtrancl_into_rtrancl)
qed simp

theorem dbd_instances_agree_witness:
  "(dbd_step (\<lambda>fn. fn = inc_fn))\<^sup>*\<^sup>* (c_init 7) (demo_at 8 8 1 [] MIdle RIdle) \<and>
   db_buf 0 (cs_db (demo_at 8 8 1 [] MIdle RIdle)) = db_buf 1 (cs_db (demo_at 8 8 1 [] MIdle RIdle))"
proof -
  have r: "(dbd_step (\<lambda>fn. fn = inc_fn))\<^sup>*\<^sup>* (c_init 7) (demo_at 8 8 1 [] MIdle RIdle)"
    using run_reachable [OF demo_trace_run, of 11] by (simp add: demo_trace_def demo_states_def)
  show ?thesis using dbd_instances_agree [OF _ r] r by (simp add: demo_at_def inc_fn_def)
qed

text \<open>
  C22: \<open>Modify\<close> returns.  In every infinite run of the object, with readers that attach, read and exit all the time, a modification under way at some
  moment is over at a later one, provided that no reader stays inside its critical section forever and that the run is fair to the modifier:
  if it can move again and again, it moves again and again.
\<close>

theorem dbd_modify_returns:
  assumes run: "dbd_run P r" "r 0 = c_init d" and "readers_leave r" and "modifier_fair r" and "cs_pc (r n) \<noteq> MIdle"
  shows "\<exists>m\<ge>n. cs_pc (r m) = MIdle"
proof (rule ccontr)
  assume "\<not> (\<exists>m\<ge>n. cs_pc (r m) = MIdle)"
  then have busy: "cs_pc (r m) \<noteq> MIdle" if "m \<ge> n" for m using that by blast
  have "\<exists>m\<ge>k. modifier_ready (r m)" for k
    using ready_again [OF run assms(3) busy, of "max k n"] by (meson max.cobounded2 max.boundedE)
  then have moves: "\<exists>m\<ge>k. cs_pc (r (Suc m)) \<noteq> cs_pc (r m)" for k using assms(4) unfolding modifier_fair_def by blast
  have step: "if cs_pc (r (Suc m)) = cs_pc (r m) then rank (r (Suc m)) = rank (r m) else (rank (r (Suc m)), rank (r m)) \<in> rank_less"
    if "m \<ge> n" for m
    using run(1) rank_step [OF _ busy [OF that]] unfolding dbd_run_def by metis
  have down: "(rank (r (m + j)), rank (r m)) \<in> rank_less\<^sup>=" if "m \<ge> n" for m j
  proof (induction j)
    case (Suc j)
    then show ?case using step [of "m + j"] that by (auto split: if_splits dest: transD [OF trans_rank])
  qed simp
  have "\<forall>m\<ge>n. rank (r m) \<noteq> x" for x
  proof (induction x rule: wf_induct_rule [OF wf_lex_prod [OF wf_less_than wf_less_than]])
    case (1 x)
    show ?case
    proof (intro allI impI notI)
      fix m assume m: "n \<le> m" and x: "rank (r m) = x"
      obtain k where k: "k \<ge> m" "cs_pc (r (Suc k)) \<noteq> cs_pc (r k)" using moves by blast
      have "(rank (r (Suc k)), rank (r k)) \<in> rank_less" using step [of k] k m by simp
      moreover have "(rank (r k), x) \<in> rank_less\<^sup>=" using down [OF m, of "k - m"] k(1) x by simp
      ultimately have "(rank (r (Suc k)), x) \<in> rank_less" by (auto dest: transD [OF trans_rank])
      moreover have "n \<le> Suc k" using k(1) m by linarith
      ultimately show False using "1.IH" by blast
    qed
  qed
  then show False by blast
qed

theorem dbd_modify_returns_witness:
  "\<not> modifier_ready (demo_trace 7) \<and> (\<exists>m\<ge>7. cs_pc (demo_trace m) = MIdle)"
proof -
  have "demo_trace 7 = demo_at 7 8 1 [1] (MWait inc_fn 0 0) (RReading 1 0)" "demo_trace 0 = c_init 7"
    by (simp_all add: demo_trace_def demo_states_def)
  then show ?thesis
    using dbd_modify_returns [OF demo_trace_run _ demo_trace_fair, of 7 7] by (simp add: demo_at_def modifier_ready_def wait_read_done_def)
qed

text \<open>
  \<open>Modify\<close> with a function that returns 0 and no reader inside: both instances hold the result, the
  other instance becomes the foreground, and nothing else of the object changes.
\<close>

theorem modify_publishes:
  assumes "db_index s < 2" and "db_locked s = []" and "db_buf 0 s = x" and "db_buf 1 s = x"
    and "fn x = (0, y)"
  shows "\<exists>s'. dbd_modify fn s = Some (0, s') \<and> db_buf 0 s' = y \<and> db_buf 1 s' = y \<and>
    db_index s' = bang (db_index s) \<and> db_wrappers s' = db_wrappers s \<and> db_tls s' = db_tls s \<and> db_locked s' = []"
proof -
  have "db_buf i s = x" for i using assms(3,4) by (cases "i = 0") (auto simp: db_buf_def)
  then show ?thesis
    using assms by (simp add: dbd_modify_def modify_with_def wait_read_done_def Let_def buf_set_buf list_all_iff)
      (auto simp: bang_def)
qed

theorem modify_publishes_witness:
  "\<exists>s'. dbd_modify inc_fn (dbd_construct 7 0) = Some (0, s') \<and> db_buf 0 s' = 8 \<and> db_buf 1 s' = 8"
  using modify_publishes [of "dbd_construct 7 0" 7 inc_fn 8]
  by (auto simp: dbd_construct_def db_buf_def inc_fn_def)

text \<open>
  The client never publishes anything.  \<open>AddData\<close>, \<open>RemoveData\<close>, \<open>ResetData\<close> and
  \<open>ClearData\<close> return \<open>true\<close> on success, which \<open>Modify\<close> takes for a failure: after any sequence of
  operations every call has returned \<open>false\<close>, the foreground instance is the initial one, and \<open>Read\<close>
  prints it.
\<close>

theorem test_double_buffer_never_publishes:
  "\<exists>bs s. test_run ops (dbd_construct init 0) = Some (bs, s) \<and> list_all Not bs \<and> length bs = length ops \<and>
     db_buf (db_index s) s = init \<and> (\<exists>s'. test_read tid s = Some (True, init, s'))"
proof -
  have run: "\<exists>bs s'. test_run ops s = Some (bs, s') \<and> list_all Not bs \<and> length bs = length ops \<and>
      db_index s' = 0 \<and> db_data0 s' = init \<and> db_created_key s' \<and> db_tls s' = [] \<and> db_locked s' = []"
    if "db_index s = 0" "db_data0 s = init" "db_created_key s" "db_tls s = []" "db_locked s = []" for s
    using that
  proof (induction ops arbitrary: s)
    case Nil
    then show ?case by simp
  next
    case (Cons op ops)
    obtain v where t: "test_apply op s = Some (False, db_set_buf (bang (db_index s)) v s)"
      using test_apply_rejected by blast
    let ?s = "db_set_buf (bang (db_index s)) v s"
    have "db_data0 ?s = init" using Cons.prems by (simp add: db_set_buf_def bang_def)
    then show ?case using Cons.IH [of ?s] Cons.prems t by fastforce
  qed
  obtain bs s where "test_run ops (dbd_construct init 0) = Some (bs, s)" "list_all Not bs" "length bs = length ops"
      "db_index s = 0" "db_data0 s = init" "db_created_key s" "db_tls s = []" "db_locked s = []"
    using run [of "dbd_construct init 0"] by (auto simp: dbd_construct_def)
  then show ?thesis
    by (simp add: db_buf_def test_read_def dbd_read_def add_wrapper_def locked_read_def begin_read_def Let_def)
qed

text \<open>\<open>main\<close>, with what each call of \<open>Read\<close> prints: nothing, instead of 1 and 2, then 2, then 3 and 4.\<close>

fun test_script :: "nat \<Rightarrow> test_op option list \<Rightarrow> test_data dbd \<Rightarrow> (test_data list \<times> test_data dbd) option" where
  "test_script tid [] s = Some ([], s)"
| "test_script tid (Some op # xs) s = (case test_apply op s of None \<Rightarrow> None | Some (b, s1) \<Rightarrow> test_script tid xs s1)"
| "test_script tid (None # xs) s =
     (case test_read tid s of
        None \<Rightarrow> None
      | Some (b, printed, s1) \<Rightarrow> map_option (\<lambda>(ps, s2). (printed # ps, s2)) (test_script tid xs s1))"

definition test_main :: "nat \<Rightarrow> test_data list option" where
  "test_main tid =
     map_option fst (test_script tid
       [Some (OpAdd 1), Some (OpAdd 2), None, Some (OpRemove 1), None, Some (OpReset {3, 4}), None] (dbd_construct {} 0))"

lemma test_main_prints_nothing: "test_main 0 = Some [{}, {}, {}]"
  by code_simp

end
