(* ===== verification/ServerConfig.thy ===== *)
theory ServerConfig
  imports Prelude
begin

text \<open>
  \<open>DAG/sw/config/ServerConfiguration.cpp\<close>: value parsing, the lookup order of a configuration key, and
  \<open>load\<close>.  Flags, environment, file system and the JSON decoder are the fields of \<open>host\<close>; a
  JSON decoder that throws is \<^const>\<open>None\<close>.  \<open>std::stoi\<close> and \<open>std::stol\<close> are written out:
  leading white space, an optional sign, the longest run of digits, then a range check; what follows the digits
  is ignored.
\<close>

section \<open>Parsing\<close>

definition is_space :: "char \<Rightarrow> bool" where
  "is_space c \<longleftrightarrow> of_char c = (32::nat) \<or> 9 \<le> (of_char c :: nat) \<and> (of_char c :: nat) \<le> 13"

definition is_digit :: "char \<Rightarrow> bool" where
  "is_digit c \<longleftrightarrow> 48 \<le> (of_char c :: nat) \<and> (of_char c :: nat) \<le> 57"

definition digit_value :: "char \<Rightarrow> nat" where
  "digit_value c = of_char c - 48"

definition digits_value :: "string \<Rightarrow> nat" where
  "digits_value ds = foldl (\<lambda>n c. 10 * n + digit_value c) 0 ds"

definition split_sign :: "string \<Rightarrow> bool \<times> string" where
  "split_sign s =
     (case s of [] \<Rightarrow> (False, [])
      | c # rest \<Rightarrow> if c = CHR ''-'' then (True, rest) else if c = CHR ''+'' then (False, rest) else (False, s))"

text \<open>\<open>strtol\<close> in base 10 with the checks of \<open>std::sto*\<close> for a type of \<open>w\<close> bits: \<^const>\<open>None\<close> stands for
  \<open>invalid_argument\<close> or \<open>out_of_range\<close>.\<close>

definition sto :: "nat \<Rightarrow> string \<Rightarrow> int option" where
  "sto w s =
     (let (neg, rest) = split_sign (dropWhile is_space s);
          ds = takeWhile is_digit rest;
          v = (if neg then - int (digits_value ds) else int (digits_value ds))
      in if ds = [] then None
         else if v < - (2 ^ (w - 1)) \<or> 2 ^ (w - 1) \<le> v then None
         else Some v)"

definition parse_value_int :: "string \<Rightarrow> int option" where
  "parse_value_int raw = sto 32 raw"

definition parse_value_int64 :: "string \<Rightarrow> int option" where
  "parse_value_int64 raw = sto 64 raw"

definition parse_value_bool :: "string \<Rightarrow> bool option" where
  "parse_value_bool raw =
     (if raw = ''true'' then Some True else if raw = ''false'' then Some False else None)"

definition parse_value_string :: "string \<Rightarrow> string option" where
  "parse_value_string raw = Some raw"

section \<open>Configuration\<close>

record host =
  flag_cat_domain :: string
  flag_service_name :: string
  flag_enable_cat_monitor :: bool
  get_env :: "string \<Rightarrow> string"
  file_exist :: "string \<Rightarrow> bool"
  read_file_content :: "string \<Rightarrow> string"
  from_json_string :: "string \<Rightarrow> (string, string) umap option"

record server_configuration =
  cfg_appSoPath :: string
  cfg_serverMethodMaxConcurrency :: string
  cfg_pnsEtcdAddress :: string
  cfg_pnsEtcdPath :: string
  cfg_catDomain :: string
  cfg_serviceName :: string
  cfg_heartbeatServerPort :: int
  cfg_serviceServerPort :: int
  cfg_custom_config :: "(string, string) umap"

definition config_get :: "host \<Rightarrow> server_configuration \<Rightarrow> string \<Rightarrow> string \<Rightarrow> string option" where
  "config_get h c name environ_key =
     (let environ_name = (if environ_key = [] then name else environ_key);
          value = get_env h environ_name
      in if value \<noteq> [] then Some value else map_of (cfg_custom_config c) name)"

definition get_app_config :: "host \<Rightarrow> server_configuration \<Rightarrow> string \<Rightarrow> string \<Rightarrow> string option" where
  "get_app_config h c name environ_key = config_get h c (cfg_serviceName c @ ''.'' @ name) environ_key"

text \<open>The macro \<open>OPTIONAL_PRELOAD_4\<close>.\<close>

definition optional_preload ::
  "(string \<Rightarrow> 'v option) \<Rightarrow> host \<Rightarrow> server_configuration \<Rightarrow> string \<Rightarrow> string \<Rightarrow> 'v \<Rightarrow> 'v" where
  "optional_preload parse h c path env_key def =
     (case get_app_config h c path env_key of
        None \<Rightarrow> def
      | Some tmp \<Rightarrow> (case parse tmp of None \<Rightarrow> def | Some v \<Rightarrow> v))"

definition load_preloads :: "host \<Rightarrow> server_configuration \<Rightarrow> server_configuration" where
  "load_preloads h c0 =
     (let c1 = c0\<lparr>cfg_pnsEtcdAddress := optional_preload parse_value_string h c0 ''pns.etcd.address'' [] []\<rparr>;
          c2 = c1\<lparr>cfg_pnsEtcdPath := optional_preload parse_value_string h c1 ''pns.etcd.path'' [] []\<rparr>;
          c3 = c2\<lparr>cfg_appSoPath := optional_preload parse_value_string h c2 ''app.so_path'' [] []\<rparr>;
          c4 = c3\<lparr>cfg_serverMethodMaxConcurrency :=
                   optional_preload parse_value_string h c3 ''server.method.max_concurrency'' [] ''unlimited''\<rparr>;
          c5 = c4\<lparr>cfg_heartbeatServerPort :=
                   optional_preload parse_value_int h c4 ''server.heartbeat_server_port'' ''HEARTBEAT_SERVER_PORT'' 8890\<rparr>;
          c6 = c5\<lparr>cfg_serviceServerPort :=
                   optional_preload parse_value_int h c5 ''server.service_server_port'' ''SERVICE_SERVER_PORT'' 8899\<rparr>
      in c6)"

definition load :: "host \<Rightarrow> string \<Rightarrow> server_configuration \<Rightarrow> bool \<times> server_configuration" where
  "load h path c =
     (let c1 = c\<lparr>cfg_catDomain := flag_cat_domain h, cfg_serviceName := flag_service_name h\<rparr>;
          c2 = (if cfg_serviceName c1 = [] then c1\<lparr>cfg_serviceName := get_env h ''SERVICE_NAME''\<rparr> else c1)
      in if cfg_serviceName c2 = [] then (False, c2)
         else if flag_enable_cat_monitor h \<and> cfg_catDomain c2 = [] then (False, c2)
         else if \<not> file_exist h path then (False, c2)
         else case from_json_string h (read_file_content h path) of
                None \<Rightarrow> (False, c2)
              | Some custom \<Rightarrow> (True, load_preloads h (c2\<lparr>cfg_custom_config := custom\<rparr>)))"

section \<open>Decimal numerals\<close>

text \<open>\<open>std::to_string\<close> of a non-negative number, the specification of the digits.\<close>

fun decimal :: "nat \<Rightarrow> string" where
  "decimal n = (if n < 10 then [char_of (48 + n)] else decimal (n div 10) @ [char_of (48 + n mod 10)])"

declare decimal.simps [simp del]

definition decimal_int :: "int \<Rightarrow> string" where
  "decimal_int v = (if v < 0 then CHR ''-'' # decimal (nat (- v)) else decimal (nat v))"

lemma digit_char [simp]: "n < 10 \<Longrightarrow> is_digit (char_of (48 + n))" "n < 10 \<Longrightarrow> digit_value (char_of (48 + n)) = n"
  by (auto simp: is_digit_def digit_value_def)

lemma decimal_digits: "decimal n \<noteq> [] \<and> list_all is_digit (decimal n)"
proof (induction n rule: decimal.induct)
  case (1 n)
  show ?case
    by (cases "n < 10"; subst (1 2) decimal.simps) (use 1 in auto)
qed

lemma digits_value_snoc [simp]: "digits_value (ds @ [c]) = 10 * digits_value ds + digit_value c"
  by (simp add: digits_value_def)

lemma digits_value_decimal [simp]: "digits_value (decimal n) = n"
proof (induction n rule: decimal.induct)
  case (1 n)
  show ?case
  proof (cases "n < 10")
    case True
    then show ?thesis by (subst decimal.simps) (simp add: digits_value_def)
  next
    case False
    then show ?thesis using 1 by (subst decimal.simps) simp
  qed
qed

lemma digit_not_space: "is_digit c \<Longrightarrow> \<not> is_space c \<and> c \<noteq> CHR ''-'' \<and> c \<noteq> CHR ''+''"
  by (auto simp: is_digit_def is_space_def)

lemma takeWhile_digits: "list_all is_digit ds \<Longrightarrow> (rest = [] \<or> \<not> is_digit (hd rest)) \<Longrightarrow> takeWhile is_digit (ds @ rest) = ds"
  by (cases rest) (auto simp: list_all_iff takeWhile_append2 takeWhile_eq_Nil_iff)

lemma sto_decimal:
  assumes ws: "list_all is_space ws" and rest: "rest = [] \<or> \<not> is_digit (hd rest)"
  shows "sto w (ws @ decimal_int v @ rest) = (if - (2 ^ (w - 1)) \<le> v \<and> v < 2 ^ (w - 1) then Some v else None)"
proof -
  define ds where "ds = decimal (nat \<bar>v\<bar>)"
  obtain d ds' where d: "ds = d # ds'" "is_digit d"
    using decimal_digits [of "nat \<bar>v\<bar>"] by (cases ds) (auto simp: ds_def)
  have drop: "dropWhile is_space (ws @ decimal_int v @ rest) = decimal_int v @ rest"
  proof -
    have "\<not> is_space (CHR ''-'')" by (simp add: is_space_def)
    then have "\<exists>c cs. decimal_int v = c # cs \<and> \<not> is_space c"
      using d digit_not_space [OF d(2)] by (auto simp: decimal_int_def ds_def)
    then show ?thesis using ws by (auto simp: list_all_iff dropWhile_append2)
  qed
  have sign: "split_sign (decimal_int v @ rest) = (v < 0, ds @ rest)"
    using d digit_not_space [OF d(2)] by (auto simp: decimal_int_def split_sign_def ds_def)
  have tw: "takeWhile is_digit (ds @ rest) = ds"
    using decimal_digits [of "nat \<bar>v\<bar>"] rest by (intro takeWhile_digits) (auto simp: ds_def)
  have "(if v < 0 then - int (digits_value ds) else int (digits_value ds)) = v" by (simp add: ds_def)
  moreover have "ds \<noteq> []" using d(1) by simp
  ultimately show ?thesis unfolding sto_def drop sign Let_def prod.case tw by auto
qed

section \<open>Theorems\<close>

text \<open>
  \<open>parse_value\<close> reads back every integer in the range of its type, with any white space in front and any
  non-digit text behind it, and refuses every decimal numeral outside the range.
\<close>

theorem parse_value_int_roundtrip:
  assumes "list_all is_space ws" and "rest = [] \<or> \<not> is_digit (hd rest)"
  shows "parse_value_int (ws @ decimal_int v @ rest) = (if - 2147483648 \<le> v \<and> v < 2147483648 then Some v else None) \<and>
    parse_value_int64 (ws @ decimal_int v @ rest) =
      (if - 9223372036854775808 \<le> v \<and> v < 9223372036854775808 then Some v else None)"
  using sto_decimal [OF assms, of 32 v] sto_decimal [OF assms, of 64 v]
  by (simp add: parse_value_int_def parse_value_int64_def)

theorem parse_value_int_roundtrip_witness:
  "list_all is_space '' '' \<and> parse_value_int ('' '' @ decimal_int 80 @ ''x'') = Some 80 \<and> decimal_int 80 = ''80''"
proof -
  have "list_all is_space '' ''" "''x'' = [] \<or> \<not> is_digit (hd ''x'')" by code_simp+
  moreover have "decimal_int 80 = ''80''" by code_simp
  ultimately show ?thesis using parse_value_int_roundtrip [of "'' ''" "''x''" 80] by simp
qed

text \<open>
  The service port \<open>load\<close> ends with: the environment variable decides when it is set, even when it does not
  parse (then the default is taken, not the file); otherwise the entry of the file decides; otherwise 8899.
\<close>

theorem load_service_port:
  assumes "load h path c = (True, c')"
  shows "cfg_serviceServerPort c' =
    (let env = get_env h ''SERVICE_SERVER_PORT'';
         entry = map_of (cfg_custom_config c') (cfg_serviceName c' @ ''.server.service_server_port'')
     in if env \<noteq> [] then (case parse_value_int env of None \<Rightarrow> 8899 | Some v \<Rightarrow> v)
        else case entry of None \<Rightarrow> 8899
             | Some raw \<Rightarrow> (case parse_value_int raw of None \<Rightarrow> 8899 | Some v \<Rightarrow> v))"
proof -
  obtain c2 custom where c': "c' = load_preloads h (c2\<lparr>cfg_custom_config := custom\<rparr>)"
    using assms by (auto simp: load_def Let_def split: if_splits option.splits)
  show ?thesis
    by (simp add: c' load_preloads_def Let_def optional_preload_def get_app_config_def config_get_def)
qed

definition demo_host :: host where
  "demo_host = \<lparr>flag_cat_domain = ''cat'', flag_service_name = ''echo'', flag_enable_cat_monitor = True,
     get_env = (\<lambda>n. if n = ''SERVICE_SERVER_PORT'' then ''90'' else []), file_exist = (\<lambda>_. True),
     read_file_content = (\<lambda>_. ''{}''), from_json_string = (\<lambda>_. Some [])\<rparr>"

definition demo_configuration :: server_configuration where
  "demo_configuration = \<lparr>cfg_appSoPath = [], cfg_serverMethodMaxConcurrency = [], cfg_pnsEtcdAddress = [],
     cfg_pnsEtcdPath = [], cfg_catDomain = [], cfg_serviceName = [], cfg_heartbeatServerPort = 0,
     cfg_serviceServerPort = 0, cfg_custom_config = []\<rparr>"

theorem load_service_port_witness:
  "fst (load demo_host ''sw.json'' demo_configuration) \<and>
   cfg_serviceServerPort (snd (load demo_host ''sw.json'' demo_configuration)) = 90"
proof -
  let ?r = "load demo_host ''sw.json'' demo_configuration"
  have t: "fst ?r" by code_simp
  then have "?r = (True, snd ?r)" by (simp add: prod_eq_iff)
  from load_service_port [OF this] have "cfg_serviceServerPort (snd ?r) = (case parse_value_int ''90'' of None \<Rightarrow> 8899 | Some v \<Rightarrow> v)"
    by (simp add: demo_host_def Let_def)
  moreover have "parse_value_int ''90'' = Some 90" by code_simp
  ultimately show ?thesis using t by simp
qed

text \<open>
  \<open>load\<close> succeeds exactly when a service name is given by flag or environment, a cat domain is given or the
  monitor is off, and the file exists and decodes; a failed \<open>load\<close> keeps the ports and the file entries of before.
\<close>

theorem load_succeeds_iff:
  "(fst (load h path c) \<longleftrightarrow>
      (flag_service_name h \<noteq> [] \<or> get_env h ''SERVICE_NAME'' \<noteq> []) \<and>
      (flag_enable_cat_monitor h \<longrightarrow> flag_cat_domain h \<noteq> []) \<and>
      file_exist h path \<and> from_json_string h (read_file_content h path) \<noteq> None) \<and>
   (\<not> fst (load h path c) \<longrightarrow>
      cfg_custom_config (snd (load h path c)) = cfg_custom_config c \<and>
      cfg_serviceServerPort (snd (load h path c)) = cfg_serviceServerPort c \<and>
      cfg_heartbeatServerPort (snd (load h path c)) = cfg_heartbeatServerPort c)"
  by (auto simp: load_def Let_def split: option.splits)

theorem load_succeeds_iff_witness:
  "\<not> fst (load (demo_host\<lparr>file_exist := (\<lambda>_. False)\<rparr>) ''sw.json'' demo_configuration) \<and>
   cfg_serviceServerPort (snd (load (demo_host\<lparr>file_exist := (\<lambda>_. False)\<rparr>) ''sw.json'' demo_configuration)) = 0"
  using load_succeeds_iff [of "demo_host\<lparr>file_exist := (\<lambda>_. False)\<rparr>" "''sw.json''" demo_configuration]
  by (simp add: demo_configuration_def)

end
