(* ===== verification/RpcComponent.thy ===== *)
theory RpcComponent
  imports TopologyManager ServerConfig
begin

text \<open>
  \<open>DAG/sw/server/component/RpcComponentImpl.cpp\<close>: the four shapes of a topology description and how each is
  packed into the general one, loading topologies and outgoing calls from a configuration, and the serving list.

  Protobuf (descriptor pools, the JSON decoder), brpc and \<open>ChannelManager\<close> are not part of the repository: they
  are the fields of \<open>rpc_env\<close> and \<open>channel_ops\<close>.  Method descriptors and prototypes are named by strings;
  a null pointer is \<^const>\<open>None\<close>.
\<close>

section \<open>Packing\<close>

record minimal_topology =
  mini_name :: string
  mini_element :: "string list"

record simple_topology =
  simple_name :: string
  simple_element :: "(string \<times> (string \<times> string) list) list"

record semi_sequential_topology =
  semi_name :: string
  semi_element :: "topology_element list"
  semi_custom_params :: "(string \<times> string) list"

fun chain_minimal :: "string \<Rightarrow> string list \<Rightarrow> topology_element list" where
  "chain_minimal prev [] = []"
| "chain_minimal prev (e # es) =
     \<lparr>el_name = e, el_dependency = (if prev \<noteq> [] then [prev] else []), el_allow_parallel = False, el_custom_params = []\<rparr>
     # chain_minimal e es"

definition pack_minimal_topology :: "proto_module list \<Rightarrow> minimal_topology \<Rightarrow> topology_config option" where
  "pack_minimal_topology ms t =
     Some \<lparr>tc_module = ms,
           tc_topology = \<lparr>rt_name = mini_name t, rt_element = chain_minimal [] (mini_element t), rt_custom_params = []\<rparr>\<rparr>"

fun chain_simple :: "string \<Rightarrow> (string \<times> (string \<times> string) list) list \<Rightarrow> topology_element list" where
  "chain_simple prev [] = []"
| "chain_simple prev ((e, ps) # es) =
     \<lparr>el_name = e, el_dependency = (if prev \<noteq> [] then [prev] else []), el_allow_parallel = False, el_custom_params = ps\<rparr>
     # chain_simple e es"

definition pack_simple_topology :: "proto_module list \<Rightarrow> simple_topology \<Rightarrow> topology_config option" where
  "pack_simple_topology ms t =
     Some \<lparr>tc_module = ms,
           tc_topology = \<lparr>rt_name = simple_name t, rt_element = chain_simple [] (simple_element t), rt_custom_params = []\<rparr>\<rparr>"

text \<open>The loop over the module list keeps the factory of the last module of that name.\<close>

definition last_factory :: "proto_module list \<Rightarrow> string \<Rightarrow> string" where
  "last_factory ms n = fold (\<lambda>m f. if pm_name m = n then pm_factory_name m else f) ms []"

fun chain_semi :: "(string \<Rightarrow> bool) \<Rightarrow> proto_module list \<Rightarrow> string \<Rightarrow> topology_element list \<Rightarrow> topology_element list option" where
  "chain_semi is_sync ms prev [] = Some []"
| "chain_semi is_sync ms prev (e # es) =
     (let added = \<lparr>el_name = el_name e,
                   el_dependency = (if prev \<noteq> [] \<and> prev \<notin> set (el_dependency e) then el_dependency e @ [prev]
                                    else el_dependency e),
                   el_allow_parallel = False, el_custom_params = el_custom_params e\<rparr>;
          factory_name = last_factory ms (el_name e)
      in if factory_name = [] then None
         else case chain_semi is_sync ms (if is_sync factory_name then el_name e else prev) es of
                None \<Rightarrow> None | Some rest \<Rightarrow> Some (added # rest))"

definition pack_semi_sequential_topology ::
  "(string \<Rightarrow> bool) \<Rightarrow> proto_module list \<Rightarrow> semi_sequential_topology \<Rightarrow> topology_config option" where
  "pack_semi_sequential_topology is_sync ms t =
     (case chain_semi is_sync ms [] (semi_element t) of
        None \<Rightarrow> None
      | Some els \<Rightarrow> Some \<lparr>tc_module = ms,
          tc_topology = \<lparr>rt_name = semi_name t, rt_element = els, rt_custom_params = semi_custom_params t\<rparr>\<rparr>)"

definition pack_runnable_topology :: "proto_module list \<Rightarrow> runnable_topology \<Rightarrow> topology_config option" where
  "pack_runnable_topology ms t = Some \<lparr>tc_module = ms, tc_topology = t\<rparr>"

section \<open>Component state\<close>

record topology_file =
  tf_module :: "proto_module list"
  tf_minimal :: "minimal_topology list"
  tf_simple :: "simple_topology list"
  tf_semi :: "semi_sequential_topology list"
  tf_runnable :: "runnable_topology list"

record calling_options =
  co_connect_timeout_ms :: int
  co_timeout_ms :: int
  co_max_retry :: int
  co_protocol :: string
  co_load_balancer_name :: string
  co_etcd_address :: string
  co_etcd_path :: string
  co_meta_message_name :: string
  co_naming_service_tag :: string
  co_backup_request_ms :: int

text \<open>A message with optional fields: \<open>has_x()\<close> is \<open>\<noteq> None\<close>.\<close>

record rpc_call =
  rc_name :: "string option"
  rc_naming_service_uri :: "string option"
  rc_remote_method_full_name :: string
  rc_connect_timeout_ms :: "int option"
  rc_timeout_ms :: "int option"
  rc_max_retry :: "int option"
  rc_protocol :: "string option"
  rc_load_balancer_name :: "string option"
  rc_meta_message_name :: "string option"
  rc_etcd_address :: "string option"
  rc_etcd_path :: "string option"
  rc_naming_service_tag :: "string option"

record calling_config =
  cc_name :: string
  cc_method_descriptor :: "string option"
  cc_method_full_name :: string
  cc_naming_service_uri :: string
  cc_options :: calling_options
  cc_custom_meta_prototype :: "string option"

record serving_config =
  sv_service :: string
  sv_request_prototype :: string
  sv_response_prototype :: string
  sv_method_name :: string
  sv_topology_name :: string
  sv_has_picker :: bool
  sv_response_compress_type :: int

record serving_options =
  so_has_picker :: bool
  so_response_compress_type :: string

record ('d, 'p) rpc_component =
  rpc_manager :: "('d, 'p) manager"
  rpc_serving_configs :: "serving_config list"
  rpc_raw_services :: "(nat \<times> bool) list"

record rpc_env =
  read_file_to_string :: "string \<Rightarrow> string option"
  json_topology_config :: "string \<Rightarrow> topology_file option"
  json_rpc_call_config :: "string \<Rightarrow> rpc_call list option"
  protocol_is_http :: "string \<Rightarrow> bool"
  has_descriptor_pool :: bool
  has_message_pool :: bool
  find_method :: "string \<Rightarrow> bool"
  find_service_method :: "string \<Rightarrow> string \<Rightarrow> (string \<times> string) option"
  find_service :: "string \<Rightarrow> bool"
  find_message_type :: "string \<Rightarrow> bool"
  get_prototype :: "string \<Rightarrow> string option"
  has_compress_enum :: bool
  compress_type_number :: "string \<Rightarrow> int option"

record 'c channel_ops =
  cm_seek :: "'c \<Rightarrow> string \<Rightarrow> bool"
  cm_add :: "calling_config \<Rightarrow> 'c \<Rightarrow> bool \<times> 'c"

section \<open>Serving\<close>

definition add_raw_service :: "nat \<Rightarrow> bool \<Rightarrow> ('d, 'p) rpc_component \<Rightarrow> bool \<times> ('d, 'p) rpc_component" where
  "add_raw_service service transfer_ownership c =
     (True, c\<lparr>rpc_raw_services := rpc_raw_services c @ [(service, transfer_ownership)]\<rparr>)"

definition add_serving_desc ::
  "rpc_env \<Rightarrow> string \<Rightarrow> string \<Rightarrow> string \<Rightarrow> string \<Rightarrow> string \<Rightarrow> serving_options option \<Rightarrow>
   ('d, 'p) rpc_component \<Rightarrow> bool \<times> ('d, 'p) rpc_component" where
  "add_serving_desc env service request_prototype response_prototype method_name topology_name options c =
     (let config = \<lparr>sv_service = service, sv_request_prototype = request_prototype,
            sv_response_prototype = response_prototype, sv_method_name = method_name, sv_topology_name = topology_name,
            sv_has_picker = False, sv_response_compress_type = 0\<rparr>;
          ok = (\<lambda>config. (True, c\<lparr>rpc_serving_configs := rpc_serving_configs c @ [config]\<rparr>))
      in case options of
           None \<Rightarrow> ok config
         | Some o1 \<Rightarrow>
             let config = config\<lparr>sv_has_picker := so_has_picker o1\<rparr> in
             if so_response_compress_type o1 \<noteq> [] then
               if \<not> has_descriptor_pool env then (False, c)
               else if \<not> has_compress_enum env then (False, c)
               else case compress_type_number env (so_response_compress_type o1) of
                      None \<Rightarrow> (False, c)
                    | Some n \<Rightarrow> ok (config\<lparr>sv_response_compress_type := n\<rparr>)
             else ok config)"

definition add_serving ::
  "rpc_env \<Rightarrow> string \<Rightarrow> string \<Rightarrow> string \<Rightarrow> serving_options option \<Rightarrow>
   ('d, 'p) rpc_component \<Rightarrow> bool \<times> ('d, 'p) rpc_component" where
  "add_serving env service_full_name method_name topology_name options c =
     (if \<not> has_descriptor_pool env then (False, c)
      else if \<not> has_message_pool env then (False, c)
      else if \<not> find_service env service_full_name then (False, c)
      else case find_service_method env service_full_name method_name of
        None \<Rightarrow> (False, c)
      | Some (input_type, output_type) \<Rightarrow>
          (case get_prototype env input_type of
             None \<Rightarrow> (False, c)
           | Some request_prototype \<Rightarrow>
               (case get_prototype env output_type of
                  None \<Rightarrow> (False, c)
                | Some response_prototype \<Rightarrow>
                    add_serving_desc env service_full_name request_prototype response_prototype
                      method_name topology_name options c)))"

definition rpc_clear :: "('d, 'p) rpc_component \<Rightarrow> ('d, 'p) rpc_component" where
  "rpc_clear c = c\<lparr>rpc_serving_configs := [], rpc_raw_services := []\<rparr>"

section \<open>Topologies\<close>

datatype load_result = LoadFailed | LoadBlocked | LoadOk

fun add_packed :: "'d dbd_ops \<Rightarrow> 'p sw_env \<Rightarrow> topology_config option list \<Rightarrow> ('d, 'p) manager \<Rightarrow> load_result \<times> ('d, 'p) manager" where
  "add_packed ops env [] g = (LoadOk, g)"
| "add_packed ops env (None # ps) g = (LoadFailed, g)"
| "add_packed ops env (Some packed # ps) g =
     (case add_topology ops env packed g of
        (Failed e, g') \<Rightarrow> (LoadFailed, g')
      | (Blocked, g') \<Rightarrow> (LoadBlocked, g')
      | (Done, g') \<Rightarrow> add_packed ops env ps g')"

fun add_modules :: "proto_module list \<Rightarrow> ('d, 'p) manager \<Rightarrow> bool \<times> ('d, 'p) manager" where
  "add_modules [] g = (True, g)"
| "add_modules (m # ms) g = (case add_module m g of (ok, g') \<Rightarrow> if ok then add_modules ms g' else (False, g'))"

text \<open>The topologies of a file in the order in which they are added; a topology is packed when its turn comes, which
  makes no difference because packing reads only the module list and the registry.\<close>

definition packed_topologies :: "(string \<Rightarrow> bool) \<Rightarrow> topology_file \<Rightarrow> topology_config option list" where
  "packed_topologies is_sync f =
     map (pack_minimal_topology (tf_module f)) (tf_minimal f) @
     map (pack_simple_topology (tf_module f)) (tf_simple f) @
     map (pack_semi_sequential_topology is_sync (tf_module f)) (tf_semi f) @
     map (pack_runnable_topology (tf_module f)) (tf_runnable f)"

definition rpc_add_topology ::
  "'d dbd_ops \<Rightarrow> 'p sw_env \<Rightarrow> string \<Rightarrow> runnable_element list \<Rightarrow> ('d, 'p) rpc_component \<Rightarrow> outcome \<times> ('d, 'p) rpc_component" where
  "rpc_add_topology ops env name desc c =
     (case add_topology_desc ops env name desc [] (rpc_manager c) of (r, g) \<Rightarrow> (r, c\<lparr>rpc_manager := g\<rparr>))"

definition fetch_content :: "host \<Rightarrow> server_configuration \<Rightarrow> rpc_env \<Rightarrow> string \<Rightarrow> bool \<Rightarrow> string option" where
  "fetch_content h cfg env config_or_file_path is_config_path =
     (if is_config_path then config_get h cfg config_or_file_path []
      else read_file_to_string env config_or_file_path)"

definition add_topology_file ::
  "'d dbd_ops \<Rightarrow> 'p sw_env \<Rightarrow> bool \<Rightarrow> topology_file \<Rightarrow> ('d, 'p) manager \<Rightarrow> load_result \<times> ('d, 'p) manager" where
  "add_topology_file ops env bind_biz f g =
     (let (ok, g1) = (if bind_biz then add_modules (tf_module f) g else (True, g))
      in if \<not> ok then (LoadFailed, g1)
         else add_packed ops env
                (packed_topologies (is_sync_module (red_enable_tr2 env) (factory_traits (mg_app_registry g1))) f) g1)"

definition add_topology_config ::
  "'d dbd_ops \<Rightarrow> 'p sw_env \<Rightarrow> bool \<Rightarrow> host \<Rightarrow> server_configuration \<Rightarrow> rpc_env \<Rightarrow> string \<Rightarrow> bool \<Rightarrow>
   ('d, 'p) rpc_component \<Rightarrow> load_result \<times> ('d, 'p) rpc_component" where
  "add_topology_config ops env bind_biz h cfg renv path is_config_path c =
     (case fetch_content h cfg renv path is_config_path of
        None \<Rightarrow> (LoadFailed, c)
      | Some content \<Rightarrow>
          (case json_topology_config renv content of
             None \<Rightarrow> (LoadFailed, c)
           | Some f \<Rightarrow>
               (case add_topology_file ops env bind_biz f (rpc_manager c) of
                  (r, g) \<Rightarrow> (r, c\<lparr>rpc_manager := g\<rparr>))))"

section \<open>Outgoing calls\<close>

definition default_calling_options :: calling_options where
  "default_calling_options =
     \<lparr>co_connect_timeout_ms = 200, co_timeout_ms = 500, co_max_retry = 0, co_protocol = ''baidu_std'',
      co_load_balancer_name = ''rr'', co_etcd_address = [], co_etcd_path = [], co_meta_message_name = [],
      co_naming_service_tag = [], co_backup_request_ms = 0\<rparr>"

definition is_pb_service :: "rpc_env \<Rightarrow> string \<Rightarrow> bool" where
  "is_pb_service env protocol \<longleftrightarrow> \<not> protocol_is_http env protocol"

definition find_protobuf_method :: "rpc_env \<Rightarrow> string \<Rightarrow> string option" where
  "find_protobuf_method env full_method_name =
     (if \<not> has_descriptor_pool env then None
      else if \<not> has_message_pool env then None
      else if find_method env full_method_name then Some full_method_name else None)"

definition meta_prototype :: "rpc_env \<Rightarrow> string \<Rightarrow> string option option" where
  "meta_prototype env meta_message_name =
     (if meta_message_name = [] then Some None
      else if \<not> has_descriptor_pool env then None
      else if \<not> has_message_pool env then None
      else if \<not> find_message_type env meta_message_name then None
      else case get_prototype env meta_message_name of None \<Rightarrow> None | Some p \<Rightarrow> Some (Some p))"

definition add_calling ::
  "'c channel_ops \<Rightarrow> rpc_env \<Rightarrow> string \<Rightarrow> string option \<Rightarrow> string \<Rightarrow> string \<Rightarrow> calling_options \<Rightarrow> 'c \<Rightarrow> bool \<times> 'c" where
  "add_calling chan env name method_descriptor method_full_name naming_service_uri options cm =
     (if name = [] then (False, cm)
      else if naming_service_uri = [] then (False, cm)
      else if cm_seek chan cm name then (False, cm)
      else if method_descriptor \<noteq> None \<and> method_full_name \<noteq> [] \<and> method_descriptor \<noteq> Some method_full_name then (False, cm)
      else
        let search = (method_descriptor = None \<and> method_full_name \<noteq> [] \<and> is_pb_service env (co_protocol options));
            md = (if search then find_protobuf_method env method_full_name else method_descriptor)
        in if search \<and> md = None then (False, cm)
           else
             let full_method_name =
                   (case md of Some d \<Rightarrow> if method_full_name = [] then d else method_full_name | None \<Rightarrow> method_full_name)
             in case meta_prototype env (co_meta_message_name options) of
                  None \<Rightarrow> (False, cm)
                | Some custom \<Rightarrow>
                    cm_add chan \<lparr>cc_name = name, cc_method_descriptor = md, cc_method_full_name = full_method_name,
                      cc_naming_service_uri = naming_service_uri, cc_options = options, cc_custom_meta_prototype = custom\<rparr> cm)"

definition add_calling_by_descriptor ::
  "'c channel_ops \<Rightarrow> rpc_env \<Rightarrow> string \<Rightarrow> string option \<Rightarrow> string \<Rightarrow> calling_options option \<Rightarrow> 'c \<Rightarrow> bool \<times> 'c" where
  "add_calling_by_descriptor chan env name method_descriptor uri options cm =
     add_calling chan env name method_descriptor [] uri
       (case options of None \<Rightarrow> default_calling_options | Some o1 \<Rightarrow> o1) cm"

definition add_calling_by_name ::
  "'c channel_ops \<Rightarrow> rpc_env \<Rightarrow> string \<Rightarrow> string \<Rightarrow> string \<Rightarrow> calling_options option \<Rightarrow> 'c \<Rightarrow> bool \<times> 'c" where
  "add_calling_by_name chan env name method_full_name uri options cm =
     add_calling chan env name None method_full_name uri
       (case options of None \<Rightarrow> default_calling_options | Some o1 \<Rightarrow> o1) cm"

definition or_default :: "'a option \<Rightarrow> 'a \<Rightarrow> 'a" where
  "or_default v d = (case v of None \<Rightarrow> d | Some x \<Rightarrow> x)"

definition call_options :: "rpc_call \<Rightarrow> calling_options" where
  "call_options c =
     (let d = default_calling_options in
      \<lparr>co_connect_timeout_ms = or_default (rc_connect_timeout_ms c) (co_connect_timeout_ms d),
       co_timeout_ms = or_default (rc_timeout_ms c) (co_timeout_ms d),
       co_max_retry = or_default (rc_max_retry c) (co_max_retry d),
       co_protocol = or_default (rc_protocol c) (co_protocol d),
       co_load_balancer_name = or_default (rc_load_balancer_name c) (co_load_balancer_name d),
       co_etcd_address = or_default (rc_etcd_address c) (co_etcd_address d),
       co_etcd_path = or_default (rc_etcd_path c) (co_etcd_path d),
       co_meta_message_name = or_default (rc_meta_message_name c) (co_meta_message_name d),
       co_naming_service_tag = or_default (rc_naming_service_tag c) (co_naming_service_tag d),
       co_backup_request_ms = co_backup_request_ms d\<rparr>)"

fun add_calls :: "'c channel_ops \<Rightarrow> rpc_env \<Rightarrow> rpc_call list \<Rightarrow> 'c \<Rightarrow> bool \<times> 'c" where
  "add_calls chan env [] cm = (True, cm)"
| "add_calls chan env (c # cs) cm =
     (if or_default (rc_name c) [] = [] then (False, cm)
      else if or_default (rc_naming_service_uri c) [] = [] then (False, cm)
      else case add_calling_by_name chan env (or_default (rc_name c) []) (rc_remote_method_full_name c)
                  (or_default (rc_naming_service_uri c) []) (Some (call_options c)) cm of
             (ok, cm') \<Rightarrow> if ok then add_calls chan env cs cm' else (False, cm'))"

definition add_calling_config ::
  "'c channel_ops \<Rightarrow> host \<Rightarrow> server_configuration \<Rightarrow> rpc_env \<Rightarrow> string \<Rightarrow> bool \<Rightarrow> 'c \<Rightarrow> bool \<times> 'c" where
  "add_calling_config chan h cfg env path is_config_path cm =
     (case fetch_content h cfg env path is_config_path of
        None \<Rightarrow> (False, cm)
      | Some content \<Rightarrow>
          (case json_rpc_call_config env content of None \<Rightarrow> (False, cm) | Some calls \<Rightarrow> add_calls chan env calls cm))"

definition has_calling :: "'c channel_ops \<Rightarrow> 'c \<Rightarrow> string \<Rightarrow> bool" where
  "has_calling chan cm name = cm_seek chan cm name"

section \<open>Orders that respect dependencies\<close>

text \<open>\<open>runs_before desc x y\<close>: in the description, the module \<open>x\<close> stands before the module \<open>y\<close>.\<close>

definition runs_before :: "runnable_element list \<Rightarrow> string \<Rightarrow> string \<Rightarrow> bool" where
  "runs_before desc x y \<longleftrightarrow> (\<exists>b < length desc. \<exists>a < b. re_name (desc ! a) = x \<and> re_name (desc ! b) = y)"

lemma runs_before_trans:
  assumes d: "distinct (map re_name desc)" and "runs_before desc x y" and "runs_before desc y z"
  shows "runs_before desc x z"
proof -
  obtain a b c e where "b < length desc" "a < b" "re_name (desc ! a) = x" "re_name (desc ! b) = y"
      "e < length desc" "c < e" "re_name (desc ! c) = y" "re_name (desc ! e) = z"
    using assms(2,3) by (auto simp: runs_before_def)
  moreover from this have "b = c"
    using d by (auto simp: distinct_conv_nth) (metis less_trans)
  ultimately show ?thesis unfolding runs_before_def by (metis less_trans)
qed

lemma desc_ok_facts:
  assumes ok: "desc_ok globals packed desc" and d: "distinct (map el_name (rt_element (tc_topology packed)))"
  shows "distinct (map re_name desc)" and "length desc = length (rt_element (tc_topology packed))"
    and "set (map re_name desc) = el_name ` set (rt_element (tc_topology packed))"
    and "e \<in> set (rt_element (tc_topology packed)) \<Longrightarrow> x \<in> set (el_dependency e) \<Longrightarrow> runs_before desc x (el_name e)"
proof -
  let ?els = "rt_element (tc_topology packed)"
  obtain ord where ord: "mset ord = mset ?els" "list_all2 (runnable_of globals packed) ord desc"
    and dep: "\<forall>i < length desc. \<forall>d \<in> set (re_dependencies (desc ! i)). \<exists>j < i. re_name (desc ! j) = d"
    using ok by (auto simp: desc_ok_def)
  have len: "length ord = length desc" using ord(2) by (rule list_all2_lengthD)
  have nth: "re_name (desc ! i) = el_name (ord ! i) \<and> re_dependencies (desc ! i) = el_dependency (ord ! i)" if "i < length ord" for i
    using list_all2_nthD [OF ord(2) that] by (simp add: runnable_of_def)
  then have names: "map re_name desc = map el_name ord" using len by (simp add: list_eq_iff_nth_eq)
  have m: "mset (map el_name ord) = mset (map el_name ?els)" using ord(1) by simp
  show "distinct (map re_name desc)"
    using d m unfolding names by (metis mset_eq_imp_distinct_iff)
  show "length desc = length ?els" using len ord(1) by (metis size_mset)
  show "set (map re_name desc) = el_name ` set ?els" using m unfolding names by (metis set_map set_mset_mset)
  show "runs_before desc x (el_name e)" if e: "e \<in> set ?els" and x: "x \<in> set (el_dependency e)"
  proof -
    have "e \<in> set ord" using e ord(1) by (metis set_mset_mset)
    then obtain i where i: "i < length ord" "ord ! i = e" by (auto simp: in_set_conv_nth)
    then obtain j where "j < i" "re_name (desc ! j) = x" using dep x nth [OF i(1)] len by metis
    then show ?thesis using i nth [OF i(1)] len by (auto simp: runs_before_def)
  qed
qed

lemma increasing_self:
  assumes "\<And>i. Suc i < n \<Longrightarrow> f i < f (Suc i)" and "\<And>i. i < n \<Longrightarrow> f i < n" and "i < n"
  shows "f i = (i::nat)"
proof (rule antisym)
  show "i \<le> f i" using assms(3)
  proof (induction i)
    case (Suc i)
    then show ?case using assms(1) [of i] by simp
  qed simp
  have up: "f k + (m - k) \<le> f m" if "k \<le> m" "m < n" for k m
    using that
  proof (induction m)
    case (Suc m)
    then show ?case using assms(1) [of m] by (cases "k = Suc m") (auto simp: Suc_diff_le)
  qed simp
  have "f i + (n - 1 - i) \<le> f (n - 1)" using up [of i "n - 1"] assms(3) by simp
  moreover have "f (n - 1) < n" using assms(2,3) by simp
  ultimately show "f i \<le> i" using assms(3) by linarith
qed

text \<open>A chain admits one order only.\<close>

lemma chain_order:
  assumes d: "distinct (map re_name desc)" and len: "length xs = length desc"
    and chain: "\<And>i. Suc i < length xs \<Longrightarrow> runs_before desc (xs ! i) (xs ! Suc i)"
    and mem: "set xs = set (map re_name desc)"
  shows "map re_name desc = xs"
proof -
  let ?P = "\<lambda>i k. k < length desc \<and> re_name (desc ! k) = xs ! i"
  define f where "f i = (SOME k. ?P i k)" for i
  have f: "?P i (f i)" if "i < length xs" for i
  proof -
    have "xs ! i \<in> set (map re_name desc)" using that mem nth_mem by blast
    then have "\<exists>k. ?P i k" by (force simp: in_set_conv_nth)
    then show ?thesis unfolding f_def by (rule someI_ex)
  qed
  have uniq: "k = m" if "?P i k" "?P i m" for i k m
    using d that by (auto simp: distinct_conv_nth) metis
  have "f i < f (Suc i)" if i: "Suc i < length xs" for i
  proof -
    obtain a b where "b < length desc" "a < b" "re_name (desc ! a) = xs ! i" "re_name (desc ! b) = xs ! Suc i"
      using chain [OF i] by (auto simp: runs_before_def)
    then show ?thesis using uniq [of a i "f i"] uniq [of b "Suc i" "f (Suc i)"] f [of i] f [of "Suc i"] i by auto
  qed
  then have "f i = i" if "i < length xs" for i
    using that f len by (intro increasing_self [of "length xs" f]) auto
  then show ?thesis using f len by (auto simp: list_eq_iff_nth_eq)
qed

lemma chain_minimal_nth:
  "map el_name (chain_minimal prev es) = es"
  "i < length es \<Longrightarrow> el_dependency (chain_minimal prev es ! i) =
     (let p = (if i = 0 then prev else es ! (i - 1)) in if p \<noteq> [] then [p] else [])"
proof -
  show "map el_name (chain_minimal prev es) = es" by (induction prev es rule: chain_minimal.induct) auto
  show "i < length es \<Longrightarrow> el_dependency (chain_minimal prev es ! i) =
     (let p = (if i = 0 then prev else es ! (i - 1)) in if p \<noteq> [] then [p] else [])"
  proof (induction prev es arbitrary: i rule: chain_minimal.induct)
    case (2 prev e es)
    then show ?case by (cases i; cases "i - 1") (auto simp: Let_def)
  qed simp
qed

lemma chain_simple_minimal:
  "map el_name (chain_simple prev es) = map el_name (chain_minimal prev (map fst es)) \<and>
   map el_dependency (chain_simple prev es) = map el_dependency (chain_minimal prev (map fst es))"
  by (induction prev es rule: chain_simple.induct) auto

lemma plan_desc_facts:
  assumes "plan_topology env reg globals packed = Inr t"
  shows "desc_ok globals packed (mt_desc t)" and "distinct (map el_name (rt_element (tc_topology packed)))"
proof -
  show "desc_ok globals packed (mt_desc t)" using plan_topology_desc [OF assms] by simp
  have "config_ok globals packed" using assms plan_topology_iff by blast
  then show "distinct (map el_name (rt_element (tc_topology packed)))" by (simp add: config_ok_def Let_def)
qed

lemma chained_order:
  assumes plan: "plan_topology env reg globals packed = Inr t"
    and els: "map el_name (rt_element (tc_topology packed)) = es"
      "map el_dependency (rt_element (tc_topology packed)) = map el_dependency (chain_minimal [] es)"
    and ne: "[] \<notin> set es"
  shows "map re_name (mt_desc t) = es"
proof (rule chain_order)
  let ?els = "rt_element (tc_topology packed)"
  note f = desc_ok_facts [OF plan_desc_facts [OF plan]]
  have l: "length ?els = length es" using els(1) by (metis length_map)
  show "distinct (map re_name (mt_desc t))" by (rule f(1))
  show "length es = length (mt_desc t)" using f(2) l by simp
  show "set es = set (map re_name (mt_desc t))" using f(3) els(1) by auto
  show "runs_before (mt_desc t) (es ! i) (es ! Suc i)" if i: "Suc i < length es" for i
  proof -
    have "el_dependency (?els ! Suc i) = el_dependency (chain_minimal [] es ! Suc i)"
      using els(2) i l chain_minimal_nth(1) [of "[]" es] by (metis length_map nth_map)
    also have "\<dots> = [es ! i]"
      using chain_minimal_nth(2) [OF i, of "[]"] ne i by (auto simp: Let_def) (metis Suc_lessD nth_mem)
    finally have "es ! i \<in> set (el_dependency (?els ! Suc i))" by simp
    moreover have "el_name (?els ! Suc i) = es ! Suc i" using els(1) i l by (metis nth_map)
    ultimately show ?thesis using f(4) [of "?els ! Suc i" "es ! i"] i l by simp
  qed
qed

lemma last_factory_snoc [simp]:
  "last_factory (ms @ [m]) n = (if pm_name m = n then pm_factory_name m else last_factory ms n)"
  by (simp add: last_factory_def)

text \<open>In the packed form of a semi-sequential topology an element depends on the synchronous element closest
  before it.\<close>

lemma chain_semi_spec:
  assumes "chain_semi is_sync ms prev es = Some out" and "[] \<notin> el_name ` set es"
  shows "map el_name out = map el_name es \<and>
    (\<forall>j < length es. \<forall>i < j. is_sync (last_factory ms (el_name (es ! i))) \<longrightarrow>
       (\<exists>k. i \<le> k \<and> k < j \<and> is_sync (last_factory ms (el_name (es ! k))) \<and> el_name (es ! k) \<in> set (el_dependency (out ! j)))) \<and>
    (prev \<noteq> [] \<longrightarrow> (\<forall>j < length es. (\<forall>i < j. \<not> is_sync (last_factory ms (el_name (es ! i)))) \<longrightarrow> prev \<in> set (el_dependency (out ! j))))"
  using assms
proof (induction is_sync ms prev es arbitrary: out rule: chain_semi.induct)
  case (1 is_sync ms prev)
  then show ?case by simp
next
  case (2 is_sync ms prev e es)
  define p where "p = (if is_sync (last_factory ms (el_name e)) then el_name e else prev)"
  obtain rest added where r: "chain_semi is_sync ms p es = Some rest" "out = added # rest" "el_name added = el_name e"
      "prev \<noteq> [] \<longrightarrow> prev \<in> set (el_dependency added)" "last_factory ms (el_name e) \<noteq> []"
    using 2(2) by (auto simp: Let_def p_def split: if_splits option.splits)
  have ne: "[] \<notin> el_name ` set es" "el_name e \<noteq> []" using 2(3) by auto
  note IH = 2(1) [OF refl refl r(5), folded p_def, OF r(1) ne(1)]
  have names: "map el_name out = map el_name (e # es)" using IH r by simp
  have "\<exists>k. i \<le> k \<and> k < j \<and> is_sync (last_factory ms (el_name ((e # es) ! k))) \<and> el_name ((e # es) ! k) \<in> set (el_dependency (out ! j))"
    if j: "j < length (e # es)" and i: "i < j" and s: "is_sync (last_factory ms (el_name ((e # es) ! i)))" for i j
  proof -
    obtain j' where j': "j = Suc j'" "j' < length es" using i j by (cases j) auto
    show ?thesis
    proof (cases "\<exists>m < j'. is_sync (last_factory ms (el_name (es ! m)))")
      case True
      define m where "m = (if i = 0 then (SOME m. m < j' \<and> is_sync (last_factory ms (el_name (es ! m)))) else i - 1)"
      have "m < j' \<and> is_sync (last_factory ms (el_name (es ! m)))"
        using someI_ex [OF True] s i j' by (cases i) (auto simp: m_def)
      then obtain k where k: "m \<le> k" "k < j'" "is_sync (last_factory ms (el_name (es ! k)))" "el_name (es ! k) \<in> set (el_dependency (rest ! j'))"
        using IH j'(2) by blast
      then show ?thesis using j' r(2) i by (intro exI [of _ "Suc k"]) (auto simp: m_def split: if_splits)
    next
      case False
      have "i = 0"
      proof (rule ccontr)
        assume "i \<noteq> 0"
        then obtain m where "i = Suc m" using not0_implies_Suc by blast
        then show False using False s i j'(1) by auto
      qed
      then have "p = el_name e" using s by (simp add: p_def)
      then have "el_name e \<in> set (el_dependency (rest ! j'))" using IH False j'(2) ne(2) by auto
      then show ?thesis using \<open>i = 0\<close> s j' r(2) by (intro exI [of _ 0]) auto
    qed
  qed
  moreover have "prev \<in> set (el_dependency (out ! j))"
    if "prev \<noteq> []" "j < length (e # es)" "\<forall>i < j. \<not> is_sync (last_factory ms (el_name ((e # es) ! i)))" for j
  proof (cases j)
    case 0
    then show ?thesis using r that by simp
  next
    case (Suc j')
    then have "p = prev" using that(3) by (auto simp: p_def)
    moreover have "\<forall>i < j'. \<not> is_sync (last_factory ms (el_name (es ! i)))" using that(3) Suc by auto
    ultimately show ?thesis using IH that Suc r(2) by auto
  qed
  ultimately show ?case using names by auto
qed

section \<open>Loading files\<close>

lemma add_packed_inv:
  "dbd_laws ops ok \<Longrightarrow> mgr_inv ops ok g \<Longrightarrow> add_packed ops env ps g = (r, g') \<Longrightarrow> r \<noteq> LoadBlocked \<Longrightarrow>
    mgr_inv ops ok g' \<and> (\<forall>n. topology_of ops g n \<noteq> None \<longrightarrow> topology_of ops g' n \<noteq> None) \<and>
    (r = LoadOk \<longrightarrow> (\<forall>p \<in> set ps. \<exists>packed. p = Some packed \<and> topology_of ops g' (rt_name (tc_topology packed)) \<noteq> None))"
proof (induction ops env ps g rule: add_packed.induct)
  case (3 ops env packed ps g)
  obtain o1 g1 where a: "add_topology ops env packed g = (o1, g1)" by fastforce
  show ?case
  proof (cases o1)
    case (Failed e)
    then have f: "topology_of ops g1 = topology_of ops g \<and> mgr_inv ops ok g1"
      using add_topology_failure_inv [OF 3(2,3)] a by simp
    then show ?thesis using 3(4) a Failed by auto
  next
    case Blocked
    then show ?thesis using 3(4,5) a by auto
  next
    case Done
    have s: "mgr_inv ops ok g1" "\<exists>t. topology_of ops g1 = (topology_of ops g)(rt_name (tc_topology packed) \<mapsto> t)"
      using add_topology_done_inv [OF 3(2,3)] a Done by blast+
    have "add_packed ops env ps g1 = (r, g')" using 3(4) a Done by simp
    then show ?thesis using 3(1) [OF a [symmetric] Done 3(2) s(1)] s(2) 3(5) by fastforce
  qed
qed auto

lemma add_modules_frame:
  "add_modules ms g = (b, g') \<Longrightarrow> mg_dbd g' = mg_dbd g \<and> mg_heap g' = mg_heap g \<and> mg_next g' = mg_next g \<and> mg_storage g' = mg_storage g"
  by (induction ms g rule: add_modules.induct)
     (auto simp: add_module_def umap_emplace_def split: if_splits option.splits prod.splits)

section \<open>Channels\<close>

text \<open>What is relied on of \<open>ChannelManager\<close>: a channel added is found under its name, and no other name changes;
  a failed addition changes nothing that is found.\<close>

definition channel_laws :: "'c channel_ops \<Rightarrow> bool" where
  "channel_laws chan \<longleftrightarrow>
     (\<forall>cfg cm ok cm'. cm_add chan cfg cm = (ok, cm') \<longrightarrow>
        (\<forall>n. cm_seek chan cm' n = (cm_seek chan cm n \<or> ok \<and> n = cc_name cfg)))"

lemma add_calling_effect:
  assumes "channel_laws chan" and "add_calling chan env name md full uri opts cm = (b, cm')"
  shows "(\<forall>n. cm_seek chan cm' n = (cm_seek chan cm n \<or> b \<and> n = name)) \<and> (b \<longrightarrow> name \<noteq> [] \<and> \<not> cm_seek chan cm name)"
  using assms unfolding add_calling_def channel_laws_def
  by (auto simp: Let_def split: if_splits option.splits)

lemma add_calls_effect:
  assumes "channel_laws chan"
  shows "add_calls chan env cs cm = (b, cm') \<Longrightarrow>
    (\<forall>n. cm_seek chan cm n \<longrightarrow> cm_seek chan cm' n) \<and>
    (b \<longrightarrow> (\<forall>n. cm_seek chan cm' n = (cm_seek chan cm n \<or> n \<in> (\<lambda>c. or_default (rc_name c) []) ` set cs)) \<and>
       distinct (map (\<lambda>c. or_default (rc_name c) []) cs) \<and>
       (\<forall>c \<in> set cs. \<not> cm_seek chan cm (or_default (rc_name c) [])))"
proof (induction cs arbitrary: cm)
  case Nil
  then show ?case by simp
next
  case (Cons c cs)
  show ?case
  proof (cases "or_default (rc_name c) [] = [] \<or> or_default (rc_naming_service_uri c) [] = []")
    case True
    then show ?thesis using Cons.prems by (auto split: if_splits)
  next
    case False
    obtain ok cm1 where a: "add_calling_by_name chan env (or_default (rc_name c) []) (rc_remote_method_full_name c)
        (or_default (rc_naming_service_uri c) []) (Some (call_options c)) cm = (ok, cm1)" by fastforce
    note e = add_calling_effect [OF assms a [unfolded add_calling_by_name_def]]
    show ?thesis
    proof (cases ok)
      case True
      then have "add_calls chan env cs cm1 = (b, cm')" using Cons.prems False a by simp
      from Cons.IH [OF this] e True show ?thesis by auto
    next
      case False
      then show ?thesis using Cons.prems e a \<open>\<not> (or_default (rc_name c) [] = [] \<or> _)\<close> by auto
    qed
  qed
qed

section \<open>Theorems\<close>

text \<open>
  The modules of a minimal topology run in the listed order: whatever order the sort is free to choose, the
  chain of dependencies leaves only this one.
\<close>

theorem minimal_topology_order:
  assumes "pack_minimal_topology ms t = Some packed" and "[] \<notin> set (mini_element t)"
    and "plan_topology env reg globals packed = Inr mt"
  shows "map re_name (mt_desc mt) = mini_element t"
  using assms chain_minimal_nth(1) [of "[]" "mini_element t"]
  by (intro chained_order [OF assms(3)]) (auto simp: pack_minimal_topology_def)

definition demo_minimal :: minimal_topology where
  "demo_minimal = \<lparr>mini_name = ''t'', mini_element = [''b'', ''a'']\<rparr>"

definition demo_modules :: "proto_module list" where
  "demo_modules = [\<lparr>pm_name = ''a'', pm_factory_name = ''fa'', pm_custom_params = []\<rparr>,
                   \<lparr>pm_name = ''b'', pm_factory_name = ''fb'', pm_custom_params = []\<rparr>]"

theorem minimal_topology_order_witness:
  "\<exists>packed mt. pack_minimal_topology demo_modules demo_minimal = Some packed \<and>
     plan_topology demo_env empty_factory_registry [] packed = Inr mt \<and> map re_name (mt_desc mt) = [''b'', ''a'']"
proof -
  let ?p = "the (pack_minimal_topology demo_modules demo_minimal)"
  have p: "pack_minimal_topology demo_modules demo_minimal = Some ?p" by (simp add: pack_minimal_topology_def)
  have "case plan_topology demo_env empty_factory_registry [] ?p of Inl _ \<Rightarrow> False | Inr _ \<Rightarrow> True" by code_simp
  then obtain mt where mt: "plan_topology demo_env empty_factory_registry [] ?p = Inr mt" by (auto split: sum.splits)
  have "[] \<notin> set (mini_element demo_minimal)" by (simp add: demo_minimal_def)
  from minimal_topology_order [OF p this mt] p mt show ?thesis by (auto simp: demo_minimal_def)
qed

text \<open>
  The modules of a simple topology run in the listed order.
\<close>

theorem simple_topology_order:
  assumes "pack_simple_topology ms t = Some packed" and "[] \<notin> fst ` set (simple_element t)"
    and "plan_topology env reg globals packed = Inr mt"
  shows "map re_name (mt_desc mt) = map fst (simple_element t)"
  using assms chain_simple_minimal [of "[]" "simple_element t"] chain_minimal_nth(1) [of "[]" "map fst (simple_element t)"]
  by (intro chained_order [OF assms(3)]) (auto simp: pack_simple_topology_def)

definition demo_simple :: simple_topology where
  "demo_simple = \<lparr>simple_name = ''t'', simple_element = [(''b'', [(''k'', ''v'')]), (''a'', [])]\<rparr>"

theorem simple_topology_order_witness:
  "\<exists>packed mt. pack_simple_topology demo_modules demo_simple = Some packed \<and>
     plan_topology demo_env empty_factory_registry [] packed = Inr mt \<and> map re_name (mt_desc mt) = [''b'', ''a'']"
proof -
  let ?p = "the (pack_simple_topology demo_modules demo_simple)"
  have p: "pack_simple_topology demo_modules demo_simple = Some ?p" by (simp add: pack_simple_topology_def)
  have "case plan_topology demo_env empty_factory_registry [] ?p of Inl _ \<Rightarrow> False | Inr _ \<Rightarrow> True" by code_simp
  then obtain mt where mt: "plan_topology demo_env empty_factory_registry [] ?p = Inr mt" by (auto split: sum.splits)
  have "[] \<notin> fst ` set (simple_element demo_simple)" by (simp add: demo_simple_def)
  from simple_topology_order [OF p this mt] p mt show ?thesis by (auto simp: demo_simple_def)
qed

text \<open>
  In a semi-sequential topology every module runs after each synchronous module listed before it, whatever other
  dependencies the description adds.
\<close>

theorem semi_sequential_order:
  assumes pack: "pack_semi_sequential_topology is_sync ms t = Some packed" and ne: "[] \<notin> el_name ` set (semi_element t)"
    and plan: "plan_topology env reg globals packed = Inr mt"
    and "i < j" and "j < length (semi_element t)"
    and "is_sync (last_factory ms (el_name (semi_element t ! i)))"
  shows "runs_before (mt_desc mt) (el_name (semi_element t ! i)) (el_name (semi_element t ! j))"
proof -
  let ?es = "semi_element t" and ?els = "rt_element (tc_topology packed)"
  have c: "chain_semi is_sync ms [] ?es = Some ?els"
    using pack by (auto simp: pack_semi_sequential_topology_def split: option.splits)
  note spec = chain_semi_spec [OF c ne] and f = desc_ok_facts [OF plan_desc_facts [OF plan]]
  have nm: "el_name (?els ! k) = el_name (?es ! k)" if "k < length ?es" for k
    using spec that by (metis length_map nth_map)
  have len: "length ?els = length ?es" using spec by (metis length_map)
  show ?thesis using assms(4-6)
  proof (induction j arbitrary: i rule: less_induct)
    case (less j)
    obtain k where k: "i \<le> k" "k < j" "is_sync (last_factory ms (el_name (?es ! k)))" "el_name (?es ! k) \<in> set (el_dependency (?els ! j))"
      using spec less.prems by blast
    have kj: "runs_before (mt_desc mt) (el_name (?es ! k)) (el_name (?es ! j))"
      using f(4) [of "?els ! j"] k(4) nm [of j] less.prems(2) len by (metis nth_mem)
    show ?case
    proof (cases "i = k")
      case True
      then show ?thesis using kj by simp
    next
      case False
      then have "runs_before (mt_desc mt) (el_name (?es ! i)) (el_name (?es ! k))"
        using less.IH [OF k(2)] k less.prems by auto
      then show ?thesis using kj runs_before_trans [OF f(1)] by blast
    qed
  qed
qed

definition demo_semi :: semi_sequential_topology where
  "demo_semi = \<lparr>semi_name = ''t'',
     semi_element = [\<lparr>el_name = ''b'', el_dependency = [], el_allow_parallel = False, el_custom_params = []\<rparr>,
                     \<lparr>el_name = ''a'', el_dependency = [], el_allow_parallel = False, el_custom_params = []\<rparr>],
     semi_custom_params = []\<rparr>"

theorem semi_sequential_order_witness:
  "\<exists>packed mt. pack_semi_sequential_topology (\<lambda>_. True) demo_modules demo_semi = Some packed \<and>
     plan_topology demo_env empty_factory_registry [] packed = Inr mt \<and> runs_before (mt_desc mt) ''b'' ''a''"
proof -
  let ?p = "the (pack_semi_sequential_topology (\<lambda>_. True) demo_modules demo_semi)"
  have "pack_semi_sequential_topology (\<lambda>_. True) demo_modules demo_semi \<noteq> None" by code_simp
  then have p: "pack_semi_sequential_topology (\<lambda>_. True) demo_modules demo_semi = Some ?p" by auto
  have "case plan_topology demo_env empty_factory_registry [] ?p of Inl _ \<Rightarrow> False | Inr _ \<Rightarrow> True" by code_simp
  then obtain mt where mt: "plan_topology demo_env empty_factory_registry [] ?p = Inr mt" by (auto split: sum.splits)
  have "[] \<notin> el_name ` set (semi_element demo_semi)" by (simp add: demo_semi_def)
  from semi_sequential_order [OF p this mt, of 0 1] p mt show ?thesis by (auto simp: demo_semi_def)
qed

text \<open>
  Loading a topology file keeps the manager's invariant whether it succeeds or stops at an error, never
  makes a name disappear, and after a success every topology of the file is visible.
\<close>

theorem add_topology_file_effect:
  assumes "dbd_laws ops ok" and "mgr_inv ops ok g" and "add_topology_file ops env bind_biz f g = (r, g')" and "r \<noteq> LoadBlocked"
  shows "mgr_inv ops ok g' \<and> (\<forall>n. topology_of ops g n \<noteq> None \<longrightarrow> topology_of ops g' n \<noteq> None) \<and>
    (r = LoadOk \<longrightarrow>
       (\<forall>n \<in> mini_name ` set (tf_minimal f) \<union> simple_name ` set (tf_simple f) \<union> semi_name ` set (tf_semi f) \<union>
             rt_name ` set (tf_runnable f). contain ops g' n))"
proof -
  obtain b g1 where m: "(if bind_biz then add_modules (tf_module f) g else (True, g)) = (b, g1)" by fastforce
  have fr: "mg_dbd g1 = mg_dbd g" "mg_heap g1 = mg_heap g" "mg_next g1 = mg_next g" "mg_storage g1 = mg_storage g"
    using m add_modules_frame [of "tf_module f" g b g1] by (auto split: if_splits)
  note inv1 = mgr_inv_frame [OF assms(2) fr] and top1 = topology_of_frame [OF fr(1,2), of ops]
  show ?thesis
  proof (cases b)
    case True
    let ?ps = "packed_topologies (is_sync_module (red_enable_tr2 env) (factory_traits (mg_app_registry g1))) f"
    have a: "add_packed ops env ?ps g1 = (r, g')" using assms(3) m True by (simp add: add_topology_file_def)
    note p = add_packed_inv [OF assms(1) inv1 a assms(4)]
    have c: "contain ops g' n" if "r = LoadOk" "p \<in> set ?ps" "\<And>packed. p = Some packed \<Longrightarrow> rt_name (tc_topology packed) = n" for n p
      using that p contain_iff [of ops ok g' n] by blast
    let ?sync = "is_sync_module (red_enable_tr2 env) (factory_traits (mg_app_registry g1))"
    have "contain ops g' n" if ok: "r = LoadOk"
      and n: "n \<in> mini_name ` set (tf_minimal f) \<union> simple_name ` set (tf_simple f) \<union> semi_name ` set (tf_semi f) \<union>
             rt_name ` set (tf_runnable f)" for n
      using n
    proof (elim UnE imageE)
      fix t assume "n = mini_name t" "t \<in> set (tf_minimal f)"
      then show ?thesis
        by (intro c [OF ok, of "pack_minimal_topology (tf_module f) t"]) (auto simp: packed_topologies_def pack_minimal_topology_def)
    next
      fix t assume "n = simple_name t" "t \<in> set (tf_simple f)"
      then show ?thesis
        by (intro c [OF ok, of "pack_simple_topology (tf_module f) t"]) (auto simp: packed_topologies_def pack_simple_topology_def)
    next
      fix t assume "n = semi_name t" "t \<in> set (tf_semi f)"
      then show ?thesis
        by (intro c [OF ok, of "pack_semi_sequential_topology ?sync (tf_module f) t"])
          (auto simp: packed_topologies_def pack_semi_sequential_topology_def split: option.splits)
    next
      fix t assume "n = rt_name t" "t \<in> set (tf_runnable f)"
      then show ?thesis
        by (intro c [OF ok, of "pack_runnable_topology (tf_module f) t"]) (auto simp: packed_topologies_def pack_runnable_topology_def)
    qed
    then show ?thesis using p top1 by auto
  next
    case False
    then show ?thesis using assms(3) m inv1 top1 by (auto simp: add_topology_file_def)
  qed
qed

definition demo_file :: topology_file where
  "demo_file = \<lparr>tf_module = demo_modules, tf_minimal = [demo_minimal], tf_simple = [], tf_semi = [], tf_runnable = []\<rparr>"

theorem add_topology_file_effect_witness:
  "fst (add_topology_file pair_ops demo_env False demo_file demo_manager) = LoadOk \<and>
   contain pair_ops (snd (add_topology_file pair_ops demo_env False demo_file demo_manager)) ''t''"
proof -
  let ?r = "add_topology_file pair_ops demo_env False demo_file demo_manager"
  have f: "fst ?r = LoadOk" by code_simp
  then have "?r = (LoadOk, snd ?r)" by (simp add: prod_eq_iff)
  from add_topology_file_effect [OF pair_laws demo_manager_inv(1) this] f show ?thesis
    by (auto simp: demo_file_def demo_minimal_def)
qed

text \<open>
  Loading outgoing calls: after a success exactly the calls of the configuration have been added to those of before, their
  names are pairwise different and none was taken; after a failure no call of before is lost.
\<close>

theorem add_calls_adds:
  assumes "channel_laws chan" and "add_calls chan env calls cm = (b, cm')"
  shows "(\<forall>n. has_calling chan cm n \<longrightarrow> has_calling chan cm' n) \<and>
    (b \<longrightarrow> (\<forall>n. has_calling chan cm' n \<longleftrightarrow> has_calling chan cm n \<or> n \<in> (\<lambda>c. or_default (rc_name c) []) ` set calls) \<and>
       distinct (map (\<lambda>c. or_default (rc_name c) []) calls) \<and>
       (\<forall>c \<in> set calls. \<not> has_calling chan cm (or_default (rc_name c) [])))"
  using add_calls_effect [OF assms] unfolding has_calling_def .

definition list_channels :: "string list channel_ops" where
  "list_channels = \<lparr>cm_seek = (\<lambda>cm n. n \<in> set cm), cm_add = (\<lambda>cfg cm. (True, cc_name cfg # cm))\<rparr>"

definition demo_call :: "string \<Rightarrow> rpc_call" where
  "demo_call n = \<lparr>rc_name = Some n, rc_naming_service_uri = Some ''list://'', rc_remote_method_full_name = [],
     rc_connect_timeout_ms = None, rc_timeout_ms = Some 100, rc_max_retry = None, rc_protocol = None,
     rc_load_balancer_name = None, rc_meta_message_name = None, rc_etcd_address = None, rc_etcd_path = None,
     rc_naming_service_tag = None\<rparr>"

definition demo_rpc_env :: rpc_env where
  "demo_rpc_env = \<lparr>read_file_to_string = (\<lambda>_. None), json_topology_config = (\<lambda>_. None), json_rpc_call_config = (\<lambda>_. None),
     protocol_is_http = (\<lambda>_. False), has_descriptor_pool = True, has_message_pool = True, find_method = (\<lambda>_. True),
     find_service_method = (\<lambda>_ _. None), find_service = (\<lambda>_. True), find_message_type = (\<lambda>_. True),
     get_prototype = (\<lambda>_. None), has_compress_enum = True, compress_type_number = (\<lambda>_. None)\<rparr>"

theorem add_calls_adds_witness:
  "channel_laws list_channels \<and> fst (add_calls list_channels demo_rpc_env [demo_call ''x'', demo_call ''y''] []) \<and>
   has_calling list_channels (snd (add_calls list_channels demo_rpc_env [demo_call ''x'', demo_call ''y''] [])) ''y'' \<and>
   \<not> fst (add_calls list_channels demo_rpc_env [demo_call ''x'', demo_call ''x''] [])"
proof -
  have l: "channel_laws list_channels" by (auto simp: channel_laws_def list_channels_def)
  let ?r = "add_calls list_channels demo_rpc_env [demo_call ''x'', demo_call ''y''] []"
  have f: "fst ?r" by code_simp
  have "?r = (fst ?r, snd ?r)" by simp
  note e = add_calls_adds [OF l this]
  let ?q = "add_calls list_channels demo_rpc_env [demo_call ''x'', demo_call ''x''] []"
  have "?q = (fst ?q, snd ?q)" by simp
  note e2 = add_calls_adds [OF l this]
  have "\<not> fst ?q" using e2 by (auto simp: demo_call_def)
  moreover have "has_calling list_channels (snd ?r) ''y''"
    using e f by (auto simp: demo_call_def or_default_def)
  ultimately show ?thesis using l f by blast
qed

end
