(* ===== verification/RpcService.thy ===== *)
theory RpcService
  imports RpcComponent "HOL-Library.List_Lexorder" "HOL-Library.Char_ord"
begin

text \<open>
  \<open>DAG/sw/server/RpcServiceImpl.cpp\<close> and \<open>DAG/sw/server/RpcServer.cpp\<close>: the method table of a service, picking a topology for a
  request, dispatching a call, and registering all services at start-up.

  A protobuf service descriptor is given by the list of its method names in index order (\<open>methods_of\<close>).
  The topology picker of an application, \<open>brpc::Server::AddService\<close> and the scheduler are parameters or
  outcomes.  Logging and the access log are left out.
\<close>

section \<open>Method table\<close>

record rpc_service =
  rs_service :: string
  rs_method_necessities_list :: "serving_config option list"

fun find_method_index :: "string list \<Rightarrow> string \<Rightarrow> nat option" where
  "find_method_index [] n = None"
| "find_method_index (m # ms) n = (if m = n then Some 0 else map_option Suc (find_method_index ms n))"

definition resize :: "nat \<Rightarrow> 'a option list \<Rightarrow> 'a option list" where
  "resize n xs = take n xs @ replicate (n - length xs) None"

text \<open>\<^const>\<open>None\<close> is the null pointer that \<open>FindMethodByName\<close> returned and the next line follows.\<close>

fun fill_methods :: "string list \<Rightarrow> serving_config list \<Rightarrow> serving_config option list \<Rightarrow> serving_config option list option" where
  "fill_methods methods [] slots = Some slots"
| "fill_methods methods (c # cs) slots =
     (case find_method_index methods (sv_method_name c) of
        None \<Rightarrow> None
      | Some i \<Rightarrow>
          let slots1 = (if length slots \<le> i then resize (i + 1) slots else slots)
          in fill_methods methods cs (slots1[i := Some c]))"

definition rpc_service_ctor :: "(string \<Rightarrow> string list) \<Rightarrow> string \<Rightarrow> serving_config list \<Rightarrow> rpc_service option" where
  "rpc_service_ctor methods_of service method_list =
     map_option (\<lambda>slots. \<lparr>rs_service = service, rs_method_necessities_list = slots\<rparr>)
       (fill_methods (methods_of service) method_list (resize (length method_list) []))"

datatype proto_result = Proto string | Abort | NullDeref

definition method_slot :: "rpc_service \<Rightarrow> int \<Rightarrow> serving_config option option" where
  "method_slot s index =
     (if 0 \<le> index \<and> index < int (length (rs_method_necessities_list s))
      then Some (rs_method_necessities_list s ! nat index) else None)"

definition get_request_prototype :: "rpc_service \<Rightarrow> int \<Rightarrow> proto_result" where
  "get_request_prototype s index =
     (case method_slot s index of
        None \<Rightarrow> Abort
      | Some None \<Rightarrow> NullDeref
      | Some (Some c) \<Rightarrow> Proto (sv_request_prototype c))"

definition get_response_prototype :: "rpc_service \<Rightarrow> int \<Rightarrow> proto_result" where
  "get_response_prototype s index =
     (case method_slot s index of
        None \<Rightarrow> Abort
      | Some None \<Rightarrow> NullDeref
      | Some (Some c) \<Rightarrow> Proto (sv_response_prototype c))"

section \<open>Calls\<close>

definition all_topology_params :: "'p topology_heap \<Rightarrow> index \<Rightarrow> (string, params) umap" where
  "all_topology_params h idx =
     fold (\<lambda>(n, p) out. fst (umap_emplace n (case map_of h p of None \<Rightarrow> [] | Some t \<Rightarrow> mt_custom_params t) out)) idx []"

text \<open>\<open>picker\<close> is the application's function, already applied to the request; it sees the parameters of all topologies.\<close>

definition pick_topology ::
  "((string, params) umap \<Rightarrow> string) option \<Rightarrow> serving_config \<Rightarrow> index \<Rightarrow> ('d, 'p) manager \<Rightarrow>
   string \<times> nat option \<times> ('d, 'p) manager" where
  "pick_topology picker config idx g =
     (let (picked, ret1) =
            (case picker of
               None \<Rightarrow> ([], None)
             | Some f \<Rightarrow> let name = f (all_topology_params (mg_heap g) idx) in (name, map_of idx name));
          ret = (case ret1 of Some p \<Rightarrow> Some p | None \<Rightarrow> map_of idx (sv_topology_name config))
      in (picked, ret, (case ret of None \<Rightarrow> g | Some p \<Rightarrow> increase_reference p g)))"

datatype call_result = Scheduled nat string | PickFailed | MethodNotFound

definition call_method ::
  "'d dbd_ops \<Rightarrow> ((string, params) umap \<Rightarrow> string) option \<Rightarrow> rpc_service \<Rightarrow> int \<Rightarrow> ('d, 'p) manager \<Rightarrow> call_result \<times> ('d, 'p) manager" where
  "call_method ops picker s index g =
     (case method_slot s index of
        Some (Some config) \<Rightarrow>
          (case read_topology_list ops g
                  (\<lambda>idx (picked, final, g1). pick_topology (if sv_has_picker config then picker else None) config idx g1)
                  ([], None, g) of
             (True, picked, Some p, g1) \<Rightarrow> (Scheduled p picked, g1)
           | (_, _, _, g1) \<Rightarrow> (PickFailed, g1))
      | _ \<Rightarrow> (MethodNotFound, g))"

section \<open>Starting the server\<close>

datatype server_entry = RawService nat bool | SwService rpc_service | BuiltinService

datatype service_error = AddFailed | MethodNotExists | RepeatedMethod | NotAllExposed | Crashed

fun add_raw_services :: "(server_entry list \<Rightarrow> server_entry \<Rightarrow> bool) \<Rightarrow> (nat \<times> bool) list \<Rightarrow> server_entry list \<Rightarrow> service_error + server_entry list" where
  "add_raw_services accepts [] sv = Inr sv"
| "add_raw_services accepts ((s, own) # ss) sv =
     (if accepts sv (RawService s own) then add_raw_services accepts ss (sv @ [RawService s own]) else Inl AddFailed)"

text \<open>\<open>method_sets\<close> and \<open>method_mapping\<close> in one table: the set of a service is the set of the method names of its
  list.\<close>

fun group_methods ::
  "(string \<Rightarrow> string list) \<Rightarrow> serving_config list \<Rightarrow> (string, serving_config list) umap \<Rightarrow> service_error + (string, serving_config list) umap" where
  "group_methods methods_of [] mapping = Inr mapping"
| "group_methods methods_of (meta # cs) mapping =
     (if find_method_index (methods_of (sv_service meta)) (sv_method_name meta) = None then Inl MethodNotExists
      else
        let old = (case map_of mapping (sv_service meta) of None \<Rightarrow> [] | Some xs \<Rightarrow> xs)
        in if sv_method_name meta \<in> set (map sv_method_name old) then Inl RepeatedMethod
           else group_methods methods_of cs (AList.update (sv_service meta) (old @ [meta]) mapping))"

fun add_sw_services ::
  "(string \<Rightarrow> string list) \<Rightarrow> (server_entry list \<Rightarrow> server_entry \<Rightarrow> bool) \<Rightarrow> (string \<times> serving_config list) list \<Rightarrow>
   server_entry list \<Rightarrow> service_error + server_entry list" where
  "add_sw_services methods_of accepts [] sv = Inr sv"
| "add_sw_services methods_of accepts ((name, cs) # rest) sv =
     (if length cs \<noteq> length (methods_of name) then Inl NotAllExposed
      else case rpc_service_ctor methods_of name cs of
             None \<Rightarrow> Inl Crashed
           | Some impl \<Rightarrow>
               if accepts sv (SwService impl) then add_sw_services methods_of accepts rest (sv @ [SwService impl])
               else Inl AddFailed)"

text \<open>\<open>std::map\<close> iterates in the order of its keys.\<close>

definition add_service ::
  "(string \<Rightarrow> string list) \<Rightarrow> (server_entry list \<Rightarrow> server_entry \<Rightarrow> bool) \<Rightarrow> ('d, 'p) rpc_component \<Rightarrow> service_error + server_entry list" where
  "add_service methods_of accepts c =
     (case add_raw_services accepts (rpc_raw_services c) [] of
        Inl e \<Rightarrow> Inl e
      | Inr sv \<Rightarrow>
          (case group_methods methods_of (rpc_serving_configs c) [] of
             Inl e \<Rightarrow> Inl e
           | Inr mapping \<Rightarrow> add_sw_services methods_of accepts (sort_key fst mapping) sv))"

definition server_start ::
  "(string \<Rightarrow> string list) \<Rightarrow> (server_entry list \<Rightarrow> server_entry \<Rightarrow> bool) \<Rightarrow> (int \<Rightarrow> server_entry list \<Rightarrow> bool) \<Rightarrow> int \<Rightarrow>
   ('d, 'p) rpc_component \<Rightarrow> bool \<times> server_entry list" where
  "server_start methods_of accepts listen port c =
     (case add_service methods_of accepts c of
        Inl e \<Rightarrow> (False, [])
      | Inr sv \<Rightarrow>
          if accepts sv BuiltinService
          then (listen port (sv @ [BuiltinService]), sv @ [BuiltinService]) else (False, sv))"

section \<open>Lemmas\<close>

lemma find_method_index_Some:
  "find_method_index ms n = Some i \<Longrightarrow> i < length ms \<and> ms ! i = n"
  by (induction ms arbitrary: i) (auto split: if_splits)

lemma find_method_index_None: "find_method_index ms n = None \<longleftrightarrow> n \<notin> set ms"
  by (induction ms) auto

lemma find_method_index_nth: "distinct ms \<Longrightarrow> i < length ms \<Longrightarrow> find_method_index ms (ms ! i) = Some i"
  by (induction ms arbitrary: i) (auto simp: nth_Cons split: nat.splits)

lemma fill_methods_result:
  assumes "set (map sv_method_name cs) \<subseteq> set methods" and "length methods \<le> length slots" and "distinct methods"
    and "distinct (map sv_method_name cs)"
  shows "\<exists>out. fill_methods methods cs slots = Some out \<and> length out = length slots \<and>
    (\<forall>i < length methods. out ! i = (case find (\<lambda>c. sv_method_name c = methods ! i) cs of None \<Rightarrow> slots ! i | Some c \<Rightarrow> Some c))"
  using assms
proof (induction cs arbitrary: slots)
  case Nil
  then show ?case by simp
next
  case (Cons c cs)
  obtain i where i: "find_method_index methods (sv_method_name c) = Some i"
    using Cons.prems(1) find_method_index_None [of methods "sv_method_name c"] by fastforce
  then have il: "i < length methods" "methods ! i = sv_method_name c" by (auto dest: find_method_index_Some)
  let ?slots = "slots[i := Some c]"
  obtain out where out: "fill_methods methods cs ?slots = Some out" "length out = length slots"
    "\<forall>k < length methods. out ! k = (case find (\<lambda>c. sv_method_name c = methods ! k) cs of None \<Rightarrow> ?slots ! k | Some c \<Rightarrow> Some c)"
    using Cons.IH [of ?slots] Cons.prems by auto
  have none: "find (\<lambda>x. sv_method_name x = methods ! i) cs = None"
    using Cons.prems(4) il by (auto simp: find_None_iff) (metis imageI)
  have "out ! k = (case find (\<lambda>c. sv_method_name c = methods ! k) (c # cs) of None \<Rightarrow> slots ! k | Some c \<Rightarrow> Some c)"
    if k: "k < length methods" for k
  proof (cases "k = i")
    case True
    then show ?thesis using out(3) il none Cons.prems(2) k by auto
  next
    case False
    then have "methods ! k \<noteq> sv_method_name c" using il k Cons.prems(3) by (metis nth_eq_iff_index_eq)
    then show ?thesis using out(3) False k by (auto split: option.splits)
  qed
  then show ?case using out i il Cons.prems(2) by (auto simp: Let_def)
qed

definition table_complete :: "(string \<Rightarrow> string list) \<Rightarrow> rpc_service \<Rightarrow> bool" where
  "table_complete methods_of s \<longleftrightarrow>
     length (rs_method_necessities_list s) = length (methods_of (rs_service s)) \<and>
     (\<forall>i < length (methods_of (rs_service s)). \<exists>c. rs_method_necessities_list s ! i = Some c \<and>
        sv_service c = rs_service s \<and> sv_method_name c = methods_of (rs_service s) ! i)"

lemma ctor_complete:
  assumes "length cs = length (methods_of name)" and "distinct (methods_of name)"
    and "distinct (map sv_method_name cs)" and "set (map sv_method_name cs) \<subseteq> set (methods_of name)"
    and "\<forall>c \<in> set cs. sv_service c = name"
  shows "\<exists>impl. rpc_service_ctor methods_of name cs = Some impl \<and> rs_service impl = name \<and> table_complete methods_of impl"
proof -
  let ?ms = "methods_of name"
  have r: "resize (length cs) [] = (replicate (length ?ms) None :: serving_config option list)" using assms(1) by (simp add: resize_def)
  obtain out where out: "fill_methods ?ms cs (replicate (length ?ms) None) = Some out" "length out = length ?ms"
    "\<forall>i < length ?ms. out ! i = (case find (\<lambda>c. sv_method_name c = ?ms ! i) cs of None \<Rightarrow> None | Some c \<Rightarrow> Some c)"
    using fill_methods_result [OF assms(4) _ assms(2,3), of "replicate (length ?ms) None"]
    by (auto cong: option.case_cong)
  have "card (set (map sv_method_name cs)) = card (set ?ms)"
    using assms(1-3) by (metis distinct_card length_map)
  then have eq: "set (map sv_method_name cs) = set ?ms"
    using assms(4) by (simp add: card_subset_eq)
  have "\<exists>c. out ! i = Some c \<and> sv_service c = name \<and> sv_method_name c = ?ms ! i" if i: "i < length ?ms" for i
  proof -
    have "?ms ! i \<in> set (map sv_method_name cs)" using eq i nth_mem by blast
    then have "find (\<lambda>c. sv_method_name c = ?ms ! i) cs \<noteq> None" by (auto simp: find_None_iff)
    then obtain c where c: "find (\<lambda>c. sv_method_name c = ?ms ! i) cs = Some c" by auto
    then have "c \<in> set cs" "sv_method_name c = ?ms ! i" by (auto simp: find_Some_iff)
    then show ?thesis using out(3) i c assms(5) by auto
  qed
  then show ?thesis using out r by (auto simp: rpc_service_ctor_def table_complete_def)
qed

definition group_ok :: "(string \<Rightarrow> string list) \<Rightarrow> (string, serving_config list) umap \<Rightarrow> bool" where
  "group_ok methods_of mapping \<longleftrightarrow> umap_wf mapping \<and>
     (\<forall>(n, cs) \<in> set mapping. distinct (map sv_method_name cs) \<and> set (map sv_method_name cs) \<subseteq> set (methods_of n) \<and>
        (\<forall>c \<in> set cs. sv_service c = n))"

lemma group_methods_ok:
  "group_methods methods_of cs mapping = Inr m \<Longrightarrow> group_ok methods_of mapping \<Longrightarrow> group_ok methods_of m"
proof (induction methods_of cs mapping rule: group_methods.induct)
  case (2 methods_of meta cs mapping)
  define old where "old = (case map_of mapping (sv_service meta) of None \<Rightarrow> [] | Some xs \<Rightarrow> xs)"
  let ?m = "AList.update (sv_service meta) (old @ [meta]) mapping"
  have c: "sv_method_name meta \<in> set (methods_of (sv_service meta))" "sv_method_name meta \<notin> set (map sv_method_name old)"
      "group_methods methods_of cs ?m = Inr m"
    using 2(2) find_method_index_None [of "methods_of (sv_service meta)"] by (auto simp: Let_def old_def split: if_splits)
  have wf: "umap_wf mapping" using 2(3) by (simp add: group_ok_def)
  have entry: "distinct (map sv_method_name cs') \<and> set (map sv_method_name cs') \<subseteq> set (methods_of n) \<and> (\<forall>c \<in> set cs'. sv_service c = n)"
    if "map_of mapping n = Some cs'" for n cs'
    using map_of_SomeD [OF that] 2(3) unfolding group_ok_def by fastforce
  have o: "distinct (map sv_method_name old)" "set (map sv_method_name old) \<subseteq> set (methods_of (sv_service meta))"
      "\<forall>c \<in> set old. sv_service c = sv_service meta"
  proof -
    have "old = [] \<or> map_of mapping (sv_service meta) = Some old" by (auto simp: old_def split: option.splits)
    then show "distinct (map sv_method_name old)" "set (map sv_method_name old) \<subseteq> set (methods_of (sv_service meta))"
      "\<forall>c \<in> set old. sv_service c = sv_service meta" using entry by fastforce+
  qed
  have "group_ok methods_of ?m"
    unfolding group_ok_def
  proof (intro conjI ballI)
    show "umap_wf ?m" using wf by simp
    fix p assume "p \<in> set ?m"
    then have m: "map_of ?m (fst p) = Some (snd p)"
      using \<open>umap_wf ?m\<close> by (simp add: umap_wf_def)
    show "case p of (n, cs) \<Rightarrow> distinct (map sv_method_name cs) \<and> set (map sv_method_name cs) \<subseteq> set (methods_of n) \<and> (\<forall>c \<in> set cs. sv_service c = n)"
    proof (cases "fst p = sv_service meta")
      case True
      then have "p = (sv_service meta, old @ [meta])" using m by (cases p) (simp add: umap_simps)
      then show ?thesis using o c(1,2) by auto
    next
      case False
      then have "map_of mapping (fst p) = Some (snd p)" using m by (simp add: umap_simps)
      from entry [OF this] show ?thesis by (cases p) simp
    qed
  qed
  then show ?case using 2(1) [OF _ old_def _ c(3)] c(1,2) find_method_index_None [of "methods_of (sv_service meta)"] by auto
qed simp

lemma group_methods_ok_Nil: "group_methods methods_of cs [] = Inr m \<Longrightarrow> group_ok methods_of m"
  by (erule group_methods_ok) (simp add: group_ok_def)

definition entries_complete :: "(string \<Rightarrow> string list) \<Rightarrow> server_entry list \<Rightarrow> bool" where
  "entries_complete methods_of sv \<longleftrightarrow> (\<forall>s. SwService s \<in> set sv \<longrightarrow> table_complete methods_of s)"

lemma add_raw_services_entries:
  "add_raw_services accepts ss sv = Inr sv' \<Longrightarrow> entries_complete methods_of sv \<Longrightarrow> entries_complete methods_of sv'"
  by (induction accepts ss sv rule: add_raw_services.induct) (auto simp: entries_complete_def split: if_splits)

lemma add_sw_services_entries:
  "add_sw_services methods_of accepts mapping sv = r \<Longrightarrow> entries_complete methods_of sv \<Longrightarrow> \<forall>n. distinct (methods_of n) \<Longrightarrow>
   \<forall>(n, cs) \<in> set mapping. distinct (map sv_method_name cs) \<and> set (map sv_method_name cs) \<subseteq> set (methods_of n) \<and>
        (\<forall>c \<in> set cs. sv_service c = n) \<Longrightarrow>
   r \<noteq> Inl Crashed \<and> (\<forall>sv'. r = Inr sv' \<longrightarrow> entries_complete methods_of sv')"
proof (induction methods_of accepts mapping sv rule: add_sw_services.induct)
  case (2 methods_of accepts name cs rest sv)
  show ?case
  proof (cases "length cs = length (methods_of name)")
    case True
    obtain impl where impl: "rpc_service_ctor methods_of name cs = Some impl" "table_complete methods_of impl"
      using ctor_complete [of cs methods_of name] True 2(4,5) by auto
    have "entries_complete methods_of (sv @ [SwService impl])" using 2(3) impl(2) by (auto simp: entries_complete_def)
    then show ?thesis using 2 True impl(1) by (cases "accepts sv (SwService impl)") auto
  next
    case False
    then show ?thesis using 2(2) by auto
  qed
qed auto

lemma complete_slot:
  assumes "table_complete methods_of s" and "i < length (methods_of (rs_service s))"
  shows "\<exists>c. method_slot s (int i) = Some (Some c) \<and> sv_method_name c = methods_of (rs_service s) ! i"
  using assms by (auto simp: method_slot_def table_complete_def)

lemma modify_refcount_effect:
  assumes inv: "mgr_inv ops ok g" and t: "topology_of ops g n = Some t"
    and p: "op_read ops (mg_dbd g) = Some idx" "map_of idx n = Some p"
  shows "mgr_inv ops ok (modify_refcount f p g) \<and>
    topology_of ops (modify_refcount f p g) = (topology_of ops g)(n \<mapsto> t\<lparr>mt_reference_count := f (mt_reference_count t)\<rparr>)"
proof -
  have ok: "index_ok idx g" using inv p(1) by (auto simp: mgr_inv_def)
  have h: "map_of (mg_heap g) p = Some t" using t p by (simp add: topology_of_def)
  let ?g = "modify_refcount f p g" and ?t = "t\<lparr>mt_reference_count := f (mt_reference_count t)\<rparr>"
  have g: "?g = g\<lparr>mg_heap := AList.update p ?t (mg_heap g)\<rparr>" using h by (simp add: modify_refcount_def)
  have d: "dom (map_of (mg_heap ?g)) = dom (map_of (mg_heap g))" using h by (auto simp: g umap_simps)
  have nm: "\<exists>u. map_of (mg_heap ?g) q = Some u \<and> mt_name u = m" if "map_of idx m = Some q" for m q
  proof -
    obtain u where u: "map_of (mg_heap g) q = Some u" "mt_name u = m" using ok \<open>map_of idx m = Some q\<close> by (auto simp: index_ok_def)
    then show ?thesis using h by (cases "q = p") (auto simp: g umap_simps)
  qed
  have st: "mg_storage ?g = mg_storage g" "mg_next ?g = mg_next g" by (simp_all add: g)
  have "index_ok idx ?g" using ok nm by (simp add: index_ok_def d st)
  moreover have "topology_of ops ?g k = ((topology_of ops g)(n \<mapsto> ?t)) k" for k
  proof (cases "k = n")
    case True
    then show ?thesis using p h by (simp add: g topology_of_def umap_simps)
  next
    case False
    then have "map_of idx k \<noteq> Some p" using index_inj [OF ok p(2)] by blast
    then show ?thesis using p False by (auto simp: g topology_of_def umap_simps split: option.splits)
  qed
  ultimately show ?thesis using inv p(1) by (simp add: mgr_inv_def g fun_eq_iff)
qed

section \<open>Theorems\<close>

text \<open>
  Start-up makes every method callable.  When \<open>addService\<close> succeeds, each registered service has, for every method
  of its descriptor, the serving configuration of exactly that method, so that asking for its prototypes
  neither aborts nor follows a null pointer; and \<open>addService\<close> itself never follows a null descriptor.
\<close>

theorem add_service_complete:
  assumes "\<forall>n. distinct (methods_of n)"
  shows "add_service methods_of accepts c \<noteq> Inl Crashed \<and>
    (\<forall>sv s i. add_service methods_of accepts c = Inr sv \<longrightarrow> SwService s \<in> set sv \<longrightarrow> i < length (methods_of (rs_service s)) \<longrightarrow>
       (\<exists>cfg. method_slot s (int i) = Some (Some cfg) \<and> sv_method_name cfg = methods_of (rs_service s) ! i \<and>
          get_request_prototype s (int i) = Proto (sv_request_prototype cfg) \<and>
          get_response_prototype s (int i) = Proto (sv_response_prototype cfg)))"
proof -
  have raw: "add_raw_services accepts ss sv \<noteq> Inl Crashed" for ss sv
    by (induction accepts ss sv rule: add_raw_services.induct) auto
  have grp: "group_methods methods_of cs m \<noteq> Inl Crashed" for cs m
    by (induction methods_of cs m rule: group_methods.induct) (auto simp: Let_def)
  have main: "add_service methods_of accepts c \<noteq> Inl Crashed \<and>
      (\<forall>sv. add_service methods_of accepts c = Inr sv \<longrightarrow> entries_complete methods_of sv)"
  proof (cases "add_raw_services accepts (rpc_raw_services c) []")
    case (Inl e)
    then show ?thesis using raw by (auto simp: add_service_def)
  next
    case (Inr sv)
    have e: "entries_complete methods_of sv"
      using add_raw_services_entries [OF Inr] by (simp add: entries_complete_def)
    show ?thesis
    proof (cases "group_methods methods_of (rpc_serving_configs c) []")
      case (Inl e)
      then show ?thesis using Inr grp by (auto simp: add_service_def)
    next
      case (Inr m)
      note g = group_methods_ok_Nil [OF this]
      show ?thesis
        using add_sw_services_entries [OF refl e assms, of "sort_key fst m" accepts] g Inr \<open>add_raw_services _ _ _ = Inr sv\<close>
        by (auto simp: add_service_def group_ok_def)
    qed
  qed
  show ?thesis
  proof (intro conjI allI impI)
    show "add_service methods_of accepts c \<noteq> Inl Crashed" using main by blast
  next
    fix sv s i
    assume "add_service methods_of accepts c = Inr sv" "SwService s \<in> set sv" and i: "i < length (methods_of (rs_service s))"
    then have "table_complete methods_of s" using main by (auto simp: entries_complete_def)
    from complete_slot [OF this i]
    show "\<exists>cfg. method_slot s (int i) = Some (Some cfg) \<and> sv_method_name cfg = methods_of (rs_service s) ! i \<and>
          get_request_prototype s (int i) = Proto (sv_request_prototype cfg) \<and>
          get_response_prototype s (int i) = Proto (sv_response_prototype cfg)"
      by (auto simp: get_request_prototype_def get_response_prototype_def)
  qed
qed

definition demo_serving :: "string \<Rightarrow> serving_config" where
  "demo_serving m = \<lparr>sv_service = ''EchoService'', sv_request_prototype = ''EchoRequest'', sv_response_prototype = ''EchoResponse'',
     sv_method_name = m, sv_topology_name = ''t'', sv_has_picker = False, sv_response_compress_type = 0\<rparr>"

definition demo_methods :: "string \<Rightarrow> string list" where
  "demo_methods n = (if n = ''EchoService'' then [''Echo'', ''Ping''] else [])"

definition demo_component :: "(index \<times> index, nat) rpc_component" where
  "demo_component = \<lparr>rpc_manager = demo_manager2, rpc_serving_configs = [demo_serving ''Ping'', demo_serving ''Echo''], rpc_raw_services = []\<rparr>"

theorem add_service_complete_witness:
  "(\<forall>n. distinct (demo_methods n)) \<and>
   (\<exists>s. add_service demo_methods (\<lambda>_ _. True) demo_component = Inr [SwService s] \<and>
      get_request_prototype s 1 = Proto ''EchoRequest'')"
proof -
  have d: "\<forall>n. distinct (demo_methods n)" by (simp add: demo_methods_def)
  let ?s = "\<lparr>rs_service = ''EchoService'', rs_method_necessities_list = [Some (demo_serving ''Echo''), Some (demo_serving ''Ping'')]\<rparr>"
  have a: "add_service demo_methods (\<lambda>_ _. True) demo_component = Inr [SwService ?s]"
    by (simp add: add_service_def demo_component_def demo_serving_def demo_methods_def rpc_service_ctor_def resize_def numeral_2_eq_2)
  have "SwService ?s \<in> set [SwService ?s]" "1 < length (demo_methods (rs_service ?s))" by (simp_all add: demo_methods_def)
  then obtain cfg where "method_slot ?s (int 1) = Some (Some cfg)" "get_request_prototype ?s (int 1) = Proto (sv_request_prototype cfg)"
    using add_service_complete [OF d, of "\<lambda>_ _. True" demo_component] a by blast
  then have "get_request_prototype ?s 1 = Proto ''EchoRequest''" by (auto simp: method_slot_def demo_serving_def)
  then show ?thesis using a d by blast
qed

text \<open>
  \<open>CallMethod\<close> schedules the topology the picker names when there is one of that name, else the default topology of
  the method; it takes exactly one reference on it and changes nothing else.  It fails to pick exactly when
  neither exists.
\<close>

theorem call_method_picks:
  assumes inv: "mgr_inv ops ok g" and slot: "method_slot s index = Some (Some cfg)"
    and call: "call_method ops picker s index g = (r, g')"
  shows "(case r of
      Scheduled p picked \<Rightarrow>
        (\<exists>n t. n = (if topology_of ops g picked \<noteq> None \<and> sv_has_picker cfg \<and> picker \<noteq> None then picked else sv_topology_name cfg) \<and>
           topology_of ops g n = Some t \<and> map_of (mg_heap g) p = Some t \<and> mgr_inv ops ok g' \<and>
           topology_of ops g' = (topology_of ops g)(n \<mapsto> t\<lparr>mt_reference_count := mt_reference_count t + 1\<rparr>))
    | PickFailed \<Rightarrow> g' = g \<and> topology_of ops g (sv_topology_name cfg) = None
    | MethodNotFound \<Rightarrow> False)"
proof -
  obtain idx where idx: "op_read ops (mg_dbd g) = Some idx" "index_ok idx g" using inv by (auto simp: mgr_inv_def)
  have live: "map_of idx n = None \<longleftrightarrow> topology_of ops g n = None" for n
    using idx by (auto simp: topology_of_def index_ok_def split: option.splits) (metis option.distinct(1))
  define pk where "pk = (if sv_has_picker cfg then picker else None)"
  define picked where "picked = (case pk of None \<Rightarrow> [] | Some f \<Rightarrow> f (all_topology_params (mg_heap g) idx))"
  define n where "n = (if pk \<noteq> None \<and> map_of idx picked \<noteq> None then picked else sv_topology_name cfg)"
  have pick: "pick_topology pk cfg idx g =
      (picked, map_of idx n, (case map_of idx n of None \<Rightarrow> g | Some p \<Rightarrow> increase_reference p g))"
    by (auto simp: pick_topology_def picked_def n_def Let_def split: option.splits)
  show ?thesis
  proof (cases "map_of idx n")
    case None
    then have "r = PickFailed" "g' = g"
      using call slot idx pick by (auto simp: call_method_def read_topology_list_def pk_def)
    moreover have "map_of idx (sv_topology_name cfg) = None" using None by (auto simp: n_def split: if_splits)
    ultimately show ?thesis using live by simp
  next
    case (Some p)
    then have r: "r = Scheduled p picked" "g' = increase_reference p g"
      using call slot idx pick by (auto simp: call_method_def read_topology_list_def pk_def)
    obtain t where t: "topology_of ops g n = Some t" using live [of n] Some by auto
    have n: "n = (if topology_of ops g picked \<noteq> None \<and> sv_has_picker cfg \<and> picker \<noteq> None then picked else sv_topology_name cfg)"
      using live [of picked] by (auto simp: n_def pk_def)
    have "map_of (mg_heap g) p = Some t" using t idx Some by (simp add: topology_of_def)
    then show ?thesis
      using r t n modify_refcount_effect [OF inv t idx(1) Some, of "\<lambda>k. k + 1"] by (simp add: increase_reference_def)
  qed
qed

theorem call_method_picks_witness:
  "\<exists>s. method_slot s 0 = Some (Some (demo_serving ''Echo'')) \<and>
     (\<exists>g'. call_method pair_ops None s 0 demo_manager2 = (Scheduled 1 [], g') \<and>
        topology_of pair_ops g' ''t'' = Some (demo_topology_obj\<lparr>mt_reference_count := 1\<rparr>))"
proof -
  let ?s = "\<lparr>rs_service = ''EchoService'', rs_method_necessities_list = [Some (demo_serving ''Echo'')]\<rparr>"
  have sl: "method_slot ?s 0 = Some (Some (demo_serving ''Echo''))" by (simp add: method_slot_def)
  have "fst (call_method pair_ops None ?s 0 demo_manager2) = Scheduled 1 []" by code_simp
  then obtain g' where c: "call_method pair_ops None ?s 0 demo_manager2 = (Scheduled 1 [], g')" by (metis prod.collapse)
  have t: "topology_of pair_ops demo_manager2 ''t'' = Some demo_topology_obj"
    by (simp add: topology_of_def pair_ops_def demo_manager2_def)
  have "topology_of pair_ops g' ''t'' = Some (demo_topology_obj\<lparr>mt_reference_count := 1\<rparr>)"
    using call_method_picks [OF demo_manager_inv(2) sl c] t by (simp add: demo_serving_def demo_topology_obj_def)
  then show ?thesis using sl c by blast
qed

end
