(* ===== verification/Lifecycle.thy ===== *)
theory Lifecycle
  imports Prelude
begin

text \<open>
  The life of a topology under concurrency: request threads that pick a topology inside a read section and use it, and
  threads that replace or remove topologies and delete the old ones
  (\<open>RpcServiceImpl::PickTopology\<close>, \<open>ReadTopologyList\<close>, \<open>add_topology\<close>, \<open>remove_topology\<close>,
  \<open>wait_and_delete\<close>, the reference count of \<open>ModuleTopology\<close>).

  A step is one action of one thread.  \<open>Modify\<close> is two steps, as its documentation has it: the new index becomes
  visible, then it waits until no reader holds the old instance (\<open>grace\<close>).  After that \<open>add_topology\<close> puts its topology into the
  storage (\<open>store\<close>), and only then does \<open>wait_and_delete\<close> spin on the reference count of the replaced one and call \<open>Delete\<close>.
  Modifications exclude each other; \<open>Add\<close> and \<open>Delete\<close> run under the storage mutex and are one step each, and other threads may come
  between \<open>Modify\<close> and \<open>Add\<close>.  \<open>Delete\<close> deletes only a pointer that it finds in the storage.

  \<open>lf_adding\<close> holds the topologies that are published and not yet stored, with what each has replaced.  \<open>lf_missed\<close> is a ghost: it
  records the topologies whose \<open>Delete\<close> found nothing.
\<close>

datatype req_state = Idle | Reading "string \<Rightarrow> nat option" | Using nat

record life =
  lf_index :: "string \<Rightarrow> nat option"
  lf_live :: "nat set"
  lf_ref :: "nat \<Rightarrow> nat"
  lf_req :: "nat \<Rightarrow> req_state"
  lf_modify :: "(nat option \<times> nat option) option"
  lf_adding :: "nat \<Rightarrow> nat option option"
  lf_storage :: "nat list"
  lf_doomed :: "nat set"
  lf_missed :: "nat set"
  lf_next :: nat

definition store_topology :: "nat \<Rightarrow> life \<Rightarrow> life" where
  "store_topology p s = s\<lparr>lf_storage := lf_storage s @ [p], lf_adding := (lf_adding s)(p := None)\<rparr>"

definition delete_topology :: "nat \<Rightarrow> life \<Rightarrow> life" where
  "delete_topology p s =
     (if p \<in> set (lf_storage s)
      then s\<lparr>lf_live := lf_live s - {p}, lf_storage := filter (\<lambda>q. q \<noteq> p) (lf_storage s), lf_doomed := lf_doomed s - {p}\<rparr>
      else s\<lparr>lf_doomed := lf_doomed s - {p}, lf_missed := insert p (lf_missed s)\<rparr>)"

definition end_modify :: "nat option \<Rightarrow> nat option \<Rightarrow> life \<Rightarrow> life" where
  "end_modify new old s = s\<lparr>lf_modify := None, lf_doomed := lf_doomed s \<union> set_option old,
     lf_adding := (case new of None \<Rightarrow> lf_adding s | Some p \<Rightarrow> (lf_adding s)(p \<mapsto> old))\<rparr>"

inductive life_step :: "life \<Rightarrow> life \<Rightarrow> bool" where
  read_begin: "lf_req s t = Idle \<Longrightarrow> life_step s (s\<lparr>lf_req := (lf_req s)(t := Reading (lf_index s))\<rparr>)"
| read_none: "lf_req s t = Reading idx \<Longrightarrow> life_step s (s\<lparr>lf_req := (lf_req s)(t := Idle)\<rparr>)"
| pick: "lf_req s t = Reading idx \<Longrightarrow> idx n = Some p \<Longrightarrow>
     life_step s (s\<lparr>lf_req := (lf_req s)(t := Using p), lf_ref := (lf_ref s)(p := lf_ref s p + 1)\<rparr>)"
| finish: "lf_req s t = Using p \<Longrightarrow>
     life_step s (s\<lparr>lf_req := (lf_req s)(t := Idle), lf_ref := (lf_ref s)(p := lf_ref s p - 1)\<rparr>)"
| publish: "lf_modify s = None \<Longrightarrow>
     life_step s (s\<lparr>lf_index := (lf_index s)(n \<mapsto> lf_next s), lf_live := insert (lf_next s) (lf_live s),
       lf_ref := (lf_ref s)(lf_next s := 0), lf_modify := Some (Some (lf_next s), lf_index s n), lf_next := Suc (lf_next s)\<rparr>)"
| withdraw: "lf_modify s = None \<Longrightarrow>
     life_step s (s\<lparr>lf_index := (lf_index s)(n := None), lf_modify := Some (None, lf_index s n)\<rparr>)"
| grace: "lf_modify s = Some (new, old) \<Longrightarrow> (\<forall>t idx. lf_req s t = Reading idx \<longrightarrow> idx = lf_index s) \<Longrightarrow>
     life_step s (end_modify new old s)"
| store: "lf_adding s p = Some old \<Longrightarrow> life_step s (store_topology p s)"
| delete: "p \<in> lf_doomed s \<Longrightarrow> Some p \<notin> ran (lf_adding s) \<Longrightarrow> lf_ref s p = 0 \<Longrightarrow> life_step s (delete_topology p s)"

definition life_init :: life where
  "life_init = \<lparr>lf_index = (\<lambda>_. None), lf_live = {}, lf_ref = (\<lambda>_. 0), lf_req = (\<lambda>_. Idle), lf_modify = None,
     lf_adding = (\<lambda>_. None), lf_storage = [], lf_doomed = {}, lf_missed = {}, lf_next = 1\<rparr>"

section \<open>Invariant\<close>

definition old_of :: "life \<Rightarrow> nat set" where
  "old_of s = (case lf_modify s of None \<Rightarrow> {} | Some (new, old) \<Rightarrow> set_option old)"

text \<open>Published, and not yet in the storage.\<close>

definition pending :: "life \<Rightarrow> nat set" where
  "pending s = (case lf_modify s of None \<Rightarrow> {} | Some (new, old) \<Rightarrow> set_option new) \<union> dom (lf_adding s)"

definition users :: "life \<Rightarrow> nat \<Rightarrow> nat set" where
  "users s p = {t. lf_req s t = Using p}"

text \<open>Each live topology is in one place of its life, each is owned by the storage or by the call that will store it.\<close>

definition places_ok :: "life \<Rightarrow> bool" where
  "places_ok s \<longleftrightarrow>
     lf_live s = ran (lf_index s) \<union> old_of s \<union> lf_doomed s \<union> lf_missed s \<and>
     ran (lf_index s) \<inter> (old_of s \<union> lf_doomed s \<union> lf_missed s) = {} \<and> old_of s \<inter> (lf_doomed s \<union> lf_missed s) = {} \<and>
     lf_doomed s \<inter> lf_missed s = {} \<and> inj_on (lf_index s) (dom (lf_index s)) \<and> (\<forall>p \<in> lf_live s. p < lf_next s)"

definition storage_ok :: "life \<Rightarrow> bool" where
  "storage_ok s \<longleftrightarrow> distinct (lf_storage s) \<and> lf_live s = set (lf_storage s) \<union> pending s \<and> set (lf_storage s) \<inter> pending s = {} \<and>
     (\<forall>p old. lf_modify s = Some (Some p, old) \<longrightarrow> lf_adding s p = None)"

definition requests_ok :: "life \<Rightarrow> bool" where
  "requests_ok s \<longleftrightarrow>
     (\<forall>t idx. lf_req s t = Reading idx \<longrightarrow> ran idx \<subseteq> ran (lf_index s) \<union> old_of s) \<and>
     (\<forall>p. finite (users s p) \<and> lf_ref s p = card (users s p)) \<and> (\<forall>t p. lf_req s t = Using p \<longrightarrow> p \<in> lf_live s)"

definition life_inv :: "life \<Rightarrow> bool" where
  "life_inv s \<longleftrightarrow> places_ok s \<and> storage_ok s \<and> requests_ok s"

lemma placesD:
  assumes "life_inv s"
  shows "lf_live s = ran (lf_index s) \<union> old_of s \<union> lf_doomed s \<union> lf_missed s"
    and "ran (lf_index s) \<inter> (old_of s \<union> lf_doomed s \<union> lf_missed s) = {}" and "old_of s \<inter> (lf_doomed s \<union> lf_missed s) = {}"
    and "lf_doomed s \<inter> lf_missed s = {}" and "inj_on (lf_index s) (dom (lf_index s))" and "p \<in> lf_live s \<Longrightarrow> p < lf_next s"
  using assms unfolding life_inv_def places_ok_def by blast+

lemma storageD:
  assumes "life_inv s"
  shows "distinct (lf_storage s)" and "lf_live s = set (lf_storage s) \<union> pending s" and "set (lf_storage s) \<inter> pending s = {}"
    and "lf_modify s = Some (Some p, old) \<Longrightarrow> lf_adding s p = None"
  using assms unfolding life_inv_def storage_ok_def by blast+

lemma requestsD:
  assumes "life_inv s"
  shows "lf_req s t = Reading idx \<Longrightarrow> ran idx \<subseteq> ran (lf_index s) \<union> old_of s"
    and "finite (users s p)" and "lf_ref s p = card (users s p)" and "lf_req s t = Using p \<Longrightarrow> p \<in> lf_live s"
  using assms unfolding life_inv_def requests_ok_def by blast+

lemma users_update: "users (s\<lparr>lf_req := (lf_req s)(t := x)\<rparr>) p = (if x = Using p then insert t (users s p) else users s p - {t})"
  by (auto simp: users_def)

lemma users_frame:
  "lf_req s' = lf_req s \<Longrightarrow> users s' = users s"
  by (simp add: users_def fun_eq_iff)

lemma life_inv_init: "life_inv life_init"
  by (simp add: life_inv_def places_ok_def storage_ok_def requests_ok_def life_init_def old_of_def pending_def users_def)

text \<open>A request step: index, modifier, storage and deletions stay; only one thread moves.\<close>

lemma life_inv_req:
  assumes inv: "life_inv s"
    and same: "lf_index s' = lf_index s" "lf_live s' = lf_live s" "lf_modify s' = lf_modify s" "lf_doomed s' = lf_doomed s" "lf_next s' = lf_next s"
      "lf_adding s' = lf_adding s" "lf_storage s' = lf_storage s" "lf_missed s' = lf_missed s"
    and req: "lf_req s' = (lf_req s)(t := x)"
    and ref: "\<And>p. finite (users s' p) \<and> lf_ref s' p = card (users s' p)"
    and rd: "\<And>idx. x = Reading idx \<Longrightarrow> ran idx \<subseteq> ran (lf_index s) \<union> old_of s" and us: "\<And>p. x = Using p \<Longrightarrow> p \<in> lf_live s"
  shows "life_inv s'"
proof -
  have o: "old_of s' = old_of s" "pending s' = pending s" by (simp_all add: old_of_def pending_def same)
  have "\<forall>u idx. lf_req s' u = Reading idx \<longrightarrow> ran idx \<subseteq> ran (lf_index s) \<union> old_of s"
    unfolding req by (metis fun_upd_apply requestsD(1) [OF inv] rd)
  moreover have "\<forall>u p. lf_req s' u = Using p \<longrightarrow> p \<in> lf_live s"
    unfolding req by (metis fun_upd_apply requestsD(4) [OF inv] us)
  ultimately show ?thesis using inv ref unfolding life_inv_def places_ok_def storage_ok_def requests_ok_def same o by blast
qed

text \<open>Any other step leaves the requests as they are; it may end the life of unused topologies.\<close>

lemma requests_frame:
  assumes inv: "life_inv s" and req: "lf_req s' = lf_req s" and ref: "\<And>p. users s p \<noteq> {} \<or> lf_ref s' p \<noteq> 0 \<Longrightarrow> lf_ref s' p = lf_ref s p"
    and live: "\<And>p. p \<in> lf_live s \<Longrightarrow> users s p \<noteq> {} \<Longrightarrow> p \<in> lf_live s'"
    and rd: "\<And>t idx. lf_req s t = Reading idx \<Longrightarrow> ran idx \<subseteq> ran (lf_index s) \<union> old_of s \<Longrightarrow> ran idx \<subseteq> ran (lf_index s') \<union> old_of s'"
  shows "requests_ok s'"
proof -
  note I = requestsD [OF inv]
  have u: "users s' = users s" by (rule users_frame) (rule req)
  have "lf_ref s' p = card (users s p)" for p
  proof (cases "users s p = {}")
    case True
    then show ?thesis using ref [of p] I(3) [of p] by fastforce
  next
    case False
    then show ?thesis using ref [of p] I(3) [of p] by simp
  qed
  moreover have "p \<in> lf_live s'" if "lf_req s t = Using p" for t p
    using that I(4) [of t p] live [of p] by (auto simp: users_def)
  ultimately show ?thesis using I(1,2) rd unfolding requests_ok_def req u by blast
qed

lemma ran_index_update:
  assumes "inj_on m (dom m)"
  shows "ran (m(n := None)) = ran m - set_option (m n)" and "p \<notin> ran m \<Longrightarrow> ran (m(n \<mapsto> p)) = insert p (ran m - set_option (m n))"
proof -
  have inj: "m a = Some q \<Longrightarrow> m b = Some q \<Longrightarrow> a = b" for a b q using assms by (auto simp: inj_on_def dom_def)
  show "ran (m(n := None)) = ran m - set_option (m n)"
    by (auto simp: ran_def) (metis inj option.distinct(1))+
  show "ran (m(n \<mapsto> p)) = insert p (ran m - set_option (m n))" if "p \<notin> ran m"
    by (auto simp: ran_def) (metis inj)+
qed

lemma inj_index_update:
  assumes "inj_on m (dom m)"
  shows "inj_on (m(n := None)) (dom (m(n := None)))" and "p \<notin> ran m \<Longrightarrow> inj_on (m(n \<mapsto> p)) (dom (m(n \<mapsto> p)))"
  using assms by (auto simp: inj_on_def dom_def ran_def split: if_splits)

lemma option_in_ran: "set_option (m n) \<subseteq> ran m"
  by (auto simp: ran_def)

lemma life_publish_inv:
  assumes inv: "life_inv s" and m: "lf_modify s = None"
  shows "life_inv (s\<lparr>lf_index := (lf_index s)(n \<mapsto> lf_next s), lf_live := insert (lf_next s) (lf_live s),
       lf_ref := (lf_ref s)(lf_next s := 0), lf_modify := Some (Some (lf_next s), lf_index s n), lf_next := Suc (lf_next s)\<rparr>)" (is "life_inv ?s")
proof -
  let ?p = "lf_next s"
  note P = placesD [OF inv] and S = storageD [OF inv]
  have fresh: "?p \<notin> lf_live s" using P(6) by blast
  then have nu: "users s ?p = {}" using requestsD(4) [OF inv] by (auto simp: users_def)
  have fr: "?p \<notin> ran (lf_index s)" "?p \<notin> lf_doomed s" "?p \<notin> lf_missed s" "?p \<notin> set (lf_storage s)" "?p \<notin> dom (lf_adding s)"
    using fresh P(1) S(2) by (auto simp: pending_def m)
  have old: "old_of s = {}" "old_of ?s = set_option (lf_index s n)" "pending ?s = insert ?p (pending s)" by (auto simp: old_of_def pending_def m)
  note ran = ran_index_update(2) [OF P(5) fr(1), of n] and sub = option_in_ran [of "lf_index s" n]
  have "places_ok ?s"
    unfolding places_ok_def
  proof (intro conjI)
    show "lf_live ?s = ran (lf_index ?s) \<union> old_of ?s \<union> lf_doomed ?s \<union> lf_missed ?s" using P(1) ran sub old by auto
    show "ran (lf_index ?s) \<inter> (old_of ?s \<union> lf_doomed ?s \<union> lf_missed ?s) = {}" using ran old(2) fr P(2) sub by auto
    show "old_of ?s \<inter> (lf_doomed ?s \<union> lf_missed ?s) = {}" using old(2) sub P(2) by auto
    show "inj_on (lf_index ?s) (dom (lf_index ?s))" using inj_index_update(2) [OF P(5) fr(1), of n] by simp
    show "\<forall>q \<in> lf_live ?s. q < lf_next ?s" using P(6) by (auto simp: less_Suc_eq)
  qed (use P(4) in simp)
  moreover have "storage_ok ?s"
    using S fr(4,5) old(3) unfolding storage_ok_def by (auto simp: dom_def)
  moreover have "requests_ok ?s"
    by (rule requests_frame [OF inv]) (use nu ran old in \<open>auto split: if_splits\<close>)
  ultimately show ?thesis by (simp add: life_inv_def)
qed

lemma life_withdraw_inv:
  assumes inv: "life_inv s" and m: "lf_modify s = None"
  shows "life_inv (s\<lparr>lf_index := (lf_index s)(n := None), lf_modify := Some (None, lf_index s n)\<rparr>)" (is "life_inv ?s")
proof -
  note P = placesD [OF inv] and S = storageD [OF inv]
  have old: "old_of s = {}" "old_of ?s = set_option (lf_index s n)" "pending ?s = pending s" by (auto simp: old_of_def pending_def m)
  note ran = ran_index_update(1) [OF P(5), of n] and sub = option_in_ran [of "lf_index s" n]
  have "places_ok ?s"
    unfolding places_ok_def
  proof (intro conjI)
    show "lf_live ?s = ran (lf_index ?s) \<union> old_of ?s \<union> lf_doomed ?s \<union> lf_missed ?s" using P(1) ran sub old by auto
    show "ran (lf_index ?s) \<inter> (old_of ?s \<union> lf_doomed ?s \<union> lf_missed ?s) = {}" using ran old(2) P(2) by auto
    show "old_of ?s \<inter> (lf_doomed ?s \<union> lf_missed ?s) = {}" using old(2) sub P(2) by auto
    show "inj_on (lf_index ?s) (dom (lf_index ?s))" using inj_index_update(1) [OF P(5), of n] by simp
    show "\<forall>q \<in> lf_live ?s. q < lf_next ?s" using P(6) by simp
  qed (use P(4) in simp)
  moreover have "storage_ok ?s" using S old(3) unfolding storage_ok_def by auto
  moreover have "requests_ok ?s"
    by (rule requests_frame [OF inv]) (use ran old in auto)
  ultimately show ?thesis by (simp add: life_inv_def)
qed

lemma end_modify_simps [simp]:
  "lf_index (end_modify new old s) = lf_index s" "lf_live (end_modify new old s) = lf_live s" "lf_ref (end_modify new old s) = lf_ref s"
  "lf_req (end_modify new old s) = lf_req s" "lf_modify (end_modify new old s) = None" "lf_storage (end_modify new old s) = lf_storage s"
  "lf_doomed (end_modify new old s) = lf_doomed s \<union> set_option old" "lf_missed (end_modify new old s) = lf_missed s"
  "lf_next (end_modify new old s) = lf_next s"
  by (simp_all add: end_modify_def)

lemma life_grace_inv:
  assumes inv: "life_inv s" and m: "lf_modify s = Some (new, old)" and rd: "\<forall>t idx. lf_req s t = Reading idx \<longrightarrow> idx = lf_index s"
  shows "life_inv (end_modify new old s)" (is "life_inv ?s")
proof -
  note P = placesD [OF inv] and S = storageD [OF inv]
  have old: "old_of s = set_option old" "old_of ?s = {}" "pending ?s = pending s"
    by (auto simp: old_of_def pending_def m end_modify_def split: option.splits if_splits)
  have "places_ok ?s" using P old unfolding places_ok_def by auto
  moreover have "storage_ok ?s" using S(1,2,3) old(3) unfolding storage_ok_def by simp
  moreover have "requests_ok ?s"
    by (rule requests_frame [OF inv]) (use rd in auto)
  ultimately show ?thesis by (simp add: life_inv_def)
qed

lemma store_topology_simps [simp]:
  "lf_index (store_topology p s) = lf_index s" "lf_live (store_topology p s) = lf_live s" "lf_ref (store_topology p s) = lf_ref s"
  "lf_req (store_topology p s) = lf_req s" "lf_modify (store_topology p s) = lf_modify s" "lf_storage (store_topology p s) = lf_storage s @ [p]"
  "lf_doomed (store_topology p s) = lf_doomed s" "lf_missed (store_topology p s) = lf_missed s" "lf_next (store_topology p s) = lf_next s"
  "lf_adding (store_topology p s) = (lf_adding s)(p := None)"
  by (simp_all add: store_topology_def)

lemma life_store_inv:
  assumes inv: "life_inv s" and p: "lf_adding s p = Some old"
  shows "life_inv (store_topology p s)" (is "life_inv ?s")
proof -
  note P = placesD [OF inv] and S = storageD [OF inv]
  have "lf_modify s \<noteq> Some (Some p, o')" for o' using S(4) p by force
  then have pend: "pending ?s = pending s - {p}" "p \<in> pending s" "old_of ?s = old_of s"
    using p by (auto simp: pending_def old_of_def split: option.splits)
  have "places_ok ?s" using P pend(3) unfolding places_ok_def by simp
  moreover have "storage_ok ?s" using S pend(1,2) unfolding storage_ok_def by auto
  moreover have "requests_ok ?s"
    by (rule requests_frame [OF inv]) (use pend(3) in auto)
  ultimately show ?thesis by (simp add: life_inv_def)
qed

lemma delete_topology_simps [simp]:
  "lf_index (delete_topology p s) = lf_index s" "lf_ref (delete_topology p s) = lf_ref s" "lf_req (delete_topology p s) = lf_req s"
  "lf_modify (delete_topology p s) = lf_modify s" "lf_doomed (delete_topology p s) = lf_doomed s - {p}" "lf_next (delete_topology p s) = lf_next s"
  "lf_adding (delete_topology p s) = lf_adding s" "lf_storage (delete_topology p s) = filter (\<lambda>q. q \<noteq> p) (lf_storage s)"
  by (auto simp: delete_topology_def intro!: filter_True [symmetric])

lemma life_delete_inv:
  assumes inv: "life_inv s" and p: "p \<in> lf_doomed s" "lf_ref s p = 0"
  shows "life_inv (delete_topology p s)" (is "life_inv ?s")
proof -
  note P = placesD [OF inv] and S = storageD [OF inv]
  have nu: "users s p = {}" using requestsD(2,3) [OF inv, of p] p(2) by simp
  have same: "old_of ?s = old_of s" "pending ?s = pending s" by (simp_all add: old_of_def pending_def)
  have "places_ok ?s" unfolding places_ok_def same using P p(1) by (auto simp: delete_topology_def)
  moreover have "storage_ok ?s" using S P(1) p(1) unfolding storage_ok_def same by (auto simp: delete_topology_def)
  moreover have "requests_ok ?s"
    by (rule requests_frame [OF inv]) (use nu same in \<open>auto simp: delete_topology_def\<close>)
  ultimately show ?thesis by (simp add: life_inv_def)
qed

lemma life_inv_step: "life_step s s' \<Longrightarrow> life_inv s \<Longrightarrow> life_inv s'"
proof (induction rule: life_step.induct)
  case (read_begin s t)
  note I = requestsD [OF read_begin(2)]
  have "users s p - {t} = users s p" for p using read_begin(1) by (auto simp: users_def)
  then show ?case
    by (intro life_inv_req [OF read_begin(2)]) (auto simp: users_update I(2,3))
next
  case (read_none s t idx)
  note I = requestsD [OF read_none(2)]
  have "users s p - {t} = users s p" for p using read_none(1) by (auto simp: users_def)
  then show ?case
    by (intro life_inv_req [OF read_none(2)]) (auto simp: users_update I(2,3))
next
  case (pick s t idx n p)
  note I = requestsD [OF pick(3)]
  have u: "users (s\<lparr>lf_req := (lf_req s)(t := Using p), lf_ref := r\<rparr>) q = (if q = p then insert t (users s p) else users s q)" for q r
    using pick(1) by (auto simp: users_def)
  have "t \<notin> users s p" using pick(1) by (simp add: users_def)
  moreover have "p \<in> lf_live s" using I(1) [OF pick(1)] ranI [of idx n p] pick(2) placesD(1) [OF pick(3)] by blast
  ultimately show ?case
    by (intro life_inv_req [OF pick(3)]) (auto simp: u I(2,3))
next
  case (finish s t p)
  note I = requestsD [OF finish(2)]
  have u: "users (s\<lparr>lf_req := (lf_req s)(t := Idle), lf_ref := r\<rparr>) q = (if q = p then users s p - {t} else users s q)" for q r
    using finish(1) by (auto simp: users_def)
  have "t \<in> users s p" using finish(1) by (simp add: users_def)
  then show ?case
    by (intro life_inv_req [OF finish(2)]) (auto simp: u I(2,3))
next
  case (publish s n)
  then show ?case by (intro life_publish_inv)
next
  case (withdraw s n)
  then show ?case by (intro life_withdraw_inv)
qed (auto intro: life_grace_inv life_store_inv life_delete_inv)

lemma life_inv_reachable: "life_step\<^sup>*\<^sup>* life_init s \<Longrightarrow> life_inv s"
  by (induction rule: rtranclp_induct) (auto simp: life_inv_init life_inv_step)

section \<open>Theorems\<close>

text \<open>
  C8: No use after free.  In every interleaving of requests with additions, replacements and removals of topologies, a
  topology that a request uses, or can still pick from the index it reads, has not been deleted.
\<close>

theorem no_use_after_free:
  assumes "life_step\<^sup>*\<^sup>* life_init s"
  shows "(lf_req s t = Using p \<longrightarrow> p \<in> lf_live s) \<and> (lf_req s t = Reading idx \<longrightarrow> idx n = Some p \<longrightarrow> p \<in> lf_live s)"
proof -
  have inv: "life_inv s" using assms by (rule life_inv_reachable)
  have "p \<in> lf_live s" if "lf_req s t = Reading idx" "idx n = Some p"
  proof -
    have "p \<in> ran idx" using that(2) by (rule ranI)
    then show ?thesis using placesD(1) [OF inv] requestsD(1) [OF inv that(1)] by blast
  qed
  then show ?thesis using requestsD(4) [OF inv] by blast
qed

text \<open>
  C9: Ownership.  Every live topology is reachable through the index, is the one a running \<open>Modify\<close> just replaced, waits for deletion, or is one
  whose \<open>Delete\<close> came before its \<open>Add\<close>; it stands in the storage once, or the call that published it has yet to store it.  Its reference count is the
  number of requests that use it, so one that waits for deletion, is stored and is used by no request is deleted as soon as the call that
  replaced it gets there.\<close>

theorem topology_ownership:
  assumes "life_step\<^sup>*\<^sup>* life_init s"
  shows "lf_live s = ran (lf_index s) \<union> old_of s \<union> lf_doomed s \<union> lf_missed s \<and>
    lf_live s = set (lf_storage s) \<union> pending s \<and> set (lf_storage s) \<inter> pending s = {} \<and> distinct (lf_storage s) \<and>
    lf_ref s p = card {t. lf_req s t = Using p} \<and>
    (p \<in> lf_doomed s \<longrightarrow> Some p \<notin> ran (lf_adding s) \<longrightarrow> p \<in> set (lf_storage s) \<longrightarrow> (\<forall>t. lf_req s t \<noteq> Using p) \<longrightarrow>
       life_step s (delete_topology p s) \<and> p \<notin> lf_live (delete_topology p s))"
proof -
  have inv: "life_inv s" using assms by (rule life_inv_reachable)
  have "life_step s (delete_topology p s) \<and> p \<notin> lf_live (delete_topology p s)"
    if "p \<in> lf_doomed s" "Some p \<notin> ran (lf_adding s)" "p \<in> set (lf_storage s)" "\<forall>t. lf_req s t \<noteq> Using p"
  proof -
    have "users s p = {}" using that(4) by (simp add: users_def)
    then have "lf_ref s p = 0" using requestsD(3) [OF inv] by simp
    from life_step.delete [OF that(1,2) this] show ?thesis using that(3) by (simp add: delete_topology_def)
  qed
  then show ?thesis using placesD(1) [OF inv] storageD(1,2,3) [OF inv] requestsD(3) [OF inv, of p] unfolding users_def by blast
qed

text \<open>Additions and removals one after the other: a modification begins only when every published topology is stored.\<close>

definition serial_step :: "life \<Rightarrow> life \<Rightarrow> bool" where
  "serial_step s s' \<longleftrightarrow> life_step s s' \<and> (lf_modify s = None \<longrightarrow> lf_modify s' \<noteq> None \<longrightarrow> lf_adding s = (\<lambda>_. None))"

definition serial_inv :: "life \<Rightarrow> bool" where
  "serial_inv s \<longleftrightarrow> lf_missed s = {} \<and> pending s \<subseteq> ran (lf_index s)"

lemma serial_inv_step: "life_step s s' \<Longrightarrow> life_inv s \<Longrightarrow> serial_inv s \<Longrightarrow> (lf_modify s = None \<Longrightarrow> lf_modify s' \<noteq> None \<Longrightarrow> lf_adding s = (\<lambda>_. None)) \<Longrightarrow> serial_inv s'"
proof (induction rule: life_step.induct)
  case (grace s new old)
  then show ?case by (auto simp: serial_inv_def pending_def end_modify_def split: option.splits if_splits)
next
  case (store s p old)
  then show ?case by (auto simp: serial_inv_def pending_def split: option.splits)
next
  case (delete p s)
  have "p \<in> set (lf_storage s)"
    using delete(1,5) placesD(1,2) [OF delete(4)] storageD(2) [OF delete(4)] by (auto simp: serial_inv_def)
  then show ?case using delete(5) by (simp add: serial_inv_def pending_def delete_topology_def)
next
  case (publish s n)
  then show ?case by (auto simp: serial_inv_def pending_def ran_def)
qed (auto simp: serial_inv_def pending_def)

text \<open>
  C36: No leak when additions and removals do not overlap: if each begins after the topologies published before it are stored, no \<open>Delete\<close> misses
  its topology, and when no modification and no deletion is under way the live topologies are those of the index.\<close>

theorem serial_no_leak:
  assumes "serial_step\<^sup>*\<^sup>* life_init s"
  shows "lf_missed s = {} \<and> (lf_modify s = None \<longrightarrow> lf_doomed s = {} \<longrightarrow> lf_live s = ran (lf_index s))"
proof -
  have "life_inv s \<and> serial_inv s"
    using assms
  proof (induction rule: rtranclp_induct)
    case base
    then show ?case by (simp add: life_inv_init) (simp add: serial_inv_def pending_def life_init_def)
  next
    case (step s s')
    then have st: "life_step s s'" "lf_modify s = None \<Longrightarrow> lf_modify s' \<noteq> None \<Longrightarrow> lf_adding s = (\<lambda>_. None)" by (auto simp: serial_step_def)
    show ?case using step.IH life_inv_step [OF st(1)] serial_inv_step [OF st(1) _ _ st(2)] by blast
  qed
  then show ?thesis using placesD(1) [of s] by (auto simp: serial_inv_def old_of_def)
qed

section \<open>Runs\<close>

text \<open>A topology is published, stored, picked by request 7, and removed from the index while it is used.\<close>

definition stored_life :: life where
  "stored_life = life_init\<lparr>lf_index := [''t'' \<mapsto> 1], lf_live := {1}, lf_storage := [1], lf_next := 2\<rparr>"

definition demo_life :: life where
  "demo_life = stored_life\<lparr>lf_ref := (\<lambda>_. 0)(1 := 1), lf_req := (\<lambda>_. Idle)(7 := Using 1)\<rparr>"

definition doomed_life :: life where
  "doomed_life = stored_life\<lparr>lf_index := Map.empty, lf_doomed := {1}\<rparr>"

lemma zero_update [simp]: "(\<lambda>_. 0::nat)(k := 0) = (\<lambda>_. 0)"
  by auto

lemma published_steps:
  "serial_step life_init (life_init\<lparr>lf_index := [''t'' \<mapsto> 1], lf_live := {1}, lf_modify := Some (Some 1, None), lf_next := 2\<rparr>)" (is "serial_step _ ?s1")
  "serial_step (life_init\<lparr>lf_index := [''t'' \<mapsto> 1], lf_live := {1}, lf_modify := Some (Some 1, None), lf_next := 2\<rparr>)
     (life_init\<lparr>lf_index := [''t'' \<mapsto> 1], lf_live := {1}, lf_adding := [1 \<mapsto> None], lf_next := 2\<rparr>)" (is "serial_step _ ?s2")
  "serial_step (life_init\<lparr>lf_index := [''t'' \<mapsto> 1], lf_live := {1}, lf_adding := [1 \<mapsto> None], lf_next := 2\<rparr>) stored_life"
proof -
  show "serial_step life_init ?s1"
    using life_step.publish [of life_init "''t''"] by (simp add: serial_step_def life_init_def numeral_2_eq_2)
  show "serial_step ?s1 ?s2"
    using life_step.grace [of ?s1 "Some 1" None] by (simp add: serial_step_def life_init_def end_modify_def)
  show "serial_step ?s2 stored_life"
    using life_step.store [of ?s2 1 None] by (simp add: serial_step_def life_init_def store_topology_def stored_life_def)
qed

lemma stored_life_reachable: "serial_step\<^sup>*\<^sup>* life_init stored_life"
  using published_steps by (meson r_into_rtranclp rtranclp_trans)

lemma serial_life: "serial_step\<^sup>*\<^sup>* s s' \<Longrightarrow> life_step\<^sup>*\<^sup>* s s'"
  by (erule rtranclp_mono [THEN predicate2D, rotated]) (auto simp: serial_step_def)

lemma demo_life_reachable: "life_step\<^sup>*\<^sup>* life_init demo_life"
proof -
  let ?s3 = "stored_life\<lparr>lf_req := (\<lambda>_. Idle)(7 := Reading [''t'' \<mapsto> 1])\<rparr>"
  have 1: "life_step stored_life ?s3" using life_step.read_begin [of stored_life 7] by (simp add: life_init_def stored_life_def)
  have 2: "life_step ?s3 demo_life"
    using life_step.pick [of ?s3 7 "[''t'' \<mapsto> 1]" "''t''" 1] by (simp add: life_init_def stored_life_def demo_life_def)
  show ?thesis using 1 2 serial_life [OF stored_life_reachable] by (meson r_into_rtranclp rtranclp_trans)
qed

lemma doomed_life_reachable: "serial_step\<^sup>*\<^sup>* life_init doomed_life"
proof -
  let ?s3 = "stored_life\<lparr>lf_index := Map.empty, lf_modify := Some (None, Some 1)\<rparr>"
  have 1: "serial_step stored_life ?s3"
    using life_step.withdraw [of stored_life "''t''"] by (simp add: serial_step_def life_init_def stored_life_def)
  have 2: "serial_step ?s3 doomed_life"
    using life_step.grace [of ?s3 None "Some 1"] by (simp add: serial_step_def life_init_def stored_life_def doomed_life_def end_modify_def)
  show ?thesis using 1 2 stored_life_reachable by (meson r_into_rtranclp rtranclp_trans)
qed

theorem no_use_after_free_witness:
  "life_step\<^sup>*\<^sup>* life_init demo_life \<and> lf_req demo_life 7 = Using 1 \<and> 1 \<in> lf_live demo_life"
  using no_use_after_free [OF demo_life_reachable, of 7 1] demo_life_reachable by (auto simp: demo_life_def)

theorem topology_ownership_witness:
  "life_step\<^sup>*\<^sup>* life_init doomed_life \<and> lf_live doomed_life = {1} \<and>
   life_step doomed_life (delete_topology 1 doomed_life) \<and> lf_live (delete_topology 1 doomed_life) = {}"
proof -
  have r: "life_step\<^sup>*\<^sup>* life_init doomed_life" using serial_life [OF doomed_life_reachable] .
  have "life_step doomed_life (delete_topology 1 doomed_life)" 
    using topology_ownership [OF r, of 1] by (simp add: doomed_life_def stored_life_def life_init_def)
  then show ?thesis using r by (simp add: doomed_life_def stored_life_def life_init_def delete_topology_def)
qed

theorem serial_no_leak_witness:
  "serial_step\<^sup>*\<^sup>* life_init (delete_topology 1 doomed_life) \<and> lf_live (delete_topology 1 doomed_life) = {}"
proof -
  have "serial_step doomed_life (delete_topology 1 doomed_life)"
    using life_step.delete [of 1 doomed_life] by (simp add: serial_step_def doomed_life_def stored_life_def life_init_def)
  then have r: "serial_step\<^sup>*\<^sup>* life_init (delete_topology 1 doomed_life)" using doomed_life_reachable by simp
  show ?thesis using serial_no_leak [OF r] r by (simp add: doomed_life_def stored_life_def life_init_def)
qed

section \<open>The race between Modify and Add\<close>

definition lost :: "nat \<Rightarrow> life \<Rightarrow> bool" where
  "lost p s \<longleftrightarrow> life_inv s \<and> p \<in> lf_missed s \<and> (\<forall>t. lf_req s t \<noteq> Using p)"

lemma lost_step:
  assumes step: "life_step s s'" and "lost p s"
  shows "lost p s'"
proof -
  have inv: "life_inv s" and p: "p \<in> lf_missed s" and nu: "\<forall>t. lf_req s t \<noteq> Using p" using assms(2) by (simp_all add: lost_def)
  have "p \<notin> ran idx" if "lf_req s t = Reading idx" for t idx
    using requestsD(1) [OF inv that] placesD(2,3) [OF inv] p by blast
  then have idx: "idx n \<noteq> Some p" if "lf_req s t = Reading idx" for t idx n using that by (auto simp: ran_def)
  have "p \<in> lf_missed s' \<and> (\<forall>t. lf_req s' t \<noteq> Using p)"
    using step p nu idx by (induction rule: life_step.induct) (auto simp: delete_topology_def)
  then show ?thesis using life_inv_step [OF step inv] by (simp add: lost_def)
qed

lemma lost_run:
  assumes "life_step\<^sup>*\<^sup>* s s'" and "lost p s"
  shows "p \<in> lf_live s' \<and> p \<notin> ran (lf_index s') \<and> (\<forall>t. lf_req s' t \<noteq> Using p)"
proof -
  have l: "lost p s'" using assms by (induction rule: rtranclp_induct) (auto intro: lost_step)
  then show ?thesis using placesD(1,2) [of s'] by (auto simp: lost_def)
qed

text \<open>Published and not stored; removed by another thread; \<open>Delete\<close> finds nothing; then stored.\<close>

definition leaked_life :: life where
  "leaked_life = life_init\<lparr>lf_live := {1}, lf_storage := [1], lf_missed := {1}, lf_next := 2\<rparr>"

lemma leaked_life_reachable: "life_step\<^sup>*\<^sup>* life_init leaked_life"
proof -
  let ?s2 = "life_init\<lparr>lf_index := [''t'' \<mapsto> 1], lf_live := {1}, lf_adding := [1 \<mapsto> None], lf_next := 2\<rparr>"
  let ?s3 = "?s2\<lparr>lf_index := Map.empty, lf_modify := Some (None, Some 1)\<rparr>"
  let ?s4 = "?s2\<lparr>lf_index := Map.empty, lf_doomed := {1}\<rparr>"
  let ?s5 = "?s2\<lparr>lf_index := Map.empty, lf_missed := {1}\<rparr>"
  have 1: "life_step\<^sup>*\<^sup>* life_init ?s2"
    by (rule serial_life) (use published_steps(1,2) in \<open>meson r_into_rtranclp rtranclp_trans\<close>)
  have 2: "life_step ?s2 ?s3" using life_step.withdraw [of ?s2 "''t''"] by (simp add: life_init_def)
  have 3: "life_step ?s3 ?s4" using life_step.grace [of ?s3 None "Some 1"] by (simp add: life_init_def end_modify_def)
  have 4: "life_step ?s4 ?s5" using life_step.delete [of 1 ?s4] by (simp add: life_init_def delete_topology_def)
  have 5: "life_step ?s5 leaked_life"
    using life_step.store [of ?s5 1 None] by (simp add: life_init_def store_topology_def leaked_life_def)
  show ?thesis using 1 2 3 4 5 by (meson r_into_rtranclp rtranclp_trans)
qed

text \<open>
  The leak.  A topology can be removed by another thread after its \<open>add_topology\<close> has published it and before it has stored it: \<open>Delete\<close>
  then finds nothing, the topology is stored afterwards, and a state is reached in which no thread is at work, the index is empty, and the topology is
  live in every later state and never reachable through the index again.\<close>

theorem topology_leak:
  "\<exists>s. life_step\<^sup>*\<^sup>* life_init s \<and> lf_index s = Map.empty \<and> (\<forall>t. lf_req s t = Idle) \<and> lf_modify s = None \<and> lf_adding s = Map.empty \<and> lf_doomed s = {} \<and>
     (\<forall>s'. life_step\<^sup>*\<^sup>* s s' \<longrightarrow> 1 \<in> lf_live s' \<and> 1 \<notin> ran (lf_index s') \<and> (\<forall>t. lf_req s' t \<noteq> Using 1))"
proof -
  have "lost 1 leaked_life"
    using life_inv_reachable [OF leaked_life_reachable] by (simp add: lost_def) (simp add: leaked_life_def life_init_def)
  then show ?thesis using leaked_life_reachable lost_run [of leaked_life _ 1]
    by (intro exI [of _ leaked_life]) (simp add: leaked_life_def life_init_def)
qed

theorem topology_leak_witness:
  "\<exists>s. life_step\<^sup>*\<^sup>* life_init s \<and> lf_index s = Map.empty \<and> lf_doomed s = {} \<and> 1 \<in> lf_live s"
  using topology_leak by blast

end
