(* ===== verification/AppHost.thy ===== *)
theory AppHost
  imports RpcService "HOL-Library.Word"
begin

unbundle bit_operations_syntax

text \<open>
  The process around the topologies: loading an application (\<open>app_interface/DlModuleInterface.h\<close>,
  \<open>sw/server/AppLoader.cpp\<close>), \<open>AppProxy\<close>, \<open>SearchWorker\<close> and \<open>ServerMain\<close>.

  The dynamic linker, the application's virtual methods, the heartbeat controller and the operating system are parameters.
  A lock that is taken again by its holder never comes back (\<^const>\<open>None\<close>); a null pointer that is followed, and an
  assertion that fails, is a \<open>Crash\<close>.
\<close>

section \<open>Interface identifiers\<close>

definition uuid_high :: "64 word \<Rightarrow> 64 word \<Rightarrow> 64 word \<Rightarrow> 64 word" where
  "uuid_high u1 u2 u3 = (push_bit 32 u1 OR push_bit 16 u2) OR u3"

definition uuid_low :: "64 word \<Rightarrow> 64 word \<Rightarrow> 64 word" where
  "uuid_low u4 u5 = push_bit 48 u4 OR u5"

definition sw_app_uuid_high :: "64 word" where
  "sw_app_uuid_high = uuid_high 0x36efca13 0xb4f3 0x456f"

definition sw_app_uuid_low :: "64 word" where
  "sw_app_uuid_low = uuid_low 0x81f5 0x4a7df90db94e"

text \<open>\<open>CreateInterface\<close> as \<open>DEFINE_SW_APP\<close> defines it; \<open>new_app\<close> is the result of \<open>new (std::nothrow)\<close>.\<close>

definition create_interface :: "'a option \<Rightarrow> 64 word \<Rightarrow> 64 word \<Rightarrow> 'a option" where
  "create_interface new_app high low =
     (if sw_app_uuid_high = high \<and> sw_app_uuid_low = low then new_app else None)"

section \<open>Loaders\<close>

record dl_library =
  dl_opens :: bool
  dl_has_create :: bool
  dl_has_destroy :: bool
  dl_has_get_name :: bool
  dl_has_get_version :: bool
  dl_name :: "string option"
  dl_version :: "string option"

record cdl_loader =
  cdl_handle :: bool
  cdl_name :: string
  cdl_version :: string
  cdl_creator :: bool
  cdl_destroyer :: bool
  cdl_wrlocked :: bool

definition cdl_construct :: cdl_loader where
  "cdl_construct = \<lparr>cdl_handle = False, cdl_name = [], cdl_version = [], cdl_creator = False, cdl_destroyer = False, cdl_wrlocked = False\<rparr>"

definition cdl_load :: "dl_library \<Rightarrow> cdl_loader \<Rightarrow> (bool \<times> cdl_loader) option" where
  "cdl_load lib l =
     (if cdl_handle l then Some (False, l)
      else if cdl_wrlocked l then None
      else
        let l1 = l\<lparr>cdl_wrlocked := True\<rparr>; unlock = (\<lambda>l. l\<lparr>cdl_wrlocked := False\<rparr>) in
        if \<not> dl_opens lib then Some (False, unlock l1)
        else
          let l2 = l1\<lparr>cdl_handle := True, cdl_creator := dl_has_create lib\<rparr> in
          if \<not> dl_has_create lib then Some (False, unlock l2)
          else
            let l3 = l2\<lparr>cdl_destroyer := dl_has_destroy lib\<rparr> in
            if \<not> dl_has_destroy lib then Some (False, unlock l3)
            else if \<not> dl_has_get_name lib then Some (False, unlock l3)
            else if \<not> dl_has_get_version lib then Some (False, unlock l3)
            else case (dl_name lib, dl_version lib) of
                (Some n, Some v) \<Rightarrow> Some (True, unlock (l3\<lparr>cdl_name := n, cdl_version := v\<rparr>))
              | _ \<Rightarrow> Some (False, l3))"

definition cdl_create :: "('k \<Rightarrow> 'a option) \<Rightarrow> 'k \<Rightarrow> cdl_loader \<Rightarrow> 'a option option" where
  "cdl_create creator uuid l =
     (if cdl_wrlocked l then None else Some (if cdl_creator l then creator uuid else None))"

text \<open>\<open>destroy\<close> tells whether the destroyer was called.\<close>

definition cdl_destroy :: "cdl_loader \<Rightarrow> bool option" where
  "cdl_destroy l = (if cdl_wrlocked l then None else Some (cdl_destroyer l))"

definition cdl_destruct :: "cdl_loader \<Rightarrow> cdl_loader option" where
  "cdl_destruct l =
     (if cdl_wrlocked l then None
      else Some (l\<lparr>cdl_creator := False, cdl_destroyer := False, cdl_handle := False\<rparr>))"

record static_loader =
  sl_name :: string
  sl_version :: string

definition static_load :: "string option \<Rightarrow> string option \<Rightarrow> static_loader \<Rightarrow> bool \<times> static_loader" where
  "static_load name version l =
     (case (name, version) of
        (Some n, Some v) \<Rightarrow> (True, l\<lparr>sl_name := n, sl_version := v\<rparr>)
      | _ \<Rightarrow> (False, l))"

section \<open>AppProxy\<close>

text \<open>A call returns, aborts (an assertion fails or a null pointer is followed), or never returns.\<close>

datatype 'a run = Ok 'a | Crash string | Hang

definition run_bind :: "'a run \<Rightarrow> ('a \<Rightarrow> 'b run) \<Rightarrow> 'b run" where
  "run_bind r f = (case r of Ok x \<Rightarrow> f x | Crash m \<Rightarrow> Crash m | Hang \<Rightarrow> Hang)"

lemma run_bind_simps [simp]: "run_bind (Ok x) f = f x" "run_bind (Crash m) f = Crash m" "run_bind Hang f = Hang"
  by (simp_all add: run_bind_def)

text \<open>The application: its registries and the results of its virtual methods.\<close>

record ('d, 'p) sw_app =
  app_registry :: factory_registry
  app_reloadable :: "nat element_registry"
  app_init :: "('d, 'p) rpc_component \<Rightarrow> (bool \<times> ('d, 'p) rpc_component) run"
  app_health :: int
  app_load_biz :: "string \<Rightarrow> string \<Rightarrow> bool"
  app_unload_biz :: "string \<Rightarrow> bool"
  module_init :: "nat \<Rightarrow> bool"
  module_load :: "nat \<Rightarrow> bool"
  integrating_init :: "nat \<Rightarrow> bool option"

text \<open>What the components table holds under a name: the RPC component or one of another class.\<close>

datatype component_entry = RpcEntry | OtherEntry

record ('d, 'p) app_proxy =
  px_app :: "('d, 'p) sw_app"
  px_has_rpc :: bool
  px_reload_thread :: bool

definition proxy_init ::
  "'d dbd_ops \<Rightarrow> (string, component_entry) umap \<Rightarrow> ('d, 'p) app_proxy \<Rightarrow> ('d, 'p) rpc_component \<Rightarrow>
   (bool \<times> ('d, 'p) app_proxy \<times> ('d, 'p) rpc_component) run" where
  "proxy_init ops components px c =
     (case map_of components ''rpc_component'' of
        None \<Rightarrow> Ok (False, px, c)
      | Some OtherEntry \<Rightarrow> Ok (False, px\<lparr>px_has_rpc := False\<rparr>, c)
      | Some RpcEntry \<Rightarrow>
          let px1 = px\<lparr>px_has_rpc := True\<rparr>;
              c1 = c\<lparr>rpc_manager := (rpc_manager c)\<lparr>mg_app_registry := app_registry (px_app px)\<rparr>\<rparr>
          in run_bind (app_init (px_app px) c1) (\<lambda>(ok, c2).
             if \<not> ok then Ok (False, px1, c2)
             else if \<not> list_all (\<lambda>s. contain ops (rpc_manager c2) (sv_topology_name s)) (rpc_serving_configs c2) then Ok (False, px1, c2)
             else if \<not> list_all (\<lambda>s. integrating_init (px_app px) (fst s) \<noteq> Some False) (rpc_raw_services c2) then Ok (False, px1, c2)
             else Ok (True, px1, c2\<lparr>rpc_manager := set_app_initialized (rpc_manager c2)\<rparr>)))"

definition first_failure :: "(nat \<Rightarrow> bool) \<Rightarrow> nat element_registry \<Rightarrow> bool \<times> string" where
  "first_failure f reg =
     visit (\<lambda>name m (succ, failed). if succ \<and> \<not> f m then (False, (False, name)) else (True, (succ, failed))) reg (True, [])"

definition setup_reload_scheme :: "('d, 'p) app_proxy \<Rightarrow> bool \<times> ('d, 'p) app_proxy" where
  "setup_reload_scheme px =
     (let reg = app_reloadable (px_app px) in
      if \<not> fst (first_failure (module_init (px_app px)) reg) then (False, px)
      else if \<not> fst (first_failure (module_load (px_app px)) reg) then (False, px)
      else (True, px\<lparr>px_reload_thread := True\<rparr>))"

record biz_env =
  biz_read_file :: "string \<Rightarrow> string option"
  biz_parse :: "string \<Rightarrow> topology_config option"
  bind_biz_and_topology :: bool

definition load_topology_from_biz ::
  "'d dbd_ops \<Rightarrow> 'p sw_env \<Rightarrow> biz_env \<Rightarrow> ('d, 'p) app_proxy \<Rightarrow> string \<Rightarrow> string \<Rightarrow> ('d, 'p) rpc_component \<Rightarrow>
   load_result \<times> ('d, 'p) rpc_component" where
  "load_topology_from_biz ops env benv px name path c =
     (if \<not> px_has_rpc px then (LoadFailed, c)
      else case biz_read_file benv (path @ ''/topology_config.json'') of
        None \<Rightarrow> (LoadFailed, c)
      | Some content \<Rightarrow>
          (case biz_parse benv content of
             None \<Rightarrow> (LoadFailed, c)
           | Some packed \<Rightarrow>
               if rt_name (tc_topology packed) \<noteq> name then (LoadFailed, c)
               else case add_topology ops env packed (rpc_manager c) of
                 (Done, g) \<Rightarrow> (LoadOk, c\<lparr>rpc_manager := g\<rparr>)
               | (Blocked, g) \<Rightarrow> (LoadBlocked, c\<lparr>rpc_manager := g\<rparr>)
               | (Failed e, g) \<Rightarrow> (LoadFailed, c\<lparr>rpc_manager := g\<rparr>)))"

definition unload_topology_by_name ::
  "'d dbd_ops \<Rightarrow> ('d, 'p) app_proxy \<Rightarrow> string \<Rightarrow> ('d, 'p) rpc_component \<Rightarrow> load_result \<times> ('d, 'p) rpc_component" where
  "unload_topology_by_name ops px name c =
     (if \<not> px_has_rpc px then (LoadFailed, c)
      else if name = ''default'' then (LoadOk, c)
      else case remove_topology ops name (rpc_manager c) of
        (Done, g) \<Rightarrow> (LoadOk, c\<lparr>rpc_manager := g\<rparr>)
      | (_, g) \<Rightarrow> (LoadBlocked, c\<lparr>rpc_manager := g\<rparr>))"

definition load_biz ::
  "'d dbd_ops \<Rightarrow> 'p sw_env \<Rightarrow> biz_env \<Rightarrow> ('d, 'p) app_proxy \<Rightarrow> string \<Rightarrow> string \<Rightarrow> ('d, 'p) rpc_component \<Rightarrow>
   load_result \<times> ('d, 'p) rpc_component" where
  "load_biz ops env benv px name path c =
     (let (r, c1) = (if bind_biz_and_topology benv then load_topology_from_biz ops env benv px name path c else (LoadOk, c))
      in if r \<noteq> LoadOk then (r, c1)
         else (if app_load_biz (px_app px) name path then LoadOk else LoadFailed, c1))"

definition unload_biz ::
  "'d dbd_ops \<Rightarrow> biz_env \<Rightarrow> ('d, 'p) app_proxy \<Rightarrow> string \<Rightarrow> ('d, 'p) rpc_component \<Rightarrow> load_result \<times> ('d, 'p) rpc_component" where
  "unload_biz ops benv px name c =
     (let (r, c1) = (if bind_biz_and_topology benv then unload_topology_by_name ops px name c else (LoadOk, c))
      in if r \<noteq> LoadOk then (r, c1)
         else (if app_unload_biz (px_app px) name then LoadOk else LoadFailed, c1))"

section \<open>SearchWorker\<close>

text \<open>Everything \<open>init\<close> and \<open>start\<close> ask of the outside: results of configuration, monitor, loader, server and controller.\<close>

record ('d, 'p) worker_env =
  we_config_ok :: bool
  we_cat_ok :: bool
  we_loader_ok :: bool
  we_app :: "('d, 'p) sw_app option"
  we_components :: "(string, component_entry) umap"
  we_server_ok :: bool
  we_controller_ok :: bool

record ('d, 'p) worker =
  wk_started :: bool
  wk_rpc_server :: "bool option"
  wk_controller :: "bool option"
  wk_proxy :: "('d, 'p) app_proxy option"
  wk_component :: "('d, 'p) rpc_component"
  wk_app_live :: bool

definition worker_construct :: "('d, 'p) rpc_component \<Rightarrow> ('d, 'p) worker" where
  "worker_construct c =
     \<lparr>wk_started = False, wk_rpc_server = None, wk_controller = None, wk_proxy = None, wk_component = c, wk_app_live = False\<rparr>"

definition init_worker_app ::
  "'d dbd_ops \<Rightarrow> 'p sw_env \<Rightarrow> ('d, 'p) worker_env \<Rightarrow> ('d, 'p) worker \<Rightarrow> (bool \<times> ('d, 'p) worker) run" where
  "init_worker_app ops env we w =
     (if \<not> we_loader_ok we then Ok (False, w)
      else case we_app we of
        None \<Rightarrow> Ok (False, w)
      | Some app \<Rightarrow>
          run_bind (proxy_init ops (we_components we) \<lparr>px_app = app, px_has_rpc = False, px_reload_thread = False\<rparr> (wk_component w)) (\<lambda>(ok, px, c).
          let w1 = w\<lparr>wk_proxy := Some px, wk_component := c, wk_app_live := True\<rparr>
          in if \<not> ok then Ok (False, w1)
             else
               let (ok2, px2) = setup_reload_scheme px; w2 = w1\<lparr>wk_proxy := Some px2\<rparr>
               in if \<not> ok2 then Ok (False, w2)
                  else
                    let (ok3, g) = validate_and_reserve ops env (rpc_manager c)
                    in Ok (ok3, w2\<lparr>wk_component := c\<lparr>rpc_manager := g\<rparr>\<rparr>)))"

definition worker_init ::
  "'d dbd_ops \<Rightarrow> 'p sw_env \<Rightarrow> bool \<Rightarrow> ('d, 'p) worker_env \<Rightarrow> ('d, 'p) worker \<Rightarrow> (bool \<times> ('d, 'p) worker) run" where
  "worker_init ops env enable_cat we w =
     (if \<not> we_config_ok we then Ok (False, w)
      else if enable_cat \<and> \<not> we_cat_ok we then Ok (False, w)
      else init_worker_app ops env we w)"

definition worker_start :: "('d, 'p) worker_env \<Rightarrow> ('d, 'p) worker \<Rightarrow> bool \<times> ('d, 'p) worker" where
  "worker_start we w =
     (if wk_started w then (True, w)
      else
        let w1 = w\<lparr>wk_rpc_server := Some (we_server_ok we)\<rparr> in
        if \<not> we_server_ok we then (False, w1)
        else
          let w2 = w1\<lparr>wk_controller := Some (we_controller_ok we)\<rparr> in
          if \<not> we_controller_ok we then (False, w2) else (True, w2\<lparr>wk_started := True\<rparr>))"

definition worker_stop :: "('d, 'p) worker \<Rightarrow> ('d, 'p) worker" where
  "worker_stop w =
     (if \<not> wk_started w then w else w\<lparr>wk_rpc_server := None, wk_controller := None, wk_started := False\<rparr>)"

definition worker_destroy :: "('d, 'p) worker \<Rightarrow> ('d, 'p) worker run" where
  "worker_destroy w =
     (case wk_proxy w of
        None \<Rightarrow> Ok w
      | Some px \<Rightarrow>
          if \<not> px_has_rpc px then Crash ''rpc_component() is null''
          else case manager_clear (rpc_manager (wk_component w)) of
            (r, assertion, g) \<Rightarrow>
              if \<not> assertion then Crash ''num_topologies() == 0''
              else Ok (w\<lparr>wk_component := (wk_component w)\<lparr>rpc_manager := g\<rparr>, wk_proxy := None, wk_app_live := False\<rparr>))"

definition worker_destruct :: "('d, 'p) worker \<Rightarrow> ('d, 'p) worker run" where
  "worker_destruct w = worker_destroy (worker_stop w)"

definition check_health :: "('d, 'p) worker \<Rightarrow> bool" where
  "check_health w =
     (case (wk_rpc_server w, wk_proxy w) of
        (Some running, Some px) \<Rightarrow> running \<and> app_health (px_app px) = 0
      | _ \<Rightarrow> False)"

section \<open>ServerMain\<close>

definition parse_and_validate_args :: "(string \<Rightarrow> bool) \<Rightarrow> string \<Rightarrow> string \<Rightarrow> bool" where
  "parse_and_validate_args exists log config =
     (if log \<noteq> [] \<and> \<not> exists log then False
      else if config = [] then False
      else exists config)"

definition start_search_worker ::
  "'d dbd_ops \<Rightarrow> 'p sw_env \<Rightarrow> bool \<Rightarrow> ('d, 'p) worker_env \<Rightarrow> ('d, 'p) rpc_component \<Rightarrow> (bool \<times> ('d, 'p) worker option) run" where
  "start_search_worker ops env enable_cat we c =
     run_bind (worker_init ops env enable_cat we (worker_construct c)) (\<lambda>(ok, w).
       if \<not> ok then run_bind (worker_destruct w) (\<lambda>_. Ok (False, None))
       else
         (case worker_start we w of
            (False, w1) \<Rightarrow> run_bind (worker_destruct w1) (\<lambda>_. Ok (False, None))
          | (True, w1) \<Rightarrow> Ok (True, Some w1)))"

definition stop_search_worker :: "('d, 'p) worker \<Rightarrow> ('d, 'p) worker run" where
  "stop_search_worker w = worker_destroy (worker_stop w)"

datatype signal = SIGINT | SIGTERM | SIGUSR1 | SIGUSR2 | SIGPIPE | SIGOther

definition ends_wait :: "int \<Rightarrow> signal \<Rightarrow> bool" where
  "ends_wait error signo \<longleftrightarrow> error = 0 \<and> signo \<in> {SIGUSR1, SIGUSR2, SIGINT, SIGTERM}"

text \<open>The results of successive calls of \<open>sigwait\<close>; \<^const>\<open>None\<close>: still waiting when they are used up.\<close>

fun wait_signal :: "(int \<times> signal) list \<Rightarrow> (signal \<times> (int \<times> signal) list) option" where
  "wait_signal [] = None"
| "wait_signal ((error, signo) # rest) =
     (if error \<noteq> 0 then wait_signal rest
      else if signo \<in> {SIGUSR1, SIGUSR2, SIGINT, SIGTERM} then Some (signo, rest)
      else wait_signal rest)"

text \<open>The write loop of \<open>WriteToThreadDumpFile\<close>: each call of \<open>write\<close> takes its result from the list, the number of bytes it
  wrote or a negative error; \<open>out\<close> is what the file has received.\<close>

datatype dump_result = DumpDone string | DumpFailed string | DumpPending

function write_loop :: "string \<Rightarrow> nat \<Rightarrow> int list \<Rightarrow> string \<Rightarrow> dump_result" where
  "write_loop msg offset [] out = DumpPending"
| "write_loop msg offset (r # rs) out =
     (if r < 0 then DumpFailed out
      else
        let n = nat r; out' = out @ take n (drop offset msg)
        in if offset + n < length msg then write_loop msg (offset + n) rs out' else DumpDone out')"
  by pat_completeness auto

termination
  by (relation "measure (\<lambda>(msg, offset, rs, out). length rs)") auto

definition write_to_thread_dump_file :: "string \<Rightarrow> int \<Rightarrow> string option \<Rightarrow> int list \<Rightarrow> string \<Rightarrow> dump_result" where
  "write_to_thread_dump_file path fd msg rs out =
     (case msg of
        None \<Rightarrow> DumpDone out
      | Some m \<Rightarrow> if path = [] then DumpDone out else if fd < 0 then DumpFailed out else write_loop m 0 rs out)"

definition sw_main ::
  "'d dbd_ops \<Rightarrow> 'p sw_env \<Rightarrow> bool \<Rightarrow> ('d, 'p) worker_env \<Rightarrow> (string \<Rightarrow> bool) \<Rightarrow> string \<Rightarrow> string \<Rightarrow> int \<Rightarrow>
   (int \<times> signal) list \<Rightarrow> ('d, 'p) rpc_component \<Rightarrow> int run option" where
  "sw_main ops env enable_cat we exists log config sigmask_rc sigs c =
     (if \<not> parse_and_validate_args exists log config then Some (Ok (-1))
      else if sigmask_rc \<noteq> 0 then Some (Ok (-1))
      else case start_search_worker ops env enable_cat we c of
        Crash m \<Rightarrow> Some (Crash m)
      | Hang \<Rightarrow> None
      | Ok (False, _) \<Rightarrow> Some (Ok (-1))
      | Ok (True, None) \<Rightarrow> Some (Ok (-1))
      | Ok (True, Some w) \<Rightarrow>
          (case wait_signal sigs of
             None \<Rightarrow> None
           | Some _ \<Rightarrow> (case stop_search_worker w of Crash m \<Rightarrow> Some (Crash m) | Hang \<Rightarrow> None | Ok _ \<Rightarrow> Some (Ok 0))))"

section \<open>Lemmas\<close>

lemma uuid_high_inj:
  assumes "take_bit 32 u1 = u1" "take_bit 16 u2 = u2" "take_bit 16 u3 = u3"
    and "take_bit 32 v1 = v1" "take_bit 16 v2 = v2" "take_bit 16 v3 = v3"
    and eq: "uuid_high u1 u2 u3 = uuid_high v1 v2 v3"
  shows "u1 = v1 \<and> u2 = v2 \<and> u3 = v3"
proof -
  have f: "take_bit 32 (drop_bit 32 (uuid_high u1 u2 u3)) = u1" "take_bit 16 (drop_bit 16 (uuid_high u1 u2 u3)) = u2"
    "take_bit 16 (uuid_high u1 u2 u3) = u3"
    if "take_bit 32 u1 = u1" "take_bit 16 u2 = u2" "take_bit 16 u3 = u3" for u1 u2 u3
  proof -
    have b: "bit u2 k \<Longrightarrow> k < 16" "bit u3 k \<Longrightarrow> k < 16" "bit u1 k \<Longrightarrow> k < 32" for k
      using that by (metis bit_take_bit_iff)+
    show "take_bit 32 (drop_bit 32 (uuid_high u1 u2 u3)) = u1"
      by (rule bit_word_eqI) (auto simp: uuid_high_def bit_simps dest: b)
    show "take_bit 16 (drop_bit 16 (uuid_high u1 u2 u3)) = u2"
      by (rule bit_word_eqI) (auto simp: uuid_high_def bit_simps dest: b)
    show "take_bit 16 (uuid_high u1 u2 u3) = u3"
      by (rule bit_word_eqI) (auto simp: uuid_high_def bit_simps dest: b)
  qed
  show ?thesis using f [OF assms(1-3)] f [OF assms(4-6)] eq by metis
qed

lemma first_failure_all: "fst (first_failure f reg) \<longleftrightarrow> list_all (\<lambda>(n, m). f m) (element_list reg)"
proof -
  let ?v = "\<lambda>name m (succ, failed). if succ \<and> \<not> f m then (False, (False, name)) else (True, (succ, failed))"
  have "fst (visit_items ?v xs (b, d)) \<longleftrightarrow> b \<and> (list_all (\<lambda>(n, m). f m) xs)" for xs b d
    by (induction xs arbitrary: b d) (auto split: if_splits)
  then show ?thesis by (simp add: first_failure_def visit_def)
qed

lemma write_loop_content:
  "offset \<le> length msg \<Longrightarrow> write_loop msg offset rs out = DumpDone out' \<Longrightarrow> out' = out @ drop offset msg"
proof (induction msg offset rs out rule: write_loop.induct)
  case (2 msg offset r rs out)
  show ?case
  proof (cases "r < 0")
    case True
    then show ?thesis using 2(3) by simp
  next
    case False
    show ?thesis
    proof (cases "offset + nat r < length msg")
      case True
      have "out' = (out @ take (nat r) (drop offset msg)) @ drop (offset + nat r) msg"
        using 2(1) [OF False refl refl True] 2(3) False True by (simp add: Let_def)
      then show ?thesis by (metis add.commute append.assoc append_take_drop_id drop_drop)
    next
      case over: False
      then have "take (nat r) (drop offset msg) = drop offset msg" by simp
      then show ?thesis using 2(3) False over by (simp add: Let_def)
    qed
  qed
qed simp

lemma write_loop_finishes:
  "list_all (\<lambda>r. 1 \<le> r) rs \<Longrightarrow> rs \<noteq> [] \<Longrightarrow> length msg - offset \<le> length rs \<Longrightarrow> \<exists>f. write_loop msg offset rs out = DumpDone f"
proof (induction msg offset rs out rule: write_loop.induct)
  case (2 msg offset r rs out)
  then have r: "1 \<le> r" by simp
  show ?case
  proof (cases "offset + nat r < length msg")
    case True
    have "rs \<noteq> []" "length msg - (offset + nat r) \<le> length rs" using 2(4) True r by (auto simp: nat_le_iff)
    then show ?thesis using 2(1) [of "nat r"] 2(2) True r by (simp add: Let_def)
  next
    case False
    then show ?thesis using r by (simp add: Let_def)
  qed
qed simp

lemma write_loop_spins: "msg \<noteq> [] \<Longrightarrow> write_loop msg 0 (replicate k 0) out = DumpPending"
  by (induction k arbitrary: out) (auto simp: Let_def)

text \<open>When the component table has no RPC component, \<open>AppProxy::init\<close> fails cleanly, but deleting the worker follows the null
  pointer \<open>rpc_component()\<close>.\<close>

lemma start_without_rpc_component:
  assumes "we_config_ok we" and "enable_cat \<longrightarrow> we_cat_ok we" and "we_loader_ok we" and "we_app we = Some app"
    and "map_of (we_components we) ''rpc_component'' = None"
  shows "start_search_worker ops env enable_cat we c = Crash ''rpc_component() is null''"
  using assms
  by (simp add: start_search_worker_def worker_init_def init_worker_app_def proxy_init_def worker_construct_def
      worker_destruct_def worker_stop_def worker_destroy_def Let_def)

text \<open>When the controller does not start, \<open>start\<close> fails with the RPC server running and \<open>_started\<close> false, so \<open>stop\<close> does
  nothing and the server outlives the application.\<close>

lemma half_started_server_survives:
  assumes "\<not> wk_started w" and "we_server_ok we" and "\<not> we_controller_ok we" and "worker_start we w = (b, w1)"
    and "worker_destruct w1 = Ok w2" and "wk_proxy w = Some px"
  shows "\<not> b \<and> wk_rpc_server w2 = Some True \<and> \<not> wk_app_live w2"
  using assms
  by (auto simp: worker_start_def worker_destruct_def worker_stop_def worker_destroy_def Let_def split: if_splits prod.splits)

section \<open>Theorems\<close>

text \<open>
  A normal shutdown aborts.  Once a topology is registered, \<open>stopSearchWorker\<close> runs into the assertion at the end of
  \<open>ModuleTopologyManager::clear\<close>, because \<open>clear\<close> removes nothing.
\<close>

theorem shutdown_aborts:
  assumes "mgr_inv ops ok (rpc_manager (wk_component w))" and "wk_proxy w = Some px" and "px_has_rpc px"
    and "contain ops (rpc_manager (wk_component w)) n"
  shows "stop_search_worker w = Crash ''num_topologies() == 0''"
proof -
  have "topology_of ops (rpc_manager (wk_component w)) \<noteq> Map.empty"
    using contain_iff [OF assms(1)] assms(4) by (metis)
  then have "num_topologies (rpc_manager (wk_component w)) \<noteq> 0" using num_topologies_0 [OF assms(1)] by simp
  then show ?thesis
    using assms(2,3) by (simp add: stop_search_worker_def worker_stop_def worker_destroy_def manager_clear_def)
qed

definition demo_app :: "(index \<times> index, nat) sw_app" where
  "demo_app = \<lparr>app_registry = empty_factory_registry, app_reloadable = empty_element_registry, app_init = (\<lambda>c. Ok (True, c)),
     app_health = 0, app_load_biz = (\<lambda>_ _. True), app_unload_biz = (\<lambda>_. True), module_init = (\<lambda>_. True),
     module_load = (\<lambda>_. True), integrating_init = (\<lambda>_. None)\<rparr>"

definition demo_proxy :: "(index \<times> index, nat) app_proxy" where
  "demo_proxy = \<lparr>px_app = demo_app, px_has_rpc = True, px_reload_thread = True\<rparr>"

definition demo_worker :: "(index \<times> index, nat) worker" where
  "demo_worker = \<lparr>wk_started = True, wk_rpc_server = Some True, wk_controller = Some True, wk_proxy = Some demo_proxy,
     wk_component = demo_component, wk_app_live = True\<rparr>"

theorem shutdown_aborts_witness:
  "contain pair_ops (rpc_manager (wk_component demo_worker)) ''t'' \<and> stop_search_worker demo_worker = Crash ''num_topologies() == 0''"
proof -
  have i: "mgr_inv pair_ops pair_ok (rpc_manager (wk_component demo_worker))"
    using demo_manager_inv(2) by (simp add: demo_worker_def demo_component_def)
  have c: "contain pair_ops (rpc_manager (wk_component demo_worker)) ''t''"
    by (simp add: contain_def demo_worker_def demo_component_def demo_manager2_def pair_ops_def index_seek_def)
  show ?thesis
    using shutdown_aborts [OF i _ _ c, of demo_proxy] c by (simp add: demo_worker_def demo_proxy_def)
qed

text \<open>
  \<open>CdlLoader::load\<close> leaves its lock held exactly when the library has all four symbols but reports a null name or version;
  the loader is then stuck: creating an object and destroying the loader never return.  On every other path
  the lock is free again, and the load succeeds exactly when nothing is missing.
\<close>

theorem cdl_load_lock:
  assumes "\<not> cdl_handle l" and "\<not> cdl_wrlocked l"
  shows "\<exists>b l'. cdl_load lib l = Some (b, l') \<and>
    (b \<longleftrightarrow> dl_opens lib \<and> dl_has_create lib \<and> dl_has_destroy lib \<and> dl_has_get_name lib \<and> dl_has_get_version lib \<and>
        dl_name lib \<noteq> None \<and> dl_version lib \<noteq> None) \<and>
    (cdl_wrlocked l' \<longleftrightarrow> dl_opens lib \<and> dl_has_create lib \<and> dl_has_destroy lib \<and> dl_has_get_name lib \<and> dl_has_get_version lib \<and>
        (dl_name lib = None \<or> dl_version lib = None)) \<and>
    (cdl_wrlocked l' \<longrightarrow> cdl_create creator uuid l' = None \<and> cdl_destruct l' = None)"
  using assms
  by (auto simp: cdl_load_def cdl_create_def cdl_destruct_def Let_def split: option.splits)

theorem cdl_load_lock_witness:
  "\<exists>l'. cdl_load \<lparr>dl_opens = True, dl_has_create = True, dl_has_destroy = True, dl_has_get_name = True,
       dl_has_get_version = True, dl_name = None, dl_version = Some ''0''\<rparr> cdl_construct = Some (False, l') \<and>
     cdl_create (\<lambda>_::nat. Some ()) 0 l' = None"
  using cdl_load_lock [of cdl_construct "\<lparr>dl_opens = True, dl_has_create = True, dl_has_destroy = True, dl_has_get_name = True,
       dl_has_get_version = True, dl_name = None, dl_version = Some ''0''\<rparr>" "\<lambda>_::nat. Some ()" 0]
  by (auto simp: cdl_construct_def)

text \<open>
  The write loop of the thread dump is complete and ends: when it reports success the file holds the whole message
  after what it held before, however the message was split over partial writes; when every call writes
  at least one byte it succeeds within as many calls as the message has bytes (one for the empty message).
\<close>

theorem thread_dump_complete:
  assumes "path \<noteq> []" and "0 \<le> fd"
  shows "(\<forall>out'. write_to_thread_dump_file path fd (Some msg) rs out = DumpDone out' \<longrightarrow> out' = out @ msg) \<and>
    (list_all (\<lambda>r. 1 \<le> r) rs \<longrightarrow> rs \<noteq> [] \<longrightarrow> length msg \<le> length rs \<longrightarrow>
       write_to_thread_dump_file path fd (Some msg) rs out = DumpDone (out @ msg))"
proof -
  have w: "write_to_thread_dump_file path fd (Some msg) rs out = write_loop msg 0 rs out"
    using assms by (simp add: write_to_thread_dump_file_def)
  show ?thesis
    unfolding w using write_loop_content [of 0 msg rs out] write_loop_finishes [of rs msg 0 out] by fastforce
qed

theorem thread_dump_complete_witness:
  "write_to_thread_dump_file ''/d'' 3 (Some ''abc'') [1, 1, 1] ''x'' = DumpDone ''xabc''"
proof -
  have "list_all (\<lambda>r. 1 \<le> r) [1, 1, 1 :: int]" "[1, 1, 1 :: int] \<noteq> []" "length ''abc'' \<le> length [1, 1, 1 :: int]" by simp_all
  then show ?thesis using thread_dump_complete [of "''/d''" 3 "''abc''" "[1, 1, 1]" "''x''"] by (metis append_Cons append_Nil list.distinct(1) zero_le_numeral)
qed

text \<open>
  \<open>setup_reload_scheme\<close> succeeds, and starts the reload thread, exactly when every reloadable module initialises and then every
  one loads.
\<close>

theorem reload_scheme_all:
  "fst (setup_reload_scheme px) \<longleftrightarrow>
     list_all (\<lambda>(n, m). module_init (px_app px) m) (element_list (app_reloadable (px_app px))) \<and>
     list_all (\<lambda>(n, m). module_load (px_app px) m) (element_list (app_reloadable (px_app px)))"
  by (simp add: setup_reload_scheme_def Let_def first_failure_all)

text \<open>
  Loading a business package and unloading it again: the load makes the topology of that name visible and the
  unload makes it, and only it, disappear; the name \<open>default\<close> is never removed.
\<close>

theorem biz_roundtrip:
  assumes laws: "dbd_laws ops ok" and inv: "mgr_inv ops ok (rpc_manager c)"
    and l: "load_topology_from_biz ops env benv px name path c = (LoadOk, c1)"
  shows "contain ops (rpc_manager c1) name \<and>
    (\<exists>c2. unload_topology_by_name ops px name c1 = (LoadOk, c2) \<and>
       topology_of ops (rpc_manager c2) =
         (if name = ''default'' then topology_of ops (rpc_manager c1) else (topology_of ops (rpc_manager c))(name := None)))"
proof -
  obtain packed g where g: "add_topology ops env packed (rpc_manager c) = (Done, g)" "rt_name (tc_topology packed) = name"
      "c1 = c\<lparr>rpc_manager := g\<rparr>" "px_has_rpc px"
    using l by (auto simp: load_topology_from_biz_def split: if_splits option.splits prod.splits outcome.splits)
  from add_topology_done_inv [OF laws inv g(1)] g(2)
  obtain t where t: "mgr_inv ops ok g" "topology_of ops g = (topology_of ops (rpc_manager c))(name \<mapsto> t)"
      "mt_reference_count t = 0" "contain ops g name" by blast
  obtain r g2 where r: "remove_topology ops name g = (r, g2)" by fastforce
  have "r = Done" "topology_of ops g2 = (topology_of ops g)(name := None)"
    using remove_inv [OF laws t(1) r] t(2,3) by auto
  then show ?thesis using g t r by (auto simp: unload_topology_by_name_def)
qed

definition demo_biz :: biz_env where
  "demo_biz = \<lparr>biz_read_file = (\<lambda>_. Some ''{}''), biz_parse = (\<lambda>_. Some demo_config), bind_biz_and_topology = True\<rparr>"

theorem biz_roundtrip_witness:
  "\<exists>c1 c2. load_topology_from_biz pair_ops demo_env demo_biz demo_proxy ''t'' ''/p'' (demo_component\<lparr>rpc_manager := demo_manager\<rparr>) = (LoadOk, c1) \<and>
     unload_topology_by_name pair_ops demo_proxy ''t'' c1 = (LoadOk, c2) \<and> topology_of pair_ops (rpc_manager c2) ''t'' = None"
proof -
  let ?c = "demo_component\<lparr>rpc_manager := demo_manager\<rparr>"
  have "fst (load_topology_from_biz pair_ops demo_env demo_biz demo_proxy ''t'' ''/p'' ?c) = LoadOk" by code_simp
  then obtain c1 where l: "load_topology_from_biz pair_ops demo_env demo_biz demo_proxy ''t'' ''/p'' ?c = (LoadOk, c1)"
    by (metis prod.collapse)
  have i: "mgr_inv pair_ops pair_ok (rpc_manager ?c)" using demo_manager_inv(1) by simp
  from biz_roundtrip [OF pair_laws i l] l show ?thesis by auto
qed

end
