(* ===== verification/DagExecutor.thy ===== *)
theory DagExecutor
  imports Prelude "HOL-Library.Sublist" "HOL-Library.Multiset"
begin

text \<open>
  The small task scheduler of \<open>DAG/dag.cpp\<close>: modules with names and dependencies, and an executor that runs each module
  after a depth-first visit of its dependencies.  The output is the sequence of executed names.

  A dependency that was never added makes \<open>modules_[dep]\<close> a null pointer, on which \<open>execute\<close> is called: \<open>NullModule\<close>.
  The depth of the recursion is bounded by fuel; one unit per module is enough, because every call visits a module that
  was not visited before.
\<close>

section \<open>Modules and executor\<close>

record dag_module =
  dm_name :: string
  dm_deps :: "string list"

datatype dag_error = NullModule | OutOfFuel

type_synonym dag_state = "string set \<times> string list"

definition dag_add_module :: "dag_module \<Rightarrow> (string, dag_module) umap \<Rightarrow> (string, dag_module) umap" where
  "dag_add_module m ms = AList.update (dm_name m) m ms"

fun dag_execute :: "nat \<Rightarrow> (string, dag_module) umap \<Rightarrow> dag_module \<Rightarrow> dag_state \<Rightarrow> dag_error + dag_state"
and dag_execute_deps :: "nat \<Rightarrow> (string, dag_module) umap \<Rightarrow> string list \<Rightarrow> dag_state \<Rightarrow> dag_error + dag_state" where
  "dag_execute 0 ms m s = Inl OutOfFuel"
| "dag_execute (Suc n) ms m (visited, out) =
     (case dag_execute_deps n ms (dm_deps m) (insert (dm_name m) visited, out) of
        Inl e \<Rightarrow> Inl e
      | Inr (visited', out') \<Rightarrow> Inr (visited', out' @ [dm_name m]))"
| "dag_execute_deps n ms [] s = Inr s"
| "dag_execute_deps n ms (d # ds) (visited, out) =
     (if d \<in> visited then dag_execute_deps n ms ds (visited, out)
      else case map_of ms d of
             None \<Rightarrow> Inl NullModule
           | Some m \<Rightarrow>
               (case dag_execute n ms m (visited, out) of
                  Inl e \<Rightarrow> Inl e
                | Inr s \<Rightarrow> dag_execute_deps n ms ds s))"

fun executor_loop :: "nat \<Rightarrow> (string, dag_module) umap \<Rightarrow> (string, dag_module) umap \<Rightarrow> dag_state \<Rightarrow> dag_error + dag_state" where
  "executor_loop n ms [] s = Inr s"
| "executor_loop n ms ((k, m) # rest) (visited, out) =
     (if k \<in> visited then executor_loop n ms rest (visited, out)
      else case dag_execute n ms m (visited, out) of
             Inl e \<Rightarrow> Inl e
           | Inr s \<Rightarrow> executor_loop n ms rest s)"

definition executor_all :: "(string, dag_module) umap \<Rightarrow> dag_error + string list" where
  "executor_all ms = (case executor_loop (length ms) ms ms ({}, []) of Inl e \<Rightarrow> Inl e | Inr (_, out) \<Rightarrow> Inr out)"

section \<open>Well-formed module tables\<close>

definition dag_wf :: "(string, dag_module) umap \<Rightarrow> bool" where
  "dag_wf ms \<longleftrightarrow> umap_wf ms \<and> list_all (\<lambda>(k, m). dm_name m = k) ms"

definition dag_complete :: "(string, dag_module) umap \<Rightarrow> bool" where
  "dag_complete ms \<longleftrightarrow> list_all (\<lambda>(k, m). set (dm_deps m) \<subseteq> fst ` set ms) ms"

definition deps_first :: "(string, dag_module) umap \<Rightarrow> string list \<Rightarrow> bool" where
  "deps_first ms out \<longleftrightarrow>
     (\<forall>i<length out. \<forall>m. map_of ms (out ! i) = Some m \<longrightarrow> set (dm_deps m) \<subseteq> set (take i out))"

text \<open>The dependency relation, and the acyclic tables.\<close>

definition depends :: "(string, dag_module) umap \<Rightarrow> (string \<times> string) set" where
  "depends ms = {(d, k). \<exists>m. map_of ms k = Some m \<and> d \<in> set (dm_deps m)}"

lemma dag_add_module_wf: "dag_wf ms \<Longrightarrow> dag_wf (dag_add_module m ms)"
proof -
  assume wf: "dag_wf ms"
  have "set (AList.update (dm_name m) m ms) \<subseteq> insert (dm_name m, m) (set ms)" by (induction ms) auto
  then show ?thesis using wf by (auto simp: dag_wf_def dag_add_module_def list_all_iff)
qed

lemma dag_wf_name: "dag_wf ms \<Longrightarrow> map_of ms k = Some m \<Longrightarrow> dm_name m = k"
  by (auto simp: dag_wf_def list_all_iff dest: map_of_SomeD)

lemma dag_complete_deps: "dag_complete ms \<Longrightarrow> map_of ms k = Some m \<Longrightarrow> d \<in> set (dm_deps m) \<Longrightarrow> \<exists>m'. map_of ms d = Some m'"
  by (fastforce simp: dag_complete_def list_all_iff dest: map_of_SomeD intro: weak_map_of_SomeI)

section \<open>The visit\<close>

text \<open>
  States of a run: what is executed has been visited, nothing is executed twice, and the modules visited but not yet
  executed are those whose dependencies are being visited.
\<close>

definition dag_ok :: "(string, dag_module) umap \<Rightarrow> dag_state \<Rightarrow> bool" where
  "dag_ok ms s \<longleftrightarrow> (case s of (visited, out) \<Rightarrow>
     set out \<subseteq> visited \<and> visited \<subseteq> dom (map_of ms) \<and> distinct out)"

definition extends :: "dag_state \<Rightarrow> dag_state \<Rightarrow> bool" where
  "extends s s' \<longleftrightarrow> (case (s, s') of ((visited, out), (visited', out')) \<Rightarrow>
     visited \<subseteq> visited' \<and> prefix out out' \<and> visited' - set out' = visited - set out)"

lemma extends_refl [simp]: "extends s s"
  by (auto simp: extends_def split: prod.splits)

lemma extends_trans: "extends s s' \<Longrightarrow> extends s' s'' \<Longrightarrow> extends s s''"
  by (auto simp: extends_def split: prod.splits)

definition unvisited :: "(string, dag_module) umap \<Rightarrow> string set \<Rightarrow> nat" where
  "unvisited ms visited = card (dom (map_of ms) - visited)"

lemma unvisited_mono: "visited \<subseteq> visited' \<Longrightarrow> unvisited ms visited' \<le> unvisited ms visited"
  unfolding unvisited_def by (intro card_mono) (auto simp: finite_dom_map_of)

lemma unvisited_insert: "k \<in> dom (map_of ms) - visited \<Longrightarrow> Suc (unvisited ms (insert k visited)) = unvisited ms visited"
proof -
  assume k: "k \<in> dom (map_of ms) - visited"
  have "dom (map_of ms) - insert k visited = (dom (map_of ms) - visited) - {k}" by blast
  then show ?thesis unfolding unvisited_def
    using k card_Suc_Diff1 [of "dom (map_of ms) - visited" k] by (simp add: finite_dom_map_of)
qed

text \<open>With enough fuel a visit returns, whatever cycles there are.\<close>

lemma dag_visit_returns:
  "dag_wf ms \<Longrightarrow> dag_complete ms \<Longrightarrow> map_of ms (dm_name m) = Some m \<Longrightarrow> dm_name m \<notin> fst s \<Longrightarrow> dag_ok ms s \<Longrightarrow>
     unvisited ms (fst s) \<le> n \<Longrightarrow>
     \<exists>s'. dag_execute n ms m s = Inr s' \<and> dag_ok ms s' \<and> extends s s' \<and> dm_name m \<in> fst s'"
  "dag_wf ms \<Longrightarrow> dag_complete ms \<Longrightarrow> \<forall>d\<in>set ds. \<exists>m. map_of ms d = Some m \<Longrightarrow> dag_ok ms s \<Longrightarrow>
     unvisited ms (fst s) \<le> n \<Longrightarrow>
     \<exists>s'. dag_execute_deps n ms ds s = Inr s' \<and> dag_ok ms s' \<and> extends s s' \<and> set ds \<subseteq> fst s'"
proof (induction n ms m s and n ms ds s rule: dag_execute_dag_execute_deps.induct)
  case (1 ms m s)
  have "dm_name m \<in> dom (map_of ms) - fst s" using "1.prems"(3,4) by auto
  then have "unvisited ms (fst s) \<noteq> 0" using unvisited_insert by fastforce
  then show ?case using "1.prems"(6) by simp
next
  case (2 n ms m visited out)
  let ?k = "dm_name m"
  have k: "?k \<in> dom (map_of ms) - visited" using "2.prems"(3,4) by auto
  have deps: "\<forall>d\<in>set (dm_deps m). \<exists>m. map_of ms d = Some m"
    using dag_complete_deps [OF "2.prems"(2,3)] by blast
  have ok: "dag_ok ms (insert ?k visited, out)" using "2.prems"(5) k by (auto simp: dag_ok_def)
  have fuel: "unvisited ms (insert ?k visited) \<le> n" using unvisited_insert [OF k] "2.prems"(6) by simp
  obtain vis' out' where s': "dag_execute_deps n ms (dm_deps m) (insert ?k visited, out) = Inr (vis', out')"
      "dag_ok ms (vis', out')" "extends (insert ?k visited, out) (vis', out')"
    using "2.IH" [OF "2.prems"(1,2) deps ok] fuel by auto
  have "?k \<in> vis' - set out'" using s'(3) k "2.prems"(5) by (auto simp: extends_def dag_ok_def)
  moreover have "visited - set out = insert ?k visited - set out - {?k}"
    using k "2.prems"(5) by (auto simp: dag_ok_def)
  ultimately have "dag_ok ms (vis', out' @ [?k])" "extends (visited, out) (vis', out' @ [?k])"
    using s'(2,3) by (auto simp: dag_ok_def extends_def prefix_def)
  then show ?case using s'(1) \<open>?k \<in> vis' - set out'\<close> by auto
next
  case (3 n ms s)
  then show ?case by simp
next
  case (4 n ms d ds visited out)
  have ds: "\<forall>d\<in>set ds. \<exists>m. map_of ms d = Some m" using "4.prems"(3) by simp
  show ?case
  proof (cases "d \<in> visited")
    case True
    obtain s' where s': "dag_execute_deps n ms ds (visited, out) = Inr s'" "dag_ok ms s'" "extends (visited, out) s'"
        "set ds \<subseteq> fst s'"
      using "4.IH"(1) [OF True "4.prems"(1,2) ds "4.prems"(4,5)] by blast
    have "d \<in> fst s'" using True s'(3) by (auto simp: extends_def split: prod.splits)
    then show ?thesis using True s' by auto
  next
    case False
    obtain m where m: "map_of ms d = Some m" using "4.prems"(3) by auto
    have name: "dm_name m = d" using dag_wf_name [OF "4.prems"(1) m] .
    obtain s1 where s1: "dag_execute n ms m (visited, out) = Inr s1" "dag_ok ms s1" "extends (visited, out) s1" "d \<in> fst s1"
      using "4.IH"(2) [OF False m "4.prems"(1,2) _ _ "4.prems"(4,5)] m False by (auto simp: name)
    have "unvisited ms (fst s1) \<le> n"
      using "4.prems"(5) unvisited_mono [of visited "fst s1" ms] s1(3) by (auto simp: extends_def split: prod.splits)
    then obtain s2 where s2: "dag_execute_deps n ms ds s1 = Inr s2" "dag_ok ms s2" "extends s1 s2" "set ds \<subseteq> fst s2"
      using "4.IH"(3) [OF False m s1(1) "4.prems"(1,2) ds s1(2)] by blast
    have "d \<in> fst s2" using s1(4) s2(3) by (auto simp: extends_def split: prod.splits)
    then show ?thesis using False m s1 s2 extends_trans [OF s1(3) s2(3)] by auto
  qed
qed

text \<open>
  With acyclic dependencies, given as a rank that decreases along them, every module waiting for its dependencies ranks
  above the module visited now; so a dependency that was visited before has been executed.
\<close>

definition ranked :: "(string, dag_module) umap \<Rightarrow> (string \<Rightarrow> nat) \<Rightarrow> bool" where
  "ranked ms r \<longleftrightarrow> (\<forall>(d, k)\<in>depends ms. r d < r k)"

definition waiting_above :: "(string \<Rightarrow> nat) \<Rightarrow> string \<Rightarrow> dag_state \<Rightarrow> bool" where
  "waiting_above r k s \<longleftrightarrow> (\<forall>w\<in>fst s - set (snd s). r k < r w)"

lemma waiting_above_extends: "extends s s' \<Longrightarrow> waiting_above r k s \<Longrightarrow> waiting_above r k s'"
  by (auto simp: waiting_above_def extends_def split: prod.splits)

lemma deps_first_snoc:
  "deps_first ms out \<Longrightarrow> map_of ms k = Some m \<Longrightarrow> set (dm_deps m) \<subseteq> set out \<Longrightarrow> deps_first ms (out @ [k])"
  by (auto simp: deps_first_def nth_append less_Suc_eq)

lemma dag_visit_orders:
  "dag_wf ms \<Longrightarrow> dag_complete ms \<Longrightarrow> ranked ms r \<Longrightarrow> map_of ms (dm_name m) = Some m \<Longrightarrow> dm_name m \<notin> fst s \<Longrightarrow>
     dag_ok ms s \<Longrightarrow> waiting_above r (dm_name m) s \<Longrightarrow> deps_first ms (snd s) \<Longrightarrow> unvisited ms (fst s) \<le> n \<Longrightarrow>
     dag_execute n ms m s = Inr s' \<Longrightarrow> deps_first ms (snd s') \<and> dm_name m \<in> set (snd s')"
  "dag_wf ms \<Longrightarrow> dag_complete ms \<Longrightarrow> ranked ms r \<Longrightarrow> \<forall>d\<in>set ds. \<exists>m. map_of ms d = Some m \<Longrightarrow>
     dag_ok ms s \<Longrightarrow> \<forall>d\<in>set ds. waiting_above r d s \<Longrightarrow> deps_first ms (snd s) \<Longrightarrow> unvisited ms (fst s) \<le> n \<Longrightarrow>
     dag_execute_deps n ms ds s = Inr s' \<Longrightarrow> deps_first ms (snd s') \<and> set ds \<subseteq> set (snd s')"
proof (induction n ms m s and n ms ds s arbitrary: s' and s' rule: dag_execute_dag_execute_deps.induct)
  case (1 ms m s)
  then show ?case by simp
next
  case (2 n ms m visited out)
  let ?k = "dm_name m"
  have k: "?k \<in> dom (map_of ms) - visited" using "2.prems"(4,5) by auto
  have deps: "\<forall>d\<in>set (dm_deps m). \<exists>m. map_of ms d = Some m"
    using dag_complete_deps [OF "2.prems"(2,4)] by blast
  have ok: "dag_ok ms (insert ?k visited, out)" using "2.prems"(6) k by (auto simp: dag_ok_def)
  have fuel: "unvisited ms (insert ?k visited) \<le> n" using unvisited_insert [OF k] "2.prems"(9) by simp
  have less: "r d < r ?k" if "d \<in> set (dm_deps m)" for d
    using "2.prems"(3,4) that by (auto simp: ranked_def depends_def)
  have wait: "\<forall>d\<in>set (dm_deps m). waiting_above r d (insert ?k visited, out)"
  proof (intro ballI)
    fix d assume "d \<in> set (dm_deps m)"
    then have d: "r d < r ?k" by (rule less)
    then have "r d < r w" if "w \<in> visited - set out" for w
      using "2.prems"(7) that by (auto simp: waiting_above_def dest!: bspec [where x = w])
    then show "waiting_above r d (insert ?k visited, out)" using d by (auto simp: waiting_above_def)
  qed
  obtain vis' out' where s1: "dag_execute_deps n ms (dm_deps m) (insert ?k visited, out) = Inr (vis', out')"
      "s' = (vis', out' @ [?k])"
    using "2.prems"(10) by (auto split: sum.splits)
  have "deps_first ms out' \<and> set (dm_deps m) \<subseteq> set out'"
    using "2.IH" [OF "2.prems"(1,2,3) deps ok wait _ _ s1(1)] "2.prems"(8) fuel by simp
  then show ?case using s1(2) deps_first_snoc [OF _ "2.prems"(4)] by simp
next
  case (3 n ms s)
  then show ?case by simp
next
  case (4 n ms d ds visited out)
  have ds: "\<forall>d\<in>set ds. \<exists>m. map_of ms d = Some m" using "4.prems"(4) by simp
  have wds: "\<forall>d\<in>set ds. waiting_above r d (visited, out)" using "4.prems"(6) by simp
  show ?case
  proof (cases "d \<in> visited")
    case True
    have run: "dag_execute_deps n ms ds (visited, out) = Inr s'" using "4.prems"(9) True by simp
    have d: "d \<in> set out" using "4.prems"(6) True by (auto simp: waiting_above_def)
    have "extends (visited, out) s'"
      using dag_visit_returns(2) [OF "4.prems"(1,2) ds "4.prems"(5,8)] run by auto
    then have "d \<in> set (snd s')" using d by (auto simp: extends_def dest: set_mono_prefix split: prod.splits)
    then show ?thesis using "4.IH"(1) [OF True "4.prems"(1,2,3) ds "4.prems"(5) wds "4.prems"(7,8) run] by simp
  next
    case False
    obtain m where m: "map_of ms d = Some m" using "4.prems"(4) by auto
    have name: "dm_name m = d" using dag_wf_name [OF "4.prems"(1) m] .
    have hyp: "map_of ms (dm_name m) = Some m" "dm_name m \<notin> fst (visited, out)" using m name False by auto
    obtain s1 where s1: "dag_execute n ms m (visited, out) = Inr s1" "dag_ok ms s1" "extends (visited, out) s1"
      using dag_visit_returns(1) [OF "4.prems"(1,2) hyp "4.prems"(5,8)] by blast
    have 1: "deps_first ms (snd s1) \<and> d \<in> set (snd s1)"
      using "4.IH"(2) [OF False m "4.prems"(1,2,3) hyp "4.prems"(5) _ "4.prems"(7,8) s1(1)] "4.prems"(6) by (simp add: name)
    have fuel: "unvisited ms (fst s1) \<le> n"
      using "4.prems"(8) unvisited_mono [of visited "fst s1" ms] s1(3) by (auto simp: extends_def split: prod.splits)
    have run: "dag_execute_deps n ms ds s1 = Inr s'" using "4.prems"(9) False m s1(1) by simp
    have wds1: "\<forall>d\<in>set ds. waiting_above r d s1" using wds waiting_above_extends [OF s1(3)] by blast
    have 2: "deps_first ms (snd s') \<and> set ds \<subseteq> set (snd s')"
      using "4.IH"(3) [OF False m s1(1) "4.prems"(1,2,3) ds s1(2) wds1 _ fuel run] 1 by blast
    have "extends s1 s'" using dag_visit_returns(2) [OF "4.prems"(1,2) ds s1(2) fuel] run by auto
    then have "d \<in> set (snd s')" using 1 by (auto simp: extends_def dest: set_mono_prefix split: prod.splits)
    then show ?thesis using 2 by simp
  qed
qed

section \<open>The executor\<close>

lemma executor_loop_returns:
  assumes wf: "dag_wf ms" "dag_complete ms" and "set rest \<subseteq> set ms" and "dag_ok ms s" and "unvisited ms (fst s) \<le> n"
    and "fst s \<subseteq> set (snd s)"
  shows "\<exists>s'. executor_loop n ms rest s = Inr s' \<and> dag_ok ms s' \<and> fst s' \<subseteq> set (snd s') \<and> fst s \<subseteq> fst s' \<and>
           fst ` set rest \<subseteq> fst s' \<and> (\<forall>r. ranked ms r \<and> deps_first ms (snd s) \<longrightarrow> deps_first ms (snd s'))"
  using assms(3-)
proof (induction rest arbitrary: s)
  case Nil
  then show ?case by simp
next
  case (Cons e rest)
  obtain k m where e: "e = (k, m)" by (cases e)
  obtain visited out where s: "s = (visited, out)" by (cases s)
  have m: "map_of ms k = Some m" using Cons.prems(1) wf(1) e by (auto simp: dag_wf_def umap_wf_def)
  have rest: "set rest \<subseteq> set ms" using Cons.prems(1) by simp
  show ?case
  proof (cases "k \<in> visited")
    case True
    then show ?thesis using Cons.IH [OF rest Cons.prems(2-4)] by (auto simp: e s)
  next
    case False
    have hyp: "map_of ms (dm_name m) = Some m" "dm_name m \<notin> fst s" using m dag_wf_name [OF wf(1) m] False s by auto
    obtain s1 where s1: "dag_execute n ms m s = Inr s1" "dag_ok ms s1" "extends s s1" "dm_name m \<in> fst s1"
      using dag_visit_returns(1) [OF wf hyp Cons.prems(2,3)] by blast
    have sub: "fst s \<subseteq> fst s1" "fst s1 \<subseteq> set (snd s1)"
      using s1(3) Cons.prems(4) by (auto simp: extends_def split: prod.splits)
    have fuel: "unvisited ms (fst s1) \<le> n" using Cons.prems(3) unvisited_mono [OF sub(1)] by (rule order_trans [rotated])
    have ord: "deps_first ms (snd s1)" if "ranked ms r" "deps_first ms (snd s)" for r
      using dag_visit_orders(1) [OF wf that(1) hyp Cons.prems(2) _ that(2) Cons.prems(3) s1(1)] Cons.prems(4)
      by (auto simp: waiting_above_def)
    obtain s2 where s2: "executor_loop n ms rest s1 = Inr s2" "dag_ok ms s2" "fst s2 \<subseteq> set (snd s2)" "fst s1 \<subseteq> fst s2"
        "fst ` set rest \<subseteq> fst s2" "\<forall>r. ranked ms r \<and> deps_first ms (snd s1) \<longrightarrow> deps_first ms (snd s2)"
      using Cons.IH [OF rest s1(2) fuel sub(2)] by blast
    have "k \<in> fst s2" using s1(4) s2(4) dag_wf_name [OF wf(1) m] by auto
    moreover have "executor_loop n ms (e # rest) s = Inr s2" using False s1(1) s2(1) by (simp add: e s)
    moreover have "fst s \<subseteq> fst s2" using sub(1) s2(4) by blast
    ultimately show ?thesis using s2 ord by (auto simp: e)
  qed
qed

lemma unvisited_start: "dag_wf ms \<Longrightarrow> unvisited ms {} = length ms"
  by (simp add: unvisited_def umap_card dag_wf_def)

lemma acyclic_ranked:
  assumes "acyclic (depends ms)"
  obtains r where "ranked ms r"
proof -
  have "depends ms \<subseteq> (\<Union>(k, m)\<in>set ms. set (dm_deps m) \<times> {k})"
    by (auto simp: depends_def dest: map_of_SomeD)
  then have "finite (depends ms)" by (rule finite_subset) auto
  then have wf: "wf (depends ms)" and fin: "finite ((depends ms)\<^sup>+)" using assms finite_acyclic_wf by auto
  let ?r = "\<lambda>k. card {d. (d, k) \<in> (depends ms)\<^sup>+}"
  have finb: "finite {d. (d, k) \<in> (depends ms)\<^sup>+}" for k
    by (rule finite_subset [of _ "fst ` (depends ms)\<^sup>+"]) (use fin in force)+
  have "?r d < ?r k" if "(d, k) \<in> depends ms" for d k
  proof (rule psubset_card_mono [OF finb], rule psubsetI)
    show "{x. (x, d) \<in> (depends ms)\<^sup>+} \<subseteq> {x. (x, k) \<in> (depends ms)\<^sup>+}" using that by (auto intro: trancl_into_trancl)
    have "(d, d) \<notin> (depends ms)\<^sup>+" using assms by (simp add: acyclic_def)
    then show "{x. (x, d) \<in> (depends ms)\<^sup>+} \<noteq> {x. (x, k) \<in> (depends ms)\<^sup>+}" using that by blast
  qed
  then have "ranked ms ?r" by (auto simp: ranked_def)
  then show ?thesis using that by blast
qed

lemma executor_all_ok:
  assumes "dag_wf ms" and "dag_complete ms"
  obtains out where "executor_all ms = Inr out" "distinct out" "set out = fst ` set ms" "acyclic (depends ms) \<Longrightarrow> deps_first ms out"
proof -
  have start: "dag_ok ms ({}, [])" "unvisited ms (fst ({}, [])) \<le> length ms" "fst ({}, []) \<subseteq> set (snd ({}, []))"
    using unvisited_start [OF assms(1)] by (auto simp: dag_ok_def)
  obtain visited out where s: "executor_loop (length ms) ms ms ({}, []) = Inr (visited, out)" "dag_ok ms (visited, out)"
      "visited \<subseteq> set out" "fst ` set ms \<subseteq> visited"
      "\<forall>r. ranked ms r \<and> deps_first ms [] \<longrightarrow> deps_first ms out"
    using executor_loop_returns [OF assms subset_refl start] by (metis fst_conv snd_conv surj_pair)
  have "set out = fst ` set ms" using s(2,3,4) by (auto simp: dag_ok_def dom_map_of_conv_image_fst)
  moreover have "acyclic (depends ms) \<longrightarrow> deps_first ms out"
    using s(5) acyclic_ranked by (metis deps_first_def length_0_conv less_nat_zero_code list.size(3))
  ultimately show thesis using s(1,2) that by (auto simp: executor_all_def dag_ok_def)
qed

text \<open>
  C15: When every dependency of every added module was added too, the executor runs every module exactly once; and when
  the dependencies are acyclic it runs every module after all of its dependencies.\<close>

theorem executor_all_topological:
  assumes "dag_wf ms" and "dag_complete ms"
  shows "\<exists>out. executor_all ms = Inr out \<and> distinct out \<and> set out = fst ` set ms \<and>
           (acyclic (depends ms) \<longrightarrow> deps_first ms out)"
  using executor_all_ok [OF assms] by metis

definition demo_dag :: "(string, dag_module) umap" where
  "demo_dag = fold dag_add_module
     [\<lparr>dm_name = ''A3'', dm_deps = [''B1'']\<rparr>, \<lparr>dm_name = ''A1'', dm_deps = []\<rparr>,
      \<lparr>dm_name = ''A2'', dm_deps = [''A1'']\<rparr>, \<lparr>dm_name = ''B1'', dm_deps = [''A1'', ''A2'']\<rparr>] []"

theorem executor_all_topological_witness:
  "\<exists>out. executor_all demo_dag = Inr out \<and> distinct out \<and> set out = fst ` set demo_dag \<and>
     (acyclic (depends demo_dag) \<longrightarrow> deps_first demo_dag out)"
proof (rule executor_all_topological)
  show "dag_wf demo_dag" "dag_complete demo_dag" by code_simp+
qed

text \<open>The modules of \<open>main\<close>, and two tables the executor mishandles: a missing dependency, and a cycle.\<close>

lemma demo_dag_order: "executor_all demo_dag = Inr [''A1'', ''A2'', ''B1'', ''A3'']"
  by code_simp

lemma missing_dependency_crashes: "executor_all [(''A'', \<lparr>dm_name = ''A'', dm_deps = [''X'']\<rparr>)] = Inl NullModule"
  by code_simp

lemma cycle_runs_before_dependency:
  "executor_all [(''A'', \<lparr>dm_name = ''A'', dm_deps = [''B'']\<rparr>), (''B'', \<lparr>dm_name = ''B'', dm_deps = [''A'']\<rparr>)] =
     Inr [''B'', ''A'']"
  by code_simp

section \<open>The program\<close>

text \<open>\<open>main\<close> adds the modules of \<^const>\<open>demo_dag\<close>.  The table is an \<open>unordered_map\<close>: the order in which it is walked is not known, so it is an argument.
  Both kinds of module print the same text.\<close>

definition module_text :: "string \<Rightarrow> string" where
  "module_text name = ''Executing moduleA'' @ name"

definition dag_main :: "(string, dag_module) umap \<Rightarrow> dag_error + string list" where
  "dag_main order = (case executor_all order of Inl e \<Rightarrow> Inl e | Inr out \<Rightarrow> Inr (map module_text out))"

lemma demo_dag_table:
  "set demo_dag = {(''A1'', \<lparr>dm_name = ''A1'', dm_deps = []\<rparr>), (''A2'', \<lparr>dm_name = ''A2'', dm_deps = [''A1'']\<rparr>),
     (''B1'', \<lparr>dm_name = ''B1'', dm_deps = [''A1'', ''A2'']\<rparr>), (''A3'', \<lparr>dm_name = ''A3'', dm_deps = [''B1'']\<rparr>)}"
  "distinct (map fst demo_dag)"
  by (auto simp: demo_dag_def dag_add_module_def)

text \<open>A table that holds the same entries in another order.\<close>

lemma reordered_table:
  assumes "mset order = mset demo_dag"
  shows "dag_wf order" and "dag_complete order" and "map_of order = map_of demo_dag" and "set order = set demo_dag"
proof -
  show set: "set order = set demo_dag" using assms by (rule mset_eq_setD)
  have "mset (map fst order) = mset (map fst demo_dag)" using assms by simp
  then have d: "distinct (map fst order)" using demo_dag_table(2) mset_eq_imp_distinct_iff by blast
  then show "map_of order = map_of demo_dag" using set demo_dag_table(2) map_of_inject_set by blast
  show "dag_wf order" using d by (auto simp: dag_wf_def umap_wf_def list_all_iff set demo_dag_table(1))
  show "dag_complete order" by (auto simp: dag_complete_def list_all_iff set demo_dag_table(1))
qed

lemma demo_dag_acyclic: "acyclic (depends demo_dag)"
proof -
  define r :: "string \<Rightarrow> nat" where
    "r n = (if n = ''A1'' then 0 else if n = ''A2'' then 1 else if n = ''B1'' then 2 else 3)" for n
  have "r d < r k" if "map_of demo_dag k = Some m" "d \<in> set (dm_deps m)" for d k m
  proof -
    have "(k, m) \<in> set demo_dag" using that(1) by (rule map_of_SomeD)
    then show ?thesis using that(2) by (auto simp: demo_dag_table(1) r_def)
  qed
  then have "depends demo_dag \<subseteq> measure r" by (auto simp: depends_def)
  then show ?thesis by (meson acyclic_subset wf_acyclic wf_measure)
qed

lemma deps_first_demo:
  assumes "distinct out" and "set out = fst ` set demo_dag" and "deps_first demo_dag out"
  shows "out = [''A1'', ''A2'', ''B1'', ''A3'']"
proof -
  have set: "set out = {''A1'', ''A2'', ''B1'', ''A3''}" using assms(2) by (auto simp: demo_dag_table(1))
  then have len: "length out = Suc (Suc (Suc (Suc 0)))" using distinct_card [OF assms(1)] by simp
  then obtain a b c d where out: "out = [a, b, c, d]" unfolding length_Suc_conv length_0_conv by blast
  have m: "map_of demo_dag ''A2'' = Some \<lparr>dm_name = ''A2'', dm_deps = [''A1'']\<rparr>" "map_of demo_dag ''B1'' = Some \<lparr>dm_name = ''B1'', dm_deps = [''A1'', ''A2'']\<rparr>"
    "map_of demo_dag ''A3'' = Some \<lparr>dm_name = ''A3'', dm_deps = [''B1'']\<rparr>" by code_simp+
  have D: "set (dm_deps m) \<subseteq> set (take i out)" if "i < 4" "map_of demo_dag (out ! i) = Some m" for i m
    using assms(3) that len by (simp add: deps_first_def)
  have cases: "x = ''A1'' \<or> x = ''A2'' \<or> x = ''B1'' \<or> x = ''A3''" if "x \<in> set out" for x using that unfolding set by (simp only: insert_iff empty_iff) blast
  have n: "out ! i = ''A2'' \<Longrightarrow> ''A1'' \<in> set (take i out)" "out ! i = ''B1'' \<Longrightarrow> ''A2'' \<in> set (take i out)"
    "out ! i = ''A3'' \<Longrightarrow> ''B1'' \<in> set (take i out)" if "i < 4" for i
    using D [OF that] m by simp_all
  have ne: "a \<noteq> b" "a \<noteq> c" "a \<noteq> d" "b \<noteq> c" "b \<noteq> d" "c \<noteq> d" using assms(1) by (simp_all add: out)
  have "a \<noteq> ''A2''" "a \<noteq> ''B1''" "a \<noteq> ''A3''" using n [of 0] by (force simp: out)+
  then have a: "a = ''A1''" using cases [of a] by (simp add: out)
  have "b \<noteq> ''B1''" "b \<noteq> ''A3''" using n(2,3) [of 1] by (force simp: out a)+
  then have b: "b = ''A2''" using cases [of b] ne(1) by (simp add: out a)
  have "c \<noteq> ''A3''" using n(3) [of 2] by (force simp: out a b)
  then have c: "c = ''B1''" using cases [of c] ne(2,4) by (simp add: out a b)
  have "d = ''A3''" using cases [of d] ne(3,5,6) by (simp add: out a b c)
  then show ?thesis using out a b c by simp
qed

text \<open>
  In whatever order the table is walked, the program prints the same four lines.\<close>

theorem dag_main_prints:
  assumes "mset order = mset demo_dag"
  shows "dag_main order = Inr (map module_text [''A1'', ''A2'', ''B1'', ''A3''])"
proof -
  note T = reordered_table [OF assms]
  obtain out where out: "executor_all order = Inr out" "distinct out" "set out = fst ` set order" "acyclic (depends order) \<Longrightarrow> deps_first order out"
    using executor_all_ok [OF T(1,2)] by metis
  have "depends order = depends demo_dag" "deps_first order out = deps_first demo_dag out" by (simp_all add: depends_def deps_first_def T(3))
  then have "out = [''A1'', ''A2'', ''B1'', ''A3'']" using out demo_dag_acyclic T(4) by (intro deps_first_demo) auto
  then show ?thesis using out(1) by (simp add: dag_main_def)
qed

theorem dag_main_prints_witness: "dag_main (rev demo_dag) = Inr (map module_text [''A1'', ''A2'', ''B1'', ''A3''])"
  by (rule dag_main_prints) simp

end
