(* ===== verification/LruCache.thy ===== *)
theory LruCache
  imports Prelude "HOL-Library.Monad_Syntax"
begin

text \<open>
  The least-recently-used cache of \<open>find_job/look_for_job.cpp\<close> (\<open>DLinkedNode\<close>, \<open>LRUCache\<close>): a hash table from keys to
  nodes of a doubly linked list between two sentinels.  Nodes live in an explicit heap, every access through a pointer
  is checked (\<^const>\<open>None\<close>: null or freed), and the operations are the pointer assignments of the source in their order.

  The specification is the list of entries, most recently used first.  The refinement shows that every sequence of
  \<open>get\<close> and \<open>put\<close> on a freshly constructed cache dereferences live nodes only and answers as the specification does.
\<close>

section \<open>Heap and cache\<close>

type_synonym addr = nat

record dlinked_node =
  dn_key :: int
  dn_value :: int
  dn_prev :: "addr option"
  dn_next :: "addr option"

type_synonym node_heap = "addr \<Rightarrow> dlinked_node option"

record lru_cache =
  lc_cache :: "int \<Rightarrow> addr option"
  lc_heap :: node_heap
  lc_fresh :: addr
  lc_head :: addr
  lc_tail :: addr
  lc_size :: int
  lc_capacity :: int

definition deref :: "node_heap \<Rightarrow> addr option \<Rightarrow> dlinked_node option" where
  "deref h p = (case p of None \<Rightarrow> None | Some a \<Rightarrow> h a)"

definition store_prev :: "addr option \<Rightarrow> addr option \<Rightarrow> node_heap \<Rightarrow> node_heap option" where
  "store_prev p v h =
     (case p of None \<Rightarrow> None | Some a \<Rightarrow> (case h a of None \<Rightarrow> None | Some n \<Rightarrow> Some (h(a \<mapsto> n\<lparr>dn_prev := v\<rparr>))))"

definition store_next :: "addr option \<Rightarrow> addr option \<Rightarrow> node_heap \<Rightarrow> node_heap option" where
  "store_next p v h =
     (case p of None \<Rightarrow> None | Some a \<Rightarrow> (case h a of None \<Rightarrow> None | Some n \<Rightarrow> Some (h(a \<mapsto> n\<lparr>dn_next := v\<rparr>))))"

definition new_node :: "int \<Rightarrow> int \<Rightarrow> dlinked_node" where
  "new_node k v = \<lparr>dn_key = k, dn_value = v, dn_prev = None, dn_next = None\<rparr>"

definition lru_construct :: "int \<Rightarrow> lru_cache" where
  "lru_construct cap =
     \<lparr>lc_cache = (\<lambda>_. None),
      lc_heap = [0 \<mapsto> (new_node 0 0)\<lparr>dn_next := Some 1\<rparr>, 1 \<mapsto> (new_node 0 0)\<lparr>dn_prev := Some 0\<rparr>],
      lc_fresh = 2, lc_head = 0, lc_tail = 1, lc_size = 0, lc_capacity = cap\<rparr>"

definition add_to_head :: "addr \<Rightarrow> lru_cache \<Rightarrow> lru_cache option" where
  "add_to_head node c =
     do {
       h1 \<leftarrow> store_prev (Some node) (Some (lc_head c)) (lc_heap c);
       hd1 \<leftarrow> h1 (lc_head c);
       h2 \<leftarrow> store_next (Some node) (dn_next hd1) h1;
       hd2 \<leftarrow> h2 (lc_head c);
       h3 \<leftarrow> store_prev (dn_next hd2) (Some node) h2;
       h4 \<leftarrow> store_next (Some (lc_head c)) (Some node) h3;
       Some (c\<lparr>lc_heap := h4\<rparr>)
     }"

definition remove_node :: "addr \<Rightarrow> lru_cache \<Rightarrow> lru_cache option" where
  "remove_node node c =
     do {
       n1 \<leftarrow> lc_heap c node;
       h1 \<leftarrow> store_next (dn_prev n1) (dn_next n1) (lc_heap c);
       n2 \<leftarrow> h1 node;
       h2 \<leftarrow> store_prev (dn_next n2) (dn_prev n2) h1;
       Some (c\<lparr>lc_heap := h2\<rparr>)
     }"

definition move_to_head :: "addr \<Rightarrow> lru_cache \<Rightarrow> lru_cache option" where
  "move_to_head node c = do { c1 \<leftarrow> remove_node node c; add_to_head node c1 }"

definition remove_tail :: "lru_cache \<Rightarrow> (addr \<times> lru_cache) option" where
  "remove_tail c =
     do {
       t \<leftarrow> lc_heap c (lc_tail c);
       node \<leftarrow> dn_prev t;
       c1 \<leftarrow> remove_node node c;
       Some (node, c1)
     }"

definition lru_get :: "int \<Rightarrow> lru_cache \<Rightarrow> (int \<times> lru_cache) option" where
  "lru_get key c =
     (case lc_cache c key of
        None \<Rightarrow> Some (-1, c)
      | Some node \<Rightarrow>
          do {
            c1 \<leftarrow> move_to_head node c;
            n \<leftarrow> lc_heap c1 node;
            Some (dn_value n, c1)
          })"

definition lru_put :: "int \<Rightarrow> int \<Rightarrow> lru_cache \<Rightarrow> lru_cache option" where
  "lru_put key val c =
     (case lc_cache c key of
        None \<Rightarrow>
          (let node = lc_fresh c;
               c0 = c\<lparr>lc_heap := (lc_heap c)(node \<mapsto> new_node key val), lc_fresh := Suc node,
                      lc_cache := (lc_cache c)(key \<mapsto> node)\<rparr>
           in do {
                c1 \<leftarrow> add_to_head node c0;
                let c2 = c1\<lparr>lc_size := lc_size c1 + 1\<rparr>;
                (if lc_size c2 > lc_capacity c2
                 then do {
                   (gone, c3) \<leftarrow> remove_tail c2;
                   n \<leftarrow> lc_heap c3 gone;
                   Some (c3\<lparr>lc_cache := (lc_cache c3)(dn_key n := None), lc_heap := (lc_heap c3)(gone := None),
                            lc_size := lc_size c3 - 1\<rparr>)
                 }
                 else Some c2)
              })
      | Some node \<Rightarrow>
          do {
            n \<leftarrow> lc_heap c node;
            move_to_head node (c\<lparr>lc_heap := (lc_heap c)(node \<mapsto> n\<lparr>dn_value := val\<rparr>)\<rparr>)
          })"

datatype cache_op = CGet int | CPut int int

definition lru_step :: "cache_op \<Rightarrow> lru_cache \<Rightarrow> (int option \<times> lru_cache) option" where
  "lru_step x c =
     (case x of
        CGet k \<Rightarrow> map_option (\<lambda>(v, c'). (Some v, c')) (lru_get k c)
      | CPut k v \<Rightarrow> map_option (\<lambda>c'. (None, c')) (lru_put k v c))"

section \<open>Specification\<close>

text \<open>Entries in the order of their last use, with the capacity; a new entry that exceeds it drops the last one.\<close>

definition spec_step :: "cache_op \<Rightarrow> (int \<times> (int \<times> int) list) \<Rightarrow> int option \<times> int \<times> (int \<times> int) list" where
  "spec_step x a =
     (case a of (cap, es) \<Rightarrow>
       (case x of
          CGet k \<Rightarrow>
            (case map_of es k of
               None \<Rightarrow> (Some (-1), cap, es)
             | Some v \<Rightarrow> (Some v, cap, (k, v) # filter (\<lambda>e. fst e \<noteq> k) es))
        | CPut k v \<Rightarrow>
            (None, cap,
             (if k \<in> fst ` set es then (k, v) # filter (\<lambda>e. fst e \<noteq> k) es
              else if int (length es) + 1 > cap then butlast ((k, v) # es)
              else (k, v) # es))))"

section \<open>Linked paths\<close>

definition nxt :: "node_heap \<Rightarrow> addr \<Rightarrow> addr option" where
  "nxt h a = (case h a of None \<Rightarrow> None | Some n \<Rightarrow> dn_next n)"

definition prv :: "node_heap \<Rightarrow> addr \<Rightarrow> addr option" where
  "prv h a = (case h a of None \<Rightarrow> None | Some n \<Rightarrow> dn_prev n)"

fun linked :: "node_heap \<Rightarrow> addr list \<Rightarrow> bool" where
  "linked h (a # b # xs) \<longleftrightarrow> nxt h a = Some b \<and> prv h b = Some a \<and> linked h (b # xs)"
| "linked h xs \<longleftrightarrow> True"

lemma linked_append: "linked h (xs @ a # ys) \<longleftrightarrow> linked h (xs @ [a]) \<and> linked h (a # ys)"
proof (induction xs)
  case Nil
  show ?case by simp
next
  case (Cons x xs)
  then show ?case by (cases xs) auto
qed

text \<open>A path depends on the forward pointers of all but its last node and the backward pointers of all but its first.\<close>

lemma linked_frame:
  assumes "\<forall>a\<in>set (butlast xs). nxt h' a = nxt h a" and "\<forall>a\<in>set (tl xs). prv h' a = prv h a"
  shows "linked h' xs \<longleftrightarrow> linked h xs"
  using assms
proof (induction xs rule: induct_list012)
  case (3 a b xs)
  have 1: "linked h' (b # xs) \<longleftrightarrow> linked h (b # xs)"
    by (rule "3.IH"(2)) (use "3.prems" in auto)
  have 2: "nxt h' a = nxt h a" using "3.prems"(1) by simp
  have 3: "prv h' b = prv h b" using "3.prems"(2) by simp
  show ?case using 1 2 3 by simp
qed simp_all

definition entry :: "node_heap \<Rightarrow> addr \<Rightarrow> int \<times> int" where
  "entry h a = (case h a of None \<Rightarrow> (0, 0) | Some n \<Rightarrow> (dn_key n, dn_value n))"

lemma store_next_ok:
  assumes "h p \<noteq> None"
  shows "\<exists>h'. store_next (Some p) v h = Some h' \<and> nxt h' = (nxt h)(p := v) \<and> prv h' = prv h \<and>
           entry h' = entry h \<and> dom h' = dom h"
proof -
  obtain n where n: "h p = Some n" using assms by auto
  let ?h = "h(p \<mapsto> n\<lparr>dn_next := v\<rparr>)"
  have "nxt ?h = (nxt h)(p := v)" "prv ?h = prv h" "entry ?h = entry h" "dom ?h = dom h"
    using n by (auto simp: nxt_def prv_def entry_def fun_eq_iff)
  moreover have "store_next (Some p) v h = Some ?h" using n by (simp add: store_next_def)
  ultimately show ?thesis by blast
qed

lemma store_prev_ok:
  assumes "h p \<noteq> None"
  shows "\<exists>h'. store_prev (Some p) v h = Some h' \<and> prv h' = (prv h)(p := v) \<and> nxt h' = nxt h \<and>
           entry h' = entry h \<and> dom h' = dom h"
proof -
  obtain n where n: "h p = Some n" using assms by auto
  let ?h = "h(p \<mapsto> n\<lparr>dn_prev := v\<rparr>)"
  have "nxt ?h = nxt h" "prv ?h = (prv h)(p := v)" "entry ?h = entry h" "dom ?h = dom h"
    using n by (auto simp: nxt_def prv_def entry_def fun_eq_iff)
  moreover have "store_prev (Some p) v h = Some ?h" using n by (simp add: store_prev_def)
  ultimately show ?thesis by blast
qed

text \<open>Taking a node out of the middle of a path, and putting one behind its first node.\<close>

lemma unlink_path:
  assumes link: "linked h (pre @ p # a # q # post)" and dist: "distinct (pre @ p # a # q # post)"
    and n: "nxt h' = (nxt h)(p := Some q)" and v: "prv h' = (prv h)(q := Some p)"
  shows "linked h' (pre @ p # q # post)"
proof -
  have 1: "linked h (pre @ [p])" and 2: "linked h (q # post)"
    using link linked_append [of h pre p "a # q # post"] by simp_all
  have "q \<notin> set (tl (pre @ [p]))" using dist by (cases pre) auto
  then have "linked h' (pre @ [p])"
    using 1 dist by (subst linked_frame [where h = h]) (auto simp: n v)
  moreover have "linked h' (q # post)"
    using 2 dist by (subst linked_frame [where h = h]) (auto simp: n v dest: in_set_butlastD)
  ultimately show ?thesis by (subst linked_append) (simp add: n v)
qed

lemma link_path:
  assumes link: "linked h (p # q # post)" and dist: "distinct (p # q # post)" and fresh: "a \<notin> set (p # q # post)"
    and n: "nxt h' = (nxt h)(a := Some q, p := Some a)" and v: "prv h' = (prv h)(a := Some p, q := Some a)"
  shows "linked h' (p # a # q # post)"
proof -
  have "linked h' (q # post)"
    using link dist fresh by (subst linked_frame [where h = h]) (auto simp: n v dest: in_set_butlastD)
  then show ?thesis using dist fresh by (auto simp: n v)
qed

section \<open>The list operations of the cache\<close>

definition path :: "lru_cache \<Rightarrow> addr list \<Rightarrow> addr list" where
  "path c ns = lc_head c # ns @ [lc_tail c]"

definition dll :: "lru_cache \<Rightarrow> addr list \<Rightarrow> bool" where
  "dll c ns \<longleftrightarrow> distinct (path c ns) \<and> linked (lc_heap c) (path c ns) \<and> set (path c ns) \<subseteq> dom (lc_heap c)"

text \<open>What relinking leaves alone: everything but the pointers.\<close>

definition relinked :: "lru_cache \<Rightarrow> lru_cache \<Rightarrow> bool" where
  "relinked c c' \<longleftrightarrow> (\<exists>h. c' = c\<lparr>lc_heap := h\<rparr> \<and> entry h = entry (lc_heap c) \<and> dom h = dom (lc_heap c))"

lemma relinked_trans: "relinked c c' \<Longrightarrow> relinked c' c'' \<Longrightarrow> relinked c c''"
  by (auto simp: relinked_def)

lemma relinkedD:
  assumes "relinked c c'"
  shows "lc_cache c' = lc_cache c" "lc_fresh c' = lc_fresh c" "lc_head c' = lc_head c" "lc_tail c' = lc_tail c"
    "lc_size c' = lc_size c" "lc_capacity c' = lc_capacity c" "entry (lc_heap c') = entry (lc_heap c)"
    "dom (lc_heap c') = dom (lc_heap c)" "path c' ns = path c ns"
  using assms unfolding relinked_def path_def by (elim exE conjE, simp)+

lemma nxt_deref: "h a = Some n \<Longrightarrow> dn_next n = nxt h a"
  by (simp add: nxt_def)

lemma prv_deref: "h a = Some n \<Longrightarrow> dn_prev n = prv h a"
  by (simp add: prv_def)

lemma remove_node_dll:
  assumes "dll c (xs @ a # ys)"
  shows "\<exists>c'. remove_node a c = Some c' \<and> dll c' (xs @ ys) \<and> relinked c c'"
proof -
  obtain pre p where pre: "lc_head c # xs = pre @ [p]" by (metis rev_exhaust list.distinct(1))
  obtain q post where post: "ys @ [lc_tail c] = q # post" by (cases ys) auto
  have path: "path c (xs @ a # ys) = pre @ p # a # q # post"
    using arg_cong2 [OF pre arg_cong [OF post, of "(#) a"], of "(@)"] by (simp add: path_def)
  have path': "path c (xs @ ys) = pre @ p # q # post"
    using arg_cong2 [OF pre post, of "(@)"] by (simp add: path_def)
  define h where "h = lc_heap c"
  have link: "linked h (pre @ p # a # q # post)" and dist: "distinct (pre @ p # a # q # post)"
    and live: "set (pre @ p # a # q # post) \<subseteq> dom h"
    using assms by (simp_all add: dll_def path h_def)
  have ptr: "nxt h p = Some a" "prv h a = Some p" "nxt h a = Some q"
    using link by (subst (asm) linked_append, simp)+
  obtain n1 where n1: "h a = Some n1" using live by auto
  obtain h1 where h1: "store_next (Some p) (Some q) h = Some h1" "nxt h1 = (nxt h)(p := Some q)" "prv h1 = prv h"
      "entry h1 = entry h" "dom h1 = dom h"
    using store_next_ok [of h p "Some q"] live by auto
  obtain n2 where n2: "h1 a = Some n2" using h1(5) n1 by auto
  obtain h2 where h2: "store_prev (Some q) (Some p) h1 = Some h2" "prv h2 = (prv h1)(q := Some p)" "nxt h2 = nxt h1"
      "entry h2 = entry h1" "dom h2 = dom h1"
    using store_prev_ok [of h1 q "Some p"] live h1(5) by auto
  have d1: "dn_prev n1 = Some p" "dn_next n1 = Some q"
    using ptr n1 by (simp_all add: prv_def nxt_def)
  have d2: "dn_prev n2 = Some p" "dn_next n2 = Some q"
    using ptr n2 h1 dist by (simp_all add: prv_deref [where h = h1 and a = a, OF n2] nxt_deref [where h = h1 and a = a, OF n2])
  have run: "remove_node a c = Some (c\<lparr>lc_heap := h2\<rparr>)"
    using n1 n2 h1(1) h2(1) d1 d2 by (simp add: remove_node_def h_def)
  have "linked h2 (pre @ p # q # post)"
    by (rule unlink_path [OF link dist]) (simp_all add: h1 h2)
  then have "dll (c\<lparr>lc_heap := h2\<rparr>) (xs @ ys)"
    using path' dist live h1(5) h2(5) by (simp add: dll_def path_def h_def)
  moreover have "relinked c (c\<lparr>lc_heap := h2\<rparr>)"
    using h1 h2 by (auto simp: relinked_def h_def)
  ultimately show ?thesis using run by blast
qed

lemma add_to_head_dll:
  assumes "dll c ns" and "a \<notin> set (path c ns)" and "a \<in> dom (lc_heap c)"
  shows "\<exists>c'. add_to_head a c = Some c' \<and> dll c' (a # ns) \<and> relinked c c'"
proof -
  obtain q post where post: "ns @ [lc_tail c] = q # post" by (cases ns) auto
  define h p where "h = lc_heap c" and "p = lc_head c"
  have path: "path c ns = p # q # post" using post by (simp add: path_def p_def)
  have link: "linked h (p # q # post)" and dist: "distinct (p # q # post)" and live: "set (p # q # post) \<subseteq> dom h"
    and new: "a \<notin> set (p # q # post)" and al: "h a \<noteq> None"
    using assms by (auto simp: dll_def path h_def)
  obtain h1 where h1: "store_prev (Some a) (Some p) h = Some h1" "prv h1 = (prv h)(a := Some p)" "nxt h1 = nxt h"
      "entry h1 = entry h" "dom h1 = dom h"
    using store_prev_ok [of h a "Some p"] al by blast
  obtain hd1 where hd1: "h1 p = Some hd1" using h1(5) live by auto
  have next1: "dn_next hd1 = Some q" using nxt_deref [where h = h1 and a = p, OF hd1] h1(3) link by simp
  have "h1 a \<noteq> None" using al h1(5) by blast
  then obtain h2 where h2: "store_next (Some a) (Some q) h1 = Some h2" "nxt h2 = (nxt h1)(a := Some q)" "prv h2 = prv h1"
      "entry h2 = entry h1" "dom h2 = dom h1"
    using store_next_ok [of h1 a "Some q"] by blast
  have pl: "p \<in> dom h" "q \<in> dom h" using live by auto
  obtain hd2 where hd2: "h2 p = Some hd2" using h1(5) h2(5) pl(1) by (metis domD)
  have next2: "dn_next hd2 = Some q" using nxt_deref [where h = h2 and a = p, OF hd2] h1(3) h2(2) link new by simp
  have "h2 q \<noteq> None" using h1(5) h2(5) pl(2) by (metis domIff)
  then obtain h3 where h3: "store_prev (Some q) (Some a) h2 = Some h3" "prv h3 = (prv h2)(q := Some a)" "nxt h3 = nxt h2"
      "entry h3 = entry h2" "dom h3 = dom h2"
    using store_prev_ok [of h2 q "Some a"] by blast
  have "h3 p \<noteq> None" using h1(5) h2(5) h3(5) pl(1) by (metis domIff)
  then obtain h4 where h4: "store_next (Some p) (Some a) h3 = Some h4" "nxt h4 = (nxt h3)(p := Some a)" "prv h4 = prv h3"
      "entry h4 = entry h3" "dom h4 = dom h3"
    using store_next_ok [of h3 p "Some a"] by blast
  have run: "add_to_head a c = Some (c\<lparr>lc_heap := h4\<rparr>)"
    using h1(1) hd1 next1 h2(1) hd2 next2 h3(1) h4(1) by (simp add: add_to_head_def h_def p_def)
  have "linked h4 (p # a # q # post)"
    by (rule link_path [OF link dist new]) (simp_all add: h1 h2 h3 h4)
  then have "dll (c\<lparr>lc_heap := h4\<rparr>) (a # ns)"
    using path dist live new al h1(5) h2(5) h3(5) h4(5) by (auto simp: dll_def path_def h_def p_def)
  moreover have "relinked c (c\<lparr>lc_heap := h4\<rparr>)"
    using h1 h2 h3 h4 by (auto simp: relinked_def h_def)
  ultimately show ?thesis using run by blast
qed

lemma move_to_head_dll:
  assumes "dll c (xs @ a # ys)"
  shows "\<exists>c'. move_to_head a c = Some c' \<and> dll c' (a # xs @ ys) \<and> relinked c c'"
proof -
  obtain c1 where 1: "remove_node a c = Some c1" "dll c1 (xs @ ys)" "relinked c c1"
    using remove_node_dll [OF assms] by blast
  have "a \<in> dom (lc_heap c)" using assms by (auto simp: dll_def path_def)
  then have "a \<notin> set (path c1 (xs @ ys))" "a \<in> dom (lc_heap c1)"
    using assms by (simp_all only: relinkedD [OF 1(3)]) (auto simp: dll_def path_def)
  then obtain c2 where 2: "add_to_head a c1 = Some c2" "dll c2 (a # xs @ ys)" "relinked c1 c2"
    using add_to_head_dll [OF 1(2)] by blast
  show ?thesis using 1(1) 2(1,2) relinked_trans [OF 1(3) 2(3)] by (simp add: move_to_head_def)
qed

lemma remove_tail_dll:
  assumes "dll c (ns @ [z])"
  shows "\<exists>c'. remove_tail c = Some (z, c') \<and> dll c' ns \<and> relinked c c'"
proof -
  have link: "linked (lc_heap c) ((lc_head c # ns) @ z # [lc_tail c])" and live: "lc_tail c \<in> dom (lc_heap c)"
    using assms by (auto simp: dll_def path_def)
  have "prv (lc_heap c) (lc_tail c) = Some z"
    using iffD1 [OF linked_append link] by simp
  then obtain t where t: "lc_heap c (lc_tail c) = Some t" "dn_prev t = Some z"
    using live by (auto simp: prv_def)
  show ?thesis using remove_node_dll [of c ns z "[]"] assms t by (auto simp: remove_tail_def)
qed

section \<open>Refinement\<close>

definition lru_inv :: "lru_cache \<Rightarrow> addr list \<Rightarrow> bool" where
  "lru_inv c ns \<longleftrightarrow>
     dll c ns \<and> distinct (map (fst \<circ> entry (lc_heap c)) ns) \<and>
     (\<forall>k a. lc_cache c k = Some a \<longleftrightarrow> a \<in> set ns \<and> fst (entry (lc_heap c) a) = k) \<and>
     lc_size c = int (length ns) \<and> (\<forall>a\<in>dom (lc_heap c). a < lc_fresh c)"

definition lru_rel :: "lru_cache \<Rightarrow> int \<times> (int \<times> int) list \<Rightarrow> bool" where
  "lru_rel c a \<longleftrightarrow> (\<exists>ns. lru_inv c ns \<and> a = (lc_capacity c, map (entry (lc_heap c)) ns))"

lemma lru_construct_rel: "lru_rel (lru_construct cap) (cap, [])"
proof -
  have "lru_inv (lru_construct cap) []"
    by (auto simp: lru_inv_def dll_def path_def lru_construct_def new_node_def nxt_def prv_def)
  then show ?thesis by (auto simp: lru_rel_def lru_construct_def intro: exI [of _ "[]"])
qed

text \<open>Moving the entry of a key to the front removes its only occurrence.\<close>

lemma filter_key:
  assumes "distinct (map fst (es @ e # fs))"
  shows "filter (\<lambda>x. fst x \<noteq> fst e) (es @ e # fs) = es @ fs"
proof -
  have "filter (\<lambda>x. fst x \<noteq> fst e) es = es" "filter (\<lambda>x. fst x \<noteq> fst e) fs = fs"
    using assms by (auto simp: filter_id_conv image_iff)
  then show ?thesis by simp
qed

lemma map_of_key:
  assumes "distinct (map fst es)" and "e \<in> set es"
  shows "map_of es (fst e) = Some (snd e)"
  using assms by (metis map_of_is_SomeI prod.collapse)

lemma move_to_head_inv:
  assumes inv: "lru_inv c (xs @ a # ys)" and rl: "relinked c c'" and dll: "dll c' (a # xs @ ys)"
  shows "lru_inv c' (a # xs @ ys)"
  using inv dll unfolding lru_inv_def relinkedD [OF rl] by auto

lemma cached_split:
  assumes "lru_inv c ns" and "lc_cache c k = Some a"
  obtains xs ys where "ns = xs @ a # ys" "fst (entry (lc_heap c) a) = k"
  using assms by (metis lru_inv_def split_list)

lemma lru_get_sim:
  assumes inv: "lru_inv c ns"
  shows "\<exists>c' ns'. lru_get k c = Some (case map_of (map (entry (lc_heap c)) ns) k of None \<Rightarrow> -1 | Some v \<Rightarrow> v, c') \<and>
           lru_inv c' ns' \<and> lc_capacity c' = lc_capacity c \<and>
           map (entry (lc_heap c')) ns' =
             (case map_of (map (entry (lc_heap c)) ns) k of
                None \<Rightarrow> map (entry (lc_heap c)) ns
              | Some v \<Rightarrow> (k, v) # filter (\<lambda>e. fst e \<noteq> k) (map (entry (lc_heap c)) ns))"
proof (cases "lc_cache c k")
  case None
  then have "\<forall>a\<in>set ns. fst (entry (lc_heap c) a) \<noteq> k"
    using inv unfolding lru_inv_def by (metis option.distinct(1))
  then have "map_of (map (entry (lc_heap c)) ns) k = None"
    by (force simp: map_of_eq_None_iff)
  then show ?thesis using None inv by (auto simp: lru_get_def)
next
  case (Some a)
  obtain xs ys where ns: "ns = xs @ a # ys" and key: "fst (entry (lc_heap c) a) = k"
    using cached_split [OF inv Some] .
  have dist: "distinct (map fst (map (entry (lc_heap c)) ns))" using inv by (simp add: lru_inv_def)
  have val: "map_of (map (entry (lc_heap c)) ns) k = Some (snd (entry (lc_heap c) a))"
    using map_of_key [OF dist, of "entry (lc_heap c) a"] ns key by simp
  have fil: "filter (\<lambda>e. fst e \<noteq> k) (map (entry (lc_heap c)) ns) = map (entry (lc_heap c)) (xs @ ys)"
    using filter_key [of "map (entry (lc_heap c)) xs" "entry (lc_heap c) a" "map (entry (lc_heap c)) ys"] dist ns key
    by simp
  obtain c' where c': "move_to_head a c = Some c'" "dll c' (a # xs @ ys)" "relinked c c'"
    using move_to_head_dll [of c xs a ys] inv ns by (auto simp: lru_inv_def)
  have inv': "lru_inv c' (a # xs @ ys)" using move_to_head_inv [OF _ c'(3,2)] inv ns by simp
  have same: "entry (lc_heap c') = entry (lc_heap c)" "lc_capacity c' = lc_capacity c"
    by (rule relinkedD [OF c'(3)])+
  obtain n where n: "lc_heap c' a = Some n" using c'(2) by (auto simp: dll_def path_def)
  have "dn_value n = snd (entry (lc_heap c) a)" unfolding same(1) [symmetric] using n by (simp add: entry_def)
  then have "lru_get k c = Some (snd (entry (lc_heap c) a), c')"
    using Some c'(1) n by (simp add: lru_get_def)
  moreover have "map (entry (lc_heap c')) (a # xs @ ys) = (k, snd (entry (lc_heap c) a)) # map (entry (lc_heap c)) (xs @ ys)"
    using same key by (auto simp: prod_eq_iff)
  ultimately show ?thesis using val fil inv' same(2) by (intro exI [of _ c'] exI [of _ "a # xs @ ys"]) simp
qed

lemma lru_put_present_sim:
  assumes inv: "lru_inv c ns" and hit: "lc_cache c k = Some a"
  shows "\<exists>c' ns'. lru_put k v c = Some c' \<and> lru_inv c' ns' \<and> lc_capacity c' = lc_capacity c \<and>
           map (entry (lc_heap c')) ns' = (k, v) # filter (\<lambda>e. fst e \<noteq> k) (map (entry (lc_heap c)) ns)"
proof -
  obtain xs ys where ns: "ns = xs @ a # ys" and key: "fst (entry (lc_heap c) a) = k"
    using cached_split [OF inv hit] .
  have dll: "dll c (xs @ a # ys)" and dist: "distinct (map fst (map (entry (lc_heap c)) ns))"
    using inv ns by (simp_all add: lru_inv_def)
  obtain n where n: "lc_heap c a = Some n" using dll by (auto simp: dll_def path_def)
  define c0 where "c0 = c\<lparr>lc_heap := (lc_heap c)(a \<mapsto> n\<lparr>dn_value := v\<rparr>)\<rparr>"
  have ptr: "nxt (lc_heap c0) = nxt (lc_heap c)" "prv (lc_heap c0) = prv (lc_heap c)"
    using n by (auto simp: c0_def nxt_def prv_def fun_eq_iff)
  have ent: "entry (lc_heap c0) = (entry (lc_heap c))(a := (k, v))"
    using n key by (auto simp: c0_def entry_def fun_eq_iff)
  have dom0: "dom (lc_heap c0) = dom (lc_heap c)" using n by (auto simp: c0_def)
  have fld: "lc_cache c0 = lc_cache c" "lc_fresh c0 = lc_fresh c" "lc_size c0 = lc_size c"
      "lc_capacity c0 = lc_capacity c" "path c0 zs = path c zs" for zs
    by (simp_all add: c0_def path_def)
  have "linked (lc_heap c0) (path c ns) \<longleftrightarrow> linked (lc_heap c) (path c ns)"
    by (rule linked_frame) (simp_all add: ptr)
  then have dll0: "dll c0 (xs @ a # ys)" using dll by (simp add: dll_def dom0 fld ns)
  have fk: "fst (entry (lc_heap c0) b) = fst (entry (lc_heap c) b)" for b using ent key by simp
  have "lru_inv c0 (xs @ a # ys)"
    using inv dll0 unfolding lru_inv_def dom0 fld fk comp_def ns by simp
  moreover obtain c' where c': "move_to_head a c0 = Some c'" "dll c' (a # xs @ ys)" "relinked c0 c'"
    using move_to_head_dll [OF dll0] by blast
  ultimately have inv': "lru_inv c' (a # xs @ ys)" using move_to_head_inv by blast
  have "a \<notin> set (xs @ ys)" using dll by (auto simp: dll_def path_def)
  then have "map (entry (lc_heap c')) (a # xs @ ys) = (k, v) # map (entry (lc_heap c)) (xs @ ys)"
    using ent relinkedD(7) [OF c'(3)] by auto
  moreover have "filter (\<lambda>e. fst e \<noteq> k) (map (entry (lc_heap c)) ns) = map (entry (lc_heap c)) (xs @ ys)"
    using filter_key [of "map (entry (lc_heap c)) xs" "entry (lc_heap c) a" "map (entry (lc_heap c)) ys"] dist ns key
    by simp
  moreover have "lru_put k v c = Some c'" using hit n c'(1) by (simp add: lru_put_def c0_def)
  ultimately show ?thesis using inv' relinkedD(6) [OF c'(3)] fld(4)
    by (intro exI [of _ c'] exI [of _ "a # xs @ ys"]) simp
qed

text \<open>A new entry: the node is allocated, linked behind the head and entered into the table.\<close>

lemma lru_insert_inv:
  fixes v :: int
  assumes inv: "lru_inv c ns" and miss: "lc_cache c k = None"
  defines "c0 \<equiv> c\<lparr>lc_heap := (lc_heap c)(lc_fresh c \<mapsto> new_node k v), lc_fresh := Suc (lc_fresh c),
                  lc_cache := (lc_cache c)(k \<mapsto> lc_fresh c)\<rparr>"
  shows "\<exists>c1. add_to_head (lc_fresh c) c0 = Some c1 \<and> lru_inv (c1\<lparr>lc_size := lc_size c1 + 1\<rparr>) (lc_fresh c # ns) \<and>
           lc_capacity c1 = lc_capacity c \<and> lc_size c1 = lc_size c \<and>
           map (entry (lc_heap c1)) (lc_fresh c # ns) = (k, v) # map (entry (lc_heap c)) ns"
proof -
  define a where "a = lc_fresh c"
  have fresh: "a \<notin> dom (lc_heap c)" using inv unfolding lru_inv_def a_def by blast
  have dll: "dll c ns" using inv by (simp add: lru_inv_def)
  have new: "a \<notin> set (path c ns)" using dll fresh by (auto simp: dll_def)
  have p0: "path c0 zs = path c zs" for zs by (simp add: c0_def path_def)
  have ent: "entry (lc_heap c0) = (entry (lc_heap c))(a := (k, v))"
    by (auto simp: c0_def a_def entry_def new_node_def fun_eq_iff)
  have "linked (lc_heap c0) (path c ns) \<longleftrightarrow> linked (lc_heap c) (path c ns)"
    by (rule linked_frame)
      (use new in \<open>auto simp: c0_def a_def nxt_def prv_def path_def dest!: in_set_butlastD\<close>)
  then have dll0: "dll c0 ns" using dll unfolding dll_def p0 by (auto simp: c0_def)
  obtain c1 where c1: "add_to_head a c0 = Some c1" "dll c1 (a # ns)" "relinked c0 c1"
    using add_to_head_dll [OF dll0, of a] new p0 by (auto simp: c0_def a_def)
  note same = relinkedD [OF c1(3)]
  have ent1: "entry (lc_heap c1) b = (if b = a then (k, v) else entry (lc_heap c) b)" for b
    using ent same(7) by simp
  have ns: "a \<notin> set ns" using new by (simp add: path_def)
  have keys: "\<forall>b\<in>set ns. fst (entry (lc_heap c) b) \<noteq> k"
    using inv miss unfolding lru_inv_def by (metis option.distinct(1))
  have tab: "lc_cache c1 k' = Some b \<longleftrightarrow> b \<in> set (a # ns) \<and> fst (entry (lc_heap c1) b) = k'" for k' b
    using inv miss keys ns unfolding lru_inv_def ent1 same(1) by (auto simp: c0_def a_def)
  have dist: "distinct (map (fst \<circ> entry (lc_heap c1)) (a # ns))"
  proof -
    have eq: "map (fst \<circ> entry (lc_heap c1)) ns = map (fst \<circ> entry (lc_heap c)) ns"
      using ns by (auto simp: ent1)
    have "distinct (map (fst \<circ> entry (lc_heap c)) ns)" using inv by (simp add: lru_inv_def)
    moreover have "fst (entry (lc_heap c1) a) = k" by (simp add: ent1)
    moreover have "k \<notin> set (map (fst \<circ> entry (lc_heap c)) ns)" using keys by auto
    ultimately show ?thesis by (simp only: list.map(2) distinct.simps(2) eq comp_apply) simp
  qed
  have bound: "\<forall>b\<in>dom (lc_heap c1). b < lc_fresh c1"
    using inv unfolding same lru_inv_def by (auto simp: c0_def less_Suc_eq)
  have sz: "lc_size c1 = lc_size c" "lc_capacity c1 = lc_capacity c" using same by (simp_all add: c0_def)
  have "lru_inv (c1\<lparr>lc_size := lc_size c1 + 1\<rparr>) (a # ns)"
    using c1(2) dist tab bound sz inv by (simp add: lru_inv_def dll_def path_def)
  moreover have "map (entry (lc_heap c1)) (a # ns) = (k, v) # map (entry (lc_heap c)) ns"
    using ns by (auto simp: ent1)
  ultimately show ?thesis using c1(1) sz by (auto simp: a_def)
qed

text \<open>Evicting the last entry.\<close>

lemma lru_evict_inv:
  assumes inv: "lru_inv c (ns @ [z])"
  shows "\<exists>c' n. remove_tail c = Some (z, c') \<and> lc_heap c' z = Some n \<and>
           lru_inv (c'\<lparr>lc_cache := (lc_cache c')(dn_key n := None), lc_heap := (lc_heap c')(z := None),
                       lc_size := lc_size c' - 1\<rparr>) ns \<and>
           lc_capacity c' = lc_capacity c \<and>
           map (entry ((lc_heap c')(z := None))) ns = map (entry (lc_heap c)) ns"
proof -
  obtain c' where c': "remove_tail c = Some (z, c')" "dll c' ns" "relinked c c'"
    using remove_tail_dll inv by (metis lru_inv_def)
  note same = relinkedD [OF c'(3)]
  have z: "z \<notin> set (path c' ns)" "z \<in> dom (lc_heap c')" "z \<notin> set ns"
    using inv unfolding lru_inv_def dll_def same by (auto simp: path_def)
  then obtain n where n: "lc_heap c' z = Some n" by auto
  define h where "h = (lc_heap c')(z := None)"
  have key: "dn_key n = fst (entry (lc_heap c) z)" unfolding same(7) [symmetric] using n by (simp add: entry_def)
  have ent: "entry h b = entry (lc_heap c) b" if "b \<noteq> z" for b
    unfolding same(7) [symmetric] using that by (simp add: h_def entry_def)
  have "linked h (path c' ns) \<longleftrightarrow> linked (lc_heap c') (path c' ns)"
    by (rule linked_frame)
      (use z in \<open>auto simp: h_def nxt_def prv_def path_def dest!: in_set_butlastD\<close>)
  then have dll: "dll (c'\<lparr>lc_heap := h\<rparr>) ns"
    using c'(2) z by (auto simp: dll_def path_def h_def)
  have es: "map (entry h) ns = map (entry (lc_heap c)) ns"
  proof (rule map_cong [OF refl])
    fix b assume "b \<in> set ns"
    then have "b \<noteq> z" using z(3) by blast
    then show "entry h b = entry (lc_heap c) b" by (rule ent)
  qed
  then have "map (fst \<circ> entry h) ns = map (fst \<circ> entry (lc_heap c)) ns" by (metis map_map)
  moreover have "distinct (map (fst \<circ> entry (lc_heap c)) ns)" using inv by (simp add: lru_inv_def)
  ultimately have dist: "distinct (map (fst \<circ> entry h) ns)" by (simp only:)
  have old: "lc_cache c k = Some b \<longleftrightarrow> b \<in> set (ns @ [z]) \<and> fst (entry (lc_heap c) b) = k" for k b
    using inv unfolding lru_inv_def by blast
  have other: "fst (entry (lc_heap c) b) \<noteq> dn_key n" if "b \<in> set ns" for b
    using inv that key by (auto simp: lru_inv_def image_iff)
  have tab: "((lc_cache c')(dn_key n := None)) k = Some b \<longleftrightarrow> b \<in> set ns \<and> fst (entry h b) = k" for k b
    using old [of k b] other [of b] ent [of b] z(3) key unfolding same(1) by (cases "b = z") auto
  have bound: "\<forall>b\<in>dom h. b < lc_fresh c'"
    using inv same(2,8) unfolding lru_inv_def h_def by auto
  have "lru_inv (c'\<lparr>lc_cache := (lc_cache c')(dn_key n := None), lc_heap := h, lc_size := lc_size c' - 1\<rparr>) ns"
    using dll dist tab bound same(5) inv by (simp add: lru_inv_def dll_def path_def)
  then show ?thesis using c'(1) n es same(6) by (auto simp: h_def)
qed

lemma lru_put_absent_sim:
  assumes inv: "lru_inv c ns" and miss: "lc_cache c k = None"
  shows "\<exists>c' ns'. lru_put k v c = Some c' \<and> lru_inv c' ns' \<and> lc_capacity c' = lc_capacity c \<and>
           map (entry (lc_heap c')) ns' =
             (if int (length ns) + 1 > lc_capacity c then butlast ((k, v) # map (entry (lc_heap c)) ns)
              else (k, v) # map (entry (lc_heap c)) ns)"
proof -
  define c0 where "c0 = c\<lparr>lc_heap := (lc_heap c)(lc_fresh c \<mapsto> new_node k v), lc_fresh := Suc (lc_fresh c),
                  lc_cache := (lc_cache c)(k \<mapsto> lc_fresh c)\<rparr>"
  obtain c1 where c1: "add_to_head (lc_fresh c) c0 = Some c1" "lru_inv (c1\<lparr>lc_size := lc_size c1 + 1\<rparr>) (lc_fresh c # ns)"
      "lc_capacity c1 = lc_capacity c" "lc_size c1 = lc_size c"
      "map (entry (lc_heap c1)) (lc_fresh c # ns) = (k, v) # map (entry (lc_heap c)) ns"
    using lru_insert_inv [OF inv miss, of v, folded c0_def] by (elim exE conjE) rule
  define c2 where "c2 = c1\<lparr>lc_size := lc_size c1 + 1\<rparr>"
  have size: "lc_size c2 = int (length ns) + 1" using inv c1(4) by (simp add: c2_def lru_inv_def)
  have cap: "lc_capacity c2 = lc_capacity c" and h2: "lc_heap c2 = lc_heap c1" by (simp_all add: c2_def c1(3))
  have run: "lru_put k v c =
      (if lc_size c2 > lc_capacity c2
       then do { (gone, c3) \<leftarrow> remove_tail c2;
                 n \<leftarrow> lc_heap c3 gone;
                 Some (c3\<lparr>lc_cache := (lc_cache c3)(dn_key n := None), lc_heap := (lc_heap c3)(gone := None),
                          lc_size := lc_size c3 - 1\<rparr>) }
       else Some c2)"
    using miss c1(1) unfolding c0_def by (simp add: lru_put_def c2_def Let_def)
  show ?thesis
  proof (cases "int (length ns) + 1 > lc_capacity c")
    case False
    then show ?thesis using run size cap c1(2,5) h2
      by (intro exI [of _ c2] exI [of _ "lc_fresh c # ns"]) (simp add: c2_def)
  next
    case True
    obtain ms z where ms: "lc_fresh c # ns = ms @ [z]" by (metis rev_exhaust list.distinct(1))
    obtain c3 n where c3: "remove_tail c2 = Some (z, c3)" "lc_heap c3 z = Some n"
        "lru_inv (c3\<lparr>lc_cache := (lc_cache c3)(dn_key n := None), lc_heap := (lc_heap c3)(z := None),
                     lc_size := lc_size c3 - 1\<rparr>) ms"
        "lc_capacity c3 = lc_capacity c2" "map (entry ((lc_heap c3)(z := None))) ms = map (entry (lc_heap c2)) ms"
      using lru_evict_inv [of c2 ms z] c1(2) ms by (auto simp: c2_def)
    define c4 where "c4 = c3\<lparr>lc_cache := (lc_cache c3)(dn_key n := None), lc_heap := (lc_heap c3)(z := None),
                     lc_size := lc_size c3 - 1\<rparr>"
    have "lru_put k v c = Some c4" using run True size cap c3(1,2) by (simp add: c4_def)
    moreover have "map (entry (lc_heap c4)) ms = butlast ((k, v) # map (entry (lc_heap c)) ns)"
      using c3(5) c1(5) ms h2 by (simp add: c4_def flip: c1(5))
    moreover have "lc_capacity c4 = lc_capacity c" using c3(4) cap by (simp add: c4_def)
    ultimately show ?thesis using True c3(3) by (intro exI [of _ c4] exI [of _ ms]) (simp add: c4_def)
  qed
qed

lemma cached_iff: "lru_inv c ns \<Longrightarrow> k \<in> fst ` set (map (entry (lc_heap c)) ns) \<longleftrightarrow> lc_cache c k \<noteq> None"
  unfolding lru_inv_def by (auto simp: image_iff)

lemma lru_step_sim:
  assumes "lru_rel c s"
  shows "\<exists>c'. lru_step x c = Some (fst (spec_step x s), c') \<and> lru_rel c' (snd (spec_step x s))"
proof -
  obtain ns where inv: "lru_inv c ns" and s: "s = (lc_capacity c, map (entry (lc_heap c)) ns)"
    using assms by (auto simp: lru_rel_def)
  show ?thesis
  proof (cases x)
    case (CGet k)
    obtain c' ns' where
        "lru_get k c = Some (case map_of (map (entry (lc_heap c)) ns) k of None \<Rightarrow> -1 | Some v \<Rightarrow> v, c')"
        "lru_inv c' ns'" "lc_capacity c' = lc_capacity c"
        "map (entry (lc_heap c')) ns' =
           (case map_of (map (entry (lc_heap c)) ns) k of
              None \<Rightarrow> map (entry (lc_heap c)) ns
            | Some v \<Rightarrow> (k, v) # filter (\<lambda>e. fst e \<noteq> k) (map (entry (lc_heap c)) ns))"
      using lru_get_sim [OF inv, of k] by (elim exE conjE) rule
    then show ?thesis unfolding CGet s lru_step_def spec_step_def lru_rel_def
      by (intro exI [of _ c']) (cases "map_of (map (entry (lc_heap c)) ns) k"; simp; metis)
  next
    case (CPut k v)
    show ?thesis
    proof (cases "lc_cache c k")
      case None
      then have k: "k \<notin> fst ` set (map (entry (lc_heap c)) ns)" using cached_iff [OF inv] by blast
      obtain c' ns' where "lru_put k v c = Some c'" "lru_inv c' ns'" "lc_capacity c' = lc_capacity c"
          "map (entry (lc_heap c')) ns' =
             (if int (length ns) + 1 > lc_capacity c then butlast ((k, v) # map (entry (lc_heap c)) ns)
              else (k, v) # map (entry (lc_heap c)) ns)"
        using lru_put_absent_sim [OF inv None, of v] by (elim exE conjE) rule
      then show ?thesis using k unfolding CPut s lru_step_def spec_step_def lru_rel_def
        by (intro exI [of _ c']) (simp del: list.map(2) butlast.simps, metis)
    next
      case (Some a)
      then have k: "k \<in> fst ` set (map (entry (lc_heap c)) ns)" using cached_iff [OF inv] by blast
      obtain c' ns' where "lru_put k v c = Some c'" "lru_inv c' ns'" "lc_capacity c' = lc_capacity c"
          "map (entry (lc_heap c')) ns' = (k, v) # filter (\<lambda>e. fst e \<noteq> k) (map (entry (lc_heap c)) ns)"
        using lru_put_present_sim [OF inv Some, of v] by (elim exE conjE) rule
      then show ?thesis using k unfolding CPut s lru_step_def spec_step_def lru_rel_def
        by (intro exI [of _ c']) (simp, metis)
    qed
  qed
qed

interpretation lru: op_simulation lru_rel lru_step spec_step "\<lambda>_ _. True"
  by unfold_locales (rule lru_step_sim)

text \<open>
  C12: Every sequence of \<open>get\<close> and \<open>put\<close> on a freshly constructed cache runs without dereferencing a null or freed pointer,
  and answers every \<open>get\<close> as the specification does: the value last put for the key if the key is among the entries
  kept, -1 otherwise, where a new key beyond the capacity evicts the least recently used one.\<close>

theorem lru_cache_refines:
  "\<exists>c. run_machine lru_step ops (lru_construct cap) = Some (fst (run_spec spec_step ops (cap, [])), c)"
  using lru.run_sim_all [OF _ lru_construct_rel, of ops] by auto

text \<open>The specification itself: keys stay distinct and a non-negative capacity is never exceeded.\<close>

lemma spec_step_bounded:
  assumes "distinct (map fst es)" and "int (length es) \<le> cap"
  shows "case snd (spec_step x (cap, es)) of (cap', es') \<Rightarrow>
           cap' = cap \<and> distinct (map fst es') \<and> int (length es') \<le> cap"
proof -
  have del: "distinct (map fst (filter p es))" "length (filter p es) \<le> length es" for p
    using assms(1) by (auto simp: distinct_map_filter)
  have dec: "length (filter (\<lambda>e. fst e \<noteq> k) es) < length es" if "k \<in> fst ` set es" for k
    using that by (auto intro!: length_filter_less)
  show ?thesis
  proof (cases x)
    case (CGet k)
    show ?thesis
    proof (cases "map_of es k")
      case (Some v)
      then have "k \<in> fst ` set es" by (metis map_of_SomeD fst_conv image_eqI)
      then show ?thesis using CGet Some assms del dec [of k] by (auto simp: spec_step_def)
    qed (use CGet assms in \<open>simp add: spec_step_def\<close>)
  next
    case (CPut k v)
    show ?thesis
    proof (cases "k \<in> fst ` set es")
      case True
      then show ?thesis using CPut assms del dec [of k] by (auto simp: spec_step_def)
    next
      case False
      then show ?thesis using CPut assms
        by (auto simp: spec_step_def map_butlast distinct_butlast dest: in_set_butlastD)
    qed
  qed
qed

end
