(* ===== verification/LsmTree.thy ===== *)
theory LsmTree
  imports ServerConfig "HOL-Library.List_Lexorder" "HOL-Library.Char_ord"
begin

text \<open>
  The log-structured store of \<open>lsmtree.cpp\<close>: a sorted memory table that is written to a new text file
  (one line \<open>key:value\<close> per entry) when it has ten entries, and look-ups that read the memory table first and the
  files in the order they were written.

  A file is its contents; whether a file can be opened for writing is a parameter, reading fails when the file does not exist.
  The refinement replaces files by maps: on keys without colon and newline and non-empty values without newline every
  sequence of operations answers as a memory map and a list of maps, oldest first, do.
\<close>

section \<open>Memory table\<close>

fun mem_put :: "string \<Rightarrow> string \<Rightarrow> (string \<times> string) list \<Rightarrow> (string \<times> string) list" where
  "mem_put k v [] = [(k, v)]"
| "mem_put k v ((k', v') # m) =
     (if k = k' then (k, v) # m
      else if k < k' then (k, v) # (k', v') # m
      else (k', v') # mem_put k v m)"

definition mem_get :: "string \<Rightarrow> (string \<times> string) list \<Rightarrow> string option" where
  "mem_get k m = map_of m k"

definition mem_del :: "string \<Rightarrow> (string \<times> string) list \<Rightarrow> (string \<times> string) list" where
  "mem_del k m = AList.delete k m"

definition dump_to_sstable :: "(string \<times> string) list \<Rightarrow> string" where
  "dump_to_sstable m = concat (map (\<lambda>(k, v). k @ '':'' @ v @ [CHR 0x0A]) m)"

section \<open>Reading a file\<close>

text \<open>\<open>std::getline\<close> on the file: the lines, the last one possibly without its newline.\<close>

fun lines_of :: "string \<Rightarrow> string \<Rightarrow> string list" where
  "lines_of acc [] = (if acc = [] then [] else [acc])"
| "lines_of acc (c # cs) = (if c = CHR 0x0A then acc # lines_of [] cs else lines_of (acc @ [c]) cs)"

text \<open>The two \<open>getline\<close> on one line: up to the colon, which has to be there, and the rest, which must not be empty.\<close>

definition parse_line :: "string \<Rightarrow> (string \<times> string) option" where
  "parse_line l =
     (case dropWhile (\<lambda>c. c \<noteq> CHR '':'') l of
        [] \<Rightarrow> None
      | _ # val \<Rightarrow> if val = [] then None else Some (takeWhile (\<lambda>c. c \<noteq> CHR '':'') l, val))"

fun lookup_lines :: "string \<Rightarrow> string list \<Rightarrow> string option" where
  "lookup_lines key [] = None"
| "lookup_lines key (l # ls) =
     (case parse_line l of
        Some (cur_key, cur_value) \<Rightarrow> if cur_key = key then Some cur_value else lookup_lines key ls
      | None \<Rightarrow> lookup_lines key ls)"

section \<open>The store\<close>

record lsmdb =
  db_memtable :: "(string \<times> string) list"
  db_sstables :: "string list"
  db_files :: "string \<Rightarrow> string option"

definition lsm_construct :: lsmdb where
  "lsm_construct = \<lparr>db_memtable = [], db_sstables = [], db_files = (\<lambda>_. None)\<rparr>"

definition sst_name :: "nat \<Rightarrow> string" where
  "sst_name n = ''sst_'' @ decimal n @ ''.txt''"

definition flush_mem_table :: "(string \<Rightarrow> bool) \<Rightarrow> lsmdb \<Rightarrow> lsmdb" where
  "flush_mem_table writable db =
     (let name = sst_name (length (db_sstables db))
      in if \<not> writable name then db
         else db\<lparr>db_memtable := [], db_sstables := db_sstables db @ [name],
                 db_files := (db_files db)(name \<mapsto> dump_to_sstable (db_memtable db))\<rparr>)"

definition lsm_put :: "(string \<Rightarrow> bool) \<Rightarrow> string \<Rightarrow> string \<Rightarrow> lsmdb \<Rightarrow> lsmdb" where
  "lsm_put writable key val db =
     (let db1 = db\<lparr>db_memtable := mem_put key val (db_memtable db)\<rparr>
      in if 10 \<le> length (db_memtable db1) then flush_mem_table writable db1 else db1)"

fun lookup_tables :: "(string \<Rightarrow> string option) \<Rightarrow> string \<Rightarrow> string list \<Rightarrow> string option" where
  "lookup_tables files key [] = None"
| "lookup_tables files key (name # names) =
     (case files name of
        None \<Rightarrow> lookup_tables files key names
      | Some content \<Rightarrow>
          (case lookup_lines key (lines_of [] content) of
             Some v \<Rightarrow> Some v
           | None \<Rightarrow> lookup_tables files key names))"

definition lsm_get :: "string \<Rightarrow> lsmdb \<Rightarrow> string option" where
  "lsm_get key db =
     (case mem_get key (db_memtable db) of
        Some v \<Rightarrow> Some v
      | None \<Rightarrow> lookup_tables (db_files db) key (db_sstables db))"

definition lsm_del :: "string \<Rightarrow> lsmdb \<Rightarrow> lsmdb" where
  "lsm_del key db = db\<lparr>db_memtable := mem_del key (db_memtable db)\<rparr>"

datatype lsm_op = LPut string string | LGet string | LDel string

definition lsm_step :: "(string \<Rightarrow> bool) \<Rightarrow> lsm_op \<Rightarrow> lsmdb \<Rightarrow> (string option option \<times> lsmdb) option" where
  "lsm_step writable x db =
     (case x of
        LPut k v \<Rightarrow> Some (None, lsm_put writable k v db)
      | LGet k \<Rightarrow> Some (Some (lsm_get k db), db)
      | LDel k \<Rightarrow> Some (None, lsm_del k db))"

section \<open>Specification\<close>

type_synonym table = "string \<Rightarrow> string option"

fun first_of :: "table list \<Rightarrow> string \<Rightarrow> string option" where
  "first_of [] k = None"
| "first_of (t # ts) k = (case t k of Some v \<Rightarrow> Some v | None \<Rightarrow> first_of ts k)"

definition spec_put :: "(string \<Rightarrow> bool) \<Rightarrow> string \<Rightarrow> string \<Rightarrow> table \<times> table list \<Rightarrow> table \<times> table list" where
  "spec_put writable k v a =
     (case a of (m, ts) \<Rightarrow>
       (let m1 = m(k \<mapsto> v)
        in if 10 \<le> card (dom m1) \<and> writable (sst_name (length ts)) then (\<lambda>_. None, ts @ [m1]) else (m1, ts)))"

definition lsm_spec_step :: "(string \<Rightarrow> bool) \<Rightarrow> lsm_op \<Rightarrow> table \<times> table list \<Rightarrow> string option option \<times> table \<times> table list" where
  "lsm_spec_step writable x a =
     (case x of
        LPut k v \<Rightarrow> (None, spec_put writable k v a)
      | LGet k \<Rightarrow> (Some (first_of (fst a # snd a) k), a)
      | LDel k \<Rightarrow> (None, (fst a)(k := None), snd a))"

definition clean_entry :: "string \<times> string \<Rightarrow> bool" where
  "clean_entry e \<longleftrightarrow>
     CHR '':'' \<notin> set (fst e) \<and> CHR 0x0A \<notin> set (fst e) \<and> CHR 0x0A \<notin> set (snd e) \<and> snd e \<noteq> []"

definition lsm_legal :: "lsm_op \<Rightarrow> bool" where
  "lsm_legal x \<longleftrightarrow> (case x of LPut k v \<Rightarrow> clean_entry (k, v) | _ \<Rightarrow> True)"

section \<open>Reading back a dumped table\<close>

lemma lines_of_app: "CHR 0x0A \<notin> set l \<Longrightarrow> lines_of acc (l @ CHR 0x0A # rest) = (acc @ l) # lines_of [] rest"
  by (induction l arbitrary: acc) auto

lemma lines_of_dump:
  "list_all clean_entry m \<Longrightarrow> lines_of [] (dump_to_sstable m) = map (\<lambda>(k, v). k @ '':'' @ v) m"
proof (induction m)
  case Nil
  show ?case by (simp add: dump_to_sstable_def)
next
  case (Cons e m)
  obtain k v where e: "e = (k, v)" by (cases e)
  have "dump_to_sstable (e # m) = (k @ '':'' @ v) @ CHR 0x0A # dump_to_sstable m"
    by (simp add: dump_to_sstable_def e)
  moreover have "CHR 0x0A \<notin> set (k @ '':'' @ v)" using Cons.prems by (auto simp: clean_entry_def e)
  ultimately show ?case using Cons lines_of_app [of "k @ '':'' @ v" "[]"] by (simp add: e)
qed

lemma parse_clean:
  assumes "clean_entry (k, v)"
  shows "parse_line (k @ CHR '':'' # v) = Some (k, v)"
proof -
  have "\<forall>c\<in>set k. c \<noteq> CHR '':''" using assms by (auto simp: clean_entry_def)
  then show ?thesis using assms by (simp add: parse_line_def clean_entry_def)
qed

lemma lookup_dump:
  assumes "list_all clean_entry m"
  shows "lookup_lines k (lines_of [] (dump_to_sstable m)) = map_of m k"
  using assms by (simp add: lines_of_dump) (induction m, auto simp: parse_clean)

section \<open>Refinement\<close>

lemma map_of_mem_put: "map_of (mem_put k v m) = (map_of m)(k \<mapsto> v)"
  by (induction k v m rule: mem_put.induct) (auto simp: fun_eq_iff)

lemma set_mem_put: "set (mem_put k v m) \<subseteq> insert (k, v) (set m)"
  by (induction k v m rule: mem_put.induct) auto

lemma keys_mem_put: "fst ` set (mem_put k v m) = insert k (fst ` set m)"
  by (metis dom_fun_upd dom_map_of_conv_image_fst map_of_mem_put option.distinct(1))

lemma mem_put_wf: "umap_wf m \<Longrightarrow> sorted (map fst m) \<Longrightarrow> umap_wf (mem_put k v m)"
  unfolding umap_wf_def
proof (induction k v m rule: mem_put.induct)
  case (2 k v k' v' m)
  have below: "k \<notin> fst ` set m" if "k < k'" using "2.prems"(2) that by (auto simp: image_iff)
  show ?case
  proof (cases "k = k' \<or> k < k'")
    case True
    then show ?thesis using "2.prems" below by auto
  next
    case False
    then have "distinct (map fst (mem_put k v m))" using 2 by auto
    then show ?thesis using False "2.prems" keys_mem_put [of k v m] by auto
  qed
qed simp

lemma mem_put_sorted: "sorted (map fst m) \<Longrightarrow> sorted (map fst (mem_put k v m))"
proof (induction k v m rule: mem_put.induct)
  case (2 k v k' v' m)
  then show ?case using keys_mem_put [of k v m] by auto
qed simp

definition mem_inv :: "(string \<times> string) list \<Rightarrow> bool" where
  "mem_inv m \<longleftrightarrow> umap_wf m \<and> sorted (map fst m) \<and> list_all clean_entry m"

lemma mem_inv_put: "mem_inv m \<Longrightarrow> clean_entry (k, v) \<Longrightarrow> mem_inv (mem_put k v m)"
  using mem_put_wf [of m k v] mem_put_sorted [of m k v] set_mem_put [of k v m]
  by (auto simp: mem_inv_def list_all_iff)

lemma mem_inv_del: "mem_inv m \<Longrightarrow> mem_inv (mem_del k m)"
proof -
  assume inv: "mem_inv m"
  have "sorted (map fst (filter p m))" for p using inv by (simp add: mem_inv_def sorted_filter)
  then show ?thesis using inv by (auto simp: mem_inv_def mem_del_def list_all_iff AList.delete_eq umap_wf_def distinct_map_filter)
qed

lemma sst_name_inj: "sst_name i = sst_name j \<longleftrightarrow> i = j"
proof
  assume "sst_name i = sst_name j"
  then have "decimal i = decimal j" by (simp add: sst_name_def)
  then have "digits_value (decimal i) = digits_value (decimal j)" by (simp only:)
  then show "i = j" by simp
qed simp

definition lsm_rel :: "lsmdb \<Rightarrow> table \<times> table list \<Rightarrow> bool" where
  "lsm_rel db a \<longleftrightarrow> (case a of (m, ts) \<Rightarrow>
     mem_inv (db_memtable db) \<and> map_of (db_memtable db) = m \<and>
     db_sstables db = map sst_name [0..<length ts] \<and>
     (\<forall>i<length ts. \<exists>content. db_files db (sst_name i) = Some content \<and>
        (\<forall>k. lookup_lines k (lines_of [] content) = (ts ! i) k)))"

lemma lsm_construct_rel: "lsm_rel lsm_construct (\<lambda>_. None, [])"
  by (simp add: lsm_rel_def lsm_construct_def mem_inv_def)

lemma lookup_tables_first_of:
  assumes "\<forall>i<length ts. \<exists>content. files (f i) = Some content \<and> (\<forall>k. lookup_lines k (lines_of [] content) = (ts ! i) k)"
  shows "lookup_tables files k (map f [0..<length ts]) = first_of ts k"
  using assms
proof (induction ts arbitrary: f)
  case Nil
  show ?case by simp
next
  case (Cons t ts)
  have "map f [0..<length (t # ts)] = f 0 # map (f \<circ> Suc) [0..<length ts]"
    by (simp add: upt_conv_Cons map_Suc_upt [symmetric] del: upt_Suc)
  moreover have "lookup_tables files k (map (f \<circ> Suc) [0..<length ts]) = first_of ts k"
    by (rule Cons.IH) (use Cons.prems in fastforce)
  moreover obtain content where "files (f 0) = Some content" "\<forall>k. lookup_lines k (lines_of [] content) = t k"
    using Cons.prems by fastforce
  ultimately show ?case by (simp add: comp_def split: option.splits)
qed

lemma lsm_put_sim:
  assumes rel: "lsm_rel db a" and clean: "clean_entry (k, v)"
  shows "lsm_rel (lsm_put writable k v db) (spec_put writable k v a)"
proof -
  obtain m ts where a: "a = (m, ts)" by (cases a)
  define db1 where "db1 = db\<lparr>db_memtable := mem_put k v (db_memtable db)\<rparr>"
  have inv: "mem_inv (db_memtable db1)" using rel clean mem_inv_put by (simp add: db1_def lsm_rel_def a)
  have map1: "map_of (db_memtable db1) = m(k \<mapsto> v)" using rel by (simp add: db1_def lsm_rel_def a map_of_mem_put)
  have rel1: "lsm_rel db1 (m(k \<mapsto> v), ts)" using rel inv map1 by (simp add: lsm_rel_def a db1_def)
  have len: "length (db_memtable db1) = card (dom (m(k \<mapsto> v)))"
    using inv map1 umap_card by (metis mem_inv_def)
  have tabs: "length (db_sstables db1) = length ts" using rel by (simp add: db1_def lsm_rel_def a)
  have "lsm_rel (flush_mem_table writable db1)
      (if writable (sst_name (length ts)) then (\<lambda>_. None, ts @ [m(k \<mapsto> v)]) else (m(k \<mapsto> v), ts))"
  proof (cases "writable (sst_name (length ts))")
    case False
    then show ?thesis using rel1 tabs by (simp add: flush_mem_table_def Let_def)
  next
    case True
    have new: "\<forall>q. lookup_lines q (lines_of [] (dump_to_sstable (db_memtable db1))) = (m(k \<mapsto> v)) q"
      using inv lookup_dump map1 by (simp add: mem_inv_def)
    show ?thesis
      using rel1 True tabs new
      by (auto simp: flush_mem_table_def Let_def lsm_rel_def mem_inv_def sst_name_inj nth_append less_Suc_eq)
  qed
  then show ?thesis using rel1 len
    by (cases "writable (sst_name (length ts))") (simp_all add: lsm_put_def Let_def spec_put_def a db1_def [symmetric])
qed

lemma lsm_step_sim:
  assumes "lsm_legal x" and rel: "lsm_rel db a"
  shows "\<exists>db'. lsm_step writable x db = Some (fst (lsm_spec_step writable x a), db') \<and>
           lsm_rel db' (snd (lsm_spec_step writable x a))"
proof -
  obtain m ts where a: "a = (m, ts)" by (cases a)
  show ?thesis
  proof (cases x)
    case (LPut k v)
    then show ?thesis using lsm_put_sim [OF rel] assms(1) by (simp add: lsm_step_def lsm_spec_step_def lsm_legal_def)
  next
    case (LGet k)
    have "lookup_tables (db_files db) k (db_sstables db) = first_of ts k"
      using lookup_tables_first_of [of ts "db_files db" sst_name] rel by (simp add: lsm_rel_def a)
    then have "lsm_get k db = first_of (m # ts) k"
      using rel by (simp add: lsm_get_def mem_get_def lsm_rel_def a split: option.splits)
    then show ?thesis using LGet rel by (simp add: lsm_step_def lsm_spec_step_def a)
  next
    case (LDel k)
    then show ?thesis using rel mem_inv_del
      by (simp add: lsm_step_def lsm_spec_step_def lsm_del_def lsm_rel_def a mem_del_def AList.delete_conv' split: prod.splits)
  qed
qed

interpretation lsm: op_simulation lsm_rel "lsm_step writable" "lsm_spec_step writable" "\<lambda>x _. lsm_legal x"
  for writable
  by unfold_locales (rule lsm_step_sim)

text \<open>
  C13: On keys without colon and newline and non-empty values without newline, every sequence of \<open>put\<close>, \<open>get\<close> and \<open>del\<close>
  on a new store answers as a memory map with a list of flushed maps does, where a \<open>get\<close> asks the memory map first and
  then the flushed maps from the oldest to the newest.\<close>

theorem lsm_refines:
  assumes "list_all lsm_legal ops"
  shows "\<exists>db. run_machine (lsm_step writable) ops lsm_construct =
           Some (fst (run_spec (lsm_spec_step writable) ops (\<lambda>_. None, [])), db)"
  using lsm.run_sim_all [OF _ lsm_construct_rel] assms unfolding list_all_iff by blast

theorem lsm_refines_witness:
  "\<exists>db. run_machine (lsm_step (\<lambda>_. True)) [LPut ''k'' ''v'', LGet ''k'', LDel ''k'', LGet ''k''] lsm_construct =
     Some ([None, Some (Some ''v''), None, Some None], db)"
proof -
  have "list_all lsm_legal [LPut ''k'' ''v'', LGet ''k'', LDel ''k'', LGet ''k'']" by code_simp
  from lsm_refines [OF this, of "\<lambda>_. True"] show ?thesis
    by (simp add: lsm_spec_step_def spec_put_def)
qed

section \<open>What users of the store see\<close>

lemma first_of_append: "first_of (ts @ [m]) k = (case first_of ts k of Some v \<Rightarrow> Some v | None \<Rightarrow> m k)"
  by (induction ts) (auto split: option.splits)

text \<open>Once a key is in a flushed table its value there never changes.\<close>

lemma spec_step_keeps_flushed:
  "first_of (snd a) k = Some v \<Longrightarrow> first_of (snd (snd (lsm_spec_step writable x a))) k = Some v"
  by (cases a; cases x) (auto simp: lsm_spec_step_def spec_put_def Let_def first_of_append)

lemma run_spec_keeps_flushed:
  "first_of (snd a) k = Some v \<Longrightarrow> first_of (snd (snd (run_spec (lsm_spec_step writable) ops a))) k = Some v"
proof (induction ops arbitrary: a)
  case Nil
  then show ?case by simp
next
  case (Cons x ops)
  then show ?case using spec_step_keeps_flushed [OF Cons.prems, of writable x] by (simp add: split_beta)
qed

lemma run_spec_append:
  "run_spec step (xs @ ys) a =
     (let (rs, a1) = run_spec step xs a; (rs', a2) = run_spec step ys a1 in (rs @ rs', a2))"
  by (induction xs arbitrary: a) (auto simp: split_beta Let_def)

text \<open>
  So a flushed key cannot be deleted, and cannot be overwritten for longer than the new value stays in memory: after any
  legal operations, a \<open>get\<close> right after a \<open>del\<close> returns the value of the table that was flushed first.\<close>

lemma flushed_value_returns:
  assumes rel: "lsm_rel db (m, ts)" and old: "first_of ts k = Some v" and legal: "list_all lsm_legal ops"
  shows "\<exists>rs db'. run_machine (lsm_step writable) (ops @ [LDel k, LGet k]) db = Some (rs @ [None, Some (Some v)], db')"
proof -
  have all: "list_all lsm_legal (ops @ [LDel k, LGet k])" using legal by (simp add: lsm_legal_def)
  obtain rs m1 ts1 where run: "run_spec (lsm_spec_step writable) ops (m, ts) = (rs, m1, ts1)" by (metis prod_cases3)
  have "first_of ts1 k = Some v" using run_spec_keeps_flushed [of "(m, ts)" k v writable ops] old run by simp
  then have "fst (run_spec (lsm_spec_step writable) (ops @ [LDel k, LGet k]) (m, ts)) = rs @ [None, Some (Some v)]"
    using run by (simp add: run_spec_append lsm_spec_step_def)
  then show ?thesis using lsm.run_sim_all [OF _ rel, of "ops @ [LDel k, LGet k]" writable] all by (auto simp: list_all_iff)
qed

text \<open>An empty value is lost by the flush: its line has nothing after the colon.\<close>

lemma empty_value_unreadable: "CHR '':'' \<notin> set k \<Longrightarrow> parse_line (k @ '':'') = None"
  by (auto simp: parse_line_def dropWhile_append split: list.splits)

text \<open>Keys that are put once are found, whether they are in memory or flushed.\<close>

definition spec_agrees :: "table \<times> table list \<Rightarrow> table \<Rightarrow> bool" where
  "spec_agrees a g \<longleftrightarrow> first_of (fst a # snd a) = g \<and> (\<forall>k. fst a k \<noteq> None \<longrightarrow> first_of (snd a) k = None)"

lemma spec_put_agrees:
  "spec_agrees a g \<Longrightarrow> g k = None \<Longrightarrow> spec_agrees (spec_put writable k v a) (g(k \<mapsto> v))"
proof -
  assume agr: "spec_agrees a g" and new: "g k = None"
  obtain m ts where a: "a = (m, ts)" by (cases a)
  have view: "first_of (m # ts) q = g q" and sep: "m q \<noteq> None \<Longrightarrow> first_of ts q = None" for q
    using agr by (auto simp: spec_agrees_def a)
  have k: "m k = None" "first_of ts k = None" using view [of k] new by (auto split: option.splits)
  have flushed: "first_of (ts @ [m(k \<mapsto> v)]) q = (g(k \<mapsto> v)) q" for q
  proof (cases "q = k")
    case True
    then show ?thesis using k by (simp add: first_of_append)
  next
    case False
    show ?thesis
    proof (cases "m q")
      case None
      then show ?thesis using False view [of q] by (simp add: first_of_append split: option.splits)
    next
      case (Some w)
      then have "first_of ts q = None" using sep [of q] by blast
      moreover have "g q = Some w" using view [of q] Some by simp
      ultimately show ?thesis using False Some by (simp add: first_of_append)
    qed
  qed
  have kept: "first_of (m(k \<mapsto> v) # ts) q = (g(k \<mapsto> v)) q" for q
    using view [of q] by auto
  have sep': "(m(k \<mapsto> v)) q \<noteq> None \<Longrightarrow> first_of ts q = None" for q
    using sep [of q] k by (auto split: if_splits)
  show ?thesis
    using flushed kept sep' by (auto simp: spec_agrees_def spec_put_def Let_def a fun_eq_iff simp del: first_of.simps(2))
      (simp_all add: first_of.simps(2))
qed

lemma distinct_puts_readable:
  assumes "distinct (map fst es)" and "list_all clean_entry es"
  shows "lsm_get k (fold (\<lambda>(k, v). lsm_put writable k v) es lsm_construct) = map_of es k"
proof -
  have "\<exists>a. lsm_rel (fold (\<lambda>(k, v). lsm_put writable k v) es lsm_construct) a \<and> spec_agrees a (map_of es)"
    using assms
  proof (induction es rule: rev_induct)
    case Nil
    then show ?case using lsm_construct_rel by (force simp: spec_agrees_def)
  next
    case (snoc e es)
    obtain q v where e: "e = (q, v)" by (cases e)
    obtain a where a: "lsm_rel (fold (\<lambda>(k, v). lsm_put writable k v) es lsm_construct) a" "spec_agrees a (map_of es)"
      using snoc by auto
    have "map_of es q = None" using snoc.prems(1) by (auto simp: e map_of_eq_None_iff)
    moreover from this have "map_of (es @ [e]) = (map_of es)(q \<mapsto> v)"
      by (auto simp: e fun_eq_iff map_add_def split: option.splits)
    ultimately have "spec_agrees (spec_put writable q v a) (map_of (es @ [e]))"
      using spec_put_agrees [OF a(2), of q writable v] by simp
    moreover have "lsm_rel (fold (\<lambda>(k, v). lsm_put writable k v) (es @ [e]) lsm_construct) (spec_put writable q v a)"
      using lsm_put_sim [OF a(1), of q v writable] snoc.prems(2) by (simp add: e)
    ultimately show ?case by blast
  qed
  then obtain m ts where a: "lsm_rel (fold (\<lambda>(k, v). lsm_put writable k v) es lsm_construct) (m, ts)"
      "spec_agrees (m, ts) (map_of es)" by auto
  have "\<exists>db'. lsm_step writable (LGet k) (fold (\<lambda>(k, v). lsm_put writable k v) es lsm_construct) =
      Some (Some (map_of es k), db')"
    using lsm_step_sim [OF _ a(1), of "LGet k" writable] a(2)
    by (auto simp: lsm_legal_def lsm_spec_step_def spec_agrees_def simp del: first_of.simps(2))
  then show ?thesis by (auto simp: lsm_step_def)
qed

section \<open>The program\<close>

definition lsm_main :: "(string \<Rightarrow> bool) \<Rightarrow> string" where
  "lsm_main writable =
     (let db = lsm_put writable ''key2'' ''value2'' (lsm_put writable ''key1'' ''value1'' lsm_construct)
      in case lsm_get ''key1'' db of Some val \<Rightarrow> ''key1: '' @ val | None \<Rightarrow> ''key1 not found.'')"

lemma lsm_main_prints: "lsm_main writable = ''key1: value1''"
  by (simp add: lsm_main_def lsm_put_def lsm_get_def lsm_construct_def mem_get_def Let_def)

end
