(* ===== verification/EliasFano.thy ===== *)
theory EliasFano
  imports Prelude "HOL-Library.Word"
begin

unbundle bit_operations_syntax

text \<open>
  The posting-list codecs of \<open>Partitioned-Elias-Fano.cpp\<close>: the fixed-width code with exceptions (PForDelta), and the
  Elias-Fano code of one partition with its scalar and its vectorised decoder.

  \<open>uint32_t\<close> and \<open>uint16_t\<close> are words of their width.  An access outside a vector, an empty block and a vector of negative
  size are \<^const>\<open>None\<close>.  An AVX2 register is the list of its eight lanes.  The number of low bits,
  \<open>max(1, (int)floor(log2((double)u / n)))\<close>, is computed on integers: for \<open>u\<close> at least \<open>n\<close> the logarithm of the quotient and
  of its integer part have the same floor, for a smaller positive \<open>u\<close> it is negative and the maximum is 1, and for \<open>u = 0\<close> the logarithm is
  minus infinity, whose conversion to \<open>int\<close> is undefined: \<^const>\<open>None\<close> again.
\<close>

type_synonym uint32 = "32 word"
type_synonym uint16 = "16 word"

section \<open>PForDelta\<close>

definition pfd_mask :: "nat \<Rightarrow> uint32" where
  "pfd_mask bit_width = push_bit bit_width 1 - 1"

definition pfordelta_encode :: "uint32 list \<Rightarrow> nat \<Rightarrow> uint16 list \<times> uint16 list" where
  "pfordelta_encode deltas bit_width =
     (map (\<lambda>d. if d \<le> pfd_mask bit_width then ucast d else 0) deltas,
      map (\<lambda>d. if d \<le> pfd_mask bit_width then 0 else ucast d) deltas)"

definition pfordelta_decode :: "uint16 list \<Rightarrow> uint16 list \<Rightarrow> uint32 list option" where
  "pfordelta_decode main_bits exceptions =
     (if length exceptions < length main_bits then None
      else Some (map (\<lambda>i. if exceptions ! i \<noteq> 0 then ucast (exceptions ! i) else ucast (main_bits ! i))
                  [0..<length main_bits]))"

text \<open>The gaps between consecutive document ids, as \<open>main\<close> computes them.\<close>

fun gaps :: "uint32 \<Rightarrow> uint32 list \<Rightarrow> uint32 list" where
  "gaps prev [] = []"
| "gaps prev (d # ds) = (d - prev) # gaps d ds"

section \<open>Elias-Fano\<close>

record ef_block =
  ef_low :: "uint32 list"
  ef_high :: "8 word list"
  ef_l :: nat

fun floor_log2 :: "nat \<Rightarrow> nat" where
  "floor_log2 q = (if q < 2 then 0 else Suc (floor_log2 (q div 2)))"

declare floor_log2.simps [simp del]

definition low_width :: "nat \<Rightarrow> nat \<Rightarrow> nat" where
  "low_width u n = max 1 (if u < n then 0 else floor_log2 (u div n))"

definition ef_low_width :: "nat \<Rightarrow> nat \<Rightarrow> nat option" where
  "ef_low_width u n = (if u = 0 then None else Some (low_width u n))"

definition ef_set_bits :: "nat list \<Rightarrow> 8 word list \<Rightarrow> 8 word list option" where
  "ef_set_bits ps bits =
     fold (\<lambda>p r. case r of None \<Rightarrow> None | Some bs \<Rightarrow> if p < length bs then Some (bs[p := 1]) else None) ps (Some bits)"

definition ef_encode :: "uint32 list \<Rightarrow> ef_block option" where
  "ef_encode block =
     (if block = [] then None
      else
        let n = length block
        in case ef_low_width (unat (last block)) n of
             None \<Rightarrow> None
           | Some l \<Rightarrow>
               (let mask32 = push_bit l 1 - 1;
                    low = map (\<lambda>b. b AND mask32) block;
                    highs = map (drop_bit l) block;
                    size = sint (last highs + of_nat n)
                in if size < 0 then None
                   else
                     (case ef_set_bits (map (\<lambda>i. unat (highs ! i + of_nat i)) [0..<n]) (replicate (nat size) 0) of
                        None \<Rightarrow> None
                      | Some bits \<Rightarrow> Some \<lparr>ef_low = low, ef_high = bits, ef_l = l\<rparr>)))"

fun ef_scan :: "nat \<Rightarrow> uint32 list \<Rightarrow> nat \<Rightarrow> nat \<Rightarrow> 8 word list \<Rightarrow> uint32 list" where
  "ef_scan l low i count [] = []"
| "ef_scan l low i count (b # bs) =
     (if count < length low
      then if b \<noteq> 0
           then (push_bit l (of_int (int i - int count)) OR low ! count) # ef_scan l low (Suc i) (Suc count) bs
           else ef_scan l low (Suc i) count bs
      else [])"

definition ef_decode_scalar :: "ef_block \<Rightarrow> uint32 list" where
  "ef_decode_scalar blk = ef_scan (ef_l blk) (ef_low blk) 0 0 (ef_high blk)"

subsection \<open>The vectorised decoder\<close>

definition mm256_sub_epi32 :: "uint32 list \<Rightarrow> uint32 list \<Rightarrow> uint32 list" where
  "mm256_sub_epi32 a b = map2 (-) a b"

definition mm256_slli_epi32 :: "uint32 list \<Rightarrow> nat \<Rightarrow> uint32 list" where
  "mm256_slli_epi32 a c = map (\<lambda>x. if c > 31 then 0 else push_bit c x) a"

definition mm256_or_si256 :: "uint32 list \<Rightarrow> uint32 list \<Rightarrow> uint32 list" where
  "mm256_or_si256 a b = map2 (OR) a b"

definition ef_positions :: "8 word list \<Rightarrow> uint32 list" where
  "ef_positions bits = map of_nat (filter (\<lambda>i. bits ! i \<noteq> 0) [0..<length bits])"

definition simd_lanes :: "nat \<Rightarrow> uint32 list \<Rightarrow> uint32 list \<Rightarrow> nat \<Rightarrow> uint32 list" where
  "simd_lanes l positions low k =
     (let pos = take 8 (drop k positions);
          idx = map of_nat [k..<k + 8];
          highs = mm256_sub_epi32 pos idx;
          lows = take 8 (drop k low);
          shifted = mm256_slli_epi32 highs l
      in mm256_or_si256 shifted lows)"

function simd_loop :: "nat \<Rightarrow> uint32 list \<Rightarrow> uint32 list \<Rightarrow> nat \<Rightarrow> uint32 list" where
  "simd_loop l positions low k =
     (if k + 8 \<le> length low then simd_lanes l positions low k @ simd_loop l positions low (k + 8)
      else map (\<lambda>j. push_bit l (positions ! j - of_nat j) OR low ! j) [k..<length low])"
  by auto

termination
  by (relation "measure (\<lambda>(l, positions, low, k). length low - k)") auto

declare simd_loop.simps [simp del]

definition ef_decode_simd :: "ef_block \<Rightarrow> uint32 list option" where
  "ef_decode_simd blk =
     (let positions = ef_positions (ef_high blk)
      in if length positions < length (ef_low blk) then None
         else Some (simd_loop (ef_l blk) positions (ef_low blk) 0))"

subsection \<open>Partitions\<close>

text \<open>
  The part of \<open>main\<close> that cuts the ids into blocks of \<open>B\<close>, encodes each, and concatenates the decoded blocks.  With blocks of no ids the
  loop would not end; \<^const>\<open>None\<close> stands for that, too.
\<close>

function ef_partition :: "nat \<Rightarrow> uint32 list \<Rightarrow> nat \<Rightarrow> ef_block list option" where
  "ef_partition B doc_ids i =
     (if length doc_ids \<le> i then Some []
      else if B = 0 then None
      else
        (case ef_encode (take (min (length doc_ids) (i + B) - i) (drop i doc_ids)) of
           None \<Rightarrow> None
         | Some blk \<Rightarrow> map_option ((#) blk) (ef_partition B doc_ids (i + B))))"
  by auto

termination
  by (relation "measure (\<lambda>(B, doc_ids, i). length doc_ids - i)") auto

declare ef_partition.simps [simp del]

fun ef_decode_blocks :: "ef_block list \<Rightarrow> uint32 list option" where
  "ef_decode_blocks [] = Some []"
| "ef_decode_blocks (blk # blocks) =
     (case ef_decode_simd blk of None \<Rightarrow> None | Some part \<Rightarrow> map_option ((@) part) (ef_decode_blocks blocks))"

definition posting_main :: "(uint32 list \<times> uint32 list) option" where
  "posting_main =
     (let doc_ids = [3, 10, 27, 28, 55, 120, 121, 300];
          deltas = hd doc_ids # gaps (hd doc_ids) (tl doc_ids);
          (mb, ex) = pfordelta_encode deltas 6
      in case pfordelta_decode mb ex of
           None \<Rightarrow> None
         | Some pfd_out \<Rightarrow> map_option (Pair pfd_out) (case ef_partition 4 doc_ids 0 of None \<Rightarrow> None | Some blocks \<Rightarrow> ef_decode_blocks blocks))"

section \<open>PForDelta round trip\<close>

lemma pfd_mask_eq: "pfd_mask w = mask w"
  by (simp add: pfd_mask_def mask_eq_exp_minus_1 push_bit_of_1)

lemma pfd_mask_bound:
  assumes "w \<le> 16" and "d \<le> pfd_mask w"
  shows "uint d < 2 ^ 16"
proof -
  have "uint (pfd_mask w) < 2 ^ w" using assms(1) by (simp add: pfd_mask_eq uint_mask_eq mask_int_def)
  also have "(2::int) ^ w \<le> 2 ^ 16" using assms(1) by (rule power_increasing) simp
  finally show ?thesis using assms(2) by (simp add: word_le_def)
qed

lemma ucast_16_32: "(ucast (ucast d :: uint16) :: uint32) = d \<longleftrightarrow> uint d < 2 ^ 16" for d :: uint32
  using mask_eq_iff [of d 16] by (simp add: word_eq_iff_unsigned unsigned_ucast_eq take_bit_eq_mask)

lemma pfd_entry:
  assumes "w \<le> 16"
  defines "m \<equiv> (\<lambda>d. if d \<le> pfd_mask w then ucast d else 0 :: uint16)"
    and "x \<equiv> (\<lambda>d. if d \<le> pfd_mask w then 0 else ucast d :: uint16)"
  shows "(if x d \<noteq> 0 then ucast (x d) else ucast (m d) :: uint32) = d \<longleftrightarrow> uint d < 2 ^ 16"
proof (cases "d \<le> pfd_mask w")
  case True
  then show ?thesis using pfd_mask_bound [OF assms(1) True] ucast_16_32 [of d] by (simp add: m_def x_def)
next
  case False
  then have "d \<noteq> 0" by auto
  then show ?thesis using False ucast_16_32 [of d] by (auto simp: m_def x_def)
qed

section \<open>Decoding\<close>

definition bit_positions :: "nat \<Rightarrow> 8 word list \<Rightarrow> nat list" where
  "bit_positions i bits = map fst (filter (\<lambda>(_, b). b \<noteq> 0) (enumerate i bits))"

lemma bit_positions_simps [simp]:
  "bit_positions i [] = []"
  "bit_positions i (b # bs) = (if b \<noteq> 0 then i # bit_positions (Suc i) bs else bit_positions (Suc i) bs)"
  by (simp_all add: bit_positions_def)

lemma bit_positions_filter: "bit_positions 0 bits = filter (\<lambda>i. bits ! i \<noteq> 0) [0..<length bits]"
proof -
  have "filter (\<lambda>i. bits ! i \<noteq> 0) (map fst (enumerate 0 bits)) = bit_positions 0 bits"
    unfolding bit_positions_def filter_map comp_def
    by (rule arg_cong [where f = "map fst"], rule filter_cong) (auto simp: in_set_enumerate_eq)
  then show ?thesis by (simp add: map_fst_enumerate)
qed

text \<open>The value both decoders build from the position of the \<open>k\<close>-th set bit.\<close>

definition ef_value :: "nat \<Rightarrow> uint32 list \<Rightarrow> nat list \<Rightarrow> nat \<Rightarrow> uint32" where
  "ef_value l low ps k = (push_bit l (of_nat (ps ! k) - of_nat k) OR low ! k)"

lemma ef_scan_positions:
  "ef_scan l low i count bits =
     map (\<lambda>j. push_bit l (of_nat (bit_positions i bits ! j) - of_nat (count + j)) OR low ! (count + j))
       [0..<min (length low - count) (length (bit_positions i bits))]"
proof (induction bits arbitrary: i count)
  case Nil
  show ?case by simp
next
  case (Cons b bs)
  show ?case
  proof (cases "count < length low \<and> b \<noteq> 0")
    case True
    then have "min (length low - count) (length (bit_positions i (b # bs))) =
        Suc (min (length low - Suc count) (length (bit_positions (Suc i) bs)))" by auto
    then show ?thesis using True Cons.IH [of "Suc i" "Suc count"]
      by (simp add: upt_conv_Cons map_Suc_upt [symmetric] comp_def add.left_commute del: upt_Suc)
  next
    case False
    then show ?thesis using Cons.IH [of "Suc i" count] by auto
  qed
qed

lemma ef_decode_scalar_eq:
  "ef_decode_scalar blk =
     map (ef_value (ef_l blk) (ef_low blk) (bit_positions 0 (ef_high blk)))
       [0..<min (length (ef_low blk)) (length (bit_positions 0 (ef_high blk)))]"
  by (simp add: ef_decode_scalar_def ef_scan_positions ef_value_def)

lemma simd_lanes_eq:
  assumes "k + 8 \<le> length low" and "length low \<le> length ps" and "l < 32"
  shows "simd_lanes l (map of_nat ps) low k = map (ef_value l low ps) [k..<k + 8]"
proof (rule nth_equalityI)
  show "length (simd_lanes l (map of_nat ps) low k) = length (map (ef_value l low ps) [k..<k + 8])"
    using assms by (simp add: simd_lanes_def Let_def mm256_or_si256_def mm256_slli_epi32_def mm256_sub_epi32_def)
  fix i assume "i < length (simd_lanes l (map of_nat ps) low k)"
  then have "i < 8" using assms by (simp add: simd_lanes_def Let_def mm256_or_si256_def mm256_slli_epi32_def mm256_sub_epi32_def)
  then show "simd_lanes l (map of_nat ps) low k ! i = map (ef_value l low ps) [k..<k + 8] ! i"
    using assms
    by (simp add: simd_lanes_def Let_def mm256_or_si256_def mm256_slli_epi32_def mm256_sub_epi32_def ef_value_def del: upt_Suc)
qed

lemma simd_loop_eq:
  assumes "length low \<le> length ps" and "l < 32" and "k \<le> length low"
  shows "simd_loop l (map of_nat ps) low k = map (ef_value l low ps) [k..<length low]"
  using assms(3)
proof (induction "length low - k" arbitrary: k rule: less_induct)
  case less
  show ?case
  proof (cases "k + 8 \<le> length low")
    case True
    have "simd_loop l (map of_nat ps) low (k + 8) = map (ef_value l low ps) [k + 8..<length low]"
      using True by (intro less) auto
    moreover have "[k..<length low] = [k..<k + 8] @ [k + 8..<length low]"
      using True upt_add_eq_append [of k "k + 8" "length low - (k + 8)"] by simp
    ultimately show ?thesis using True simd_lanes_eq [OF True assms(1,2)]
      by (subst simd_loop.simps) simp
  next
    case False
    then show ?thesis using assms(1) by (subst simd_loop.simps) (simp add: ef_value_def)
  qed
qed

lemma ef_decoders_agree:
  assumes "ef_l blk < 32" and "length (ef_low blk) \<le> length (bit_positions 0 (ef_high blk))"
  shows "ef_decode_simd blk = Some (ef_decode_scalar blk)"
proof -
  have ps: "ef_positions (ef_high blk) = map of_nat (bit_positions 0 (ef_high blk))"
    by (simp add: ef_positions_def bit_positions_filter)
  show ?thesis
    using simd_loop_eq [OF assms(2,1), of 0] assms(2)
    by (simp add: ef_decode_simd_def Let_def ps ef_decode_scalar_eq min_absorb1)
qed

section \<open>Encoding\<close>

lemma floor_log2_bounds: "0 < q \<Longrightarrow> 2 ^ floor_log2 q \<le> q \<and> q < 2 ^ Suc (floor_log2 q)"
proof (induction q rule: floor_log2.induct)
  case (1 q)
  show ?case
  proof (cases "q < 2")
    case True
    then show ?thesis using "1.prems" by (simp add: floor_log2.simps [of q])
  next
    case False
    then have "2 ^ floor_log2 (q div 2) \<le> q div 2 \<and> q div 2 < 2 ^ Suc (floor_log2 (q div 2))"
      using "1.IH" by simp
    then show ?thesis using False by (subst (1 2) floor_log2.simps) auto
  qed
qed

text \<open>The width leaves fewer than \<open>2 * n\<close> possible high parts, and is a valid shift.\<close>

lemma low_width_bounds:
  assumes "0 < n" and "u < 2 ^ 32"
  shows "1 \<le> low_width u n" and "low_width u n < 32" and "u div 2 ^ low_width u n < 2 * n"
proof -
  show "1 \<le> low_width u n" by (simp add: low_width_def)
  show "low_width u n < 32"
  proof (cases "u < n")
    case False
    then have "0 < u div n" using assms(1) by (simp add: div_greater_zero_iff)
    then have "(2::nat) ^ floor_log2 (u div n) \<le> u div n" using floor_log2_bounds by blast
    also have "\<dots> < 2 ^ 32" using assms(2) by (metis div_le_dividend le_less_trans)
    finally have "floor_log2 (u div n) < 32" by (rule power_less_imp_less_exp [rotated]) simp
    then show ?thesis by (simp add: low_width_def False)
  qed (simp add: low_width_def)
  show "u div 2 ^ low_width u n < 2 * n"
  proof (cases "u < n \<or> floor_log2 (u div n) = 0")
    case True
    have "u < 2 * n"
    proof (cases "u < n")
      case False
      then have "0 < u div n" using assms(1) by (simp add: div_greater_zero_iff)
      then have "u div n < 2" using floor_log2_bounds [of "u div n"] False True by simp
      then show ?thesis using assms(1) by (simp add: div_less_iff_less_mult)
    qed simp
    moreover have "u div 2 ^ low_width u n \<le> u" by (rule div_le_dividend)
    ultimately show ?thesis by linarith
  next
    case False
    define f where "f = floor_log2 (u div n)"
    have "0 < u div n" using False assms(1) by (simp add: div_greater_zero_iff)
    then have "u div n < 2 ^ Suc f" using floor_log2_bounds [of "u div n"] by (simp add: f_def)
    then have "u < 2 ^ Suc f * n" using assms(1) by (simp add: div_less_iff_less_mult)
    then have "u div 2 ^ f < 2 * n" by (simp add: div_less_iff_less_mult ac_simps)
    moreover have "low_width u n = f" using False by (simp add: low_width_def f_def)
    ultimately show ?thesis by simp
  qed
qed

lemma ef_set_bits_ok:
  assumes "\<forall>p\<in>set ps. p < length bits"
  shows "\<exists>bits'. ef_set_bits ps bits = Some bits' \<and> length bits' = length bits \<and>
           (\<forall>i<length bits. bits' ! i = (if i \<in> set ps then 1 else bits ! i))"
  using assms
proof (induction ps rule: rev_induct)
  case Nil
  then show ?case by (simp add: ef_set_bits_def)
next
  case (snoc p ps)
  then obtain bits' where b: "ef_set_bits ps bits = Some bits'" "length bits' = length bits"
      "\<forall>i<length bits. bits' ! i = (if i \<in> set ps then 1 else bits ! i)" by auto
  then show ?case using snoc.prems
    by (intro exI [of _ "bits'[p := 1]"]) (simp add: ef_set_bits_def nth_list_update)
qed

text \<open>Setting strictly increasing positions of a zero vector gives them back.\<close>

lemma bit_positions_set_bits:
  assumes "sorted_wrt (<) ps" and "\<forall>p\<in>set ps. p < m"
  shows "\<exists>bits. ef_set_bits ps (replicate m 0) = Some bits \<and> length bits = m \<and> bit_positions 0 bits = ps"
proof -
  obtain bits where bits: "ef_set_bits ps (replicate m 0) = Some bits" "length bits = m"
      "\<forall>i<m. bits ! i = (if i \<in> set ps then 1 else 0)"
    using ef_set_bits_ok [of ps "replicate m 0"] assms(2) by auto
  have "bit_positions 0 bits = ps"
  proof (rule sorted_distinct_set_unique)
    show "sorted ps" "distinct ps" using assms(1) by (simp_all add: strict_sorted_iff)
    show "sorted (bit_positions 0 bits)" "distinct (bit_positions 0 bits)"
      by (simp_all add: bit_positions_filter sorted_wrt_filter)
    show "set (bit_positions 0 bits) = set ps"
      using bits(2,3) assms(2) by (auto simp: bit_positions_filter split: if_splits)
  qed
  then show ?thesis using bits(1,2) by blast
qed

lemma split_join: "push_bit l (drop_bit l b) OR (b AND (push_bit l 1 - 1)) = b" for b :: uint32
proof -
  have "push_bit l 1 - 1 = (mask l :: uint32)" by (simp add: mask_eq_exp_minus_1 push_bit_of_1)
  then show ?thesis by (auto intro!: bit_eqI simp: bit_simps)
qed

lemma ef_encode_spec:
  assumes ne: "block \<noteq> []" and sort: "sorted block" and len: "length block < 2 ^ 29" and nz: "last block \<noteq> 0"
  shows "\<exists>bits l. ef_encode block = Some \<lparr>ef_low = map (\<lambda>b. b AND (push_bit l 1 - 1)) block, ef_high = bits, ef_l = l\<rparr> \<and>
           1 \<le> l \<and> l < 32 \<and> length bits \<le> 3 * length block \<and>
           bit_positions 0 bits = map (\<lambda>i. unat (drop_bit l (block ! i)) + i) [0..<length block]"
proof -
  define n u where "n = length block" and "u = unat (last block)"
  define l where "l = low_width u n"
  define hi where "hi = (\<lambda>i. unat (drop_bit l (block ! i)))"
  have n: "0 < n" "n < 2 ^ 29" using ne len by (simp_all add: n_def)
  have u: "u \<noteq> 0" using nz by (simp add: u_def unat_eq_zero)
  have "u < 2 ^ 32" unfolding u_def using unsigned_less [of "last block"] by simp
  note l = low_width_bounds [OF n(1) this, folded l_def]
  have last: "last block = block ! (n - 1)" using ne by (simp add: last_conv_nth n_def)
  have hi_eq: "hi i = unat (block ! i) div 2 ^ l" for i 
    unfolding hi_def unat_drop_bit_eq by (rule drop_bit_eq_div)
  have mono: "hi i \<le> hi j" if "i \<le> j" "j < n" for i j
    using sorted_nth_mono [OF sort that(1)] that(2) by (simp add: hi_eq n_def div_le_mono word_le_nat_alt)
  have top: "hi (n - 1) < 2 * n" using l(3) by (simp add: hi_eq u_def last)
  have small: "hi i + j < 2 ^ 31" if "i < n" "j \<le> n" for i j
  proof -
    have "hi i \<le> hi (n - 1)" using mono [of i "n - 1"] that n(1) by linarith
    then show ?thesis using top that(2) n(2) by simp
  qed
  have pos: "unat (map (drop_bit l) block ! i + of_nat i) = hi i + i" if "i < n" for i
    using small [of i i] that by (simp add: hi_def n_def unat_word_ariths unat_of_nat)
  have size: "sint (last (map (drop_bit l) block) + of_nat n) = int (hi (n - 1) + n)"
  proof -
    have "unat (drop_bit l (last block) + of_nat n :: uint32) = hi (n - 1) + n"
      using small [of "n - 1" n] n by (simp add: hi_def last unat_word_ariths unat_of_nat)
    then have "uint (drop_bit l (last block) + of_nat n :: uint32) = int (hi (n - 1) + n)" by (metis uint_nat)
    then show ?thesis using small [of "n - 1" n] n ne
      by (simp add: last_map sint_uint signed_take_bit_int_eq_self)
  qed
  define ps where "ps = map (\<lambda>i. hi i + i) [0..<n]"
  have incr: "sorted_wrt (<) ps" unfolding ps_def sorted_wrt_map
    by (rule sorted_wrt_mono_rel [OF _ sorted_wrt_upt]) (simp, metis add_le_less_mono less_or_eq_imp_le mono)
  have "\<forall>p\<in>set ps. p < hi (n - 1) + n"
    using mono [of _ "n - 1"] by (auto simp: ps_def intro: add_le_less_mono)
  then obtain bits where bits: "ef_set_bits ps (replicate (hi (n - 1) + n) 0) = Some bits"
      "length bits = hi (n - 1) + n" "bit_positions 0 bits = ps"
    using bit_positions_set_bits [OF incr] by blast
  have "map (\<lambda>i. unat (map (drop_bit l) block ! i + of_nat i)) [0..<n] = ps"
    using pos by (auto simp: ps_def)
  then have "ef_encode block = Some \<lparr>ef_low = map (\<lambda>b. b AND (push_bit l 1 - 1)) block, ef_high = bits, ef_l = l\<rparr>"
    using ne u size bits(1)
    by (simp add: ef_encode_def ef_low_width_def Let_def n_def [symmetric] u_def [symmetric] l_def [symmetric] nat_add_distrib)
  then show ?thesis using l(1,2) top bits(2,3) by (auto simp: n_def ps_def hi_def)
qed

lemma ef_block_roundtrip:
  assumes "block \<noteq> []" and "sorted block" and "length block < 2 ^ 29" and "last block \<noteq> 0"
  obtains blk where "ef_encode block = Some blk" "ef_decode_scalar blk = block" "ef_decode_simd blk = Some block"
proof -
  obtain bits l where enc: "ef_encode block = Some \<lparr>ef_low = map (\<lambda>b. b AND (push_bit l 1 - 1)) block, ef_high = bits, ef_l = l\<rparr>"
      and l: "l < 32" and ps: "bit_positions 0 bits = map (\<lambda>i. unat (drop_bit l (block ! i)) + i) [0..<length block]"
    using ef_encode_spec [OF assms] by blast
  let ?blk = "\<lparr>ef_low = map (\<lambda>b. b AND (push_bit l 1 - 1)) block, ef_high = bits, ef_l = l\<rparr>"
  have "ef_value l (ef_low ?blk) (bit_positions 0 bits) i = block ! i" if "i < length block" for i
    using that split_join [of l "block ! i"] by (simp add: ef_value_def ps)
  then have "ef_decode_scalar ?blk = block"
    by (intro nth_equalityI) (simp_all add: ef_decode_scalar_eq ps)
  moreover have "ef_decode_simd ?blk = Some (ef_decode_scalar ?blk)"
    by (rule ef_decoders_agree) (simp_all add: l ps)
  ultimately show thesis using enc that by auto
qed

text \<open>
  Elias-Fano coding is lossless: a non-empty block of sorted document ids (fewer than \<open>2 ^ 29\<close> of them, the last not 0) is encoded, and
  both the scalar and the vectorised decoder return the block.\<close>

theorem ef_roundtrip:
  assumes "block \<noteq> []" and "sorted block" and "length block < 2 ^ 29" and "last block \<noteq> 0"
  shows "\<exists>blk. ef_encode block = Some blk \<and> ef_decode_scalar blk = block \<and> ef_decode_simd blk = Some block"
  using ef_block_roundtrip [OF assms] by blast

theorem ef_roundtrip_witness:
  "\<exists>blk. ef_encode [3, 10, 27, 28] = Some blk \<and> ef_decode_scalar blk = [3, 10, 27, 28] \<and>
     ef_decode_simd blk = Some [3, 10, 27, 28]"
  by (rule ef_roundtrip) simp_all

lemma div_block: "0 < B \<Longrightarrow> (x + B) div B = Suc (x div B)" for B :: nat
  using div_add_self2 [of B x] by simp

text \<open>In sorted ids the last id of a later block is not below that of the first, so only the first block can consist of zeros.\<close>

lemma block_last_nonzero:
  fixes doc_ids :: "uint32 list"
  assumes "sorted doc_ids" and "last (take B doc_ids) \<noteq> 0" and "0 < B" and "i < length doc_ids"
  shows "last (take (min (length doc_ids) (i + B) - i) (drop i doc_ids)) \<noteq> 0"
proof -
  let ?n = "length doc_ids"
  have "last (take B doc_ids) = doc_ids ! (min ?n B - 1)"
    using assms(3,4) by (subst last_conv_nth) auto
  moreover have "last (take (min ?n (i + B) - i) (drop i doc_ids)) = doc_ids ! (min ?n (i + B) - 1)"
  proof -
    have "take (min ?n (i + B) - i) (drop i doc_ids) \<noteq> []" using assms(3,4) by simp
    moreover have "length (take (min ?n (i + B) - i) (drop i doc_ids)) = min ?n (i + B) - i" by simp
    moreover have "i + (min ?n (i + B) - i - 1) = min ?n (i + B) - 1" "min ?n (i + B) - i - 1 < min ?n (i + B) - i" using assms(3,4) by auto
    ultimately show ?thesis using assms(4) by (subst last_conv_nth) simp_all
  qed
  moreover have "doc_ids ! (min ?n B - 1) \<le> doc_ids ! (min ?n (i + B) - 1)"
    using assms(3,4) by (intro sorted_nth_mono [OF assms(1)]) auto
  ultimately show ?thesis using assms(2) by (metis word_le_0_iff)
qed

lemma ef_partition_roundtrip:
  assumes "sorted doc_ids" and "0 < B" and "B < 2 ^ 29" and "doc_ids \<noteq> [] \<longrightarrow> last (take B doc_ids) \<noteq> 0"
  shows "\<exists>blocks. ef_partition B doc_ids i = Some blocks \<and> length blocks = (length doc_ids - i + B - 1) div B \<and>
    ef_decode_blocks blocks = Some (drop i doc_ids)"
  using assms
proof (induction B doc_ids i rule: ef_partition.induct)
  case (1 B doc_ids i)
  show ?case
  proof (cases "length doc_ids \<le> i")
    case True
    then show ?thesis using "1.prems"(2) by (subst ef_partition.simps) simp
  next
    case False
    let ?block = "take (min (length doc_ids) (i + B) - i) (drop i doc_ids)"
    have "?block \<noteq> []" "sorted ?block" "length ?block < 2 ^ 29"
      using False "1.prems" by (auto simp: min_def intro: sorted_wrt_take sorted_wrt_drop)
    moreover have "last ?block \<noteq> 0"
      using block_last_nonzero [OF "1.prems"(1) _ "1.prems"(2), of i] "1.prems"(4) False by fastforce
    ultimately obtain blk where blk: "ef_encode ?block = Some blk" "ef_decode_simd blk = Some ?block" by (rule ef_block_roundtrip)
    have "B \<noteq> 0" using "1.prems"(2) by simp
    from "1.IH" [OF False this blk(1) "1.prems"] obtain blocks where rest: "ef_partition B doc_ids (i + B) = Some blocks"
      "length blocks = (length doc_ids - (i + B) + B - 1) div B" "ef_decode_blocks blocks = Some (drop (i + B) doc_ids)" by blast
    have "?block @ drop (i + B) doc_ids = drop i doc_ids"
      using append_take_drop_id [of B "drop i doc_ids"] by (cases "i + B \<le> length doc_ids") (simp_all add: min_def add.commute)
    moreover have "(length doc_ids - i + B - 1) div B = Suc ((length doc_ids - (i + B) + B - 1) div B)"
    proof (cases "i + B \<le> length doc_ids")
      case True
      then have "length doc_ids - i + B - 1 = (length doc_ids - (i + B) + B - 1) + B" using \<open>B \<noteq> 0\<close> by simp
      then show ?thesis using div_block [OF "1.prems"(2)] by (simp only:)
    next
      case F: False
      then have "length doc_ids - i + B - 1 = (length doc_ids - i - 1) + B" "length doc_ids - i - 1 < B" using False by simp_all
      then show ?thesis using F div_block [OF "1.prems"(2), of "length doc_ids - i - 1"] "1.prems"(2) by (simp only:) simp
    qed
    ultimately show ?thesis using False \<open>B \<noteq> 0\<close> blk rest by (subst ef_partition.simps) simp
  qed
qed

text \<open>
  C27: Partitioned Elias-Fano coding is lossless: sorted document ids whose first block does not end in the id 0, cut into blocks of a size that is
  positive and below \<open>2 ^ 29\<close>, are encoded in the expected number of blocks, and the vectorised decoder gives back all ids in their order.  A first block
  that ends in 0 is the exception: the conversion of its logarithm is undefined.\<close>

theorem pef_roundtrip:
  assumes "sorted doc_ids" and "doc_ids \<noteq> []" and "0 < B" and "B < 2 ^ 29"
  shows "if last (take B doc_ids) = 0 then ef_partition B doc_ids 0 = None
         else \<exists>blocks. ef_partition B doc_ids 0 = Some blocks \<and> length blocks = (length doc_ids + B - 1) div B \<and>
                ef_decode_blocks blocks = Some doc_ids"
proof (cases "last (take B doc_ids) = 0")
  case True
  have "take (min (length doc_ids) B) doc_ids = take B doc_ids" by (simp add: min_def)
  then show ?thesis using True assms(2,3) by (subst ef_partition.simps) (simp add: ef_encode_def ef_low_width_def)
next
  case False
  then show ?thesis using ef_partition_roundtrip [OF assms(1,3,4), of 0] by simp
qed

theorem pef_roundtrip_witness:
  "ef_partition 2 [0, 0, 27, 28] 0 = None \<and>
   (\<exists>blocks. ef_partition 3 [0, 10, 27, 28] 0 = Some blocks \<and> length blocks = 2 \<and> ef_decode_blocks blocks = Some [0, 10, 27, 28])"
  using pef_roundtrip [of "[0, 0, 27, 28]" 2] pef_roundtrip [of "[0, 10, 27, 28]" 3] by simp

text \<open>
  The program prints the differences of its ids as decoded from the fixed-width code, and its ids as decoded from the partitions.\<close>

theorem posting_main_prints: "posting_main = Some ([3, 7, 17, 1, 27, 65, 1, 179], [3, 10, 27, 28, 55, 120, 121, 300])"
proof -
  obtain blocks where "ef_partition 4 [3, 10, 27, 28, 55, 120, 121, 300] 0 = Some blocks"
    "ef_decode_blocks blocks = Some [3, 10, 27, 28, 55, 120, 121, 300]"
    using ef_partition_roundtrip [of "[3, 10, 27, 28, 55, 120, 121, 300]" 4 0] by auto
  moreover have "pfordelta_decode (fst (pfordelta_encode [3, 7, 17, 1, 27, 65, 1, 179] 6)) (snd (pfordelta_encode [3, 7, 17, 1, 27, 65, 1, 179] 6)) =
      Some [3, 7, 17, 1, 27, 65, 1, 179]" by code_simp
  ultimately show ?thesis by (simp add: posting_main_def split_beta)
qed

text \<open>
  The vectorised decoder agrees with the scalar one on every block with a valid shift and at least as many set bits as
  low parts, however many lanes are left over after the last full register.\<close>

theorem ef_simd_equivalent:
  assumes "ef_l blk < 32" and "length (ef_low blk) \<le> length (filter (\<lambda>i. ef_high blk ! i \<noteq> 0) [0..<length (ef_high blk)])"
  shows "ef_decode_simd blk = Some (ef_decode_scalar blk)"
  using ef_decoders_agree [OF assms(1)] assms(2) by (simp add: bit_positions_filter)

theorem ef_simd_equivalent_witness:
  "ef_decode_simd \<lparr>ef_low = [3, 2, 3, 0], ef_high = [1, 0, 0, 1, 1], ef_l = 2\<rparr> = None \<and>
   ef_decode_simd \<lparr>ef_low = [3, 2, 3], ef_high = [1, 0, 0, 1, 1], ef_l = 2\<rparr> =
     Some (ef_decode_scalar \<lparr>ef_low = [3, 2, 3], ef_high = [1, 0, 0, 1, 1], ef_l = 2\<rparr>)"
  using ef_simd_equivalent [of "\<lparr>ef_low = [3, 2, 3], ef_high = [1, 0, 0, 1, 1], ef_l = 2\<rparr>"]
  by (simp add: ef_decode_simd_def ef_positions_def upt_rec)

text \<open>
  The bitmap of the high parts has at most three entries per document id, so its size, an \<open>int\<close>, does not overflow.\<close>

theorem ef_high_bits_bound:
  assumes "block \<noteq> []" and "sorted block" and "length block < 2 ^ 29" and "last block \<noteq> 0"
  shows "\<exists>blk. ef_encode block = Some blk \<and> length (ef_high blk) \<le> 3 * length block \<and> 1 \<le> ef_l blk \<and> ef_l blk < 32"
  using ef_encode_spec [OF assms] by fastforce

theorem ef_high_bits_bound_witness:
  "\<exists>blk. ef_encode [3, 10, 27, 28] = Some blk \<and> length (ef_high blk) \<le> 3 * length [3 :: uint32, 10, 27, 28] \<and>
     1 \<le> ef_l blk \<and> ef_l blk < 32"
  by (rule ef_high_bits_bound) simp_all

text \<open>
  The fixed-width code with exceptions returns the encoded values exactly when all of them fit in sixteen bits:
  exceptions are stored in sixteen bits, so a larger value is truncated.\<close>

theorem pfordelta_roundtrip:
  assumes "bit_width \<le> 16"
  shows "pfordelta_decode (fst (pfordelta_encode deltas bit_width)) (snd (pfordelta_encode deltas bit_width)) = Some deltas
           \<longleftrightarrow> list_all (\<lambda>d. uint d < 2 ^ 16) deltas"
proof -
  let ?f = "\<lambda>d. if (if d \<le> pfd_mask bit_width then 0 else ucast d :: uint16) \<noteq> 0
                then ucast (if d \<le> pfd_mask bit_width then 0 else ucast d :: uint16)
                else ucast (if d \<le> pfd_mask bit_width then ucast d else 0 :: uint16) :: uint32"
  have "pfordelta_decode (fst (pfordelta_encode deltas bit_width)) (snd (pfordelta_encode deltas bit_width)) =
      Some (map ?f deltas)"
    unfolding pfordelta_decode_def pfordelta_encode_def by (auto intro!: nth_equalityI)
  moreover have "map ?f deltas = deltas \<longleftrightarrow> list_all (\<lambda>d. ?f d = d) deltas"
    by (induction deltas) auto
  ultimately show ?thesis unfolding pfd_entry [OF assms] by simp
qed

theorem pfordelta_roundtrip_witness:
  "pfordelta_decode (fst (pfordelta_encode [3, 7, 179] 6)) (snd (pfordelta_encode [3, 7, 179] 6)) = Some [3, 7, 179] \<longleftrightarrow>
     list_all (\<lambda>d. uint d < 2 ^ 16) [3, 7, 179 :: uint32]"
  by (rule pfordelta_roundtrip) simp

end
