(* ===== verification/TypeLists.thy ===== *)
theory TypeLists
  imports Prelude "HOL-Library.Multiset"
begin

text \<open>
  The compile-time list library of \<open>recipes/Typelist.hpp\<close>.  A \<open>TypeList\<close> is a list, a class template of one or two
  parameters is a function, a template with a boolean \<open>value\<close> is a predicate, and each partial specialisation is an
  equation.  The type \<open>Nil\<close> that \<open>FindBy\<close> returns when nothing is found is \<^const>\<open>None\<close>.  Every metafunction is related to
  the list function it computes; \<open>Sort\<close> is shown to produce a linear extension of any strict partial order.
\<close>

section \<open>Metafunctions\<close>

definition tl_append :: "'a list \<Rightarrow> 'a list \<Rightarrow> 'a list" where
  "tl_append ts us = ts @ us"

definition tl_map :: "('a \<Rightarrow> 'b) \<Rightarrow> 'a list \<Rightarrow> 'b list" where
  "tl_map f ts = map f ts"

fun tl_filter :: "('a \<Rightarrow> bool) \<Rightarrow> 'a list \<Rightarrow> 'a list \<Rightarrow> 'a list" where
  "tl_filter p [] out = out"
| "tl_filter p (h # ts) out = (if p h then tl_filter p ts (tl_append out [h]) else tl_filter p ts out)"

fun tl_foldl :: "('acc \<Rightarrow> 'a \<Rightarrow> 'acc) \<Rightarrow> 'acc \<Rightarrow> 'a list \<Rightarrow> 'acc" where
  "tl_foldl f acc [] = acc"
| "tl_foldl f acc (h # ts) = tl_foldl f (f acc h) ts"

fun tl_partition :: "('a \<Rightarrow> bool) \<Rightarrow> 'a list \<Rightarrow> 'a list \<Rightarrow> 'a list \<Rightarrow> 'a list \<times> 'a list" where
  "tl_partition p [] s r = (s, r)"
| "tl_partition p (h # ts) s r =
     (if p h then tl_partition p ts (tl_append s [h]) r else tl_partition p ts s (tl_append r [h]))"

fun tl_concat :: "'a list list \<Rightarrow> 'a list" where
  "tl_concat [] = []"
| "tl_concat [a] = a"
| "tl_concat (a # b # rest) = tl_concat (tl_append a b # rest)"

text \<open>A type that may itself be a type list, and the flattening of nested lists.\<close>

datatype 'a ty = Ty 'a | Nested "'a ty list"

fun tl_flatten_from :: "'a ty list \<Rightarrow> 'a ty list \<Rightarrow> 'a ty list" where
  "tl_flatten_from acc [] = acc"
| "tl_flatten_from acc (Ty x # ts) = tl_flatten_from (tl_append acc [Ty x]) ts"
| "tl_flatten_from acc (Nested us # ts) = tl_flatten_from (tl_concat [acc, tl_flatten_from [] us]) ts"

definition tl_flatten :: "'a ty list \<Rightarrow> 'a ty list" where
  "tl_flatten ts = tl_flatten_from [] ts"

definition tl_elem :: "'a list \<Rightarrow> 'a \<Rightarrow> bool" where
  "tl_elem ts e = list_ex (\<lambda>t. e = t) ts"

definition tl_unique :: "'a list \<Rightarrow> 'a list" where
  "tl_unique ts = tl_foldl (\<lambda>acc e. if tl_elem acc e then acc else tl_append acc [e]) [] ts"

fun tl_find_by :: "('a \<Rightarrow> bool) \<Rightarrow> 'a list \<Rightarrow> 'a option" where
  "tl_find_by p [] = None"
| "tl_find_by p (h # ts) = (if p h then Some h else tl_find_by p ts)"

definition tl_cross_product :: "('a \<Rightarrow> 'b \<Rightarrow> 'c) \<Rightarrow> 'a list \<Rightarrow> 'b list \<Rightarrow> 'c list" where
  "tl_cross_product pair a b =
     tl_foldl (\<lambda>outer ta. tl_foldl (\<lambda>inner tb. tl_append inner [pair ta tb]) outer b) [] a"

lemma tl_partition_eq: "tl_partition p ts s r = (s @ filter p ts, r @ filter (\<lambda>t. \<not> p t) ts)"
  by (induction ts arbitrary: s r) (simp_all add: tl_append_def)

function tl_sort :: "('a \<Rightarrow> 'a \<Rightarrow> bool) \<Rightarrow> 'a list \<Rightarrow> 'a list" where
  "tl_sort cmp [] = []"
| "tl_sort cmp (h # ts) =
     (let (satisfied, rest) = tl_partition (\<lambda>e. cmp e h) ts [] []
      in tl_concat [tl_append (tl_sort cmp satisfied) [h], tl_sort cmp rest])"
  by pat_completeness auto

termination
  by (relation "measure (\<lambda>(cmp, ts). length ts)") (auto simp: tl_partition_eq less_Suc_eq_le)

section \<open>What they compute\<close>

lemma tl_filter_eq: "tl_filter p ts out = out @ filter p ts"
  by (induction ts arbitrary: out) (simp_all add: tl_append_def)

lemma tl_foldl_eq: "tl_foldl f acc ts = foldl f acc ts"
  by (induction ts arbitrary: acc) simp_all

lemma tl_concat_eq: "tl_concat tss = concat tss"
  by (induction tss rule: tl_concat.induct) (simp_all add: tl_append_def)

lemma tl_elem_iff: "tl_elem ts e \<longleftrightarrow> e \<in> set ts"
  by (auto simp: tl_elem_def list_ex_iff)

lemma tl_find_by_eq: "tl_find_by p ts = find p ts"
  by (induction ts) simp_all

lemma tl_unique_props: "distinct (tl_unique ts) \<and> set (tl_unique ts) = set ts"
proof -
  have "distinct acc \<Longrightarrow> distinct (foldl (\<lambda>acc e. if e \<in> set acc then acc else acc @ [e]) acc ts) \<and>
      set (foldl (\<lambda>acc e. if e \<in> set acc then acc else acc @ [e]) acc ts) = set acc \<union> set ts" for acc
    by (induction ts arbitrary: acc) auto
  from this [of "[]"] show ?thesis by (simp add: tl_unique_def tl_foldl_eq tl_elem_iff tl_append_def cong: if_cong)
qed

lemma tl_cross_product_eq: "tl_cross_product pair a b = map (\<lambda>(x, y). pair x y) (List.product a b)"
proof -
  have inner: "foldl (\<lambda>inner tb. inner @ [pair ta tb]) acc b = acc @ map (pair ta) b" for ta acc
    by (induction b arbitrary: acc) simp_all
  have "foldl (\<lambda>outer ta. outer @ map (pair ta) b) acc a = acc @ map (\<lambda>(x, y). pair x y) (List.product a b)" for acc
    by (induction a arbitrary: acc) (simp_all add: comp_def)
  from this [of "[]"] show ?thesis by (simp add: tl_cross_product_def tl_foldl_eq tl_append_def inner)
qed

text \<open>Flattening leaves the leaves, in order, and no nested list.\<close>

fun leaves :: "'a ty \<Rightarrow> 'a list" where
  "leaves (Ty x) = [x]"
| "leaves (Nested us) = concat (map leaves us)"

lemma tl_flatten_from_eq: "tl_flatten_from acc ts = acc @ map Ty (concat (map leaves ts))"
  by (induction acc ts rule: tl_flatten_from.induct) (simp_all add: tl_append_def tl_concat_eq)

lemma tl_flatten_eq: "tl_flatten ts = map Ty (concat (map leaves ts))"
  by (simp add: tl_flatten_def tl_flatten_from_eq)

section \<open>Sorting by a strict partial order\<close>

lemma tl_sort_Cons:
  "tl_sort cmp (h # ts) = tl_sort cmp (filter (\<lambda>e. cmp e h) ts) @ h # tl_sort cmp (filter (\<lambda>e. \<not> cmp e h) ts)"
  by (simp add: tl_partition_eq tl_concat_eq tl_append_def)

lemma tl_sort_mset: "mset (tl_sort cmp ts) = mset ts"
proof (induction "length ts" arbitrary: ts rule: less_induct)
  case less
  show ?case
  proof (cases ts)
    case (Cons h us)
    have "mset (tl_sort cmp (filter p us)) = mset (filter p us)" for p
      by (rule less) (simp add: Cons less_Suc_eq_le)
    then show ?thesis by (simp add: Cons tl_sort_Cons mset_filter [symmetric] del: mset_filter tl_sort.simps)
        (metis mset_filter multiset_partition)
  qed simp
qed

lemma tl_sort_set [simp]: "set (tl_sort cmp ts) = set ts"
  by (metis set_mset_mset tl_sort_mset)

lemma tl_sort_linear_extension:
  assumes asym: "\<And>x y. x \<in> A \<Longrightarrow> y \<in> A \<Longrightarrow> cmp x y \<Longrightarrow> \<not> cmp y x"
    and trans: "\<And>x y z. x \<in> A \<Longrightarrow> y \<in> A \<Longrightarrow> z \<in> A \<Longrightarrow> cmp x y \<Longrightarrow> cmp y z \<Longrightarrow> cmp x z"
  shows "set ts \<subseteq> A \<Longrightarrow> sorted_wrt (\<lambda>x y. \<not> cmp y x) (tl_sort cmp ts)"
proof (induction "length ts" arbitrary: ts rule: less_induct)
  case less
  show ?case
  proof (cases ts)
    case (Cons h us)
    have A: "h \<in> A" "set us \<subseteq> A" using less.prems by (simp_all add: Cons)
    have IH: "sorted_wrt (\<lambda>x y. \<not> cmp y x) (tl_sort cmp (filter p us))" for p
      by (rule less.hyps) (use A in \<open>auto simp: Cons less_Suc_eq_le\<close>)
    have "\<not> cmp y x" if "x \<in> set us" "cmp x h" "y \<in> insert h {e \<in> set us. \<not> cmp e h}" for x y
      using that A asym [of x h] trans [of y x h] by auto
    then show ?thesis using IH A by (auto simp: Cons tl_sort_Cons sorted_wrt_append simp del: tl_sort.simps)
  qed simp
qed

end
