(* ===== verification/TaskDsl.thy ===== *)
theory TaskDsl
  imports TypeLists
begin

text \<open>
  The compile-time task scheduler of \<open>recipes/TaskDSL.cpp\<close>: from the links between jobs it computes the list of all
  jobs with their direct descendants, the transitive descendants of each, sorts the jobs by the relation ``has the
  other one among its descendants'', and runs them in that order.

  \<open>FindAllDescendants\<close> instantiates itself along the links.  The instantiation depth is the fuel; \<^const>\<open>None\<close> is a
  program that does not compile, because the depth is exceeded or \<open>Nil::Descendants\<close> does not exist.
\<close>

section \<open>The metaprogram\<close>

type_synonym 'j link = "'j \<times> 'j"
type_synonym 'j descendants = "'j \<times> 'j list"

definition get_from :: "'j link \<Rightarrow> 'j" where
  "get_from c = fst c"

definition get_dst :: "'j link \<Rightarrow> 'j" where
  "get_dst c = snd c"

definition connections :: "'j link list \<Rightarrow> 'j link list" where
  "connections links = tl_unique links"

definition all_jobs :: "'j link list \<Rightarrow> 'j list" where
  "all_jobs links =
     tl_unique (tl_concat [tl_map get_from (connections links), tl_map get_dst (connections links)])"

definition find_job_descendants :: "'j link list \<Rightarrow> 'j \<Rightarrow> 'j descendants" where
  "find_job_descendants links j =
     (j, tl_map get_dst (tl_filter (\<lambda>c. get_from c = j) (connections links) []))"

definition job_descendants_map :: "'j link list \<Rightarrow> 'j descendants list" where
  "job_descendants_map links = tl_map (find_job_descendants links) (all_jobs links)"

definition append_des ::
  "('j list \<Rightarrow> 'j list option) \<Rightarrow> 'j descendants list \<Rightarrow> 'j list option \<Rightarrow> 'j \<Rightarrow> 'j list option" where
  "append_des find_all dm acc job =
     (case acc of
        None \<Rightarrow> None
      | Some a \<Rightarrow>
          (case tl_find_by (\<lambda>dep. fst dep = job) dm of
             None \<Rightarrow> None
           | Some dep \<Rightarrow>
               (case find_all (snd dep) of
                  None \<Rightarrow> None
                | Some ds \<Rightarrow> Some (tl_concat [tl_append a [job], ds]))))"

primrec find_all_descendants :: "nat \<Rightarrow> 'j descendants list \<Rightarrow> 'j list \<Rightarrow> 'j list option" where
  "find_all_descendants 0 dm decends = None"
| "find_all_descendants (Suc n) dm decends =
     tl_foldl (append_des (find_all_descendants n dm) dm) (Some []) decends"

definition find_job_all_descendants :: "nat \<Rightarrow> 'j descendants list \<Rightarrow> 'j descendants \<Rightarrow> 'j descendants option" where
  "find_job_all_descendants n dm dep =
     map_option (Pair (fst dep)) (find_all_descendants n dm (snd dep))"

definition job_cmp :: "'j descendants \<Rightarrow> 'j descendants \<Rightarrow> bool" where
  "job_cmp lhs rhs \<longleftrightarrow> tl_elem (snd lhs) (fst rhs)"

definition sorted_jobs :: "nat \<Rightarrow> 'j link list \<Rightarrow> 'j list option" where
  "sorted_jobs n links =
     (let dm = job_descendants_map links
      in map_option (\<lambda>adm. tl_map fst (tl_sort job_cmp adm))
           (those (tl_map (find_job_all_descendants n dm) dm)))"

text \<open>\<open>Run\<close> calls the jobs of the sorted list from left to right: the trace of a run is that list.\<close>

definition task_run :: "nat \<Rightarrow> 'j link list \<Rightarrow> 'j list option" where
  "task_run depth links = sorted_jobs depth links"

section \<open>The graph of the links\<close>

abbreviation links_rel :: "'j link list \<Rightarrow> ('j \<times> 'j) set" where
  "links_rel links \<equiv> set links"

lemma set_all_jobs: "set (all_jobs links) = fst ` set links \<union> snd ` set links"
  using tl_unique_props [of links]
  by (auto simp: all_jobs_def tl_unique_props tl_concat_eq tl_map_def connections_def get_from_def get_dst_def)

lemma distinct_all_jobs: "distinct (all_jobs links)"
  by (simp add: all_jobs_def tl_unique_props)

lemma find_job_descendants_set: "set (snd (find_job_descendants links j)) = set links `` {j}"
  using tl_unique_props [of links]
  by (force simp: find_job_descendants_def tl_map_def tl_filter_eq connections_def get_from_def get_dst_def)

lemma map_lookup:
  assumes "j \<in> set (all_jobs links)"
  shows "tl_find_by (\<lambda>dep. fst dep = j) (job_descendants_map links) = Some (find_job_descendants links j)"
proof -
  have "find (\<lambda>dep. fst dep = j) (map (find_job_descendants links) js) = Some (find_job_descendants links j)"
    if "j \<in> set js" for js
    using that by (induction js) (auto simp: find_job_descendants_def)
  from this [OF assms] show ?thesis by (simp add: tl_find_by_eq job_descendants_map_def tl_map_def)
qed

section \<open>Transitive descendants\<close>

lemma foldl_append_des:
  assumes look: "\<And>j. j \<in> set js \<Longrightarrow> tl_find_by (\<lambda>dep. fst dep = j) dm = Some (d j)"
  shows "foldl (append_des f dm) (Some acc) js =
           map_option (\<lambda>dss. acc @ concat (map (\<lambda>(j, ds). j # ds) (zip js dss))) (those (map (\<lambda>j. f (snd (d j))) js))"
  using assms
proof (induction js arbitrary: acc)
  case Nil
  show ?case by simp
next
  case (Cons j js)
  show ?case
  proof (cases "f (snd (d j))")
    case None
    have "foldl (append_des f dm) None js = None" by (induction js) (simp_all add: append_des_def)
    moreover have "append_des f dm (Some acc) j = None" using Cons.prems [of j] None by (simp add: append_des_def)
    ultimately show ?thesis using None by simp
  next
    case (Some ds)
    then have "append_des f dm (Some acc) j = Some (acc @ j # ds)"
      using Cons.prems [of j] by (simp add: append_des_def tl_concat_eq tl_append_def)
    then show ?thesis using Cons Some by (cases "those (map (\<lambda>j. f (snd (d j))) js)") simp_all
  qed
qed

lemma those_Some_iff: "those xs = Some ys \<longleftrightarrow> xs = map Some ys"
proof (induction xs arbitrary: ys)
  case (Cons x xs)
  then show ?case by (cases x; cases ys) auto
qed auto

lemma those_None_iff: "those xs = None \<longleftrightarrow> None \<in> set xs"
proof (induction xs)
  case (Cons x xs)
  then show ?case by (cases x) auto
qed simp

text \<open>One level of the recursion, on jobs of the program.\<close>

lemma find_all_descendants_Suc:
  assumes "set js \<subseteq> set (all_jobs links)"
  shows "find_all_descendants (Suc n) (job_descendants_map links) js =
           map_option (\<lambda>dss. concat (map (\<lambda>(j, ds). j # ds) (zip js dss)))
             (those (map (\<lambda>j. find_all_descendants n (job_descendants_map links) (snd (find_job_descendants links j))) js))"
proof -
  have "tl_find_by (\<lambda>dep. fst dep = j) (job_descendants_map links) = Some (find_job_descendants links j)" if "j \<in> set js" for j
    by (rule map_lookup) (use that assms in blast)
  from foldl_append_des [OF this] show ?thesis by (simp add: tl_foldl_eq)
qed

lemma descendants_jobs: "set (snd (find_job_descendants links j)) \<subseteq> set (all_jobs links)"
  by (force simp: find_job_descendants_set set_all_jobs)

lemma find_all_descendants_set:
  assumes "set js \<subseteq> set (all_jobs links)" and "find_all_descendants n (job_descendants_map links) js = Some ds"
  shows "set ds = (links_rel links)\<^sup>* `` set js"
  using assms
proof (induction n arbitrary: js ds)
  case 0
  then show ?case by simp
next
  case (Suc n)
  let ?f = "\<lambda>j. find_all_descendants n (job_descendants_map links) (snd (find_job_descendants links j))"
  obtain dss where dss: "map ?f js = map Some dss" "ds = concat (map (\<lambda>(j, ds). j # ds) (zip js dss))"
    using Suc.prems(2) unfolding find_all_descendants_Suc [OF Suc.prems(1)] by (auto simp: those_Some_iff)
  have len: "length dss = length js" using dss(1) by (metis length_map)
  have sub: "set (dss ! i) = (links_rel links)\<^sup>+ `` {js ! i}" if "i < length js" for i
  proof -
    have "?f (js ! i) = Some (dss ! i)" using dss(1) that len by (metis nth_map)
    then have "set (dss ! i) = (links_rel links)\<^sup>* `` (set links `` {js ! i})"
      using Suc.IH [OF descendants_jobs] by (simp add: find_job_descendants_set)
    then show ?thesis by (auto simp: trancl_unfold_left)
  qed
  have "set ds = (\<Union>i<length js. insert (js ! i) (set (dss ! i)))"
    using len by (force simp: dss(2) set_zip)
  also have "\<dots> = (\<Union>i<length js. (links_rel links)\<^sup>* `` {js ! i})"
    using sub by (auto simp: rtrancl_eq_or_trancl)
  also have "\<dots> = (links_rel links)\<^sup>* `` set js" by (force simp: in_set_conv_nth)
  finally show ?case .
qed

text \<open>On acyclic links the recursion ends: the number of transitive descendants bounds the depth.\<close>

definition depth_of :: "'j link list \<Rightarrow> 'j \<Rightarrow> nat" where
  "depth_of links j = card ((links_rel links)\<^sup>+ `` {j})"

lemma finite_descendants: "finite ((links_rel links)\<^sup>+ `` {j})"
  by (rule finite_subset [of _ "snd ` (set links)\<^sup>+"]) (auto intro: rev_image_eqI)

lemma depth_of_less:
  assumes "acyclic (links_rel links)" and "(a, b) \<in> links_rel links"
  shows "depth_of links b < depth_of links a"
  unfolding depth_of_def
proof (rule psubset_card_mono [OF finite_descendants], rule psubsetI)
  show "(links_rel links)\<^sup>+ `` {b} \<subseteq> (links_rel links)\<^sup>+ `` {a}"
    using assms(2) by (auto intro: trancl_into_trancl2)
  have "b \<notin> (links_rel links)\<^sup>+ `` {b}" using assms(1) by (auto simp: acyclic_def)
  then show "(links_rel links)\<^sup>+ `` {b} \<noteq> (links_rel links)\<^sup>+ `` {a}" using assms(2) by blast
qed

lemma find_all_descendants_returns:
  assumes acyclic: "acyclic (links_rel links)"
  shows "set js \<subseteq> set (all_jobs links) \<Longrightarrow> \<forall>j\<in>set js. depth_of links j < n \<Longrightarrow>
           \<exists>ds. find_all_descendants (Suc n) (job_descendants_map links) js = Some ds"
proof (induction n arbitrary: js)
  case 0
  then show ?case by (simp add: tl_foldl_eq)
next
  case (Suc n)
  have "\<exists>ds. find_all_descendants (Suc n) (job_descendants_map links) (snd (find_job_descendants links j)) = Some ds"
    if "j \<in> set js" for j
  proof (rule Suc.IH [OF descendants_jobs], intro ballI)
    fix d assume "d \<in> set (snd (find_job_descendants links j))"
    then have "depth_of links d < depth_of links j"
      using depth_of_less [OF acyclic] by (simp add: find_job_descendants_set)
    then show "depth_of links d < n" using Suc.prems(2) that by fastforce
  qed
  then have "those (map (\<lambda>j. find_all_descendants (Suc n) (job_descendants_map links) (snd (find_job_descendants links j))) js) \<noteq> None"
    unfolding those_None_iff set_map by (metis (no_types, lifting) imageE option.distinct(1))
  then show ?case unfolding find_all_descendants_Suc [OF Suc.prems(1)] by blast
qed

text \<open>On a cycle it never ends: a job on a cycle has a descendant on that cycle.\<close>

lemma find_all_descendants_cycle:
  "set js \<subseteq> set (all_jobs links) \<Longrightarrow> j \<in> set js \<Longrightarrow> (j, j) \<in> (links_rel links)\<^sup>+ \<Longrightarrow>
     find_all_descendants n (job_descendants_map links) js = None"
proof (induction n arbitrary: js j)
  case 0
  show ?case by simp
next
  case (Suc n)
  obtain b where b: "(j, b) \<in> links_rel links" "(b, j) \<in> (links_rel links)\<^sup>*"
    using Suc.prems(3) by (meson tranclD)
  have "(b, b) \<in> (links_rel links)\<^sup>+" using b by (rule rtrancl_into_trancl1 [rotated])
  then have "find_all_descendants n (job_descendants_map links) (snd (find_job_descendants links j)) = None"
    using Suc.IH [OF descendants_jobs, of b j] b(1) by (simp add: find_job_descendants_set)
  then have "those (map (\<lambda>j. find_all_descendants n (job_descendants_map links) (snd (find_job_descendants links j))) js) = None"
    using Suc.prems(2) unfolding those_None_iff by force
  then show ?case unfolding find_all_descendants_Suc [OF Suc.prems(1)] by simp
qed

section \<open>The order of the jobs\<close>

definition comes_before :: "'j list \<Rightarrow> 'j \<Rightarrow> 'j \<Rightarrow> bool" where
  "comes_before xs a b \<longleftrightarrow> (\<exists>i j. i < j \<and> j < length xs \<and> xs ! i = a \<and> xs ! j = b)"

lemma sorted_wrt_comes_before:
  assumes "sorted_wrt r xs" and "a \<in> set xs" and "b \<in> set xs" and "a \<noteq> b" and "\<not> r b a"
  shows "comes_before xs a b"
proof -
  obtain i j where ij: "i < length xs" "xs ! i = a" "j < length xs" "xs ! j = b"
    using assms(2,3) by (auto simp: in_set_conv_nth)
  have "\<not> j < i" using sorted_wrt_nth_less [OF assms(1)] ij assms(5) by blast
  then have "i < j" using ij assms(4) by (metis linorder_neqE_nat)
  then show ?thesis using ij by (auto simp: comes_before_def)
qed

lemma comes_before_map: "comes_before xs a b \<Longrightarrow> comes_before (map f xs) (f a) (f b)"
  by (force simp: comes_before_def)

lemma sorted_jobs_spec:
  assumes "sorted_jobs n links = Some out"
  shows "distinct out \<and> set out = set (all_jobs links) \<and>
           (acyclic (links_rel links) \<longrightarrow> (\<forall>(a, b)\<in>links_rel links. comes_before out a b))"
proof -
  let ?dm = "job_descendants_map links"
  obtain adm where adm: "map (find_job_all_descendants n ?dm) ?dm = map Some adm" and out: "out = map fst (tl_sort job_cmp adm)"
    using assms by (auto simp: sorted_jobs_def Let_def tl_map_def those_Some_iff)
  have len: "length adm = length (all_jobs links)"
    using arg_cong [OF adm, of length] by (simp add: job_descendants_map_def tl_map_def)
  have nth: "fst (adm ! i) = all_jobs links ! i \<and> set (snd (adm ! i)) = (links_rel links)\<^sup>+ `` {all_jobs links ! i}"
    if i: "i < length (all_jobs links)" for i
  proof -
    have "find_job_all_descendants n ?dm (?dm ! i) = Some (adm ! i)"
      using arg_cong [OF adm, of "\<lambda>xs. xs ! i"] i len by (simp add: job_descendants_map_def tl_map_def)
    moreover have dm: "?dm ! i = find_job_descendants links (all_jobs links ! i)"
      using i by (simp add: job_descendants_map_def tl_map_def)
    ultimately obtain ds where ds: "find_all_descendants n ?dm (snd (find_job_descendants links (all_jobs links ! i))) = Some ds"
        "adm ! i = (all_jobs links ! i, ds)"
      by (auto simp: find_job_all_descendants_def) (simp add: find_job_descendants_def)
    have "set ds = (links_rel links)\<^sup>* `` (set links `` {all_jobs links ! i})"
      using find_all_descendants_set [OF descendants_jobs ds(1)] by (simp add: find_job_descendants_set)
    then show ?thesis using ds(2) by (auto simp: trancl_unfold_left)
  qed
  have fsts: "map fst adm = all_jobs links" using nth len by (intro nth_equalityI) simp_all
  have cmp: "job_cmp x y \<longleftrightarrow> (fst x, fst y) \<in> (links_rel links)\<^sup>+" if x: "x \<in> set adm" for x y
  proof -
    obtain i where i: "i < length (all_jobs links)" "x = adm ! i" using x len by (auto simp: in_set_conv_nth)
    show ?thesis using nth [OF i(1)] by (simp add: i(2) job_cmp_def tl_elem_iff)
  qed
  have perm: "mset out = mset (all_jobs links)" unfolding out by (simp add: tl_sort_mset flip: fsts)
  have order: "comes_before out a b" if acyclic: "acyclic (links_rel links)" and ab: "(a, b) \<in> links_rel links" for a b
  proof -
    have irr: "(x, x) \<notin> (links_rel links)\<^sup>+" for x using acyclic by (simp add: acyclic_def)
    have sorted: "sorted_wrt (\<lambda>x y. \<not> job_cmp y x) (tl_sort job_cmp adm)"
    proof (rule tl_sort_linear_extension [where A = "set adm"])
      show "\<not> job_cmp y x" if "x \<in> set adm" "y \<in> set adm" "job_cmp x y" for x y
        using that irr by (auto simp: cmp dest: trancl_trans)
      show "job_cmp x z" if "x \<in> set adm" "y \<in> set adm" "z \<in> set adm" "job_cmp x y" "job_cmp y z" for x y z
        using that by (auto simp: cmp intro: trancl_trans)
    qed simp
    have "a \<in> set (map fst adm)" "b \<in> set (map fst adm)" using ab by (force simp: fsts set_all_jobs)+
    then obtain x y where xy: "x \<in> set adm" "y \<in> set adm" "fst x = a" "fst y = b" by auto
    have "x \<noteq> y" using xy ab irr by blast
    moreover have "\<not> \<not> job_cmp x y" using ab xy by (simp add: cmp r_into_trancl)
    ultimately show ?thesis
      using sorted_wrt_comes_before [OF sorted, of x y] xy comes_before_map [of _ x y fst] by (auto simp: out)
  qed
  have "distinct out" using perm distinct_all_jobs by (metis mset_eq_imp_distinct_iff)
  moreover have "set out = set (all_jobs links)" using perm by (metis set_mset_mset)
  ultimately show ?thesis using order by blast
qed

lemma depth_of_bound: "depth_of links j \<le> length (all_jobs links)"
proof -
  have "(links_rel links)\<^sup>+ `` {j} \<subseteq> set (all_jobs links)"
  proof
    fix k assume "k \<in> (links_rel links)\<^sup>+ `` {j}"
    then obtain i where "(i, k) \<in> links_rel links" by (auto elim: tranclE)
    then show "k \<in> set (all_jobs links)" by (force simp: set_all_jobs)
  qed
  then show ?thesis unfolding depth_of_def by (metis List.finite_set card_length card_mono order_trans)
qed

lemma sorted_jobs_returns:
  assumes "acyclic (links_rel links)"
  shows "\<exists>out. sorted_jobs (length (all_jobs links) + 2) links = Some out"
proof -
  let ?n = "length (all_jobs links) + 1"
  have "\<exists>ds. find_all_descendants (Suc ?n) (job_descendants_map links) (snd dep) = Some ds"
    if "dep \<in> set (job_descendants_map links)" for dep
  proof (rule find_all_descendants_returns [OF assms])
    show "set (snd dep) \<subseteq> set (all_jobs links)"
      using that unfolding job_descendants_map_def tl_map_def set_map by (elim imageE) (simp only: descendants_jobs)
    show "\<forall>j\<in>set (snd dep). depth_of links j < ?n" using depth_of_bound [of links] by (simp add: less_Suc_eq_le)
  qed
  then have "those (map (find_job_all_descendants (Suc ?n) (job_descendants_map links)) (job_descendants_map links)) \<noteq> None"
    unfolding those_None_iff find_job_all_descendants_def by (fastforce simp del: find_all_descendants.simps)
  then show ?thesis unfolding sorted_jobs_def tl_map_def Let_def by (auto simp del: find_all_descendants.simps)
qed

text \<open>
  C28: A task whose links are acyclic compiles, at an instantiation depth of two more than the number of its jobs, and runs
  every job exactly once, every link's source before its target.\<close>

theorem task_runs_in_order:
  assumes "acyclic (links_rel links)"
  shows "\<exists>out. task_run (length (all_jobs links) + 2) links = Some out \<and> distinct out \<and>
           set out = fst ` set links \<union> snd ` set links \<and> (\<forall>(a, b)\<in>set links. comes_before out a b)"
proof -
  obtain out where "sorted_jobs (length (all_jobs links) + 2) links = Some out"
    using sorted_jobs_returns [OF assms] by blast
  then show ?thesis using sorted_jobs_spec assms by (force simp: task_run_def set_all_jobs)
qed

definition demo_links :: "string link list" where
  "demo_links = [(''Plating'', ''Servce1''), (''Meat'', ''Plating''), (''Plating'', ''Servce2''), (''Garnish'', ''Plating'')]"

theorem task_runs_in_order_witness:
  "\<exists>out. task_run (length (all_jobs demo_links) + 2) demo_links = Some out \<and> distinct out \<and>
     set out = fst ` set demo_links \<union> snd ` set demo_links \<and> (\<forall>(a, b)\<in>set demo_links. comes_before out a b)"
proof (rule task_runs_in_order)
  let ?r = "\<lambda>j. if j = ''Plating'' then 1 else if j \<in> {''Meat'', ''Garnish''} then 0 else 2 :: nat"
  have "links_rel demo_links \<subseteq> measure ?r" by (simp add: demo_links_def)
  then show "acyclic (links_rel demo_links)" by (rule acyclic_subset [OF wf_acyclic [OF wf_measure]])
qed

text \<open>A task with a cycle of links does not compile at any depth.\<close>

lemma cyclic_task_never_compiles:
  assumes "\<not> acyclic (links_rel links)"
  shows "task_run depth links = None"
proof -
  obtain j where j: "(j, j) \<in> (links_rel links)\<^sup>+" using assms by (auto simp: acyclic_def)
  obtain b where b: "(j, b) \<in> links_rel links" "(b, j) \<in> (links_rel links)\<^sup>*" using j by (meson tranclD)
  have "j \<in> set (all_jobs links)" using b(1) by (force simp: set_all_jobs)
  then have "find_job_descendants links j \<in> set (job_descendants_map links)"
    by (simp add: job_descendants_map_def tl_map_def)
  moreover have "(b, b) \<in> (links_rel links)\<^sup>+" using b by (rule rtrancl_into_trancl1 [rotated])
  then have "find_all_descendants depth (job_descendants_map links) (snd (find_job_descendants links j)) = None"
    using find_all_descendants_cycle [OF descendants_jobs, of b links j] b(1) by (simp add: find_job_descendants_set)
  ultimately have "None \<in> set (map (find_job_all_descendants depth (job_descendants_map links)) (job_descendants_map links))"
    by (force simp: find_job_all_descendants_def)
  then show ?thesis by (simp add: task_run_def sorted_jobs_def Let_def tl_map_def those_None_iff [THEN iffD2])
qed

text \<open>\<open>main\<close> runs the task of \<^const>\<open>demo_links\<close>.\<close>

lemma task_main_order: "task_run 7 demo_links = Some [''Meat'', ''Garnish'', ''Plating'', ''Servce1'', ''Servce2'']"
  by code_simp

end
