(* ===== verification/RpcCallMeta.thy ===== *)
theory RpcCallMeta
  imports Prelude "HOL-Library.Word"
begin

unbundle bit_operations_syntax

text \<open>
  The per-call settings of an asynchronous RPC module, \<open>RpcCallMeta\<close> of \<open>DAG/app_interface/AsyncRpcModule.h\<close>.  Two of them,
  the request code and the naming-service tag, have a presence bit in a 64-bit flag word; the others use a
  distinguished value for ``not set''.  The partitioner, a function pointer, is an address, null being \<^const>\<open>None\<close>.

  The refinement shows that after any sequence of calls the presence bits and the stored values are those of a record of
  optional fields, and that \<open>clear\<close> is the constructor's state.
\<close>

datatype compress_type = COMPRESS_TYPE_NONE | COMPRESS_TYPE_SNAPPY | COMPRESS_TYPE_GZIP | COMPRESS_TYPE_ZLIB

record rpc_call_meta =
  m_feature_flag :: "64 word"
  m_request_code :: "64 word"
  m_naming_service_tag :: string
  m_ns_tag_version :: string
  m_ns_tag_code :: "32 word"
  m_timeout_ms :: "32 word"
  m_compress_type :: compress_type
  m_partitioner :: "nat option"
  m_naming_service_uri :: string
  m_full_method_name :: string

definition FLAG_REQUEST_CODE :: "64 word" where
  "FLAG_REQUEST_CODE = 1"

definition FLAG_NAMING_SERVICE_TAG :: "64 word" where
  "FLAG_NAMING_SERVICE_TAG = 2"

definition meta_construct :: rpc_call_meta where
  "meta_construct =
     \<lparr>m_feature_flag = 0, m_request_code = 0, m_naming_service_tag = [], m_ns_tag_version = [], m_ns_tag_code = -1,
      m_timeout_ms = -1, m_compress_type = COMPRESS_TYPE_NONE, m_partitioner = None, m_naming_service_uri = [],
      m_full_method_name = []\<rparr>"

definition set_request_code :: "64 word \<Rightarrow> rpc_call_meta \<Rightarrow> rpc_call_meta" where
  "set_request_code rc m = m\<lparr>m_feature_flag := m_feature_flag m OR FLAG_REQUEST_CODE, m_request_code := rc\<rparr>"

definition has_request_code :: "rpc_call_meta \<Rightarrow> bool" where
  "has_request_code m \<longleftrightarrow> m_feature_flag m AND FLAG_REQUEST_CODE \<noteq> 0"

definition set_naming_service_uri :: "string \<Rightarrow> rpc_call_meta \<Rightarrow> rpc_call_meta" where
  "set_naming_service_uri uri m = m\<lparr>m_naming_service_uri := uri\<rparr>"

definition set_naming_service_tag :: "string \<Rightarrow> rpc_call_meta \<Rightarrow> rpc_call_meta" where
  "set_naming_service_tag tag m =
     m\<lparr>m_feature_flag := m_feature_flag m OR FLAG_NAMING_SERVICE_TAG, m_naming_service_tag := tag\<rparr>"

definition has_naming_service_tag :: "rpc_call_meta \<Rightarrow> bool" where
  "has_naming_service_tag m \<longleftrightarrow> m_feature_flag m AND FLAG_NAMING_SERVICE_TAG \<noteq> 0"

definition set_naming_service_tag_version :: "string \<Rightarrow> rpc_call_meta \<Rightarrow> rpc_call_meta" where
  "set_naming_service_tag_version v m = m\<lparr>m_ns_tag_version := v\<rparr>"

definition set_naming_service_tag_code :: "32 word \<Rightarrow> rpc_call_meta \<Rightarrow> rpc_call_meta" where
  "set_naming_service_tag_code tc m = m\<lparr>m_ns_tag_code := tc\<rparr>"

definition set_full_method_name :: "string \<Rightarrow> rpc_call_meta \<Rightarrow> rpc_call_meta" where
  "set_full_method_name name m = m\<lparr>m_full_method_name := name\<rparr>"

definition set_timeout_ms :: "32 word \<Rightarrow> rpc_call_meta \<Rightarrow> rpc_call_meta" where
  "set_timeout_ms t m = m\<lparr>m_timeout_ms := t\<rparr>"

definition set_compress_type :: "compress_type \<Rightarrow> rpc_call_meta \<Rightarrow> rpc_call_meta" where
  "set_compress_type c m = m\<lparr>m_compress_type := c\<rparr>"

definition set_partitioner :: "nat option \<Rightarrow> rpc_call_meta \<Rightarrow> rpc_call_meta" where
  "set_partitioner p m = m\<lparr>m_partitioner := p\<rparr>"

definition meta_clear :: "rpc_call_meta \<Rightarrow> rpc_call_meta" where
  "meta_clear m =
     m\<lparr>m_feature_flag := 0, m_request_code := 0, m_naming_service_tag := [], m_ns_tag_version := [], m_ns_tag_code := -1,
       m_timeout_ms := -1, m_compress_type := COMPRESS_TYPE_NONE, m_partitioner := None, m_naming_service_uri := [],
       m_full_method_name := []\<rparr>"

section \<open>Sequences of calls\<close>

datatype meta_call =
    SetRequestCode "64 word"
  | SetTag string
  | SetTagVersion string
  | SetTagCode "32 word"
  | SetUri string
  | SetMethod string
  | SetTimeout "32 word"
  | SetCompress compress_type
  | SetPartitioner "nat option"
  | Clear

fun meta_apply :: "meta_call \<Rightarrow> rpc_call_meta \<Rightarrow> rpc_call_meta" where
  "meta_apply (SetRequestCode rc) = set_request_code rc"
| "meta_apply (SetTag t) = set_naming_service_tag t"
| "meta_apply (SetTagVersion v) = set_naming_service_tag_version v"
| "meta_apply (SetTagCode c) = set_naming_service_tag_code c"
| "meta_apply (SetUri u) = set_naming_service_uri u"
| "meta_apply (SetMethod n) = set_full_method_name n"
| "meta_apply (SetTimeout t) = set_timeout_ms t"
| "meta_apply (SetCompress c) = set_compress_type c"
| "meta_apply (SetPartitioner p) = set_partitioner p"
| "meta_apply Clear = meta_clear"

text \<open>The calls since the last \<open>clear\<close>, and the last value a selected setter received among them.\<close>

definition since_clear :: "meta_call list \<Rightarrow> meta_call list" where
  "since_clear cs = rev (takeWhile (\<lambda>c. c \<noteq> Clear) (rev cs))"

fun last_some :: "('c \<Rightarrow> 'v option) \<Rightarrow> 'c list \<Rightarrow> 'v option" where
  "last_some f [] = None"
| "last_some f (c # cs) = (case last_some f cs of Some v \<Rightarrow> Some v | None \<Rightarrow> f c)"

fun request_code_arg :: "meta_call \<Rightarrow> 64 word option" where
  "request_code_arg (SetRequestCode rc) = Some rc"
| "request_code_arg _ = None"

fun tag_arg :: "meta_call \<Rightarrow> string option" where
  "tag_arg (SetTag t) = Some t"
| "tag_arg _ = None"

fun timeout_arg :: "meta_call \<Rightarrow> 32 word option" where
  "timeout_arg (SetTimeout t) = Some t"
| "timeout_arg _ = None"

lemma since_clear_snoc: "since_clear (cs @ [c]) = (if c = Clear then [] else since_clear cs @ [c])"
  by (simp add: since_clear_def)

lemma last_some_snoc: "last_some f (cs @ [c]) = (case f c of Some v \<Rightarrow> Some v | None \<Rightarrow> last_some f cs)"
  by (induction cs) (auto split: option.splits)

lemma meta_clear_construct: "meta_clear m = meta_construct"
  by (simp add: meta_clear_def meta_construct_def)

text \<open>The two bits do not disturb each other.\<close>

lemma flag_bits [simp]:
  "has_request_code (set_request_code rc m)"
  "has_naming_service_tag (set_request_code rc m) \<longleftrightarrow> has_naming_service_tag m"
  "has_naming_service_tag (set_naming_service_tag t m)"
  "has_request_code (set_naming_service_tag t m) \<longleftrightarrow> has_request_code m"
proof -
  have b0: "w AND 1 \<noteq> 0 \<longleftrightarrow> bit w 0" for w :: "64 word" 
    using bit_iff_and_push_bit_not_eq_0 [of w 0] by (simp only: push_bit_0_id id_apply)
  have b1: "w AND 2 \<noteq> 0 \<longleftrightarrow> bit w 1" for w :: "64 word" by (simp add: bit_iff_and_push_bit_not_eq_0 push_bit_of_1)
  show "has_request_code (set_request_code rc m)"
    "has_naming_service_tag (set_request_code rc m) \<longleftrightarrow> has_naming_service_tag m"
    "has_naming_service_tag (set_naming_service_tag t m)"
    "has_request_code (set_naming_service_tag t m) \<longleftrightarrow> has_request_code m"
    unfolding has_request_code_def has_naming_service_tag_def FLAG_REQUEST_CODE_def FLAG_NAMING_SERVICE_TAG_def b0 b1
      set_request_code_def set_naming_service_tag_def
    by (simp_all add: bit_simps)
qed

definition meta_core :: "rpc_call_meta \<Rightarrow> bool \<times> bool \<times> 64 word \<times> string \<times> 32 word" where
  "meta_core m =
     (has_request_code m, has_naming_service_tag m, m_request_code m, m_naming_service_tag m, m_timeout_ms m)"

lemma meta_core_simps [simp]:
  "meta_core (set_request_code rc m) = (True, has_naming_service_tag m, rc, m_naming_service_tag m, m_timeout_ms m)"
  "meta_core (set_naming_service_tag t m) = (has_request_code m, True, m_request_code m, t, m_timeout_ms m)"
  "meta_core (set_timeout_ms tm m) =
     (has_request_code m, has_naming_service_tag m, m_request_code m, m_naming_service_tag m, tm)"
  "meta_core (set_naming_service_uri s m) = meta_core m"
  "meta_core (set_naming_service_tag_version s m) = meta_core m"
  "meta_core (set_naming_service_tag_code w m) = meta_core m"
  "meta_core (set_full_method_name s m) = meta_core m"
  "meta_core (set_compress_type ct m) = meta_core m"
  "meta_core (set_partitioner p m) = meta_core m"
  "meta_core meta_construct = (False, False, 0, [], -1)"
  unfolding meta_core_def
  by (simp_all, simp_all add: set_request_code_def set_naming_service_tag_def set_timeout_ms_def
      set_naming_service_uri_def set_naming_service_tag_version_def set_naming_service_tag_code_def
      set_full_method_name_def set_compress_type_def set_partitioner_def has_request_code_def has_naming_service_tag_def
      meta_construct_def)

lemma meta_core_eq:
  "meta_core (fold meta_apply cs meta_construct) =
     (last_some request_code_arg (since_clear cs) \<noteq> None, last_some tag_arg (since_clear cs) \<noteq> None,
      case last_some request_code_arg (since_clear cs) of None \<Rightarrow> 0 | Some rc \<Rightarrow> rc,
      case last_some tag_arg (since_clear cs) of None \<Rightarrow> [] | Some t \<Rightarrow> t,
      case last_some timeout_arg (since_clear cs) of None \<Rightarrow> -1 | Some t \<Rightarrow> t)"
proof (induction cs rule: rev_induct)
  case Nil
  show ?case by (simp add: since_clear_def)
next
  case (snoc c cs)
  let ?m = "fold meta_apply cs meta_construct"
  have "meta_core ?m = (has_request_code ?m, has_naming_service_tag ?m, m_request_code ?m, m_naming_service_tag ?m, m_timeout_ms ?m)"
    by (simp add: meta_core_def)
  then show ?case using snoc by (cases c) (simp_all add: since_clear_snoc last_some_snoc meta_clear_construct)
qed

text \<open>
  After any sequence of setter calls and \<open>clear\<close> on a new call record, the request code and the tag are reported as
  present exactly when their setter was called after the last \<open>clear\<close>, and then have the last value it received.\<close>

theorem rpc_call_meta_tracks:
  "(has_request_code (fold meta_apply cs meta_construct) \<longleftrightarrow> last_some request_code_arg (since_clear cs) \<noteq> None) \<and>
   (has_naming_service_tag (fold meta_apply cs meta_construct) \<longleftrightarrow> last_some tag_arg (since_clear cs) \<noteq> None) \<and>
   m_request_code (fold meta_apply cs meta_construct) =
     (case last_some request_code_arg (since_clear cs) of None \<Rightarrow> 0 | Some rc \<Rightarrow> rc) \<and>
   m_naming_service_tag (fold meta_apply cs meta_construct) =
     (case last_some tag_arg (since_clear cs) of None \<Rightarrow> [] | Some t \<Rightarrow> t) \<and>
   m_timeout_ms (fold meta_apply cs meta_construct) =
     (case last_some timeout_arg (since_clear cs) of None \<Rightarrow> -1 | Some t \<Rightarrow> t)"
  using meta_core_eq [of cs] by (simp add: meta_core_def)

end
