(* ===== verification/DoubleBuffer.thy ===== *)
theory DoubleBuffer
  imports Prelude
begin

text \<open>
  The double buffer of \<open>double.cpp\<close>: two shared objects, readers that take a shared pointer to the one of the read index,
  and a writer that waits until nobody holds the other one, updates it, swaps the index, sleeps, and updates again.

  A shared pointer is modelled by the number of readers that hold the object; \<open>use_count\<close> is one more.  The sequential
  model gives the effect of one call; the step relation interleaves the writer's five steps with readers whose \<open>Load\<close>
  reads the index and copies the pointer in two steps.
\<close>

section \<open>Sequential model\<close>

record 'a double_buffer =
  db_buffers :: "nat \<Rightarrow> 'a"
  db_read_idx :: nat
  db_held :: "nat \<Rightarrow> nat"

definition double_buffer_construct :: "'a \<Rightarrow> 'a double_buffer" where
  "double_buffer_construct data = \<lparr>db_buffers = (\<lambda>_. data), db_read_idx = 0, db_held = (\<lambda>_. 0)\<rparr>"

definition db_load :: "'a double_buffer \<Rightarrow> 'a \<times> 'a double_buffer" where
  "db_load s =
     (let i = db_read_idx s in (db_buffers s i, s\<lparr>db_held := (db_held s)(i := Suc (db_held s i))\<rparr>))"

definition use_count :: "'a double_buffer \<Rightarrow> nat \<Rightarrow> nat" where
  "use_count s i = Suc (db_held s i)"

text \<open>\<^const>\<open>None\<close>: the wait for the readers of the write buffer goes on.\<close>

definition monopolizer_writer_buffer :: "'a double_buffer \<Rightarrow> nat option" where
  "monopolizer_writer_buffer s =
     (let write_idx = 1 - db_read_idx s in if use_count s write_idx \<noteq> 1 then None else Some write_idx)"

definition swap_buffer :: "'a double_buffer \<Rightarrow> 'a double_buffer" where
  "swap_buffer s = s\<lparr>db_read_idx := 1 - db_read_idx s\<rparr>"

definition run_updater :: "('a \<Rightarrow> 'a) \<Rightarrow> nat \<Rightarrow> 'a double_buffer \<Rightarrow> 'a double_buffer" where
  "run_updater updater w s = s\<lparr>db_buffers := (db_buffers s)(w := updater (db_buffers s w))\<rparr>"

definition db_update :: "('a \<Rightarrow> 'a) \<Rightarrow> 'a double_buffer \<Rightarrow> 'a double_buffer option" where
  "db_update updater s =
     (case monopolizer_writer_buffer s of
        None \<Rightarrow> None
      | Some w \<Rightarrow> Some (run_updater updater w (swap_buffer (run_updater updater w s))))"

definition db_reset :: "'a \<Rightarrow> 'a double_buffer \<Rightarrow> 'a double_buffer option" where
  "db_reset data s = db_update (\<lambda>_. data) s"

lemma db_update_None: "db_update f s = None \<longleftrightarrow> db_held s (1 - db_read_idx s) \<noteq> 0"
  by (simp add: db_update_def monopolizer_writer_buffer_def use_count_def Let_def)

text \<open>
  \<open>Update\<close> returns exactly when no reader holds the write buffer.  Then readers see the updater applied twice to the
  content of the buffer that was not being read, and the buffer that was read before keeps its old content: the two
  buffers are not both updated, although the comments say so.\<close>

theorem double_buffer_update:
  assumes "db_read_idx s \<le> 1"
  shows "case db_update f s of
           None \<Rightarrow> db_held s (1 - db_read_idx s) \<noteq> 0
         | Some s' \<Rightarrow>
             db_held s (1 - db_read_idx s) = 0 \<and> db_read_idx s' = 1 - db_read_idx s \<and>
             fst (db_load s') = f (f (db_buffers s (1 - db_read_idx s))) \<and>
             db_buffers s' (1 - db_read_idx s') = fst (db_load s)"
proof (cases "db_update f s")
  case None
  then show ?thesis using db_update_None [of f s] by simp
next
  case (Some s')
  then have "s' = run_updater f (1 - db_read_idx s) (swap_buffer (run_updater f (1 - db_read_idx s) s))"
    by (auto simp: db_update_def monopolizer_writer_buffer_def Let_def split: option.splits if_splits)
  then show ?thesis using assms Some db_update_None [of f s]
    by (auto simp: run_updater_def swap_buffer_def db_load_def Let_def le_Suc_eq)
qed

theorem double_buffer_update_witness:
  "case db_update (\<lambda>x. x + 1) (double_buffer_construct (5 :: nat)) of
     None \<Rightarrow> False
   | Some s' \<Rightarrow> fst (db_load s') = 7 \<and> db_buffers s' (1 - db_read_idx s') = 5"
  using double_buffer_update [of "double_buffer_construct (5 :: nat)" "\<lambda>x. x + 1"]
  by (auto simp: double_buffer_construct_def db_load_def Let_def split: option.splits)

section \<open>Interleaving\<close>

datatype writer = WIdle | WWait nat | WFirst nat | WSwap nat | WSecond nat
datatype reader = ROut | RIndex nat | RHold nat

record 'a db_state =
  st_buf :: "'a double_buffer"
  st_writer :: writer
  st_reader :: reader

inductive db_step :: "('a \<Rightarrow> 'a) \<Rightarrow> 'a db_state \<Rightarrow> 'a db_state \<Rightarrow> bool" for f where
  w_start: "st_writer s = WIdle \<Longrightarrow> db_step f s (s\<lparr>st_writer := WWait (1 - db_read_idx (st_buf s))\<rparr>)"
| w_wait: "st_writer s = WWait w \<Longrightarrow> use_count (st_buf s) w = 1 \<Longrightarrow> db_step f s (s\<lparr>st_writer := WFirst w\<rparr>)"
| w_first: "st_writer s = WFirst w \<Longrightarrow>
    db_step f s (s\<lparr>st_buf := run_updater f w (st_buf s), st_writer := WSwap w\<rparr>)"
| w_swap: "st_writer s = WSwap w \<Longrightarrow> db_step f s (s\<lparr>st_buf := swap_buffer (st_buf s), st_writer := WSecond w\<rparr>)"
| w_second: "st_writer s = WSecond w \<Longrightarrow>
    db_step f s (s\<lparr>st_buf := run_updater f w (st_buf s), st_writer := WIdle\<rparr>)"
| r_index: "st_reader s = ROut \<Longrightarrow> db_step f s (s\<lparr>st_reader := RIndex (db_read_idx (st_buf s))\<rparr>)"
| r_copy: "st_reader s = RIndex i \<Longrightarrow>
    db_step f s (s\<lparr>st_buf := (st_buf s)\<lparr>db_held := (db_held (st_buf s))(i := Suc (db_held (st_buf s) i))\<rparr>, st_reader := RHold i\<rparr>)"
| r_release: "st_reader s = RHold i \<Longrightarrow>
    db_step f s (s\<lparr>st_buf := (st_buf s)\<lparr>db_held := (db_held (st_buf s))(i := db_held (st_buf s) i - 1)\<rparr>, st_reader := ROut\<rparr>)"

definition db_initial :: "'a \<Rightarrow> 'a db_state" where
  "db_initial data = \<lparr>st_buf = double_buffer_construct data, st_writer = WIdle, st_reader = ROut\<rparr>"

text \<open>
  A run in which a reader takes the swapped buffer before the second application of the updater: the writer then
  changes the object the reader holds.\<close>

lemma second_update_under_reader:
  "\<exists>s s'. (db_step f)\<^sup>*\<^sup>* (db_initial data) s \<and> db_step f s s' \<and> st_reader s = RHold 1 \<and> st_reader s' = RHold 1 \<and>
     db_buffers (st_buf s) 1 = f data \<and> db_buffers (st_buf s') 1 = f (f data)"
proof -
  define s0 where "s0 = db_initial data"
  define s1 where "s1 = s0\<lparr>st_writer := WWait 1\<rparr>"
  define s2 where "s2 = s1\<lparr>st_writer := WFirst 1\<rparr>"
  define s3 where "s3 = s2\<lparr>st_buf := run_updater f 1 (st_buf s2), st_writer := WSwap 1\<rparr>"
  define s4 where "s4 = s3\<lparr>st_buf := swap_buffer (st_buf s3), st_writer := WSecond 1\<rparr>"
  define s5 where "s5 = s4\<lparr>st_reader := RIndex 1\<rparr>"
  define s6 where "s6 = s5\<lparr>st_buf := (st_buf s5)\<lparr>db_held := (db_held (st_buf s5))(1 := Suc (db_held (st_buf s5) 1))\<rparr>, st_reader := RHold 1\<rparr>"
  define s7 where "s7 = s6\<lparr>st_buf := run_updater f 1 (st_buf s6), st_writer := WIdle\<rparr>"
  note defs = s1_def s2_def s3_def s4_def s5_def s6_def s7_def
  have i0: "st_writer s0 = WIdle" "st_reader s0 = ROut" "db_read_idx (st_buf s0) = 0" "db_held (st_buf s0) 1 = 0"
      "db_buffers (st_buf s0) 1 = data"
    by (simp_all add: s0_def db_initial_def double_buffer_construct_def)
  have "db_step f s0 s1" using w_start [of s0 f] i0 by (simp add: s1_def)
  moreover have "db_step f s1 s2" using w_wait [of s1 1 f] i0 by (simp add: s1_def s2_def use_count_def)
  moreover have "db_step f s2 s3" using w_first [of s2 1 f] by (simp add: s2_def s3_def)
  moreover have "db_step f s3 s4" using w_swap [of s3 1 f] by (simp add: s3_def s4_def)
  moreover have "db_step f s4 s5"
    using r_index [of s4 f] i0 by (simp add: s5_def s4_def s3_def s2_def s1_def swap_buffer_def run_updater_def)
  moreover have "db_step f s5 s6" using r_copy [of s5 1 f] by (simp add: s5_def s6_def)
  ultimately have "(db_step f)\<^sup>*\<^sup>* s0 s6" by (meson converse_rtranclp_into_rtranclp rtranclp.rtrancl_refl)
  moreover have "db_step f s6 s7" using w_second [of s6 1 f] by (simp add: defs)
  moreover have "db_buffers (st_buf s6) 1 = f data" "db_buffers (st_buf s7) 1 = f (f data)"
    using i0 by (simp_all add: defs run_updater_def swap_buffer_def)
  ultimately show ?thesis unfolding s0_def by (intro exI [of _ s6] exI [of _ s7]) (simp add: defs)
qed

end
