(* ===== verification/SearchIndex.thy ===== *)
theory SearchIndex
  imports ServerConfig
begin

text \<open>
  Two small structures of the repository's search notes: the Bloom filter of \<open>BloomFilter.cpp\<close> and the inverted index of
  \<open>Roaring.cpp\<close>.  The hash function \<open>std::hash<std::string>\<close> is a parameter, on which nothing is assumed; a \<open>Roaring\<close>
  bitmap, of a third-party library, is represented by its documented contents, a set of 32-bit document ids, with its
  \<open>add\<close>, \<open>&\<close> and \<open>|\<close> as parameters of the model and named laws.
\<close>

section \<open>Bloom filter\<close>

record bloom_filter =
  bf_bits :: "nat \<Rightarrow> bool"
  bf_hash_count :: int

definition bloom_construct :: "int \<Rightarrow> bloom_filter" where
  "bloom_construct hashes = \<lparr>bf_bits = (\<lambda>_. False), bf_hash_count = hashes\<rparr>"

definition bloom_hash :: "(string \<Rightarrow> nat) \<Rightarrow> string \<Rightarrow> nat \<Rightarrow> nat" where
  "bloom_hash hasher key seed = hasher (key @ decimal seed) mod 1000"

definition bloom_add :: "(string \<Rightarrow> nat) \<Rightarrow> string \<Rightarrow> bloom_filter \<Rightarrow> bloom_filter" where
  "bloom_add hasher key b =
     fold (\<lambda>i b. b\<lparr>bf_bits := (bf_bits b)(bloom_hash hasher key i := True)\<rparr>) [0..<nat (bf_hash_count b)] b"

definition possibly_contains :: "(string \<Rightarrow> nat) \<Rightarrow> string \<Rightarrow> bloom_filter \<Rightarrow> bool" where
  "possibly_contains hasher key b = list_all (\<lambda>i. bf_bits b (bloom_hash hasher key i)) [0..<nat (bf_hash_count b)]"

lemma bloom_fold_bits:
  "bf_bits (fold (\<lambda>i b. b\<lparr>bf_bits := (bf_bits b)(h i := True)\<rparr>) xs b) n \<longleftrightarrow> bf_bits b n \<or> n \<in> h ` set xs"
  "bf_hash_count (fold (\<lambda>i b. b\<lparr>bf_bits := (bf_bits b)(h i := True)\<rparr>) xs b) = bf_hash_count b"
  by (induction xs arbitrary: b) auto

lemma bloom_add_bits:
  "bf_bits (bloom_add hasher key b) n \<longleftrightarrow> bf_bits b n \<or> (\<exists>i<nat (bf_hash_count b). n = bloom_hash hasher key i)"
  "bf_hash_count (bloom_add hasher key b) = bf_hash_count b"
  by (auto simp: bloom_add_def bloom_fold_bits)

lemma bloom_adds_bits:
  "bf_bits (fold (bloom_add hasher) keys b) n \<longleftrightarrow>
     bf_bits b n \<or> (\<exists>key\<in>set keys. \<exists>i<nat (bf_hash_count b). n = bloom_hash hasher key i)"
  "bf_hash_count (fold (bloom_add hasher) keys b) = bf_hash_count b"
  by (induction keys arbitrary: b) (auto simp: bloom_add_bits)

text \<open>
  After any keys were added to a new filter, a key is reported as possibly contained exactly when each of its bit
  positions is a bit position of some added key; in particular every added key is, whatever the hash function is, and
  all positions are below the size of the bit set.\<close>

theorem bloom_filter_exact:
  "possibly_contains hasher key (fold (bloom_add hasher) keys (bloom_construct k)) \<longleftrightarrow>
     (\<forall>i<nat k. bloom_hash hasher key i < 1000 \<and> (\<exists>q\<in>set keys. \<exists>j<nat k. bloom_hash hasher key i = bloom_hash hasher q j))"
  by (auto simp: possibly_contains_def bloom_adds_bits list_all_iff bloom_construct_def bloom_hash_def)

theorem bloom_filter_exact_witness:
  "possibly_contains length ''ab'' (fold (bloom_add length) [''ab'', ''c''] (bloom_construct 2)) \<and>
   \<not> possibly_contains length ''abc'' (fold (bloom_add length) [''ab'', ''c''] (bloom_construct 2))"
proof -
  have h: "bloom_hash length key j = (length key + 1) mod 1000" if "j < nat 2" for key j
    using that by (simp add: bloom_hash_def decimal.simps [of j])
  show ?thesis unfolding bloom_filter_exact by (auto simp: h intro: exI [of _ 0])
qed

lemma bloom_no_false_negative:
  "key \<in> set keys \<Longrightarrow> possibly_contains hasher key (fold (bloom_add hasher) keys (bloom_construct k))"
  by (fastforce simp: possibly_contains_def bloom_adds_bits list_all_iff bloom_construct_def)

section \<open>Inverted index\<close>

text \<open>\<open>stream >> token\<close>: words are separated by white space.\<close>

fun tokenize_from :: "string \<Rightarrow> string \<Rightarrow> string list" where
  "tokenize_from acc [] = (if acc = [] then [] else [acc])"
| "tokenize_from acc (c # cs) =
     (if is_space c then (if acc = [] then tokenize_from [] cs else acc # tokenize_from [] cs)
      else tokenize_from (acc @ [c]) cs)"

definition tokenize :: "string \<Rightarrow> string list" where
  "tokenize t = tokenize_from [] t"

text \<open>The bitmap operations the index uses.\<close>

record 'b bitmap_ops =
  bm_empty :: 'b
  bm_add :: "'b \<Rightarrow> nat \<Rightarrow> 'b"
  bm_and :: "'b \<Rightarrow> 'b \<Rightarrow> 'b"
  bm_or :: "'b \<Rightarrow> 'b \<Rightarrow> 'b"
  bm_docs :: "'b \<Rightarrow> nat set"

definition index_terms :: "'b bitmap_ops \<Rightarrow> nat \<Rightarrow> string list \<Rightarrow> (string, 'b) umap \<Rightarrow> (string, 'b) umap" where
  "index_terms ops doc_id ws index =
     fold (\<lambda>w index. AList.update w (bm_add ops (case map_of index w of None \<Rightarrow> bm_empty ops | Some b \<Rightarrow> b) doc_id) index)
       ws index"

definition build_inverted_index :: "'b bitmap_ops \<Rightarrow> string list \<Rightarrow> (string, 'b) umap" where
  "build_inverted_index ops documents =
     fold (\<lambda>(doc_id, text) index. index_terms ops doc_id (tokenize text) index) (enumerate 0 documents) []"

definition and_query :: "'b bitmap_ops \<Rightarrow> (string, 'b) umap \<Rightarrow> string \<Rightarrow> string \<Rightarrow> 'b option" where
  "and_query ops index a b =
     (case (map_of index a, map_of index b) of (Some x, Some y) \<Rightarrow> Some (bm_and ops x y) | _ \<Rightarrow> None)"

definition or_query :: "'b bitmap_ops \<Rightarrow> (string, 'b) umap \<Rightarrow> string \<Rightarrow> string \<Rightarrow> 'b option" where
  "or_query ops index a b =
     (case (map_of index a, map_of index b) of (Some x, Some y) \<Rightarrow> Some (bm_or ops x y) | _ \<Rightarrow> None)"

text \<open>What the bitmap library documents of its operations.\<close>

definition bitmap_laws :: "'b bitmap_ops \<Rightarrow> bool" where
  "bitmap_laws ops \<longleftrightarrow>
     bm_docs ops (bm_empty ops) = {} \<and> (\<forall>b d. bm_docs ops (bm_add ops b d) = insert d (bm_docs ops b)) \<and>
     (\<forall>b c. bm_docs ops (bm_and ops b c) = bm_docs ops b \<inter> bm_docs ops c) \<and>
     (\<forall>b c. bm_docs ops (bm_or ops b c) = bm_docs ops b \<union> bm_docs ops c)"

definition posting :: "'b bitmap_ops \<Rightarrow> (string, 'b) umap \<Rightarrow> string \<Rightarrow> nat set" where
  "posting ops index w = (case map_of index w of None \<Rightarrow> {} | Some b \<Rightarrow> bm_docs ops b)"

lemma posting_index_terms:
  assumes "bitmap_laws ops"
  shows "posting ops (index_terms ops d ws index) w = posting ops index w \<union> (if w \<in> set ws then {d} else {})"
    and "map_of (index_terms ops d ws index) w = None \<longleftrightarrow> map_of index w = None \<and> w \<notin> set ws"
  using assms unfolding index_terms_def
  by (induction ws arbitrary: index) (auto simp: posting_def bitmap_laws_def umap_simps split: option.splits if_splits)

lemma build_index_posting:
  assumes laws: "bitmap_laws ops"
  shows "posting ops (fold (\<lambda>(i, text) index. index_terms ops i (tokenize text) index) (enumerate n ds) index) w =
           posting ops index w \<union> {n + i |i. i < length ds \<and> w \<in> set (tokenize (ds ! i))}"
proof (induction ds arbitrary: n index)
  case Nil
  show ?case by simp
next
  case (Cons d ds)
  have "{n + i |i. i < length (d # ds) \<and> w \<in> set (tokenize ((d # ds) ! i))} =
      (if w \<in> set (tokenize d) then {n} else {}) \<union> {Suc n + i |i. i < length ds \<and> w \<in> set (tokenize (ds ! i))}"
    by (auto simp: less_Suc_eq_0_disj)
  then show ?case using Cons.IH posting_index_terms(1) [OF laws] by auto
qed

lemma build_index_None:
  assumes laws: "bitmap_laws ops"
  shows "map_of (fold (\<lambda>(i, text) index. index_terms ops i (tokenize text) index) (enumerate n ds) index) w = None \<longleftrightarrow>
           map_of index w = None \<and> (\<forall>d\<in>set ds. w \<notin> set (tokenize d))"
proof (induction ds arbitrary: n index)
  case Nil
  show ?case by simp
next
  case (Cons d ds)
  then show ?case using posting_index_terms(2) [OF laws] by auto
qed

text \<open>
  With a bitmap library that stores sets of ids, the index maps every word to the documents it occurs in, and the
  conjunctive query returns the documents in which both words occur; it is not asked when one word occurs nowhere.\<close>

theorem inverted_index_correct:
  assumes "bitmap_laws ops"
  shows "posting ops (build_inverted_index ops docs) w = {i. i < length docs \<and> w \<in> set (tokenize (docs ! i))} \<and>
         (case and_query ops (build_inverted_index ops docs) w v of
            None \<Rightarrow> (\<forall>d\<in>set docs. w \<notin> set (tokenize d)) \<or> (\<forall>d\<in>set docs. v \<notin> set (tokenize d))
          | Some b \<Rightarrow> bm_docs ops b = {i. i < length docs \<and> {w, v} \<subseteq> set (tokenize (docs ! i))})"
proof -
  let ?ix = "build_inverted_index ops docs"
  have post: "posting ops ?ix q = {i. i < length docs \<and> q \<in> set (tokenize (docs ! i))}" for q
    using build_index_posting [OF assms, of 0 docs "[]" q] by (simp add: build_inverted_index_def posting_def)
  have none: "map_of ?ix q = None \<longleftrightarrow> (\<forall>d\<in>set docs. q \<notin> set (tokenize d))" for q
    using build_index_None [OF assms, of 0 docs "[]" q] by (simp add: build_inverted_index_def)
  show ?thesis
  proof (cases "map_of ?ix w = None \<or> map_of ?ix v = None")
    case True
    then have "and_query ops ?ix w v = None" by (auto simp: and_query_def split: option.splits)
    then show ?thesis using True post none by auto
  next
    case False
    then obtain x y where xy: "map_of ?ix w = Some x" "map_of ?ix v = Some y" by auto
    have "bm_docs ops (bm_and ops x y) = posting ops ?ix w \<inter> posting ops ?ix v"
      using assms xy by (simp add: bitmap_laws_def posting_def)
    then show ?thesis using post xy by (auto simp: and_query_def)
  qed
qed

definition set_bitmaps :: "nat set bitmap_ops" where
  "set_bitmaps = \<lparr>bm_empty = {}, bm_add = (\<lambda>b d. insert d b), bm_and = (\<inter>), bm_or = (\<union>), bm_docs = (\<lambda>b. b)\<rparr>"

definition demo_docs :: "string list" where
  "demo_docs = [''a b'', ''b c'', ''a c b'']"

theorem inverted_index_correct_witness:
  "posting set_bitmaps (build_inverted_index set_bitmaps demo_docs) ''a'' = {0, 2} \<and>
   (case and_query set_bitmaps (build_inverted_index set_bitmaps demo_docs) ''a'' ''c'' of
      None \<Rightarrow> False
    | Some b \<Rightarrow> bm_docs set_bitmaps b = {i. i < length demo_docs \<and> {''a'', ''c''} \<subseteq> set (tokenize (demo_docs ! i))})"
proof -
  have laws: "bitmap_laws set_bitmaps" by (simp add: bitmap_laws_def set_bitmaps_def)
  have docs: "{i. i < length demo_docs \<and> ''a'' \<in> set (tokenize (demo_docs ! i))} = {0, 2}"
    by (auto simp: demo_docs_def tokenize_def is_space_def less_Suc_eq numeral_2_eq_2 numeral_3_eq_3)
  have "''a c b'' \<in> set demo_docs" "''a'' \<in> set (tokenize ''a c b'')" "''c'' \<in> set (tokenize ''a c b'')"
    by (simp_all add: demo_docs_def tokenize_def is_space_def)
  then show ?thesis using inverted_index_correct [OF laws, of demo_docs "''a''" "''c''"] docs
    by (auto split: option.splits)
qed

text \<open>The disjunctive query is skipped too when one of its words occurs nowhere, although the other may have documents.\<close>

lemma or_query_needs_both: "map_of index v = None \<Longrightarrow> or_query ops index w v = None"
  by (simp add: or_query_def split: option.splits)

section \<open>The programs\<close>

text \<open>\<open>main\<close> of \<open>BloomFilter.cpp\<close>: which of the two lines is printed for each of the two questions.\<close>

definition bloom_main :: "(string \<Rightarrow> nat) \<Rightarrow> string list" where
  "bloom_main hasher =
     (let filt = bloom_add hasher ''orange'' (bloom_add hasher ''banana'' (bloom_add hasher ''apple'' (bloom_construct 7)))
      in [if possibly_contains hasher ''banana'' filt then ''Banana might be in the set.'' else ''Banana is definitely not in the set.'',
          if possibly_contains hasher ''grape'' filt then ''Grape might be in the set.'' else ''Grape is definitely not in the set.''])"

text \<open>With any hash function the program finds the word it has added.\<close>

lemma bloom_main_banana: "hd (bloom_main hasher) = ''Banana might be in the set.''"
  using bloom_no_false_negative [of "''banana''" "[''apple'', ''banana'', ''orange'']" hasher 7] by (simp add: bloom_main_def Let_def)

text \<open>\<open>main\<close> of \<open>Roaring.cpp\<close>: the contents of the index by word, and the results of the two queries, if they are asked.\<close>

definition print_inverted_index :: "'b bitmap_ops \<Rightarrow> (string, 'b) umap \<Rightarrow> (string \<times> nat set) list" where
  "print_inverted_index ops index = map (\<lambda>(w, b). (w, bm_docs ops b)) index"

definition roaring_documents :: "string list" where
  "roaring_documents = [''the quick brown fox'', ''jumped over the lazy dog'', ''hello world'', ''quick brown dog'']"

definition roaring_main :: "'b bitmap_ops \<Rightarrow> (string \<times> nat set) list \<times> nat set option \<times> nat set option" where
  "roaring_main ops =
     (let inverted_index = build_inverted_index ops roaring_documents
      in (print_inverted_index ops inverted_index,
          map_option (bm_docs ops) (and_query ops inverted_index ''quick'' ''brown''),
          map_option (bm_docs ops) (or_query ops inverted_index ''quick'' ''hello'')))"

lemma posting_found:
  assumes laws: "bitmap_laws ops" and w: "w \<in> set (tokenize d)" "d \<in> set docs"
  obtains b where "map_of (build_inverted_index ops docs) w = Some b" "bm_docs ops b = {i. i < length docs \<and> w \<in> set (tokenize (docs ! i))}"
proof -
  have "map_of (build_inverted_index ops docs) w \<noteq> None"
    using build_index_None [OF laws, of 0 docs "[]" w] w by (auto simp: build_inverted_index_def)
  moreover have "posting ops (build_inverted_index ops docs) w = {i. i < length docs \<and> w \<in> set (tokenize (docs ! i))}"
    using build_index_posting [OF laws, of 0 docs "[]" w] by (simp add: build_inverted_index_def posting_def)
  ultimately show thesis using that by (auto simp: posting_def)
qed

lemma word_documents:
  "{i. i < length docs \<and> w \<in> set (tokenize (docs ! i))} = set (filter (\<lambda>i. List.member (tokenize (docs ! i)) w) [0..<length docs])"
  by (auto simp: List.member_iff)

lemma roaring_words:
  "{i. i < length roaring_documents \<and> ''quick'' \<in> set (tokenize (roaring_documents ! i))} = {0, 3}"
  "{i. i < length roaring_documents \<and> ''brown'' \<in> set (tokenize (roaring_documents ! i))} = {0, 3}"
  "{i. i < length roaring_documents \<and> ''hello'' \<in> set (tokenize (roaring_documents ! i))} = {2}"
  unfolding word_documents by code_simp+

text \<open>
  With any bitmap library that stores sets of ids, the program prints documents 0 and 3 for its first query and documents 0, 2 and 3 for the second.\<close>

theorem roaring_main_results:
  assumes "bitmap_laws ops"
  shows "snd (roaring_main ops) = (Some {0, 3}, Some {0, 2, 3})"
proof -
  have in_docs: "''quick'' \<in> set (tokenize (roaring_documents ! 0))" "''brown'' \<in> set (tokenize (roaring_documents ! 0))"
    "''hello'' \<in> set (tokenize (roaring_documents ! 2))" 
    using roaring_words by (simp_all add: set_eq_iff) metis+
  have docs: "roaring_documents ! 0 \<in> set roaring_documents" "roaring_documents ! 2 \<in> set roaring_documents"
    by (simp_all add: roaring_documents_def)
  note found = posting_found [OF assms]
  obtain q where q: "map_of (build_inverted_index ops roaring_documents) ''quick'' = Some q" "bm_docs ops q = {0, 3}"
    using found [OF in_docs(1) docs(1)] roaring_words(1) by metis
  obtain b where b: "map_of (build_inverted_index ops roaring_documents) ''brown'' = Some b" "bm_docs ops b = {0, 3}"
    using found [OF in_docs(2) docs(1)] roaring_words(2) by metis
  obtain h where h: "map_of (build_inverted_index ops roaring_documents) ''hello'' = Some h" "bm_docs ops h = {2}"
    using found [OF in_docs(3) docs(2)] roaring_words(3) by metis
  show ?thesis using assms q b h by (auto simp: roaring_main_def and_query_def or_query_def bitmap_laws_def Let_def)
qed

end
