(* ===== verification/LinkedLists.thy ===== *)
theory LinkedLists
  imports Prelude "HOL-Library.Monad_Syntax" "HOL-Library.Multiset"
begin

text \<open>
  The programs on singly linked lists of \<open>find_job/look_for_job.cpp\<close>: removing, reversing, sorting, swapping, merging and
  intersecting lists by pointer assignments.  Nodes live in an explicit heap and every access through a pointer is checked:
  reading or writing through a null or freed pointer gives \<^const>\<open>None\<close>.  Of \<open>ListNode\<close>, which the repository does not
  declare, only the two members the programs use are modelled.  The address an expression \<open>new ListNode(x)\<close> returns is an
  argument of the operation; the theorems assume that it is not in use.

  Loops over a list need not end when the list is cyclic, so they are partial functions: not returning is \<^const>\<open>None\<close> too,
  and the theorems state the value returned.  A list is described by the addresses of its nodes (\<open>lseg\<close>); the theorems
  say which addresses the result links, in which order, and that the rest of the heap is unchanged.
\<close>

section \<open>Heap\<close>

type_synonym ptr = "nat option"

record list_node =
  ln_val :: int
  ln_next :: ptr

type_synonym list_heap = "nat \<Rightarrow> list_node option"

definition get_next :: "list_heap \<Rightarrow> ptr \<Rightarrow> ptr option" where
  "get_next h p = do { a \<leftarrow> p; n \<leftarrow> h a; Some (ln_next n) }"

definition get_val :: "list_heap \<Rightarrow> ptr \<Rightarrow> int option" where
  "get_val h p = do { a \<leftarrow> p; n \<leftarrow> h a; Some (ln_val n) }"

definition set_next :: "ptr \<Rightarrow> ptr \<Rightarrow> list_heap \<Rightarrow> list_heap option" where
  "set_next p q h = do { a \<leftarrow> p; n \<leftarrow> h a; Some (h(a \<mapsto> n\<lparr>ln_next := q\<rparr>)) }"

definition set_val :: "ptr \<Rightarrow> int \<Rightarrow> list_heap \<Rightarrow> list_heap option" where
  "set_val p v h = do { a \<leftarrow> p; n \<leftarrow> h a; Some (h(a \<mapsto> n\<lparr>ln_val := v\<rparr>)) }"

definition new_list_node :: "nat \<Rightarrow> int \<Rightarrow> ptr \<Rightarrow> list_heap \<Rightarrow> list_heap" where
  "new_list_node a v q h = h(a \<mapsto> \<lparr>ln_val = v, ln_next = q\<rparr>)"

text \<open>\<open>delete\<close> of a null pointer does nothing, of a freed one is an error.\<close>

definition delete_node :: "ptr \<Rightarrow> list_heap \<Rightarrow> list_heap option" where
  "delete_node p h = (case p of None \<Rightarrow> Some h | Some a \<Rightarrow> do { n \<leftarrow> h a; Some (h(a := None)) })"

section \<open>Programs\<close>

subsection \<open>Removing the elements with a value\<close>

partial_function (option) remove_loop :: "int \<Rightarrow> ptr \<Rightarrow> list_heap \<Rightarrow> list_heap option" where
  "remove_loop v cur h =
     do {
       nx \<leftarrow> get_next h cur;
       (if nx = None then Some h
        else do {
          x \<leftarrow> get_val h nx;
          (if x = v
           then do {
             temp \<leftarrow> get_next h nx;
             h1 \<leftarrow> delete_node nx h;
             h2 \<leftarrow> set_next cur temp h1;
             remove_loop v cur h2
           }
           else remove_loop v nx h)
        })
     }"

definition remove_elements :: "nat \<Rightarrow> ptr \<Rightarrow> int \<Rightarrow> list_heap \<Rightarrow> (ptr \<times> list_heap) option" where
  "remove_elements head_head head v h =
     do {
       h1 \<leftarrow> remove_loop v (Some head_head) (new_list_node head_head 1 head h);
       res \<leftarrow> get_next h1 (Some head_head);
       h2 \<leftarrow> delete_node (Some head_head) h1;
       Some (res, h2)
     }"

subsection \<open>Reversing\<close>

partial_function (option) reverse_loop :: "ptr \<Rightarrow> ptr \<Rightarrow> list_heap \<Rightarrow> (ptr \<times> list_heap) option" where
  "reverse_loop pre cur h =
     (if cur = None then Some (pre, h)
      else do {
        temp \<leftarrow> get_next h cur;
        h1 \<leftarrow> set_next cur pre h;
        reverse_loop cur temp h1
      })"

definition reverse_list :: "ptr \<Rightarrow> list_heap \<Rightarrow> (ptr \<times> list_heap) option" where
  "reverse_list head h = reverse_loop None head h"

subsection \<open>Sorting\<close>

partial_function (option) collect_loop :: "list_heap \<Rightarrow> int list \<Rightarrow> ptr \<Rightarrow> int list option" where
  "collect_loop h temp cur =
     (if cur = None then Some temp
      else do {
        x \<leftarrow> get_val h cur;
        nx \<leftarrow> get_next h cur;
        collect_loop h (temp @ [x]) nx
      })"

partial_function (option) fill_loop :: "int list \<Rightarrow> nat \<Rightarrow> ptr \<Rightarrow> list_heap \<Rightarrow> list_heap option" where
  "fill_loop temp i cur h =
     (if cur = None then Some h
      else if i < length temp
      then do {
        h1 \<leftarrow> set_val cur (temp ! i) h;
        nx \<leftarrow> get_next h1 cur;
        fill_loop temp (Suc i) nx h1
      }
      else None)"

definition sort_in_list :: "ptr \<Rightarrow> list_heap \<Rightarrow> (ptr \<times> list_heap) option" where
  "sort_in_list head h =
     do {
       temp \<leftarrow> collect_loop h [] head;
       h1 \<leftarrow> fill_loop (sort temp) 0 head h;
       Some (head, h1)
     }"

subsection \<open>Removing all repeated values of a sorted list\<close>

partial_function (option) skip_loop :: "int \<Rightarrow> ptr \<Rightarrow> list_heap \<Rightarrow> list_heap option" where
  "skip_loop x cur h =
     do {
       nx \<leftarrow> get_next h cur;
       (if nx = None then Some h
        else do {
          y \<leftarrow> get_val h nx;
          (if y = x
           then do {
             nn \<leftarrow> get_next h nx;
             h1 \<leftarrow> set_next cur nn h;
             skip_loop x cur h1
           }
           else Some h)
        })
     }"

partial_function (option) duplicates_loop :: "ptr \<Rightarrow> list_heap \<Rightarrow> list_heap option" where
  "duplicates_loop cur h =
     do {
       nx \<leftarrow> get_next h cur;
       (if nx = None then Some h
        else do {
          nn \<leftarrow> get_next h nx;
          (if nn = None then Some h
           else do {
             x \<leftarrow> get_val h nx;
             y \<leftarrow> get_val h nn;
             (if x = y
              then do { h1 \<leftarrow> skip_loop x cur h; duplicates_loop cur h1 }
              else duplicates_loop nx h)
           })
        })
     }"

definition delete_duplicates :: "nat \<Rightarrow> ptr \<Rightarrow> list_heap \<Rightarrow> (ptr \<times> list_heap) option" where
  "delete_duplicates dump head h =
     (if head = None then Some (head, h)
      else do {
        h1 \<leftarrow> duplicates_loop (Some dump) (new_list_node dump 0 head h);
        res \<leftarrow> get_next h1 (Some dump);
        Some (res, h1)
      })"

subsection \<open>Removing the n-th node from the end\<close>

primrec advance :: "list_heap \<Rightarrow> nat \<Rightarrow> ptr \<Rightarrow> ptr option" where
  "advance h 0 p = Some p"
| "advance h (Suc n) p = do { q \<leftarrow> get_next h p; advance h n q }"

partial_function (option) chase_loop :: "list_heap \<Rightarrow> ptr \<Rightarrow> ptr \<Rightarrow> ptr option" where
  "chase_loop h fast solw =
     do {
       f \<leftarrow> get_next h fast;
       (if f = None then Some solw
        else do { s \<leftarrow> get_next h solw; chase_loop h f s })
     }"

definition remove_nth_from_end :: "nat \<Rightarrow> ptr \<Rightarrow> int \<Rightarrow> list_heap \<Rightarrow> (ptr \<times> list_heap) option" where
  "remove_nth_from_end head_head head n h =
     (let h0 = new_list_node head_head 1 head h
      in do {
        fast \<leftarrow> advance h0 (nat n) (Some head_head);
        solw \<leftarrow> chase_loop h0 fast (Some head_head);
        nx \<leftarrow> get_next h0 solw;
        nn \<leftarrow> get_next h0 nx;
        h1 \<leftarrow> set_next solw nn h0;
        res \<leftarrow> get_next h1 (Some head_head);
        h2 \<leftarrow> delete_node (Some head_head) h1;
        Some (res, h2)
      })"

subsection \<open>Swapping neighbours\<close>

partial_function (option) swap_loop :: "ptr \<Rightarrow> list_heap \<Rightarrow> list_heap option" where
  "swap_loop cur h =
     do {
       tem \<leftarrow> get_next h cur;
       (if tem = None then Some h
        else do {
          second \<leftarrow> get_next h tem;
          (if second = None then Some h
           else do {
             tem1 \<leftarrow> get_next h second;
             h1 \<leftarrow> set_next cur second h;
             c1 \<leftarrow> get_next h1 cur;
             h2 \<leftarrow> set_next c1 tem h1;
             c2 \<leftarrow> get_next h2 cur;
             c3 \<leftarrow> get_next h2 c2;
             h3 \<leftarrow> set_next c3 tem1 h2;
             c4 \<leftarrow> get_next h3 cur;
             c5 \<leftarrow> get_next h3 c4;
             swap_loop c5 h3
           })
        })
     }"

definition swap_pairs :: "nat \<Rightarrow> ptr \<Rightarrow> list_heap \<Rightarrow> (ptr \<times> list_heap) option" where
  "swap_pairs temp head h =
     do {
       h1 \<leftarrow> swap_loop (Some temp) (new_list_node temp 0 head h);
       res \<leftarrow> get_next h1 (Some temp);
       Some (res, h1)
     }"

subsection \<open>Intersection of two lists\<close>

partial_function (option) length_loop :: "list_heap \<Rightarrow> nat \<Rightarrow> ptr \<Rightarrow> nat option" where
  "length_loop h len cur =
     (if cur = None then Some len else do { nx \<leftarrow> get_next h cur; length_loop h (Suc len) nx })"

partial_function (option) meet_loop :: "list_heap \<Rightarrow> ptr \<Rightarrow> ptr \<Rightarrow> ptr option" where
  "meet_loop h cur1 cur2 =
     (if cur1 = None then Some None
      else if cur2 = cur1 then Some cur1
      else do { n1 \<leftarrow> get_next h cur1; n2 \<leftarrow> get_next h cur2; meet_loop h n1 n2 })"

definition get_intersection_node :: "list_heap \<Rightarrow> ptr \<Rightarrow> ptr \<Rightarrow> ptr option" where
  "get_intersection_node h headA headB =
     do {
       len1 \<leftarrow> length_loop h 0 headA;
       len2 \<leftarrow> length_loop h 0 headB;
       (if len1 > len2
        then do { cur1 \<leftarrow> advance h (len1 - len2) headA; meet_loop h cur1 headB }
        else do { cur2 \<leftarrow> advance h (len2 - len1) headB; meet_loop h headA cur2 })
     }"

subsection \<open>Merging sorted lists\<close>

partial_function (option) merge_lists :: "ptr \<Rightarrow> ptr \<Rightarrow> list_heap \<Rightarrow> (ptr \<times> list_heap) option" where
  "merge_lists p1 p2 h =
     (if p1 = None then Some (p2, h)
      else if p2 = None then Some (p1, h)
      else do {
        x \<leftarrow> get_val h p1;
        y \<leftarrow> get_val h p2;
        (if x < y
         then do {
           n1 \<leftarrow> get_next h p1;
           (r, h1) \<leftarrow> merge_lists n1 p2 h;
           h2 \<leftarrow> set_next p1 r h1;
           Some (p1, h2)
         }
         else do {
           n2 \<leftarrow> get_next h p2;
           (r, h1) \<leftarrow> merge_lists p1 n2 h;
           h2 \<leftarrow> set_next p2 r h1;
           Some (p2, h2)
         })
      })"

subsection \<open>Reversing groups of k nodes\<close>

text \<open>\<open>full_group\<close>: the test loop.  It tells whether \<open>k\<close> nodes are left, and where the rest begins.\<close>

primrec full_group :: "list_heap \<Rightarrow> nat \<Rightarrow> ptr \<Rightarrow> (bool \<times> ptr) option" where
  "full_group h 0 node = Some (True, node)"
| "full_group h (Suc k) node =
     (if node = None then Some (False, node) else do { nx \<leftarrow> get_next h node; full_group h k nx })"

partial_function (option) reverse_until :: "ptr \<Rightarrow> ptr \<Rightarrow> ptr \<Rightarrow> list_heap \<Rightarrow> (ptr \<times> list_heap) option" where
  "reverse_until right pre left h =
     (if left = right then Some (pre, h)
      else do {
        node \<leftarrow> get_next h left;
        h1 \<leftarrow> set_next left pre h;
        reverse_until right left node h1
      })"

partial_function (option) reverse_k_group :: "int \<Rightarrow> ptr \<Rightarrow> list_heap \<Rightarrow> (ptr \<times> list_heap) option" where
  "reverse_k_group k head h =
     do {
       (full, node) \<leftarrow> full_group h (nat k) head;
       (if \<not> full then Some (head, h)
        else do {
          (res, h1) \<leftarrow> reverse_until node node head h;
          (r, h2) \<leftarrow> reverse_k_group k node h1;
          h3 \<leftarrow> set_next head r h2;
          Some (res, h3)
        })
     }"

text \<open>The second version reverses with a counter and a local \<open>next\<close> that stays null when \<open>k\<close> is 0.\<close>

primrec reverse_count :: "nat \<Rightarrow> ptr \<Rightarrow> ptr \<Rightarrow> ptr \<Rightarrow> list_heap \<Rightarrow> (ptr \<times> ptr \<times> list_heap) option" where
  "reverse_count 0 pre cur nx h = Some (pre, nx, h)"
| "reverse_count (Suc k) pre cur nx h =
     do { n \<leftarrow> get_next h cur; h1 \<leftarrow> set_next cur pre h; reverse_count k cur n n h1 }"

partial_function (option) reverse_k_group_iter :: "int \<Rightarrow> ptr \<Rightarrow> list_heap \<Rightarrow> (ptr \<times> list_heap) option" where
  "reverse_k_group_iter k head h =
     do {
       (full, cur) \<leftarrow> full_group h (nat k) head;
       (if \<not> full then Some (head, h)
        else do {
          (pre, nx, h1) \<leftarrow> reverse_count (nat k) None head None h;
          (r, h2) \<leftarrow> reverse_k_group_iter k nx h1;
          h3 \<leftarrow> set_next head r h2;
          Some (pre, h3)
        })
     }"

section \<open>Lists in the heap\<close>

text \<open>\<open>lseg h p as q\<close>: from \<open>p\<close> the \<open>next\<close> pointers lead through the nodes \<open>as\<close> to \<open>q\<close>.\<close>

fun lseg :: "list_heap \<Rightarrow> ptr \<Rightarrow> nat list \<Rightarrow> ptr \<Rightarrow> bool" where
  "lseg h p [] q \<longleftrightarrow> p = q"
| "lseg h p (a # as) q \<longleftrightarrow> p = Some a \<and> (\<exists>n. h a = Some n \<and> lseg h (ln_next n) as q)"

definition node_val :: "list_heap \<Rightarrow> nat \<Rightarrow> int" where
  "node_val h a = (case h a of None \<Rightarrow> 0 | Some n \<Rightarrow> ln_val n)"

definition vals :: "list_heap \<Rightarrow> nat list \<Rightarrow> int list" where
  "vals h as = map (node_val h) as"

text \<open>What pointer assignments within a set of nodes leave alone: the nodes that are allocated, their values, and every node
  outside the set.\<close>

definition relinks :: "nat set \<Rightarrow> list_heap \<Rightarrow> list_heap \<Rightarrow> bool" where
  "relinks A h h' \<longleftrightarrow> (\<forall>a. map_option ln_val (h' a) = map_option ln_val (h a)) \<and> (\<forall>a. a \<notin> A \<longrightarrow> h' a = h a)"

named_theorems heap_simps \<open>evaluation of accesses through pointers to allocated nodes\<close>

lemma get_next_Some [heap_simps]: "h a = Some n \<Longrightarrow> get_next h (Some a) = Some (ln_next n)"
  by (simp add: get_next_def)

lemma get_val_Some [heap_simps]: "h a = Some n \<Longrightarrow> get_val h (Some a) = Some (ln_val n)"
  by (simp add: get_val_def)

lemma set_next_Some [heap_simps]: "h a = Some n \<Longrightarrow> set_next (Some a) q h = Some (h(a \<mapsto> n\<lparr>ln_next := q\<rparr>))"
  by (simp add: set_next_def)

lemma set_val_Some [heap_simps]: "h a = Some n \<Longrightarrow> set_val (Some a) v h = Some (h(a \<mapsto> n\<lparr>ln_val := v\<rparr>))"
  by (simp add: set_val_def)

lemma delete_node_Some [heap_simps]: "h a = Some n \<Longrightarrow> delete_node (Some a) h = Some (h(a := None))"
  by (simp add: delete_node_def)

lemma access_null [heap_simps]:
  "get_next h None = None" "get_val h None = None" "set_next None q h = None" "set_val None v h = None"
  by (simp_all add: get_next_def get_val_def set_next_def set_val_def)

lemma relinks_refl [simp]: "relinks A h h"
  by (simp add: relinks_def)

lemma relinks_trans: "relinks A h h' \<Longrightarrow> relinks B h' h'' \<Longrightarrow> A \<subseteq> C \<Longrightarrow> B \<subseteq> C \<Longrightarrow> relinks C h h''"
  unfolding relinks_def by (metis subsetD)

lemma relinks_upd: "h a = Some n \<Longrightarrow> a \<in> A \<Longrightarrow> relinks A h (h(a \<mapsto> n\<lparr>ln_next := q\<rparr>))"
  by (auto simp: relinks_def)

lemma relinks_upd_trans:
  "relinks A (h(a \<mapsto> n\<lparr>ln_next := q\<rparr>)) h' \<Longrightarrow> h a = Some n \<Longrightarrow> a \<in> C \<Longrightarrow> A \<subseteq> C \<Longrightarrow> relinks C h h'"
  by (rule relinks_trans [OF relinks_upd [of h a n C]]) auto

lemma relinks_val: "relinks A h h' \<Longrightarrow> node_val h' a = node_val h a"
  by (cases "h a"; cases "h' a") (auto simp: relinks_def node_val_def dest: spec [of _ a])

lemma relinks_vals: "relinks A h h' \<Longrightarrow> vals h' as = vals h as"
  by (simp add: vals_def relinks_val)

lemma relinks_alloc: "relinks A h h' \<Longrightarrow> h a = Some n \<Longrightarrow> \<exists>n'. h' a = Some n' \<and> ln_val n' = ln_val n"
  by (cases "h' a") (auto simp: relinks_def dest: spec [of _ a])

lemma relinks_outside: "relinks A h h' \<Longrightarrow> a \<notin> A \<Longrightarrow> h' a = h a"
  by (simp add: relinks_def)

lemma lseg_cong: "(\<And>a. a \<in> set as \<Longrightarrow> h' a = h a) \<Longrightarrow> lseg h' p as q = lseg h p as q"
  by (induction as arbitrary: p) auto

lemma lseg_upd [simp]: "a \<notin> set as \<Longrightarrow> lseg (h(a := n)) p as q = lseg h p as q"
  by (rule lseg_cong) auto

lemma lseg_relinks: "relinks A h h' \<Longrightarrow> set as \<inter> A = {} \<Longrightarrow> lseg h' p as q = lseg h p as q"
  by (rule lseg_cong) (auto simp: relinks_def)

lemma lseg_append: "lseg h p (as @ bs) q \<longleftrightarrow> (\<exists>r. lseg h p as r \<and> lseg h r bs q)"
  by (induction as arbitrary: p) auto

lemma lseg_unique: "lseg h p as None \<Longrightarrow> lseg h p bs None \<Longrightarrow> as = bs"
proof (induction as arbitrary: p bs)
  case Nil
  then show ?case by (cases bs) auto
next
  case (Cons a as)
  then show ?case by (cases bs) auto
qed

lemma lseg_alloc: "lseg h p as q \<Longrightarrow> a \<in> set as \<Longrightarrow> \<exists>n. h a = Some n"
  by (induction as arbitrary: p) auto

lemma lseg_null: "lseg h None as q \<longleftrightarrow> as = [] \<and> q = None"
  by (cases as) auto

lemma lseg_distinct: "lseg h p as None \<Longrightarrow> distinct as"
proof (rule ccontr)
  assume l: "lseg h p as None" and "\<not> distinct as"
  then obtain xs ys zs a where as: "as = xs @ [a] @ ys @ [a] @ zs" using not_distinct_decomp by blast
  obtain r where r: "lseg h r ([a] @ ys @ [a] @ zs) None" using l unfolding as lseg_append by blast
  then have "r = Some a" by simp
  moreover obtain s where s: "lseg h s ([a] @ zs) None"
    using r lseg_append [of h r "[a] @ ys" "[a] @ zs"] by auto
  moreover from s have "s = Some a" by simp
  ultimately have "[a] @ ys @ [a] @ zs = [a] @ zs" using r lseg_unique by metis
  then show False by simp
qed

lemma vals_Cons [simp]: "vals h (a # as) = node_val h a # vals h as" "vals h [] = []"
  by (simp_all add: vals_def)

lemma vals_append [simp]: "vals h (as @ bs) = vals h as @ vals h bs"
  by (simp add: vals_def)

lemma length_vals [simp]: "length (vals h as) = length as"
  by (simp add: vals_def)

lemma lseg_snoc: "lseg h p (as @ [a]) q \<longleftrightarrow> lseg h p as (Some a) \<and> (\<exists>n. h a = Some n \<and> ln_next n = q)"
  by (auto simp: lseg_append)

lemma lseg_redirect: "lseg h p (as @ [a]) q \<Longrightarrow> a \<notin> set as \<Longrightarrow> h a = Some n \<Longrightarrow>
    lseg (h(a \<mapsto> n\<lparr>ln_next := r\<rparr>)) p (as @ [a]) r"
  by (simp add: lseg_snoc)

section \<open>Reversing\<close>

lemma reverse_loop_ok:
  assumes "lseg h cur as None"
  shows "\<exists>p h'. reverse_loop pre cur h = Some (p, h') \<and> lseg h' p (rev as) pre \<and> relinks (set as) h h'"
  using assms
proof (induction as arbitrary: cur pre h)
  case Nil
  then show ?case by (subst reverse_loop.simps) simp
next
  case (Cons a as)
  from Cons.prems obtain n where n: "cur = Some a" "h a = Some n" "lseg h (ln_next n) as None" by auto
  have a: "a \<notin> set as" using lseg_distinct [OF Cons.prems] by simp
  let ?h = "h(a \<mapsto> n\<lparr>ln_next := pre\<rparr>)"
  have "lseg ?h (ln_next n) as None" using n(3) a by simp
  then obtain p h' where r: "reverse_loop (Some a) (ln_next n) ?h = Some (p, h')" "lseg h' p (rev as) (Some a)"
    "relinks (set as) ?h h'" using Cons.IH by blast
  have "h' a = Some (n\<lparr>ln_next := pre\<rparr>)" using relinks_outside [OF r(3) a] by simp
  then have "lseg h' p (rev (a # as)) pre" using r(2) by (simp add: lseg_snoc)
  moreover have "relinks (set (a # as)) h h'" by (rule relinks_upd_trans [OF r(3) n(2)]) auto
  ultimately show ?case using n r(1) by (subst reverse_loop.simps) (simp add: heap_simps)
qed

text \<open>
  Reversing a null-terminated list returns, links its nodes in the opposite order, and changes neither their values nor
  any other node.\<close>

theorem reverse_list_correct:
  assumes "lseg h head as None"
  shows "\<exists>p h'. reverse_list head h = Some (p, h') \<and> lseg h' p (rev as) None \<and> relinks (set as) h h'"
  using reverse_loop_ok [OF assms] by (simp add: reverse_list_def)

section \<open>Removing\<close>

lemma remove_loop_ok:
  assumes "h c = Some n0" and "lseg h (ln_next n0) as None" and "c \<notin> set as"
  shows "\<exists>h'. remove_loop v (Some c) h = Some h' \<and>
           (\<exists>q. get_next h' (Some c) = Some q \<and> lseg h' q (filter (\<lambda>a. node_val h a \<noteq> v) as) None) \<and>
           relinks (insert c (set as)) (h |` (- {a \<in> set as. node_val h a = v})) h'"
  using assms
proof (induction as arbitrary: c n0 h)
  case Nil
  then show ?case by (subst remove_loop.simps) (simp add: heap_simps restrict_map_def)
next
  case (Cons a as)
  from Cons.prems(2) obtain n where n: "ln_next n0 = Some a" "h a = Some n" "lseg h (ln_next n) as None" by auto
  have a: "a \<notin> set as" using lseg_distinct [OF Cons.prems(2)] by simp
  have ca: "c \<noteq> a" "c \<notin> set as" using Cons.prems(3) by auto
  have nv: "node_val h a = ln_val n" using n(2) by (simp add: node_val_def)
  show ?case
  proof (cases "ln_val n = v")
    case True
    let ?h = "(h(a := None))(c \<mapsto> n0\<lparr>ln_next := ln_next n\<rparr>)"
    have v: "node_val ?h b = node_val h b" if "b \<in> set as" for b
      using that a ca by (auto simp: node_val_def)
    have f: "filter (\<lambda>b. node_val ?h b \<noteq> v) as = filter (\<lambda>b. node_val h b \<noteq> v) as"
      by (rule filter_cong) (simp_all add: v)
    have s: "{b \<in> set as. node_val ?h b = v} = {b \<in> set as. node_val h b = v}" using v by auto
    have hc: "?h c = Some (n0\<lparr>ln_next := ln_next n\<rparr>)" by simp
    have l: "lseg ?h (ln_next (n0\<lparr>ln_next := ln_next n\<rparr>)) as None" using n(3) a ca(2) by simp
    obtain h' q where r: "remove_loop v (Some c) ?h = Some h'" "get_next h' (Some c) = Some q"
      "lseg h' q (filter (\<lambda>b. node_val h b \<noteq> v) as) None"
      "relinks (insert c (set as)) (?h |` (- {b \<in> set as. node_val h b = v})) h'"
      using Cons.IH [of ?h c "n0\<lparr>ln_next := ln_next n\<rparr>", OF hc l ca(2)] unfolding f s by blast
    have "relinks {c} (h |` (- {b \<in> set (a # as). node_val h b = v})) (?h |` (- {b \<in> set as. node_val h b = v}))"
      using nv True ca Cons.prems(1) a by (auto simp: relinks_def restrict_map_def)
    then have "relinks (insert c (set (a # as))) (h |` (- {b \<in> set (a # as). node_val h b = v})) h'"
      by (rule relinks_trans [OF _ r(4)]) auto
    moreover have "remove_loop v (Some c) h = Some h'"
      using n Cons.prems(1) True ca r(1) by (subst remove_loop.simps) (simp add: heap_simps)
    ultimately show ?thesis using r(2,3) nv True by auto
  next
    case False
    obtain h' q where r: "remove_loop v (Some a) h = Some h'" "get_next h' (Some a) = Some q"
      "lseg h' q (filter (\<lambda>b. node_val h b \<noteq> v) as) None"
      "relinks (insert a (set as)) (h |` (- {b \<in> set as. node_val h b = v})) h'"
      using Cons.IH [OF n(2,3) a] by auto
    have "h' c = h c" using relinks_outside [OF r(4), of c] ca by (simp add: restrict_map_def)
    moreover obtain m where "h' a = Some m" "ln_next m = q" using r(2) by (cases "h' a") (auto simp: get_next_def)
    moreover have "{b \<in> set (a # as). node_val h b = v} = {b \<in> set as. node_val h b = v}" using nv False by auto
    moreover have "relinks (insert c (set (a # as))) (h |` (- {b \<in> set as. node_val h b = v})) h'"
      by (rule relinks_trans [OF relinks_refl [of "{}"] r(4)]) auto
    moreover have "remove_loop v (Some c) h = Some h'"
      using n Cons.prems(1) False r(1) by (subst remove_loop.simps) (simp add: heap_simps)
    ultimately show ?thesis using r(3) nv False n(1) Cons.prems(1) by (auto simp: heap_simps)
  qed
qed

lemma new_node_seg: "h d = None \<Longrightarrow> lseg h p as q \<Longrightarrow> d \<notin> set as \<and> lseg (new_list_node d v r h) p as q"
  by (metis lseg_alloc lseg_upd new_list_node_def option.distinct(1))

text \<open>
  Removing a value from a null-terminated list frees exactly the nodes that hold it, links the others in their order, and
  leaves the rest of the heap as it was, the temporary first node included.\<close>

theorem remove_elements_correct:
  assumes "lseg h head as None" and "h d = None"
  shows "\<exists>p h'. remove_elements d head v h = Some (p, h') \<and>
           lseg h' p (filter (\<lambda>a. node_val h a \<noteq> v) as) None \<and>
           relinks (set as) (h |` (- {a \<in> set as. node_val h a = v})) h'"
proof -
  let ?h = "new_list_node d 1 head h"
  have d: "d \<notin> set as" and l: "lseg ?h head as None" using new_node_seg [OF assms(2,1)] by auto
  have nd: "?h d = Some \<lparr>ln_val = 1, ln_next = head\<rparr>" by (simp add: new_list_node_def)
  have v: "node_val ?h a = node_val h a" if "a \<in> set as" for a
    using that d by (auto simp: node_val_def new_list_node_def)
  have f: "filter (\<lambda>a. node_val ?h a \<noteq> v) as = filter (\<lambda>a. node_val h a \<noteq> v) as"
    by (rule filter_cong) (simp_all add: v)
  have s: "{a \<in> set as. node_val ?h a = v} = {a \<in> set as. node_val h a = v}" using v by auto
  obtain h1 q where r: "remove_loop v (Some d) ?h = Some h1" "get_next h1 (Some d) = Some q"
    "lseg h1 q (filter (\<lambda>a. node_val h a \<noteq> v) as) None"
    "relinks (insert d (set as)) (?h |` (- {a \<in> set as. node_val h a = v})) h1"
    using remove_loop_ok [of ?h d "\<lparr>ln_val = 1, ln_next = head\<rparr>" as v] nd l d unfolding f s by auto
  obtain m where m: "h1 d = Some m" using r(2) by (cases "h1 d") (auto simp: get_next_def)
  have "relinks (set as) (h |` (- {a \<in> set as. node_val h a = v})) (h1(d := None))"
    using r(4) assms(2) d by (auto simp: relinks_def restrict_map_def new_list_node_def split: if_splits)
  moreover have "lseg (h1(d := None)) q (filter (\<lambda>a. node_val h a \<noteq> v) as) None" using r(3) d by simp
  ultimately show ?thesis using r(1,2) m by (simp add: remove_elements_def heap_simps)
qed

section \<open>Sorting\<close>

lemma collect_loop_ok: "lseg h cur as None \<Longrightarrow> collect_loop h temp cur = Some (temp @ vals h as)"
proof (induction as arbitrary: cur temp)
  case Nil
  then show ?case by (subst collect_loop.simps) simp
next
  case (Cons a as)
  then obtain n where n: "cur = Some a" "h a = Some n" "lseg h (ln_next n) as None" by auto
  then show ?case using Cons.IH by (subst collect_loop.simps) (simp add: heap_simps node_val_def)
qed

lemma fill_loop_ok:
  assumes "lseg h cur as None" and "length (drop i temp) = length as"
  shows "\<exists>h'. fill_loop temp i cur h = Some h' \<and> lseg h' cur as None \<and> vals h' as = drop i temp \<and>
           (\<forall>a. a \<notin> set as \<longrightarrow> h' a = h a)"
  using assms
proof (induction as arbitrary: cur i h)
  case Nil
  then show ?case by (subst fill_loop.simps) simp
next
  case (Cons a as)
  from Cons.prems(1) obtain n where n: "cur = Some a" "h a = Some n" "lseg h (ln_next n) as None" by auto
  have a: "a \<notin> set as" using lseg_distinct [OF Cons.prems(1)] by simp
  have i: "i < length temp" using Cons.prems(2) by simp
  let ?h = "h(a \<mapsto> n\<lparr>ln_val := temp ! i\<rparr>)"
  have "lseg ?h (ln_next n) as None" using n(3) a by simp
  moreover have "length (drop (Suc i) temp) = length as" using Cons.prems(2) by simp
  ultimately obtain h' where r: "fill_loop temp (Suc i) (ln_next n) ?h = Some h'" "lseg h' (ln_next n) as None"
    "vals h' as = drop (Suc i) temp" "\<forall>b. b \<notin> set as \<longrightarrow> h' b = ?h b"
    using Cons.IH by blast
  have "h' a = Some (n\<lparr>ln_val := temp ! i\<rparr>)" using r(4) a by simp
  moreover have "temp ! i # drop (Suc i) temp = drop i temp" using i by (simp add: Cons_nth_drop_Suc)
  moreover have "fill_loop temp i cur h = Some h'"
    using n i r(1) by (subst fill_loop.simps) (simp add: heap_simps)
  ultimately show ?case using n r(2-4) by (auto simp: node_val_def)
qed

text \<open>
  Sorting a list keeps its nodes linked as they were and leaves the values in ascending order, without touching any other
  node.\<close>

theorem sort_in_list_correct:
  assumes "lseg h head as None"
  shows "\<exists>h'. sort_in_list head h = Some (head, h') \<and> lseg h' head as None \<and> vals h' as = sort (vals h as) \<and>
           (\<forall>a. a \<notin> set as \<longrightarrow> h' a = h a)"
  using collect_loop_ok [OF assms, of "[]"] fill_loop_ok [OF assms, of 0 "sort (vals h as)"]
  by (auto simp: sort_in_list_def)

section \<open>Removing repeated values\<close>

text \<open>What the loops do to a list that need not be sorted: every run of equal values of length two or more is dropped.\<close>

function drop_runs :: "('a \<Rightarrow> 'b) \<Rightarrow> 'a list \<Rightarrow> 'a list" where
  "drop_runs f [] = []"
| "drop_runs f [a] = [a]"
| "drop_runs f (a # b # as) =
     (if f a = f b then drop_runs f (dropWhile (\<lambda>c. f c = f a) as) else a # drop_runs f (b # as))"
  by pat_completeness auto
termination by (relation "measure (length \<circ> snd)") (auto simp: le_imp_less_Suc length_dropWhile_le le_SucI)

lemma set_drop_runs: "set (drop_runs f as) \<subseteq> set as"
proof (induction f as rule: drop_runs.induct)
  case (3 f a b as)
  show ?case
  proof (cases "f a = f b")
    case True
    then show ?thesis using "3.IH"(1) set_dropWhileD by fastforce
  qed (use "3.IH"(2) in auto)
qed simp_all

lemma sorted_dropWhile_eq:
  fixes x :: "'b :: linorder"
  shows "sorted (x # map f as) \<Longrightarrow> dropWhile (\<lambda>c. f c = x) as = filter (\<lambda>c. f c \<noteq> x) as"
proof (induction as)
  case (Cons a as)
  show ?case
  proof (cases "f a = x")
    case False
    then have "\<forall>c\<in>set as. f c \<noteq> x" using Cons.prems by auto
    then show ?thesis using False by simp
  qed (use Cons in simp)
qed simp

lemma count_list_map_filter:
  "count_list (map f (filter (\<lambda>c. f c \<noteq> x) as)) y = (if y = x then 0 else count_list (map f as) y)"
  by (induction as) auto

lemma drop_runs_sorted:
  fixes f :: "'a \<Rightarrow> 'b :: linorder"
  shows "sorted (map f as) \<Longrightarrow> drop_runs f as = filter (\<lambda>a. count_list (map f as) (f a) = 1) as"
proof (induction f as rule: drop_runs.induct)
  case (3 f a b as)
  have above: "\<forall>c\<in>set as. f a \<le> f b \<and> f b \<le> f c" using "3.prems" by auto
  show ?case
  proof (cases "f a = f b")
    case True
    let ?r = "filter (\<lambda>c. f c \<noteq> f a) as"
    have d: "dropWhile (\<lambda>c. f c = f a) as = ?r" using "3.prems" by (intro sorted_dropWhile_eq) simp
    have "sorted (map f ?r)" using "3.prems" by (intro sorted_filter) simp
    then have "drop_runs f ?r = filter (\<lambda>c. count_list (map f ?r) (f c) = 1) ?r"
      using "3.IH"(1) [OF True] d by metis
    also have "\<dots> = filter (\<lambda>c. count_list (map f (a # b # as)) (f c) = 1) as"
      unfolding count_list_map_filter filter_filter by (rule filter_cong) (auto simp: True)
    finally show ?thesis using True d by simp
  next
    case False
    then have "count_list (map f as) (f a) = 0" using above by (force simp: count_list_0_iff)
    moreover have "f c \<noteq> f a" if "c \<in> set (b # as)" for c using that above False by fastforce
    ultimately show ?thesis using "3.IH"(2) [OF False] "3.prems" False by (auto intro!: filter_cong)
  qed
qed simp_all

lemma skip_loop_ok:
  assumes "h c = Some n0" and "lseg h (ln_next n0) as None" and "c \<notin> set as"
  shows "\<exists>q. skip_loop x (Some c) h = Some (h(c \<mapsto> n0\<lparr>ln_next := q\<rparr>)) \<and>
           lseg h q (dropWhile (\<lambda>a. node_val h a = x) as) None"
  using assms
proof (induction as arbitrary: n0 h)
  case Nil
  then have "skip_loop x (Some c) h = Some h" by (subst skip_loop.simps) (simp add: heap_simps)
  moreover have "h = h(c \<mapsto> n0\<lparr>ln_next := None\<rparr>)" using Nil by (auto simp: fun_eq_iff)
  ultimately show ?case by (intro exI [of _ None]) simp
next
  case (Cons a as)
  from Cons.prems(2) obtain n where n: "ln_next n0 = Some a" "h a = Some n" "lseg h (ln_next n) as None" by auto
  have ca: "c \<noteq> a" "c \<notin> set as" using Cons.prems(3) by auto
  have nv: "node_val h a = ln_val n" using n(2) by (simp add: node_val_def)
  show ?case
  proof (cases "ln_val n = x")
    case True
    let ?n = "n0\<lparr>ln_next := ln_next n\<rparr>" let ?h = "h(c \<mapsto> ?n)"
    have hc: "?h c = Some ?n" by simp
    have l: "lseg ?h (ln_next ?n) as None" using n(3) ca by simp
    have v: "dropWhile (\<lambda>b. node_val ?h b = x) as = dropWhile (\<lambda>b. node_val h b = x) as"
      by (rule dropWhile_cong) (use ca in \<open>auto simp: node_val_def\<close>)
    obtain q where q: "skip_loop x (Some c) ?h = Some (?h(c \<mapsto> ?n\<lparr>ln_next := q\<rparr>))"
      "lseg ?h q (dropWhile (\<lambda>b. node_val h b = x) as) None"
      using Cons.IH [of ?h ?n, OF hc l ca(2)] unfolding v by blast
    have "lseg h q (dropWhile (\<lambda>b. node_val h b = x) as) None"
      using q(2) ca(2) set_dropWhileD by (metis lseg_upd)
    moreover have "skip_loop x (Some c) h = Some (h(c \<mapsto> n0\<lparr>ln_next := q\<rparr>))"
      using n Cons.prems(1) True q(1) by (subst skip_loop.simps) (simp add: heap_simps)
    ultimately show ?thesis using nv True by (intro exI [of _ q]) (simp add: fun_upd_def)
  next
    case False
    then have "skip_loop x (Some c) h = Some h" using n Cons.prems(1) by (subst skip_loop.simps) (simp add: heap_simps)
    moreover have "h = h(c \<mapsto> n0\<lparr>ln_next := Some a\<rparr>)" using Cons.prems(1) n(1) by (auto simp: fun_eq_iff)
    ultimately show ?thesis using n nv False by (intro exI [of _ "Some a"]) auto
  qed
qed

lemma duplicates_loop_ok:
  assumes "h c = Some n0" and "lseg h (ln_next n0) as None" and "c \<notin> set as" and "\<forall>a\<in>set as. node_val h a = f a"
  shows "\<exists>h' q. duplicates_loop (Some c) h = Some h' \<and> get_next h' (Some c) = Some q \<and>
           lseg h' q (drop_runs f as) None \<and> relinks (insert c (set as)) h h'"
  using assms
proof (induction f as arbitrary: c n0 h rule: drop_runs.induct)
  case (1 f)
  then show ?case by (subst duplicates_loop.simps) (simp add: heap_simps)
next
  case (2 f a)
  then show ?case by (subst duplicates_loop.simps) (auto simp: heap_simps)
next
  case (3 f a b as)
  from "3.prems"(2) obtain n m where n: "ln_next n0 = Some a" "h a = Some n" "ln_next n = Some b" "h b = Some m"
    "lseg h (ln_next m) as None" by auto
  have v: "ln_val n = f a" "ln_val m = f b" using "3.prems"(4) n by (auto simp: node_val_def)
  show ?case
  proof (cases "f a = f b")
    case True
    let ?as = "dropWhile (\<lambda>c. f c = f a) as"
    have "dropWhile (\<lambda>c. node_val h c = f a) (a # b # as) = dropWhile (\<lambda>c. f c = f a) (a # b # as)"
      by (rule dropWhile_cong) (use "3.prems"(4) in auto)
    then obtain q where q: "skip_loop (f a) (Some c) h = Some (h(c \<mapsto> n0\<lparr>ln_next := q\<rparr>))" "lseg h q ?as None"
      using skip_loop_ok [OF "3.prems"(1-3), of "f a"] True by auto
    let ?n = "n0\<lparr>ln_next := q\<rparr>" let ?h = "h(c \<mapsto> ?n)"
    have sub: "set ?as \<subseteq> set as" using set_dropWhileD by fast
    have c: "c \<notin> set ?as" using sub "3.prems"(3) by auto
    have hc: "?h c = Some ?n" by simp
    have l: "lseg ?h (ln_next ?n) ?as None" using q(2) c by simp
    have f: "\<forall>a\<in>set ?as. node_val ?h a = f a" using c sub "3.prems"(4) by (auto simp: node_val_def)
    obtain h' r where r: "duplicates_loop (Some c) ?h = Some h'" "get_next h' (Some c) = Some r"
      "lseg h' r (drop_runs f ?as) None" "relinks (insert c (set ?as)) ?h h'"
      using "3.IH"(1) [OF True hc l c f] by blast
    have "relinks (insert c (set (a # b # as))) h h'"
      by (rule relinks_upd_trans [OF r(4) "3.prems"(1)]) (use sub in auto)
    moreover have "duplicates_loop (Some c) h = Some h'"
      using n v True "3.prems"(1) q(1) r(1) by (subst duplicates_loop.simps) (simp add: heap_simps)
    ultimately show ?thesis using r(2,3) True by auto
  next
    case False
    have l: "lseg h (ln_next n) (b # as) None" using n by simp
    have a: "a \<notin> set (b # as)" using lseg_distinct [OF "3.prems"(2)] by simp
    have f: "\<forall>c\<in>set (b # as). node_val h c = f c" using "3.prems"(4) by simp
    obtain h' r where r: "duplicates_loop (Some a) h = Some h'" "get_next h' (Some a) = Some r"
      "lseg h' r (drop_runs f (b # as)) None" "relinks (insert a (set (b # as))) h h'"
      using "3.IH"(2) [OF False n(2) l a f] by blast
    have "h' c = h c" using relinks_outside [OF r(4), of c] "3.prems"(3) by simp
    moreover obtain k where "h' a = Some k" "ln_next k = r" using r(2) by (cases "h' a") (auto simp: get_next_def)
    moreover have "relinks (insert c (set (a # b # as))) h h'"
      by (rule relinks_trans [OF relinks_refl [of "{}"] r(4)]) auto
    moreover have "duplicates_loop (Some c) h = Some h'"
      using n v False "3.prems"(1) r(1) by (subst duplicates_loop.simps) (simp add: heap_simps)
    ultimately show ?thesis using r(3) False n(1) "3.prems"(1) by (auto simp: heap_simps)
  qed
qed

text \<open>
  On a sorted list, exactly the nodes whose value occurs once stay linked.\<close>

theorem delete_duplicates_correct:
  assumes "lseg h head as None" and "sorted (vals h as)" and "h d = None"
  shows "\<exists>p h'. delete_duplicates d head h = Some (p, h') \<and>
           lseg h' p (filter (\<lambda>a. count_list (vals h as) (node_val h a) = 1) as) None \<and>
           vals h' as = vals h as"
proof (cases "head = None")
  case True
  then show ?thesis using assms(1) by (auto simp: delete_duplicates_def lseg_null)
next
  case False
  let ?h = "new_list_node d 0 head h" let ?n = "\<lparr>ln_val = 0, ln_next = head\<rparr>"
  have d: "d \<notin> set as" "lseg ?h head as None" using new_node_seg [OF assms(3,1)] by auto
  have v: "\<forall>a\<in>set as. node_val ?h a = node_val h a" using d(1) by (auto simp: node_val_def new_list_node_def)
  obtain h' q where r: "duplicates_loop (Some d) ?h = Some h'" "get_next h' (Some d) = Some q"
    "lseg h' q (drop_runs (node_val h) as) None" "relinks (insert d (set as)) ?h h'"
    using duplicates_loop_ok [of ?h d ?n as "node_val h"] d v by (auto simp: new_list_node_def)
  have "vals h' as = vals h as" using relinks_vals [OF r(4), of as] v by (simp add: vals_def)
  then show ?thesis using r(1-3) False drop_runs_sorted [of "node_val h" as] assms(2)
    by (auto simp: delete_duplicates_def vals_def)
qed

section \<open>Positions\<close>

lemma advance_lseg: "lseg h p (as @ bs) q \<Longrightarrow> \<exists>r. advance h (length as) p = Some r \<and> lseg h r bs q"
  by (induction as arbitrary: p) (auto simp: heap_simps)

lemma advance_null: "lseg h p as None \<Longrightarrow> length as < n \<Longrightarrow> advance h n p = None"
proof (induction as arbitrary: p n)
  case Nil
  then show ?case by (cases n) (auto simp: heap_simps)
next
  case (Cons a as)
  then show ?case by (cases n) (auto simp: heap_simps)
qed

lemma advance_drop:
  assumes "lseg h p as q" and "n \<le> length as"
  shows "\<exists>r. advance h n p = Some r \<and> lseg h r (drop n as) q"
  using advance_lseg [of h p "take n as" "drop n as" q] assms by simp

lemma chase_loop_ok: "lseg h fast (f # fs) None \<Longrightarrow> advance h (length fs) solw = Some r \<Longrightarrow> chase_loop h fast solw = Some r"
proof (induction fs arbitrary: fast f solw)
  case Nil
  then show ?case by (subst chase_loop.simps) (auto simp: heap_simps)
next
  case (Cons g fs)
  obtain n where n: "fast = Some f" "h f = Some n" "ln_next n = Some g" "lseg h (ln_next n) (g # fs) None"
    using Cons.prems(1) by auto
  obtain s where s: "get_next h solw = Some s" "advance h (length fs) s = Some r"
    using Cons.prems(2) by (cases "get_next h solw") auto
  have "chase_loop h (ln_next n) s = Some r" by (rule Cons.IH [OF n(4) s(2)])
  then show ?case using n s(1) by (subst chase_loop.simps) (simp add: heap_simps)
qed

lemma remove_nth_in_range:
  assumes l: "lseg h head (xs @ b # ys) None" and d: "h d = None"
  shows "\<exists>p h'. remove_nth_from_end d head (int (Suc (length ys))) h = Some (p, h') \<and>
           lseg h' p (xs @ ys) None \<and> relinks (set xs) h h'"
proof -
  let ?h = "new_list_node d 1 head h" let ?zs = "d # xs"
  have dn: "d \<notin> set (xs @ b # ys)" and lh: "lseg ?h head (xs @ b # ys) None" using new_node_seg [OF d l] by auto
  have all: "lseg ?h (Some d) (?zs @ b # ys) None" using lh by (simp add: new_list_node_def)
  have dist: "distinct (?zs @ b # ys)" by (rule lseg_distinct [OF all])
  obtain us s where us: "?zs = us @ [s]" by (metis append_butlast_last_id list.distinct(1))
  have len: "length us = length xs" using arg_cong [OF us, of length] by simp
  obtain f where f: "advance ?h (Suc (length ys)) (Some d) = Some f"
      "lseg ?h f (drop (Suc (length ys)) (?zs @ b # ys)) None"
    using advance_drop [OF all, of "Suc (length ys)"] by auto
  have "length (drop (Suc (length ys)) (?zs @ b # ys)) = Suc (length xs)" by simp
  then obtain g gs where g: "drop (Suc (length ys)) (?zs @ b # ys) = g # gs" "length gs = length xs"
    by (metis length_Suc_conv)
  have split: "lseg ?h (Some d) us (Some s)" "lseg ?h (Some s) ([s, b] @ ys) None"
    using all unfolding us by (auto simp: lseg_append)
  have "advance ?h (length gs) (Some d) = Some (Some s)"
    using advance_lseg [of ?h "Some d" us "[]" "Some s"] split(1) by (simp add: g len)
  then have solw: "chase_loop ?h f (Some d) = Some (Some s)" using chase_loop_ok f(2) unfolding g(1) by blast
  obtain ns nb where n: "?h s = Some ns" "ln_next ns = Some b" "?h b = Some nb" "lseg ?h (ln_next nb) ys None"
    using split(2) by auto
  let ?h1 = "?h(s \<mapsto> ns\<lparr>ln_next := ln_next nb\<rparr>)"
  have s: "s \<notin> set us" "s \<notin> set ys" using dist unfolding us by auto
  have "lseg ?h1 (Some d) (?zs @ ys) None" using split(1) n(4) s unfolding us by (auto simp: lseg_append)
  then obtain nd where nd: "?h1 d = Some nd" "lseg ?h1 (ln_next nd) (xs @ ys) None" by auto
  have "relinks (set xs) h (?h1(d := None))"
    using n(1) d us[symmetric] by (cases us) (auto simp: relinks_def new_list_node_def)
  moreover have "lseg (?h1(d := None)) (ln_next nd) (xs @ ys) None" using nd(2) dn by simp
  moreover have "remove_nth_from_end d head (int (Suc (length ys))) h = Some (ln_next nd, ?h1(d := None))"
    unfolding remove_nth_from_end_def Let_def nat_int f(1) bind.bind_lunit
    using solw n nd(1) by (simp add: heap_simps del: fun_upd_apply)
  ultimately show ?thesis by blast
qed

lemma remove_nth_zero:
  assumes l: "lseg h head as None" and d: "h d = None" and n: "n \<le> 0"
  shows "remove_nth_from_end d head n h = None"
proof -
  let ?h = "new_list_node d 1 head h"
  have lh: "lseg ?h head as None" using new_node_seg [OF d l] by auto
  have all: "lseg ?h (Some d) (d # as) None" using lh by (simp add: new_list_node_def)
  obtain us s where us: "d # as = us @ [s]" by (metis append_butlast_last_id list.distinct(1))
  have len: "length us = length as" using arg_cong [OF us, of length] by simp
  have s: "lseg ?h (Some d) us (Some s)" "get_next ?h (Some s) = Some None"
    using all unfolding us by (auto simp: lseg_append heap_simps)
  have "advance ?h (length as) (Some d) = Some (Some s)"
    using advance_lseg [of ?h "Some d" us "[]" "Some s"] s(1) by (simp add: len)
  then have "chase_loop ?h (Some d) (Some d) = Some (Some s)" by (rule chase_loop_ok [OF all])
  then show ?thesis using n s(2) by (simp add: remove_nth_from_end_def heap_simps)
qed

text \<open>
  The n-th node from the end is unlinked when there is one, and the temporary first node is freed again.  For every other
  \<open>n\<close>, zero, negative or larger than the length of the list, the program reads through a null pointer.\<close>

theorem remove_nth_from_end_correct:
  assumes "lseg h head as None" and "h d = None"
  shows "if 1 \<le> n \<and> n \<le> int (length as)
    then \<exists>p h'. remove_nth_from_end d head n h = Some (p, h') \<and> relinks (set as) h h' \<and>
           lseg h' p (take (length as - nat n) as @ drop (Suc (length as - nat n)) as) None
    else remove_nth_from_end d head n h = None"
proof (cases "1 \<le> n \<and> n \<le> int (length as)")
  case True
  let ?k = "length as - nat n"
  have k: "?k < length as" using True by linarith
  then have as: "as = take ?k as @ as ! ?k # drop (Suc ?k) as" by (simp add: id_take_nth_drop)
  have "int (Suc (length (drop (Suc ?k) as))) = n" using True k unfolding length_drop by linarith
  moreover have "set (take ?k as) \<subseteq> set as" by (rule set_take_subset)
  ultimately show ?thesis
    using remove_nth_in_range [of h head "take ?k as" "as ! ?k" "drop (Suc ?k) as" d] assms True as
    by (auto intro: relinks_trans [OF relinks_refl])
next
  case False
  show ?thesis
  proof (cases "n \<le> 0")
    case True
    then show ?thesis using remove_nth_zero [OF assms] False by simp
  next
    case pos: False
    let ?h = "new_list_node d 1 head h"
    have "lseg ?h (Some d) (d # as) None" using new_node_seg [OF assms(2,1)] assms(1) by (auto simp: new_list_node_def)
    moreover have n: "length as < nat n" using False pos by linarith
    ultimately show ?thesis
    proof (cases "nat n = Suc (length as)")
      case True
      then have "advance ?h (nat n) (Some d) = Some None"
        using advance_lseg [of ?h "Some d" "d # as" "[]" None] \<open>lseg ?h (Some d) (d # as) None\<close> by simp
      moreover have "chase_loop ?h None (Some d) = None" by (subst chase_loop.simps) (simp add: heap_simps)
      ultimately show ?thesis using False by (simp add: remove_nth_from_end_def)
    next
      case larger: False
      then have "advance ?h (nat n) (Some d) = None"
        using advance_null [OF \<open>lseg ?h (Some d) (d # as) None\<close>, of "nat n"] n by simp
      then show ?thesis using False by (simp add: remove_nth_from_end_def)
    qed
  qed
qed

section \<open>Swapping neighbours\<close>

fun swap_adjacent :: "'a list \<Rightarrow> 'a list" where
  "swap_adjacent (a # b # as) = b # a # swap_adjacent as"
| "swap_adjacent as = as"

lemma set_swap_adjacent [simp]: "set (swap_adjacent as) = set as"
  by (induction as rule: swap_adjacent.induct) auto

lemma swap_loop_ok:
  assumes "h c = Some n0" and "lseg h (ln_next n0) as None" and "c \<notin> set as"
  shows "\<exists>h' q. swap_loop (Some c) h = Some h' \<and> get_next h' (Some c) = Some q \<and>
           lseg h' q (swap_adjacent as) None \<and> relinks (insert c (set as)) h h'"
  using assms
proof (induction as arbitrary: c n0 h rule: swap_adjacent.induct)
  case (1 a b as)
  from "1.prems"(2) obtain n m where n: "ln_next n0 = Some a" "h a = Some n" "ln_next n = Some b" "h b = Some m"
    "lseg h (ln_next m) as None" by auto
  have dist: "a \<noteq> b" "a \<notin> set as" "b \<notin> set as" "c \<noteq> a" "c \<noteq> b" "c \<notin> set as"
    using lseg_distinct [OF "1.prems"(2)] "1.prems"(3) by auto
  let ?n = "n\<lparr>ln_next := ln_next m\<rparr>"
  let ?h = "((h(c \<mapsto> n0\<lparr>ln_next := Some b\<rparr>))(b \<mapsto> m\<lparr>ln_next := Some a\<rparr>))(a \<mapsto> ?n)"
  have ha: "?h a = Some ?n" by simp
  have l: "lseg ?h (ln_next ?n) as None" using n(5) dist by simp
  obtain h' q where r: "swap_loop (Some a) ?h = Some h'" "get_next h' (Some a) = Some q"
    "lseg h' q (swap_adjacent as) None" "relinks (insert a (set as)) ?h h'"
    using "1.IH" [of ?h a ?n, OF ha l dist(2)] by blast
  have out: "h' c = ?h c" "h' b = ?h b" using dist relinks_outside [OF r(4), of c] relinks_outside [OF r(4), of b] by simp_all
  obtain k where k: "h' a = Some k" "ln_next k = q" using r(2) by (cases "h' a") (auto simp: get_next_def)
  have "relinks {a, b, c} h ?h" using n "1.prems"(1) dist by (auto simp: relinks_def)
  then have "relinks (insert c (set (a # b # as))) h h'" by (rule relinks_trans [OF _ r(4)]) auto
  moreover have "swap_loop (Some c) h = Some h'"
    using n "1.prems"(1) dist r(1) by (subst swap_loop.simps) (simp add: heap_simps)
  moreover have "lseg h' (Some b) (swap_adjacent (a # b # as)) None" using out k r(3) dist by simp
  moreover have "get_next h' (Some c) = Some (Some b)" using out dist by (simp add: heap_simps)
  ultimately show ?case by blast
qed (subst swap_loop.simps, auto simp: heap_simps)+

text \<open>
  Neighbouring nodes are exchanged by pointer assignments only: the values stay in their nodes.\<close>

theorem swap_pairs_correct:
  assumes "lseg h head as None" and "h d = None"
  shows "\<exists>p h'. swap_pairs d head h = Some (p, h') \<and> lseg h' p (swap_adjacent as) None \<and> vals h' as = vals h as"
proof -
  let ?h = "new_list_node d 0 head h" let ?n = "\<lparr>ln_val = 0, ln_next = head\<rparr>"
  have d: "d \<notin> set as" "lseg ?h head as None" using new_node_seg [OF assms(2,1)] by auto
  have v: "vals ?h as = vals h as" using d(1) by (auto simp: vals_def node_val_def new_list_node_def)
  obtain h' q where r: "swap_loop (Some d) ?h = Some h'" "get_next h' (Some d) = Some q"
    "lseg h' q (swap_adjacent as) None" "relinks (insert d (set as)) ?h h'"
    using swap_loop_ok [of ?h d ?n as] d by (auto simp: new_list_node_def)
  then show ?thesis using relinks_vals [OF r(4), of as] v by (simp add: swap_pairs_def)
qed

section \<open>Intersection\<close>

lemma length_loop_ok: "lseg h cur as None \<Longrightarrow> length_loop h len cur = Some (len + length as)"
proof (induction as arbitrary: cur len)
  case Nil
  then show ?case by (subst length_loop.simps) simp
next
  case (Cons a as)
  then obtain n where n: "cur = Some a" "h a = Some n" "lseg h (ln_next n) as None" by auto
  then show ?case using Cons.IH by (subst length_loop.simps) (simp add: heap_simps)
qed

text \<open>From a common node on, two lists are equal, so a common node has equally many successors in both.\<close>

lemma common_suffix:
  assumes "lseg h p (xs @ a # ys) None" and "lseg h q (us @ a # vs) None"
  shows "ys = vs"
proof -
  have "lseg h (Some a) (a # ys) None" "lseg h (Some a) (a # vs) None" using assms by (auto simp: lseg_append)
  then show ?thesis using lseg_unique by blast
qed

lemma common_position:
  assumes "lseg h p as None" and "lseg h q bs None" and "i < length as" and "as ! i \<in> set bs"
  shows "length as - i \<le> length bs \<and> as ! i \<in> set (drop (length bs - (length as - i)) bs)"
proof -
  obtain us vs where bs: "bs = us @ as ! i # vs" using split_list [OF assms(4)] by blast
  have as: "as = take i as @ as ! i # drop (Suc i) as" using assms(3) by (rule id_take_nth_drop)
  have eq: "drop (Suc i) as = vs"
    by (rule common_suffix [of h p "take i as" "as ! i" _ q us]) (use assms(1,2) as bs in auto)
  have "length as - i = Suc (length vs)" unfolding eq [symmetric] using assms(3) by simp
  then show ?thesis by (simp add: bs)
qed

lemma meet_loop_ok:
  assumes "lseg h p as None" and "lseg h q bs None" and "length as = length bs"
  shows "meet_loop h p q = Some (find (\<lambda>a. a \<in> set bs) as)"
  using assms(3,1,2)
proof (induction as bs arbitrary: p q rule: list_induct2)
  case Nil
  then show ?case by (subst meet_loop.simps) simp
next
  case (Cons a as b bs)
  obtain n m where n: "p = Some a" "h a = Some n" "lseg h (ln_next n) as None"
    and m: "q = Some b" "h b = Some m" "lseg h (ln_next m) bs None" using Cons.prems by auto
  show ?case
  proof (cases "a = b")
    case True
    then show ?thesis using n m by (subst meet_loop.simps) simp
  next
    case False
    have "a \<notin> set bs" using common_position [OF Cons.prems(1) m(3), of 0] Cons.hyps by auto
    moreover have "b \<notin> set as" using common_position [OF Cons.prems(2) n(3), of 0] Cons.hyps by auto
    then have "find (\<lambda>a. a \<in> set (b # bs)) as = find (\<lambda>a. a \<in> set bs) as" by (intro find_cong) auto
    moreover have "meet_loop h p q = meet_loop h (ln_next n) (ln_next m)"
      using n m False by (subst meet_loop.simps) (simp add: heap_simps)
    ultimately show ?thesis using Cons.IH [OF n(3) m(3)] False by simp
  qed
qed

lemma find_append: "find P (xs @ ys) = (case find P xs of None \<Rightarrow> find P ys | Some x \<Rightarrow> Some x)"
  by (induction xs) auto

text \<open>
  The intersection of two null-terminated lists is found: the result is the first node of one list that is a node of the
  other, null when they share none.\<close>

theorem get_intersection_node_correct:
  assumes as: "lseg h headA as None" and bs: "lseg h headB bs None"
  shows "get_intersection_node h headA headB = Some (find (\<lambda>a. a \<in> set bs) as)"
proof (cases "length as > length bs")
  case True
  let ?k = "length as - length bs"
  obtain p where p: "advance h ?k headA = Some p" "lseg h p (drop ?k as) None"
    using advance_drop [OF as, of ?k] by auto
  have "a \<notin> set bs" if a: "a \<in> set (take ?k as)" for a
  proof -
    obtain i where "i < length (take ?k as)" "take ?k as ! i = a" using a unfolding in_set_conv_nth by blast
    then have "i < length as" "i < ?k" "as ! i = a" by simp_all
    then show ?thesis using common_position [OF as bs, of i] by auto
  qed
  then have "find (\<lambda>a. a \<in> set bs) (take ?k as) = None" by (auto simp: find_None_iff)
  then have "find (\<lambda>a. a \<in> set bs) as = find (\<lambda>a. a \<in> set bs) (drop ?k as)"
    using find_append [of "\<lambda>a. a \<in> set bs" "take ?k as" "drop ?k as"] by simp
  moreover have "meet_loop h p headB = Some (find (\<lambda>a. a \<in> set bs) (drop ?k as))"
    by (rule meet_loop_ok [OF p(2) bs]) (use True in simp)
  ultimately show ?thesis
    using length_loop_ok [OF as, of 0] length_loop_ok [OF bs, of 0] p(1) True by (simp add: get_intersection_node_def)
next
  case False
  let ?k = "length bs - length as"
  obtain q where q: "advance h ?k headB = Some q" "lseg h q (drop ?k bs) None"
    using advance_drop [OF bs, of ?k] by auto
  have "a \<in> set (drop ?k bs)" if a: "a \<in> set as" "a \<in> set bs" for a
  proof -
    obtain i where i: "i < length as" "as ! i = a" using a(1) by (auto simp: in_set_conv_nth)
    have "set (drop (length bs - (length as - i)) bs) \<subseteq> set (drop ?k bs)" by (rule set_drop_subset_set_drop) simp
    then show ?thesis using common_position [OF as bs i(1)] a(2) i(2) by auto
  qed
  then have "find (\<lambda>a. a \<in> set (drop ?k bs)) as = find (\<lambda>a. a \<in> set bs) as"
    using set_drop_subset [of ?k bs] by (intro find_cong) auto
  moreover have "meet_loop h headA q = Some (find (\<lambda>a. a \<in> set (drop ?k bs)) as)"
    by (rule meet_loop_ok [OF as q(2)]) (use False in simp)
  ultimately show ?thesis
    using length_loop_ok [OF as, of 0] length_loop_ok [OF bs, of 0] q(1) False by (simp add: get_intersection_node_def)
qed

section \<open>Merging\<close>

fun merge_by :: "('a \<Rightarrow> 'b :: linorder) \<Rightarrow> 'a list \<Rightarrow> 'a list \<Rightarrow> 'a list" where
  "merge_by f [] bs = bs"
| "merge_by f (a # as) [] = a # as"
| "merge_by f (a # as) (b # bs) =
     (if f a < f b then a # merge_by f as (b # bs) else b # merge_by f (a # as) bs)"

lemma mset_merge_by [simp]: "mset (merge_by f as bs) = mset as + mset bs"
  by (induction f as bs rule: merge_by.induct) auto

lemma set_merge_by [simp]: "set (merge_by f as bs) = set as \<union> set bs"
  by (induction f as bs rule: merge_by.induct) auto

lemma sorted_merge_by: "sorted (map f as) \<Longrightarrow> sorted (map f bs) \<Longrightarrow> sorted (map f (merge_by f as bs))"
  by (induction f as bs rule: merge_by.induct) (auto intro: order_trans less_imp_le simp: not_less)

lemma merge_lists_ok:
  assumes "lseg h p1 as None" and "lseg h p2 bs None" and "set as \<inter> set bs = {}"
  shows "\<exists>p h'. merge_lists p1 p2 h = Some (p, h') \<and> lseg h' p (merge_by (node_val h) as bs) None \<and>
           relinks (set as \<union> set bs) h h'"
  using assms
proof (induction "node_val h" as bs arbitrary: p1 p2 rule: merge_by.induct)
  case (1 bs)
  then show ?case by (subst merge_lists.simps) simp
next
  case (2 a as)
  then show ?case by (subst merge_lists.simps) auto
next
  case (3 a as b bs)
  obtain n m where n: "p1 = Some a" "h a = Some n" "lseg h (ln_next n) as None"
    and m: "p2 = Some b" "h b = Some m" "lseg h (ln_next m) bs None" using "3.prems"(1,2) by auto
  have v: "node_val h a = ln_val n" "node_val h b = ln_val m" using n m by (auto simp: node_val_def)
  have dist: "a \<notin> set as \<union> set (b # bs)" "b \<notin> set (a # as) \<union> set bs"
    using lseg_distinct [OF "3.prems"(1)] lseg_distinct [OF "3.prems"(2)] "3.prems"(3) by auto
  show ?case
  proof (cases "ln_val n < ln_val m")
    case True
    have "\<exists>r h1. merge_lists (ln_next n) p2 h = Some (r, h1) \<and> lseg h1 r (merge_by (node_val h) as (b # bs)) None \<and>
        relinks (set as \<union> set (b # bs)) h h1"
      by (rule "3.hyps"(1)) (use True v n "3.prems" in auto)
    then obtain r h1 where r: "merge_lists (ln_next n) p2 h = Some (r, h1)"
      "lseg h1 r (merge_by (node_val h) as (b # bs)) None" "relinks (set as \<union> set (b # bs)) h h1" by blast
    have h1: "h1 a = Some n" using relinks_outside [OF r(3) dist(1)] n(2) by simp
    let ?h = "h1(a \<mapsto> n\<lparr>ln_next := r\<rparr>)"
    have "relinks (set (a # as) \<union> set (b # bs)) h ?h"
      by (rule relinks_trans [OF r(3) relinks_upd [of h1 a n "{a}"]]) (use h1 in auto)
    moreover have "lseg ?h p1 (merge_by (node_val h) (a # as) (b # bs)) None" using r(2) dist(1) n(1) True v by simp
    moreover have "merge_lists p1 p2 h = Some (p1, ?h)"
      using n m True r(1) h1 by (subst merge_lists.simps) (simp add: heap_simps)
    ultimately show ?thesis by blast
  next
    case False
    have "\<exists>r h1. merge_lists p1 (ln_next m) h = Some (r, h1) \<and> lseg h1 r (merge_by (node_val h) (a # as) bs) None \<and>
        relinks (set (a # as) \<union> set bs) h h1"
      by (rule "3.hyps"(2)) (use False v m "3.prems" in auto)
    then obtain r h1 where r: "merge_lists p1 (ln_next m) h = Some (r, h1)"
      "lseg h1 r (merge_by (node_val h) (a # as) bs) None" "relinks (set (a # as) \<union> set bs) h h1" by blast
    have h1: "h1 b = Some m" using relinks_outside [OF r(3) dist(2)] m(2) by simp
    let ?h = "h1(b \<mapsto> m\<lparr>ln_next := r\<rparr>)"
    have "relinks (set (a # as) \<union> set (b # bs)) h ?h"
      by (rule relinks_trans [OF r(3) relinks_upd [of h1 b m "{b}"]]) (use h1 in auto)
    moreover have "lseg ?h p2 (merge_by (node_val h) (a # as) (b # bs)) None" using r(2) dist(2) m(1) False v by simp
    moreover have "merge_lists p1 p2 h = Some (p2, ?h)"
      using n m False r(1) h1 by (subst merge_lists.simps) (simp add: heap_simps)
    ultimately show ?thesis by blast
  qed
qed

text \<open>
  Merging two sorted lists without common nodes returns a sorted list of exactly their nodes and leaves the values and
  the rest of the heap as they were.\<close>

theorem merge_lists_correct:
  assumes "lseg h p1 as None" and "lseg h p2 bs None" and "set as \<inter> set bs = {}"
    and "sorted (vals h as)" and "sorted (vals h bs)"
  shows "\<exists>p h' cs. merge_lists p1 p2 h = Some (p, h') \<and> lseg h' p cs None \<and> mset cs = mset as + mset bs \<and>
           sorted (vals h' cs) \<and> relinks (set as \<union> set bs) h h'"
proof -
  obtain p h' where r: "merge_lists p1 p2 h = Some (p, h')" "lseg h' p (merge_by (node_val h) as bs) None"
    "relinks (set as \<union> set bs) h h'" using merge_lists_ok [OF assms(1-3)] by blast
  have "sorted (vals h' (merge_by (node_val h) as bs))"
    unfolding relinks_vals [OF r(3)] using assms(4,5) by (auto simp: vals_def intro: sorted_merge_by)
  then show ?thesis using r mset_merge_by by blast
qed

section \<open>Groups\<close>

function reverse_groups :: "nat \<Rightarrow> 'a list \<Rightarrow> 'a list" where
  "reverse_groups k as =
     (if k = 0 \<or> length as < k then as else rev (take k as) @ reverse_groups k (drop k as))"
  by pat_completeness auto
termination by (relation "measure (length \<circ> snd)") auto

declare reverse_groups.simps [simp del]

lemma set_reverse_groups [simp]: "set (reverse_groups k as) = set as"
proof (induction k as rule: reverse_groups.induct)
  case (1 k as)
  then show ?case by (subst reverse_groups.simps) (auto simp flip: set_append [of "take k as" "drop k as", unfolded append_take_drop_id])
qed

lemma full_group_ok:
  "lseg h p as None \<Longrightarrow>
     (if length as < k then \<exists>q. full_group h k p = Some (False, q)
      else \<exists>q. full_group h k p = Some (True, q) \<and> lseg h p (take k as) q \<and> lseg h q (drop k as) None)"
proof (induction k arbitrary: p as)
  case (Suc k)
  then show ?case by (cases as) (auto simp: heap_simps split: if_splits)
qed simp

lemma reverse_until_ok:
  assumes "lseg h left as right" and "distinct as" and "\<forall>a\<in>set as. right \<noteq> Some a"
  shows "\<exists>p h'. reverse_until right pre left h = Some (p, h') \<and> lseg h' p (rev as) pre \<and> relinks (set as) h h'"
  using assms
proof (induction as arbitrary: left pre h)
  case Nil
  then show ?case by (subst reverse_until.simps) simp
next
  case (Cons a as)
  from Cons.prems(1) obtain n where n: "left = Some a" "h a = Some n" "lseg h (ln_next n) as right" by auto
  have a: "a \<notin> set as" "distinct as" "\<forall>a\<in>set as. right \<noteq> Some a" "left \<noteq> right" using Cons.prems n(1) by auto
  let ?h = "h(a \<mapsto> n\<lparr>ln_next := pre\<rparr>)"
  have "lseg ?h (ln_next n) as right" using n(3) a by simp
  then obtain p h' where r: "reverse_until right (Some a) (ln_next n) ?h = Some (p, h')" "lseg h' p (rev as) (Some a)"
    "relinks (set as) ?h h'" using Cons.IH a(2,3) by blast
  have "h' a = Some (n\<lparr>ln_next := pre\<rparr>)" using relinks_outside [OF r(3) a(1)] by simp
  then have "lseg h' p (rev (a # as)) pre" using r(2) by (simp add: lseg_snoc)
  moreover have "relinks (set (a # as)) h h'" by (rule relinks_upd_trans [OF r(3) n(2)]) auto
  ultimately show ?case using n r(1) a(4) by (subst reverse_until.simps) (simp add: heap_simps)
qed

lemma reverse_count_ok:
  assumes "lseg h cur as q" and "distinct as" and "as = [] \<longrightarrow> nx = q"
  shows "\<exists>p h'. reverse_count (length as) pre cur nx h = Some (p, q, h') \<and> lseg h' p (rev as) pre \<and> relinks (set as) h h'"
  using assms
proof (induction as arbitrary: cur pre nx h)
  case (Cons a as)
  from Cons.prems(1) obtain n where n: "cur = Some a" "h a = Some n" "lseg h (ln_next n) as q" by auto
  have a: "a \<notin> set as" "distinct as" using Cons.prems by auto
  let ?h = "h(a \<mapsto> n\<lparr>ln_next := pre\<rparr>)"
  have l: "lseg ?h (ln_next n) as q" using n(3) a by simp
  have "as = [] \<longrightarrow> ln_next n = q" using n(3) by auto
  then obtain p h' where r: "reverse_count (length as) (Some a) (ln_next n) (ln_next n) ?h = Some (p, q, h')"
    "lseg h' p (rev as) (Some a)" "relinks (set as) ?h h'" using Cons.IH [OF l a(2)] by blast
  have "h' a = Some (n\<lparr>ln_next := pre\<rparr>)" using relinks_outside [OF r(3) a(1)] by simp
  then have "lseg h' p (rev (a # as)) pre" using r(2) by (simp add: lseg_snoc)
  moreover have "relinks (set (a # as)) h h'" by (rule relinks_upd_trans [OF r(3) n(2)]) auto
  ultimately show ?case using n r(1) by (simp add: heap_simps)
qed simp

text \<open>Both versions reverse the first group, go on with the rest, and then link the last node of the reversed group, the old
  head, to what the rest became.\<close>

lemma group_step:
  assumes h1: "lseg h1 p (rev (a # xs)) r" "relinks (set (a # xs)) h h1"
    and h2: "lseg h2 q zs None" "relinks (set ys) h1 h2" "set zs = set ys"
    and dist: "distinct (a # xs @ ys)" and a: "h a = Some n"
  shows "\<exists>h3. set_next (Some a) q h2 = Some h3 \<and> lseg h3 p (rev (a # xs) @ zs) None \<and> relinks (set (a # xs @ ys)) h h3"
proof -
  have "\<exists>m. h1 a = Some m" using relinks_alloc [OF h1(2) a] by blast
  then obtain m where m: "h2 a = Some m" using relinks_outside [OF h2(2), of a] dist by auto
  let ?h = "h2(a \<mapsto> m\<lparr>ln_next := q\<rparr>)"
  have "lseg h2 p (rev (a # xs)) r" using h1(1) lseg_relinks [OF h2(2), of "rev (a # xs)" p r] dist by auto
  then have "lseg ?h p (rev (a # xs)) q" using lseg_redirect [of h2 p "rev xs" a r m q] m dist by simp
  moreover have "lseg ?h q zs None" using h2(1,3) dist by simp
  ultimately have "lseg ?h p (rev (a # xs) @ zs) None" by (auto simp: lseg_append)
  moreover have "relinks (set (a # xs @ ys)) h h2" by (rule relinks_trans [OF h1(2) h2(2)]) auto
  then have "relinks (set (a # xs @ ys)) h ?h" by (rule relinks_trans [OF _ relinks_upd [of h2 a m "{a}"]]) (use m in auto)
  moreover have "set_next (Some a) q h2 = Some ?h" using m by (simp add: heap_simps)
  ultimately show ?thesis by blast
qed

text \<open>One round of either version, with the recursive call as an argument.\<close>

lemma group_round:
  assumes l: "lseg h head as None" and k: "1 \<le> k" "nat k \<le> length as"
    and rec: "\<And>h1 node. lseg h1 node (drop (nat k) as) None \<Longrightarrow>
        \<exists>r h2. rec node h1 = Some (r, h2) \<and> lseg h2 r (reverse_groups (nat k) (drop (nat k) as)) None \<and>
          relinks (set (drop (nat k) as)) h1 h2"
    and h1: "lseg h1 p (rev (take (nat k) as)) pre" "relinks (set (take (nat k) as)) h h1"
    and node: "lseg h node (drop (nat k) as) None"
  shows "\<exists>r h2 h3. rec node h1 = Some (r, h2) \<and> set_next head r h2 = Some h3 \<and>
           lseg h3 p (reverse_groups (nat k) as) None \<and> relinks (set as) h h3"
proof -
  let ?k = "nat k"
  obtain a xs where as: "take ?k as = a # xs" using k by (cases "take ?k as") auto
  have dist: "distinct (a # xs @ drop ?k as)"
    using lseg_distinct [OF l] append_take_drop_id [of ?k as] unfolding as by simp
  have "lseg h head (a # xs @ drop ?k as) None" using l append_take_drop_id [of ?k as] unfolding as by simp
  then obtain n where n: "head = Some a" "h a = Some n" by auto
  have "lseg h1 node (drop ?k as) None"
    using node lseg_relinks [OF h1(2), of "drop ?k as" node None] dist unfolding as by auto
  then obtain r h2 where r: "rec node h1 = Some (r, h2)" "lseg h2 r (reverse_groups ?k (drop ?k as)) None"
    "relinks (set (drop ?k as)) h1 h2" using rec by blast
  obtain h3 where h3: "set_next (Some a) r h2 = Some h3"
    "lseg h3 p (rev (a # xs) @ reverse_groups ?k (drop ?k as)) None" "relinks (set (a # xs @ drop ?k as)) h h3"
    using group_step [OF h1 [unfolded as] r(2,3) _ dist n(2)] by auto
  have "reverse_groups ?k as = rev (a # xs) @ reverse_groups ?k (drop ?k as)"
    using k as by (subst reverse_groups.simps) auto
  moreover have "set as = set (a # xs @ drop ?k as)" using append_take_drop_id [of ?k as] unfolding as by (metis append_Cons)
  ultimately show ?thesis using r(1) h3 n(1) by auto
qed

lemma reverse_k_group_ok:
  assumes "lseg h head as None" and "1 \<le> k"
  shows "\<exists>p h'. reverse_k_group k head h = Some (p, h') \<and> lseg h' p (reverse_groups (nat k) as) None \<and> relinks (set as) h h'"
  using assms
proof (induction "length as" arbitrary: as head h rule: less_induct)
  case less
  let ?k = "nat k"
  show ?case
  proof (cases "length as < ?k")
    case True
    then show ?thesis using full_group_ok [OF less.prems(1), of ?k] less.prems
      by (subst reverse_k_group.simps, subst reverse_groups.simps) auto
  next
    case False
    then obtain node where node: "full_group h ?k head = Some (True, node)" "lseg h head (take ?k as) node"
      "lseg h node (drop ?k as) None" using full_group_ok [OF less.prems(1), of ?k] by auto
    have dist: "distinct (take ?k as @ drop ?k as)" using lseg_distinct [OF less.prems(1)] by simp
    have "node \<noteq> Some a" if "a \<in> set (take ?k as)" for a
      using that dist node(3) by (cases "drop ?k as") auto
    then obtain p h1 where h1: "reverse_until node node head h = Some (p, h1)" "lseg h1 p (rev (take ?k as)) node"
      "relinks (set (take ?k as)) h h1" using reverse_until_ok [OF node(2), of node] dist by auto
    have rec: "\<exists>r h2. reverse_k_group k node h1 = Some (r, h2) \<and>
        lseg h2 r (reverse_groups ?k (drop ?k as)) None \<and> relinks (set (drop ?k as)) h1 h2"
      if "lseg h1 node (drop ?k as) None" for h1 node
      by (rule less.hyps [OF _ that less.prems(2)]) (use False less.prems(2) in auto)
    obtain r h2 h3 where "reverse_k_group k node h1 = Some (r, h2)" "set_next head r h2 = Some h3"
      "lseg h3 p (reverse_groups ?k as) None" "relinks (set as) h h3"
      using group_round [where rec = "reverse_k_group k", OF less.prems _ rec h1(2,3) node(3)] False by auto
    then show ?thesis using node(1) h1(1) by (subst reverse_k_group.simps) auto
  qed
qed

lemma reverse_k_group_iter_ok:
  assumes "lseg h head as None" and "1 \<le> k"
  shows "\<exists>p h'. reverse_k_group_iter k head h = Some (p, h') \<and> lseg h' p (reverse_groups (nat k) as) None \<and> relinks (set as) h h'"
  using assms
proof (induction "length as" arbitrary: as head h rule: less_induct)
  case less
  let ?k = "nat k"
  show ?case
  proof (cases "length as < ?k")
    case True
    then show ?thesis using full_group_ok [OF less.prems(1), of ?k] less.prems
      by (subst reverse_k_group_iter.simps, subst reverse_groups.simps) auto
  next
    case False
    then obtain node where node: "full_group h ?k head = Some (True, node)" "lseg h head (take ?k as) node"
      "lseg h node (drop ?k as) None" using full_group_ok [OF less.prems(1), of ?k] by auto
    have dist: "distinct (take ?k as)" using lseg_distinct [OF less.prems(1)] by simp
    have len: "length (take ?k as) = ?k" "take ?k as \<noteq> []" using False less.prems(2) by auto
    obtain p h1 where h1: "reverse_count ?k None head None h = Some (p, node, h1)" "lseg h1 p (rev (take ?k as)) None"
      "relinks (set (take ?k as)) h h1" using reverse_count_ok [OF node(2) dist, of None None] len by auto
    have rec: "\<exists>r h2. reverse_k_group_iter k node h1 = Some (r, h2) \<and>
        lseg h2 r (reverse_groups ?k (drop ?k as)) None \<and> relinks (set (drop ?k as)) h1 h2"
      if "lseg h1 node (drop ?k as) None" for h1 node
      by (rule less.hyps [OF _ that less.prems(2)]) (use False less.prems(2) in auto)
    obtain r h2 h3 where "reverse_k_group_iter k node h1 = Some (r, h2)" "set_next head r h2 = Some h3"
      "lseg h3 p (reverse_groups ?k as) None" "relinks (set as) h h3"
      using group_round [where rec = "reverse_k_group_iter k", OF less.prems _ rec h1(2,3) node(3)] False by auto
    then show ?thesis using node(1) h1(1) by (subst reverse_k_group_iter.simps) auto
  qed
qed

text \<open>A heap is determined by the list it holds and what is outside it.\<close>

lemma lseg_heap_eq:
  assumes "lseg h1 p as None" "relinks (set as) h h1" and "lseg h2 q as None" "relinks (set as) h h2"
  shows "p = q \<and> h1 = h2"
proof -
  have "p = q \<and> (\<forall>a\<in>set as. h1 a = h2 a)"
    using assms(1,3)
  proof (induction as arbitrary: p q)
    case (Cons a as)
    then obtain n m where n: "h1 a = Some n" "lseg h1 (ln_next n) as None" "h2 a = Some m" "lseg h2 (ln_next m) as None"
      and pq: "p = Some a" "q = Some a" by auto
    have "ln_val n = ln_val m"
      using assms(2,4) n(1,3) unfolding relinks_def by (metis option.map(2) option.inject)
    then show ?case using Cons.IH [OF n(2,4)] n pq by (auto intro!: list_node.equality)
  qed simp
  moreover have "h1 a = h2 a" if "a \<notin> set as" for a using that assms(2,4) by (simp add: relinks_def)
  ultimately show ?thesis by blast
qed

text \<open>
  C35: Both programs that reverse groups of \<open>k\<close> nodes compute the same list and the same heap, for every \<open>k\<close> of at least
  one: full groups are reversed, a last group of fewer nodes is kept, and nothing else changes.\<close>

theorem reverse_k_group_equivalent:
  assumes "lseg h head as None" and "1 \<le> k"
  shows "reverse_k_group_iter k head h = reverse_k_group k head h \<and>
    (\<exists>p h'. reverse_k_group k head h = Some (p, h') \<and> lseg h' p (reverse_groups (nat k) as) None \<and> relinks (set as) h h')"
proof -
  obtain p h1 where 1: "reverse_k_group k head h = Some (p, h1)" "lseg h1 p (reverse_groups (nat k) as) None"
    "relinks (set as) h h1" using reverse_k_group_ok [OF assms] by blast
  obtain q h2 where 2: "reverse_k_group_iter k head h = Some (q, h2)" "lseg h2 q (reverse_groups (nat k) as) None"
    "relinks (set as) h h2" using reverse_k_group_iter_ok [OF assms] by blast
  have "p = q \<and> h1 = h2" by (rule lseg_heap_eq [of _ _ "reverse_groups (nat k) as"]) (use 1 2 in simp_all)
  then show ?thesis using 1 2 by auto
qed

section \<open>Examples\<close>

definition demo_heap :: list_heap where
  "demo_heap = [0 \<mapsto> \<lparr>ln_val = 3, ln_next = Some 1\<rparr>, 1 \<mapsto> \<lparr>ln_val = 5, ln_next = Some 2\<rparr>, 2 \<mapsto> \<lparr>ln_val = 5, ln_next = None\<rparr>,
                7 \<mapsto> \<lparr>ln_val = 4, ln_next = None\<rparr>, 8 \<mapsto> \<lparr>ln_val = 0, ln_next = Some 1\<rparr>]"

lemma demo_lists:
  "lseg demo_heap (Some 0) [0, 1, 2] None" "lseg demo_heap (Some 7) [7] None" "lseg demo_heap (Some 8) [8, 1, 2] None"
  "demo_heap 9 = None" "vals demo_heap [0, 1, 2] = [3, 5, 5]" "vals demo_heap [7] = [4]"
  by (simp_all add: demo_heap_def node_val_def)

lemma demo_vals:
  "node_val demo_heap 0 = 3" "node_val demo_heap (Suc 0) = 5" "node_val demo_heap 2 = 5" "node_val demo_heap 8 = 0"
  "node_val demo_heap 7 = 4"
  by (simp_all add: demo_heap_def node_val_def)

theorem reverse_list_correct_witness:
  "\<exists>p h'. reverse_list (Some 0) demo_heap = Some (p, h') \<and> lseg h' p [2, 1, 0] None \<and> relinks {0, 1, 2} demo_heap h'"
  using reverse_list_correct [OF demo_lists(1)] by simp

theorem remove_elements_correct_witness:
  "\<exists>p h'. remove_elements 9 (Some 0) 5 demo_heap = Some (p, h') \<and> lseg h' p [0] None"
  using remove_elements_correct [OF demo_lists(1,4), of 5] by (auto simp: demo_vals)

theorem sort_in_list_correct_witness:
  "\<exists>h'. sort_in_list (Some 8) demo_heap = Some (Some 8, h') \<and> lseg h' (Some 8) [8, 1, 2] None \<and>
     vals h' [8, 1, 2] = [0, 5, 5]"
  using sort_in_list_correct [OF demo_lists(3)] by (auto simp: demo_vals)

theorem delete_duplicates_correct_witness:
  "\<exists>p h'. delete_duplicates 9 (Some 0) demo_heap = Some (p, h') \<and> lseg h' p [0] None"
  using delete_duplicates_correct [OF demo_lists(1) _ demo_lists(4)] by (auto simp: demo_vals)

theorem remove_nth_from_end_correct_witness:
  "(\<exists>p h'. remove_nth_from_end 9 (Some 0) 2 demo_heap = Some (p, h') \<and> lseg h' p [0, 2] None) \<and>
   remove_nth_from_end 9 (Some 0) 4 demo_heap = None"
  using remove_nth_from_end_correct [OF demo_lists(1,4), of 2] remove_nth_from_end_correct [OF demo_lists(1,4), of 4]
  by (auto simp: numeral_2_eq_2)

theorem swap_pairs_correct_witness:
  "\<exists>p h'. swap_pairs 9 (Some 0) demo_heap = Some (p, h') \<and> lseg h' p [1, 0, 2] None"
  using swap_pairs_correct [OF demo_lists(1,4)] by auto

theorem get_intersection_node_correct_witness:
  "get_intersection_node demo_heap (Some 0) (Some 8) = Some (Some 1) \<and>
   get_intersection_node demo_heap (Some 0) (Some 7) = Some None"
  using get_intersection_node_correct [OF demo_lists(1,3)] get_intersection_node_correct [OF demo_lists(1,2)] by simp

theorem merge_lists_correct_witness:
  "\<exists>p h' cs. merge_lists (Some 0) (Some 7) demo_heap = Some (p, h') \<and> lseg h' p cs None \<and>
     mset cs = {#7, 0, 1, 2#} \<and> sorted (vals h' cs)"
  using merge_lists_correct [OF demo_lists(1,2)] by (auto simp: demo_vals)

theorem reverse_k_group_equivalent_witness:
  "\<exists>p h'. reverse_k_group 2 (Some 0) demo_heap = Some (p, h') \<and> lseg h' p [1, 0, 2] None \<and>
     reverse_k_group_iter 2 (Some 0) demo_heap = Some (p, h')"
  using reverse_k_group_equivalent [OF demo_lists(1), of 2] by (auto simp: reverse_groups.simps)

end
