(* ===== verification/ListCycles.thy ===== *)
theory ListCycles
  imports LinkedLists
begin

text \<open>
  Cycles of singly linked lists in \<open>find_job/look_for_job.cpp\<close>: two versions of \<open>hasCycle\<close>, one that marks the visited nodes
  by letting them point to themselves and one with a slow and a fast pointer, and two versions of \<open>EntryNodeOfLoop\<close>, one
  with a set of visited nodes and one with two pointers.

  In a finite heap without dangling pointers the nodes reachable from a pointer form either a null-terminated list or a path
  \<open>xs\<close> into a cycle \<open>ys\<close> (\<open>list_shape\<close>).  The programs are partial functions; the theorems show that they return in every such
  heap, and what they return.
\<close>

section \<open>Programs\<close>

partial_function (option) mark_loop :: "ptr \<Rightarrow> list_heap \<Rightarrow> (bool \<times> list_heap) option" where
  "mark_loop pnode h =
     (if pnode = None then Some (False, h)
      else do {
        nx \<leftarrow> get_next h pnode;
        (if nx = pnode then Some (True, h)
         else do { h1 \<leftarrow> set_next pnode pnode h; mark_loop nx h1 })
      })"

definition has_cycle_mark :: "ptr \<Rightarrow> list_heap \<Rightarrow> (bool \<times> list_heap) option" where
  "has_cycle_mark head h = mark_loop head h"

partial_function (option) has_cycle_loop :: "list_heap \<Rightarrow> ptr \<Rightarrow> ptr \<Rightarrow> bool option" where
  "has_cycle_loop h fast slow =
     (if fast = None then Some False
      else do {
        f1 \<leftarrow> get_next h fast;
        (if f1 = None then Some False
         else do {
           f2 \<leftarrow> get_next h f1;
           (if f2 = None then Some False
            else do {
              s \<leftarrow> get_next h slow;
              (if f2 = s then Some True else has_cycle_loop h f2 s)
            })
         })
      })"

definition has_cycle :: "list_heap \<Rightarrow> ptr \<Rightarrow> bool option" where
  "has_cycle h head =
     (if head = None then Some False
      else do {
        nx \<leftarrow> get_next h head;
        (if nx = None then Some False else has_cycle_loop h head head)
      })"

partial_function (option) entry_set_loop :: "list_heap \<Rightarrow> nat set \<Rightarrow> ptr \<Rightarrow> ptr option" where
  "entry_set_loop h nodes p =
     (case p of
        None \<Rightarrow> Some None
      | Some a \<Rightarrow>
          if a \<notin> nodes
          then do { nx \<leftarrow> get_next h p; entry_set_loop h (insert a nodes) nx }
          else Some p)"

definition entry_node_set :: "list_heap \<Rightarrow> ptr \<Rightarrow> ptr option" where
  "entry_node_set h pHead = entry_set_loop h {} pHead"

partial_function (option) sync_loop :: "list_heap \<Rightarrow> ptr \<Rightarrow> ptr \<Rightarrow> ptr option" where
  "sync_loop h slow fast =
     (if slow \<noteq> fast
      then do { s \<leftarrow> get_next h slow; f \<leftarrow> get_next h fast; sync_loop h s f }
      else Some slow)"

partial_function (option) entry_loop :: "list_heap \<Rightarrow> ptr \<Rightarrow> ptr \<Rightarrow> ptr \<Rightarrow> ptr option" where
  "entry_loop h pHead fast slow =
     (if fast = None then Some None
      else do {
        f1 \<leftarrow> get_next h fast;
        (if f1 = None then Some None
         else do {
           f2 \<leftarrow> get_next h f1;
           s \<leftarrow> get_next h slow;
           (if f2 = s then sync_loop h s pHead else entry_loop h pHead f2 s)
         })
      })"

definition entry_node_of_loop :: "list_heap \<Rightarrow> ptr \<Rightarrow> ptr option" where
  "entry_node_of_loop h pHead = (if pHead = None then Some None else entry_loop h pHead pHead pHead)"

section \<open>Shapes\<close>

text \<open>A path into a cycle: \<open>xs\<close> leads to the first node of \<open>ys\<close>, and the last node of \<open>ys\<close> back to it.\<close>

definition lasso :: "list_heap \<Rightarrow> ptr \<Rightarrow> nat list \<Rightarrow> nat list \<Rightarrow> bool" where
  "lasso h p xs ys \<longleftrightarrow> ys \<noteq> [] \<and> distinct (xs @ ys) \<and> lseg h p (xs @ ys) (Some (hd ys))"

definition no_dangling :: "list_heap \<Rightarrow> ptr \<Rightarrow> bool" where
  "no_dangling h p \<longleftrightarrow> finite (dom h) \<and> (\<forall>a. p = Some a \<longrightarrow> a \<in> dom h) \<and>
     (\<forall>a n b. h a = Some n \<longrightarrow> ln_next n = Some b \<longrightarrow> b \<in> dom h)"

lemma shape_exists:
  assumes "no_dangling h p" and "lseg h p as q" and "distinct as" and "\<forall>a. q = Some a \<longrightarrow> a \<in> dom h"
  shows "(\<exists>bs. lseg h p bs None) \<or> (\<exists>xs ys. lasso h p xs ys)"
  using assms
proof (induction "card (dom h - set as)" arbitrary: as q rule: less_induct)
  case less
  show ?case
  proof (cases q)
    case None
    then show ?thesis using less.prems by blast
  next
    case (Some a)
    show ?thesis
    proof (cases "a \<in> set as")
      case True
      then obtain xs ys where "as = xs @ a # ys" by (metis split_list)
      then have "lasso h p xs (a # ys)" using less.prems Some by (simp add: lasso_def)
      then show ?thesis by blast
    next
      case False
      obtain n where n: "h a = Some n" using less.prems(4) Some by auto
      have "lseg h p (as @ [a]) (ln_next n)" using less.prems(2) Some n by (simp add: lseg_snoc)
      moreover have "\<forall>b. ln_next n = Some b \<longrightarrow> b \<in> dom h" using less.prems(1) n by (auto simp: no_dangling_def)
      moreover have "card (dom h - set (as @ [a])) < card (dom h - set as)"
        using less.prems(1) n False by (intro psubset_card_mono) (auto simp: no_dangling_def)
      ultimately show ?thesis using less.hyps [of "as @ [a]" "ln_next n"] less.prems(1,3) False by simp
    qed
  qed
qed

lemma list_shape:
  assumes "no_dangling h p"
  obtains (list) as where "lseg h p as None" | (cycle) xs ys where "lasso h p xs ys"
  using shape_exists [OF assms, of "[]" p] assms by (auto simp: no_dangling_def)

lemma next_nth:
  assumes "lseg h p as q" and "i < length as"
  shows "get_next h (Some (as ! i)) = Some (if Suc i < length as then Some (as ! Suc i) else q)"
proof -
  have as: "as = take i as @ as ! i # drop (Suc i) as" using assms(2) by (rule id_take_nth_drop)
  then obtain n where n: "h (as ! i) = Some n" "lseg h (ln_next n) (drop (Suc i) as) q"
    using assms(1) lseg_append [of h p "take i as" "as ! i # drop (Suc i) as" q] by auto
  show ?thesis
  proof (cases "Suc i < length as")
    case True
    then show ?thesis using n by (auto simp: heap_simps Cons_nth_drop_Suc [symmetric])
  qed (use n in \<open>auto simp: heap_simps\<close>)
qed

subsection \<open>Positions on a lasso\<close>

text \<open>After \<open>k\<close> steps from the start of a path of length \<open>m\<close> into a cycle of length \<open>l\<close> one is at position \<open>lasso_pos m l k\<close>.\<close>

definition lasso_pos :: "nat \<Rightarrow> nat \<Rightarrow> nat \<Rightarrow> nat" where
  "lasso_pos m l k = (if k < m then k else m + (k - m) mod l)"

lemma lasso_pos_bound: "0 < l \<Longrightarrow> lasso_pos m l k < m + l"
  by (simp add: lasso_pos_def)

lemma lasso_pos_Suc:
  "0 < l \<Longrightarrow> lasso_pos m l (Suc k) = (if Suc (lasso_pos m l k) = m + l then m else Suc (lasso_pos m l k))"
  by (auto simp: lasso_pos_def mod_Suc Suc_diff_le not_less less_Suc_eq)

lemma lasso_pos_double:
  assumes "0 < l" and "0 < k"
  shows "lasso_pos m l (2 * k) = lasso_pos m l k \<longleftrightarrow> m \<le> k \<and> l dvd k"
proof (cases "m \<le> k")
  case True
  have "2 * k - m = (k - m) + k" using True by simp
  moreover have "((k - m) + k) mod l = (k - m) mod l \<longleftrightarrow> l dvd k" by (simp add: mod_eq_dvd_iff_nat)
  ultimately show ?thesis using True by (simp add: lasso_pos_def)
next
  case False
  then show ?thesis using assms by (auto simp: lasso_pos_def)
qed

lemma lasso_pos_meet:
  assumes "0 < l" and "m \<le> k" and "l dvd k"
  shows "lasso_pos m l (k + i) = lasso_pos m l i \<longleftrightarrow> m \<le> i"
proof (cases "m \<le> i")
  case True
  then have "k + i - m = (i - m) + k" by simp
  moreover have "((i - m) + k) mod l = (i - m) mod l" using assms(3) by (auto elim!: dvdE)
  ultimately show ?thesis using True assms(2) by (simp add: lasso_pos_def)
next
  case False
  then show ?thesis using assms by (auto simp: lasso_pos_def)
qed

definition lasso_at :: "nat list \<Rightarrow> nat list \<Rightarrow> nat \<Rightarrow> ptr" where
  "lasso_at xs ys k = Some ((xs @ ys) ! lasso_pos (length xs) (length ys) k)"

lemma lasso_at_Suc:
  assumes "lasso h p xs ys"
  shows "get_next h (lasso_at xs ys k) = Some (lasso_at xs ys (Suc k))"
proof -
  let ?i = "lasso_pos (length xs) (length ys) k"
  have l: "0 < length ys" "lseg h p (xs @ ys) (Some (hd ys))" using assms by (auto simp: lasso_def)
  have i: "?i < length (xs @ ys)" using lasso_pos_bound [OF l(1)] by simp
  have "hd ys = (xs @ ys) ! length xs" using l(1) by (simp add: nth_append hd_conv_nth)
  then show ?thesis using next_nth [OF l(2) i] i by (auto simp: lasso_at_def lasso_pos_Suc [OF l(1)])
qed

lemma lasso_at_0:
  assumes "lasso h p xs ys"
  shows "p = lasso_at xs ys 0"
proof -
  have "xs @ ys \<noteq> []" "lseg h p (xs @ ys) (Some (hd ys))" using assms by (auto simp: lasso_def)
  then have "p = Some ((xs @ ys) ! 0)" by (cases "xs @ ys") auto
  then show ?thesis by (cases xs) (auto simp: lasso_at_def lasso_pos_def)
qed

lemma lasso_at_eq:
  assumes "lasso h p xs ys"
  shows "lasso_at xs ys j = lasso_at xs ys k \<longleftrightarrow>
    lasso_pos (length xs) (length ys) j = lasso_pos (length xs) (length ys) k"
proof -
  have d: "0 < length ys" "distinct (xs @ ys)" using assms by (auto simp: lasso_def)
  show ?thesis
    using lasso_pos_bound [OF d(1), of "length xs"] by (simp add: lasso_at_def nth_eq_iff_index_eq [OF d(2)])
qed

lemma lasso_entry: "lasso h p xs ys \<Longrightarrow> lasso_at xs ys (length xs) = Some (hd ys)"
  by (auto simp: lasso_def lasso_at_def lasso_pos_def nth_append hd_conv_nth)

lemma lasso_not_null [simp]: "lasso_at xs ys k \<noteq> None"
  by (simp add: lasso_at_def)

lemma lasso_no_list:
  assumes "lasso h p xs ys"
  shows "\<not> lseg h p as None"
proof
  assume "lseg h p as None"
  then have "advance h (length as) p = Some None" using advance_lseg [of h p as "[]" None] by simp
  moreover have "advance h k (lasso_at xs ys j) = Some (lasso_at xs ys (j + k))" for j k
    by (induction k arbitrary: j) (simp_all add: lasso_at_Suc [OF assms])
  ultimately show False using lasso_at_0 [OF assms] by (metis lasso_not_null option.inject)
qed

section \<open>The two pointers\<close>

text \<open>The pointers meet after \<open>k\<close> rounds, for the least positive multiple \<open>k\<close> of the length of the cycle that is at least the
  length of the path into it.\<close>

definition meets :: "nat list \<Rightarrow> nat list \<Rightarrow> nat \<Rightarrow> bool" where
  "meets xs ys k \<longleftrightarrow> 0 < k \<and> length xs \<le> k \<and> length ys dvd k"

lemma meets_iff:
  assumes "lasso h p xs ys"
  shows "lasso_at xs ys (2 * Suc k) = lasso_at xs ys (Suc k) \<longleftrightarrow> meets xs ys (Suc k)"
  using lasso_at_eq [OF assms, of "2 * Suc k" "Suc k"] lasso_pos_double [of "length ys" "Suc k" "length xs"] assms
  by (simp add: meets_def lasso_def)

lemma meets_exists:
  assumes "ys \<noteq> []"
  shows "\<exists>k. meets xs ys k"
proof -
  have "1 * length xs \<le> length ys * length xs" using assms by (intro mult_le_mono1) (simp add: Suc_leI)
  then have "length xs \<le> length ys * Suc (length xs)" unfolding mult_Suc_right mult_1 by (rule trans_le_add2)
  then have "meets xs ys (length ys * Suc (length xs))" using assms by (simp add: meets_def)
  then show ?thesis by blast
qed

lemma first_meeting:
  assumes "ys \<noteq> []"
  obtains k where "meets xs ys (Suc k)" and "\<forall>j<k. \<not> meets xs ys (Suc j)"
proof -
  define k where "k = (LEAST k. meets xs ys k)"
  have k: "meets xs ys k" unfolding k_def using meets_exists [OF assms] by (rule LeastI_ex)
  have least: "\<not> meets xs ys j" if lt: "j < k" for j using not_less_Least lt unfolding k_def by blast
  obtain i where i: "k = Suc i" using k by (cases k) (auto simp: meets_def)
  show thesis by (rule that [of i]) (use k least i in auto)
qed

lemma has_cycle_loop_lasso:
  assumes l: "lasso h p xs ys" and k: "meets xs ys (Suc k)" "\<forall>j<k. \<not> meets xs ys (Suc j)" and j: "j \<le> k"
  shows "has_cycle_loop h (lasso_at xs ys (2 * j)) (lasso_at xs ys j) = Some True"
  using j
proof (induction j rule: inc_induct)
  case base
  then show ?case using k(1) meets_iff [OF l, of k]
    by (subst has_cycle_loop.simps) (simp add: lasso_at_Suc [OF l])
next
  case (step j)
  have "lasso_at xs ys (2 * Suc j) \<noteq> lasso_at xs ys (Suc j)" using k(2) step.hyps meets_iff [OF l, of j] by blast
  then show ?case using step.IH
    by (subst has_cycle_loop.simps) (simp add: lasso_at_Suc [OF l])
qed

lemma sync_loop_lasso:
  assumes l: "lasso h p xs ys" and k: "meets xs ys k" and i: "i \<le> length xs"
  shows "sync_loop h (lasso_at xs ys (k + i)) (lasso_at xs ys i) = Some (Some (hd ys))"
proof -
  have ne: "0 < length ys" using l by (simp add: lasso_def)
  have eq: "lasso_at xs ys (k + i) = lasso_at xs ys i \<longleftrightarrow> length xs \<le> i" for i
    using lasso_at_eq [OF l] lasso_pos_meet [OF ne] k by (simp add: meets_def)
  show ?thesis
    using i
  proof (induction i rule: inc_induct)
    case base
    then show ?case using eq [of "length xs"] lasso_entry [OF l] by (subst sync_loop.simps) simp
  next
    case (step i)
    then show ?case using eq [of i] by (subst sync_loop.simps) (simp add: lasso_at_Suc [OF l])
  qed
qed

lemma entry_loop_lasso:
  assumes l: "lasso h p xs ys" and k: "meets xs ys (Suc k)" "\<forall>j<k. \<not> meets xs ys (Suc j)" and j: "j \<le> k"
  shows "entry_loop h p (lasso_at xs ys (2 * j)) (lasso_at xs ys j) = Some (Some (hd ys))"
  using j
proof (induction j rule: inc_induct)
  case base
  have "sync_loop h (lasso_at xs ys (Suc k)) p = Some (Some (hd ys))"
    using sync_loop_lasso [OF l k(1), of 0] lasso_at_0 [OF l] by simp
  then show ?case using k(1) meets_iff [OF l, of k]
    by (subst entry_loop.simps) (simp add: lasso_at_Suc [OF l])
next
  case (step j)
  have "lasso_at xs ys (2 * Suc j) \<noteq> lasso_at xs ys (Suc j)" using k(2) step.hyps meets_iff [OF l, of j] by blast
  then show ?case using step.IH
    by (subst entry_loop.simps) (simp add: lasso_at_Suc [OF l])
qed

lemma has_cycle_lasso:
  assumes "lasso h p xs ys"
  shows "has_cycle h p = Some True"
proof -
  obtain k where "meets xs ys (Suc k)" "\<forall>j<k. \<not> meets xs ys (Suc j)"
    using first_meeting [of ys xs] assms by (auto simp: lasso_def)
  then have "has_cycle_loop h p p = Some True"
    using has_cycle_loop_lasso [OF assms, of k 0] lasso_at_0 [OF assms] by simp
  then show ?thesis using lasso_at_Suc [OF assms, of 0] lasso_at_0 [OF assms] by (simp add: has_cycle_def)
qed

lemma entry_node_lasso:
  assumes "lasso h p xs ys"
  shows "entry_node_of_loop h p = Some (Some (hd ys))"
proof -
  obtain k where "meets xs ys (Suc k)" "\<forall>j<k. \<not> meets xs ys (Suc j)"
    using first_meeting [of ys xs] assms by (auto simp: lasso_def)
  then show ?thesis
    using entry_loop_lasso [OF assms, of k 0] lasso_at_0 [OF assms] by (simp add: entry_node_of_loop_def)
qed

subsection \<open>Null-terminated lists\<close>

definition list_at :: "nat list \<Rightarrow> nat \<Rightarrow> ptr" where
  "list_at as k = (if k < length as then Some (as ! k) else None)"

lemma list_at_Suc: "lseg h p as None \<Longrightarrow> k < length as \<Longrightarrow> get_next h (list_at as k) = Some (list_at as (Suc k))"
  using next_nth [of h p as None k] by (simp add: list_at_def)

lemma list_at_0: "lseg h p as None \<Longrightarrow> p = list_at as 0"
  by (cases as) (auto simp: list_at_def)

lemma list_at_null: "list_at as k = None \<longleftrightarrow> length as \<le> k"
  by (auto simp: list_at_def)

lemma list_at_ahead: "lseg h p as None \<Longrightarrow> j < k \<Longrightarrow> j < length as \<Longrightarrow> list_at as k \<noteq> list_at as j"
  using lseg_distinct [of h p as] by (auto simp: list_at_def nth_eq_iff_index_eq)

lemma has_cycle_loop_list:
  assumes l: "lseg h p as None"
  shows "has_cycle_loop h (list_at as (2 * j)) (list_at as j) = Some False"
proof (induction "length as - 2 * j" arbitrary: j rule: less_induct)
  case less
  show ?case
  proof (cases "2 * Suc j < length as")
    case True
    have IH: "has_cycle_loop h (list_at as (2 * Suc j)) (list_at as (Suc j)) = Some False"
      by (rule less) (use True in simp)
    have "list_at as (2 * Suc j) \<noteq> list_at as (Suc j)" using True by (intro list_at_ahead [OF l]) auto
    then show ?thesis using True IH
      by (subst has_cycle_loop.simps) (simp add: list_at_Suc [OF l] list_at_null)
  next
    case False
    then show ?thesis by (subst has_cycle_loop.simps) (auto simp: list_at_Suc [OF l] list_at_null)
  qed
qed

lemma entry_loop_list:
  assumes l: "lseg h p as None"
  shows "entry_loop h p (list_at as (2 * j)) (list_at as j) = Some None"
proof (induction "length as - 2 * j" arbitrary: j rule: less_induct)
  case less
  show ?case
  proof (cases "Suc (2 * j) < length as")
    case True
    have IH: "entry_loop h p (list_at as (2 * Suc j)) (list_at as (Suc j)) = Some None"
      by (rule less) (use True in simp)
    have "list_at as (2 * Suc j) \<noteq> list_at as (Suc j)" using True by (intro list_at_ahead [OF l]) auto
    then show ?thesis using True IH
      by (subst entry_loop.simps) (simp add: list_at_Suc [OF l] list_at_null)
  next
    case False
    then show ?thesis by (subst entry_loop.simps) (auto simp: list_at_Suc [OF l] list_at_null)
  qed
qed

lemma has_cycle_list:
  assumes "lseg h p as None"
  shows "has_cycle h p = Some False"
proof (cases "p = None")
  case True
  then show ?thesis by (simp add: has_cycle_def)
next
  case False
  then have "get_next h p = Some (list_at as (Suc 0))"
    using list_at_Suc [OF assms, of 0] list_at_0 [OF assms] list_at_null [of as 0] by auto
  then show ?thesis
    using has_cycle_loop_list [OF assms, of 0] list_at_0 [OF assms] by (simp add: has_cycle_def)
qed

lemma entry_node_list: "lseg h p as None \<Longrightarrow> entry_node_of_loop h p = Some None"
  using entry_loop_list [of h p as 0] list_at_0 [of h p as] by (simp add: entry_node_of_loop_def)

section \<open>Marking and remembering visited nodes\<close>

text \<open>On a null-terminated list the marking version ends, but leaves every node pointing to itself.\<close>

lemma mark_loop_list:
  assumes "lseg h p as None"
  shows "\<exists>h'. mark_loop p h = Some (False, h') \<and> (\<forall>a\<in>set as. get_next h' (Some a) = Some (Some a)) \<and>
    (\<forall>a. a \<notin> set as \<longrightarrow> h' a = h a)"
  using assms
proof (induction as arbitrary: p h)
  case Nil
  then show ?case by (subst mark_loop.simps) simp
next
  case (Cons a as)
  from Cons.prems obtain n where n: "p = Some a" "h a = Some n" "lseg h (ln_next n) as None" by auto
  have a: "a \<notin> set as" using lseg_distinct [OF Cons.prems] by simp
  let ?h = "h(a \<mapsto> n\<lparr>ln_next := Some a\<rparr>)"
  have ne: "ln_next n \<noteq> Some a" using n(3) a by (cases as) auto
  have "lseg ?h (ln_next n) as None" using n(3) a by simp
  then obtain h' where r: "mark_loop (ln_next n) ?h = Some (False, h')"
    "\<forall>a\<in>set as. get_next h' (Some a) = Some (Some a)" "\<forall>a. a \<notin> set as \<longrightarrow> h' a = ?h a"
    using Cons.IH by blast
  have "get_next h' (Some a) = Some (Some a)" using r(3) a by (simp add: get_next_def)
  then show ?case using n ne r by (subst mark_loop.simps) (auto simp: heap_simps)
qed

lemma mark_loop_cycle:
  assumes "lseg h p zs (Some c)" and "distinct zs" and "c \<in> set zs \<or> get_next h (Some c) = Some (Some c)"
  shows "\<exists>h'. mark_loop p h = Some (True, h')"
  using assms
proof (induction zs arbitrary: p h)
  case Nil
  then show ?case by (subst mark_loop.simps) simp
next
  case (Cons a zs)
  from Cons.prems(1) obtain n where n: "p = Some a" "h a = Some n" "lseg h (ln_next n) zs (Some c)" by auto
  show ?case
  proof (cases "ln_next n = Some a")
    case True
    then show ?thesis using n by (subst mark_loop.simps) (simp add: heap_simps)
  next
    case False
    let ?h = "h(a \<mapsto> n\<lparr>ln_next := Some a\<rparr>)"
    have "lseg ?h (ln_next n) zs (Some c)" using n(3) Cons.prems(2) by simp
    moreover have "c \<in> set zs \<or> get_next ?h (Some c) = Some (Some c)"
      using Cons.prems(3) by (auto simp: get_next_def)
    moreover have "distinct zs" using Cons.prems(2) by simp
    ultimately obtain h' where "mark_loop (ln_next n) ?h = Some (True, h')" using Cons.IH by blast
    then show ?thesis using n False by (subst mark_loop.simps) (simp add: heap_simps)
  qed
qed

lemma entry_set_loop_seg:
  "lseg h p as q \<Longrightarrow> distinct as \<Longrightarrow> set as \<inter> nodes = {} \<Longrightarrow>
   entry_set_loop h nodes p = entry_set_loop h (nodes \<union> set as) q"
proof (induction as arbitrary: p nodes)
  case (Cons a as)
  from Cons.prems(1) obtain n where n: "p = Some a" "h a = Some n" "lseg h (ln_next n) as q" by auto
  have "entry_set_loop h (insert a nodes) (ln_next n) = entry_set_loop h (insert a nodes \<union> set as) q"
    by (rule Cons.IH [OF n(3)]) (use Cons.prems in auto)
  then show ?case using n Cons.prems(3) by (subst entry_set_loop.simps) (simp add: heap_simps)
qed simp

lemma entry_set_list: "lseg h p as None \<Longrightarrow> entry_node_set h p = Some None"
  using entry_set_loop_seg [of h p as None "{}"] lseg_distinct [of h p as]
  by (simp add: entry_node_set_def entry_set_loop.simps [of h _ None])

lemma entry_set_lasso: "lasso h p xs ys \<Longrightarrow> entry_node_set h p = Some (Some (hd ys))"
  using entry_set_loop_seg [of h p "xs @ ys" "Some (hd ys)" "{}"]
  by (simp add: lasso_def entry_node_set_def entry_set_loop.simps [of h _ "Some (hd ys)"])

section \<open>Theorems\<close>

text \<open>
  C34: In a finite heap without dangling pointers both versions of \<open>hasCycle\<close> return, and they return true exactly when no
  number of steps leads to a null pointer.\<close>

theorem has_cycle_correct:
  assumes "no_dangling h p"
  shows "has_cycle h p = Some (\<nexists>as. lseg h p as None) \<and>
    (\<exists>h'. has_cycle_mark p h = Some (\<nexists>as. lseg h p as None, h'))"
  using assms
proof (cases rule: list_shape)
  case (list as)
  then have "(\<nexists>as. lseg h p as None) = False" by blast
  then show ?thesis using has_cycle_list [OF list] mark_loop_list [OF list] by (auto simp: has_cycle_mark_def)
next
  case (cycle xs ys)
  then have "\<exists>h'. mark_loop p h = Some (True, h')"
    using mark_loop_cycle [of h p "xs @ ys" "hd ys"] by (auto simp: lasso_def)
  moreover have "\<nexists>as. lseg h p as None" using lasso_no_list [OF cycle] by blast
  ultimately show ?thesis using has_cycle_lasso [OF cycle] by (simp add: has_cycle_mark_def)
qed

definition lasso_heap :: list_heap where
  "lasso_heap = [0 \<mapsto> \<lparr>ln_val = 0, ln_next = Some 1\<rparr>, 1 \<mapsto> \<lparr>ln_val = 0, ln_next = Some 2\<rparr>, 2 \<mapsto> \<lparr>ln_val = 0, ln_next = Some 1\<rparr>]"

lemma lasso_heap_ok: "no_dangling lasso_heap (Some 0)" "lasso lasso_heap (Some 0) [0] [1, 2]"
  by (auto simp: no_dangling_def lasso_def lasso_heap_def split: if_splits)

theorem has_cycle_correct_witness: "has_cycle lasso_heap (Some 0) = Some True"
  using has_cycle_correct [OF lasso_heap_ok(1)] lasso_no_list [OF lasso_heap_ok(2)] by simp

text \<open>
  C33: Both versions of \<open>EntryNodeOfLoop\<close> return the same in a finite heap without dangling pointers: null for a
  null-terminated list, and otherwise the node at which the path from the head enters the cycle.\<close>

theorem entry_node_equivalent:
  assumes "no_dangling h p"
  shows "entry_node_of_loop h p = entry_node_set h p \<and>
    (if \<exists>as. lseg h p as None then entry_node_of_loop h p = Some None
     else \<exists>xs ys. lasso h p xs ys \<and> entry_node_of_loop h p = Some (Some (hd ys)))"
  using assms
proof (cases rule: list_shape)
  case (list as)
  then show ?thesis using entry_node_list entry_set_list by auto
next
  case (cycle xs ys)
  have "\<nexists>as. lseg h p as None" using lasso_no_list [OF cycle] by blast
  then show ?thesis using entry_node_lasso [OF cycle] entry_set_lasso [OF cycle] cycle by auto
qed

theorem entry_node_equivalent_witness:
  "entry_node_of_loop lasso_heap (Some 0) = Some (Some 1) \<and> entry_node_set lasso_heap (Some 0) = Some (Some 1)"
  using entry_node_equivalent [OF lasso_heap_ok(1)] entry_node_lasso [OF lasso_heap_ok(2)] by simp

end
