(* ===== verification/CycleCheck.thy ===== *)
theory CycleCheck
  imports Main
begin

text \<open>
  The graph class \<open>DAG\<close> of \<open>find_job/look_for_job.cpp\<close>: adjacency lists and a depth-first search that looks for a cycle with
  the flags \<open>visited\<close> and \<open>recursionStack\<close>.  An access outside a vector is \<open>OutOfBounds\<close>.  The recursion is bounded by a depth;
  the theorem shows that the number of vertices is a sufficient one, since every nested call visits a new vertex.
\<close>

section \<open>The class\<close>

record dag_graph =
  num_vertices :: int
  adj_list :: "int list list"

datatype graph_error = OutOfBounds | OutOfDepth

definition vec_at :: "'a list \<Rightarrow> int \<Rightarrow> graph_error + 'a" where
  "vec_at xs i = (if 0 \<le> i \<and> i < int (length xs) then Inr (xs ! nat i) else Inl OutOfBounds)"

definition vec_set :: "'a list \<Rightarrow> int \<Rightarrow> 'a \<Rightarrow> graph_error + 'a list" where
  "vec_set xs i x = (if 0 \<le> i \<and> i < int (length xs) then Inr (xs[nat i := x]) else Inl OutOfBounds)"

text \<open>\<open>resize\<close> with a negative number throws.\<close>

definition dag_construct :: "int \<Rightarrow> dag_graph option" where
  "dag_construct vertices =
     (if vertices < 0 then None else Some \<lparr>num_vertices = vertices, adj_list = replicate (nat vertices) []\<rparr>)"

text \<open>An edge with a number that is too large is reported and ignored.\<close>

definition add_edge :: "int \<Rightarrow> int \<Rightarrow> dag_graph \<Rightarrow> graph_error + dag_graph" where
  "add_edge src dest g =
     (if src \<ge> num_vertices g \<or> dest \<ge> num_vertices g then Inr g
      else
        case vec_at (adj_list g) src of
          Inl e \<Rightarrow> Inl e
        | Inr ws \<Rightarrow> Inr (g\<lparr>adj_list := (adj_list g)[nat src := ws @ [dest]]\<rparr>))"

type_synonym flags = "bool list \<times> bool list"

fun is_cyclic_util :: "nat \<Rightarrow> int list list \<Rightarrow> int \<Rightarrow> flags \<Rightarrow> graph_error + bool \<times> flags"
and adjacent_loop :: "nat \<Rightarrow> int list list \<Rightarrow> int list \<Rightarrow> flags \<Rightarrow> graph_error + bool \<times> flags" where
  "is_cyclic_util 0 adj vertex fl = Inl OutOfDepth"
| "is_cyclic_util (Suc d) adj vertex (visited, stack) =
     (case vec_set visited vertex True of
        Inl e \<Rightarrow> Inl e
      | Inr visited1 \<Rightarrow>
     (case vec_set stack vertex True of
        Inl e \<Rightarrow> Inl e
      | Inr stack1 \<Rightarrow>
     (case vec_at adj vertex of
        Inl e \<Rightarrow> Inl e
      | Inr ws \<Rightarrow>
     (case adjacent_loop d adj ws (visited1, stack1) of
        Inl e \<Rightarrow> Inl e
      | Inr (True, fl) \<Rightarrow> Inr (True, fl)
      | Inr (False, (visited2, stack2)) \<Rightarrow>
     (case vec_set stack2 vertex False of
        Inl e \<Rightarrow> Inl e
      | Inr stack3 \<Rightarrow> Inr (False, (visited2, stack3)))))))"
| "adjacent_loop d adj [] fl = Inr (False, fl)"
| "adjacent_loop d adj (w # ws) (visited, stack) =
     (case vec_at visited w of
        Inl e \<Rightarrow> Inl e
      | Inr False \<Rightarrow>
          (case is_cyclic_util d adj w (visited, stack) of
             Inl e \<Rightarrow> Inl e
           | Inr (True, fl) \<Rightarrow> Inr (True, fl)
           | Inr (False, fl) \<Rightarrow> adjacent_loop d adj ws fl)
      | Inr True \<Rightarrow>
          (case vec_at stack w of
             Inl e \<Rightarrow> Inl e
           | Inr True \<Rightarrow> Inr (True, (visited, stack))
           | Inr False \<Rightarrow> adjacent_loop d adj ws (visited, stack)))"

fun vertex_loop :: "nat \<Rightarrow> int list list \<Rightarrow> int list \<Rightarrow> flags \<Rightarrow> graph_error + bool" where
  "vertex_loop d adj [] fl = Inr False"
| "vertex_loop d adj (i # is) (visited, stack) =
     (case vec_at visited i of
        Inl e \<Rightarrow> Inl e
      | Inr True \<Rightarrow> vertex_loop d adj is (visited, stack)
      | Inr False \<Rightarrow>
          (case is_cyclic_util d adj i (visited, stack) of
             Inl e \<Rightarrow> Inl e
           | Inr (True, fl) \<Rightarrow> Inr True
           | Inr (False, fl) \<Rightarrow> vertex_loop d adj is fl))"

definition is_cyclic :: "nat \<Rightarrow> dag_graph \<Rightarrow> graph_error + bool" where
  "is_cyclic d g =
     vertex_loop d (adj_list g) [0..num_vertices g - 1]
       (replicate (nat (num_vertices g)) False, replicate (nat (num_vertices g)) False)"

text \<open>\<open>printGraph\<close>: for each vertex its number and the numbers adjacent to it; and \<open>main\<close>, with the flag that tells which of its two last lines is printed.\<close>

fun print_vertices :: "int list list \<Rightarrow> int list \<Rightarrow> graph_error + (int \<times> int list) list" where
  "print_vertices adj [] = Inr []"
| "print_vertices adj (i # is) =
     (case vec_at adj i of
        Inl e \<Rightarrow> Inl e
      | Inr ws \<Rightarrow> (case print_vertices adj is of Inl e \<Rightarrow> Inl e | Inr ls \<Rightarrow> Inr ((i, ws) # ls)))"

definition print_graph :: "dag_graph \<Rightarrow> graph_error + (int \<times> int list) list" where
  "print_graph g = print_vertices (adj_list g) [0..num_vertices g - 1]"

fun add_edges :: "(int \<times> int) list \<Rightarrow> dag_graph \<Rightarrow> graph_error + dag_graph" where
  "add_edges [] g = Inr g"
| "add_edges ((v, w) # es) g = (case add_edge v w g of Inl e \<Rightarrow> Inl e | Inr g' \<Rightarrow> add_edges es g')"

definition graph_main :: "nat \<Rightarrow> (graph_error + (int \<times> int list) list \<times> bool) option" where
  "graph_main d =
     map_option (\<lambda>dag.
       case add_edges [(0, 1), (0, 2), (1, 2), (2, 3)] dag of
         Inl e \<Rightarrow> Inl e
       | Inr g \<Rightarrow>
           (case print_graph g of
              Inl e \<Rightarrow> Inl e
            | Inr ls \<Rightarrow> (case is_cyclic d g of Inl e \<Rightarrow> Inl e | Inr cyclic \<Rightarrow> Inr (ls, cyclic)))) (dag_construct 4)"

section \<open>The search\<close>

definition graph_rel :: "int list list \<Rightarrow> (int \<times> int) set" where
  "graph_rel adj = {(v, w). 0 \<le> v \<and> v < int (length adj) \<and> w \<in> set (adj ! nat v)}"

definition flagged :: "bool list \<Rightarrow> int set" where
  "flagged fs = {i. 0 \<le> i \<and> i < int (length fs) \<and> fs ! nat i}"

definition adj_ok :: "int list list \<Rightarrow> bool" where
  "adj_ok adj \<longleftrightarrow> (\<forall>ws\<in>set adj. \<forall>w\<in>set ws. 0 \<le> w \<and> w < int (length adj))"

lemma flagged_update:
  "0 \<le> v \<Longrightarrow> v < int (length fs) \<Longrightarrow> flagged (fs[nat v := b]) = (if b then insert v (flagged fs) else flagged fs - {v})"
  by (auto simp: flagged_def nth_list_update nat_eq_iff split: if_splits)

lemma vec_at_flag: "0 \<le> v \<Longrightarrow> v < int (length fs) \<Longrightarrow> vec_at fs v = Inr (v \<in> flagged fs)"
  by (simp add: vec_at_def flagged_def)

lemma flagged_subset: "flagged fs \<subseteq> {0..<int (length fs)}"
  by (auto simp: flagged_def)

lemma finite_flagged [simp]: "finite (flagged fs)"
  using flagged_subset finite_atLeastLessThan_int by (rule finite_subset)

text \<open>Finished vertices, visited and no longer on the stack, lead to finished vertices only, and lie on no cycle.\<close>

definition search_inv :: "int list list \<Rightarrow> int set \<Rightarrow> int set \<Rightarrow> bool" where
  "search_inv adj V S \<longleftrightarrow> S \<subseteq> V \<and>
     (\<forall>v\<in>V - S. graph_rel adj `` {v} \<subseteq> V - S \<and> (v, v) \<notin> (graph_rel adj)\<^sup>+)"

lemma finished_reachable: "(x, y) \<in> R\<^sup>* \<Longrightarrow> \<forall>v\<in>B. R `` {v} \<subseteq> B \<Longrightarrow> x \<in> B \<Longrightarrow> y \<in> B"
  by (induction rule: rtrancl_induct) auto

lemma finish_vertex:
  assumes inv: "search_inv adj V (insert v S)" and succ: "graph_rel adj `` {v} \<subseteq> V - insert v S" and v: "v \<notin> S" "v \<in> V"
  shows "search_inv adj V S"
proof -
  let ?B = "V - insert v S"
  have closed: "\<forall>u\<in>?B. graph_rel adj `` {u} \<subseteq> ?B" using inv by (auto simp: search_inv_def)
  have "(v, v) \<notin> (graph_rel adj)\<^sup>+"
  proof
    assume "(v, v) \<in> (graph_rel adj)\<^sup>+"
    then obtain w where "(v, w) \<in> graph_rel adj" "(w, v) \<in> (graph_rel adj)\<^sup>*" by (meson tranclD)
    then have "v \<in> ?B" using finished_reachable [OF _ closed] succ by blast
    then show False by simp
  qed
  moreover have "V - S = insert v ?B" using v by auto
  ultimately show ?thesis using inv succ closed v by (auto simp: search_inv_def)
qed

abbreviation unseen :: "int list list \<Rightarrow> bool list \<Rightarrow> nat" where
  "unseen adj fs \<equiv> card ({0..<int (length adj)} - flagged fs)"

lemma unseen_visit:
  assumes "0 \<le> v" "v < int (length adj)" "v \<notin> flagged fs" "length fs = length adj"
  shows "Suc (unseen adj (fs[nat v := True])) = unseen adj fs"
proof -
  let ?A = "{0..<int (length adj)} - flagged fs"
  have "{0..<int (length adj)} - flagged (fs[nat v := True]) = ?A - {v}" using assms by (auto simp: flagged_update)
  moreover have "Suc (card (?A - {v})) = card ?A" by (rule card_Suc_Diff1) (use assms in auto)
  ultimately show ?thesis by simp
qed

lemma unseen_mono: "flagged fs \<subseteq> flagged fs' \<Longrightarrow> unseen adj fs' \<le> unseen adj fs"
  by (intro card_mono) auto

text \<open>What a call returns: a cycle exists, or the stack is as before, the invariant holds, and the vertices asked for are
  finished.\<close>

definition search_post :: "int list list \<Rightarrow> bool list \<Rightarrow> bool list \<Rightarrow> int set \<Rightarrow> graph_error + bool \<times> flags \<Rightarrow> bool" where
  "search_post adj visited stack ws res \<longleftrightarrow>
     (\<exists>r visited' stack'. res = Inr (r, (visited', stack')) \<and>
        (if r then \<exists>x. (x, x) \<in> (graph_rel adj)\<^sup>+
         else length visited' = length adj \<and> length stack' = length adj \<and> flagged stack' = flagged stack \<and>
           search_inv adj (flagged visited') (flagged stack) \<and> flagged visited \<subseteq> flagged visited' \<and>
           ws \<subseteq> flagged visited' - flagged stack))"

lemma search_postE:
  assumes "search_post adj visited stack ws res"
  obtains fl where "res = Inr (True, fl)" "\<exists>x. (x, x) \<in> (graph_rel adj)\<^sup>+"
  | visited' stack' where "res = Inr (False, (visited', stack'))" "length visited' = length adj" "length stack' = length adj"
      "flagged stack' = flagged stack" "search_inv adj (flagged visited') (flagged stack)"
      "flagged visited \<subseteq> flagged visited'" "ws \<subseteq> flagged visited' - flagged stack"
proof -
  obtain r visited' stack' where res: "res = Inr (r, (visited', stack'))"
    and post: "if r then \<exists>x. (x, x) \<in> (graph_rel adj)\<^sup>+
      else length visited' = length adj \<and> length stack' = length adj \<and> flagged stack' = flagged stack \<and>
        search_inv adj (flagged visited') (flagged stack) \<and> flagged visited \<subseteq> flagged visited' \<and>
        ws \<subseteq> flagged visited' - flagged stack"
    using assms unfolding search_post_def by blast
  show thesis using res post that by (cases r) auto
qed

lemma search_post_True: "\<exists>x. (x, x) \<in> (graph_rel adj)\<^sup>+ \<Longrightarrow> search_post adj visited stack ws (Inr (True, fl))"
  by (cases fl) (auto simp: search_post_def)

definition util_ok :: "nat \<Rightarrow> int list list \<Rightarrow> bool" where
  "util_ok d adj \<longleftrightarrow> (\<forall>visited stack v.
     length visited = length adj \<longrightarrow> length stack = length adj \<longrightarrow> search_inv adj (flagged visited) (flagged stack) \<longrightarrow>
     0 \<le> v \<and> v < int (length adj) \<longrightarrow> v \<notin> flagged visited \<longrightarrow> unseen adj visited \<le> d \<longrightarrow>
     (\<forall>s\<in>flagged stack. (s, v) \<in> (graph_rel adj)\<^sup>*) \<longrightarrow>
     search_post adj visited stack {v} (is_cyclic_util d adj v (visited, stack)))"

lemma adjacent_loop_ok:
  assumes adj: "adj_ok adj" and util: "util_ok d adj"
    and "length visited = length adj" "length stack = length adj" "search_inv adj (flagged visited) (flagged stack)"
    and "\<forall>w\<in>set ws. (c, w) \<in> graph_rel adj" and "unseen adj visited \<le> d"
    and "\<forall>s\<in>flagged stack. (s, c) \<in> (graph_rel adj)\<^sup>*"
  shows "search_post adj visited stack (set ws) (adjacent_loop d adj ws (visited, stack))"
  using assms(3-)
proof (induction ws arbitrary: visited stack)
  case Nil
  then show ?case by (auto simp: search_post_def)
next
  case (Cons w ws)
  have cw: "(c, w) \<in> graph_rel adj" using Cons.prems(4) by simp
  then have "w \<in> set (adj ! nat c)" "adj ! nat c \<in> set adj" by (auto simp: graph_rel_def)
  then have w: "0 \<le> w" "w < int (length adj)" using adj by (auto simp: adj_ok_def)
  have rest: "search_post adj visited stack (set (w # ws)) (adjacent_loop d adj ws (visited', stack'))"
    if s: "length visited' = length adj" "length stack' = length adj" "flagged stack' = flagged stack"
      "search_inv adj (flagged visited') (flagged stack)" "flagged visited \<subseteq> flagged visited'"
      "w \<in> flagged visited' - flagged stack" for visited' stack'
  proof -
    have "search_post adj visited' stack' (set ws) (adjacent_loop d adj ws (visited', stack'))"
      by (rule Cons.IH) (use s Cons.prems unseen_mono [OF s(5), of adj] in auto)
    then show ?thesis
    proof (cases rule: search_postE)
      case (1 fl)
      then show ?thesis by (simp add: search_post_True)
    next
      case (2 visited2 stack2)
      then show ?thesis unfolding search_post_def using s by (intro exI [of _ False] exI [of _ visited2] exI [of _ stack2]) auto
    qed
  qed
  show ?case
  proof (cases "w \<in> flagged visited")
    case False
    have "\<forall>s\<in>flagged stack. (s, w) \<in> (graph_rel adj)\<^sup>*" using Cons.prems(6) cw by (meson rtrancl.rtrancl_into_rtrancl)
    then have "search_post adj visited stack {w} (is_cyclic_util d adj w (visited, stack))"
      using util Cons.prems(1-3,5) w False unfolding util_ok_def by blast
    then show ?thesis
    proof (cases rule: search_postE)
      case (1 fl)
      then show ?thesis using w False Cons.prems(1) by (auto simp: vec_at_flag intro: search_post_True)
    next
      case (2 visited' stack')
      then show ?thesis using rest [of visited' stack'] w False Cons.prems(1) by (auto simp: vec_at_flag)
    qed
  next
    case True
    show ?thesis
    proof (cases "w \<in> flagged stack")
      case on_stack: True
      then have "(w, w) \<in> (graph_rel adj)\<^sup>+" using Cons.prems(6) cw by (meson rtrancl_into_trancl1)
      then show ?thesis using True on_stack w Cons.prems(1,2) by (auto simp: vec_at_flag intro!: search_post_True)
    next
      case off: False
      then show ?thesis using rest [of visited stack] True w Cons.prems(1-3) by (auto simp: vec_at_flag)
    qed
  qed
qed

lemma is_cyclic_util_ok:
  assumes adj: "adj_ok adj"
  shows "util_ok d adj"
proof (induction d)
  case 0
  have "unseen adj visited \<noteq> 0" if "0 \<le> v \<and> v < int (length adj)" "v \<notin> flagged visited" for v visited
    using that by (auto simp: card_eq_0_iff)
  then show ?case by (force simp: util_ok_def)
next
  case (Suc d)
  show ?case
    unfolding util_ok_def
  proof (intro allI impI)
    fix visited stack :: "bool list" and v :: int
    assume len: "length visited = length adj" "length stack = length adj"
      and inv: "search_inv adj (flagged visited) (flagged stack)"
      and v: "0 \<le> v \<and> v < int (length adj)" "v \<notin> flagged visited" and d: "unseen adj visited \<le> Suc d"
      and path: "\<forall>s\<in>flagged stack. (s, v) \<in> (graph_rel adj)\<^sup>*"
    let ?vis = "visited[nat v := True]" let ?st = "stack[nat v := True]"
    have vs: "v \<notin> flagged stack" using inv v by (auto simp: search_inv_def)
    have fl: "flagged ?vis = insert v (flagged visited)" "flagged ?st = insert v (flagged stack)"
      using v len by (simp_all add: flagged_update)
    have "search_inv adj (flagged ?vis) (flagged ?st)" using inv v(2) vs unfolding fl by (auto simp: search_inv_def)
    moreover have succ: "\<forall>w\<in>set (adj ! nat v). (v, w) \<in> graph_rel adj" using v by (auto simp: graph_rel_def)
    moreover have "unseen adj ?vis \<le> d" using unseen_visit [of v adj visited] v len d by simp
    moreover have "\<forall>s\<in>flagged ?st. (s, v) \<in> (graph_rel adj)\<^sup>*" using path unfolding fl by simp
    ultimately have "search_post adj ?vis ?st (set (adj ! nat v)) (adjacent_loop d adj (adj ! nat v) (?vis, ?st))"
      using len by (intro adjacent_loop_ok [OF adj Suc.IH]) simp_all
    then show "search_post adj visited stack {v} (is_cyclic_util (Suc d) adj v (visited, stack))"
    proof (cases rule: search_postE)
      case (1 res)
      then show ?thesis using v len by (auto simp: vec_set_def vec_at_def intro: search_post_True)
    next
      case (2 visited' stack')
      let ?st' = "stack'[nat v := False]"
      have "flagged ?st' = flagged stack" using 2(3,4) v len vs fl by (simp add: flagged_update)
      moreover have "search_inv adj (flagged visited') (flagged stack)"
        by (rule finish_vertex [of adj _ v]) (use 2 fl vs v succ in \<open>auto simp: graph_rel_def\<close>)
      moreover have "{v} \<subseteq> flagged visited' - flagged stack" using 2(6) fl vs by auto
      ultimately show ?thesis using 2 v len fl by (auto simp: vec_set_def vec_at_def search_post_def)
    qed
  qed
qed

lemma vertex_loop_ok:
  assumes adj: "adj_ok adj" and d: "length adj \<le> d"
    and "length visited = length adj" "length stack = length adj" "search_inv adj (flagged visited) {}" "flagged stack = {}"
    and "\<forall>i\<in>set is. 0 \<le> i \<and> i < int (length adj)" and "{0..<int (length adj)} \<subseteq> flagged visited \<union> set is"
  shows "vertex_loop d adj is (visited, stack) = Inr (\<exists>x. (x, x) \<in> (graph_rel adj)\<^sup>+)"
  using assms(3-)
proof (induction "is" arbitrary: visited stack)
  case Nil
  have "x \<in> flagged visited" if "(x, x) \<in> (graph_rel adj)\<^sup>+" for x
    using that Nil.prems(6) tranclD [of x x] by (fastforce simp: graph_rel_def)
  then show ?case using Nil.prems(3) by (auto simp: search_inv_def)
next
  case (Cons i "is")
  have i: "0 \<le> i \<and> i < int (length adj)" using Cons.prems(5) by simp
  show ?case
  proof (cases "i \<in> flagged visited")
    case True
    have "vertex_loop d adj is (visited, stack) = Inr (\<exists>x. (x, x) \<in> (graph_rel adj)\<^sup>+)"
      by (rule Cons.IH) (use Cons.prems True in auto)
    then show ?thesis using True Cons.prems(1) i by (simp add: vec_at_flag)
  next
    case False
    have "unseen adj visited \<le> card {0..<int (length adj)}" by (intro card_mono) auto
    then have "search_post adj visited stack {i} (is_cyclic_util d adj i (visited, stack))"
      using is_cyclic_util_ok [OF adj, of d] Cons.prems i False d unfolding util_ok_def by simp
    then show ?thesis
    proof (cases rule: search_postE)
      case (1 fl)
      then show ?thesis using i False Cons.prems(1) by (auto simp: vec_at_flag)
    next
      case (2 visited' stack')
      have "vertex_loop d adj is (visited', stack') = Inr (\<exists>x. (x, x) \<in> (graph_rel adj)\<^sup>+)"
        by (rule Cons.IH) (use 2 Cons.prems in auto)
      then show ?thesis using 2(1) i False Cons.prems(1) by (simp add: vec_at_flag)
    qed
  qed
qed

section \<open>Theorems\<close>

text \<open>What the edges added with numbers in range make of a new graph.\<close>

definition graph_ok :: "dag_graph \<Rightarrow> bool" where
  "graph_ok g \<longleftrightarrow> num_vertices g = int (length (adj_list g)) \<and> adj_ok (adj_list g)"

lemma add_edge_ok:
  assumes "graph_ok g" and "0 \<le> v" "0 \<le> w"
  shows "\<exists>g'. add_edge v w g = Inr g' \<and> graph_ok g' \<and> num_vertices g' = num_vertices g \<and>
    graph_rel (adj_list g') = graph_rel (adj_list g) \<union> {e. e = (v, w) \<and> v < num_vertices g \<and> w < num_vertices g}"
proof (cases "v < num_vertices g \<and> w < num_vertices g")
  case True
  let ?adj = "adj_list g" let ?adj' = "?adj[nat v := ?adj ! nat v @ [w]]"
  have n: "num_vertices g = int (length ?adj)" using assms(1) by (simp add: graph_ok_def)
  have "graph_rel ?adj' = insert (v, w) (graph_rel ?adj)"
    using True assms(2) n by (auto simp: graph_rel_def nth_list_update nat_eq_iff split: if_splits)
  moreover have "adj_ok ?adj'"
    unfolding adj_ok_def
  proof
    fix ws
    assume "ws \<in> set ?adj'"
    then consider "ws = ?adj ! nat v @ [w]" | "ws \<in> set ?adj" using set_update_subset_insert by fastforce
    moreover have "?adj ! nat v \<in> set ?adj" using True assms(2) n by (intro nth_mem) linarith
    ultimately show "\<forall>x\<in>set ws. 0 \<le> x \<and> x < int (length ?adj')"
      using assms True n by cases (auto simp: graph_ok_def adj_ok_def)
  qed
  ultimately show ?thesis using True assms(2) n by (auto simp: add_edge_def vec_at_def graph_ok_def)
next
  case False
  then show ?thesis using assms(1) by (auto simp: add_edge_def)
qed

lemma add_edges_ok:
  assumes "graph_ok g" and "\<forall>(v, w)\<in>set es. 0 \<le> v \<and> 0 \<le> w"
  shows "\<exists>g'. add_edges es g = Inr g' \<and> graph_ok g' \<and> num_vertices g' = num_vertices g \<and>
    graph_rel (adj_list g') =
      graph_rel (adj_list g) \<union> {(v, w) \<in> set es. v < num_vertices g \<and> w < num_vertices g}"
  using assms
proof (induction es arbitrary: g)
  case (Cons e es)
  obtain v w where e: "e = (v, w)" by (cases e)
  obtain g1 where g1: "add_edge v w g = Inr g1" "graph_ok g1" "num_vertices g1 = num_vertices g"
    "graph_rel (adj_list g1) = graph_rel (adj_list g) \<union> {e. e = (v, w) \<and> v < num_vertices g \<and> w < num_vertices g}"
    using add_edge_ok [of g v w] Cons.prems e by auto
  obtain g2 where "add_edges es g1 = Inr g2" "graph_ok g2" "num_vertices g2 = num_vertices g1"
    "graph_rel (adj_list g2) =
      graph_rel (adj_list g1) \<union> {(v, w) \<in> set es. v < num_vertices g1 \<and> w < num_vertices g1}"
    using Cons.IH [OF g1(2)] Cons.prems(2) by auto
  then show ?case using g1 e by auto
qed (simp add: graph_ok_def)

text \<open>
  C19: A graph built by adding edges with non-negative numbers is searched without leaving a vector and within a recursion depth
  of its number of vertices, and \<open>isCyclic\<close> returns true exactly when the edges whose ends exist form a cycle.\<close>

theorem is_cyclic_correct:
  assumes "dag_construct n = Some g0" and "\<forall>(v, w)\<in>set es. 0 \<le> v \<and> 0 \<le> w" and "add_edges es g0 = Inr g"
  shows "is_cyclic (nat n) g = Inr (\<not> acyclic {(v, w) \<in> set es. v < n \<and> w < n})"
proof -
  have g0: "g0 = \<lparr>num_vertices = n, adj_list = replicate (nat n) []\<rparr>" "0 \<le> n"
    using assms(1) by (auto simp: dag_construct_def split: if_splits)
  have "graph_ok g0" using g0 by (simp add: graph_ok_def adj_ok_def)
  moreover have "graph_rel (adj_list g0) = {}" using g0 by (auto simp: graph_rel_def)
  ultimately have g: "graph_ok g" "num_vertices g = n" "graph_rel (adj_list g) = {(v, w) \<in> set es. v < n \<and> w < n}"
    using add_edges_ok [of g0 es] assms(2,3) g0 by auto
  have len: "length (adj_list g) = nat n" using g g0(2) by (simp add: graph_ok_def)
  have none: "flagged (replicate (nat n) False) = {}" by (auto simp: flagged_def)
  have "vertex_loop (nat n) (adj_list g) [0..n - 1] (replicate (nat n) False, replicate (nat n) False) =
      Inr (\<exists>x. (x, x) \<in> (graph_rel (adj_list g))\<^sup>+)"
    by (rule vertex_loop_ok) (use g len none g0(2) in \<open>auto simp: graph_ok_def search_inv_def\<close>)
  then show ?thesis using g(2,3) by (simp add: is_cyclic_def acyclic_def)
qed

theorem is_cyclic_correct_witness:
  "is_cyclic 3 \<lparr>num_vertices = 3, adj_list = [[1], [2], [0]]\<rparr> = Inr (\<not> acyclic {(v, w) \<in> set [(0, 1), (1, 2), (2, 0), (7, 0)]. v < (3::int) \<and> w < 3})"
  using is_cyclic_correct [of 3 "\<lparr>num_vertices = 3, adj_list = replicate (nat 3) []\<rparr>" "[(0, 1), (1, 2), (2, 0), (7, 0)]"
    "\<lparr>num_vertices = 3, adj_list = [[1], [2], [0]]\<rparr>"]
  by (simp add: dag_construct_def add_edge_def vec_at_def numeral_3_eq_3)

text \<open>Only large numbers are rejected: a negative one is stored, and the search then reads in front of a vector.\<close>

lemma negative_edge_unchecked:
  "add_edge 0 (- 1) \<lparr>num_vertices = 1, adj_list = [[]]\<rparr> = Inr \<lparr>num_vertices = 1, adj_list = [[- 1]]\<rparr> \<and>
   is_cyclic (Suc d) \<lparr>num_vertices = 1, adj_list = [[- 1]]\<rparr> = Inl OutOfBounds"
  by (simp add: add_edge_def is_cyclic_def vec_at_def vec_set_def)

text \<open>\<open>printGraph\<close> prints all adjacency lists, and the graph of \<open>main\<close> has no cycle.\<close>

lemma print_vertices_all: "0 \<le> lo \<Longrightarrow> hi < int (length adj) \<Longrightarrow> print_vertices adj [lo..hi] = Inr (map (\<lambda>i. (i, adj ! nat i)) [lo..hi])"
proof (induction "nat (hi - lo + 1)" arbitrary: lo)
  case (Suc n)
  then have "lo \<le> hi" by simp
  moreover from this have "print_vertices adj [lo + 1..hi] = Inr (map (\<lambda>i. (i, adj ! nat i)) [lo + 1..hi])" using Suc by (intro Suc(1)) auto
  ultimately show ?case using Suc.prems by (simp add: upto_rec1 vec_at_def)
qed simp

lemma graph_main_prints: "graph_main 4 = Some (Inr ([(0, [1, 2]), (1, [2]), (2, [3]), (3, [])], False))"
  by code_simp

end
