(* ===== verification/SharedPtr.thy ===== *)
theory SharedPtr
  imports Prelude
begin

text \<open>
  The reference-counted pointer \<open>Shared_Ptr\<close> of \<open>find_job/look_for_job.cpp\<close>.  Every group of copies shares a counter and a mutex on
  the heap; the last copy frees them and the object.  The store holds the counters, the mutexes, the live objects, each with the variables of type
  \<open>Shared_Ptr\<close> that are its members, and all variables of that type.  Deleting an object destroys its members, which releases what they hold in
  turn.  Access to a freed counter, object, mutex or variable is \<^const>\<open>None\<close>.  Each operation changes the counter under the mutex of
  its group, so operations of several threads on their own variables are run one after the other.
\<close>

section \<open>The class\<close>

record sp_handle =
  h_count :: nat
  h_ptr :: "nat option"
  h_mutex :: nat

record sp_store =
  sp_counts :: "nat \<Rightarrow> int option"
  sp_objects :: "(nat, nat list) umap"
  sp_mutexes :: "nat set"
  sp_fresh :: nat
  sp_handles :: "nat \<Rightarrow> sp_handle option"

lemma delete_shorter: "map_of xs q = Some x \<Longrightarrow> length (AList.delete q xs) < length xs"
  by (induction xs) (auto simp: AList.delete_eq intro: le_less_trans [OF length_filter_le])

text \<open>
  \<open>Release\<close> for a handle, and for those of the members that are destroyed with an object.  The members are released before the mutex of the
  outer group is unlocked and freed; they belong to other groups, so the order of the two does not show.
\<close>

function sp_release :: "sp_handle list \<Rightarrow> sp_store \<Rightarrow> sp_store option" where
  "sp_release [] s = Some s"
| "sp_release (p # ps) s =
     (if h_mutex p \<notin> sp_mutexes s then None
      else case sp_counts s (h_count p) of
        None \<Rightarrow> None
      | Some c \<Rightarrow>
          if c - 1 = 0
          then
            (let s1 = s\<lparr>sp_counts := (sp_counts s)(h_count p := None), sp_mutexes := sp_mutexes s - {h_mutex p}\<rparr> in
             case h_ptr p of
               None \<Rightarrow> sp_release ps s1
             | Some q \<Rightarrow>
                 (case map_of (sp_objects s) q of
                    None \<Rightarrow> None
                  | Some ms \<Rightarrow>
                      if list_all (\<lambda>m. sp_handles s m \<noteq> None) ms
                      then sp_release (map (\<lambda>m. the (sp_handles s m)) ms @ ps)
                             (s1\<lparr>sp_objects := AList.delete q (sp_objects s), sp_handles := (sp_handles s) |` (- set ms)\<rparr>)
                      else None))
          else sp_release ps (s\<lparr>sp_counts := (sp_counts s)(h_count p \<mapsto> c - 1)\<rparr>))"
  by pat_completeness auto

termination
  by (relation "measures [\<lambda>(ps, s). length (sp_objects s), \<lambda>(ps, s). length ps]") (auto simp: delete_shorter)

definition sp_add_ref_count :: "sp_handle \<Rightarrow> sp_store \<Rightarrow> sp_store option" where
  "sp_add_ref_count p s =
     (if h_mutex p \<notin> sp_mutexes s then None
      else case sp_counts s (h_count p) of
        None \<Rightarrow> None
      | Some c \<Rightarrow> Some (s\<lparr>sp_counts := (sp_counts s)(h_count p \<mapsto> c + 1)\<rparr>))"

text \<open>The constructor.  Its argument is null, or a new object whose members have just been constructed by default.\<close>

definition sp_construct_ptr :: "nat option \<Rightarrow> nat \<Rightarrow> sp_store \<Rightarrow> sp_store" where
  "sp_construct_ptr q v s =
     s\<lparr>sp_counts := (sp_counts s)(sp_fresh s \<mapsto> 1), sp_mutexes := insert (sp_fresh s) (sp_mutexes s), sp_fresh := Suc (sp_fresh s),
       sp_handles := (sp_handles s)(v \<mapsto> \<lparr>h_count = sp_fresh s, h_ptr = q, h_mutex = sp_fresh s\<rparr>)\<rparr>"

definition sp_construct :: "nat \<Rightarrow> (nat \<times> nat list) option \<Rightarrow> sp_store \<Rightarrow> sp_store" where
  "sp_construct v obj s =
     (case obj of
        None \<Rightarrow> sp_construct_ptr None v s
      | Some (q, ms) \<Rightarrow>
          let s1 = fold (sp_construct_ptr None) ms s
          in sp_construct_ptr (Some q) v (s1\<lparr>sp_objects := (q, ms) # sp_objects s1\<rparr>))"

definition sp_copy :: "nat \<Rightarrow> nat \<Rightarrow> sp_store \<Rightarrow> sp_store option" where
  "sp_copy v u s =
     (case sp_handles s u of
        None \<Rightarrow> None
      | Some p \<Rightarrow> sp_add_ref_count p (s\<lparr>sp_handles := (sp_handles s)(v \<mapsto> p)\<rparr>))"

text \<open>
  The assignment.  After \<open>Release\<close> the left variable holds nothing until it is given the members of the right one, which are read only now: the right
  variable may have been destroyed with an object.
\<close>

definition sp_assign :: "nat \<Rightarrow> nat \<Rightarrow> sp_store \<Rightarrow> sp_store option" where
  "sp_assign v u s =
     (case (sp_handles s v, sp_handles s u) of
        (Some hv, Some hu) \<Rightarrow>
          if h_ptr hv \<noteq> h_ptr hu
          then (case sp_release [hv] (s\<lparr>sp_handles := (sp_handles s)(v := None)\<rparr>) of
                  None \<Rightarrow> None
                | Some s1 \<Rightarrow>
                    (case sp_handles s1 u of
                       None \<Rightarrow> None
                     | Some hu \<Rightarrow> sp_add_ref_count hu (s1\<lparr>sp_handles := (sp_handles s1)(v \<mapsto> hu)\<rparr>)))
          else Some s
      | _ \<Rightarrow> None)"

definition sp_destroy :: "nat \<Rightarrow> sp_store \<Rightarrow> sp_store option" where
  "sp_destroy v s =
     (case sp_handles s v of
        None \<Rightarrow> None
      | Some p \<Rightarrow> sp_release [p] (s\<lparr>sp_handles := (sp_handles s)(v := None)\<rparr>))"

definition sp_use_count :: "nat \<Rightarrow> sp_store \<Rightarrow> int option" where
  "sp_use_count v s = (case sp_handles s v of None \<Rightarrow> None | Some p \<Rightarrow> sp_counts s (h_count p))"

definition sp_empty :: sp_store where
  "sp_empty = \<lparr>sp_counts = (\<lambda>_. None), sp_objects = [], sp_mutexes = {}, sp_fresh = 0, sp_handles = (\<lambda>_. None)\<rparr>"

datatype sp_op = SNew nat "(nat \<times> nat list) option" | SCopy nat nat | SAssign nat nat | SDrop nat

fun sp_exec :: "sp_op \<Rightarrow> sp_store \<Rightarrow> sp_store option" where
  "sp_exec (SNew v obj) s = Some (sp_construct v obj s)"
| "sp_exec (SCopy v u) s = sp_copy v u s"
| "sp_exec (SAssign v u) s = sp_assign v u s"
| "sp_exec (SDrop v) s = sp_destroy v s"

text \<open>The object a variable is a member of.\<close>

definition member_of :: "sp_store \<Rightarrow> nat \<Rightarrow> nat \<Rightarrow> bool" where
  "member_of s v q \<longleftrightarrow> (\<exists>ms. (q, ms) \<in> set (sp_objects s) \<and> v \<in> set ms)"

definition local_var :: "sp_store \<Rightarrow> nat \<Rightarrow> bool" where
  "local_var s v \<longleftrightarrow> (\<forall>q. \<not> member_of s v q)"

text \<open>
  What the language guarantees: variables are constructed before they are used, members are destroyed only with their object, and the objects
  passed to the constructor are new.
\<close>

fun sp_legal :: "sp_op \<Rightarrow> sp_store \<Rightarrow> bool" where
  "sp_legal (SNew v obj) s \<longleftrightarrow> sp_handles s v = None \<and>
     (case obj of None \<Rightarrow> True
      | Some (q, ms) \<Rightarrow> q \<notin> fst ` set (sp_objects s) \<and> distinct (v # ms) \<and> (\<forall>m \<in> set ms. sp_handles s m = None))"
| "sp_legal (SCopy v u) s \<longleftrightarrow> sp_handles s v = None \<and> sp_handles s u \<noteq> None"
| "sp_legal (SAssign v u) s \<longleftrightarrow> sp_handles s v \<noteq> None \<and> sp_handles s u \<noteq> None"
| "sp_legal (SDrop v) s \<longleftrightarrow> sp_handles s v \<noteq> None \<and> local_var s v"

inductive sp_reach :: "sp_store \<Rightarrow> bool" where
  start: "sp_reach sp_empty"
| exec: "sp_reach s \<Longrightarrow> sp_legal x s \<Longrightarrow> sp_exec x s = Some s' \<Longrightarrow> sp_reach s'"

section \<open>Invariant\<close>

text \<open>The references of a group: its variables, and the handles that are still to be released.\<close>

definition refs :: "(nat \<Rightarrow> sp_handle option) \<Rightarrow> sp_handle list \<Rightarrow> nat \<Rightarrow> nat" where
  "refs H ps k = card {v. \<exists>p. H v = Some p \<and> h_count p = k} + length (filter (\<lambda>p. h_count p = k) ps)"

definition held :: "(nat \<Rightarrow> sp_handle option) \<Rightarrow> sp_handle list \<Rightarrow> sp_handle set" where
  "held H ps = ran H \<union> set ps"

text \<open>Two handles that share a counter, a mutex or an object share all three.\<close>

definition share :: "sp_handle \<Rightarrow> sp_handle \<Rightarrow> bool" where
  "share a b \<longleftrightarrow> h_count a = h_count b \<or> h_mutex a = h_mutex b \<or> (h_ptr a = h_ptr b \<and> h_ptr a \<noteq> None)"

definition groups_agree :: "sp_handle set \<Rightarrow> bool" where
  "groups_agree A \<longleftrightarrow> (\<forall>a \<in> A. \<forall>b \<in> A. share a b \<longrightarrow> a = b)"

text \<open>The members of the objects are variables, except those in \<open>T\<close>, which hold nothing for the moment; no two objects share one.\<close>

definition members_ok :: "nat set \<Rightarrow> sp_store \<Rightarrow> bool" where
  "members_ok T s \<longleftrightarrow> distinct (map fst (sp_objects s)) \<and>
     (\<forall>q ms. (q, ms) \<in> set (sp_objects s) \<longrightarrow> distinct ms \<and> set ms \<subseteq> dom (sp_handles s) \<union> T) \<and>
     (\<forall>v q q'. member_of s v q \<longrightarrow> member_of s v q' \<longrightarrow> q = q')"

definition rel_inv :: "nat set \<Rightarrow> sp_handle list \<Rightarrow> sp_store \<Rightarrow> bool" where
  "rel_inv T ps s \<longleftrightarrow> finite (dom (sp_handles s)) \<and> groups_agree (held (sp_handles s) ps) \<and>
     (\<forall>k. sp_counts s k = (if refs (sp_handles s) ps k = 0 then None else Some (int (refs (sp_handles s) ps k)))) \<and>
     fst ` set (sp_objects s) = {q. Some q \<in> h_ptr ` held (sp_handles s) ps} \<and>
     sp_mutexes s = h_mutex ` held (sp_handles s) ps \<and>
     (\<forall>a \<in> held (sp_handles s) ps. h_count a < sp_fresh s \<and> h_mutex a < sp_fresh s) \<and> members_ok T s"

lemma rel_invD:
  assumes "rel_inv T ps s"
  shows "finite (dom (sp_handles s))" and "groups_agree (held (sp_handles s) ps)"
    and "sp_counts s k = (if refs (sp_handles s) ps k = 0 then None else Some (int (refs (sp_handles s) ps k)))"
    and "fst ` set (sp_objects s) = {q. Some q \<in> h_ptr ` held (sp_handles s) ps}" and "sp_mutexes s = h_mutex ` held (sp_handles s) ps"
    and "a \<in> held (sp_handles s) ps \<Longrightarrow> h_count a < sp_fresh s \<and> h_mutex a < sp_fresh s" and "members_ok T s"
  using assms unfolding rel_inv_def by blast+

lemma share_sym: "share a b \<Longrightarrow> share b a"
  unfolding share_def by metis

lemma refs_Cons: "refs H (p # ps) k = refs H ps k + (if h_count p = k then 1 else 0)"
  by (simp add: refs_def)

lemma held_Cons: "held H (p # ps) = insert p (held H ps)"
  by (simp add: held_def)

lemma refs_0: "finite (dom H) \<Longrightarrow> refs H ps k = 0 \<longleftrightarrow> (\<forall>a \<in> held H ps. h_count a \<noteq> k)"
proof -
  assume "finite (dom H)"
  then have "finite {v. \<exists>p. H v = Some p \<and> h_count p = k}" by (rule rev_finite_subset) auto
  then show ?thesis by (auto simp: refs_def held_def ran_def filter_empty_conv)
qed

lemma refs_upd:
  assumes "finite (dom H)" and "H v = None"
  shows "refs (H(v \<mapsto> p)) ps k = refs H ps k + (if h_count p = k then 1 else 0)"
proof -
  let ?O = "\<lambda>H. {u. \<exists>p. H u = Some p \<and> h_count p = k}"
  have "?O (H(v \<mapsto> p)) = (if h_count p = k then insert v (?O H) else ?O H)" using assms(2) by auto
  moreover have "finite (?O H)" using assms(1) by (rule rev_finite_subset) auto
  ultimately show ?thesis using assms(2) by (simp add: refs_def)
qed

lemma held_upd: "H v = None \<Longrightarrow> held (H(v \<mapsto> p)) ps = insert p (held H ps)"
  by (auto simp: held_def ran_map_upd)

text \<open>Destroying members turns their handles into handles to be released.\<close>

lemma refs_take:
  assumes "finite (dom H)" and "H v = Some p"
  shows "refs (H(v := None)) (p # ps) k = refs H ps k"
proof -
  have "refs ((H(v := None))(v \<mapsto> p)) ps k = refs (H(v := None)) ps k + (if h_count p = k then 1 else 0)"
    using assms(1) by (intro refs_upd) simp_all
  moreover have "(H(v := None))(v \<mapsto> p) = H" using assms(2) by auto
  ultimately show ?thesis by (simp add: refs_Cons)
qed

lemma refs_append: "refs H (xs @ p # ys) k = refs H (p # xs @ ys) k"
  by (simp add: refs_def)

lemma refs_move:
  "finite (dom H) \<Longrightarrow> distinct ms \<Longrightarrow> set ms \<subseteq> dom H \<Longrightarrow> refs (H |` (- set ms)) (map (\<lambda>m. the (H m)) ms @ ps) k = refs H ps k"
proof (induction ms arbitrary: H ps)
  case Nil
  then show ?case by simp
next
  case (Cons m ms)
  obtain p where p: "H m = Some p" using Cons.prems(3) by auto
  have eq: "H |` (- set (m # ms)) = (H(m := None)) |` (- set ms)" by (auto simp: restrict_map_def fun_eq_iff)
  have "map (\<lambda>m. the (H m)) (m # ms) @ ps = p # map (\<lambda>x. the ((H(m := None)) x)) ms @ ps" using p Cons.prems(2) by auto
  then have "refs (H |` (- set (m # ms))) (map (\<lambda>m. the (H m)) (m # ms) @ ps) k =
      refs ((H(m := None)) |` (- set ms)) (map (\<lambda>x. the ((H(m := None)) x)) ms @ p # ps) k"
    by (simp only: eq refs_append)
  also have "\<dots> = refs (H(m := None)) (p # ps) k"
  proof (rule Cons.IH)
    show "finite (dom (H(m := None)))" using Cons.prems(1) by simp
  qed (use Cons.prems in auto)
  also have "\<dots> = refs H ps k" using Cons.prems(1) p by (rule refs_take)
  finally show ?case .
qed

lemma held_move:
  assumes "set ms \<subseteq> dom H"
  shows "held (H |` (- set ms)) (map (\<lambda>m. the (H m)) ms @ ps) = held H ps"
proof -
  have "ran H = ran (H |` (- set ms)) \<union> (\<lambda>m. the (H m)) ` set ms"
  proof (intro equalityI subsetI)
    fix a assume "a \<in> ran H"
    then obtain v where v: "H v = Some a" by (auto simp: ran_def)
    show "a \<in> ran (H |` (- set ms)) \<union> (\<lambda>m. the (H m)) ` set ms"
    proof (cases "v \<in> set ms")
      case True
      then show ?thesis using v by (force intro: image_eqI [of _ _ v])
    next
      case False
      then have "(H |` (- set ms)) v = Some a" using v by simp
      then show ?thesis by (auto intro: ranI)
    qed
  next
    fix a assume "a \<in> ran (H |` (- set ms)) \<union> (\<lambda>m. the (H m)) ` set ms"
    then show "a \<in> ran H" using assms by (auto simp: ran_def restrict_map_def split: if_splits) (metis domD option.sel subsetD)
  qed
  then show ?thesis by (auto simp: held_def)
qed

text \<open>One reference of several is given up.\<close>

lemma rel_inv_decrease:
  assumes inv: "rel_inv T (p # ps) s" and more: "refs (sp_handles s) ps (h_count p) \<noteq> 0"
  shows "rel_inv T ps (s\<lparr>sp_counts := (sp_counts s)(h_count p \<mapsto> int (refs (sp_handles s) (p # ps) (h_count p)) - 1)\<rparr>)" (is "rel_inv T ps ?s")
proof -
  note I = rel_invD [OF inv]
  let ?H = "sp_handles s"
  obtain a where a: "a \<in> held ?H ps" "h_count a = h_count p" using more refs_0 [OF I(1), of ps "h_count p"] by metis
  then have "a = p" using I(2) unfolding groups_agree_def held_Cons by (metis insertCI share_def)
  then have held: "held ?H (p # ps) = held ?H ps" using a(1) by (auto simp: held_Cons)
  have "sp_counts ?s k = (if refs ?H ps k = 0 then None else Some (int (refs ?H ps k)))" for k
    using I(3) [of k] more by (auto simp: refs_Cons)
  moreover have "members_ok T ?s" using I(7) by (simp add: members_ok_def member_of_def)
  ultimately show ?thesis using I(1,2,4,5,6) unfolding rel_inv_def held by simp
qed

text \<open>The last reference is given up: the group goes, and no other group shares any part of it.\<close>

lemma rel_inv_close:
  assumes inv: "rel_inv T (p # ps) s" and last: "refs (sp_handles s) ps (h_count p) = 0"
  shows "rel_inv T ps (s\<lparr>sp_counts := (sp_counts s)(h_count p := None), sp_mutexes := sp_mutexes s - {h_mutex p},
      sp_objects := (case h_ptr p of None \<Rightarrow> sp_objects s | Some q \<Rightarrow> AList.delete q (sp_objects s))\<rparr>)" (is "rel_inv T ps ?s")
    and "\<And>a. a \<in> held (sp_handles s) ps \<Longrightarrow> \<not> share a p"
proof -
  note I = rel_invD [OF inv]
  let ?H = "sp_handles s"
  have not: "\<not> share a p" if "a \<in> held ?H ps" for a
  proof
    assume "share a p"
    then have "a = p" using I(2) that unfolding groups_agree_def held_Cons by blast
    then show False using last that refs_0 [OF I(1)] by blast
  qed
  then show "\<And>a. a \<in> held ?H ps \<Longrightarrow> \<not> share a p" .
  have c: "sp_counts ?s k = (if refs ?H ps k = 0 then None else Some (int (refs ?H ps k)))" for k
    using I(3) [of k] last by (auto simp: refs_Cons)
  have m: "sp_mutexes ?s = h_mutex ` held ?H ps" using I(5) not by (auto simp: held_Cons share_def)
  have o: "fst ` set (sp_objects ?s) = {q. Some q \<in> h_ptr ` held ?H ps}"
  proof (cases "h_ptr p")
    case None
    then show ?thesis using I(4) by (auto simp: held_Cons)
  next
    case (Some q)
    have del: "fst ` set (AList.delete q (sp_objects s)) = fst ` set (sp_objects s) - {q}" by (auto simp: AList.delete_eq)
    have "h_ptr a \<noteq> Some q" if "a \<in> held ?H ps" for a using not [OF that] Some by (auto simp: share_def)
    then have "Some q \<notin> h_ptr ` held ?H ps" by (metis imageE)
    then show ?thesis using I(4) Some by (auto simp: del held_Cons)
  qed
  have sub: "set (sp_objects ?s) \<subseteq> set (sp_objects s)" by (auto simp: AList.delete_eq split: option.splits)
  have "distinct (map fst (sp_objects ?s))" using I(7) by (auto simp: members_ok_def AList.delete_eq distinct_map_filter split: option.splits)
  then have "members_ok T ?s" using I(7) sub unfolding members_ok_def member_of_def by fastforce
  moreover have "groups_agree (held ?H ps)" using I(2) by (auto simp: groups_agree_def held_Cons)
  ultimately show "rel_inv T ps ?s" using I(1,6) c m o unfolding rel_inv_def by (simp add: held_Cons)
qed

text \<open>The members of an object that is gone are taken out of the variables.\<close>

lemma rel_inv_move:
  assumes inv: "rel_inv T ps s" and ms: "distinct ms" "set ms \<subseteq> dom (sp_handles s)" and apart: "\<And>v q. v \<in> set ms \<Longrightarrow> member_of s v q \<Longrightarrow> v \<in> T'"
    and T: "T \<subseteq> T'"
  shows "rel_inv T' (map (\<lambda>m. the (sp_handles s m)) ms @ ps) (s\<lparr>sp_handles := (sp_handles s) |` (- set ms)\<rparr>)" (is "rel_inv T' ?ps ?s")
proof -
  note I = rel_invD [OF inv]
  note eq = refs_move [OF I(1) ms] held_move [OF ms(2)]
  have "members_ok T' ?s"
    unfolding members_ok_def
  proof (intro conjI allI impI)
    show "distinct (map fst (sp_objects ?s))" using I(7) by (simp add: members_ok_def)
    fix q xs assume q: "(q, xs) \<in> set (sp_objects ?s)"
    show "distinct xs" using I(7) q unfolding members_ok_def by simp
    have "v \<in> T'" if "v \<in> set xs" "v \<in> set ms" for v using apart [OF that(2), of q] that(1) q by (auto simp: member_of_def)
    moreover have "set xs \<subseteq> dom (sp_handles s) \<union> T" using I(7) q unfolding members_ok_def by simp
    ultimately show "set xs \<subseteq> dom (sp_handles ?s) \<union> T'" using T by auto
  next
    fix v q q' assume "member_of ?s v q" "member_of ?s v q'"
    then show "q = q'" using I(7) unfolding members_ok_def member_of_def by simp
  qed
  then show ?thesis using I(1-6) unfolding rel_inv_def by (simp add: eq)
qed

text \<open>Every object with a member in \<open>T\<close> is held by a variable that is not itself a member.\<close>

definition anchored :: "nat set \<Rightarrow> sp_store \<Rightarrow> bool" where
  "anchored T s \<longleftrightarrow> (\<forall>v \<in> T. \<forall>q. member_of s v q \<longrightarrow> (\<exists>w h. sp_handles s w = Some h \<and> h_ptr h = Some q \<and> local_var s w))"

text \<open>What \<open>Release\<close> leaves: local variables are untouched, members stay or go.\<close>

definition kept :: "sp_store \<Rightarrow> sp_store \<Rightarrow> bool" where
  "kept s s' \<longleftrightarrow> set (sp_objects s') \<subseteq> set (sp_objects s) \<and> sp_handles s' \<subseteq>\<^sub>m sp_handles s \<and>
     (\<forall>w. local_var s w \<longrightarrow> sp_handles s' w = sp_handles s w)"

lemma member_of_mono: "set (sp_objects s') \<subseteq> set (sp_objects s) \<Longrightarrow> member_of s' v q \<Longrightarrow> member_of s v q"
  unfolding member_of_def by blast

lemma local_var_mono: "set (sp_objects s') \<subseteq> set (sp_objects s) \<Longrightarrow> local_var s v \<Longrightarrow> local_var s' v"
  unfolding local_var_def using member_of_mono by blast

lemma kept_trans: "kept s s1 \<Longrightarrow> kept s1 s2 \<Longrightarrow> kept s s2"
  unfolding kept_def using local_var_mono [of s1 s] by (metis map_le_trans subset_trans)

lemma anchored_kept: "kept s s' \<Longrightarrow> anchored T s \<Longrightarrow> anchored T s'"
  unfolding kept_def anchored_def using local_var_mono member_of_mono by metis

lemma map_of_object: "members_ok T s \<Longrightarrow> map_of (sp_objects s) q = Some ms \<longleftrightarrow> (q, ms) \<in> set (sp_objects s)"
  by (simp add: members_ok_def)

text \<open>The object of the last reference, and its members.\<close>

lemma release_object:
  assumes inv: "rel_inv T (p # ps) s" and last: "refs (sp_handles s) ps (h_count p) = 0" and q: "h_ptr p = Some q"
  obtains ms where "map_of (sp_objects s) q = Some ms" "anchored T s \<Longrightarrow> list_all (\<lambda>m. sp_handles s m \<noteq> None) ms"
proof -
  note I = rel_invD [OF inv]
  have "q \<in> fst ` set (sp_objects s)" using I(4) q by (force simp: held_Cons)
  then obtain ms where ms: "(q, ms) \<in> set (sp_objects s)" by auto
  have "list_all (\<lambda>m. sp_handles s m \<noteq> None) ms" if anc: "anchored T s"
  proof -
    have "m \<notin> T" if m: "m \<in> set ms" for m
    proof
      assume "m \<in> T"
      then obtain w h where h: "sp_handles s w = Some h" "h_ptr h = Some q" using anc ms m unfolding anchored_def member_of_def by blast
      then have "h \<in> held (sp_handles s) ps" by (auto simp: held_def ran_def)
      then show False using rel_inv_close(2) [OF inv last] h(2) q by (auto simp: share_def)
    qed
    moreover have "set ms \<subseteq> dom (sp_handles s) \<union> T" using I(7) ms unfolding members_ok_def by blast
    ultimately show ?thesis by (auto simp: list_all_iff)
  qed
  then show thesis using that map_of_object [OF I(7)] ms by blast
qed

lemma rel_inv_delete:
  assumes inv: "rel_inv T (p # ps) s" and last: "refs (sp_handles s) ps (h_count p) = 0" and q: "h_ptr p = Some q"
    and ms: "map_of (sp_objects s) q = Some ms" "list_all (\<lambda>m. sp_handles s m \<noteq> None) ms"
  shows "rel_inv T (map (\<lambda>m. the (sp_handles s m)) ms @ ps) (s\<lparr>sp_counts := (sp_counts s)(h_count p := None), sp_mutexes := sp_mutexes s - {h_mutex p},
      sp_objects := AList.delete q (sp_objects s), sp_handles := (sp_handles s) |` (- set ms)\<rparr>)" (is "rel_inv T ?ps ?s")
    and "kept s (s\<lparr>sp_counts := (sp_counts s)(h_count p := None), sp_mutexes := sp_mutexes s - {h_mutex p},
      sp_objects := AList.delete q (sp_objects s), sp_handles := (sp_handles s) |` (- set ms)\<rparr>)"
proof -
  note I = rel_invD [OF inv]
  let ?s1 = "s\<lparr>sp_counts := (sp_counts s)(h_count p := None), sp_mutexes := sp_mutexes s - {h_mutex p}, sp_objects := AList.delete q (sp_objects s)\<rparr>"
  have in_s: "(q, ms) \<in> set (sp_objects s)" using ms(1) map_of_object [OF I(7)] by blast
  then have d: "distinct ms" using I(7) unfolding members_ok_def by blast
  have one: "member_of s v q" if "v \<in> set ms" for v using in_s that by (auto simp: member_of_def)
  have inv1: "rel_inv T ps ?s1" using rel_inv_close(1) [OF inv last] q by simp
  have "v \<in> T" if v: "v \<in> set ms" "member_of ?s1 v q'" for v q'
  proof -
    have "member_of s v q'" "q' \<noteq> q" using v(2) by (auto simp: member_of_def AList.delete_eq)
    then show ?thesis using one [OF v(1)] I(7) unfolding members_ok_def by blast
  qed
  then show "rel_inv T ?ps ?s" using rel_inv_move [OF inv1 d, of T] ms(2) by (simp add: list_all_iff subset_iff dom_def)
  show "kept s ?s"
    using one by (auto simp: kept_def AList.delete_eq map_le_def restrict_map_def local_var_def)
qed

definition releases :: "nat set \<Rightarrow> sp_handle list \<Rightarrow> sp_store \<Rightarrow> bool" where
  "releases T ps s \<longleftrightarrow> (\<forall>s'. sp_release ps s = Some s' \<longrightarrow> rel_inv T [] s' \<and> kept s s') \<and> (anchored T s \<longrightarrow> sp_release ps s \<noteq> None)"

lemma releases_step:
  assumes "kept s s1" and "sp_release ps s = sp_release qs s1" and "releases T qs s1"
  shows "releases T ps s"
  using assms(3) anchored_kept [OF assms(1)] kept_trans [OF assms(1)] unfolding releases_def assms(2) by blast

lemma release_run:
  "rel_inv T ps s \<Longrightarrow> releases T ps s"
proof (induction ps s rule: sp_release.induct)
  case (1 s)
  then show ?case by (simp add: releases_def kept_def)
next
  case (2 p ps s)
  note inv = "2.prems" and I = rel_invD [OF "2.prems"]
  let ?H = "sp_handles s" and ?k = "h_count p"
  have m: "\<not> h_mutex p \<notin> sp_mutexes s" using I(5) by (simp add: held_Cons)
  have c: "sp_counts s ?k = Some (int (refs ?H (p # ps) ?k))" using I(3) [of ?k] by (simp add: refs_Cons)
  show ?case
  proof (cases "refs ?H ps ?k = 0")
    case False
    then have c1: "int (refs ?H (p # ps) ?k) - 1 \<noteq> 0" by (simp add: refs_Cons)
    let ?s = "s\<lparr>sp_counts := (sp_counts s)(?k \<mapsto> int (refs ?H (p # ps) ?k) - 1)\<rparr>"
    have "kept s ?s" by (simp add: kept_def)
    moreover have "sp_release (p # ps) s = sp_release ps ?s" using m c c1 by simp
    ultimately show ?thesis using "2.IH"(3) [OF m c c1 rel_inv_decrease [OF inv False]] by (rule releases_step)
  next
    case last: True
    then have c1: "int (refs ?H (p # ps) ?k) - 1 = 0" by (simp add: refs_Cons)
    let ?s1 = "s\<lparr>sp_counts := (sp_counts s)(?k := None), sp_mutexes := sp_mutexes s - {h_mutex p}\<rparr>"
    show ?thesis
    proof (cases "h_ptr p")
      case None
      have "kept s ?s1" by (simp add: kept_def)
      moreover have "sp_release (p # ps) s = sp_release ps ?s1" using m c c1 None by simp
      moreover have "releases T ps ?s1" using "2.IH"(1) [OF m c c1 refl None] rel_inv_close(1) [OF inv last] None by simp
      ultimately show ?thesis by (rule releases_step)
    next
      case (Some q)
      obtain ms where ms: "map_of (sp_objects s) q = Some ms" "anchored T s \<Longrightarrow> list_all (\<lambda>m. ?H m \<noteq> None) ms"
        using release_object [OF inv last Some] by blast
      show ?thesis
      proof (cases "list_all (\<lambda>m. ?H m \<noteq> None) ms")
        case True
        let ?s2 = "?s1\<lparr>sp_objects := AList.delete q (sp_objects s), sp_handles := ?H |` (- set ms)\<rparr>"
        have d: "rel_inv T (map (\<lambda>m. the (?H m)) ms @ ps) ?s2" "kept s ?s2" using rel_inv_delete [OF inv last Some ms(1) True] by simp_all
        have "sp_release (p # ps) s = sp_release (map (\<lambda>m. the (?H m)) ms @ ps) ?s2" using m c c1 Some ms(1) True by simp
        then show ?thesis using "2.IH"(2) [OF m c c1 refl Some ms(1) True d(1)] by (rule releases_step [OF d(2)])
      next
        case False
        then have "sp_release (p # ps) s = None" "\<not> anchored T s" using m c c1 Some ms by auto
        then show ?thesis by (simp add: releases_def)
      qed
    qed
  qed
qed

section \<open>Operations\<close>

declare sp_release.simps(2) [simp del]

lemma rel_inv_new:
  assumes inv: "rel_inv {} [] s" and v: "sp_handles s v = None"
    and obj: "\<And>q ms. obj = Some (q, ms) \<Longrightarrow> q \<notin> fst ` set (sp_objects s) \<and> distinct ms \<and> set ms \<subseteq> dom (sp_handles s) \<and> (\<forall>m \<in> set ms. local_var s m)"
  shows "rel_inv {} [] (sp_construct_ptr (map_option fst obj) v (s\<lparr>sp_objects := (case obj of None \<Rightarrow> sp_objects s | Some x \<Rightarrow> x # sp_objects s)\<rparr>))"
    (is "rel_inv {} [] ?s")
proof -
  note I = rel_invD [OF inv]
  let ?H = "sp_handles s" and ?h = "\<lparr>h_count = sp_fresh s, h_ptr = map_option fst obj, h_mutex = sp_fresh s\<rparr>"
  have H: "sp_handles ?s = ?H(v \<mapsto> ?h)" by (simp add: sp_construct_ptr_def)
  note R = refs_upd [of ?H v ?h, OF I(1) v] and held = held_upd [of ?H v ?h "[]", OF v]
  have "\<not> share a ?h" if a: "a \<in> held ?H []" for a
  proof -
    have "h_ptr a \<noteq> map_option fst obj" if "h_ptr a = Some q" for q
      using I(4) a that obj by (cases obj) (auto simp: image_iff, metis fst_conv)
    then show ?thesis using I(6) [OF a] by (cases "h_ptr a") (auto simp: share_def)
  qed
  then have g: "groups_agree (held (sp_handles ?s) [])" using I(2) share_sym unfolding H held groups_agree_def by blast
  have "refs ?H [] (sp_fresh s) = 0" using I(6) refs_0 [OF I(1), of "[]" "sp_fresh s"] by fastforce
  then have c: "sp_counts ?s k = (if refs (sp_handles ?s) [] k = 0 then None else Some (int (refs (sp_handles ?s) [] k)))" for k
    using I(3) [of k] unfolding H R by (auto simp: sp_construct_ptr_def)
  have o: "fst ` set (sp_objects ?s) = {q. Some q \<in> h_ptr ` held (sp_handles ?s) []}"
    using I(4) unfolding H held by (cases obj) (auto simp: sp_construct_ptr_def)
  have m: "members_ok {} ?s"
  proof (cases obj)
    case None
    then show ?thesis using I(7) unfolding members_ok_def member_of_def by (auto simp: sp_construct_ptr_def)
  next
    case (Some x)
    obtain q ms where x: "x = (q, ms)" by (cases x)
    note n = obj [OF Some [unfolded x]]
    have mem: "member_of ?s w q' \<longleftrightarrow> (q' = q \<and> w \<in> set ms) \<or> member_of s w q'" for w q'
      by (auto simp: member_of_def sp_construct_ptr_def Some x)
    have dist: "distinct (map fst (sp_objects ?s))" using I(7) n by (simp add: members_ok_def sp_construct_ptr_def Some x)
    have "w \<notin> set ms" if "member_of s w q'" for w q' using n that by (auto simp: local_var_def)
    then have uniq: "\<forall>w q q'. member_of ?s w q \<longrightarrow> member_of ?s w q' \<longrightarrow> q = q'"
      using I(7) unfolding mem members_ok_def by blast
    have sub: "distinct xs \<and> set xs \<subseteq> dom (sp_handles ?s) \<union> {}" if "(q', xs) \<in> set (sp_objects ?s)" for q' xs
    proof (cases "(q', xs) = (q, ms)")
      case True
      then show ?thesis using n by (auto simp: H)
    next
      case False
      then have "(q', xs) \<in> set (sp_objects s)" using that by (auto simp: sp_construct_ptr_def Some x)
      then show ?thesis using I(7) unfolding members_ok_def by (auto simp: H)
    qed
    show ?thesis unfolding members_ok_def using dist uniq sub by blast
  qed
  have "sp_mutexes ?s = h_mutex ` held (sp_handles ?s) []" unfolding H held using I(5) by (simp add: sp_construct_ptr_def)
  moreover have "\<forall>a \<in> held (sp_handles ?s) []. h_count a < sp_fresh ?s \<and> h_mutex a < sp_fresh ?s"
    unfolding H held using I(6) by (auto simp: sp_construct_ptr_def less_Suc_eq)
  ultimately show ?thesis using I(1) g c o m unfolding rel_inv_def by (simp add: H)
qed

lemma rel_inv_members:
  assumes "rel_inv {} [] s" and "distinct ms" and "\<forall>m \<in> set ms. sp_handles s m = None"
  shows "rel_inv {} [] (fold (sp_construct_ptr None) ms s) \<and> sp_objects (fold (sp_construct_ptr None) ms s) = sp_objects s \<and>
    dom (sp_handles (fold (sp_construct_ptr None) ms s)) = set ms \<union> dom (sp_handles s)"
  using assms
proof (induction ms arbitrary: s)
  case (Cons m ms)
  have "rel_inv {} [] (sp_construct_ptr None m s)" using rel_inv_new [OF Cons.prems(1), of m None] Cons.prems(3) by simp
  moreover have "\<forall>x \<in> set ms. sp_handles (sp_construct_ptr None m s) x = None" using Cons.prems(2,3) by (auto simp: sp_construct_ptr_def)
  ultimately show ?case using Cons.IH [of "sp_construct_ptr None m s"] Cons.prems(2) by (auto simp: sp_construct_ptr_def)
qed simp

lemma sp_construct_inv:
  assumes inv: "rel_inv {} [] s" and legal: "sp_legal (SNew v obj) s"
  shows "rel_inv {} [] (sp_construct v obj s)"
proof (cases obj)
  case None
  then show ?thesis using rel_inv_new [OF inv, of v None] legal by (simp add: sp_construct_def)
next
  case (Some x)
  obtain q ms where x: "x = (q, ms)" by (cases x)
  then have l: "sp_handles s v = None" "q \<notin> fst ` set (sp_objects s)" "distinct ms" "v \<notin> set ms" "\<forall>m \<in> set ms. sp_handles s m = None"
    using legal Some by auto
  let ?s = "fold (sp_construct_ptr None) ms s"
  note M = rel_inv_members [OF inv l(3,5)]
  have "v \<notin> dom (sp_handles ?s)" using M l(1,4) by (simp add: dom_def)
  then have v: "sp_handles ?s v = None" by blast
  have "local_var s m" if "m \<in> set ms" for m
    using l(5) that rel_invD(7) [OF inv] unfolding local_var_def member_of_def members_ok_def by fastforce
  then have "\<forall>m \<in> set ms. local_var ?s m" using M by (simp add: local_var_def member_of_def)
  then show ?thesis using rel_inv_new [of ?s v "Some (q, ms)"] M v l(2,3) by (simp add: sp_construct_def Some x)
qed

lemma members_ok_grow:
  assumes "members_ok T s" and "sp_objects s' = sp_objects s" and "dom (sp_handles s) \<union> T \<subseteq> dom (sp_handles s') \<union> T'"
  shows "members_ok T' s'"
  unfolding members_ok_def
proof (intro conjI allI impI)
  show "distinct (map fst (sp_objects s'))" using assms(1,2) by (simp add: members_ok_def)
  fix q ms assume q: "(q, ms) \<in> set (sp_objects s')"
  then show "distinct ms" using assms(1,2) by (simp add: members_ok_def)
  have "set ms \<subseteq> dom (sp_handles s) \<union> T" using assms(1,2) q by (simp add: members_ok_def)
  then show "set ms \<subseteq> dom (sp_handles s') \<union> T'" using assms(3) by blast
next
  fix v q q' assume "member_of s' v q" "member_of s' v q'"
  then show "q = q'" using assms(1) unfolding members_ok_def member_of_def assms(2) by blast
qed

text \<open>A variable that holds nothing gets a copy of another.\<close>

lemma rel_inv_copy:
  assumes inv: "rel_inv T [] s" and v: "sp_handles s v = None" and u: "sp_handles s u = Some p"
  shows "\<exists>s'. sp_add_ref_count p (s\<lparr>sp_handles := (sp_handles s)(v \<mapsto> p)\<rparr>) = Some s' \<and> rel_inv (T - {v}) [] s'"
proof -
  note I = rel_invD [OF inv]
  let ?H = "sp_handles s" and ?k = "h_count p"
  have p: "p \<in> held ?H []" using u by (auto simp: held_def ran_def)
  then have "refs ?H [] ?k \<noteq> 0" using refs_0 [OF I(1), of "[]" ?k] by metis
  then have c: "sp_counts s ?k = Some (int (refs ?H [] ?k))" using I(3) [of ?k] by simp
  let ?s = "s\<lparr>sp_counts := (sp_counts s)(?k \<mapsto> int (refs ?H [] ?k) + 1), sp_handles := ?H(v \<mapsto> p)\<rparr>"
  note R = refs_upd [of ?H v p, OF I(1) v]
  have held: "held (?H(v \<mapsto> p)) [] = held ?H []" using held_upd [of ?H v p "[]", OF v] p by auto
  have "sp_counts ?s k = (if refs (?H(v \<mapsto> p)) [] k = 0 then None else Some (int (refs (?H(v \<mapsto> p)) [] k)))" for k
    unfolding R using I(3) [of k] by auto
  moreover have "members_ok (T - {v}) ?s" by (rule members_ok_grow [OF I(7)]) auto
  ultimately have "rel_inv (T - {v}) [] ?s" using I(1,2,4,5,6) unfolding rel_inv_def by (simp add: held)
  moreover have "sp_add_ref_count p (s\<lparr>sp_handles := ?H(v \<mapsto> p)\<rparr>) = Some ?s" using I(5) p c by (simp add: sp_add_ref_count_def)
  ultimately show ?thesis by blast
qed

text \<open>A variable is emptied, and what it held is to be released.\<close>

lemma rel_inv_take:
  assumes inv: "rel_inv {} [] s" and v: "sp_handles s v = Some p" and T: "\<not> local_var s v \<Longrightarrow> v \<in> T"
  shows "rel_inv T [p] (s\<lparr>sp_handles := (sp_handles s)(v := None)\<rparr>)"
proof -
  have "(sp_handles s) |` (- set [v]) = (sp_handles s)(v := None)" by (auto simp: restrict_map_def fun_eq_iff)
  then show ?thesis using rel_inv_move [OF inv, of "[v]" T] v T by (auto simp: local_var_def)
qed

lemma map_le_None: "m \<subseteq>\<^sub>m m' \<Longrightarrow> m' x = None \<Longrightarrow> m x = None"
  by (metis domIff map_le_def)

lemma sp_destroy_inv:
  assumes inv: "rel_inv {} [] s" and v: "sp_handles s v = Some p" and l: "local_var s v"
  shows "\<exists>s'. sp_destroy v s = Some s' \<and> rel_inv {} [] s'"
proof -
  have "releases {} [p] (s\<lparr>sp_handles := (sp_handles s)(v := None)\<rparr>)" using l by (intro release_run rel_inv_take [OF inv v]) simp
  then show ?thesis using v by (auto simp: sp_destroy_def releases_def anchored_def)
qed

lemma sp_assign_inv:
  assumes inv: "rel_inv {} [] s" and a: "sp_assign v u s = Some s'"
  shows "rel_inv {} [] s'"
proof -
  obtain p q where p: "sp_handles s v = Some p" and q: "sp_handles s u = Some q" using a by (auto simp: sp_assign_def split: option.splits)
  let ?s = "s\<lparr>sp_handles := (sp_handles s)(v := None)\<rparr>"
  show ?thesis
  proof (cases "h_ptr p = h_ptr q")
    case True
    then show ?thesis using a p q inv by (simp add: sp_assign_def)
  next
    case False
    then obtain s1 h where s1: "sp_release [p] ?s = Some s1" "sp_handles s1 u = Some h"
      "sp_add_ref_count h (s1\<lparr>sp_handles := (sp_handles s1)(v \<mapsto> h)\<rparr>) = Some s'"
      using a p q by (auto simp: sp_assign_def split: option.splits)
    have "releases {v} [p] ?s" by (intro release_run rel_inv_take [OF inv p]) simp
    then have r: "rel_inv {v} [] s1" "kept ?s s1" using s1(1) by (auto simp: releases_def)
    have "sp_handles s1 v = None" using r(2) by (auto simp: kept_def intro: map_le_None)
    then show ?thesis using rel_inv_copy [OF r(1) _ s1(2), of v] s1(3) by auto
  qed
qed

lemma sp_reach_inv: "sp_reach s \<Longrightarrow> rel_inv {} [] s"
proof (induction rule: sp_reach.induct)
  case start
  show ?case by (simp add: rel_inv_def sp_empty_def groups_agree_def held_def refs_def members_ok_def member_of_def)
next
  case (exec s x s')
  show ?case
  proof (cases x)
    case (SNew v obj)
    then show ?thesis using exec(2,3) sp_construct_inv [OF exec(4), of v obj] by simp
  next
    case (SCopy v u)
    then show ?thesis using exec(2,3,4) rel_inv_copy [of "{}" s v u] by (auto simp: sp_copy_def)
  next
    case (SAssign v u)
    then show ?thesis using exec(3,4) sp_assign_inv by simp
  next
    case (SDrop v)
    then show ?thesis using exec(2,3,4) sp_destroy_inv [of s v] by auto
  qed
qed

text \<open>A variable that no release through \<open>v\<close> can destroy: it is a local variable, or a member of an object that a local variable other than \<open>v\<close> holds.\<close>

definition secure :: "sp_store \<Rightarrow> nat \<Rightarrow> nat \<Rightarrow> bool" where
  "secure s v x \<longleftrightarrow> (\<forall>q. member_of s x q \<longrightarrow> (\<exists>w h. w \<noteq> v \<and> sp_handles s w = Some h \<and> h_ptr h = Some q \<and> local_var s w))"

lemma secure_survives:
  assumes inv: "rel_inv {v} [] s1" and kept: "kept (s\<lparr>sp_handles := (sp_handles s)(v := None)\<rparr>) s1" (is "kept ?s s1")
    and u: "sp_handles s u = Some h" "u \<noteq> v" and sec: "secure s v u" and d: "distinct (map fst (sp_objects s))"
  shows "sp_handles s1 u \<noteq> None"
proof (cases "local_var s u")
  case True
  then have "sp_handles s1 u = sp_handles ?s u" using kept by (simp add: kept_def local_var_def member_of_def)
  then show ?thesis using u by simp
next
  case False
  then obtain q ms where q: "(q, ms) \<in> set (sp_objects s)" "u \<in> set ms" by (auto simp: local_var_def member_of_def)
  then obtain w k where w: "w \<noteq> v" "sp_handles s w = Some k" "h_ptr k = Some q" "local_var s w"
    using sec unfolding secure_def member_of_def by blast
  have "local_var ?s w" using w(4) by (simp add: local_var_def member_of_def)
  then have "sp_handles s1 w = Some k" using kept w(1,2) by (simp add: kept_def)
  then have "k \<in> held (sp_handles s1) []" by (auto simp: held_def ran_def)
  then have "q \<in> fst ` set (sp_objects s1)" using rel_invD(4) [OF inv] w(3) by force
  then obtain ms' where ms': "(q, ms') \<in> set (sp_objects s1)" by auto
  then have "(q, ms') \<in> set (sp_objects s)" using kept by (auto simp: kept_def)
  then have "ms' = ms" using q(1) d by (metis map_of_eq_Some_iff option.inject)
  then have "set ms \<subseteq> dom (sp_handles s1) \<union> {v}" using rel_invD(7) [OF inv] ms' unfolding members_ok_def by blast
  then show ?thesis using q(2) u(2) by auto
qed

lemma sp_assign_secure:
  assumes inv: "rel_inv {} [] s" and legal: "sp_legal (SAssign v u) s" and sec: "secure s v v" "secure s v u"
  shows "sp_assign v u s \<noteq> None"
proof -
  obtain p q where p: "sp_handles s v = Some p" and q: "sp_handles s u = Some q" using legal by auto
  let ?s = "s\<lparr>sp_handles := (sp_handles s)(v := None)\<rparr>"
  show ?thesis
  proof (cases "h_ptr p = h_ptr q")
    case True
    then show ?thesis using p q by (simp add: sp_assign_def)
  next
    case False
    then have uv: "u \<noteq> v" using p q by auto
    have rel: "releases {v} [p] ?s" by (intro release_run rel_inv_take [OF inv p]) simp
    have "anchored {v} ?s" using sec(1) unfolding anchored_def secure_def by (auto simp: member_of_def local_var_def) (metis fun_upd_other)
    then obtain s1 where s1: "sp_release [p] ?s = Some s1" "rel_inv {v} [] s1" "kept ?s s1" using rel unfolding releases_def by blast
    have "distinct (map fst (sp_objects s))" using rel_invD(7) [OF inv] by (simp add: members_ok_def)
    from secure_survives [OF s1(2,3) q uv sec(2) this] obtain h where h: "sp_handles s1 u = Some h" by blast
    have "sp_handles s1 v = None" using s1(3) by (auto simp: kept_def intro: map_le_None)
    then obtain s' where "sp_add_ref_count h (s1\<lparr>sp_handles := (sp_handles s1)(v \<mapsto> h)\<rparr>) = Some s'" using rel_inv_copy [OF s1(2) _ h, of v] by auto
    then show ?thesis using p q False s1(1) h by (simp add: sp_assign_def)
  qed
qed

section \<open>Theorems\<close>

text \<open>
  C16: However pointers are constructed, copied, assigned and destroyed, pointers that are members of managed objects included, no operation touches freed memory or frees
  twice, as long as an assignment is between variables that its own release cannot destroy: local variables, or members of objects that
  another local variable holds.  The objects alive are exactly those some pointer holds, and two pointers to the same object report the number of all of them
  as their use count.\<close>

theorem shared_ptr_safe:
  assumes "sp_reach s"
  shows "(\<forall>x. sp_legal x s \<longrightarrow> (\<forall>v u. x = SAssign v u \<longrightarrow> secure s v v \<and> secure s v u) \<longrightarrow> sp_exec x s \<noteq> None) \<and>
    fst ` set (sp_objects s) = {q. \<exists>v p. sp_handles s v = Some p \<and> h_ptr p = Some q} \<and>
    (\<forall>v p q. sp_handles s v = Some p \<longrightarrow> h_ptr p = Some q \<longrightarrow>
       sp_use_count v s = Some (int (card {u. \<exists>r. sp_handles s u = Some r \<and> h_ptr r = Some q})))"
proof -
  have inv: "rel_inv {} [] s" by (rule sp_reach_inv [OF assms])
  note I = rel_invD [OF inv]
  have "sp_exec x s \<noteq> None" if l: "sp_legal x s" and sec: "\<forall>v u. x = SAssign v u \<longrightarrow> secure s v v \<and> secure s v u" for x
  proof (cases x)
    case (SCopy v u)
    then show ?thesis using l rel_inv_copy [OF inv, of v u] by (auto simp: sp_copy_def)
  next
    case (SAssign v u)
    then show ?thesis using sp_assign_secure [OF inv] l sec by simp
  next
    case (SDrop v)
    then show ?thesis using l sp_destroy_inv [OF inv, of v] by auto
  qed simp
  moreover have "fst ` set (sp_objects s) = {q. \<exists>v p. sp_handles s v = Some p \<and> h_ptr p = Some q}"
    unfolding I(4) by (force simp: held_def ran_def)
  moreover have "sp_use_count v s = Some (int (card {u. \<exists>r. sp_handles s u = Some r \<and> h_ptr r = Some q}))"
    if vp: "sp_handles s v = Some p" "h_ptr p = Some q" for v p q
  proof -
    have p: "p \<in> held (sp_handles s) []" using vp(1) by (auto simp: held_def ran_def)
    have same: "h_count r = h_count p \<longleftrightarrow> h_ptr r = Some q" if "sp_handles s u = Some r" for u r
    proof -
      have "r \<in> held (sp_handles s) []" using that by (auto simp: held_def ran_def)
      then have "share r p \<Longrightarrow> r = p" using I(2) p unfolding groups_agree_def by blast
      then show ?thesis using vp(2) by (auto simp: share_def)
    qed
    then have "refs (sp_handles s) [] (h_count p) = card {u. \<exists>r. sp_handles s u = Some r \<and> h_ptr r = Some q}"
      by (simp add: refs_def) (metis (mono_tags, lifting))
    moreover have "refs (sp_handles s) [] (h_count p) \<noteq> 0" using refs_0 [OF I(1), of "[]" "h_count p"] p by metis
    ultimately show ?thesis using vp(1) I(3) [of "h_count p"] by (simp add: sp_use_count_def)
  qed
  ultimately show ?thesis by blast
qed

text \<open>
  Use after free.  When the only pointer to an object is assigned from a member of that object, as in \<open>p = p->next\<close>, and the member points elsewhere,
  \<open>operator=\<close> reads the member after \<open>Release\<close> has destroyed it.\<close>

theorem assign_member_use_after_free:
  assumes "sp_reach s" and v: "sp_handles s v = Some p" "h_ptr p = Some q" and u: "member_of s u q" "sp_handles s u = Some r" "h_ptr r \<noteq> Some q"
    and one: "sp_use_count v s = Some 1"
  shows "sp_assign v u s = None"
proof -
  have inv: "rel_inv {} [] s" by (rule sp_reach_inv [OF assms(1)])
  define t where "t = s\<lparr>sp_handles := (sp_handles s)(v := None)\<rparr>"
  have t: "sp_mutexes t = sp_mutexes s" "sp_counts t = sp_counts s" "sp_objects t = sp_objects s" by (simp_all add: t_def)
  have inv1: "rel_inv {v} [p] t" unfolding t_def by (rule rel_inv_take [OF inv v(1)]) simp
  note I = rel_invD [OF inv1]
  have m: "h_mutex p \<in> sp_mutexes t" using I(5) by (simp add: held_Cons)
  have c: "sp_counts t (h_count p) = Some 1" using one v(1) by (simp add: sp_use_count_def t)
  then have last: "refs (sp_handles t) [] (h_count p) = 0" using I(3) [of "h_count p"] by (simp add: refs_Cons)
  obtain ms where ms: "map_of (sp_objects t) q = Some ms" "u \<in> set ms"
    using u(1) rel_invD(7) [OF inv] by (auto simp: member_of_def members_ok_def t)
  have "sp_handles s1 u = None" if r: "sp_release [p] t = Some s1" for s1
  proof -
    let ?t2 = "t\<lparr>sp_counts := (sp_counts t)(h_count p := None), sp_mutexes := sp_mutexes t - {h_mutex p},
      sp_objects := AList.delete q (sp_objects t), sp_handles := (sp_handles t) |` (- set ms)\<rparr>"
    have l: "list_all (\<lambda>m. sp_handles t m \<noteq> None) ms" and r2: "sp_release (map (\<lambda>m. the (sp_handles t m)) ms @ []) ?t2 = Some s1"
      using r m c v(2) ms(1) by (simp_all add: sp_release.simps(2) split: if_splits)
    from release_run [OF rel_inv_delete(1) [OF inv1 last v(2) ms(1) l]] r2 have "sp_handles s1 \<subseteq>\<^sub>m sp_handles ?t2"
      by (auto simp: releases_def kept_def)
    moreover have "sp_handles ?t2 u = None" using ms(2) by simp
    ultimately show ?thesis by (rule map_le_None)
  qed
  then show ?thesis using v u(2,3) by (auto simp: sp_assign_def t_def split: option.splits)
qed

section \<open>A list of two nodes\<close>

text \<open>Variable 0 holds object 7, whose member 10 holds object 8, whose member 11 is null; variable 1 has helped to build the list.\<close>

definition demo_built :: sp_store where
  "demo_built = the (sp_assign 10 1 (sp_construct 1 (Some (8, [11])) (sp_construct 0 (Some (7, [10])) sp_empty)))"

definition demo_list :: sp_store where
  "demo_list = the (sp_destroy 1 demo_built)"

lemmas demo_simps = sp_construct_def sp_empty_def sp_construct_ptr_def sp_assign_def sp_release.simps sp_add_ref_count_def sp_destroy_def

lemma demo_built_eq:
  "sp_assign 10 1 (sp_construct 1 (Some (8, [11])) (sp_construct 0 (Some (7, [10])) sp_empty)) = Some demo_built"
  "demo_built = \<lparr>sp_counts = [1 \<mapsto> 1, 2 \<mapsto> 1, 3 \<mapsto> 2], sp_objects = [(8, [11]), (7, [10])], sp_mutexes = {1, 2, 3}, sp_fresh = 4,
     sp_handles = [0 \<mapsto> \<lparr>h_count = 1, h_ptr = Some 7, h_mutex = 1\<rparr>, 11 \<mapsto> \<lparr>h_count = 2, h_ptr = None, h_mutex = 2\<rparr>,
       1 \<mapsto> \<lparr>h_count = 3, h_ptr = Some 8, h_mutex = 3\<rparr>, 10 \<mapsto> \<lparr>h_count = 3, h_ptr = Some 8, h_mutex = 3\<rparr>]\<rparr>"
  by (auto simp: demo_built_def demo_simps fun_eq_iff)

lemma demo_list_eq:
  "sp_destroy 1 demo_built = Some demo_list"
  "demo_list = \<lparr>sp_counts = [1 \<mapsto> 1, 2 \<mapsto> 1, 3 \<mapsto> 1], sp_objects = [(8, [11]), (7, [10])], sp_mutexes = {1, 2, 3}, sp_fresh = 4,
     sp_handles = [0 \<mapsto> \<lparr>h_count = 1, h_ptr = Some 7, h_mutex = 1\<rparr>, 11 \<mapsto> \<lparr>h_count = 2, h_ptr = None, h_mutex = 2\<rparr>,
       10 \<mapsto> \<lparr>h_count = 3, h_ptr = Some 8, h_mutex = 3\<rparr>]\<rparr>"
  by (auto simp: demo_list_def demo_built_eq(2) demo_simps fun_eq_iff)

lemma demo_built_reach: "sp_reach demo_built"
proof -
  let ?s1 = "sp_construct 0 (Some (7, [10])) sp_empty" let ?s2 = "sp_construct 1 (Some (8, [11])) ?s1"
  have "sp_reach ?s1" by (rule sp_reach.exec [OF sp_reach.start, of "SNew 0 (Some (7, [10]))"]) (simp_all add: sp_empty_def)
  then have "sp_reach ?s2" by (rule sp_reach.exec [of _ "SNew 1 (Some (8, [11]))"]) (simp_all add: sp_construct_def sp_construct_ptr_def sp_empty_def)
  moreover have "sp_legal (SAssign 10 1) ?s2" by (simp add: sp_construct_def sp_construct_ptr_def sp_empty_def)
  ultimately show ?thesis by (rule sp_reach.exec) (simp only: sp_exec.simps demo_built_eq(1))
qed

lemma demo_local: "local_var demo_built 0" "local_var demo_built 1"
  by (auto simp: local_var_def member_of_def demo_built_eq(2))


lemma demo_list_reach: "sp_reach demo_list"
proof -
  have "sp_legal (SDrop 1) demo_built" unfolding sp_legal.simps using demo_local(2) by (simp add: demo_built_eq(2))
  with demo_built_reach show ?thesis by (rule sp_reach.exec) (simp only: sp_exec.simps demo_list_eq(1))
qed

theorem shared_ptr_safe_witness:
  "sp_reach demo_built \<and> sp_use_count 1 demo_built = Some 2 \<and> sp_exec (SDrop 0) demo_built \<noteq> None"
proof -
  have h: "sp_handles demo_built 1 = Some \<lparr>h_count = 3, h_ptr = Some 8, h_mutex = 3\<rparr>" by (simp add: demo_built_eq(2))
  have "{u. \<exists>r. sp_handles demo_built u = Some r \<and> h_ptr r = Some 8} = {1, 10}" by (auto simp: demo_built_eq(2) split: if_splits)
  then have "sp_use_count 1 demo_built = Some 2" using shared_ptr_safe [OF demo_built_reach] h by simp
  moreover have "sp_legal (SDrop 0) demo_built" unfolding sp_legal.simps using demo_local(1) by (simp add: demo_built_eq(2))
  ultimately show ?thesis using shared_ptr_safe [OF demo_built_reach] demo_built_reach by blast
qed

theorem assign_member_use_after_free_witness: "sp_reach demo_list \<and> sp_assign 0 10 demo_list = None"
proof -
  have "sp_assign 0 10 demo_list = None"
    by (rule assign_member_use_after_free [OF demo_list_reach, where p = "\<lparr>h_count = 1, h_ptr = Some 7, h_mutex = 1\<rparr>" and q = 7 and
      r = "\<lparr>h_count = 3, h_ptr = Some 8, h_mutex = 3\<rparr>"])
      (simp_all add: demo_list_eq(2) member_of_def sp_use_count_def)
  then show ?thesis using demo_list_reach by simp
qed

end
