(* ===== verification/HandOff.thy ===== *)
theory HandOff
  imports Prelude
begin

text \<open>
  The two classes \<open>Foo\<close> of \<open>find_job/look_for_job.cpp\<close>, which make three threads print in a fixed order.  The version with
  semaphores is a step relation over the three threads, one step per statement; the version with mutexes shows that its
  hand-over between threads unlocks a mutex another thread holds.
\<close>

section \<open>Semaphores\<close>

datatype first_pc = F_print | F_post | F_done
datatype second_pc = S_wait | S_print | S_post | S_done
datatype third_pc = T_wait | T_print | T_done

record foo_sem =
  sem_1 :: nat
  sem_2 :: nat
  pc_first :: first_pc
  pc_second :: second_pc
  pc_third :: third_pc
  printed :: "nat list"

definition foo_sem_construct :: foo_sem where
  "foo_sem_construct =
     \<lparr>sem_1 = 0, sem_2 = 0, pc_first = F_print, pc_second = S_wait, pc_third = T_wait, printed = []\<rparr>"

inductive foo_step :: "foo_sem \<Rightarrow> foo_sem \<Rightarrow> bool" where
  first_print: "pc_first s = F_print \<Longrightarrow> foo_step s (s\<lparr>printed := printed s @ [1], pc_first := F_post\<rparr>)"
| first_post: "pc_first s = F_post \<Longrightarrow> foo_step s (s\<lparr>sem_1 := sem_1 s + 1, pc_first := F_done\<rparr>)"
| second_wait: "pc_second s = S_wait \<Longrightarrow> 0 < sem_1 s \<Longrightarrow> foo_step s (s\<lparr>sem_1 := sem_1 s - 1, pc_second := S_print\<rparr>)"
| second_print: "pc_second s = S_print \<Longrightarrow> foo_step s (s\<lparr>printed := printed s @ [2], pc_second := S_post\<rparr>)"
| second_post: "pc_second s = S_post \<Longrightarrow> foo_step s (s\<lparr>sem_2 := sem_2 s + 1, pc_second := S_done\<rparr>)"
| third_wait: "pc_third s = T_wait \<Longrightarrow> 0 < sem_2 s \<Longrightarrow> foo_step s (s\<lparr>sem_2 := sem_2 s - 1, pc_third := T_print\<rparr>)"
| third_print: "pc_third s = T_print \<Longrightarrow> foo_step s (s\<lparr>printed := printed s @ [3], pc_third := T_done\<rparr>)"

inductive foo_reach :: "foo_sem \<Rightarrow> bool" where
  start: "foo_reach foo_sem_construct"
| step: "foo_reach s \<Longrightarrow> foo_step s s' \<Longrightarrow> foo_reach s'"

inductive_cases foo_stepE: "foo_step s s'"

text \<open>The states a run goes through, in order: each of the seven statements is enabled only after the one before it.\<close>

definition foo_stages :: "foo_sem list" where
  "foo_stages =
    [foo_sem_construct,
     \<lparr>sem_1 = 0, sem_2 = 0, pc_first = F_post, pc_second = S_wait, pc_third = T_wait, printed = [1]\<rparr>,
     \<lparr>sem_1 = 1, sem_2 = 0, pc_first = F_done, pc_second = S_wait, pc_third = T_wait, printed = [1]\<rparr>,
     \<lparr>sem_1 = 0, sem_2 = 0, pc_first = F_done, pc_second = S_print, pc_third = T_wait, printed = [1]\<rparr>,
     \<lparr>sem_1 = 0, sem_2 = 0, pc_first = F_done, pc_second = S_post, pc_third = T_wait, printed = [1, 2]\<rparr>,
     \<lparr>sem_1 = 0, sem_2 = 1, pc_first = F_done, pc_second = S_done, pc_third = T_wait, printed = [1, 2]\<rparr>,
     \<lparr>sem_1 = 0, sem_2 = 0, pc_first = F_done, pc_second = S_done, pc_third = T_print, printed = [1, 2]\<rparr>,
     \<lparr>sem_1 = 0, sem_2 = 0, pc_first = F_done, pc_second = S_done, pc_third = T_done, printed = [1, 2, 3]\<rparr>]"

lemma foo_stage_step:
  assumes "i < 7"
  shows "foo_step (foo_stages ! i) s' \<longleftrightarrow> s' = foo_stages ! Suc i"
proof -
  have "i = 0 \<or> i = 1 \<or> i = 2 \<or> i = 3 \<or> i = 4 \<or> i = 5 \<or> i = 6" using assms by linarith
  then show ?thesis by (elim disjE) (auto simp: foo_stages_def foo_sem_construct_def foo_step.simps)
qed

lemma foo_stage_last: "\<not> foo_step (foo_stages ! 7) s'"
  by (auto simp: foo_stages_def foo_step.simps)

lemma foo_reach_stage: "foo_reach s \<Longrightarrow> \<exists>i\<le>7. s = foo_stages ! i"
proof (induction rule: foo_reach.induct)
  case start
  show ?case by (intro exI [of _ 0]) (simp add: foo_stages_def)
next
  case (step s s')
  then obtain i where i: "i \<le> 7" "s = foo_stages ! i" by blast
  show ?case
  proof (cases "i = 7")
    case True
    then show ?thesis using foo_stage_last step i by blast
  next
    case False
    then have "s' = foo_stages ! Suc i" using foo_stage_step [of i] step i by simp
    then show ?thesis using i False by (intro exI [of _ "Suc i"]) auto
  qed
qed

text \<open>
  In every interleaving of the three threads the numbers are printed in their order, and no thread is stuck: when no
  statement can be executed any more, all three have been printed and every thread has returned.\<close>

theorem foo_prints_in_order:
  assumes "foo_reach s"
  shows "(\<exists>k. printed s = take k [1, 2, 3]) \<and>
    ((\<nexists>s'. foo_step s s') \<longrightarrow>
       printed s = [1, 2, 3] \<and> pc_first s = F_done \<and> pc_second s = S_done \<and> pc_third s = T_done)"
proof -
  obtain i where i: "i \<le> 7" "s = foo_stages ! i" using foo_reach_stage [OF assms] by blast
  have "i = 0 \<or> i = 1 \<or> i = 2 \<or> i = 3 \<or> i = 4 \<or> i = 5 \<or> i = 6 \<or> i = 7" using i(1) by linarith
  then have "printed s = take 0 [1, 2, 3] \<or> printed s = take 1 [1, 2, 3] \<or> printed s = take 2 [1, 2, 3] \<or>
      printed s = take 3 [1, 2, 3]"
    unfolding i(2) by (elim disjE) (simp_all add: foo_stages_def foo_sem_construct_def)
  then have "\<exists>k. printed s = take k [1, 2, 3]" by blast
  moreover have "i = 7" if "\<nexists>s'. foo_step s s'"
    using that foo_stage_step [of i "foo_stages ! Suc i"] i by fastforce
  ultimately show ?thesis unfolding i(2) by (auto simp: foo_stages_def)
qed

theorem foo_prints_in_order_witness:
  "\<exists>s. foo_reach s \<and> (\<nexists>s'. foo_step s s') \<and> printed s = [1, 2, 3]"
proof -
  have "foo_reach (foo_stages ! i)" if "i \<le> 7" for i
    using that
  proof (induction i)
    case 0
    show ?case by (simp add: foo_stages_def foo_reach.start)
  next
    case (Suc i)
    then show ?case using foo_stage_step [of i "foo_stages ! Suc i"] foo_reach.step by auto
  qed
  then have r: "foo_reach (foo_stages ! 7)" by simp
  then show ?thesis using foo_prints_in_order [OF r] foo_stage_last by blast
qed

section \<open>Mutexes\<close>

text \<open>A mutex is free or held by a thread.  Unlocking it from another thread, and locking it twice, is undefined.\<close>

datatype 'a outcome_of_call = Ret 'a | Blocks | Undefined

definition mtx_unlock :: "nat \<Rightarrow> nat option \<Rightarrow> nat option outcome_of_call" where
  "mtx_unlock t m = (if m = Some t then Ret None else Undefined)"

definition mtx_lock :: "nat \<Rightarrow> nat option \<Rightarrow> nat option outcome_of_call" where
  "mtx_lock t m = (case m of None \<Rightarrow> Ret (Some t) | Some u \<Rightarrow> if u = t then Undefined else Blocks)"

record foo_mutex =
  mtx_1 :: "nat option"
  mtx_2 :: "nat option"
  fm_printed :: "nat list"

definition foo_mutex_construct :: "nat \<Rightarrow> foo_mutex" where
  "foo_mutex_construct t = \<lparr>mtx_1 = Some t, mtx_2 = Some t, fm_printed = []\<rparr>"

definition foo_first :: "nat \<Rightarrow> foo_mutex \<Rightarrow> foo_mutex outcome_of_call" where
  "foo_first t s =
     (case mtx_unlock t (mtx_1 s) of
        Ret m \<Rightarrow> Ret (s\<lparr>mtx_1 := m, fm_printed := fm_printed s @ [1]\<rparr>) | Blocks \<Rightarrow> Blocks | Undefined \<Rightarrow> Undefined)"

definition foo_second :: "nat \<Rightarrow> foo_mutex \<Rightarrow> foo_mutex outcome_of_call" where
  "foo_second t s =
     (case mtx_lock t (mtx_1 s) of
        Blocks \<Rightarrow> Blocks | Undefined \<Rightarrow> Undefined
      | Ret m1 \<Rightarrow>
          (case mtx_unlock t (mtx_2 s) of
             Blocks \<Rightarrow> Blocks | Undefined \<Rightarrow> Undefined
           | Ret m2 \<Rightarrow>
               (case mtx_unlock t m1 of
                  Ret m \<Rightarrow> Ret (s\<lparr>mtx_1 := m, mtx_2 := m2, fm_printed := fm_printed s @ [2]\<rparr>)
                | Blocks \<Rightarrow> Blocks | Undefined \<Rightarrow> Undefined)))"

definition foo_third :: "nat \<Rightarrow> foo_mutex \<Rightarrow> foo_mutex outcome_of_call" where
  "foo_third t s =
     (case mtx_lock t (mtx_2 s) of
        Blocks \<Rightarrow> Blocks | Undefined \<Rightarrow> Undefined
      | Ret m2 \<Rightarrow>
          (case mtx_unlock t m2 of
             Ret m \<Rightarrow> Ret (s\<lparr>mtx_2 := m, fm_printed := fm_printed s @ [3]\<rparr>)
           | Blocks \<Rightarrow> Blocks | Undefined \<Rightarrow> Undefined))"

lemma mutex_hand_over_undefined: "t \<noteq> c \<Longrightarrow> foo_first t (foo_mutex_construct c) = Undefined"
  by (simp add: foo_first_def mtx_unlock_def foo_mutex_construct_def)

lemma mutex_single_thread:
  "\<exists>s1 s2 s3. foo_first c (foo_mutex_construct c) = Ret s1 \<and> foo_second c s1 = Ret s2 \<and> foo_third c s2 = Ret s3 \<and>
     fm_printed s3 = [1, 2, 3]"
  by (simp add: foo_first_def foo_second_def foo_third_def mtx_unlock_def mtx_lock_def foo_mutex_construct_def)

end
