(* ===== verification/StackQueue.thy ===== *)
theory StackQueue
  imports Prelude
begin

text \<open>
  The queue made of two stacks of \<open>find_job/look_for_job.cpp\<close>.  A stack is a list with its top first.  \<open>top\<close> and \<open>pop\<close> of an
  empty \<open>std::stack\<close> are undefined: \<^const>\<open>None\<close>.  The specification is a list, oldest element first.
\<close>

record two_stacks =
  stack1 :: "int list"
  stack2 :: "int list"

definition tsq_push :: "int \<Rightarrow> two_stacks \<Rightarrow> two_stacks" where
  "tsq_push node q = q\<lparr>stack1 := node # stack1 q\<rparr>"

fun transfer :: "int list \<Rightarrow> int list \<Rightarrow> int list" where
  "transfer [] s2 = s2"
| "transfer (x # s1) s2 = transfer s1 (x # s2)"

definition tsq_pop :: "two_stacks \<Rightarrow> (int \<times> two_stacks) option" where
  "tsq_pop q =
     (let q1 = (if stack2 q = [] then \<lparr>stack1 = [], stack2 = transfer (stack1 q) (stack2 q)\<rparr> else q)
      in case stack2 q1 of [] \<Rightarrow> None | tmp # s2 \<Rightarrow> Some (tmp, q1\<lparr>stack2 := s2\<rparr>))"

datatype queue_op = QPush int | QPop

definition tsq_step :: "queue_op \<Rightarrow> two_stacks \<Rightarrow> (int option \<times> two_stacks) option" where
  "tsq_step x q =
     (case x of
        QPush v \<Rightarrow> Some (None, tsq_push v q)
      | QPop \<Rightarrow> map_option (\<lambda>(v, q'). (Some v, q')) (tsq_pop q))"

section \<open>Refinement\<close>

definition fifo_step :: "queue_op \<Rightarrow> int list \<Rightarrow> int option \<times> int list" where
  "fifo_step x xs = (case x of QPush v \<Rightarrow> (None, xs @ [v]) | QPop \<Rightarrow> (Some (hd xs), tl xs))"

definition fifo_legal :: "queue_op \<Rightarrow> int list \<Rightarrow> bool" where
  "fifo_legal x xs \<longleftrightarrow> x = QPop \<longrightarrow> xs \<noteq> []"

definition tsq_rel :: "two_stacks \<Rightarrow> int list \<Rightarrow> bool" where
  "tsq_rel q xs \<longleftrightarrow> xs = stack2 q @ rev (stack1 q)"

lemma transfer_rev: "transfer s1 s2 = rev s1 @ s2"
  by (induction s1 s2 rule: transfer.induct) simp_all

lemma tsq_pop_rel:
  assumes "tsq_rel q xs"
  shows "case xs of [] \<Rightarrow> tsq_pop q = None | x # ys \<Rightarrow> \<exists>q'. tsq_pop q = Some (x, q') \<and> tsq_rel q' ys"
proof (cases "stack2 q")
  case Nil
  then show ?thesis using assms
    by (cases "rev (stack1 q)") (auto simp: tsq_pop_def tsq_rel_def transfer_rev)
next
  case (Cons x s2)
  then show ?thesis using assms by (auto simp: tsq_pop_def tsq_rel_def)
qed

interpretation tsq: op_simulation tsq_rel tsq_step fifo_step fifo_legal
proof
  fix x q xs
  assume l: "fifo_legal x xs" and r: "tsq_rel q xs"
  show "\<exists>q'. tsq_step x q = Some (fst (fifo_step x xs), q') \<and> tsq_rel q' (snd (fifo_step x xs))"
  proof (cases x)
    case (QPush v)
    then show ?thesis using r by (simp add: tsq_step_def fifo_step_def tsq_push_def tsq_rel_def)
  next
    case QPop
    then obtain y ys where "xs = y # ys" using l by (cases xs) (auto simp: fifo_legal_def)
    then show ?thesis using QPop tsq_pop_rel [OF r] by (auto simp: tsq_step_def fifo_step_def)
  qed
qed

text \<open>
  Any sequence of \<open>push\<close> and \<open>pop\<close> on a new queue that never pops more elements than were pushed runs without touching an
  empty stack, and pops the elements in the order in which they were pushed.\<close>

theorem two_stack_queue_refines:
  assumes "run_legal fifo_step fifo_legal ops []"
  shows "\<exists>q. run_machine tsq_step ops \<lparr>stack1 = [], stack2 = []\<rparr> = Some (fst (run_spec fifo_step ops []), q)"
  using tsq.run_sim [OF assms, of "\<lparr>stack1 = [], stack2 = []\<rparr>"] by (auto simp: tsq_rel_def)

theorem two_stack_queue_refines_witness:
  "\<exists>q. run_machine tsq_step [QPush 1, QPush 2, QPop, QPush 3, QPop, QPop] \<lparr>stack1 = [], stack2 = []\<rparr> =
     Some ([None, None, Some 1, None, Some 2, Some 3], q)"
  using two_stack_queue_refines [of "[QPush 1, QPush 2, QPop, QPush 3, QPop, QPop]"]
  by (simp add: fifo_step_def fifo_legal_def)

end
