(* ===== verification/ArrayPrograms.thy ===== *)
theory ArrayPrograms
  imports Prelude "HOL-Library.Sublist" "HOL-Library.Monad_Syntax"
begin

text \<open>
  Programs on arrays of \<open>find_job/look_for_job.cpp\<close>: two binary searches, the integer square root, the maxima of a sliding window by
  a monotone queue, the maximal sum of a subarray, and two solutions of the rain-water problem.  Reading outside a vector, the
  front of an empty queue and an \<open>int\<close> result outside 32 bits are \<^const>\<open>None\<close>.
\<close>

section \<open>Programs\<close>

definition arr_at :: "'a list \<Rightarrow> int \<Rightarrow> 'a option" where
  "arr_at xs i = (if 0 \<le> i \<and> i < int (length xs) then Some (xs ! nat i) else None)"

subsection \<open>Binary search\<close>

text \<open>The interval is closed in the first version, half open in the second.\<close>

function search_closed_loop :: "int list \<Rightarrow> int \<Rightarrow> int \<Rightarrow> int \<Rightarrow> int option" where
  "search_closed_loop nums target left right =
     (if left \<le> right
      then let middle = left + (right - left) div 2 in
        do {
          x \<leftarrow> arr_at nums middle;
          (if x > target then search_closed_loop nums target left (middle - 1)
           else if x < target then search_closed_loop nums target (middle + 1) right
           else Some middle)
        }
      else Some (- 1))"
  by pat_completeness auto
termination by (relation "measure (\<lambda>(nums, target, left, right). nat (right - left + 1))") auto

declare search_closed_loop.simps [simp del]

definition search_closed :: "int list \<Rightarrow> int \<Rightarrow> int option" where
  "search_closed nums target = search_closed_loop nums target 0 (int (length nums) - 1)"

function search_open_loop :: "int list \<Rightarrow> int \<Rightarrow> int \<Rightarrow> int \<Rightarrow> int option" where
  "search_open_loop nums target left right =
     (if left < right
      then let middle = left + (right - left) div 2 in
        do {
          x \<leftarrow> arr_at nums middle;
          (if x > target then search_open_loop nums target left middle
           else if x < target then search_open_loop nums target (middle + 1) right
           else Some middle)
        }
      else Some (- 1))"
  by pat_completeness auto
termination by (relation "measure (\<lambda>(nums, target, left, right). nat (right - left))") auto

declare search_open_loop.simps [simp del]

definition search_open :: "int list \<Rightarrow> int \<Rightarrow> int option" where
  "search_open nums target = search_open_loop nums target 0 (int (length nums))"

subsection \<open>Square root\<close>

function sqrt_loop :: "int \<Rightarrow> int \<Rightarrow> int \<Rightarrow> int \<Rightarrow> int option" where
  "sqrt_loop x l r ans =
     (if l \<le> r
      then let mid = l + (r - l) div 2 in
        (if mid * mid \<le> x
         then (case i32 (mid + 1) of None \<Rightarrow> None | Some l' \<Rightarrow> sqrt_loop x (mid + 1) r mid)
         else (case i32 (mid - 1) of None \<Rightarrow> None | Some r' \<Rightarrow> sqrt_loop x l (mid - 1) ans))
      else Some ans)"
  by pat_completeness auto
termination by (relation "measure (\<lambda>(x, l, r, ans). nat (r - l + 1))") auto

declare sqrt_loop.simps [simp del]

definition my_sqrt :: "int \<Rightarrow> int option" where
  "my_sqrt x = sqrt_loop x 0 x (- 1)"

subsection \<open>Sliding window\<close>

definition mq_pop :: "int \<Rightarrow> int list \<Rightarrow> int list" where
  "mq_pop v que = (if que \<noteq> [] \<and> v = hd que then tl que else que)"

function mq_push :: "int \<Rightarrow> int list \<Rightarrow> int list" where
  "mq_push v que = (if que \<noteq> [] \<and> v > last que then mq_push v (butlast que) else que @ [v])"
  by pat_completeness auto
termination by (relation "measure (\<lambda>(v, que). length que)") auto

declare mq_push.simps [simp del]

definition mq_front :: "int list \<Rightarrow> int option" where
  "mq_front que = (if que = [] then None else Some (hd que))"

fun fill_window :: "int list \<Rightarrow> int \<Rightarrow> nat \<Rightarrow> int list \<Rightarrow> int list option" where
  "fill_window nums i 0 que = Some que"
| "fill_window nums i (Suc n) que = do { x \<leftarrow> arr_at nums i; fill_window nums (i + 1) n (mq_push x que) }"

fun slide_window :: "int list \<Rightarrow> int \<Rightarrow> int \<Rightarrow> nat \<Rightarrow> int list \<Rightarrow> int list \<Rightarrow> int list option" where
  "slide_window nums k i 0 que result = Some result"
| "slide_window nums k i (Suc n) que result =
     do {
       x \<leftarrow> arr_at nums (i - k);
       y \<leftarrow> arr_at nums i;
       let que1 = mq_push y (mq_pop x que);
       m \<leftarrow> mq_front que1;
       slide_window nums k (i + 1) n que1 (result @ [m])
     }"

text \<open>\<open>i < nums.size()\<close> compares unsigned numbers, so a negative \<open>k\<close> is not below the size; but then the front of the empty queue
  was read before.\<close>

definition max_sliding_window :: "int list \<Rightarrow> int \<Rightarrow> int list option" where
  "max_sliding_window nums k =
     do {
       que \<leftarrow> fill_window nums 0 (nat k) [];
       m \<leftarrow> mq_front que;
       slide_window nums k k (length nums - nat k) que [m]
     }"

subsection \<open>Maximal sum of a subarray\<close>

fun max_sum_loop :: "int \<Rightarrow> int \<Rightarrow> int list \<Rightarrow> int option" where
  "max_sum_loop dp result [] = Some result"
| "max_sum_loop dp result (x # xs) =
     do {
       s \<leftarrow> i32 (dp + x);
       let dp' = max s x;
       max_sum_loop dp' (if result < dp' then dp' else result) xs
     }"

definition max_sum_of_subarray :: "int list \<Rightarrow> int option" where
  "max_sum_of_subarray arr = (case arr of [] \<Rightarrow> None | x # xs \<Rightarrow> max_sum_loop x x xs)"

subsection \<open>Rain water\<close>

text \<open>The arrays \<open>maxLeft\<close> and \<open>maxRight\<close>, filled from the left and from the right.\<close>

fun max_left :: "int \<Rightarrow> int list \<Rightarrow> int list" where
  "max_left m [] = []"
| "max_left m (h # hs) = (let m' = max h m in m' # max_left m' hs)"

fun max_right :: "int list \<Rightarrow> int list" where
  "max_right [] = []"
| "max_right [h] = [h]"
| "max_right (h # hs) = (let rs = max_right hs in max h (hd rs) # rs)"

definition max_water_dp :: "int list \<Rightarrow> int" where
  "max_water_dp height =
     (if length height \<le> 2 then 0
      else
        let ls = hd height # max_left (hd height) (tl height);
            rs = max_right height
        in fold (\<lambda>i acc. let c = min (ls ! i) (rs ! i) - height ! i in if c > 0 then acc + c else acc) [0..<length height] 0)"

text \<open>The second version compares the loop variable with \<open>arr.size() - 1\<close>, an unsigned number.\<close>

fun water_loop :: "int list \<Rightarrow> nat \<Rightarrow> nat \<Rightarrow> int \<Rightarrow> int option" where
  "water_loop arr i 0 acc = Some acc"
| "water_loop arr i (Suc n) acc =
     (if i < length arr
      then
        let rh = fold (\<lambda>x m. if x > m then x else m) (drop (Suc i) arr) (arr ! i);
            lh = fold (\<lambda>x m. if x > m then x else m) (rev (take i arr)) (arr ! i);
            h = min lh rh - arr ! i
        in water_loop arr (Suc i) n (if h > 0 then acc + h else acc)
      else None)"

definition max_water_pairs :: "int list \<Rightarrow> int option" where
  "max_water_pairs arr =
     water_loop arr 1 (nat ((int (length arr) - 1) mod 2 ^ 64) - 1) 0"

section \<open>Binary search\<close>

text \<open>What a search over the positions \<open>left\<close> to \<open>right\<close> (exclusive) returns.\<close>

definition found :: "int list \<Rightarrow> int \<Rightarrow> int \<Rightarrow> int \<Rightarrow> int \<Rightarrow> bool" where
  "found nums target left right r \<longleftrightarrow>
     (if \<exists>i. left \<le> i \<and> i < right \<and> nums ! nat i = target then left \<le> r \<and> r < right \<and> nums ! nat r = target else r = - 1)"

lemma middle_bounds: "(l::int) \<le> r \<Longrightarrow> l \<le> l + (r - l) div 2 \<and> l + (r - l) div 2 \<le> r"
  by auto

lemma found_part:
  assumes f: "found nums target l r q" and sub: "left \<le> l" "r \<le> right"
    and within: "\<And>i. left \<le> i \<Longrightarrow> i < right \<Longrightarrow> nums ! nat i = target \<Longrightarrow> l \<le> i \<and> i < r"
  shows "found nums target left right q"
proof (cases "\<exists>i. l \<le> i \<and> i < r \<and> nums ! nat i = target")
  case True
  then have "l \<le> q \<and> q < r \<and> nums ! nat q = target" using f unfolding found_def by (simp only: if_True)
  then have q: "left \<le> q \<and> q < right \<and> nums ! nat q = target" using sub by linarith
  then have "\<exists>i. left \<le> i \<and> i < right \<and> nums ! nat i = target" by blast
  then show ?thesis using q unfolding found_def by (simp only: if_True)
next
  case False
  then have "q = - 1" using f unfolding found_def by (simp only: if_False)
  moreover have "\<not> (\<exists>i. left \<le> i \<and> i < right \<and> nums ! nat i = target)" using within False by blast
  ultimately show ?thesis unfolding found_def by (simp only: if_False)
qed

lemma found_left:
  assumes "sorted nums" and "left \<le> m" "m < right" "0 \<le> left" "right \<le> int (length nums)" and "target < nums ! nat m"
    and "found nums target left m r"
  shows "found nums target left right r"
proof (rule found_part [OF assms(7)])
  fix i
  assume i: "left \<le> i" "i < right" "nums ! nat i = target"
  have "i < m"
  proof (rule ccontr)
    assume "\<not> i < m"
    then have "nums ! nat m \<le> nums ! nat i" using assms(1-5) i by (intro sorted_nth_mono) auto
    then show False using assms(6) i(3) by simp
  qed
  then show "left \<le> i \<and> i < m" using i by simp
qed (use assms(3) in auto)

lemma found_right:
  assumes "sorted nums" and "left \<le> m" "m < right" "0 \<le> left" "right \<le> int (length nums)" and "nums ! nat m < target"
    and "found nums target (m + 1) right r"
  shows "found nums target left right r"
proof (rule found_part [OF assms(7)])
  fix i
  assume i: "left \<le> i" "i < right" "nums ! nat i = target"
  have "m + 1 \<le> i"
  proof (rule ccontr)
    assume "\<not> m + 1 \<le> i"
    then have "nums ! nat i \<le> nums ! nat m" using assms(1-5) i by (intro sorted_nth_mono) auto
    then show False using assms(6) i(3) by simp
  qed
  then show "m + 1 \<le> i \<and> i < right" using i by simp
qed (use assms(2) in auto)

lemma arr_at_in: "0 \<le> i \<Longrightarrow> i < int (length xs) \<Longrightarrow> arr_at xs i = Some (xs ! nat i)"
  by (simp add: arr_at_def)

lemma search_closed_loop_ok:
  assumes "sorted nums" and "0 \<le> left" "right < int (length nums)"
  shows "\<exists>r. search_closed_loop nums target left right = Some r \<and> found nums target left (right + 1) r"
  using assms
proof (induction nums target left right rule: search_closed_loop.induct)
  case (1 nums target left right)
  let ?m = "left + (right - left) div 2"
  show ?case
  proof (cases "left \<le> right")
    case True
    have m: "left \<le> ?m" "?m \<le> right" using middle_bounds [OF True] by auto
    then have x: "arr_at nums ?m = Some (nums ! nat ?m)" using "1.prems" by (intro arr_at_in) auto
    consider "target < nums ! nat ?m" | "nums ! nat ?m < target" | "nums ! nat ?m = target" by linarith
    then show ?thesis
    proof cases
      case a: 1
      obtain r where "search_closed_loop nums target left (?m - 1) = Some r" "found nums target left (?m - 1 + 1) r"
        using "1.IH"(1) [OF True refl x _] a "1.prems" m by auto
      then show ?thesis using True x a found_left [of nums left ?m "right + 1" target r] "1.prems" m
        by (subst search_closed_loop.simps) simp
    next
      case a: 2
      obtain r where "search_closed_loop nums target (?m + 1) right = Some r" "found nums target (?m + 1) (right + 1) r"
        using "1.IH"(2) [OF True refl x _] a "1.prems" m by auto
      then show ?thesis using True x a found_right [of nums left ?m "right + 1" target r] "1.prems" m
        by (subst search_closed_loop.simps) simp
    next
      case a: 3
      have "found nums target left (right + 1) ?m" using a m by (auto simp: found_def)
      then show ?thesis using True x a by (subst search_closed_loop.simps) simp
    qed
  next
    case False
    then show ?thesis by (subst search_closed_loop.simps) (auto simp: found_def)
  qed
qed

lemma search_open_loop_ok:
  assumes "sorted nums" and "0 \<le> left" "right \<le> int (length nums)"
  shows "\<exists>r. search_open_loop nums target left right = Some r \<and> found nums target left right r"
  using assms
proof (induction nums target left right rule: search_open_loop.induct)
  case (1 nums target left right)
  let ?m = "left + (right - left) div 2"
  show ?case
  proof (cases "left < right")
    case True
    have m: "left \<le> ?m" "?m < right" using True by auto
    then have x: "arr_at nums ?m = Some (nums ! nat ?m)" using "1.prems" by (intro arr_at_in) auto
    consider "target < nums ! nat ?m" | "nums ! nat ?m < target" | "nums ! nat ?m = target" by linarith
    then show ?thesis
    proof cases
      case a: 1
      obtain r where "search_open_loop nums target left ?m = Some r" "found nums target left ?m r"
        using "1.IH"(1) [OF True refl x _] a "1.prems" m by auto
      then show ?thesis using True x a found_left [of nums left ?m right target r] "1.prems" m
        by (subst search_open_loop.simps) auto
    next
      case a: 2
      obtain r where "search_open_loop nums target (?m + 1) right = Some r" "found nums target (?m + 1) right r"
        using "1.IH"(2) [OF True refl x _] a "1.prems" m by auto
      then show ?thesis using True x a found_right [of nums left ?m right target r] "1.prems" m
        by (subst search_open_loop.simps) auto
    next
      case a: 3
      have "found nums target left right ?m" using a m by (auto simp: found_def)
      then show ?thesis using True x a by (subst search_open_loop.simps) auto
    qed
  next
    case False
    then show ?thesis by (subst search_open_loop.simps) (auto simp: found_def)
  qed
qed

text \<open>
  On an array in strictly ascending order both binary searches return the same: the position of the target, or -1 when it
  does not occur; neither ever reads outside the array.\<close>

theorem binary_searches_agree:
  assumes "sorted_wrt (<) nums"
  shows "search_closed nums target = search_open nums target \<and>
    (\<exists>r. search_open nums target = Some r \<and>
       (if target \<in> set nums then 0 \<le> r \<and> r < int (length nums) \<and> nums ! nat r = target else r = - 1))"
proof -
  let ?n = "int (length nums)"
  have s: "sorted nums" using assms by (rule strict_sorted_imp_sorted)
  obtain r where r: "search_closed nums target = Some r" "found nums target 0 ?n r"
    using search_closed_loop_ok [OF s, of 0 "?n - 1" target] by (auto simp: search_closed_def)
  obtain q where q: "search_open nums target = Some q" "found nums target 0 ?n q"
    using search_open_loop_ok [OF s, of 0 ?n target] by (auto simp: search_open_def)
  have mem: "(\<exists>i. 0 \<le> i \<and> i < ?n \<and> nums ! nat i = target) \<longleftrightarrow> target \<in> set nums"
  proof
    assume "\<exists>i. 0 \<le> i \<and> i < ?n \<and> nums ! nat i = target"
    then show "target \<in> set nums" by (auto simp: zless_nat_eq_int_zless nat_less_iff)
  next
    assume "target \<in> set nums"
    then obtain j where "j < length nums" "nums ! j = target" by (auto simp: in_set_conv_nth)
    then show "\<exists>i. 0 \<le> i \<and> i < ?n \<and> nums ! nat i = target" by (intro exI [of _ "int j"]) auto
  qed
  have "r = q"
  proof (cases "target \<in> set nums")
    case True
    then have "nums ! nat r = nums ! nat q" "nat r < length nums" "nat q < length nums" "0 \<le> r" "0 \<le> q"
      using r(2) q(2) mem by (auto simp: found_def nat_less_iff)
    moreover have "distinct nums" using assms strict_sorted_iff by blast
    ultimately show ?thesis using nth_eq_iff_index_eq by fastforce
  qed (use r(2) q(2) mem in \<open>simp add: found_def\<close>)
  then show ?thesis using r q mem by (auto simp: found_def)
qed

theorem binary_searches_agree_witness: "search_closed [2, 3, 5, 7] 5 = search_open [2, 3, 5, 7] 5 \<and> search_open [2, 3, 5, 7] 4 = Some (- 1)"
  using binary_searches_agree [of "[2, 3, 5, 7]" 5] binary_searches_agree [of "[2, 3, 5, 7]" 4] by auto

section \<open>Square root\<close>

lemma square_small: "0 \<le> m \<Longrightarrow> m * m \<le> x \<Longrightarrow> x < 2 ^ 31 \<Longrightarrow> m + 1 < (2::int) ^ 31"
  using mult_mono [of 46341 m 46341 m] by (cases "46341 \<le> m") auto

lemma sqrt_loop_ok:
  assumes "0 \<le> x" "x < 2 ^ 31" "0 \<le> l" "r < 2 ^ 31" "ans = l - 1" "l = 0 \<or> (l - 1) * (l - 1) \<le> x" "x < (r + 1) * (r + 1)" "l \<le> r + 1"
  shows "\<exists>q. sqrt_loop x l r ans = Some q \<and> 0 \<le> q \<and> q * q \<le> x \<and> x < (q + 1) * (q + 1)"
  using assms
proof (induction x l r ans rule: sqrt_loop.induct)
  case (1 x l r ans)
  let ?m = "l + (r - l) div 2"
  show ?case
  proof (cases "l \<le> r")
    case True
    have m: "l \<le> ?m" "?m \<le> r" using middle_bounds [OF True] by auto
    show ?thesis
    proof (cases "?m * ?m \<le> x")
      case sq: True
      have i: "i32 (?m + 1) = Some (?m + 1)" using square_small [OF _ sq "1.prems"(2)] m "1.prems"(3) by (simp add: i32_def)
      have "\<exists>q. sqrt_loop x (?m + 1) r ?m = Some q \<and> 0 \<le> q \<and> q * q \<le> x \<and> x < (q + 1) * (q + 1)"
        by (rule "1.IH"(1) [OF True refl sq i]) (use "1.prems" m sq in auto)
      then show ?thesis using True sq i by (subst sqrt_loop.simps) (simp add: Let_def)
    next
      case sq: False
      have i: "i32 (?m - 1) = Some (?m - 1)" using m "1.prems"(3,4) by (simp add: i32_def)
      have "\<exists>q. sqrt_loop x l (?m - 1) ans = Some q \<and> 0 \<le> q \<and> q * q \<le> x \<and> x < (q + 1) * (q + 1)"
        by (rule "1.IH"(2) [OF True refl sq i]) (use "1.prems" m sq in auto)
      then show ?thesis using True sq i by (subst sqrt_loop.simps) (simp add: Let_def)
    qed
  next
    case False
    then have lr: "r + 1 = l" using "1.prems"(8) by simp
    then have "l \<noteq> 0" using "1.prems"(1,7) by auto
    then show ?thesis using False "1.prems"(3,5,6,7) unfolding lr by (subst sqrt_loop.simps) auto
  qed
qed

text \<open>
  The square root of a non-negative \<open>int\<close> is rounded down, and no intermediate value leaves the range of \<open>int\<close>.  For a negative
  argument the result is -1.\<close>

theorem my_sqrt_correct:
  assumes "x < 2 ^ 31"
  shows "if 0 \<le> x then \<exists>q. my_sqrt x = Some q \<and> 0 \<le> q \<and> q * q \<le> x \<and> x < (q + 1) * (q + 1) else my_sqrt x = Some (- 1)"
proof (cases "0 \<le> x")
  case True
  have "(x + 1) * (x + 1) = x * x + 2 * x + 1" by (simp add: algebra_simps)
  moreover have "0 \<le> x * x" by simp
  ultimately have "x < (x + 1) * (x + 1)" using True by linarith
  then show ?thesis using sqrt_loop_ok [of x 0 x "- 1"] assms True by (simp add: my_sqrt_def)
next
  case False
  then show ?thesis by (simp add: my_sqrt_def sqrt_loop.simps)
qed

theorem my_sqrt_correct_witness: "\<exists>q. my_sqrt 2147483647 = Some q \<and> 0 \<le> q \<and> q * q \<le> 2147483647 \<and> 2147483647 < (q + 1) * (q + 1)"
  using my_sqrt_correct [of 2147483647] by simp

section \<open>Sliding window\<close>

text \<open>The queue holds the elements of the window that no later element exceeds.\<close>

fun peaks :: "int list \<Rightarrow> int list" where
  "peaks [] = []"
| "peaks (x # xs) = (if \<exists>y\<in>set xs. x < y then peaks xs else x # peaks xs)"

lemma set_peaks: "set (peaks xs) \<subseteq> set xs"
  by (induction xs) auto

lemma hd_peaks: "xs \<noteq> [] \<Longrightarrow> peaks xs \<noteq> [] \<and> hd (peaks xs) = Max (set xs)"
proof (induction xs)
  case (Cons x xs)
  show ?case
  proof (cases "xs = []")
    case False
    then have IH: "peaks xs \<noteq> []" "hd (peaks xs) = Max (set xs)" using Cons.IH by auto
    have "(\<exists>y\<in>set xs. x < y) \<longleftrightarrow> x < Max (set xs)" using False by (simp add: Max_gr_iff)
    then show ?thesis using IH False by (auto simp: max_def)
  qed simp
qed simp

lemma peaks_descending: "sorted_wrt (\<ge>) (peaks xs)"
proof (induction xs)
  case (Cons x xs)
  then show ?case using set_peaks [of xs] by (force simp: not_less)
qed simp

lemma mq_push_filter: "sorted_wrt (\<ge>) que \<Longrightarrow> mq_push v que = filter (\<lambda>x. v \<le> x) que @ [v]"
proof (induction que rule: rev_induct)
  case Nil
  show ?case by (subst mq_push.simps) simp
next
  case (snoc x xs)
  have "v \<le> y" if "y \<in> set xs" "v \<le> x" for y using that snoc.prems by (force simp: sorted_wrt_append)
  then have "\<not> x < v \<Longrightarrow> filter (\<lambda>x. v \<le> x) xs = xs" by (simp add: filter_id_conv not_less)
  then show ?case using snoc by (subst mq_push.simps) (auto simp: sorted_wrt_append)
qed

lemma peaks_snoc: "peaks (xs @ [v]) = filter (\<lambda>x. v \<le> x) (peaks xs) @ [v]"
  by (induction xs) auto

lemma mq_push_peaks: "mq_push v (peaks xs) = peaks (xs @ [v])"
  by (simp add: mq_push_filter [OF peaks_descending] peaks_snoc)

lemma mq_pop_peaks: "mq_pop x (peaks (x # xs)) = peaks xs"
proof (cases "\<exists>y\<in>set xs. x < y")
  case True
  then have "xs \<noteq> []" "x < Max (set xs)" by (auto intro: less_le_trans [OF _ Max_ge])
  then show ?thesis using True hd_peaks [of xs] by (auto simp: mq_pop_def)
qed (simp add: mq_pop_def)

lemma fill_window_ok:
  "i + n \<le> length nums \<Longrightarrow> fill_window nums (int i) n (peaks (take i nums)) = Some (peaks (take (i + n) nums))"
proof (induction n arbitrary: i)
  case (Suc n)
  then have "arr_at nums (int i) = Some (nums ! i)" by (simp add: arr_at_def)
  moreover have "take (Suc i) nums = take i nums @ [nums ! i]" using Suc.prems by (simp add: take_Suc_conv_app_nth)
  ultimately show ?case using Suc.IH [of "Suc i"] Suc.prems by (simp add: mq_push_peaks add.commute)
qed simp

lemma fill_window_short: "i + n > length nums \<Longrightarrow> i \<le> length nums \<Longrightarrow> fill_window nums (int i) n que = None"
proof (induction n arbitrary: i que)
  case (Suc n)
  show ?case
  proof (cases "i < length nums")
    case True
    then show ?thesis using Suc.IH [of "Suc i"] Suc.prems by (simp add: arr_at_def add.commute)
  qed (simp add: arr_at_def)
qed simp

definition window :: "int list \<Rightarrow> nat \<Rightarrow> nat \<Rightarrow> int list" where
  "window nums k i = take k (drop i nums)"

lemma window_slide:
  assumes "0 < k" and "i + k < length nums"
  shows "\<exists>ys. window nums k i = nums ! i # ys \<and> window nums k (Suc i) = ys @ [nums ! (i + k)]"
proof -
  have "drop i nums = nums ! i # drop (Suc i) nums" using assms by (simp add: Cons_nth_drop_Suc)
  then have "window nums k i = nums ! i # take (k - 1) (drop (Suc i) nums)" using assms(1) by (cases k) (auto simp: window_def)
  moreover have "take k (drop (Suc i) nums) = take (k - 1) (drop (Suc i) nums) @ [drop (Suc i) nums ! (k - 1)]"
    using take_Suc_conv_app_nth [of "k - 1" "drop (Suc i) nums"] assms by simp
  ultimately show ?thesis using assms by (simp add: window_def)
qed

lemma slide_window_ok:
  assumes "0 < k" and "i + k + n \<le> length nums"
  shows "slide_window nums (int k) (int (i + k)) n (peaks (window nums k i)) result =
    Some (result @ map (\<lambda>j. Max (set (window nums k j))) [Suc i..<Suc i + n])"
  using assms(2)
proof (induction n arbitrary: i result)
  case (Suc n)
  obtain ys where ys: "window nums k i = nums ! i # ys" "window nums k (Suc i) = ys @ [nums ! (i + k)]"
    using window_slide [OF assms(1), of i nums] Suc.prems by auto
  have x: "arr_at nums (int (i + k) - int k) = Some (nums ! i)" "arr_at nums (int (i + k)) = Some (nums ! (i + k))"
    using Suc.prems assms(1) by (auto simp: arr_at_def nat_add_distrib)
  have q: "mq_push (nums ! (i + k)) (mq_pop (nums ! i) (peaks (window nums k i))) = peaks (window nums k (Suc i))"
    unfolding ys by (simp only: mq_pop_peaks mq_push_peaks)
  have f: "mq_front (peaks (window nums k (Suc i))) = Some (Max (set (window nums k (Suc i))))"
    using hd_peaks [of "window nums k (Suc i)"] ys(2) by (simp add: mq_front_def)
  have IH: "slide_window nums (int k) (int (i + k) + 1) n (peaks (window nums k (Suc i))) r =
      Some (r @ map (\<lambda>j. Max (set (window nums k j))) [Suc (Suc i)..<Suc (Suc i) + n])" for r
    using Suc.IH [of "Suc i" r] Suc.prems by (simp add: add.commute)
  have "[Suc i..<Suc i + Suc n] = Suc i # [Suc (Suc i)..<Suc (Suc i) + n]" by (simp add: upt_conv_Cons)
  then show ?case by (simp only: slide_window.simps x q f IH bind.bind_lunit Let_def) simp
qed simp

text \<open>
  The monotone queue yields the maximum of every window of length \<open>k\<close>, from left to right, when \<open>k\<close> is at least one and at most
  the length of the array; for every other \<open>k\<close> the program reads outside the array or from an empty queue.\<close>

theorem max_sliding_window_correct:
  "max_sliding_window nums k =
    (if 1 \<le> k \<and> k \<le> int (length nums)
     then Some (map (\<lambda>i. Max (set (take (nat k) (drop i nums)))) [0..<Suc (length nums - nat k)])
     else None)"
proof (cases "1 \<le> k \<and> k \<le> int (length nums)")
  case True
  let ?k = "nat k" let ?n = "length nums - nat k"
  have k: "0 < ?k" "?k \<le> length nums" "int ?k = k" using True by auto
  have fill: "fill_window nums 0 ?k [] = Some (peaks (window nums ?k 0))"
    using fill_window_ok [of 0 ?k nums] k by (simp add: window_def)
  have ne: "window nums ?k 0 \<noteq> []" using k by (cases nums) (auto simp: window_def)
  have front: "mq_front (peaks (window nums ?k 0)) = Some (Max (set (window nums ?k 0)))"
    using hd_peaks [OF ne] by (simp add: mq_front_def)
  have slide: "slide_window nums k k ?n (peaks (window nums ?k 0)) [Max (set (window nums ?k 0))] =
      Some ([Max (set (window nums ?k 0))] @ map (\<lambda>j. Max (set (window nums ?k j))) [Suc 0..<Suc 0 + ?n])"
    using slide_window_ok [OF k(1), of 0 ?n nums "[Max (set (window nums ?k 0))]"] k by simp
  have "[0..<Suc ?n] = 0 # [Suc 0..<Suc 0 + ?n]" by (simp add: upt_rec)
  then show ?thesis using True fill front slide by (simp add: max_sliding_window_def window_def)
next
  case False
  show ?thesis
  proof (cases "k \<le> 0")
    case True
    then show ?thesis using False by (simp add: max_sliding_window_def mq_front_def)
  next
    case pos: False
    then have "fill_window nums 0 (nat k) [] = None" using fill_window_short [of nums 0 "nat k" "[]"] False by auto
    then show ?thesis using False by (simp add: max_sliding_window_def)
  qed
qed

section \<open>Maximal sum of a subarray\<close>

definition greatest :: "int \<Rightarrow> int set \<Rightarrow> bool" where
  "greatest m S \<longleftrightarrow> m \<in> S \<and> (\<forall>s\<in>S. s \<le> m)"

definition suffix_sums :: "int list \<Rightarrow> int set" where
  "suffix_sums xs = {sum_list ys | ys. ys \<noteq> [] \<and> suffix ys xs}"

definition part_sums :: "int list \<Rightarrow> int set" where
  "part_sums xs = {sum_list ys | ys. ys \<noteq> [] \<and> sublist ys xs}"

lemma suffix_sums_snoc: "suffix_sums (xs @ [x]) = insert x ((\<lambda>s. s + x) ` suffix_sums xs)"
proof
  show "suffix_sums (xs @ [x]) \<subseteq> insert x ((\<lambda>s. s + x) ` suffix_sums xs)"
  proof
    fix s
    assume "s \<in> suffix_sums (xs @ [x])"
    then obtain ys where ys: "s = sum_list ys" "ys \<noteq> []" "suffix ys (xs @ [x])" unfolding suffix_sums_def by blast
    then obtain zs where us: "ys = zs @ [x]" and zs: "suffix zs xs" unfolding suffix_snoc by blast
    show "s \<in> insert x ((\<lambda>s. s + x) ` suffix_sums xs)"
    proof (cases "zs = []")
      case False
      then have "sum_list zs \<in> suffix_sums xs" using zs unfolding suffix_sums_def by blast
      then show ?thesis using ys(1) us by simp
    qed (use ys(1) us in simp)
  qed
  have "x \<in> suffix_sums (xs @ [x])" unfolding suffix_sums_def by (rule CollectI, rule exI [of _ "[x]"]) (simp add: suffix_snoc)
  moreover have "sum_list ys + x \<in> suffix_sums (xs @ [x])" if "suffix ys xs" for ys
    unfolding suffix_sums_def by (rule CollectI, rule exI [of _ "ys @ [x]"]) (use that in \<open>simp add: suffix_snoc\<close>)
  ultimately show "insert x ((\<lambda>s. s + x) ` suffix_sums xs) \<subseteq> suffix_sums (xs @ [x])"
    by (auto simp: suffix_sums_def [of xs])
qed

lemma part_sums_snoc: "part_sums (xs @ [x]) = part_sums xs \<union> suffix_sums (xs @ [x])"
proof -
  have "sublist ys (xs @ [x]) \<longleftrightarrow> sublist ys xs \<or> suffix ys (xs @ [x])" for ys
    using sublist_rev [of ys "xs @ [x]"] sublist_rev [of ys xs] by (simp add: sublist_Cons_right suffix_to_prefix disj_commute)
  then show ?thesis by (auto simp: part_sums_def suffix_sums_def)
qed

lemma part_sums_mono: "part_sums xs \<subseteq> part_sums (xs @ ys)"
proof -
  have "sublist zs (xs @ ys)" if "sublist zs xs" for zs using that by (metis append_Nil sublist_append)
  then show ?thesis unfolding part_sums_def by blast
qed

lemma max_sum_loop_ok:
  assumes "greatest dp (suffix_sums pre)" and "greatest res (part_sums pre)" and "\<forall>s\<in>part_sums (pre @ xs). fits_i32 s"
  shows "\<exists>m. max_sum_loop dp res xs = Some m \<and> greatest m (part_sums (pre @ xs))"
  using assms
proof (induction xs arbitrary: pre dp res)
  case (Cons x xs)
  let ?dp = "max (dp + x) x"
  have 1: "greatest ?dp (suffix_sums (pre @ [x]))"
    using Cons.prems(1) unfolding suffix_sums_snoc greatest_def by (auto simp: max_def)
  then have 2: "greatest (if res < ?dp then ?dp else res) (part_sums (pre @ [x]))"
    using Cons.prems(2) unfolding part_sums_snoc greatest_def by force
  have "dp + x \<in> part_sums (pre @ [x])"
    using Cons.prems(1) unfolding part_sums_snoc suffix_sums_snoc greatest_def by blast
  then have "fits_i32 (dp + x)" using Cons.prems(3) part_sums_mono [of "pre @ [x]" xs] by auto
  moreover have "\<exists>m. max_sum_loop ?dp (if res < ?dp then ?dp else res) xs = Some m \<and> greatest m (part_sums ((pre @ [x]) @ xs))"
    using Cons.prems(3) by (intro Cons.IH [OF 1 2]) simp
  ultimately show ?case by (simp add: Let_def)
qed simp

text \<open>
  For a non-empty array whose subarrays have sums that fit into \<open>int\<close>, the result is the sum of some non-empty subarray, and no non-empty subarray has a
  larger one.\<close>

theorem max_sum_of_subarray_correct:
  assumes "arr \<noteq> []" and "\<forall>ys. ys \<noteq> [] \<longrightarrow> sublist ys arr \<longrightarrow> fits_i32 (sum_list ys)"
  shows "\<exists>m. max_sum_of_subarray arr = Some m \<and> (\<exists>ys. ys \<noteq> [] \<and> sublist ys arr \<and> sum_list ys = m) \<and>
    (\<forall>ys. ys \<noteq> [] \<longrightarrow> sublist ys arr \<longrightarrow> sum_list ys \<le> m)"
proof -
  obtain x xs where arr: "arr = x # xs" using assms(1) by (cases arr) auto
  have "suffix_sums [] = {}" "part_sums [] = {}" by (simp_all add: suffix_sums_def part_sums_def)
  then have "suffix_sums [x] = {x}" "part_sums [x] = {x}"
    using suffix_sums_snoc [of "[]" x] part_sums_snoc [of "[]" x] by simp_all
  moreover have "\<forall>s\<in>part_sums ([x] @ xs). fits_i32 s" using assms(2) unfolding part_sums_def arr by auto
  ultimately have "\<exists>m. max_sum_loop x x xs = Some m \<and> greatest m (part_sums ([x] @ xs))"
    by (intro max_sum_loop_ok) (simp_all add: greatest_def)
  then show ?thesis by (auto simp: greatest_def part_sums_def max_sum_of_subarray_def arr)
qed

theorem max_sum_of_subarray_correct_witness:
  "\<exists>m. max_sum_of_subarray [1, - 2, 3] = Some m \<and> (\<forall>ys. ys \<noteq> [] \<longrightarrow> sublist ys [1, - 2, 3] \<longrightarrow> sum_list ys \<le> m)"
proof -
  have "\<forall>ys. ys \<noteq> [] \<longrightarrow> sublist ys [1, - 2, 3] \<longrightarrow> fits_i32 (sum_list ys)"
    by (auto simp: sublist_Cons_right prefix_Cons fits_i32_def)
  then show ?thesis using max_sum_of_subarray_correct [of "[1, - 2, 3]"] by auto
qed

section \<open>Rain water\<close>

text \<open>The water above position \<open>i\<close>: up to the lower of the highest bars on both sides.\<close>

definition water_at :: "int list \<Rightarrow> nat \<Rightarrow> int" where
  "water_at hs i = max 0 (min (Max (set (take (Suc i) hs))) (Max (set (drop i hs))) - hs ! i)"

lemma max_left_nth: "i < length hs \<Longrightarrow> max_left m hs ! i = Max (insert m (set (take (Suc i) hs)))"
proof (induction hs arbitrary: m i)
  case (Cons h hs)
  show ?case
  proof (cases i)
    case 0
    then show ?thesis by (simp add: Let_def max.commute)
  next
    case (Suc j)
    have "Max (insert (max h m) (set (take (Suc j) hs))) = Max (insert m (insert h (set (take (Suc j) hs))))"
      by (cases "take (Suc j) hs = []") (simp_all add: max.assoc max.commute max.left_commute)
    then show ?thesis using Suc Cons by (simp add: Let_def)
  qed
qed simp

lemma max_right_nth: "i < length hs \<Longrightarrow> max_right hs ! i = Max (set (drop i hs))"
proof (induction hs arbitrary: i rule: max_right.induct)
  case (3 h h' hs)
  have "max_right (h' # hs) \<noteq> []" using "3.IH" by (cases hs) (auto simp: Let_def)
  then have hd: "hd (max_right (h' # hs)) = Max (set (h' # hs))" using "3.IH" [of 0] by (simp add: hd_conv_nth)
  show ?case using "3.IH" "3.prems" hd by (cases i) (simp_all add: Let_def)
qed simp_all

lemma fold_max: "fold (\<lambda>x m. if x > m then x else m) xs (m :: int) = Max (insert m (set xs))"
proof (induction xs arbitrary: m)
  case (Cons x xs)
  then show ?case by (cases "xs = []") (auto simp: max_def)
qed simp

lemma fold_positive: "fold (\<lambda>i acc. if f i > 0 then acc + f i else acc) is a = a + (\<Sum>i\<leftarrow>is. max 0 (f i :: int))"
  by (induction "is" arbitrary: a) (auto simp: max_def)

lemma positive_part: "(if (h :: int) > 0 then a + h else a) = a + max 0 h"
  by simp

lemma max_water_dp_sum:
  assumes "length hs > 2"
  shows "max_water_dp hs = (\<Sum>i\<leftarrow>[0..<length hs]. water_at hs i)"
proof -
  obtain h t where hs: "hs = h # t" using assms by (cases hs) auto
  let ?ls = "h # max_left h t"
  have ls: "?ls ! i = Max (set (take (Suc i) hs))" if "i < length hs" for i
    using that max_left_nth [of "i - 1" t h] hs by (cases i) auto
  have eq: "max 0 (min (?ls ! i) (max_right hs ! i) - hs ! i) = water_at hs i" if "i < length hs" for i
    using ls [OF that] max_right_nth [OF that] by (simp add: water_at_def)
  have "max_water_dp hs = (\<Sum>i\<leftarrow>[0..<length hs]. max 0 (min (?ls ! i) (max_right hs ! i) - hs ! i))"
  proof -
    have "\<not> length hs \<le> 2" and hd: "hd hs = h" "tl hs = t" using assms hs by auto
    then show ?thesis
      using fold_positive [of "\<lambda>i. min (?ls ! i) (max_right hs ! i) - hs ! i" "[0..<length hs]" 0]
      unfolding max_water_dp_def Let_def hd by (simp only: if_False add_0)
  qed
  also have "\<dots> = (\<Sum>i\<leftarrow>[0..<length hs]. water_at hs i)" using eq by (intro arg_cong [of _ _ sum_list] map_cong) auto
  finally show ?thesis .
qed

lemma water_at_ends: "hs \<noteq> [] \<Longrightarrow> water_at hs 0 = 0" "hs \<noteq> [] \<Longrightarrow> water_at hs (length hs - 1) = 0"
proof -
  assume ne: "hs \<noteq> []"
  then show "water_at hs 0 = 0" by (cases hs) (auto simp: water_at_def)
  have "drop (length hs - 1) hs = [last hs]" using ne by (metis append_butlast_last_id append_eq_conv_conj length_butlast)
  then show "water_at hs (length hs - 1) = 0" using ne by (simp add: water_at_def last_conv_nth)
qed

lemma water_loop_ok:
  "i + n \<le> length hs \<Longrightarrow> water_loop hs i n a = Some (a + (\<Sum>j\<leftarrow>[i..<i + n]. water_at hs j))"
proof (induction n arbitrary: i a)
  case (Suc n)
  then have i: "i < length hs" by simp
  have r: "insert (hs ! i) (set (drop (Suc i) hs)) = set (drop i hs)" using i by (metis Cons_nth_drop_Suc list.simps(15))
  have l: "insert (hs ! i) (set (rev (take i hs))) = set (take (Suc i) hs)" using i by (simp add: take_Suc_conv_app_nth)
  let ?h = "min (Max (set (take (Suc i) hs))) (Max (set (drop i hs))) - hs ! i"
  have "water_loop hs i (Suc n) a = water_loop hs (Suc i) n (if ?h > 0 then a + ?h else a)"
    using i by (simp add: fold_max r l Let_def del: set_rev)
  moreover have "(if ?h > 0 then a + ?h else a) = a + water_at hs i" unfolding water_at_def by (rule positive_part)
  moreover have "[i..<i + Suc n] = i # [Suc i..<Suc i + n]" by (simp add: upt_conv_Cons)
  ultimately show ?case using Suc.IH [of "Suc i"] Suc.prems by simp
qed simp

lemma drop_ends: "0 < n \<Longrightarrow> f 0 = 0 \<Longrightarrow> f (n - 1) = 0 \<Longrightarrow> (\<Sum>i\<leftarrow>[0..<n]. f i) = (\<Sum>i\<leftarrow>[1..<n - 1]. f i :: int)"
proof -
  assume n: "0 < n" and f: "f 0 = 0" "f (n - 1) = 0"
  show ?thesis
  proof (cases "n = 1")
    case False
    then have "[0..<n] = 0 # [1..<n - 1] @ [n - 1]" using n upt_rec [of 0 n] upt_Suc_append [of 1 "n - 1"] by simp
    then show ?thesis using f by simp
  qed (use f in simp)
qed

text \<open>
  On every non-empty array the quadratic and the linear solution of the rain-water problem compute the same, the sum over all
  positions of the height between the bar and the lower of the highest bars to its left and right.\<close>

theorem max_water_equivalent:
  assumes "hs \<noteq> []" and "length hs < 2 ^ 63"
  shows "max_water_pairs hs = Some (max_water_dp hs) \<and> max_water_dp hs = (\<Sum>i\<leftarrow>[0..<length hs]. water_at hs i)"
proof -
  have n: "nat ((int (length hs) - 1) mod 2 ^ 64) = length hs - 1" using assms by (simp add: mod_pos_pos_trivial)
  have pairs: "max_water_pairs hs = Some (\<Sum>i\<leftarrow>[1..<length hs - 1]. water_at hs i)"
  proof (cases "length hs \<le> 2")
    case True
    then show ?thesis unfolding max_water_pairs_def n using assms(1) by simp
  next
    case False
    then have "1 + (length hs - 1 - 1) = length hs - 1" by simp
    then show ?thesis using water_loop_ok [of 1 "length hs - 1 - 1" hs 0] False unfolding max_water_pairs_def n by simp
  qed
  have all: "(\<Sum>i\<leftarrow>[0..<length hs]. water_at hs i) = (\<Sum>i\<leftarrow>[1..<length hs - 1]. water_at hs i)"
    using drop_ends [of "length hs" "water_at hs"] water_at_ends assms(1) by simp
  show ?thesis
  proof (cases "length hs > 2")
    case True
    then show ?thesis using pairs all max_water_dp_sum [OF True] by simp
  next
    case False
    then show ?thesis using pairs all by (simp add: max_water_dp_def)
  qed
qed

theorem max_water_equivalent_witness: "max_water_pairs [3, 1, 2, 5, 2, 4] = Some (max_water_dp [3, 1, 2, 5, 2, 4])"
  using max_water_equivalent [of "[3, 1, 2, 5, 2, 4]"] by simp

text \<open>For an empty array \<open>arr.size() - 1\<close> wraps around, and the second version reads the array.\<close>

lemma max_water_pairs_empty: "max_water_pairs [] = None"
proof -
  have "nat ((int (length ([] :: int list)) - 1) mod 2 ^ 64) - 1 = Suc (2 ^ 64 - 3)" by simp
  then show ?thesis unfolding max_water_pairs_def by (simp only: water_loop.simps) simp
qed

end
