(* ===== verification/DecimalStrings.thy ===== *)
theory DecimalStrings
  imports Prelude
begin

text \<open>
  Addition of decimal numbers of any length as strings, in two versions, from \<open>find_job/look_for_job.cpp\<close>: one pads the shorter
  string with zeros and adds from the last column, the other reverses both strings and appends the digits of the sum.
\<close>

section \<open>Programs\<close>

definition dig :: "char \<Rightarrow> int" where
  "dig c = of_char c - 48"

definition chr_of :: "int \<Rightarrow> char" where
  "chr_of d = char_of (d + 48)"

text \<open>One column of the first version: the carry and the digits so far.\<close>

definition add_column :: "char \<times> char \<Rightarrow> int \<times> string \<Rightarrow> int \<times> string" where
  "add_column xy st =
     (case (xy, st) of ((x, y), (carry, out)) \<Rightarrow>
        let tmp = dig x + dig y + carry
        in if tmp \<ge> 10 then (1, chr_of (tmp - 10) # out) else (0, chr_of tmp # out))"

definition solve_padded :: "string \<Rightarrow> string \<Rightarrow> string" where
  "solve_padded s t =
     (if s = [] then t
      else if t = [] then s
      else
        let s1 = replicate (length t - length s) (CHR ''0'') @ s;
            t1 = replicate (length s - length t) (CHR ''0'') @ t;
            (carry, out) = foldr add_column (zip s1 t1) (0, [])
        in if carry \<noteq> 0 then CHR ''1'' # out else out)"

definition add_char :: "char \<Rightarrow> char \<Rightarrow> string \<times> int \<Rightarrow> string \<times> int" where
  "add_char x y st =
     (case st of (ans, d) \<Rightarrow> let res = dig x + dig y + d in (ans @ [chr_of (res mod 10)], res div 10))"

definition solve_reversed :: "string \<Rightarrow> string \<Rightarrow> string" where
  "solve_reversed s t =
     (let (s1, t1) = (if length (rev s) < length (rev t) then (rev t, rev s) else (rev s, rev t));
          st1 = fold (\<lambda>i. add_char (s1 ! i) (t1 ! i)) [0..<length t1] ([], 0);
          (ans, d) = fold (\<lambda>i. add_char (s1 ! i) (CHR ''0'')) [length t1..<length s1] st1
      in rev (if d \<noteq> 0 then ans @ [CHR ''1''] else ans))"

section \<open>Digits and values\<close>

definition is_dig :: "char \<Rightarrow> bool" where
  "is_dig c \<longleftrightarrow> 0 \<le> dig c \<and> dig c \<le> 9"

definition value_of :: "string \<Rightarrow> int" where
  "value_of s = foldl (\<lambda>a c. 10 * a + dig c) 0 s"

lemma chr_dig [simp]: "chr_of (dig c) = c"
  by (simp add: chr_of_def dig_def)

lemma dig_chr: "0 \<le> d \<Longrightarrow> d \<le> 9 \<Longrightarrow> dig (chr_of d) = d"
  by (simp add: chr_of_def dig_def)

lemma dig_const [simp]: "dig (CHR ''0'') = 0" "dig (CHR ''1'') = 1"
  by (simp_all add: dig_def)

lemma value_foldl: "foldl (\<lambda>a c. 10 * a + dig c) a s = a * 10 ^ length s + value_of s"
proof (induction s arbitrary: a)
  case (Cons c s)
  have "value_of (c # s) = dig c * 10 ^ length s + value_of s" using Cons [of "dig c"] by (simp add: value_of_def)
  then show ?case using Cons [of "10 * a + dig c"] by (simp add: algebra_simps)
qed (simp add: value_of_def)

lemma value_Cons: "value_of (c # s) = dig c * 10 ^ length s + value_of s"
  using value_foldl [of "dig c" s] by (simp add: value_of_def)

lemma value_zeros: "value_of (replicate n (CHR ''0'') @ s) = value_of s"
  by (induction n) (simp_all add: value_Cons)

section \<open>The columns\<close>

lemma add_column_pair:
  "add_column (x, y) (carry, out) =
     (if dig x + dig y + carry \<ge> 10 then (1, chr_of (dig x + dig y + carry - 10) # out)
      else (0, chr_of (dig x + dig y + carry) # out))"
  by (simp add: add_column_def Let_def)

lemma columns_value:
  assumes "length s = length t" and "list_all is_dig s" and "list_all is_dig t"
  shows "\<exists>carry out. foldr add_column (zip s t) (0, []) = (carry, out) \<and> (carry = 0 \<or> carry = 1) \<and>
    length out = length s \<and> list_all is_dig out \<and> carry * 10 ^ length s + value_of out = value_of s + value_of t"
  using assms
proof (induction s t rule: list_induct2)
  case Nil
  show ?case by (simp add: value_of_def)
next
  case (Cons x s y t)
  then obtain carry out where IH: "foldr add_column (zip s t) (0, []) = (carry, out)" "carry = 0 \<or> carry = 1"
    "length out = length s" "list_all is_dig out" "carry * 10 ^ length s + value_of out = value_of s + value_of t" by auto
  let ?tmp = "dig x + dig y + carry"
  have xy: "0 \<le> dig x" "dig x \<le> 9" "0 \<le> dig y" "dig y \<le> 9" using Cons.prems by (auto simp: is_dig_def)
  have sum: "value_of (x # s) + value_of (y # t) = ?tmp * 10 ^ length s + value_of out"
    using IH(5) Cons.hyps by (simp add: value_Cons algebra_simps)
  show ?case
  proof (cases "?tmp \<ge> 10")
    case True
    have d: "dig (chr_of (?tmp - 10)) = ?tmp - 10" using True xy IH(2) by (intro dig_chr) auto
    then have "is_dig (chr_of (?tmp - 10))" using True xy IH(2) by (auto simp: is_dig_def)
    moreover have "1 * 10 ^ length (x # s) + value_of (chr_of (?tmp - 10) # out) = ?tmp * 10 ^ length s + value_of out"
      unfolding value_Cons d IH(3) by (simp add: algebra_simps)
    ultimately show ?thesis unfolding sum using IH(1,3,4) True by (simp add: add_column_pair)
  next
    case False
    have d: "dig (chr_of ?tmp) = ?tmp" using False xy IH(2) by (intro dig_chr) auto
    then have "is_dig (chr_of ?tmp)" using False xy IH(2) by (auto simp: is_dig_def)
    moreover have "value_of (chr_of ?tmp # out) = ?tmp * 10 ^ length s + value_of out" using d IH(3) by (simp add: value_Cons)
    ultimately show ?thesis unfolding sum using IH(1,3,4) False by (simp add: add_column_pair)
  qed
qed

lemma columns_zeros:
  "list_all is_dig s \<Longrightarrow> foldr add_column (zip s (replicate (length s) (CHR ''0''))) (0, []) = (0, s)"
  by (induction s) (auto simp: add_column_def is_dig_def)

lemma columns_commute: "length s = length t \<Longrightarrow> foldr add_column (zip s t) st = foldr add_column (zip t s) st"
  by (induction s t rule: list_induct2) (simp_all add: add_column_def add.commute add.left_commute)

text \<open>The second version computes the same columns, with the digits in the opposite order.\<close>

lemma columns_reversed:
  assumes "length s = length t" and "list_all is_dig s" and "list_all is_dig t"
  shows "fold (\<lambda>(x, y). add_char x y) (zip (rev s) (rev t)) ([], 0) =
    (case foldr add_column (zip s t) (0, []) of (carry, out) \<Rightarrow> (rev out, carry))"
  using assms
proof (induction s t rule: list_induct2)
  case (Cons x s y t)
  then obtain carry out where IH: "foldr add_column (zip s t) (0, []) = (carry, out)" "carry = 0 \<or> carry = 1"
    using columns_value [of s t] by auto
  have f: "fold (\<lambda>(x, y). add_char x y) (zip (rev s) (rev t)) ([], 0) = (rev out, carry)"
    using Cons IH(1) by simp
  let ?tmp = "dig x + dig y + carry"
  have xy: "0 \<le> ?tmp" "?tmp \<le> 19" using Cons.prems IH(2) by (auto simp: is_dig_def)
  have "add_char x y (rev out, carry) = (case add_column (x, y) (carry, out) of (c, r) \<Rightarrow> (rev r, c))"
  proof (cases "?tmp \<ge> 10")
    case True
    then have "?tmp mod 10 = ?tmp - 10" "?tmp div 10 = 1" using xy by presburger+
    then show ?thesis using True by (simp add: add_char_def add_column_def Let_def)
  next
    case False
    then have "?tmp mod 10 = ?tmp" "?tmp div 10 = 0" using xy by auto
    then show ?thesis using False by (simp add: add_char_def add_column_def Let_def)
  qed
  then show ?case using f IH(1) Cons.hyps by simp
qed simp

section \<open>Theorems\<close>

lemma fold_upt_zip:
  "length xs = length ys \<Longrightarrow> fold (\<lambda>i. f (xs ! i) (ys ! i)) [0..<length xs] st = fold (\<lambda>(x, y). f x y) (zip xs ys) st"
proof (induction xs ys arbitrary: st rule: list_induct2)
  case (Cons x xs y ys)
  have "[0..<length (x # xs)] = 0 # map Suc [0..<length xs]" by (simp add: upt_conv_Cons map_Suc_upt del: upt_Suc)
  then show ?case using Cons.IH by (simp add: fold_map comp_def del: upt_Suc)
qed simp

text \<open>The two loops of the second version are one loop over the columns of the longer and the padded shorter string.\<close>

lemma two_loops:
  assumes "length t \<le> length s"
  shows "fold (\<lambda>i. add_char (rev s ! i) (CHR ''0'')) [length t..<length s]
      (fold (\<lambda>i. add_char (rev s ! i) (rev t ! i)) [0..<length t] st) =
    fold (\<lambda>(x, y). add_char x y) (zip (rev s) (rev (replicate (length s - length t) (CHR ''0'') @ t))) st"
proof -
  let ?t = "rev t @ replicate (length s - length t) (CHR ''0'')"
  have len: "length (rev s) = length ?t" using assms by simp
  have 1: "fold (\<lambda>i. add_char (rev s ! i) (rev t ! i)) [0..<length t] st = fold (\<lambda>i. add_char (rev s ! i) (?t ! i)) [0..<length t] st" for st
    by (rule fold_cong) (auto simp: nth_append)
  have 2: "fold (\<lambda>i. add_char (rev s ! i) (CHR ''0'')) [length t..<length s] st =
      fold (\<lambda>i. add_char (rev s ! i) (?t ! i)) [length t..<length s] st" for st
    by (rule fold_cong) (auto simp: nth_append)
  have "[0..<length (rev s)] = [0..<length t] @ [length t..<length s]" using assms upt_add_eq_append [of 0 "length t" "length s - length t"] by simp
  then show ?thesis using fold_upt_zip [OF len, of add_char st] 1 2 by simp
qed

definition columns :: "string \<Rightarrow> string \<Rightarrow> string" where
  "columns s t = (case foldr add_column (zip s t) (0, []) of (carry, out) \<Rightarrow> if carry \<noteq> 0 then CHR ''1'' # out else out)"

lemma list_all_zeros: "list_all is_dig (replicate n (CHR ''0''))"
  by (induction n) (simp_all add: is_dig_def)

lemma solve_reversed_columns:
  assumes "length t \<le> length s" and "list_all is_dig s" and "list_all is_dig t"
  shows "solve_reversed s t = columns s (replicate (length s - length t) (CHR ''0'') @ t)"
    and "length t < length s \<Longrightarrow> solve_reversed t s = columns s (replicate (length s - length t) (CHR ''0'') @ t)"
proof -
  let ?t = "replicate (length s - length t) (CHR ''0'') @ t"
  obtain carry out where c: "foldr add_column (zip s ?t) (0, []) = (carry, out)" by fastforce
  have "fold (\<lambda>(x, y). add_char x y) (zip (rev s) (rev ?t)) ([], 0) = (rev out, carry)"
    using columns_reversed [of s ?t] assms c list_all_zeros by simp
  then have f: "fold (\<lambda>i. add_char (rev s ! i) (CHR ''0'')) [length t..<length s]
      (fold (\<lambda>i. add_char (rev s ! i) (rev t ! i)) [0..<length t] ([], 0)) = (rev out, carry)"
    using two_loops [OF assms(1)] by simp
  then show "solve_reversed s t = columns s ?t" using assms(1) c by (simp add: solve_reversed_def columns_def)
  show "solve_reversed t s = columns s ?t" if "length t < length s"
    using that f c by (simp add: solve_reversed_def columns_def)
qed

lemma solve_padded_columns:
  assumes "length t \<le> length s" and "list_all is_dig s" and "list_all is_dig t"
  shows "solve_padded s t = columns s (replicate (length s - length t) (CHR ''0'') @ t)"
    and "solve_padded t s = columns s (replicate (length s - length t) (CHR ''0'') @ t)"
proof -
  let ?t = "replicate (length s - length t) (CHR ''0'') @ t"
  have empty: "columns s ?t = s" if "t = []" using that columns_zeros [OF assms(2)] by (simp add: columns_def)
  have len: "length s = length ?t" using assms(1) by simp
  show "solve_padded s t = columns s ?t"
  proof (cases "s = [] \<or> t = []")
    case True
    then show ?thesis using empty assms(1) by (auto simp: solve_padded_def)
  next
    case False
    then show ?thesis using assms(1) by (simp add: solve_padded_def columns_def)
  qed
  show "solve_padded t s = columns s ?t"
  proof (cases "s = [] \<or> t = []")
    case True
    then show ?thesis using empty assms(1) by (auto simp: solve_padded_def)
  next
    case False
    then show ?thesis using assms(1) columns_commute [OF len] by (simp add: solve_padded_def columns_def)
  qed
qed

lemma columns_sum:
  assumes "length s = length t" and "list_all is_dig s" and "list_all is_dig t"
  shows "value_of (columns s t) = value_of s + value_of t \<and> list_all is_dig (columns s t)"
proof -
  obtain carry out where c: "foldr add_column (zip s t) (0, []) = (carry, out)" "carry = 0 \<or> carry = 1"
    "length out = length s" "list_all is_dig out" "carry * 10 ^ length s + value_of out = value_of s + value_of t"
    using columns_value [OF assms] by blast
  then show ?thesis by (auto simp: columns_def value_Cons is_dig_def)
qed

text \<open>
  Both additions return the same string for any two strings of decimal digits, empty ones included, and it is a string of digits
  whose value is the sum of theirs.\<close>

theorem decimal_additions_agree:
  assumes "list_all is_dig s" and "list_all is_dig t"
  shows "solve_padded s t = solve_reversed s t \<and> value_of (solve_reversed s t) = value_of s + value_of t \<and>
    list_all is_dig (solve_reversed s t)"
proof (cases "length t \<le> length s")
  case True
  let ?t = "replicate (length s - length t) (CHR ''0'') @ t"
  have "length s = length ?t" using True by simp
  then have "value_of (columns s ?t) = value_of s + value_of ?t \<and> list_all is_dig (columns s ?t)"
    using assms list_all_zeros by (intro columns_sum) auto
  then show ?thesis using solve_padded_columns(1) [OF True] solve_reversed_columns(1) [OF True] assms by (simp add: value_zeros)
next
  case False
  then have le: "length s \<le> length t" "length s < length t" by auto
  let ?s = "replicate (length t - length s) (CHR ''0'') @ s"
  have "length t = length ?s" using le by simp
  then have "value_of (columns t ?s) = value_of t + value_of ?s \<and> list_all is_dig (columns t ?s)"
    using assms list_all_zeros by (intro columns_sum) auto
  then show ?thesis
    using solve_padded_columns(2) [OF le(1)] solve_reversed_columns(2) [OF le(1) _ _ le(2)] assms by (simp add: value_zeros)
qed

theorem decimal_additions_agree_witness:
  "value_of (solve_reversed ''98'' ''7'') = value_of ''98'' + value_of ''7'' \<and> solve_padded ''98'' ''7'' = solve_reversed ''98'' ''7''"
  using decimal_additions_agree [of "''98''" "''7''"] by (simp add: is_dig_def dig_def)

end
