(* ===== verification/TreePrograms.thy ===== *)
theory TreePrograms
  imports Prelude "HOL-Library.Tree" "HOL-Library.Monad_Syntax"
begin

text \<open>
  The programs on binary trees of \<open>find_job/look_for_job.cpp\<close>.  They read trees but, with one exception, do not change them, so a
  \<open>TreeNode\<close> pointer is the tree below it and null is \<^term>\<open>\<langle>\<rangle>\<close>.  Following a null pointer is \<^const>\<open>None\<close>.  Stacks are lists with
  the top first, queues lists with the front first.
\<close>

type_synonym itree = "int tree"

definition t_val :: "itree \<Rightarrow> int option" where
  "t_val t = (case t of \<langle>\<rangle> \<Rightarrow> None | \<langle>l, a, r\<rangle> \<Rightarrow> Some a)"

definition t_left :: "itree \<Rightarrow> itree option" where
  "t_left t = (case t of \<langle>\<rangle> \<Rightarrow> None | \<langle>l, a, r\<rangle> \<Rightarrow> Some l)"

definition t_right :: "itree \<Rightarrow> itree option" where
  "t_right t = (case t of \<langle>\<rangle> \<Rightarrow> None | \<langle>l, a, r\<rangle> \<Rightarrow> Some r)"

named_theorems tree_access \<open>members of a node that exists\<close>

lemma node_access [tree_access]:
  "t_val \<langle>l, a, r\<rangle> = Some a" "t_left \<langle>l, a, r\<rangle> = Some l" "t_right \<langle>l, a, r\<rangle> = Some r"
  "t_val \<langle>\<rangle> = None" "t_left \<langle>\<rangle> = None" "t_right \<langle>\<rangle> = None"
  by (simp_all add: t_val_def t_left_def t_right_def)

section \<open>Traversals\<close>

fun preorder_traversal :: "itree \<Rightarrow> int list \<Rightarrow> int list" where
  "preorder_traversal \<langle>\<rangle> vec = vec"
| "preorder_traversal \<langle>l, a, r\<rangle> vec = preorder_traversal r (preorder_traversal l (vec @ [a]))"

fun inorder_traversal :: "itree \<Rightarrow> int list \<Rightarrow> int list" where
  "inorder_traversal \<langle>\<rangle> vec = vec"
| "inorder_traversal \<langle>l, a, r\<rangle> vec = inorder_traversal r (inorder_traversal l vec @ [a])"

fun postorder_traversal :: "itree \<Rightarrow> int list \<Rightarrow> int list" where
  "postorder_traversal \<langle>\<rangle> vec = vec"
| "postorder_traversal \<langle>l, a, r\<rangle> vec = postorder_traversal r (postorder_traversal l vec) @ [a]"

definition push_node :: "itree \<Rightarrow> itree list \<Rightarrow> itree list" where
  "push_node t st = (if t = \<langle>\<rangle> then st else t # st)"

definition enqueue_node :: "itree \<Rightarrow> itree list \<Rightarrow> itree list" where
  "enqueue_node t q = (if t = \<langle>\<rangle> then q else q @ [t])"

abbreviation weight :: "itree list \<Rightarrow> nat" where
  "weight ts \<equiv> sum_list (map size ts)"

lemma weight_push [simp]: "weight (push_node t st) = size t + weight st" "weight (enqueue_node t q) = weight q + size t"
  by (simp_all add: push_node_def enqueue_node_def)

function preorder_loop :: "itree list \<Rightarrow> int list \<Rightarrow> int list option" where
  "preorder_loop [] result = Some result"
| "preorder_loop (\<langle>\<rangle> # st) result = None"
| "preorder_loop (\<langle>l, a, r\<rangle> # st) result = preorder_loop (push_node l (push_node r st)) (result @ [a])"
  by pat_completeness auto
termination by (relation "measure (weight \<circ> fst)") auto

definition preorder_iter :: "itree \<Rightarrow> int list option" where
  "preorder_iter root = (if root = \<langle>\<rangle> then Some [] else preorder_loop [root] [])"

function inorder_loop :: "itree \<Rightarrow> itree list \<Rightarrow> int list \<Rightarrow> int list option" where
  "inorder_loop \<langle>l, a, r\<rangle> st result = inorder_loop l (\<langle>l, a, r\<rangle> # st) result"
| "inorder_loop \<langle>\<rangle> [] result = Some result"
| "inorder_loop \<langle>\<rangle> (\<langle>\<rangle> # st) result = None"
| "inorder_loop \<langle>\<rangle> (\<langle>l, a, r\<rangle> # st) result = inorder_loop r st (result @ [a])"
  by pat_completeness auto
termination
  by (relation "measure (\<lambda>(cur, st, result). 2 * size cur + sum_list (map (\<lambda>t. case t of \<langle>\<rangle> \<Rightarrow> 0 | \<langle>l, a, r\<rangle> \<Rightarrow> 2 * size r + 1) st))") auto

definition inorder_iter :: "itree \<Rightarrow> int list option" where
  "inorder_iter root = inorder_loop root [] []"

function postorder_loop :: "itree list \<Rightarrow> int list \<Rightarrow> int list option" where
  "postorder_loop [] result = Some result"
| "postorder_loop (\<langle>\<rangle> # st) result = None"
| "postorder_loop (\<langle>l, a, r\<rangle> # st) result = postorder_loop (push_node r (push_node l st)) (result @ [a])"
  by pat_completeness auto
termination by (relation "measure (weight \<circ> fst)") auto

definition postorder_iter :: "itree \<Rightarrow> int list option" where
  "postorder_iter root = (if root = \<langle>\<rangle> then Some [] else map_option rev (postorder_loop [root] []))"

section \<open>Levels\<close>

function bfs_loop :: "itree list \<Rightarrow> int list \<Rightarrow> int list option" where
  "bfs_loop [] vec = Some vec"
| "bfs_loop (\<langle>\<rangle> # q) vec = None"
| "bfs_loop (\<langle>l, a, r\<rangle> # q) vec = bfs_loop (enqueue_node r (enqueue_node l q)) (vec @ [a])"
  by pat_completeness auto
termination by (relation "measure (weight \<circ> fst)") auto

definition print_from_top_to_bottom :: "itree \<Rightarrow> int list option" where
  "print_from_top_to_bottom root = (if root = \<langle>\<rangle> then Some [] else bfs_loop [root] [])"

text \<open>The inner loop: it takes \<open>count\<close> nodes off the queue and appends their children.\<close>

fun level_loop :: "nat \<Rightarrow> itree list \<Rightarrow> int list \<Rightarrow> (itree list \<times> int list) option" where
  "level_loop 0 q level = Some (q, level)"
| "level_loop (Suc count) (\<langle>l, a, r\<rangle> # q) level =
     level_loop count (enqueue_node r (enqueue_node l q)) (level @ [a])"
| "level_loop (Suc count) q level = None"

lemma level_loop_weight:
  "level_loop n q lv = Some (q', lv') \<Longrightarrow> weight q' + n \<le> weight q"
  by (induction n q lv rule: level_loop.induct) auto

function levels_loop :: "itree list \<Rightarrow> int list list \<Rightarrow> int list list option" where
  "levels_loop q res =
     (if q = [] then Some res
      else case level_loop (length q) q [] of
             None \<Rightarrow> None
           | Some (q', level) \<Rightarrow> levels_loop q' (res @ [level]))"
  by pat_completeness auto
termination
proof (relation "measure (weight \<circ> fst)")
  fix q :: "itree list" and res :: "int list list" and x y level
  assume "q \<noteq> []" "level_loop (length q) q [] = Some x" "(y, level) = x"
  then show "((y, res @ [level]), (q, res)) \<in> measure (weight \<circ> fst)"
    using level_loop_weight [of "length q" q "[]" y level] by (cases q) auto
qed simp

declare levels_loop.simps [simp del]

definition level_order :: "itree \<Rightarrow> int list list option" where
  "level_order root = (if root = \<langle>\<rangle> then Some [] else levels_loop [root] [])"

fun max_depth :: "itree \<Rightarrow> nat" where
  "max_depth \<langle>\<rangle> = 0"
| "max_depth \<langle>l, a, r\<rangle> = max (max_depth l) (max_depth r) + 1"

function depth_loop :: "itree list \<Rightarrow> nat \<Rightarrow> nat option" where
  "depth_loop q ans =
     (if q = [] then Some ans
      else case level_loop (length q) q [] of
             None \<Rightarrow> None
           | Some (q', level) \<Rightarrow> depth_loop q' (ans + 1))"
  by pat_completeness auto
termination
proof (relation "measure (weight \<circ> fst)")
  fix q :: "itree list" and ans :: nat and x y level
  assume "q \<noteq> []" "level_loop (length q) q [] = Some x" "(y, level) = x"
  then show "((y, ans + 1), (q, ans)) \<in> measure (weight \<circ> fst)"
    using level_loop_weight [of "length q" q "[]" y level] by (cases q) auto
qed simp

declare depth_loop.simps [simp del]

definition max_depth_iter :: "itree \<Rightarrow> nat option" where
  "max_depth_iter root = (if root = \<langle>\<rangle> then Some 0 else depth_loop [root] 0)"

section \<open>Mirror images and equality\<close>

fun invert_tree :: "itree \<Rightarrow> itree" where
  "invert_tree \<langle>\<rangle> = \<langle>\<rangle>"
| "invert_tree \<langle>l, a, r\<rangle> = \<langle>invert_tree r, a, invert_tree l\<rangle>"

fun compare_trees :: "itree \<Rightarrow> itree \<Rightarrow> bool" where
  "compare_trees \<langle>\<rangle> \<langle>\<rangle> = True"
| "compare_trees \<langle>\<rangle> \<langle>l, a, r\<rangle> = False"
| "compare_trees \<langle>l, a, r\<rangle> \<langle>\<rangle> = False"
| "compare_trees \<langle>l, a, r\<rangle> \<langle>l', b, r'\<rangle> =
     (if a \<noteq> b then False
      else let outside = compare_trees l r'; inside = compare_trees r l' in outside \<and> inside)"

definition is_symmetric :: "itree \<Rightarrow> bool" where
  "is_symmetric root = (case root of \<langle>\<rangle> \<Rightarrow> True | \<langle>l, a, r\<rangle> \<Rightarrow> compare_trees l r)"

function symmetric_loop :: "itree list \<Rightarrow> bool option" where
  "symmetric_loop [] = Some True"
| "symmetric_loop [t] = None"
| "symmetric_loop (\<langle>\<rangle> # \<langle>\<rangle> # q) = symmetric_loop q"
| "symmetric_loop (\<langle>\<rangle> # \<langle>l', b, r'\<rangle> # q) = Some False"
| "symmetric_loop (\<langle>l, a, r\<rangle> # \<langle>\<rangle> # q) = Some False"
| "symmetric_loop (\<langle>l, a, r\<rangle> # \<langle>l', b, r'\<rangle> # q) =
     (if a \<noteq> b then Some False else symmetric_loop (q @ [l, r', r, l']))"
  by pat_completeness auto
termination by (relation "measure (\<lambda>q. sum_list (map (\<lambda>t. 2 * size t + 1) q))") auto

definition is_symmetric_queue :: "itree \<Rightarrow> bool option" where
  "is_symmetric_queue root = (case root of \<langle>\<rangle> \<Rightarrow> Some True | \<langle>l, a, r\<rangle> \<Rightarrow> symmetric_loop [l, r])"

function same_loop :: "itree list \<Rightarrow> itree list \<Rightarrow> bool" where
  "same_loop [] s2 = True"
| "same_loop (t # s1) [] = True"
| "same_loop (\<langle>\<rangle> # s1) (\<langle>\<rangle> # s2) = same_loop s1 s2"
| "same_loop (\<langle>\<rangle> # s1) (\<langle>l', b, r'\<rangle> # s2) = False"
| "same_loop (\<langle>l, a, r\<rangle> # s1) (\<langle>\<rangle> # s2) = False"
| "same_loop (\<langle>l, a, r\<rangle> # s1) (\<langle>l', b, r'\<rangle> # s2) =
     (if a \<noteq> b then False else same_loop (r # l # s1) (r' # l' # s2))"
  by pat_completeness auto
termination by (relation "measure (\<lambda>(s1, s2). sum_list (map (\<lambda>t. 2 * size t + 1) s1))") auto

definition is_same_tree :: "itree \<Rightarrow> itree \<Rightarrow> bool" where
  "is_same_tree p q = (if p = \<langle>\<rangle> \<and> q = \<langle>\<rangle> then True else same_loop [p] [q])"

section \<open>Building a tree from its traversals\<close>

text \<open>\<open>index\<close> maps the values of the in-order sequence to their positions; \<open>index[x]\<close> of a missing value is 0.  Both sequences are read by
  position.  The recursion is bounded by a depth, since the positions come from the table.\<close>

definition seq_at :: "int list \<Rightarrow> int \<Rightarrow> int option" where
  "seq_at xs i = (if 0 \<le> i \<and> i < int (length xs) then Some (xs ! nat i) else None)"

definition index_of :: "int list \<Rightarrow> int \<Rightarrow> int" where
  "index_of ino x = (case map_of (rev (zip ino [0..<length ino])) x of None \<Rightarrow> 0 | Some i \<Rightarrow> int i)"

fun my_build_tree :: "nat \<Rightarrow> (int \<Rightarrow> int) \<Rightarrow> int list \<Rightarrow> int \<Rightarrow> int \<Rightarrow> int \<Rightarrow> int \<Rightarrow> itree option" where
  "my_build_tree 0 ix pre pl pr il ir = None"
| "my_build_tree (Suc d) ix pre pl pr il ir =
     (if pl > pr then Some \<langle>\<rangle>
      else do {
        x \<leftarrow> seq_at pre pl;
        let root = ix x;
        let left_size = root - il;
        l \<leftarrow> my_build_tree d ix pre (pl + 1) (pl + left_size) il (root - 1);
        r \<leftarrow> my_build_tree d ix pre (pl + left_size + 1) pr (root + 1) ir;
        Some \<langle>l, x, r\<rangle>
      })"

definition build_tree :: "nat \<Rightarrow> int list \<Rightarrow> int list \<Rightarrow> itree option" where
  "build_tree d pre ino =
     (if length pre \<le> length ino
      then my_build_tree d (index_of (take (length pre) ino)) pre 0 (int (length pre) - 1) 0 (int (length pre) - 1)
      else None)"

section \<open>Traversals agree\<close>

lemma preorder_traversal_acc: "preorder_traversal t vec = vec @ preorder t"
  by (induction t vec rule: preorder_traversal.induct) auto

lemma inorder_traversal_acc: "inorder_traversal t vec = vec @ inorder t"
  by (induction t vec rule: inorder_traversal.induct) auto

lemma postorder_traversal_acc: "postorder_traversal t vec = vec @ postorder t"
  by (induction t vec rule: postorder_traversal.induct) auto

lemma push_nodes: "concat (map f (push_node t st)) = (if t = \<langle>\<rangle> then [] else f t) @ concat (map f st)"
  by (simp add: push_node_def)

lemma leaf_notin_push: "\<langle>\<rangle> \<notin> set (push_node t st) \<longleftrightarrow> \<langle>\<rangle> \<notin> set st" "\<langle>\<rangle> \<notin> set (enqueue_node t st) \<longleftrightarrow> \<langle>\<rangle> \<notin> set st"
  by (auto simp: push_node_def enqueue_node_def)

lemma preorder_loop_ok: "\<langle>\<rangle> \<notin> set st \<Longrightarrow> preorder_loop st result = Some (result @ concat (map preorder st))"
  by (induction st result rule: preorder_loop.induct) (auto simp: push_nodes leaf_notin_push)

text \<open>Root, right, left: the reverse of the post-order sequence.\<close>

lemma postorder_loop_ok: "\<langle>\<rangle> \<notin> set st \<Longrightarrow> postorder_loop st result = Some (result @ concat (map (rev \<circ> postorder) st))"
  by (induction st result rule: postorder_loop.induct) (auto simp: push_nodes leaf_notin_push)

definition pending :: "itree \<Rightarrow> int list" where
  "pending t = (case t of \<langle>\<rangle> \<Rightarrow> [] | \<langle>l, a, r\<rangle> \<Rightarrow> a # inorder r)"

lemma inorder_loop_ok:
  "\<langle>\<rangle> \<notin> set st \<Longrightarrow> inorder_loop cur st result = Some (result @ inorder cur @ concat (map pending st))"
  by (induction cur st result rule: inorder_loop.induct) (auto simp: pending_def)

text \<open>
  The traversals with an explicit stack return on every tree and list the same values in the same order as the recursive ones.\<close>

theorem traversals_agree:
  "preorder_iter t = Some (preorder_traversal t []) \<and> inorder_iter t = Some (inorder_traversal t []) \<and>
   postorder_iter t = Some (postorder_traversal t [])"
proof -
  have "preorder_iter t = Some (preorder t)" "inorder_iter t = Some (inorder t)" "postorder_iter t = Some (postorder t)"
    by (auto simp: preorder_iter_def inorder_iter_def postorder_iter_def preorder_loop_ok inorder_loop_ok postorder_loop_ok)
  then show ?thesis by (simp add: preorder_traversal_acc inorder_traversal_acc postorder_traversal_acc)
qed

section \<open>Levels\<close>

text \<open>The values at depth \<open>n\<close> of a list of trees, from left to right.\<close>

fun roots :: "itree list \<Rightarrow> int list" where
  "roots [] = []"
| "roots (\<langle>\<rangle> # ts) = roots ts"
| "roots (\<langle>l, a, r\<rangle> # ts) = a # roots ts"

fun children :: "itree list \<Rightarrow> itree list" where
  "children [] = []"
| "children (\<langle>\<rangle> # ts) = children ts"
| "children (\<langle>l, a, r\<rangle> # ts) = filter (\<lambda>t. t \<noteq> \<langle>\<rangle>) [l, r] @ children ts"

fun at_depth :: "nat \<Rightarrow> itree \<Rightarrow> int list" where
  "at_depth n \<langle>\<rangle> = []"
| "at_depth 0 \<langle>l, a, r\<rangle> = [a]"
| "at_depth (Suc n) \<langle>l, a, r\<rangle> = at_depth n l @ at_depth n r"

lemma level_loop_ok:
  "\<langle>\<rangle> \<notin> set ts \<Longrightarrow> level_loop (length ts) (ts @ q) level = Some (q @ children ts, level @ roots ts)"
proof (induction ts arbitrary: q level)
  case (Cons t ts)
  then obtain l a r where t: "t = \<langle>l, a, r\<rangle>" by (cases t) auto
  have "enqueue_node r (enqueue_node l (ts @ q)) = ts @ enqueue_node r (enqueue_node l q)" by (simp add: enqueue_node_def)
  then show ?case using Cons t by (simp add: enqueue_node_def)
qed simp

lemma leaf_notin_children: "\<langle>\<rangle> \<notin> set (children ts)"
  by (induction ts rule: children.induct) auto

definition depth_values :: "nat \<Rightarrow> itree list \<Rightarrow> int list" where
  "depth_values n ts = concat (map (at_depth n) ts)"

lemma depth_values_Suc: "depth_values (Suc n) ts = depth_values n (children ts)"
  by (induction ts rule: children.induct) (auto simp: depth_values_def)

lemma depth_values_0: "depth_values 0 ts = roots ts"
  by (induction ts rule: roots.induct) (auto simp: depth_values_def)

fun forest_height :: "itree list \<Rightarrow> nat" where
  "forest_height [] = 0"
| "forest_height (t # ts) = max (height t) (forest_height ts)"

lemma forest_height_append [simp]: "forest_height (ts @ us) = max (forest_height ts) (forest_height us)"
  by (induction ts) (simp_all add: max.assoc)

lemma forest_height_children: "ts \<noteq> [] \<Longrightarrow> \<langle>\<rangle> \<notin> set ts \<Longrightarrow> forest_height ts = Suc (forest_height (children ts))"
proof (induction ts rule: children.induct)
  case (3 l a r ts)
  have "forest_height (filter (\<lambda>t. t \<noteq> \<langle>\<rangle>) [l, r]) = max (height l) (height r)" by auto
  then show ?case using 3 by (cases "ts = []") (auto simp del: filter.simps)
qed auto

lemma levels_loop_ok:
  "\<langle>\<rangle> \<notin> set ts \<Longrightarrow> levels_loop ts res = Some (res @ map (\<lambda>n. depth_values n ts) [0..<forest_height ts])"
proof (induction "weight ts" arbitrary: ts res rule: less_induct)
  case less
  show ?case
  proof (cases "ts = []")
    case True
    then show ?thesis by (simp add: levels_loop.simps)
  next
    case False
    have one: "level_loop (length ts) ts [] = Some (children ts, roots ts)" using level_loop_ok [of ts "[]" "[]"] less.prems by simp
    have "weight (children ts) < weight ts" using level_loop_weight [OF one] False by (cases ts) auto
    then have "levels_loop (children ts) (res @ [roots ts]) =
        Some ((res @ [roots ts]) @ map (\<lambda>n. depth_values n (children ts)) [0..<forest_height (children ts)])"
      by (rule less.hyps) (rule leaf_notin_children)
    moreover have "[0..<forest_height ts] = 0 # map Suc [0..<forest_height (children ts)]"
      unfolding forest_height_children [OF False less.prems] by (simp add: upt_conv_Cons map_Suc_upt del: upt_Suc)
    ultimately show ?thesis using False one
      by (subst levels_loop.simps) (simp add: depth_values_0 depth_values_Suc comp_def del: upt_Suc)
  qed
qed

lemma depth_loop_ok: "\<langle>\<rangle> \<notin> set ts \<Longrightarrow> depth_loop ts ans = Some (ans + forest_height ts)"
proof (induction "weight ts" arbitrary: ts ans rule: less_induct)
  case less
  show ?case
  proof (cases "ts = []")
    case True
    then show ?thesis by (simp add: depth_loop.simps)
  next
    case False
    have one: "level_loop (length ts) ts [] = Some (children ts, roots ts)" using level_loop_ok [of ts "[]" "[]"] less.prems by simp
    have "weight (children ts) < weight ts" using level_loop_weight [OF one] False by (cases ts) auto
    then have "depth_loop (children ts) (ans + 1) = Some (ans + 1 + forest_height (children ts))"
      by (rule less.hyps) (rule leaf_notin_children)
    then show ?thesis using False one forest_height_children [OF False less.prems] by (subst depth_loop.simps) simp
  qed
qed

lemma bfs_loop_level:
  "\<langle>\<rangle> \<notin> set ts \<Longrightarrow> bfs_loop (ts @ q) vec = bfs_loop (q @ children ts) (vec @ roots ts)"
proof (induction ts arbitrary: q vec)
  case (Cons t ts)
  then obtain l a r where t: "t = \<langle>l, a, r\<rangle>" by (cases t) auto
  have "enqueue_node r (enqueue_node l (ts @ q)) = ts @ enqueue_node r (enqueue_node l q)" by (simp add: enqueue_node_def)
  then show ?case using Cons t by (simp add: enqueue_node_def)
qed simp

lemma bfs_loop_levels:
  "\<langle>\<rangle> \<notin> set ts \<Longrightarrow> levels_loop ts res = Some ls \<Longrightarrow> bfs_loop ts (concat res) = Some (concat ls)"
proof (induction "weight ts" arbitrary: ts res rule: less_induct)
  case less
  show ?case
  proof (cases "ts = []")
    case True
    then show ?thesis using less.prems by (simp add: levels_loop.simps)
  next
    case False
    have one: "level_loop (length ts) ts [] = Some (children ts, roots ts)" using level_loop_ok [of ts "[]" "[]"] less.prems by simp
    have "weight (children ts) < weight ts" using level_loop_weight [OF one] False by (cases ts) auto
    moreover have "levels_loop (children ts) (res @ [roots ts]) = Some ls"
      using less.prems(2) False one by (subst (asm) levels_loop.simps) simp
    ultimately have "bfs_loop (children ts) (concat (res @ [roots ts])) = Some (concat ls)"
      using less.hyps leaf_notin_children by blast
    then show ?thesis using bfs_loop_level [OF less.prems(1), of "[]" "concat res"] by simp
  qed
qed

lemma max_depth_height: "max_depth t = height t"
  by (induction t) auto

text \<open>
  The level order lists, for every depth of the tree, the values at that depth from left to right; the breadth-first listing is
  their concatenation, and the search by levels counts as many levels as the recursive depth.\<close>

theorem levels_correct:
  "level_order t = Some (map (\<lambda>n. at_depth n t) [0..<max_depth t]) \<and>
   print_from_top_to_bottom t = Some (concat (map (\<lambda>n. at_depth n t) [0..<max_depth t])) \<and>
   max_depth_iter t = Some (max_depth t)"
  using levels_loop_ok [of "[t]" "[]"] depth_loop_ok [of "[t]" 0] bfs_loop_levels [of "[t]" "[]"]
  by (cases "t = \<langle>\<rangle>")
    (auto simp: level_order_def max_depth_iter_def print_from_top_to_bottom_def depth_values_def max_depth_height)

section \<open>Mirror images\<close>

lemma compare_trees_mirror: "compare_trees s t \<longleftrightarrow> invert_tree s = t"
  by (induction s t rule: compare_trees.induct) auto

lemma invert_invert [simp]: "invert_tree (invert_tree t) = t"
  by (induction t) auto

text \<open>The queue holds pairs of trees to be compared.\<close>

fun pairs_mirror :: "itree list \<Rightarrow> bool" where
  "pairs_mirror (s # t # q) \<longleftrightarrow> compare_trees s t \<and> pairs_mirror q"
| "pairs_mirror q \<longleftrightarrow> True"

lemma pairs_mirror_append: "even (length q) \<Longrightarrow> pairs_mirror (q @ q') \<longleftrightarrow> pairs_mirror q \<and> pairs_mirror q'"
  by (induction q rule: pairs_mirror.induct) auto

lemma symmetric_loop_ok: "even (length q) \<Longrightarrow> symmetric_loop q = Some (pairs_mirror q)"
  by (induction q rule: symmetric_loop.induct) (auto simp: pairs_mirror_append)

text \<open>
  The recursive test and the one with a queue agree on every tree: both tell whether the tree equals its own mirror image.\<close>

theorem symmetry_tests_agree:
  "is_symmetric_queue t = Some (is_symmetric t) \<and> (is_symmetric t \<longleftrightarrow> invert_tree t = t)"
proof (cases t)
  case (Node l a r)
  have "invert_tree l = r \<longleftrightarrow> invert_tree r = l" by (metis invert_invert)
  then show ?thesis using Node by (auto simp: is_symmetric_queue_def is_symmetric_def symmetric_loop_ok compare_trees_mirror)
qed (simp add: is_symmetric_queue_def is_symmetric_def)

lemma same_loop_ok: "length s1 = length s2 \<Longrightarrow> same_loop s1 s2 \<longleftrightarrow> s1 = s2"
  by (induction s1 s2 rule: same_loop.induct) auto

text \<open>
  The test of two trees with two stacks is equality.\<close>

lemma is_same_tree_correct: "is_same_tree p q \<longleftrightarrow> p = q"
  by (auto simp: is_same_tree_def same_loop_ok)

section \<open>Building is the inverse of traversing\<close>

lemma index_of_nth:
  assumes "distinct xs" and "i < length xs"
  shows "index_of xs (xs ! i) = int i"
proof -
  have "map fst (rev (zip xs [0..<length xs])) = rev xs" by (simp flip: rev_map)
  moreover have "(xs ! i, i) \<in> set (rev (zip xs [0..<length xs]))" using assms(2) by (auto simp: in_set_zip)
  ultimately have "map_of (rev (zip xs [0..<length xs])) (xs ! i) = Some i"
    using assms(1) by (intro map_of_is_SomeI) auto
  then show ?thesis by (simp add: index_of_def)
qed

lemma seq_at_middle: "seq_at (us @ x # vs) (int (length us)) = Some x"
  by (simp add: seq_at_def)

lemma my_build_tree_ok:
  assumes "distinct ino" and "pre = us @ preorder t @ vs" and "ino = xs @ inorder t @ ys" and "height t < d"
  shows "my_build_tree d (index_of ino) pre (int (length us)) (int (length us) + int (size t) - 1)
    (int (length xs)) (int (length xs) + int (size t) - 1) = Some t"
  using assms(2-4)
proof (induction t arbitrary: d us vs xs ys)
  case Leaf
  then show ?case by (cases d) auto
next
  case (Node l a r)
  then obtain d' where d: "d = Suc d'" "height l < d'" "height r < d'" by (cases d) auto
  have x: "seq_at pre (int (length us)) = Some a" using Node.prems(1) seq_at_middle by simp
  have "ino ! (length xs + size l) = a" using Node.prems(2) by (simp add: nth_append length_inorder)
  moreover have "length xs + size l < length ino" using Node.prems(2) by (simp add: length_inorder)
  ultimately have ix: "index_of ino a = int (length xs) + int (size l)" using index_of_nth [OF assms(1)] by fastforce
  have l: "my_build_tree d' (index_of ino) pre (int (length (us @ [a]))) (int (length (us @ [a])) + int (size l) - 1)
      (int (length xs)) (int (length xs) + int (size l) - 1) = Some l"
    by (rule Node.IH(1) [where vs = "preorder r @ vs" and ys = "a # inorder r @ ys"]) (use Node.prems d in auto)
  have r: "my_build_tree d' (index_of ino) pre (int (length (us @ a # preorder l))) (int (length (us @ a # preorder l)) + int (size r) - 1)
      (int (length (xs @ inorder l @ [a]))) (int (length (xs @ inorder l @ [a])) + int (size r) - 1) = Some r"
    by (rule Node.IH(2) [where vs = vs and ys = ys]) (use Node.prems d in auto)
  define p i n where "p = int (length us)" and "i = int (length xs)" and "n = int (size l)"
  have "int (length (us @ [a])) = p + 1" "p + 1 + n - 1 = p + (i + n - i)" by (simp_all add: p_def)
  then have l': "my_build_tree d' (index_of ino) pre (p + 1) (p + (i + n - i)) i (i + n - 1) = Some l"
    using l unfolding i_def [symmetric] n_def [symmetric] by (simp only:)
  have "int (length (us @ a # preorder l)) = p + (i + n - i) + 1" "int (length (xs @ inorder l @ [a])) = i + n + 1"
    by (simp_all add: p_def i_def n_def length_preorder length_inorder)
  moreover have "p + (i + n - i) + 1 + int (size r) - 1 = p + int (size \<langle>l, a, r\<rangle>) - 1"
    "i + n + 1 + int (size r) - 1 = i + int (size \<langle>l, a, r\<rangle>) - 1" by (simp_all add: n_def)
  ultimately have r': "my_build_tree d' (index_of ino) pre (p + (i + n - i) + 1) (p + int (size \<langle>l, a, r\<rangle>) - 1)
      (i + n + 1) (i + int (size \<langle>l, a, r\<rangle>) - 1) = Some r" using r by (simp only:)
  have "\<not> p > p + int (size \<langle>l, a, r\<rangle>) - 1" by simp
  moreover have "seq_at pre p = Some a" "index_of ino a = i + n" using x ix by (simp_all add: p_def i_def n_def)
  ultimately show ?case unfolding d(1) p_def [symmetric] i_def [symmetric]
    by (simp only: my_build_tree.simps if_False bind.bind_lunit Let_def l' r')
qed

text \<open>
  C37: A tree with distinct values is rebuilt from its pre-order and in-order sequences.  A recursion depth of one more than the number of its
  nodes is enough.\<close>

theorem build_tree_roundtrip:
  assumes "distinct (inorder_traversal t [])"
  shows "build_tree (Suc (size t)) (preorder_traversal t []) (inorder_traversal t []) = Some t"
proof -
  have "height t < Suc (size t)" using height_le_size_tree [of t] by simp
  then show ?thesis using my_build_tree_ok [of "inorder t" "preorder t" "[]" t "[]" "[]" "[]" "Suc (size t)"] assms
    by (simp add: build_tree_def preorder_traversal_acc inorder_traversal_acc length_preorder length_inorder del: my_build_tree.simps)
qed

theorem build_tree_roundtrip_witness:
  "\<exists>l. build_tree 4 [5, 9, 7] [5, 7, 9] = Some \<langle>\<langle>\<rangle>, 5, l\<rangle>"
  using build_tree_roundtrip [of "Node Leaf 5 (Node (Node Leaf 7 Leaf) 9 Leaf)"]
  by (simp add: eval_nat_numeral del: my_build_tree.simps)

end
