(* ===== verification/StringClass.thy ===== *)
theory StringClass
  imports Prelude
begin

text \<open>
  The class \<open>String\<close> of \<open>find_job/look_for_job.cpp\<close>: a string that owns a heap block, with copying, moving, assignment and
  destruction.  The store holds the live blocks, each with its characters, and the variables of type \<open>String\<close>.  The member \<open>end\<close> is
  kept as its distance from \<open>elements\<close>; both are null after a move.  Reading or releasing a block that is not live, releasing it
  with another size than it was allocated with, and reading behind the end of a block are \<^const>\<open>None\<close>.
\<close>

section \<open>The class\<close>

record str_obj =
  s_elements :: "nat option"
  s_extent :: nat

record str_store =
  st_blocks :: "nat \<Rightarrow> string option"
  st_fresh :: nat
  st_vars :: "nat \<Rightarrow> str_obj option"

definition nul :: char where
  "nul = CHR 0x00"

text \<open>The loop \<open>while (*s1) ++s1\<close>: the distance of the terminator, if it comes before the end of the memory.\<close>

fun cstr_scan :: "string \<Rightarrow> nat option" where
  "cstr_scan [] = None"
| "cstr_scan (c # cs) = (if c = nul then Some 0 else map_option Suc (cstr_scan cs))"

text \<open>The characters of the range \<open>[elements, end)\<close>; the range of null pointers is empty.\<close>

definition str_range :: "str_obj \<Rightarrow> str_store \<Rightarrow> string option" where
  "str_range x s =
     (case s_elements x of
        None \<Rightarrow> Some []
      | Some b \<Rightarrow> (case st_blocks s b of
                    None \<Rightarrow> None
                  | Some cs \<Rightarrow> if s_extent x \<le> length cs then Some (take (s_extent x) cs) else None))"

definition alloc_n_copy :: "string \<Rightarrow> str_store \<Rightarrow> str_obj \<times> str_store" where
  "alloc_n_copy cs s =
     (\<lparr>s_elements = Some (st_fresh s), s_extent = length cs\<rparr>,
      s\<lparr>st_blocks := (st_blocks s)(st_fresh s \<mapsto> cs), st_fresh := Suc (st_fresh s)\<rparr>)"

definition set_var :: "nat \<Rightarrow> str_obj option \<Rightarrow> str_store \<Rightarrow> str_store" where
  "set_var v x s = s\<lparr>st_vars := (st_vars s)(v := x)\<rparr>"

definition range_initializer :: "nat \<Rightarrow> string \<Rightarrow> str_store \<Rightarrow> str_store" where
  "range_initializer v cs s = (let (newstr, s1) = alloc_n_copy cs s in set_var v (Some newstr) s1)"

definition str_free :: "str_obj \<Rightarrow> str_store \<Rightarrow> str_store option" where
  "str_free x s =
     (case s_elements x of
        None \<Rightarrow> Some s
      | Some b \<Rightarrow> (case st_blocks s b of
                    None \<Rightarrow> None
                  | Some cs \<Rightarrow> if length cs = s_extent x then Some (s\<lparr>st_blocks := (st_blocks s)(b := None)\<rparr>) else None))"

text \<open>The constructors.  The memory behind the argument of the first one is the list \<open>mem\<close>.\<close>

definition str_construct :: "nat \<Rightarrow> string \<Rightarrow> str_store \<Rightarrow> str_store option" where
  "str_construct v mem s = map_option (\<lambda>n. range_initializer v (take (Suc n) mem) s) (cstr_scan mem)"

definition str_default :: "nat \<Rightarrow> str_store \<Rightarrow> str_store option" where
  "str_default v s = str_construct v [nul] s"

definition str_copy :: "nat \<Rightarrow> nat \<Rightarrow> str_store \<Rightarrow> str_store option" where
  "str_copy v rhs s =
     (case st_vars s rhs of
        None \<Rightarrow> None
      | Some y \<Rightarrow> map_option (\<lambda>cs. range_initializer v cs s) (str_range y s))"

definition null_obj :: str_obj where
  "null_obj = \<lparr>s_elements = None, s_extent = 0\<rparr>"

definition str_move :: "nat \<Rightarrow> nat \<Rightarrow> str_store \<Rightarrow> str_store option" where
  "str_move v rhs s = map_option (\<lambda>y. set_var rhs (Some null_obj) (set_var v (Some y) s)) (st_vars s rhs)"

definition str_assign :: "nat \<Rightarrow> nat \<Rightarrow> str_store \<Rightarrow> str_store option" where
  "str_assign v rhs s =
     (case (st_vars s v, st_vars s rhs) of
        (Some x, Some y) \<Rightarrow>
          (case str_range y s of
             None \<Rightarrow> None
           | Some cs \<Rightarrow> (let (newstr, s1) = alloc_n_copy cs s in map_option (set_var v (Some newstr)) (str_free x s1)))
      | _ \<Rightarrow> None)"

definition str_move_assign :: "nat \<Rightarrow> nat \<Rightarrow> str_store \<Rightarrow> str_store option" where
  "str_move_assign v rhs s =
     (case (st_vars s v, st_vars s rhs) of
        (Some x, Some y) \<Rightarrow>
          if v \<noteq> rhs
          then map_option (\<lambda>s1. set_var rhs (Some null_obj) (set_var v (Some y) s1)) (str_free x s)
          else Some s
      | _ \<Rightarrow> None)"

definition str_destroy :: "nat \<Rightarrow> str_store \<Rightarrow> str_store option" where
  "str_destroy v s = (case st_vars s v of None \<Rightarrow> None | Some x \<Rightarrow> map_option (set_var v None) (str_free x s))"

text \<open>The observers.  The text is what a reader of \<open>c_str()\<close> sees: the characters in front of the terminator.\<close>

definition str_c_str :: "nat \<Rightarrow> str_store \<Rightarrow> nat option" where
  "str_c_str v s = (case st_vars s v of None \<Rightarrow> None | Some x \<Rightarrow> s_elements x)"

definition str_text :: "nat \<Rightarrow> str_store \<Rightarrow> string option" where
  "str_text v s =
     (case str_c_str v s of
        None \<Rightarrow> None
      | Some b \<Rightarrow> (case st_blocks s b of None \<Rightarrow> None | Some cs \<Rightarrow> map_option (\<lambda>n. take n cs) (cstr_scan cs)))"

definition str_size :: "nat \<Rightarrow> str_store \<Rightarrow> nat option" where
  "str_size v s = map_option s_extent (st_vars s v)"

definition str_length :: "nat \<Rightarrow> str_store \<Rightarrow> nat option" where
  "str_length v s = map_option (\<lambda>x. s_extent x + 1) (st_vars s v)"

definition str_empty :: str_store where
  "str_empty = \<lparr>st_blocks = (\<lambda>_. None), st_fresh = 0, st_vars = (\<lambda>_. None)\<rparr>"

section \<open>Runs and their specification\<close>

datatype str_op =
    SDefault nat | SFrom nat string | SCopyOf nat nat | SMoveOf nat nat | SAssignTo nat nat | SMoveTo nat nat | SDestroy nat
  | SText nat | SSize nat | SLength nat

datatype str_ans = Done | Text string | Number nat

definition finished :: "str_store option \<Rightarrow> (str_ans \<times> str_store) option" where
  "finished = map_option (Pair Done)"

fun str_step :: "str_op \<Rightarrow> str_store \<Rightarrow> (str_ans \<times> str_store) option" where
  "str_step (SDefault v) s = finished (str_default v s)"
| "str_step (SFrom v mem) s = finished (str_construct v mem s)"
| "str_step (SCopyOf v u) s = finished (str_copy v u s)"
| "str_step (SMoveOf v u) s = finished (str_move v u s)"
| "str_step (SAssignTo v u) s = finished (str_assign v u s)"
| "str_step (SMoveTo v u) s = finished (str_move_assign v u s)"
| "str_step (SDestroy v) s = finished (str_destroy v s)"
| "str_step (SText v) s = map_option (\<lambda>t. (Text t, s)) (str_text v s)"
| "str_step (SSize v) s = map_option (\<lambda>n. (Number n, s)) (str_size v s)"
| "str_step (SLength v) s = map_option (\<lambda>n. (Number n, s)) (str_length v s)"

text \<open>
  The specification knows no memory: a variable has the characters it was given, the terminator among them, or was moved from.
  A copy of a string that was moved from has no characters, not even a terminator.
\<close>

datatype str_val = Moved | Chars string

fun copy_val :: "str_val \<Rightarrow> str_val" where
  "copy_val Moved = Chars []"
| "copy_val (Chars cs) = Chars cs"

fun val_extent :: "str_val \<Rightarrow> nat" where
  "val_extent Moved = 0"
| "val_extent (Chars cs) = length cs"

fun val_text :: "str_val \<Rightarrow> string" where
  "val_text Moved = []"
| "val_text (Chars cs) = takeWhile (\<lambda>c. c \<noteq> nul) cs"

fun str_spec :: "str_op \<Rightarrow> (nat \<Rightarrow> str_val option) \<Rightarrow> str_ans \<times> (nat \<Rightarrow> str_val option)" where
  "str_spec (SDefault v) a = (Done, a(v \<mapsto> Chars [nul]))"
| "str_spec (SFrom v mem) a = (Done, a(v \<mapsto> Chars (takeWhile (\<lambda>c. c \<noteq> nul) mem @ [nul])))"
| "str_spec (SCopyOf v u) a = (Done, a(v \<mapsto> copy_val (the (a u))))"
| "str_spec (SMoveOf v u) a = (Done, a(v := a u, u \<mapsto> Moved))"
| "str_spec (SAssignTo v u) a = (Done, a(v \<mapsto> copy_val (the (a u))))"
| "str_spec (SMoveTo v u) a = (Done, if v = u then a else a(v := a u, u \<mapsto> Moved))"
| "str_spec (SDestroy v) a = (Done, a(v := None))"
| "str_spec (SText v) a = (Text (val_text (the (a v))), a)"
| "str_spec (SSize v) a = (Number (val_extent (the (a v))), a)"
| "str_spec (SLength v) a = (Number (val_extent (the (a v)) + 1), a)"

text \<open>
  What the language guarantees: a variable is constructed once before it is used.  The constructor needs a terminator
  in the memory it reads, and so does a reader of the text.
\<close>

fun str_legal :: "str_op \<Rightarrow> (nat \<Rightarrow> str_val option) \<Rightarrow> bool" where
  "str_legal (SDefault v) a \<longleftrightarrow> a v = None"
| "str_legal (SFrom v mem) a \<longleftrightarrow> a v = None \<and> nul \<in> set mem"
| "str_legal (SCopyOf v u) a \<longleftrightarrow> a v = None \<and> a u \<noteq> None"
| "str_legal (SMoveOf v u) a \<longleftrightarrow> a v = None \<and> a u \<noteq> None"
| "str_legal (SAssignTo v u) a \<longleftrightarrow> a v \<noteq> None \<and> a u \<noteq> None"
| "str_legal (SMoveTo v u) a \<longleftrightarrow> a v \<noteq> None \<and> a u \<noteq> None"
| "str_legal (SDestroy v) a \<longleftrightarrow> a v \<noteq> None"
| "str_legal (SText v) a \<longleftrightarrow> (case a v of Some (Chars cs) \<Rightarrow> nul \<in> set cs | _ \<Rightarrow> False)"
| "str_legal (SSize v) a \<longleftrightarrow> a v \<noteq> None"
| "str_legal (SLength v) a \<longleftrightarrow> a v \<noteq> None"

section \<open>Ownership\<close>

lemma null_obj_simps [simp]: "s_elements null_obj = None" "s_extent null_obj = 0"
  by (simp_all add: null_obj_def)

definition owned :: "str_store \<Rightarrow> nat \<Rightarrow> nat option" where
  "owned s v = (case st_vars s v of None \<Rightarrow> None | Some x \<Rightarrow> s_elements x)"

text \<open>Every variable with a block owns it alone, every live block is owned, and its size is the one the variable knows.\<close>

definition str_inv :: "str_store \<Rightarrow> bool" where
  "str_inv s \<longleftrightarrow>
     (\<forall>v w b. owned s v = Some b \<and> owned s w = Some b \<longrightarrow> v = w) \<and>
     dom (st_blocks s) = {b. \<exists>v. owned s v = Some b} \<and>
     (\<forall>b\<in>dom (st_blocks s). b < st_fresh s)"

definition obj_val :: "str_store \<Rightarrow> str_obj \<Rightarrow> str_val option" where
  "obj_val s x =
     (case s_elements x of
        None \<Rightarrow> if s_extent x = 0 then Some Moved else None
      | Some b \<Rightarrow> (case st_blocks s b of
                    None \<Rightarrow> None | Some cs \<Rightarrow> if length cs = s_extent x then Some (Chars cs) else None))"

definition str_rel :: "str_store \<Rightarrow> (nat \<Rightarrow> str_val option) \<Rightarrow> bool" where
  "str_rel s a \<longleftrightarrow> str_inv s \<and> (\<forall>x\<in>ran (st_vars s). obj_val s x \<noteq> None) \<and> a = (\<lambda>v. Option.bind (st_vars s v) (obj_val s))"

lemma str_relI:
  assumes "str_inv s" and "\<And>v. st_vars s v = None \<Longrightarrow> a v = None"
    and "\<And>v x. st_vars s v = Some x \<Longrightarrow> obj_val s x = a v \<and> a v \<noteq> None"
  shows "str_rel s a"
proof -
  have "a v = Option.bind (st_vars s v) (obj_val s)" for v
    using assms(2) [of v] assms(3) [of v] by (cases "st_vars s v") auto
  then show ?thesis using assms(1,3) by (fastforce simp: str_rel_def ran_def)
qed

lemma str_relD:
  assumes "str_rel s a"
  shows "str_inv s" and "st_vars s v = Some x \<Longrightarrow> obj_val s x = a v \<and> a v \<noteq> None" and "st_vars s v = None \<longleftrightarrow> a v = None"
  using assms by (cases "st_vars s v"; fastforce simp: str_rel_def ran_def)+

lemma rel_live: "str_rel s a \<Longrightarrow> a v \<noteq> None \<Longrightarrow> \<exists>x. st_vars s v = Some x"
  using str_relD(3) [of s a v] by auto

lemma rel_no_owner: "str_rel s a \<Longrightarrow> a v = None \<or> a v = Some Moved \<Longrightarrow> owned s v = None"
  using str_relD(3) [of s a v] str_relD(2) [of s a v]
  by (cases "st_vars s v") (auto simp: owned_def obj_val_def split: option.splits if_splits)

lemma cstr_scan_terminated:
  "nul \<in> set mem \<Longrightarrow> \<exists>n. cstr_scan mem = Some n \<and> take n mem = takeWhile (\<lambda>c. c \<noteq> nul) mem \<and>
     take (Suc n) mem = takeWhile (\<lambda>c. c \<noteq> nul) mem @ [nul]"
  by (induction mem) auto

lemma str_range_val:
  "str_rel s a \<Longrightarrow> st_vars s v = Some x \<Longrightarrow> \<exists>cs. str_range x s = Some cs \<and> copy_val (the (a v)) = Chars cs"
  using str_relD(2) [of s a v x]
  by (auto simp: obj_val_def str_range_def split: option.splits if_splits)

text \<open>The four changes of the store the operations are made of: a new block, a released block, a block handed over, a variable gone.\<close>

lemma give_block:
  assumes rel: "str_rel s a" and v: "owned s v = None"
  shows "str_rel (range_initializer v cs s) (a(v \<mapsto> Chars cs))"
proof -
  let ?b = "st_fresh s" let ?s = "range_initializer v cs s"
  have inv: "str_inv s" by (rule str_relD(1) [OF rel])
  have s: "st_blocks ?s = (st_blocks s)(?b \<mapsto> cs)" "st_fresh ?s = Suc ?b"
      "st_vars ?s = (st_vars s)(v \<mapsto> \<lparr>s_elements = Some ?b, s_extent = length cs\<rparr>)"
    by (simp_all add: range_initializer_def alloc_n_copy_def set_var_def)
  have own: "owned ?s w = (if w = v then Some ?b else owned s w)" for w by (simp add: owned_def s)
  have new: "owned s w \<noteq> Some ?b" for w using inv unfolding str_inv_def by blast
  have blocks: "(\<exists>w. owned ?s w = Some c) \<longleftrightarrow> c = ?b \<or> (\<exists>w. owned s w = Some c)" for c
    unfolding own using v by (metis option.distinct(1) option.inject)
  have "\<forall>w1 w2 c. owned ?s w1 = Some c \<and> owned ?s w2 = Some c \<longrightarrow> w1 = w2"
    using inv new unfolding str_inv_def own by (metis option.inject)
  moreover have "dom (st_blocks ?s) = {c. \<exists>w. owned ?s w = Some c}" "\<forall>c\<in>dom (st_blocks ?s). c < st_fresh ?s"
    using inv unfolding str_inv_def blocks s by (auto simp: less_Suc_eq)
  ultimately have "str_inv ?s" by (simp add: str_inv_def)
  moreover have "obj_val ?s x = obj_val s x" if "st_vars s w = Some x" for w x
    using new [of w] that by (auto simp: obj_val_def s owned_def split: option.splits)
  moreover have "obj_val ?s \<lparr>s_elements = Some ?b, s_extent = length cs\<rparr> = Some (Chars cs)" by (simp add: obj_val_def s)
  ultimately show ?thesis using str_relD(2,3) [OF rel] by (intro str_relI) (auto simp: s split: if_splits)
qed

lemma free_block:
  assumes rel: "str_rel s a" and v: "st_vars s v = Some x"
  shows "\<exists>bl. str_free x s = Some (s\<lparr>st_blocks := bl\<rparr>) \<and> str_rel (set_var v (Some null_obj) (s\<lparr>st_blocks := bl\<rparr>)) (a(v \<mapsto> Moved))"
proof (cases "s_elements x")
  case None
  then have "x = null_obj" using str_relD(2) [OF rel v] by (cases x) (auto simp: obj_val_def null_obj_def split: if_splits)
  then have "str_rel (set_var v (Some null_obj) s) (a(v \<mapsto> Moved))"
    using rel v str_relD(2) [OF rel v] by (simp add: set_var_def fun_upd_idem obj_val_def)
  moreover have "s\<lparr>st_blocks := st_blocks s\<rparr> = s" by simp
  ultimately show ?thesis using None by (intro exI [of _ "st_blocks s"]) (simp add: str_free_def)
next
  case (Some b)
  let ?s = "set_var v (Some null_obj) (s\<lparr>st_blocks := (st_blocks s)(b := None)\<rparr>)"
  have inv: "str_inv s" by (rule str_relD(1) [OF rel])
  obtain cs where cs: "st_blocks s b = Some cs" "length cs = s_extent x"
    using str_relD(2) [OF rel v] Some by (auto simp: obj_val_def split: option.splits if_splits)
  have s: "st_blocks ?s = (st_blocks s)(b := None)" "st_fresh ?s = st_fresh s" "st_vars ?s = (st_vars s)(v \<mapsto> null_obj)"
    by (simp_all add: set_var_def)
  have own: "owned ?s w = (if w = v then None else owned s w)" for w by (simp add: owned_def s)
  have vb: "owned s v = Some b" using v Some by (simp add: owned_def)
  have other: "owned s w \<noteq> Some b" if "w \<noteq> v" for w using inv vb that unfolding str_inv_def by blast
  have blocks: "(\<exists>w. owned ?s w = Some c) \<longleftrightarrow> c \<noteq> b \<and> (\<exists>w. owned s w = Some c)" for c
    unfolding own using vb other by (metis option.distinct(1) option.inject)
  have "dom (st_blocks ?s) = {c. \<exists>w. owned ?s w = Some c}"
    using inv unfolding str_inv_def blocks s by auto
  then have "str_inv ?s" using inv unfolding str_inv_def own s by (auto split: if_splits)
  moreover have "obj_val ?s y = obj_val s y" if "st_vars s w = Some y" "w \<noteq> v" for w y
    using other [OF that(2)] that(1) by (auto simp: obj_val_def s owned_def split: option.splits)
  moreover have "obj_val ?s null_obj = Some Moved" by (simp add: obj_val_def)
  ultimately have "str_rel ?s (a(v \<mapsto> Moved))" using str_relD(2,3) [OF rel] by (intro str_relI) (auto simp: s split: if_splits)
  moreover have "str_free x s = Some (s\<lparr>st_blocks := (st_blocks s)(b := None)\<rparr>)" using Some cs by (simp add: str_free_def)
  ultimately show ?thesis by blast
qed

lemma hand_over:
  assumes rel: "str_rel s a" and v: "owned s v = None" and u: "st_vars s u = Some y" and "u \<noteq> v"
  shows "str_rel (set_var u (Some null_obj) (set_var v (Some y) s)) (a(v := a u, u \<mapsto> Moved))"
proof -
  let ?s = "set_var u (Some null_obj) (set_var v (Some y) s)"
  have inv: "str_inv s" by (rule str_relD(1) [OF rel])
  have s: "st_blocks ?s = st_blocks s" "st_fresh ?s = st_fresh s" "st_vars ?s = (st_vars s)(v \<mapsto> y, u \<mapsto> null_obj)"
    by (simp_all add: set_var_def)
  have own: "owned ?s w = (if w = u then None else if w = v then owned s u else owned s w)" for w
    using u by (simp add: owned_def s)
  have swap: "(\<exists>w. owned ?s w = Some b) \<longleftrightarrow> (\<exists>w. owned s w = Some b)" for b
    unfolding own using v assms(4) by (metis option.distinct(1))
  have "str_inv ?s" unfolding str_inv_def s swap using inv v
    unfolding str_inv_def own by (simp split: if_splits) (metis option.distinct(1))
  moreover have "obj_val ?s z = obj_val s z" for z by (simp add: obj_val_def s cong: option.case_cong)
  moreover have "obj_val s null_obj = Some Moved" by (simp add: obj_val_def)
  ultimately show ?thesis using str_relD(2,3) [OF rel] u by (intro str_relI) (auto simp: s split: if_splits)
qed

lemma forget_var:
  assumes rel: "str_rel s a" and v: "owned s v = None"
  shows "str_rel (set_var v None s) (a(v := None))"
proof -
  let ?s = "set_var v None s"
  have s: "st_blocks ?s = st_blocks s" "st_fresh ?s = st_fresh s" "st_vars ?s = (st_vars s)(v := None)"
    by (simp_all add: set_var_def)
  have own: "owned ?s w = owned s w" for w using v by (cases "w = v") (simp_all add: owned_def s)
  have "str_inv ?s" using str_relD(1) [OF rel] unfolding str_inv_def own s .
  moreover have "obj_val ?s z = obj_val s z" for z by (simp add: obj_val_def s cong: option.case_cong)
  ultimately show ?thesis using str_relD(2,3) [OF rel] by (intro str_relI) (auto simp: s split: if_splits)
qed

section \<open>The operations\<close>

lemma construct_sim:
  assumes rel: "str_rel s a" and v: "a v = None" and mem: "nul \<in> set mem"
  shows "\<exists>s'. str_construct v mem s = Some s' \<and> str_rel s' (a(v \<mapsto> Chars (takeWhile (\<lambda>c. c \<noteq> nul) mem @ [nul])))"
  using cstr_scan_terminated [OF mem] give_block [OF rel] rel_no_owner [OF rel] v by (auto simp: str_construct_def)

lemma copy_sim:
  assumes rel: "str_rel s a" and v: "a v = None" and u: "a u \<noteq> None"
  shows "\<exists>s'. str_copy v u s = Some s' \<and> str_rel s' (a(v \<mapsto> copy_val (the (a u))))"
proof -
  obtain y where y: "st_vars s u = Some y" using rel_live [OF rel u] by blast
  obtain cs where "str_range y s = Some cs" "copy_val (the (a u)) = Chars cs" using str_range_val [OF rel y] by blast
  then show ?thesis using y give_block [OF rel rel_no_owner [OF rel]] v by (simp add: str_copy_def)
qed

lemma move_sim:
  assumes rel: "str_rel s a" and v: "a v = None" and u: "a u \<noteq> None"
  shows "\<exists>s'. str_move v u s = Some s' \<and> str_rel s' (a(v := a u, u \<mapsto> Moved))"
proof -
  obtain y where "st_vars s u = Some y" using rel_live [OF rel u] by blast
  moreover have "u \<noteq> v" using v u by auto
  ultimately show ?thesis using hand_over [OF rel rel_no_owner [OF rel], of v u] v by (simp add: str_move_def)
qed

text \<open>Copy assignment reads its source before it frees the target, so that assigning a string to itself is safe.\<close>

lemma assign_sim:
  assumes rel: "str_rel s a" and v: "a v \<noteq> None" and u: "a u \<noteq> None"
  shows "\<exists>s'. str_assign v u s = Some s' \<and> str_rel s' (a(v \<mapsto> copy_val (the (a u))))"
proof -
  obtain x y where x: "st_vars s v = Some x" and y: "st_vars s u = Some y" using rel_live [OF rel] v u by blast
  obtain cs where cs: "str_range y s = Some cs" "copy_val (the (a u)) = Chars cs" using str_range_val [OF rel y] by blast
  obtain bl where bl: "str_free x s = Some (s\<lparr>st_blocks := bl\<rparr>)"
      "str_rel (set_var v (Some null_obj) (s\<lparr>st_blocks := bl\<rparr>)) (a(v \<mapsto> Moved))"
    using free_block [OF rel x] by blast
  have "str_rel (range_initializer v cs (set_var v (Some null_obj) (s\<lparr>st_blocks := bl\<rparr>))) (a(v \<mapsto> Chars cs))"
    using give_block [OF bl(2) rel_no_owner [OF bl(2)], of v cs] by simp
  moreover have "map_option (set_var v (Some (fst (alloc_n_copy cs s)))) (str_free x (snd (alloc_n_copy cs s))) =
      Some (range_initializer v cs (set_var v (Some null_obj) (s\<lparr>st_blocks := bl\<rparr>)))"
  proof (cases "s_elements x")
    case None
    then have "bl = st_blocks s" using bl(1) by (cases s) (simp add: str_free_def)
    then show ?thesis using None by (simp add: str_free_def alloc_n_copy_def range_initializer_def set_var_def)
  next
    case (Some b)
    then have "owned s v = Some b" using x by (simp add: owned_def)
    then have "b < st_fresh s" using str_relD(1) [OF rel] unfolding str_inv_def by blast
    then show ?thesis using bl(1) Some
      by (cases s) (auto simp: str_free_def alloc_n_copy_def range_initializer_def set_var_def fun_upd_twist split: option.splits if_splits)
  qed
  ultimately show ?thesis using x y cs by (auto simp: str_assign_def split_beta)
qed

lemma move_assign_sim:
  assumes rel: "str_rel s a" and v: "a v \<noteq> None" and u: "a u \<noteq> None"
  shows "\<exists>s'. str_move_assign v u s = Some s' \<and> str_rel s' (if v = u then a else a(v := a u, u \<mapsto> Moved))"
proof (cases "v = u")
  case True
  then show ?thesis using rel_live [OF rel u] rel by (auto simp: str_move_assign_def)
next
  case False
  obtain x y where x: "st_vars s v = Some x" and y: "st_vars s u = Some y" using rel_live [OF rel] v u by blast
  obtain bl where bl: "str_free x s = Some (s\<lparr>st_blocks := bl\<rparr>)"
      "str_rel (set_var v (Some null_obj) (s\<lparr>st_blocks := bl\<rparr>)) (a(v \<mapsto> Moved))"
    using free_block [OF rel x] by blast
  have "st_vars (set_var v (Some null_obj) (s\<lparr>st_blocks := bl\<rparr>)) u = Some y" using y False by (simp add: set_var_def)
  from hand_over [OF bl(2) rel_no_owner [OF bl(2)] this, of v] False
  have "str_rel (set_var u (Some null_obj) (set_var v (Some y) (s\<lparr>st_blocks := bl\<rparr>))) (a(v := a u, u \<mapsto> Moved))"
    by (simp add: set_var_def fun_upd_twist)
  then show ?thesis using x y bl(1) False by (simp add: str_move_assign_def)
qed

lemma destroy_sim:
  assumes rel: "str_rel s a" and v: "a v \<noteq> None"
  shows "\<exists>s'. str_destroy v s = Some s' \<and> str_rel s' (a(v := None))"
proof -
  obtain x where x: "st_vars s v = Some x" using rel_live [OF rel v] by blast
  obtain bl where bl: "str_free x s = Some (s\<lparr>st_blocks := bl\<rparr>)"
      "str_rel (set_var v (Some null_obj) (s\<lparr>st_blocks := bl\<rparr>)) (a(v \<mapsto> Moved))"
    using free_block [OF rel x] by blast
  have "str_rel (set_var v None (s\<lparr>st_blocks := bl\<rparr>)) (a(v := None))"
    using forget_var [OF bl(2) rel_no_owner [OF bl(2)], of v] by (simp add: set_var_def)
  then show ?thesis using x bl(1) by (simp add: str_destroy_def)
qed

lemma observers_sim:
  assumes rel: "str_rel s a" and x: "a v = Some w"
  shows "str_size v s = Some (val_extent w)" "str_length v s = Some (val_extent w + 1)"
    and "w = Chars cs \<Longrightarrow> nul \<in> set cs \<Longrightarrow> str_text v s = Some (val_text w)"
proof -
  obtain y where y: "st_vars s v = Some y" using rel_live [OF rel] x by fast
  have val: "obj_val s y = Some w" using str_relD(2) [OF rel y] x by simp
  then show "str_size v s = Some (val_extent w)" "str_length v s = Some (val_extent w + 1)"
    using y by (auto simp: str_size_def str_length_def obj_val_def split: option.splits if_splits)
  show "str_text v s = Some (val_text w)" if "w = Chars cs" "nul \<in> set cs"
    using val y that cstr_scan_terminated [of cs]
    by (auto simp: str_text_def str_c_str_def obj_val_def split: option.splits if_splits)
qed

interpretation str: op_simulation str_rel str_step str_spec str_legal
proof
  fix x s a
  assume l: "str_legal x a" and rel: "str_rel s a"
  show "\<exists>s'. str_step x s = Some (fst (str_spec x a), s') \<and> str_rel s' (snd (str_spec x a))"
  proof (cases x)
    case (SDefault v)
    then show ?thesis using construct_sim [OF rel, of v "[nul]"] l by (auto simp: str_default_def finished_def)
  next
    case (SText v)
    then obtain cs where "a v = Some (Chars cs)" "nul \<in> set cs" using l by (auto split: option.splits str_val.splits)
    then show ?thesis using SText observers_sim(3) [OF rel] rel by auto
  qed (use l rel observers_sim(1,2) [OF rel] construct_sim [OF rel] copy_sim [OF rel] move_sim [OF rel] assign_sim [OF rel]
         move_assign_sim [OF rel] destroy_sim [OF rel] in \<open>auto simp: finished_def\<close>)
qed

text \<open>
  C17: Every sequence of constructions, copies, moves, assignments, destructions and reads that constructs variables before it uses
  them and reads only terminated texts runs without touching a block that is not live: none is read after it was released, released
  twice, or released with a wrong size.  The answers are those of strings as values, so no operation changes another
  variable, and afterwards the live blocks are exactly those of the live variables, one each: nothing is leaked.\<close>

theorem string_class_safe:
  assumes "run_legal str_spec str_legal ops (\<lambda>_. None)"
  shows "\<exists>s. run_machine str_step ops str_empty = Some (fst (run_spec str_spec ops (\<lambda>_. None)), s) \<and>
    (\<forall>v. st_vars s v = None \<longleftrightarrow> snd (run_spec str_spec ops (\<lambda>_. None)) v = None) \<and>
    dom (st_blocks s) = {b. \<exists>v. owned s v = Some b} \<and>
    (\<forall>v w b. owned s v = Some b \<and> owned s w = Some b \<longrightarrow> v = w)"
proof -
  have "str_rel str_empty (\<lambda>_. None)" by (rule str_relI) (simp_all add: str_empty_def str_inv_def owned_def)
  from str.run_sim [OF assms this] show ?thesis using str_relD(1,3) unfolding str_inv_def by blast
qed

theorem string_class_safe_witness:
  "\<exists>s. run_machine str_step
      [SFrom 0 (''hello'' @ [nul]), SDefault 1, SCopyOf 2 0, SAssignTo 0 0, SMoveTo 1 0, SAssignTo 2 1, SText 2, SSize 1, SLength 0,
       SDestroy 0, SDestroy 1, SDestroy 2] str_empty =
      Some ([Done, Done, Done, Done, Done, Done, Text ''hello'', Number 6, Number 1, Done, Done, Done], s) \<and>
    dom (st_blocks s) = {b. \<exists>v. owned s v = Some b}"
  using string_class_safe [of "[SFrom 0 (''hello'' @ [nul]), SDefault 1, SCopyOf 2 0, SAssignTo 0 0, SMoveTo 1 0, SAssignTo 2 1, SText 2, SSize 1,
       SLength 0, SDestroy 0, SDestroy 1, SDestroy 2]"]
  by (fastforce simp: nul_def)

text \<open>
  \<open>size()\<close> counts the terminator, \<open>length()\<close> one position more; the copy of a string that was moved from has a block without a
  terminator, which a reader of \<open>c_str()\<close> runs out of.\<close>

lemma size_counts_terminator:
  assumes "nul \<notin> set t"
  shows "\<exists>s. str_construct v (t @ [nul]) str_empty = Some s \<and> str_text v s = Some t \<and>
    str_size v s = Some (length t + 1) \<and> str_length v s = Some (length t + 2)"
proof -
  have rel: "str_rel str_empty (\<lambda>_. None)" by (rule str_relI) (simp_all add: str_empty_def str_inv_def owned_def)
  have t: "takeWhile (\<lambda>c. c \<noteq> nul) (t @ [nul]) = t" using assms by (induction t) auto
  obtain s where s: "str_construct v (t @ [nul]) str_empty = Some s" "str_rel s ((\<lambda>_. None)(v \<mapsto> Chars (t @ [nul])))"
    using construct_sim [OF rel, where v = v and mem = "t @ [nul]"] t by auto
  then show ?thesis using observers_sim [OF s(2), where v = v and w = "Chars (t @ [nul])"] t by auto
qed

lemma copy_of_moved_unterminated:
  assumes "str_rel s a" and "a u = Some Moved" and "a v = None"
  shows "\<exists>s'. str_copy v u s = Some s' \<and> str_c_str v s' \<noteq> None \<and> str_text v s' = None"
proof -
  obtain s' where s': "str_copy v u s = Some s'" "str_rel s' (a(v \<mapsto> Chars []))" using copy_sim [OF assms(1,3), of u] assms(2) by auto
  obtain x where x: "st_vars s' v = Some x" using rel_live [OF s'(2), of v] by auto
  then have "obj_val s' x = Some (Chars [])" using str_relD(2) [OF s'(2)] by simp
  then show ?thesis using s'(1) x
    by (auto simp: str_text_def str_c_str_def obj_val_def split: option.splits if_splits)
qed

end
