(* ===== verification/Tables.thy ===== *)
theory Tables
  imports Prelude "HOL-Library.Monad_Syntax"
begin

text \<open>
  Vectors, two-dimensional tables and counted loops, as the array programs use them.  An access outside a vector is \<^const>\<open>None\<close>;
  a counted loop runs its body for every value of the counter and stops at the first \<^const>\<open>None\<close>.  \<open>for_up_rule\<close> and
  \<open>for_down_rule\<close> are the rules by which the programs are verified: an invariant that the body preserves from one value of the
  counter to the next holds at the end, and the loop returns.
\<close>

section \<open>Vectors and tables\<close>

definition vec_get :: "'a list \<Rightarrow> nat \<Rightarrow> 'a option" where
  "vec_get xs i = (if i < length xs then Some (xs ! i) else None)"

definition vec_set :: "'a list \<Rightarrow> nat \<Rightarrow> 'a \<Rightarrow> 'a list option" where
  "vec_set xs i v = (if i < length xs then Some (xs[i := v]) else None)"

definition tab_get :: "'a list list \<Rightarrow> nat \<Rightarrow> nat \<Rightarrow> 'a option" where
  "tab_get t i j = do { row \<leftarrow> vec_get t i; vec_get row j }"

definition tab_set :: "'a list list \<Rightarrow> nat \<Rightarrow> nat \<Rightarrow> 'a \<Rightarrow> 'a list list option" where
  "tab_set t i j v = do { row \<leftarrow> vec_get t i; row' \<leftarrow> vec_set row j v; vec_set t i row' }"

definition tab_new :: "nat \<Rightarrow> nat \<Rightarrow> 'a \<Rightarrow> 'a list list" where
  "tab_new n m v = replicate n (replicate m v)"

definition tab_dim :: "'a list list \<Rightarrow> nat \<Rightarrow> nat \<Rightarrow> bool" where
  "tab_dim t n m \<longleftrightarrow> length t = n \<and> (\<forall>row\<in>set t. length row = m)"

named_theorems vec_simps \<open>accesses inside a vector or a table\<close>

lemma vec_get_in [vec_simps]: "i < length xs \<Longrightarrow> vec_get xs i = Some (xs ! i)"
  by (simp add: vec_get_def)

lemma vec_set_in [vec_simps]: "i < length xs \<Longrightarrow> vec_set xs i v = Some (xs[i := v])"
  by (simp add: vec_set_def)

lemma vec_get_out: "length xs \<le> i \<Longrightarrow> vec_get xs i = None"
  by (simp add: vec_get_def)

lemma tab_get_in [vec_simps]: "tab_dim t n m \<Longrightarrow> i < n \<Longrightarrow> j < m \<Longrightarrow> tab_get t i j = Some (t ! i ! j)"
  by (auto simp: tab_get_def tab_dim_def vec_simps)

lemma tab_set_in [vec_simps]: "tab_dim t n m \<Longrightarrow> i < n \<Longrightarrow> j < m \<Longrightarrow> tab_set t i j v = Some (t[i := (t ! i)[j := v]])"
  by (auto simp: tab_set_def tab_dim_def vec_simps)

lemma tab_dim_new [simp]: "tab_dim (tab_new n m v) n m"
  by (auto simp: tab_dim_def tab_new_def)

lemma tab_new_nth [simp]: "i < n \<Longrightarrow> j < m \<Longrightarrow> tab_new n m v ! i ! j = v"
  by (simp add: tab_new_def)

lemma tab_dim_upd [simp]: "tab_dim t n m \<Longrightarrow> i < n \<Longrightarrow> tab_dim (t[i := (t ! i)[j := v]]) n m"
  by (auto simp: tab_dim_def dest: set_update_subset_insert [THEN subsetD])

lemma tab_upd_nth:
  "tab_dim t n m \<Longrightarrow> i < n \<Longrightarrow> j < m \<Longrightarrow> a < n \<Longrightarrow>
     t[i := (t ! i)[j := v]] ! a ! b = (if a = i \<and> b = j then v else t ! a ! b)"
  by (auto simp: tab_dim_def nth_list_update)

section \<open>Counted loops\<close>

fun for_each :: "'a list \<Rightarrow> ('a \<Rightarrow> 's \<Rightarrow> 's option) \<Rightarrow> 's \<Rightarrow> 's option" where
  "for_each [] body s = Some s"
| "for_each (x # xs) body s = (case body x s of None \<Rightarrow> None | Some s' \<Rightarrow> for_each xs body s')"

definition for_up :: "nat \<Rightarrow> nat \<Rightarrow> (nat \<Rightarrow> 's \<Rightarrow> 's option) \<Rightarrow> 's \<Rightarrow> 's option" where
  "for_up m n = for_each [m..<n]"

text \<open>From \<open>n - 1\<close> down to \<open>m\<close>.\<close>

definition for_down :: "nat \<Rightarrow> nat \<Rightarrow> (nat \<Rightarrow> 's \<Rightarrow> 's option) \<Rightarrow> 's \<Rightarrow> 's option" where
  "for_down m n = for_each (rev [m..<n])"

lemma for_each_append: "for_each (xs @ ys) body s = (case for_each xs body s of None \<Rightarrow> None | Some s' \<Rightarrow> for_each ys body s')"
  by (induction xs arbitrary: s) (auto split: option.splits)

lemma for_up_rule:
  assumes "m \<le> n" and "P m s"
    and "\<And>i s. m \<le> i \<Longrightarrow> i < n \<Longrightarrow> P i s \<Longrightarrow> \<exists>s'. body i s = Some s' \<and> P (Suc i) s'"
  shows "\<exists>s'. for_up m n body s = Some s' \<and> P n s'"
  using assms
proof (induction "n - m" arbitrary: m s)
  case 0
  then show ?case by (simp add: for_up_def)
next
  case (Suc k)
  then have "m < n" by simp
  obtain s1 where s1: "body m s = Some s1" "P (Suc m) s1" using Suc.prems(2) Suc.prems(3) [of m s] \<open>m < n\<close> by auto
  have "\<exists>s'. for_up (Suc m) n body s1 = Some s' \<and> P n s'" using Suc.hyps(2) Suc.prems(3) \<open>m < n\<close> s1(2) by (intro Suc.hyps(1)) auto
  then show ?case using s1(1) \<open>m < n\<close> by (simp add: for_up_def upt_conv_Cons)
qed

lemma for_down_rule:
  assumes "m \<le> n" and "P n s"
    and "\<And>i s. m \<le> i \<Longrightarrow> i < n \<Longrightarrow> P (Suc i) s \<Longrightarrow> \<exists>s'. body i s = Some s' \<and> P i s'"
  shows "\<exists>s'. for_down m n body s = Some s' \<and> P m s'"
  using assms
proof (induction "n - m" arbitrary: n s)
  case 0
  then show ?case by (simp add: for_down_def)
next
  case (Suc k)
  then obtain n' where n': "n = Suc n'" "m \<le> n'" by (cases n) auto
  obtain s1 where s1: "body n' s = Some s1" "P n' s1" using Suc.prems(2) Suc.prems(3) [of n' s] n' by auto
  have "\<exists>s'. for_down m n' body s1 = Some s' \<and> P m s'" using Suc.hyps(2) Suc.prems(3) n' s1(2) by (intro Suc.hyps(1)) auto
  then show ?case using s1(1) n' by (simp add: for_down_def)
qed

text \<open>What holds of a loop if it returns.\<close>

lemma for_up_partial:
  assumes "for_up m n body s = Some s'" and "m \<le> n" and "P m s"
    and "\<And>i s s'. m \<le> i \<Longrightarrow> i < n \<Longrightarrow> P i s \<Longrightarrow> body i s = Some s' \<Longrightarrow> P (Suc i) s'"
  shows "P n s'"
proof -
  have "\<exists>t. for_up m n (\<lambda>i s. case s of None \<Rightarrow> Some None | Some x \<Rightarrow> Some (body i x)) (Some s) = Some t \<and>
      (\<forall>x. t = Some x \<longrightarrow> P n x)"
    by (rule for_up_rule [where P = "\<lambda>i t. \<forall>x. t = Some x \<longrightarrow> P i x"]) (use assms in \<open>auto split: option.splits\<close>)
  moreover have "for_each xs (\<lambda>i s. case s of None \<Rightarrow> Some None | Some x \<Rightarrow> Some (body i x)) None = Some None" for xs
    by (induction xs) auto
  then have "for_each xs (\<lambda>i s. case s of None \<Rightarrow> Some None | Some x \<Rightarrow> Some (body i x)) (Some s) = Some (for_each xs body s)" for xs s
    by (induction xs arbitrary: s) (auto split: option.splits)
  ultimately show ?thesis using assms(1) by (simp add: for_up_def)
qed

lemma for_each_map: "(\<And>x s. x \<in> set xs \<Longrightarrow> body x s = Some (f x s)) \<Longrightarrow> for_each xs body s = Some (fold f xs s)"
  by (induction xs arbitrary: s) auto

text \<open>Two nested loops over the cells of a table, row by row.  \<open>P i j\<close> holds before cell \<open>(i, j)\<close> is treated.\<close>

lemma for_up_nested_rule:
  assumes "m \<le> n" and "k \<le> l" and "P m k s"
    and step: "\<And>i j s. m \<le> i \<Longrightarrow> i < n \<Longrightarrow> k \<le> j \<Longrightarrow> j < l \<Longrightarrow> P i j s \<Longrightarrow> \<exists>s'. body i j s = Some s' \<and> P i (Suc j) s'"
    and row: "\<And>i s. m \<le> i \<Longrightarrow> i < n \<Longrightarrow> P i l s \<Longrightarrow> P (Suc i) k s"
  shows "\<exists>s'. for_up m n (\<lambda>i. for_up k l (body i)) s = Some s' \<and> P n k s'"
proof (rule for_up_rule [where P = "\<lambda>i. P i k", OF assms(1,3)])
  fix i s
  assume i: "m \<le> i" "i < n" and s: "P i k s"
  have "\<exists>s'. for_up k l (body i) s = Some s' \<and> P i l s'"
    by (rule for_up_rule [where P = "P i", OF assms(2) s]) (use step i in auto)
  then show "\<exists>s'. for_up k l (body i) s = Some s' \<and> P (Suc i) k s'" using row i by blast
qed

section \<open>Tables filled row by row\<close>

text \<open>Cells in front of \<open>(i, j)\<close> hold their value, the others the initial one.\<close>

definition filled :: "'a list list \<Rightarrow> nat \<Rightarrow> nat \<Rightarrow> 'a \<Rightarrow> (nat \<Rightarrow> nat \<Rightarrow> 'a) \<Rightarrow> nat \<Rightarrow> nat \<Rightarrow> bool" where
  "filled t n m d F i j \<longleftrightarrow> tab_dim t n m \<and> (\<forall>a<n. \<forall>b<m. t ! a ! b = (if a < i \<or> (a = i \<and> b < j) then F a b else d))"

lemma filled_dim: "filled t n m d F i j \<Longrightarrow> tab_dim t n m"
  by (simp add: filled_def)

lemma filled_get:
  "filled t n m d F i j \<Longrightarrow> a < n \<Longrightarrow> b < m \<Longrightarrow> a < i \<or> (a = i \<and> b < j) \<Longrightarrow> tab_get t a b = Some (F a b)"
  using tab_get_in [of t n m a b] by (simp add: filled_def)

lemma filled_set:
  assumes "filled t n m d F i j" and "i < n" and "j < m"
  shows "\<exists>t'. tab_set t i j (F i j) = Some t' \<and> filled t' n m d F i (Suc j)"
proof -
  have d: "tab_dim t n m" by (rule filled_dim [OF assms(1)])
  have "filled (t[i := (t ! i)[j := F i j]]) n m d F i (Suc j)"
    using assms d unfolding filled_def by (auto simp: tab_upd_nth [OF d] less_Suc_eq)
  then show ?thesis using tab_set_in [OF d assms(2,3)] by simp
qed

lemma filled_skip:
  assumes "filled t n m d F i j" and "F i j = d"
  shows "filled t n m d F i (Suc j)"
  using assms unfolding filled_def by (auto simp: less_Suc_eq)

lemma filled_row:
  assumes "filled t n m d F i m" and "\<And>b. b < k \<Longrightarrow> F (Suc i) b = d"
  shows "filled t n m d F (Suc i) k"
  using assms unfolding filled_def by (auto simp: less_Suc_eq)

lemma filled_new:
  assumes "\<And>a b. a < i \<Longrightarrow> F a b = d" and "\<And>b. b < j \<Longrightarrow> F i b = d"
  shows "filled (tab_new n m d) n m d F i j"
  using assms by (auto simp: filled_def)

text \<open>The largest value of the cells in front of \<open>(i, j)\<close>, as the programs keep it beside the table.\<close>

definition largest :: "(nat \<Rightarrow> nat \<Rightarrow> nat) \<Rightarrow> nat \<Rightarrow> nat \<Rightarrow> nat \<Rightarrow> nat \<Rightarrow> nat \<Rightarrow> bool" where
  "largest F n m i j r \<longleftrightarrow>
     (\<forall>a<n. \<forall>b<m. a < i \<or> (a = i \<and> b < j) \<longrightarrow> F a b \<le> r) \<and> (\<exists>a<n. \<exists>b<m. F a b = r)"

lemma largest_upper: "largest F n m i j r \<Longrightarrow> a < n \<Longrightarrow> b < m \<Longrightarrow> a < i \<or> (a = i \<and> b < j) \<Longrightarrow> F a b \<le> r"
  unfolding largest_def by blast

lemma largest_attained: "largest F n m i j r \<Longrightarrow> \<exists>a<n. \<exists>b<m. F a b = r"
  by (simp add: largest_def)

lemma largest_step:
  assumes "largest F n m i j r" and "i < n" and "j < m"
  shows "largest F n m i (Suc j) (if r < F i j then F i j else r)"
proof -
  have "F a b \<le> (if r < F i j then F i j else r)" if "a < n" "b < m" "a < i \<or> (a = i \<and> b < Suc j)" for a b
    using largest_upper [OF assms(1) that(1,2)] that(3) by (auto simp: less_Suc_eq)
  then show ?thesis using assms(2,3) largest_attained [OF assms(1)] unfolding largest_def by auto
qed

lemma largest_row:
  assumes "largest F n m i m r" and "\<And>b. b < k \<Longrightarrow> F (Suc i) b = 0"
  shows "largest F n m (Suc i) k r"
  using assms unfolding largest_def by (auto simp: less_Suc_eq)

lemma largest_new:
  assumes "\<And>a b. a < i \<Longrightarrow> F a b = 0" and "\<And>b. b < j \<Longrightarrow> F i b = 0" and "F 0 0 = 0" and "0 < n" and "0 < m"
  shows "largest F n m i j 0"
  using assms unfolding largest_def by auto

text \<open>The cells of a set hold their value, whatever the others hold.\<close>

definition cells :: "'a list list \<Rightarrow> nat \<Rightarrow> nat \<Rightarrow> (nat \<Rightarrow> nat \<Rightarrow> bool) \<Rightarrow> (nat \<Rightarrow> nat \<Rightarrow> 'a) \<Rightarrow> bool" where
  "cells t n m D F \<longleftrightarrow> tab_dim t n m \<and> (\<forall>a<n. \<forall>b<m. D a b \<longrightarrow> t ! a ! b = F a b)"

lemma cells_new: "cells (tab_new n m d) n m (\<lambda>a b. False) F"
  by (simp add: cells_def)

lemma cells_get: "cells t n m D F \<Longrightarrow> D a b \<Longrightarrow> a < n \<Longrightarrow> b < m \<Longrightarrow> tab_get t a b = Some (F a b)"
  using tab_get_in [of t n m a b] by (simp add: cells_def)

lemma cells_set:
  assumes "cells t n m D F" and "i < n" and "j < m" and "\<And>a b. D' a b \<Longrightarrow> a < n \<Longrightarrow> b < m \<Longrightarrow> D a b \<or> (a = i \<and> b = j)"
  shows "\<exists>t'. tab_set t i j (F i j) = Some t' \<and> cells t' n m D' F"
proof -
  have d: "tab_dim t n m" using assms(1) by (simp add: cells_def)
  have "cells (t[i := (t ! i)[j := F i j]]) n m D' F"
    using assms d unfolding cells_def by (auto simp: tab_upd_nth [OF d assms(2,3)])
  then show ?thesis using tab_set_in [OF d assms(2,3)] by simp
qed

section \<open>Signed 32-bit addition\<close>

text \<open>Overflow of a signed addition is undefined: \<^const>\<open>None\<close>.\<close>

definition int_add :: "int \<Rightarrow> int \<Rightarrow> int option" where
  "int_add a b = (if - (2 ^ 31) \<le> a + b \<and> a + b < 2 ^ 31 then Some (a + b) else None)"

end
