(* ===== verification/Subsequences.thy ===== *)
theory Subsequences
  imports Tables "HOL-Library.Sublist"
begin

text \<open>
  The dynamic programs on sequences of \<open>find_job/look_for_job.cpp\<close>: the longest common subsequence, the longest common
  contiguous part, and the longest increasing subsequences.  The tables are those of the source; counters and lengths are natural numbers,
  as they never exceed the length of a sequence.
\<close>

section \<open>Longest common subsequence\<close>

definition lcs_cell :: "string \<Rightarrow> string \<Rightarrow> nat \<Rightarrow> nat \<Rightarrow> nat list list \<times> nat \<Rightarrow> (nat list list \<times> nat) option" where
  "lcs_cell s1 s2 i j = (\<lambda>(dp, result). do {
     a \<leftarrow> vec_get s1 (i - 1);
     b \<leftarrow> vec_get s2 (j - 1);
     v \<leftarrow> (if a = b
           then do { d \<leftarrow> tab_get dp (i - 1) (j - 1); Some (d + 1) }
           else do { u \<leftarrow> tab_get dp (i - 1) j; l \<leftarrow> tab_get dp i (j - 1); Some (max u l) });
     dp' \<leftarrow> tab_set dp i j v;
     Some (dp', if result < v then v else result) })"

definition lcs_table :: "string \<Rightarrow> string \<Rightarrow> (nat list list \<times> nat) option" where
  "lcs_table s1 s2 =
     for_up 1 (length s1 + 1) (\<lambda>i. for_up 1 (length s2 + 1) (lcs_cell s1 s2 i)) (tab_new (length s1 + 1) (length s2 + 1) 0, 0)"

text \<open>The walk back through the table; it collects the characters last first.\<close>

function lcs_back :: "string \<Rightarrow> string \<Rightarrow> nat list list \<Rightarrow> nat \<Rightarrow> nat \<Rightarrow> string \<Rightarrow> string option" where
  "lcs_back s1 s2 dp n m s =
     (if n > 0 \<and> m > 0
      then do {
        a \<leftarrow> vec_get s1 (n - 1);
        b \<leftarrow> vec_get s2 (m - 1);
        if a = b then lcs_back s1 s2 dp (n - 1) (m - 1) (s @ [a])
        else do {
          l \<leftarrow> tab_get dp n (m - 1);
          u \<leftarrow> tab_get dp (n - 1) m;
          if l > u then lcs_back s1 s2 dp n (m - 1) s
          else if l < u then lcs_back s1 s2 dp (n - 1) m s
          else lcs_back s1 s2 dp (n - 1) m s } }
      else Some s)"
  by pat_completeness auto
termination by (relation "measure (\<lambda>(s1, s2, dp, n, m, s). n + m)") auto

declare lcs_back.simps [simp del]

definition lcs :: "string \<Rightarrow> string \<Rightarrow> string option" where
  "lcs s1 s2 = do {
     (dp, result) \<leftarrow> lcs_table s1 s2;
     if result = 0 then Some ''-1''
     else do { s \<leftarrow> lcs_back s1 s2 dp (length s1) (length s2) []; Some (rev s) } }"

subsection \<open>The value of a cell\<close>

text \<open>The longest common subsequence of two prefixes, by the recurrence of the program.\<close>

function prefix_lcs :: "'a list \<Rightarrow> 'a list \<Rightarrow> nat \<Rightarrow> nat \<Rightarrow> nat" where
  "prefix_lcs xs ys i j =
     (if i = 0 \<or> j = 0 then 0
      else if xs ! (i - 1) = ys ! (j - 1) then Suc (prefix_lcs xs ys (i - 1) (j - 1))
      else max (prefix_lcs xs ys (i - 1) j) (prefix_lcs xs ys i (j - 1)))"
  by pat_completeness auto
termination by (relation "measure (\<lambda>(xs, ys, i, j). i + j)") auto

declare prefix_lcs.simps [simp del]

lemma prefix_lcs_0 [simp]: "prefix_lcs xs ys 0 j = 0" "prefix_lcs xs ys i 0 = 0"
  by (subst prefix_lcs.simps, simp)+

lemma subseq_snoc_iff: "subseq zs (us @ [u]) \<longleftrightarrow> subseq zs us \<or> (\<exists>ws. zs = ws @ [u] \<and> subseq ws us)"
proof -
  have one: "subseq b [u] \<longleftrightarrow> b = [] \<or> b = [u]" for b by (cases b) (auto simp: subseq_Cons')
  show ?thesis unfolding subseq_append_iff one by (metis append_Nil2)
qed

lemma subseq_snocD: "subseq (zs @ [z]) us \<Longrightarrow> subseq zs us"
  by (meson subseq_order.order_trans subseq_append_le_same_iff subseq_rev_drop_many list_emb_append2 prefixI prefix_imp_subseq)

lemma take_pos: "0 < i \<Longrightarrow> i \<le> length xs \<Longrightarrow> take i xs = take (i - 1) xs @ [xs ! (i - 1)]"
  by (cases i) (simp_all add: take_Suc_conv_app_nth)

lemma prefix_lcs_upper:
  assumes "subseq zs (take i xs)" and "subseq zs (take j ys)" and "i \<le> length xs" and "j \<le> length ys"
  shows "length zs \<le> prefix_lcs xs ys i j"
  using assms
proof (induction xs ys i j arbitrary: zs rule: prefix_lcs.induct)
  case (1 xs ys i j)
  show ?case
  proof (cases "i = 0 \<or> j = 0")
    case True
    then show ?thesis using "1.prems" by auto
  next
    case False
    then have split: "take i xs = take (i - 1) xs @ [xs ! (i - 1)]" "take j ys = take (j - 1) ys @ [ys ! (j - 1)]"
      using "1.prems" take_pos by auto
    have sub: "subseq zs (take (i - 1) xs) \<or> (\<exists>ws. zs = ws @ [xs ! (i - 1)] \<and> subseq ws (take (i - 1) xs))"
        "subseq zs (take (j - 1) ys) \<or> (\<exists>ws. zs = ws @ [ys ! (j - 1)] \<and> subseq ws (take (j - 1) ys))"
      using "1.prems"(1,2) unfolding split subseq_snoc_iff by auto
    have le: "i - 1 \<le> length xs" "j - 1 \<le> length ys" using "1.prems" by auto
    show ?thesis
    proof (cases "xs ! (i - 1) = ys ! (j - 1)")
      case True
      have IH: "length ws \<le> prefix_lcs xs ys (i - 1) (j - 1)" if "subseq ws (take (i - 1) xs)" "subseq ws (take (j - 1) ys)" for ws
        using "1.IH"(1) [OF False True that le] .
      have "length zs \<le> Suc (prefix_lcs xs ys (i - 1) (j - 1))"
        using sub IH by (auto dest!: subseq_snocD simp: le_SucI) 
      then show ?thesis using False True by (subst prefix_lcs.simps) simp
    next
      case neq: False
      have "length zs \<le> max (prefix_lcs xs ys (i - 1) j) (prefix_lcs xs ys i (j - 1))"
      proof (cases "subseq zs (take (i - 1) xs)")
        case True
        show ?thesis using "1.IH"(2) [OF False neq True "1.prems"(2) le(1) "1.prems"(4)] by simp
      next
        case not: False
        then have "subseq zs (take (j - 1) ys)" using sub neq by auto
        then show ?thesis using "1.IH"(3) [OF False neq "1.prems"(1) _ "1.prems"(3) le(2)] by simp
      qed
      then show ?thesis using False neq by (subst prefix_lcs.simps) simp
    qed
  qed
qed

subsection \<open>The program\<close>

definition lcs_inv :: "string \<Rightarrow> string \<Rightarrow> nat \<Rightarrow> nat \<Rightarrow> nat list list \<times> nat \<Rightarrow> bool" where
  "lcs_inv s1 s2 i j = (\<lambda>(dp, result).
     filled dp (length s1 + 1) (length s2 + 1) 0 (prefix_lcs s1 s2) i j \<and>
     largest (prefix_lcs s1 s2) (length s1 + 1) (length s2 + 1) i j result)"

lemma lcs_cell_step:
  assumes inv: "lcs_inv s1 s2 i j st" and i: "1 \<le> i" "i < length s1 + 1" and j: "1 \<le> j" "j < length s2 + 1"
  shows "\<exists>st'. lcs_cell s1 s2 i j st = Some st' \<and> lcs_inv s1 s2 i (Suc j) st'"
proof -
  obtain dp result where st: "st = (dp, result)" by (cases st)
  note fill = inv [unfolded lcs_inv_def st, simplified, THEN conjunct1]
  have get: "tab_get dp (i - 1) (j - 1) = Some (prefix_lcs s1 s2 (i - 1) (j - 1))"
      "tab_get dp (i - 1) j = Some (prefix_lcs s1 s2 (i - 1) j)" "tab_get dp i (j - 1) = Some (prefix_lcs s1 s2 i (j - 1))"
    using i j filled_get [OF fill] by auto
  have val: "prefix_lcs s1 s2 i j = (if s1 ! (i - 1) = s2 ! (j - 1) then prefix_lcs s1 s2 (i - 1) (j - 1) + 1
      else max (prefix_lcs s1 s2 (i - 1) j) (prefix_lcs s1 s2 i (j - 1)))" (is "?v = _")
    using i j by (subst prefix_lcs.simps) simp
  obtain dp' where dp': "tab_set dp i j ?v = Some dp'" "filled dp' (length s1 + 1) (length s2 + 1) 0 (prefix_lcs s1 s2) i (Suc j)"
    using filled_set [OF fill, of] i j by auto
  have "lcs_cell s1 s2 i j st = Some (dp', if result < ?v then ?v else result)"
    using i j get dp'(1) val unfolding lcs_cell_def st by (auto simp: vec_get_in simp del: One_nat_def)
  moreover have "largest (prefix_lcs s1 s2) (length s1 + 1) (length s2 + 1) i (Suc j) (if result < ?v then ?v else result)"
    using inv unfolding lcs_inv_def st by (intro largest_step [OF _ i(2) j(2)]) simp
  ultimately show ?thesis using dp'(2) unfolding lcs_inv_def by simp
qed

lemma lcs_table_filled:
  "\<exists>dp result. lcs_table s1 s2 = Some (dp, result) \<and> lcs_inv s1 s2 (length s1 + 1) 1 (dp, result)"
proof -
  have "\<exists>st. lcs_table s1 s2 = Some st \<and> lcs_inv s1 s2 (length s1 + 1) 1 st" unfolding lcs_table_def
  proof (rule for_up_nested_rule [where P = "lcs_inv s1 s2"])
    show "lcs_inv s1 s2 1 1 (tab_new (length s1 + 1) (length s2 + 1) 0, 0)"
      unfolding lcs_inv_def by (auto intro!: filled_new largest_new)
  next
    fix i st
    assume "lcs_inv s1 s2 i (length s2 + 1) st"
    then show "lcs_inv s1 s2 (Suc i) 1 st"
      unfolding lcs_inv_def by (auto intro!: filled_row largest_row)
  qed (use lcs_cell_step in simp_all)
  then show ?thesis by auto
qed

lemma lcs_back_correct:
  assumes "filled dp (length s1 + 1) (length s2 + 1) 0 (prefix_lcs s1 s2) (length s1 + 1) 1" and "n \<le> length s1" and "m \<le> length s2"
  shows "\<exists>zs. lcs_back s1 s2 dp n m s = Some (s @ rev zs) \<and> subseq zs (take n s1) \<and> subseq zs (take m s2) \<and>
    length zs = prefix_lcs s1 s2 n m"
  using assms
proof (induction s1 s2 dp n m s rule: lcs_back.induct)
  case (1 s1 s2 dp n m s)
  show ?case
  proof (cases "n > 0 \<and> m > 0")
    case False
    then show ?thesis by (subst lcs_back.simps) auto
  next
    case True
    then have pos: "0 < n" "0 < m" by auto
    have split: "take n s1 = take (n - 1) s1 @ [s1 ! (n - 1)]" "take m s2 = take (m - 1) s2 @ [s2 ! (m - 1)]"
      using pos "1.prems" take_pos by auto
    have ab: "vec_get s1 (n - 1) = Some (s1 ! (n - 1))" "vec_get s2 (m - 1) = Some (s2 ! (m - 1))"
      using pos "1.prems" by (auto simp: vec_get_in)
    have lu: "tab_get dp n (m - 1) = Some (prefix_lcs s1 s2 n (m - 1))" "tab_get dp (n - 1) m = Some (prefix_lcs s1 s2 (n - 1) m)"
      using pos "1.prems" filled_get [OF "1.prems"(1)] by auto
    note IH = "1.IH" [OF True ab]
    show ?thesis
    proof (cases "s1 ! (n - 1) = s2 ! (m - 1)")
      case eq: True
      have "n - 1 \<le> length s1" "m - 1 \<le> length s2" using "1.prems" by auto
      from IH(1) [OF eq "1.prems"(1) this] obtain zs where
        zs: "lcs_back s1 s2 dp (n - 1) (m - 1) (s @ [s1 ! (n - 1)]) = Some ((s @ [s1 ! (n - 1)]) @ rev zs)"
          "subseq zs (take (n - 1) s1)" "subseq zs (take (m - 1) s2)" "length zs = prefix_lcs s1 s2 (n - 1) (m - 1)" by auto
      have "lcs_back s1 s2 dp n m s = Some (s @ rev (zs @ [s1 ! (n - 1)]))"
        using True ab eq zs(1) by (subst lcs_back.simps) simp
      moreover have "length (zs @ [s1 ! (n - 1)]) = prefix_lcs s1 s2 n m" using True eq zs(4) by (subst prefix_lcs.simps) simp
      moreover have "subseq (zs @ [s1 ! (n - 1)]) (take n s1)" "subseq (zs @ [s1 ! (n - 1)]) (take m s2)"
        unfolding split using zs(2,3) eq by (auto simp: subseq_snoc_iff)
      ultimately show ?thesis by blast
    next
      case neq: False
      have len: "prefix_lcs s1 s2 n m = max (prefix_lcs s1 s2 (n - 1) m) (prefix_lcs s1 s2 n (m - 1))"
        using True neq by (subst prefix_lcs.simps) simp
      have le: "n - 1 \<le> length s1" "m - 1 \<le> length s2" using "1.prems" by auto
      show ?thesis
      proof (cases "prefix_lcs s1 s2 n (m - 1) > prefix_lcs s1 s2 (n - 1) m")
        case left: True
        obtain zs where zs: "lcs_back s1 s2 dp n (m - 1) s = Some (s @ rev zs)" "subseq zs (take n s1)" "subseq zs (take (m - 1) s2)"
            "length zs = prefix_lcs s1 s2 n (m - 1)"
          using IH(2) [OF neq lu left "1.prems"(1,2) le(2)] by auto
        then show ?thesis using True ab lu neq left len
          by (intro exI [of _ zs]) (subst lcs_back.simps, simp add: split(2) subseq_snoc_iff)
      next
        case up: False
        then have same: "lcs_back s1 s2 dp n m s = lcs_back s1 s2 dp (n - 1) m s" using True ab lu neq
          by (subst lcs_back.simps) simp
        obtain zs where zs: "lcs_back s1 s2 dp (n - 1) m s = Some (s @ rev zs)" "subseq zs (take (n - 1) s1)" "subseq zs (take m s2)"
            "length zs = prefix_lcs s1 s2 (n - 1) m"
          using IH(3,4) [OF neq lu up] "1.prems"(1,3) le(1) by (cases "prefix_lcs s1 s2 n (m - 1) < prefix_lcs s1 s2 (n - 1) m") auto
        then show ?thesis using same len up by (intro exI [of _ zs]) (simp add: split(1) subseq_snoc_iff)
      qed
    qed
  qed
qed

lemma lcs_back_full:
  assumes "filled dp (length s1 + 1) (length s2 + 1) 0 (prefix_lcs s1 s2) (length s1 + 1) 1"
  obtains zs where "lcs_back s1 s2 dp (length s1) (length s2) [] = Some (rev zs)" "subseq zs s1" "subseq zs s2"
    "length zs = prefix_lcs s1 s2 (length s1) (length s2)"
  using lcs_back_correct [OF assms order_refl order_refl, of "[]"] by auto

text \<open>
  C21: \<open>LCS\<close> returns a longest common subsequence of its arguments: a common subsequence that no other one exceeds in length.
  When the two strings have no character in common it returns \<open>"-1"\<close>.  No access leaves a string or the table.\<close>

theorem lcs_correct:
  "\<exists>s. lcs s1 s2 = Some s \<and>
     (if set s1 \<inter> set s2 = {} then s = ''-1''
      else subseq s s1 \<and> subseq s s2 \<and> (\<forall>zs. subseq zs s1 \<and> subseq zs s2 \<longrightarrow> length zs \<le> length s))"
proof -
  let ?L = "prefix_lcs s1 s2 (length s1) (length s2)"
  obtain dp result where t: "lcs_table s1 s2 = Some (dp, result)"
      "filled dp (length s1 + 1) (length s2 + 1) 0 (prefix_lcs s1 s2) (length s1 + 1) 1"
      "largest (prefix_lcs s1 s2) (length s1 + 1) (length s2 + 1) (length s1 + 1) 1 result"
    using lcs_table_filled [of s1 s2] unfolding lcs_inv_def by auto
  obtain zs where zs: "lcs_back s1 s2 dp (length s1) (length s2) [] = Some (rev zs)" "subseq zs s1" "subseq zs s2" "length zs = ?L"
    using lcs_back_full [OF t(2)] by blast
  have upper: "length ws \<le> ?L" if "subseq ws s1" "subseq ws s2" for ws
    using prefix_lcs_upper [of ws "length s1" s1 "length s2" s2] that by simp
  obtain a b where ab: "a \<le> length s1" "b \<le> length s2" "result = prefix_lcs s1 s2 a b"
    using largest_attained [OF t(3)] by (auto simp: less_Suc_eq_le)
  have "?L \<le> result" using largest_upper [OF t(3), of "length s1" "length s2"] by simp
  obtain us where us: "subseq us (take a s1)" "subseq us (take b s2)" "length us = prefix_lcs s1 s2 a b"
    using lcs_back_correct [OF t(2) ab(1,2), of "[]"] by blast
  have "subseq us s1" "subseq us s2"
    using us(1,2) by (meson prefix_imp_subseq subseq_order.order_trans take_is_prefix)+
  then have result: "result = ?L" using upper us(3) ab(3) \<open>?L \<le> result\<close> by fastforce
  show ?thesis
  proof (cases "set s1 \<inter> set s2 = {}")
    case True
    moreover have "set zs \<subseteq> set s1" "set zs \<subseteq> set s2"
      using zs(2,3) by (auto simp: subset_iff dest: subseq_order.order_trans [OF iffD2 [OF subseq_singleton_left]] simp flip: subseq_singleton_left)
    ultimately have "zs = []" by (cases zs) auto
    then show ?thesis using True t(1) result zs(4) by (simp add: lcs_def)
  next
    case False
    then obtain c where "c \<in> set s1" "c \<in> set s2" by blast
    then have "length [c] \<le> ?L" by (intro upper) (simp_all add: subseq_singleton_left)
    then show ?thesis using False t(1) result zs upper by (simp add: lcs_def)
  qed
qed


theorem lcs_correct_witness:
  "\<exists>s. lcs ''bcd'' ''abxd'' = Some s \<and> subseq s ''bcd'' \<and> subseq s ''abxd'' \<and>
     (\<forall>zs. subseq zs ''bcd'' \<and> subseq zs ''abxd'' \<longrightarrow> length zs \<le> length s)"
  using lcs_correct [of "''bcd''" "''abxd''"] by auto

section \<open>Longest common contiguous part\<close>

definition find_length_cell :: "int list \<Rightarrow> int list \<Rightarrow> nat \<Rightarrow> nat \<Rightarrow> nat list list \<times> nat \<Rightarrow> (nat list list \<times> nat) option" where
  "find_length_cell A B i j = (\<lambda>(dp, result). do {
     a \<leftarrow> vec_get A (i - 1);
     b \<leftarrow> vec_get B (j - 1);
     dp' \<leftarrow> (if a = b then do { d \<leftarrow> tab_get dp (i - 1) (j - 1); tab_set dp i j (d + 1) } else Some dp);
     v \<leftarrow> tab_get dp' i j;
     Some (dp', if result < v then v else result) })"

definition find_length :: "int list \<Rightarrow> int list \<Rightarrow> nat option" where
  "find_length A B = do {
     (dp, result) \<leftarrow> for_up 1 (length A + 1) (\<lambda>i. for_up 1 (length B + 1) (find_length_cell A B i))
                       (tab_new (length A + 1) (length B + 1) 0, 0);
     Some result }"

fun match_len :: "'a list \<Rightarrow> 'a list \<Rightarrow> nat \<Rightarrow> nat \<Rightarrow> nat" where
  "match_len A B (Suc i) (Suc j) = (if A ! i = B ! j then Suc (match_len A B i j) else 0)"
| "match_len A B i j = 0"

lemma match_len_0 [simp]: "match_len A B 0 j = 0" "match_len A B i 0 = 0"
  by (cases i; simp)+

lemma match_len_upper:
  "i \<le> length A \<Longrightarrow> j \<le> length B \<Longrightarrow> suffix zs (take i A) \<Longrightarrow> suffix zs (take j B) \<Longrightarrow> length zs \<le> match_len A B i j"
proof (induction A B i j arbitrary: zs rule: match_len.induct)
  case (1 A B i j)
  show ?case
  proof (cases zs rule: rev_cases)
    case (snoc ws z)
    then have "suffix ws (take i A)" "suffix ws (take j B)" "z = A ! i" "z = B ! j"
      using "1.prems" by (auto simp: take_Suc_conv_app_nth)
    then show ?thesis using "1.IH" [of ws] "1.prems" snoc by simp
  qed simp
qed simp_all

lemma match_len_attained:
  "i \<le> length A \<Longrightarrow> j \<le> length B \<Longrightarrow> \<exists>zs. suffix zs (take i A) \<and> suffix zs (take j B) \<and> length zs = match_len A B i j"
proof (induction A B i j rule: match_len.induct)
  case (1 A B i j)
  show ?case
  proof (cases "A ! i = B ! j")
    case True
    then obtain ws where "suffix ws (take i A)" "suffix ws (take j B)" "length ws = match_len A B i j"
      using 1 by auto
    then show ?thesis using True "1.prems" by (intro exI [of _ "ws @ [A ! i]"]) (simp add: take_Suc_conv_app_nth)
  qed auto
qed auto

lemma sublist_suffix_take: "sublist zs xs \<longleftrightarrow> (\<exists>i\<le>length xs. suffix zs (take i xs))"
proof
  assume "sublist zs xs"
  then obtain ps ss where "xs = ps @ zs @ ss" by (auto simp: sublist_def)
  then show "\<exists>i\<le>length xs. suffix zs (take i xs)" by (intro exI [of _ "length ps + length zs"]) (auto simp: suffix_def)
next
  assume "\<exists>i\<le>length xs. suffix zs (take i xs)"
  then show "sublist zs xs" by (meson suffix_imp_sublist sublist_order.order_trans sublist_take)
qed

definition find_length_inv :: "int list \<Rightarrow> int list \<Rightarrow> nat \<Rightarrow> nat \<Rightarrow> nat list list \<times> nat \<Rightarrow> bool" where
  "find_length_inv A B i j = (\<lambda>(dp, result).
     filled dp (length A + 1) (length B + 1) 0 (match_len A B) i j \<and>
     largest (match_len A B) (length A + 1) (length B + 1) i j result)"

lemma find_length_step:
  assumes inv: "find_length_inv A B i j st" and i: "1 \<le> i" "i < length A + 1" and j: "1 \<le> j" "j < length B + 1"
  shows "\<exists>st'. find_length_cell A B i j st = Some st' \<and> find_length_inv A B i (Suc j) st'"
proof -
  obtain dp result where st: "st = (dp, result)" by (cases st)
  have fill: "filled dp (length A + 1) (length B + 1) 0 (match_len A B) i j" using inv by (simp add: find_length_inv_def st)
  let ?v = "match_len A B i j"
  have ij: "i = Suc (i - 1)" "j = Suc (j - 1)" using i j by auto
  have val: "?v = (if A ! (i - 1) = B ! (j - 1) then match_len A B (i - 1) (j - 1) + 1 else 0)"
    by (subst ij(1), subst ij(2)) simp
  have "\<exists>dp'. (if A ! (i - 1) = B ! (j - 1) then do { d \<leftarrow> tab_get dp (i - 1) (j - 1); tab_set dp i j (d + 1) } else Some dp) = Some dp' \<and>
      filled dp' (length A + 1) (length B + 1) 0 (match_len A B) i (Suc j)"
  proof (cases "A ! (i - 1) = B ! (j - 1)")
    case True
    then show ?thesis using filled_set [OF fill i(2) j(2)] filled_get [OF fill, of "i - 1" "j - 1"] val i j by auto
  next
    case False
    then show ?thesis using filled_skip [OF fill] val by auto
  qed
  then obtain dp' where dp': "(if A ! (i - 1) = B ! (j - 1) then do { d \<leftarrow> tab_get dp (i - 1) (j - 1); tab_set dp i j (d + 1) } else Some dp) = Some dp'"
      "filled dp' (length A + 1) (length B + 1) 0 (match_len A B) i (Suc j)" by blast
  have "tab_get dp' i j = Some ?v" using filled_get [OF dp'(2) i(2) j(2)] by simp
  then have "find_length_cell A B i j st = Some (dp', if result < ?v then ?v else result)"
    using i j dp'(1) unfolding find_length_cell_def st by (auto simp: vec_get_in)
  moreover have "largest (match_len A B) (length A + 1) (length B + 1) i (Suc j) (if result < ?v then ?v else result)"
    using inv unfolding find_length_inv_def st by (intro largest_step [OF _ i(2) j(2)]) simp
  ultimately show ?thesis using dp'(2) unfolding find_length_inv_def by simp
qed

text \<open>\<open>findLength\<close> returns the length of a longest contiguous part that the two arrays have in common.\<close>

theorem find_length_correct:
  "\<exists>k. find_length A B = Some k \<and> (\<exists>zs. sublist zs A \<and> sublist zs B \<and> length zs = k) \<and>
     (\<forall>zs. sublist zs A \<and> sublist zs B \<longrightarrow> length zs \<le> k)"
proof -
  have "\<exists>st. for_up 1 (length A + 1) (\<lambda>i. for_up 1 (length B + 1) (find_length_cell A B i)) (tab_new (length A + 1) (length B + 1) 0, 0) = Some st \<and>
      find_length_inv A B (length A + 1) 1 st"
  proof (rule for_up_nested_rule [where P = "find_length_inv A B"])
    show "find_length_inv A B 1 1 (tab_new (length A + 1) (length B + 1) 0, 0)"
      unfolding find_length_inv_def by (auto intro!: filled_new largest_new)
  next
    fix i st
    assume "find_length_inv A B i (length B + 1) st"
    then show "find_length_inv A B (Suc i) 1 st" unfolding find_length_inv_def by (auto intro!: filled_row largest_row)
  qed (use find_length_step in simp_all)
  then obtain st where st: "find_length A B = Some (snd st)" "find_length_inv A B (length A + 1) 1 st"
    unfolding find_length_def by (auto simp: split_beta)
  define k where "k = snd st"
  have k: "find_length A B = Some k" "largest (match_len A B) (length A + 1) (length B + 1) (length A + 1) 1 k"
    using st by (simp_all add: find_length_inv_def k_def split_beta)
  have "length zs \<le> k" if sub: "sublist zs A" "sublist zs B" for zs
  proof -
    obtain i j where ij: "i \<le> length A" "j \<le> length B" "suffix zs (take i A)" "suffix zs (take j B)"
      using sub unfolding sublist_suffix_take by blast
    then have "length zs \<le> match_len A B i j" by (rule match_len_upper)
    also have "\<dots> \<le> k" using ij(1,2) by (intro largest_upper [OF k(2)]) auto
    finally show ?thesis .
  qed
  moreover obtain i j where ij: "i \<le> length A" "j \<le> length B" "match_len A B i j = k"
    using largest_attained [OF k(2)] by (auto simp: less_Suc_eq_le)
  then have "\<exists>zs. sublist zs A \<and> sublist zs B \<and> length zs = k"
    using match_len_attained [OF ij(1,2)] ij(1,2) unfolding sublist_suffix_take by blast
  ultimately show ?thesis using k(1) by blast
qed

end
