(* ===== verification/Increasing.thy ===== *)
theory Increasing
  imports Subsequences
begin

text \<open>
  The programs of \<open>find_job/look_for_job.cpp\<close> on increasing sequences: two programs for the length of a longest increasing
  subsequence, one that also returns such a subsequence, and one for increasing contiguous parts.
\<close>

section \<open>Maximum of a list\<close>

definition max_list :: "nat list \<Rightarrow> nat" where
  "max_list xs = foldr max xs 0"

lemma max_list_simps [simp]: "max_list [] = 0" "max_list (x # xs) = max x (max_list xs)"
  by (simp_all add: max_list_def)

lemma max_list_append [simp]: "max_list (xs @ ys) = max (max_list xs) (max_list ys)"
  by (induction xs) auto

lemma max_list_upper: "x \<in> set xs \<Longrightarrow> x \<le> max_list xs"
  by (induction xs) auto

lemma max_list_least: "(\<And>x. x \<in> set xs \<Longrightarrow> x \<le> u) \<Longrightarrow> max_list xs \<le> u"
  by (induction xs) auto

lemma max_list_attained: "max_list xs \<noteq> 0 \<Longrightarrow> max_list xs \<in> set xs"
  by (induction xs) (auto simp: max_def split: if_splits)

section \<open>The programs\<close>

definition lis_inner :: "int list \<Rightarrow> nat \<Rightarrow> nat \<Rightarrow> nat list \<Rightarrow> nat list option" where
  "lis_inner nums i j dp = do {
     x \<leftarrow> vec_get nums i;
     y \<leftarrow> vec_get nums j;
     if x > y then do { a \<leftarrow> vec_get dp i; b \<leftarrow> vec_get dp j; vec_set dp i (max a (b + 1)) } else Some dp }"

definition lis_outer :: "int list \<Rightarrow> nat \<Rightarrow> nat list \<times> nat \<Rightarrow> (nat list \<times> nat) option" where
  "lis_outer nums i = (\<lambda>(dp, result). do {
     dp' \<leftarrow> for_up 0 i (lis_inner nums i) dp;
     v \<leftarrow> vec_get dp' i;
     Some (dp', if result < v then v else result) })"

definition length_of_lis :: "int list \<Rightarrow> nat option" where
  "length_of_lis nums =
     (let n = length nums
      in if n \<le> 1 then Some n
         else do { (dp, result) \<leftarrow> for_up 1 n (lis_outer nums) (replicate n 1, 1); Some result })"

text \<open>The second version counts in a variable of its own and runs through the earlier positions backwards.\<close>

definition lis_count :: "int list \<Rightarrow> nat list \<Rightarrow> nat \<Rightarrow> nat \<Rightarrow> nat \<Rightarrow> nat option" where
  "lis_count nums dp i j cnt = do {
     y \<leftarrow> vec_get nums j;
     x \<leftarrow> vec_get nums i;
     if y < x then do { b \<leftarrow> vec_get dp j; Some (max cnt (b + 1)) } else Some cnt }"

definition lis_outer_count :: "int list \<Rightarrow> nat \<Rightarrow> nat list \<times> nat \<Rightarrow> (nat list \<times> nat) option" where
  "lis_outer_count nums i = (\<lambda>(dp, result). do {
     cnt \<leftarrow> for_down 0 i (lis_count nums dp i) 1;
     dp' \<leftarrow> vec_set dp i cnt;
     v \<leftarrow> vec_get dp' i;
     Some (dp', if result < v then v else result) })"

definition length_of_lis_count :: "int list \<Rightarrow> nat option" where
  "length_of_lis_count nums =
     (let n = length nums
      in if n \<le> 1 then Some n
         else do { (dp, result) \<leftarrow> for_up 1 n (lis_outer_count nums) (replicate n 1, 1); Some result })"

text \<open>The program that returns a sequence.  Its table starts with zeros behind the first entry.\<close>

definition lis_seq_inner :: "int list \<Rightarrow> nat \<Rightarrow> nat \<Rightarrow> nat list \<times> nat \<times> nat \<Rightarrow> (nat list \<times> nat \<times> nat) option" where
  "lis_seq_inner arr i j = (\<lambda>(dp, indx, result). do {
     dp' \<leftarrow> lis_inner arr i j dp;
     v \<leftarrow> vec_get dp' i;
     Some (if result < v then (dp', i, v) else (dp', indx, result)) })"

definition lis_collect :: "int list \<Rightarrow> nat list \<Rightarrow> nat \<Rightarrow> int list \<times> nat \<times> nat \<Rightarrow> (int list \<times> nat \<times> nat) option" where
  "lis_collect arr dp j = (\<lambda>(v, indx, result). do {
     a \<leftarrow> vec_get dp indx;
     b \<leftarrow> vec_get dp j;
     x \<leftarrow> vec_get arr indx;
     y \<leftarrow> vec_get arr j;
     if a = b + 1 \<and> x > y
     then (if result = 0 then None else do { v' \<leftarrow> vec_set v (result - 1) y; Some (v', j, result - 1) })
     else Some (v, indx, result) })"

definition lis :: "int list \<Rightarrow> int list option" where
  "lis arr =
     (let n = length arr
      in if n \<le> 1 then do { x \<leftarrow> vec_get arr 0; Some [x] }
         else do {
           (dp, indx, result) \<leftarrow> for_up 1 n (\<lambda>i. for_up 0 i (lis_seq_inner arr i)) ((replicate n 0)[0 := 1], 0, 1);
           temp \<leftarrow> vec_get arr indx;
           v \<leftarrow> vec_set (replicate result 0) (result - 1) temp;
           (v', rest) \<leftarrow> for_down 0 indx (lis_collect arr dp) (v, indx, result - 1);
           Some v' })"

section \<open>Increasing subsequences that end at a position\<close>

definition below :: "int list \<Rightarrow> nat \<Rightarrow> nat \<Rightarrow> bool" where
  "below nums i j \<longleftrightarrow> nums ! j < nums ! i"

function lis_end :: "int list \<Rightarrow> nat \<Rightarrow> nat" where
  "lis_end nums i = Suc (max_list (map (\<lambda>j. if below nums i j then lis_end nums j else 0) [0..<i]))"
  by pat_completeness auto
termination by (relation "measure snd") auto

declare lis_end.simps [simp del]

definition lis_among :: "int list \<Rightarrow> nat \<Rightarrow> nat list \<Rightarrow> nat" where
  "lis_among nums i js = max_list (map (\<lambda>j. if below nums i j then lis_end nums j else 0) js)"

lemma lis_among_simps [simp]:
  "lis_among nums i [] = 0"
  "lis_among nums i (js @ ks) = max (lis_among nums i js) (lis_among nums i ks)"
  "lis_among nums i (j # js) = max (if below nums i j then lis_end nums j else 0) (lis_among nums i js)"
  by (simp_all add: lis_among_def)

lemma lis_end_among: "lis_end nums i = Suc (lis_among nums i [0..<i])"
  by (subst lis_end.simps) (simp add: lis_among_def)

lemma lis_end_pos [simp]: "0 < lis_end nums i"
  by (simp add: lis_end_among)

lemma lis_end_below: "j < i \<Longrightarrow> below nums i j \<Longrightarrow> lis_end nums j < lis_end nums i"
  unfolding lis_end_among [of nums i] lis_among_def less_Suc_eq_le
  by (rule max_list_upper) (force simp: image_iff)

lemma lis_end_pred:
  assumes "1 < lis_end nums i"
  obtains j where "j < i" "below nums i j" "lis_end nums i = Suc (lis_end nums j)"
proof -
  have "lis_among nums i [0..<i] \<noteq> 0" using assms by (simp add: lis_end_among)
  then have "lis_among nums i [0..<i] \<in> set (map (\<lambda>j. if below nums i j then lis_end nums j else 0) [0..<i])"
    unfolding lis_among_def by (rule max_list_attained)
  then obtain j where "j < i" "lis_among nums i [0..<i] = (if below nums i j then lis_end nums j else 0)" by auto
  then show thesis using that [of j] \<open>lis_among nums i [0..<i] \<noteq> 0\<close> by (auto simp: lis_end_among [of nums i] split: if_splits)
qed

lemma subseq_last_at:
  assumes "subseq (ws @ [w]) (take i xs)" and "i \<le> length xs"
  shows "\<exists>j<i. xs ! j = w \<and> subseq ws (take j xs)"
  using assms
proof (induction i)
  case (Suc i)
  have "take (Suc i) xs = take i xs @ [xs ! i]" using Suc.prems by (simp add: take_Suc_conv_app_nth)
  then have "subseq (ws @ [w]) (take i xs) \<or> (w = xs ! i \<and> subseq ws (take i xs))"
    using Suc.prems(1) by (auto simp: subseq_snoc_iff)
  then show ?case using Suc by (auto intro: less_SucI)
qed simp

lemma lis_end_upper:
  assumes "subseq ws (take i nums)" and "sorted_wrt (<) (ws @ [nums ! i])" and "i < length nums"
  shows "length (ws @ [nums ! i]) \<le> lis_end nums i"
  using assms
proof (induction i arbitrary: ws rule: less_induct)
  case (less i)
  show ?case
  proof (cases ws rule: rev_cases)
    case Nil
    then show ?thesis by (simp add: Suc_leI)
  next
    case (snoc us u)
    then obtain j where j: "j < i" "nums ! j = u" "subseq us (take j nums)"
      using subseq_last_at [of us u i nums] less.prems by auto
    have "sorted_wrt (<) (us @ [nums ! j])" "u < nums ! i" using less.prems(2) snoc j(2) by (auto simp: sorted_wrt_append)
    then have "length (us @ [nums ! j]) \<le> lis_end nums j" using less.IH [OF j(1,3)] less.prems(3) j(1) by auto
    moreover have "lis_end nums j < lis_end nums i" using j \<open>u < nums ! i\<close> by (intro lis_end_below) (auto simp: below_def)
    ultimately show ?thesis using snoc by simp
  qed
qed

lemma subseq_snoc_take: "subseq ws (take j xs) \<Longrightarrow> j < i \<Longrightarrow> i \<le> length xs \<Longrightarrow> subseq (ws @ [xs ! j]) (take i xs)"
proof -
  assume a: "subseq ws (take j xs)" "j < i" "i \<le> length xs"
  have "take i xs = take j xs @ [xs ! j] @ drop (Suc j) (take i xs)"
    using a id_take_nth_drop [of j "take i xs"] by simp
  moreover have "subseq [xs ! j] ([xs ! j] @ drop (Suc j) (take i xs))" by simp
  ultimately show ?thesis using list_emb_append_mono [OF a(1)] by metis
qed

lemma lis_end_attained:
  "i < length nums \<Longrightarrow> \<exists>ws. subseq ws (take i nums) \<and> sorted_wrt (<) (ws @ [nums ! i]) \<and> length (ws @ [nums ! i]) = lis_end nums i"
proof (induction i rule: less_induct)
  case (less i)
  show ?case
  proof (cases "lis_end nums i > 1")
    case False
    then have "lis_end nums i = 1" using lis_end_pos [of nums i] by linarith
    then show ?thesis by (intro exI [of _ "[]"]) simp
  next
    case True
    then obtain j where j: "j < i" "below nums i j" "lis_end nums i = Suc (lis_end nums j)" by (rule lis_end_pred)
    then obtain ws where ws: "subseq ws (take j nums)" "sorted_wrt (<) (ws @ [nums ! j])" "length (ws @ [nums ! j]) = lis_end nums j"
      using less by (metis order.strict_trans)
    have "subseq (ws @ [nums ! j]) (take i nums)" using subseq_snoc_take [OF ws(1) j(1)] less.prems by simp
    moreover have "sorted_wrt (<) ((ws @ [nums ! j]) @ [nums ! i])"
      using ws(2) j(2) by (fastforce simp: below_def sorted_wrt_append)
    ultimately show ?thesis using ws(3) j(3) by (intro exI [of _ "ws @ [nums ! j]"]) simp
  qed
qed

text \<open>The maximum over all positions is the length of a longest increasing subsequence.\<close>

definition lis_max :: "int list \<Rightarrow> nat \<Rightarrow> nat" where
  "lis_max nums n = max_list (map (lis_end nums) [0..<n])"

lemma lis_max_Suc [simp]: "lis_max nums (Suc n) = max (lis_max nums n) (lis_end nums n)"
  by (simp add: lis_max_def)

lemma lis_max_0 [simp]: "lis_max nums 0 = 0"
  by (simp add: lis_max_def)

lemma lis_max_upper: "i < n \<Longrightarrow> lis_end nums i \<le> lis_max nums n"
  unfolding lis_max_def by (intro max_list_upper) simp

lemma lis_max_longest:
  shows "\<exists>zs. subseq zs nums \<and> sorted_wrt (<) zs \<and> length zs = lis_max nums (length nums)"
    and "subseq zs nums \<Longrightarrow> sorted_wrt (<) zs \<Longrightarrow> length zs \<le> lis_max nums (length nums)"
proof -
  show "\<exists>zs. subseq zs nums \<and> sorted_wrt (<) zs \<and> length zs = lis_max nums (length nums)"
  proof (cases "lis_max nums (length nums) = 0")
    case True
    then show ?thesis by (intro exI [of _ "[]"]) simp
  next
    case False
    then obtain i where i: "i < length nums" "lis_max nums (length nums) = lis_end nums i"
      using max_list_attained [of "map (lis_end nums) [0..<length nums]"] unfolding lis_max_def by auto
    obtain ws where ws: "subseq ws (take i nums)" "sorted_wrt (<) (ws @ [nums ! i])" "length (ws @ [nums ! i]) = lis_end nums i"
      using lis_end_attained [OF i(1)] by blast
    then show ?thesis using subseq_snoc_take [OF ws(1) i(1)] i(2) by (intro exI [of _ "ws @ [nums ! i]"]) simp
  qed
  show "length zs \<le> lis_max nums (length nums)" if zs: "subseq zs nums" "sorted_wrt (<) zs"
  proof (cases zs rule: rev_cases)
    case (snoc ws w)
    then obtain j where j: "j < length nums" "nums ! j = w" "subseq ws (take j nums)"
      using subseq_last_at [of ws w "length nums" nums] zs by auto
    then show ?thesis using lis_end_upper [OF j(3)] lis_max_upper [OF j(1), of nums] zs(2) snoc by (auto intro: order_trans)
  qed simp
qed

section \<open>The lengths\<close>

text \<open>Entries in front of position \<open>i\<close> are final, the others as they were.\<close>

definition lis_entries :: "int list \<Rightarrow> nat \<Rightarrow> nat list \<Rightarrow> bool" where
  "lis_entries nums i dp \<longleftrightarrow> length dp = length nums \<and> (\<forall>a<length nums. dp ! a = (if a < i then lis_end nums a else 1))"

lemma lis_entries_next:
  assumes "lis_entries nums i dp" and "i < length nums"
  shows "lis_entries nums (Suc i) (dp[i := lis_end nums i])"
  using assms unfolding lis_entries_def by (auto simp: nth_list_update less_Suc_eq)

lemma lis_entries_length: "lis_entries nums i dp \<Longrightarrow> length dp = length nums"
  by (simp add: lis_entries_def)

lemma lis_inner_loop:
  assumes dp: "lis_entries nums i dp" and i: "i < length nums"
  shows "for_up 0 i (lis_inner nums i) dp = Some (dp[i := lis_end nums i])"
proof -
  have "\<exists>dp'. for_up 0 i (lis_inner nums i) dp = Some dp' \<and> dp' = dp[i := Suc (lis_among nums i [0..<i])]"
  proof (rule for_up_rule [where P = "\<lambda>j dp'. dp' = dp[i := Suc (lis_among nums i [0..<j])]"])
    have "dp ! i = Suc 0" using dp i by (simp add: lis_entries_def)
    then show "dp = dp[i := Suc (lis_among nums i [0..<0])]" using list_update_id [of dp i] by simp
  next
    fix j dp'
    assume j: "j < i" and dp': "dp' = dp[i := Suc (lis_among nums i [0..<j])]"
    show "\<exists>s'. lis_inner nums i j dp' = Some s' \<and> s' = dp[i := Suc (lis_among nums i [0..<Suc j])]"
      using dp i j unfolding dp' lis_inner_def lis_entries_def by (auto simp: vec_simps below_def max_def)
  qed simp
  then show ?thesis by (simp add: lis_end_among)
qed

lemma lis_count_loop:
  assumes dp: "lis_entries nums i dp" and i: "i < length nums"
  shows "for_down 0 i (lis_count nums dp i) 1 = Some (lis_end nums i)"
proof -
  have "\<exists>c. for_down 0 i (lis_count nums dp i) 1 = Some c \<and> c = Suc (lis_among nums i [0..<i])"
  proof (rule for_down_rule [where P = "\<lambda>j c. c = Suc (lis_among nums i [j..<i])"])
    fix j c
    assume j: "j < i" and c: "c = Suc (lis_among nums i [Suc j..<i])"
    show "\<exists>s'. lis_count nums dp i j c = Some s' \<and> s' = Suc (lis_among nums i [j..<i])"
      using dp i j unfolding c lis_count_def lis_entries_def by (auto simp: vec_simps below_def max_def upt_conv_Cons [of j i])
  qed simp_all
  then show ?thesis by (simp add: lis_end_among)
qed

lemma lis_outer_loop:
  assumes body: "\<And>i dp result. lis_entries nums i dp \<Longrightarrow> i < length nums \<Longrightarrow>
      body i (dp, result) = Some (dp[i := lis_end nums i], if result < lis_end nums i then lis_end nums i else result)"
    and n: "1 < length nums"
  shows "\<exists>dp. for_up 1 (length nums) body (replicate (length nums) 1, 1) = Some (dp, lis_max nums (length nums))"
proof -
  have "\<exists>st. for_up 1 (length nums) body (replicate (length nums) 1, 1) = Some st \<and>
      lis_entries nums (length nums) (fst st) \<and> snd st = lis_max nums (length nums)"
  proof (rule for_up_rule [where P = "\<lambda>i st. lis_entries nums i (fst st) \<and> snd st = lis_max nums i"])
    have "lis_end nums 0 = 1" by (simp add: lis_end_among)
    then show "lis_entries nums 1 (fst (replicate (length nums) 1, 1)) \<and> snd (replicate (length nums) 1, 1) = lis_max nums 1"
      by (simp add: lis_entries_def)
  next
    fix i st
    assume i: "i < length nums" and "lis_entries nums i (fst st) \<and> snd st = lis_max nums i"
    then obtain dp where st: "st = (dp, lis_max nums i)" "lis_entries nums i dp" by (cases st) auto
    then show "\<exists>s'. body i st = Some s' \<and> lis_entries nums (Suc i) (fst s') \<and> snd s' = lis_max nums (Suc i)"
      using body [OF st(2) i, of "lis_max nums i"] lis_entries_next [OF st(2) i] by (simp add: max_def)
  qed (use n in simp)
  then show ?thesis by (metis prod.collapse)
qed

text \<open>
  Both versions of \<open>lengthOfLIS\<close> return the length of a longest strictly increasing subsequence.\<close>

theorem length_of_lis_correct:
  "\<exists>k. length_of_lis nums = Some k \<and> length_of_lis_count nums = Some k \<and>
     (\<exists>zs. subseq zs nums \<and> sorted_wrt (<) zs \<and> length zs = k) \<and>
     (\<forall>zs. subseq zs nums \<and> sorted_wrt (<) zs \<longrightarrow> length zs \<le> k)"
proof -
  have "length_of_lis nums = Some (lis_max nums (length nums)) \<and> length_of_lis_count nums = Some (lis_max nums (length nums))"
  proof (cases "length nums \<le> 1")
    case True
    then have "lis_max nums (length nums) = length nums" by (cases "length nums") (simp_all add: lis_end_among)
    then show ?thesis using True by (simp add: length_of_lis_def length_of_lis_count_def Let_def)
  next
    case False
    have a: "\<exists>dp. for_up 1 (length nums) (lis_outer nums) (replicate (length nums) 1, 1) = Some (dp, lis_max nums (length nums))"
      by (rule lis_outer_loop) (use False in \<open>auto simp: lis_outer_def lis_inner_loop vec_get_def lis_entries_length\<close>)
    have b: "\<exists>dp. for_up 1 (length nums) (lis_outer_count nums) (replicate (length nums) 1, 1) = Some (dp, lis_max nums (length nums))"
      by (rule lis_outer_loop)
        (use False in \<open>auto simp: lis_outer_count_def lis_count_loop [simplified] vec_get_def vec_set_def lis_entries_length\<close>)
    show ?thesis using False a b by (auto simp: length_of_lis_def length_of_lis_count_def Let_def)
  qed
  then show ?thesis using lis_max_longest by blast
qed

theorem length_of_lis_correct_witness:
  "\<exists>k. length_of_lis [2, 5, 3, 4] = Some k \<and> length_of_lis_count [2, 5, 3, 4] = Some k \<and>
     (\<forall>zs. subseq zs [2 :: int, 5, 3, 4] \<and> sorted_wrt (<) zs \<longrightarrow> length zs \<le> k)"
  using length_of_lis_correct [of "[2, 5, 3, 4]"] by blast

section \<open>The sequence\<close>

text \<open>
  The table of \<open>LIS\<close> starts with zeros, so an entry is right only when a smaller element comes before it.  When the first
  element is smaller than all others, this holds everywhere.
\<close>

definition seq_entries :: "int list \<Rightarrow> nat \<Rightarrow> nat list \<Rightarrow> bool" where
  "seq_entries arr i dp \<longleftrightarrow> length dp = length arr \<and> (\<forall>a<length arr. dp ! a = (if a < i then lis_end arr a else 0))"

definition seq_inv :: "int list \<Rightarrow> nat \<Rightarrow> nat list \<times> nat \<times> nat \<Rightarrow> bool" where
  "seq_inv arr i = (\<lambda>(dp, indx, result).
     seq_entries arr i dp \<and> indx < i \<and> lis_end arr indx = result \<and> result = lis_max arr i)"

definition seq_entry :: "int list \<Rightarrow> nat \<Rightarrow> nat \<Rightarrow> nat" where
  "seq_entry arr i j = (if j = 0 then 0 else Suc (lis_among arr i [0..<j]))"

lemma seq_inner_loop:
  assumes dp: "seq_entries arr i dp" and i: "0 < i" "i < length arr" and first: "arr ! 0 < arr ! i"
  shows "for_up 0 i (lis_seq_inner arr i) (dp, indx, result) =
    Some (dp[i := lis_end arr i], if result < lis_end arr i then i else indx, max result (lis_end arr i))"
proof -
  let ?u = "seq_entry arr i"
  have "\<exists>st. for_up 0 i (lis_seq_inner arr i) (dp, indx, result) = Some st \<and>
      st = (dp[i := ?u i], if result < ?u i then i else indx, max result (?u i))"
  proof (rule for_up_rule [where P = "\<lambda>j st. st = (dp[i := ?u j], if result < ?u j then i else indx, max result (?u j))"])
    have "dp ! i = 0" using dp i by (simp add: seq_entries_def)
    then show "(dp, indx, result) = (dp[i := ?u 0], if result < ?u 0 then i else indx, max result (?u 0))"
      using list_update_id [of dp i] by (simp add: seq_entry_def)
  next
    fix j st
    assume j: "j < i" and st: "st = (dp[i := ?u j], if result < ?u j then i else indx, max result (?u j))"
    have len: "length dp = length arr" "\<forall>a<i. dp ! a = lis_end arr a" using dp i by (auto simp: seq_entries_def)
    have u: "?u (Suc j) = (if below arr i j then max (?u j) (lis_end arr j + 1) else ?u j)"
      using first by (cases j) (auto simp: seq_entry_def below_def)
    have "lis_inner arr i j (dp[i := ?u j]) = Some (dp[i := ?u (Suc j)])"
      using len i j unfolding u lis_inner_def by (auto simp: vec_simps below_def)
    then have "lis_seq_inner arr i j st = Some (if max result (?u j) < ?u (Suc j) then (dp[i := ?u (Suc j)], i, ?u (Suc j))
        else (dp[i := ?u (Suc j)], if result < ?u j then i else indx, max result (?u j)))"
      using len i unfolding st lis_seq_inner_def by (simp add: vec_simps)
    moreover have "?u j \<le> ?u (Suc j)" unfolding u by simp
    ultimately show "\<exists>s'. lis_seq_inner arr i j st = Some s' \<and>
        s' = (dp[i := ?u (Suc j)], if result < ?u (Suc j) then i else indx, max result (?u (Suc j)))"
      by (auto simp: max_def)
  qed simp
  moreover have "?u i = lis_end arr i" using i by (simp add: seq_entry_def lis_end_among)
  ultimately show ?thesis by simp
qed

lemma seq_table:
  assumes n: "1 < length arr" and first: "\<forall>i<length arr. 0 < i \<longrightarrow> arr ! 0 < arr ! i"
  shows "\<exists>dp indx. for_up 1 (length arr) (\<lambda>i. for_up 0 i (lis_seq_inner arr i)) ((replicate (length arr) 0)[0 := 1], 0, 1) =
      Some (dp, indx, lis_max arr (length arr)) \<and> seq_inv arr (length arr) (dp, indx, lis_max arr (length arr))"
proof -
  have "\<exists>st. for_up 1 (length arr) (\<lambda>i. for_up 0 i (lis_seq_inner arr i)) ((replicate (length arr) 0)[0 := 1], 0, 1) = Some st \<and>
      seq_inv arr (length arr) st"
  proof (rule for_up_rule [where P = "seq_inv arr"])
    have "lis_end arr 0 = 1" by (simp add: lis_end_among)
    then show "seq_inv arr 1 ((replicate (length arr) 0)[0 := 1], 0, 1)"
      using n by (auto simp: seq_inv_def seq_entries_def nth_list_update)
  next
    fix i st
    assume i: "1 \<le> i" "i < length arr" and "seq_inv arr i st"
    then obtain dp indx where st: "st = (dp, indx, lis_max arr i)" "seq_entries arr i dp" "indx < i" "lis_end arr indx = lis_max arr i"
      by (cases st) (auto simp: seq_inv_def)
    have "seq_entries arr (Suc i) (dp[i := lis_end arr i])"
      using st(2) i unfolding seq_entries_def by (auto simp: nth_list_update less_Suc_eq)
    then show "\<exists>s'. for_up 0 i (lis_seq_inner arr i) st = Some s' \<and> seq_inv arr (Suc i) s'"
      using seq_inner_loop [OF st(2) _ i(2), of indx "lis_max arr i"] first i st(3,4) unfolding st(1)
      by (auto simp: seq_inv_def max_def)
  qed (use n in simp)
  then show ?thesis by (auto simp: seq_inv_def)
qed

text \<open>The walk back.  The entries from \<open>result\<close> on are written; unless one is reached that starts a sequence, a predecessor is still to come.\<close>

definition collect_inv :: "int list \<Rightarrow> nat \<Rightarrow> nat \<Rightarrow> int list \<times> nat \<times> nat \<Rightarrow> bool" where
  "collect_inv arr R j = (\<lambda>(v, indx, result).
     length v = R \<and> result < R \<and> j \<le> indx \<and> indx < length arr \<and> lis_end arr indx = Suc result \<and>
     sorted_wrt (<) (drop result v) \<and> v ! result = arr ! indx \<and> subseq (drop result v) (drop indx arr) \<and>
     (0 < result \<longrightarrow> (\<exists>k<j. below arr indx k \<and> lis_end arr indx = Suc (lis_end arr k))))"

lemma drop_update: "k < length v \<Longrightarrow> drop k (v[k := y]) = y # drop (Suc k) v"
  by (simp add: Cons_nth_drop_Suc [symmetric])

lemma subseq_Cons_drop:
  assumes "subseq zs (drop i xs)" and "j < i" and "i < length xs"
  shows "subseq (xs ! j # zs) (drop j xs)"
proof -
  have "subseq (drop i xs) (drop (Suc j) xs)"
    using assms(2) by (metis Suc_leI le_Suc_ex drop_drop add.commute suffix_drop suffix_imp_subseq)
  then have "subseq (xs ! j # zs) (xs ! j # drop (Suc j) xs)" using assms(1) by (auto dest: subseq_order.order_trans)
  then show ?thesis using assms by (simp add: Cons_nth_drop_Suc)
qed

lemma collect_step:
  assumes inv: "collect_inv arr R (Suc j) st" and dp: "seq_entries arr (length arr) dp"
  shows "\<exists>st'. lis_collect arr dp j st = Some st' \<and> collect_inv arr R j st'"
proof -
  obtain v indx result where st: "st = (v, indx, result)" by (cases st)
  have I: "length v = R" "result < R" "j < indx" "indx < length arr" "lis_end arr indx = Suc result" "sorted_wrt (<) (drop result v)"
      "v ! result = arr ! indx" "subseq (drop result v) (drop indx arr)"
      "0 < result \<Longrightarrow> \<exists>k<Suc j. below arr indx k \<and> lis_end arr indx = Suc (lis_end arr k)"
    using inv by (auto simp: collect_inv_def st)
  have get: "vec_get dp indx = Some (Suc result)" "vec_get dp j = Some (lis_end arr j)"
      "vec_get arr indx = Some (arr ! indx)" "vec_get arr j = Some (arr ! j)"
    using dp I(3-5) by (auto simp: seq_entries_def vec_simps)
  show ?thesis
  proof (cases "result = lis_end arr j \<and> arr ! j < arr ! indx")
    case True
    then obtain r where r: "result = Suc r" using lis_end_pos [of arr j] by (metis gr0_implies_Suc)
    let ?v = "v[r := arr ! j]"
    have tail: "drop r ?v = arr ! j # drop result v" using I(1,2) r by (simp add: drop_update)
    have hd: "drop result v = arr ! indx # drop (Suc result) v" using I(1,2,7) Cons_nth_drop_Suc [of result v] by simp
    have "sorted_wrt (<) (drop r ?v)" using I(6) True unfolding tail hd by (auto intro: less_trans)
    moreover have "subseq (drop r ?v) (drop j arr)" unfolding tail by (rule subseq_Cons_drop [OF I(8,3,4)])
    moreover have "\<exists>k<j. below arr j k \<and> lis_end arr j = Suc (lis_end arr k)" if "0 < r"
      using that True r lis_end_pred [of arr j] by (metis Suc_less_eq One_nat_def)
    ultimately have "collect_inv arr R j (?v, j, r)"
      using I(1-4) r True by (auto simp: collect_inv_def)
    moreover have "lis_collect arr dp j st = Some (?v, j, r)"
    proof -
      have e: "lis_end arr j = Suc r" using True r by simp
      show ?thesis using get I(1,2) True [THEN conjunct2] unfolding st r lis_collect_def by (simp add: vec_simps e)
    qed
    ultimately show ?thesis by blast
  next
    case False
    then have "lis_collect arr dp j st = Some st" using get by (auto simp: st lis_collect_def)
    moreover have "collect_inv arr R j st"
      using I False unfolding st collect_inv_def by (auto simp: less_Suc_eq below_def)
    ultimately show ?thesis by blast
  qed
qed

text \<open>
  \<open>LIS\<close> returns a longest strictly increasing subsequence of every array of at least two elements whose first one is smaller than all
  others.\<close>

theorem lis_correct:
  assumes n: "1 < length arr" and first: "\<forall>i<length arr. 0 < i \<longrightarrow> arr ! 0 < arr ! i"
  shows "\<exists>zs. lis arr = Some zs \<and> subseq zs arr \<and> sorted_wrt (<) zs \<and>
    (\<forall>ws. subseq ws arr \<and> sorted_wrt (<) ws \<longrightarrow> length ws \<le> length zs)"
proof -
  let ?R = "lis_max arr (length arr)"
  obtain dp indx where t: "for_up 1 (length arr) (\<lambda>i. for_up 0 i (lis_seq_inner arr i)) ((replicate (length arr) 0)[0 := 1], 0, 1) =
      Some (dp, indx, ?R)" "seq_entries arr (length arr) dp" "indx < length arr" "lis_end arr indx = ?R"
    using seq_table [OF n first] by (auto simp: seq_inv_def)
  then obtain r where r: "?R = Suc r" using lis_end_pos [of arr indx] by (cases ?R) auto
  let ?v = "(replicate ?R 0)[r := arr ! indx]"
  have "\<exists>st. for_down 0 indx (lis_collect arr dp) (?v, indx, r) = Some st \<and> collect_inv arr ?R 0 st"
  proof (rule for_down_rule [where P = "collect_inv arr ?R"])
    have tail: "drop r ?v = [arr ! indx]" unfolding r by (subst drop_update) (simp_all del: replicate_Suc)
    have "\<exists>k<indx. below arr indx k \<and> lis_end arr indx = Suc (lis_end arr k)" if "0 < r"
      using that r t(4) lis_end_pred [of arr indx] by (metis Suc_less_eq One_nat_def)
    moreover have "subseq [arr ! indx] (drop indx arr)" using t(3) by (simp add: Cons_nth_drop_Suc [symmetric])
    ultimately show "collect_inv arr ?R indx (?v, indx, r)"
      using r t(3,4) tail unfolding collect_inv_def by (auto simp del: replicate_Suc)
  qed (use collect_step t(2) in auto)
  then obtain v k result where v: "for_down 0 indx (lis_collect arr dp) (?v, indx, r) = Some (v, k, result)"
      "collect_inv arr ?R 0 (v, k, result)" by auto
  then have "result = 0" "length v = ?R" "sorted_wrt (<) v" "subseq v (drop k arr)" by (auto simp: collect_inv_def)
  moreover have "lis arr = Some v" using n t(1,3) v(1) r by (simp add: lis_def Let_def vec_simps)
  ultimately show ?thesis using lis_max_longest(2) [of _ arr] by (metis subseq_order.order_trans suffix_drop suffix_imp_subseq)
qed

theorem lis_correct_witness:
  "\<exists>zs. lis [1, 5, 3, 4] = Some zs \<and> subseq zs [1, 5, 3, 4] \<and> sorted_wrt (<) zs \<and>
     (\<forall>ws. subseq ws [1 :: int, 5, 3, 4] \<and> sorted_wrt (<) ws \<longrightarrow> length ws \<le> length zs)"
  by (rule lis_correct) (auto simp: less_Suc_eq numeral_eq_Suc)

text \<open>
  For other arrays the zeros are wrong: the sequence returned may be too short, and the walk back may write in front of the
  vector.  An empty array is read at its first position.\<close>

lemma lis_wrong:
  "lis [5, 1, 2] = Some [5]" "length_of_lis [5, 1, 2] = Some 2"
  "lis [5, 1, 2, 3] = None" "lis [] = None"
  by code_simp+

section \<open>Increasing contiguous parts\<close>

definition lcis_step :: "int list \<Rightarrow> nat \<Rightarrow> nat list \<times> nat \<Rightarrow> (nat list \<times> nat) option" where
  "lcis_step nums i = (\<lambda>(dp, result). do {
     y \<leftarrow> vec_get nums (i + 1);
     x \<leftarrow> vec_get nums i;
     dp' \<leftarrow> (if y > x then do { d \<leftarrow> vec_get dp i; vec_set dp (i + 1) (d + 1) } else Some dp);
     v \<leftarrow> vec_get dp' (i + 1);
     Some (dp', if v > result then v else result) })"

definition find_length_of_lcis :: "int list \<Rightarrow> nat option" where
  "find_length_of_lcis nums =
     (if length nums = 0 then Some 0
      else do { (dp, result) \<leftarrow> for_up 0 (length nums - 1) (lcis_step nums) (replicate (length nums) 1, 1); Some result })"

fun run_len :: "int list \<Rightarrow> nat \<Rightarrow> nat" where
  "run_len nums 0 = 1"
| "run_len nums (Suc i) = (if nums ! Suc i > nums ! i then Suc (run_len nums i) else 1)"

lemma run_len_pos [simp]: "0 < run_len nums i"
  by (cases i) auto

lemma run_len_upper:
  assumes "i < length nums" and "suffix zs (take (Suc i) nums)" and "sorted_wrt (<) zs"
  shows "length zs \<le> run_len nums i"
  using assms
proof (induction i arbitrary: zs)
  case 0
  then show ?case by (auto simp: take_Suc_conv_app_nth dest: suffix_length_le)
next
  case (Suc i)
  show ?case
  proof (cases zs rule: rev_cases)
    case (snoc ws z)
    have ws: "suffix ws (take (Suc i) nums)" "z = nums ! Suc i" "sorted_wrt (<) ws"
      using Suc.prems snoc by (auto simp: take_Suc_conv_app_nth [of "Suc i"] sorted_wrt_append)
    show ?thesis
    proof (cases ws rule: rev_cases)
      case inner: (snoc us u)
      then have "u = nums ! i" using ws(1) Suc.prems(1) by (simp add: take_Suc_conv_app_nth [of i])
      then have "nums ! i < nums ! Suc i" using Suc.prems(3) snoc inner ws(2) by (auto simp: sorted_wrt_append)
      then show ?thesis using Suc.IH [OF _ ws(1,3)] Suc.prems(1) snoc by simp
    qed (use snoc in simp)
  qed simp
qed

lemma run_len_attained:
  "i < length nums \<Longrightarrow> \<exists>zs. suffix zs (take (Suc i) nums) \<and> sorted_wrt (<) zs \<and> length zs = run_len nums i \<and> last zs = nums ! i"
proof (induction i)
  case 0
  then show ?case by (intro exI [of _ "[nums ! 0]"]) (simp add: take_Suc_conv_app_nth)
next
  case (Suc i)
  show ?case
  proof (cases "nums ! i < nums ! Suc i")
    case True
    obtain ws where ws: "suffix ws (take (Suc i) nums)" "sorted_wrt (<) ws" "length ws = run_len nums i" "last ws = nums ! i"
      using Suc by auto
    then have "sorted_wrt (<) (ws @ [nums ! Suc i])"
      using True by (cases ws rule: rev_cases) (auto simp: sorted_wrt_append intro: less_trans)
    then show ?thesis using True ws Suc.prems
      by (intro exI [of _ "ws @ [nums ! Suc i]"]) (simp add: take_Suc_conv_app_nth [of "Suc i"])
  next
    case False
    then show ?thesis using Suc.prems
      by (intro exI [of _ "[nums ! Suc i]"]) (simp add: take_Suc_conv_app_nth [of "Suc i"])
  qed
qed

definition lcis_inv :: "int list \<Rightarrow> nat \<Rightarrow> nat list \<times> nat \<Rightarrow> bool" where
  "lcis_inv nums i = (\<lambda>(dp, result).
     length dp = length nums \<and> (\<forall>a<length nums. dp ! a = (if a \<le> i then run_len nums a else 1)) \<and>
     result = max_list (map (run_len nums) [0..<Suc i]))"

lemma lcis_step_inv:
  assumes inv: "lcis_inv nums i st" and i: "Suc i < length nums"
  shows "\<exists>st'. lcis_step nums i st = Some st' \<and> lcis_inv nums (Suc i) st'"
proof -
  obtain dp result where st: "st = (dp, result)" by (cases st)
  let ?v = "run_len nums (Suc i)" let ?dp = "if nums ! Suc i > nums ! i then dp[Suc i := Suc (run_len nums i)] else dp"
  have dp: "length dp = length nums" "dp ! i = run_len nums i" "dp ! Suc i = 1" using inv i by (auto simp: lcis_inv_def st)
  have "lcis_step nums i st = Some (?dp, if ?v > result then ?v else result)"
    using i dp by (auto simp: st lcis_step_def vec_simps)
  moreover have "lcis_inv nums (Suc i) (?dp, if ?v > result then ?v else result)"
    using inv i dp unfolding st lcis_inv_def by (auto simp: nth_list_update le_Suc_eq max_def)
  ultimately show ?thesis by blast
qed

text \<open>\<open>findLengthOfLCIS\<close> returns the length of a longest strictly increasing contiguous part.\<close>

theorem find_length_of_lcis_correct:
  "\<exists>k. find_length_of_lcis nums = Some k \<and> (\<exists>zs. sublist zs nums \<and> sorted_wrt (<) zs \<and> length zs = k) \<and>
     (\<forall>zs. sublist zs nums \<and> sorted_wrt (<) zs \<longrightarrow> length zs \<le> k)"
proof (cases "nums = []")
  case True
  then show ?thesis by (auto simp: find_length_of_lcis_def)
next
  case False
  define k where "k = max_list (map (run_len nums) [0..<length nums])"
  have "\<exists>st. for_up 0 (length nums - 1) (lcis_step nums) (replicate (length nums) 1, 1) = Some st \<and> lcis_inv nums (length nums - 1) st"
    by (rule for_up_rule [where P = "lcis_inv nums"]) (use lcis_step_inv in \<open>auto simp: lcis_inv_def\<close>)
  then have k: "find_length_of_lcis nums = Some k"
    using False by (auto simp: find_length_of_lcis_def lcis_inv_def k_def)
  have "length zs \<le> k" if sub: "sublist zs nums" "sorted_wrt (<) zs" for zs
  proof -
    obtain i where i: "i \<le> length nums" "suffix zs (take i nums)" using sub(1) unfolding sublist_suffix_take by blast
    show ?thesis
    proof (cases i)
      case (Suc i')
      then have "length zs \<le> run_len nums i'" using run_len_upper [of i' nums zs] i sub(2) by auto
      also have "\<dots> \<le> k" unfolding k_def by (rule max_list_upper) (use Suc i in auto)
      finally show ?thesis .
    qed (use i in simp)
  qed
  moreover have "k \<noteq> 0" using False max_list_upper [of "run_len nums 0" "map (run_len nums) [0..<length nums]"] by (force simp: k_def)
  then obtain i where i: "i < length nums" "k = run_len nums i"
    using max_list_attained [of "map (run_len nums) [0..<length nums]"] unfolding k_def by auto
  then have "\<exists>zs. sublist zs nums \<and> sorted_wrt (<) zs \<and> length zs = k"
    using run_len_attained [OF i(1)] unfolding sublist_suffix_take by (metis Suc_leI)
  ultimately show ?thesis using k by blast
qed

end
