(* ===== verification/StringPrograms.thy ===== *)
theory StringPrograms
  imports Tables "HOL-Library.Sublist"
begin

text \<open>
  Programs of \<open>find_job/look_for_job.cpp\<close> on strings: counting the palindromic parts and finding the longest one with a table, the longest part
  without a repeated character with a sliding window, and the removal of adjacent equal characters with a stack.
\<close>

section \<open>Palindromes\<close>

text \<open>The part of a string between two positions, both included.\<close>

definition part :: "'a list \<Rightarrow> nat \<Rightarrow> nat \<Rightarrow> 'a list" where
  "part s i j = take (j + 1 - i) (drop i s)"

definition pal_test :: "string \<Rightarrow> bool list list \<Rightarrow> nat \<Rightarrow> nat \<Rightarrow> bool option" where
  "pal_test s dp i j = do {
     a \<leftarrow> vec_get s i;
     b \<leftarrow> vec_get s j;
     if a = b then (if j - i \<le> 1 then Some True else tab_get dp (i + 1) (j - 1)) else Some False }"

definition count_cell :: "string \<Rightarrow> nat \<Rightarrow> nat \<Rightarrow> bool list list \<times> nat \<Rightarrow> (bool list list \<times> nat) option" where
  "count_cell s i j = (\<lambda>(dp, result). do {
     t \<leftarrow> pal_test s dp i j;
     if t then do { dp' \<leftarrow> tab_set dp i j True; Some (dp', result + 1) } else Some (dp, result) })"

definition count_substrings :: "string \<Rightarrow> nat option" where
  "count_substrings s = do {
     (dp, result) \<leftarrow> for_down 0 (length s) (\<lambda>i. for_up i (length s) (count_cell s i)) (tab_new (length s) (length s) False, 0);
     Some result }"

definition longest_cell :: "string \<Rightarrow> nat \<Rightarrow> nat \<Rightarrow> bool list list \<times> string \<Rightarrow> (bool list list \<times> string) option" where
  "longest_cell A i j = (\<lambda>(dp, sub1). do {
     t \<leftarrow> pal_test A dp i j;
     if t then do {
       dp' \<leftarrow> tab_set dp i j True;
       let sub = part A i j in Some (dp', if length sub > length sub1 then sub else sub1) }
     else Some (dp, sub1) })"

definition get_longest_palindrome :: "string \<Rightarrow> nat \<Rightarrow> nat option" where
  "get_longest_palindrome A n = do {
     (dp, sub1) \<leftarrow> for_down 0 n (\<lambda>i. for_up i n (longest_cell A i)) (tab_new n n False, []);
     Some (length sub1) }"

definition palindrome :: "'a list \<Rightarrow> bool" where
  "palindrome xs \<longleftrightarrow> rev xs = xs"

definition pal :: "'a list \<Rightarrow> nat \<Rightarrow> nat \<Rightarrow> bool" where
  "pal s i j \<longleftrightarrow> i \<le> j \<and> palindrome (part s i j)"

lemma part_ends:
  assumes "i < j" and "j < length s"
  shows "part s i j = s ! i # part s (i + 1) (j - 1) @ [s ! j]"
proof -
  have "drop i s = s ! i # drop (Suc i) s" using assms by (simp add: Cons_nth_drop_Suc)
  moreover have "take (j - i) (drop (Suc i) s) = take (j - Suc i) (drop (Suc i) s) @ [s ! j]"
    using assms take_Suc_conv_app_nth [of "j - Suc i" "drop (Suc i) s"] by (simp add: Suc_diff_Suc)
  ultimately show ?thesis using assms by (simp add: part_def Suc_diff_le)
qed

lemma pal_rec:
  assumes "i \<le> j" and "j < length s"
  shows "pal s i j \<longleftrightarrow> s ! i = s ! j \<and> (j - i \<le> 1 \<or> pal s (i + 1) (j - 1))"
proof (cases "i = j")
  case True
  then show ?thesis using assms by (simp add: pal_def palindrome_def part_def take_Suc_conv_app_nth)
next
  case False
  then have "i < j" using assms by simp
  then have "palindrome (part s i j) \<longleftrightarrow> s ! i = s ! j \<and> palindrome (part s (i + 1) (j - 1))"
    using part_ends [OF _ assms(2)] by (auto simp: palindrome_def)
  moreover have "palindrome (part s (i + 1) (j - 1))" if "j - i \<le> 1" using that \<open>i < j\<close> by (simp add: part_def palindrome_def)
  ultimately show ?thesis using \<open>i < j\<close> by (auto simp: pal_def)
qed

text \<open>The table while the row of \<open>i\<close> is filled up to column \<open>j\<close>; rows below are complete.\<close>

definition pal_table :: "string \<Rightarrow> nat \<Rightarrow> nat \<Rightarrow> nat \<Rightarrow> bool list list \<Rightarrow> bool" where
  "pal_table s n i j dp \<longleftrightarrow> tab_dim dp n n \<and>
     (\<forall>a<n. \<forall>b<n. dp ! a ! b \<longleftrightarrow> pal s a b \<and> (i < a \<or> (i = a \<and> b < j)))"

lemma pal_test_correct:
  assumes t: "pal_table s n i j dp" and "i \<le> j" and "j < n" and "n \<le> length s"
  shows "pal_test s dp i j = Some (pal s i j)"
proof (cases "s ! i = s ! j \<and> \<not> j - i \<le> 1")
  case True
  have "tab_get dp (i + 1) (j - 1) = Some (dp ! (i + 1) ! (j - 1))"
    using t assms True by (intro tab_get_in) (auto simp: pal_table_def)
  moreover have "dp ! (i + 1) ! (j - 1) = pal s (i + 1) (j - 1)" using t assms True by (auto simp: pal_table_def)
  ultimately show ?thesis using True assms pal_rec [of i j s] by (simp add: pal_test_def vec_simps)
next
  case False
  then show ?thesis using assms pal_rec [of i j s] by (auto simp: pal_test_def vec_simps)
qed

lemma pal_table_step:
  assumes "pal_table s n i j dp" and "i \<le> j" and "j < n"
  shows "pal s i j \<Longrightarrow> \<exists>dp'. tab_set dp i j True = Some dp' \<and> pal_table s n i (Suc j) dp'"
    and "\<not> pal s i j \<Longrightarrow> pal_table s n i (Suc j) dp"
proof -
  have d: "tab_dim dp n n" using assms(1) by (simp add: pal_table_def)
  have i: "i < n" using assms by simp
  assume p: "pal s i j"
  have "pal_table s n i (Suc j) (dp[i := (dp ! i)[j := True]])"
    using assms d p i unfolding pal_table_def by (auto simp: tab_upd_nth [OF d i assms(3)] less_Suc_eq)
  then show "\<exists>dp'. tab_set dp i j True = Some dp' \<and> pal_table s n i (Suc j) dp'"
    using tab_set_in [OF d i assms(3)] by simp
qed (use assms in \<open>auto simp: pal_table_def less_Suc_eq\<close>)

text \<open>
  Both programs run through the same table; \<open>Q D\<close> is what they keep about the palindromic parts \<open>D\<close> found so far.
\<close>

definition pals_from :: "string \<Rightarrow> nat \<Rightarrow> nat \<Rightarrow> nat \<Rightarrow> (nat \<times> nat) set" where
  "pals_from s n i j = {(a, b). b < n \<and> pal s a b \<and> (i < a \<or> (i = a \<and> b < j))}"

lemma pals_from_step: "i \<le> j \<Longrightarrow> j < n \<Longrightarrow> pals_from s n i (Suc j) = (if pal s i j then insert (i, j) (pals_from s n i j) else pals_from s n i j)"
  by (auto simp: pals_from_def less_Suc_eq)

lemma pal_loops:
  fixes cell :: "nat \<Rightarrow> nat \<Rightarrow> bool list list \<times> 'r \<Rightarrow> (bool list list \<times> 'r) option"
  assumes n: "n \<le> length s" and start: "Q {} r0"
    and found: "\<And>i j dp r dp'. i \<le> j \<Longrightarrow> j < n \<Longrightarrow> pal_test s dp i j = Some True \<Longrightarrow> tab_set dp i j True = Some dp' \<Longrightarrow>
        pal s i j \<Longrightarrow> Q (pals_from s n i j) r \<Longrightarrow> \<exists>r'. cell i j (dp, r) = Some (dp', r') \<and> Q (insert (i, j) (pals_from s n i j)) r'"
    and none: "\<And>i j dp r. pal_test s dp i j = Some False \<Longrightarrow> cell i j (dp, r) = Some (dp, r)"
  shows "\<exists>dp r. for_down 0 n (\<lambda>i. for_up i n (cell i)) (tab_new n n False, r0) = Some (dp, r) \<and> Q {(a, b). b < n \<and> pal s a b} r"
proof -
  define P where "P i j st \<longleftrightarrow> pal_table s n i j (fst st) \<and> Q (pals_from s n i j) (snd st)" for i j st
  have row: "\<exists>st'. for_up i n (cell i) st = Some st' \<and> P i n st'" if i: "i < n" and st: "P i i st" for i st
  proof (rule for_up_rule [where P = "P i"])
    fix j st
    assume j: "i \<le> j" "j < n" and "P i j st"
    then obtain dp r where st: "st = (dp, r)" "pal_table s n i j dp" "Q (pals_from s n i j) r" by (cases st) (auto simp: P_def)
    note test = pal_test_correct [OF st(2) j n] and step = pal_table_step [OF st(2) j]
    show "\<exists>st'. cell i j st = Some st' \<and> P i (Suc j) st'"
    proof (cases "pal s i j")
      case True
      then obtain dp' where "tab_set dp i j True = Some dp'" "pal_table s n i (Suc j) dp'" using step(1) by blast
      then show ?thesis using found [OF j _ _ True st(3)] test True by (fastforce simp: st(1) P_def pals_from_step [OF j])
    next
      case False
      then show ?thesis using none [of dp i j r] test step(2) st by (simp add: P_def pals_from_step [OF j])
    qed
  qed (use i st in auto)
  define R where "R i st \<longleftrightarrow> tab_dim (fst st) n n \<and> (\<forall>a<n. \<forall>b<n. fst st ! a ! b \<longleftrightarrow> pal s a b \<and> i \<le> a) \<and>
      Q {(a, b). b < n \<and> pal s a b \<and> i \<le> a} (snd st)" for i st
  have "\<exists>st. for_down 0 n (\<lambda>i. for_up i n (cell i)) (tab_new n n False, r0) = Some st \<and> R 0 st"
  proof (rule for_down_rule [where P = R])
    have e: "{(a, b). b < n \<and> pal s a b \<and> n \<le> a} = {}" by (auto simp: pal_def)
    show "R n (tab_new n n False, r0)" unfolding R_def e using start by simp
  next
    fix i st
    assume i: "i < n" and st: "R (Suc i) st"
    have "pals_from s n i i = {(a, b). b < n \<and> pal s a b \<and> Suc i \<le> a}" "pals_from s n i n = {(a, b). b < n \<and> pal s a b \<and> i \<le> a}"
      by (auto simp: pals_from_def pal_def)
    moreover have "pal_table s n i i (fst st)" using st by (auto simp: R_def pal_table_def pal_def)
    moreover have "pal_table s n i n dp \<longleftrightarrow> tab_dim dp n n \<and> (\<forall>a<n. \<forall>b<n. dp ! a ! b \<longleftrightarrow> pal s a b \<and> i \<le> a)" for dp
      unfolding pal_table_def by auto
    ultimately show "\<exists>st'. for_up i n (cell i) st = Some st' \<and> R i st'"
      using row [OF i, of st] st by (simp add: P_def R_def)
  qed simp
  then show ?thesis by (auto simp: R_def)
qed

text \<open>\<open>countSubstrings\<close> returns the number of pairs of positions between which the string is a palindrome.\<close>

theorem count_substrings_correct:
  "count_substrings s = Some (card {(i, j). i \<le> j \<and> j < length s \<and> palindrome (part s i j)})"
proof -
  have fin: "finite (pals_from s n i j)" for n i j
    by (rule finite_subset [of _ "{..<n} \<times> {..<n}"]) (auto simp: pals_from_def pal_def)
  have notin: "(i, j) \<notin> pals_from s n i j" for n i j by (simp add: pals_from_def)
  have "\<exists>dp r. for_down 0 (length s) (\<lambda>i. for_up i (length s) (count_cell s i)) (tab_new (length s) (length s) False, 0) = Some (dp, r) \<and>
      r = card {(a, b). b < length s \<and> pal s a b}"
    by (rule pal_loops [where Q = "\<lambda>D r. r = card D"]) (auto simp: count_cell_def fin notin)
  moreover have "{(a, b). b < length s \<and> pal s a b} = {(i, j). i \<le> j \<and> j < length s \<and> palindrome (part s i j)}"
    by (auto simp: pal_def)
  ultimately show ?thesis by (auto simp: count_substrings_def)
qed

lemma sublist_part: "sublist zs s \<and> zs \<noteq> [] \<longleftrightarrow> (\<exists>i j. i \<le> j \<and> j < length s \<and> zs = part s i j)"
proof
  assume "sublist zs s \<and> zs \<noteq> []"
  then obtain ps ss where s: "s = ps @ zs @ ss" "zs \<noteq> []" by (auto simp: sublist_def)
  then show "\<exists>i j. i \<le> j \<and> j < length s \<and> zs = part s i j"
    by (intro exI [of _ "length ps"] exI [of _ "length ps + length zs - 1"]) (cases zs; simp add: part_def)
next
  assume "\<exists>i j. i \<le> j \<and> j < length s \<and> zs = part s i j"
  then show "sublist zs s \<and> zs \<noteq> []"
    by (auto simp: part_def intro: sublist_order.order_trans [OF sublist_take sublist_drop])
qed

text \<open>
  \<open>getLongestPalindrome\<close> returns the length of a longest palindromic part of the first \<open>n\<close> characters.\<close>

theorem get_longest_palindrome_correct:
  assumes "n \<le> length A"
  shows "\<exists>k. get_longest_palindrome A n = Some k \<and> (\<exists>zs. sublist zs (take n A) \<and> palindrome zs \<and> length zs = k) \<and>
    (\<forall>zs. sublist zs (take n A) \<and> palindrome zs \<longrightarrow> length zs \<le> k)"
proof -
  let ?Q = "\<lambda>D sub1. (\<forall>(a, b)\<in>D. length (part A a b) \<le> length sub1) \<and> (sub1 = [] \<or> (\<exists>a b. b < n \<and> pal A a b \<and> sub1 = part A a b))"
  have "\<exists>dp sub1. for_down 0 n (\<lambda>i. for_up i n (longest_cell A i)) (tab_new n n False, []) = Some (dp, sub1) \<and>
      ?Q {(a, b). b < n \<and> pal A a b} sub1"
    by (rule pal_loops [where Q = ?Q, OF assms]) (auto simp: longest_cell_def Let_def)
  then obtain dp sub1 where l: "for_down 0 n (\<lambda>i. for_up i n (longest_cell A i)) (tab_new n n False, []) = Some (dp, sub1)"
      "?Q {(a, b). b < n \<and> pal A a b} sub1" by blast
  have same: "part A a b = part (take n A) a b" if "b < n" "a \<le> b" for a b using that by (simp add: part_def drop_take min_def)
  have "length zs \<le> length sub1" if zs: "sublist zs (take n A)" "palindrome zs" for zs
  proof (cases "zs = []")
    case False
    then obtain i j where "i \<le> j" "j < length (take n A)" "zs = part (take n A) i j" using sublist_part [of zs "take n A"] zs(1) by blast
    moreover from this have "part A i j = zs" "pal A i j" "j < n" using zs(2) same [of j i] by (auto simp: pal_def)
    ultimately show ?thesis using bspec [OF conjunct1 [OF l(2)], of "(i, j)"] by simp
  qed simp
  moreover have "\<exists>zs. sublist zs (take n A) \<and> palindrome zs \<and> length zs = length sub1"
  proof (cases "sub1 = []")
    case True
    then show ?thesis by (intro exI [of _ "[]"]) (simp add: palindrome_def)
  next
    case False
    then obtain a b where "b < n" "pal A a b" "sub1 = part A a b" using l(2) by blast
    then show ?thesis using same [of b a] sublist_part [of sub1 "take n A"] assms by (intro exI [of _ sub1]) (auto simp: pal_def)
  qed
  ultimately show ?thesis using l(1) by (auto simp: get_longest_palindrome_def)
qed

theorem get_longest_palindrome_correct_witness:
  "\<exists>k. get_longest_palindrome ''abac'' 4 = Some k \<and> (\<forall>zs. sublist zs ''abac'' \<and> palindrome zs \<longrightarrow> length zs \<le> k)"
  using get_longest_palindrome_correct [of 4 "''abac''"] by auto

section \<open>The longest part without a repeated character\<close>

text \<open>The inner loop moves the right end; the outer loop the left end.\<close>

function window_grow :: "string \<Rightarrow> nat \<Rightarrow> char set \<Rightarrow> nat \<times> char set" where
  "window_grow s right sub = (if right < length s \<and> s ! right \<notin> sub then window_grow s (right + 1) (insert (s ! right) sub) else (right, sub))"
  by pat_completeness auto
termination by (relation "measure (\<lambda>(s, right, sub). length s - right)") auto

declare window_grow.simps [simp del]

function window_loop :: "string \<Rightarrow> nat \<Rightarrow> nat \<Rightarrow> char set \<Rightarrow> nat \<Rightarrow> nat" where
  "window_loop s left right sub maxLength =
     (if left < length s
      then let (right', sub') = window_grow s right sub;
               maxLength' = max maxLength (right' - left)
           in if right' = length s then maxLength'
              else window_loop s (left + 1) right' (sub' - {s ! left}) maxLength'
      else maxLength)"
  by pat_completeness auto
termination by (relation "measure (\<lambda>(s, left, right, sub, m). length s - left)") auto

declare window_loop.simps [simp del]

definition length_of_longest_substring :: "string \<Rightarrow> nat" where
  "length_of_longest_substring s = (if length s = 0 then 0 else window_loop s 0 0 {} 0)"

text \<open>The characters from \<open>i\<close> up to but without \<open>j\<close>.\<close>

definition window :: "'a list \<Rightarrow> nat \<Rightarrow> nat \<Rightarrow> 'a list" where
  "window s i j = take (j - i) (drop i s)"

lemma window_snoc: "i \<le> j \<Longrightarrow> j < length s \<Longrightarrow> window s i (Suc j) = window s i j @ [s ! j]"
  by (simp add: window_def Suc_diff_le take_Suc_conv_app_nth)

lemma window_Cons: "i < j \<Longrightarrow> j \<le> length s \<Longrightarrow> window s i j = s ! i # window s (Suc i) j"
  by (simp add: window_def flip: Cons_nth_drop_Suc Suc_diff_Suc)

lemma window_length: "i \<le> j \<Longrightarrow> j \<le> length s \<Longrightarrow> length (window s i j) = j - i"
  by (simp add: window_def)

lemma window_prefix: "j \<le> k \<Longrightarrow> prefix (window s i j) (window s i k)"
  by (simp add: window_def take_is_prefix le_diff_conv prefix_def) (metis append_take_drop_id diff_le_mono min.absorb1 take_take)

lemma window_grow_correct:
  assumes "left \<le> right" "right \<le> length s" "distinct (window s left right)" "sub = set (window s left right)"
  shows "\<exists>right'. window_grow s right sub = (right', set (window s left right')) \<and> right \<le> right' \<and> right' \<le> length s \<and>
    distinct (window s left right') \<and> (right' < length s \<longrightarrow> \<not> distinct (window s left (Suc right')))"
  using assms
proof (induction s right sub rule: window_grow.induct)
  case (1 s right sub)
  show ?case
  proof (cases "right < length s \<and> s ! right \<notin> sub")
    case True
    then show ?thesis using "1.IH" "1.prems" window_snoc [of left right s]
      by (subst window_grow.simps) (fastforce dest: Suc_leD)
  next
    case False
    then show ?thesis using "1.prems" window_snoc [of left right s] by (subst window_grow.simps) auto
  qed
qed

definition window_max :: "string \<Rightarrow> nat \<Rightarrow> nat \<Rightarrow> bool" where
  "window_max s left m \<longleftrightarrow> (\<forall>a b. a < left \<longrightarrow> a \<le> b \<longrightarrow> b \<le> length s \<longrightarrow> distinct (window s a b) \<longrightarrow> b - a \<le> m) \<and>
     (\<exists>zs. sublist zs s \<and> distinct zs \<and> length zs = m)"

lemma sublist_window: "sublist (window s a b) s"
  unfolding window_def by (rule sublist_order.order_trans [OF sublist_take sublist_drop])

lemma window_loop_correct:
  assumes "left \<le> right" "right \<le> length s" "distinct (window s left right)" "sub = set (window s left right)" "window_max s left m"
  shows "window_max s (length s) (window_loop s left right sub m)"
  using assms
proof (induction s left right sub m rule: window_loop.induct)
  case (1 s left right sub m)
  show ?case
  proof (cases "left < length s")
    case False
    then have "left = length s" using "1.prems"(1,2) by simp
    then show ?thesis using "1.prems"(5) by (subst window_loop.simps) simp
  next
    case True
    obtain r where r: "window_grow s right sub = (r, set (window s left r))" "right \<le> r" "r \<le> length s" "distinct (window s left r)"
        "r < length s \<Longrightarrow> \<not> distinct (window s left (Suc r))"
      using window_grow_correct [OF "1.prems"(1-4)] by blast
    have len: "length (window s left r) = r - left" using r(2,3) "1.prems"(1) by (intro window_length) auto
    have bound: "b \<le> r" if b: "distinct (window s left b)" "b \<le> length s" for b
    proof (rule ccontr)
      assume "\<not> b \<le> r"
      then have "\<not> distinct (window s left (Suc r))" "prefix (window s left (Suc r)) (window s left b)"
        using r(5) b(2) window_prefix [of "Suc r" b s left] by auto
      then show False using b(1) by (auto simp: prefix_def)
    qed
    have "b - a \<le> max m (r - left)" if "a < Suc left" "a \<le> b" "b \<le> length s" "distinct (window s a b)" for a b
    proof (cases "a = left")
      case True
      then show ?thesis using bound [of b] that by auto
    next
      case False
      then have "b - a \<le> m" using "1.prems"(5) that unfolding window_max_def by auto
      then show ?thesis by simp
    qed
    moreover have "\<exists>zs. sublist zs s \<and> distinct zs \<and> length zs = max m (r - left)"
      using "1.prems"(5) len r(4) sublist_window [of s left r] unfolding window_max_def max_def by auto
    ultimately have next_max: "window_max s (Suc left) (max m (r - left))" unfolding window_max_def by blast
    show ?thesis
    proof (cases "r = length s")
      case r_end: True
      have "b - a \<le> max m (r - left)" if "a < length s" "a \<le> b" "b \<le> length s" "distinct (window s a b)" for a b
        using that next_max r_end unfolding window_max_def by (cases "a < Suc left") auto
      then have "window_max s (length s) (max m (r - left))" using next_max unfolding window_max_def by simp
      then show ?thesis using True r(1) r_end by (subst window_loop.simps) simp
    next
      case False
      have "distinct (window s left (Suc left))" using True by (simp add: window_def take_Suc_conv_app_nth)
      then have "left < r" using bound [of "Suc left"] True by simp
      then have w: "window s left r = s ! left # window s (Suc left) r" using r(3) by (rule window_Cons)
      then have "set (window s left r) - {s ! left} = set (window s (Suc left) r)" "distinct (window s (Suc left) r)"
        using r(4) by auto
      then have "window_max s (length s) (window_loop s (left + 1) r (set (window s left r) - {s ! left}) (max m (r - left)))"
        using "1.IH" [OF True r(1) [symmetric] refl refl False] \<open>left < r\<close> r(3) next_max by simp
      then show ?thesis using True r(1) False by (subst window_loop.simps) simp
    qed
  qed
qed

text \<open>
  \<open>lengthOfLongestSubstring\<close> returns the length of a longest part of the string in which no character is repeated.\<close>

theorem length_of_longest_substring_correct:
  "(\<exists>zs. sublist zs s \<and> distinct zs \<and> length zs = length_of_longest_substring s) \<and>
   (\<forall>zs. sublist zs s \<and> distinct zs \<longrightarrow> length zs \<le> length_of_longest_substring s)"
proof (cases "s = []")
  case True
  then show ?thesis by (simp add: length_of_longest_substring_def)
next
  case False
  have "window_max s 0 0" unfolding window_max_def by (auto intro: exI [of _ "[]"])
  then have w: "window_max s (length s) (length_of_longest_substring s)"
    using window_loop_correct [of 0 0 s "{}" 0] False by (simp add: length_of_longest_substring_def window_def)
  have "length zs \<le> length_of_longest_substring s" if sub: "sublist zs s" "distinct zs" for zs
  proof (cases "zs = []")
    case nonempty: False
    obtain ps ss where s: "s = ps @ zs @ ss" using sub(1) by (auto simp: sublist_def)
    then have "window s (length ps) (length ps + length zs) = zs" by (simp add: window_def)
    then show ?thesis using w sub(2) s nonempty unfolding window_max_def
      by (metis add_diff_cancel_left' le_add1 length_append length_greater_0_conv less_add_same_cancel1 add_le_cancel_left append_is_Nil_conv)
  qed simp
  then show ?thesis using w unfolding window_max_def by blast
qed

theorem length_of_longest_substring_correct_witness:
  "\<forall>zs. sublist zs ''abcab'' \<and> distinct zs \<longrightarrow> length zs \<le> length_of_longest_substring ''abcab''"
  using length_of_longest_substring_correct [of "''abcab''"] by blast

section \<open>Removing adjacent equal characters\<close>

text \<open>The result is built like a stack, its top at the end.\<close>

definition dedup_step :: "char \<Rightarrow> string \<Rightarrow> string" where
  "dedup_step c result = (if result = [] \<or> last result \<noteq> c then result @ [c] else butlast result)"

definition remove_duplicates :: "string \<Rightarrow> string" where
  "remove_duplicates s = fold dedup_step s []"

text \<open>The specification: pairs of equal neighbours are deleted until there are none.\<close>

inductive delete_pair :: "string \<Rightarrow> string \<Rightarrow> bool" where
  "delete_pair (xs @ [c, c] @ ys) (xs @ ys)"

abbreviation no_pair :: "string \<Rightarrow> bool" where
  "no_pair \<equiv> distinct_adj"

lemma dedup_step_no_pair: "no_pair s \<Longrightarrow> no_pair (dedup_step c s)"
  by (cases s rule: rev_cases) (auto simp: dedup_step_def distinct_adj_append_iff)

lemma dedup_twice: "no_pair s \<Longrightarrow> dedup_step c (dedup_step c s) = s"
  by (cases s rule: rev_cases) (auto simp: dedup_step_def distinct_adj_append_iff butlast_append)

lemma fold_dedup_no_pair: "no_pair r \<Longrightarrow> no_pair (fold dedup_step s r)"
  by (rule fold_invariant_list [where P = no_pair]) (auto simp: dedup_step_no_pair)

lemma remove_duplicates_pair: "delete_pair s t \<Longrightarrow> remove_duplicates s = remove_duplicates t"
proof (induction rule: delete_pair.induct)
  case (1 xs c ys)
  have "no_pair (fold dedup_step xs [])" by (rule fold_dedup_no_pair) simp
  then show ?case by (simp add: remove_duplicates_def dedup_twice)
qed

lemma remove_duplicates_id: "no_pair s \<Longrightarrow> remove_duplicates s = s"
  unfolding remove_duplicates_def by (induction s rule: rev_induct) (auto simp: distinct_adj_append_iff dedup_step_def)

lemma delete_pair_append: "delete_pair\<^sup>*\<^sup>* s t \<Longrightarrow> delete_pair\<^sup>*\<^sup>* (s @ us) (t @ us)"
proof (induction rule: rtranclp_induct)
  case (step t t')
  then obtain xs c ys where "t = xs @ [c, c] @ ys" "t' = xs @ ys" by (auto elim: delete_pair.cases)
  then have "delete_pair (t @ us) (t' @ us)" using delete_pair.intros [of xs c "ys @ us"] by simp
  then show ?case using step.IH by simp
qed simp

lemma dedup_step_reach: "delete_pair\<^sup>*\<^sup>* (r @ [c]) (dedup_step c r)"
proof (cases "r = [] \<or> last r \<noteq> c")
  case False
  then have "r @ [c] = butlast r @ [c, c] @ []" by (metis append_butlast_last_id append.assoc append_Cons append_Nil)
  then have "delete_pair (r @ [c]) (butlast r)" using delete_pair.intros [of "butlast r" c "[]"] by (metis append_Nil2)
  then show ?thesis using False by (simp add: dedup_step_def r_into_rtranclp)
qed (simp add: dedup_step_def)

lemma remove_duplicates_reach: "delete_pair\<^sup>*\<^sup>* s (remove_duplicates s)"
proof (induction s rule: rev_induct)
  case (snoc c s)
  from delete_pair_append [OF this, of "[c]"] dedup_step_reach [of "remove_duplicates s" c]
  have "delete_pair\<^sup>*\<^sup>* (s @ [c]) (dedup_step c (remove_duplicates s))" by (rule rtranclp_trans)
  then show ?case by (simp add: remove_duplicates_def)
qed (simp add: remove_duplicates_def)

text \<open>
  \<open>removeDuplicates\<close> returns the only string without equal neighbours that is reached by deleting pairs of equal neighbours,
  in whatever order they are deleted.\<close>

theorem remove_duplicates_normal_form:
  "delete_pair\<^sup>*\<^sup>* s t \<and> no_pair t \<longleftrightarrow> t = remove_duplicates s"
proof
  assume t: "delete_pair\<^sup>*\<^sup>* s t \<and> no_pair t"
  then have "delete_pair\<^sup>*\<^sup>* s t" by simp
  then have "remove_duplicates s = remove_duplicates t"
    by (induction rule: rtranclp_induct) (auto dest: remove_duplicates_pair)
  then show "t = remove_duplicates s" using t remove_duplicates_id by simp
next
  assume "t = remove_duplicates s"
  moreover have "no_pair (remove_duplicates s)"
    unfolding remove_duplicates_def by (rule fold_dedup_no_pair) simp
  ultimately show "delete_pair\<^sup>*\<^sup>* s t \<and> no_pair t" using remove_duplicates_reach by simp
qed

end
