(* ===== verification/Grids.thy ===== *)
theory Grids
  imports Tables "HOL-Library.Multiset"
begin

text \<open>
  Programs of \<open>find_job/look_for_job.cpp\<close> on matrices: counting paths, with the additions at their width of 32 bits, cheapest
  paths, reading a matrix in a spiral, and rotating it.
\<close>

section \<open>Number of paths\<close>

definition unique_paths_cell :: "nat \<Rightarrow> nat \<Rightarrow> int list list \<Rightarrow> int list list option" where
  "unique_paths_cell i j dp = do {
     a \<leftarrow> tab_get dp (i - 1) j;
     b \<leftarrow> tab_get dp i (j - 1);
     v \<leftarrow> int_add a b;
     tab_set dp i j v }"

definition unique_paths_table :: "nat \<Rightarrow> nat \<Rightarrow> int option" where
  "unique_paths_table m n = do {
     dp1 \<leftarrow> for_up 0 m (\<lambda>i dp. tab_set dp i 0 1) (tab_new m n 0);
     dp2 \<leftarrow> for_up 0 n (\<lambda>j dp. tab_set dp 0 j 1) dp1;
     dp3 \<leftarrow> for_up 1 m (\<lambda>i. for_up 1 n (unique_paths_cell i)) dp2;
     if m = 0 \<or> n = 0 then None else tab_get dp3 (m - 1) (n - 1) }"

text \<open>A negative extent converts to a size no vector can have, and the constructor throws.\<close>

definition unique_paths :: "int \<Rightarrow> int \<Rightarrow> int option" where
  "unique_paths m n = (if m < 0 \<or> n < 0 then None else unique_paths_table (nat m) (nat n))"

definition path_count :: "nat \<Rightarrow> nat \<Rightarrow> int" where
  "path_count i j = int ((i + j) choose i)"

lemma path_count_simps [simp]: "path_count 0 j = 1" "path_count i 0 = 1"
  by (simp_all add: path_count_def)

lemma path_count_rec: "0 < i \<Longrightarrow> 0 < j \<Longrightarrow> path_count i j = path_count (i - 1) j + path_count i (j - 1)"
  by (cases i; cases j) (simp_all add: path_count_def)

lemma path_count_mono: "i \<le> i' \<Longrightarrow> j \<le> j' \<Longrightarrow> path_count i j \<le> path_count i' j'"
proof -
  have a: "path_count i j \<le> path_count (Suc i) j" for i j
    by (cases j) (simp_all add: path_count_def)
  have b: "path_count i j \<le> path_count i (Suc j)" for i j
    by (cases i) (simp_all add: path_count_def)
  assume "i \<le> i'" "j \<le> j'"
  then have "path_count i j \<le> path_count i' j" by (induction i' rule: dec_induct) (auto intro: order_trans a)
  also have "\<dots> \<le> path_count i' j'" using \<open>j \<le> j'\<close> by (induction j' rule: dec_induct) (auto intro: order_trans b)
  finally show ?thesis .
qed

text \<open>Cells of the border, and those in front of \<open>(i, j)\<close>.\<close>

definition border :: "nat \<Rightarrow> nat \<Rightarrow> nat \<Rightarrow> nat \<Rightarrow> bool" where
  "border i j a b \<longleftrightarrow> a = 0 \<or> b = 0 \<or> a < i \<or> (a = i \<and> b < j)"

lemma border_loops:
  assumes m: "0 < m" and n: "0 < n" and dp: "cells dp m n (border 1 1) F"
    and cell: "\<And>i j dp. 0 < i \<Longrightarrow> i < m \<Longrightarrow> 0 < j \<Longrightarrow> j < n \<Longrightarrow> cells dp m n (border i j) F \<Longrightarrow> cell i j dp = tab_set dp i j (F i j)"
  shows "\<exists>dp'. for_up 1 m (\<lambda>i. for_up 1 n (cell i)) dp = Some dp' \<and> cells dp' m n (border m 1) F"
proof (rule for_up_nested_rule [where P = "\<lambda>i j dp. cells dp m n (border i j) F"])
  fix i j dp
  assume ij: "1 \<le> i" "i < m" "1 \<le> j" "j < n" and c: "cells dp m n (border i j) F"
  then have "cell i j dp = tab_set dp i j (F i j)" using cell by simp
  moreover have "border i j a b \<or> (a = i \<and> b = j)" if "border i (Suc j) a b" for a b using that by (auto simp: border_def)
  ultimately show "\<exists>s'. cell i j dp = Some s' \<and> cells s' m n (border i (Suc j)) F"
    using cells_set [OF c ij(2,4), of "border i (Suc j)"] by simp
next
  fix i s
  assume "cells s m n (border i n) F"
  then show "cells s m n (border (Suc i) 1) F" unfolding cells_def by (auto simp: border_def less_Suc_eq)
qed (use m n dp in auto)

lemma unique_paths_border:
  assumes "0 < m" and "0 < n"
  shows "\<exists>dp1 dp2. for_up 0 m (\<lambda>i dp. tab_set dp i 0 1) (tab_new m n 0) = Some dp1 \<and> for_up 0 n (\<lambda>j dp. tab_set dp 0 j 1) dp1 = Some dp2 \<and>
    cells dp2 m n (border 1 1) path_count"
proof -
  have "\<exists>dp1. for_up 0 m (\<lambda>i dp. tab_set dp i 0 1) (tab_new m n 0) = Some dp1 \<and> cells dp1 m n (\<lambda>a b. b = 0 \<and> a < m) path_count"
  proof (rule for_up_rule [where P = "\<lambda>i dp. cells dp m n (\<lambda>a b. b = 0 \<and> a < i) path_count"])
    fix i dp
    assume "i < m" "cells dp m n (\<lambda>a b. b = 0 \<and> a < i) path_count"
    then show "\<exists>s'. tab_set dp i 0 1 = Some s' \<and> cells s' m n (\<lambda>a b. b = 0 \<and> a < Suc i) path_count"
      using cells_set [of dp m n _ path_count i 0 "\<lambda>a b. b = 0 \<and> a < Suc i"] assms by (auto simp: less_Suc_eq)
  qed (auto simp: cells_def)
  then obtain dp1 where dp1: "for_up 0 m (\<lambda>i dp. tab_set dp i 0 1) (tab_new m n 0) = Some dp1"
      "cells dp1 m n (\<lambda>a b. b = 0 \<and> a < m) path_count" by blast
  have "\<exists>dp2. for_up 0 n (\<lambda>j dp. tab_set dp 0 j 1) dp1 = Some dp2 \<and> cells dp2 m n (\<lambda>a b. b = 0 \<and> a < m \<or> a = 0 \<and> b < n) path_count"
  proof (rule for_up_rule [where P = "\<lambda>j dp. cells dp m n (\<lambda>a b. b = 0 \<and> a < m \<or> a = 0 \<and> b < j) path_count"])
    fix j dp
    assume "j < n" "cells dp m n (\<lambda>a b. b = 0 \<and> a < m \<or> a = 0 \<and> b < j) path_count"
    then show "\<exists>s'. tab_set dp 0 j 1 = Some s' \<and> cells s' m n (\<lambda>a b. b = 0 \<and> a < m \<or> a = 0 \<and> b < Suc j) path_count"
      using cells_set [of dp m n _ path_count 0 j "\<lambda>a b. b = 0 \<and> a < m \<or> a = 0 \<and> b < Suc j"] assms by (auto simp: less_Suc_eq)
  qed (use dp1(2) in auto)
  moreover have "cells dp2 m n (border 1 1) path_count" if "cells dp2 m n (\<lambda>a b. b = 0 \<and> a < m \<or> a = 0 \<and> b < n) path_count" for dp2
    using that unfolding cells_def border_def by auto
  ultimately show ?thesis using dp1(1) by blast
qed

lemma unique_paths_fits:
  assumes m: "0 < m" and n: "0 < n" and fits: "path_count (m - 1) (n - 1) < 2 ^ 31"
  shows "unique_paths_table m n = Some (path_count (m - 1) (n - 1))"
proof -
  obtain dp1 dp2 where dp: "for_up 0 m (\<lambda>i dp. tab_set dp i 0 1) (tab_new m n 0) = Some dp1"
      "for_up 0 n (\<lambda>j dp. tab_set dp 0 j 1) dp1 = Some dp2" "cells dp2 m n (border 1 1) path_count"
    using unique_paths_border [OF m n] by blast
  have "\<exists>dp3. for_up 1 m (\<lambda>i. for_up 1 n (unique_paths_cell i)) dp2 = Some dp3 \<and> cells dp3 m n (border m 1) path_count"
  proof (rule border_loops [OF m n dp(3)])
    fix i j dp
    assume ij: "0 < i" "i < m" "0 < j" "j < n" and c: "cells dp m n (border i j) path_count"
    have get: "tab_get dp (i - 1) j = Some (path_count (i - 1) j)" "tab_get dp i (j - 1) = Some (path_count i (j - 1))"
      using ij by (auto intro!: cells_get [OF c] simp: border_def)
    have "path_count i j \<le> path_count (m - 1) (n - 1)" using ij by (intro path_count_mono) auto
    moreover have "0 \<le> path_count i j" by (simp add: path_count_def)
    ultimately have "int_add (path_count (i - 1) j) (path_count i (j - 1)) = Some (path_count i j)"
      using fits path_count_rec [OF ij(1,3)] by (simp add: int_add_def)
    then show "unique_paths_cell i j dp = tab_set dp i j (path_count i j)" using get by (simp add: unique_paths_cell_def)
  qed
  then obtain dp3 where dp3: "for_up 1 m (\<lambda>i. for_up 1 n (unique_paths_cell i)) dp2 = Some dp3" "cells dp3 m n (border m 1) path_count" by blast
  have "tab_get dp3 (m - 1) (n - 1) = Some (path_count (m - 1) (n - 1))"
    using m n by (intro cells_get [OF dp3(2)]) (auto simp: border_def)
  then show ?thesis using dp(1,2) dp3(1) m n by (simp add: unique_paths_table_def)
qed

lemma unique_paths_overflows:
  assumes m: "0 < m" and n: "0 < n" and big: "2 ^ 31 \<le> path_count (m - 1) (n - 1)"
  shows "unique_paths_table m n = None"
proof -
  obtain dp1 dp2 where dp: "for_up 0 m (\<lambda>i dp. tab_set dp i 0 1) (tab_new m n 0) = Some dp1"
      "for_up 0 n (\<lambda>j dp. tab_set dp 0 j 1) dp1 = Some dp2" "cells dp2 m n (border 1 1) path_count"
    using unique_paths_border [OF m n] by blast
  define P where "P i j dp \<longleftrightarrow> cells dp m n (border i j) path_count \<and> (\<forall>a b. a < m \<longrightarrow> b < n \<longrightarrow> border i j a b \<longrightarrow> path_count a b < 2 ^ 31)" for i j dp
  have step: "P i (Suc j) dp'" if "1 \<le> i" "i < m" "1 \<le> j" "j < n" and c: "P i j dp" and cell: "unique_paths_cell i j dp = Some dp'" for i j dp dp'
  proof -
    have ij: "0 < i" "0 < j" using that by auto
    have c': "cells dp m n (border i j) path_count" using c by (simp add: P_def)
    have get: "tab_get dp (i - 1) j = Some (path_count (i - 1) j)" "tab_get dp i (j - 1) = Some (path_count i (j - 1))"
      using that ij by (auto intro!: cells_get [OF c'] simp: border_def)
    have fit: "path_count i j < 2 ^ 31" and set: "tab_set dp i j (path_count i j) = Some dp'"
      using cell get path_count_rec [OF ij] by (auto simp: unique_paths_cell_def int_add_def split: if_splits)
    have front: "border i j a b \<or> (a = i \<and> b = j)" if "border i (Suc j) a b" for a b using that by (auto simp: border_def)
    have "cells dp' m n (border i (Suc j)) path_count"
      using cells_set [OF c' \<open>i < m\<close> \<open>j < n\<close>, of "border i (Suc j)"] front set by auto
    then show ?thesis using fit front c unfolding P_def by blast
  qed
  have "for_up 1 m (\<lambda>i. for_up 1 n (unique_paths_cell i)) dp2 = None"
  proof (rule ccontr)
    assume "for_up 1 m (\<lambda>i. for_up 1 n (unique_paths_cell i)) dp2 \<noteq> None"
    then obtain dp3 where "for_up 1 m (\<lambda>i. for_up 1 n (unique_paths_cell i)) dp2 = Some dp3" by auto
    then have "P m 1 dp3"
    proof (rule for_up_partial [where P = "\<lambda>i. P i 1"])
      show "P 1 1 dp2" using dp(3) by (auto simp: P_def border_def)
    next
      fix i s s'
      assume i: "1 \<le> i" "i < m" and s: "P i 1 s" "for_up 1 n (unique_paths_cell i) s = Some s'"
      have "P i n s'" using s(2) n s(1) step [OF i] by (auto intro: for_up_partial [where P = "P i"])
      then show "P (Suc i) 1 s'" unfolding P_def cells_def border_def by (auto simp: less_Suc_eq)
    qed (use m in simp)
    then have "path_count (m - 1) (n - 1) < 2 ^ 31" using m n unfolding P_def border_def by auto
    then show False using big by simp
  qed
  then show ?thesis using dp(1,2) by (simp add: unique_paths_table_def)
qed

lemma unique_paths_empty: "unique_paths_table 0 n = None" "unique_paths_table m 0 = None"
  by (auto simp: unique_paths_table_def split: bind_splits)

lemma unique_paths_table_eq:
  "unique_paths_table m n =
     (if m = 0 \<or> n = 0 \<or> 2 ^ 31 \<le> (m + n - 2) choose (m - 1) then None else Some (int ((m + n - 2) choose (m - 1))))"
proof (cases "m = 0 \<or> n = 0")
  case True
  then show ?thesis using unique_paths_empty by auto
next
  case False
  then have e: "path_count (m - 1) (n - 1) = int ((m + n - 2) choose (m - 1))" by (cases m; cases n) (simp_all add: path_count_def)
  show ?thesis
  proof (cases "2 ^ 31 \<le> (m + n - 2) choose (m - 1)")
    case True
    then have "2 ^ 31 \<le> path_count (m - 1) (n - 1)" unfolding e by (metis of_nat_le_iff of_nat_numeral of_nat_power)
    then show ?thesis using unique_paths_overflows False True by simp
  next
    case small: False
    then have "path_count (m - 1) (n - 1) < 2 ^ 31" unfolding e not_le by (metis of_nat_less_iff of_nat_numeral of_nat_power)
    then show ?thesis using unique_paths_fits False small e by simp
  qed
qed

text \<open>
  C40: \<open>uniquePaths\<close> returns the number of monotone paths through the grid, a binomial coefficient, exactly when both extents are positive and the
  number is smaller than \<open>2\<^sup>31\<close>.  Otherwise one of its additions overflows, it accesses a table without cells, or the table cannot be made.\<close>

theorem unique_paths_correct:
  "unique_paths m n =
     (if m \<le> 0 \<or> n \<le> 0 \<or> 2 ^ 31 \<le> nat (m + n - 2) choose nat (m - 1) then None
      else Some (int (nat (m + n - 2) choose nat (m - 1))))"
proof -
  have "nat m + nat n - 2 = nat (m + n - 2)" "nat m - 1 = nat (m - 1)" if "0 < m" "0 < n" using that by auto
  then show ?thesis by (auto simp: unique_paths_def unique_paths_table_eq)
qed

section \<open>Cheapest paths\<close>

text \<open>The first row decides how many columns are read; a sum that overflows \<open>int\<close> is undefined.\<close>

definition min_path_cell :: "int list list \<Rightarrow> nat \<Rightarrow> nat \<Rightarrow> int list list \<Rightarrow> int list list option" where
  "min_path_cell grid i j dp = do {
     a \<leftarrow> tab_get dp (i - 1) j;
     b \<leftarrow> tab_get dp i (j - 1);
     g \<leftarrow> tab_get grid i j;
     v \<leftarrow> int_add (min a b) g;
     tab_set dp i j v }"

definition min_path_column :: "int list list \<Rightarrow> nat \<Rightarrow> int list list \<Rightarrow> int list list option" where
  "min_path_column grid i dp = do { a \<leftarrow> tab_get dp (i - 1) 0; g \<leftarrow> tab_get grid i 0; v \<leftarrow> int_add a g; tab_set dp i 0 v }"

definition min_path_row :: "int list list \<Rightarrow> nat \<Rightarrow> int list list \<Rightarrow> int list list option" where
  "min_path_row grid i dp = do { a \<leftarrow> tab_get dp 0 (i - 1); g \<leftarrow> tab_get grid 0 i; v \<leftarrow> int_add a g; tab_set dp 0 i v }"

definition min_path_sum :: "int list list \<Rightarrow> int option" where
  "min_path_sum grid = do {
     first \<leftarrow> vec_get grid 0;
     let cl = length grid;
     let row = length first;
     g \<leftarrow> tab_get grid 0 0;
     dp0 \<leftarrow> tab_set (tab_new cl row 0) 0 0 g;
     dp1 \<leftarrow> for_up 1 cl (min_path_column grid) dp0;
     dp2 \<leftarrow> for_up 1 row (min_path_row grid) dp1;
     dp3 \<leftarrow> for_up 1 cl (\<lambda>i. for_up 1 row (min_path_cell grid i)) dp2;
     tab_get dp3 (cl - 1) (row - 1) }"

text \<open>The sums of the paths from the first cell that go down or right.\<close>

inductive path_to :: "int list list \<Rightarrow> nat \<Rightarrow> nat \<Rightarrow> int \<Rightarrow> bool" for grid where
  start: "path_to grid 0 0 (grid ! 0 ! 0)"
| down: "path_to grid i j s \<Longrightarrow> path_to grid (Suc i) j (s + grid ! Suc i ! j)"
| right: "path_to grid i j s \<Longrightarrow> path_to grid i (Suc j) (s + grid ! i ! Suc j)"

fun min_to :: "int list list \<Rightarrow> nat \<Rightarrow> nat \<Rightarrow> int" where
  "min_to grid 0 0 = grid ! 0 ! 0"
| "min_to grid (Suc i) 0 = min_to grid i 0 + grid ! Suc i ! 0"
| "min_to grid 0 (Suc j) = min_to grid 0 j + grid ! 0 ! Suc j"
| "min_to grid (Suc i) (Suc j) = min (min_to grid i (Suc j)) (min_to grid (Suc i) j) + grid ! Suc i ! Suc j"

lemma min_to_attained: "path_to grid i j (min_to grid i j)"
  by (induction grid i j rule: min_to.induct) (auto simp: min_def intro: path_to.intros)

lemma min_to_least: "path_to grid i j s \<Longrightarrow> min_to grid i j \<le> s"
proof (induction rule: path_to.induct)
  case (down i j s)
  then show ?case by (cases j) auto
next
  case (right i j s)
  then show ?case by (cases i) auto
qed simp

lemma min_path_border:
  assumes dim: "tab_dim grid n m" and n: "0 < n" and m: "0 < m" and fit: "\<forall>i<n. \<forall>j<m. fits_i32 (min_to grid i j)"
  shows "\<exists>dp0 dp1 dp2. tab_set (tab_new n m 0) 0 0 (grid ! 0 ! 0) = Some dp0 \<and> for_up 1 n (min_path_column grid) dp0 = Some dp1 \<and>
    for_up 1 m (min_path_row grid) dp1 = Some dp2 \<and> cells dp2 n m (border 1 1) (min_to grid)"
proof -
  obtain dp0 where dp0: "tab_set (tab_new n m 0) 0 0 (grid ! 0 ! 0) = Some dp0" "cells dp0 n m (\<lambda>a b. b = 0 \<and> a < 1) (min_to grid)"
    using cells_set [OF cells_new [of n m 0 "min_to grid"] n m, of "\<lambda>a b. b = 0 \<and> a < 1"] by auto
  have "\<exists>dp1. for_up 1 n (min_path_column grid) dp0 = Some dp1 \<and> cells dp1 n m (\<lambda>a b. b = 0 \<and> a < n) (min_to grid)"
  proof (rule for_up_rule [where P = "\<lambda>i dp. cells dp n m (\<lambda>a b. b = 0 \<and> a < i) (min_to grid)"])
    fix i dp
    assume i: "1 \<le> i" "i < n" and c: "cells dp n m (\<lambda>a b. b = 0 \<and> a < i) (min_to grid)"
    have "min_to grid i 0 = min_to grid (i - 1) 0 + grid ! i ! 0" using i by (cases i) auto
    then have "int_add (min_to grid (i - 1) 0) (grid ! i ! 0) = Some (min_to grid i 0)"
      using fit [rule_format, OF i(2) m] by (simp add: int_add_def fits_i32_def)
    moreover have "tab_get dp (i - 1) 0 = Some (min_to grid (i - 1) 0)" using i m by (intro cells_get [OF c]) auto
    moreover have "tab_get grid i 0 = Some (grid ! i ! 0)" using i m by (intro tab_get_in [OF dim]) auto
    moreover have "\<exists>t. tab_set dp i 0 (min_to grid i 0) = Some t \<and> cells t n m (\<lambda>a b. b = 0 \<and> a < Suc i) (min_to grid)"
      using i m by (intro cells_set [OF c]) auto
    ultimately show "\<exists>s'. min_path_column grid i dp = Some s' \<and> cells s' n m (\<lambda>a b. b = 0 \<and> a < Suc i) (min_to grid)"
      by (simp add: min_path_column_def)
  qed (use n dp0 in auto)
  then obtain dp1 where dp1: "for_up 1 n (min_path_column grid) dp0 = Some dp1" "cells dp1 n m (\<lambda>a b. b = 0 \<and> a < n) (min_to grid)" by blast
  have "\<exists>dp2. for_up 1 m (min_path_row grid) dp1 = Some dp2 \<and> cells dp2 n m (\<lambda>a b. b = 0 \<and> a < n \<or> a = 0 \<and> b < m) (min_to grid)"
  proof (rule for_up_rule [where P = "\<lambda>j dp. cells dp n m (\<lambda>a b. b = 0 \<and> a < n \<or> a = 0 \<and> b < j) (min_to grid)"])
    show "cells dp1 n m (\<lambda>a b. b = 0 \<and> a < n \<or> a = 0 \<and> b < 1) (min_to grid)" using dp1(2) by (auto simp: cells_def)
  next
    fix j dp
    assume j: "1 \<le> j" "j < m" and c: "cells dp n m (\<lambda>a b. b = 0 \<and> a < n \<or> a = 0 \<and> b < j) (min_to grid)"
    have "min_to grid 0 j = min_to grid 0 (j - 1) + grid ! 0 ! j" using j by (cases j) auto
    then have "int_add (min_to grid 0 (j - 1)) (grid ! 0 ! j) = Some (min_to grid 0 j)"
      using fit [rule_format, OF n j(2)] by (simp add: int_add_def fits_i32_def)
    moreover have "tab_get dp 0 (j - 1) = Some (min_to grid 0 (j - 1))" using j n by (intro cells_get [OF c]) auto
    moreover have "tab_get grid 0 j = Some (grid ! 0 ! j)" using j n by (intro tab_get_in [OF dim]) auto
    moreover have "\<exists>t. tab_set dp 0 j (min_to grid 0 j) = Some t \<and> cells t n m (\<lambda>a b. b = 0 \<and> a < n \<or> a = 0 \<and> b < Suc j) (min_to grid)"
      using j n by (intro cells_set [OF c]) auto
    ultimately show "\<exists>s'. min_path_row grid j dp = Some s' \<and> cells s' n m (\<lambda>a b. b = 0 \<and> a < n \<or> a = 0 \<and> b < Suc j) (min_to grid)"
      by (simp add: min_path_row_def)
  qed (use m in simp)
  moreover have "cells dp2 n m (border 1 1) (min_to grid)" if "cells dp2 n m (\<lambda>a b. b = 0 \<and> a < n \<or> a = 0 \<and> b < m) (min_to grid)" for dp2
    using that unfolding cells_def border_def by auto
  ultimately show ?thesis using dp0(1) dp1(1) by blast
qed

text \<open>
  On a matrix with at least one row and column and with smallest sums that fit into \<open>int\<close>, \<open>minPathSum\<close> returns the smallest sum of a path from the first to the last
  cell that only goes down or right.\<close>

theorem min_path_sum_correct:
  assumes dim: "tab_dim grid n m" and n: "0 < n" and m: "0 < m" and fit: "\<forall>i<n. \<forall>j<m. fits_i32 (min_to grid i j)"
  shows "\<exists>k. min_path_sum grid = Some k \<and> path_to grid (n - 1) (m - 1) k \<and> (\<forall>s. path_to grid (n - 1) (m - 1) s \<longrightarrow> k \<le> s)"
proof -
  obtain dp0 dp1 dp2 where dp: "tab_set (tab_new n m 0) 0 0 (grid ! 0 ! 0) = Some dp0" "for_up 1 n (min_path_column grid) dp0 = Some dp1"
      "for_up 1 m (min_path_row grid) dp1 = Some dp2" "cells dp2 n m (border 1 1) (min_to grid)"
    using min_path_border [OF assms] by blast
  have "\<exists>dp3. for_up 1 n (\<lambda>i. for_up 1 m (min_path_cell grid i)) dp2 = Some dp3 \<and> cells dp3 n m (border n 1) (min_to grid)"
  proof (rule border_loops [OF n m dp(4)])
    fix i j dp
    assume ij: "0 < i" "i < n" "0 < j" "j < m" and c: "cells dp n m (border i j) (min_to grid)"
    have "tab_get dp (i - 1) j = Some (min_to grid (i - 1) j)" "tab_get dp i (j - 1) = Some (min_to grid i (j - 1))"
      using ij by (auto intro!: cells_get [OF c] simp: border_def)
    moreover have "tab_get grid i j = Some (grid ! i ! j)" using ij by (intro tab_get_in [OF dim]) auto
    moreover have "min_to grid i j = min (min_to grid (i - 1) j) (min_to grid i (j - 1)) + grid ! i ! j" using ij by (cases i; cases j) auto
    then have "int_add (min (min_to grid (i - 1) j) (min_to grid i (j - 1))) (grid ! i ! j) = Some (min_to grid i j)"
      using fit [rule_format, OF ij(2,4)] by (simp add: int_add_def fits_i32_def)
    ultimately show "min_path_cell grid i j dp = tab_set dp i j (min_to grid i j)" by (simp add: min_path_cell_def)
  qed
  then obtain dp3 where dp3: "for_up 1 n (\<lambda>i. for_up 1 m (min_path_cell grid i)) dp2 = Some dp3" "cells dp3 n m (border n 1) (min_to grid)" by blast
  have len: "length grid = n" "length (grid ! 0) = m" using dim n by (auto simp: tab_dim_def)
  have "tab_get dp3 (n - 1) (m - 1) = Some (min_to grid (n - 1) (m - 1))"
    using n m by (intro cells_get [OF dp3(2)]) (auto simp: border_def)
  then have "min_path_sum grid = Some (min_to grid (n - 1) (m - 1))"
    using dp(1-3) dp3(1) n len tab_get_in [OF dim n m] by (simp add: min_path_sum_def vec_simps)
  then show ?thesis using min_to_attained min_to_least by blast
qed

theorem min_path_sum_correct_witness:
  "\<exists>k. min_path_sum [[1, 3], [2, 1]] = Some k \<and> path_to [[1, 3], [2, 1]] 1 1 k \<and>
     (\<forall>s. path_to [[1, 3], [2, 1]] 1 1 s \<longrightarrow> k \<le> s)"
proof -
  have "\<forall>i<2. \<forall>j<2. fits_i32 (min_to [[1, 3], [2, 1]] i j)" by (auto simp: less_2_cases_iff fits_i32_def numeral_2_eq_2 less_Suc_eq)
  then show ?thesis using min_path_sum_correct [of "[[1, 3], [2, 1]]" 2 2] by (simp add: tab_dim_def)
qed

end
