(* ===== verification/Matrices.thy ===== *)
theory Matrices
  imports Tables
begin

text \<open>
  Programs of \<open>find_job/look_for_job.cpp\<close> that read a matrix in a spiral and rotate it.
\<close>

section \<open>Reading in a spiral\<close>

text \<open>The four borders are integers, since the right one may pass the left one below zero.\<close>

definition mat_at :: "int list list \<Rightarrow> int \<Rightarrow> int \<Rightarrow> int option" where
  "mat_at M i j = (if i < 0 \<or> j < 0 then None else tab_get M (nat i) (nat j))"

text \<open>A loop that pushes the cells of a list of positions.\<close>

definition push_cells :: "int list list \<Rightarrow> (int \<times> int) list \<Rightarrow> int list \<Rightarrow> int list option" where
  "push_cells M ps = for_each ps (\<lambda>(i, j) ans. do { x \<leftarrow> mat_at M i j; Some (ans @ [x]) })"

function spiral_loop :: "int list list \<Rightarrow> int \<Rightarrow> int \<Rightarrow> int \<Rightarrow> int \<Rightarrow> int list \<Rightarrow> int list option" where
  "spiral_loop M u d l r ans = do {
     a1 \<leftarrow> push_cells M (map (\<lambda>i. (u, i)) [l..r]) ans;
     if u + 1 > d then Some a1 else do {
     a2 \<leftarrow> push_cells M (map (\<lambda>i. (i, r)) [u + 1..d]) a1;
     if r - 1 < l then Some a2 else do {
     a3 \<leftarrow> push_cells M (map (\<lambda>i. (d, i)) (rev [l..r - 1])) a2;
     if d - 1 < u + 1 then Some a3 else do {
     a4 \<leftarrow> push_cells M (map (\<lambda>i. (i, l)) (rev [u + 1..d - 1])) a3;
     if l + 1 > r - 1 then Some a4 else spiral_loop M (u + 1) (d - 1) (l + 1) (r - 1) a4 } } } }"
  by pat_completeness auto
termination by (relation "measure (\<lambda>(M, u, d, l, r, ans). nat (d - u + 1))") auto

declare spiral_loop.simps [simp del]

definition spiral_order :: "int list list \<Rightarrow> int list option" where
  "spiral_order matrix =
     (if matrix = [] then Some []
      else do {
        first \<leftarrow> vec_get matrix 0;
        spiral_loop matrix 0 (int (length matrix) - 1) 0 (int (length first) - 1) [] })"

text \<open>
  The specification: the first row, then the spiral of the rest turned to the left.  A matrix is the function from positions to values with the
  numbers of its rows and columns.
\<close>

function spiral_spec :: "(int \<Rightarrow> int \<Rightarrow> 'a) \<Rightarrow> nat \<Rightarrow> nat \<Rightarrow> 'a list" where
  "spiral_spec f n m =
     (if n = 0 \<or> m = 0 then []
      else map (f 0) [0..int m - 1] @ spiral_spec (\<lambda>i j. f (j + 1) (int m - 1 - i)) m (n - 1))"
  by pat_completeness auto
termination by (relation "measure (\<lambda>(f, n, m). n + m)") auto

declare spiral_spec.simps [simp del]

lemma spiral_spec_empty [simp]: "spiral_spec f 0 m = []" "spiral_spec f n 0 = []"
  by (subst spiral_spec.simps, simp)+

lemma spiral_spec_row:
  assumes "0 < n" and "0 < m" and "\<And>j. 0 \<le> j \<Longrightarrow> j < int m \<Longrightarrow> f 0 j = h j"
    and "\<And>i j. f (j + 1) (int m - 1 - i) = g i j"
  shows "spiral_spec f n m = map h [0..int m - 1] @ spiral_spec g m (n - 1)"
proof -
  have "(\<lambda>i j. f (j + 1) (int m - 1 - i)) = g" using assms(4) by (intro ext) simp
  then show ?thesis using assms(1-3) by (subst spiral_spec.simps) auto
qed

lemma map_from: "map (\<lambda>j. h (l + j)) [0..k] = map h [l..l + k]" for l k :: int
proof -
  have "map ((+) l) [0..k] = [l..l + k]"
    by (rule nth_equalityI) auto
  from arg_cong [OF this, of "map h"] show ?thesis by (simp add: comp_def)
qed

lemma map_down: "map (\<lambda>j. h (r - j)) [0..k] = map h (rev [r - k..r])" for r k :: int
proof -
  have "map (\<lambda>j. r - j) [0..k] = rev [r - k..r]"
    by (rule nth_equalityI) (auto simp: rev_nth)
  from arg_cong [OF this, of "map h"] show ?thesis by (simp add: comp_def)
qed

lemma push_cells_map:
  "(\<And>x. x \<in> set xs \<Longrightarrow> mat_at M (fst (q x)) (snd (q x)) = Some (h x)) \<Longrightarrow> push_cells M (map q xs) ans = Some (ans @ map h xs)"
  unfolding push_cells_def by (induction xs arbitrary: ans) (auto simp: split_beta)

text \<open>Four quarter turns: one round of the loop.\<close>

lemma spiral_spec_round:
  assumes ud: "u \<le> d" and lr: "l \<le> r"
  shows "spiral_spec (\<lambda>i j. g (u + i) (l + j)) (nat (d - u + 1)) (nat (r - l + 1)) =
    map (g u) [l..r] @ spiral_spec (\<lambda>i j. g (u + 1 + j) (r - i)) (nat (r - l + 1)) (nat (d - u))"
    and "u < d \<Longrightarrow> spiral_spec (\<lambda>i j. g (u + 1 + j) (r - i)) (nat (r - l + 1)) (nat (d - u)) =
      map (\<lambda>i. g i r) [u + 1..d] @ spiral_spec (\<lambda>i j. g (d - i) (r - 1 - j)) (nat (d - u)) (nat (r - l))"
    and "u < d \<Longrightarrow> l < r \<Longrightarrow> spiral_spec (\<lambda>i j. g (d - i) (r - 1 - j)) (nat (d - u)) (nat (r - l)) =
      map (g d) (rev [l..r - 1]) @ spiral_spec (\<lambda>i j. g (d - 1 - j) (l + i)) (nat (r - l)) (nat (d - u - 1))"
    and "u + 1 < d \<Longrightarrow> l < r \<Longrightarrow> spiral_spec (\<lambda>i j. g (d - 1 - j) (l + i)) (nat (r - l)) (nat (d - u - 1)) =
      map (\<lambda>i. g i l) (rev [u + 1..d - 1]) @ spiral_spec (\<lambda>i j. g (u + 1 + i) (l + 1 + j)) (nat (d - u - 1)) (nat (r - l - 1))"
proof -
  have n: "nat (d - u + 1) - 1 = nat (d - u)" "nat (r - l + 1) - 1 = nat (r - l)" "nat (d - u) - 1 = nat (d - u - 1)" "nat (r - l) - 1 = nat (r - l - 1)"
    using ud lr by auto
  show "spiral_spec (\<lambda>i j. g (u + i) (l + j)) (nat (d - u + 1)) (nat (r - l + 1)) =
      map (g u) [l..r] @ spiral_spec (\<lambda>i j. g (u + 1 + j) (r - i)) (nat (r - l + 1)) (nat (d - u))"
    using spiral_spec_row [of "nat (d - u + 1)" "nat (r - l + 1)" "\<lambda>i j. g (u + i) (l + j)" "\<lambda>j. g u (l + j)" "\<lambda>i j. g (u + 1 + j) (r - i)"]
      map_from [of "g u" l "r - l"] ud lr n by (simp add: algebra_simps)
  show "spiral_spec (\<lambda>i j. g (u + 1 + j) (r - i)) (nat (r - l + 1)) (nat (d - u)) =
      map (\<lambda>i. g i r) [u + 1..d] @ spiral_spec (\<lambda>i j. g (d - i) (r - 1 - j)) (nat (d - u)) (nat (r - l))" if "u < d"
    using spiral_spec_row [of "nat (r - l + 1)" "nat (d - u)" "\<lambda>i j. g (u + 1 + j) (r - i)" "\<lambda>j. g (u + 1 + j) r" "\<lambda>i j. g (d - i) (r - 1 - j)"]
      map_from [of "\<lambda>i. g i r" "u + 1" "d - u - 1"] that lr n by (simp add: algebra_simps)
  show "spiral_spec (\<lambda>i j. g (d - i) (r - 1 - j)) (nat (d - u)) (nat (r - l)) =
      map (g d) (rev [l..r - 1]) @ spiral_spec (\<lambda>i j. g (d - 1 - j) (l + i)) (nat (r - l)) (nat (d - u - 1))" if "u < d" "l < r"
    using spiral_spec_row [of "nat (d - u)" "nat (r - l)" "\<lambda>i j. g (d - i) (r - 1 - j)" "\<lambda>j. g d (r - 1 - j)" "\<lambda>i j. g (d - 1 - j) (l + i)"]
      map_down [of "g d" "r - 1" "r - l - 1"] that n by (simp add: algebra_simps)
  show "spiral_spec (\<lambda>i j. g (d - 1 - j) (l + i)) (nat (r - l)) (nat (d - u - 1)) =
      map (\<lambda>i. g i l) (rev [u + 1..d - 1]) @ spiral_spec (\<lambda>i j. g (u + 1 + i) (l + 1 + j)) (nat (d - u - 1)) (nat (r - l - 1))"
    if "u + 1 < d" "l < r"
    using spiral_spec_row [of "nat (r - l)" "nat (d - u - 1)" "\<lambda>i j. g (d - 1 - j) (l + i)" "\<lambda>j. g (d - 1 - j) l" "\<lambda>i j. g (u + 1 + i) (l + 1 + j)"]
      map_down [of "\<lambda>i. g i l" "d - 1" "d - u - 2"] that n by (simp add: algebra_simps)
qed

lemma spiral_loop_correct:
  assumes "u \<le> d" and "l \<le> r" and "\<And>i j. u \<le> i \<Longrightarrow> i \<le> d \<Longrightarrow> l \<le> j \<Longrightarrow> j \<le> r \<Longrightarrow> mat_at M i j = Some (g i j)"
  shows "spiral_loop M u d l r ans = Some (ans @ spiral_spec (\<lambda>i j. g (u + i) (l + j)) (nat (d - u + 1)) (nat (r - l + 1)))"
  using assms
proof (induction M u d l r ans rule: spiral_loop.induct)
  case (1 M u d l r ans)
  note round = spiral_spec_round [OF "1.prems"(1,2), of g]
  have p1: "push_cells M (map (\<lambda>i. (u, i)) [l..r]) a = Some (a @ map (g u) [l..r])" for a
    by (rule push_cells_map) (use "1.prems" in auto)
  show ?case
  proof (cases "u + 1 > d")
    case True
    then have "nat (d - u) = 0" by simp
    then show ?thesis using True p1 round(1) by (subst spiral_loop.simps) simp
  next
    case ud: False
    have p2: "push_cells M (map (\<lambda>i. (i, r)) [u + 1..d]) a = Some (a @ map (\<lambda>i. g i r) [u + 1..d])" for a
      by (rule push_cells_map) (use "1.prems" in auto)
    show ?thesis
    proof (cases "r - 1 < l")
      case True
      then have "nat (r - l) = 0" by simp
      then show ?thesis using True ud p1 p2 round(1,2) by (subst spiral_loop.simps) simp
    next
      case lr: False
      have p3: "push_cells M (map (\<lambda>i. (d, i)) (rev [l..r - 1])) a = Some (a @ map (g d) (rev [l..r - 1]))" for a
        by (rule push_cells_map) (use "1.prems" in auto)
      show ?thesis
      proof (cases "d - 1 < u + 1")
        case True
        then have "nat (d - u - 1) = 0" by simp
        then show ?thesis using True ud lr p1 p2 p3 round(1-3) by (subst spiral_loop.simps) simp
      next
        case ud2: False
        have p4: "push_cells M (map (\<lambda>i. (i, l)) (rev [u + 1..d - 1])) a = Some (a @ map (\<lambda>i. g i l) (rev [u + 1..d - 1]))" for a
          by (rule push_cells_map) (use "1.prems" in auto)
        show ?thesis
        proof (cases "l + 1 > r - 1")
          case True
          then have "nat (r - l - 1) = 0" by simp
          then show ?thesis using True ud lr ud2 p1 p2 p3 p4 round by (subst spiral_loop.simps) simp
        next
          case lr2: False
          have "spiral_loop M (u + 1) (d - 1) (l + 1) (r - 1) a =
              Some (a @ spiral_spec (\<lambda>i j. g (u + 1 + i) (l + 1 + j)) (nat (d - 1 - (u + 1) + 1)) (nat (r - 1 - (l + 1) + 1)))"
            if "a = ((((ans @ map (g u) [l..r]) @ map (\<lambda>i. g i r) [u + 1..d]) @ map (g d) (rev [l..r - 1])) @ map (\<lambda>i. g i l) (rev [u + 1..d - 1]))" for a
            unfolding that using "1.IH" [OF p1 ud p2 lr p3 ud2 p4 lr2] "1.prems" ud2 lr2 by simp
          moreover have "d - 1 - (u + 1) + 1 = d - u - 1" "r - 1 - (l + 1) + 1 = r - l - 1" by simp_all
          ultimately show ?thesis using ud lr ud2 lr2 p1 p2 p3 p4 round by (subst spiral_loop.simps) simp
        qed
      qed
    qed
  qed
qed

text \<open>
  \<open>spiralOrder\<close> reads a matrix with at least one column in a spiral: its first row, then the rest turned to the left, and so on.
  An empty matrix gives an empty list.\<close>

theorem spiral_order_correct:
  assumes dim: "tab_dim M n m" and m: "0 < m"
  shows "spiral_order M = Some (spiral_spec (\<lambda>i j. M ! nat i ! nat j) n m)"
proof (cases "n = 0")
  case True
  then show ?thesis using dim by (simp add: spiral_order_def tab_dim_def)
next
  case False
  have len: "length M = n" "length (M ! 0) = m" "M \<noteq> []" using dim False by (auto simp: tab_dim_def)
  have "mat_at M i j = Some (M ! nat i ! nat j)" if "0 \<le> i" "i \<le> int n - 1" "0 \<le> j" "j \<le> int m - 1" for i j
    using that tab_get_in [OF dim, of "nat i" "nat j"] by (auto simp: mat_at_def)
  from spiral_loop_correct [of 0 "int n - 1" 0 "int m - 1" M, OF _ _ this]
  have "spiral_loop M 0 (int n - 1) 0 (int m - 1) [] = Some (spiral_spec (\<lambda>i j. M ! nat i ! nat j) n m)" using False m by simp
  then show ?thesis using len False by (simp add: spiral_order_def vec_simps)
qed

theorem spiral_order_correct_witness:
  "spiral_order [[1, 2, 3], [4, 5, 6], [7, 8, 9]] = Some (spiral_spec (\<lambda>i j. [[1, 2, 3], [4, 5, 6], [7, 8, 9]] ! nat i ! nat j) 3 3)"
  by (rule spiral_order_correct) (simp_all add: tab_dim_def)

section \<open>Rotating\<close>

definition rotate_cell :: "int list list \<Rightarrow> nat \<Rightarrow> nat \<Rightarrow> nat \<Rightarrow> int list list \<Rightarrow> int list list option" where
  "rotate_cell mat n i j A = do { x \<leftarrow> tab_get mat i j; tab_set A j (n - 1 - i) x }"

definition rotate_matrix :: "int list list \<Rightarrow> nat \<Rightarrow> int list list option" where
  "rotate_matrix mat n = for_up 0 n (\<lambda>i. for_up 0 n (rotate_cell mat n i)) (tab_new n n 0)"

lemma tab_eqI:
  assumes "tab_dim s n m" and "tab_dim t n m" and "\<And>a b. a < n \<Longrightarrow> b < m \<Longrightarrow> s ! a ! b = t ! a ! b"
  shows "s = t"
  using assms unfolding tab_dim_def by (auto intro!: nth_equalityI)

lemma rotate_matrix_cells:
  assumes dim: "tab_dim mat n n"
  shows "\<exists>A. rotate_matrix mat n = Some A \<and> cells A n n (\<lambda>a b. True) (\<lambda>a b. mat ! (n - 1 - b) ! a)"
proof -
  let ?F = "\<lambda>a b. mat ! (n - 1 - b) ! a"
  define D where "D i j a b \<longleftrightarrow> n - 1 - b < i \<or> (n - 1 - b = i \<and> a < j)" for i j a b :: nat
  have "\<exists>A. rotate_matrix mat n = Some A \<and> cells A n n (D n 0) ?F" unfolding rotate_matrix_def
  proof (rule for_up_nested_rule [where P = "\<lambda>i j A. cells A n n (D i j) ?F"])
    fix i j A
    assume ij: "i < n" "j < n" and c: "cells A n n (D i j) ?F"
    have "\<exists>A'. tab_set A j (n - 1 - i) (?F j (n - 1 - i)) = Some A' \<and> cells A' n n (D i (Suc j)) ?F"
      by (rule cells_set [OF c]) (use ij in \<open>auto simp: D_def\<close>)
    moreover have "n - 1 - (n - 1 - i) = i" using ij by simp
    ultimately show "\<exists>A'. rotate_cell mat n i j A = Some A' \<and> cells A' n n (D i (Suc j)) ?F"
      using tab_get_in [OF dim ij] by (simp add: rotate_cell_def)
  next
    fix i A
    assume "cells A n n (D i n) ?F"
    then show "cells A n n (D (Suc i) 0) ?F" unfolding cells_def D_def by (auto simp: less_Suc_eq)
  qed (auto simp: cells_def D_def)
  moreover have "D n 0 a b" if "b < n" for a b using that by (auto simp: D_def)
  ultimately show ?thesis unfolding cells_def by blast
qed

text \<open>
  \<open>rotateMatrix\<close> turns a square matrix clockwise: row \<open>i\<close>, read from the left, becomes the column \<open>n - 1 - i\<close>, read from above; and turning it four
  times gives it back.\<close>

theorem rotate_matrix_correct:
  assumes dim: "tab_dim mat n n"
  shows "\<exists>A B C. rotate_matrix mat n = Some A \<and> tab_dim A n n \<and> (\<forall>i j. i < n \<longrightarrow> j < n \<longrightarrow> A ! j ! (n - 1 - i) = mat ! i ! j) \<and>
    rotate_matrix A n = Some B \<and> rotate_matrix B n = Some C \<and> rotate_matrix C n = Some mat"
proof -
  obtain A where A: "rotate_matrix mat n = Some A" "tab_dim A n n" "\<And>a b. a < n \<Longrightarrow> b < n \<Longrightarrow> A ! a ! b = mat ! (n - 1 - b) ! a"
    using rotate_matrix_cells [OF dim] by (auto simp: cells_def)
  obtain B where B: "rotate_matrix A n = Some B" "tab_dim B n n" "\<And>a b. a < n \<Longrightarrow> b < n \<Longrightarrow> B ! a ! b = A ! (n - 1 - b) ! a"
    using rotate_matrix_cells [OF A(2)] by (auto simp: cells_def)
  obtain C where C: "rotate_matrix B n = Some C" "tab_dim C n n" "\<And>a b. a < n \<Longrightarrow> b < n \<Longrightarrow> C ! a ! b = B ! (n - 1 - b) ! a"
    using rotate_matrix_cells [OF B(2)] by (auto simp: cells_def)
  obtain E where E: "rotate_matrix C n = Some E" "tab_dim E n n" "\<And>a b. a < n \<Longrightarrow> b < n \<Longrightarrow> E ! a ! b = C ! (n - 1 - b) ! a"
    using rotate_matrix_cells [OF C(2)] by (auto simp: cells_def)
  have "E = mat" by (rule tab_eqI [OF E(2) dim]) (use A(3) B(3) C(3) E(3) in \<open>auto simp: Suc_diff_Suc\<close>)
  moreover have "A ! j ! (n - 1 - i) = mat ! i ! j" if "i < n" "j < n" for i j using A(3) [of j "n - 1 - i"] that by auto
  ultimately show ?thesis using A B C E by blast
qed

theorem rotate_matrix_correct_witness:
  "\<exists>A B C. rotate_matrix [[1, 2], [3, 4]] 2 = Some A \<and> tab_dim A 2 2 \<and>
     rotate_matrix A 2 = Some B \<and> rotate_matrix B 2 = Some C \<and> rotate_matrix C 2 = Some [[1, 2], [3, 4]]"
proof -
  have "tab_dim [[1, 2], [3, 4]] 2 2" by (simp add: tab_dim_def)
  from rotate_matrix_correct [OF this] show ?thesis by blast
qed

end
