(* ===== verification/Islands.thy ===== *)
theory Islands
  imports Tables
begin

text \<open>
  The program \<open>numIslands\<close> of \<open>find_job/look_for_job.cpp\<close>: it runs through the cells of a map and sinks every piece of land it meets by
  a depth-first search, which it counts.  Recursion is bounded by fuel; the number of land cells is enough, since every call sinks one.
\<close>

section \<open>The program\<close>

type_synonym grid = "char list list"

text \<open>One of the four recursive calls: its bound, and the test of the neighbour.\<close>

definition sink_neighbour :: "(nat \<Rightarrow> nat \<Rightarrow> grid \<Rightarrow> grid option) \<Rightarrow> bool \<Rightarrow> nat \<Rightarrow> nat \<Rightarrow> grid \<Rightarrow> grid option" where
  "sink_neighbour rec inside r c g =
     (if inside then do { x \<leftarrow> tab_get g r c; if x = CHR ''1'' then rec r c g else Some g } else Some g)"

primrec island_dfs :: "nat \<Rightarrow> nat \<Rightarrow> nat \<Rightarrow> grid \<Rightarrow> grid option" where
  "island_dfs 0 = (\<lambda>r c g. None)"
| "island_dfs (Suc k) = (\<lambda>r c g. do {
     first \<leftarrow> vec_get g 0;
     let nr = length g;
     let nc = length first;
     g0 \<leftarrow> tab_set g r c CHR ''0'';
     g1 \<leftarrow> sink_neighbour (island_dfs k) (r \<ge> 1) (r - 1) c g0;
     g2 \<leftarrow> sink_neighbour (island_dfs k) (r + 1 < nr) (r + 1) c g1;
     g3 \<leftarrow> sink_neighbour (island_dfs k) (c \<ge> 1) r (c - 1) g2;
     sink_neighbour (island_dfs k) (c + 1 < nc) r (c + 1) g3 })"

definition island_cell :: "nat \<Rightarrow> nat \<Rightarrow> nat \<Rightarrow> grid \<times> nat \<Rightarrow> (grid \<times> nat) option" where
  "island_cell fuel r c = (\<lambda>(g, num_islands). do {
     x \<leftarrow> tab_get g r c;
     if x = CHR ''1'' then do { g' \<leftarrow> island_dfs fuel r c g; Some (g', num_islands + 1) } else Some (g, num_islands) })"

definition num_islands :: "nat \<Rightarrow> grid \<Rightarrow> nat option" where
  "num_islands fuel g =
     (let nr = length g
      in if nr = 0 then Some 0
         else do {
           first \<leftarrow> vec_get g 0;
           let nc = length first;
           (g', num) \<leftarrow> for_up 0 nr (\<lambda>r. for_up 0 nc (island_cell fuel r)) (g, 0);
           Some num })"

section \<open>Islands\<close>

definition land :: "grid \<Rightarrow> nat \<Rightarrow> nat \<Rightarrow> (nat \<times> nat) set" where
  "land g nr nc = {(r, c). r < nr \<and> c < nc \<and> g ! r ! c = CHR ''1''}"

definition neighbours :: "nat \<times> nat \<Rightarrow> (nat \<times> nat) set" where
  "neighbours = (\<lambda>(r, c). {(r', c'). (r' = r \<and> (c' = Suc c \<or> c = Suc c')) \<or> (c' = c \<and> (r' = Suc r \<or> r = Suc r'))})"

text \<open>Pieces of land joined by a walk over land.\<close>

definition joined :: "(nat \<times> nat) set \<Rightarrow> ((nat \<times> nat) \<times> (nat \<times> nat)) set" where
  "joined L = {(x, y). x \<in> L \<and> y \<in> L \<and> y \<in> neighbours x}\<^sup>*"

definition same_island :: "(nat \<times> nat) set \<Rightarrow> ((nat \<times> nat) \<times> (nat \<times> nat)) set" where
  "same_island L = joined L \<inter> L \<times> L"

definition island :: "(nat \<times> nat) set \<Rightarrow> nat \<times> nat \<Rightarrow> (nat \<times> nat) set" where
  "island L x = same_island L `` {x}"

lemma neighbours_sym: "y \<in> neighbours x \<Longrightarrow> x \<in> neighbours y"
  by (auto simp: neighbours_def split: prod.splits)

lemma joined_sym: "sym (joined L)"
  unfolding joined_def by (rule sym_rtrancl) (auto simp: sym_def neighbours_sym)

lemma same_island_equiv: "equiv L (same_island L)"
proof (rule equivI)
  show "refl_on L (same_island L)" by (auto simp: refl_on_def same_island_def joined_def)
  show "sym (same_island L)" using joined_sym [of L] by (auto simp: same_island_def sym_def)
  show "trans (same_island L)" unfolding same_island_def joined_def by (auto intro!: transI)
qed (auto simp: same_island_def)

lemma island_self [simp]: "x \<in> L \<Longrightarrow> x \<in> island L x"
  by (simp add: island_def same_island_def joined_def)

lemma island_subset: "island L x \<subseteq> L"
  by (auto simp: island_def same_island_def)

lemma island_eq: "y \<in> island L x \<Longrightarrow> island L y = island L x"
  using equiv_class_eq [OF same_island_equiv] by (simp add: island_def)

lemma island_neighbour: "x \<in> L \<Longrightarrow> y \<in> L \<Longrightarrow> y \<in> neighbours x \<Longrightarrow> y \<in> island L x"
  by (auto simp: island_def same_island_def joined_def)

lemma joined_mono: "L \<subseteq> M \<Longrightarrow> joined L \<subseteq> joined M"
  unfolding joined_def by (intro rtrancl_mono) auto

text \<open>Sinking whole islands leaves the others as they are.\<close>

definition whole :: "(nat \<times> nat) set \<Rightarrow> (nat \<times> nat) set \<Rightarrow> bool" where
  "whole L C \<longleftrightarrow> (\<forall>x\<in>C \<inter> L. island L x \<subseteq> C)"

lemma whole_island: "whole L (island L x)"
  unfolding whole_def using island_eq by blast

lemma whole_Un: "whole L C \<Longrightarrow> whole L D \<Longrightarrow> whole L (C \<union> D)"
  unfolding whole_def by blast

lemma whole_empty [simp]: "whole L {}"
  by (simp add: whole_def)

lemma island_without:
  assumes C: "whole L C" and x: "x \<in> L - C"
  shows "island (L - C) x = island L x"
proof
  show "island (L - C) x \<subseteq> island L x"
    using joined_mono [of "L - C" L] x by (auto simp: island_def same_island_def)
  have "(x, y) \<in> joined (L - C) \<and> y \<in> L - C" if "(x, y) \<in> joined L" for y
    using that unfolding joined_def
  proof (induction rule: rtrancl_induct)
    case base
    then show ?case using x by simp
  next
    case (step y z)
    have "z \<notin> C"
    proof
      assume "z \<in> C"
      moreover have "y \<in> island L z" using step(2) by (auto intro: island_neighbour neighbours_sym)
      ultimately have "y \<in> C" using C step(2) unfolding whole_def by blast
      then show False using step(3) by simp
    qed
    then have "(y, z) \<in> {(x, y). x \<in> L - C \<and> y \<in> L - C \<and> y \<in> neighbours x}" using step(2,3) by auto
    then show ?case using step(3) by (auto intro: rtrancl_into_rtrancl)
  qed
  then show "island L x \<subseteq> island (L - C) x" using x by (auto simp: island_def same_island_def)
qed

text \<open>The island of a cell is the cell itself and the islands of its neighbours once it is sunk.\<close>

lemma island_by_neighbours:
  assumes x: "x \<in> L"
  shows "island L x = insert x (\<Union>y\<in>neighbours x \<inter> (L - {x}). island (L - {x}) y)" (is "_ = insert x ?U")
proof
  have "y \<in> insert x ?U" if "(x, y) \<in> joined L" for y
    using that unfolding joined_def
  proof (induction rule: rtrancl_induct)
    case base
    then show ?case by simp
  next
    case (step y z)
    have yz: "y \<in> L" "z \<in> L" "z \<in> neighbours y" using step(2) by auto
    show ?case
    proof (cases "z = x")
      case False
      then have z: "z \<in> L - {x}" using yz by simp
      show ?thesis
      proof (cases "y = x")
        case True
        then show ?thesis using z yz island_self [OF z] by blast
      next
        case y: False
        then obtain w where w: "w \<in> neighbours x \<inter> (L - {x})" "y \<in> island (L - {x}) w" using step(3) by auto
        have "z \<in> island (L - {x}) y" using y z yz by (intro island_neighbour) auto
        then show ?thesis using w island_eq [OF w(2)] by auto
      qed
    qed simp
  qed
  then show "island L x \<subseteq> insert x ?U" by (auto simp: island_def same_island_def)
next
  have "island (L - {x}) y \<subseteq> island L x" if "y \<in> neighbours x \<inter> (L - {x})" for y
  proof -
    have "island (L - {x}) y \<subseteq> island L y"
      using joined_mono [of "L - {x}" L] by (auto simp: island_def same_island_def)
    also have "island L y = island L x" using that x by (intro island_eq island_neighbour) auto
    finally show ?thesis .
  qed
  then show "insert x ?U \<subseteq> island L x" using x by auto
qed

section \<open>The search sinks one island\<close>

lemma land_bound: "land g nr nc \<subseteq> {..<nr} \<times> {..<nc}"
  by (auto simp: land_def)

lemma finite_land [simp]: "finite (land g nr nc)"
  by (rule finite_subset [OF land_bound]) simp

definition sinks :: "nat \<Rightarrow> nat \<Rightarrow> nat \<Rightarrow> bool" where
  "sinks nr nc k \<longleftrightarrow> (\<forall>r c g. tab_dim g nr nc \<longrightarrow> (r, c) \<in> land g nr nc \<longrightarrow> card (land g nr nc) \<le> k \<longrightarrow>
     (\<exists>g'. island_dfs k r c g = Some g' \<and> tab_dim g' nr nc \<and> land g' nr nc = land g nr nc - island (land g nr nc) (r, c)))"

lemma sinksD:
  assumes "sinks nr nc k" and "tab_dim g nr nc" and "land g nr nc = M" and "(r, c) \<in> M" and "card M \<le> k"
  shows "\<exists>g'. island_dfs k r c g = Some g' \<and> tab_dim g' nr nc \<and> land g' nr nc = M - island M (r, c)"
  using assms unfolding sinks_def by blast

definition part_of :: "bool \<Rightarrow> nat \<times> nat \<Rightarrow> (nat \<times> nat) set \<Rightarrow> (nat \<times> nat) set" where
  "part_of inside y L = (if inside \<and> y \<in> L then island L y else {})"

lemma sink_neighbour_correct:
  assumes IH: "sinks nr nc k" and dim: "tab_dim g nr nc" and lg: "land g nr nc = L - C" and C: "whole L C"
    and L: "finite L" "card L \<le> k" and inside: "inside \<Longrightarrow> r < nr \<and> c < nc"
  shows "\<exists>g'. sink_neighbour (island_dfs k) inside r c g = Some g' \<and> tab_dim g' nr nc \<and>
    land g' nr nc = L - (C \<union> part_of inside (r, c) L) \<and> whole L (C \<union> part_of inside (r, c) L)"
proof -
  have W: "whole L (C \<union> part_of inside (r, c) L)"
    using C whole_island [of L] by (auto simp: part_of_def intro: whole_Un)
  show ?thesis
  proof (cases "inside \<and> (r, c) \<in> L - C")
    case True
    then have x: "(r, c) \<in> land g nr nc" unfolding lg by simp
    have "card (L - C) \<le> k" using L card_mono [OF L(1), of "L - C"] by auto
    then obtain g' where g': "island_dfs k r c g = Some g'" "tab_dim g' nr nc" "land g' nr nc = (L - C) - island (L - C) (r, c)"
      using sinksD [OF IH dim lg] True by blast
    have "tab_get g r c = Some CHR ''1''" using tab_get_in [OF dim, of r c] x by (auto simp: land_def)
    then have "sink_neighbour (island_dfs k) inside r c g = Some g'" using True g'(1) by (simp add: sink_neighbour_def)
    moreover have "land g' nr nc = L - (C \<union> part_of inside (r, c) L)"
      using g'(3) island_without [OF C, of "(r, c)"] True by (auto simp: part_of_def)
    ultimately show ?thesis using g'(2) W by blast
  next
    case False
    have "sink_neighbour (island_dfs k) inside r c g = Some g"
    proof (cases inside)
      case True
      then have b: "r < nr" "c < nc" using inside by auto
      moreover have "(r, c) \<notin> land g nr nc" using False True unfolding lg by simp
      ultimately have "g ! r ! c \<noteq> CHR ''1''" by (simp add: land_def)
      then show ?thesis using tab_get_in [OF dim b] by (simp add: sink_neighbour_def)
    qed (simp add: sink_neighbour_def)
    moreover have "C \<union> part_of inside (r, c) L = C \<union> (part_of inside (r, c) L - C) \<and> L \<inter> (part_of inside (r, c) L - C) = {}"
      using False C unfolding part_of_def whole_def by auto
    then have "L - C = L - (C \<union> part_of inside (r, c) L)" by blast
    ultimately show ?thesis using dim lg W by auto
  qed
qed

lemma land_sunk:
  assumes dim: "tab_dim g nr nc" and b: "r < nr" "c < nc"
  shows "land (g[r := (g ! r)[c := CHR ''0'']]) nr nc = land g nr nc - {(r, c)}"
  by (auto simp: land_def tab_upd_nth [OF dim b] split: if_splits)

lemma neighbours_parts:
  assumes "L \<subseteq> {..<nr} \<times> {..<nc}" and "r < nr" and "c < nc"
  shows "(\<Union>y\<in>neighbours (r, c) \<inter> L. island L y) =
    part_of (r \<ge> 1) (r - 1, c) L \<union> part_of (r + 1 < nr) (r + 1, c) L \<union> part_of (c \<ge> 1) (r, c - 1) L \<union> part_of (c + 1 < nc) (r, c + 1) L"
proof -
  have "neighbours (r, c) \<inter> L = {y. (r \<ge> 1 \<and> y = (r - 1, c) \<or> r + 1 < nr \<and> y = (r + 1, c) \<or> c \<ge> 1 \<and> y = (r, c - 1) \<or>
      c + 1 < nc \<and> y = (r, c + 1)) \<and> y \<in> L}"
    using assms(1) by (auto simp: neighbours_def)
  then show ?thesis unfolding part_of_def by auto
qed

lemma island_dfs_sinks: "sinks nr nc k"
proof (induction k)
  case 0
  then show ?case by (auto simp: sinks_def)
next
  case (Suc k)
  show ?case unfolding sinks_def
  proof (intro allI impI)
    fix r c g
    assume dim: "tab_dim g nr nc" and x: "(r, c) \<in> land g nr nc" and fuel: "card (land g nr nc) \<le> Suc k"
    let ?L = "land g nr nc" let ?L1 = "?L - {(r, c)}" let ?g0 = "g[r := (g ! r)[c := CHR ''0'']]"
    have b: "r < nr" "c < nc" using x by (auto simp: land_def)
    have len: "length g = nr" "vec_get g 0 = Some (g ! 0)" "length (g ! 0) = nc" using dim b by (auto simp: tab_dim_def vec_simps)
    have L1: "finite ?L1" "card ?L1 \<le> k" using fuel x by (auto simp: card_Diff_singleton)
    have g0: "tab_dim ?g0 nr nc" "land ?g0 nr nc = ?L1 - {}" using dim b by (simp_all add: land_sunk)
    note sink = sink_neighbour_correct [OF Suc.IH _ _ _ L1]
    have inside: "r \<ge> 1 \<Longrightarrow> r - 1 < nr \<and> c < nc" "r + 1 < nr \<Longrightarrow> r + 1 < nr \<and> c < nc" "c \<ge> 1 \<Longrightarrow> r < nr \<and> c - 1 < nc"
        "c + 1 < nc \<Longrightarrow> r < nr \<and> c + 1 < nc"
      using b by auto
    obtain g1 where g1: "sink_neighbour (island_dfs k) (r \<ge> 1) (r - 1) c ?g0 = Some g1" "tab_dim g1 nr nc"
        "land g1 nr nc = ?L1 - ({} \<union> part_of (r \<ge> 1) (r - 1, c) ?L1)" "whole ?L1 ({} \<union> part_of (r \<ge> 1) (r - 1, c) ?L1)"
      using sink [OF g0 whole_empty inside(1)] by blast
    obtain g2 where g2: "sink_neighbour (island_dfs k) (r + 1 < nr) (r + 1) c g1 = Some g2" "tab_dim g2 nr nc"
        "land g2 nr nc = ?L1 - ({} \<union> part_of (r \<ge> 1) (r - 1, c) ?L1 \<union> part_of (r + 1 < nr) (r + 1, c) ?L1)"
        "whole ?L1 ({} \<union> part_of (r \<ge> 1) (r - 1, c) ?L1 \<union> part_of (r + 1 < nr) (r + 1, c) ?L1)"
      using sink [OF g1(2-4) inside(2)] by blast
    obtain g3 where g3: "sink_neighbour (island_dfs k) (c \<ge> 1) r (c - 1) g2 = Some g3" "tab_dim g3 nr nc"
        "land g3 nr nc = ?L1 - ({} \<union> part_of (r \<ge> 1) (r - 1, c) ?L1 \<union> part_of (r + 1 < nr) (r + 1, c) ?L1 \<union> part_of (c \<ge> 1) (r, c - 1) ?L1)"
        "whole ?L1 ({} \<union> part_of (r \<ge> 1) (r - 1, c) ?L1 \<union> part_of (r + 1 < nr) (r + 1, c) ?L1 \<union> part_of (c \<ge> 1) (r, c - 1) ?L1)"
      using sink [OF g2(2-4) inside(3)] by blast
    obtain g4 where g4: "sink_neighbour (island_dfs k) (c + 1 < nc) r (c + 1) g3 = Some g4" "tab_dim g4 nr nc"
        "land g4 nr nc = ?L1 - ({} \<union> part_of (r \<ge> 1) (r - 1, c) ?L1 \<union> part_of (r + 1 < nr) (r + 1, c) ?L1 \<union> part_of (c \<ge> 1) (r, c - 1) ?L1 \<union>
          part_of (c + 1 < nc) (r, c + 1) ?L1)"
      using sink [OF g3(2-4) inside(4)] by blast
    have "island_dfs (Suc k) r c g = Some g4"
      using len g1(1) g2(1) g3(1) g4(1) tab_set_in [OF dim b] by simp
    moreover have "land g4 nr nc = ?L - island ?L (r, c)"
      using island_by_neighbours [OF x] neighbours_parts [of ?L1 nr nc r c] land_bound [of g nr nc] b g4(3) by auto
    ultimately show "\<exists>g'. island_dfs (Suc k) r c g = Some g' \<and> tab_dim g' nr nc \<and> land g' nr nc = ?L - island ?L (r, c)"
      using g4(2) by blast
  qed
qed

section \<open>Counting\<close>

definition seen :: "(nat \<times> nat) set \<Rightarrow> nat \<Rightarrow> nat \<Rightarrow> (nat \<times> nat) set set" where
  "seen L i j = {island L (a, b) | a b. (a, b) \<in> L \<and> (a < i \<or> (a = i \<and> b < j))}"

definition island_inv :: "(nat \<times> nat) set \<Rightarrow> nat \<Rightarrow> nat \<Rightarrow> nat \<Rightarrow> nat \<Rightarrow> grid \<times> nat \<Rightarrow> bool" where
  "island_inv L nr nc i j = (\<lambda>(g, num). tab_dim g nr nc \<and> land g nr nc = L - \<Union> (seen L i j) \<and> num = card (seen L i j))"

lemma seen_step: "seen L i (Suc j) = (if (i, j) \<in> L then insert (island L (i, j)) (seen L i j) else seen L i j)"
  by (auto simp: seen_def less_Suc_eq)

lemma seen_row: "L \<subseteq> {..<nr} \<times> {..<nc} \<Longrightarrow> seen L (Suc i) 0 = seen L i nc"
  unfolding seen_def by (fastforce simp: less_Suc_eq)

lemma finite_seen: "finite L \<Longrightarrow> finite (seen L i j)"
  by (rule finite_subset [of _ "island L ` L"]) (auto simp: seen_def)

lemma whole_seen: "whole L (\<Union> (seen L i j))"
  unfolding whole_def seen_def using island_eq by blast

lemma island_cell_correct:
  assumes inv: "island_inv L nr nc i j st" and L: "finite L" "card L \<le> fuel" and b: "i < nr" "j < nc"
  shows "\<exists>st'. island_cell fuel i j st = Some st' \<and> island_inv L nr nc i (Suc j) st'"
proof -
  obtain g num where st: "st = (g, num)" by (cases st)
  have g: "tab_dim g nr nc" "land g nr nc = L - \<Union> (seen L i j)" "num = card (seen L i j)" using inv by (auto simp: island_inv_def st)
  have get: "tab_get g i j = Some (g ! i ! j)" by (rule tab_get_in [OF g(1) b])
  show ?thesis
  proof (cases "g ! i ! j = CHR ''1''")
    case True
    then have x: "(i, j) \<in> land g nr nc" using b by (simp add: land_def)
    then have xL: "(i, j) \<in> L - \<Union> (seen L i j)" using g(2) by simp
    have "card (land g nr nc) \<le> fuel" unfolding g(2) using L card_mono [OF L(1), of "L - \<Union> (seen L i j)"] by auto
    then obtain g' where g': "island_dfs fuel i j g = Some g'" "tab_dim g' nr nc"
        "land g' nr nc = land g nr nc - island (land g nr nc) (i, j)"
      using island_dfs_sinks [of nr nc fuel] g(1) x unfolding sinks_def by blast
    have "land g' nr nc = L - \<Union> (seen L i (Suc j))"
      using g'(3) g(2) island_without [OF whole_seen xL] xL by (auto simp: seen_step)
    moreover have "island L (i, j) \<notin> seen L i j" using xL by auto
    then have "num + 1 = card (seen L i (Suc j))" using xL g(3) finite_seen [OF L(1)] by (simp add: seen_step)
    ultimately have "island_inv L nr nc i (Suc j) (g', num + 1)" using g'(2) by (simp add: island_inv_def)
    moreover have "island_cell fuel i j st = Some (g', num + 1)" using get True g'(1) by (simp add: island_cell_def st)
    ultimately show ?thesis by blast
  next
    case False
    then have "(i, j) \<notin> L - \<Union> (seen L i j)" using g(2) b by (auto simp: land_def)
    moreover have "island L (i, j) \<in> seen L i j" if "(i, j) \<in> \<Union> (seen L i j)"
      using that island_eq [of "(i, j)" L] unfolding seen_def by blast
    ultimately have "seen L i (Suc j) = seen L i j" by (auto simp: seen_step insert_absorb)
    then have "island_inv L nr nc i (Suc j) st" using inv by (simp add: island_inv_def)
    moreover have "island_cell fuel i j st = Some st" using get False by (simp add: island_cell_def st)
    ultimately show ?thesis by blast
  qed
qed

text \<open>
  C20: \<open>numIslands\<close> returns the number of islands: the classes of land cells joined by walks over land from neighbour to neighbour.  The
  depth of its recursion never exceeds the number of land cells.\<close>

theorem num_islands_correct:
  assumes dim: "tab_dim g nr nc" and fuel: "card (land g nr nc) \<le> fuel"
  shows "num_islands fuel g = Some (card (land g nr nc // same_island (land g nr nc)))"
proof (cases "nr = 0")
  case True
  then show ?thesis using dim by (simp add: num_islands_def land_def tab_dim_def quotient_def)
next
  case False
  let ?L = "land g nr nc"
  have len: "length g = nr" "vec_get g 0 = Some (g ! 0)" "length (g ! 0) = nc" using dim False by (auto simp: tab_dim_def vec_simps)
  have "\<exists>st. for_up 0 nr (\<lambda>r. for_up 0 nc (island_cell fuel r)) (g, 0) = Some st \<and> island_inv ?L nr nc nr 0 st"
  proof (rule for_up_nested_rule [where P = "island_inv ?L nr nc"])
    show "island_inv ?L nr nc 0 0 (g, 0)" using dim by (simp add: island_inv_def seen_def)
  next
    fix i st
    assume "island_inv ?L nr nc i nc st"
    then show "island_inv ?L nr nc (Suc i) 0 st" using seen_row [OF land_bound] by (simp add: island_inv_def)
  qed (use island_cell_correct fuel in auto)
  then obtain g' num where loop: "for_up 0 nr (\<lambda>r. for_up 0 nc (island_cell fuel r)) (g, 0) = Some (g', num)" "num = card (seen ?L nr 0)"
    by (auto simp: island_inv_def)
  have "seen ?L nr 0 = ?L // same_island ?L"
    using land_bound [of g nr nc] by (force simp: seen_def quotient_def island_def)
  then show ?thesis using loop len False by (simp add: num_islands_def Let_def)
qed

theorem num_islands_correct_witness:
  "\<exists>g. g = [''110'', ''001''] \<and> num_islands 6 g = Some (card (land g 2 3 // same_island (land g 2 3)))"
proof -
  have "card (land [''110'', ''001''] 2 3) \<le> card ({..<2 :: nat} \<times> {..<3 :: nat})" by (intro card_mono land_bound) simp
  then have "num_islands 6 [''110'', ''001''] = Some (card (land [''110'', ''001''] 2 3 // same_island (land [''110'', ''001''] 2 3)))"
    by (intro num_islands_correct) (simp_all add: tab_dim_def)
  then show ?thesis by blast
qed

end
