(* ===== verification/PairSums.thy ===== *)
theory PairSums
  imports Tables "HOL-Library.Sublist" "HOL-Library.Multiset"
begin

text \<open>
  The programs of \<open>find_job/look_for_job.cpp\<close> that look for numbers with a given sum: two numbers by trying all pairs and by a hash table, and all
  triples with sum zero by two pointers on the sorted array.  The sums and differences are of type \<open>int\<close>: each goes
  through \<^const>\<open>i32\<close>, and a program whose sum overflows has the undefined result \<^const>\<open>None\<close>.
\<close>

section \<open>Two numbers\<close>

text \<open>The answer \<open>{}\<close> is \<open>Some None\<close>.\<close>

function two_sum_inner :: "int list \<Rightarrow> int \<Rightarrow> nat \<Rightarrow> nat \<Rightarrow> (nat \<times> nat) option option" where
  "two_sum_inner nums target i j =
     (if j < length nums
      then case i32 (nums ! i + nums ! j) of
             None \<Rightarrow> None
           | Some s \<Rightarrow> if s = target then Some (Some (i, j)) else two_sum_inner nums target i (j + 1)
      else Some None)"
  by pat_completeness auto
termination by (relation "measure (\<lambda>(nums, target, i, j). length nums - j)") auto

function two_sum_outer :: "int list \<Rightarrow> int \<Rightarrow> nat \<Rightarrow> (nat \<times> nat) option option" where
  "two_sum_outer nums target i =
     (if i < length nums
      then case two_sum_inner nums target i (i + 1) of
             None \<Rightarrow> None
           | Some (Some p) \<Rightarrow> Some (Some p)
           | Some None \<Rightarrow> two_sum_outer nums target (i + 1)
      else Some None)"
  by pat_completeness auto
termination by (relation "measure (\<lambda>(nums, target, i). length nums - i)") auto

declare two_sum_inner.simps [simp del] two_sum_outer.simps [simp del]

definition two_sum :: "int list \<Rightarrow> int \<Rightarrow> (nat \<times> nat) option option" where
  "two_sum nums target = two_sum_outer nums target 0"

function two_sum_hash_loop :: "int list \<Rightarrow> int \<Rightarrow> nat \<Rightarrow> (int \<Rightarrow> nat option) \<Rightarrow> (nat \<times> nat) option option" where
  "two_sum_hash_loop nums target i hashtable =
     (if i < length nums
      then case i32 (target - nums ! i) of
             None \<Rightarrow> None
           | Some key \<Rightarrow>
               (case hashtable key of
                  Some k \<Rightarrow> Some (Some (k, i))
                | None \<Rightarrow> two_sum_hash_loop nums target (i + 1) (hashtable(nums ! i \<mapsto> i)))
      else Some None)"
  by pat_completeness auto
termination by (relation "measure (\<lambda>(nums, target, i, h). length nums - i)") auto

declare two_sum_hash_loop.simps [simp del]

definition two_sum_hash :: "int list \<Rightarrow> int \<Rightarrow> (nat \<times> nat) option option" where
  "two_sum_hash nums target = two_sum_hash_loop nums target 0 (\<lambda>_. None)"

definition sum_pair :: "int list \<Rightarrow> int \<Rightarrow> nat \<Rightarrow> nat \<Rightarrow> bool" where
  "sum_pair nums target i j \<longleftrightarrow> i < j \<and> j < length nums \<and> nums ! i + nums ! j = target"

text \<open>The sums the first version forms are those of two different places, the differences of the second those of the target and a number.\<close>

definition pair_sums_fit :: "int list \<Rightarrow> bool" where
  "pair_sums_fit nums \<longleftrightarrow> (\<forall>i j. i < j \<and> j < length nums \<longrightarrow> fits_i32 (nums ! i + nums ! j))"

definition differences_fit :: "int list \<Rightarrow> int \<Rightarrow> bool" where
  "differences_fit nums target \<longleftrightarrow> (\<forall>x\<in>set nums. fits_i32 (target - x))"

lemma two_sum_inner_correct:
  assumes "i < j" and "pair_sums_fit nums"
  shows "\<exists>res. two_sum_inner nums target i j = Some res \<and>
    (case res of None \<Rightarrow> \<forall>j'\<ge>j. \<not> sum_pair nums target i j' | Some p \<Rightarrow> fst p = i \<and> sum_pair nums target i (snd p))"
  using assms
proof (induction nums target i j rule: two_sum_inner.induct)
  case (1 nums target i j)
  have fits: "i32 (nums ! i + nums ! j) = Some (nums ! i + nums ! j)" if "j < length nums"
    using "1.prems" that by (simp add: pair_sums_fit_def)
  show ?case
  proof (cases "j < length nums \<and> nums ! i + nums ! j \<noteq> target")
    case True
    then have "two_sum_inner nums target i j = two_sum_inner nums target i (j + 1)" using fits by (subst two_sum_inner.simps) simp
    moreover have "\<not> sum_pair nums target i j" using True by (simp add: sum_pair_def)
    then have "\<forall>j'\<ge>j. \<not> sum_pair nums target i j'" if "\<forall>j'\<ge>j + 1. \<not> sum_pair nums target i j'"
      using that by (metis Suc_eq_plus1 le_eq_less_or_eq less_eq_Suc_le)
    moreover have "\<exists>res. two_sum_inner nums target i (j + 1) = Some res \<and>
      (case res of None \<Rightarrow> \<forall>j'\<ge>j + 1. \<not> sum_pair nums target i j' | Some p \<Rightarrow> fst p = i \<and> sum_pair nums target i (snd p))"
      using True "1.prems" fits by (intro "1.IH") auto
    ultimately show ?thesis by (auto split: option.splits)
  next
    case False
    then show ?thesis using "1.prems"(1) fits by (subst two_sum_inner.simps) (auto simp: sum_pair_def)
  qed
qed

lemma two_sum_outer_correct:
  assumes "pair_sums_fit nums"
  shows "\<exists>res. two_sum_outer nums target i = Some res \<and>
    (case res of None \<Rightarrow> \<forall>i'\<ge>i. \<forall>j. \<not> sum_pair nums target i' j | Some p \<Rightarrow> sum_pair nums target (fst p) (snd p))"
  using assms
proof (induction nums target i rule: two_sum_outer.induct)
  case (1 nums target i)
  have inner: "\<exists>res. two_sum_inner nums target i (i + 1) = Some res \<and>
    (case res of None \<Rightarrow> \<forall>j'\<ge>i + 1. \<not> sum_pair nums target i j' | Some p \<Rightarrow> fst p = i \<and> sum_pair nums target i (snd p))"
    using "1.prems" by (intro two_sum_inner_correct) auto
  show ?case
  proof (cases "i < length nums \<and> two_sum_inner nums target i (i + 1) = Some None")
    case True
    then have "two_sum_outer nums target i = two_sum_outer nums target (i + 1)" by (subst two_sum_outer.simps) simp
    moreover have "\<not> sum_pair nums target i j" for j
      using inner True by (cases "i < j") (auto simp: sum_pair_def)
    then have "\<forall>i'\<ge>i. \<forall>j. \<not> sum_pair nums target i' j" if "\<forall>i'\<ge>i + 1. \<forall>j. \<not> sum_pair nums target i' j"
      using that by (metis Suc_eq_plus1 le_eq_less_or_eq less_eq_Suc_le)
    moreover have "\<exists>res. two_sum_outer nums target (i + 1) = Some res \<and>
      (case res of None \<Rightarrow> \<forall>i'\<ge>i + 1. \<forall>j. \<not> sum_pair nums target i' j | Some p \<Rightarrow> sum_pair nums target (fst p) (snd p))"
      using True "1.prems" by (intro "1.IH") auto
    ultimately show ?thesis by (auto split: option.splits)
  next
    case False
    then show ?thesis using inner by (subst two_sum_outer.simps) (auto simp: sum_pair_def split: option.splits)
  qed
qed

text \<open>The hash table holds, for each number in front of the position, the last place where it is.\<close>

definition hashed :: "int list \<Rightarrow> nat \<Rightarrow> (int \<Rightarrow> nat option) \<Rightarrow> bool" where
  "hashed nums i h \<longleftrightarrow> (\<forall>x. case h x of None \<Rightarrow> x \<notin> set (take i nums) | Some k \<Rightarrow> k < i \<and> nums ! k = x)"

lemma hashed_next:
  assumes "hashed nums i h" and "i < length nums"
  shows "hashed nums (Suc i) (h(nums ! i \<mapsto> i))"
  unfolding hashed_def
proof
  fix x
  show "case (h(nums ! i \<mapsto> i)) x of None \<Rightarrow> x \<notin> set (take (Suc i) nums) | Some k \<Rightarrow> k < Suc i \<and> nums ! k = x"
    using assms(1) [unfolded hashed_def, rule_format, of x] assms(2)
    by (auto simp: take_Suc_conv_app_nth split: option.splits)
qed

lemma two_sum_hash_loop_correct:
  assumes "hashed nums i h" and "\<And>a b. b < i \<Longrightarrow> \<not> sum_pair nums target a b" and "differences_fit nums target"
  shows "\<exists>res. two_sum_hash_loop nums target i h = Some res \<and>
    (case res of None \<Rightarrow> \<forall>a b. \<not> sum_pair nums target a b | Some p \<Rightarrow> sum_pair nums target (fst p) (snd p))"
  using assms
proof (induction nums target i h rule: two_sum_hash_loop.induct)
  case (1 nums target i h)
  show ?case
  proof (cases "i < length nums")
    case False
    then have "\<forall>a b. \<not> sum_pair nums target a b" using "1.prems"(2) by (auto simp: sum_pair_def)
    then show ?thesis using False by (subst two_sum_hash_loop.simps) simp
  next
    case True
    then have fits: "i32 (target - nums ! i) = Some (target - nums ! i)" using "1.prems"(3) by (simp add: differences_fit_def)
    show ?thesis
    proof (cases "h (target - nums ! i)")
      case None
      then have "target - nums ! i \<notin> set (take i nums)" using "1.prems"(1) by (auto simp: hashed_def dest: spec [of _ "target - nums ! i"])
      then have "\<not> sum_pair nums target a i" for a using True by (auto simp: sum_pair_def in_set_conv_nth)
      then have "\<not> sum_pair nums target a b" if "b < Suc i" for a b using "1.prems"(2) that by (metis less_SucE)
      then show ?thesis using "1.IH" [OF True fits None] hashed_next [OF "1.prems"(1) True] "1.prems"(3) True None fits
        by (subst two_sum_hash_loop.simps) (simp add: fun_upd_def)
    next
      case (Some k)
      then have "k < i \<and> nums ! k = target - nums ! i" using "1.prems"(1) by (auto simp: hashed_def dest: spec [of _ "target - nums ! i"])
      then show ?thesis using True Some fits by (subst two_sum_hash_loop.simps) (simp add: sum_pair_def)
    qed
  qed
qed

text \<open>
  Where no sum or difference they form overflows, both versions of \<open>twoSum\<close> return two positions with the given sum when there are any and
  nothing otherwise, and the same positions when these are the only ones.\<close>

theorem two_sums_agree:
  assumes "pair_sums_fit nums" and "differences_fit nums target"
  shows "\<exists>a b. two_sum nums target = Some a \<and> two_sum_hash nums target = Some b \<and>
    (a = None \<longleftrightarrow> (\<nexists>i j. sum_pair nums target i j)) \<and> (b = None \<longleftrightarrow> (\<nexists>i j. sum_pair nums target i j)) \<and>
    (\<forall>i j. a = Some (i, j) \<or> b = Some (i, j) \<longrightarrow> sum_pair nums target i j) \<and>
    ((\<exists>!p. sum_pair nums target (fst p) (snd p)) \<longrightarrow> a = b)"
proof -
  obtain a where a: "two_sum nums target = Some a"
      "case a of None \<Rightarrow> \<forall>i j. \<not> sum_pair nums target i j | Some p \<Rightarrow> sum_pair nums target (fst p) (snd p)"
    using two_sum_outer_correct [OF assms(1), of target 0] by (auto simp: two_sum_def cong: option.case_cong)
  obtain b where b: "two_sum_hash nums target = Some b"
      "case b of None \<Rightarrow> \<forall>i j. \<not> sum_pair nums target i j | Some p \<Rightarrow> sum_pair nums target (fst p) (snd p)"
    using two_sum_hash_loop_correct [of nums 0 "\<lambda>_. None" target] assms(2) by (auto simp: two_sum_hash_def hashed_def)
  have "a = b" if "\<exists>!p. sum_pair nums target (fst p) (snd p)"
    using that a(2) b(2) by (auto split: option.splits)
  then show ?thesis using a b by (intro exI [of _ a] exI [of _ b]) (auto split: option.splits)
qed

theorem two_sums_agree_witness:
  "pair_sums_fit [2, 7, 11] \<and> differences_fit [2, 7, 11] 9 \<and> two_sum [2, 7, 11] 9 \<noteq> Some None \<and> two_sum_hash [2, 7, 11] 9 \<noteq> None"
proof -
  have fits: "pair_sums_fit [2, 7, 11]" "differences_fit [2, 7, 11] 9"
    by (auto simp: pair_sums_fit_def differences_fit_def fits_i32_def less_Suc_eq numeral_eq_Suc nth_Cons')
  moreover have "sum_pair [2, 7, 11] 9 0 1" by (simp add: sum_pair_def)
  ultimately show ?thesis using two_sums_agree [OF fits] by auto
qed

section \<open>Three numbers\<close>

text \<open>The loops that skip equal numbers.\<close>

function skip_up :: "int list \<Rightarrow> nat \<Rightarrow> nat \<Rightarrow> nat" where
  "skip_up nums l r = (if l < r \<and> nums ! l = nums ! (l + 1) then skip_up nums (l + 1) r else l)"
  by pat_completeness auto
termination by (relation "measure (\<lambda>(nums, l, r). r - l)") auto

function skip_down :: "int list \<Rightarrow> nat \<Rightarrow> nat \<Rightarrow> nat" where
  "skip_down nums l r = (if l < r \<and> nums ! r = nums ! (r - 1) then skip_down nums l (r - 1) else r)"
  by pat_completeness auto
termination by (relation "measure (\<lambda>(nums, l, r). r - l)") auto

declare skip_up.simps [simp del] skip_down.simps [simp del]

lemma skip_up_props:
  "l \<le> r \<Longrightarrow> l \<le> skip_up nums l r \<and> skip_up nums l r \<le> r \<and> (\<forall>p. l \<le> p \<and> p \<le> skip_up nums l r \<longrightarrow> nums ! p = nums ! l) \<and>
     (skip_up nums l r < r \<longrightarrow> nums ! (skip_up nums l r + 1) \<noteq> nums ! l)"
proof (induction nums l r rule: skip_up.induct)
  case (1 nums l r)
  show ?case
  proof (cases "l < r \<and> nums ! l = nums ! (l + 1)")
    case True
    have "skip_up nums l r = skip_up nums (l + 1) r" using True by (subst skip_up.simps) simp
    moreover have "p = l \<or> l + 1 \<le> p" if "l \<le> p" for p using that by auto
    ultimately show ?thesis using 1 True by (metis Suc_eq_plus1 Suc_leD Suc_leI)
  next
    case False
    then have "skip_up nums l r = l" by (subst skip_up.simps) auto
    then show ?thesis using False "1.prems" by (auto dest: le_antisym)
  qed
qed

lemma skip_down_props:
  "l \<le> r \<Longrightarrow> l \<le> skip_down nums l r \<and> skip_down nums l r \<le> r \<and> (\<forall>p. skip_down nums l r \<le> p \<and> p \<le> r \<longrightarrow> nums ! p = nums ! r)"
proof (induction nums l r rule: skip_down.induct)
  case (1 nums l r)
  show ?case
  proof (cases "l < r \<and> nums ! r = nums ! (r - 1)")
    case True
    have e: "skip_down nums l r = skip_down nums l (r - 1)" using True by (subst skip_down.simps) simp
    have IH: "l \<le> skip_down nums l (r - 1)" "skip_down nums l (r - 1) \<le> r - 1"
        "\<And>p. skip_down nums l (r - 1) \<le> p \<Longrightarrow> p \<le> r - 1 \<Longrightarrow> nums ! p = nums ! (r - 1)"
    proof -
      have "l \<le> r - 1" using True by auto
      from "1.IH" [OF True this] show "l \<le> skip_down nums l (r - 1)" "skip_down nums l (r - 1) \<le> r - 1"
        "\<And>p. skip_down nums l (r - 1) \<le> p \<Longrightarrow> p \<le> r - 1 \<Longrightarrow> nums ! p = nums ! (r - 1)" by blast+
    qed
    have "nums ! p = nums ! r" if "skip_down nums l (r - 1) \<le> p" "p \<le> r" for p
      using IH(3) [of p] that True by (cases "p = r") auto
    moreover have "skip_down nums l (r - 1) \<le> r" using IH(2) by simp
    ultimately show ?thesis unfolding e using IH(1) by blast
  next
    case False
    then have "skip_down nums l r = r" by (subst skip_down.simps) auto
    then show ?thesis using "1.prems" by (auto dest: le_antisym)
  qed
qed

lemma skip_bounds:
  "l \<le> r \<Longrightarrow> l \<le> skip_up nums l r" "l \<le> r \<Longrightarrow> skip_up nums l r \<le> r" "l \<le> r \<Longrightarrow> skip_down nums l r \<le> r"
  using skip_up_props skip_down_props by blast+

type_synonym triple = "int \<times> int \<times> int"

function three_sum_pairs :: "int list \<Rightarrow> nat \<Rightarrow> int \<Rightarrow> nat \<Rightarrow> nat \<Rightarrow> triple list \<Rightarrow> triple list option" where
  "three_sum_pairs nums i target l r res =
     (if l < r
      then case i32 (nums ! l + nums ! r) of
             None \<Rightarrow> None
           | Some s \<Rightarrow>
               if s = target
               then let l1 = skip_up nums l r; r1 = skip_down nums l1 r
                    in three_sum_pairs nums i target (l1 + 1) (r1 - 1) (res @ [(nums ! i, nums ! l, nums ! r)])
               else if s < target then three_sum_pairs nums i target (l + 1) r res
               else three_sum_pairs nums i target l (r - 1) res
      else Some res)"
  by pat_completeness auto
termination
proof (relation "measure (\<lambda>(nums, i, target, l, r, res). r - l)")
  fix nums :: "int list" and i l r :: nat and target s :: int and res :: "triple list" and x xa
  assume "l < r" "x = skip_up nums l r" "xa = skip_down nums x r"
  then show "((nums, i, target, x + 1, xa - 1, res @ [(nums ! i, nums ! l, nums ! r)]), nums, i, target, l, r, res)
      \<in> measure (\<lambda>(nums, i, target, l, r, res). r - l)"
    using skip_bounds(1,2) [of l r nums] skip_bounds(3) [of x r nums] by auto
qed auto

declare three_sum_pairs.simps [simp del]

text \<open>The target \<open>-nums[i]\<close> is computed before the test for a repeated number.\<close>

function three_sum_loop :: "int list \<Rightarrow> nat \<Rightarrow> triple list \<Rightarrow> triple list option" where
  "three_sum_loop nums i res =
     (if i < length nums
      then if nums ! i > 0 then Some res
           else case i32 (- (nums ! i)) of
                  None \<Rightarrow> None
                | Some target \<Rightarrow>
                    (case (if i = 0 \<or> nums ! i \<noteq> nums ! (i - 1)
                           then three_sum_pairs nums i target (i + 1) (length nums - 1) res
                           else Some res) of
                       None \<Rightarrow> None
                     | Some res' \<Rightarrow> three_sum_loop nums (i + 1) res')
      else Some res)"
  by pat_completeness auto
termination by (relation "measure (\<lambda>(nums, i, res). length nums - i)") auto

declare three_sum_loop.simps [simp del]

definition three_sum :: "int list \<Rightarrow> triple list option" where
  "three_sum nums = (if length nums = 0 then Some [] else three_sum_loop (sort nums) 0 [])"

subsection \<open>Two pointers\<close>

definition pair_values :: "int list \<Rightarrow> int \<Rightarrow> nat \<Rightarrow> nat \<Rightarrow> (int \<times> int) set" where
  "pair_values nums target l r = {(nums ! p, nums ! q) | p q. l \<le> p \<and> p < q \<and> q \<le> r \<and> nums ! p + nums ! q = target}"

lemma pair_values_found:
  assumes s: "sorted nums" and r: "r < length nums" and lr: "l < r" and sum: "nums ! l + nums ! r = target"
    and l1: "l1 = skip_up nums l r" and r1: "r1 = skip_down nums l1 r"
  shows "pair_values nums target l r = insert (nums ! l, nums ! r) (pair_values nums target (l1 + 1) (r1 - 1))"
    and "(nums ! l, nums ! r) \<notin> pair_values nums target (l1 + 1) (r1 - 1)"
proof -
  have up: "l \<le> l1" "l1 \<le> r" "\<And>p. l \<le> p \<Longrightarrow> p \<le> l1 \<Longrightarrow> nums ! p = nums ! l" "l1 < r \<Longrightarrow> nums ! (l1 + 1) \<noteq> nums ! l"
    using skip_up_props [OF less_imp_le [OF lr], of nums, folded l1] by blast+
  have down: "l1 \<le> r1" "r1 \<le> r" "\<And>p. r1 \<le> p \<Longrightarrow> p \<le> r \<Longrightarrow> nums ! p = nums ! r"
    using skip_down_props [OF up(2), of nums, folded r1] by blast+
  note b = up(1,2) down(1,2)
  have bigger: "nums ! l < nums ! p" if "l1 < p" "p < r1" for p
  proof -
    have "l1 < r" using that b by simp
    then have "nums ! l \<noteq> nums ! (l1 + 1)" using up(4) by auto
    moreover have "nums ! l \<le> nums ! (l1 + 1)" "nums ! (l1 + 1) \<le> nums ! p"
      using s r b that by (auto intro!: sorted_nth_mono)
    ultimately show ?thesis by simp
  qed
  show "(nums ! l, nums ! r) \<notin> pair_values nums target (l1 + 1) (r1 - 1)"
  proof
    assume "(nums ! l, nums ! r) \<in> pair_values nums target (l1 + 1) (r1 - 1)"
    then obtain p q where "l1 + 1 \<le> p" "p < q" "q \<le> r1 - 1" "nums ! p = nums ! l" unfolding pair_values_def by fastforce
    moreover from this have "p < r1" by linarith
    ultimately show False using bigger [of p] by auto
  qed
  have "(nums ! p, nums ! q) \<in> insert (nums ! l, nums ! r) (pair_values nums target (l1 + 1) (r1 - 1))"
    if pq: "l \<le> p" "p < q" "q \<le> r" "nums ! p + nums ! q = target" for p q
  proof (cases "nums ! p = nums ! l")
    case True
    then show ?thesis using pq sum by simp
  next
    case False
    then have "l1 < p" using up(3) [OF pq(1)] by (meson not_le)
    moreover have "nums ! q \<noteq> nums ! r" using False pq(4) sum by auto
    then have "q < r1" using down(3) [OF _ pq(3)] by (meson not_le)
    ultimately have "l1 + 1 \<le> p \<and> p < q \<and> q \<le> r1 - 1" using pq(2) by auto
    then show ?thesis using pq(4) unfolding pair_values_def by blast
  qed
  then have "pair_values nums target l r \<subseteq> insert (nums ! l, nums ! r) (pair_values nums target (l1 + 1) (r1 - 1))"
    unfolding pair_values_def [of nums target l r] by blast
  moreover have "l \<le> p \<and> p < q \<and> q \<le> r" if "l1 + 1 \<le> p" "p < q" "q \<le> r1 - 1" for p q using that b by linarith
  then have "pair_values nums target (l1 + 1) (r1 - 1) \<subseteq> pair_values nums target l r"
    unfolding pair_values_def by blast
  moreover have "(nums ! l, nums ! r) \<in> pair_values nums target l r" using lr sum unfolding pair_values_def by blast
  ultimately show "pair_values nums target l r = insert (nums ! l, nums ! r) (pair_values nums target (l1 + 1) (r1 - 1))"
    by blast
qed

lemma pair_values_less:
  assumes s: "sorted nums" and r: "r < length nums" and "nums ! l + nums ! r < target"
  shows "pair_values nums target l r = pair_values nums target (l + 1) r"
proof -
  have "p \<noteq> l" if "p < q" "q \<le> r" "nums ! p + nums ! q = target" for p q
    using that sorted_nth_mono [OF s that(2) r] assms(3) by auto
  then show ?thesis unfolding pair_values_def by (metis (no_types, opaque_lifting) Suc_eq_plus1 Suc_leI le_neq_implies_less Suc_leD)
qed

lemma pair_values_more:
  assumes s: "sorted nums" and r: "r < length nums" and "nums ! l + nums ! r > target" and "l < r"
  shows "pair_values nums target l r = pair_values nums target l (r - 1)"
proof -
  have "q \<noteq> r" if "l \<le> p" "p < q" "q \<le> r" "nums ! p + nums ! q = target" for p q
    using that sorted_nth_mono [OF s that(1)] r assms(3) by force
  then have "l \<le> p \<and> p < q \<and> q \<le> r \<and> nums ! p + nums ! q = target \<longleftrightarrow> l \<le> p \<and> p < q \<and> q \<le> r - 1 \<and> nums ! p + nums ! q = target" for p q
    using assms(4) by (metis Suc_pred' diff_le_self le_neq_implies_less le_trans less_Suc_eq_le not_less_zero gr0I)
  then show ?thesis unfolding pair_values_def by simp
qed

text \<open>What the loop over two pointers returns lists the pairs once; it returns when no sum of two numbers overflows.\<close>

lemma three_sum_pairs_correct:
  assumes "sorted nums" and "r < length nums" and "three_sum_pairs nums i target l r res = Some res'"
  shows "\<exists>out. res' = res @ map (Pair (nums ! i)) out \<and> distinct out \<and> set out = pair_values nums target l r"
  using assms
proof (induction nums i target l r res rule: three_sum_pairs.induct)
  case (1 nums i target l r res)
  show ?case
  proof (cases "l < r")
    case False
    then have "pair_values nums target l r = {}" by (auto simp: pair_values_def)
    then show ?thesis using False "1.prems"(3) by (subst (asm) three_sum_pairs.simps) simp
  next
    case lr: True
    then obtain s where s: "i32 (nums ! l + nums ! r) = Some s" and s_is: "s = nums ! l + nums ! r"
      using "1.prems"(3) by (subst (asm) three_sum_pairs.simps) (auto simp: i32_Some_iff split: option.splits)
    consider (eq) "nums ! l + nums ! r = target" | (lt) "nums ! l + nums ! r < target" | (gt) "nums ! l + nums ! r > target" by linarith
    then show ?thesis
    proof cases
      case eq
      define l1 where "l1 = skip_up nums l r"
      define r1 where "r1 = skip_down nums l1 r"
      have "r1 - 1 < length nums" using skip_bounds [of l r nums] skip_bounds(3) [of l1 r nums] lr "1.prems"(2) by (simp add: l1_def r1_def)
      moreover have "three_sum_pairs nums i target (l1 + 1) (r1 - 1) (res @ [(nums ! i, nums ! l, nums ! r)]) = Some res'"
        using "1.prems"(3) lr s s_is eq by (subst (asm) three_sum_pairs.simps) (simp add: Let_def l1_def r1_def)
      ultimately obtain out where out: "res' = (res @ [(nums ! i, nums ! l, nums ! r)]) @ map (Pair (nums ! i)) out"
          "distinct out" "set out = pair_values nums target (l1 + 1) (r1 - 1)"
        using "1.IH"(1) [OF lr s _ l1_def r1_def "1.prems"(1)] s_is eq by blast
      note pv = pair_values_found [OF "1.prems"(1,2) lr eq l1_def r1_def]
      show ?thesis using out pv by (intro exI [of _ "(nums ! l, nums ! r) # out"]) simp
    next
      case lt
      then have "three_sum_pairs nums i target (l + 1) r res = Some res'"
        using "1.prems"(3) lr s s_is by (subst (asm) three_sum_pairs.simps) simp
      then show ?thesis using "1.IH"(2) [OF lr s _ _ "1.prems"(1,2)] pair_values_less [OF "1.prems"(1,2) lt] lt s_is by simp
    next
      case gt
      then have "three_sum_pairs nums i target l (r - 1) res = Some res'"
        using "1.prems"(3) lr s s_is by (subst (asm) three_sum_pairs.simps) simp
      then show ?thesis using "1.IH"(3) [OF lr s _ _ "1.prems"(1)] pair_values_more [OF "1.prems"(1,2) gt lr] gt s_is "1.prems"(2) by simp
    qed
  qed
qed

lemma three_sum_pairs_returns:
  assumes "pair_sums_fit nums" and "r < length nums"
  shows "\<exists>res'. three_sum_pairs nums i target l r res = Some res'"
  using assms
proof (induction nums i target l r res rule: three_sum_pairs.induct)
  case (1 nums i target l r res)
  show ?case
  proof (cases "l < r")
    case False
    then show ?thesis by (subst three_sum_pairs.simps) simp
  next
    case lr: True
    then have s: "i32 (nums ! l + nums ! r) = Some (nums ! l + nums ! r)" using "1.prems" by (simp add: pair_sums_fit_def)
    have "skip_down nums (skip_up nums l r) r - 1 < length nums"
      using skip_bounds [of l r nums] skip_bounds(3) [of "skip_up nums l r" r nums] lr "1.prems"(2) by simp
    then show ?thesis using "1.IH" [OF lr s] "1.prems" lr s by (subst three_sum_pairs.simps) (simp add: Let_def)
  qed
qed

subsection \<open>All triples\<close>

definition triples :: "int list \<Rightarrow> nat \<Rightarrow> (int \<times> int \<times> int) set" where
  "triples nums i0 = {(nums ! i, nums ! p, nums ! q) | i p q. i0 \<le> i \<and> i < p \<and> p < q \<and> q < length nums \<and> nums ! i + nums ! p + nums ! q = 0}"

text \<open>The triples that remain to be found at position \<open>i\<close>: those with another first number than the one just passed.\<close>

definition remaining :: "int list \<Rightarrow> nat \<Rightarrow> (int \<times> int \<times> int) set" where
  "remaining nums i = {t \<in> triples nums i. i = 0 \<or> fst t \<noteq> nums ! (i - 1)}"

lemma triplesI: "i0 \<le> i \<Longrightarrow> i < p \<Longrightarrow> p < q \<Longrightarrow> q < length nums \<Longrightarrow> nums ! i + nums ! p + nums ! q = 0 \<Longrightarrow> (nums ! i, nums ! p, nums ! q) \<in> triples nums i0"
  unfolding triples_def by blast

lemma triplesE:
  assumes "t \<in> triples nums i0"
  obtains i p q where "t = (nums ! i, nums ! p, nums ! q)" "i0 \<le> i" "i < p" "p < q" "q < length nums" "nums ! i + nums ! p + nums ! q = 0"
  using assms unfolding triples_def by blast

lemma triples_positive:
  assumes s: "sorted nums" and i: "nums ! i > 0"
  shows "triples nums i = {}"
proof -
  have False if t: "t \<in> triples nums i" for t
  proof -
    obtain j p q where "i \<le> j" "j < p" "p < q" "q < length nums" "nums ! j + nums ! p + nums ! q = 0" using t by (rule triplesE)
    then show False using sorted_nth_mono [OF s, of i j] sorted_nth_mono [OF s, of i p] sorted_nth_mono [OF s, of i q] i by simp
  qed
  then show ?thesis by blast
qed

lemma remaining_same:
  assumes "0 < i" and "nums ! i = nums ! (i - 1)"
  shows "remaining nums i = remaining nums (i + 1)"
proof -
  have "t \<in> triples nums (i + 1)" if "t \<in> triples nums i" "fst t \<noteq> nums ! (i - 1)" for t
  proof -
    obtain j p q where t: "t = (nums ! j, nums ! p, nums ! q)" "i \<le> j" "j < p" "p < q" "q < length nums" "nums ! j + nums ! p + nums ! q = 0"
      using \<open>t \<in> triples nums i\<close> by (rule triplesE)
    then have "i + 1 \<le> j" using that(2) assms(2) by (cases "i = j") auto
    then show ?thesis unfolding t(1) using t(3-6) by (intro triplesI)
  qed
  moreover have "triples nums (i + 1) \<subseteq> triples nums i" by (auto elim!: triplesE intro!: triplesI)
  ultimately show ?thesis using assms unfolding remaining_def by auto
qed

lemma remaining_new:
  assumes s: "sorted nums" and i: "i < length nums" and new: "i = 0 \<or> nums ! i \<noteq> nums ! (i - 1)"
  shows "remaining nums i = Pair (nums ! i) ` pair_values nums (- (nums ! i)) (i + 1) (length nums - 1) \<union> remaining nums (i + 1)"
proof -
  have "t \<in> Pair (nums ! i) ` pair_values nums (- (nums ! i)) (i + 1) (length nums - 1) \<union> remaining nums (i + 1)"
    if t_in: "t \<in> triples nums i" for t
  proof -
    obtain j p q where t: "t = (nums ! j, nums ! p, nums ! q)" "i \<le> j" "j < p" "p < q" "q < length nums" "nums ! j + nums ! p + nums ! q = 0"
      using t_in by (rule triplesE)
    show ?thesis
    proof (cases "nums ! j = nums ! i")
      case True
      then have "(nums ! p, nums ! q) \<in> pair_values nums (- (nums ! i)) (i + 1) (length nums - 1)"
        using t unfolding pair_values_def by (fastforce intro: exI [of _ p] exI [of _ q])
      then show ?thesis using True t(1) by blast
    next
      case False
      then have "i + 1 \<le> j" using t(2) by (cases "i = j") auto
      then have "t \<in> triples nums (i + 1)" unfolding t(1) using t(3-6) by (intro triplesI)
      then show ?thesis using False t(1) by (simp add: remaining_def)
    qed
  qed
  moreover have "Pair (nums ! i) x \<in> remaining nums i" if x: "x \<in> pair_values nums (- (nums ! i)) (i + 1) (length nums - 1)" for x
  proof -
    obtain p q where pq: "x = (nums ! p, nums ! q)" "i + 1 \<le> p" "p < q" "q \<le> length nums - 1" "nums ! p + nums ! q = - (nums ! i)"
      using x unfolding pair_values_def by blast
    then have "(nums ! i, nums ! p, nums ! q) \<in> triples nums i" using i by (intro triplesI) auto
    then show ?thesis using new pq(1) by (auto simp: remaining_def)
  qed
  moreover have "t \<in> remaining nums i" if "t \<in> remaining nums (i + 1)" for t
  proof -
    have "t \<in> triples nums (i + 1)" using that by (simp add: remaining_def)
    then obtain j p q where t: "t = (nums ! j, nums ! p, nums ! q)" "i + 1 \<le> j" "j < p" "p < q" "q < length nums" "nums ! j + nums ! p + nums ! q = 0"
      by (rule triplesE)
    have "i = 0 \<or> nums ! j \<noteq> nums ! (i - 1)"
      using new sorted_nth_mono [OF s, of "i - 1" i] sorted_nth_mono [OF s, of i j] i t by force
    moreover have "t \<in> triples nums i" unfolding t(1) using t by (intro triplesI) auto
    ultimately show ?thesis using t(1) by (simp add: remaining_def)
  qed
  ultimately show ?thesis unfolding remaining_def by blast
qed

lemma three_sum_loop_correct:
  assumes "sorted nums" and "three_sum_loop nums i res = Some res'"
  shows "\<exists>out. res' = res @ out \<and> distinct out \<and> set out = remaining nums i"
  using assms
proof (induction nums i res rule: three_sum_loop.induct)
  case (1 nums i res)
  show ?case
  proof (cases "i < length nums \<and> \<not> nums ! i > 0")
    case False
    then have "remaining nums i = {}" using triples_positive [OF "1.prems"(1), of i] by (auto simp: remaining_def elim: triplesE)
    then show ?thesis using False "1.prems"(2) by (subst (asm) three_sum_loop.simps) (auto split: if_splits)
  next
    case True
    obtain t where t: "i32 (- (nums ! i)) = Some t" and t_is: "t = - (nums ! i)"
      using True "1.prems"(2) by (subst (asm) three_sum_loop.simps) (auto simp: i32_Some_iff split: option.splits)
    obtain mid where mid: "(if i = 0 \<or> nums ! i \<noteq> nums ! (i - 1) then three_sum_pairs nums i t (i + 1) (length nums - 1) res else Some res) = Some mid"
        and rest: "three_sum_loop nums (i + 1) mid = Some res'"
      using True t "1.prems"(2) by (subst (asm) three_sum_loop.simps) (auto split: option.splits)
    obtain o2 where o2: "res' = mid @ o2" "distinct o2" "set o2 = remaining nums (i + 1)"
      using "1.IH" [OF _ _ t mid "1.prems"(1) rest] True by blast
    show ?thesis
    proof (cases "i = 0 \<or> nums ! i \<noteq> nums ! (i - 1)")
      case new: True
      have "length nums - 1 < length nums" using True by auto
      then obtain o1 where o1: "mid = res @ map (Pair (nums ! i)) o1"
          "distinct o1" "set o1 = pair_values nums (- (nums ! i)) (i + 1) (length nums - 1)"
        using three_sum_pairs_correct [OF "1.prems"(1)] mid new t_is by (metis (no_types))
      have "distinct (map (Pair (nums ! i)) o1 @ o2)"
        using o1(2) o2(2,3) by (auto simp: distinct_map inj_on_def remaining_def)
      moreover have "set (map (Pair (nums ! i)) o1 @ o2) = remaining nums i"
        using remaining_new [OF "1.prems"(1) _ new] True o1(3) o2(3) by simp
      ultimately show ?thesis using o1(1) o2(1) by (intro exI [of _ "map (Pair (nums ! i)) o1 @ o2"]) simp
    next
      case same: False
      then show ?thesis using o2 mid remaining_same [of i nums] by auto
    qed
  qed
qed

lemma three_sum_loop_returns:
  assumes "pair_sums_fit nums" and "\<forall>x\<in>set nums. - (2 ^ 31) < x"
  shows "\<exists>res'. three_sum_loop nums i res = Some res'"
  using assms
proof (induction nums i res rule: three_sum_loop.induct)
  case (1 nums i res)
  show ?case
  proof (cases "i < length nums \<and> \<not> nums ! i > 0")
    case False
    then show ?thesis by (subst three_sum_loop.simps) auto
  next
    case True
    then have "- (2 ^ 31) < nums ! i" using "1.prems"(2) by (simp only: nth_mem)
    then have t: "i32 (- (nums ! i)) = Some (- (nums ! i))" using True by (simp add: fits_i32_def)
    have "length nums - 1 < length nums" using True by auto
    from three_sum_pairs_returns [OF "1.prems"(1) this]
    obtain mid where mid: "(if i = 0 \<or> nums ! i \<noteq> nums ! (i - 1)
        then three_sum_pairs nums i (- (nums ! i)) (i + 1) (length nums - 1) res else Some res) = Some mid" by fastforce
    then show ?thesis using "1.IH" [OF _ _ t mid "1.prems"] True t by (subst three_sum_loop.simps) simp
  qed
qed

text \<open>Positions in the sorted array, and numbers of the array.\<close>

lemma subseq_if_submset:
  "sorted ys \<Longrightarrow> sorted xs \<Longrightarrow> mset ys \<subseteq># mset xs \<Longrightarrow> subseq ys xs" for xs ys :: "int list"
proof (induction xs arbitrary: ys)
  case (Cons x xs)
  show ?case
  proof (cases ys)
    case ys: (Cons y zs)
    show ?thesis
    proof (cases "y = x")
      case True
      then show ?thesis using Cons ys by simp
    next
      case False
      have "y \<in> set (x # xs)" using Cons.prems(3) ys by (metis list.set_intros(1) mset_subset_eqD set_mset_mset)
      then have "x < y" using Cons.prems(2) False by auto
      then have "x \<notin> set ys" using Cons.prems(1) ys by auto
      then have "mset ys \<subseteq># mset xs"
        using Cons.prems(3) by (metis insert_subset_eq_iff mset.simps(2) diff_union_single_conv diff_single_trivial set_mset_mset subset_eq_diff_conv add_mset_add_single)
      then show ?thesis using Cons.IH Cons.prems by (auto intro: list_emb_Cons)
    qed
  qed simp
qed simp

lemma subseq_Cons_at: "subseq (y # ys) xs \<longleftrightarrow> (\<exists>i<length xs. xs ! i = y \<and> subseq ys (drop (Suc i) xs))"
proof (induction xs)
  case (Cons x xs)
  have "(\<exists>i<length (x # xs). (x # xs) ! i = y \<and> subseq ys (drop (Suc i) (x # xs))) \<longleftrightarrow>
      (x = y \<and> subseq ys xs) \<or> (\<exists>i<length xs. xs ! i = y \<and> subseq ys (drop (Suc i) xs))"
    by (auto simp: less_Suc_eq_0_disj)
  moreover have "subseq (y # ys) (x # xs) \<longleftrightarrow> (x = y \<and> subseq ys xs) \<or> subseq (y # ys) xs"
    by (auto dest: subseq_Cons')
  ultimately show ?case using Cons.IH by simp
qed simp

lemma subseq_submset: "subseq ys xs \<Longrightarrow> mset ys \<subseteq># mset xs"
  by (induction rule: list_emb.induct) (auto intro: subset_mset.order_trans)

lemma subseq_sorted: "subseq ys xs \<Longrightarrow> sorted xs \<Longrightarrow> sorted ys" for xs ys :: "int list"
  by (induction rule: list_emb.induct) (auto dest: mset_subset_eqD [OF subseq_submset] simp: set_mset_mset [symmetric] simp del: set_mset_mset)

lemma triples_values:
  assumes "sorted xs"
  shows "(a, b, c) \<in> triples xs 0 \<longleftrightarrow> a \<le> b \<and> b \<le> c \<and> a + b + c = 0 \<and> {#a, b, c#} \<subseteq># mset xs"
proof -
  have "subseq [a, b, c] xs \<longleftrightarrow> (\<exists>i p q. i < p \<and> p < q \<and> q < length xs \<and> xs ! i = a \<and> xs ! p = b \<and> xs ! q = c)"
  proof
    assume "subseq [a, b, c] xs"
    then obtain i where i: "i < length xs" "xs ! i = a" "subseq [b, c] (drop (Suc i) xs)" unfolding subseq_Cons_at [of a] by blast
    then obtain j where j: "j < length (drop (Suc i) xs)" "drop (Suc i) xs ! j = b" "subseq [c] (drop (Suc j) (drop (Suc i) xs))"
      unfolding subseq_Cons_at [of b] by blast
    then obtain k where "k < length (drop (Suc j) (drop (Suc i) xs))" "drop (Suc j) (drop (Suc i) xs) ! k = c"
      unfolding subseq_Cons_at [of c] by blast
    then show "\<exists>i p q. i < p \<and> p < q \<and> q < length xs \<and> xs ! i = a \<and> xs ! p = b \<and> xs ! q = c"
      by (intro exI [of _ i] exI [of _ "Suc i + j"] exI [of _ "Suc i + Suc j + k"]) (use i j in \<open>auto simp: algebra_simps\<close>)
  next
    assume "\<exists>i p q. i < p \<and> p < q \<and> q < length xs \<and> xs ! i = a \<and> xs ! p = b \<and> xs ! q = c"
    then obtain i p q where x: "i < p" "p < q" "q < length xs" "xs ! i = a" "xs ! p = b" "xs ! q = c" by blast
    have "subseq [c] (drop (Suc p) xs)" using x by (auto simp: subseq_singleton_left in_set_conv_nth intro: exI [of _ "q - Suc p"])
    moreover have "drop (Suc (p - Suc i)) (drop (Suc i) xs) = drop (Suc p) xs" "drop (Suc i) xs ! (p - Suc i) = b" using x by simp_all
    ultimately have "subseq [b, c] (drop (Suc i) xs)" unfolding subseq_Cons_at [of b] using x by (intro exI [of _ "p - Suc i"]) auto
    then show "subseq [a, b, c] xs" unfolding subseq_Cons_at [of a] using x by (intro exI [of _ i]) auto
  qed
  then have "(a, b, c) \<in> triples xs 0 \<longleftrightarrow> subseq [a, b, c] xs \<and> a + b + c = 0"
    unfolding triples_def by fastforce
  also have "\<dots> \<longleftrightarrow> a \<le> b \<and> b \<le> c \<and> a + b + c = 0 \<and> {#a, b, c#} \<subseteq># mset xs"
  proof -
    have "a \<le> b \<and> b \<le> c \<and> {#a, b, c#} \<subseteq># mset xs" if "subseq [a, b, c] xs"
      using subseq_sorted [OF that assms] subseq_submset [OF that] by simp
    moreover have "subseq [a, b, c] xs" if "a \<le> b" "b \<le> c" "{#a, b, c#} \<subseteq># mset xs"
      using subseq_if_submset [of "[a, b, c]" xs] assms that by simp
    ultimately show ?thesis by blast
  qed
  finally show ?thesis .
qed

text \<open>Two places of an array are two numbers of it, so the condition on the sums is the same for the sorted array.\<close>

lemma pair_sums_fit_mset: "pair_sums_fit xs \<longleftrightarrow> (\<forall>x y. {#x, y#} \<subseteq># mset xs \<longrightarrow> fits_i32 (x + y))"
proof
  assume fit: "pair_sums_fit xs"
  show "\<forall>x y. {#x, y#} \<subseteq># mset xs \<longrightarrow> fits_i32 (x + y)"
  proof (intro allI impI)
    fix x y
    assume xy: "{#x, y#} \<subseteq># mset xs"
    then have "x \<in> set xs" by (metis mset_subset_eqD set_mset_mset union_single_eq_member)
    then obtain i where i: "i < length xs" "xs ! i = x" by (auto simp: in_set_conv_nth)
    have "mset xs = add_mset x (mset (take i xs @ drop (Suc i) xs))"
      using i id_take_nth_drop [OF i(1)] by (metis mset.simps(2) mset_append union_mset_add_mset_right)
    then have "y \<in> set (take i xs @ drop (Suc i) xs)"
      using xy by (metis insert_subset_eq_iff mset_subset_eq_add_mset_cancel set_mset_mset mset_subset_eqD union_single_eq_member)
    then have "y \<in> set (take i xs) \<or> y \<in> set (drop (Suc i) xs)" by simp
    then have "\<exists>j<length xs. j \<noteq> i \<and> xs ! j = y"
    proof
      assume "y \<in> set (take i xs)"
      then show ?thesis using i(1) by (auto simp: in_set_conv_nth intro: order.strict_trans)
    next
      assume "y \<in> set (drop (Suc i) xs)"
      then obtain k where "k < length xs - Suc i" "xs ! (Suc i + k) = y" using i(1) by (auto simp: in_set_conv_nth)
      then show ?thesis by (intro exI [of _ "Suc i + k"]) auto
    qed
    then obtain j where "j < length xs" "j \<noteq> i" "xs ! j = y" by blast
    then show "fits_i32 (x + y)" using fit i unfolding pair_sums_fit_def by (metis add.commute linorder_neqE_nat)
  qed
next
  assume fit: "\<forall>x y. {#x, y#} \<subseteq># mset xs \<longrightarrow> fits_i32 (x + y)"
  show "pair_sums_fit xs" unfolding pair_sums_fit_def
  proof (intro allI impI)
    fix i j
    assume ij: "i < j \<and> j < length xs"
    then have "subseq [xs ! j] (drop (Suc i) xs)" by (auto simp: subseq_singleton_left in_set_conv_nth intro: exI [of _ "j - Suc i"])
    then have "subseq [xs ! i, xs ! j] xs" unfolding subseq_Cons_at [of "xs ! i"] using ij by (intro exI [of _ i]) auto
    then show "fits_i32 (xs ! i + xs ! j)" using subseq_submset fit by fastforce
  qed
qed

text \<open>
  C32: What \<open>threeSum\<close> returns lists, without repetition, exactly the triples of numbers of the array, in ascending order, whose sum is zero;
  and it returns when no sum of two numbers at different places overflows \<open>int\<close> and no number is \<open>INT_MIN\<close>, whose negation overflows.\<close>

theorem three_sum_correct:
  "(\<forall>out. three_sum nums = Some out \<longrightarrow>
      distinct out \<and> set out = {(a, b, c). a \<le> b \<and> b \<le> c \<and> a + b + c = 0 \<and> {#a, b, c#} \<subseteq># mset nums}) \<and>
   (pair_sums_fit nums \<and> (\<forall>x\<in>set nums. - (2 ^ 31) < x) \<longrightarrow> (\<exists>out. three_sum nums = Some out))"
proof (cases "nums = []")
  case True
  then show ?thesis by (simp add: three_sum_def)
next
  case False
  have "triples (sort nums) 0 = {(a, b, c). a \<le> b \<and> b \<le> c \<and> a + b + c = 0 \<and> {#a, b, c#} \<subseteq># mset nums}"
    using triples_values [of "sort nums"] by auto
  then have "distinct out \<and> set out = {(a, b, c). a \<le> b \<and> b \<le> c \<and> a + b + c = 0 \<and> {#a, b, c#} \<subseteq># mset nums}" if "three_sum nums = Some out" for out
    using three_sum_loop_correct [of "sort nums" 0 "[]" out] that False by (simp add: three_sum_def remaining_def)
  moreover have "\<exists>out. three_sum nums = Some out" if "pair_sums_fit nums \<and> (\<forall>x\<in>set nums. - (2 ^ 31) < x)"
    using three_sum_loop_returns [of "sort nums" 0 "[]"] that False pair_sums_fit_mset [of nums] pair_sums_fit_mset [of "sort nums"]
    by (simp add: three_sum_def)
  ultimately show ?thesis by blast
qed

theorem three_sum_correct_witness:
  "\<exists>out. three_sum [-1, 0, 1, 2, -1] = Some out \<and> (-1, 0, 1) \<in> set out \<and> (-1, -1, 2) \<in> set out"
proof -
  have "pair_sums_fit [-1, 0, 1, 2, -1]"
    by (auto simp: pair_sums_fit_def fits_i32_def less_Suc_eq numeral_eq_Suc nth_Cons')
  then obtain out where "three_sum [-1, 0, 1, 2, -1] = Some out" using three_sum_correct [of "[-1, 0, 1, 2, -1]"] by auto
  then show ?thesis using three_sum_correct [of "[-1, 0, 1, 2, -1]"] by auto
qed

text \<open>With \<open>INT_MAX\<close> twice, and with \<open>INT_MIN\<close>, the program overflows.\<close>

lemma three_sum_overflow: "three_sum [-1, 2 ^ 31 - 1, 2 ^ 31 - 1] = None" "three_sum [- (2 ^ 31)] = None"
  by (simp_all add: three_sum_def three_sum_loop.simps three_sum_pairs.simps i32_def)

end
