(* ===== verification/MergePrograms.thy ===== *)
theory MergePrograms
  imports Tables "HOL-Library.Multiset"
begin

text \<open>
  Programs of \<open>find_job/look_for_job.cpp\<close> that merge: three versions of merging two sorted arrays into the first one, merging intervals, and the
  most frequent words.
\<close>

section \<open>Merging sorted arrays\<close>

text \<open>Copy and sort.\<close>

definition merge_sorting :: "int list \<Rightarrow> nat \<Rightarrow> int list \<Rightarrow> nat \<Rightarrow> int list option" where
  "merge_sorting nums1 m nums2 n = do {
     a \<leftarrow> for_up 0 n (\<lambda>i a. do { x \<leftarrow> vec_get nums2 i; vec_set a (m + i) x }) nums1;
     Some (sort a) }"

text \<open>Two pointers from the front into an array of its own, which is copied back.\<close>

function merge_front_loop :: "int list \<Rightarrow> nat \<Rightarrow> int list \<Rightarrow> nat \<Rightarrow> nat \<Rightarrow> nat \<Rightarrow> int list \<Rightarrow> int list option" where
  "merge_front_loop nums1 m nums2 n p1 p2 srt =
     (if p1 < m \<or> p2 < n
      then if p1 = m then do {
             cur \<leftarrow> vec_get nums2 p2;
             srt' \<leftarrow> vec_set srt (p1 + (p2 + 1) - 1) cur;
             merge_front_loop nums1 m nums2 n p1 (p2 + 1) srt' }
           else if p2 = n then do {
             cur \<leftarrow> vec_get nums1 p1;
             srt' \<leftarrow> vec_set srt (p1 + 1 + p2 - 1) cur;
             merge_front_loop nums1 m nums2 n (p1 + 1) p2 srt' }
           else do {
             x \<leftarrow> vec_get nums1 p1;
             y \<leftarrow> vec_get nums2 p2;
             if x < y then do {
               srt' \<leftarrow> vec_set srt (p1 + 1 + p2 - 1) x;
               merge_front_loop nums1 m nums2 n (p1 + 1) p2 srt' }
             else do {
               srt' \<leftarrow> vec_set srt (p1 + (p2 + 1) - 1) y;
               merge_front_loop nums1 m nums2 n p1 (p2 + 1) srt' } }
      else Some srt)"
  by pat_completeness auto
termination
  by (relation "measure (\<lambda>(nums1, m, nums2, n, p1, p2, srt). (length nums1 - p1) + (length nums2 - p2))")
    (auto simp: vec_get_def split: if_splits)

declare merge_front_loop.simps [simp del]

definition merge_front :: "int list \<Rightarrow> nat \<Rightarrow> int list \<Rightarrow> nat \<Rightarrow> int list option" where
  "merge_front nums1 m nums2 n = do {
     srt \<leftarrow> merge_front_loop nums1 m nums2 n 0 0 (replicate (m + n) 0);
     for_up 0 (m + n) (\<lambda>i a. do { x \<leftarrow> vec_get srt i; vec_set a i x }) nums1 }"

text \<open>Two pointers from the back, in place; they end at \<open>-1\<close>.\<close>

definition int_get :: "'a list \<Rightarrow> int \<Rightarrow> 'a option" where
  "int_get xs i = (if 0 \<le> i then vec_get xs (nat i) else None)"

definition int_set :: "'a list \<Rightarrow> int \<Rightarrow> 'a \<Rightarrow> 'a list option" where
  "int_set xs i v = (if 0 \<le> i then vec_set xs (nat i) v else None)"

lemma int_get_nonneg: "int_get xs i = Some x \<Longrightarrow> 0 \<le> i"
  by (simp add: int_get_def split: if_splits)

function merge_back_loop :: "int list \<Rightarrow> int list \<Rightarrow> int \<Rightarrow> int \<Rightarrow> int \<Rightarrow> int list option" where
  "merge_back_loop nums1 nums2 p1 p2 tail =
     (if p1 \<ge> 0 \<or> p2 \<ge> 0
      then if p1 = - 1 then do {
             cur \<leftarrow> int_get nums2 p2;
             a \<leftarrow> int_set nums1 tail cur;
             merge_back_loop a nums2 p1 (p2 - 1) (tail - 1) }
           else if p2 = - 1 then do {
             cur \<leftarrow> int_get nums1 p1;
             a \<leftarrow> int_set nums1 tail cur;
             merge_back_loop a nums2 (p1 - 1) p2 (tail - 1) }
           else do {
             x \<leftarrow> int_get nums1 p1;
             y \<leftarrow> int_get nums2 p2;
             if x > y then do {
               a \<leftarrow> int_set nums1 tail x;
               merge_back_loop a nums2 (p1 - 1) p2 (tail - 1) }
             else do {
               a \<leftarrow> int_set nums1 tail y;
               merge_back_loop a nums2 p1 (p2 - 1) (tail - 1) } }
      else Some nums1)"
  by pat_completeness auto
termination
  by (relation "measure (\<lambda>(nums1, nums2, p1, p2, tail). nat (p1 + 1) + nat (p2 + 1))") (auto dest: int_get_nonneg)

declare merge_back_loop.simps [simp del]

definition merge_back :: "int list \<Rightarrow> nat \<Rightarrow> int list \<Rightarrow> nat \<Rightarrow> int list option" where
  "merge_back nums1 m nums2 n = merge_back_loop nums1 nums2 (int m - 1) (int n - 1) (int m + int n - 1)"

subsection \<open>Sorting\<close>

lemma sort_Cons_min: "mset zs = add_mset x (mset ys) \<Longrightarrow> (\<And>y. y \<in> set ys \<Longrightarrow> x \<le> y) \<Longrightarrow> sort zs = x # sort ys" for x :: int
  by (rule properties_for_sort) auto

lemma sort_snoc_max: "mset zs = add_mset x (mset ys) \<Longrightarrow> (\<And>y. y \<in> set ys \<Longrightarrow> y \<le> x) \<Longrightarrow> sort zs = sort ys @ [x]" for x :: int
  by (rule properties_for_sort) (auto simp: sorted_append)

lemma sorted_drop_Cons: "sorted xs \<Longrightarrow> i < length xs \<Longrightarrow> y \<in> set (drop (Suc i) xs) \<Longrightarrow> xs ! i \<le> y" for xs :: "int list"
  by (metis Cons_nth_drop_Suc sorted_wrt.simps(2) sorted_wrt_drop)

lemma sorted_take_snoc: "sorted xs \<Longrightarrow> i < length xs \<Longrightarrow> y \<in> set (take i xs) \<Longrightarrow> y \<le> xs ! i" for xs :: "int list"
  by (auto simp: in_set_conv_nth intro: sorted_nth_mono [OF _ less_imp_le])

lemma take_front: "i < length xs \<Longrightarrow> drop i xs = xs ! i # drop (Suc i) xs"
  by (simp add: Cons_nth_drop_Suc)

lemma merge_front_loop_correct:
  assumes "p1 \<le> m" "p2 \<le> n" "m \<le> length nums1" "n \<le> length nums2" "length srt = m + n" "sorted (take m nums1)" "sorted (take n nums2)"
  shows "merge_front_loop nums1 m nums2 n p1 p2 srt =
    Some (take (p1 + p2) srt @ sort (drop p1 (take m nums1) @ drop p2 (take n nums2)))"
  using assms
proof (induction nums1 m nums2 n p1 p2 srt rule: merge_front_loop.induct)
  case (1 nums1 m nums2 n p1 p2 srt)
  let ?A = "take m nums1" let ?B = "take n nums2"
  have A: "drop p1 ?A = nums1 ! p1 # drop (p1 + 1) ?A" if "p1 < m" using that "1.prems" take_front [of p1 ?A] by simp
  have B: "drop p2 ?B = nums2 ! p2 # drop (p2 + 1) ?B" if "p2 < n" using that "1.prems" take_front [of p2 ?B] by simp
  have set: "vec_set srt (p1 + p2) x = Some (srt[p1 + p2 := x])" "take (p1 + p2 + 1) (srt[p1 + p2 := x]) = take (p1 + p2) srt @ [x]"
    if "p1 < m \<or> p2 < n" for x
  proof -
    have "p1 + p2 < length srt" using that "1.prems" by auto
    then show "vec_set srt (p1 + p2) x = Some (srt[p1 + p2 := x])" "take (p1 + p2 + 1) (srt[p1 + p2 := x]) = take (p1 + p2) srt @ [x]"
      by (simp_all add: vec_simps take_Suc_conv_app_nth)
  qed
  have get: "p1 < m \<Longrightarrow> vec_get nums1 p1 = Some (nums1 ! p1)" "p2 < n \<Longrightarrow> vec_get nums2 p2 = Some (nums2 ! p2)"
    using "1.prems" by (simp_all add: vec_simps)
  have minA: "nums1 ! p1 \<le> y" if "p1 < m" "y \<in> set (drop (p1 + 1) ?A)" for y
    using sorted_drop_Cons [OF "1.prems"(6), of p1 y] that "1.prems"(3) by simp
  have minB: "nums2 ! p2 \<le> y" if "p2 < n" "y \<in> set (drop (p2 + 1) ?B)" for y
    using sorted_drop_Cons [OF "1.prems"(7), of p2 y] that "1.prems"(4) by simp
  have pickA: "sort (drop p1 ?A @ drop p2 ?B) = nums1 ! p1 # sort (drop (p1 + 1) ?A @ drop p2 ?B)"
    if "p1 < m" "p2 < n \<Longrightarrow> nums1 ! p1 \<le> nums2 ! p2"
  proof (rule sort_Cons_min)
    show "mset (drop p1 ?A @ drop p2 ?B) = add_mset (nums1 ! p1) (mset (drop (p1 + 1) ?A @ drop p2 ?B))" using A that(1) by simp
    show "nums1 ! p1 \<le> y" if y: "y \<in> set (drop (p1 + 1) ?A @ drop p2 ?B)" for y
      using y \<open>p1 < m\<close> \<open>p2 < n \<Longrightarrow> nums1 ! p1 \<le> nums2 ! p2\<close> minA minB B by (cases "p2 < n") (auto intro: order_trans)
  qed
  have pickB: "sort (drop p1 ?A @ drop p2 ?B) = nums2 ! p2 # sort (drop p1 ?A @ drop (p2 + 1) ?B)"
    if "p2 < n" "p1 < m \<Longrightarrow> nums2 ! p2 \<le> nums1 ! p1"
  proof (rule sort_Cons_min)
    show "mset (drop p1 ?A @ drop p2 ?B) = add_mset (nums2 ! p2) (mset (drop p1 ?A @ drop (p2 + 1) ?B))" using B that(1) by simp
    show "nums2 ! p2 \<le> y" if y: "y \<in> set (drop p1 ?A @ drop (p2 + 1) ?B)" for y
      using y \<open>p2 < n\<close> \<open>p1 < m \<Longrightarrow> nums2 ! p2 \<le> nums1 ! p1\<close> minA minB A by (cases "p1 < m") (auto intro: order_trans)
  qed
  consider (fin) "p1 = m" "p2 = n" | (B) "p1 = m" "p2 < n" | (A) "p1 < m" "p2 = n"
    | (lt) "p1 < m" "p2 < n" "nums1 ! p1 < nums2 ! p2" | (ge) "p1 < m" "p2 < n" "\<not> nums1 ! p1 < nums2 ! p2"
    using "1.prems"(1,2) by linarith
  then show ?case
  proof cases
    case fin
    then show ?thesis using "1.prems" by (subst merge_front_loop.simps) simp
  next
    case B
    then show ?thesis using "1.IH"(1) [of "nums2 ! p2" "srt[p1 + p2 := nums2 ! p2]"] "1.prems" get set pickB
      by (subst merge_front_loop.simps) (simp add: add.assoc)
  next
    case A
    then show ?thesis using "1.IH"(2) [of "nums1 ! p1" "srt[p1 + p2 := nums1 ! p1]"] "1.prems" get set pickA
      by (subst merge_front_loop.simps) simp
  next
    case lt
    then show ?thesis using "1.IH"(3) [of "nums1 ! p1" "nums2 ! p2" "srt[p1 + p2 := nums1 ! p1]"] "1.prems" get set pickA
      by (subst merge_front_loop.simps) simp
  next
    case ge
    then show ?thesis using "1.IH"(4) [of "nums1 ! p1" "nums2 ! p2" "srt[p1 + p2 := nums2 ! p2]"] "1.prems" get set pickB
      by (subst merge_front_loop.simps) (simp add: add.assoc)
  qed
qed

lemma merge_back_loop_correct:
  assumes "p1 = int a - 1" "p2 = int b - 1" "tail = int a + int b - 1" "a + b \<le> length nums1" "b \<le> length nums2"
    "sorted (take a nums1)" "sorted (take b nums2)"
  shows "merge_back_loop nums1 nums2 p1 p2 tail = Some (sort (take a nums1 @ take b nums2) @ drop (a + b) nums1)"
  using assms
proof (induction nums1 nums2 p1 p2 tail arbitrary: a b rule: merge_back_loop.induct)
  case (1 nums1 nums2 p1 p2 tail)
  let ?A = "take a nums1" let ?B = "take b nums2"
  have get: "int_get nums1 p1 = Some (nums1 ! (a - 1))" if "0 < a" using that "1.prems" by (simp add: int_get_def vec_simps nat_diff_distrib)
  have get2: "int_get nums2 p2 = Some (nums2 ! (b - 1))" if "0 < b" using that "1.prems" by (simp add: int_get_def vec_simps nat_diff_distrib)
  have set: "int_set nums1 tail x = Some (nums1[a + b - 1 := x])" "drop (a + b - 1) (nums1[a + b - 1 := x]) = x # drop (a + b) nums1"
    if "0 < a + b" for x
  proof -
    have lt: "a + b - 1 < length nums1" and e: "nat tail = a + b - 1" "0 \<le> tail" using that "1.prems" by auto
    show "int_set nums1 tail x = Some (nums1[a + b - 1 := x])" using lt e by (simp add: int_set_def vec_simps)
    show "drop (a + b - 1) (nums1[a + b - 1 := x]) = x # drop (a + b) nums1"
      using take_front [of "a + b - 1" "nums1[a + b - 1 := x]"] lt that by simp
  qed
  have A: "?A = take (a - 1) nums1 @ [nums1 ! (a - 1)]" if "0 < a" using that "1.prems"(4) by (cases a) (simp_all add: take_Suc_conv_app_nth)
  have B: "?B = take (b - 1) nums2 @ [nums2 ! (b - 1)]" if "0 < b" using that "1.prems"(5) by (cases b) (simp_all add: take_Suc_conv_app_nth)
  have maxA: "y \<le> nums1 ! (a - 1)" if "0 < a" "y \<in> set (take (a - 1) nums1)" for y
    using "1.prems"(6) that unfolding A [OF that(1)] by (auto simp: sorted_append)
  have maxB: "y \<le> nums2 ! (b - 1)" if "0 < b" "y \<in> set (take (b - 1) nums2)" for y
    using "1.prems"(7) that unfolding B [OF that(1)] by (auto simp: sorted_append)
  have pickA: "sort (?A @ ?B) = sort (take (a - 1) nums1 @ ?B) @ [nums1 ! (a - 1)]" if "0 < a" "0 < b \<Longrightarrow> nums2 ! (b - 1) \<le> nums1 ! (a - 1)"
  proof (rule sort_snoc_max)
    show "mset (?A @ ?B) = add_mset (nums1 ! (a - 1)) (mset (take (a - 1) nums1 @ ?B))" using A that(1) by simp
    show "y \<le> nums1 ! (a - 1)" if y: "y \<in> set (take (a - 1) nums1 @ ?B)" for y
      using y \<open>0 < a\<close> \<open>0 < b \<Longrightarrow> nums2 ! (b - 1) \<le> nums1 ! (a - 1)\<close> maxA maxB B by (cases "0 < b") (auto intro: order_trans)
  qed
  have pickB: "sort (?A @ ?B) = sort (?A @ take (b - 1) nums2) @ [nums2 ! (b - 1)]" if "0 < b" "0 < a \<Longrightarrow> nums1 ! (a - 1) \<le> nums2 ! (b - 1)"
  proof (rule sort_snoc_max)
    show "mset (?A @ ?B) = add_mset (nums2 ! (b - 1)) (mset (?A @ take (b - 1) nums2))" using B that(1) by simp
    show "y \<le> nums2 ! (b - 1)" if y: "y \<in> set (?A @ take (b - 1) nums2)" for y
      using y \<open>0 < b\<close> \<open>0 < a \<Longrightarrow> nums1 ! (a - 1) \<le> nums2 ! (b - 1)\<close> maxA maxB A by (cases "0 < a") (auto intro: order_trans)
  qed
  have sA: "sorted (take (a - 1) nums1)" using "1.prems"(6) by (cases a) (auto simp: sorted_wrt_take min_def dest: sorted_wrt_take [of _ _ "a - 1"])
  have sB: "sorted (take (b - 1) nums2)" using "1.prems"(7) by (cases b) (auto simp: sorted_wrt_take min_def dest: sorted_wrt_take [of _ _ "b - 1"])
  have keep: "take (a - 1) (nums1[a + b - 1 := x]) = take (a - 1) nums1" "0 < b \<Longrightarrow> take a (nums1[a + b - 1 := x]) = ?A" for x
    by simp_all
  consider (fin) "a = 0" "b = 0" | (B) "a = 0" "0 < b" | (A) "0 < a" "b = 0"
    | (gt) "0 < a" "0 < b" "nums1 ! (a - 1) > nums2 ! (b - 1)" | (le) "0 < a" "0 < b" "\<not> nums1 ! (a - 1) > nums2 ! (b - 1)" by linarith
  then show ?case
  proof cases
    case fin
    then show ?thesis using "1.prems" by (subst merge_back_loop.simps) simp
  next
    case B
    then have "merge_back_loop (nums1[a + b - 1 := nums2 ! (b - 1)]) nums2 p1 (p2 - 1) (tail - 1) =
        Some (sort (take a (nums1[a + b - 1 := nums2 ! (b - 1)]) @ take (b - 1) nums2) @ drop (a + (b - 1)) (nums1[a + b - 1 := nums2 ! (b - 1)]))"
      using get2 set(1) "1.prems" sB by (intro "1.IH"(1)) auto
    then show ?thesis using B "1.prems" get2 set pickB by (subst merge_back_loop.simps) simp
  next
    case A
    then have "merge_back_loop (nums1[a + b - 1 := nums1 ! (a - 1)]) nums2 (p1 - 1) p2 (tail - 1) =
        Some (sort (take (a - 1) (nums1[a + b - 1 := nums1 ! (a - 1)]) @ take b nums2) @ drop (a - 1 + b) (nums1[a + b - 1 := nums1 ! (a - 1)]))"
      using get set(1) "1.prems" sA by (intro "1.IH"(2)) auto
    moreover have "drop (a - 1) nums1 = nums1 ! (a - 1) # drop a nums1" using take_front [of "a - 1" nums1] A "1.prems"(4) by simp
    ultimately show ?thesis using A "1.prems" get set(1) pickA by (subst merge_back_loop.simps) simp
  next
    case gt
    then have "merge_back_loop (nums1[a + b - 1 := nums1 ! (a - 1)]) nums2 (p1 - 1) p2 (tail - 1) =
        Some (sort (take (a - 1) (nums1[a + b - 1 := nums1 ! (a - 1)]) @ take b nums2) @ drop (a - 1 + b) (nums1[a + b - 1 := nums1 ! (a - 1)]))"
      using get get2 set(1) "1.prems" sA by (intro "1.IH"(3)) auto
    moreover have "a - 1 + b = a + b - 1" using gt by simp
    ultimately show ?thesis using gt "1.prems" get get2 set pickA keep(1) by (subst merge_back_loop.simps) simp
  next
    case le
    then have "merge_back_loop (nums1[a + b - 1 := nums2 ! (b - 1)]) nums2 p1 (p2 - 1) (tail - 1) =
        Some (sort (take a (nums1[a + b - 1 := nums2 ! (b - 1)]) @ take (b - 1) nums2) @ drop (a + (b - 1)) (nums1[a + b - 1 := nums2 ! (b - 1)]))"
      using get get2 set(1) "1.prems" sB keep(2) by (intro "1.IH"(4)) auto
    moreover have "a + (b - 1) = a + b - 1" using le by simp
    ultimately show ?thesis using le "1.prems" get get2 set pickB keep(2) by (subst merge_back_loop.simps) simp
  qed
qed

lemma copy_loop:
  assumes "k + n \<le> length a" and "n \<le> length xs"
  shows "for_up 0 n (\<lambda>i a. do { x \<leftarrow> vec_get xs i; vec_set a (k + i) x }) a = Some (take k a @ take n xs @ drop (k + n) a)"
proof -
  have "\<exists>s. for_up 0 n (\<lambda>i a. do { x \<leftarrow> vec_get xs i; vec_set a (k + i) x }) a = Some s \<and> s = take k a @ take n xs @ drop (k + n) a"
  proof (rule for_up_rule [where P = "\<lambda>i s. s = take k a @ take i xs @ drop (k + i) a"])
    fix i s
    assume i: "i < n" and s: "s = take k a @ take i xs @ drop (k + i) a"
    then have "vec_get xs i = Some (xs ! i)" "k + i < length s" using assms by (simp_all add: vec_simps)
    moreover have "s[k + i := xs ! i] = take k a @ take (Suc i) xs @ drop (k + Suc i) a"
      using i assms take_front [of "k + i" a] unfolding s by (simp add: list_update_append take_Suc_conv_app_nth)
    ultimately show "\<exists>s'. do { x \<leftarrow> vec_get xs i; vec_set s (k + i) x } = Some s' \<and> s' = take k a @ take (Suc i) xs @ drop (k + Suc i) a"
      by (simp add: vec_simps)
  qed simp_all
  then show ?thesis by simp
qed

text \<open>
  The three versions of \<open>merge\<close> leave the same array when the first one has just enough room and both inputs are sorted: the sorted array of
  all the elements.  The third one works in place and never overwrites an element it still needs.\<close>

theorem merges_agree:
  assumes "length nums1 = m + n" and "n \<le> length nums2" and "sorted (take m nums1)" and "sorted (take n nums2)"
  shows "merge_sorting nums1 m nums2 n = Some (sort (take m nums1 @ take n nums2)) \<and>
    merge_front nums1 m nums2 n = Some (sort (take m nums1 @ take n nums2)) \<and>
    merge_back nums1 m nums2 n = Some (sort (take m nums1 @ take n nums2))"
proof -
  let ?r = "sort (take m nums1 @ take n nums2)"
  have "merge_front_loop nums1 m nums2 n 0 0 (replicate (m + n) 0) = Some ?r"
    using merge_front_loop_correct [of 0 m 0 n nums1 nums2 "replicate (m + n) 0"] assms by simp
  moreover have "for_up 0 (m + n) (\<lambda>i a. do { x \<leftarrow> vec_get ?r i; vec_set a i x }) nums1 = Some ?r"
    using copy_loop [of 0 "m + n" nums1 ?r] assms(1,2) by (simp add: min_def)
  ultimately have "merge_front nums1 m nums2 n = Some ?r" by (simp add: merge_front_def)
  moreover have "merge_sorting nums1 m nums2 n = Some ?r"
    using copy_loop [of m n nums1 nums2] assms(1,2) by (simp add: merge_sorting_def)
  moreover have "merge_back nums1 m nums2 n = Some ?r"
    using merge_back_loop_correct [of "int m - 1" m "int n - 1" n "int m + int n - 1" nums1 nums2] assms by (simp add: merge_back_def)
  ultimately show ?thesis by blast
qed

theorem merges_agree_witness:
  "merge_sorting [1, 3, 5, 0, 0] 3 [2, 4] 2 = Some [1, 2, 3, 4, 5] \<and> merge_front [1, 3, 5, 0, 0] 3 [2, 4] 2 = Some [1, 2, 3, 4, 5] \<and>
   merge_back [1, 3, 5, 0, 0] 3 [2, 4] 2 = Some [1, 2, 3, 4, 5]"
  using merges_agree [of "[1, 3, 5, 0, 0]" 3 2 "[2, 4]"] by simp

section \<open>Merging intervals\<close>

record interval =
  i_start :: int
  i_end :: int

text \<open>\<open>std::sort\<close> does not fix the order of intervals with the same start, so its result is a parameter.\<close>

definition sorts_starts :: "(interval list \<Rightarrow> interval list) \<Rightarrow> bool" where
  "sorts_starts srt \<longleftrightarrow> (\<forall>xs. mset (srt xs) = mset xs \<and> sorted (map i_start (srt xs)))"

fun merge_loop :: "interval list \<Rightarrow> interval \<Rightarrow> interval list \<Rightarrow> interval list" where
  "merge_loop result back [] = result @ [back]"
| "merge_loop result back (x # xs) =
     (if i_end back \<ge> i_start x then merge_loop result (back\<lparr>i_end := max (i_end back) (i_end x)\<rparr>) xs
      else merge_loop (result @ [back]) x xs)"

definition merge_intervals :: "(interval list \<Rightarrow> interval list) \<Rightarrow> interval list \<Rightarrow> interval list" where
  "merge_intervals srt intervals =
     (if length intervals = 0 then [] else case srt intervals of [] \<Rightarrow> [] | x # xs \<Rightarrow> merge_loop [] x xs)"

definition points :: "interval \<Rightarrow> int set" where
  "points x = {i_start x..i_end x}"

lemma merge_loop_points:
  "sorted (map i_start (bk # xs)) \<Longrightarrow> (\<Union>x\<in>set (merge_loop result bk xs). points x) = (\<Union>x\<in>set (result @ bk # xs). points x)"
proof (induction result bk xs rule: merge_loop.induct)
  case (2 result bk x xs)
  show ?case
  proof (cases "i_end bk \<ge> i_start x")
    case True
    have "points (bk\<lparr>i_end := max (i_end bk) (i_end x)\<rparr>) = points bk \<union> points x"
      using True "2.prems" by (auto simp: points_def)
    then show ?thesis using True "2.IH"(1) "2.prems" by auto
  next
    case False
    then show ?thesis using "2.IH"(2) "2.prems" by auto
  qed
qed auto

lemma merge_loop_gaps:
  assumes "sorted (map i_start (bk # xs))" and "sorted_wrt (\<lambda>a b. i_end a < i_start b) (result @ [bk])"
    and "\<forall>x\<in>set (bk # xs). i_start x \<le> i_end x"
  shows "sorted_wrt (\<lambda>a b. i_end a < i_start b) (merge_loop result bk xs)"
  using assms
proof (induction result bk xs rule: merge_loop.induct)
  case (2 result bk x xs)
  show ?case
  proof (cases "i_end bk \<ge> i_start x")
    case True
    then show ?thesis using "2.IH"(1) "2.prems" by (auto simp: sorted_wrt_append)
  next
    case False
    have "i_end a < i_start x" if "a \<in> set result" for a
      using "2.prems" that by (fastforce simp: sorted_wrt_append)
    then show ?thesis using "2.IH"(2) "2.prems" False by (auto simp: sorted_wrt_append)
  qed
qed simp

text \<open>
  Merging intervals keeps the set of points they cover, and leaves gaps between any two intervals of the result, which are in
  ascending order.\<close>

theorem merge_intervals_correct:
  assumes srt: "sorts_starts srt" and ok: "\<forall>x\<in>set intervals. i_start x \<le> i_end x"
  shows "(\<Union>x\<in>set (merge_intervals srt intervals). points x) = (\<Union>x\<in>set intervals. points x) \<and>
    sorted_wrt (\<lambda>a b. i_end a < i_start b) (merge_intervals srt intervals)"
proof (cases "srt intervals")
  case Nil
  then have "intervals = []" using srt unfolding sorts_starts_def by (metis mset.simps(1) mset_zero_iff)
  then show ?thesis by (simp add: merge_intervals_def)
next
  case (Cons x xs)
  then have m: "mset (x # xs) = mset intervals" "sorted (map i_start (x # xs))" using srt unfolding sorts_starts_def by (metis (no_types))+
  then have set: "set (x # xs) = set intervals" by (metis set_mset_mset)
  have "intervals \<noteq> []" using m(1) by auto
  then have e: "merge_intervals srt intervals = merge_loop [] x xs" using Cons by (simp add: merge_intervals_def)
  have ok': "\<forall>y\<in>set (x # xs). i_start y \<le> i_end y" using ok set by simp
  have "(\<Union>x\<in>set (merge_loop [] x xs). points x) = (\<Union>x\<in>set intervals. points x)"
    unfolding set [symmetric] using merge_loop_points [OF m(2), of "[]"] by simp
  moreover have "sorted_wrt (\<lambda>a b. i_end a < i_start b) (merge_loop [] x xs)"
    using merge_loop_gaps [OF m(2) _ ok', of "[]"] by simp
  ultimately show ?thesis unfolding e by simp
qed

theorem merge_intervals_correct_witness:
  "(\<Union>x\<in>set (merge_intervals (sort_key i_start) [\<lparr>i_start = 4, i_end = 6\<rparr>, \<lparr>i_start = 1, i_end = 4\<rparr>]). points x) = {1..6} \<and>
   sorted_wrt (\<lambda>a b. i_end a < i_start b) (merge_intervals (sort_key i_start) [\<lparr>i_start = 4, i_end = 6\<rparr>, \<lparr>i_start = 1, i_end = 4\<rparr>])"
proof -
  have "sorts_starts (sort_key i_start)" by (simp add: sorts_starts_def)
  from merge_intervals_correct [OF this, of "[\<lparr>i_start = 4, i_end = 6\<rparr>, \<lparr>i_start = 1, i_end = 4\<rparr>]"]
  show ?thesis by (auto simp: points_def)
qed

end
