(* ===== verification/ConcurrentMap.thy ===== *)
theory ConcurrentMap
  imports Prelude
begin

text \<open>
  The class \<open>ConcurrentHashMap\<close> of \<open>find_job/look_for_job.cpp\<close>: a fixed number of buckets, each a list of pairs with a mutex of its own.  Some
  names in the source are misspelt (\<open>find_id\<close>, \<open>seconde\<close>, \<open>bucket,end()\<close>); they are read as the members they stand for.
  The hash function of the key type is a parameter.  First the operations on one bucket, then every interleaving
  of any number of threads, then the invariant, and the theorems: the operations are linearizable, and every call can be completed.
\<close>

section \<open>Operations on a bucket\<close>

type_synonym ('k, 'v) bucket = "('k \<times> 'v) list"

text \<open>\<open>find_if\<close>: the position of the first pair with the key; the length stands for \<open>end()\<close>.\<close>

fun find_key :: "'k \<Rightarrow> ('k, 'v) bucket \<Rightarrow> nat" where
  "find_key key [] = 0"
| "find_key key (p # ps) = (if fst p = key then 0 else Suc (find_key key ps))"

definition put_at :: "nat \<Rightarrow> 'k \<Rightarrow> 'v \<Rightarrow> ('k, 'v) bucket \<Rightarrow> ('k, 'v) bucket" where
  "put_at it key value b = (if it \<noteq> length b then b[it := (fst (b ! it), value)] else b @ [(key, value)])"

definition read_at :: "nat \<Rightarrow> ('k, 'v) bucket \<Rightarrow> 'v option" where
  "read_at it b = (if it \<noteq> length b then Some (snd (b ! it)) else None)"

text \<open>A call of \<open>insert\<close> or \<open>get\<close>; the answer of the latter is the value it stores and whether it returns true.\<close>

datatype ('k, 'v) call = CInsert 'k 'v | CGet 'k

fun key_of :: "('k, 'v) call \<Rightarrow> 'k" where
  "key_of (CInsert key value) = key"
| "key_of (CGet key) = key"

fun act_at :: "nat \<Rightarrow> ('k, 'v) call \<Rightarrow> ('k, 'v) bucket \<Rightarrow> 'v option \<times> ('k, 'v) bucket" where
  "act_at it (CInsert key value) b = (None, put_at it key value b)"
| "act_at it (CGet key) b = (read_at it b, b)"

section \<open>Threads\<close>

datatype ('k, 'v) cpc =
    Outside
  | Waiting "('k, 'v) call" nat
  | Locked "('k, 'v) call" nat
  | Found "('k, 'v) call" nat nat
  | Leaving "('k, 'v) call" nat "'v option"

text \<open>What an observer sees of the calls, with the point at which each takes effect.\<close>

datatype ('k, 'v) event = Called "('k, 'v) call" | Effect "('k, 'v) call" "'v option" | Returned "('k, 'v) call" "'v option"

record ('k, 'v) cmap =
  cm_buckets :: "('k, 'v) bucket list"
  cm_count :: nat
  cm_owner :: "nat \<Rightarrow> nat option"
  cm_pc :: "nat \<Rightarrow> ('k, 'v) cpc"
  cm_trace :: "(nat \<times> ('k, 'v) event) list"

definition cm_construct :: "nat \<Rightarrow> ('k, 'v) cmap" where
  "cm_construct bucket_count =
     \<lparr>cm_buckets = replicate bucket_count [], cm_count = bucket_count, cm_owner = (\<lambda>_. None), cm_pc = (\<lambda>_. Outside), cm_trace = []\<rparr>"

definition cm_hash :: "('k \<Rightarrow> nat) \<Rightarrow> ('k, 'v) cmap \<Rightarrow> 'k \<Rightarrow> nat" where
  "cm_hash hash m key = hash key mod cm_count m"

definition goto :: "nat \<Rightarrow> ('k, 'v) cpc \<Rightarrow> ('k, 'v) cmap \<Rightarrow> ('k, 'v) cmap" where
  "goto t p m = m\<lparr>cm_pc := (cm_pc m)(t := p)\<rparr>"

definition emit :: "nat \<Rightarrow> ('k, 'v) event \<Rightarrow> ('k, 'v) cmap \<Rightarrow> ('k, 'v) cmap" where
  "emit t e m = m\<lparr>cm_trace := cm_trace m @ [(t, e)]\<rparr>"

definition set_owner :: "nat \<Rightarrow> nat option \<Rightarrow> ('k, 'v) cmap \<Rightarrow> ('k, 'v) cmap" where
  "set_owner i w m = m\<lparr>cm_owner := (cm_owner m)(i := w)\<rparr>"

definition set_bucket :: "nat \<Rightarrow> ('k, 'v) bucket \<Rightarrow> ('k, 'v) cmap \<Rightarrow> ('k, 'v) cmap" where
  "set_bucket i b m = m\<lparr>cm_buckets := (cm_buckets m)[i := b]\<rparr>"

lemmas cm_defs = goto_def emit_def set_owner_def set_bucket_def

inductive cmap_step :: "('k \<Rightarrow> nat) \<Rightarrow> ('k, 'v) cmap \<Rightarrow> ('k, 'v) cmap \<Rightarrow> bool" for hash where
  call: "cm_pc m t = Outside \<Longrightarrow> cmap_step hash m (emit t (Called c) (goto t (Waiting c (cm_hash hash m (key_of c))) m))"
| lock: "cm_pc m t = Waiting c i \<Longrightarrow> cm_owner m i = None \<Longrightarrow> cmap_step hash m (goto t (Locked c i) (set_owner i (Some t) m))"
| scan: "cm_pc m t = Locked c i \<Longrightarrow> cmap_step hash m (goto t (Found c i (find_key (key_of c) (cm_buckets m ! i))) m)"
| act: "cm_pc m t = Found c i it \<Longrightarrow> act_at it c (cm_buckets m ! i) = (r, b) \<Longrightarrow>
    cmap_step hash m (emit t (Effect c r) (goto t (Leaving c i r) (set_bucket i b m)))"
| unlock: "cm_pc m t = Leaving c i r \<Longrightarrow> cmap_step hash m (emit t (Returned c r) (goto t Outside (set_owner i None m)))"

inductive cmap_reach :: "('k \<Rightarrow> nat) \<Rightarrow> nat \<Rightarrow> ('k, 'v) cmap \<Rightarrow> bool" for hash n where
  start: "cmap_reach hash n (cm_construct n)"
| step: "cmap_reach hash n m \<Longrightarrow> cmap_step hash m m' \<Longrightarrow> cmap_reach hash n m'"

inductive_cases cmap_stepE: "cmap_step hash m m'"

text \<open>
  The same step, computed: the next step of a thread, which calls \<open>c\<close> if it is outside; \<^const>\<open>None\<close> if it has to wait.
\<close>

definition thread_step :: "('k \<Rightarrow> nat) \<Rightarrow> nat \<Rightarrow> ('k, 'v) call \<Rightarrow> ('k, 'v) cmap \<Rightarrow> ('k, 'v) cmap option" where
  "thread_step hash t c m =
     (case cm_pc m t of
        Outside \<Rightarrow> Some (emit t (Called c) (goto t (Waiting c (cm_hash hash m (key_of c))) m))
      | Waiting c i \<Rightarrow> if cm_owner m i = None then Some (goto t (Locked c i) (set_owner i (Some t) m)) else None
      | Locked c i \<Rightarrow> Some (goto t (Found c i (find_key (key_of c) (cm_buckets m ! i))) m)
      | Found c i it \<Rightarrow> (case act_at it c (cm_buckets m ! i) of (r, b) \<Rightarrow> Some (emit t (Effect c r) (goto t (Leaving c i r) (set_bucket i b m))))
      | Leaving c i r \<Rightarrow> Some (emit t (Returned c r) (goto t Outside (set_owner i None m))))"

fun run_threads :: "('k \<Rightarrow> nat) \<Rightarrow> (nat \<times> ('k, 'v) call) list \<Rightarrow> ('k, 'v) cmap \<Rightarrow> ('k, 'v) cmap option" where
  "run_threads hash [] m = Some m"
| "run_threads hash ((t, c) # sched) m = Option.bind (thread_step hash t c m) (run_threads hash sched)"

lemma thread_step_sound: "thread_step hash t c m = Some m' \<Longrightarrow> cmap_step hash m m'"
  by (auto simp: thread_step_def split: cpc.splits if_splits prod.splits intro: cmap_step.intros)

lemma run_threads_reach: "run_threads hash sched m = Some m' \<Longrightarrow> cmap_reach hash n m \<Longrightarrow> cmap_reach hash n m'"
proof (induction hash sched m rule: run_threads.induct)
  case (2 hash t c sched m)
  then obtain m1 where m1: "thread_step hash t c m = Some m1" "run_threads hash sched m1 = Some m'" by (auto split: bind_splits)
  then have "cmap_reach hash n m1" using cmap_reach.step [OF "2.prems"(2)] thread_step_sound by blast
  then show ?case using "2.IH" [OF m1(1) m1(2)] by simp
qed simp

section \<open>The specification\<close>

text \<open>A map with atomic operations.\<close>

fun map_call :: "('k, 'v) call \<Rightarrow> ('k \<Rightarrow> 'v option) \<Rightarrow> 'v option \<times> ('k \<Rightarrow> 'v option)" where
  "map_call (CInsert key value) a = (None, a(key \<mapsto> value))"
| "map_call (CGet key) a = (a key, a)"

text \<open>The calls in the order in which they take effect, and the events of one thread.\<close>

fun effect_of :: "nat \<times> ('k, 'v) event \<Rightarrow> (('k, 'v) call \<times> 'v option) list" where
  "effect_of (t, Effect c r) = [(c, r)]"
| "effect_of (t, e) = []"

definition effects :: "(nat \<times> ('k, 'v) event) list \<Rightarrow> (('k, 'v) call \<times> 'v option) list" where
  "effects tr = concat (map effect_of tr)"

definition events_of :: "nat \<Rightarrow> (nat \<times> ('k, 'v) event) list \<Rightarrow> ('k, 'v) event list" where
  "events_of t tr = map snd (filter (\<lambda>p. fst p = t) tr)"

text \<open>
  A thread calls, the call takes effect once, and it returns the answer of its effect.  The argument is what the thread has pending.
\<close>

datatype ('k, 'v) pending = Ready | Pending "('k, 'v) call" | Answered "('k, 'v) call" "'v option"

fun advance_event :: "('k, 'v) pending option \<Rightarrow> ('k, 'v) event \<Rightarrow> ('k, 'v) pending option" where
  "advance_event (Some Ready) (Called c) = Some (Pending c)"
| "advance_event (Some (Pending c)) (Effect c' r) = (if c' = c then Some (Answered c r) else None)"
| "advance_event (Some (Answered c r)) (Returned c' r') = (if c' = c \<and> r' = r then Some Ready else None)"
| "advance_event _ _ = None"

definition pending_of :: "nat \<Rightarrow> (nat \<times> ('k, 'v) event) list \<Rightarrow> ('k, 'v) pending option" where
  "pending_of t tr = foldl advance_event (Some Ready) (events_of t tr)"

fun pc_pending :: "('k, 'v) cpc \<Rightarrow> ('k, 'v) pending" where
  "pc_pending Outside = Ready"
| "pc_pending (Waiting c i) = Pending c"
| "pc_pending (Locked c i) = Pending c"
| "pc_pending (Found c i it) = Pending c"
| "pc_pending (Leaving c i r) = Answered c r"

lemma effects_snoc [simp]: "effects (tr @ [(t, e)]) = effects tr @ effect_of (t, e)"
  by (simp add: effects_def)

lemma pending_snoc: "pending_of t (tr @ [(u, e)]) = (if u = t then advance_event (pending_of t tr) e else pending_of t tr)"
  by (simp add: pending_of_def events_of_def)

text \<open>The contents of the table.\<close>

definition cm_map :: "('k \<Rightarrow> nat) \<Rightarrow> ('k, 'v) cmap \<Rightarrow> 'k \<Rightarrow> 'v option" where
  "cm_map hash m key = map_of (cm_buckets m ! cm_hash hash m key) key"

lemma cm_map_frame [simp]:
  "cm_map hash (m\<lparr>cm_pc := p\<rparr>) = cm_map hash m" "cm_map hash (m\<lparr>cm_trace := tr\<rparr>) = cm_map hash m"
  "cm_map hash (m\<lparr>cm_owner := w\<rparr>) = cm_map hash m"
  by (simp_all add: fun_eq_iff cm_map_def cm_hash_def)

lemma find_key_le: "find_key key b \<le> length b"
  by (induction b) auto

lemma find_key_end: "find_key key b = length b \<longleftrightarrow> map_of b key = None"
  by (induction b) auto

lemma find_key_read: "read_at (find_key key b) b = map_of b key"
  by (induction b) (auto simp: read_at_def split: if_splits)

lemma find_key_put: "map_of (put_at (find_key key b) key value b) = (map_of b)(key \<mapsto> value)"
proof (induction b)
  case (Cons p b)
  then show ?case by (cases p) (auto simp: put_at_def split: if_splits)
qed (simp add: put_at_def)

lemma find_key_keys:
  "map fst (put_at (find_key key b) key value b) = (if map_of b key = None then map fst b @ [key] else map fst b)"
proof (cases "find_key key b = length b")
  case True
  then show ?thesis using find_key_end [of key b] by (simp add: put_at_def)
next
  case False
  then have "find_key key b < length b" using find_key_le [of key b] by simp
  then show ?thesis using False find_key_end [of key b] by (auto simp: put_at_def map_update list_update_same_conv)
qed

lemma act_at_map:
  assumes "act_at (find_key (key_of c) b) c b = (r, b')" and "a (key_of c) = map_of b (key_of c)"
  shows "r = fst (map_call c a)" and "map_of b' k = (if k = key_of c then snd (map_call c a) k else map_of b k)"
  using assms by (cases c; auto simp: find_key_read find_key_put)+

lemma act_at_keys:
  assumes "act_at (find_key (key_of c) b) c b = (r, b')"
  shows "distinct (map fst b) \<Longrightarrow> distinct (map fst b')" and "set (map fst b') \<subseteq> insert (key_of c) (set (map fst b))"
proof -
  have keys: "map fst b' = map fst b \<or> key_of c \<notin> set (map fst b) \<and> map fst b' = map fst b @ [key_of c]"
  proof (cases c)
    case (CInsert k v)
    then have "b' = put_at (find_key k b) k v b" "key_of c = k" using assms by auto
    then show ?thesis by (simp add: find_key_keys map_of_eq_None_iff)
  qed (use assms in simp)
  then show "set (map fst b') \<subseteq> insert (key_of c) (set (map fst b))" by (elim disjE conjE) auto
  show "distinct (map fst b')" if "distinct (map fst b)" using keys that by (elim disjE conjE) simp_all
qed

lemma map_call_other: "k \<noteq> key_of c \<Longrightarrow> snd (map_call c a) k = a k"
  by (cases c) auto

section \<open>The invariant\<close>

text \<open>
  Every pair is in the bucket of its key, once; a thread between locking and unlocking owns its bucket and every owner is such a thread,
  and what a thread found stays true until it acts.  The effects so far, done one after the other on a map, give the same answers and the
  contents of the table.
\<close>

fun critical :: "('k, 'v) cpc \<Rightarrow> nat option" where
  "critical (Locked c i) = Some i"
| "critical (Found c i it) = Some i"
| "critical (Leaving c i r) = Some i"
| "critical _ = None"

fun pc_ok :: "('k \<Rightarrow> nat) \<Rightarrow> nat \<Rightarrow> ('k, 'v) bucket list \<Rightarrow> ('k, 'v) cpc \<Rightarrow> bool" where
  "pc_ok hash n bs Outside \<longleftrightarrow> True"
| "pc_ok hash n bs (Waiting c i) \<longleftrightarrow> i = hash (key_of c) mod n"
| "pc_ok hash n bs (Locked c i) \<longleftrightarrow> i = hash (key_of c) mod n"
| "pc_ok hash n bs (Found c i it) \<longleftrightarrow> i = hash (key_of c) mod n \<and> it = find_key (key_of c) (bs ! i)"
| "pc_ok hash n bs (Leaving c i r) \<longleftrightarrow> i = hash (key_of c) mod n"

definition buckets_ok :: "('k \<Rightarrow> nat) \<Rightarrow> nat \<Rightarrow> ('k, 'v) bucket list \<Rightarrow> bool" where
  "buckets_ok hash n bs \<longleftrightarrow> length bs = n \<and>
     (\<forall>i<n. distinct (map fst (bs ! i)) \<and> (\<forall>k\<in>set (map fst (bs ! i)). hash k mod n = i))"

definition replayed :: "(('k, 'v) call \<times> 'v option) list \<Rightarrow> ('k \<Rightarrow> 'v option) \<Rightarrow> bool" where
  "replayed es a \<longleftrightarrow> run_spec map_call (map fst es) Map.empty = (map snd es, a)"

definition cm_inv :: "('k \<Rightarrow> nat) \<Rightarrow> nat \<Rightarrow> ('k, 'v) cmap \<Rightarrow> bool" where
  "cm_inv hash n m \<longleftrightarrow> cm_count m = n \<and> buckets_ok hash n (cm_buckets m) \<and>
     (\<forall>t. pc_ok hash n (cm_buckets m) (cm_pc m t)) \<and>
     (\<forall>t i. cm_owner m i = Some t \<longleftrightarrow> critical (cm_pc m t) = Some i) \<and>
     (\<forall>t. pending_of t (cm_trace m) = Some (pc_pending (cm_pc m t))) \<and>
     replayed (effects (cm_trace m)) (cm_map hash m)"

lemma run_spec_snoc:
  "run_spec f (xs @ [x]) a = (case run_spec f xs a of (rs, b) \<Rightarrow> case f x b of (r, b') \<Rightarrow> (rs @ [r], b'))"
  by (induction xs arbitrary: a) (auto split: prod.splits)

lemma replayed_snoc:
  assumes "replayed es a" and "r = fst (map_call c a)" and "a' = snd (map_call c a)"
  shows "replayed (es @ [(c, r)]) a'"
  using assms by (simp add: replayed_def run_spec_snoc split_beta)

lemma cm_inv_construct: "0 < n \<Longrightarrow> cm_inv hash n (cm_construct n)"
  by (auto simp: cm_inv_def cm_construct_def buckets_ok_def replayed_def effects_def pending_of_def events_of_def cm_map_def cm_hash_def fun_eq_iff)

lemma buckets_ok_act:
  assumes "buckets_ok hash n bs" and i: "i = hash (key_of c) mod n" "0 < n" and act: "act_at (find_key (key_of c) (bs ! i)) c (bs ! i) = (r, b)"
  shows "buckets_ok hash n (bs[i := b])"
proof -
  have "i < n" using i by simp
  then show ?thesis using assms(1) act_at_keys [OF act] i(1) by (auto simp: buckets_ok_def nth_list_update simp del: set_map)
qed

lemma pc_ok_act:
  assumes "pc_ok hash n bs p" and "critical p \<noteq> Some i"
  shows "pc_ok hash n (bs[i := b]) p"
  using assms by (cases p) auto

lemma cm_map_act:
  assumes "buckets_ok hash n (cm_buckets m)" and "cm_count m = n" and i: "i = hash (key_of c) mod n" "0 < n"
    and act: "act_at (find_key (key_of c) (cm_buckets m ! i)) c (cm_buckets m ! i) = (r, b)"
  shows "r = fst (map_call c (cm_map hash m))" and "cm_map hash (set_bucket i b m) = snd (map_call c (cm_map hash m))"
proof -
  have len: "i < length (cm_buckets m)" using assms(1) i by (simp add: buckets_ok_def)
  have a: "cm_map hash m (key_of c) = map_of (cm_buckets m ! i) (key_of c)" using i assms(2) by (simp add: cm_map_def cm_hash_def)
  show "r = fst (map_call c (cm_map hash m))" by (rule act_at_map(1) [where a = "cm_map hash m", OF act a])
  show "cm_map hash (set_bucket i b m) = snd (map_call c (cm_map hash m))"
  proof
    fix k
    show "cm_map hash (set_bucket i b m) k = snd (map_call c (cm_map hash m)) k"
      using act_at_map(2) [where a = "cm_map hash m" and k = k, OF act a] map_call_other [of k c] len assms(2) i(1)
      by (cases "k = key_of c"; cases "hash k mod n = i") (auto simp: cm_map_def cm_hash_def set_bucket_def)
  qed
qed

lemma cm_inv_step:
  assumes "cmap_step hash m m'" and inv: "cm_inv hash n m" and n: "0 < n"
  shows "cm_inv hash n m'"
  using assms(1)
proof (cases rule: cmap_step.cases)
  case (call t c)
  then show ?thesis using inv by (auto simp: cm_inv_def cm_defs pending_snoc cm_hash_def)
next
  case (lock t c i)
  have "\<forall>u. critical (cm_pc m u) \<noteq> Some i" using inv lock(3) unfolding cm_inv_def by (metis option.distinct(1))
  moreover have "pc_ok hash n (cm_buckets m) (cm_pc m t)" using inv by (simp add: cm_inv_def)
  ultimately show ?thesis using lock inv by (auto simp: cm_inv_def cm_defs)
next
  case (scan t c i)
  moreover have "pc_ok hash n (cm_buckets m) (cm_pc m t)" using inv by (simp add: cm_inv_def)
  moreover have "cm_owner m i = Some t" "pending_of t (cm_trace m) = Some (Pending c)"
    using inv scan(2) unfolding cm_inv_def by (metis critical.simps(1), metis pc_pending.simps(3))
  ultimately show ?thesis using inv by (auto simp: cm_inv_def cm_defs)
next
  case (act t c i it r b)
  have own: "critical (cm_pc m u) \<noteq> Some i" if "u \<noteq> t" for u
    using inv act(2) that unfolding cm_inv_def by (metis critical.simps(2) option.inject)
  have p: "i = hash (key_of c) mod n" "it = find_key (key_of c) (cm_buckets m ! i)" "buckets_ok hash n (cm_buckets m)" "cm_count m = n"
    using inv act(2) unfolding cm_inv_def by (metis pc_ok.simps(4))+
  note a = act(3) [unfolded p(2)]
  have "replayed (effects (cm_trace m) @ [(c, r)]) (cm_map hash (set_bucket i b m))"
    using inv by (intro replayed_snoc [OF _ cm_map_act [OF p(3,4,1) n a]]) (simp add: cm_inv_def)
  moreover have "cm_map hash m' = cm_map hash (set_bucket i b m)" unfolding act(1) by (simp add: cm_defs)
  moreover have "buckets_ok hash n (cm_buckets m')" using buckets_ok_act [OF p(3,1) n a] unfolding act(1) by (simp add: cm_defs)
  moreover have "pc_ok hash n (cm_buckets m') (cm_pc m' u)" for u
    using inv own [of u] p(1) unfolding act(1) by (auto simp: cm_defs cm_inv_def intro: pc_ok_act)
  ultimately show ?thesis using inv act(2) unfolding act(1) by (auto simp: cm_inv_def cm_defs pending_snoc)
next
  case (unlock t c i r)
  have "\<forall>u. u \<noteq> t \<longrightarrow> critical (cm_pc m u) \<noteq> Some i"
    using inv unlock(2) unfolding cm_inv_def by (metis critical.simps(3) option.inject)
  moreover have "cm_owner m i = Some t" using inv unlock(2) unfolding cm_inv_def by (metis critical.simps(3))
  ultimately show ?thesis using unlock inv by (auto simp: cm_inv_def cm_defs pending_snoc cm_hash_def)
qed

lemma cm_inv_reach: "cmap_reach hash n m \<Longrightarrow> 0 < n \<Longrightarrow> cm_inv hash n m"
  by (induction rule: cmap_reach.induct) (auto intro: cm_inv_construct cm_inv_step)

section \<open>Linearizability and progress\<close>

text \<open>
  C11: The table is linearizable: in every interleaving of any number of threads each call takes effect once between its beginning and its return and
  returns the answer of this effect, and these effects, in their order, have the answers of the same calls on a map with atomic operations,
  which ends with the contents of the table.\<close>

theorem cmap_linearizable:
  assumes "cmap_reach hash n m" and "0 < n"
  shows "run_spec map_call (map fst (effects (cm_trace m))) Map.empty = (map snd (effects (cm_trace m)), cm_map hash m) \<and>
    (\<forall>t. pending_of t (cm_trace m) \<noteq> None)"
  using cm_inv_reach [OF assms] by (simp add: cm_inv_def replayed_def)

definition demo_schedule :: "(nat \<times> (nat, nat) call) list" where
  "demo_schedule = [(0, CInsert 3 5), (1, CGet 3), (0, CGet 0), (0, CGet 0), (2, CInsert 1 7), (0, CGet 0), (0, CGet 0), (1, CGet 0), (1, CGet 0), (1, CGet 0)]"

lemma demo_run:
  "\<exists>m. run_threads (\<lambda>k. k) demo_schedule (cm_construct 2) = Some m \<and> effects (cm_trace m) = [(CInsert 3 5, None), (CGet 3, Some 5)] \<and>
     critical (cm_pc m 1) = Some 1 \<and> cm_pc m 2 = Waiting (CInsert 1 7) 1"
  by (simp add: demo_schedule_def thread_step_def cm_construct_def cm_hash_def cm_defs effects_def put_at_def read_at_def)

lemma demo_reach:
  obtains m where "run_threads (\<lambda>k. k) demo_schedule (cm_construct 2) = Some m" and "effects (cm_trace m) = [(CInsert 3 5, None), (CGet 3, Some 5)]"
    and "critical (cm_pc m 1) = Some 1" and "cm_pc m 2 = Waiting (CInsert 1 7) 1" and "cmap_reach (\<lambda>k. k) 2 m"
  using demo_run run_threads_reach cmap_reach.start by blast

theorem cmap_linearizable_witness:
  "\<exists>m. run_threads (\<lambda>k. k) demo_schedule (cm_construct 2) = Some m \<and>
     run_spec map_call [CInsert 3 5, CGet 3] Map.empty = ([None, Some (5 :: nat)], cm_map (\<lambda>k. k) m) \<and> pending_of 1 (cm_trace m) \<noteq> None"
proof (rule demo_reach)
  fix m
  assume m: "run_threads (\<lambda>k. k) demo_schedule (cm_construct 2) = Some m" "effects (cm_trace m) = [(CInsert 3 5, None), (CGet 3, Some 5)]"
    "cmap_reach (\<lambda>k. k) 2 m"
  have "run_spec map_call (map fst (effects (cm_trace m))) Map.empty = (map snd (effects (cm_trace m)), cm_map (\<lambda>k. k) m) \<and>
      (\<forall>t. pending_of t (cm_trace m) \<noteq> None)"
    by (rule cmap_linearizable [OF m(3)]) simp
  then show ?thesis unfolding m(2) list.map fst_conv snd_conv using m(1) by blast
qed

text \<open>Two threads are never between locking and unlocking the same bucket, and the table stays a hash table without repeated keys.\<close>

theorem cmap_exclusive:
  assumes "cmap_reach hash n m" and "0 < n"
  shows "(critical (cm_pc m t) = Some i \<and> critical (cm_pc m u) = Some i \<longrightarrow> t = u) \<and> buckets_ok hash n (cm_buckets m)"
proof -
  have inv: "cm_inv hash n m" by (rule cm_inv_reach [OF assms])
  have "t = u" if "critical (cm_pc m t) = Some i" "critical (cm_pc m u) = Some i"
  proof -
    have "cm_owner m i = Some t" "cm_owner m i = Some u" using inv that unfolding cm_inv_def by blast+
    then show ?thesis by simp
  qed
  then show ?thesis using inv by (simp add: cm_inv_def)
qed

theorem cmap_exclusive_witness:
  "\<exists>m. run_threads (\<lambda>k. k) demo_schedule (cm_construct 2) = Some m \<and> critical (cm_pc m 1) = Some 1 \<and>
     critical (cm_pc m 0) \<noteq> Some 1 \<and> buckets_ok (\<lambda>k. k) 2 (cm_buckets m)"
proof (rule demo_reach)
  fix m
  assume m: "run_threads (\<lambda>k. k) demo_schedule (cm_construct 2) = Some m" "critical (cm_pc m 1) = Some 1" "cmap_reach (\<lambda>k. k) 2 m"
  show ?thesis using cmap_exclusive [OF m(3), of 0 1 1] m(1,2) by auto
qed

text \<open>A thread that holds a mutex can finish, and changes no other thread.\<close>

definition leaves :: "('k \<Rightarrow> nat) \<Rightarrow> nat \<Rightarrow> ('k, 'v) cmap \<Rightarrow> bool" where
  "leaves hash t m \<longleftrightarrow> (\<exists>m'. (cmap_step hash)\<^sup>*\<^sup>* m m' \<and> cm_pc m' = (cm_pc m)(t := Outside) \<and>
     cm_owner m' = (case critical (cm_pc m t) of None \<Rightarrow> cm_owner m | Some i \<Rightarrow> (cm_owner m)(i := None)))"

lemma leaves_step:
  assumes "cmap_step hash m m1" and "leaves hash t m1" and "(cm_pc m1)(t := Outside) = (cm_pc m)(t := Outside)"
    and "cm_owner m1 = cm_owner m" and "critical (cm_pc m1 t) = critical (cm_pc m t)"
  shows "leaves hash t m"
  using assms unfolding leaves_def by (metis converse_rtranclp_into_rtranclp)

lemma leaving_leaves: "cm_pc m t = Leaving c i r \<Longrightarrow> leaves hash t m"
  unfolding leaves_def by (rule exI, rule conjI, rule r_into_rtranclp, rule unlock, assumption) (simp add: cm_defs)

lemma found_leaves: "cm_pc m t = Found c i it \<Longrightarrow> leaves hash t m"
  by (cases "act_at it c (cm_buckets m ! i)")
    (rule leaves_step [OF act, of m t c i it], auto intro: leaving_leaves simp: cm_defs)

lemma locked_leaves: "cm_pc m t = Locked c i \<Longrightarrow> leaves hash t m"
  by (rule leaves_step [OF scan, of m t c i]) (auto intro: found_leaves simp: cm_defs)

lemma critical_leaves: "critical (cm_pc m t) = Some i \<Longrightarrow> leaves hash t m"
  by (cases "cm_pc m t") (auto intro: leaving_leaves found_leaves locked_leaves)

lemma free_bucket_completes:
  assumes "cm_pc m t = Waiting c i" and "cm_owner m i = None"
  shows "\<exists>m'. (cmap_step hash)\<^sup>*\<^sup>* m m' \<and> cm_pc m' t = Outside"
proof -
  let ?m = "goto t (Locked c i) (set_owner i (Some t) m)"
  have "cmap_step hash m ?m" by (rule lock [OF assms])
  moreover have "leaves hash t ?m" by (rule locked_leaves) (simp add: cm_defs)
  ultimately show ?thesis unfolding leaves_def by (metis converse_rtranclp_into_rtranclp fun_upd_same)
qed

text \<open>
  C24: No call is stuck: from every reachable state every thread can complete its call.  If its bucket is locked, the thread that holds the mutex
  can release it first.\<close>

theorem cmap_call_completes:
  assumes reach: "cmap_reach hash n m" and n: "0 < n"
  shows "\<exists>m'. (cmap_step hash)\<^sup>*\<^sup>* m m' \<and> cm_pc m' t = Outside"
proof (cases "critical (cm_pc m t)")
  case (Some i)
  then show ?thesis using critical_leaves [OF Some] unfolding leaves_def by (metis fun_upd_same)
next
  case None
  show ?thesis
  proof (cases "cm_pc m t")
    case (Waiting c i)
    show ?thesis
    proof (cases "cm_owner m i")
      case None
      then show ?thesis by (rule free_bucket_completes [OF Waiting])
    next
      case (Some u)
      then have "critical (cm_pc m u) = Some i" using cm_inv_reach [OF reach n] by (simp add: cm_inv_def)
      then obtain m1 where m1: "(cmap_step hash)\<^sup>*\<^sup>* m m1" "cm_pc m1 = (cm_pc m)(u := Outside)" "cm_owner m1 i = None"
        using critical_leaves unfolding leaves_def by fastforce
      then show ?thesis
      proof (cases "t = u")
        case False
        then have "cm_pc m1 t = Waiting c i" using m1(2) Waiting by simp
        then show ?thesis using free_bucket_completes [OF _ m1(3)] m1(1) by (meson rtranclp_trans)
      qed (use m1 in auto)
    qed
  qed (use None in auto)
qed

theorem cmap_call_completes_witness:
  "\<exists>m m'. run_threads (\<lambda>k. k) demo_schedule (cm_construct 2) = Some m \<and> cm_pc m 2 = Waiting (CInsert 1 7) 1 \<and> critical (cm_pc m 1) = Some 1 \<and>
     (cmap_step (\<lambda>k. k))\<^sup>*\<^sup>* m m' \<and> cm_pc m' 2 = Outside"
proof (rule demo_reach)
  fix m
  assume m: "run_threads (\<lambda>k. k) demo_schedule (cm_construct 2) = Some m" "critical (cm_pc m 1) = Some 1"
    "cm_pc m 2 = Waiting (CInsert 1 7) 1" "cmap_reach (\<lambda>k. k) 2 m"
  show ?thesis using cmap_call_completes [OF m(4), of 2] m(1,2,3) by auto
qed

end
