(* ===== verification/TreeQueries.thy ===== *)
theory TreeQueries
  imports TreePrograms ServerConfig
begin

text \<open>
  More programs on binary trees of \<open>find_job/look_for_job.cpp\<close>, in the representation of \<open>TreePrograms\<close>: the tests for search trees and complete
  trees, the \<open>k\<close>-th node, levels from below, and paths from the root to the leaves in three programs.  Members that keep their value between
  calls (\<open>v\<close>, \<open>res\<close>) are arguments.
\<close>

section \<open>Search trees and complete trees\<close>

abbreviation null_weight :: "itree list \<Rightarrow> nat" where
  "null_weight q \<equiv> sum_list (map (\<lambda>t. 2 * size t + 1) q)"

function perfect_loop :: "itree list \<Rightarrow> bool \<Rightarrow> bool" where
  "perfect_loop [] reachend = True"
| "perfect_loop (\<langle>\<rangle> # q) reachend = perfect_loop q True"
| "perfect_loop (\<langle>l, a, r\<rangle> # q) reachend = (if reachend then False else perfect_loop (q @ [l, r]) reachend)"
  by pat_completeness auto
termination by (relation "measure (null_weight \<circ> fst)") auto

definition check_perfect :: "itree \<Rightarrow> bool" where
  "check_perfect root = (if root = \<langle>\<rangle> then True else perfect_loop [root] False)"

fun increasing_from :: "int \<Rightarrow> int list \<Rightarrow> bool" where
  "increasing_from x [] = True"
| "increasing_from x (y # ys) = (if y \<le> x then False else increasing_from y ys)"

definition check_increasing :: "int list \<Rightarrow> bool" where
  "check_increasing v = (case v of [] \<Rightarrow> True | x # xs \<Rightarrow> increasing_from x xs)"

definition judge_it :: "itree \<Rightarrow> int list \<Rightarrow> bool list \<times> int list" where
  "judge_it root v =
     (let flag1 = check_perfect root;
          v' = inorder_traversal root v;
          flag2 = check_increasing v'
      in ([flag2, flag1], v'))"

text \<open>The nodes in order, as pointers.\<close>

fun travel_nodes :: "itree \<Rightarrow> itree list \<Rightarrow> itree list" where
  "travel_nodes \<langle>\<rangle> v = v"
| "travel_nodes \<langle>l, a, r\<rangle> v = travel_nodes r (travel_nodes l v @ [\<langle>l, a, r\<rangle>])"

definition kth_node :: "itree \<Rightarrow> int \<Rightarrow> itree list \<Rightarrow> (itree \<times> itree list) option" where
  "kth_node pRoot k v =
     (if pRoot = \<langle>\<rangle> then Some (\<langle>\<rangle>, v)
      else let v' = travel_nodes pRoot v
           in if k = 0 then Some (\<langle>\<rangle>, v')
              else if 0 \<le> k - 1 \<and> k - 1 < int (length v') then Some (v' ! nat (k - 1), v') else None)"

text \<open>
  The subtree at a position of the level order: the root has position 1, the children of position \<open>i\<close> have \<open>2 * i\<close> and \<open>2 * i + 1\<close>.  A tree is
  complete if the positions of its nodes are those from 1 up to some number.
\<close>

fun sub_at :: "itree \<Rightarrow> nat \<Rightarrow> itree" where
  "sub_at t i =
     (if i \<le> 1 then t else case sub_at t (i div 2) of \<langle>\<rangle> \<Rightarrow> \<langle>\<rangle> | \<langle>l, a, r\<rangle> \<Rightarrow> if even i then l else r)"

declare sub_at.simps [simp del]

definition complete_tree :: "itree \<Rightarrow> bool" where
  "complete_tree t \<longleftrightarrow> (\<exists>n. \<forall>i\<ge>1. sub_at t i \<noteq> \<langle>\<rangle> \<longleftrightarrow> i \<le> n)"

lemma sub_at_children:
  assumes "1 \<le> i" and "sub_at t i = \<langle>l, a, r\<rangle>"
  shows "sub_at t (2 * i) = l" and "sub_at t (2 * i + 1) = r"
  using assms by (simp add: sub_at.simps [of t "2 * i"], simp add: sub_at.simps [of t "Suc (2 * i)"])

lemma sub_at_parent: "2 \<le> i \<Longrightarrow> sub_at t (i div 2) = \<langle>\<rangle> \<Longrightarrow> sub_at t i = \<langle>\<rangle>"
  by (simp add: sub_at.simps [of t i])

lemma perfect_loop_end: "perfect_loop q True \<longleftrightarrow> (\<forall>t\<in>set q. t = \<langle>\<rangle>)"
proof (induction q)
  case (Cons t q)
  then show ?case by (cases t) auto
qed simp

lemma above_empty:
  assumes "1 \<le> i" and "\<forall>j\<in>{i..<2 * i}. sub_at t j = \<langle>\<rangle>" and "i \<le> j"
  shows "sub_at t j = \<langle>\<rangle>"
  using assms(3)
proof (induction j rule: less_induct)
  case (less j)
  show ?case
  proof (cases "j < 2 * i")
    case False
    then have "i \<le> j div 2" "j div 2 < j" "2 \<le> j" using assms(1) by auto
    then show ?thesis using less.IH [of "j div 2"] sub_at_parent by blast
  qed (use assms less.prems in auto)
qed

text \<open>As long as no null was met, the queue holds the positions from the next one up to twice of it.\<close>

lemma perfect_loop_positions:
  assumes "1 \<le> i" and "\<forall>j\<in>{1..<i}. sub_at t j \<noteq> \<langle>\<rangle>" and "q = map (sub_at t) [i..<2 * i]"
  shows "perfect_loop q False \<longleftrightarrow> complete_tree t"
  using assms
proof (induction "null_weight q" arbitrary: q i rule: less_induct)
  case less
  have q: "q = sub_at t i # map (sub_at t) [Suc i..<2 * i]" using less.prems by (simp add: upt_conv_Cons)
  show ?case
  proof (cases "sub_at t i")
    case Leaf
    have "perfect_loop q False \<longleftrightarrow> (\<forall>j\<in>{i..<2 * i}. sub_at t j = \<langle>\<rangle>)"
    proof -
      have "{i..<2 * i} = insert i {Suc i..<2 * i}" using less.prems(1) by auto
      then show ?thesis using q Leaf by (simp add: perfect_loop_end)
    qed
    also have "\<dots> \<longleftrightarrow> complete_tree t"
    proof
      assume e: "\<forall>j\<in>{i..<2 * i}. sub_at t j = \<langle>\<rangle>"
      have "sub_at t j \<noteq> \<langle>\<rangle> \<longleftrightarrow> j \<le> i - 1" if "1 \<le> j" for j
        using above_empty [OF less.prems(1) e, of j] less.prems(2) that by (cases "j < i") auto
      then show "complete_tree t" unfolding complete_tree_def by blast
    next
      assume "complete_tree t"
      then obtain n where n: "\<forall>j\<ge>1. sub_at t j \<noteq> \<langle>\<rangle> \<longleftrightarrow> j \<le> n" unfolding complete_tree_def by blast
      then have "n < i" using Leaf less.prems(1) by (meson not_le)
      then show "\<forall>j\<in>{i..<2 * i}. sub_at t j = \<langle>\<rangle>" using n less.prems(1) by (metis atLeastLessThan_iff leD le_trans)
    qed
    finally show ?thesis .
  next
    case (Node l a r)
    have e: "map (sub_at t) [Suc i..<2 * i] @ [l, r] = map (sub_at t) [Suc i..<2 * Suc i]"
      using sub_at_children [OF less.prems(1) Node] less.prems(1) by (simp add: upt_Suc_append)
    have "\<forall>j\<in>{1..<Suc i}. sub_at t j \<noteq> \<langle>\<rangle>" using less.prems(2) Node by (auto simp: less_Suc_eq)
    then have "perfect_loop (map (sub_at t) [Suc i..<2 * i] @ [l, r]) False \<longleftrightarrow> complete_tree t"
      by (intro less.hyps [OF _ _ _ e]) (simp_all add: q Node)
    then show ?thesis using q Node by simp
  qed
qed

lemma check_perfect_iff: "check_perfect t \<longleftrightarrow> complete_tree t"
proof (cases "t = \<langle>\<rangle>")
  case True
  have "sub_at \<langle>\<rangle> i = \<langle>\<rangle>" for i :: nat
    by (induction i rule: less_induct) (subst sub_at.simps, auto)
  then have "complete_tree \<langle>\<rangle>" unfolding complete_tree_def by (auto intro!: exI [of _ 0])
  then show ?thesis using True by (simp add: check_perfect_def)
next
  case False
  have "map (sub_at t) [1..<2 * 1] = [t]" by (simp add: numeral_2_eq_2 sub_at.simps [of t "Suc 0"])
  then show ?thesis using perfect_loop_positions [of 1 t "[t]"] False by (simp add: check_perfect_def)
qed

lemma increasing_from_iff: "increasing_from x xs \<longleftrightarrow> sorted_wrt (<) (x # xs)"
  by (induction x xs rule: increasing_from.induct) auto

lemma check_increasing_iff: "check_increasing v \<longleftrightarrow> sorted_wrt (<) v"
  by (cases v) (auto simp: check_increasing_def increasing_from_iff)

lemma inorder_traversal_eq: "inorder_traversal t v = v @ inorder t"
  by (induction t v rule: inorder_traversal.induct) auto

text \<open>
  C39: On a new object \<open>judgeIt\<close> tells whether the tree is a search tree without equal values, and whether it is complete.\<close>

theorem judge_it_correct: "fst (judge_it t []) = [bst t, complete_tree t]"
  by (simp add: judge_it_def Let_def check_perfect_iff check_increasing_iff inorder_traversal_eq bst_iff_sorted_wrt_less)

lemma travel_nodes_vals: "map value (travel_nodes t v) = map value v @ inorder t"
  by (induction t v rule: travel_nodes.induct) auto

lemma travel_nodes_subtrees: "set (travel_nodes t v) = set v \<union> {s \<in> subtrees t. s \<noteq> \<langle>\<rangle>}"
  by (induction t v rule: travel_nodes.induct) auto

text \<open>
  On a search tree \<open>KthNode\<close> returns the node with the \<open>k\<close>-th smallest value, and null for 0; it reads outside its vector exactly for the other \<open>k\<close>
  outside of the range.\<close>

theorem kth_node_correct:
  assumes "bst t" and "t \<noteq> \<langle>\<rangle>"
  shows "case kth_node t k [] of
      None \<Rightarrow> k < 0 \<or> int (size t) < k
    | Some (s, v) \<Rightarrow> if k = 0 then s = \<langle>\<rangle> else 1 \<le> k \<and> k \<le> int (size t) \<and> s \<in> subtrees t \<and> s \<noteq> \<langle>\<rangle> \<and>
        value s = sorted_list_of_set (set_tree t) ! nat (k - 1)"
proof -
  have len: "length (travel_nodes t []) = size t" using arg_cong [OF travel_nodes_vals [of t "[]"], of length] by simp
  have sorted: "inorder t = sorted_list_of_set (set_tree t)"
    using assms(1) by (metis bst_iff_sorted_wrt_less set_inorder strict_sorted_iff sorted_list_of_set.idem_if_sorted_distinct)
  have val: "value (travel_nodes t [] ! i) = sorted_list_of_set (set_tree t) ! i" if "i < size t" for i
    using arg_cong [OF travel_nodes_vals [of t "[]"], of "\<lambda>xs. xs ! i"] that len sorted by simp
  have sub: "travel_nodes t [] ! i \<in> subtrees t \<and> travel_nodes t [] ! i \<noteq> \<langle>\<rangle>" if "i < size t" for i
    using nth_mem [of i "travel_nodes t []"] that len unfolding travel_nodes_subtrees by auto
  show ?thesis
  proof (cases "1 \<le> k \<and> k \<le> int (size t)")
    case True
    then have "nat (k - 1) < size t" by linarith
    then show ?thesis using assms(2) val sub True by (simp add: kth_node_def Let_def len)
  qed (use assms(2) in \<open>auto simp: kth_node_def Let_def len\<close>)
qed

theorem kth_node_correct_witness:
  "map_option fst (kth_node \<langle>\<langle>\<langle>\<rangle>, 1, \<langle>\<rangle>\<rangle>, 2, \<langle>\<langle>\<rangle>, 3, \<langle>\<rangle>\<rangle>\<rangle> 3 []) = Some \<langle>\<langle>\<rangle>, 3, \<langle>\<rangle>\<rangle> \<and> sorted_list_of_set {1, 2, 3 :: int} ! 2 = 3"
  using kth_node_correct [of "\<langle>\<langle>\<langle>\<rangle>, 1, \<langle>\<rangle>\<rangle>, 2, \<langle>\<langle>\<rangle>, 3, \<langle>\<rangle>\<rangle>\<rangle>" 3] by (simp add: kth_node_def)

section \<open>Levels and paths\<close>

definition level_order_bottom :: "itree \<Rightarrow> int list list option" where
  "level_order_bottom root = (if root = \<langle>\<rangle> then Some [] else map_option rev (levels_loop [root] []))"

fun path_sum_dfs :: "itree \<Rightarrow> int list \<Rightarrow> int \<Rightarrow> int list list \<Rightarrow> int list list" where
  "path_sum_dfs \<langle>\<rangle> cur target res = res"
| "path_sum_dfs \<langle>l, a, r\<rangle> cur target res =
     (let cur' = cur @ [a]; target' = target - a
      in if target' = 0 \<and> l = \<langle>\<rangle> \<and> r = \<langle>\<rangle> then res @ [cur']
         else path_sum_dfs r cur' target' (path_sum_dfs l cur' target' res))"

definition path_sum :: "itree \<Rightarrow> int \<Rightarrow> int list list \<Rightarrow> int list list" where
  "path_sum root s res = path_sum_dfs root [] s res"

text \<open>The text of a path that is not empty.\<close>

definition show_path :: "int list \<Rightarrow> string" where
  "show_path path = foldl (\<lambda>sPath x. sPath @ decimal_int x @ ''->'') [] (butlast path) @ decimal_int (last path)"

fun paths_traversal :: "itree \<Rightarrow> int list \<Rightarrow> string list \<Rightarrow> (int list \<times> string list) option" where
  "paths_traversal \<langle>\<rangle> path result = None"
| "paths_traversal \<langle>l, a, r\<rangle> path result =
     (let path' = path @ [a]
      in if l = \<langle>\<rangle> \<and> r = \<langle>\<rangle> then Some (path', result @ [show_path path'])
         else do {
           (path1, result1) \<leftarrow>
             (if l \<noteq> \<langle>\<rangle> then map_option (\<lambda>(p, rs). (butlast p, rs)) (paths_traversal l path' result) else Some (path', result));
           if r \<noteq> \<langle>\<rangle> then map_option (\<lambda>(p, rs). (butlast p, rs)) (paths_traversal r path1 result1) else Some (path1, result1) })"

definition binary_tree_paths :: "itree \<Rightarrow> string list option" where
  "binary_tree_paths root = (if root = \<langle>\<rangle> then Some [] else map_option snd (paths_traversal root [] []))"

text \<open>The second version keeps the texts of the paths on a stack beside the stack of nodes.\<close>

definition push_path :: "itree \<Rightarrow> string \<Rightarrow> string list \<Rightarrow> string list" where
  "push_path t path ps = (if t = \<langle>\<rangle> then ps else (path @ ''->'' @ decimal_int (value t)) # ps)"

function paths_loop :: "itree list \<Rightarrow> string list \<Rightarrow> string list \<Rightarrow> string list option" where
  "paths_loop [] pathSt result = Some result"
| "paths_loop (\<langle>\<rangle> # treeSt) pathSt result = None"
| "paths_loop (\<langle>l, a, r\<rangle> # treeSt) [] result = None"
| "paths_loop (\<langle>l, a, r\<rangle> # treeSt) (path # pathSt) result =
     paths_loop (push_node l (push_node r treeSt)) (push_path l path (push_path r path pathSt))
       (if l = \<langle>\<rangle> \<and> r = \<langle>\<rangle> then result @ [path] else result)"
  by pat_completeness auto
termination by (relation "measure (weight \<circ> fst)") auto

definition binary_tree_paths_stack :: "itree \<Rightarrow> string list option" where
  "binary_tree_paths_stack root = (if root = \<langle>\<rangle> then Some [] else paths_loop [root] [decimal_int (value root)] [])"

text \<open>The paths from the root to the leaves, and their texts.\<close>

fun leaf_paths :: "itree \<Rightarrow> int list list" where
  "leaf_paths \<langle>\<rangle> = []"
| "leaf_paths \<langle>l, a, r\<rangle> = (if l = \<langle>\<rangle> \<and> r = \<langle>\<rangle> then [[a]] else map ((#) a) (leaf_paths l @ leaf_paths r))"

fun path_text :: "int list \<Rightarrow> string" where
  "path_text [] = []"
| "path_text [x] = decimal_int x"
| "path_text (x # xs) = decimal_int x @ ''->'' @ path_text xs"

lemma leaf_paths_nonempty: "p \<in> set (leaf_paths t) \<Longrightarrow> p \<noteq> [] \<and> hd p = value t"
  by (induction t rule: leaf_paths.induct) (auto split: if_splits)

lemma path_sum_dfs_eq:
  "path_sum_dfs t cur target res = res @ map ((@) cur) (filter (\<lambda>p. sum_list p = target) (leaf_paths t))"
proof (induction t cur target res rule: path_sum_dfs.induct)
  case (2 l a r cur target res)
  have "filter (\<lambda>p. sum_list p = target) (map ((#) a) ps) = map ((#) a) (filter (\<lambda>p. sum_list p = target - a) ps)" for ps
    by (simp add: filter_map comp_def algebra_simps eq_diff_eq)
  then show ?case using 2 by (auto simp: Let_def comp_def)
qed simp

text \<open>\<open>pathSum\<close> on a new object lists the paths from the root to a leaf with the given sum.\<close>

theorem path_sum_correct: "path_sum t s [] = filter (\<lambda>p. sum_list p = s) (leaf_paths t)"
  by (simp add: path_sum_def path_sum_dfs_eq map_idI)

lemma show_path_snoc: "show_path (p @ [x]) = concat (map (\<lambda>y. decimal_int y @ ''->'') p) @ decimal_int x"
proof -
  have "foldl (\<lambda>s y. s @ decimal_int y @ ''->'') acc p = acc @ concat (map (\<lambda>y. decimal_int y @ ''->'') p)" for acc
    by (induction p arbitrary: acc) auto
  then show ?thesis by (simp add: show_path_def)
qed

lemma show_path_text: "p \<noteq> [] \<Longrightarrow> show_path p = path_text p"
proof (induction p rule: path_text.induct)
  case (2 x)
  then show ?case using show_path_snoc [of "[]" x] by simp
next
  case (3 x y ys)
  obtain zs z where "y # ys = zs @ [z]" by (metis list.distinct(1) rev_exhaust)
  then have "show_path (x # y # ys) = decimal_int x @ ''->'' @ show_path (y # ys)"
    using show_path_snoc [of "x # zs" z] show_path_snoc [of zs z] by simp
  then show ?case using "3.IH" by simp
qed simp

lemma paths_traversal_eq:
  "t \<noteq> \<langle>\<rangle> \<Longrightarrow> paths_traversal t path result =
     Some (path @ [value t], result @ map (\<lambda>p. show_path (path @ p)) (leaf_paths t))"
proof (induction t path result rule: paths_traversal.induct)
  case (2 l a r path result)
  show ?case
  proof (cases "l = \<langle>\<rangle>")
    case True
    then show ?thesis using 2 by (auto simp: Let_def comp_def butlast_append)
  next
    case False
    then show ?thesis using 2 by (cases "r = \<langle>\<rangle>") (auto simp: Let_def comp_def butlast_append)
  qed
qed simp

text \<open>What the stacks still have to yield: a node with the text of the path down to it.\<close>

definition texts_below :: "itree \<Rightarrow> string \<Rightarrow> string list" where
  "texts_below t path = map (\<lambda>p. path @ concat (map (\<lambda>x. ''->'' @ decimal_int x) (tl p))) (leaf_paths t)"

lemma texts_below_node:
  "texts_below \<langle>l, a, r\<rangle> path =
     (if l = \<langle>\<rangle> \<and> r = \<langle>\<rangle> then [path]
      else texts_below l (path @ ''->'' @ decimal_int (value l)) @ texts_below r (path @ ''->'' @ decimal_int (value r)))"
proof -
  have "map (\<lambda>p. path @ concat (map (\<lambda>x. ''->'' @ decimal_int x) p)) (leaf_paths t) =
      texts_below t (path @ ''->'' @ decimal_int (value t))" for t
    unfolding texts_below_def
  proof (rule map_cong [OF refl])
    fix p
    assume "p \<in> set (leaf_paths t)"
    then obtain ps where "p = value t # ps" by (metis leaf_paths_nonempty list.collapse)
    then show "path @ concat (map (\<lambda>x. ''->'' @ decimal_int x) p) =
      (path @ ''->'' @ decimal_int (value t)) @ concat (map (\<lambda>x. ''->'' @ decimal_int x) (tl p))" by simp
  qed
  then show ?thesis by (simp add: texts_below_def comp_def)
qed

lemma paths_loop_eq:
  assumes "length treeSt = length pathSt" and "\<langle>\<rangle> \<notin> set treeSt"
  shows "paths_loop treeSt pathSt result = Some (result @ concat (map2 texts_below treeSt pathSt))"
  using assms
proof (induction treeSt pathSt result rule: paths_loop.induct)
  case (4 l a r treeSt path pathSt result)
  let ?T = "push_node l (push_node r treeSt)" and ?P = "push_path l path (push_path r path pathSt)"
  have "length ?T = length ?P" "\<langle>\<rangle> \<notin> set ?T" using "4.prems" by (auto simp: push_node_def push_path_def)
  moreover have "concat (map2 texts_below ?T ?P) =
      (if l = \<langle>\<rangle> \<and> r = \<langle>\<rangle> then [] else texts_below \<langle>l, a, r\<rangle> path) @ concat (map2 texts_below treeSt pathSt)"
    by (auto simp: push_node_def push_path_def texts_below_node) (auto simp: texts_below_def)
  ultimately show ?case using "4.IH" by (auto simp: texts_below_node)
qed auto

lemma texts_below_root: "t \<noteq> \<langle>\<rangle> \<Longrightarrow> texts_below t (decimal_int (value t)) = map path_text (leaf_paths t)"
  unfolding texts_below_def
proof (rule map_cong [OF refl])
  fix p
  assume "p \<in> set (leaf_paths t)"
  then obtain ps where p: "p = value t # ps" by (metis leaf_paths_nonempty list.collapse)
  have "path_text (x # ps) = decimal_int x @ concat (map (\<lambda>x. ''->'' @ decimal_int x) ps)" for x
    by (induction ps arbitrary: x) auto
  then show "decimal_int (value t) @ concat (map (\<lambda>x. ''->'' @ decimal_int x) (tl p)) = path_text p" using p by simp
qed

text \<open>Both versions of \<open>binaryTreePaths\<close> return the texts of the paths from the root to the leaves, from left to right.\<close>

theorem binary_tree_paths_agree:
  "binary_tree_paths t = Some (map path_text (leaf_paths t)) \<and> binary_tree_paths_stack t = Some (map path_text (leaf_paths t))"
proof (cases "t = \<langle>\<rangle>")
  case True
  then show ?thesis by (simp add: binary_tree_paths_def binary_tree_paths_stack_def)
next
  case False
  have "map show_path (leaf_paths t) = map path_text (leaf_paths t)"
    by (rule map_cong) (use leaf_paths_nonempty show_path_text in auto)
  then have "binary_tree_paths t = Some (map path_text (leaf_paths t))"
    using paths_traversal_eq [OF False, of "[]" "[]"] False by (simp add: binary_tree_paths_def)
  moreover have "binary_tree_paths_stack t = Some (map path_text (leaf_paths t))"
    using paths_loop_eq [of "[t]" "[decimal_int (value t)]" "[]"] texts_below_root [OF False] False
    by (simp add: binary_tree_paths_stack_def)
  ultimately show ?thesis by blast
qed

lemma level_order_bottom_eq: "level_order_bottom t = Some (rev (map (\<lambda>n. depth_values n [t]) [0..<forest_height [t]]))" if "t \<noteq> \<langle>\<rangle>"
  using that levels_loop_ok [of "[t]" "[]"] by (simp add: level_order_bottom_def)

end
