(* ===== verification/Ancestors.thy ===== *)
theory Ancestors
  imports TreePrograms
begin

text \<open>
  The three programs of \<open>find_job/look_for_job.cpp\<close> that find the nearest common ancestor of two nodes of a binary tree: two that store the
  parents in a hash table and climb, and one that searches recursively.  Members that keep their value between calls (\<open>parent\<close>,
  \<open>visited\<close>, \<open>fa\<close>, \<open>vis\<close>, \<open>ans\<close>) are arguments.  Reading an absent key of an \<open>unordered_map\<close> inserts a default value, so the first
  two climbing loops may not end on arbitrary tables; they are partial functions.
\<close>

section \<open>The programs\<close>

subsection \<open>A table of parents\<close>

fun find_parents :: "itree \<Rightarrow> (int \<Rightarrow> int option) \<Rightarrow> int \<Rightarrow> int option" where
  "find_parents \<langle>\<rangle> parent = parent"
| "find_parents \<langle>l, a, r\<rangle> parent =
     (let p1 = if l = \<langle>\<rangle> then parent else find_parents l (parent(value l \<mapsto> a))
      in if r = \<langle>\<rangle> then p1 else find_parents r (p1(value r \<mapsto> a)))"

text \<open>\<open>parent[k]\<close>, which inserts 0 if the key is absent.\<close>

definition parent_at :: "(int \<Rightarrow> int option) \<Rightarrow> int \<Rightarrow> int \<times> (int \<Rightarrow> int option)" where
  "parent_at parent k = (case parent k of None \<Rightarrow> (0, parent(k \<mapsto> 0)) | Some y \<Rightarrow> (y, parent))"

partial_function (option) climb :: "(int \<Rightarrow> int option) \<Rightarrow> int set \<Rightarrow> int \<Rightarrow> ((int \<Rightarrow> int option) \<times> int set) option" where
  "climb parent visited o1 =
     (if o1 = -1 then Some (parent, visited)
      else case parent_at parent o1 of (y, parent') \<Rightarrow> climb parent' (insert o1 visited) y)"

partial_function (option) climb_until :: "(int \<Rightarrow> int option) \<Rightarrow> int set \<Rightarrow> int \<Rightarrow> int option" where
  "climb_until parent visited o2 =
     (if o2 = -1 then Some (-1)
      else if o2 \<in> visited then Some o2
      else case parent_at parent o2 of (y, parent') \<Rightarrow> climb_until parent' visited y)"

definition lca_values :: "itree \<Rightarrow> int \<Rightarrow> int \<Rightarrow> (int \<Rightarrow> int option) \<Rightarrow> int set \<Rightarrow> int option" where
  "lca_values root o1 o2 parent visited = do {
     v \<leftarrow> t_val root;
     (parent1, visited1) \<leftarrow> climb (find_parents root (parent(v \<mapsto> -1))) visited o1;
     climb_until parent1 visited1 o2 }"

subsection \<open>A table of parent nodes\<close>

fun find_fa :: "itree \<Rightarrow> (int \<Rightarrow> itree option) \<Rightarrow> int \<Rightarrow> itree option" where
  "find_fa \<langle>\<rangle> fa = fa"
| "find_fa \<langle>l, a, r\<rangle> fa =
     (let f1 = if l = \<langle>\<rangle> then fa else find_fa l (fa(value l \<mapsto> \<langle>l, a, r\<rangle>))
      in if r = \<langle>\<rangle> then f1 else find_fa r (f1(value r \<mapsto> \<langle>l, a, r\<rangle>)))"

definition fa_at :: "(int \<Rightarrow> itree option) \<Rightarrow> int \<Rightarrow> itree \<times> (int \<Rightarrow> itree option)" where
  "fa_at fa k = (case fa k of None \<Rightarrow> (\<langle>\<rangle>, fa(k \<mapsto> \<langle>\<rangle>)) | Some y \<Rightarrow> (y, fa))"

partial_function (option) climb_nodes :: "(int \<Rightarrow> itree option) \<Rightarrow> int set \<Rightarrow> itree \<Rightarrow> ((int \<Rightarrow> itree option) \<times> int set) option" where
  "climb_nodes fa vis p =
     (if p = \<langle>\<rangle> then Some (fa, vis)
      else case fa_at fa (value p) of (y, fa') \<Rightarrow> climb_nodes fa' (insert (value p) vis) y)"

partial_function (option) climb_nodes_until :: "(int \<Rightarrow> itree option) \<Rightarrow> int set \<Rightarrow> itree \<Rightarrow> itree option" where
  "climb_nodes_until fa vis q =
     (if q = \<langle>\<rangle> then Some \<langle>\<rangle>
      else if value q \<in> vis then Some q
      else case fa_at fa (value q) of (y, fa') \<Rightarrow> climb_nodes_until fa' vis y)"

definition lca_nodes :: "itree \<Rightarrow> itree \<Rightarrow> itree \<Rightarrow> (int \<Rightarrow> itree option) \<Rightarrow> int set \<Rightarrow> itree option" where
  "lca_nodes root p q fa vis = do {
     v \<leftarrow> t_val root;
     (fa1, vis1) \<leftarrow> climb_nodes (find_fa root (fa(v \<mapsto> \<langle>\<rangle>))) vis p;
     climb_nodes_until fa1 vis1 q }"

subsection \<open>Recursive search\<close>

text \<open>The member \<open>ans\<close> has no initial value: \<^const>\<open>None\<close> stands for an indeterminate pointer.  Of \<open>p\<close> and \<open>q\<close> only the values are read.\<close>

fun lca_dfs :: "itree \<Rightarrow> int \<Rightarrow> int \<Rightarrow> itree option \<Rightarrow> bool \<times> itree option" where
  "lca_dfs \<langle>\<rangle> p q ans = (False, ans)"
| "lca_dfs \<langle>l, a, r\<rangle> p q ans =
     (let (lson, ans1) = lca_dfs l p q ans;
          (rson, ans2) = lca_dfs r p q ans1;
          ans3 = if (lson \<and> rson) \<or> ((a = p \<or> a = q) \<and> (lson \<or> rson)) then Some \<langle>l, a, r\<rangle> else ans2
      in (lson \<or> rson \<or> (a = p \<or> a = q), ans3))"

definition lca_recursive :: "itree \<Rightarrow> int \<Rightarrow> int \<Rightarrow> itree option \<Rightarrow> itree option" where
  "lca_recursive root p q ans = snd (lca_dfs root p q ans)"

text \<open>A version that compares pointers and returns what it finds in one of the subtrees.\<close>

fun lca_nested :: "itree \<Rightarrow> itree \<Rightarrow> itree \<Rightarrow> itree" where
  "lca_nested \<langle>\<rangle> p q = \<langle>\<rangle>"
| "lca_nested \<langle>l, a, r\<rangle> p q =
     (if p = \<langle>l, a, r\<rangle> \<or> q = \<langle>l, a, r\<rangle> then \<langle>l, a, r\<rangle>
      else
        let x = lca_nested l p q;
            y = lca_nested r p q
        in if x = \<langle>\<rangle> then y else if y = \<langle>\<rangle> then x else \<langle>l, a, r\<rangle>)"

section \<open>The nearest common ancestor\<close>

fun lca :: "itree \<Rightarrow> int \<Rightarrow> int \<Rightarrow> itree" where
  "lca \<langle>\<rangle> x y = \<langle>\<rangle>"
| "lca \<langle>l, a, r\<rangle> x y =
     (if x \<in> set_tree l \<and> y \<in> set_tree l then lca l x y
      else if x \<in> set_tree r \<and> y \<in> set_tree r then lca r x y else \<langle>l, a, r\<rangle>)"

abbreviation unique_values :: "itree \<Rightarrow> bool" where
  "unique_values t \<equiv> distinct (inorder t)"

lemma unique_values_node:
  "unique_values \<langle>l, a, r\<rangle> \<longleftrightarrow> unique_values l \<and> unique_values r \<and> a \<notin> set_tree l \<and> a \<notin> set_tree r \<and> set_tree l \<inter> set_tree r = {}"
  by auto

declare inorder.simps(2) [simp del] unique_values_node [simp]

lemma lca_least:
  assumes "x \<in> set_tree t" and "y \<in> set_tree t"
  shows "\<exists>l a r. lca t x y = \<langle>l, a, r\<rangle> \<and> \<langle>l, a, r\<rangle> \<in> subtrees t \<and> {x, y} \<subseteq> set_tree \<langle>l, a, r\<rangle> \<and>
    \<not> {x, y} \<subseteq> set_tree l \<and> \<not> {x, y} \<subseteq> set_tree r"
  using assms by (induction t) auto

text \<open>The nodes on the way from a value up to the root.\<close>

fun up_nodes :: "itree \<Rightarrow> int \<Rightarrow> itree list" where
  "up_nodes \<langle>\<rangle> x = []"
| "up_nodes \<langle>l, a, r\<rangle> x =
     (if x = a then [\<langle>l, a, r\<rangle>]
      else if x \<in> set_tree l then up_nodes l x @ [\<langle>l, a, r\<rangle>]
      else if x \<in> set_tree r then up_nodes r x @ [\<langle>l, a, r\<rangle>] else [])"

lemma up_nodes_values: "n \<in> set (up_nodes t x) \<Longrightarrow> n \<noteq> \<langle>\<rangle> \<and> value n \<in> set_tree t"
  by (induction t) (auto split: if_splits)

lemma up_nodes_last: "x \<in> set_tree t \<Longrightarrow> up_nodes t x \<noteq> [] \<and> last (up_nodes t x) = t"
  by (cases t) auto

lemma up_nodes_hd: "unique_values t \<Longrightarrow> \<langle>l, x, r\<rangle> \<in> subtrees t \<Longrightarrow> x \<in> set_tree t \<and> hd (up_nodes t x) = \<langle>l, x, r\<rangle>"
proof (induction t)
  case (Node l' a r')
  have in_sub: "\<langle>l, x, r\<rangle> \<in> subtrees s \<Longrightarrow> x \<in> set_tree s" for s by (induction s) auto
  show ?case using Node up_nodes_last [of x l'] up_nodes_last [of x r'] in_sub [of l'] in_sub [of r'] by auto
qed simp

lemma find_append_Some: "find P xs = Some y \<Longrightarrow> find P (xs @ ys) = Some y"
  by (induction xs) auto

lemma find_append_None: "\<forall>x\<in>set xs. \<not> P x \<Longrightarrow> find P (xs @ ys) = find P ys"
  by (induction xs) auto

lemma disjoint_subsets: "A \<subseteq> L \<Longrightarrow> B \<subseteq> R \<Longrightarrow> L \<inter> R = {} \<Longrightarrow> a \<notin> L \<Longrightarrow> A \<inter> insert a B = {}"
  by blast

lemma up_nodes_meet:
  assumes "unique_values t" and "x \<in> set_tree t" and "y \<in> set_tree t"
  shows "find (\<lambda>n. value n \<in> value ` set (up_nodes t x)) (up_nodes t y) = Some (lca t x y)"
  using assms
proof (induction t)
  case (Node l a r)
  have sub: "find (\<lambda>n. value n \<in> value ` set (up_nodes s x @ [\<langle>l, a, r\<rangle>])) (up_nodes s y @ [\<langle>l, a, r\<rangle>]) = Some (lca s x y)"
    if "s \<in> {l, r}" "x \<in> set_tree s" "y \<in> set_tree s" for s
  proof (rule find_append_Some)
    have "find (\<lambda>n. value n \<in> value ` set (up_nodes s x)) (up_nodes s y) = Some (lca s x y)" using Node that by auto
    moreover have "find (\<lambda>n. value n \<in> value ` set (up_nodes s x @ [\<langle>l, a, r\<rangle>])) (up_nodes s y) =
        find (\<lambda>n. value n \<in> value ` set (up_nodes s x)) (up_nodes s y)"
      using up_nodes_values [of _ s y] Node.prems(1) that(1) by (intro find_cong) auto
    ultimately show "find (\<lambda>n. value n \<in> value ` set (up_nodes s x @ [\<langle>l, a, r\<rangle>])) (up_nodes s y) = Some (lca s x y)" by simp
  qed
  have top: "find (\<lambda>n. value n \<in> value ` set (us @ [\<langle>l, a, r\<rangle>])) (ws @ [\<langle>l, a, r\<rangle>]) = Some \<langle>l, a, r\<rangle>"
    if "value ` set ws \<inter> insert a (value ` set us) = {}" for us ws
    using that by (subst find_append_None) auto
  have uni: "a \<notin> set_tree l" "a \<notin> set_tree r" "set_tree l \<inter> set_tree r = {}" using Node.prems(1) by simp_all
  define below where "below z = (if z = a then [] else if z \<in> set_tree l then up_nodes l z else up_nodes r z)" for z
  define zone where "zone z = (if z = a then {} else if z \<in> set_tree l then set_tree l else set_tree r)" for z
  have up: "up_nodes \<langle>l, a, r\<rangle> x = below x @ [\<langle>l, a, r\<rangle>]" "up_nodes \<langle>l, a, r\<rangle> y = below y @ [\<langle>l, a, r\<rangle>]"
    using Node.prems by (auto simp: below_def)
  have zone: "value ` set (below z) \<subseteq> zone z" for z using up_nodes_values by (auto simp: below_def zone_def)
  show ?case
  proof (cases "x \<in> set_tree l \<and> y \<in> set_tree l \<or> x \<in> set_tree r \<and> y \<in> set_tree r")
    case True
    then obtain s where s: "s \<in> {l, r}" "x \<in> set_tree s" "y \<in> set_tree s" by blast
    then have "below x = up_nodes s x" "below y = up_nodes s y" "lca \<langle>l, a, r\<rangle> x y = lca s x y" using uni by (auto simp: below_def)
    then show ?thesis unfolding up using sub [OF s] by metis
  next
    case False
    then have "value ` set (below y) \<inter> insert a (value ` set (below x)) = {}"
      using uni Node.prems by (intro disjoint_subsets [OF zone zone]) (auto simp: zone_def)
    moreover have "lca \<langle>l, a, r\<rangle> x y = \<langle>l, a, r\<rangle>" using False by auto
    ultimately show ?thesis unfolding up using top by metis
  qed
qed simp

section \<open>Climbing\<close>

text \<open>Each node of a list has the next one as its parent in the table.\<close>

fun linked_up :: "(int \<Rightarrow> itree option) \<Rightarrow> itree list \<Rightarrow> bool" where
  "linked_up fa (m # n # ns) \<longleftrightarrow> fa (value m) = Some n \<and> linked_up fa (n # ns)"
| "linked_up fa _ \<longleftrightarrow> True"

lemma linked_up_snoc: "linked_up fa ns \<Longrightarrow> ns \<noteq> [] \<Longrightarrow> fa (value (last ns)) = Some n \<Longrightarrow> linked_up fa (ns @ [n])"
  by (induction ns rule: induct_list012) auto

lemma linked_up_cong: "(\<And>n. n \<in> set ns \<Longrightarrow> fa (value n) = fa' (value n)) \<Longrightarrow> linked_up fa ns \<longleftrightarrow> linked_up fa' ns"
  by (induction ns rule: induct_list012) auto

lemma value_in: "t \<noteq> \<langle>\<rangle> \<Longrightarrow> value t \<in> set_tree t"
  by (cases t) auto

lemma find_fa_outside: "k \<notin> set_tree t \<Longrightarrow> find_fa t fa k = fa k"
proof (induction t arbitrary: fa)
  case (Node l a r)
  then have "l \<noteq> \<langle>\<rangle> \<Longrightarrow> value l \<noteq> k" "r \<noteq> \<langle>\<rangle> \<Longrightarrow> value r \<noteq> k" using value_in by auto
  then show ?case using Node by (cases "l = \<langle>\<rangle>"; cases "r = \<langle>\<rangle>") (auto simp: Let_def)
qed simp

lemma find_fa_root: "unique_values t \<Longrightarrow> t \<noteq> \<langle>\<rangle> \<Longrightarrow> find_fa t fa (value t) = fa (value t)"
proof (cases t)
  case (Node l a r)
  assume u: "unique_values t"
  then have "l \<noteq> \<langle>\<rangle> \<Longrightarrow> value l \<noteq> a" "r \<noteq> \<langle>\<rangle> \<Longrightarrow> value r \<noteq> a" using Node value_in [of l] value_in [of r] by auto
  then show ?thesis using u Node by (cases "l = \<langle>\<rangle>"; cases "r = \<langle>\<rangle>") (auto simp: Let_def find_fa_outside)
qed simp

lemma find_fa_linked: "unique_values t \<Longrightarrow> x \<in> set_tree t \<Longrightarrow> linked_up (find_fa t fa) (up_nodes t x)"
proof (induction t arbitrary: fa)
  case (Node l a r)
  let ?n = "\<langle>l, a, r\<rangle>" and ?f = "find_fa \<langle>l, a, r\<rangle> fa"
  define f1 where "f1 = (if l = \<langle>\<rangle> then fa else find_fa l (fa(value l \<mapsto> ?n)))"
  have f: "?f = (if r = \<langle>\<rangle> then f1 else find_fa r (f1(value r \<mapsto> ?n)))" by (simp add: f1_def Let_def)
  have left: "?f k = f1 k" if "k \<in> set_tree l" for k
  proof -
    have "k \<notin> set_tree r" using that Node.prems by auto
    then show ?thesis unfolding f using find_fa_outside [of k r] value_in [of r] by auto
  qed
  show ?case
  proof (cases "x = a")
    case True
    then show ?thesis by simp
  next
    case False
    consider "x \<in> set_tree l" | "x \<notin> set_tree l" "x \<in> set_tree r" using False Node.prems by auto
    then show ?thesis
    proof cases
      case 1
      then have l: "l \<noteq> \<langle>\<rangle>" by auto
      have "linked_up f1 (up_nodes l x)" using Node 1 l by (simp add: f1_def)
      then have "linked_up ?f (up_nodes l x)" using left up_nodes_values by (metis linked_up_cong)
      moreover have "?f (value l) = Some ?n" using left [OF value_in [OF l]] find_fa_root [OF _ l] Node.prems l by (simp add: f1_def)
      ultimately show ?thesis using 1 False up_nodes_last [OF 1] by (auto intro!: linked_up_snoc simp del: find_fa.simps)
    next
      case 2
      then have r: "r \<noteq> \<langle>\<rangle>" by auto
      have "linked_up ?f (up_nodes r x)" unfolding f using Node 2 r by simp
      moreover have "?f (value r) = Some ?n" unfolding f using find_fa_root [OF _ r] Node.prems r by simp
      ultimately show ?thesis using 2 False up_nodes_last [OF 2(2)] by (auto intro!: linked_up_snoc simp del: find_fa.simps)
    qed
  qed
qed simp

lemma climb_nodes_all:
  assumes "linked_up fa ns" and "ns \<noteq> []" and "\<langle>\<rangle> \<notin> set ns" and "fa (value (last ns)) = Some \<langle>\<rangle>"
  shows "climb_nodes fa vis (hd ns) = Some (fa, vis \<union> value ` set ns)"
  using assms
proof (induction ns arbitrary: vis rule: induct_list012)
  case (2 n)
  then show ?case by (subst climb_nodes.simps) (auto simp: fa_at_def climb_nodes.simps [of fa _ "\<langle>\<rangle>"])
next
  case (3 m n ns)
  then show ?case by (subst climb_nodes.simps) (auto simp: fa_at_def)
qed simp

lemma climb_nodes_until_first:
  assumes "linked_up fa ns" and "ns \<noteq> []" and "\<langle>\<rangle> \<notin> set ns" and "find (\<lambda>n. value n \<in> vis) ns = Some m"
  shows "climb_nodes_until fa vis (hd ns) = Some m"
  using assms
proof (induction ns rule: induct_list012)
  case (2 n)
  then show ?case by (subst climb_nodes_until.simps) (auto split: if_splits)
next
  case (3 k n ns)
  then show ?case by (subst climb_nodes_until.simps) (auto simp: fa_at_def split: if_splits)
qed simp

text \<open>The table of values is the table of nodes, read through their values.\<close>

definition pointer_value :: "itree \<Rightarrow> int" where
  "pointer_value n = (if n = \<langle>\<rangle> then -1 else value n)"

definition value_table :: "(int \<Rightarrow> itree option) \<Rightarrow> int \<Rightarrow> int option" where
  "value_table fa k = map_option pointer_value (fa k)"

lemma value_table_upd: "value_table (fa(k \<mapsto> n)) = (value_table fa)(k \<mapsto> pointer_value n)"
  by (auto simp: value_table_def)

lemma find_parents_table: "find_parents t (value_table fa) = value_table (find_fa t fa)"
proof (induction t arbitrary: fa)
  case (Node l a r)
  have "(value_table f)(k \<mapsto> a) = value_table (f(k \<mapsto> \<langle>l, a, r\<rangle>))" for f k by (simp add: value_table_upd pointer_value_def)
  then show ?case using Node by (simp add: Let_def del: fun_upd_apply)
qed simp

lemma parent_at_table: "fa k = Some n \<Longrightarrow> parent_at (value_table fa) k = (pointer_value n, value_table fa)"
  by (simp add: parent_at_def value_table_def)

lemma climb_all:
  assumes "linked_up fa ns" and "ns \<noteq> []" and "\<forall>n\<in>set ns. n \<noteq> \<langle>\<rangle> \<and> value n \<noteq> -1" and "fa (value (last ns)) = Some \<langle>\<rangle>"
  shows "climb (value_table fa) visited (value (hd ns)) = Some (value_table fa, visited \<union> value ` set ns)"
  using assms
proof (induction ns arbitrary: visited rule: induct_list012)
  case (2 n)
  then show ?case
    by (subst climb.simps) (auto simp: parent_at_table pointer_value_def climb.simps [of _ _ "-1"])
next
  case (3 m n ns)
  then show ?case by (subst climb.simps) (auto simp: parent_at_table pointer_value_def)
qed simp

lemma climb_until_first:
  assumes "linked_up fa ns" and "ns \<noteq> []" and "\<forall>n\<in>set ns. n \<noteq> \<langle>\<rangle> \<and> value n \<noteq> -1" and "find (\<lambda>n. value n \<in> visited) ns = Some m"
  shows "climb_until (value_table fa) visited (value (hd ns)) = Some (value m)"
  using assms
proof (induction ns rule: induct_list012)
  case (2 n)
  then show ?case by (subst climb_until.simps) (auto split: if_splits)
next
  case (3 k n ns)
  then show ?case
    by (subst climb_until.simps) (auto simp: parent_at_table pointer_value_def split: if_splits)
qed simp

lemma lca_dfs_correct:
  assumes "unique_values t" and "p \<noteq> q"
  shows "lca_dfs t p q ans = (p \<in> set_tree t \<or> q \<in> set_tree t, if p \<in> set_tree t \<and> q \<in> set_tree t then Some (lca t p q) else ans)"
  using assms by (induction t arbitrary: ans) (auto simp: Let_def split: prod.splits)

text \<open>A node is determined by its value; a subtree holds it or does not hold the value.\<close>

definition known :: "itree \<Rightarrow> itree \<Rightarrow> bool" where
  "known n t \<longleftrightarrow> n \<noteq> \<langle>\<rangle> \<and> (n \<in> subtrees t \<or> value n \<notin> set_tree t)"

lemma subtree_value: "n \<in> subtrees t \<Longrightarrow> n \<noteq> \<langle>\<rangle> \<Longrightarrow> value n \<in> set_tree t"
  by (induction t) auto

lemma known_node:
  assumes "unique_values \<langle>l, a, r\<rangle>" and "known n \<langle>l, a, r\<rangle>"
  shows "n = \<langle>l, a, r\<rangle> \<longleftrightarrow> value n = a" and "known n l" and "known n r"
  using assms subtree_value [of n l] subtree_value [of n r] by (auto simp: known_def)

lemma lca_nested_correct:
  assumes "unique_values t" and "known p t" and "known q t"
  shows "lca_nested t p q =
    (if value p \<in> set_tree t \<and> value q \<in> set_tree t then lca t (value p) (value q)
     else if value p \<in> set_tree t then p else if value q \<in> set_tree t then q else \<langle>\<rangle>)"
  using assms
proof (induction t)
  case (Node l a r)
  note P = known_node [OF Node.prems(1,2)] and Q = known_node [OF Node.prems(1,3)]
  have u: "unique_values l" "unique_values r" "a \<notin> set_tree l" "a \<notin> set_tree r" "set_tree l \<inter> set_tree r = {}" using Node.prems(1) by auto
  have ne: "p \<noteq> \<langle>\<rangle>" "q \<noteq> \<langle>\<rangle>" using Node.prems(2,3) by (auto simp: known_def)
  have lca_ne: "x \<in> set_tree s \<Longrightarrow> y \<in> set_tree s \<Longrightarrow> lca s x y \<noteq> \<langle>\<rangle>" for s x y using lca_least [of x s y] by auto
  note L = Node.IH(1) [OF u(1) P(2) Q(2)] and R = Node.IH(2) [OF u(2) P(3) Q(3)]
  show ?case
  proof (cases "value p = a \<or> value q = a")
    case True
    then show ?thesis using P(1) Q(1) u(3,4) Node.prems(2,3) by (auto simp: known_def)
  next
    case False
    then show ?thesis using P(1) Q(1) u(5) ne lca_ne by (auto simp: L R Let_def)
  qed
qed simp

section \<open>The programs agree\<close>

lemma lca_climbing:
  assumes u: "unique_values t" and p: "\<langle>pl, p, pr\<rangle> \<in> subtrees t" and q: "\<langle>ql, q, qr\<rangle> \<in> subtrees t"
  shows "lca_nodes t \<langle>pl, p, pr\<rangle> \<langle>ql, q, qr\<rangle> Map.empty {} = Some (lca t p q)"
    and "-1 \<notin> set_tree t \<Longrightarrow> lca_values t p q Map.empty {} = Some (value (lca t p q))"
proof -
  have pq: "p \<in> set_tree t" "q \<in> set_tree t" "hd (up_nodes t p) = \<langle>pl, p, pr\<rangle>" "hd (up_nodes t q) = \<langle>ql, q, qr\<rangle>"
    using up_nodes_hd [OF u p] up_nodes_hd [OF u q] by auto
  then have t: "t \<noteq> \<langle>\<rangle>" by auto
  then have tv: "t_val t = Some (value t)" by (cases t) (simp_all add: tree_access)
  define f0 where "f0 = [value t \<mapsto> \<langle>\<rangle> :: itree]"
  let ?fa = "find_fa t f0"
  have ne: "up_nodes t p \<noteq> []" "up_nodes t q \<noteq> []" "\<langle>\<rangle> \<notin> set (up_nodes t p)" "\<langle>\<rangle> \<notin> set (up_nodes t q)"
    using up_nodes_last [OF pq(1)] up_nodes_last [OF pq(2)] up_nodes_values by auto
  have top: "?fa (value (last (up_nodes t p))) = Some \<langle>\<rangle>" using up_nodes_last [OF pq(1)] find_fa_root [OF u t] by (simp add: f0_def)
  note linked = find_fa_linked [OF u pq(1), of f0] find_fa_linked [OF u pq(2), of f0]
  note meet = up_nodes_meet [OF u pq(1,2)]
  have "climb_nodes ?fa {} \<langle>pl, p, pr\<rangle> = Some (?fa, value ` set (up_nodes t p))"
    using climb_nodes_all [OF linked(1) ne(1,3) top, of "{}"] pq(3) by simp
  moreover have "climb_nodes_until ?fa (value ` set (up_nodes t p)) \<langle>ql, q, qr\<rangle> = Some (lca t p q)"
    using climb_nodes_until_first [OF linked(2) ne(2,4) meet] pq(4) by simp
  ultimately show "lca_nodes t \<langle>pl, p, pr\<rangle> \<langle>ql, q, qr\<rangle> Map.empty {} = Some (lca t p q)" by (simp add: lca_nodes_def tv f0_def [symmetric] del: fun_upd_apply)
  assume m1: "-1 \<notin> set_tree t"
  have ok: "\<forall>n\<in>set (up_nodes t x). n \<noteq> \<langle>\<rangle> \<and> value n \<noteq> -1" for x using up_nodes_values [of _ t x] m1 by metis
  have tab: "find_parents t [value t \<mapsto> -1] = value_table ?fa"
  proof -
    have "value_table Map.empty = Map.empty" by (simp add: value_table_def fun_eq_iff)
    then have "value_table f0 = [value t \<mapsto> -1]" by (simp add: f0_def value_table_upd pointer_value_def del: fun_upd_apply)
    then show ?thesis using find_parents_table [of t f0] by simp
  qed
  have "climb (value_table ?fa) {} p = Some (value_table ?fa, value ` set (up_nodes t p))"
    using climb_all [OF linked(1) ne(1) ok top, of "{}"] pq(3) by simp
  moreover have "climb_until (value_table ?fa) (value ` set (up_nodes t p)) q = Some (value (lca t p q))"
    using climb_until_first [OF linked(2) ne(2) ok meet] pq(4) by simp
  ultimately show "lca_values t p q Map.empty {} = Some (value (lca t p q))" by (simp add: lca_values_def tv tab del: fun_upd_apply)
qed

text \<open>
  C31: On a new object and a tree with distinct values, none of them the sentinel -1, the four programs end and return the nearest common ancestor of two
  different nodes: the root of the smallest subtree that contains both.\<close>

theorem lca_programs_agree:
  assumes u: "unique_values t" "-1 \<notin> set_tree t" and p: "\<langle>pl, p, pr\<rangle> \<in> subtrees t" and q: "\<langle>ql, q, qr\<rangle> \<in> subtrees t" and "p \<noteq> q"
  shows "\<exists>l a r. \<langle>l, a, r\<rangle> \<in> subtrees t \<and> {p, q} \<subseteq> set_tree \<langle>l, a, r\<rangle> \<and> \<not> {p, q} \<subseteq> set_tree l \<and> \<not> {p, q} \<subseteq> set_tree r \<and>
    lca_values t p q Map.empty {} = Some a \<and>
    lca_nodes t \<langle>pl, p, pr\<rangle> \<langle>ql, q, qr\<rangle> Map.empty {} = Some \<langle>l, a, r\<rangle> \<and>
    lca_recursive t p q None = Some \<langle>l, a, r\<rangle> \<and> lca_nested t \<langle>pl, p, pr\<rangle> \<langle>ql, q, qr\<rangle> = \<langle>l, a, r\<rangle>"
proof -
  have pq: "p \<in> set_tree t" "q \<in> set_tree t" using up_nodes_hd [OF u(1) p] up_nodes_hd [OF u(1) q] by auto
  obtain l a r where lar: "lca t p q = \<langle>l, a, r\<rangle>" "\<langle>l, a, r\<rangle> \<in> subtrees t" "{p, q} \<subseteq> set_tree \<langle>l, a, r\<rangle>"
    "\<not> {p, q} \<subseteq> set_tree l" "\<not> {p, q} \<subseteq> set_tree r" using lca_least [OF pq] by blast
  have "lca_recursive t p q None = Some \<langle>l, a, r\<rangle>" using lca_dfs_correct [OF u(1) assms(5)] pq lar(1) by (simp add: lca_recursive_def)
  moreover have "lca_nested t \<langle>pl, p, pr\<rangle> \<langle>ql, q, qr\<rangle> = \<langle>l, a, r\<rangle>"
    using lca_nested_correct [OF u(1), of "\<langle>pl, p, pr\<rangle>" "\<langle>ql, q, qr\<rangle>"] p q pq lar(1) by (simp add: known_def)
  ultimately show ?thesis using lca_climbing(1) [OF u(1) p q] lca_climbing(2) [OF u(1) p q u(2)] lar
    by (intro exI [of _ l] exI [of _ a] exI [of _ r]) simp
qed

theorem lca_programs_agree_witness:
  "lca_values \<langle>\<langle>\<langle>\<rangle>, 4, \<langle>\<rangle>\<rangle>, 2, \<langle>\<langle>\<rangle>, 5, \<langle>\<rangle>\<rangle>\<rangle> 4 5 Map.empty {} = Some 2 \<and>
   lca_nodes \<langle>\<langle>\<langle>\<rangle>, 4, \<langle>\<rangle>\<rangle>, 2, \<langle>\<langle>\<rangle>, 5, \<langle>\<rangle>\<rangle>\<rangle> \<langle>\<langle>\<rangle>, 4, \<langle>\<rangle>\<rangle> \<langle>\<langle>\<rangle>, 5, \<langle>\<rangle>\<rangle> Map.empty {} = Some \<langle>\<langle>\<langle>\<rangle>, 4, \<langle>\<rangle>\<rangle>, 2, \<langle>\<langle>\<rangle>, 5, \<langle>\<rangle>\<rangle>\<rangle> \<and>
   lca_recursive \<langle>\<langle>\<langle>\<rangle>, 4, \<langle>\<rangle>\<rangle>, 2, \<langle>\<langle>\<rangle>, 5, \<langle>\<rangle>\<rangle>\<rangle> 4 5 None = Some \<langle>\<langle>\<langle>\<rangle>, 4, \<langle>\<rangle>\<rangle>, 2, \<langle>\<langle>\<rangle>, 5, \<langle>\<rangle>\<rangle>\<rangle>"
  using lca_programs_agree [of "\<langle>\<langle>\<langle>\<rangle>, 4, \<langle>\<rangle>\<rangle>, 2, \<langle>\<langle>\<rangle>, 5, \<langle>\<rangle>\<rangle>\<rangle>" "\<langle>\<rangle>" 4 "\<langle>\<rangle>" "\<langle>\<rangle>" 5 "\<langle>\<rangle>"] by auto

text \<open>For a node and itself the recursive program never sets its answer, and returns an indeterminate pointer.\<close>

lemma lca_recursive_same: "unique_values t \<Longrightarrow> lca_recursive t p p ans = ans"
proof -
  have "unique_values t \<Longrightarrow> lca_dfs t p p ans = (p \<in> set_tree t, ans)" for t ans
    by (induction t arbitrary: ans) (auto simp: Let_def)
  then show "unique_values t \<Longrightarrow> lca_recursive t p p ans = ans" by (simp add: lca_recursive_def)
qed

text \<open>A value that is not in the tree has the default parent 0, which is its own parent: the first program never returns.\<close>

lemma climb_zero_loops: "parent 0 = Some 0 \<Longrightarrow> climb parent visited 0 = None"
proof -
  assume z: "parent 0 = Some 0"
  have "parent' 0 = Some 0 \<longrightarrow> o1 \<noteq> 0" if "climb parent' visited' o1 = Some y" for parent' visited' o1 y
    by (rule climb.raw_induct [where P = "\<lambda>parent' visited' o1 y. parent' 0 = Some 0 \<longrightarrow> o1 \<noteq> 0", OF _ that])
      (fastforce simp: parent_at_def split: if_splits)
  then show ?thesis using z by (cases "climb parent visited 0") blast+
qed

end
