(* ===== verification/TreeMerge.thy ===== *)
theory TreeMerge
  imports TreePrograms
begin

text \<open>
  The three versions of \<open>mergeTrees\<close> of \<open>find_job/look_for_job.cpp\<close>: in place by recursion, with new nodes, and in place with a queue.  They change
  or share nodes, so trees live in a heap; a pointer is an address or null, and following a null or dangling pointer is \<^const>\<open>None\<close>, as is a sum that
  does not fit into an \<open>int\<close>.  The programs are partial functions, as a heap may hold cycles; on trees they are shown to return.
\<close>

section \<open>The programs\<close>

record tree_node =
  tn_left :: "nat option"
  tn_val :: int
  tn_right :: "nat option"

type_synonym tree_heap = "nat \<Rightarrow> tree_node option"

text \<open>The body is split at the two recursive calls.\<close>

partial_function (option) merge_trees :: "tree_heap \<Rightarrow> nat option \<Rightarrow> nat option \<Rightarrow> (nat option \<times> tree_heap) option" where
  "merge_trees h t1 t2 =
     (case t1 of None \<Rightarrow> Some (t2, h)
      | Some a \<Rightarrow> (case t2 of None \<Rightarrow> Some (t1, h)
        | Some b \<Rightarrow> do {
            n1 \<leftarrow> h a;
            n2 \<leftarrow> h b;
            v \<leftarrow> i32 (tn_val n1 + tn_val n2);
            let h1 = h(a \<mapsto> n1\<lparr>tn_val := v\<rparr>);
            x \<leftarrow> merge_trees h1 (tn_left n1) (tn_left n2);
            m1 \<leftarrow> snd x a;
            m2 \<leftarrow> snd x b;
            let h3 = (snd x)(a \<mapsto> m1\<lparr>tn_left := fst x\<rparr>);
            y \<leftarrow> merge_trees h3 (tn_right m1) (tn_right m2);
            k1 \<leftarrow> snd y a;
            Some (t1, (snd y)(a \<mapsto> k1\<lparr>tn_right := fst y\<rparr>)) }))"

text \<open>The second version; the second component of the state is the next free address.\<close>

partial_function (option) merge_trees_new ::
  "tree_heap \<times> nat \<Rightarrow> nat option \<Rightarrow> nat option \<Rightarrow> (nat option \<times> tree_heap \<times> nat) option" where
  "merge_trees_new s t1 t2 =
     (case t1 of None \<Rightarrow> Some (t2, s)
      | Some a \<Rightarrow> (case t2 of None \<Rightarrow> Some (t1, s)
        | Some b \<Rightarrow> do {
            n1 \<leftarrow> fst s a;
            n2 \<leftarrow> fst s b;
            v \<leftarrow> i32 (tn_val n1 + tn_val n2);
            let t = snd s;
            let h1 = (fst s)(t \<mapsto> \<lparr>tn_left = None, tn_val = v, tn_right = None\<rparr>);
            x \<leftarrow> merge_trees_new (h1, Suc t) (tn_left n1) (tn_left n2);
            m \<leftarrow> fst (snd x) t;
            let h2 = (fst (snd x))(t \<mapsto> m\<lparr>tn_left := fst x\<rparr>);
            y \<leftarrow> merge_trees_new (h2, snd (snd x)) (tn_right n1) (tn_right n2);
            k \<leftarrow> fst (snd y) t;
            Some (Some t, (fst (snd y))(t \<mapsto> k\<lparr>tn_right := fst y\<rparr>), snd (snd y)) }))"

text \<open>The third version.  A pair of nodes that both exist is queued, a child that only the second one has is linked.\<close>

fun queue_pair :: "nat option \<Rightarrow> nat option \<Rightarrow> nat list \<Rightarrow> nat list" where
  "queue_pair (Some a) (Some b) que = que @ [a, b]"
| "queue_pair _ _ que = que"

definition link_child :: "nat option \<Rightarrow> nat option \<Rightarrow> nat option" where
  "link_child c1 c2 = (if c1 = None \<and> c2 \<noteq> None then c2 else c1)"

partial_function (option) merge_queue :: "tree_heap \<Rightarrow> nat list \<Rightarrow> tree_heap option" where
  "merge_queue h que =
     (case que of [] \<Rightarrow> Some h
      | a # que1 \<Rightarrow> (case que1 of [] \<Rightarrow> None
        | b # que2 \<Rightarrow> do {
            n1 \<leftarrow> h a;
            n2 \<leftarrow> h b;
            v \<leftarrow> i32 (tn_val n1 + tn_val n2);
            let que3 = queue_pair (tn_right n1) (tn_right n2) (queue_pair (tn_left n1) (tn_left n2) que2);
            merge_queue (h(a \<mapsto> \<lparr>tn_left = link_child (tn_left n1) (tn_left n2), tn_val = v,
                                  tn_right = link_child (tn_right n1) (tn_right n2)\<rparr>)) que3 }))"

definition merge_trees_queue :: "tree_heap \<Rightarrow> nat option \<Rightarrow> nat option \<Rightarrow> (nat option \<times> tree_heap) option" where
  "merge_trees_queue h t1 t2 =
     (case t1 of None \<Rightarrow> Some (t2, h)
      | Some a \<Rightarrow> (case t2 of None \<Rightarrow> Some (t1, h)
        | Some b \<Rightarrow> map_option (\<lambda>h'. (t1, h')) (merge_queue h [a, b])))"

section \<open>Trees in a heap\<close>

fun tree_in :: "tree_heap \<Rightarrow> nat option \<Rightarrow> itree \<Rightarrow> nat set \<Rightarrow> bool" where
  "tree_in h p \<langle>\<rangle> S \<longleftrightarrow> p = None \<and> S = {}"
| "tree_in h p \<langle>l, x, r\<rangle> S \<longleftrightarrow>
     (\<exists>a n L R. p = Some a \<and> h a = Some n \<and> tn_val n = x \<and> tree_in h (tn_left n) l L \<and> tree_in h (tn_right n) r R \<and>
        S = insert a (L \<union> R) \<and> a \<notin> L \<and> a \<notin> R \<and> L \<inter> R = {})"

fun tree_sum :: "itree \<Rightarrow> itree \<Rightarrow> itree" where
  "tree_sum \<langle>\<rangle> t = t"
| "tree_sum t \<langle>\<rangle> = t"
| "tree_sum \<langle>l, a, r\<rangle> \<langle>l', b, r'\<rangle> = \<langle>tree_sum l l', a + b, tree_sum r r'\<rangle>"

text \<open>The sums at the common positions fit into an \<open>int\<close>.\<close>

fun sums_fit :: "itree \<Rightarrow> itree \<Rightarrow> bool" where
  "sums_fit \<langle>l, a, r\<rangle> \<langle>l', b, r'\<rangle> \<longleftrightarrow> fits_i32 (a + b) \<and> sums_fit l l' \<and> sums_fit r r'"
| "sums_fit _ _ \<longleftrightarrow> True"

lemma tree_sum_Leaf [simp]: "tree_sum t \<langle>\<rangle> = t"
  by (cases t) auto

lemma tree_in_frame: "tree_in h p t S \<Longrightarrow> (\<And>q. q \<in> S \<Longrightarrow> h' q = h q) \<Longrightarrow> tree_in h' p t S"
proof (induction t arbitrary: p S)
  case (Node l x r)
  then obtain a n L R where a: "p = Some a" "h a = Some n" "tn_val n = x" "tree_in h (tn_left n) l L" "tree_in h (tn_right n) r R"
    "S = insert a (L \<union> R)" "a \<notin> L" "a \<notin> R" "L \<inter> R = {}" by auto
  moreover have "tree_in h' (tn_left n) l L" by (rule Node.IH(1) [OF a(4)]) (use Node.prems(2) a(6) in auto)
  moreover have "tree_in h' (tn_right n) r R" by (rule Node.IH(2) [OF a(5)]) (use Node.prems(2) a(6) in auto)
  ultimately show ?case using Node.prems(2) [of a] by auto
qed simp

lemma tree_in_Node:
  assumes "h a = Some n" and "tree_in h (tn_left n) l L" and "tree_in h (tn_right n) r R" and "a \<notin> L" and "a \<notin> R" and "L \<inter> R = {}"
  shows "tree_in h (Some a) \<langle>l, tn_val n, r\<rangle> (insert a (L \<union> R))"
  using assms by auto

lemma tree_in_None: "tree_in h None t S \<longleftrightarrow> t = \<langle>\<rangle> \<and> S = {}"
  by (cases t) auto

lemma tree_in_Some:
  assumes "tree_in h (Some a) t S"
  obtains n l r L R where "t = \<langle>l, tn_val n, r\<rangle>" and "h a = Some n" and "tree_in h (tn_left n) l L" and "tree_in h (tn_right n) r R"
    and "S = insert a (L \<union> R)" and "a \<notin> L" and "a \<notin> R" and "L \<inter> R = {}"
  using assms by (cases t) auto

section \<open>Recursion in place\<close>

lemma merge_trees_ok:
  assumes "tree_in h p1 t1 S1" and "tree_in h p2 t2 S2" and "S1 \<inter> S2 = {}" and "sums_fit t1 t2"
  shows "\<exists>p h' S. merge_trees h p1 p2 = Some (p, h') \<and> tree_in h' p (tree_sum t1 t2) S \<and> S \<subseteq> S1 \<union> S2 \<and> (\<forall>q. q \<notin> S1 \<longrightarrow> h' q = h q)"
  using assms
proof (induction t1 arbitrary: h p1 p2 t2 S1 S2)
  case Leaf
  then show ?case by (subst merge_trees.simps) auto
next
  case (Node l1 x1 r1)
  then obtain a where pa: "p1 = Some a" by auto
  obtain n1 L1 R1 where n1: "x1 = tn_val n1" "h a = Some n1" "tree_in h (tn_left n1) l1 L1" "tree_in h (tn_right n1) r1 R1"
    "S1 = insert a (L1 \<union> R1)" "a \<notin> L1" "a \<notin> R1" "L1 \<inter> R1 = {}"
    using Node.prems(1) pa by auto
  show ?case
  proof (cases p2)
    case None
    then show ?thesis using Node.prems pa by (subst merge_trees.simps) (auto simp: tree_in_None)
  next
    case (Some b)
    obtain n2 l2 r2 L2 R2 where n2: "t2 = \<langle>l2, tn_val n2, r2\<rangle>" "h b = Some n2" "tree_in h (tn_left n2) l2 L2" "tree_in h (tn_right n2) r2 R2"
      "S2 = insert b (L2 \<union> R2)" "b \<notin> L2" "b \<notin> R2" "L2 \<inter> R2 = {}"
      by (rule tree_in_Some [OF Node.prems(2) [unfolded Some]]) (rule that)
    have fit: "fits_i32 (tn_val n1 + tn_val n2)" "sums_fit l1 l2" "sums_fit r1 r2" using Node.prems(4) n1(1) n2(1) by simp_all
    have ab: "a \<noteq> b" "a \<notin> L2" "a \<notin> R2" "b \<notin> L1" "b \<notin> R1" using Node.prems(3) n1(5) n2(5) by auto
    have sep: "L1 \<inter> L2 = {}" "R1 \<inter> R2 = {}" "L1 \<inter> R2 = {}" "R1 \<inter> L2 = {}" using Node.prems(3) n1(5) n2(5) by auto
    define h1 where "h1 = h(a \<mapsto> n1\<lparr>tn_val := tn_val n1 + tn_val n2\<rparr>)"
    have h1: "h1 q = h q" if "q \<noteq> a" for q using that by (simp add: h1_def)
    have "tree_in h1 (tn_left n1) l1 L1" "tree_in h1 (tn_left n2) l2 L2"
      by (rule tree_in_frame [OF n1(3)], use n1(6) h1 in metis, rule tree_in_frame [OF n2(3)], use ab h1 in metis)
    then obtain pl h2 L where L: "merge_trees h1 (tn_left n1) (tn_left n2) = Some (pl, h2)" "tree_in h2 pl (tree_sum l1 l2) L" "L \<subseteq> L1 \<union> L2"
      "\<forall>q. q \<notin> L1 \<longrightarrow> h2 q = h1 q"
      using Node.IH(1) [of h1 "tn_left n1" L1 "tn_left n2" l2 L2] sep(1) fit(2) by blast
    define h3 where "h3 = h2(a \<mapsto> n1\<lparr>tn_val := tn_val n1 + tn_val n2, tn_left := pl\<rparr>)"
    have at2: "h2 a = Some (n1\<lparr>tn_val := tn_val n1 + tn_val n2\<rparr>)" "h2 b = Some n2"
      using L(4) n1(6) ab n2(2) by (simp_all add: h1_def)
    have h3: "h3 q = h q" if "q \<noteq> a" "q \<notin> L1" for q using that L(4) by (simp add: h3_def h1_def)
    have "tree_in h3 (tn_right n1) r1 R1" "tree_in h3 (tn_right n2) r2 R2"
      by (rule tree_in_frame [OF n1(4)], rule h3, use n1(7,8) in blast, use n1(8) in blast, rule tree_in_frame [OF n2(4)], rule h3,
          use ab in blast, use sep(3) in blast)
    then obtain pr h4 R where R: "merge_trees h3 (tn_right n1) (tn_right n2) = Some (pr, h4)" "tree_in h4 pr (tree_sum r1 r2) R" "R \<subseteq> R1 \<union> R2"
      "\<forall>q. q \<notin> R1 \<longrightarrow> h4 q = h3 q"
      using Node.IH(2) [of h3 "tn_right n1" R1 "tn_right n2" r2 R2] sep(2) fit(3) by blast
    define n where "n = n1\<lparr>tn_val := tn_val n1 + tn_val n2, tn_left := pl, tn_right := pr\<rparr>"
    define h5 where "h5 = h4(a \<mapsto> n)"
    have at4: "h4 a = Some (n1\<lparr>tn_val := tn_val n1 + tn_val n2, tn_left := pl\<rparr>)" using R(4) n1(7) by (simp add: h3_def)
    have run: "merge_trees h p1 p2 = Some (p1, h5)"
      unfolding pa Some
      by (subst merge_trees.simps) (simp add: n1(2) n2(2) fit(1) h1_def [symmetric] L(1) at2 h3_def [symmetric] R(1) at4 h5_def n_def)
    have disj: "a \<notin> L" "a \<notin> R" "L \<inter> R = {}" "R1 \<inter> L = {}" using L(3) R(3) n1(6,7,8) n2(8) ab sep by blast+
    have "tree_in h5 pl (tree_sum l1 l2) L"
    proof (rule tree_in_frame [OF L(2)])
      fix q
      assume "q \<in> L"
      then have "q \<noteq> a" "q \<notin> R1" using disj by auto
      then show "h5 q = h2 q" using R(4) by (simp add: h5_def h3_def)
    qed
    moreover have "tree_in h5 pr (tree_sum r1 r2) R" by (rule tree_in_frame [OF R(2)]) (use disj(2) in \<open>auto simp: h5_def\<close>)
    ultimately have "tree_in h5 (Some a) (tree_sum \<langle>l1, x1, r1\<rangle> t2) (insert a (L \<union> R))"
      using tree_in_Node [of h5 a n "tree_sum l1 l2" L "tree_sum r1 r2" R] disj by (simp add: h5_def n_def n1(1) n2(1))
    moreover have "insert a (L \<union> R) \<subseteq> S1 \<union> S2" using L(3) R(3) n1(5) n2(5) by auto
    moreover have "h5 q = h q" if "q \<notin> S1" for q using that R(4) h3 [of q] n1(5) by (simp add: h5_def)
    ultimately show ?thesis using run pa by blast
  qed
qed

section \<open>Recursion with new nodes\<close>

lemma merge_trees_new_ok:
  assumes "tree_in h p1 t1 S1" and "tree_in h p2 t2 S2" and "S1 \<inter> S2 = {}" and "\<forall>q\<in>S1 \<union> S2. q < t" and "sums_fit t1 t2"
  shows "\<exists>p h' t' S. merge_trees_new (h, t) p1 p2 = Some (p, h', t') \<and> tree_in h' p (tree_sum t1 t2) S \<and>
    t \<le> t' \<and> S \<subseteq> S1 \<union> S2 \<union> {t..<t'} \<and> (\<forall>q. q < t \<longrightarrow> h' q = h q)"
  using assms
proof (induction t1 arbitrary: h t p1 p2 t2 S1 S2)
  case Leaf
  then show ?case by (subst merge_trees_new.simps) auto
next
  case (Node l1 x1 r1)
  then obtain a where pa: "p1 = Some a" by auto
  obtain n1 L1 R1 where n1: "x1 = tn_val n1" "h a = Some n1" "tree_in h (tn_left n1) l1 L1" "tree_in h (tn_right n1) r1 R1"
    "S1 = insert a (L1 \<union> R1)" "a \<notin> L1" "a \<notin> R1" "L1 \<inter> R1 = {}"
    using Node.prems(1) pa by auto
  show ?case
  proof (cases p2)
    case None
    then show ?thesis using Node.prems pa by (subst merge_trees_new.simps) (auto simp: tree_in_None)
  next
    case (Some b)
    obtain n2 l2 r2 L2 R2 where n2: "t2 = \<langle>l2, tn_val n2, r2\<rangle>" "h b = Some n2" "tree_in h (tn_left n2) l2 L2" "tree_in h (tn_right n2) r2 R2"
      "S2 = insert b (L2 \<union> R2)" "b \<notin> L2" "b \<notin> R2" "L2 \<inter> R2 = {}"
      by (rule tree_in_Some [OF Node.prems(2) [unfolded Some]]) (rule that)
    have fit: "fits_i32 (tn_val n1 + tn_val n2)" "sums_fit l1 l2" "sums_fit r1 r2" using Node.prems(5) n1(1) n2(1) by simp_all
    have old: "\<forall>q\<in>L1 \<union> L2. q < t" "\<forall>q\<in>R1 \<union> R2. q < t" "L1 \<inter> L2 = {}" "R1 \<inter> R2 = {}" "(L1 \<union> L2) \<inter> (R1 \<union> R2) = {}"
      using Node.prems(3,4) n1(5,8) n2(5,8) by auto
    define m where "m = \<lparr>tn_left = None, tn_val = tn_val n1 + tn_val n2, tn_right = None\<rparr>"
    define h1 where "h1 = h(t \<mapsto> m)"
    have h1: "h1 q = h q" if "q < t" for q using that by (simp add: h1_def)
    have "tree_in h1 (tn_left n1) l1 L1" "tree_in h1 (tn_left n2) l2 L2"
      by (rule tree_in_frame [OF n1(3)], use old(1) h1 in blast, rule tree_in_frame [OF n2(3)], use old(1) h1 in blast)
    moreover have "\<forall>q\<in>L1 \<union> L2. q < Suc t" using old(1) less_SucI by blast
    ultimately obtain pl h2 t2' L where L: "merge_trees_new (h1, Suc t) (tn_left n1) (tn_left n2) = Some (pl, h2, t2')"
      "tree_in h2 pl (tree_sum l1 l2) L" "Suc t \<le> t2'" "L \<subseteq> L1 \<union> L2 \<union> {Suc t..<t2'}" "\<forall>q. q < Suc t \<longrightarrow> h2 q = h1 q"
      using Node.IH(1) [of h1 "tn_left n1" L1 "tn_left n2" l2 L2 "Suc t"] old(3) fit(2) by blast
    define h3 where "h3 = h2(t \<mapsto> m\<lparr>tn_left := pl\<rparr>)"
    have h3: "h3 q = h q" if "q < t" for q using that L(5) h1 by (simp add: h3_def)
    have "tree_in h3 (tn_right n1) r1 R1" "tree_in h3 (tn_right n2) r2 R2"
      by (rule tree_in_frame [OF n1(4)], use old(2) h3 in blast, rule tree_in_frame [OF n2(4)], use old(2) h3 in blast)
    moreover have "\<forall>q\<in>R1 \<union> R2. q < t2'" using old(2) L(3) by (meson Suc_le_lessD order.strict_trans)
    ultimately obtain pr h4 t' R where R: "merge_trees_new (h3, t2') (tn_right n1) (tn_right n2) = Some (pr, h4, t')"
      "tree_in h4 pr (tree_sum r1 r2) R" "t2' \<le> t'" "R \<subseteq> R1 \<union> R2 \<union> {t2'..<t'}" "\<forall>q. q < t2' \<longrightarrow> h4 q = h3 q"
      using Node.IH(2) [of h3 "tn_right n1" R1 "tn_right n2" r2 R2 t2'] old(4) fit(3) by blast
    define n where "n = m\<lparr>tn_left := pl, tn_right := pr\<rparr>"
    define h5 where "h5 = h4(t \<mapsto> n)"
    have at: "h2 t = Some m" "h4 t = Some (m\<lparr>tn_left := pl\<rparr>)" using L(3,5) R(5) by (simp_all add: h1_def h3_def)
    have run: "merge_trees_new (h, t) p1 p2 = Some (Some t, h5, t')"
      unfolding pa Some
      by (subst merge_trees_new.simps)
        (simp add: n1(2) n2(2) fit(1) m_def [symmetric] h1_def [symmetric] L(1) at h3_def [symmetric] R(1) h5_def n_def)
    have below: "\<forall>q\<in>L. q < t2'" using L(3,4) old(1) by (meson Suc_le_lessD Un_iff atLeastLessThan_iff order.strict_trans subsetD)
    have disj: "t \<notin> L" "t \<notin> R" "L \<inter> R = {}"
    proof -
      show "t \<notin> L" "t \<notin> R" using L(3,4) R(4) old(1,2) by (meson Un_iff atLeastLessThan_iff leD lessI order.strict_trans1 subsetD less_irrefl)+
      have "q \<notin> R" if "q \<in> L" for q
      proof
        assume "q \<in> R"
        then have "q \<in> R1 \<union> R2" using R(4) below that by (meson Un_iff atLeastLessThan_iff leD subsetD)
        moreover have "q < t" using calculation old(2) by blast
        then have "q \<in> L1 \<union> L2" using that L(4) by (meson Un_iff atLeastLessThan_iff leD less_SucI subsetD)
        ultimately show False using old(5) by blast
      qed
      then show "L \<inter> R = {}" by blast
    qed
    have "tree_in h5 pl (tree_sum l1 l2) L"
      by (rule tree_in_frame [OF L(2)]) (use disj(1) below R(5) in \<open>auto simp: h5_def h3_def\<close>)
    moreover have "tree_in h5 pr (tree_sum r1 r2) R" by (rule tree_in_frame [OF R(2)]) (use disj(2) in \<open>auto simp: h5_def\<close>)
    ultimately have "tree_in h5 (Some t) (tree_sum \<langle>l1, x1, r1\<rangle> t2) (insert t (L \<union> R))"
      using tree_in_Node [of h5 t n "tree_sum l1 l2" L "tree_sum r1 r2" R] disj by (simp add: h5_def n_def m_def n1(1) n2(1))
    moreover have "insert t (L \<union> R) \<subseteq> S1 \<union> S2 \<union> {t..<t'}" using L(3,4) R(3,4) n1(5) n2(5) by auto
    moreover have "h5 q = h q" if "q < t" for q using that R(5) h3 [of q] L(3) by (simp add: h5_def)
    ultimately show ?thesis using run L(3) R(3) by (intro exI [of _ "Some t"] exI [of _ h5] exI [of _ t'] exI [of _ "insert t (L \<union> R)"]) auto
  qed
qed

section \<open>The queue\<close>

text \<open>A pair of the queue with the trees below it and their addresses.\<close>

type_synonym merge_job = "nat \<times> nat \<times> itree \<times> itree \<times> nat set \<times> nat set"

fun used :: "merge_job list \<Rightarrow> nat set" where
  "used [] = {}"
| "used ((a, b, t1, t2, S1, S2) # js) = S1 \<union> S2 \<union> used js"

fun firsts :: "merge_job list \<Rightarrow> nat set" where
  "firsts [] = {}"
| "firsts ((a, b, t1, t2, S1, S2) # js) = S1 \<union> firsts js"

fun jobs_in :: "tree_heap \<Rightarrow> merge_job list \<Rightarrow> bool" where
  "jobs_in h [] \<longleftrightarrow> True"
| "jobs_in h ((a, b, t1, t2, S1, S2) # js) \<longleftrightarrow>
     tree_in h (Some a) t1 S1 \<and> tree_in h (Some b) t2 S2 \<and> sums_fit t1 t2 \<and> S1 \<inter> S2 = {} \<and> (S1 \<union> S2) \<inter> used js = {} \<and> jobs_in h js"

fun queue_of :: "merge_job list \<Rightarrow> nat list" where
  "queue_of [] = []"
| "queue_of ((a, b, j) # js) = a # b # queue_of js"

fun work :: "merge_job list \<Rightarrow> nat" where
  "work [] = 0"
| "work ((a, b, t1, j) # js) = size t1 + work js"

definition merged :: "tree_heap \<Rightarrow> merge_job \<Rightarrow> bool" where
  "merged h = (\<lambda>(a, b, t1, t2, S1, S2). \<exists>S. S \<subseteq> S1 \<union> S2 \<and> tree_in h (Some a) (tree_sum t1 t2) S)"

fun child_job :: "nat option \<Rightarrow> nat option \<Rightarrow> itree \<Rightarrow> itree \<Rightarrow> nat set \<Rightarrow> nat set \<Rightarrow> merge_job list" where
  "child_job (Some a) (Some b) t1 t2 S1 S2 = [(a, b, t1, t2, S1, S2)]"
| "child_job _ _ t1 t2 S1 S2 = []"

lemma jobs_append [simp]:
  "used (js @ ks) = used js \<union> used ks" "firsts (js @ ks) = firsts js \<union> firsts ks" "queue_of (js @ ks) = queue_of js @ queue_of ks"
  "work (js @ ks) = work js + work ks"
  by (induction js rule: used.induct) auto

lemma jobs_in_append: "jobs_in h (js @ ks) \<longleftrightarrow> jobs_in h js \<and> jobs_in h ks \<and> used js \<inter> used ks = {}"
  by (induction js rule: used.induct) auto

lemma firsts_used: "firsts js \<subseteq> used js"
  by (induction js rule: used.induct) auto

lemma jobs_in_frame: "jobs_in h js \<Longrightarrow> (\<And>q. q \<in> used js \<Longrightarrow> h' q = h q) \<Longrightarrow> jobs_in h' js"
proof (induction js rule: used.induct)
  case (2 a b t1 t2 S1 S2 js)
  then show ?case using tree_in_frame [of h "Some a" t1 S1 h'] tree_in_frame [of h "Some b" t2 S2 h'] by auto
qed simp

lemma queue_pair_job: "queue_pair c1 c2 que = que @ queue_of (child_job c1 c2 t1 t2 S1 S2)"
  by (cases c1; cases c2) auto

lemma child_job_in:
  "tree_in h c1 t1 S1 \<Longrightarrow> tree_in h c2 t2 S2 \<Longrightarrow> S1 \<inter> S2 = {} \<Longrightarrow> sums_fit t1 t2 \<Longrightarrow> jobs_in h (child_job c1 c2 t1 t2 S1 S2)"
  by (cases c1; cases c2) auto

lemma child_job_bounds:
  "used (child_job c1 c2 t1 t2 S1 S2) \<subseteq> S1 \<union> S2" "work (child_job c1 c2 t1 t2 S1 S2) \<le> size t1"
  by (cases c1; cases c2; simp)+

lemma child_linked:
  assumes t: "tree_in h c1 t1 S1" "tree_in h c2 t2 S2" and job: "\<forall>j\<in>set (child_job c1 c2 t1 t2 S1 S2). merged h' j"
    and same: "child_job c1 c2 t1 t2 S1 S2 = [] \<Longrightarrow> \<forall>q\<in>S1 \<union> S2. h' q = h q"
  shows "\<exists>S. S \<subseteq> S1 \<union> S2 \<and> tree_in h' (link_child c1 c2) (tree_sum t1 t2) S"
proof (cases c1)
  case None
  then have "t1 = \<langle>\<rangle>" "link_child c1 c2 = c2" "\<forall>q\<in>S2. h' q = h q" using t(1) same by (auto simp: tree_in_None link_child_def)
  moreover have "tree_in h' c2 t2 S2" by (rule tree_in_frame [OF t(2)]) (use calculation(3) in auto)
  ultimately show ?thesis by (intro exI [of _ S2]) simp
next
  case (Some a)
  show ?thesis
  proof (cases c2)
    case None
    then have "t2 = \<langle>\<rangle>" "link_child c1 c2 = c1" "\<forall>q\<in>S1. h' q = h q" using t(2) same Some by (auto simp: tree_in_None link_child_def)
    moreover have "tree_in h' c1 t1 S1" by (rule tree_in_frame [OF t(1)]) (use calculation(3) in auto)
    ultimately show ?thesis by (intro exI [of _ S1]) simp
  next
    case c2: (Some b)
    then show ?thesis using job Some by (auto simp: merged_def link_child_def)
  qed
qed

lemma merge_queue_ok:
  assumes "jobs_in h js"
  shows "\<exists>h'. merge_queue h (queue_of js) = Some h' \<and> (\<forall>j\<in>set js. merged h' j) \<and> (\<forall>q. q \<notin> firsts js \<longrightarrow> h' q = h q)"
  using assms
proof (induction "work js" arbitrary: h js rule: less_induct)
  case less
  show ?case
  proof (cases js)
    case Nil
    then show ?thesis by (subst merge_queue.simps) simp
  next
    case (Cons j js')
    obtain a b t1 t2 S1 S2 where j: "j = (a, b, t1, t2, S1, S2)" by (cases j)
    have js: "tree_in h (Some a) t1 S1" "tree_in h (Some b) t2 S2" "S1 \<inter> S2 = {}" "(S1 \<union> S2) \<inter> used js' = {}" "jobs_in h js'" "sums_fit t1 t2"
      using less.prems unfolding Cons j by auto
    obtain n1 l1 r1 L1 R1 where n1: "t1 = \<langle>l1, tn_val n1, r1\<rangle>" "h a = Some n1" "tree_in h (tn_left n1) l1 L1" "tree_in h (tn_right n1) r1 R1"
      "S1 = insert a (L1 \<union> R1)" "a \<notin> L1" "a \<notin> R1" "L1 \<inter> R1 = {}"
      by (rule tree_in_Some [OF js(1)]) (rule that)
    obtain n2 l2 r2 L2 R2 where n2: "t2 = \<langle>l2, tn_val n2, r2\<rangle>" "h b = Some n2" "tree_in h (tn_left n2) l2 L2" "tree_in h (tn_right n2) r2 R2"
      "S2 = insert b (L2 \<union> R2)" "b \<notin> L2" "b \<notin> R2" "L2 \<inter> R2 = {}"
      by (rule tree_in_Some [OF js(2)]) (rule that)
    have fit: "fits_i32 (tn_val n1 + tn_val n2)" "sums_fit l1 l2" "sums_fit r1 r2" using js(6) n1(1) n2(1) by simp_all
    define n where "n = \<lparr>tn_left = link_child (tn_left n1) (tn_left n2), tn_val = tn_val n1 + tn_val n2,
      tn_right = link_child (tn_right n1) (tn_right n2)\<rparr>"
    define h1 where "h1 = h(a \<mapsto> n)"
    let ?L = "child_job (tn_left n1) (tn_left n2) l1 l2 L1 L2" and ?R = "child_job (tn_right n1) (tn_right n2) r1 r2 R1 R2"
    have sep: "a \<notin> L2" "a \<notin> R2" "L1 \<inter> L2 = {}" "R1 \<inter> R2 = {}" "(L1 \<union> L2) \<inter> (R1 \<union> R2) = {}" "a \<notin> used js'"
      "(L1 \<union> L2 \<union> R1 \<union> R2) \<inter> used js' = {}"
      using js(3,4) n1(5,8) n2(5,8) by auto
    have h1: "h1 q = h q" if "q \<noteq> a" for q using that by (simp add: h1_def)
    have t: "tree_in h1 (tn_left n1) l1 L1" "tree_in h1 (tn_left n2) l2 L2" "tree_in h1 (tn_right n1) r1 R1" "tree_in h1 (tn_right n2) r2 R2"
      by (rule tree_in_frame [OF n1(3)], use n1(6) h1 in metis, rule tree_in_frame [OF n2(3)], use sep(1) h1 in metis,
          rule tree_in_frame [OF n1(4)], use n1(7) h1 in metis, rule tree_in_frame [OF n2(4)], use sep(2) h1 in metis)
    have bounds: "used ?L \<subseteq> L1 \<union> L2" "used ?R \<subseteq> R1 \<union> R2" "work ?L \<le> size l1" "work ?R \<le> size r1"
      using child_job_bounds by blast+
    have "jobs_in h1 js'" by (rule jobs_in_frame [OF js(5)]) (use sep(6) h1 in metis)
    then have jobs: "jobs_in h1 (js' @ ?L @ ?R)"
      using child_job_in [OF t(1,2) sep(3) fit(2)] child_job_in [OF t(3,4) sep(4) fit(3)] bounds(1,2) sep(5,7) by (auto simp: jobs_in_append)
    have lt: "work (js' @ ?L @ ?R) < work js" using bounds(3,4) by (simp add: Cons j n1(1))
    obtain h' where h': "merge_queue h1 (queue_of (js' @ ?L @ ?R)) = Some h'" "\<forall>j\<in>set (js' @ ?L @ ?R). merged h' j"
      "\<forall>q. q \<notin> firsts (js' @ ?L @ ?R) \<longrightarrow> h' q = h1 q" using less.hyps [OF lt jobs] by blast
    have run: "merge_queue h (queue_of js) = Some h'"
      using h'(1) by (subst merge_queue.simps)
        (simp add: Cons j n1(2) n2(2) fit(1) n_def [symmetric] h1_def queue_pair_job [of "tn_left n1" "tn_left n2" _ l1 l2 L1 L2]
          queue_pair_job [of "tn_right n1" "tn_right n2" _ r1 r2 R1 R2])
    have keep: "h' q = h1 q" if "q \<notin> used js'" "q \<notin> used ?L" "q \<notin> used ?R" for q
      using h'(3) that firsts_used [of js'] firsts_used [of ?L] firsts_used [of ?R] by auto
    have keepL: "h' q = h1 q" if "?L = []" "q \<in> L1 \<union> L2" for q
      by (rule keep) (use that sep(5,7) bounds(2) in \<open>auto simp del: child_job.simps\<close>)
    have keepR: "h' q = h1 q" if "?R = []" "q \<in> R1 \<union> R2" for q
      by (rule keep) (use that sep(5,7) bounds(1) in \<open>auto simp del: child_job.simps\<close>)
    have "\<exists>S. S \<subseteq> L1 \<union> L2 \<and> tree_in h' (link_child (tn_left n1) (tn_left n2)) (tree_sum l1 l2) S"
      by (rule child_linked [OF t(1,2)]) (use h'(2) keepL in \<open>simp_all\<close>)
    moreover have "\<exists>S. S \<subseteq> R1 \<union> R2 \<and> tree_in h' (link_child (tn_right n1) (tn_right n2)) (tree_sum r1 r2) S"
      by (rule child_linked [OF t(3,4)]) (use h'(2) keepR in \<open>simp_all\<close>)
    ultimately obtain L R where LR: "L \<subseteq> L1 \<union> L2" "tree_in h' (tn_left n) (tree_sum l1 l2) L" "R \<subseteq> R1 \<union> R2" "tree_in h' (tn_right n) (tree_sum r1 r2) R"
      by (auto simp: n_def)
    have "h' a = Some n" using keep [of a] sep(1,2,6) n1(6,7) bounds(1,2) by (auto simp: h1_def)
    moreover have "a \<notin> L" "a \<notin> R" "L \<inter> R = {}" using LR(1,3) sep(1,2,5) n1(6,7) by blast+
    ultimately have "tree_in h' (Some a) \<langle>tree_sum l1 l2, tn_val n, tree_sum r1 r2\<rangle> (insert a (L \<union> R))"
      by (rule tree_in_Node [OF _ LR(2,4)])
    then have "tree_in h' (Some a) (tree_sum t1 t2) (insert a (L \<union> R))" by (simp add: n1(1) n2(1) n_def)
    moreover have "insert a (L \<union> R) \<subseteq> S1 \<union> S2" using LR(1,3) n1(5) n2(5) by auto
    ultimately have "merged h' j" unfolding merged_def j prod.case by blast
    moreover have "h' q = h q" if "q \<notin> firsts js" for q
    proof -
      have "q \<noteq> a" "q \<notin> firsts js'" "q \<notin> L1" "q \<notin> R1" using that by (auto simp: Cons j n1(5))
      moreover have "firsts ?L \<subseteq> L1" "firsts ?R \<subseteq> R1" by (cases "tn_left n1"; cases "tn_left n2"; simp) (cases "tn_right n1"; cases "tn_right n2"; simp)
      ultimately show ?thesis using h'(3) h1 by auto
    qed
    ultimately show ?thesis using run h'(2) Cons by auto
  qed
qed


section \<open>Agreement\<close>

lemma merge_trees_queue_ok:
  assumes "tree_in h p1 t1 S1" and "tree_in h p2 t2 S2" and "S1 \<inter> S2 = {}" and "sums_fit t1 t2"
  shows "\<exists>p h' S. merge_trees_queue h p1 p2 = Some (p, h') \<and> tree_in h' p (tree_sum t1 t2) S \<and> S \<subseteq> S1 \<union> S2 \<and> (\<forall>q. q \<notin> S1 \<longrightarrow> h' q = h q)"
proof (cases p1)
  case None
  then show ?thesis using assms by (auto simp: merge_trees_queue_def tree_in_None)
next
  case p1: (Some a)
  show ?thesis
  proof (cases p2)
    case None
    then show ?thesis using assms p1 by (auto simp: merge_trees_queue_def tree_in_None)
  next
    case (Some b)
    have "jobs_in h [(a, b, t1, t2, S1, S2)]" using assms p1 Some by simp
    from merge_queue_ok [OF this] obtain h' where h': "merge_queue h [a, b] = Some h'" "merged h' (a, b, t1, t2, S1, S2)"
      "\<forall>q. q \<notin> S1 \<longrightarrow> h' q = h q" by auto
    then show ?thesis using p1 Some by (auto simp: merge_trees_queue_def merged_def)
  qed
qed

text \<open>
  C30: The three versions of \<open>mergeTrees\<close> return on all trees without common nodes whose sums at common positions fit into an \<open>int\<close>, and each returns a tree with the sums of the values at common positions
  and the subtrees that only one of the arguments has.  The first and the last change only nodes of the first tree; the second one changes no
  node that existed before the call.\<close>

theorem merge_trees_agree:
  assumes "tree_in h p1 t1 S1" and "tree_in h p2 t2 S2" and "S1 \<inter> S2 = {}" and "\<forall>q\<in>S1 \<union> S2. q < k" and "sums_fit t1 t2"
  shows "(\<exists>p h' S. merge_trees h p1 p2 = Some (p, h') \<and> tree_in h' p (tree_sum t1 t2) S \<and> S \<subseteq> S1 \<union> S2 \<and> (\<forall>q. q \<notin> S1 \<longrightarrow> h' q = h q)) \<and>
    (\<exists>p h' k' S. merge_trees_new (h, k) p1 p2 = Some (p, h', k') \<and> tree_in h' p (tree_sum t1 t2) S \<and>
      S \<subseteq> S1 \<union> S2 \<union> {k..<k'} \<and> (\<forall>q. q < k \<longrightarrow> h' q = h q)) \<and>
    (\<exists>p h' S. merge_trees_queue h p1 p2 = Some (p, h') \<and> tree_in h' p (tree_sum t1 t2) S \<and> S \<subseteq> S1 \<union> S2 \<and> (\<forall>q. q \<notin> S1 \<longrightarrow> h' q = h q))"
proof (intro conjI)
  show "\<exists>p h' k' S. merge_trees_new (h, k) p1 p2 = Some (p, h', k') \<and> tree_in h' p (tree_sum t1 t2) S \<and>
      S \<subseteq> S1 \<union> S2 \<union> {k..<k'} \<and> (\<forall>q. q < k \<longrightarrow> h' q = h q)" using merge_trees_new_ok [OF assms] by blast
qed (rule merge_trees_ok [OF assms(1-3,5)], rule merge_trees_queue_ok [OF assms(1-3,5)])

definition two_trees :: tree_heap where
  "two_trees = [0 \<mapsto> \<lparr>tn_left = Some 1, tn_val = 1, tn_right = None\<rparr>, 1 \<mapsto> \<lparr>tn_left = None, tn_val = 3, tn_right = None\<rparr>,
     2 \<mapsto> \<lparr>tn_left = None, tn_val = 2, tn_right = Some 3\<rparr>, 3 \<mapsto> \<lparr>tn_left = None, tn_val = 5, tn_right = None\<rparr>]"

lemma two_trees_in:
  "tree_in two_trees (Some 0) \<langle>\<langle>\<langle>\<rangle>, 3, \<langle>\<rangle>\<rangle>, 1, \<langle>\<rangle>\<rangle> {0, 1}" "tree_in two_trees (Some 2) \<langle>\<langle>\<rangle>, 2, \<langle>\<langle>\<rangle>, 5, \<langle>\<rangle>\<rangle>\<rangle> {2, 3}"
  by (simp_all add: two_trees_def insert_commute)

theorem merge_trees_agree_witness:
  "\<exists>p h' S. merge_trees_queue two_trees (Some 0) (Some 2) = Some (p, h') \<and> tree_in h' p \<langle>\<langle>\<langle>\<rangle>, 3, \<langle>\<rangle>\<rangle>, 3, \<langle>\<langle>\<rangle>, 5, \<langle>\<rangle>\<rangle>\<rangle> S"
  using merge_trees_agree [OF two_trees_in, of 4] by (auto simp: fits_i32_def)

end
