(* ===== verification/XorNumbers.thy ===== *)
theory XorNumbers
  imports Prelude "HOL-Library.Word"
begin

unbundle bit_operations_syntax

text \<open>
  The programs of \<open>find_job/look_for_job.cpp\<close> that find the numbers without a partner: by exclusive or, and bit by bit.  \<open>int\<close> is a 32-bit
  word, compared as a signed number.
\<close>

declare push_bit_of_1 [simp del]

type_synonym int32 = "32 word"

section \<open>The programs\<close>

definition single_number :: "int32 list \<Rightarrow> int32" where
  "single_number nums = foldl (\<lambda>ret e. ret XOR e) 0 nums"

definition count_bit :: "int32 list \<Rightarrow> nat \<Rightarrow> nat" where
  "count_bit nums i = foldl (\<lambda>cnt num. cnt + unat (signed_drop_bit i num AND 1)) 0 nums"

text \<open>The remainder for \<open>k = 0\<close> is undefined.\<close>

definition found_once_number :: "int32 list \<Rightarrow> nat \<Rightarrow> int32 option" where
  "found_once_number nums k =
     (if k = 0 then None
      else Some (foldl (\<lambda>res i. res XOR push_bit i (of_nat (count_bit nums i mod k))) 0 [0..<32]))"

partial_function (option) lowest_bit :: "int32 \<Rightarrow> int32 \<Rightarrow> int32 option" where
  "lowest_bit ret dv = (if dv AND ret = 0 then lowest_bit ret (push_bit 1 dv) else Some dv)"

definition split_numbers :: "int32 \<Rightarrow> int32 list \<Rightarrow> int32 \<times> int32" where
  "split_numbers dv nums = foldl (\<lambda>(a, b) n. if dv AND n \<noteq> 0 then (a XOR n, b) else (a, b XOR n)) (0, 0) nums"

definition single_numbers :: "int32 list \<Rightarrow> int32 list option" where
  "single_numbers nums =
     (let ret = foldl (\<lambda>ret n. ret XOR n) 0 nums
      in case lowest_bit ret 1 of
           None \<Rightarrow> None
         | Some dv \<Rightarrow> (case split_numbers dv nums of (a, b) \<Rightarrow> if sint b < sint a then Some [b, a] else Some [a, b]))"

section \<open>Counting bits\<close>

definition odd_ones :: "'a list \<Rightarrow> 'a set" where
  "odd_ones xs = {x. odd (count_list xs x)}"

lemma finite_odd_ones [simp]: "finite (odd_ones xs)"
  by (rule finite_subset [of _ "set xs"]) (auto simp: odd_ones_def, metis count_list_0_iff even_zero)

lemma odd_ones_filter: "odd_ones (filter P xs) = {x \<in> odd_ones xs. P x}"
proof -
  have "count_list (filter P xs) x = (if P x then count_list xs x else 0)" for x by (induction xs) auto
  then show ?thesis by (auto simp: odd_ones_def)
qed

lemma length_filter_counts: "length (filter P xs) = (\<Sum>y\<in>{y \<in> set xs. P y}. count_list xs y)"
proof -
  have "count_list (filter P xs) y = (if P y then count_list xs y else 0)" for y by (induction xs) auto
  then have "(\<Sum>y\<in>{y \<in> set xs. P y}. count_list xs y) = (\<Sum>y\<in>{y \<in> set xs. P y}. count_list (filter P xs) y)" by simp
  also have "\<dots> = length (filter P xs)" by (rule sum_count_set) auto
  finally show ?thesis by simp
qed

lemma odd_filter: "odd (length (filter P xs)) \<longleftrightarrow> odd (card {x \<in> odd_ones xs. P x})"
proof -
  have "{y \<in> {y \<in> set xs. P y}. odd (count_list xs y)} = {x \<in> odd_ones xs. P x}"
    by (auto simp: odd_ones_def) (metis count_list_0_iff even_zero)
  then show ?thesis by (simp add: length_filter_counts even_sum_iff)
qed

definition xor_all :: "int32 list \<Rightarrow> int32" where
  "xor_all xs = foldr (XOR) xs 0"

lemma foldl_xor: "foldl (\<lambda>ret n. ret XOR n) a xs = a XOR xor_all xs"
  by (induction xs arbitrary: a) (simp_all add: xor_all_def ac_simps)

lemma bit_xor_all: "bit (xor_all xs) i \<longleftrightarrow> odd (length (filter (\<lambda>x. bit x i) xs))"
  by (induction xs) (auto simp: xor_all_def bit_simps)

lemma xor_all_odd_ones: "bit (xor_all xs) i \<longleftrightarrow> odd (card {x \<in> odd_ones xs. bit x i})"
  by (simp add: bit_xor_all odd_filter)

lemma xor_all_single:
  assumes "odd_ones xs = {x}"
  shows "xor_all xs = x"
proof (rule bit_eqI)
  fix i
  have "{y \<in> odd_ones xs. bit y i} = (if bit x i then {x} else {})" using assms by auto
  then show "bit (xor_all xs) i = bit x i" unfolding xor_all_odd_ones by simp
qed

text \<open>If exactly one number occurs an odd number of times, \<open>singleNumber\<close> returns it.\<close>

theorem single_number_correct: "odd_ones nums = {x} \<Longrightarrow> single_number nums = x"
  using foldl_xor [of 0 nums] xor_all_single by (simp add: single_number_def)

lemma xor_all_two:
  assumes "odd_ones xs = {x, y}" and "x \<noteq> y"
  shows "xor_all xs = x XOR y"
proof (rule bit_eqI)
  fix i
  have "{z \<in> odd_ones xs. bit z i} = (if bit x i then {x} else {}) \<union> (if bit y i then {y} else {})" using assms by auto
  then show "bit (xor_all xs) i = bit (x XOR y) i" unfolding xor_all_odd_ones using assms(2) by (auto simp: bit_simps)
qed

lemma split_numbers_filter:
  "split_numbers d nums = (xor_all (filter (\<lambda>n. d AND n \<noteq> 0) nums), xor_all (filter (\<lambda>n. d AND n = 0) nums))"
proof -
  have "foldl (\<lambda>(a, b) n. if d AND n \<noteq> 0 then (a XOR n, b) else (a, b XOR n)) (a, b) nums =
      (a XOR xor_all (filter (\<lambda>n. d AND n \<noteq> 0) nums), b XOR xor_all (filter (\<lambda>n. d AND n = 0) nums))" for a b
    by (induction nums arbitrary: a b) (auto simp: xor_all_def ac_simps)
  then show ?thesis by (simp add: split_numbers_def)
qed

lemma and_push_bit: "push_bit i (1 :: int32) AND ret = 0 \<longleftrightarrow> \<not> bit ret i" if "i < 32"
proof -
  have b: "bit (push_bit i (1 :: int32) AND ret) n \<longleftrightarrow> n = i \<and> bit ret i" for n using that by (auto simp: bit_simps)
  show ?thesis
  proof
    assume "push_bit i 1 AND ret = 0"
    then show "\<not> bit ret i" using b [of i] by simp
  next
    assume "\<not> bit ret i"
    then show "push_bit i 1 AND ret = 0" by (intro bit_eqI) (simp add: b)
  qed
qed

lemma lowest_bit_returns:
  assumes "bit ret j" and "i \<le> j"
  shows "\<exists>d. lowest_bit ret (push_bit i 1) = Some (push_bit d 1) \<and> d \<le> j \<and> bit ret d"
  using assms(2)
proof (induction "j - i" arbitrary: i rule: less_induct)
  case less
  have "j < 32" using assms(1) bit_imp_le_length [of ret j] by simp
  then have i: "push_bit i 1 AND ret = 0 \<longleftrightarrow> \<not> bit ret i" using less.prems by (intro and_push_bit) simp
  show ?case
  proof (cases "bit ret i")
    case True
    then show ?thesis using i less.prems by (subst lowest_bit.simps) auto
  next
    case False
    then have "i < j" using less.prems assms(1) by (metis le_neq_implies_less)
    then have "\<exists>d. lowest_bit ret (push_bit (Suc i) 1) = Some (push_bit d 1) \<and> d \<le> j \<and> bit ret d" by (intro less.hyps) auto
    moreover have "lowest_bit ret (push_bit i 1) = lowest_bit ret (push_bit (Suc i) 1)"
      using False i by (subst lowest_bit.simps) (simp add: push_bit_push_bit mult.commute)
    ultimately show ?thesis by simp
  qed
qed

text \<open>
  If exactly two numbers occur an odd number of times, \<open>singleNumbers\<close> ends and returns them, the smaller one first.\<close>

theorem single_numbers_correct:
  assumes odd: "odd_ones nums = {x, y}" and less: "sint x < sint y"
  shows "single_numbers nums = Some [x, y]"
proof -
  have "x \<noteq> y" using less by auto
  then have ret: "xor_all nums = x XOR y" by (rule xor_all_two [OF odd])
  have "x XOR y \<noteq> 0" using \<open>x \<noteq> y\<close> by (metis xor.assoc xor_self_eq xor.right_neutral xor.left_neutral)
  then obtain j where "bit (x XOR y) j" by (metis bit_eqI bit_0_eq bot_apply bot_bool_def)
  then obtain d where d: "lowest_bit (x XOR y) 1 = Some (push_bit d 1)" "bit (x XOR y) d"
    using lowest_bit_returns [of "x XOR y" j 0] by auto
  then have d32: "d < 32" using bit_imp_le_length [of "x XOR y" d] by simp
  have halves: "filter (\<lambda>n. push_bit d 1 AND n \<noteq> 0) nums = filter (\<lambda>n. bit n d) nums"
    "filter (\<lambda>n. push_bit d 1 AND n = 0) nums = filter (\<lambda>n. \<not> bit n d) nums"
    using and_push_bit [OF d32] by simp_all
  have split: "split_numbers (push_bit d 1) nums = (if bit x d then (x, y) else (y, x))"
  proof (cases "bit x d")
    case True
    then have "{z \<in> odd_ones nums. bit z d} = {x}" "{z \<in> odd_ones nums. \<not> bit z d} = {y}" using d(2) odd by (auto simp: bit_simps)
    then show ?thesis using True by (simp add: split_numbers_filter halves xor_all_single odd_ones_filter)
  next
    case False
    then have "{z \<in> odd_ones nums. bit z d} = {y}" "{z \<in> odd_ones nums. \<not> bit z d} = {x}" using d(2) odd by (auto simp: bit_simps)
    then show ?thesis using False by (simp add: split_numbers_filter halves xor_all_single odd_ones_filter)
  qed
  have "foldl (\<lambda>ret n. ret XOR n) 0 nums = x XOR y" using foldl_xor [of 0 nums] ret by simp
  then show ?thesis using d(1) less by (simp add: single_numbers_def split)
qed

theorem single_numbers_correct_witness:
  "single_numbers [5, 1, 7, 5, 7, -3] = Some [-3, 1]"
proof -
  have "count_list [5, 1, 7, 5, 7, -3 :: int32] z = (if z = 1 \<or> z = -3 then 1 else if z = 5 \<or> z = 7 then 2 else 0)" for z by simp
  then have "odd_ones [5, 1, 7, 5, 7, -3 :: int32] = {-3, 1}" by (auto simp: odd_ones_def split: if_splits)
  then show ?thesis by (rule single_numbers_correct) simp
qed

text \<open>If no number is without a partner, the search for a bit never ends.\<close>

lemma lowest_bit_zero: "lowest_bit 0 d = None"
proof -
  have "ret \<noteq> 0" if "lowest_bit ret d = Some y" for ret d y
    by (rule lowest_bit.raw_induct [where P = "\<lambda>ret d y. ret \<noteq> 0", OF _ that]) (auto split: if_splits)
  then show ?thesis by (cases "lowest_bit 0 d") auto
qed

lemma single_numbers_none_left: "odd_ones nums = {} \<Longrightarrow> single_numbers nums = None"
proof -
  assume "odd_ones nums = {}"
  then have "xor_all nums = 0" by (intro bit_eqI) (simp add: xor_all_odd_ones)
  then show ?thesis using foldl_xor [of 0 nums] by (simp add: single_numbers_def lowest_bit_zero)
qed

section \<open>One number among groups of equal ones\<close>

lemma count_bit_filter: "i < 32 \<Longrightarrow> count_bit nums i = length (filter (\<lambda>n. bit n i) nums)"
proof -
  assume i: "i < 32"
  have one: "unat (signed_drop_bit i n AND 1) = of_bool (bit n i)" for n :: int32
  proof -
    have "signed_drop_bit i n AND 1 = of_bool (bit n i)" using i by (intro bit_word_eqI) (auto simp: bit_simps bit_signed_drop_bit_iff)
    then show ?thesis by simp
  qed
  have "foldl (\<lambda>cnt num. cnt + unat (signed_drop_bit i num AND 1)) c nums = c + length (filter (\<lambda>n. bit n i) nums)" for c
    by (induction nums arbitrary: c) (auto simp: one)
  then show ?thesis by (simp add: count_bit_def)
qed

lemma count_bit_mod:
  assumes i: "i < 32" and x: "count_list nums x = 1" and others: "\<forall>y. y \<noteq> x \<longrightarrow> k dvd count_list nums y" and k: "2 \<le> k"
  shows "count_bit nums i mod k = of_bool (bit x i)"
proof -
  let ?B = "{y \<in> set nums. bit y i}"
  have "k dvd (\<Sum>y\<in>?B - {x}. count_list nums y)" using others by (intro dvd_sum) auto
  moreover have "x \<in> set nums" using x count_list_0_iff [of nums x] by force
  then have "(\<Sum>y\<in>?B. count_list nums y) = of_bool (bit x i) + (\<Sum>y\<in>?B - {x}. count_list nums y)"
    using x by (cases "bit x i") (simp_all add: sum.remove [of ?B x])
  ultimately show ?thesis using k unfolding count_bit_filter [OF i] length_filter_counts
    by (auto simp: mod_add_right_eq [symmetric, of _ "sum _ _"])
qed

lemma assemble_bits: "foldl (\<lambda>res i. res XOR push_bit i (of_bool (bit x i))) 0 [0..<n] = take_bit n (x :: int32)"
proof (induction n)
  case (Suc n)
  have "take_bit n x XOR push_bit n (of_bool (bit x n)) = take_bit (Suc n) x"
    by (intro bit_word_eqI) (auto simp: bit_simps less_Suc_eq)
  then show ?case using Suc by simp
qed simp

text \<open>
  If one number occurs once and the number of occurrences of every other one is a multiple of \<open>k\<close>, \<open>foundOnceNumber\<close> returns it.\<close>

theorem found_once_number_correct:
  assumes "count_list nums x = 1" and "\<forall>y. y \<noteq> x \<longrightarrow> k dvd count_list nums y" and "2 \<le> k"
  shows "found_once_number nums k = Some x"
proof -
  have "foldl (\<lambda>res i. res XOR push_bit i (of_nat (count_bit nums i mod k))) 0 [0..<32] =
      foldl (\<lambda>res i. res XOR push_bit i (of_bool (bit x i))) 0 [0..<32]"
    by (rule foldl_cong) (simp_all add: count_bit_mod [OF _ assms])
  also have "\<dots> = x" unfolding assemble_bits by (simp add: take_bit_word_eq_self)
  finally show ?thesis using assms(3) unfolding found_once_number_def by simp
qed

theorem found_once_number_correct_witness: "found_once_number [4, -9, 4, 4] 3 = Some (-9)"
  by (rule found_once_number_correct) (auto simp: numeral_3_eq_3)

end
