(* ===== verification/Calculator.thy ===== *)
theory Calculator
  imports ServerConfig "HOL-Library.Monad_Syntax"
begin

text \<open>
  The calculator \<open>solve\<close> of \<open>find_job/look_for_job.cpp\<close>, for numbers, \<open>+\<close>, \<open>-\<close>, \<open>*\<close> and parentheses.  Positions in the string are natural numbers;
  \<open>s[s.size()]\<close> is the null character, reading behind it is an error, and so are the top of an empty stack
  and a result of \<open>int\<close> arithmetic that does not fit into 32 bits.
\<close>

section \<open>The program\<close>

definition char_at :: "string \<Rightarrow> nat \<Rightarrow> char option" where
  "char_at s i = (if i < length s then Some (s ! i) else if i = length s then Some (CHR 0x00) else None)"

text \<open>The loop that looks for the matching parenthesis; it ends behind it.\<close>

function match_paren :: "string \<Rightarrow> nat \<Rightarrow> nat \<Rightarrow> nat option" where
  "match_paren s i count =
     (if count = 0 then Some i
      else do {
        c \<leftarrow> char_at s i;
        match_paren s (i + 1) (if c = CHR ''('' then count + 1 else if c = CHR '')'' then count - 1 else count) })"
  by pat_completeness auto
termination by (relation "measure (\<lambda>(s, i, count). length s + 1 - i)") (auto simp: char_at_def split: if_splits)

declare match_paren.simps [simp del]

lemma match_paren_0 [simp]: "match_paren s i 0 = Some i"
  by (simp add: match_paren.simps [of s i 0])

lemma match_paren_right: "match_paren s i count = Some j \<Longrightarrow> 0 < count \<Longrightarrow> i < j"
proof (induction s i count rule: match_paren.induct)
  case (1 s i count)
  let ?n = "\<lambda>c. if c = CHR ''('' then count + 1 else if c = CHR '')'' then count - 1 else count"
  obtain c where c: "char_at s i = Some c" "match_paren s (i + 1) (?n c) = Some j"
    using "1.prems" by (subst (asm) match_paren.simps) (auto split: bind_splits)
  show ?case
  proof (cases "?n c = 0")
    case True
    then show ?thesis using c(2) unfolding True by simp
  next
    case False
    then have "i + 1 < j" using "1.IH" [OF _ c(1) c(2)] "1.prems"(2) by simp
    then show ?thesis by simp
  qed
qed

text \<open>The position at which the number, or the parenthesis opened at \<open>i\<close>, ends.\<close>

definition operand_end :: "string \<Rightarrow> nat \<Rightarrow> nat option" where
  "operand_end s i = (if s ! i = CHR ''('' then map_option (\<lambda>j. j - 1) (match_paren s (i + 1) 1) else Some i)"

lemma operand_end_ge: "operand_end s i = Some j \<Longrightarrow> i \<le> j"
  by (auto simp: operand_end_def dest: match_paren_right split: if_splits)

text \<open>\<open>num = 10 * num + s[i] - '0'\<close>, from left to right.\<close>

definition append_digit :: "int \<Rightarrow> char \<Rightarrow> int option" where
  "append_digit num c = do { a \<leftarrow> i32 (10 * num); b \<leftarrow> i32 (a + int (of_char c)); i32 (b - 48) }"

definition settle :: "char \<Rightarrow> int \<Rightarrow> int list \<Rightarrow> int list option" where
  "settle sign num st =
     (if sign = CHR ''+'' then Some (num # st)
      else if sign = CHR ''-'' then do { x \<leftarrow> i32 (- num); Some (x # st) }
      else if sign = CHR ''*'' then (case st of [] \<Rightarrow> None | x # xs \<Rightarrow> do { y \<leftarrow> i32 (x * num); Some (y # xs) })
      else Some st)"

text \<open>The loop that empties the stack.\<close>

fun sum_stack :: "int \<Rightarrow> int list \<Rightarrow> int option" where
  "sum_stack res [] = Some res"
| "sum_stack res (x # st) = do { r \<leftarrow> i32 (res + x); sum_stack r st }"

function solve_loop :: "string \<Rightarrow> nat \<Rightarrow> int list \<Rightarrow> char \<Rightarrow> int \<Rightarrow> int option" where
  "solve_loop s i st sign num =
     (if i < length s
      then do {
        num1 \<leftarrow> (if is_digit (s ! i) then append_digit num (s ! i) else Some num);
        j \<leftarrow> operand_end s i;
        num2 \<leftarrow> (if s ! i = CHR ''('' then solve_loop (take (j - i - 1) (drop (i + 1) s)) 0 [] CHR ''+'' 0 else Some num1);
        c \<leftarrow> char_at s j;
        if j = length s - 1 \<or> c = CHR ''+'' \<or> c = CHR ''-'' \<or> c = CHR ''*''
        then do { st' \<leftarrow> settle sign num2 st; solve_loop s (j + 1) st' c 0 }
        else solve_loop s (j + 1) st sign num2 }
      else sum_stack 0 st)"
  by pat_completeness auto
termination
  by (relation "inv_image (less_than <*lex*> less_than) (\<lambda>(s, i, st, sign, num). (length s, length s - i))") (auto dest!: operand_end_ge)

declare solve_loop.simps [simp del]

definition solve :: "string \<Rightarrow> int option" where
  "solve s = solve_loop s 0 [] CHR ''+'' 0"

section \<open>Expressions\<close>

text \<open>A sum of signed products of factors; a factor is a number or a sum in parentheses.\<close>

datatype factor = Lit nat | Paren "(bool \<times> factor list) list"

definition sum_value :: "(bool \<times> int list) list \<Rightarrow> int" where
  "sum_value ts = sum_list (map (\<lambda>(neg, vs). if neg then - prod_list vs else prod_list vs) ts)"

text \<open>The operands in order, each with the operator in front of it.\<close>

definition operands :: "(bool \<times> 'a list) list \<Rightarrow> (char \<times> 'a) list" where
  "operands ts = concat (map (\<lambda>(neg, fs). (if neg then CHR ''-'' else CHR ''+'', hd fs) # map (Pair CHR ''*'') (tl fs)) ts)"

definition operands_text :: "(char \<times> string) list \<Rightarrow> string" where
  "operands_text xs = concat (map (\<lambda>(c, t). c # t) xs)"

text \<open>A plus in front of the first operand is not written.\<close>

definition sum_text :: "(bool \<times> string list) list \<Rightarrow> string" where
  "sum_text ts = (case operands_text (operands ts) of [] \<Rightarrow> [] | c # cs \<Rightarrow> if c = CHR ''+'' then cs else c # cs)"

primrec factor_value :: "factor \<Rightarrow> int" where
  "factor_value (Lit n) = int n"
| "factor_value (Paren ts) = sum_value (map (map_prod id (map factor_value)) ts)"

primrec factor_text :: "factor \<Rightarrow> string" where
  "factor_text (Lit n) = decimal n"
| "factor_text (Paren ts) = CHR ''('' # sum_text (map (map_prod id (map factor_text)) ts) @ CHR '')'' # []"

primrec factor_ok :: "factor \<Rightarrow> bool" where
  "factor_ok (Lit n) \<longleftrightarrow> True"
| "factor_ok (Paren ts) \<longleftrightarrow> ts \<noteq> [] \<and> (\<forall>(neg, oks)\<in>set (map (map_prod id (map factor_ok)) ts). oks \<noteq> [] \<and> (\<forall>ok\<in>set oks. ok))"

text \<open>
  A bound for all numbers that come up: the sum of the products of the absolute values, where a factor 0 counts as 1, since it does not keep the
  product before it small; and the literals leave room for the character code that is added before the code of zero is subtracted.
\<close>

definition sum_size :: "(bool \<times> int list) list \<Rightarrow> int" where
  "sum_size ts = sum_list (map (\<lambda>(neg, vs). prod_list vs) ts)"

primrec factor_size :: "factor \<Rightarrow> int" where
  "factor_size (Lit n) = max 1 (int n)"
| "factor_size (Paren ts) = max 1 (sum_size (map (map_prod id (map factor_size)) ts))"

primrec literals :: "factor \<Rightarrow> nat list" where
  "literals (Lit n) = [n]"
| "literals (Paren ts) = concat (map (concat \<circ> snd) (map (map_prod id (map literals)) ts))"

definition sum_ok :: "(bool \<times> factor list) list \<Rightarrow> bool" where
  "sum_ok ts \<longleftrightarrow> factor_ok (Paren ts)"

section \<open>Matching parentheses\<close>

text \<open>A text with matching parentheses, which the search for a parenthesis passes over.\<close>

definition passed :: "string \<Rightarrow> bool" where
  "passed t \<longleftrightarrow> (\<forall>pre post count. 0 < count \<longrightarrow>
     match_paren (pre @ t @ post) (length pre) count = match_paren (pre @ t @ post) (length pre + length t) count)"

lemma match_paren_char:
  assumes "0 < count"
  shows "match_paren (pre @ c # post) (length pre) count =
    match_paren (pre @ c # post) (Suc (length pre)) (if c = CHR ''('' then count + 1 else if c = CHR '')'' then count - 1 else count)"
  using assms by (subst match_paren.simps) (simp add: char_at_def)

lemma passedD:
  "passed t \<Longrightarrow> 0 < count \<Longrightarrow> match_paren (pre @ t @ post) (length pre) count = match_paren (pre @ t @ post) (length pre + length t) count"
  by (simp add: passed_def)

lemma passed_Nil: "passed []"
  by (simp add: passed_def)

lemma passed_append:
  assumes "passed a" and "passed b"
  shows "passed (a @ b)"
  unfolding passed_def
proof (intro allI impI)
  fix pre post :: string and count :: nat
  assume "0 < count"
  then show "match_paren (pre @ (a @ b) @ post) (length pre) count = match_paren (pre @ (a @ b) @ post) (length pre + length (a @ b)) count"
    using passedD [OF assms(1), of count pre "b @ post"] passedD [OF assms(2), of count "pre @ a" post] by (simp add: add.assoc)
qed

lemma passed_char: "c \<noteq> CHR ''('' \<Longrightarrow> c \<noteq> CHR '')'' \<Longrightarrow> passed [c]"
  by (simp add: passed_def match_paren_char)

lemma passed_chars: "\<forall>c\<in>set cs. c \<noteq> CHR ''('' \<and> c \<noteq> CHR '')'' \<Longrightarrow> passed cs"
proof (induction cs)
  case (Cons c cs)
  then show ?case using passed_append [of "[c]" cs] passed_char [of c] by simp
qed (simp add: passed_Nil)

lemma match_paren_closes:
  assumes "passed t" and "0 < count"
  shows "match_paren (pre @ CHR ''('' # t @ CHR '')'' # post) (Suc (length pre)) count =
    match_paren (pre @ CHR ''('' # t @ CHR '')'' # post) (length pre + length t + 2) (count - 1)"
proof -
  have "match_paren (pre @ CHR ''('' # t @ CHR '')'' # post) (Suc (length pre)) count =
      match_paren (pre @ CHR ''('' # t @ CHR '')'' # post) (Suc (length pre) + length t) count"
    using passedD [OF assms, of "pre @ [CHR ''('']" "CHR '')'' # post"] by simp
  also have "\<dots> = match_paren (pre @ CHR ''('' # t @ CHR '')'' # post) (length pre + length t + 2) (count - 1)"
    using match_paren_char [OF assms(2), of "pre @ CHR ''('' # t" "CHR '')''" post] by simp
  finally show ?thesis .
qed

lemma passed_paren: "passed t \<Longrightarrow> passed (CHR ''('' # t @ [CHR '')''])"
  unfolding passed_def [of "CHR ''('' # t @ [CHR '')'']"]
  using match_paren_closes [of t] by (auto simp: match_paren_char add.commute)

section \<open>Steps of the loop\<close>

definition operator :: "char \<Rightarrow> bool" where
  "operator c \<longleftrightarrow> c = CHR ''+'' \<or> c = CHR ''-'' \<or> c = CHR ''*''"

lemma digit_no_operator: "is_digit d \<Longrightarrow> d \<noteq> CHR ''('' \<and> d \<noteq> CHR '')'' \<and> \<not> operator d"
  by (auto simp: is_digit_def operator_def)

lemma operator_no_digit: "operator c \<Longrightarrow> \<not> is_digit c \<and> c \<noteq> CHR ''('' \<and> c \<noteq> CHR '')''"
  by (auto simp: is_digit_def operator_def)

lemma step_end [simp]: "solve_loop s (length s) st sign num = sum_stack 0 st"
  by (subst solve_loop.simps) simp

lemma step_digit:
  assumes "is_digit d" and "post \<noteq> []"
  shows "solve_loop (pre @ d # post) (length pre) st sign num =
    do { v \<leftarrow> append_digit num d; solve_loop (pre @ d # post) (Suc (length pre)) st sign v }"
  using assms digit_no_operator [OF assms(1)] by (subst solve_loop.simps) (auto simp: operand_end_def char_at_def operator_def)

lemma step_last_digit:
  assumes "is_digit d"
  shows "solve_loop (pre @ [d]) (length pre) st sign num = do { v \<leftarrow> append_digit num d; st' \<leftarrow> settle sign v st; sum_stack 0 st' }"
  using assms digit_no_operator [OF assms] step_end [of "pre @ [d]"]
  by (subst solve_loop.simps) (auto simp: operand_end_def char_at_def operator_def)

lemma step_operator:
  assumes "operator c"
  shows "solve_loop (pre @ c # post) (length pre) st sign num =
    do { st' \<leftarrow> settle sign num st; solve_loop (pre @ c # post) (Suc (length pre)) st' c 0 }"
  using assms operator_no_digit [OF assms] by (subst solve_loop.simps) (auto simp: operand_end_def char_at_def operator_def)

lemma step_paren:
  assumes "passed t"
  shows "post \<noteq> [] \<Longrightarrow> solve_loop (pre @ CHR ''('' # t @ CHR '')'' # post) (length pre) st sign num =
      do { v \<leftarrow> solve t; solve_loop (pre @ CHR ''('' # t @ CHR '')'' # post) (length pre + length t + 2) st sign v }"
    and "solve_loop (pre @ CHR ''('' # t @ [CHR '')'']) (length pre) st sign num = do { v \<leftarrow> solve t; st' \<leftarrow> settle sign v st; sum_stack 0 st' }"
proof -
  have e: "operand_end (pre @ CHR ''('' # t @ CHR '')'' # post) (length pre) = Some (length pre + length t + 1)" for post
    using match_paren_closes [OF assms(1), of 1 pre post] by (simp add: operand_end_def)
  have c: "char_at (pre @ CHR ''('' # t @ CHR '')'' # post) (Suc (length pre + length t)) = Some (CHR '')'')" for post
    by (simp add: char_at_def nth_append)
  have d: "\<not> is_digit CHR ''(''" by (simp add: is_digit_def)
  show "solve_loop (pre @ CHR ''('' # t @ CHR '')'' # post) (length pre) st sign num =
      do { v \<leftarrow> solve t; solve_loop (pre @ CHR ''('' # t @ CHR '')'' # post) (length pre + length t + 2) st sign v }" if "post \<noteq> []"
    using that by (subst solve_loop.simps) (simp add: e c d solve_def)
  show "solve_loop (pre @ CHR ''('' # t @ [CHR '')'']) (length pre) st sign num = do { v \<leftarrow> solve t; st' \<leftarrow> settle sign v st; sum_stack 0 st' }"
    using step_end [of "pre @ CHR ''('' # t @ [CHR '')'']"]
    by (subst solve_loop.simps) (simp add: e [of "[]", simplified] c [of "[]", simplified] d solve_def)
qed

section \<open>Operands\<close>

text \<open>The loop reads a text as an operand with a result, at the end of the string or in front of an operator.\<close>

definition reads :: "string \<Rightarrow> int option \<Rightarrow> bool" where
  "reads t r \<longleftrightarrow> t \<noteq> [] \<and> passed t \<and>
     (\<forall>pre st sign. solve_loop (pre @ t) (length pre) st sign 0 = do { v \<leftarrow> r; st' \<leftarrow> settle sign v st; sum_stack 0 st' }) \<and>
     (\<forall>pre c post st sign. operator c \<longrightarrow>
        solve_loop (pre @ t @ c # post) (length pre) st sign 0 = do { v \<leftarrow> r; solve_loop (pre @ t @ c # post) (length pre + length t) st sign v })"

lemma readsD:
  assumes "reads t r"
  shows "solve_loop (pre @ t) (length pre) st sign 0 = do { v \<leftarrow> r; st' \<leftarrow> settle sign v st; sum_stack 0 st' }"
    and "operator c \<Longrightarrow>
      solve_loop (pre @ t @ c # post) (length pre) st sign 0 = do { v \<leftarrow> r; solve_loop (pre @ t @ c # post) (length pre + length t) st sign v }"
    and "t \<noteq> []" and "passed t"
  using assms unfolding reads_def by blast+

fun read_digits :: "int \<Rightarrow> string \<Rightarrow> int option" where
  "read_digits num [] = Some num"
| "read_digits num (d # ds) = do { v \<leftarrow> append_digit num d; read_digits v ds }"

lemma digits_run:
  "list_all is_digit ds \<Longrightarrow> post \<noteq> [] \<Longrightarrow>
   solve_loop (pre @ ds @ post) (length pre) st sign num = do { v \<leftarrow> read_digits num ds; solve_loop (pre @ ds @ post) (length pre + length ds) st sign v }"
proof (induction ds arbitrary: pre num)
  case (Cons d ds)
  then show ?case using step_digit [of d "ds @ post" pre] Cons.IH [of "pre @ [d]"] by (cases "append_digit num d") simp_all
qed simp

lemma read_digits_snoc: "read_digits num (ds @ [d]) = do { v \<leftarrow> read_digits num ds; append_digit v d }"
  by (induction num ds rule: read_digits.induct) (auto split: bind_splits)

lemma reads_digits:
  assumes "list_all is_digit ds" and "ds \<noteq> []"
  shows "reads ds (read_digits 0 ds)"
proof -
  obtain ds' d where ds: "ds = ds' @ [d]" using assms(2) by (metis rev_exhaust)
  have "solve_loop (pre @ ds) (length pre) st sign 0 = do { v \<leftarrow> read_digits 0 ds; st' \<leftarrow> settle sign v st; sum_stack 0 st' }" for pre st sign
  proof -
    have "solve_loop (pre @ ds' @ [d]) (length pre) st sign 0 =
        do { v \<leftarrow> read_digits 0 ds'; solve_loop ((pre @ ds') @ [d]) (length (pre @ ds')) st sign v }"
      using digits_run [of ds' "[d]" pre] assms(1) ds by simp
    then show ?thesis using step_last_digit [of d "pre @ ds'"] assms(1) by (simp add: ds read_digits_snoc)
  qed
  moreover have "passed ds" using assms(1) digit_no_operator by (intro passed_chars) (auto simp: list_all_iff)
  ultimately show ?thesis using assms digits_run by (simp add: reads_def)
qed

lemma reads_paren:
  assumes "passed t"
  shows "reads (CHR ''('' # t @ [CHR '')'']) (solve t)"
  using step_paren [OF assms] passed_paren [OF assms(1)] by (simp add: reads_def)

fun settle_all :: "(char \<times> string \<times> int option) list \<Rightarrow> int list \<Rightarrow> int list option" where
  "settle_all [] st = Some st"
| "settle_all ((c, t, r) # zs) st = do { v \<leftarrow> r; st' \<leftarrow> settle c v st; settle_all zs st' }"

abbreviation triples_text :: "(char \<times> string \<times> int option) list \<Rightarrow> string" where
  "triples_text zs \<equiv> operands_text (map (\<lambda>(c, t, r). (c, t)) zs)"

lemma operands_run:
  assumes "\<forall>(c, t, r)\<in>set zs. operator c \<and> reads t r" and "reads t0 r0"
  shows "solve_loop (pre @ t0 @ triples_text zs) (length pre) st sign 0 =
    do { v0 \<leftarrow> r0; st1 \<leftarrow> settle sign v0 st; st2 \<leftarrow> settle_all zs st1; sum_stack 0 st2 }"
  using assms
proof (induction zs arbitrary: pre t0 r0 st sign)
  case Nil
  then show ?case using readsD(1) by (simp add: operands_text_def)
next
  case (Cons z zs)
  obtain c t r where z: "z = (c, t, r)" by (cases z)
  let ?s = "pre @ t0 @ c # t @ triples_text zs"
  have "solve_loop ?s (length pre) st sign 0 = do { v0 \<leftarrow> r0; solve_loop ?s (length (pre @ t0)) st sign v0 }"
    using readsD(2) [OF Cons.prems(2)] Cons.prems(1) by (simp add: z)
  also have "\<dots> = do { v0 \<leftarrow> r0; st' \<leftarrow> settle sign v0 st; solve_loop ?s (length (pre @ t0 @ [c])) st' c 0 }"
    using step_operator [of c "pre @ t0" "t @ triples_text zs"] Cons.prems by (simp add: z)
  also have "\<dots> = do { v0 \<leftarrow> r0; st' \<leftarrow> settle sign v0 st; v \<leftarrow> r; st1 \<leftarrow> settle c v st'; st2 \<leftarrow> settle_all zs st1; sum_stack 0 st2 }"
    using Cons.IH [of t r "pre @ t0 @ [c]"] Cons.prems by (simp add: z)
  finally show ?case by (simp add: z operands_text_def)
qed

section \<open>Sums\<close>

lemma operator_plus [simp]: "operator CHR ''+''" "operator CHR ''-''" "operator CHR ''*''"
  by (simp_all add: operator_def)

lemma operands_Cons:
  "operands ((neg, f # fs) # ts) = (if neg then CHR ''-'' else CHR ''+'', f) # map (Pair CHR ''*'') fs @ operands ts"
  by (simp add: operands_def)

lemma operands_ok:
  assumes "\<forall>(neg, ps)\<in>set ts. ps \<noteq> [] \<and> (\<forall>(t, r)\<in>set ps. reads t r)"
  shows "\<forall>(c, t, r)\<in>set (operands ts). operator c \<and> reads t r"
proof -
  have "operator c \<and> reads t r" if m: "(c, t, r) \<in> set (operands ts)" for c t r
  proof -
    obtain neg ps where ps: "(neg, ps) \<in> set ts"
      "(c, t, r) = (if neg then CHR ''-'' else CHR ''+'', hd ps) \<or> c = CHR ''*'' \<and> (t, r) \<in> set (tl ps)"
      using m by (auto simp: operands_def)
    then have "ps \<noteq> []" "\<forall>(t, r)\<in>set ps. reads t r" using assms by auto
    then show ?thesis using ps(2) by (cases ps) auto
  qed
  then show ?thesis by blast
qed

lemma operands_passed: "\<forall>(c, t, r)\<in>set zs. operator c \<and> reads t r \<Longrightarrow> passed (triples_text zs)"
proof (induction zs)
  case (Cons z zs)
  obtain c t r where z: "z = (c, t, r)" by (cases z)
  have "passed [c]" using Cons.prems operator_no_digit by (intro passed_char) (auto simp: z)
  then have "passed ([c] @ t @ triples_text zs)"
    using Cons readsD(4) [of t r] by (intro passed_append) (auto simp: z)
  then show ?case by (simp add: z operands_text_def)
qed (simp add: operands_text_def passed_Nil)

lemma operands_map: "\<forall>(neg, ps)\<in>set ts. ps \<noteq> [] \<Longrightarrow> operands (map (map_prod id (map f)) ts) = map (map_prod id f) (operands ts)"
  by (induction ts) (auto simp: operands_def hd_map map_tl comp_def)

text \<open>The run over a sum; the stack is empty in front of it, or holds the 0 that a minus at the beginning puts there.\<close>

lemma settle_0: "settle CHR ''+'' 0 st = Some (0 # st)"
  by (simp add: settle_def)

lemma solve_sum:
  assumes ts: "ts \<noteq> []" and ok: "\<forall>(neg, ps)\<in>set ts. ps \<noteq> [] \<and> (\<forall>(t, r)\<in>set ps. reads t r)"
  shows "\<exists>st \<in> {[], [0]}. solve (sum_text (map (map_prod id (map fst)) ts)) = do { st' \<leftarrow> settle_all (operands ts) st; sum_stack 0 st' }"
    and "passed (sum_text (map (map_prod id (map fst)) ts))"
proof -
  have ne: "\<forall>(neg, ps)\<in>set ts. ps \<noteq> []" using ok by auto
  obtain neg t r ps ts' where "ts = (neg, (t, r) # ps) # ts'" using ts ne by (cases ts) (auto simp: neq_Nil_conv)
  then obtain zs where zs: "operands ts = (if neg then CHR ''-'' else CHR ''+'', t, r) # zs" by (simp add: operands_Cons)
  note tok = operands_ok [OF ok, unfolded zs]
  have tx: "sum_text (map (map_prod id (map fst)) ts) = (if neg then CHR ''-'' # t @ triples_text zs else t @ triples_text zs)"
    unfolding sum_text_def operands_map [OF ne] zs by (simp add: operands_text_def case_prod_beta' comp_def)
  have run: "solve_loop (pre @ t @ triples_text zs) (length pre) st1 sign 0 =
      do { v \<leftarrow> r; st' \<leftarrow> settle sign v st1; st2 \<leftarrow> settle_all zs st'; sum_stack 0 st2 }" for pre st1 sign
    using tok by (intro operands_run) auto
  show "\<exists>st \<in> {[], [0]}. solve (sum_text (map (map_prod id (map fst)) ts)) = do { st' \<leftarrow> settle_all (operands ts) st; sum_stack 0 st' }"
  proof (cases neg)
    case False
    then show ?thesis using run [of "[]" "[]" "CHR ''+''"] by (intro bexI [of _ "[]"]) (simp_all add: solve_def tx zs)
  next
    case True
    have "solve_loop (CHR ''-'' # t @ triples_text zs) 0 [] CHR ''+'' 0 = solve_loop (CHR ''-'' # t @ triples_text zs) (Suc 0) [0] CHR ''-'' 0"
      using step_operator [of "CHR ''-''" "[]" "t @ triples_text zs" "[]" "CHR ''+''" 0] by (simp add: settle_0)
    then show ?thesis using run [of "''-''" "[0]" "CHR ''-''"] True by (intro bexI [of _ "[0]"]) (simp_all add: solve_def tx zs)
  qed
  have "passed (t @ triples_text zs)" using tok readsD(4) [of t r] by (intro passed_append operands_passed) auto
  then show "passed (sum_text (map (map_prod id (map fst)) ts))"
    unfolding tx using passed_append [OF passed_char [of "CHR ''-''"], of "t @ triples_text zs"] by simp
qed

section \<open>Results\<close>

primrec factor_result :: "factor \<Rightarrow> int option" where
  "factor_result (Lit n) = read_digits 0 (decimal n)"
| "factor_result (Paren ts) = solve (sum_text (map (map_prod id (map factor_text)) ts))"

text \<open>The run over the operands, with the results of the factors.\<close>

fun settle_factors :: "(char \<times> factor) list \<Rightarrow> int list \<Rightarrow> int list option" where
  "settle_factors [] st = Some st"
| "settle_factors ((c, f) # zs) st = do { v \<leftarrow> factor_result f; st' \<leftarrow> settle c v st; settle_factors zs st' }"

lemma settle_factors_append: "settle_factors (xs @ ys) st = do { st' \<leftarrow> settle_factors xs st; settle_factors ys st' }"
  by (induction xs st rule: settle_factors.induct) (auto split: bind_splits)

lemma settle_factors_all: "settle_all (map (map_prod id (\<lambda>f. (factor_text f, factor_result f))) zs) st = settle_factors zs st"
  by (induction zs st rule: settle_factors.induct) (auto split: bind_splits)

lemma sum_ok_iff: "sum_ok ts \<longleftrightarrow> ts \<noteq> [] \<and> (\<forall>(neg, fs)\<in>set ts. fs \<noteq> [] \<and> (\<forall>f\<in>set fs. factor_ok f))"
  by (fastforce simp: sum_ok_def)

lemma sum_run:
  assumes ok: "sum_ok ts" and rd: "\<And>neg fs f. (neg, fs) \<in> set ts \<Longrightarrow> f \<in> set fs \<Longrightarrow> reads (factor_text f) (factor_result f)"
  shows "\<exists>st \<in> {[], [0]}. factor_result (Paren ts) = do { st' \<leftarrow> settle_factors (operands ts) st; sum_stack 0 st' }"
    and "passed (sum_text (map (map_prod id (map factor_text)) ts))"
proof -
  let ?ps = "map (map_prod id (map (\<lambda>f. (factor_text f, factor_result f)))) ts"
  have ne: "\<forall>(neg, fs)\<in>set ts. fs \<noteq> []" using ok unfolding sum_ok_iff by auto
  have "?ps \<noteq> []" "\<forall>(neg, ps)\<in>set ?ps. ps \<noteq> [] \<and> (\<forall>(t, r)\<in>set ps. reads t r)"
    using ok rd unfolding sum_ok_iff by fastforce+
  note S = solve_sum [OF this]
  have tx: "map (map_prod id (map fst)) ?ps = map (map_prod id (map factor_text)) ts" by (simp add: comp_def prod.map_comp id_def)
  show "\<exists>st \<in> {[], [0]}. factor_result (Paren ts) = do { st' \<leftarrow> settle_factors (operands ts) st; sum_stack 0 st' }"
    "passed (sum_text (map (map_prod id (map factor_text)) ts))"
    using S unfolding tx operands_map [OF ne] settle_factors_all by simp_all
qed

lemma factor_reads: "factor_ok f \<Longrightarrow> reads (factor_text f) (factor_result f)"
proof (induction f)
  case (Lit n)
  then show ?case using reads_digits [of "decimal n"] decimal_digits [of n] by simp
next
  case (Paren ts)
  have ok: "sum_ok ts" using Paren.prems by (simp only: sum_ok_def)
  have "reads (factor_text f) (factor_result f)" if "(neg, fs) \<in> set ts" "f \<in> set fs" for neg fs f
    using Paren.IH [OF that(1) _ that(2)] ok that unfolding sum_ok_iff by fastforce
  from sum_run(2) [OF ok this] show ?case unfolding factor_text.simps factor_result.simps by (rule reads_paren)
qed

lemma sum_result:
  assumes "sum_ok ts"
  obtains st where "sum_list st = 0" "sum_list (map abs st) = 0"
    "factor_result (Paren ts) = do { st' \<leftarrow> settle_factors (operands ts) st; sum_stack 0 st' }"
proof -
  have rd: "reads (factor_text f) (factor_result f)" if "(neg, fs) \<in> set ts" "f \<in> set fs" for neg fs f
    using assms that factor_reads unfolding sum_ok_iff by blast
  have "\<exists>st \<in> {[], [0]}. factor_result (Paren ts) = do { st' \<leftarrow> settle_factors (operands ts) st; sum_stack 0 st' }"
    by (rule sum_run(1) [OF assms]) (rule rd)
  then show thesis using that [of "[]"] that [of "[0]"] by auto
qed

subsection \<open>What is returned is the value\<close>

lemma append_digit_value: "is_digit d \<Longrightarrow> append_digit num d = Some v \<Longrightarrow> v = 10 * num + int (digit_value d)"
  by (auto simp: append_digit_def i32_Some_iff is_digit_def digit_value_def split: bind_splits)

lemma read_digits_value:
  "list_all is_digit ds \<Longrightarrow> read_digits num ds = Some v \<Longrightarrow> v = foldl (\<lambda>n d. 10 * n + int (digit_value d)) num ds"
  by (induction num ds rule: read_digits.induct) (auto dest: append_digit_value split: bind_splits)

lemma foldl_digits: "foldl (\<lambda>n d. 10 * n + int (digit_value d)) 0 ds = int (digits_value ds)"
  by (induction ds rule: rev_induct) (simp_all add: digits_value_def)

lemma sum_stack_value: "sum_stack r st = Some v \<Longrightarrow> v = r + sum_list st"
  by (induction r st rule: sum_stack.induct) (auto simp: i32_Some_iff split: bind_splits)

lemma settle_value:
  "settle CHR ''+'' v st = Some st' \<Longrightarrow> st' = v # st" "settle CHR ''-'' v st = Some st' \<Longrightarrow> st' = - v # st"
  "settle CHR ''*'' v (x # st) = Some st' \<Longrightarrow> st' = x * v # st"
  by (auto simp: settle_def i32_Some_iff split: bind_splits)

lemma product_value:
  assumes "\<And>f v. f \<in> set fs \<Longrightarrow> factor_result f = Some v \<Longrightarrow> v = factor_value f"
    and "settle_factors (map (Pair CHR ''*'') fs) (x # st) = Some st'"
  shows "st' = x * prod_list (map factor_value fs) # st"
  using assms
proof (induction fs arbitrary: x)
  case (Cons f fs)
  obtain v st1 where "factor_result f = Some v" "settle CHR ''*'' v (x # st) = Some st1" "settle_factors (map (Pair CHR ''*'') fs) st1 = Some st'"
    using Cons.prems(2) by (auto split: bind_splits)
  then show ?case using Cons.IH [of "x * v"] Cons.prems(1) settle_value(3) by (auto simp: mult.assoc)
qed simp

lemma term_value:
  assumes "\<And>f v. f \<in> set fs \<Longrightarrow> factor_result f = Some v \<Longrightarrow> v = factor_value f" and "fs \<noteq> []"
    and "settle_factors (operands [(neg, fs)]) st = Some st'"
  shows "st' = (if neg then - prod_list (map factor_value fs) else prod_list (map factor_value fs)) # st"
proof -
  obtain f gs where fs: "fs = f # gs" using assms(2) by (cases fs) auto
  obtain v st1 where v: "factor_result f = Some v" "settle (if neg then CHR ''-'' else CHR ''+'') v st = Some st1"
    "settle_factors (map (Pair CHR ''*'') gs) st1 = Some st'"
    using assms(3) by (auto simp: fs operands_def split: bind_splits)
  have "st1 = (if neg then - v else v) # st" using v(2) settle_value(1,2) by (cases neg) auto
  then have "st' = (if neg then - v else v) * prod_list (map factor_value gs) # st" using product_value [of gs] assms(1) v(3) by (simp add: fs)
  moreover have "v = factor_value f" using assms(1) v(1) by (simp add: fs)
  ultimately show ?thesis by (simp add: fs)
qed

lemma operands_value:
  assumes "\<And>neg fs f v. (neg, fs) \<in> set ts \<Longrightarrow> f \<in> set fs \<Longrightarrow> factor_result f = Some v \<Longrightarrow> v = factor_value f" and "\<forall>(neg, fs)\<in>set ts. fs \<noteq> []"
    and "settle_factors (operands ts) st = Some st'"
  shows "sum_list st' = sum_list st + sum_value (map (map_prod id (map factor_value)) ts)"
  using assms
proof (induction ts arbitrary: st)
  case Nil
  then show ?case by (simp add: operands_def sum_value_def)
next
  case (Cons x ts)
  obtain neg fs where x: "x = (neg, fs)" by (cases x)
  have "operands (x # ts) = operands [x] @ operands ts" by (simp add: operands_def)
  then obtain st1 where st1: "settle_factors (operands [x]) st = Some st1" "settle_factors (operands ts) st1 = Some st'"
    using Cons.prems(3) by (auto simp: settle_factors_append split: bind_splits)
  have "st1 = (if neg then - prod_list (map factor_value fs) else prod_list (map factor_value fs)) # st"
    using Cons.prems(1,2) st1(1) by (intro term_value) (auto simp: x)
  moreover have "sum_list st' = sum_list st1 + sum_value (map (map_prod id (map factor_value)) ts)"
    using Cons.prems(1,2) st1(2) by (intro Cons.IH) auto
  ultimately show ?case by (simp add: sum_value_def x id_def)
qed

lemma factor_result_value: "factor_ok f \<Longrightarrow> factor_result f = Some v \<Longrightarrow> v = factor_value f"
proof (induction f arbitrary: v)
  case (Lit n)
  then show ?case using read_digits_value [of "decimal n" 0 v] decimal_digits [of n] by (simp add: foldl_digits)
next
  case (Paren ts)
  have ok: "sum_ok ts" using Paren.prems(1) by (simp only: sum_ok_def)
  have IH: "v = factor_value f" if "(neg, fs) \<in> set ts" "f \<in> set fs" "factor_result f = Some v" for neg fs f v
    using Paren.IH [OF that(1) _ that(2) _ that(3)] ok that unfolding sum_ok_iff by fastforce
  obtain st where st: "sum_list st = 0" "factor_result (Paren ts) = do { st' \<leftarrow> settle_factors (operands ts) st; sum_stack 0 st' }"
    using sum_result [OF ok] by blast
  obtain st' where st': "settle_factors (operands ts) st = Some st'" "sum_stack 0 st' = Some v"
    using Paren.prems(2) st(2) by (auto split: bind_splits)
  have "sum_list st' = sum_list st + sum_value (map (map_prod id (map factor_value)) ts)"
    using IH ok st'(1) unfolding sum_ok_iff by (intro operands_value) blast+
  then show ?case using sum_stack_value [OF st'(2)] st(1) by simp
qed

subsection \<open>When it is returned\<close>

lemma append_digit_fits:
  assumes "is_digit d" and "0 \<le> num" and "10 * num + int (digit_value d) + 48 < 2 ^ 31"
  shows "append_digit num d = Some (10 * num + int (digit_value d))"
proof -
  have d: "int (of_char d) = int (digit_value d) + 48" using assms(1) by (simp add: is_digit_def digit_value_def)
  have "fits_i32 (10 * num)" "fits_i32 (10 * num + int (of_char d))" "fits_i32 (10 * num + int (digit_value d))"
    using assms(2,3) by (simp_all add: fits_i32_def d)
  then show ?thesis by (simp add: append_digit_def d)
qed

lemma read_digits_fits:
  "list_all is_digit ds \<Longrightarrow> int (digits_value ds) + 48 < 2 ^ 31 \<Longrightarrow> read_digits 0 ds = Some (int (digits_value ds))"
proof (induction ds rule: rev_induct)
  case Nil
  then show ?case by (simp add: digits_value_def)
next
  case (snoc d ds)
  then show ?case using append_digit_fits [of d "int (digits_value ds)"] by (simp add: read_digits_snoc)
qed

lemma sum_stack_fits: "\<bar>r\<bar> + sum_list (map abs st) < 2 ^ 31 \<Longrightarrow> sum_stack r st = Some (r + sum_list st)"
proof (induction r st rule: sum_stack.induct)
  case (2 r x st)
  have "0 \<le> sum_list (map abs st)" by (rule sum_list_nonneg) auto
  then have b: "\<bar>r + x\<bar> < 2 ^ 31" "\<bar>r + x\<bar> + sum_list (map abs st) < 2 ^ 31" using "2.prems" by simp_all
  then show ?case using "2.IH" [of "r + x"] by (simp add: fits_i32_abs add.assoc)
qed simp

definition bounded :: "factor \<Rightarrow> bool" where
  "bounded f \<longleftrightarrow> factor_result f = Some (factor_value f) \<and> \<bar>factor_value f\<bar> \<le> factor_size f"

lemma size_ge_1: "1 \<le> factor_size f"
  by (cases f) simp_all

lemma prod_sizes: "1 \<le> prod_list (map factor_size fs)"
proof (induction fs)
  case (Cons f fs)
  then have "1 * 1 \<le> factor_size f * prod_list (map factor_size fs)" using size_ge_1 [of f] by (intro mult_mono) auto
  then show ?case by simp
qed simp

lemma le_prod_sizes: "f \<in> set fs \<Longrightarrow> factor_size f \<le> prod_list (map factor_size fs)"
proof (induction fs)
  case (Cons g fs)
  have "factor_size g * 1 \<le> factor_size g * prod_list (map factor_size fs)" using prod_sizes [of fs] size_ge_1 [of g] by (intro mult_left_mono) simp_all
  moreover have "1 * prod_list (map factor_size fs) \<le> factor_size g * prod_list (map factor_size fs)"
    using prod_sizes [of fs] size_ge_1 [of g] by (intro mult_right_mono) simp_all
  ultimately show ?case using Cons by auto
qed simp

lemma le_sum_size: "(neg, fs) \<in> set ts \<Longrightarrow> prod_list (map factor_size fs) \<le> sum_size (map (map_prod id (map factor_size)) ts)"
proof -
  assume m: "(neg, fs) \<in> set ts"
  let ?xs = "map (\<lambda>(neg, fs). prod_list (map factor_size fs)) ts"
  have "prod_list (map factor_size fs) \<le> sum_list ?xs"
  proof (rule member_le_sum_list)
    show "prod_list (map factor_size fs) \<in> set ?xs" using m by force
    show "\<And>x. x \<in> set ?xs \<Longrightarrow> 0 \<le> x" using order_trans [OF zero_le_one prod_sizes] by auto
  qed
  moreover have "sum_size (map (map_prod id (map factor_size)) ts) = sum_list ?xs" by (simp add: sum_size_def comp_def case_prod_beta')
  ultimately show ?thesis by simp
qed

lemma product_fits:
  assumes "\<forall>f \<in> set fs. bounded f" and "\<bar>x\<bar> * prod_list (map factor_size fs) < 2 ^ 31"
  shows "\<exists>y. settle_factors (map (Pair CHR ''*'') fs) (x # st) = Some (y # st) \<and> \<bar>y\<bar> \<le> \<bar>x\<bar> * prod_list (map factor_size fs)"
  using assms
proof (induction fs arbitrary: x)
  case (Cons f fs)
  let ?v = "factor_value f" and ?P = "prod_list (map factor_size fs)"
  have f: "factor_result f = Some ?v" "\<bar>?v\<bar> \<le> factor_size f" using Cons.prems(1) by (simp_all add: bounded_def)
  have P: "1 \<le> ?P" by (rule prod_sizes)
  have xv: "\<bar>x * ?v\<bar> \<le> \<bar>x\<bar> * factor_size f" unfolding abs_mult using f(2) by (intro mult_left_mono) simp_all
  then have le: "\<bar>x * ?v\<bar> * ?P \<le> \<bar>x\<bar> * (factor_size f * ?P)" using P by (simp add: mult.assoc [symmetric] mult_right_mono)
  then have b: "\<bar>x * ?v\<bar> * ?P < 2 ^ 31" using Cons.prems(2) by simp
  have "\<bar>x * ?v\<bar> * 1 \<le> \<bar>x * ?v\<bar> * ?P" using P by (intro mult_left_mono) simp_all
  then have "\<bar>x * ?v\<bar> < 2 ^ 31" using b by simp
  then have s: "settle CHR ''*'' ?v (x # st) = Some (x * ?v # st)" by (simp add: settle_def fits_i32_abs)
  obtain y where "settle_factors (map (Pair CHR ''*'') fs) (x * ?v # st) = Some (y # st)" "\<bar>y\<bar> \<le> \<bar>x * ?v\<bar> * ?P"
    using Cons.IH [OF _ b] Cons.prems(1) by auto
  then show ?case using f(1) s le by auto
qed simp

lemma term_fits:
  assumes "\<forall>f \<in> set fs. bounded f" and "fs \<noteq> []" and "prod_list (map factor_size fs) < 2 ^ 31"
  shows "\<exists>y. settle_factors (operands [(neg, fs)]) st = Some (y # st) \<and> \<bar>y\<bar> \<le> prod_list (map factor_size fs)"
proof -
  obtain f gs where fs: "fs = f # gs" using assms(2) by (cases fs) auto
  let ?v = "factor_value f" and ?w = "if neg then - factor_value f else factor_value f"
  have f: "factor_result f = Some ?v" "\<bar>?v\<bar> \<le> factor_size f" using assms(1) by (simp_all add: fs bounded_def)
  have P: "1 \<le> prod_list (map factor_size gs)" by (rule prod_sizes)
  have le: "\<bar>?w\<bar> * prod_list (map factor_size gs) \<le> prod_list (map factor_size fs)" using f(2) P by (simp add: fs mult_right_mono)
  then have b: "\<bar>?w\<bar> * prod_list (map factor_size gs) < 2 ^ 31" using assms(3) by simp
  have "\<bar>?w\<bar> * 1 \<le> \<bar>?w\<bar> * prod_list (map factor_size gs)" using P by (intro mult_left_mono) simp_all
  then have "\<bar>?v\<bar> < 2 ^ 31" using b by (simp split: if_splits)
  then have s: "settle (if neg then CHR ''-'' else CHR ''+'') ?v st = Some (?w # st)" by (simp add: settle_def fits_i32_abs)
  obtain y where y: "settle_factors (map (Pair CHR ''*'') gs) (?w # st) = Some (y # st)" "\<bar>y\<bar> \<le> \<bar>?w\<bar> * prod_list (map factor_size gs)"
    using product_fits [OF _ b] assms(1) by (auto simp: fs)
  have "settle_factors (operands [(neg, fs)]) st = Some (y # st)" using f(1) s y(1) by (simp add: fs operands_def)
  then show ?thesis using y(2) le by fastforce
qed

lemma operands_fits:
  assumes "\<forall>(neg, fs) \<in> set ts. fs \<noteq> [] \<and> (\<forall>f \<in> set fs. bounded f)" and "sum_size (map (map_prod id (map factor_size)) ts) < 2 ^ 31"
  shows "\<exists>st'. settle_factors (operands ts) st = Some st' \<and>
    sum_list (map abs st') \<le> sum_list (map abs st) + sum_size (map (map_prod id (map factor_size)) ts)"
  using assms
proof (induction ts arbitrary: st)
  case Nil
  then show ?case by (simp add: operands_def sum_size_def)
next
  case (Cons x ts)
  obtain neg fs where x: "x = (neg, fs)" by (cases x)
  let ?S = "sum_size (map (map_prod id (map factor_size)) ts)" and ?P = "prod_list (map factor_size fs)"
  have size: "sum_size (map (map_prod id (map factor_size)) (x # ts)) = ?P + ?S" by (simp add: sum_size_def x)
  have "0 \<le> ?S" unfolding sum_size_def by (rule sum_list_nonneg) (use order_trans [OF zero_le_one prod_sizes] in auto)
  moreover have "1 \<le> ?P" by (rule prod_sizes)
  ultimately have b: "?P < 2 ^ 31" "?S < 2 ^ 31" using Cons.prems(2) [unfolded size] by linarith+
  obtain y where y: "settle_factors (operands [x]) st = Some (y # st)" "\<bar>y\<bar> \<le> ?P"
    using term_fits [of fs neg st] Cons.prems(1) b(1) by (auto simp: x)
  have "\<forall>(neg, fs) \<in> set ts. fs \<noteq> [] \<and> (\<forall>f \<in> set fs. bounded f)" using Cons.prems(1) by simp
  from Cons.IH [OF this b(2), of "y # st"]
  obtain st' where st': "settle_factors (operands ts) (y # st) = Some st'" "sum_list (map abs st') \<le> sum_list (map abs (y # st)) + ?S" by blast
  have "operands (x # ts) = operands [x] @ operands ts" by (simp add: operands_def)
  then have "settle_factors (operands (x # ts)) st = Some st'" using y(1) st'(1) by (simp add: settle_factors_append)
  moreover have "sum_list (map abs st') \<le> sum_list (map abs st) + (?P + ?S)" using st'(2) y(2) by simp
  ultimately show ?case unfolding size by blast
qed

lemma abs_sum_list: "\<bar>sum_list (xs :: int list)\<bar> \<le> sum_list (map abs xs)"
  by (induction xs) auto

lemma sum_fits:
  assumes ok: "sum_ok ts" and b: "\<And>neg fs f. (neg, fs) \<in> set ts \<Longrightarrow> f \<in> set fs \<Longrightarrow> bounded f"
    and size: "sum_size (map (map_prod id (map factor_size)) ts) < 2 ^ 31"
  shows "bounded (Paren ts)"
proof -
  obtain st where st: "sum_list st = 0" "sum_list (map abs st) = 0"
    "factor_result (Paren ts) = do { st' \<leftarrow> settle_factors (operands ts) st; sum_stack 0 st' }" by (rule sum_result [OF ok])
  obtain st' where st': "settle_factors (operands ts) st = Some st'"
    "sum_list (map abs st') \<le> sum_size (map (map_prod id (map factor_size)) ts)"
    using operands_fits [OF _ size, of st] ok b st(2) unfolding sum_ok_iff by fastforce
  then have r: "factor_result (Paren ts) = Some (sum_list st')" using st(3) size sum_stack_fits [of 0 st'] by simp
  moreover have "sum_list st' = factor_value (Paren ts)" using factor_result_value [OF _ r] ok by (simp add: sum_ok_def)
  ultimately show ?thesis using abs_sum_list [of st'] st'(2) by (simp add: bounded_def)
qed

lemma factor_fits: "factor_ok f \<Longrightarrow> factor_size f < 2 ^ 31 \<Longrightarrow> \<forall>n \<in> set (literals f). int n + 48 < 2 ^ 31 \<Longrightarrow> bounded f"
proof (induction f)
  case (Lit n)
  then show ?case using read_digits_fits [of "decimal n"] decimal_digits [of n] by (simp add: bounded_def)
next
  case (Paren ts)
  have ok: "sum_ok ts" using Paren.prems(1) by (simp only: sum_ok_def)
  have size: "sum_size (map (map_prod id (map factor_size)) ts) < 2 ^ 31" using Paren.prems(2) by simp
  have "bounded f" if m: "(neg, fs) \<in> set ts" "f \<in> set fs" for neg fs f
  proof -
    have "factor_size f < 2 ^ 31" using le_prod_sizes [OF m(2)] le_sum_size [OF m(1)] size by linarith
    moreover have "\<forall>n \<in> set (literals f). int n + 48 < 2 ^ 31" using Paren.prems(3) m by force
    moreover have "factor_ok f" using ok m unfolding sum_ok_iff by blast
    ultimately show ?thesis using Paren.IH [OF m(1) _ m(2)] by simp
  qed
  from sum_fits [OF ok this size] show ?case .
qed

text \<open>
  C18: The calculator is right on every expression made of numbers, sums, differences, products and parentheses: on the text of a sum of signed products it returns nothing
  but the value, and it does return when the numbers are small: the sum of the products of the absolute values (a factor 0 counted as 1) is below
  \<open>2^31\<close>, and so is every literal plus 48.  Otherwise \<open>int\<close> arithmetic may overflow.\<close>

theorem solve_correct:
  assumes "sum_ok ts"
  shows "(\<forall>v. solve (sum_text (map (map_prod id (map factor_text)) ts)) = Some v \<longrightarrow> v = sum_value (map (map_prod id (map factor_value)) ts)) \<and>
    (factor_size (Paren ts) < 2 ^ 31 \<longrightarrow> (\<forall>n \<in> set (literals (Paren ts)). int n + 48 < 2 ^ 31) \<longrightarrow>
       solve (sum_text (map (map_prod id (map factor_text)) ts)) = Some (sum_value (map (map_prod id (map factor_value)) ts)))"
  using factor_result_value [of "Paren ts"] factor_fits [of "Paren ts"] assms unfolding sum_ok_def bounded_def factor_result.simps factor_value.simps by blast

theorem solve_correct_witness: "solve ''-2*(3-10)+4'' = Some 18"
proof -
  let ?ts = "[(True, [Lit 2, Paren [(False, [Lit 3]), (True, [Lit 10])]]), (False, [Lit 4])]"
  have "sum_text (map (map_prod id (map factor_text)) ?ts) = ''-2*(3-10)+4''"
    by code_simp
  moreover have "sum_value (map (map_prod id (map factor_value)) ?ts) = 18" by (simp add: sum_value_def)
  moreover have "factor_size (Paren ?ts) < 2 ^ 31" "\<forall>n \<in> set (literals (Paren ?ts)). int n + 48 < 2 ^ 31" by (simp_all add: sum_size_def)
  moreover have "sum_ok ?ts" by (simp add: sum_ok_def)
  ultimately show ?thesis using solve_correct [of ?ts] by metis
qed

text \<open>An unmatched parenthesis makes the search read behind the end of the string.\<close>

lemma solve_unmatched: "solve ''(1'' = None"
  by (simp add: solve_def solve_loop.simps operand_end_def match_paren.simps char_at_def is_digit_def)

text \<open>The largest \<open>int\<close> cannot be read: the code of its last digit is added before that of zero is subtracted.\<close>

lemma solve_int_max: "solve ''2147483647'' = None"
  by code_simp

end
