(* ===== verification/Searching.thy ===== *)
theory Searching
  imports ArrayPrograms "HOL-Library.Multiset" "HOL-Library.List_Lexorder" "HOL-Library.Char_ord"
begin

text \<open>
  Two programs of \<open>find_job/look_for_job.cpp\<close>: the first position of a value in a sorted array with repetitions, and the \<open>k\<close> most frequent words.
  A \<open>std::map\<close> is the list of its pairs in the order of the keys.
\<close>

section \<open>The first position of a value\<close>

function search_rang_loop :: "int list \<Rightarrow> int \<Rightarrow> int \<Rightarrow> int \<Rightarrow> int option" where
  "search_rang_loop nums target l r =
     (if l \<le> r
      then let mid = l + (r - l) div 2 in
        do {
          x \<leftarrow> arr_at nums mid;
          (if x < target then search_rang_loop nums target (mid + 1) r
           else if x > target then search_rang_loop nums target l (mid - 1)
           else Some mid)
        }
      else Some (- 1))"
  by pat_completeness auto
termination by (relation "measure (\<lambda>(nums, target, l, r). nat (r - l + 1))") auto

declare search_rang_loop.simps [simp del]

definition search_rang :: "int list \<Rightarrow> int \<Rightarrow> int option" where
  "search_rang nums target = search_rang_loop nums target 0 (int (length nums) - 1)"

function left_loop :: "int list \<Rightarrow> int \<Rightarrow> int \<Rightarrow> int option" where
  "left_loop nums target left =
     (if left \<ge> 0
      then do { x \<leftarrow> arr_at nums left; if x = target then left_loop nums target (left - 1) else Some left }
      else Some left)"
  by pat_completeness auto
termination by (relation "measure (\<lambda>(nums, target, left). nat (left + 1))") auto

declare left_loop.simps [simp del]

definition search_first :: "int list \<Rightarrow> int \<Rightarrow> int option" where
  "search_first nums target =
     do {
       temp \<leftarrow> search_rang nums target;
       if temp = - 1 then Some (- 1)
       else do { left \<leftarrow> left_loop nums target (temp - 1); Some (left + 1) }
     }"

lemma search_rang_loop_eq: "search_rang_loop nums target l r = search_closed_loop nums target l r"
proof (induction nums target l r rule: search_rang_loop.induct)
  case (1 nums target l r)
  then show ?case
    by (subst search_rang_loop.simps, subst search_closed_loop.simps) (auto simp: Let_def intro!: Option.bind_cong)
qed

lemma left_loop_result:
  assumes "- 1 \<le> left" and "left < int (length nums)"
  shows "\<exists>r. left_loop nums target left = Some r \<and> - 1 \<le> r \<and> r \<le> left \<and> (\<forall>i. r < int i \<and> int i \<le> left \<longrightarrow> nums ! i = target) \<and>
    (0 \<le> r \<longrightarrow> nums ! nat r \<noteq> target)"
  using assms
proof (induction "nat (left + 1)" arbitrary: left)
  case 0
  then show ?case by (subst left_loop.simps) auto
next
  case (Suc n)
  then have left: "0 \<le> left" "arr_at nums left = Some (nums ! nat left)" by (auto simp: arr_at_def)
  show ?case
  proof (cases "nums ! nat left = target")
    case True
    have n: "n = nat (left - 1 + 1)" using Suc.hyps(2) left(1) by linarith
    obtain r where r: "left_loop nums target (left - 1) = Some r" "- 1 \<le> r" "r \<le> left - 1"
      "\<forall>i. r < int i \<and> int i \<le> left - 1 \<longrightarrow> nums ! i = target" "0 \<le> r \<longrightarrow> nums ! nat r \<noteq> target"
      using Suc.hyps(1) [OF n] Suc.prems left(1) by auto
    have "nums ! i = target" if "r < int i" "int i \<le> left" for i
      using r(4) that True by (cases "int i = left") auto
    then show ?thesis using True left r by (subst left_loop.simps) auto
  next
    case False
    then show ?thesis using left Suc.prems by (subst left_loop.simps) auto
  qed
qed

text \<open>On a sorted array \<open>search\<close> returns the first position of the value, and -1 if it does not occur.\<close>

theorem search_first_correct:
  assumes sorted: "sorted nums"
  shows "\<exists>r. search_first nums target = Some r \<and>
    (if target \<in> set nums then 0 \<le> r \<and> r < int (length nums) \<and> nums ! nat r = target \<and> target \<notin> set (take (nat r) nums) else r = - 1)"
proof -
  obtain temp where temp: "search_rang nums target = Some temp" "found nums target 0 (int (length nums)) temp"
    using search_closed_loop_ok [of nums 0 "int (length nums) - 1" target] sorted by (auto simp: search_rang_def search_rang_loop_eq)
  show ?thesis
  proof (cases "temp = - 1")
    case True
    then have "\<not> (\<exists>i\<ge>0. i < int (length nums) \<and> nums ! nat i = target)" using temp(2) by (auto simp: found_def split: if_splits)
    then have "target \<notin> set nums" by (metis in_set_conv_nth nat_int of_nat_0_le_iff of_nat_less_iff)
    then show ?thesis using True temp(1) by (simp add: search_first_def)
  next
    case False
    then have t: "0 \<le> temp" "temp < int (length nums)" "nums ! nat temp = target" using temp(2) by (auto simp: found_def split: if_splits)
    then obtain l where l: "left_loop nums target (temp - 1) = Some l" "- 1 \<le> l" "l \<le> temp - 1"
      "\<forall>i. l < int i \<and> int i \<le> temp - 1 \<longrightarrow> nums ! i = target" "0 \<le> l \<longrightarrow> nums ! nat l \<noteq> target"
      using left_loop_result [of "temp - 1" nums target] by auto
    have at: "nums ! nat (l + 1) = target" using l(2,3) l(4) [rule_format, of "nat (l + 1)"] t by (cases "l + 1 = temp") auto
    have "nums ! i \<noteq> target" if "i < nat (l + 1)" for i
    proof -
      have i: "0 \<le> l" "i \<le> nat l" "nat l < nat (l + 1)" "nat (l + 1) < length nums" using that l(2,3) t by auto
      then have "nums ! i \<le> nums ! nat l" "nums ! nat l \<le> nums ! nat (l + 1)" using sorted by (auto intro: sorted_nth_mono)
      then show ?thesis using l(5) i(1) at by force
    qed
    then have "target \<notin> set (take (nat (l + 1)) nums)" by (auto simp: in_set_conv_nth)
    moreover have "target \<in> set nums" using t by (metis nat_less_iff nth_mem)
    ultimately show ?thesis using at l t False temp(1) by (simp add: search_first_def)
  qed
qed

theorem search_first_correct_witness: "search_first [1, 2, 2, 2, 5] 2 = Some 1"
proof -
  obtain r where r: "search_first [1, 2, 2, 2, 5] 2 = Some r" "0 \<le> r" "(2 :: int) \<notin> set (take (nat r) [1, 2, 2, 2, 5])" "r < 5"
    "[1, 2, 2, 2, 5] ! nat r = (2 :: int)"
    using search_first_correct [of "[1, 2, 2, 2, 5]" 2] by auto
  have "nat r \<in> {0, 1, 2, 3, 4}" using r(2,4) by auto
  then have "nat r = 1" using r(3,5) by auto
  then show ?thesis using r(1,2) by simp
qed

subsection \<open>The first and the last position\<close>

function search_range_helper :: "int list \<Rightarrow> int \<Rightarrow> int \<Rightarrow> int \<Rightarrow> int option" where
  "search_range_helper nums target low high =
     (if low \<le> high
      then let mid = low + (high - low) div 2 in
        do {
          mid_val \<leftarrow> arr_at nums mid;
          (if mid_val < target then search_range_helper nums target (mid + 1) high
           else if mid_val > target then search_range_helper nums target low (mid - 1)
           else Some mid)
        }
      else Some (- 1))"
  by pat_completeness auto
termination by (relation "measure (\<lambda>(nums, target, low, high). nat (high - low + 1))") auto

declare search_range_helper.simps [simp del]

function right_loop :: "int list \<Rightarrow> int \<Rightarrow> int \<Rightarrow> int option" where
  "right_loop nums target right =
     (if right < int (length nums)
      then do { x \<leftarrow> arr_at nums right; if x = target then right_loop nums target (right + 1) else Some right }
      else Some right)"
  by pat_completeness auto
termination by (relation "measure (\<lambda>(nums, target, right). nat (int (length nums) - right))") auto

declare right_loop.simps [simp del]

definition search_range :: "int list \<Rightarrow> int \<Rightarrow> (int \<times> int) option" where
  "search_range nums target =
     do {
       pos \<leftarrow> search_range_helper nums target 0 (int (length nums) - 1);
       if pos = - 1 then Some (- 1, - 1)
       else do {
         left \<leftarrow> left_loop nums target (pos - 1);
         right \<leftarrow> right_loop nums target (pos + 1);
         Some (left + 1, right - 1)
       }
     }"

lemma search_range_helper_eq: "search_range_helper nums target low high = search_rang_loop nums target low high"
proof (induction nums target low high rule: search_range_helper.induct)
  case (1 nums target low high)
  then show ?case
    by (subst search_range_helper.simps, subst search_rang_loop.simps) (auto simp: Let_def intro!: Option.bind_cong)
qed

lemma right_loop_result:
  assumes "0 \<le> right" and "right \<le> int (length nums)"
  shows "\<exists>r. right_loop nums target right = Some r \<and> right \<le> r \<and> r \<le> int (length nums) \<and> (\<forall>i. right \<le> int i \<and> int i < r \<longrightarrow> nums ! i = target) \<and>
    (r < int (length nums) \<longrightarrow> nums ! nat r \<noteq> target)"
  using assms
proof (induction "nat (int (length nums) - right)" arbitrary: right)
  case 0
  then show ?case by (subst right_loop.simps) auto
next
  case (Suc n)
  then have right: "right < int (length nums)" "arr_at nums right = Some (nums ! nat right)" by (auto simp: arr_at_def)
  show ?case
  proof (cases "nums ! nat right = target")
    case True
    have n: "n = nat (int (length nums) - (right + 1))" using Suc.hyps(2) right(1) by linarith
    obtain r where r: "right_loop nums target (right + 1) = Some r" "right + 1 \<le> r" "r \<le> int (length nums)"
      "\<forall>i. right + 1 \<le> int i \<and> int i < r \<longrightarrow> nums ! i = target" "r < int (length nums) \<longrightarrow> nums ! nat r \<noteq> target"
      using Suc.hyps(1) [OF n] Suc.prems right(1) by auto
    have "nums ! i = target" if "right \<le> int i" "int i < r" for i
      using r(4) that True by (cases "int i = right") auto
    then show ?thesis using True right r by (subst right_loop.simps) auto
  next
    case False
    then show ?thesis using right Suc.prems by (subst right_loop.simps) auto
  qed
qed

text \<open>On a sorted array \<open>searchRange\<close> returns the interval of the positions of the value, and -1 twice if it does not occur.\<close>

theorem search_range_correct:
  assumes sorted: "sorted nums"
  shows "\<exists>lo hi. search_range nums target = Some (lo, hi) \<and>
    (if target \<in> set nums then 0 \<le> lo \<and> lo \<le> hi \<and> hi < int (length nums) \<and> (\<forall>i<length nums. nums ! i = target \<longleftrightarrow> lo \<le> int i \<and> int i \<le> hi)
     else lo = - 1 \<and> hi = - 1)"
proof -
  obtain pos where pos: "search_range_helper nums target 0 (int (length nums) - 1) = Some pos" "found nums target 0 (int (length nums)) pos"
    using search_closed_loop_ok [of nums 0 "int (length nums) - 1" target] sorted by (auto simp: search_range_helper_eq search_rang_loop_eq)
  show ?thesis
  proof (cases "pos = - 1")
    case True
    then have "\<not> (\<exists>i\<ge>0. i < int (length nums) \<and> nums ! nat i = target)" using pos(2) by (auto simp: found_def split: if_splits)
    then have "target \<notin> set nums" by (metis in_set_conv_nth nat_int of_nat_0_le_iff of_nat_less_iff)
    then show ?thesis using True pos(1) by (simp add: search_range_def)
  next
    case False
    then have t: "0 \<le> pos" "pos < int (length nums)" "nums ! nat pos = target" using pos(2) by (auto simp: found_def split: if_splits)
    obtain l where l: "left_loop nums target (pos - 1) = Some l" "- 1 \<le> l" "l \<le> pos - 1"
      "\<forall>i. l < int i \<and> int i \<le> pos - 1 \<longrightarrow> nums ! i = target" "0 \<le> l \<longrightarrow> nums ! nat l \<noteq> target"
      using left_loop_result [of "pos - 1" nums target] t by auto
    obtain r where r: "right_loop nums target (pos + 1) = Some r" "pos + 1 \<le> r" "r \<le> int (length nums)"
      "\<forall>i. pos + 1 \<le> int i \<and> int i < r \<longrightarrow> nums ! i = target" "r < int (length nums) \<longrightarrow> nums ! nat r \<noteq> target"
      using right_loop_result [of "pos + 1" nums target] t by auto
    have "nums ! i = target \<longleftrightarrow> l + 1 \<le> int i \<and> int i \<le> r - 1" if i: "i < length nums" for i
    proof
      assume eq: "nums ! i = target"
      have "l < int i"
      proof (rule ccontr)
        assume "\<not> l < int i"
        then have "nums ! i \<le> nums ! nat l" "nums ! nat l \<le> nums ! nat pos" "0 \<le> l" using sorted l(3) t by (auto intro!: sorted_nth_mono)
        then show False using eq t(3) l(5) by simp
      qed
      moreover have "int i < r"
      proof (rule ccontr)
        assume "\<not> int i < r"
        then have "nums ! nat r \<le> nums ! i" "nums ! nat pos \<le> nums ! nat r" "r < int (length nums)" using sorted r(2) t i by (auto intro!: sorted_nth_mono)
        then show False using eq t(3) r(5) by simp
      qed
      ultimately show "l + 1 \<le> int i \<and> int i \<le> r - 1" by simp
    next
      assume "l + 1 \<le> int i \<and> int i \<le> r - 1"
      then consider "int i = pos" | "l < int i" "int i \<le> pos - 1" | "pos + 1 \<le> int i" "int i < r" by linarith
      then show "nums ! i = target" using l(4) r(4) t(3) by cases auto
    qed
    moreover have "target \<in> set nums" using t by (metis nat_less_iff nth_mem)
    ultimately show ?thesis using l r t False pos(1) by (simp add: search_range_def)
  qed
qed

section \<open>The most frequent words\<close>

text \<open>\<open>wordmap[word]++\<close>.\<close>

fun count_word :: "string \<Rightarrow> (string \<times> nat) list \<Rightarrow> (string \<times> nat) list" where
  "count_word word [] = [(word, 1)]"
| "count_word word ((w, n) # wordmap) =
     (if word = w then (w, n + 1) # wordmap
      else if word < w then (word, 1) # (w, n) # wordmap
      else (w, n) # count_word word wordmap)"

definition cmp_by_value :: "string \<times> nat \<Rightarrow> string \<times> nat \<Rightarrow> bool" where
  "cmp_by_value lhs rhs = (if snd lhs \<noteq> snd rhs then snd lhs > snd rhs else fst lhs < fst rhs)"

text \<open>
  \<open>std::sort\<close> with this comparison, which is total on pairs with different words, so that every sorting algorithm has the same result.
\<close>

fun insert_word :: "string \<times> nat \<Rightarrow> (string \<times> nat) list \<Rightarrow> (string \<times> nat) list" where
  "insert_word p [] = [p]"
| "insert_word p (q # qs) = (if cmp_by_value p q then p # q # qs else q # insert_word p qs)"

definition sort_words :: "(string \<times> nat) list \<Rightarrow> (string \<times> nat) list" where
  "sort_words ps = foldr insert_word ps []"

fun take_words :: "int \<Rightarrow> (string \<times> nat) list \<Rightarrow> string list" where
  "take_words k [] = []"
| "take_words k (p # ps) = (let k' = k - 1 in fst p # (if k' = 0 then [] else take_words k' ps))"

definition top_k_frequent :: "string list \<Rightarrow> int \<Rightarrow> string list" where
  "top_k_frequent words k = take_words k (sort_words (fold count_word words []))"

text \<open>The order of the ranking: more occurrences first, then the alphabet.\<close>

definition ranked_above :: "string list \<Rightarrow> string \<Rightarrow> string \<Rightarrow> bool" where
  "ranked_above words v w \<longleftrightarrow> count_list words w < count_list words v \<or> count_list words v = count_list words w \<and> v < w"

lemma map_of_count_word: "sorted_wrt (<) (map fst m) \<Longrightarrow>
    map_of (count_word w m) = (map_of m)(w \<mapsto> (case map_of m w of None \<Rightarrow> 1 | Some n \<Rightarrow> n + 1))"
proof (induction w m rule: count_word.induct)
  case (2 word w n wordmap)
  have "map_of wordmap word = None" if "word < w"
  proof -
    have "word \<notin> fst ` set wordmap" using 2(2) that by force
    then show ?thesis by (simp add: map_of_eq_None_iff)
  qed
  then show ?case using 2 by (auto simp: fun_eq_iff)
qed auto

lemma keys_count_word: "set (map fst (count_word w m)) = insert w (set (map fst m))"
  by (induction w m rule: count_word.induct) auto

lemma sorted_count_word: "sorted_wrt (<) (map fst m) \<Longrightarrow> sorted_wrt (<) (map fst (count_word w m))"
proof (induction w m rule: count_word.induct)
  case (2 word w n wordmap)
  have "\<forall>x\<in>set (map fst (count_word word wordmap)). w < x" if "word \<noteq> w" "\<not> word < w"
    unfolding keys_count_word using 2(2) that by auto
  then have "sorted_wrt (<) (map fst ((w, n) # count_word word wordmap))" if "word \<noteq> w" "\<not> word < w"
    using 2 that by simp
  moreover have "sorted_wrt (<) (word # map fst ((w, n) # wordmap))" if "word < w" using 2(2) that by auto
  ultimately show ?case using 2(2) by (cases "word = w"; cases "word < w") auto
qed simp

lemma word_counts:
  "sorted_wrt (<) (map fst (fold count_word words [])) \<and> fst ` set (fold count_word words []) = set words \<and>
   (\<forall>(w, n)\<in>set (fold count_word words []). n = count_list words w)"
proof -
  have "sorted_wrt (<) (map fst (fold count_word words [])) \<and>
      map_of (fold count_word words []) = (\<lambda>w. if w \<in> set words then Some (count_list words w) else None)"
  proof (induction words rule: rev_induct)
    case (snoc w words)
    then show ?case using count_notin [of w words] by (auto simp: sorted_count_word map_of_count_word fun_eq_iff)
  qed simp
  then have m: "sorted_wrt (<) (map fst (fold count_word words []))"
    "map_of (fold count_word words []) = (\<lambda>w. if w \<in> set words then Some (count_list words w) else None)" by auto
  have "distinct (map fst (fold count_word words []))" using m(1) by (simp add: strict_sorted_iff)
  then have "map_of (fold count_word words []) w = Some n" if "(w, n) \<in> set (fold count_word words [])" for w n using that by simp
  then have "\<forall>(w, n)\<in>set (fold count_word words []). n = count_list words w" using m(2) by (force split: if_splits)
  moreover have "fst ` set (fold count_word words []) = set words" proof -
    have "dom (\<lambda>w. if w \<in> set words then Some (count_list words w) else None) = set words" by (auto split: if_splits)
    then show ?thesis using arg_cong [OF m(2), of dom] by (simp add: dom_map_of_conv_image_fst)
  qed
  ultimately show ?thesis using m(1) by blast
qed

lemma cmp_trans: "cmp_by_value p q \<Longrightarrow> cmp_by_value q r \<Longrightarrow> cmp_by_value p r"
  by (auto simp: cmp_by_value_def split: if_splits)

lemma cmp_total: "fst p \<noteq> fst q \<Longrightarrow> \<not> cmp_by_value p q \<Longrightarrow> cmp_by_value q p"
  by (auto simp: cmp_by_value_def split: if_splits)

lemma mset_insert_word: "mset (insert_word p qs) = add_mset p (mset qs)"
  by (induction p qs rule: insert_word.induct) auto

lemma sorted_insert_word: "sorted_wrt cmp_by_value qs \<Longrightarrow> fst p \<notin> fst ` set qs \<Longrightarrow> sorted_wrt cmp_by_value (insert_word p qs)"
proof (induction p qs rule: insert_word.induct)
  case (2 p q qs)
  have s: "set (insert_word p qs) = insert p (set qs)" using mset_insert_word [of p qs] by (metis set_mset_add_mset_insert set_mset_mset)
  have "cmp_by_value p x" if "cmp_by_value p q" "x \<in> set qs" for x using 2(2) that cmp_trans by auto
  then show ?case using 2 cmp_total [of p q] s by auto
qed simp

lemma sort_words_sorted:
  assumes "distinct (map fst ps)"
  shows "mset (sort_words ps) = mset ps \<and> sorted_wrt cmp_by_value (sort_words ps)"
  using assms
proof (induction ps)
  case Nil
  show ?case by (simp add: sort_words_def)
next
  case (Cons p ps)
  have e: "sort_words (p # ps) = insert_word p (sort_words ps)" by (simp add: sort_words_def)
  have "set (sort_words ps) = set ps" using Cons by (metis distinct.simps(2) list.map(2) set_mset_mset)
  then show ?case using Cons by (auto simp: e mset_insert_word intro!: sorted_insert_word)
qed

lemma take_words_eq: "take_words k ps = map fst (if k \<le> 0 then ps else take (nat k) ps)"
proof (induction k ps rule: take_words.induct)
  case (2 k p ps)
  have "nat k = Suc (nat (k - 1))" if "0 < k" using that by simp
  then show ?case using 2 by (auto simp: Let_def)
qed simp

text \<open>
  \<open>topKFrequent\<close> returns \<open>k\<close> different words, or all if there are fewer or \<open>k\<close> is not positive, from the highest rank on: more occurrences first,
  then in the order of the alphabet.  No other word has a higher rank than one of them.\<close>

theorem top_k_frequent_correct:
  "distinct (top_k_frequent words k) \<and> set (top_k_frequent words k) \<subseteq> set words \<and>
   length (top_k_frequent words k) = (if k \<le> 0 then card (set words) else min (nat k) (card (set words))) \<and>
   sorted_wrt (ranked_above words) (top_k_frequent words k) \<and>
   (\<forall>v w. v \<in> set (top_k_frequent words k) \<and> w \<in> set words - set (top_k_frequent words k) \<longrightarrow> ranked_above words v w)"
proof -
  define ps where "ps = fold count_word words []"
  define rs where "rs = map fst (sort_words ps)"
  have ps: "sorted_wrt (<) (map fst ps)" "fst ` set ps = set words" "\<forall>(w, n)\<in>set ps. n = count_list words w"
    using word_counts [of words] by (auto simp: ps_def)
  then have d: "distinct (map fst ps)" by (simp add: strict_sorted_iff)
  have m: "mset (sort_words ps) = mset ps" "sorted_wrt cmp_by_value (sort_words ps)" using sort_words_sorted [OF d] by auto
  have set: "set (sort_words ps) = set ps" using m(1) by (metis set_mset_mset)
  have "mset rs = mset (map fst ps)" using m(1) by (simp add: rs_def)
  then have rs: "distinct rs" "set rs = set words" using d ps(2) mset_eq_imp_distinct_iff [of rs "map fst ps"] mset_eq_setD [of rs "map fst ps"] by simp_all
  have "sorted_wrt (\<lambda>p q. ranked_above words (fst p) (fst q)) (sort_words ps)"
    using m(2)
  proof (rule sorted_wrt_mono_rel [rotated])
    fix p q
    assume "p \<in> set (sort_words ps)" "q \<in> set (sort_words ps)" and c: "cmp_by_value p q"
    then have "snd p = count_list words (fst p)" "snd q = count_list words (fst q)" using ps(3) unfolding set by auto
    then show "ranked_above words (fst p) (fst q)" using c by (auto simp: ranked_above_def cmp_by_value_def split: if_splits)
  qed
  then have ranked: "sorted_wrt (ranked_above words) rs" by (simp add: rs_def sorted_wrt_map)
  define n where "n = (if k \<le> 0 then length rs else nat k)"
  have top: "top_k_frequent words k = take n rs" by (simp add: top_k_frequent_def take_words_eq rs_def n_def ps_def [symmetric] take_map)
  have "ranked_above words v w" if "v \<in> set (take n rs)" "w \<in> set rs - set (take n rs)" for v w
  proof -
    have "w \<in> set (drop n rs)" using that(2) by (metis Diff_iff append_take_drop_id set_append Un_iff)
    then show ?thesis using ranked that(1) by (metis append_take_drop_id sorted_wrt_append)
  qed
  moreover have "sorted_wrt (ranked_above words) (take n rs)" using ranked by (simp add: sorted_wrt_take)
  moreover have "length rs = card (set words)" using rs by (metis distinct_card)
  ultimately show ?thesis using rs unfolding top by (auto simp: n_def min_def dest: in_set_takeD)
qed

theorem top_k_frequent_correct_witness:
  "top_k_frequent [''b'', ''a'', ''c'', ''c''] 2 = [''c'', ''a''] \<and> ranked_above [''b'', ''a'', ''c'', ''c''] ''a'' ''b''"
proof -
  have e: "top_k_frequent [''b'', ''a'', ''c'', ''c''] 2 = [''c'', ''a'']" by code_simp
  have "\<forall>v w. v \<in> set [''c'', ''a''] \<and> w \<in> set [''b'', ''a'', ''c'', ''c''] - set [''c'', ''a''] \<longrightarrow> ranked_above [''b'', ''a'', ''c'', ''c''] v w"
    using top_k_frequent_correct [of "[''b'', ''a'', ''c'', ''c'']" 2] unfolding e by blast
  then show ?thesis using e by simp
qed

end
