(* ===== verification/ListLru.thy ===== *)
theory ListLru
  imports Prelude "HOL-Library.Monad_Syntax"
begin

text \<open>
  The first LRU cache of \<open>find_job/look_for_job.cpp\<close>, a class over \<open>std::list\<close> and \<open>std::map\<close>.  An iterator is the name of a list cell; it may be
  dereferenced as long as the cell is in the list.  Undefined behaviour is \<^const>\<open>None\<close>.
\<close>

section \<open>The class\<close>

record lru_node =
  ln_key :: int
  ln_val :: int

record list_lru =
  ll_list :: "nat list"
  ll_cell :: "nat \<Rightarrow> nat option"
  ll_heap :: "nat \<Rightarrow> lru_node option"
  ll_index :: "int \<Rightarrow> nat option"
  ll_cap :: int
  ll_next :: nat

definition ll_construct :: "int \<Rightarrow> list_lru" where
  "ll_construct k = \<lparr>ll_list = [], ll_cell = Map.empty, ll_heap = Map.empty, ll_index = Map.empty, ll_cap = k, ll_next = 0\<rparr>"

text \<open>\<open>L.erase(it)\<close>, and \<open>*it\<close>.\<close>

definition ll_erase :: "nat \<Rightarrow> list_lru \<Rightarrow> list_lru option" where
  "ll_erase it s =
     (if it \<in> set (ll_list s) then Some (s\<lparr>ll_list := removeAll it (ll_list s), ll_cell := (ll_cell s)(it := None)\<rparr>) else None)"

definition ll_deref :: "nat \<Rightarrow> list_lru \<Rightarrow> nat option" where
  "ll_deref it s = ll_cell s it"

definition ll_del :: "nat \<Rightarrow> list_lru \<Rightarrow> (int \<times> list_lru) option" where
  "ll_del it s = do {
     s1 \<leftarrow> ll_erase it s;
     p \<leftarrow> ll_deref it s1;
     n \<leftarrow> ll_heap s1 p;
     let s2 = s1\<lparr>ll_index := (ll_index s1)(ln_key n := None)\<rparr>;
     q \<leftarrow> ll_deref it s2;
     n' \<leftarrow> ll_heap s2 q;
     Some (ln_val n', s2\<lparr>ll_heap := (ll_heap s2)(q := None)\<rparr>) }"

text \<open>\<open>L.size() > cap\<close> compares unsigned 64-bit numbers.\<close>

definition ll_over :: "list_lru \<Rightarrow> bool" where
  "ll_over s \<longleftrightarrow> int (length (ll_list s)) > ll_cap s mod 2 ^ 64"

definition ll_add :: "int \<Rightarrow> int \<Rightarrow> list_lru \<Rightarrow> list_lru option" where
  "ll_add x y s = (
     let a = ll_next s;
         s1 = s\<lparr>ll_heap := (ll_heap s)(a \<mapsto> \<lparr>ln_key = x, ln_val = y\<rparr>), ll_cell := (ll_cell s)(a \<mapsto> a),
                ll_list := a # ll_list s, ll_index := (ll_index s)(x \<mapsto> a), ll_next := Suc a\<rparr>
     in if ll_over s1 then map_option snd (ll_del (last (ll_list s1)) s1) else Some s1)"

definition ll_set :: "int \<Rightarrow> int \<Rightarrow> list_lru \<Rightarrow> list_lru option" where
  "ll_set x y s = do {
     s1 \<leftarrow> (case ll_index s x of None \<Rightarrow> Some s | Some it \<Rightarrow> map_option snd (ll_del it s));
     ll_add x y s1 }"

definition ll_get :: "int \<Rightarrow> list_lru \<Rightarrow> (int \<times> list_lru) option" where
  "ll_get x s =
     (case ll_index s x of
        None \<Rightarrow> Some (-1, s)
      | Some it \<Rightarrow> do { (val, s1) \<leftarrow> ll_del it s; s2 \<leftarrow> ll_add x val s1; Some (val, s2) })"

text \<open>\<open>LRU\<close>: an item \<open>[1, x, y]\<close> sets, every other one gets.\<close>

definition ll_item :: "int list \<Rightarrow> list_lru \<times> int list \<Rightarrow> (list_lru \<times> int list) option" where
  "ll_item item = (\<lambda>(s, res).
     (case item of
        [] \<Rightarrow> None
      | c # args \<Rightarrow>
          if c = 1 then (case args of x # y # _ \<Rightarrow> map_option (\<lambda>s1. (s1, res)) (ll_set x y s) | _ \<Rightarrow> None)
          else (case args of x # _ \<Rightarrow> map_option (\<lambda>(v, s1). (s1, res @ [v])) (ll_get x s) | _ \<Rightarrow> None)))"

fun ll_items :: "int list list \<Rightarrow> list_lru \<times> int list \<Rightarrow> (list_lru \<times> int list) option" where
  "ll_items [] st = Some st"
| "ll_items (item # items) st = do { st1 \<leftarrow> ll_item item st; ll_items items st1 }"

definition lru_list :: "int list list \<Rightarrow> int \<Rightarrow> int list option" where
  "lru_list operators k = map_option snd (ll_items operators (ll_construct k, []))"

section \<open>What it returns\<close>

lemma ll_del_undefined: "ll_del it s = None"
  by (simp add: ll_del_def ll_erase_def ll_deref_def)

text \<open>
  A sequence of calls in the format of \<open>LRU\<close> that never finds a key and never exceeds the capacity: the keys set so far are in the second argument.
\<close>

fun never_finds :: "int \<Rightarrow> int set \<Rightarrow> int list list \<Rightarrow> bool" where
  "never_finds k keys [] \<longleftrightarrow> True"
| "never_finds k keys (item # items) \<longleftrightarrow>
     item ! 1 \<notin> keys \<and>
     (if item ! 0 = 1 then int (card keys) < k mod 2 ^ 64 \<and> never_finds k (insert (item ! 1) keys) items else never_finds k keys items)"

definition well_formed :: "int list \<Rightarrow> bool" where
  "well_formed item \<longleftrightarrow> (\<exists>x y. item = [1, x, y] \<or> item = [2, x])"

definition fresh_lru :: "int \<Rightarrow> int set \<Rightarrow> list_lru \<Rightarrow> bool" where
  "fresh_lru k keys s \<longleftrightarrow> ll_cap s = k \<and> dom (ll_index s) = keys \<and> length (ll_list s) = card keys \<and> finite keys"

lemma ll_add_fresh:
  assumes "fresh_lru k keys s" and "x \<notin> keys"
  shows "if int (card keys) < k mod 2 ^ 64 then \<exists>s'. ll_add x y s = Some s' \<and> fresh_lru k (insert x keys) s' else ll_add x y s = None"
  using assms by (auto simp: ll_add_def Let_def ll_over_def fresh_lru_def ll_del_undefined)

lemma ll_items_result:
  assumes "fresh_lru k keys s" and "\<forall>item\<in>set items. well_formed item"
  shows "map_option snd (ll_items items (s, res)) =
    (if never_finds k keys items then Some (res @ replicate (length (filter (\<lambda>item. item ! 0 \<noteq> 1) items)) (-1)) else None)"
  using assms
proof (induction items arbitrary: s keys res)
  case (Cons item items)
  have known: "ll_index s x = None \<longleftrightarrow> x \<notin> keys" for x using Cons.prems(1) by (auto simp: fresh_lru_def)
  consider x y where "item = [1, x, y]" | x where "item = [2, x]" using Cons.prems(2) by (auto simp: well_formed_def)
  then show ?case
  proof cases
    case 1
    show ?thesis
    proof (cases "x \<in> keys")
      case True
      then obtain it where "ll_index s x = Some it" using known [of x] by (cases "ll_index s x") auto
      then show ?thesis using 1 True by (simp add: ll_item_def ll_set_def ll_del_undefined)
    next
      case False
      then have i: "ll_item item (s, res) = map_option (\<lambda>s1. (s1, res)) (ll_add x y s)"
        using 1 known [of x] by (simp add: ll_item_def ll_set_def)
      show ?thesis
      proof (cases "int (card keys) < k mod 2 ^ 64")
        case True
        then obtain s' where "ll_add x y s = Some s'" "fresh_lru k (insert x keys) s'" using ll_add_fresh [OF Cons.prems(1) False, of y] by auto
        then show ?thesis using Cons.IH [of "insert x keys" s' res] Cons.prems(2) i 1 True False by simp
      next
        case over: False
        then have "ll_add x y s = None" using ll_add_fresh [OF Cons.prems(1) False, of y] by auto
        then show ?thesis using i 1 over by simp
      qed
    qed
  next
    case 2
    show ?thesis
    proof (cases "x \<in> keys")
      case True
      then obtain it where "ll_index s x = Some it" using known [of x] by (cases "ll_index s x") auto
      then show ?thesis using 2 True by (simp add: ll_item_def ll_get_def ll_del_undefined)
    next
      case False
      then have "ll_item item (s, res) = Some (s, res @ [-1])" using 2 known [of x] by (simp add: ll_item_def ll_get_def)
      then show ?thesis using Cons.IH [OF Cons.prems(1), of "res @ [-1]"] Cons.prems(2) 2 False by simp
    qed
  qed
qed simp

text \<open>
  C38: This cache never returns a cached value: its behaviour is defined exactly for the sequences of calls in which no key that was set is set or looked up
  again and the capacity is never exceeded, and then every lookup answers -1.  \<open>del\<close> erases the list cell before it reads the node
  through the iterator.\<close>

theorem list_lru_never_hits:
  assumes "\<forall>item\<in>set operators. well_formed item"
  shows "lru_list operators k =
    (if never_finds k {} operators then Some (replicate (length (filter (\<lambda>item. item ! 0 \<noteq> 1) operators)) (-1)) else None)"
proof -
  have "fresh_lru k {} (ll_construct k)" by (simp add: fresh_lru_def ll_construct_def)
  from ll_items_result [OF this assms, of "[]"] show ?thesis by (simp add: lru_list_def)
qed

theorem list_lru_never_hits_witness: "lru_list [[1, 5, 6], [2, 4]] 2 = Some [-1] \<and> lru_list [[1, 5, 6], [2, 5]] 2 = None"
  using list_lru_never_hits [of "[[1, 5, 6], [2, 4]]" 2] list_lru_never_hits [of "[[1, 5, 6], [2, 5]]" 2] by (simp add: well_formed_def)

end
