(* ===== verification/PqIndex.thy ===== *)
theory PqIndex
  imports Tables "HOL-Library.Word"
begin

text \<open>
  \<open>pq_test.cpp\<close>: nearest neighbours by a linear scan, and by product quantization.  Arithmetic on \<open>float\<close> is a parameter, a record of the operations the
  program uses, and the theorems rely on nothing but that \<open><\<close> is irreflexive and transitive, which holds of IEEE numbers with infinities and
  NaNs.  The random codebooks of \<open>train\<close> are an argument.  Reading outside a vector is \<^const>\<open>None\<close>.
\<close>

record 'f float_ops =
  f_zero :: 'f
  f_max :: 'f
  f_add :: "'f \<Rightarrow> 'f \<Rightarrow> 'f"
  f_sub :: "'f \<Rightarrow> 'f \<Rightarrow> 'f"
  f_mul :: "'f \<Rightarrow> 'f \<Rightarrow> 'f"
  f_less :: "'f \<Rightarrow> 'f \<Rightarrow> bool"

section \<open>The programs\<close>

definition DIM :: nat where
  "DIM = 128"

definition M :: nat where
  "M = 4"

definition K :: nat where
  "K = 256"

definition sub_dim :: nat where
  "sub_dim = DIM div M"

text \<open>The loop that adds up the squares of the differences of \<open>n\<close> coordinates.\<close>

definition add_square :: "'f float_ops \<Rightarrow> 'f \<Rightarrow> 'f \<Rightarrow> 'f \<Rightarrow> 'f" where
  "add_square F x y dist = (let diff = f_sub F x y in f_add F dist (f_mul F diff diff))"

definition square_loop :: "'f float_ops \<Rightarrow> 'f list \<Rightarrow> nat \<Rightarrow> 'f list \<Rightarrow> nat \<Rightarrow> 'f option" where
  "square_loop F xs start ys n =
     for_up 0 n (\<lambda>d dist. do { x \<leftarrow> vec_get xs (start + d); y \<leftarrow> vec_get ys d; Some (add_square F x y dist) }) (f_zero F)"

text \<open>Keep the nearer one of the best index so far and the next one.\<close>

definition keep_nearer :: "'f float_ops \<Rightarrow> nat \<Rightarrow> 'f \<Rightarrow> int \<times> 'f \<Rightarrow> int \<times> 'f" where
  "keep_nearer F i dist = (\<lambda>(nearest_idx, min_dist). if f_less F dist min_dist then (int i, dist) else (nearest_idx, min_dist))"

definition linear_scan :: "'f float_ops \<Rightarrow> 'f list \<Rightarrow> 'f list list \<Rightarrow> (int \<times> 'f) option" where
  "linear_scan F query dataset =
     for_up 0 (length dataset) (\<lambda>i best. do {
       row \<leftarrow> vec_get dataset i;
       dist \<leftarrow> square_loop F query 0 row DIM;
       Some (keep_nearer F i dist best) }) (-1, f_max F)"

record 'f pq_index =
  pq_codebooks :: "'f list list list"
  pq_codes :: "8 word list list"

text \<open>The search for the code of one part of one vector; the code keeps its old value if no centre is nearer than the largest number.\<close>

definition encode_part :: "'f float_ops \<Rightarrow> 'f pq_index \<Rightarrow> 'f list \<Rightarrow> nat \<Rightarrow> 8 word \<Rightarrow> (8 word \<times> 'f) option" where
  "encode_part F pq row m old =
     for_up 0 K (\<lambda>k (code, min_dist). do {
       centre \<leftarrow> tab_get (pq_codebooks pq) m k;
       dist \<leftarrow> square_loop F row (m * sub_dim) centre sub_dim;
       Some (if f_less F dist min_dist then (of_nat k, dist) else (code, min_dist)) }) (old, f_max F)"

definition resize :: "nat \<Rightarrow> 'a \<Rightarrow> 'a list \<Rightarrow> 'a list" where
  "resize n x xs = take n xs @ replicate (n - length xs) x"

definition encode :: "'f float_ops \<Rightarrow> 'f list list \<Rightarrow> 'f pq_index \<Rightarrow> 'f pq_index option" where
  "encode F dataset pq = do {
     codes \<leftarrow> for_up 0 (length dataset) (\<lambda>i. for_up 0 M (\<lambda>m codes. do {
       row \<leftarrow> vec_get dataset i;
       old \<leftarrow> tab_get codes i m;
       (code, dist) \<leftarrow> encode_part F pq row m old;
       tab_set codes i m code })) (resize (length dataset) (replicate M 0) (pq_codes pq));
     Some (pq\<lparr>pq_codes := codes\<rparr>) }"

definition precompute :: "'f float_ops \<Rightarrow> 'f pq_index \<Rightarrow> 'f list \<Rightarrow> 'f list list option" where
  "precompute F pq query =
     for_up 0 M (\<lambda>m. for_up 0 K (\<lambda>k precomputed. do {
       centre \<leftarrow> tab_get (pq_codebooks pq) m k;
       dist \<leftarrow> square_loop F query (m * sub_dim) centre sub_dim;
       tab_set precomputed m k dist })) (tab_new M K (f_zero F))"

definition pq_search :: "'f float_ops \<Rightarrow> 'f pq_index \<Rightarrow> 'f list \<Rightarrow> (int \<times> 'f) option" where
  "pq_search F pq query = do {
     precomputed \<leftarrow> precompute F pq query;
     for_up 0 (length (pq_codes pq)) (\<lambda>i best. do {
       dist \<leftarrow> for_up 0 M (\<lambda>m dist. do {
         code \<leftarrow> tab_get (pq_codes pq) i m;
         p \<leftarrow> tab_get precomputed m (unat code);
         Some (f_add F dist p) }) (f_zero F);
       Some (keep_nearer F i dist best) }) (-1, f_max F) }"

section \<open>Distances\<close>

definition square_dist :: "'f float_ops \<Rightarrow> 'f list \<Rightarrow> 'f list \<Rightarrow> 'f" where
  "square_dist F xs ys = fold (\<lambda>(x, y). add_square F x y) (zip xs ys) (f_zero F)"

definition part_of :: "'f list \<Rightarrow> nat \<Rightarrow> 'f list" where
  "part_of xs m = take sub_dim (drop (m * sub_dim) xs)"

lemma square_loop_eq:
  assumes "start + n \<le> length xs" and "length ys = n"
  shows "square_loop F xs start ys n = Some (square_dist F (take n (drop start xs)) ys)"
proof -
  have "for_up 0 n (\<lambda>d dist. do { x \<leftarrow> vec_get xs (start + d); y \<leftarrow> vec_get ys d; Some (add_square F x y dist) }) (f_zero F) =
      Some (fold (\<lambda>d. add_square F (xs ! (start + d)) (ys ! d)) [0..<n] (f_zero F))"
    unfolding for_up_def by (rule for_each_map) (use assms in \<open>auto simp: vec_simps\<close>)
  moreover have "zip (take n (drop start xs)) ys = map (\<lambda>d. (xs ! (start + d), ys ! d)) [0..<n]"
    using assms by (intro nth_equalityI) auto
  ultimately show ?thesis by (simp add: square_loop_def square_dist_def fold_map comp_def)
qed

lemma sizes [simp]: "sub_dim = 32" "M = 4" "K = 256" "DIM = 128"
  by (simp_all add: sub_dim_def DIM_def M_def K_def)

lemma part_loop_eq:
  assumes "length xs = DIM" and "m < M" and "length ys = sub_dim"
  shows "square_loop F xs (m * sub_dim) ys sub_dim = Some (square_dist F (part_of xs m) ys)"
  unfolding part_of_def by (rule square_loop_eq) (use assms in auto)

section \<open>The nearest so far\<close>

definition float_order :: "'f float_ops \<Rightarrow> bool" where
  "float_order F \<longleftrightarrow> (\<forall>x. \<not> f_less F x x) \<and> (\<forall>x y z. f_less F x y \<longrightarrow> f_less F y z \<longrightarrow> f_less F x z)"

text \<open>
  Of the first \<open>n\<close> distances none is below the chosen one; nothing is chosen exactly if none is below the largest number.
\<close>

definition best :: "'f float_ops \<Rightarrow> (nat \<Rightarrow> 'f) \<Rightarrow> nat \<Rightarrow> nat option \<Rightarrow> 'f \<Rightarrow> bool" where
  "best F f n sel d \<longleftrightarrow> (\<forall>j<n. \<not> f_less F (f j) d) \<and>
     (case sel of None \<Rightarrow> d = f_max F | Some i \<Rightarrow> i < n \<and> d = f i \<and> f_less F d (f_max F))"

lemma best_start: "best F f 0 None (f_max F)"
  by (simp add: best_def)

lemma best_step:
  assumes "float_order F" and "best F f n sel d"
  shows "if f_less F (f n) d then best F f (Suc n) (Some n) (f n) else best F f (Suc n) sel d"
proof (cases "f_less F (f n) d")
  case True
  have irrefl: "\<not> f_less F (f n) (f n)" and trans: "\<And>x y z. f_less F x y \<Longrightarrow> f_less F y z \<Longrightarrow> f_less F x z"
    using assms(1) unfolding float_order_def by blast+
  have "\<not> f_less F (f j) (f n)" if "j < n" for j using assms(2) trans [OF _ True] that unfolding best_def by blast
  moreover have "f_less F (f n) (f_max F)"
    using assms(2) True trans [OF True, of "f_max F"] unfolding best_def by (cases sel) auto
  ultimately show ?thesis using True irrefl by (simp add: best_def less_Suc_eq)
next
  case False
  then have "best F f (Suc n) sel d" using assms(2) unfolding best_def by (cases sel) (auto simp: less_Suc_eq)
  then show ?thesis using False by simp
qed

lemma best_None: "best F f n None d \<longleftrightarrow> d = f_max F \<and> (\<forall>j<n. \<not> f_less F (f j) (f_max F))"
  by (auto simp: best_def)

definition index_of_choice :: "nat option \<Rightarrow> int" where
  "index_of_choice sel = (case sel of None \<Rightarrow> -1 | Some i \<Rightarrow> int i)"

lemma scan_best:
  assumes "float_order F" and "\<And>i b. i < n \<Longrightarrow> body i b = Some (keep_nearer F i (f i) b)"
  shows "\<exists>sel d. for_up 0 n body (-1, f_max F) = Some (index_of_choice sel, d) \<and> best F f n sel d"
proof -
  have "\<exists>b. for_up 0 n body (-1, f_max F) = Some b \<and> (\<exists>sel d. b = (index_of_choice sel, d) \<and> best F f n sel d)"
  proof (rule for_up_rule [where P = "\<lambda>i b. \<exists>sel d. b = (index_of_choice sel, d) \<and> best F f i sel d"])
    show "\<exists>sel d. (-1, f_max F) = (index_of_choice sel, d) \<and> best F f 0 sel d"
      using best_start [of F f] by (auto simp: index_of_choice_def intro!: exI [of _ None])
  next
    fix i b
    assume i: "i < n" and "\<exists>sel d. b = (index_of_choice sel, d) \<and> best F f i sel d"
    then obtain sel d where b: "b = (index_of_choice sel, d)" "best F f i sel d" by blast
    have "keep_nearer F i (f i) b = (if f_less F (f i) d then (index_of_choice (Some i), f i) else (index_of_choice sel, d))"
      by (simp add: keep_nearer_def b index_of_choice_def)
    then show "\<exists>b'. body i b = Some b' \<and> (\<exists>sel d. b' = (index_of_choice sel, d) \<and> best F f (Suc i) sel d)"
      using best_step [OF assms(1) b(2)] assms(2) [OF i, of b] by (cases "f_less F (f i) d") (simp_all, blast+)
  qed simp
  then show ?thesis by blast
qed

text \<open>
  The linear scan returns a vector of the data that no other one is nearer than, with its distance; it returns -1 exactly if no distance is below the
  largest number.\<close>

theorem linear_scan_correct:
  assumes "float_order F" and "length query = DIM" and "\<forall>row\<in>set dataset. length row = DIM"
  shows "\<exists>sel d. linear_scan F query dataset = Some (index_of_choice sel, d) \<and>
    best F (\<lambda>i. square_dist F query (dataset ! i)) (length dataset) sel d"
  unfolding linear_scan_def
proof (rule scan_best [OF assms(1)])
  fix i b
  assume i: "i < length dataset"
  then have "length (dataset ! i) = DIM" using assms(3) by simp
  then show "do { row \<leftarrow> vec_get dataset i; dist \<leftarrow> square_loop F query 0 row DIM; Some (keep_nearer F i dist b) } =
      Some (keep_nearer F i (square_dist F query (dataset ! i)) b)"
    using square_loop_eq [of 0 DIM query "dataset ! i" F] assms(2) i by (simp add: vec_simps)
qed

section \<open>Codes and the table\<close>

definition codebooks_ok :: "'f pq_index \<Rightarrow> bool" where
  "codebooks_ok pq \<longleftrightarrow> tab_dim (pq_codebooks pq) M K \<and> (\<forall>m<M. \<forall>k<K. length (pq_codebooks pq ! m ! k) = sub_dim)"

abbreviation centre :: "'f pq_index \<Rightarrow> nat \<Rightarrow> nat \<Rightarrow> 'f list" where
  "centre pq m k \<equiv> pq_codebooks pq ! m ! k"

abbreviation part_dist :: "'f float_ops \<Rightarrow> 'f pq_index \<Rightarrow> 'f list \<Rightarrow> nat \<Rightarrow> nat \<Rightarrow> 'f" where
  "part_dist F pq xs m k \<equiv> square_dist F (part_of xs m) (centre pq m k)"

lemma centre_loop:
  assumes "codebooks_ok pq" and "m < M" and "k < K" and "length xs = DIM"
  shows "tab_get (pq_codebooks pq) m k = Some (centre pq m k)"
    and "square_loop F xs (m * sub_dim) (centre pq m k) sub_dim = Some (part_dist F pq xs m k)"
proof -
  show "tab_get (pq_codebooks pq) m k = Some (centre pq m k)" using assms by (intro tab_get_in) (auto simp: codebooks_ok_def)
  show "square_loop F xs (m * sub_dim) (centre pq m k) sub_dim = Some (part_dist F pq xs m k)"
    by (rule part_loop_eq) (use assms in \<open>auto simp: codebooks_ok_def\<close>)
qed

definition code_of_choice :: "8 word \<Rightarrow> nat option \<Rightarrow> 8 word" where
  "code_of_choice old sel = (case sel of None \<Rightarrow> old | Some k \<Rightarrow> of_nat k)"

lemma encode_part_best:
  assumes F: "float_order F" and ok: "codebooks_ok pq" "m < M" "length row = DIM"
  shows "\<exists>sel d. encode_part F pq row m old = Some (code_of_choice old sel, d) \<and> best F (part_dist F pq row m) K sel d"
proof -
  let ?f = "part_dist F pq row m"
  have "\<exists>b. encode_part F pq row m old = Some b \<and> (\<exists>sel d. b = (code_of_choice old sel, d) \<and> best F ?f K sel d)"
    unfolding encode_part_def
  proof (rule for_up_rule [where P = "\<lambda>i b. \<exists>sel d. b = (code_of_choice old sel, d) \<and> best F ?f i sel d"])
    show "\<exists>sel d. (old, f_max F) = (code_of_choice old sel, d) \<and> best F ?f 0 sel d"
      using best_start [of F ?f] by (auto simp: code_of_choice_def intro!: exI [of _ None])
  next
    fix k b
    assume k: "k < K" and "\<exists>sel d. b = (code_of_choice old sel, d) \<and> best F ?f k sel d"
    then obtain sel d where b: "b = (code_of_choice old sel, d)" "best F ?f k sel d" by blast
    have "(case b of (code, min_dist) \<Rightarrow> do { c \<leftarrow> tab_get (pq_codebooks pq) m k; dist \<leftarrow> square_loop F row (m * sub_dim) c sub_dim;
          Some (if f_less F dist min_dist then (of_nat k, dist) else (code, min_dist)) }) =
        Some (if f_less F (?f k) d then (code_of_choice old (Some k), ?f k) else (code_of_choice old sel, d))"
      using centre_loop [OF ok(1,2) k ok(3)] by (simp add: b code_of_choice_def del: sizes)
    then show "\<exists>b'. (case b of (code, min_dist) \<Rightarrow> do { c \<leftarrow> tab_get (pq_codebooks pq) m k; dist \<leftarrow> square_loop F row (m * sub_dim) c sub_dim;
          Some (if f_less F dist min_dist then (of_nat k, dist) else (code, min_dist)) }) = Some b' \<and>
        (\<exists>sel d. b' = (code_of_choice old sel, d) \<and> best F ?f (Suc k) sel d)"
      using best_step [OF F b(2)] by (cases "f_less F (?f k) d") (simp_all, blast+)
  qed simp
  then show ?thesis by blast
qed

lemma precompute_table:
  assumes "codebooks_ok pq" and "length query = DIM"
  shows "\<exists>t. precompute F pq query = Some t \<and> cells t M K (\<lambda>a b. True) (part_dist F pq query)"
proof -
  have "\<exists>t. precompute F pq query = Some t \<and> cells t M K (\<lambda>a b. a < M) (part_dist F pq query)"
    unfolding precompute_def
  proof (rule for_up_nested_rule [where P = "\<lambda>i j t. cells t M K (\<lambda>a b. a < i \<or> a = i \<and> b < j) (part_dist F pq query)", THEN ex_forward])
    show "cells (tab_new M K (f_zero F)) M K (\<lambda>a b. a < 0 \<or> a = 0 \<and> b < 0) (part_dist F pq query)" using cells_new by simp
  next
    fix m k t
    assume mk: "m < M" "k < K" and t: "cells t M K (\<lambda>a b. a < m \<or> a = m \<and> b < k) (part_dist F pq query)"
    have "\<exists>t'. tab_set t m k (part_dist F pq query m k) = Some t' \<and> cells t' M K (\<lambda>a b. a < m \<or> a = m \<and> b < Suc k) (part_dist F pq query)"
      by (rule cells_set [OF t mk]) auto
    then show "\<exists>t'. do { c \<leftarrow> tab_get (pq_codebooks pq) m k; dist \<leftarrow> square_loop F query (m * sub_dim) c sub_dim; tab_set t m k dist } = Some t' \<and>
        cells t' M K (\<lambda>a b. a < m \<or> a = m \<and> b < Suc k) (part_dist F pq query)"
      using centre_loop [OF assms(1) mk assms(2)] by (simp del: sizes)
  qed (auto simp: cells_def less_Suc_eq)
  then show ?thesis by (auto simp: cells_def)
qed

section \<open>Encoding and searching\<close>

text \<open>The distance of the query from the centres that stand for a vector, part by part.\<close>

definition code_dist :: "'f float_ops \<Rightarrow> 'f pq_index \<Rightarrow> 'f list \<Rightarrow> nat \<Rightarrow> 'f" where
  "code_dist F pq query i =
     fold (\<lambda>m dist. f_add F dist (part_dist F pq query m (unat (pq_codes pq ! i ! m)))) [0..<M] (f_zero F)"

lemma code_bound: "unat (c :: 8 word) < K"
  using unsigned_less [of c, where 'a = nat] by simp

lemma code_loop:
  assumes codes: "tab_dim (pq_codes pq) n M" and t: "cells t M K (\<lambda>a b. True) (part_dist F pq query)" and i: "i < n"
  shows "for_up 0 M (\<lambda>m dist. do { code \<leftarrow> tab_get (pq_codes pq) i m; p \<leftarrow> tab_get t m (unat code); Some (f_add F dist p) }) (f_zero F) =
    Some (code_dist F pq query i)"
  unfolding for_up_def code_dist_def
proof (rule for_each_map)
  fix m dist
  assume "m \<in> set [0..<M]"
  then have m: "m < M" by simp
  then show "do { code \<leftarrow> tab_get (pq_codes pq) i m; p \<leftarrow> tab_get t m (unat code); Some (f_add F dist p) } =
      Some (f_add F dist (part_dist F pq query m (unat (pq_codes pq ! i ! m))))"
    using tab_get_in [OF codes i m] cells_get [OF t TrueI m code_bound] by (simp del: sizes)
qed

text \<open>
  The search returns a vector such that no other one is nearer to the query by the sum of the distances to the centres of its parts, and -1
  exactly if none of these sums is below the largest number.\<close>

theorem pq_search_correct:
  assumes "float_order F" and ok: "codebooks_ok pq" "tab_dim (pq_codes pq) n M" and q: "length query = DIM"
  shows "\<exists>sel d. pq_search F pq query = Some (index_of_choice sel, d) \<and> best F (code_dist F pq query) n sel d"
proof -
  obtain t where t: "precompute F pq query = Some t" "cells t M K (\<lambda>a b. True) (part_dist F pq query)"
    using precompute_table [OF ok(1) q] by blast
  have n: "length (pq_codes pq) = n" using ok(2) by (simp add: tab_dim_def)
  have "\<exists>sel d. for_up 0 n (\<lambda>i best. do {
       dist \<leftarrow> for_up 0 M (\<lambda>m dist. do { code \<leftarrow> tab_get (pq_codes pq) i m; p \<leftarrow> tab_get t m (unat code); Some (f_add F dist p) }) (f_zero F);
       Some (keep_nearer F i dist best) }) (-1, f_max F) = Some (index_of_choice sel, d) \<and> best F (code_dist F pq query) n sel d"
    by (rule scan_best [OF assms(1)]) (simp add: code_loop [OF ok(2) t(2)] del: sizes)
  then show ?thesis by (simp add: pq_search_def t(1) n del: sizes)
qed

text \<open>
  After \<open>encode\<close> on an index without codes, the code of every part of every vector is the number of a centre such that no other one is nearer to this
  part, or 0 if no distance is below the largest number.\<close>

theorem encode_correct:
  assumes F: "float_order F" and ok: "codebooks_ok pq" and data: "\<forall>row\<in>set dataset. length row = DIM" and new: "pq_codes pq = []"
  shows "\<exists>codes. encode F dataset pq = Some (pq\<lparr>pq_codes := codes\<rparr>) \<and> tab_dim codes (length dataset) M \<and>
    (\<forall>i m. i < length dataset \<and> m < M \<longrightarrow>
       (\<exists>sel d. codes ! i ! m = code_of_choice 0 sel \<and> best F (part_dist F pq (dataset ! i) m) K sel d))"
proof -
  let ?n = "length dataset"
  define good where "good c i m \<longleftrightarrow> (\<exists>sel d. c = code_of_choice 0 sel \<and> best F (part_dist F pq (dataset ! i) m) K sel d)" for c i m
  let ?P = "\<lambda>i j t. tab_dim t ?n M \<and> (\<forall>a<?n. \<forall>b<M. if a < i \<or> a = i \<and> b < j then good (t ! a ! b) a b else t ! a ! b = (0 :: 8 word))"
  have "\<exists>t. for_up 0 ?n (\<lambda>i. for_up 0 M (\<lambda>m codes. do { row \<leftarrow> vec_get dataset i; old \<leftarrow> tab_get codes i m;
       (code, dist) \<leftarrow> encode_part F pq row m old; tab_set codes i m code })) (tab_new ?n M 0) = Some t \<and> ?P ?n 0 t"
  proof (rule for_up_nested_rule [where P = ?P])
    fix i m t
    assume im: "i < ?n" "m < M" and t: "?P i m t"
    then have d: "tab_dim t ?n M" and z: "t ! i ! m = 0" by auto
    have "length (dataset ! i) = DIM" using data im(1) by simp
    then obtain sel e where part: "encode_part F pq (dataset ! i) m 0 = Some (code_of_choice 0 sel, e)" "best F (part_dist F pq (dataset ! i) m) K sel e"
      using encode_part_best [OF F ok im(2)] by blast
    let ?t = "t[i := (t ! i)[m := code_of_choice 0 sel]]"
    have "do { row \<leftarrow> vec_get dataset i; old \<leftarrow> tab_get t i m; (code, dist) \<leftarrow> encode_part F pq row m old; tab_set t i m code } = Some ?t"
      using im d by (simp add: vec_simps z part(1) del: sizes)
    moreover have "good (code_of_choice 0 sel) i m" using part(2) unfolding good_def by blast
    then have "?P i (Suc m) ?t" using t im(1) d tab_upd_nth [OF d im] by (auto simp: less_Suc_eq simp del: sizes)
    ultimately show "\<exists>t'. do { row \<leftarrow> vec_get dataset i; old \<leftarrow> tab_get t i m; (code, dist) \<leftarrow> encode_part F pq row m old; tab_set t i m code } =
        Some t' \<and> ?P i (Suc m) t'" by blast
  qed (auto simp: less_Suc_eq simp del: sizes)
  moreover have "resize ?n (replicate M 0) (pq_codes pq) = tab_new ?n M 0" by (simp add: resize_def tab_new_def new)
  ultimately show ?thesis unfolding encode_def good_def by (auto simp del: sizes)
qed


text \<open>An instance of the arithmetic with integers, and an index with equal centres.\<close>

definition int_ops :: "int float_ops" where
  "int_ops = \<lparr>f_zero = 0, f_max = 2 ^ 40, f_add = (+), f_sub = (-), f_mul = (*), f_less = (<)\<rparr>"

definition flat_index :: "int pq_index" where
  "flat_index = \<lparr>pq_codebooks = replicate M (replicate K (replicate sub_dim 7)), pq_codes = []\<rparr>"

lemma int_ops_order: "float_order int_ops"
  by (auto simp: float_order_def int_ops_def)

lemma flat_index_ok: "codebooks_ok flat_index" "codebooks_ok (flat_index\<lparr>pq_codes := cs\<rparr>)"
  by (auto simp: codebooks_ok_def flat_index_def tab_dim_def simp del: sizes)

theorem linear_scan_correct_witness:
  "\<exists>sel d. linear_scan int_ops (replicate DIM 3) [replicate DIM 1, replicate DIM 4] = Some (index_of_choice sel, d) \<and>
     best int_ops (\<lambda>i. square_dist int_ops (replicate DIM 3) ([replicate DIM 1, replicate DIM 4] ! i)) 2 sel d"
  using linear_scan_correct [OF int_ops_order, of "replicate DIM 3" "[replicate DIM 1, replicate DIM 4]"] by (simp add: numeral_2_eq_2)

theorem pq_search_correct_witness:
  "\<exists>sel d. pq_search int_ops (flat_index\<lparr>pq_codes := [[1, 2, 3, 4]]\<rparr>) (replicate DIM 5) = Some (index_of_choice sel, d) \<and>
     best int_ops (code_dist int_ops (flat_index\<lparr>pq_codes := [[1, 2, 3, 4]]\<rparr>) (replicate DIM 5)) 1 sel d"
  by (rule pq_search_correct [OF int_ops_order flat_index_ok(2)]) (auto simp: tab_dim_def)

theorem encode_correct_witness:
  "\<exists>codes. encode int_ops [replicate DIM 5] flat_index = Some (flat_index\<lparr>pq_codes := codes\<rparr>) \<and>
     (\<exists>sel d. codes ! 0 ! 2 = code_of_choice 0 sel \<and> best int_ops (part_dist int_ops flat_index (replicate DIM 5) 2) K sel d)"
proof -
  have "pq_codes flat_index = []" by (simp add: flat_index_def)
  from encode_correct [OF int_ops_order flat_index_ok(1) _ this, of "[replicate DIM 5]"]
  obtain codes where "encode int_ops [replicate DIM 5] flat_index = Some (flat_index\<lparr>pq_codes := codes\<rparr>)"
    "\<forall>i m. i < length [replicate DIM 5 :: int list] \<and> m < M \<longrightarrow>
       (\<exists>sel d. codes ! i ! m = code_of_choice 0 sel \<and> best int_ops (part_dist int_ops flat_index ([replicate DIM 5] ! i) m) K sel d)"
    by auto
  from this(1) this(2) [rule_format, of 0 2] show ?thesis by auto
qed


end
