(* ===== verification/RegistryDemo.thy ===== *)
theory RegistryDemo
  imports Registry "HOL-Library.Monad_Syntax"
begin

text \<open>
  The program \<open>DAG/registry/learing_searcher_work.cpp\<close>, which registers classes and an element statically and then checks the registries in
  four functions.  A failed assertion, a call through a null pointer and a call of a missing member are \<^const>\<open>None\<close>.  The registered configuration
  is an object of its own, at an address of \<open>dw_configs\<close>.  Lines printed are left out.
\<close>

record app_config =
  cfg_theme :: string
  cfg_font_size :: int

record demo_world =
  dw_heap :: obj_heap
  dw_configs :: "nat \<Rightarrow> app_config option"

definition assert_that :: "bool \<Rightarrow> unit option" where
  "assert_that b = (if b then Some () else None)"

lemma assert_that_bind [simp]: "assert_that b \<bind> f = (if b then f () else None)"
  by (simp add: assert_that_def)

section \<open>Classes and static registration\<close>

definition dog_class :: class_info where
  "dog_class = \<lparr>class_name = ''Dog'', class_bases = [''Animal'']\<rparr>"

definition cat_class :: class_info where
  "cat_class = \<lparr>class_name = ''Cat'', class_bases = [''Animal'']\<rparr>"

definition car_class :: class_info where
  "car_class = \<lparr>class_name = ''Car'', class_bases = []\<rparr>"

definition config_class :: class_info where
  "config_class = \<lparr>class_name = ''AppConfig'', class_bases = []\<rparr>"

text \<open>The virtual call \<open>p->sound()\<close>, and \<open>static_cast<Car*>(p)->noise()\<close>.\<close>

definition sound :: "nat \<Rightarrow> obj_heap \<Rightarrow> string option" where
  "sound p h =
     (case map_of (objects h) p of
        None \<Rightarrow> None
      | Some c \<Rightarrow> if c = ''Dog'' then Some ''Woof!'' else if c = ''Cat'' then Some ''Meow~'' else None)"

definition noise :: "nat \<Rightarrow> obj_heap \<Rightarrow> string option" where
  "noise p h = (case map_of (objects h) p of None \<Rightarrow> None | Some c \<Rightarrow> if c = ''Car'' then Some ''Vroom!'' else None)"

definition g_animal_factory :: "bool \<Rightarrow> factory_registry" where
  "g_animal_factory tr2 = factory_registerer tr2 cat_class ''cat'' (factory_registerer tr2 dog_class ''dog'' empty_factory_registry)"

definition g_any_factory :: "bool \<Rightarrow> factory_registry" where
  "g_any_factory tr2 = factory_registerer tr2 car_class ''car'' empty_factory_registry"

definition g_config_registry :: "bool \<Rightarrow> nat \<Rightarrow> nat element_registry" where
  "g_config_registry tr2 p = element_registerer tr2 config_class p ''global'' empty_element_registry"

definition app_config_construct :: app_config where
  "app_config_construct = \<lparr>cfg_theme = ''light'', cfg_font_size = 12\<rparr>"

section \<open>The checks\<close>

definition test_factory_system :: "bool \<Rightarrow> demo_world \<Rightarrow> demo_world option" where
  "test_factory_system tr2 w = do {
     let (dog, h1) = create_element (g_animal_factory tr2) ''dog'' (dw_heap w);
     let (cat, h2) = create_element (g_animal_factory tr2) ''cat'' h1;
     assert_that (dog \<noteq> nullptr \<and> cat \<noteq> nullptr);
     s1 \<leftarrow> sound dog h2;
     assert_that (s1 = ''Woof!'');
     s2 \<leftarrow> sound cat h2;
     assert_that (s2 = ''Meow~'');
     let (car, h3) = create_element (g_any_factory tr2) ''car'' h2;
     assert_that (car \<noteq> nullptr);
     s3 \<leftarrow> noise car h3;
     assert_that (s3 = ''Vroom!'');
     let h4 = destroy_element (g_animal_factory tr2) ''dog'' dog h3;
     let h5 = destroy_element (g_animal_factory tr2) ''cat'' cat h4;
     let h6 = destroy_element (g_any_factory tr2) ''car'' car h5;
     Some (w\<lparr>dw_heap := h6\<rparr>) }"

definition test_element_registry :: "bool \<Rightarrow> nat \<Rightarrow> demo_world \<Rightarrow> demo_world option" where
  "test_element_registry tr2 p w = do {
     cfg1 \<leftarrow> find_element (g_config_registry tr2 p) ''global'';
     c1 \<leftarrow> dw_configs w cfg1;
     let w1 = w\<lparr>dw_configs := (dw_configs w)(cfg1 \<mapsto> c1\<lparr>cfg_theme := ''dark'', cfg_font_size := 14\<rparr>)\<rparr>;
     cfg2 \<leftarrow> find_element (g_config_registry tr2 p) ''global'';
     c2 \<leftarrow> dw_configs w1 cfg2;
     assert_that (cfg_theme c2 = ''dark'');
     assert_that (cfg_font_size c2 = 14);
     Some w1 }"

definition test_type_system :: "bool \<Rightarrow> unit option" where
  "test_type_system tr2 = do {
     dog_type \<leftarrow> type_index (factory_traits (g_animal_factory tr2)) ''dog'';
     assert_that (dog_type = class_name dog_class);
     car_type \<leftarrow> type_index (factory_traits (g_any_factory tr2)) ''car'';
     assert_that (car_type = class_name car_class) }"

definition test_error_handling :: "bool \<Rightarrow> demo_world \<Rightarrow> demo_world option" where
  "test_error_handling tr2 w = do {
     let (invalid, h1) = create_element (g_animal_factory tr2) ''dinosaur'' (dw_heap w);
     assert_that (invalid = nullptr);
     Some (w\<lparr>dw_heap := destroy_element (g_animal_factory tr2) ''ghost'' nullptr h1\<rparr>) }"

definition registry_demo :: "bool \<Rightarrow> nat \<Rightarrow> demo_world \<Rightarrow> demo_world option" where
  "registry_demo tr2 p w = do {
     w1 \<leftarrow> test_factory_system tr2 w;
     w2 \<leftarrow> test_element_registry tr2 p w1;
     test_type_system tr2;
     test_error_handling tr2 w2 }"

section \<open>The program succeeds\<close>

lemma factory_lookups:
  "create_element (g_animal_factory tr2) ''dog'' h = create_object dog_class h"
  "create_element (g_animal_factory tr2) ''cat'' h = create_object cat_class h"
  "create_element (g_animal_factory tr2) ''dinosaur'' h = (nullptr, h)"
  "create_element (g_any_factory tr2) ''car'' h = create_object car_class h"
  "destroy_element (g_animal_factory tr2) ''dog'' q h = destroy_object q h"
  "destroy_element (g_animal_factory tr2) ''cat'' q h = destroy_object q h"
  "destroy_element (g_animal_factory tr2) ''ghost'' q h = h"
  "destroy_element (g_any_factory tr2) ''car'' q h = destroy_object q h"
  "type_index (factory_traits (g_animal_factory tr2)) ''dog'' = Some ''Dog''"
  "type_index (factory_traits (g_any_factory tr2)) ''car'' = Some ''Car''"
  by (simp_all add: create_element_def destroy_element_def g_animal_factory_def g_any_factory_def factory_registerer_def register_factory_def
      register_type_traits_def type_index_def empty_factory_registry_def empty_traits_def umap_simps Let_def dog_class_def car_class_def)

lemma find_global: "find_element (g_config_registry tr2 p) ''global'' = Some p"
  by (simp add: g_config_registry_def element_registerer_find)

text \<open>
  The program runs through all its assertions exactly if memory is not exhausted.  Then every object it creates is destroyed again, so that the heap has
  the contents of before, and the configuration is changed.\<close>

theorem registry_demo_succeeds:
  assumes "heap_wf (dw_heap w)" and "dw_configs w p = Some app_config_construct"
  shows "case registry_demo tr2 p w of
      None \<Rightarrow> heap_exhausted (dw_heap w)
    | Some w' \<Rightarrow> \<not> heap_exhausted (dw_heap w) \<and> map_of (objects (dw_heap w')) = map_of (objects (dw_heap w)) \<and>
        dw_configs w' = (dw_configs w)(p \<mapsto> \<lparr>cfg_theme = ''dark'', cfg_font_size = 14\<rparr>)"
proof (cases "heap_exhausted (dw_heap w)")
  case True
  then show ?thesis by (simp add: registry_demo_def test_factory_system_def factory_lookups create_object_def)
next
  case False
  have n: "map_of (objects (dw_heap w)) k = None" if "next_object (dw_heap w) \<le> k" for k
    using assms(1) that by (metis heap_wf_def leD)
  have "0 < next_object (dw_heap w)" using assms(1) by (simp add: heap_wf_def)
  then show ?thesis using False assms(2) n
    by (auto simp: registry_demo_def test_factory_system_def test_element_registry_def test_type_system_def test_error_handling_def factory_lookups
        find_global create_object_def destroy_object_def sound_def noise_def dog_class_def cat_class_def car_class_def app_config_construct_def
        umap_simps fun_eq_iff)
qed

theorem registry_demo_succeeds_witness:
  "registry_demo True 7 \<lparr>dw_heap = demo_heap, dw_configs = [7 \<mapsto> app_config_construct]\<rparr> \<noteq> None"
  using registry_demo_succeeds [of "\<lparr>dw_heap = demo_heap, dw_configs = [7 \<mapsto> app_config_construct]\<rparr>" 7 True]
  by (cases "registry_demo True 7 \<lparr>dw_heap = demo_heap, dw_configs = [7 \<mapsto> app_config_construct]\<rparr>") (simp_all add: demo_heap_def heap_wf_def)

end
