(* ===== verification/ManagerTests.thy ===== *)
theory ManagerTests
  imports TopologyManager "HOL-Library.Monad_Syntax"
begin

text \<open>
  \<open>DAG/sw/server/tests/ModuleTopologyManagerTest.cpp\<close>, the unit tests of the topology manager, run on its model.  A test is a function that is \<^const>\<open>None\<close>
  as soon as an assertion fails.  The container of the index and the session-local data are the instances of the witnesses; the assertions on
  schedulers (code outside the repository) are left out.  The test with many threads is the step relation of \<open>ManagerThreads\<close>.
\<close>

section \<open>Mock classes\<close>

definition assert_true :: "bool \<Rightarrow> unit option" where
  "assert_true b = (if b then Some () else None)"

definition mock_sync_class :: class_info where
  "mock_sync_class = \<lparr>class_name = ''MockSyncModule'', class_bases = [''SyncModule'']\<rparr>"

definition mock_async_class :: class_info where
  "mock_async_class = \<lparr>class_name = ''MockAsyncRpcModule'', class_bases = [''AsyncRpcModule'']\<rparr>"

definition g_module_registry :: factory_registry where
  "g_module_registry = factory_registerer True mock_async_class ''mock_async_rpc_module''
     (factory_registerer True mock_sync_class ''mock_sync_module'' empty_factory_registry)"

definition test_manager :: "(index \<times> index, nat) manager" where
  "test_manager = manager_init ([], []) g_module_registry"

definition mock_is_sync :: "string \<Rightarrow> bool" where
  "mock_is_sync = is_sync_module True (factory_traits g_module_registry)"

definition node :: "string \<Rightarrow> string \<Rightarrow> string list \<Rightarrow> runnable_element" where
  "node name factory ds = \<lparr>re_name = name, re_factory_name = factory, re_dependencies = ds, re_module_params = []\<rparr>"

section \<open>Sorting\<close>

definition module_factories :: "(string, string) umap" where
  "module_factories = [(''module_1'', ''mock_sync_module''), (''module_2'', ''mock_sync_module''), (''module_3'', ''mock_sync_module''),
     (''module_4'', ''mock_sync_module''), (''module_5'', ''mock_sync_module''), (''module_6'', ''mock_sync_module''),
     (''module_async'', ''mock_async_rpc_module'')]"

definition parallel_of :: "(string \<times> string list) list \<Rightarrow> string set option" where
  "parallel_of list_topology =
     (case topology_sort_vec mock_is_sync False (map (\<lambda>(n, ds). node n [] ds) list_topology) None module_factories (Some {}) of
        (True, s) \<Rightarrow> parallel_modules s
      | (False, s) \<Rightarrow> None)"

definition test_parallel_module_selection :: "unit option" where
  "test_parallel_module_selection = do {
     assert_true (mock_is_sync ''mock_sync_module'');
     assert_true (\<not> mock_is_sync ''mock_async_rpc_module'');
     assert_true (parallel_of [(''module_1'', []), (''module_2'', [''module_1'']), (''module_3'', [''module_2''])] = Some {});
     assert_true (parallel_of [(''module_1'', []), (''module_2'', [''module_1'']), (''module_3'', [''module_1'']),
         (''module_4'', [''module_1'']), (''module_5'', [''module_2'', ''module_3'', ''module_4''])] = Some {''module_2'', ''module_3'', ''module_4''});
     assert_true (parallel_of [(''module_1'', []), (''module_2'', [''module_1'']), (''module_3'', []),
         (''module_4'', [''module_2'', ''module_3'']), (''module_5'', [''module_4''])] = Some {''module_1'', ''module_3''});
     assert_true (parallel_of [(''module_1'', []), (''module_2'', [''module_1'']), (''module_3'', [''module_2'']),
         (''module_4'', [''module_1'', ''module_3'']), (''module_5'', [''module_1'']), (''module_6'', [''module_4'', ''module_5''])] =
       Some {''module_2'', ''module_5''});
     assert_true (parallel_of [(''module_1'', []), (''module_2'', [''module_1'']), (''module_async'', [''module_1'']),
         (''module_4'', [''module_1'']), (''module_5'', [''module_2'', ''module_async'', ''module_4''])] = Some {''module_2'', ''module_4''}) }"

definition sorts :: "(string \<times> string \<times> string list) list \<Rightarrow> bool" where
  "sorts topology = fst (topology_sort_vec mock_is_sync False (map (\<lambda>(n, f, ds). node n f ds) topology) None [] None)"

text \<open>The vectors are resized first, so positions that are not assigned hold an element without a name.\<close>

definition test_topological_sort :: "unit option" where
  "test_topological_sort = do {
     assert_true (sorts []);
     assert_true (sorts [(''0'', ''f0'', []), (''1'', ''f1'', [''0'']), (''2'', ''f2'', [''1''])]);
     assert_true (sorts [(''0'', ''f0'', []), (''1'', ''f1'', [''0'']), (''2'', ''f2'', [''0'']), (''3'', ''f3'', [''1'', ''2''])]);
     assert_true (sorts [(''0'', ''f0'', []), (''1'', ''f1'', [''0'']), (''2'', ''f2'', [''0'']), (''3'', ''f3'', [''1'', ''2'']),
       (''4'', ''f4'', []), (''5'', ''f5'', [''4'']), (''6'', ''f6'', [''5''])]);
     assert_true (\<not> sorts [(''0'', ''f0'', []), (''1'', ''f1'', [''0'', ''3'']), (''2'', ''f2'', [''1'']), (''3'', ''f3'', [''2'']),
       (''4'', ''f4'', [''3''])]);
     assert_true (\<not> sorts [(''0'', ''f0'', []), (''1'', ''f1'', [''0'']), (''2'', ''f2'', [''0'']), (''3'', ''f3'', [''1'', ''2'']),
       ([], [], []), (''5'', ''f5'', []), (''6'', ''f6'', [''5'', ''8'']), (''7'', ''f7'', [''6'']), (''8'', ''f8'', [''7''])]);
     assert_true (sorts [(''0'', ''f0'', []), (''1'', ''f1'', [''0'']), (''2'', ''f2'', [''0'']), (''3'', ''f3'', [''1'', ''2'']),
       ([], [], []), (''5'', ''f5'', []), (''6'', ''f6'', [''5'']), (''7'', ''f7'', [''5'']), (''8'', ''f8'', [''6'', ''7''])]) }"

section \<open>Modules and topologies\<close>

text \<open>The first argument tells whether the application is initialized before topologies are added.\<close>

definition topology_one :: "runnable_element list" where
  "topology_one = [node ''module_1'' ''mock_sync_module'' [], node ''module_2'' ''mock_sync_module'' [''module_1''],
     node ''module_3'' ''mock_sync_module'' [''module_2'']]"

definition topology_two :: "runnable_element list" where
  "topology_two = [node ''module_1'' ''mock_sync_module'' [], node ''module_2'' ''mock_sync_module'' [''module_1''],
     node ''module_4'' ''mock_sync_module'' [''module_2'']]"

definition found_topology :: "(index \<times> index, nat) manager \<Rightarrow> string \<Rightarrow> nat module_topology option" where
  "found_topology g name =
     (case read_topology_list pair_ops g (\<lambda>idx output. case map_of idx name of None \<Rightarrow> output | Some p \<Rightarrow> map_of (mg_heap g) p) None of
        (True, output) \<Rightarrow> output
      | (False, output) \<Rightarrow> None)"

definition test_add_topology :: "bool \<Rightarrow> unit option" where
  "test_add_topology initialized = do {
     let (r1, g1) = add_module_if_not_exist ''module_1'' ''mock_sync_module'' test_manager;
     assert_true r1;
     let (r2, g2) = add_module_if_not_exist ''module_2'' ''mock_sync_module'' g1;
     assert_true r2;
     let (r3, g3) = add_module_if_not_exist ''module_3'' ''mock_sync_module'' g2;
     assert_true r3;
     let (r4, g4) = add_module_if_not_exist ''module_4'' ''mock_sync_module'' g3;
     assert_true r4;
     let (r5, g5) = add_module_if_not_exist ''module_4'' ''mock_sync_module'' g4;
     assert_true r5;
     let (r6, g6) = add_module_if_not_exist ''module_5'' ''not_exist_module'' g5;
     assert_true (\<not> r6);
     let g7 = (if initialized then set_app_initialized g6 else g6);
     let (a1, g8) = add_topology_desc pair_ops demo_env ''topology_one'' topology_one [] g7;
     assert_true (a1 = Done);
     let (a2, g9) = add_topology_desc pair_ops demo_env ''topology_two'' topology_two [] g8;
     assert_true (a2 = Done);
     assert_true (contain pair_ops g9 ''topology_one'');
     assert_true (contain pair_ops g9 ''topology_two'');
     let (a3, g10) = add_topology_desc pair_ops demo_env ''topology_one'' topology_one [] g9;
     assert_true (a3 = Done);
     assert_true (found_topology g10 ''not_exist_topology'' = None);
     t \<leftarrow> found_topology g10 ''topology_one'';
     assert_true (mt_name t = ''topology_one'') }"

definition local_module_config :: topology_config where
  "local_module_config = \<lparr>
     tc_module = [\<lparr>pm_name = ''local_module_2'', pm_factory_name = ''mock_sync_module'', pm_custom_params = [(''local_param'', ''local_value'')]\<rparr>,
       \<lparr>pm_name = ''local_module_3'', pm_factory_name = ''mock_sync_module'', pm_custom_params = []\<rparr>],
     tc_topology = \<lparr>rt_name = ''topology_one'',
       rt_element = [\<lparr>el_name = ''module_1'', el_dependency = [], el_allow_parallel = False,
           el_custom_params = [(''local_param_1'', ''local_value_1'')]\<rparr>,
         \<lparr>el_name = ''local_module_2'', el_dependency = [''module_1''], el_allow_parallel = False, el_custom_params = []\<rparr>,
         \<lparr>el_name = ''local_module_3'', el_dependency = [''local_module_2''], el_allow_parallel = False, el_custom_params = []\<rparr>],
       rt_custom_params = [(''topology_param_1'', ''topology_value_1'')]\<rparr>\<rparr>"

definition test_add_topology_with_local_module :: "unit option" where
  "test_add_topology_with_local_module = do {
     let (r1, g1) = add_module \<lparr>pm_name = ''module_1'', pm_factory_name = ''mock_sync_module'',
       pm_custom_params = [(''global_param'', ''global_value'')]\<rparr> test_manager;
     assert_true r1;
     let g2 = set_app_initialized g1;
     let (r2, g3) = add_module_if_not_exist ''module_2'' ''mock_sync_module'' g2;
     assert_true (\<not> r2);
     let (a, g4) = add_topology pair_ops demo_env local_module_config g3;
     assert_true (a = Done);
     assert_true (contain pair_ops g4 ''topology_one'');
     assert_true (found_topology g4 ''not_exist_topology'' = None);
     t \<leftarrow> found_topology g4 ''topology_one'';
     assert_true (mt_name t = ''topology_one'');
     assert_true (umap_eq (mt_custom_params t) [(''topology_param_1'', ''topology_value_1'')]);
     assert_true (length (mt_desc t) = 3);
     assert_true (re_name (mt_desc t ! 0) = ''module_1'');
     assert_true (umap_eq (re_module_params (mt_desc t ! 0)) [(''global_param'', ''global_value''), (''local_param_1'', ''local_value_1'')]);
     assert_true (re_name (mt_desc t ! 1) = ''local_module_2'');
     assert_true (umap_eq (re_module_params (mt_desc t ! 1)) [(''local_param'', ''local_value'')]) }"

definition test_add_module :: "unit option" where
  "test_add_module = do {
     let (r1, g1) = add_module_if_not_exist ''m1'' ''mock_sync_module'' test_manager;
     assert_true r1;
     let (r2, g2) = add_module_if_not_exist ''m1'' ''mock_sync_module'' g1;
     assert_true r2;
     let m = \<lparr>pm_name = ''m1'', pm_factory_name = ''mock_sync_module'', pm_custom_params = []\<rparr>;
     let (r3, g3) = add_module m test_manager;
     assert_true r3;
     let (r4, g4) = add_module m g3;
     assert_true (\<not> r4) }"

section \<open>All assertions hold\<close>

lemma test_parallel_module_selection_passes: "test_parallel_module_selection = Some ()"
  by code_simp

lemma test_topological_sort_passes: "test_topological_sort = Some ()"
  by code_simp

lemma test_add_topology_startup: "test_add_topology False = Some ()"
  by code_simp

lemma test_add_topology_dynamically: "test_add_topology True = Some ()"
  by code_simp

lemma test_add_topology_passes: "test_add_topology initialized = Some ()"
  using test_add_topology_startup test_add_topology_dynamically by (cases initialized) simp_all

lemma test_add_topology_with_local_module_passes: "test_add_topology_with_local_module = Some ()"
  by code_simp

lemma test_add_module_passes: "test_add_module = Some ()"
  by code_simp

text \<open>
  The unit tests of the topology manager succeed on the model: the sorts accept and reject the topologies of the tests and report the parallel modules
  they expect, modules and topologies can be added before and after the application is initialized, local parameters override global
  ones, and modules cannot be added later.\<close>

theorem manager_tests_pass:
  "test_parallel_module_selection = Some () \<and> test_topological_sort = Some () \<and> (\<forall>initialized. test_add_topology initialized = Some ()) \<and>
   test_add_topology_with_local_module = Some () \<and> test_add_module = Some ()"
  by (simp add: test_parallel_module_selection_passes test_topological_sort_passes test_add_topology_passes
      test_add_topology_with_local_module_passes test_add_module_passes)

end
