(* ===== verification/ManagerThreads.thy ===== *)
theory ManagerThreads
  imports Lifecycle ManagerTests ServerConfig
begin

text \<open>
  The test with many threads of \<open>ModuleTopologyManagerTest.cpp\<close>: request threads, threads that replace topologies and threads that remove them, as
  programs over the steps of \<open>Lifecycle\<close>.  A thread is its program point; a call of the manager is cut into the steps at which other threads
  can come between.  \<open>add_topology\<close> runs its checks, the monitor and the pool through the definitions of \<open>TopologyManager\<close> and fails where they
  fail; \<open>EmplaceTopologyMonitor\<close>, \<open>Add\<close> and \<open>Delete\<close> take the storage mutex, do their work while they hold it, and release it.
\<close>

section \<open>The steps of the manager\<close>

definition read_begin :: "nat \<Rightarrow> life \<Rightarrow> life" where
  "read_begin t l = l\<lparr>lf_req := (lf_req l)(t := Reading (lf_index l))\<rparr>"

definition read_end :: "nat \<Rightarrow> life \<Rightarrow> life" where
  "read_end t l = l\<lparr>lf_req := (lf_req l)(t := Idle)\<rparr>"

definition read_pick :: "nat \<Rightarrow> nat \<Rightarrow> life \<Rightarrow> life" where
  "read_pick t p l = l\<lparr>lf_req := (lf_req l)(t := Using p), lf_ref := (lf_ref l)(p := lf_ref l p + 1)\<rparr>"

definition decrease_ref :: "nat \<Rightarrow> nat \<Rightarrow> life \<Rightarrow> life" where
  "decrease_ref t p l = l\<lparr>lf_req := (lf_req l)(t := Idle), lf_ref := (lf_ref l)(p := lf_ref l p - 1)\<rparr>"

definition publish_name :: "string \<Rightarrow> life \<Rightarrow> life" where
  "publish_name n l = l\<lparr>lf_index := (lf_index l)(n \<mapsto> lf_next l), lf_live := insert (lf_next l) (lf_live l),
     lf_ref := (lf_ref l)(lf_next l := 0), lf_modify := Some (Some (lf_next l), lf_index l n), lf_next := Suc (lf_next l)\<rparr>"

definition withdraw_name :: "string \<Rightarrow> life \<Rightarrow> life" where
  "withdraw_name n l = l\<lparr>lf_index := (lf_index l)(n := None), lf_modify := Some (None, lf_index l n)\<rparr>"

definition no_old_reader :: "life \<Rightarrow> bool" where
  "no_old_reader l \<longleftrightarrow> (\<forall>t idx. lf_req l t = Reading idx \<longrightarrow> idx = lf_index l)"

section \<open>What the calls do before they touch the index\<close>

definition test_module :: proto_module where
  "test_module = \<lparr>pm_name = ''module_1'', pm_factory_name = ''mock_sync_module'', pm_custom_params = []\<rparr>"

text \<open>\<open>SetUp\<close>: the manager whose modules, registry and monitors the calls use; its index and its storage are the ones of the life cycle.\<close>

definition set_up :: "'p sw_env \<Rightarrow> bool \<times> (index \<times> index, 'p) manager" where
  "set_up env =
     (let (added, g1) = add_module test_module (manager_init ([], []) g_module_registry);
          (valid, g2) = validate_and_reserve pair_ops env (set_app_initialized g1)
      in (added \<and> valid, g2))"

definition plan_for :: "'p sw_env \<Rightarrow> string \<Rightarrow> add_error + 'p module_topology" where
  "plan_for env name = plan_topology env (mg_app_registry (snd (set_up env))) (mg_global_modules (snd (set_up env)))
     (pack_desc name [node ''module_1'' ''mock_sync_module'' []] [])"

definition emplace_for :: "'p sw_env \<Rightarrow> string \<Rightarrow> (string, bool) umap \<Rightarrow> bool \<times> (string, bool) umap" where
  "emplace_for env name ms =
     (case emplace_topology_monitor env name ((snd (set_up env))\<lparr>mg_monitors := ms\<rparr>) of (ok, g) \<Rightarrow> (ok, mg_monitors g))"

definition pool_for :: "'p sw_env \<Rightarrow> string \<Rightarrow> 'p option" where
  "pool_for env name =
     (case plan_for env name of
        Inl e \<Rightarrow> None
      | Inr t \<Rightarrow> create_session_local_data_pool env name t (mg_app_initialized (snd (set_up env))))"

section \<open>Threads\<close>

text \<open>
  \<open>HoldAt i\<close>: the request for number \<open>i\<close> has its topology and simulates work with it.  A replacing thread passes \<open>EmplaceAt\<close> (about to lock the
  storage for the monitor), \<open>EmplacingAt\<close> (holds the lock), \<open>PoolAt\<close>, \<open>ReplaceAt\<close> (about to call \<open>Modify\<close>), \<open>WaitAt\<close> (inside \<open>Modify\<close>), \<open>StoreAt\<close> and
  \<open>StoringAt\<close> (\<open>Add\<close>), and \<open>DeleteAt\<close>, \<open>PurgeAt\<close>, \<open>PurgingAt\<close> (\<open>wait_and_delete\<close>: spinning, about to lock, in \<open>Delete\<close>); the boolean tells
  replacing threads from removing ones.  \<open>FailedAt\<close>: an assertion or expectation has failed.
\<close>

datatype test_pc =
    SeekHead | ContainAt | InContain | SeekAt nat | InSeek nat | HoldAt nat
  | UpdateHead bool | UpdateAt bool nat | EmplaceAt nat | EmplacingAt nat | PoolAt nat | ReplaceAt nat | WaitAt bool nat
  | StoreAt nat nat "nat option" | StoringAt nat nat "nat option" | DeleteAt bool nat "nat option" | PurgeAt bool nat nat | PurgingAt bool nat nat
  | Exited | FailedAt

record test_state =
  ts_life :: life
  ts_pc :: "nat \<Rightarrow> test_pc"
  ts_lock :: "nat option"
  ts_monitors :: "(string, bool) umap"
  ts_stop :: bool

definition test_name :: "nat \<Rightarrow> string" where
  "test_name i = ''test_'' @ decimal i"

definition seek_next :: "nat \<Rightarrow> test_pc" where
  "seek_next i = (if i + 1 < 60 then SeekAt (i + 1) else SeekHead)"

definition update_first :: "bool \<Rightarrow> nat" where
  "update_first replacing = (if replacing then 0 else 30)"

definition update_next :: "bool \<Rightarrow> nat \<Rightarrow> test_pc" where
  "update_next replacing i = (if i + 1 < 60 then UpdateAt replacing (i + 1) else UpdateHead replacing)"

definition move :: "nat \<Rightarrow> test_pc \<Rightarrow> life \<Rightarrow> test_state \<Rightarrow> test_state" where
  "move t q l s = s\<lparr>ts_pc := (ts_pc s)(t := q), ts_life := l\<rparr>"

inductive test_step :: "'p sw_env \<Rightarrow> test_state \<Rightarrow> test_state \<Rightarrow> bool" for env :: "'p sw_env" where
  stop: "test_step env s (s\<lparr>ts_stop := True\<rparr>)"
| seek_exit: "ts_pc s t = SeekHead \<Longrightarrow> ts_stop s \<Longrightarrow> test_step env s (move t Exited (ts_life s) s)"
| seek_loop: "ts_pc s t = SeekHead \<Longrightarrow> \<not> ts_stop s \<Longrightarrow> test_step env s (move t ContainAt (ts_life s) s)"
| contain_begin: "ts_pc s t = ContainAt \<Longrightarrow> test_step env s (move t InContain (read_begin t (ts_life s)) s)"
| contain_end: "ts_pc s t = InContain \<Longrightarrow> lf_req (ts_life s) t = Reading idx \<Longrightarrow>
    test_step env s (move t (if idx ''test_default'' = None then FailedAt else SeekAt 0) (read_end t (ts_life s)) s)"
| seek_begin: "ts_pc s t = SeekAt i \<Longrightarrow> test_step env s (move t (InSeek i) (read_begin t (ts_life s)) s)"
| seek_found: "ts_pc s t = InSeek i \<Longrightarrow> lf_req (ts_life s) t = Reading idx \<Longrightarrow> idx (test_name i) = Some p \<Longrightarrow>
    test_step env s (move t (HoldAt i) (read_pick t p (ts_life s)) s)"
| seek_missing: "ts_pc s t = InSeek i \<Longrightarrow> lf_req (ts_life s) t = Reading idx \<Longrightarrow> idx (test_name i) = None \<Longrightarrow>
    test_step env s (move t (if i < 30 then FailedAt else seek_next i) (read_end t (ts_life s)) s)"
| seek_done: "ts_pc s t = HoldAt i \<Longrightarrow> lf_req (ts_life s) t = Using p \<Longrightarrow>
    test_step env s (move t (seek_next i) (decrease_ref t p (ts_life s)) s)"
| update_exit: "ts_pc s t = UpdateHead replacing \<Longrightarrow> ts_stop s \<Longrightarrow> test_step env s (move t Exited (ts_life s) s)"
| update_loop: "ts_pc s t = UpdateHead replacing \<Longrightarrow> \<not> ts_stop s \<Longrightarrow>
    test_step env s (move t (UpdateAt replacing (update_first replacing)) (ts_life s) s)"
| replace_plan: "ts_pc s t = UpdateAt True i \<Longrightarrow>
    test_step env s (move t (case plan_for env (test_name i) of Inl e \<Rightarrow> FailedAt | Inr m \<Rightarrow> EmplaceAt i) (ts_life s) s)"
| emplace_lock: "ts_pc s t = EmplaceAt i \<Longrightarrow> ts_lock s = None \<Longrightarrow>
    test_step env s (move t (EmplacingAt i) (ts_life s) (s\<lparr>ts_lock := Some t\<rparr>))"
| emplace_done: "ts_pc s t = EmplacingAt i \<Longrightarrow> emplace_for env (test_name i) (ts_monitors s) = (ok, ms) \<Longrightarrow>
    test_step env s (move t (if ok then PoolAt i else FailedAt) (ts_life s) (s\<lparr>ts_lock := None, ts_monitors := ms\<rparr>))"
| replace_pool: "ts_pc s t = PoolAt i \<Longrightarrow>
    test_step env s (move t (if pool_for env (test_name i) = None then FailedAt else ReplaceAt i) (ts_life s) s)"
| replace_begin: "ts_pc s t = ReplaceAt i \<Longrightarrow> lf_modify (ts_life s) = None \<Longrightarrow>
    test_step env s (move t (WaitAt True i) (publish_name (test_name i) (ts_life s)) s)"
| remove_begin: "ts_pc s t = UpdateAt False i \<Longrightarrow> lf_modify (ts_life s) = None \<Longrightarrow> lf_index (ts_life s) (test_name i) \<noteq> None \<Longrightarrow>
    test_step env s (move t (WaitAt False i) (withdraw_name (test_name i) (ts_life s)) s)"
| remove_missing: "ts_pc s t = UpdateAt False i \<Longrightarrow> lf_modify (ts_life s) = None \<Longrightarrow> lf_index (ts_life s) (test_name i) = None \<Longrightarrow>
    test_step env s (move t (update_next False i) (ts_life s) s)"
| update_wait: "ts_pc s t = WaitAt replacing i \<Longrightarrow> lf_modify (ts_life s) = Some (new, old) \<Longrightarrow> no_old_reader (ts_life s) \<Longrightarrow>
    test_step env s (move t (case new of None \<Rightarrow> DeleteAt replacing i old | Some p \<Rightarrow> StoreAt i p old) (end_modify new old (ts_life s)) s)"
| store_lock: "ts_pc s t = StoreAt i p old \<Longrightarrow> ts_lock s = None \<Longrightarrow>
    test_step env s (move t (StoringAt i p old) (ts_life s) (s\<lparr>ts_lock := Some t\<rparr>))"
| store_done: "ts_pc s t = StoringAt i p old \<Longrightarrow>
    test_step env s (move t (DeleteAt True i old) (store_topology p (ts_life s)) (s\<lparr>ts_lock := None\<rparr>))"
| update_spun: "ts_pc s t = DeleteAt replacing i (Some p) \<Longrightarrow> lf_ref (ts_life s) p = 0 \<Longrightarrow>
    test_step env s (move t (PurgeAt replacing i p) (ts_life s) s)"
| purge_lock: "ts_pc s t = PurgeAt replacing i p \<Longrightarrow> ts_lock s = None \<Longrightarrow>
    test_step env s (move t (PurgingAt replacing i p) (ts_life s) (s\<lparr>ts_lock := Some t\<rparr>))"
| purge_done: "ts_pc s t = PurgingAt replacing i p \<Longrightarrow>
    test_step env s (move t (update_next replacing i) (delete_topology p (ts_life s)) (s\<lparr>ts_lock := None\<rparr>))"
| update_done: "ts_pc s t = DeleteAt replacing i None \<Longrightarrow> test_step env s (move t (update_next replacing i) (ts_life s) s)"

text \<open>
  The state in which the threads are started: thirty request threads, then five that replace and five that remove.  The main thread, number 40, has
  added the first topologies; it has failed if one of these calls, or \<open>SetUp\<close>, has.
\<close>

definition add_initial :: "'p sw_env \<Rightarrow> string \<Rightarrow> bool \<times> (string, bool) umap \<times> life \<Rightarrow> bool \<times> (string, bool) umap \<times> life" where
  "add_initial env n = (\<lambda>(ok, ms, l).
     case plan_for env n of
       Inl e \<Rightarrow> (False, ms, l)
     | Inr m \<Rightarrow>
         (case emplace_for env n ms of
            (False, ms') \<Rightarrow> (False, ms', l)
          | (True, ms') \<Rightarrow>
              if pool_for env n = None then (False, ms', l)
              else let p = lf_next l; old = lf_index l n; l1 = store_topology p (end_modify (Some p) old (publish_name n l))
                   in (ok, ms', case old of None \<Rightarrow> l1 | Some q \<Rightarrow> delete_topology q l1)))"

definition initial_names :: "string list" where
  "initial_names = ''test_default'' # map test_name [0..<30]"

definition test_start :: "'p sw_env \<Rightarrow> test_state" where
  "test_start env =
     (case fold (add_initial env) initial_names (fst (set_up env), mg_monitors (snd (set_up env)), life_init) of
        (ok, ms, l) \<Rightarrow>
          \<lparr>ts_life = l,
           ts_pc = (\<lambda>t. if t < 30 then SeekHead else if t < 35 then UpdateHead True else if t < 40 then UpdateHead False
                        else if t = 40 \<and> \<not> ok then FailedAt else Exited),
           ts_lock = None, ts_monitors = ms, ts_stop = False\<rparr>)"

section \<open>The calls succeed\<close>

lemma set_up_eq:
  "fst (set_up env)" "mg_app_registry (snd (set_up env)) = g_module_registry" "mg_global_modules (snd (set_up env)) = [(''module_1'', test_module)]"
  "mg_app_initialized (snd (set_up env))" "mg_monitors (snd (set_up env)) = []"
  by (simp_all add: set_up_def add_module_def manager_init_def set_app_initialized_def validate_and_reserve_def pair_ops_def test_module_def
      g_module_registry_def umap_emplace_def)

lemma mock_registered: "contain_factory g_module_registry ''mock_sync_module''"
  by (simp add: g_module_registry_def)

lemma test_config_ok: "config_ok [(''module_1'', test_module)] (pack_desc n [node ''module_1'' ''mock_sync_module'' []] [])"
  by (simp add: config_ok_def pack_desc_def node_def definition_of_def deps_def names_def acyclic_def Let_def test_module_def module_equal_def)

lemma plan_for_ok: obtains m where "plan_for env n = Inr m"
  using plan_topology_iff [of env] test_config_ok [of n] unfolding plan_for_def set_up_eq by metis

lemma emplace_for_ok: "expose_monitor env n = 0 \<Longrightarrow> fst (emplace_for env n ms)"
  by (simp add: emplace_for_def emplace_topology_monitor_def split: prod.splits)

lemma pool_for_ok:
  fixes env :: "'p sw_env"
  assumes "env_ready g_module_registry env"
  shows "pool_for env n \<noteq> None"
proof -
  obtain m where m: "plan_for env n = Inr m" by (rule plan_for_ok)
  obtain pool where "new_pool env n m = Some pool" "fst (pool_test env pool)"
    by (rule planned_pool [OF assms m [unfolded plan_for_def set_up_eq]])
      (auto simp: pack_desc_def node_def test_module_def mock_registered)
  then show ?thesis using m by (auto simp: pool_for_def create_session_local_data_pool_def split: prod.splits)
qed

section \<open>Invariant\<close>

text \<open>The topologies that the removing threads leave alone stay in every index that is read.\<close>

definition kept_inv :: "life \<Rightarrow> bool" where
  "kept_inv l \<longleftrightarrow> life_inv l \<and> set initial_names \<subseteq> dom (lf_index l) \<and> (\<forall>t idx. lf_req l t = Reading idx \<longrightarrow> set initial_names \<subseteq> dom idx)"

definition pc_ok :: "req_state \<Rightarrow> test_pc \<Rightarrow> bool" where
  "pc_ok r q \<longleftrightarrow>
     (case q of
        InContain \<Rightarrow> \<exists>idx. r = Reading idx
      | InSeek i \<Rightarrow> \<exists>idx. r = Reading idx
      | HoldAt i \<Rightarrow> \<exists>p. r = Using p
      | FailedAt \<Rightarrow> False
      | UpdateAt replacing i \<Rightarrow> r = Idle \<and> i < 60 \<and> (\<not> replacing \<longrightarrow> 30 \<le> i)
      | EmplaceAt i \<Rightarrow> r = Idle \<and> i < 60
      | EmplacingAt i \<Rightarrow> r = Idle \<and> i < 60
      | PoolAt i \<Rightarrow> r = Idle \<and> i < 60
      | ReplaceAt i \<Rightarrow> r = Idle \<and> i < 60
      | WaitAt replacing i \<Rightarrow> r = Idle \<and> i < 60 \<and> (\<not> replacing \<longrightarrow> 30 \<le> i)
      | StoreAt i p old \<Rightarrow> r = Idle \<and> i < 60
      | StoringAt i p old \<Rightarrow> r = Idle \<and> i < 60
      | DeleteAt replacing i old \<Rightarrow> r = Idle \<and> i < 60 \<and> (\<not> replacing \<longrightarrow> 30 \<le> i)
      | PurgeAt replacing i p \<Rightarrow> r = Idle \<and> i < 60 \<and> (\<not> replacing \<longrightarrow> 30 \<le> i)
      | PurgingAt replacing i p \<Rightarrow> r = Idle \<and> i < 60 \<and> (\<not> replacing \<longrightarrow> 30 \<le> i)
      | _ \<Rightarrow> r = Idle)"

text \<open>What a thread has yet to delete, what it has found unused, and what it has yet to store with the topology it replaced.\<close>

definition owned :: "test_pc \<Rightarrow> nat set" where
  "owned q = (case q of StoreAt i p old \<Rightarrow> set_option old | StoringAt i p old \<Rightarrow> set_option old | DeleteAt replacing i old \<Rightarrow> set_option old
     | PurgeAt replacing i p \<Rightarrow> {p} | PurgingAt replacing i p \<Rightarrow> {p} | _ \<Rightarrow> {})"

definition unused :: "test_pc \<Rightarrow> nat set" where
  "unused q = (case q of PurgeAt replacing i p \<Rightarrow> {p} | PurgingAt replacing i p \<Rightarrow> {p} | _ \<Rightarrow> {})"

definition adds :: "test_pc \<Rightarrow> (nat \<times> nat option) option" where
  "adds q = (case q of StoreAt i p old \<Rightarrow> Some (p, old) | StoringAt i p old \<Rightarrow> Some (p, old) | _ \<Rightarrow> None)"

definition threads_ok :: "life \<Rightarrow> (nat \<Rightarrow> test_pc) \<Rightarrow> bool" where
  "threads_ok l pcs \<longleftrightarrow> kept_inv l \<and> (\<forall>t. pc_ok (lf_req l t) (pcs t)) \<and>
     (\<forall>t. owned (pcs t) \<subseteq> lf_doomed l) \<and> (\<forall>t u. t \<noteq> u \<longrightarrow> owned (pcs t) \<inter> owned (pcs u) = {}) \<and>
     (\<forall>t. \<forall>p \<in> unused (pcs t). lf_ref l p = 0) \<and>
     (\<forall>p old. lf_adding l p = Some old \<longleftrightarrow> (\<exists>t. adds (pcs t) = Some (p, old))) \<and>
     (\<forall>t u p old old'. adds (pcs t) = Some (p, old) \<longrightarrow> adds (pcs u) = Some (p, old') \<longrightarrow> t = u)"

lemma threadsD:
  assumes "threads_ok l pcs"
  shows "kept_inv l" and "pc_ok (lf_req l t) (pcs t)" and "owned (pcs t) \<subseteq> lf_doomed l" and "t \<noteq> u \<Longrightarrow> owned (pcs t) \<inter> owned (pcs u) = {}"
    and "p \<in> unused (pcs t) \<Longrightarrow> lf_ref l p = 0" and "lf_adding l p = Some old \<longleftrightarrow> (\<exists>t. adds (pcs t) = Some (p, old))"
    and "adds (pcs t) = Some (p, old) \<Longrightarrow> adds (pcs u) = Some (p, old') \<Longrightarrow> t = u"
  using assms unfolding threads_ok_def by blast+

lemmas pc_defs = pc_ok_def owned_def unused_def adds_def

lemmas life_ops = read_begin_def read_end_def read_pick_def decrease_ref_def publish_name_def withdraw_name_def

lemma removed_not_kept: "30 \<le> i \<Longrightarrow> i < 60 \<Longrightarrow> test_name i \<notin> set initial_names"
proof -
  have "list_all (\<lambda>i. \<not> List.member initial_names (test_name i)) [30..<60]" by code_simp
  then show "30 \<le> i \<Longrightarrow> i < 60 \<Longrightarrow> test_name i \<notin> set initial_names" 
    unfolding list_all_iff List.member_iff by (simp only: set_upt atLeastLessThan_iff Ball_def) blast
qed

lemma sought_kept: "i < 30 \<Longrightarrow> test_name i \<in> set initial_names"
  by (simp add: initial_names_def)

text \<open>A step that starts no deletion and no addition, and ends none.\<close>

lemma threads_quiet:
  assumes ok: "threads_ok l pcs" and l: "kept_inv l'" and req: "\<And>u. u \<noteq> t \<Longrightarrow> lf_req l' u = lf_req l u" and q: "pc_ok (lf_req l' t) q"
    and own: "owned q \<subseteq> owned (pcs t)" and add: "adds q = adds (pcs t)" and same: "lf_doomed l' = lf_doomed l" "lf_adding l' = lf_adding l"
    and ref: "\<And>p. p \<in> lf_doomed l \<Longrightarrow> lf_ref l p = 0 \<Longrightarrow> lf_ref l' p = 0" and un: "\<And>p. p \<in> unused q \<Longrightarrow> lf_ref l' p = 0"
  shows "threads_ok l' (pcs(t := q))"
proof -
  note I = threadsD [OF ok]
  have sub: "unused r \<subseteq> owned r" for r by (cases r) (simp_all add: owned_def unused_def)
  have adds: "adds ((pcs(t := q)) u) = adds (pcs u)" for u by (simp add: add)
  show ?thesis
    unfolding threads_ok_def same adds
  proof (intro conjI)
    show "kept_inv l'" by (rule l)
    show "\<forall>u. pc_ok (lf_req l' u) ((pcs(t := q)) u)" using I(2) req q by auto
    show "\<forall>u. owned ((pcs(t := q)) u) \<subseteq> lf_doomed l" using I(3) own by auto
    show "\<forall>u v. u \<noteq> v \<longrightarrow> owned ((pcs(t := q)) u) \<inter> owned ((pcs(t := q)) v) = {}" using I(4) own by (simp add: disjoint_iff) blast
    show "\<forall>u. \<forall>p \<in> unused ((pcs(t := q)) u). lf_ref l' p = 0" using I(3,5) sub ref un by (simp add: subset_iff) metis
    show "\<forall>p old. lf_adding l p = Some old \<longleftrightarrow> (\<exists>t. adds (pcs t) = Some (p, old))" using I(6) by blast
    show "\<forall>t u p old old'. adds (pcs t) = Some (p, old) \<longrightarrow> adds (pcs u) = Some (p, old') \<longrightarrow> t = u" using I(7) by blast
  qed
qed

lemma threads_local:
  "threads_ok l pcs \<Longrightarrow> pc_ok (lf_req l t) q \<Longrightarrow> owned q \<subseteq> owned (pcs t) \<Longrightarrow> adds q = adds (pcs t) \<Longrightarrow> unused q \<subseteq> unused (pcs t) \<Longrightarrow>
    threads_ok l (pcs(t := q))"
  by (rule threads_quiet) (auto dest: threadsD(1,5))

text \<open>The steps of the manager keep the invariant of the life cycle, and the kept names.\<close>

lemma kept_step:
  assumes l: "kept_inv l" and step: "life_step l l'" and dom: "set initial_names \<subseteq> dom (lf_index l) \<Longrightarrow> set initial_names \<subseteq> dom (lf_index l')"
    and req: "\<And>t idx. lf_req l' t = Reading idx \<Longrightarrow> idx = lf_index l \<or> lf_req l t = Reading idx"
  shows "kept_inv l'"
proof -
  have "set initial_names \<subseteq> dom idx" if "lf_req l' t = Reading idx" for t idx
    using req [OF that] l unfolding kept_inv_def by blast
  then show ?thesis using l dom life_inv_step [OF step] unfolding kept_inv_def by auto
qed

lemma kept_read_begin: "kept_inv l \<Longrightarrow> lf_req l t = Idle \<Longrightarrow> kept_inv (read_begin t l)"
  by (erule kept_step) (auto simp: read_begin_def kept_inv_def intro: life_step.read_begin split: if_splits)

lemma kept_read_end: "kept_inv l \<Longrightarrow> lf_req l t = Reading idx \<Longrightarrow> kept_inv (read_end t l)"
  by (erule kept_step) (auto simp: read_end_def kept_inv_def intro: life_step.read_none split: if_splits)

lemma kept_read_pick: "kept_inv l \<Longrightarrow> lf_req l t = Reading idx \<Longrightarrow> idx n = Some p \<Longrightarrow> kept_inv (read_pick t p l)"
  by (erule kept_step) (auto simp: read_pick_def kept_inv_def intro: life_step.pick [simplified] split: if_splits)

lemma kept_decrease_ref: "kept_inv l \<Longrightarrow> lf_req l t = Using p \<Longrightarrow> kept_inv (decrease_ref t p l)"
  by (erule kept_step) (auto simp: decrease_ref_def kept_inv_def intro: life_step.finish [simplified] split: if_splits)

lemma kept_publish: "kept_inv l \<Longrightarrow> lf_modify l = None \<Longrightarrow> kept_inv (publish_name n l)"
  by (erule kept_step) (auto simp: publish_name_def kept_inv_def intro: life_step.publish)

lemma kept_withdraw: "kept_inv l \<Longrightarrow> lf_modify l = None \<Longrightarrow> n \<notin> set initial_names \<Longrightarrow> kept_inv (withdraw_name n l)"
  by (erule kept_step) (auto simp: withdraw_name_def kept_inv_def intro: life_step.withdraw)

lemma kept_end_modify: "kept_inv l \<Longrightarrow> lf_modify l = Some (new, old) \<Longrightarrow> no_old_reader l \<Longrightarrow> kept_inv (end_modify new old l)"
  by (erule kept_step) (auto simp: no_old_reader_def kept_inv_def intro: life_step.grace)

lemma kept_store: "kept_inv l \<Longrightarrow> lf_adding l p = Some old \<Longrightarrow> kept_inv (store_topology p l)"
  by (erule kept_step) (auto simp: kept_inv_def intro: life_step.store)

lemma kept_delete: "kept_inv l \<Longrightarrow> p \<in> lf_doomed l \<Longrightarrow> Some p \<notin> ran (lf_adding l) \<Longrightarrow> lf_ref l p = 0 \<Longrightarrow> kept_inv (delete_topology p l)"
  by (erule kept_step) (auto simp: kept_inv_def intro: life_step.delete)

text \<open>The end of \<open>Modify\<close>, of \<open>Add\<close> and of \<open>Delete\<close>.\<close>

lemma threads_wait:
  assumes ok: "threads_ok l pcs" and pc: "pcs t = WaitAt replacing i" and m: "lf_modify l = Some (new, old)" and readers: "no_old_reader l"
  shows "threads_ok (end_modify new old l) (pcs(t := (case new of None \<Rightarrow> DeleteAt replacing i old | Some p \<Rightarrow> StoreAt i p old)))" (is "threads_ok ?l (pcs(t := ?q))")
proof -
  note I = threadsD [OF ok]
  have inv: "life_inv l" using I(1) by (simp add: kept_inv_def)
  have "set_option old \<inter> lf_doomed l = {}" using placesD(3) [OF inv] by (auto simp: old_of_def m)
  then have own: "owned ?q = set_option old" "owned ?q \<inter> owned (pcs u) = {}" for u using I(3) [of u] by (auto simp: owned_def split: option.splits)
  have none: "adds (pcs t) = None" "unused ?q = {}" by (auto simp: adds_def unused_def pc split: option.splits)
  have fresh: "adds (pcs u) \<noteq> Some (p, o')" if "new = Some p" for u p o'
    using storageD(4) [OF inv] m that I(6) [of p o'] by fastforce
  show ?thesis
    unfolding threads_ok_def
  proof (intro conjI)
    show "kept_inv ?l" using kept_end_modify [OF I(1) m readers] .
    show "\<forall>u. pc_ok (lf_req ?l u) ((pcs(t := ?q)) u)" using I(2) [of t] I(2) pc by (auto simp: pc_ok_def split: option.splits)
    show "\<forall>u. owned ((pcs(t := ?q)) u) \<subseteq> lf_doomed ?l" using I(3) own(1) by auto
    show "\<forall>u v. u \<noteq> v \<longrightarrow> owned ((pcs(t := ?q)) u) \<inter> owned ((pcs(t := ?q)) v) = {}" using I(4) own(2) by (auto simp: Int_commute)
    show "\<forall>u. \<forall>p \<in> unused ((pcs(t := ?q)) u). lf_ref ?l p = 0" using I(5) none(2) by auto
    show "\<forall>p o'. lf_adding ?l p = Some o' \<longleftrightarrow> (\<exists>u. adds ((pcs(t := ?q)) u) = Some (p, o'))"
    proof (cases new)
      case None
      then have "adds ((pcs(t := ?q)) u) = adds (pcs u)" for u using none(1) by (auto simp: adds_def)
      then show ?thesis using I(6) None by (simp add: end_modify_def)
    next
      case (Some p')
      have "(\<exists>u. adds ((pcs(t := ?q)) u) = Some (p, o')) \<longleftrightarrow> (p, o') = (p', old) \<or> (\<exists>u. adds (pcs u) = Some (p, o'))" for p o'
        using none(1) Some by (auto simp: adds_def) (metis option.distinct(1))+
      then show ?thesis using I(6) fresh [OF Some] Some by (auto simp: end_modify_def)
    qed
    show "\<forall>u v p o' o''. adds ((pcs(t := ?q)) u) = Some (p, o') \<longrightarrow> adds ((pcs(t := ?q)) v) = Some (p, o'') \<longrightarrow> u = v"
      using I(7) fresh by (cases new) (auto simp: adds_def)
  qed
qed

lemma threads_store:
  assumes ok: "threads_ok l pcs" and pc: "pcs t = StoringAt i p old"
  shows "threads_ok (store_topology p l) (pcs(t := DeleteAt True i old))" (is "threads_ok ?l (pcs(t := ?q))")
proof -
  note I = threadsD [OF ok]
  have add: "adds (pcs t) = Some (p, old)" by (simp add: adds_def pc)
  then have p: "lf_adding l p = Some old" using I(6) by blast
  have q: "adds ?q = None" "owned ?q = owned (pcs t)" "unused ?q = {}" by (simp_all add: pc_defs pc)
  have only: "adds (pcs u) \<noteq> Some (p, o')" if "u \<noteq> t" for u o' using I(7) [OF add] that by metis
  show ?thesis
    unfolding threads_ok_def
  proof (intro conjI)
    show "kept_inv ?l" using kept_store [OF I(1) p] .
    show "\<forall>u. pc_ok (lf_req ?l u) ((pcs(t := ?q)) u)" using I(2) [of t] I(2) pc by (auto simp: pc_ok_def)
    show "\<forall>u. owned ((pcs(t := ?q)) u) \<subseteq> lf_doomed ?l" using I(3) q(2) by auto
    show "\<forall>u v. u \<noteq> v \<longrightarrow> owned ((pcs(t := ?q)) u) \<inter> owned ((pcs(t := ?q)) v) = {}" using I(4) q(2) by auto
    show "\<forall>u. \<forall>p \<in> unused ((pcs(t := ?q)) u). lf_ref ?l p = 0" using I(5) q(3) by auto
    have "(\<exists>u. adds ((pcs(t := ?q)) u) = Some (p', o')) \<longleftrightarrow> p' \<noteq> p \<and> (\<exists>u. adds (pcs u) = Some (p', o'))" for p' o'
      using only add q(1) by (auto split: if_splits) (metis option.inject prod.inject)
    then show "\<forall>p' o'. lf_adding ?l p' = Some o' \<longleftrightarrow> (\<exists>u. adds ((pcs(t := ?q)) u) = Some (p', o'))" using I(6) by auto
    show "\<forall>u v p o' o''. adds ((pcs(t := ?q)) u) = Some (p, o') \<longrightarrow> adds ((pcs(t := ?q)) v) = Some (p, o'') \<longrightarrow> u = v"
      using I(7) q(1) by (auto split: if_splits)
  qed
qed

lemma threads_purge:
  assumes ok: "threads_ok l pcs" and pc: "pcs t = PurgingAt replacing i p"
  shows "threads_ok (delete_topology p l) (pcs(t := update_next replacing i))" (is "threads_ok ?l (pcs(t := ?q))")
proof -
  note I = threadsD [OF ok]
  have own: "owned (pcs t) = {p}" "unused (pcs t) = {p}" "adds (pcs t) = None" by (simp_all add: pc_defs pc)
  have q: "adds ?q = None" "owned ?q = {}" "unused ?q = {}" by (simp_all add: pc_defs update_next_def)
  have p: "p \<in> lf_doomed l" "lf_ref l p = 0" using I(3) [of t] I(5) [of p t] own by simp_all
  have "\<not> (\<exists>u q. adds (pcs u) = Some (q, Some p))"
  proof
    assume "\<exists>u q. adds (pcs u) = Some (q, Some p)"
    then obtain u q where u: "adds (pcs u) = Some (q, Some p)" by blast
    then have "p \<in> owned (pcs u)" by (auto simp: adds_def owned_def split: test_pc.splits)
    moreover have "u \<noteq> t" using u own(3) by auto
    ultimately show False using I(4) [of u t] own(1) by blast
  qed
  then have ran: "Some p \<notin> ran (lf_adding l)" using I(6) by (auto simp: ran_def)
  have adds: "adds ((pcs(t := ?q)) u) = adds (pcs u)" for u using own(3) q(1) by simp
  show ?thesis
    unfolding threads_ok_def adds
  proof (intro conjI)
    show "kept_inv ?l" using kept_delete [OF I(1) p(1) ran p(2)] .
    show "\<forall>u. pc_ok (lf_req ?l u) ((pcs(t := ?q)) u)" using I(2) [of t] I(2) pc by (auto simp: pc_ok_def update_next_def)
    show "\<forall>u. owned ((pcs(t := ?q)) u) \<subseteq> lf_doomed ?l" using I(3) I(4) [of _ t] own(1) q(2) by auto
    show "\<forall>u v. u \<noteq> v \<longrightarrow> owned ((pcs(t := ?q)) u) \<inter> owned ((pcs(t := ?q)) v) = {}" using I(4) q(2) by auto
    show "\<forall>u. \<forall>p \<in> unused ((pcs(t := ?q)) u). lf_ref ?l p = 0" using I(5) q(3) by auto
    show "\<forall>p old. lf_adding ?l p = Some old \<longleftrightarrow> (\<exists>t. adds (pcs t) = Some (p, old))" using I(6) by simp
    show "\<forall>t u p old old'. adds (pcs t) = Some (p, old) \<longrightarrow> adds (pcs u) = Some (p, old') \<longrightarrow> t = u" using I(7) by blast
  qed
qed

lemma move_simps [simp]:
  "ts_life (move t q l s) = l" "ts_pc (move t q l s) = (ts_pc s)(t := q)" "ts_lock (move t q l s) = ts_lock s" "ts_stop (move t q l s) = ts_stop s"
  by (simp_all add: move_def)

lemma threads_move:
  assumes ok: "threads_ok (ts_life s) (ts_pc s)" and "ts_pc s' = ts_pc s"
    and "pc_ok (lf_req (ts_life s) t) q" and "owned q \<subseteq> owned (ts_pc s t)" and "adds q = adds (ts_pc s t)" and "unused q \<subseteq> unused (ts_pc s t)"
  shows "threads_ok (ts_life (move t q (ts_life s) s')) (ts_pc (move t q (ts_life s) s'))"
  using threads_local [OF ok, of t q] assms(2-) by simp

text \<open>A picked topology is not waiting for deletion, nor is a new one.\<close>

lemma picked_not_doomed:
  assumes "kept_inv l" and "lf_req l t = Reading idx" and "idx n = Some p"
  shows "p \<notin> lf_doomed l"
proof -
  have inv: "life_inv l" using assms(1) by (simp add: kept_inv_def)
  have "p \<in> ran idx" using assms(3) by (rule ranI)
  then show ?thesis using requestsD(1) [OF inv assms(2)] placesD(2,3) [OF inv] by blast
qed

lemma next_not_doomed: "kept_inv l \<Longrightarrow> lf_next l \<notin> lf_doomed l"
  using placesD(1,6) [of l] unfolding kept_inv_def by blast

lemma next_pc:
  "pc_ok r (seek_next i) \<longleftrightarrow> r = Idle" "owned (seek_next i) = {}" "adds (seek_next i) = None" "unused (seek_next i) = {}"
  "i < 60 \<Longrightarrow> (\<not> replacing \<longrightarrow> 30 \<le> i) \<Longrightarrow> pc_ok r (update_next replacing i) \<longleftrightarrow> r = Idle" "owned (update_next replacing i) = {}"
  "adds (update_next replacing i) = None" "unused (update_next replacing i) = {}"
  by (auto simp: pc_defs seek_next_def update_next_def)

lemma nothing_added: "adds (InSeek i) = None" "adds (HoldAt i) = None"
  by (simp_all add: adds_def)

lemma threads_step:
  assumes env: "env_ready g_module_registry env"
  shows "test_step env s s' \<Longrightarrow> threads_ok (ts_life s) (ts_pc s) \<Longrightarrow> threads_ok (ts_life s') (ts_pc s')"
proof (induction rule: test_step.induct)
  case (contain_begin s t)
  note I = threadsD [OF contain_begin(2)]
  have "lf_req (ts_life s) t = Idle" using I(2) [of t] contain_begin(1) by (simp add: pc_ok_def)
  then show ?case unfolding move_simps
    by (intro threads_quiet [OF contain_begin(2) kept_read_begin [OF I(1)]]) (auto simp: pc_defs read_begin_def contain_begin(1))
next
  case (contain_end s t idx)
  note I = threadsD [OF contain_end(3)]
  have "idx ''test_default'' \<noteq> None" using I(1) contain_end(2) by (auto simp: kept_inv_def initial_names_def)
  then show ?case unfolding move_simps
    by (intro threads_quiet [OF contain_end(3) kept_read_end [OF I(1) contain_end(2)]]) (auto simp: pc_defs read_end_def contain_end(1))
next
  case (seek_begin s t i)
  note I = threadsD [OF seek_begin(2)]
  have "lf_req (ts_life s) t = Idle" using I(2) [of t] seek_begin(1) by (simp add: pc_ok_def)
  then show ?case unfolding move_simps
    by (intro threads_quiet [OF seek_begin(2) kept_read_begin [OF I(1)]]) (auto simp: pc_defs read_begin_def seek_begin(1))
next
  case (seek_found s t i idx p)
  note I = threadsD [OF seek_found(4)]
  show ?case using picked_not_doomed [OF I(1) seek_found(2,3)] unfolding move_simps
    by (intro threads_quiet [OF seek_found(4) kept_read_pick [OF I(1) seek_found(2,3)]]) (auto simp: pc_defs read_pick_def seek_found(1))
next
  case (seek_missing s t i idx)
  note I = threadsD [OF seek_missing(4)]
  have "\<not> i < 30" using I(1) seek_missing(2,3) sought_kept [of i] by (auto simp: kept_inv_def)
  then show ?case unfolding move_simps
    by (intro threads_quiet [OF seek_missing(4) kept_read_end [OF I(1) seek_missing(2)]]) (auto simp: next_pc nothing_added read_end_def seek_missing(1))
next
  case (seek_done s t i p)
  note I = threadsD [OF seek_done(3)]
  show ?case unfolding move_simps
    by (intro threads_quiet [OF seek_done(3) kept_decrease_ref [OF I(1) seek_done(2)]]) (auto simp: next_pc nothing_added decrease_ref_def seek_done(1))
next
  case (replace_begin s t i)
  note I = threadsD [OF replace_begin(3)]
  show ?case using I(2) [of t] replace_begin(1) next_not_doomed [OF I(1)] unfolding move_simps
    by (intro threads_quiet [OF replace_begin(3) kept_publish [OF I(1) replace_begin(2)]]) (auto simp: pc_defs publish_name_def)
next
  case (remove_begin s t i)
  note I = threadsD [OF remove_begin(4)]
  have i: "30 \<le> i" "i < 60" using I(2) [of t] remove_begin(1) by (simp_all add: pc_ok_def)
  show ?case using I(2) [of t] remove_begin(1) unfolding move_simps
    by (intro threads_quiet [OF remove_begin(4) kept_withdraw [OF I(1) remove_begin(2) removed_not_kept [OF i]]]) (auto simp: pc_defs withdraw_name_def)
next
  case (replace_plan s t i)
  obtain m where m: "plan_for env (test_name i) = Inr m" by (rule plan_for_ok)
  show ?case using threadsD(2) [OF replace_plan(2), of t] replace_plan(1)
    by (intro threads_move [OF replace_plan(2)]) (auto simp: m pc_defs)
next
  case (emplace_done s t i ok ms)
  have "ok" using emplace_for_ok [of env "test_name i" "ts_monitors s"] env emplace_done(2) by (simp add: env_ready_def)
  then show ?case using threadsD(2) [OF emplace_done(3), of t] emplace_done(1,3) by (intro threads_move [OF emplace_done(3)]) (auto simp: pc_defs)
next
  case (replace_pool s t i)
  then show ?case using pool_for_ok [OF env, of "test_name i"] threadsD(2) [OF replace_pool(2), of t] by (intro threads_move [OF replace_pool(2)]) (auto simp: pc_defs)
next
  case (update_spun s t replacing i p)
  note I = threadsD [OF update_spun(3)]
  show ?case using I(2) [of t] update_spun(1,2) unfolding move_simps
    by (intro threads_quiet [OF update_spun(3) I(1)]) (auto simp: pc_defs)
next
  case (update_loop s t replacing)
  then show ?case using threadsD(2) [OF update_loop(3), of t] by (intro threads_move [OF update_loop(3)]) (auto simp: pc_defs update_first_def)
next
  case (remove_missing s t i)
  then show ?case using threadsD(2) [OF remove_missing(4), of t] by (intro threads_move [OF remove_missing(4)]) (auto simp: pc_defs update_next_def)
next
  case (update_done s t replacing i)
  then show ?case using threadsD(2) [OF update_done(2), of t] by (intro threads_move [OF update_done(2)]) (auto simp: pc_defs update_next_def)
next
  case (seek_exit s t)
  then show ?case using threadsD(2) [OF seek_exit(3), of t] by (intro threads_move [OF seek_exit(3)]) (auto simp: pc_defs)
next
  case (seek_loop s t)
  then show ?case using threadsD(2) [OF seek_loop(3), of t] by (intro threads_move [OF seek_loop(3)]) (auto simp: pc_defs)
next
  case (update_exit s t replacing)
  then show ?case using threadsD(2) [OF update_exit(3), of t] by (intro threads_move [OF update_exit(3)]) (auto simp: pc_defs)
next
  case (emplace_lock s t i)
  then show ?case using threadsD(2) [OF emplace_lock(3), of t] by (intro threads_move [OF emplace_lock(3)]) (auto simp: pc_defs)
next
  case (store_lock s t i p old)
  then show ?case using threadsD(2) [OF store_lock(3), of t] by (intro threads_move [OF store_lock(3)]) (auto simp: pc_defs)
next
  case (purge_lock s t replacing i p)
  then show ?case using threadsD(2) [OF purge_lock(3), of t] by (intro threads_move [OF purge_lock(3)]) (auto simp: pc_defs)
qed (simp_all add: threads_wait threads_store threads_purge)

text \<open>The topologies of the start: each is published, its \<open>Modify\<close> ends and it is stored; the names differ, so nothing is replaced.\<close>

lemma add_initial_eq:
  assumes "env_ready g_module_registry env"
  obtains ms' where "add_initial env n (ok, ms, l) = (ok, ms', let p = lf_next l; old = lf_index l n;
      l1 = store_topology p (end_modify (Some p) old (publish_name n l)) in case old of None \<Rightarrow> l1 | Some q \<Rightarrow> delete_topology q l1)"
proof -
  obtain m where m: "plan_for env n = Inr m" by (rule plan_for_ok)
  obtain ms' where "emplace_for env n ms = (True, ms')"
    using emplace_for_ok [of env n ms] assms by (cases "emplace_for env n ms") (auto simp: env_ready_def)
  then show thesis using that [of ms'] m pool_for_ok [OF assms, of n] by (auto simp: add_initial_def Let_def)
qed

definition started :: "life \<Rightarrow> bool" where
  "started l \<longleftrightarrow> life_inv l \<and> lf_req l = (\<lambda>_. Idle) \<and> lf_modify l = None \<and> lf_adding l = (\<lambda>_. None)"

lemma started_add:
  assumes "started l" and "n \<notin> dom (lf_index l)"
  shows "started (store_topology (lf_next l) (end_modify (Some (lf_next l)) None (publish_name n l)))"
proof -
  have s: "life_inv l" "lf_modify l = None" using assms(1) by (simp_all add: started_def)
  let ?l1 = "publish_name n l" and ?p = "lf_next l"
  have idx: "lf_index l n = None" using assms(2) by blast
  have "life_step l ?l1" using life_step.publish [OF s(2), of n] by (simp add: publish_name_def)
  moreover have "life_step ?l1 (end_modify (Some ?p) None ?l1)"
    using assms(1) idx by (intro life_step.grace) (simp_all add: publish_name_def started_def)
  moreover have "life_step (end_modify (Some ?p) None ?l1) (store_topology ?p (end_modify (Some ?p) None ?l1))"
    by (rule life_step.store [where old = None]) (simp add: end_modify_def)
  ultimately have "life_inv (store_topology ?p (end_modify (Some ?p) None ?l1))" using s(1) life_inv_step by blast
  then show ?thesis using assms(1) by (auto simp: started_def publish_name_def end_modify_def)
qed

lemma started_all:
  assumes env: "env_ready g_module_registry env" and "started l" and "distinct ns" and "set ns \<inter> dom (lf_index l) = {}"
  obtains ms' l' where "fold (add_initial env) ns (ok, ms, l) = (ok, ms', l')" "started l'" "dom (lf_index l') = set ns \<union> dom (lf_index l)"
  using assms(2-)
proof (induction ns arbitrary: l ms thesis)
  case Nil
  then show ?case by simp
next
  case (Cons n ns)
  let ?l1 = "store_topology (lf_next l) (end_modify (Some (lf_next l)) None (publish_name n l))"
  have n: "n \<notin> dom (lf_index l)" using Cons.prems(4) by simp
  then have "lf_index l n = None" by blast
  then obtain ms1 where 1: "add_initial env n (ok, ms, l) = (ok, ms1, ?l1)" by (auto simp: Let_def intro: add_initial_eq [OF env, of n ok ms l])
  have dom: "dom (lf_index ?l1) = insert n (dom (lf_index l))" by (simp add: publish_name_def)
  obtain ms' l' where "fold (add_initial env) ns (ok, ms1, ?l1) = (ok, ms', l')" "started l'" "dom (lf_index l') = set ns \<union> dom (lf_index ?l1)"
    by (rule Cons.IH [where l = ?l1 and ms = ms1]) (use Cons.prems(3,4) started_add [OF Cons.prems(2) n] dom in auto)
  then show ?case using Cons.prems(1) [of ms' l'] 1 dom by simp
qed

lemma initial_distinct: "distinct initial_names"
  by code_simp

lemma test_start_eq:
  assumes "env_ready g_module_registry env"
  obtains ms l where "started l" "set initial_names \<subseteq> dom (lf_index l)"
    "test_start env = \<lparr>ts_life = l, ts_pc = (\<lambda>t. if t < 30 then SeekHead else if t < 35 then UpdateHead True else if t < 40 then UpdateHead False else Exited),
       ts_lock = None, ts_monitors = ms, ts_stop = False\<rparr>"
proof -
  have "started life_init" by (simp add: started_def life_inv_init) (simp add: life_init_def)
  then obtain ms l where l: "fold (add_initial env) initial_names (True, [], life_init) = (True, ms, l)" "started l"
    "dom (lf_index l) = set initial_names \<union> dom (lf_index life_init)"
    by (rule started_all [OF assms _ initial_distinct]) (simp add: life_init_def)
  have "test_start env = \<lparr>ts_life = l, ts_pc = (\<lambda>t. if t < 30 then SeekHead else if t < 35 then UpdateHead True else if t < 40 then UpdateHead False else Exited),
       ts_lock = None, ts_monitors = ms, ts_stop = False\<rparr>"
    using l(1) set_up_eq(1) [of env] by (simp add: test_start_def set_up_eq(5) fun_eq_iff)
  from that [OF l(2) _ this] show thesis using l(3) by blast
qed

lemma threads_start:
  assumes "env_ready g_module_registry env"
  shows "threads_ok (ts_life (test_start env)) (ts_pc (test_start env))"
proof -
  obtain ms l where "started l" "set initial_names \<subseteq> dom (lf_index l)"
    "test_start env = \<lparr>ts_life = l, ts_pc = (\<lambda>t. if t < 30 then SeekHead else if t < 35 then UpdateHead True else if t < 40 then UpdateHead False else Exited),
       ts_lock = None, ts_monitors = ms, ts_stop = False\<rparr>"
    by (rule test_start_eq [OF assms])
  then show ?thesis by (auto simp: threads_ok_def kept_inv_def started_def pc_defs)
qed

lemma threads_reachable:
  assumes "env_ready g_module_registry env" and "(test_step env)\<^sup>*\<^sup>* (test_start env) s"
  shows "threads_ok (ts_life s) (ts_pc s)"
  using assms(2) by (induction rule: rtranclp_induct) (auto intro: threads_start [OF assms(1)] threads_step [OF assms(1)])

section \<open>Theorems\<close>

text \<open>
  C10: The test with many threads succeeds in every interleaving.  In an environment where monitors are exposed and the session-local data of topologies
  with registered modules is created and passes its test, no expectation fails: every call of \<open>add_topology\<close> returns true, the
  topologies that are only replaced are found by every request, and every topology a request holds, or may still pick, has not been deleted.\<close>

theorem multi_thread_test_passes:
  assumes "env_ready g_module_registry env" and "(test_step env)\<^sup>*\<^sup>* (test_start env) s"
  shows "ts_pc s t \<noteq> FailedAt \<and> (\<forall>p. lf_req (ts_life s) t = Using p \<longrightarrow> p \<in> lf_live (ts_life s)) \<and>
    (\<forall>i idx. ts_pc s t = InSeek i \<longrightarrow> lf_req (ts_life s) t = Reading idx \<longrightarrow> i < 30 \<longrightarrow> (\<exists>p. idx (test_name i) = Some p \<and> p \<in> lf_live (ts_life s)))"
proof -
  note I = threadsD [OF threads_reachable [OF assms]]
  have life: "life_inv (ts_life s)" using I(1) by (simp add: kept_inv_def)
  have "\<exists>p. idx (test_name i) = Some p \<and> p \<in> lf_live (ts_life s)" if rd: "lf_req (ts_life s) t = Reading idx" and i: "i < 30" for i idx
  proof -
    obtain p where p: "idx (test_name i) = Some p" using I(1) rd sought_kept [OF i] unfolding kept_inv_def by blast
    have "p \<in> lf_live (ts_life s)" using placesD(1) [OF life] requestsD(1) [OF life rd] ranI [of idx "test_name i", OF p] by blast
    then show ?thesis using p by blast
  qed
  moreover have "ts_pc s t \<noteq> FailedAt" using I(2) [of t] by (auto simp: pc_ok_def)
  ultimately show ?thesis using requestsD(4) [OF life] by blast
qed

section \<open>No deadlock\<close>

definition waiting :: "test_pc \<Rightarrow> bool" where
  "waiting q \<longleftrightarrow> (case q of WaitAt replacing i \<Rightarrow> True | _ \<Rightarrow> False)"

definition locked :: "test_pc \<Rightarrow> bool" where
  "locked q \<longleftrightarrow> (case q of EmplacingAt i \<Rightarrow> True | StoringAt i p old \<Rightarrow> True | PurgingAt r i p \<Rightarrow> True | _ \<Rightarrow> False)"

text \<open>One thread is inside \<open>Modify\<close> exactly while a modification is under way, and one holds the storage mutex exactly while it is locked.\<close>

definition modifier_inv :: "test_state \<Rightarrow> bool" where
  "modifier_inv s \<longleftrightarrow> (if lf_modify (ts_life s) = None then \<forall>t. \<not> waiting (ts_pc s t) else \<exists>!t. waiting (ts_pc s t))"

definition lock_inv :: "test_state \<Rightarrow> bool" where
  "lock_inv s \<longleftrightarrow> (\<forall>t. locked (ts_pc s t) \<longleftrightarrow> ts_lock s = Some t)"

lemma waiting_simps [simp]:
  "\<not> waiting SeekHead" "\<not> waiting ContainAt" "\<not> waiting InContain" "\<not> waiting (SeekAt i)" "\<not> waiting (InSeek i)" "\<not> waiting (HoldAt i)"
  "\<not> waiting (UpdateHead r)" "\<not> waiting (UpdateAt r i)" "\<not> waiting (EmplaceAt i)" "\<not> waiting (EmplacingAt i)" "\<not> waiting (PoolAt i)"
  "\<not> waiting (ReplaceAt i)" "waiting (WaitAt r i)" "\<not> waiting (StoreAt i p old)" "\<not> waiting (StoringAt i p old)" "\<not> waiting (DeleteAt r i old)"
  "\<not> waiting (PurgeAt r i p)" "\<not> waiting (PurgingAt r i p)" "\<not> waiting Exited" "\<not> waiting FailedAt"
  "\<not> waiting (seek_next i)" "\<not> waiting (update_next r i)"
  by (simp_all add: waiting_def seek_next_def update_next_def)

lemma locked_simps [simp]:
  "\<not> locked SeekHead" "\<not> locked ContainAt" "\<not> locked InContain" "\<not> locked (SeekAt i)" "\<not> locked (InSeek i)" "\<not> locked (HoldAt i)"
  "\<not> locked (UpdateHead r)" "\<not> locked (UpdateAt r i)" "\<not> locked (EmplaceAt i)" "locked (EmplacingAt i)" "\<not> locked (PoolAt i)"
  "\<not> locked (ReplaceAt i)" "\<not> locked (WaitAt r i)" "\<not> locked (StoreAt i p old)" "locked (StoringAt i p old)" "\<not> locked (DeleteAt r i old)"
  "\<not> locked (PurgeAt r i p)" "locked (PurgingAt r i p)" "\<not> locked Exited" "\<not> locked FailedAt"
  "\<not> locked (seek_next i)" "\<not> locked (update_next r i)"
  by (simp_all add: locked_def seek_next_def update_next_def)

lemma modifier_inv_quiet:
  assumes "modifier_inv s" and "\<not> waiting (ts_pc s t)" and "\<not> waiting q" and "lf_modify l = lf_modify (ts_life s)" and "ts_pc s' = ts_pc s"
  shows "modifier_inv (move t q l s')"
proof -
  have "waiting (ts_pc (move t q l s') u) \<longleftrightarrow> waiting (ts_pc s u)" for u using assms(2,3,5) by simp
  then show ?thesis using assms(1,4) by (simp add: modifier_inv_def)
qed

lemma modifier_inv_enter:
  assumes "modifier_inv s" and "lf_modify (ts_life s) = None" and "lf_modify l \<noteq> None"
  shows "modifier_inv (move t (WaitAt r i) l s)"
  using assms by (auto simp: modifier_inv_def)

lemma modifier_inv_leave:
  assumes "modifier_inv s" and "waiting (ts_pc s t)" and "lf_modify l = None" and "\<not> waiting q"
  shows "modifier_inv (move t q l s)"
  using assms by (auto simp: modifier_inv_def split: if_splits)

lemma modifier_inv_step: "test_step env s s' \<Longrightarrow> modifier_inv s \<Longrightarrow> modifier_inv s'"
proof (induction rule: test_step.induct)
  case (stop s)
  then show ?case by (simp add: modifier_inv_def)
next
  case (replace_begin s t i)
  then show ?case by (intro modifier_inv_enter) (simp_all add: publish_name_def)
next
  case (remove_begin s t i)
  then show ?case by (intro modifier_inv_enter) (simp_all add: withdraw_name_def)
next
  case (update_wait s t replacing i new old)
  then show ?case by (intro modifier_inv_leave) (simp_all split: option.splits)
qed (erule modifier_inv_quiet; simp add: life_ops split: sum.splits)+

lemma lock_inv_quiet:
  assumes "lock_inv s" and "\<not> locked (ts_pc s t)" and "\<not> locked q"
  shows "lock_inv (move t q l s)"
  using assms(1) assms(1) [unfolded lock_inv_def, rule_format, of t] assms(2,3) unfolding lock_inv_def by simp

lemma lock_inv_take: "lock_inv s \<Longrightarrow> ts_lock s = None \<Longrightarrow> locked q \<Longrightarrow> lock_inv (move t q l (s\<lparr>ts_lock := Some t\<rparr>))"
  by (simp add: lock_inv_def)

lemma lock_inv_release:
  assumes "lock_inv s" and "locked (ts_pc s t)" and "\<not> locked q" and "ts_pc s' = ts_pc s" and "ts_lock s' = None"
  shows "lock_inv (move t q l s')"
  using assms(1) assms(1) [unfolded lock_inv_def, rule_format, of t] assms(2-) unfolding lock_inv_def by auto

lemma lock_inv_step: "test_step env s s' \<Longrightarrow> lock_inv s \<Longrightarrow> lock_inv s'"
proof (induction rule: test_step.induct)
  case (stop s)
  then show ?case by (simp add: lock_inv_def)
next
  case (emplace_done s t i ok ms)
  then show ?case by (intro lock_inv_release) simp_all
next
  case (store_done s t i p old)
  then show ?case by (intro lock_inv_release) simp_all
next
  case (purge_done s t replacing i p)
  then show ?case by (intro lock_inv_release) simp_all
qed (simp_all add: lock_inv_take lock_inv_quiet split: sum.splits option.splits)

text \<open>The thread that holds the storage mutex goes on by itself.\<close>

lemma update_next_neq: "update_next r i \<noteq> UpdateAt r i" "update_next r i \<noteq> DeleteAt r' j old" "update_next r i \<noteq> PurgingAt r' j p"
  by (simp_all add: update_next_def)

lemma holder_moves:
  assumes "locked (ts_pc s t)"
  shows "\<exists>s'. test_step env s s' \<and> ts_pc s' t \<noteq> ts_pc s t"
proof -
  consider i where "ts_pc s t = EmplacingAt i" | i p old where "ts_pc s t = StoringAt i p old" | r i p where "ts_pc s t = PurgingAt r i p"
    using assms by (cases "ts_pc s t") simp_all
  then show ?thesis
  proof cases
    case (1 i)
    obtain ok ms where "emplace_for env (test_name i) (ts_monitors s) = (ok, ms)" by (cases "emplace_for env (test_name i) (ts_monitors s)") auto
    from test_step.emplace_done [OF 1 this] show ?thesis using 1 by (intro exI conjI) (assumption, simp)
  next
    case (2 i p old)
    from test_step.store_done [OF 2] show ?thesis using 2 by (intro exI conjI) (assumption, simp)
  next
    case (3 r i p)
    from test_step.purge_done [OF 3] show ?thesis using 3 update_next_neq(3) [of r i] by (intro exI conjI) (assumption, simp)
  qed
qed

text \<open>When no request thread can move, nothing is read or used.\<close>

definition blocked_pc :: "test_pc \<Rightarrow> bool" where
  "blocked_pc q \<longleftrightarrow> (case q of EmplaceAt i \<Rightarrow> True | ReplaceAt i \<Rightarrow> True | UpdateAt r i \<Rightarrow> \<not> r | WaitAt r i \<Rightarrow> True | StoreAt i p old \<Rightarrow> True
     | DeleteAt r i old \<Rightarrow> old \<noteq> None | PurgeAt r i p \<Rightarrow> True | Exited \<Rightarrow> True | _ \<Rightarrow> False)"

lemma all_idle:
  assumes ok: "threads_ok l pcs" and stuck: "\<And>t. blocked_pc (pcs t)"
  shows "no_old_reader l" and "lf_ref l p = 0"
proof -
  have idle: "lf_req l t = Idle" for t
    using stuck [of t] threadsD(2) [OF ok, of t] by (auto simp: pc_ok_def blocked_pc_def split: test_pc.splits)
  then show "no_old_reader l" by (simp add: no_old_reader_def)
  have "life_inv l" using threadsD(1) [OF ok] by (simp add: kept_inv_def)
  then show "lf_ref l p = 0" using idle requestsD(3) by (simp add: users_def)
qed

lemma request_moves:
  assumes ok: "pc_ok (lf_req (ts_life s) t) (ts_pc s t)" and "\<not> locked (ts_pc s t)" and "\<not> blocked_pc (ts_pc s t)"
  shows "\<exists>s'. test_step env s s' \<and> ts_pc s' t \<noteq> ts_pc s t"
proof (cases "ts_pc s t")
  case InContain
  then obtain idx where "lf_req (ts_life s) t = Reading idx" using ok by (auto simp: pc_ok_def)
  from test_step.contain_end [OF InContain this] show ?thesis using InContain by (intro exI conjI) (assumption, simp)
next
  case (InSeek i)
  then obtain idx where idx: "lf_req (ts_life s) t = Reading idx" using ok by (auto simp: pc_ok_def)
  show ?thesis
  proof (cases "idx (test_name i)")
    case None
    from test_step.seek_missing [OF InSeek idx None] show ?thesis using InSeek by (intro exI conjI) (assumption, simp add: seek_next_def)
  next
    case (Some p)
    from test_step.seek_found [OF InSeek idx Some] show ?thesis using InSeek by (intro exI conjI) (assumption, simp)
  qed
next
  case (HoldAt i)
  then obtain p where "lf_req (ts_life s) t = Using p" using ok by (auto simp: pc_ok_def)
  from test_step.seek_done [OF HoldAt this] show ?thesis using HoldAt by (intro exI conjI) (assumption, simp add: seek_next_def)
next
  case SeekHead
  then show ?thesis using test_step.seek_exit [OF SeekHead] test_step.seek_loop [OF SeekHead] by (cases "ts_stop s") fastforce+
next
  case (UpdateHead r)
  then show ?thesis using test_step.update_exit [OF UpdateHead] test_step.update_loop [OF UpdateHead] by (cases "ts_stop s") fastforce+
next
  case (DeleteAt r i old)
  then have pc: "ts_pc s t = DeleteAt r i None" using assms(3) by (simp add: blocked_pc_def)
  from test_step.update_done [OF pc] show ?thesis using pc update_next_neq(2) [of r i] by (intro exI conjI) (assumption, simp)
next
  case (UpdateAt r i)
  then have pc: "ts_pc s t = UpdateAt True i" using assms(3) by (simp add: blocked_pc_def)
  from test_step.replace_plan [OF pc] show ?thesis using pc by (intro exI conjI) (assumption, simp split: sum.splits)
next
  case (PoolAt i)
  from test_step.replace_pool [OF this] show ?thesis using PoolAt by (intro exI conjI) (assumption, simp)
next
  case ContainAt
  from test_step.contain_begin [OF this] show ?thesis using ContainAt by (intro exI conjI) (assumption, simp)
next
  case (SeekAt i)
  from test_step.seek_begin [OF this] show ?thesis using SeekAt by (intro exI conjI) (assumption, simp)
qed (use assms in \<open>auto simp: pc_ok_def blocked_pc_def\<close>)

text \<open>A thread that waits for the storage mutex, for a modification to end or for readers moves when nobody is in its way.\<close>

lemma blocked_moves:
  assumes pc: "blocked_pc (ts_pc s t)" "ts_pc s t \<noteq> Exited" and free: "ts_lock s = None" and readers: "no_old_reader (ts_life s)" "\<And>p. lf_ref (ts_life s) p = 0"
    and mod: "if waiting (ts_pc s t) then lf_modify (ts_life s) \<noteq> None else lf_modify (ts_life s) = None"
  shows "\<exists>s'. test_step env s s' \<and> ts_pc s' t \<noteq> ts_pc s t"
proof (cases "ts_pc s t")
  case (EmplaceAt i)
  from test_step.emplace_lock [OF this free] show ?thesis using EmplaceAt by (intro exI conjI) (assumption, simp)
next
  case (ReplaceAt i)
  then have "lf_modify (ts_life s) = None" using mod by simp
  from test_step.replace_begin [OF ReplaceAt this] show ?thesis using ReplaceAt by (intro exI conjI) (assumption, simp)
next
  case (UpdateAt r i)
  then have u: "ts_pc s t = UpdateAt False i" "lf_modify (ts_life s) = None" using pc(1) mod by (simp_all add: blocked_pc_def)
  show ?thesis
  proof (cases "lf_index (ts_life s) (test_name i)")
    case None
    from test_step.remove_missing [OF u None] show ?thesis using u(1) update_next_neq(1) [of False i] by (intro exI conjI) (assumption, simp)
  next
    case (Some p)
    then have "lf_index (ts_life s) (test_name i) \<noteq> None" by simp
    from test_step.remove_begin [OF u this] show ?thesis using u(1) by (intro exI conjI) (assumption, simp)
  qed
next
  case (WaitAt r i)
  then obtain new old where "lf_modify (ts_life s) = Some (new, old)" using mod by auto
  from test_step.update_wait [OF WaitAt this readers(1)] show ?thesis using WaitAt by (intro exI conjI) (assumption, simp split: option.splits)
next
  case (StoreAt i p old)
  from test_step.store_lock [OF this free] show ?thesis using StoreAt by (intro exI conjI) (assumption, simp)
next
  case (DeleteAt r i old)
  then obtain p where d: "ts_pc s t = DeleteAt r i (Some p)" using pc(1) by (auto simp: blocked_pc_def)
  from test_step.update_spun [OF this readers(2)] show ?thesis using d by (intro exI conjI) (assumption, simp)
next
  case (PurgeAt r i p)
  from test_step.purge_lock [OF this free] show ?thesis using PurgeAt by (intro exI conjI) (assumption, simp)
qed (use pc in \<open>simp_all add: blocked_pc_def\<close>)

lemma locks_start:
  assumes "env_ready g_module_registry env"
  shows "modifier_inv (test_start env)" and "lock_inv (test_start env)"
proof -
  obtain ms l where "started l" "set initial_names \<subseteq> dom (lf_index l)"
    "test_start env = \<lparr>ts_life = l, ts_pc = (\<lambda>t. if t < 30 then SeekHead else if t < 35 then UpdateHead True else if t < 40 then UpdateHead False else Exited),
       ts_lock = None, ts_monitors = ms, ts_stop = False\<rparr>"
    by (rule test_start_eq [OF assms])
  then show "modifier_inv (test_start env)" "lock_inv (test_start env)" by (simp_all add: modifier_inv_def lock_inv_def started_def)
qed

text \<open>
  C25: The test does not get stuck, under the same environment: from every reachable state, as long as some thread has not left its loop, some thread can take its
  next step, whoever holds the storage mutex, is inside \<open>Modify\<close>, reads the index or uses a topology.\<close>

theorem multi_thread_test_progress:
  assumes "env_ready g_module_registry env" and "(test_step env)\<^sup>*\<^sup>* (test_start env) s" and "ts_pc s t \<noteq> Exited"
  shows "\<exists>u s'. test_step env s s' \<and> ts_pc s' u \<noteq> ts_pc s u"
proof -
  have ok: "threads_ok (ts_life s) (ts_pc s)" by (rule threads_reachable [OF assms(1,2)])
  have mod: "modifier_inv s" "lock_inv s"
    using assms(2) locks_start [OF assms(1)] by (induction rule: rtranclp_induct) (auto intro: modifier_inv_step lock_inv_step)
  show ?thesis
  proof (cases "\<exists>u. locked (ts_pc s u) \<or> \<not> blocked_pc (ts_pc s u)")
    case True
    then show ?thesis using holder_moves request_moves [OF threadsD(2) [OF ok]] by metis
  next
    case False
    then have stuck: "blocked_pc (ts_pc s u)" "\<not> locked (ts_pc s u)" for u by blast+
    have free: "ts_lock s = None" using mod(2) stuck(2) by (cases "ts_lock s") (auto simp: lock_inv_def)
    obtain u where u: "ts_pc s u \<noteq> Exited" "if waiting (ts_pc s u) then lf_modify (ts_life s) \<noteq> None else lf_modify (ts_life s) = None"
    proof (cases "lf_modify (ts_life s)")
      case None
      then show thesis using that [of t] assms(3) mod(1) by (simp add: modifier_inv_def)
    next
      case (Some m)
      then obtain v where "waiting (ts_pc s v)" using mod(1) by (auto simp: modifier_inv_def)
      then show thesis using that [of v] Some by (cases "ts_pc s v") auto
    qed
    show ?thesis using blocked_moves [OF stuck(1) u(1) free all_idle [OF ok stuck(1)] u(2)] by blast
  qed
qed

section \<open>A run\<close>

lemma demo_env_ready: "env_ready reg demo_env"
  by (simp add: env_ready_def demo_env_def)

text \<open>Thread 30 holds the storage mutex to declare a monitor, thread 31 waits for it, and thread 0 is inside a read section.\<close>

lemma busy_state:
  obtains s where "(test_step demo_env)\<^sup>*\<^sup>* (test_start demo_env) s" "ts_pc s 0 = InContain" "ts_pc s 30 = EmplacingAt 0" "ts_pc s 31 = EmplaceAt 0"
    "ts_lock s = Some 30"
proof -
  let ?s0 = "test_start demo_env"
  obtain ms l where s0: "?s0 = \<lparr>ts_life = l,
      ts_pc = (\<lambda>t. if t < 30 then SeekHead else if t < 35 then UpdateHead True else if t < 40 then UpdateHead False else Exited),
      ts_lock = None, ts_monitors = ms, ts_stop = False\<rparr>"
    by (rule test_start_eq [OF demo_env_ready])
  have plan: "(case plan_for demo_env (test_name 0) of Inl e \<Rightarrow> FailedAt | Inr m \<Rightarrow> EmplaceAt 0) = EmplaceAt 0"
    by (rule plan_for_ok [of demo_env "test_name 0"]) simp
  let ?s1 = "move 0 ContainAt (ts_life ?s0) ?s0"
  let ?s2 = "move 0 InContain (read_begin 0 (ts_life ?s1)) ?s1"
  let ?s3 = "move 30 (UpdateAt True (update_first True)) (ts_life ?s2) ?s2"
  let ?s4 = "move 31 (UpdateAt True (update_first True)) (ts_life ?s3) ?s3"
  let ?s5 = "move 30 (EmplaceAt 0) (ts_life ?s4) ?s4"
  let ?s6 = "move 31 (EmplaceAt 0) (ts_life ?s5) ?s5"
  let ?s7 = "move 30 (EmplacingAt 0) (ts_life ?s6) (?s6\<lparr>ts_lock := Some 30\<rparr>)"
  have "test_step demo_env ?s0 ?s1" by (rule test_step.seek_loop) (simp_all add: s0)
  moreover have "test_step demo_env ?s1 ?s2" by (rule test_step.contain_begin) simp
  moreover have "test_step demo_env ?s2 ?s3" by (rule test_step.update_loop) (simp_all add: s0)
  moreover have "test_step demo_env ?s3 ?s4" by (rule test_step.update_loop) (simp_all add: s0)
  moreover have "test_step demo_env ?s4 ?s5"
    using test_step.replace_plan [of ?s4 30 0 demo_env] unfolding plan by (simp add: update_first_def)
  moreover have "test_step demo_env ?s5 ?s6"
    using test_step.replace_plan [of ?s5 31 0 demo_env] unfolding plan by (simp add: update_first_def)
  moreover have "test_step demo_env ?s6 ?s7" by (rule test_step.emplace_lock) (simp_all add: s0)
  ultimately have "(test_step demo_env)\<^sup>*\<^sup>* ?s0 ?s7" by (meson r_into_rtranclp rtranclp_trans)
  from that [OF this] show thesis by simp
qed

theorem multi_thread_test_passes_witness:
  "\<exists>s. (test_step demo_env)\<^sup>*\<^sup>* (test_start demo_env) s \<and> ts_pc s 30 = EmplacingAt 0 \<and> ts_pc s 0 = InContain \<and> (\<forall>t. ts_pc s t \<noteq> FailedAt)"
proof -
  obtain s where s: "(test_step demo_env)\<^sup>*\<^sup>* (test_start demo_env) s" "ts_pc s 0 = InContain" "ts_pc s 30 = EmplacingAt 0" by (rule busy_state)
  show ?thesis using multi_thread_test_passes [OF demo_env_ready s(1)] s by blast
qed

theorem multi_thread_test_progress_witness:
  "\<exists>s u s'. (test_step demo_env)\<^sup>*\<^sup>* (test_start demo_env) s \<and> ts_lock s = Some 30 \<and> ts_pc s 31 = EmplaceAt 0 \<and>
     test_step demo_env s s' \<and> ts_pc s' u \<noteq> ts_pc s u"
proof -
  obtain s where s: "(test_step demo_env)\<^sup>*\<^sup>* (test_start demo_env) s" "ts_pc s 31 = EmplaceAt 0" "ts_lock s = Some 30" by (rule busy_state)
  show ?thesis using multi_thread_test_progress [OF demo_env_ready s(1), of 31] s by auto
qed

end
