(* ===== verification/ModuleInterfaces.thy ===== *)
theory ModuleInterfaces
  imports AppHost
begin

text \<open>
  The interfaces of \<open>DAG/app_interface\<close> that applications implement: modules (\<open>Module.h\<close>, \<open>RunnableModule.h\<close>, \<open>SyncModule.h\<close>, the second half of
  \<open>AsyncRpcModule.h\<close>) and applications (\<open>SwApp.h\<close>).  A class with virtual functions is a record with a field for each; a function gives the
  record with the bodies that the header defines, from the ones it leaves to the implementation.  A module has a state \<open>'m\<close>, a request a
  context \<open>'c\<close>; \<^const>\<open>None\<close> is undefined behaviour.
\<close>

section \<open>Modules\<close>

datatype module_type = SYNC_MODULE | ASYNC_RPC_MODULE | RELOADABLE_MODULE

datatype run_status = FAILED | SUCCESS | YIELD

datatype component_type =
  MONITOR_COMPONENT | LOG_COMPONENT | CONFIG_COMPONENT | INDEX_COMPONENT | RPC_COMPONENT | NAMING_SERVICE_COMPONENT

definition run_status_code :: "run_status \<Rightarrow> int" where
  "run_status_code s = (case s of FAILED \<Rightarrow> 1 | SUCCESS \<Rightarrow> 2 | YIELD \<Rightarrow> 3)"

record module_property =
  mp_app :: "nat option"
  mp_name :: string
  mp_module_params :: "params option"
  mp_topology_name :: string
  mp_topology_description :: "runnable_element list option"

definition module_property_construct :: module_property where
  "module_property_construct =
     \<lparr>mp_app = None, mp_name = [], mp_module_params = None, mp_topology_name = [], mp_topology_description = None\<rparr>"

record ('m, 'c) runnable_module =
  rm_module_type :: module_type
  rm_construct :: "module_property \<Rightarrow> 'm \<Rightarrow> bool \<times> 'm"
  rm_init :: "'c \<Rightarrow> 'm \<Rightarrow> bool \<times> 'm"
  rm_is_skipped :: "'m \<Rightarrow> bool \<times> 'm"
  rm_run :: "'c \<Rightarrow> 'm \<Rightarrow> (run_status \<times> 'c \<times> 'm) option"
  rm_continue_run :: "'c \<Rightarrow> 'm \<Rightarrow> (bool \<times> 'c \<times> 'm) option"
  rm_reset :: "'m \<Rightarrow> 'm"

text \<open>\<open>set_module_property\<close> has an empty body and is final.\<close>

definition set_module_property :: "module_property \<Rightarrow> 'm \<Rightarrow> 'm" where
  "set_module_property mp m = m"

definition module_construct :: "module_property \<Rightarrow> 'm \<Rightarrow> bool \<times> 'm" where
  "module_construct mp m = (True, set_module_property mp m)"

definition sync_module :: "('c \<Rightarrow> 'm \<Rightarrow> (run_status \<times> 'c \<times> 'm) option) \<Rightarrow> ('m \<Rightarrow> 'm) \<Rightarrow> ('m, 'c) runnable_module" where
  "sync_module body clean =
     \<lparr>rm_module_type = SYNC_MODULE, rm_construct = module_construct, rm_init = (\<lambda>c m. (True, m)), rm_is_skipped = (\<lambda>m. (False, m)),
      rm_run = body, rm_continue_run = (\<lambda>c m. Some (True, c, m)), rm_reset = clean\<rparr>"

section \<open>Modules that call other servers\<close>

record remote_side_meta =
  partition_internal_index :: "32 word"
  partition_index :: "32 word"
  partition_count :: "32 word"
  naming_service_custom_meta :: "nat option"
  remote_naming_service_tag :: string

definition remote_side_meta_construct :: remote_side_meta where
  "remote_side_meta_construct = \<lparr>partition_internal_index = 0, partition_index = 0, partition_count = 1,
     naming_service_custom_meta = None, remote_naming_service_tag = []\<rparr>"

text \<open>
  The functions on \<open>RemoteSideMeta\<close> and the deprecated ones on \<open>int\<close> they call by default.  A message is an address, null when there is none.
\<close>

record ('m, 'c) async_rpc_module =
  am_runnable :: "('m, 'c) runnable_module"
  am_rpc_calling_name :: "'m \<Rightarrow> string"
  am_rpc_call_meta :: "'m \<Rightarrow> nat option"
  am_pre_rpc_call :: "'c \<Rightarrow> 'm \<Rightarrow> bool \<times> 'm"
  am_runner_skipped :: "'m \<Rightarrow> bool"
  am_build_request :: "remote_side_meta \<Rightarrow> 'm \<Rightarrow> nat option \<times> 'm"
  am_create_or_get_response :: "remote_side_meta \<Rightarrow> 'm \<Rightarrow> nat option \<times> 'm"
  am_parse_response :: "remote_side_meta \<Rightarrow> 'm \<Rightarrow> 'm"

text \<open>The conversion of a \<open>uint32_t\<close> to a parameter of type \<open>int\<close>.\<close>

definition to_int :: "32 word \<Rightarrow> int" where
  "to_int w = sint w"

definition async_run :: "'c \<Rightarrow> 'm \<Rightarrow> (run_status \<times> 'c \<times> 'm) option" where
  "async_run c m = Some (SUCCESS, c, m)"

definition async_module ::
  "(int \<Rightarrow> int \<Rightarrow> 'm \<Rightarrow> nat option \<times> 'm) \<Rightarrow> (int \<Rightarrow> int \<Rightarrow> 'm \<Rightarrow> nat option \<times> 'm) \<Rightarrow> (int \<Rightarrow> 'm \<Rightarrow> 'm) \<Rightarrow>
   ('c \<Rightarrow> 'm \<Rightarrow> (bool \<times> 'c \<times> 'm) option) \<Rightarrow> ('m \<Rightarrow> 'm) \<Rightarrow> ('m, 'c) async_rpc_module" where
  "async_module build_request create_or_get_response parse_response continue_run clean =
     \<lparr>am_runnable = \<lparr>rm_module_type = ASYNC_RPC_MODULE, rm_construct = module_construct, rm_init = (\<lambda>c m. (True, m)),
        rm_is_skipped = (\<lambda>m. (False, m)), rm_run = async_run, rm_continue_run = continue_run, rm_reset = clean\<rparr>,
      am_rpc_calling_name = (\<lambda>m. []), am_rpc_call_meta = (\<lambda>m. None), am_pre_rpc_call = (\<lambda>c m. (True, m)), am_runner_skipped = (\<lambda>m. False),
      am_build_request = (\<lambda>r. build_request (to_int (partition_index r)) (to_int (partition_count r))),
      am_create_or_get_response = (\<lambda>r. create_or_get_response (to_int (partition_index r)) (to_int (partition_count r))),
      am_parse_response = (\<lambda>r. parse_response (to_int (partition_index r)))\<rparr>"

text \<open>The deprecated functions see the partition number unless it is too large for an \<open>int\<close>; then it arrives as a negative number.\<close>

lemma to_int_cases: "to_int w = (if uint w < 2 ^ 31 then uint w else uint w - 2 ^ 32)"
proof -
  have u: "uint w < 2 ^ 32" "0 \<le> uint w" using uint_lt2p [of w] by simp_all
  have "to_int w = (uint w + 2 ^ 31) mod 2 ^ 32 - 2 ^ 31"
    by (simp add: to_int_def sint_uint signed_take_bit_eq_take_bit_shift take_bit_eq_mod)
  moreover have "(uint w + 2 ^ 31) mod 2 ^ 32 = (if uint w < 2 ^ 31 then uint w + 2 ^ 31 else uint w - 2 ^ 31)"
  proof (cases "uint w < 2 ^ 31")
    case False
    then have "(uint w - 2 ^ 31 + 1 * 2 ^ 32) mod 2 ^ 32 = uint w - 2 ^ 31"
      using u by (subst mod_mult_self1) (simp add: mod_pos_pos_trivial)
    then show ?thesis using False by (simp add: add.commute)
  qed (use u in simp)
  ultimately show ?thesis by simp
qed

lemma async_build_request:
  assumes "uint (partition_index r) < 2 ^ 31" and "uint (partition_count r) < 2 ^ 31"
  shows "am_build_request (async_module b c p k cl) r = b (uint (partition_index r)) (uint (partition_count r))"
  using assms by (simp add: async_module_def to_int_cases)

section \<open>Applications\<close>

text \<open>The functions of \<open>SwApp\<close> that are not pure virtual.\<close>

definition session_local_data_factory :: "nat option" where
  "session_local_data_factory = None"

definition get_pns_meta :: "string \<times> nat option" where
  "get_pns_meta = ([], None)"

definition sw_app_default ::
  "factory_registry \<Rightarrow> nat element_registry \<Rightarrow> (nat \<Rightarrow> bool) \<Rightarrow> (nat \<Rightarrow> bool) \<Rightarrow> (nat \<Rightarrow> bool option) \<Rightarrow>
   (('d, 'p) rpc_component \<Rightarrow> (bool \<times> ('d, 'p) rpc_component) run) \<Rightarrow> ('d, 'p) sw_app" where
  "sw_app_default reg reloadable reload_init reload_load service_init init =
     \<lparr>app_registry = reg, app_reloadable = reloadable, app_init = init, app_health = 0, app_load_biz = (\<lambda>name path. True),
      app_unload_biz = (\<lambda>name. True), module_init = reload_init, module_load = reload_load, integrating_init = service_init\<rparr>"

end
