(* ===== verification/EchoApp.thy ===== *)
theory EchoApp
  imports ModuleInterfaces "HOL-Library.Monad_Syntax"
begin

text \<open>
  The application of \<open>DAG/echo_server\<close> and its life in the server.  It is the client of the whole search server: it registers a module, adds a
  topology, exposes a method, and is started and stopped by the search worker.  The last theorem runs these components together.
\<close>

section \<open>The module\<close>

text \<open>Requests and responses: the two messages of the service, or one of another class, for which the cast gives a null pointer.\<close>

datatype message = EchoRequest string | EchoResponse string | OtherMessage

record request_context =
  rc_request :: message
  rc_response :: message

definition echo_run :: "request_context \<Rightarrow> unit \<Rightarrow> (run_status \<times> request_context \<times> unit) option" where
  "echo_run c m =
     (case (rc_request c, rc_response c) of
        (EchoRequest query, EchoResponse _) \<Rightarrow> Some (SUCCESS, c\<lparr>rc_response := EchoResponse query\<rparr>, m)
      | _ \<Rightarrow> None)"

text \<open>The function \<open>init\<close> of \<open>EchoModule\<close> has two parameters and does not override \<open>RunnableModule::init\<close>, which stays the default.\<close>

definition echo_module :: "(unit, request_context) runnable_module" where
  "echo_module = sync_module echo_run (\<lambda>m. m)"

definition echo_class :: class_info where
  "echo_class = \<lparr>class_name = ''EchoModule'', class_bases = [''SyncModule'']\<rparr>"

text \<open>\<open>REGISTER_RUNNABLE_MODULE\<close> on the singleton that is created by its first use.\<close>

definition register_runnable_module :: "bool \<Rightarrow> class_info \<Rightarrow> string \<Rightarrow> 'e module_registry option \<Rightarrow> 'e module_registry option" where
  "register_runnable_module tr2 c name inst =
     (let (r, _) = module_registry_instance inst
      in Some (r\<lparr>runnable_module_factory_registry := factory_registerer tr2 c name (runnable_module_factory_registry r)\<rparr>))"

definition echo_registry :: "bool \<Rightarrow> nat module_registry" where
  "echo_registry tr2 = fst (module_registry_instance (register_runnable_module tr2 echo_class ''echo_module'' None))"

section \<open>The application\<close>

definition echo_topology :: "runnable_element list" where
  "echo_topology = [\<lparr>re_name = ''echo_module'', re_factory_name = ''echo_module'', re_dependencies = [], re_module_params = []\<rparr>]"

text \<open>\<open>init\<close>; the argument before the component is the pointer to the table of components.  It aborts when the entry is of another class (the cast gives a
  null pointer, which is followed), and hangs when a topology of the same name stays in use.\<close>

definition echo_init ::
  "'d dbd_ops \<Rightarrow> 'p sw_env \<Rightarrow> rpc_env \<Rightarrow> (string, component_entry) umap option \<Rightarrow> ('d, 'p) rpc_component \<Rightarrow>
   (bool \<times> ('d, 'p) rpc_component) run" where
  "echo_init ops env renv components c =
     (case components of None \<Rightarrow> Ok (False, c)
      | Some cs \<Rightarrow>
          (case map_of cs ''rpc_component'' of
             None \<Rightarrow> Ok (False, c)
           | Some OtherEntry \<Rightarrow> Crash ''rpc_component is null''
           | Some RpcEntry \<Rightarrow>
               (case rpc_add_topology ops env ''default'' echo_topology c of
                  (Blocked, c1) \<Rightarrow> Hang
                | (Failed e, c1) \<Rightarrow> Ok (False, c1)
                | (Done, c1) \<Rightarrow>
                    (case add_serving renv ''sw.example.proto.EchoService'' ''echo'' ''default'' None c1 of
                       (ok, c2) \<Rightarrow> Ok (ok, c2)))))"

text \<open>The proxy calls \<open>init\<close> with its own components.\<close>

definition echo_app ::
  "'d dbd_ops \<Rightarrow> 'p sw_env \<Rightarrow> rpc_env \<Rightarrow> bool \<Rightarrow> (string, component_entry) umap \<Rightarrow> ('d, 'p) sw_app" where
  "echo_app ops env renv tr2 components =
     sw_app_default (runnable_module_factory_registry (echo_registry tr2)) (reloadable_module_registry (echo_registry tr2))
       (\<lambda>_. True) (\<lambda>_. True) (\<lambda>_. None)
       (echo_init ops env renv (Some components))"

section \<open>Lemmas\<close>

text \<open>The answer of the module.\<close>

lemma echo_module_answers:
  "rm_run echo_module \<lparr>rc_request = EchoRequest query, rc_response = EchoResponse r\<rparr> () =
     Some (SUCCESS, \<lparr>rc_request = EchoRequest query, rc_response = EchoResponse query\<rparr>, ())"
  by (simp add: echo_module_def sync_module_def echo_run_def)

lemma echo_registry_creates:
  assumes "\<not> heap_exhausted h"
  shows "\<exists>p h'. create_element (runnable_module_factory_registry (echo_registry tr2)) ''echo_module'' h = (p, h') \<and>
    map_of (objects h') p = Some ''EchoModule''"
  using assms
  by (simp add: echo_registry_def register_runnable_module_def module_registry_instance_def factory_registerer_def register_factory_def
      create_element_def create_object_def echo_class_def empty_factory_registry_def Let_def umap_simps)

lemma echo_registered: "contain_factory (runnable_module_factory_registry (echo_registry tr2)) ''echo_module''"
  by (simp add: echo_registry_def register_runnable_module_def module_registry_instance_def Let_def)

text \<open>The descriptor pool knows the service of \<open>echo_server.proto\<close>.\<close>

definition echo_described :: "rpc_env \<Rightarrow> bool" where
  "echo_described renv \<longleftrightarrow> has_descriptor_pool renv \<and> has_message_pool renv \<and> find_service renv ''sw.example.proto.EchoService'' \<and>
     find_service_method renv ''sw.example.proto.EchoService'' ''echo'' = Some (''sw.example.proto.EchoRequest'', ''sw.example.proto.EchoResponse'') \<and>
     get_prototype renv ''sw.example.proto.EchoRequest'' \<noteq> None \<and> get_prototype renv ''sw.example.proto.EchoResponse'' \<noteq> None"

lemma echo_config_ok: "config_ok [] (pack_desc ''default'' echo_topology [])"
  by (simp add: config_ok_def pack_desc_def echo_topology_def definition_of_def deps_def names_def acyclic_def Let_def)

text \<open>The plan of the topology: one module, made by the registered factory.\<close>

lemma echo_plan:
  obtains t where "plan_topology env reg [] (pack_desc ''default'' echo_topology []) = Inr t" "mt_name t = ''default''" "mt_reference_count t = 0"
    "map (\<lambda>r. (re_name r, re_factory_name r, re_dependencies r)) (mt_desc t) = [(''echo_module'', ''echo_module'', [])]"
proof -
  obtain t where t: "plan_topology env reg [] (pack_desc ''default'' echo_topology []) = Inr t"
    using plan_topology_iff echo_config_ok by blast
  note d = plan_topology_desc [OF t]
  then obtain ord where ord: "mset ord = mset (rt_element (tc_topology (pack_desc ''default'' echo_topology [])))"
    "list_all2 (runnable_of [] (pack_desc ''default'' echo_topology [])) ord (mt_desc t)" unfolding desc_ok_def by blast
  then have "ord = [\<lparr>el_name = ''echo_module'', el_dependency = [], el_allow_parallel = False, el_custom_params = []\<rparr>]"
    by (simp add: pack_desc_def echo_topology_def)
  then obtain r where r: "mt_desc t = [r]"
    "runnable_of [] (pack_desc ''default'' echo_topology []) \<lparr>el_name = ''echo_module'', el_dependency = [], el_allow_parallel = False, el_custom_params = []\<rparr> r"
    using ord(2) by (auto simp: list_all2_Cons1)
  have "definition_of [] (tc_module (pack_desc ''default'' echo_topology [])) ''echo_module'' =
      Some \<lparr>pm_name = ''echo_module'', pm_factory_name = ''echo_module'', pm_custom_params = []\<rparr>"
    by (simp add: pack_desc_def echo_topology_def definition_of_def)
  then have "re_name r = ''echo_module''" "re_factory_name r = ''echo_module''" "re_dependencies r = []"
    using r(2) unfolding runnable_of_def by simp_all
  then have desc: "map (\<lambda>r. (re_name r, re_factory_name r, re_dependencies r)) (mt_desc t) = [(''echo_module'', ''echo_module'', [])]"
    by (simp add: r(1))
  have "mt_name t = ''default''" "mt_reference_count t = 0" using d by (simp_all add: pack_desc_def)
  from that [OF t this desc] show thesis .
qed


text \<open>Adding the topology to a new manager.\<close>

lemma echo_added:
  assumes laws: "dbd_laws ops ok" and d: "ok d" "op_read ops d = Some []" and env: "env_ready reg env" and reg: "contain_factory reg ''echo_module''"
  obtains d' t pool g where "add_topology_desc ops env ''default'' echo_topology [] (manager_init d reg) = (Done, g)"
    "ok d'" "op_read ops d' = Some [(''default'', 1)]" "fst (pool_test env pool)"
    "g = (manager_init d reg)\<lparr>mg_dbd := d', mg_heap := [(1, t)], mg_next := 2, mg_storage := [1], mg_monitors := [(''default'', True)]\<rparr>"
    "mt_pool t = Some pool" "mt_name t = ''default''" "mt_reference_count t = 0"
    "map (\<lambda>r. (re_name r, re_factory_name r, re_dependencies r)) (mt_desc t) = [(''echo_module'', ''echo_module'', [])]"
proof -
  obtain t where t: "plan_topology env reg [] (pack_desc ''default'' echo_topology []) = Inr t" "mt_name t = ''default''" "mt_reference_count t = 0"
    "map (\<lambda>r. (re_name r, re_factory_name r, re_dependencies r)) (mt_desc t) = [(''echo_module'', ''echo_module'', [])]"
    by (rule echo_plan)
  obtain pool where pool: "new_pool env ''default'' t = Some pool" "fst (pool_test env pool)"
    by (rule planned_pool [OF env t(1)]) (auto simp: pack_desc_def echo_topology_def reg)
  obtain d' where d': "op_modify ops (index_replace ''default'' 1) {} d = (1, d', {})" "ok d'" "op_read ops d' = Some [(''default'', 1)]"
    using dbd_replace [OF laws d, of "''default''" 1] by auto
  let ?t = "t\<lparr>mt_pool := Some pool\<rparr>"
  let ?g = "(manager_init d reg)\<lparr>mg_dbd := d', mg_heap := [(1, ?t)], mg_next := 2, mg_storage := [1], mg_monitors := [(''default'', True)]\<rparr>"
  have "emplace_topology_monitor env ''default'' (manager_init d reg) = (True, (manager_init d reg)\<lparr>mg_monitors := [(''default'', True)]\<rparr>)"
    using env by (simp add: emplace_topology_monitor_def manager_init_def env_ready_def)
  moreover have "create_session_local_data_pool env ''default'' t False = Some pool" by (simp add: create_session_local_data_pool_def pool)
  moreover have "publish_topology ops ''default'' ?t ((manager_init d reg)\<lparr>mg_monitors := [(''default'', True)]\<rparr>) = (Done, ?g)"
    using d'(1) by (simp add: publish_topology_def manager_init_def storage_add_def numeral_2_eq_2)
  ultimately have "add_topology_desc ops env ''default'' echo_topology [] (manager_init d reg) = (Done, ?g)"
    using t(1,2) by (simp add: add_topology_desc_def add_topology_def manager_init_def)
  from that [OF this d'(2,3) pool(2) refl] t(2,3,4) show thesis by simp
qed

definition echo_serving :: "string \<Rightarrow> string \<Rightarrow> serving_config" where
  "echo_serving rq rs = \<lparr>sv_service = ''sw.example.proto.EchoService'', sv_request_prototype = rq, sv_response_prototype = rs,
     sv_method_name = ''echo'', sv_topology_name = ''default'', sv_has_picker = False, sv_response_compress_type = 0\<rparr>"

lemma echo_served:
  assumes "echo_described renv"
  obtains rq rs where "add_serving renv ''sw.example.proto.EchoService'' ''echo'' ''default'' None c =
    (True, c\<lparr>rpc_serving_configs := rpc_serving_configs c @ [echo_serving rq rs]\<rparr>)"
proof -
  obtain rq rs where "get_prototype renv ''sw.example.proto.EchoRequest'' = Some rq" "get_prototype renv ''sw.example.proto.EchoResponse'' = Some rs"
    using assms unfolding echo_described_def by blast
  then show thesis using that assms by (simp add: add_serving_def add_serving_desc_def echo_described_def echo_serving_def Let_def)
qed


lemma echo_no_reloadable: "element_list (app_reloadable (echo_app ops env renv tr2 cs)) = []"
  by (simp add: echo_app_def sw_app_default_def echo_registry_def register_runnable_module_def module_registry_instance_def
      empty_element_registry_def Let_def)

text \<open>What the worker holds after a successful start.\<close>

lemma echo_started:
  assumes laws: "dbd_laws ops ok" and d: "ok d" "op_read ops d = Some []" and env: "env_ready (runnable_module_factory_registry (echo_registry tr2)) env" and renv: "echo_described renv"
    and we: "we_loader_ok we" "we_config_ok we" "we_cat_ok we" "we_server_ok we" "we_controller_ok we" "map_of (we_components we) ''rpc_component'' = Some RpcEntry"
      "we_app we = Some (echo_app ops env renv tr2 (we_components we))"
  obtains d' t rq rs w where
    "start_search_worker ops env cat we \<lparr>rpc_manager = manager_init d reg, rpc_serving_configs = [], rpc_raw_services = []\<rparr> = Ok (True, Some w)"
    "ok d'" "op_read ops d' = Some [(''default'', 1)]"
    "rpc_serving_configs (wk_component w) = [echo_serving rq rs]" "rpc_raw_services (wk_component w) = []"
    "mg_dbd (rpc_manager (wk_component w)) = d'" "mg_heap (rpc_manager (wk_component w)) = [(1, t)]"
    "mg_storage (rpc_manager (wk_component w)) = [1]" "mg_next (rpc_manager (wk_component w)) = 2"
    "\<exists>px. wk_proxy w = Some px \<and> px_has_rpc px \<and> app_health (px_app px) = 0" "wk_started w" "wk_rpc_server w = Some True"
    "mt_name t = ''default''" "mt_reference_count t = 0"
    "map (\<lambda>r. (re_name r, re_factory_name r, re_dependencies r)) (mt_desc t) = [(''echo_module'', ''echo_module'', [])]"
proof -
  let ?reg = "runnable_module_factory_registry (echo_registry tr2)"
  let ?c0 = "\<lparr>rpc_manager = manager_init d ?reg, rpc_serving_configs = [], rpc_raw_services = []\<rparr>"
  obtain d' t pool g where g: "add_topology_desc ops env ''default'' echo_topology [] (manager_init d ?reg) = (Done, g)"
    "ok d'" "op_read ops d' = Some [(''default'', 1)]" "fst (pool_test env pool)"
    "g = (manager_init d ?reg)\<lparr>mg_dbd := d', mg_heap := [(1, t)], mg_next := 2, mg_storage := [1], mg_monitors := [(''default'', True)]\<rparr>"
    "mt_pool t = Some pool" "mt_name t = ''default''" "mt_reference_count t = 0"
    "map (\<lambda>r. (re_name r, re_factory_name r, re_dependencies r)) (mt_desc t) = [(''echo_module'', ''echo_module'', [])]"
    by (rule echo_added [OF laws d env echo_registered])
  obtain rq rs where srv: "add_serving renv ''sw.example.proto.EchoService'' ''echo'' ''default'' None (?c0\<lparr>rpc_manager := g\<rparr>) =
      (True, \<lparr>rpc_manager = g, rpc_serving_configs = [echo_serving rq rs], rpc_raw_services = []\<rparr>)"
    using echo_served [OF renv, of "?c0\<lparr>rpc_manager := g\<rparr>" thesis] by fastforce
  let ?c2 = "\<lparr>rpc_manager = g, rpc_serving_configs = [echo_serving rq rs], rpc_raw_services = []\<rparr>"
  have init: "app_init (echo_app ops env renv tr2 (we_components we)) ?c0 = Ok (True, ?c2)"
    using srv by (simp add: echo_app_def sw_app_default_def echo_init_def we(6) rpc_add_topology_def g(1))
  have reg: "app_registry (echo_app ops env renv tr2 (we_components we)) = ?reg" by (simp add: echo_app_def sw_app_default_def)
  have m0: "(manager_init d reg)\<lparr>mg_app_registry := ?reg\<rparr> = manager_init d ?reg" by (simp add: manager_init_def)
  let ?px = "\<lparr>px_app = echo_app ops env renv tr2 (we_components we), px_has_rpc = True, px_reload_thread = False\<rparr>"
  let ?c3 = "?c2\<lparr>rpc_manager := set_app_initialized g\<rparr>"
  have "contain ops g ''default''" by (simp add: contain_def g(3,5) index_seek_def)
  then have px: "proxy_init ops (we_components we) (?px\<lparr>px_has_rpc := False\<rparr>)
      \<lparr>rpc_manager = manager_init d reg, rpc_serving_configs = [], rpc_raw_services = []\<rparr> = Ok (True, ?px, ?c3)"
    using init by (simp add: proxy_init_def we(6) reg m0 echo_serving_def)
  have rl: "setup_reload_scheme ?px = (True, ?px\<lparr>px_reload_thread := True\<rparr>)"
    by (simp add: setup_reload_scheme_def first_failure_def visit_def echo_no_reloadable)
  obtain pool' where pool': "pool_test env pool = (True, pool')" using g(4) by (metis prod.collapse)
  let ?t = "t\<lparr>mt_pool := Some (pool_reserve env pool')\<rparr>"
  have val: "validate_and_reserve ops env (set_app_initialized g) = (True, (set_app_initialized g)\<lparr>mg_heap := [(1, ?t)]\<rparr>)"
    by (simp add: validate_and_reserve_def set_app_initialized_def g(3,5,6) pool')
  have "start_search_worker ops env cat we \<lparr>rpc_manager = manager_init d reg, rpc_serving_configs = [], rpc_raw_services = []\<rparr> =
      Ok (True, Some \<lparr>wk_started = True, wk_rpc_server = Some True, wk_controller = Some True, wk_proxy = Some (?px\<lparr>px_reload_thread := True\<rparr>),
        wk_component = ?c3\<lparr>rpc_manager := (set_app_initialized g)\<lparr>mg_heap := [(1, ?t)]\<rparr>\<rparr>, wk_app_live = True\<rparr>)"
    using px rl val we by (simp add: start_search_worker_def worker_init_def init_worker_app_def worker_construct_def worker_start_def)
  from that [OF this g(2,3)] show thesis using g(5,7,8,9) by (simp add: set_app_initialized_def echo_app_def sw_app_default_def)
qed


text \<open>
  C14: The echo server as a whole.  The environment: a container of the index that behaves as documented, a monitor that can be exposed, session-local data that is created
  and passes its test for topologies whose modules are registered, a descriptor pool that knows the service, and configuration, loader, server and
  controller that report success.  Then the worker initialises the application and starts; it is healthy, the server exposes one service, and a call of its
  method schedules the topology that consists of the registered echo module, with one reference held.  The running worker cannot be stopped: the manager is cleared without
  removing the topology, and the assertion that none is left fails.\<close>

theorem echo_server_runs:
  assumes laws: "dbd_laws ops ok" and d: "ok d" "op_read ops d = Some []" and env: "env_ready (runnable_module_factory_registry (echo_registry tr2)) env" and renv: "echo_described renv"
    and we: "we_loader_ok we" "we_config_ok we" "we_cat_ok we" "we_server_ok we" "we_controller_ok we" "map_of (we_components we) ''rpc_component'' = Some RpcEntry"
      "we_app we = Some (echo_app ops env renv tr2 (we_components we))"
    and methods: "methods_of ''sw.example.proto.EchoService'' = [''echo'']"
  shows "\<exists>w s p g t.
    start_search_worker ops env cat we \<lparr>rpc_manager = manager_init d reg, rpc_serving_configs = [], rpc_raw_services = []\<rparr> = Ok (True, Some w) \<and> wk_started w \<and> check_health w \<and>
    add_service methods_of (\<lambda>_ _. True) (wk_component w) = Inr [SwService s] \<and>
    call_method ops picker s 0 (rpc_manager (wk_component w)) = (Scheduled p [], g) \<and>
    map_of (mg_heap g) p = Some t \<and> mt_name t = ''default'' \<and> mt_reference_count t = 1 \<and>
    map (\<lambda>r. (re_name r, re_factory_name r, re_dependencies r)) (mt_desc t) = [(''echo_module'', ''echo_module'', [])] \<and>
    stop_search_worker w = Crash ''num_topologies() == 0''"
proof -
  obtain d' t rq rs w where w:
    "start_search_worker ops env cat we \<lparr>rpc_manager = manager_init d reg, rpc_serving_configs = [], rpc_raw_services = []\<rparr> = Ok (True, Some w)"
    "ok d'" "op_read ops d' = Some [(''default'', 1)]"
    "rpc_serving_configs (wk_component w) = [echo_serving rq rs]" "rpc_raw_services (wk_component w) = []"
    "mg_dbd (rpc_manager (wk_component w)) = d'" "mg_heap (rpc_manager (wk_component w)) = [(1, t)]"
    "mg_storage (rpc_manager (wk_component w)) = [1]" "mg_next (rpc_manager (wk_component w)) = 2"
    "\<exists>px. wk_proxy w = Some px \<and> px_has_rpc px \<and> app_health (px_app px) = 0" "wk_started w" "wk_rpc_server w = Some True"
    "mt_name t = ''default''" "mt_reference_count t = 0"
    "map (\<lambda>r. (re_name r, re_factory_name r, re_dependencies r)) (mt_desc t) = [(''echo_module'', ''echo_module'', [])]"
    by (rule echo_started [OF laws d env renv we])
  let ?s = "\<lparr>rs_service = ''sw.example.proto.EchoService'', rs_method_necessities_list = [Some (echo_serving rq rs)]\<rparr>"
  have srv: "add_service methods_of (\<lambda>_ _. True) (wk_component w) = Inr [SwService ?s]"
    by (simp add: add_service_def w(4,5) echo_serving_def methods rpc_service_ctor_def RpcService.resize_def)
  let ?g = "(rpc_manager (wk_component w))\<lparr>mg_heap := [(1, t\<lparr>mt_reference_count := 1\<rparr>)]\<rparr>"
  have call: "call_method ops picker ?s 0 (rpc_manager (wk_component w)) = (Scheduled 1 [], ?g)"
    by (simp add: call_method_def method_slot_def read_topology_list_def w(3,6,7,14) echo_serving_def pick_topology_def increase_reference_def
        modify_refcount_def)
  have stop: "stop_search_worker w = Crash ''num_topologies() == 0''"
    using w(8,10) by (auto simp: stop_search_worker_def worker_stop_def worker_destroy_def manager_clear_def num_topologies_def)
  have health: "check_health w" using w(10,12) by (auto simp: check_health_def)
  have "map_of (mg_heap ?g) 1 = Some (t\<lparr>mt_reference_count := 1\<rparr>)" by simp
  then show ?thesis
    using w(1,11,13,15) health srv call stop by (intro exI [of _ w] exI [of _ ?s] exI [of _ 1] exI [of _ ?g] exI [of _ "t\<lparr>mt_reference_count := 1\<rparr>"]) simp
qed

definition echo_env :: rpc_env where
  "echo_env = demo_rpc_env\<lparr>find_service_method := (\<lambda>s m. if m = ''echo'' then Some (''sw.example.proto.EchoRequest'', ''sw.example.proto.EchoResponse'') else None),
     get_prototype := (\<lambda>t. Some t)\<rparr>"

definition echo_worker_env :: "(index \<times> index, nat) worker_env" where
  "echo_worker_env = \<lparr>we_config_ok = True, we_cat_ok = True, we_loader_ok = True,
     we_app = Some (echo_app pair_ops demo_env echo_env True [(''rpc_component'', RpcEntry)]), we_components = [(''rpc_component'', RpcEntry)],
     we_server_ok = True, we_controller_ok = True\<rparr>"

theorem echo_server_runs_witness:
  "\<exists>w s p g. start_search_worker pair_ops demo_env False echo_worker_env
      \<lparr>rpc_manager = manager_init ([], []) empty_factory_registry, rpc_serving_configs = [], rpc_raw_services = []\<rparr> = Ok (True, Some w) \<and>
    add_service (\<lambda>_. [''echo'']) (\<lambda>_ _. True) (wk_component w) = Inr [SwService s] \<and>
    call_method pair_ops None s 0 (rpc_manager (wk_component w)) = (Scheduled p [], g)"
proof -
  have "env_ready reg demo_env" for reg by (simp add: env_ready_def demo_env_def)
  moreover have "echo_described echo_env" by (simp add: echo_described_def echo_env_def demo_rpc_env_def)
  moreover have "pair_ok ([], [])" "op_read pair_ops ([], []) = Some []" by (simp_all add: pair_ok_def pair_ops_def)
  ultimately show ?thesis
    using echo_server_runs [OF pair_laws, of "([], [])" True demo_env echo_env echo_worker_env "\<lambda>_. [''echo'']" False empty_factory_registry None]
    by (simp add: echo_worker_env_def) blast
qed

end
