(* ===== verification/ServerSystem.thy ===== *)
theory ServerSystem
  imports AppHost
begin

text \<open>
  The border of the server with its system: the signals of \<open>ServerMain.cpp\<close>, its loggers, the access log of \<open>RpcServiceImpl.cpp\<close>, the end of
  \<open>RpcServer.cpp\<close>, the meta data of \<open>SearchWorker.cpp\<close>, and the remaining overloads of \<open>parse_value\<close>.  Calls of the system and of libraries are
  arguments that give their results.
\<close>

section \<open>Signals\<close>

datatype disposition = DefaultAction | Ignored | SignalHandler | FailureHandler disposition

record signal_state =
  sg_global_mask :: "signal set"
  sg_oldmask :: "signal set"
  sg_blocked :: "signal set"
  sg_handlers :: "signal \<Rightarrow> disposition"

text \<open>\<open>absl::InstallFailureSignalHandler\<close> with \<open>call_previous_handler\<close>, on the signals it takes over.\<close>

definition register_failure_signal_handler :: "bool \<Rightarrow> signal set \<Rightarrow> signal_state \<Rightarrow> signal_state" where
  "register_failure_signal_handler thread_dump failure_signals st =
     (if thread_dump then st\<lparr>sg_handlers := (\<lambda>g. if g \<in> failure_signals then FailureHandler (sg_handlers st g) else sg_handlers st g)\<rparr> else st)"

definition register_signal_handler :: "int \<Rightarrow> bool \<Rightarrow> signal set \<Rightarrow> signal_state \<Rightarrow> bool \<times> signal_state" where
  "register_signal_handler sigmask_rc thread_dump failure_signals st =
     (let mask = insert SIGPIPE (insert SIGUSR2 (insert SIGUSR1 (insert SIGTERM (insert SIGINT {}))));
          st1 = st\<lparr>sg_global_mask := mask\<rparr>
      in if sigmask_rc \<noteq> 0 then (False, st1)
         else
           let st2 = st1\<lparr>sg_oldmask := sg_blocked st1, sg_blocked := sg_blocked st1 \<union> mask\<rparr>;
               st3 = st2\<lparr>sg_handlers := (sg_handlers st2)(SIGPIPE := Ignored, SIGUSR1 := SignalHandler, SIGUSR2 := SignalHandler,
                 SIGINT := SignalHandler, SIGTERM := SignalHandler)\<rparr>
           in (True, register_failure_signal_handler thread_dump failure_signals st3))"

text \<open>A signal that arrives: \<^const>\<open>None\<close> when it is blocked and so left to \<open>sigwait\<close>, else what handles it.\<close>

definition deliver :: "signal_state \<Rightarrow> signal \<Rightarrow> disposition option" where
  "deliver st g = (if g \<in> sg_blocked st then None else Some (sg_handlers st g))"

text \<open>Whatever handlers are installed, every signal that \<open>waitSignal\<close> waits for is left to it, and no other signal changes its handling
  except those of the thread dump.\<close>

lemma signals_left_to_wait:
  assumes "register_signal_handler rc thread_dump failure_signals st = (True, st')"
  shows "g \<in> sg_global_mask st' \<Longrightarrow> deliver st' g = None" and "ends_wait 0 g \<Longrightarrow> g \<in> sg_global_mask st'"
    and "g \<notin> sg_global_mask st' \<Longrightarrow> g \<notin> failure_signals \<or> \<not> thread_dump \<Longrightarrow> deliver st' g = deliver st g"
  using assms
  by (auto simp: register_signal_handler_def register_failure_signal_handler_def deliver_def ends_wait_def Let_def split: if_splits)

text \<open>So the wait ends with the first such signal other than \<open>SIGPIPE\<close>.\<close>

lemma wait_signal_ends:
  assumes "register_signal_handler rc thread_dump failure_signals st = (True, st')" and "g \<in> sg_global_mask st'" and "g \<noteq> SIGPIPE"
    and "list_all (\<lambda>(error, signo). error \<noteq> 0 \<or> signo = SIGPIPE) before"
  shows "wait_signal (before @ (0, g) # after) = Some (g, after)"
proof -
  have "g \<in> {SIGUSR1, SIGUSR2, SIGINT, SIGTERM}"
    using assms(1-3) by (auto simp: register_signal_handler_def register_failure_signal_handler_def Let_def split: if_splits)
  then have "wait_signal ((0, g) # after) = Some (g, after)" by simp
  with assms(4) show ?thesis by (induction before) auto
qed

section \<open>Loggers\<close>

record logger_state =
  lg_config :: string
  lg_brpc_to_alog :: bool
  lg_glog_to_alog :: bool
  lg_cat_appenders :: nat
  lg_open :: bool

definition configure_logger :: "string \<Rightarrow> bool \<Rightarrow> logger_state \<Rightarrow> bool \<times> logger_state" where
  "configure_logger file_content enable_cat_monitor lg =
     (True, lg\<lparr>lg_config := file_content, lg_brpc_to_alog := True, lg_glog_to_alog := True,
       lg_cat_appenders := (if enable_cat_monitor then lg_cat_appenders lg + 1 else lg_cat_appenders lg)\<rparr>)"

definition shutdown_logger :: "bool \<Rightarrow> logger_state \<Rightarrow> logger_state" where
  "shutdown_logger enable_cat_monitor lg =
     lg\<lparr>lg_brpc_to_alog := False, lg_glog_to_alog := False,
       lg_cat_appenders := (if enable_cat_monitor then lg_cat_appenders lg - 1 else lg_cat_appenders lg), lg_open := False\<rparr>"

lemma logger_roundtrip:
  "lg_cat_appenders (shutdown_logger cat (snd (configure_logger content cat lg))) = lg_cat_appenders lg"
  by (simp add: configure_logger_def shutdown_logger_def)

section \<open>Access log\<close>

text \<open>\<open>gethostname\<close> fills a buffer; if the name is cut off there is no final zero, and the constructor of the string would read on.\<close>

definition get_host_name :: "int \<Rightarrow> string \<Rightarrow> string option" where
  "get_host_name rc tmp_hostname =
     (if rc = 0 then if CHR 0x00 \<in> set tmp_hostname then Some (takeWhile (\<lambda>c. c \<noteq> CHR 0x00) tmp_hostname) else None
      else Some ''unknown-host'')"

definition build_access_log :: "bool \<Rightarrow> string \<Rightarrow> string \<Rightarrow> string \<Rightarrow> string \<Rightarrow> string" where
  "build_access_log more_meta hostname remote_side full_name json =
     (if more_meta then ''hostname='' @ hostname @ '' remote_side='' @ remote_side @ '' method='' else []) @ full_name @ '' - '' @ json"

definition access_logged :: "int \<Rightarrow> int \<Rightarrow> bool" where
  "access_logged sample_rate random \<longleftrightarrow> sample_rate > 0 \<and> random < sample_rate"

lemma access_logged_rate:
  assumes "0 \<le> sample_rate" and "sample_rate \<le> 1000000"
  shows "card {random \<in> {0..<1000000}. access_logged sample_rate random} = nat sample_rate"
proof -
  have "{random \<in> {0..<1000000}. access_logged sample_rate random} = {0..<sample_rate}" using assms by (auto simp: access_logged_def)
  then show ?thesis by simp
qed

section \<open>The end of the RPC server, meta data, values\<close>

record brpc_server =
  br_entries :: "server_entry list"
  br_running :: bool

definition rpc_server_is_running :: "brpc_server \<Rightarrow> bool" where
  "rpc_server_is_running sv = br_running sv"

definition rpc_server_stop :: "brpc_server \<Rightarrow> brpc_server" where
  "rpc_server_stop sv = sv\<lparr>br_running := False\<rparr>"

text \<open>\<open>getPnsMeta\<close>; the conversion gives its success and what it wrote.\<close>

definition worker_get_pns_meta :: "('m \<Rightarrow> bool \<times> string) \<Rightarrow> string \<times> 'm option \<Rightarrow> string \<times> string" where
  "worker_get_pns_meta to_json meta = (fst meta, case snd meta of None \<Rightarrow> [] | Some msg \<Rightarrow> snd (to_json msg))"

definition parse_value_other :: "string \<Rightarrow> 'a option" where
  "parse_value_other raw = None"

definition parse_value_float :: "(string \<Rightarrow> 'f option) \<Rightarrow> string \<Rightarrow> 'f option" where
  "parse_value_float stof raw = stof raw"

end
