(* ===== verification/PqProgram.thy ===== *)
theory PqProgram
  imports PqIndex
begin

text \<open>
  The rest of \<open>pq_test.cpp\<close>: random vectors, the random codebooks of \<open>train\<close>, and \<open>main\<close>.  A random number generator with its distribution is the sequence of the numbers it
  returns; every \<open>random_device\<close> starts another one.  Times are not measured.  The sizes of the data are arguments; the program has a
  million vectors and ten queries.
\<close>

definition generate_random_vector :: "nat \<Rightarrow> (nat \<Rightarrow> 'f) \<Rightarrow> 'f list" where
  "generate_random_vector dim gen = map gen [0..<dim]"

definition random_vectors :: "nat \<Rightarrow> (nat \<Rightarrow> nat \<Rightarrow> 'f) \<Rightarrow> 'f list list" where
  "random_vectors n gens = map (\<lambda>i. generate_random_vector DIM (gens i)) [0..<n]"

text \<open>Assigning random numbers to the elements of a vector, a codebook, all codebooks; the number counts the calls of the generator.\<close>

fun fill_centre :: "(nat \<Rightarrow> 'f) \<Rightarrow> 'f list \<Rightarrow> nat \<Rightarrow> 'f list \<times> nat" where
  "fill_centre gen [] n = ([], n)"
| "fill_centre gen (v # vs) n = (let (ws, n') = fill_centre gen vs (Suc n) in (gen n # ws, n'))"

fun fill_codebook :: "(nat \<Rightarrow> 'f) \<Rightarrow> 'f list list \<Rightarrow> nat \<Rightarrow> 'f list list \<times> nat" where
  "fill_codebook gen [] n = ([], n)"
| "fill_codebook gen (c # cs) n = (let (c', n1) = fill_centre gen c n; (cs', n2) = fill_codebook gen cs n1 in (c' # cs', n2))"

fun fill_codebooks :: "(nat \<Rightarrow> 'f) \<Rightarrow> 'f list list list \<Rightarrow> nat \<Rightarrow> 'f list list list \<times> nat" where
  "fill_codebooks gen [] n = ([], n)"
| "fill_codebooks gen (b # bs) n = (let (b', n1) = fill_codebook gen b n; (bs', n2) = fill_codebooks gen bs n1 in (b' # bs', n2))"

definition train :: "'f float_ops \<Rightarrow> (nat \<Rightarrow> 'f) \<Rightarrow> 'f list list \<Rightarrow> 'f pq_index \<Rightarrow> 'f pq_index" where
  "train F gen dataset pq =
     pq\<lparr>pq_codebooks := fst (fill_codebooks gen (resize M (replicate K (replicate sub_dim (f_zero F))) (pq_codebooks pq)) 0)\<rparr>"

definition count_found :: "('f list \<Rightarrow> (int \<times> 'f) option) \<Rightarrow> 'f list list \<Rightarrow> nat option" where
  "count_found seek queries =
     for_each queries (\<lambda>q correct. do { (idx, dist) \<leftarrow> seek q; Some (correct + (if idx \<noteq> -1 then 1 else 0)) }) 0"

definition pq_main :: "'f float_ops \<Rightarrow> nat \<Rightarrow> nat \<Rightarrow> (nat \<Rightarrow> nat \<Rightarrow> 'f) \<Rightarrow> (nat \<Rightarrow> nat \<Rightarrow> 'f) \<Rightarrow> (nat \<Rightarrow> 'f) \<Rightarrow> (nat \<times> nat) option" where
  "pq_main F num_data num_query data_gens query_gens train_gen = do {
     let dataset = random_vectors num_data data_gens;
     let queries = random_vectors num_query query_gens;
     brute \<leftarrow> count_found (\<lambda>q. linear_scan F q dataset) queries;
     let pq = train F train_gen dataset \<lparr>pq_codebooks = [], pq_codes = []\<rparr>;
     pq1 \<leftarrow> encode F dataset pq;
     correct \<leftarrow> count_found (pq_search F pq1) queries;
     Some (brute, correct) }"

section \<open>Training\<close>

lemma fill_centre_length: "length (fst (fill_centre gen vs n)) = length vs"
  by (induction vs arbitrary: n) (simp_all add: split_beta Let_def)

lemma fill_codebook_shape: "map length (fst (fill_codebook gen cs n)) = map length cs"
  by (induction cs arbitrary: n) (simp_all add: split_beta Let_def fill_centre_length)

lemma fill_codebooks_shape: "map (map length) (fst (fill_codebooks gen bs n)) = map (map length) bs"
  by (induction bs arbitrary: n) (simp_all add: split_beta Let_def fill_codebook_shape)

text \<open>Training gives codebooks of the right sizes.\<close>

lemma train_ok:
  assumes "pq_codebooks pq = []"
  shows "codebooks_ok (train F gen dataset pq)"
proof -
  let ?cb = "pq_codebooks (train F gen dataset pq)"
  have shape: "map (map length) ?cb = replicate M (replicate K sub_dim)"
    using assms by (simp add: train_def fill_codebooks_shape resize_def del: sizes)
  then have len: "length ?cb = M" by (metis length_map length_replicate)
  have row: "map length (?cb ! m) = replicate K sub_dim" if "m < M" for m
    using arg_cong [OF shape, of "\<lambda>xs. xs ! m"] that len by (simp del: sizes)
  have "length (?cb ! m) = K" if "m < M" for m using row [OF that] by (metis length_map length_replicate)
  moreover have "length (?cb ! m ! k) = sub_dim" if "m < M" "k < K" for m k
    using arg_cong [OF row [OF that(1)], of "\<lambda>xs. xs ! k"] that(2) calculation [OF that(1)] by (simp del: sizes)
  ultimately show ?thesis using len unfolding codebooks_ok_def tab_dim_def by (auto simp: in_set_conv_nth simp del: sizes)
qed

section \<open>The program\<close>

lemma count_found_eq:
  assumes "\<And>q. q \<in> set queries \<Longrightarrow> \<exists>sel d. seek q = Some (index_of_choice sel, d) \<and> best F (f q) n sel d"
  shows "count_found seek queries = Some (length (filter (\<lambda>q. \<exists>j<n. f_less F (f q j) (f_max F)) queries))"
proof -
  have step: "do { (idx, dist) \<leftarrow> seek q; Some (c + (if idx \<noteq> -1 then 1 else 0)) } =
      Some (c + (if \<exists>j<n. f_less F (f q j) (f_max F) then 1 else 0))" if q: "q \<in> set queries" for q c
  proof -
    obtain sel d where s: "seek q = Some (index_of_choice sel, d)" "best F (f q) n sel d" using assms [OF q] by blast
    show ?thesis
    proof (cases sel)
      case None
      then show ?thesis using s by (auto simp: best_None index_of_choice_def)
    next
      case (Some i)
      then have "\<exists>j<n. f_less F (f q j) (f_max F)" using s(2) by (auto simp: best_def)
      then show ?thesis using s(1) Some by (simp add: index_of_choice_def)
    qed
  qed
  have "for_each qs (\<lambda>q c. do { (idx, dist) \<leftarrow> seek q; Some (c + (if idx \<noteq> -1 then 1 else 0)) }) c0 =
      Some (c0 + length (filter (\<lambda>q. \<exists>j<n. f_less F (f q j) (f_max F)) qs))" if "set qs \<subseteq> set queries" for qs c0
    using that by (induction qs arbitrary: c0) (simp_all add: step)
  then show ?thesis by (simp add: count_found_def)
qed

text \<open>
  The program never reads outside a vector.  The numbers it prints as correct results count the queries with a distance below the largest number:
  they do not depend on whether the vectors found are the nearest ones.\<close>

theorem pq_main_counts:
  assumes F: "float_order F"
  shows "\<exists>codes. pq_main F num_data num_query data_gens query_gens train_gen =
    Some (length (filter (\<lambda>q. \<exists>j<num_data. f_less F (square_dist F q (random_vectors num_data data_gens ! j)) (f_max F)) (random_vectors num_query query_gens)),
          length (filter (\<lambda>q. \<exists>j<num_data. f_less F (code_dist F (train F train_gen (random_vectors num_data data_gens)
              \<lparr>pq_codebooks = [], pq_codes = codes\<rparr>) q j) (f_max F)) (random_vectors num_query query_gens)))"
proof -
  define dataset queries where "dataset = random_vectors num_data data_gens" and "queries = random_vectors num_query query_gens"
  let ?pq = "train F train_gen dataset \<lparr>pq_codebooks = [], pq_codes = []\<rparr>"
  have data: "\<forall>row\<in>set dataset. length row = DIM" "length dataset = num_data" and q: "\<And>q. q \<in> set queries \<Longrightarrow> length q = DIM"
    by (auto simp: dataset_def queries_def random_vectors_def generate_random_vector_def simp del: sizes)
  have brute: "count_found (\<lambda>q. linear_scan F q dataset) queries =
      Some (length (filter (\<lambda>q. \<exists>j<num_data. f_less F (square_dist F q (dataset ! j)) (f_max F)) queries))"
    by (rule count_found_eq) (use linear_scan_correct [OF F q data(1)] data(2) in simp)
  have ok: "codebooks_ok ?pq" by (rule train_ok) simp
  have "pq_codes ?pq = []" by (simp add: train_def)
  then obtain codes where enc: "encode F dataset ?pq = Some (?pq\<lparr>pq_codes := codes\<rparr>)" "tab_dim codes num_data M"
    using encode_correct [OF F ok data(1)] data(2) by blast
  have eq: "?pq\<lparr>pq_codes := codes\<rparr> = train F train_gen dataset \<lparr>pq_codebooks = [], pq_codes = codes\<rparr>" by (simp add: train_def)
  have "codebooks_ok (?pq\<lparr>pq_codes := codes\<rparr>)" using ok by (simp add: codebooks_ok_def)
  then have "count_found (pq_search F (?pq\<lparr>pq_codes := codes\<rparr>)) queries =
      Some (length (filter (\<lambda>q. \<exists>j<num_data. f_less F (code_dist F (?pq\<lparr>pq_codes := codes\<rparr>) q j) (f_max F)) queries))"
    by (intro count_found_eq pq_search_correct [OF F]) (use enc(2) q in \<open>simp_all del: sizes\<close>)
  then show ?thesis
    unfolding pq_main_def dataset_def [symmetric] queries_def [symmetric] Let_def using brute enc(1) eq by (auto simp del: sizes)
qed

end
