(* ===== verification/FirstRegistry.thy ===== *)
theory FirstRegistry
  imports Registry
begin

text \<open>
  \<open>regest.cpp\<close>: an earlier version of the factory registry in one file.  Its factories and objects are those of \<open>Registry\<close>; its traits are not:
  \<open>register_type_traits\<close> has lost the loop over the base classes, and \<open>base_type_index\<close> does not throw.
\<close>

definition first_register_type_traits :: "class_info \<Rightarrow> string \<Rightarrow> type_traits_registry \<Rightarrow> type_traits_registry" where
  "first_register_type_traits c name r =
     (let base_types = []
      in r\<lparr>tt_mapping := fst (umap_emplace name (class_name c) (tt_mapping r)),
           tt_base_type_mapping := fst (umap_emplace name base_types (tt_base_type_mapping r))\<rparr>)"

definition first_base_type_index :: "type_traits_registry \<Rightarrow> string \<Rightarrow> type_id list" where
  "first_base_type_index r name = (case map_of (tt_base_type_mapping r) name of None \<Rightarrow> [] | Some bs \<Rightarrow> bs)"

definition first_type_index :: "type_traits_registry \<Rightarrow> string \<Rightarrow> type_id option" where
  "first_type_index r name = (case map_of (tt_mapping r) name of None \<Rightarrow> None | Some i \<Rightarrow> Some i)"

definition first_factory_registerer :: "class_info \<Rightarrow> string \<Rightarrow> factory_registry \<Rightarrow> factory_registry" where
  "first_factory_registerer c name r =
     (let r1 = register_factory name (create_object c) destroy_object r
      in r1\<lparr>factory_traits := first_register_type_traits c name (factory_traits r1)\<rparr>)"

definition class_b :: class_info where
  "class_b = \<lparr>class_name = ''ClassB'', class_bases = [''ClassA'']\<rparr>"

definition class_c :: class_info where
  "class_c = \<lparr>class_name = ''ClassC'', class_bases = [''ClassA'']\<rparr>"

definition class_d :: class_info where
  "class_d = \<lparr>class_name = ''ClassD'', class_bases = []\<rparr>"

text \<open>The registries after the static initialization.\<close>

definition g_a_factory_registry :: factory_registry where
  "g_a_factory_registry = first_factory_registerer class_c ''class_c'' (first_factory_registerer class_b ''class_b'' empty_factory_registry)"

definition g_any_factory_registry :: factory_registry where
  "g_any_factory_registry = first_factory_registerer class_d ''class_d'' empty_factory_registry"

text \<open>\<open>main\<close> prints the address of a new object and returns 1.\<close>

definition regest_main :: "obj_heap \<Rightarrow> nat \<times> int \<times> obj_heap" where
  "regest_main h = (let (p, h1) = create_element g_a_factory_registry ''class_b'' h in (p, 1, h1))"

section \<open>Lemmas\<close>

text \<open>It is the later registry compiled without the traits extension.\<close>

lemma first_is_later: "first_factory_registerer c name r = factory_registerer False c name r"
  by (simp add: first_factory_registerer_def factory_registerer_def first_register_type_traits_def register_type_traits_def)

lemma first_type_index_eq: "first_type_index r name = type_index r name"
  by (simp add: first_type_index_def type_index_def option.case_eq_if)

text \<open>Whatever is registered, no class has a base class for it.\<close>

lemma first_no_bases:
  "first_base_type_index (factory_traits (fold (\<lambda>(c, name). first_factory_registerer c name) cs empty_factory_registry)) n = []"
proof -
  have "ran (map_of (tt_base_type_mapping (factory_traits (fold (\<lambda>(c, name). first_factory_registerer c name) cs r)))) \<subseteq> {[]}"
    if "ran (map_of (tt_base_type_mapping (factory_traits r))) \<subseteq> {[]}" for r
    using that
  proof (induction cs arbitrary: r)
    case (Cons x cs)
    have "ran (map_of (tt_base_type_mapping (factory_traits (first_factory_registerer (fst x) (snd x) r)))) \<subseteq> {[]}"
      using Cons.prems by (auto simp: first_factory_registerer_def first_register_type_traits_def register_factory_def umap_simps Let_def ran_def split: if_splits option.splits)
    from Cons.IH [OF this] show ?case by (simp add: split_beta)
  qed simp
  from this [of empty_factory_registry] show ?thesis
    by (auto simp: first_base_type_index_def empty_factory_registry_def empty_traits_def ran_def split: option.splits)
qed

text \<open>
  The program creates an object of the registered class and never destroys it.\<close>

theorem regest_main_leaks:
  assumes "\<not> heap_exhausted h"
  shows "regest_main h = (next_object h, 1, h\<lparr>objects := (next_object h, ''ClassB'') # objects h, next_object := Suc (next_object h)\<rparr>)"
  using assms
  by (simp add: regest_main_def g_a_factory_registry_def first_factory_registerer_def register_factory_def create_element_def create_object_def
      class_b_def class_c_def empty_factory_registry_def Let_def umap_simps)

end
