(* ===== verification/StringMain.thy ===== *)
theory StringMain
  imports StringClass
begin

text \<open>
  The program that tries out the class \<open>String\<close>: \<open>foo\<close>, \<open>bar\<close>, \<open>baz\<close> and \<open>main\<close>.  Each function is the sequence of constructions, copies, moves and destructions
  the language performs for its body.  Variables are numbered: \<open>s0\<close> to \<open>s5\<close> are 0 to 5, the elements of \<open>svec\<close> start at 10, parameters
  and temporary objects are 20 and 21.  The capacity reserved for \<open>svec\<close> is enough, so its elements never move.
\<close>

definition lit :: "string \<Rightarrow> string" where
  "lit cs = cs @ [nul]"

text \<open>\<open>foo\<close> takes its argument by value: the parameter is built before and destroyed after the body; \<open>bar\<close> takes a reference.\<close>

definition foo_body :: "nat \<Rightarrow> str_op list" where
  "foo_body x = [SText x]"

definition foo_copy :: "nat \<Rightarrow> str_op list" where
  "foo_copy v = [SCopyOf 20 v] @ foo_body 20 @ [SDestroy 20]"

definition foo_literal :: "string \<Rightarrow> str_op list" where
  "foo_literal cs = [SFrom 20 (lit cs)] @ foo_body 20 @ [SDestroy 20]"

definition bar_body :: "nat \<Rightarrow> str_op list" where
  "bar_body x = [SText x]"

definition bar_literal :: "string \<Rightarrow> str_op list" where
  "bar_literal cs = [SFrom 20 (lit cs)] @ bar_body 20 @ [SDestroy 20]"

text \<open>\<open>baz\<close> moves its local variable into the object that receives the result.\<close>

definition baz_into :: "nat \<Rightarrow> str_op list" where
  "baz_into v = [SFrom 20 (lit ''world''), SMoveOf v 20, SDestroy 20]"

definition push_back_copy :: "nat \<Rightarrow> nat \<Rightarrow> str_op list" where
  "push_back_copy i v = [SCopyOf (10 + i) v]"

definition push_back_temporary :: "nat \<Rightarrow> str_op list" where
  "push_back_temporary i = [SMoveOf (10 + i) 21, SDestroy 21]"

definition string_main :: "str_op list" where
  "string_main =
     [SDefault 0, SFrom 1 (lit ''hello''), SCopyOf 2 0, SCopyOf 3 1, SFrom 4 (lit ''world''), SAssignTo 2 1] @
     foo_copy 1 @ bar_body 1 @ foo_literal ''temporary'' @ bar_literal ''temporary'' @ baz_into 5 @
     concat (map (\<lambda>i. push_back_copy i i) [0..<6]) @
     baz_into 21 @ push_back_temporary 6 @
     [SFrom 21 (lit ''good job'')] @ push_back_temporary 7 @
     map SText [10..<18] @
     map SDestroy [10..<18] @ map SDestroy (rev [0..<6])"

fun texts_of :: "str_ans list \<Rightarrow> string list" where
  "texts_of [] = []"
| "texts_of (Text t # rs) = t # texts_of rs"
| "texts_of (_ # rs) = texts_of rs"

lemma string_main_legal: "run_legal str_spec str_legal string_main (\<lambda>_. None)"
  by code_simp

lemma string_main_texts:
  "texts_of (fst (run_spec str_spec string_main (\<lambda>_. None))) =
     [''hello'', ''hello'', ''temporary'', ''temporary'', '''', ''hello'', ''hello'', ''hello'', ''world'', ''world'', ''world'', ''good job'']"
  by code_simp

text \<open>An operation changes only the variables it names.\<close>

fun op_vars :: "str_op \<Rightarrow> nat list" where
  "op_vars (SDefault v) = [v]"
| "op_vars (SFrom v mem) = [v]"
| "op_vars (SCopyOf v u) = [v]"
| "op_vars (SMoveOf v u) = [v, u]"
| "op_vars (SAssignTo v u) = [v]"
| "op_vars (SMoveTo v u) = [v, u]"
| "op_vars (SDestroy v) = [v]"
| "op_vars _ = []"

lemma run_spec_frame: "v \<notin> set (concat (map op_vars ops)) \<Longrightarrow> snd (run_spec str_spec ops a) v = a v"
proof (induction ops arbitrary: a)
  case (Cons x ops)
  have "snd (str_spec x a) v = a v" using Cons.prems by (cases x) auto
  moreover have "snd (run_spec str_spec (x # ops) a) v = snd (run_spec str_spec ops (snd (str_spec x a))) v" by (simp split: prod.splits)
  ultimately show ?case using Cons by simp
qed simp

lemma string_main_ends: "snd (run_spec str_spec string_main (\<lambda>_. None)) v = None"
proof (cases "v < 22")
  case True
  have "map (snd (run_spec str_spec string_main (\<lambda>_. None))) [0..<22] = replicate 22 None" by code_simp
  then have "map (snd (run_spec str_spec string_main (\<lambda>_. None))) [0..<22] ! v = None" using True by (simp only: nth_replicate)
  then show ?thesis using True by (simp only: nth_map_upt) simp
next
  case False
  have "list_all (\<lambda>v. v < 22) (concat (map op_vars string_main))" by code_simp
  then have "v \<notin> set (concat (map op_vars string_main))" using False unfolding list_all_iff by blast
  from run_spec_frame [OF this] show ?thesis by (rule trans) simp
qed

text \<open>
  The program runs without undefined behaviour, prints the strings its statements name in their order, and releases every block it allocated.\<close>

theorem string_main_runs:
  "\<exists>rs s. run_machine str_step string_main str_empty = Some (rs, s) \<and>
     texts_of rs = [''hello'', ''hello'', ''temporary'', ''temporary'', '''', ''hello'', ''hello'', ''hello'', ''world'', ''world'', ''world'', ''good job''] \<and>
     (\<forall>v. st_vars s v = None) \<and> (\<forall>b. st_blocks s b = None)"
proof -
  have "str_rel str_empty (\<lambda>_. None)" by (rule str_relI) (simp_all add: str_empty_def str_inv_def owned_def)
  from str.run_sim [OF string_main_legal this]
  obtain s where s: "run_machine str_step string_main str_empty = Some (fst (run_spec str_spec string_main (\<lambda>_. None)), s)"
    "str_rel s (snd (run_spec str_spec string_main (\<lambda>_. None)))" by blast
  have none: "st_vars s v = None" for v using str_relD(3) [OF s(2), of v] string_main_ends by simp
  then have "dom (st_blocks s) = {}" using str_relD(1) [OF s(2)] by (simp add: str_inv_def owned_def)
  then show ?thesis using s(1) none string_main_texts by auto
qed

end
