(* ===== verification/Spec2Isabelle.thy ===== *)
theory Spec2Isabelle
  imports TopologyManager DoublyBuffered ServerConfig RpcComponent RpcService Lifecycle AppHost DagExecutor LruCache LsmTree
    EliasFano TaskDsl RpcCallMeta DoubleBuffer SearchIndex
    LinkedLists ListCycles CycleCheck SharedPtr HandOff StackQueue ArrayPrograms DecimalStrings TreePrograms
    StringClass Subsequences Increasing StringPrograms Grids Matrices Islands PairSums MergePrograms
    ConcurrentMap TreeQueries Ancestors TreeMerge XorNumbers Calculator Searching ListLru PqIndex RegistryDemo
    ManagerTests ManagerThreads EchoApp ServerSystem PqProgram FirstRegistry StringMain
begin

text \<open>
  Verification development of the repository's C++ sources.  The repository is a notebook of programs; most of its own
  logic is in a search server (\<open>DAG/\<close>), which runs topologies of modules, and beside it stand self-contained components:
  a doubly buffered container, a double buffer, a task DSL computed by templates, a small DAG executor, a log-structured store,
  posting-list codecs, an inverted index, a Bloom filter, and the data structures of \<open>find_job/look_for_job.cpp\<close>.

  \<^bold>\<open>The search server.\<close>  \<open>ServerMain.cpp\<close> starts a \<open>SearchWorker\<close>, which reads the configuration, loads an application through
  \<open>AppProxy\<close> and \<open>AppLoader\<close>, and gives it an \<open>RpcComponent\<close>.  The application registers modules (registries) and describes
  topologies; \<open>ModuleTopologyManager\<close> checks and sorts them and publishes them in a doubly buffered index.  Requests enter through
  \<open>RpcServiceImpl\<close>, which picks a topology and holds a reference on it while it runs.

  \<^item> \<open>Prelude\<close>: tables as association lists, the interface \<open>name_table\<close> of every name-indexed table, the interface
    \<open>op_simulation\<close> (a partial machine simulated by a total specification, operation by operation), list lemmas, and \<open>i32\<close>, an \<open>int\<close> result that is
    undefined when it does not fit into 32 bits.
  \<^item> \<open>TopoSort\<close> (\<open>ModuleTopologyManager.cpp\<close>, \<open>topology_sort\<close>): one definition per part of the loop body (\<open>sort_node\<close>,
    \<open>sort_flush\<close>, \<open>sort_pass\<close>); the \<open>while\<close> loop is \<open>sort_loop\<close>, whose termination measure is the number of elements not yet removed.
    Shown: when the sort succeeds, that its output is ordered, and which modules it reports as parallel.
  \<^item> \<open>Registry\<close> (\<open>DAG/registry\<close>, \<open>ModuleRegistry.h\<close>, \<open>ComponentRegistry.h\<close>): type traits, factories, elements, singletons over an
    explicit heap of objects.  Shown: creating and destroying through a factory, and what a second registration keeps.
  \<^item> \<open>DoublyBuffered\<close> (\<open>double_buffer/brpc_double.cpp\<close>): wrappers, \<open>Read\<close>, \<open>Modify\<close>, and \<open>dbd_step\<close>, every interleaving of one
    modifier (modifiers exclude each other by a mutex) with any number of readers.  Shown: no torn reads, agreement of the two instances, and that
    \<open>Modify\<close> returns in every infinite run that is fair to the modifier and in which no reader stays inside forever.
  \<^item> \<open>TopologyManager\<close> (rest of \<open>ModuleTopologyManager.cpp\<close>): index, storage, checks, adding, replacing and removing.  The container of
    the index is a parameter (\<open>dbd_ops\<close>) as it comes from a library there; the witnesses instantiate it.
    Shown: which configurations are accepted, the effect of each operation on every branch, the invariant of the manager.
  \<^item> \<open>ServerConfig\<close>, \<open>RpcComponent\<close>, \<open>RpcService\<close>: configuration values, the four ways to describe a topology and the order each
    imposes, RPC calls and services, the method table and the choice of a topology for a call.
  \<^item> \<open>RpcCallMeta\<close> (\<open>AsyncRpcModule.h\<close>): the per-call settings, with the flag word at its width.
  \<^item> \<open>Lifecycle\<close>: requests, replacing and removing as an interleaved step relation, in which \<open>add_topology\<close> stores its topology after \<open>Modify\<close> and \<open>Delete\<close>
    deletes only what it finds in the storage.  Shown: no use of a deleted topology; where every live topology is and who owns it; no leak when calls do not overlap; and the
    leak when another call replaces a topology before it is stored.
  \<^item> \<open>AppHost\<close> (\<open>AppLoader.cpp\<close>, \<open>AppProxy.cpp\<close>, \<open>SearchWorker.cpp\<close>, \<open>ServerMain.cpp\<close>): loading, starting and stopping.  A call
    may return, abort or hang (\<open>run\<close>).
  \<^item> \<open>ModuleInterfaces\<close> (\<open>Module.h\<close>, \<open>RunnableModule.h\<close>, \<open>SyncModule.h\<close>, \<open>AsyncRpcModule.h\<close>, \<open>SwApp.h\<close>): classes as records of their virtual functions,
    with the bodies the headers define.
  \<^item> \<open>EchoApp\<close> (\<open>DAG/echo_server\<close>): an application as the client of all of the above.  Shown: the worker initialises it and starts, its service is exposed,
    a call schedules its module, and stopping the running worker aborts; the theorem names what it needs of the environment.
  \<^item> \<open>ServerSystem\<close>: the border with the system (signals, loggers, access log).  Shown: every signal the server waits for is left to the wait.
  \<^item> \<open>ManagerTests\<close>, \<open>ManagerThreads\<close> (\<open>ModuleTopologyManagerTest.cpp\<close>): the unit tests, which succeed on the model.  The test with forty threads is a step
    relation over the steps of \<open>Lifecycle\<close>, with the storage mutex and with the checks, the monitor and the pool of \<open>add_topology\<close>, any of which may fail.  Shown, for an environment in
    which monitors are exposed and session-local data of registered modules is created: no expectation fails in any interleaving, and the threads never get stuck.

  \<^bold>\<open>Self-contained components.\<close>

  \<^item> \<open>DagExecutor\<close> (\<open>DAG/dag.cpp\<close>): depth-first execution.  Recursion is bounded by fuel; the number of modules is enough, because each
    nested call visits a new module, and the theorem states that the executor returns.
  \<^item> \<open>DoubleBuffer\<close> (\<open>double.cpp\<close>): the buffer run alone and interleaved with a reader.
  \<^item> \<open>TypeLists\<close>, \<open>TaskDsl\<close> (\<open>recipes/\<close>): template metafunctions as list functions.  The first argument of \<open>task_run\<close> bounds the depth
    of template instantiation; two more than the number of jobs is enough for acyclic links, and no depth is for cyclic ones.
  \<^item> \<open>LsmTree\<close> (\<open>lsmtree.cpp\<close>): files are their contents; reading parses the written text.  Refines a memory map with flushed maps.
  \<^item> \<open>EliasFano\<close> (\<open>Partitioned-Elias-Fano.cpp\<close>): both codes on 32-bit words, the partitions of \<open>main\<close>; AVX2 operations lane by lane.  A block that
    ends in the id 0 is undefined (the logarithm of 0 is converted to \<open>int\<close>).
  \<^item> \<open>SearchIndex\<close> (\<open>BloomFilter.cpp\<close>, \<open>Roaring.cpp\<close>): the hash function and the bitmap library are parameters.
  \<^item> \<open>PqIndex\<close> (\<open>pq_test.cpp\<close>): nearest neighbours by linear scan and by product quantization.  Arithmetic on \<open>float\<close> is a parameter (a record of
    operations); the only law used is that \<open><\<close> is irreflexive and transitive, so the theorems hold of IEEE numbers.
    \<open>PqProgram\<close> adds the random codebooks and \<open>main\<close>.
  \<^item> \<open>RegistryDemo\<close> (\<open>learing_searcher_work.cpp\<close>): a client of the registries with its assertions, none of which fails.  \<open>FirstRegistry\<close> (\<open>regest.cpp\<close>):
    an earlier registry, whose traits have lost the base classes.

  \<^bold>\<open>Programs of find_job/look_for_job.cpp.\<close>

  \<^item> \<open>LruCache\<close>: the cache with its doubly linked list over an explicit heap of nodes; every access through a null or
    unallocated pointer is an error of the model.  Refines a list of entries in order of last use.
  \<^item> \<open>LinkedLists\<close>, \<open>ListCycles\<close>: in-place programs on singly linked lists over a heap.  Loops are partial functions, since a list may be
    cyclic; the theorems state the value returned, which nodes are linked in which order, and what stays unchanged.  The cycle
    programs are shown to return in every finite heap without dangling pointers.
  \<^item> \<open>CycleCheck\<close>: the class \<open>DAG\<close>, a depth-first search with two flag vectors, within a recursion depth of the number of vertices.
  \<^item> \<open>SharedPtr\<close>: reference counting, with pointers as variables and as members of managed objects, which are released when their object is deleted.  The invariant says that
    counters, mutexes and objects are exactly those of the live pointers.  An assignment from a member of the object that it releases reads freed memory.
  \<^item> \<open>HandOff\<close>: three threads that print in order, as a step relation.
  \<^item> \<open>StackQueue\<close>: a queue of two stacks, an instance of \<open>op_simulation\<close>.
  \<^item> \<open>ArrayPrograms\<close>: binary searches, the square root with its 32-bit range, the monotone queue, the maximal subarray and the rain-water
    problem.  The sums of subarrays are checked at 32 bits; the rain water is a \<open>long long\<close> in the source and an integer here.
  \<^item> \<open>DecimalStrings\<close>: two additions of decimal strings.
  \<^item> \<open>TreePrograms\<close>: recursive and iterative programs on binary trees, and rebuilding a tree from its traversals; the recursion depth of
    the latter is one more than the number of nodes.
  \<^item> \<open>StringClass\<close>: the class \<open>String\<close> over a store of blocks, an instance of \<open>op_simulation\<close>.  Shown: no access to released memory, no leak, value semantics.  \<open>StringMain\<close> runs the program
    that tries it out.
  \<^item> \<open>Tables\<close>: vectors, tables and counting loops with checked accesses, and the invariant rules for nested loops that fill a table.
    The next four theories rest on them.
  \<^item> \<open>Subsequences\<close>, \<open>Increasing\<close>: longest common subsequences (with the way back through the table), common parts, increasing
    subsequences in three programs, increasing parts.
  \<^item> \<open>StringPrograms\<close>: palindromes by tables, the longest part without repetition by a sliding window, cancelling equal neighbours.
  \<^item> \<open>Grids\<close>: the number of paths with additions checked at 32 bits, the least sum of a path, checked likewise.
  \<^item> \<open>Matrices\<close>: spiral order and rotation.
  \<^item> \<open>Islands\<close>: the recursive search that sinks an island.  Its recursion depth is a parameter, and the number of land cells is enough, because
    every call turns a land cell into water.
  \<^item> \<open>PairSums\<close>, \<open>MergePrograms\<close>: two and three elements with a given sum, merging sorted arrays in three ways, merging intervals.
    Sums, differences and negations are checked at 32 bits.
  \<^item> \<open>ConcurrentMap\<close>: the hash table with a mutex for each bucket, under any interleaving of any number of threads.  Shown: linearizability, by
    the point at which each call takes effect; mutual exclusion; from every reachable state every call can be completed.  The class
    is misspelt in several places and does not compile; it is modelled as it is meant.
  \<^item> \<open>ListLru\<close>: the first LRU cache, with iterators into a list.  Shown: it reads an erased iterator whenever a key is found or displaced.
  \<^item> \<open>TreeQueries\<close>, \<open>Ancestors\<close>, \<open>TreeMerge\<close>: tests and searches in trees, root-to-leaf paths, lowest common ancestors in four programs,
    and merging trees in three programs over a heap of nodes, with sums checked at 32 bits.
  \<^item> \<open>XorNumbers\<close>, \<open>Calculator\<close>, \<open>Searching\<close>: numbers without partner on 32-bit words, the calculator for expressions with
    parentheses (every operation checked at 32 bits), the first and last occurrence by binary search, the most frequent words.

  \<^bold>\<open>Not modelled.\<close>  Logging and printing; the generated protobuf classes and brpc itself (parameters where the sources rely on
  them); the CDL compiler interface behind \<open>AppLoader\<close>; the scheduler and its unit tests; the demo
  programs (\<open>pthread_key.c\<close>, \<open>test.cpp\<close>), which only call a library; \<open>recipes/dsl.cpp\<close>, which repeats the task DSL; the load test in \<open>double.cpp\<close>, whose threads never end; notes and scripts in other languages;
  the remaining exercises of \<open>find_job/look_for_job.cpp\<close>.  Memory-model effects weaker than interleaving are outside the step relations.
\<close>

end
